(* ===== verification/Prelude.thy ===== *)
theory Prelude
  imports Main "HOL-Library.Monad_Syntax" "HOL-Library.Multiset" "HOL-Library.Char_ord"
begin

text \<open>
  Shared notions of the development: the failure monad for C++ code whose run can be
  undefined (a vector read out of range, a failed assertion, an abort, an escaping exception),
  vectors indexed by \<open>int\<close>, counted loops, and the string helpers of the standard
  library that the modelled sources call.

  \<open>'a option\<close> is the result of a C++ operation: \<open>None\<close> stands for a run whose
  behaviour the program does not define or which stops the program, \<open>Some x\<close> for a
  run that returns \<open>x\<close>.
\<close>

named_theorems vec_simps \<open>reads and writes of vectors\<close>
named_theorems run_intros \<open>rules that show that a run is defined\<close>

section \<open>The failure monad\<close>

definition check :: "bool \<Rightarrow> unit option" where
  "check b = (if b then Some () else None)"

lemma check_simps [simp]: "check True = Some ()" "check False = None"
  "check b = Some u \<longleftrightarrow> b" "check b = None \<longleftrightarrow> \<not> b"
  by (auto simp: check_def)

lemma check_bind [simp]: "(check b \<bind> f) = (if b then f () else None)"
  by (simp add: check_def)

lemma bind_Some_iff: "(m \<bind> f) = Some y \<longleftrightarrow> (\<exists>x. m = Some x \<and> f x = Some y)"
  by (simp add: Option.bind_eq_Some_conv)

lemma bind_SomeE:
  assumes "(m \<bind> f) = Some y" obtains x where "m = Some x" "f x = Some y"
  using assms by (auto simp: bind_Some_iff)

text \<open>
  \<open>ensures m P\<close>: the run \<open>m\<close> is defined and its result satisfies \<open>P\<close> (total
  correctness). The collection \<open>wp\<close> computes it along the code.
\<close>

named_theorems wp \<open>weakest preconditions of the code's constructs\<close>

definition ensures :: "'a option \<Rightarrow> ('a \<Rightarrow> bool) \<Rightarrow> bool" where
  "ensures m P \<longleftrightarrow> (\<exists>x. m = Some x \<and> P x)"

lemma ensures_Some [wp]: "ensures (Some x) P \<longleftrightarrow> P x"
  and ensures_None [wp]: "\<not> ensures None P"
  and ensures_bind [wp]: "ensures (m \<bind> f) P \<longleftrightarrow> ensures m (\<lambda>x. ensures (f x) P)"
  and ensures_check [wp]: "ensures (check b) Q \<longleftrightarrow> b \<and> Q ()"
  and ensures_map [wp]: "ensures (map_option g m) P \<longleftrightarrow> ensures m (\<lambda>x. P (g x))"
  by (auto simp: ensures_def bind_Some_iff check_def)

lemma ensures_if [wp]: "ensures (if c then a else b) P \<longleftrightarrow> (c \<longrightarrow> ensures a P) \<and> (\<not> c \<longrightarrow> ensures b P)"
  by simp

lemma ensures_mono: "ensures m P \<Longrightarrow> (\<And>x. m = Some x \<Longrightarrow> P x \<Longrightarrow> Q x) \<Longrightarrow> ensures m Q"
  by (auto simp: ensures_def)

lemma ensuresE:
  assumes "ensures m P" obtains x where "m = Some x" "P x"
  using assms by (auto simp: ensures_def)

text \<open>\<open>returns m P\<close>: if \<open>m\<close> is defined its result satisfies \<open>P\<close> (partial correctness).\<close>

definition returns :: "'a option \<Rightarrow> ('a \<Rightarrow> bool) \<Rightarrow> bool" where
  "returns m P \<longleftrightarrow> (\<forall>x. m = Some x \<longrightarrow> P x)"

lemma returns_simps [simp]: "returns (Some x) P \<longleftrightarrow> P x" "returns None P"
  by (auto simp: returns_def)

lemma returns_bind [run_intros]: "(\<And>x. m = Some x \<Longrightarrow> returns (f x) P) \<Longrightarrow> returns (m \<bind> f) P"
  by (auto simp: returns_def bind_Some_iff)

lemma returns_if [run_intros]: "(c \<Longrightarrow> returns a P) \<Longrightarrow> (\<not> c \<Longrightarrow> returns b P) \<Longrightarrow> returns (if c then a else b) P"
  by simp

lemma returnsD: "returns m P \<Longrightarrow> m = Some x \<Longrightarrow> P x"
  by (simp add: returns_def)

lemma returnsI: "(\<And>x. m = Some x \<Longrightarrow> P x) \<Longrightarrow> returns m P"
  by (simp add: returns_def)

text \<open>A \<open>for\<close> loop over a list of loop values, threading a state.\<close>

primrec for_each :: "'a list \<Rightarrow> ('a \<Rightarrow> 's \<Rightarrow> 's option) \<Rightarrow> 's \<Rightarrow> 's option" where
  "for_each [] f s = Some s"
| "for_each (x # xs) f s = do { s' \<leftarrow> f x s; for_each xs f s' }"

lemma for_each_append:
  "for_each (xs @ ys) f s = do { s' \<leftarrow> for_each xs f s; for_each ys f s' }"
  by (induction xs arbitrary: s) (auto split: Option.bind_split)

lemma for_each_fold: "for_each xs (\<lambda>x s. Some (f x s)) s = Some (fold f xs s)"
  by (induction xs arbitrary: s) auto

lemma for_each_cong [fundef_cong]:
  assumes "xs = ys" "s = t" "\<And>x u. x \<in> set ys \<Longrightarrow> f x u = g x u"
  shows "for_each xs f s = for_each ys g t"
proof -
  have "(\<And>x u. x \<in> set ys \<Longrightarrow> f x u = g x u) \<Longrightarrow> for_each ys f t = for_each ys g t" for t
    by (induction ys arbitrary: t) (auto split: Option.bind_split)
  with assms show ?thesis by simp
qed

text \<open>
  The two rules for loops: an invariant indexed by the values already processed, once for a
  loop that is known to have run (partial) and once showing that it runs (total).
\<close>

lemma for_each_inv:
  assumes run: "for_each xs f s = Some t"
    and init: "I [] s"
    and step: "\<And>ys x zs s s'. xs = ys @ x # zs \<Longrightarrow> I ys s \<Longrightarrow> f x s = Some s' \<Longrightarrow> I (ys @ [x]) s'"
  shows "I xs t"
proof -
  have "I (ys @ zs) t" if "xs = ys @ zs" "I ys s" "for_each zs f s = Some t" for ys zs s
    using that
  proof (induction zs arbitrary: ys s)
    case Nil
    then show ?case by simp
  next
    case (Cons z zs)
    then obtain s' where "f z s = Some s'" "for_each zs f s' = Some t"
      by (auto simp: bind_Some_iff)
    with Cons.prems Cons.IH [of "ys @ [z]" s'] step show ?case by simp
  qed
  from this [of "[]" xs] init run show ?thesis by simp
qed

lemma for_each_total:
  assumes init: "I [] s"
    and step: "\<And>ys x zs s. xs = ys @ x # zs \<Longrightarrow> I ys s \<Longrightarrow> \<exists>s'. f x s = Some s' \<and> I (ys @ [x]) s'"
  shows "\<exists>t. for_each xs f s = Some t \<and> I xs t"
proof -
  have "\<exists>t. for_each zs f s = Some t \<and> I (ys @ zs) t" if "xs = ys @ zs" "I ys s" for ys zs s
    using that
  proof (induction zs arbitrary: ys s)
    case Nil
    then show ?case by simp
  next
    case (Cons z zs)
    then obtain s' where s': "f z s = Some s'" "I (ys @ [z]) s'"
      using step by blast
    with Cons.prems Cons.IH [of "ys @ [z]" s'] show ?case by simp
  qed
  from this [of "[]" xs] init show ?thesis by simp
qed

lemma ensures_for_each:
  assumes "I [] s"
    and "\<And>ys x zs s. xs = ys @ x # zs \<Longrightarrow> I ys s \<Longrightarrow> ensures (f x s) (I (ys @ [x]))"
    and "\<And>t. I xs t \<Longrightarrow> P t"
  shows "ensures (for_each xs f s) P"
  using for_each_total [of I s xs f] assms by (auto simp: ensures_def)

text \<open>An invariant that does not mention the position in the loop.\<close>

lemma for_each_keeps:
  assumes "for_each xs f s = Some t" "P s"
    and "\<And>x s s'. x \<in> set xs \<Longrightarrow> P s \<Longrightarrow> f x s = Some s' \<Longrightarrow> P s'"
  shows "P t"
proof (rule for_each_inv [OF assms(1)])
  show "P s" by fact
next
  fix ys x zs u u'
  assume "xs = ys @ x # zs" "P u" "f x u = Some u'"
  then show "P u'" using assms(3) [of x u u'] by simp
qed

lemma for_each_runs:
  assumes "P s" and "\<And>x s. x \<in> set xs \<Longrightarrow> P s \<Longrightarrow> \<exists>s'. f x s = Some s' \<and> P s'"
  shows "\<exists>t. for_each xs f s = Some t \<and> P t"
  by (rule for_each_total [where I = "\<lambda>_. P"]) (use assms in auto)

text \<open>A loop whose body may \<open>break\<close>: the body says whether the loop goes on.\<close>

primrec for_break :: "'a list \<Rightarrow> ('a \<Rightarrow> 's \<Rightarrow> ('s \<times> bool) option) \<Rightarrow> 's \<Rightarrow> 's option" where
  "for_break [] f s = Some s"
| "for_break (x # xs) f s = do { (s', go) \<leftarrow> f x s; if go then for_break xs f s' else Some s' }"

lemma for_break_keeps:
  assumes "for_break xs f s = Some t" "P s"
    and "\<And>x s s' go. x \<in> set xs \<Longrightarrow> P s \<Longrightarrow> f x s = Some (s', go) \<Longrightarrow> P s'"
  shows "P t"
  using assms
proof (induction xs arbitrary: s)
  case (Cons x xs)
  then obtain s' go where step: "f x s = Some (s', go)" "(if go then for_break xs f s' else Some s') = Some t"
    by (auto simp: bind_Some_iff)
  have "P s'" by (rule Cons.prems(3) [OF _ Cons.prems(2) step(1)]) simp
  then show ?case using step(2) Cons.IH [of s'] Cons.prems(3) by (cases go) auto
qed simp

section \<open>Vectors indexed by int\<close>

definition vat :: "'a list \<Rightarrow> int \<Rightarrow> 'a option" where
  "vat xs i = (if 0 \<le> i \<and> i < int (length xs) then Some (xs ! nat i) else None)"

definition vset :: "'a list \<Rightarrow> int \<Rightarrow> 'a \<Rightarrow> 'a list option" where
  "vset xs i v = (if 0 \<le> i \<and> i < int (length xs) then Some (xs[nat i := v]) else None)"

text \<open>The range \<open>[begin + i, begin + i + n)\<close> of a vector, copied.\<close>

definition vslice :: "'a list \<Rightarrow> int \<Rightarrow> int \<Rightarrow> 'a list option" where
  "vslice xs i n = (if 0 \<le> i \<and> 0 \<le> n \<and> i + n \<le> int (length xs)
     then Some (take (nat n) (drop (nat i) xs)) else None)"

definition vback :: "'a list \<Rightarrow> 'a option" where
  "vback xs = (if xs = [] then None else Some (last xs))"

definition vfront :: "'a list \<Rightarrow> 'a option" where
  "vfront xs = (case xs of [] \<Rightarrow> None | x # _ \<Rightarrow> Some x)"

text \<open>\<open>v.erase(v.begin() + i)\<close> and \<open>v.insert(v.begin() + i, x)\<close>.\<close>

definition verase :: "'a list \<Rightarrow> int \<Rightarrow> 'a list option" where
  "verase xs i = (if 0 \<le> i \<and> i < int (length xs) then Some (take (nat i) xs @ drop (Suc (nat i)) xs) else None)"

definition vinsert :: "'a list \<Rightarrow> int \<Rightarrow> 'a \<Rightarrow> 'a list option" where
  "vinsert xs i x = (if 0 \<le> i \<and> i \<le> int (length xs) then Some (take (nat i) xs @ x # drop (nat i) xs) else None)"

definition vsize :: "'a list \<Rightarrow> int" where
  "vsize xs = int (length xs)"

lemma vsize_simps [simp]: "vsize [] = 0" "vsize (x # xs) = 1 + vsize xs"
  "vsize (xs @ ys) = vsize xs + vsize ys" "0 \<le> vsize xs" "vsize (replicate n a) = int n"
  "vsize (map f xs) = vsize xs" "\<not> vsize xs < 0" "vsize xs = 0 \<longleftrightarrow> xs = []" "vsize (xs[n := a]) = vsize xs"
  by (auto simp: vsize_def)

lemma vat_eq [vec_simps]: "0 \<le> i \<Longrightarrow> i < int (length xs) \<Longrightarrow> vat xs i = Some (xs ! nat i)"
  by (simp add: vat_def)

lemma vat_nat [simp]: "n < length xs \<Longrightarrow> vat xs (int n) = Some (xs ! n)"
  by (simp add: vat_def)

lemma vat_Some_iff: "vat xs i = Some a \<longleftrightarrow> 0 \<le> i \<and> i < int (length xs) \<and> a = xs ! nat i"
  by (auto simp: vat_def)

lemma vat_None_iff: "vat xs i = None \<longleftrightarrow> i < 0 \<or> int (length xs) \<le> i"
  by (auto simp: vat_def)

lemma ensures_vat [wp]: "ensures (vat xs i) P \<longleftrightarrow> 0 \<le> i \<and> i < vsize xs \<and> P (xs ! nat i)"
  by (auto simp: ensures_def vat_def vsize_def)

lemma ensures_vset [wp]: "ensures (vset xs i v) P \<longleftrightarrow> 0 \<le> i \<and> i < vsize xs \<and> P (xs[nat i := v])"
  by (auto simp: ensures_def vset_def vsize_def)

lemma vset_eq [vec_simps]: "0 \<le> i \<Longrightarrow> i < int (length xs) \<Longrightarrow> vset xs i v = Some (xs[nat i := v])"
  by (simp add: vset_def)

lemma vset_nat [simp]: "n < length xs \<Longrightarrow> vset xs (int n) v = Some (xs[n := v])"
  by (simp add: vset_def)

lemma vset_Some_iff:
  "vset xs i v = Some ys \<longleftrightarrow> 0 \<le> i \<and> i < int (length xs) \<and> ys = xs[nat i := v]"
  by (auto simp: vset_def)

lemma vslice_Some_iff: "vslice xs i n = Some ys \<longleftrightarrow>
    0 \<le> i \<and> 0 \<le> n \<and> i + n \<le> int (length xs) \<and> ys = take (nat n) (drop (nat i) xs)"
  by (auto simp: vslice_def)

lemma vat_append: "vat (xs @ ys) i = (if i < vsize xs then vat xs i else vat ys (i - vsize xs))"
  by (auto simp: vat_def vsize_def nth_append nat_diff_distrib nat_less_iff nat_int_comparison)

lemma vat_singleton: "vat [x] i = (if i = 0 then Some x else None)"
  by (auto simp: vat_def)

lemma vat_bound: "vat xs i = Some x \<Longrightarrow> 0 \<le> i \<and> i < vsize xs"
  by (auto simp: vat_def vsize_def split: if_splits)

lemma vat_grow: "vat xs i = Some x \<Longrightarrow> vat (xs @ ys) i = Some x"
  by (auto simp: vat_append dest: vat_bound)

lemma vat_in_set: "vat xs i = Some x \<Longrightarrow> x \<in> set xs"
  by (auto simp: vat_Some_iff)

lemma vat_Cons: "vat (x # xs) i = (if i = 0 then Some x else vat xs (i - 1))"
  by (auto simp: vat_def nth_Cons' nat_diff_distrib)

lemma vat_Cons_0 [simp]: "vat (x # xs) 0 = Some x"
  by (simp add: vat_def)

lemma vat_vset: "vset xs i v = Some ys \<Longrightarrow> vat ys j = (if i = j then Some v else vat xs j)"
  by (auto simp: vset_def vat_def split: if_splits)

text \<open>
  \<open>for (size_t i = lo; i < hi; ++i)\<close> with \<open>int\<close> bounds: the comparison is made on the
  64-bit unsigned values, so a negative bound is a very large one.
\<close>

definition to_size_t :: "int \<Rightarrow> int" where
  "to_size_t x = (if 0 \<le> x then x else x + 2 ^ 64)"

definition size_range :: "int \<Rightarrow> int \<Rightarrow> int list" where
  "size_range lo hi = [to_size_t lo .. to_size_t hi - 1]"

lemma size_range_nonneg [simp]: "0 \<le> lo \<Longrightarrow> 0 \<le> hi \<Longrightarrow> size_range lo hi = [lo .. hi - 1]"
  by (simp add: size_range_def to_size_t_def)

text \<open>\<open>for (int i = lo; i < hi; ++i)\<close>.\<close>

definition int_range :: "int \<Rightarrow> int \<Rightarrow> int list" where
  "int_range lo hi = [lo .. hi - 1]"

lemma set_int_range [simp]: "set (int_range lo hi) = {lo..<hi}"
  by (auto simp: int_range_def)

lemma int_range_empty [simp]: "hi \<le> lo \<Longrightarrow> int_range lo hi = []"
  by (simp add: int_range_def)

lemma int_range_Cons: "lo < hi \<Longrightarrow> int_range lo hi = lo # int_range (lo + 1) hi"
  by (simp add: int_range_def upto_rec1)

lemma int_range_snoc: "lo \<le> hi \<Longrightarrow> int_range lo (hi + 1) = int_range lo hi @ [hi]"
  by (simp add: int_range_def upto_rec2)

lemma length_int_range [simp]: "length (int_range lo hi) = nat (hi - lo)"
  by (simp add: int_range_def)

lemma nth_int_range [simp]: "n < nat (hi - lo) \<Longrightarrow> int_range lo hi ! n = lo + int n"
  by (simp add: int_range_def nth_upto)

lemma int_range_append: "lo \<le> m \<Longrightarrow> m \<le> hi \<Longrightarrow> int_range lo hi = int_range lo m @ int_range m hi"
  unfolding int_range_def using upto_split1 [of lo m "hi - 1"]
  by (cases "m = hi") auto

lemma int_range_split:
  assumes "int_range lo hi = ys @ x # zs"
  shows "x = lo + int (length ys) \<and> ys = int_range lo x \<and> zs = int_range (x + 1) hi \<and> lo \<le> x \<and> x < hi"
proof -
  have len: "length ys < nat (hi - lo)"
    using arg_cong [OF assms, of length] by simp
  then have x: "x = lo + int (length ys)"
    using arg_cong [OF assms, of "\<lambda>l. l ! length ys"] by simp
  have lt: "lo \<le> x" "x < hi" using x len by linarith+
  have "int_range lo hi = int_range lo x @ x # int_range (x + 1) hi"
    using lt int_range_append [of lo x hi] int_range_Cons [of x hi] by simp
  moreover have "length (int_range lo x) = length ys" using x by simp
  ultimately have "ys = int_range lo x" "zs = int_range (x + 1) hi"
    using assms by (metis append_eq_append_conv list.inject)+
  then show ?thesis using x lt by simp
qed

text \<open>Counted loops: the invariant is indexed by the loop variable.\<close>

lemma for_range_total:
  assumes "I lo s" "lo \<le> hi"
    and "\<And>i s. lo \<le> i \<Longrightarrow> i < hi \<Longrightarrow> I i s \<Longrightarrow> \<exists>s'. f i s = Some s' \<and> I (i + 1) s'"
  shows "\<exists>t. for_each (int_range lo hi) f s = Some t \<and> I hi t"
proof -
  have "\<exists>t. for_each (int_range lo hi) f s = Some t \<and> I (lo + int (length (int_range lo hi))) t"
  proof (rule for_each_total [where I = "\<lambda>ys. I (lo + int (length ys))"])
    show "I (lo + int (length ([] :: int list))) s" using assms(1) by simp
  next
    fix ys x zs s
    assume split: "int_range lo hi = ys @ x # zs" and I: "I (lo + int (length ys)) s"
    have "x = lo + int (length ys)" "lo \<le> x" "x < hi" using int_range_split [OF split] by blast+
    then show "\<exists>s'. f x s = Some s' \<and> I (lo + int (length (ys @ [x]))) s'"
      using assms(3) [of x s] I by (simp add: algebra_simps)
  qed
  then show ?thesis using assms(2) by simp
qed

lemma for_range_inv:
  assumes "for_each (int_range lo hi) f s = Some t" "I lo s" "lo \<le> hi"
    and "\<And>i s s'. lo \<le> i \<Longrightarrow> i < hi \<Longrightarrow> I i s \<Longrightarrow> f i s = Some s' \<Longrightarrow> I (i + 1) s'"
  shows "I hi t"
proof -
  have "I (lo + int (length (int_range lo hi))) t"
  proof (rule for_each_inv [OF assms(1), where I = "\<lambda>ys. I (lo + int (length ys))"])
    show "I (lo + int (length ([] :: int list))) s" using assms(2) by simp
  next
    fix ys x zs s s'
    assume split: "int_range lo hi = ys @ x # zs" and I: "I (lo + int (length ys)) s" and f: "f x s = Some s'"
    have "x = lo + int (length ys)" "lo \<le> x" "x < hi" using int_range_split [OF split] by blast+
    then show "I (lo + int (length (ys @ [x]))) s'"
      using assms(4) [of x s s'] I f by (simp add: algebra_simps)
  qed
  then show ?thesis using assms(3) by simp
qed

lemma ensures_for_range:
  assumes "I lo s" "lo \<le> hi"
    and "\<And>i s. lo \<le> i \<Longrightarrow> i < hi \<Longrightarrow> I i s \<Longrightarrow> ensures (f i s) (I (i + 1))"
    and "\<And>t. I hi t \<Longrightarrow> P t"
  shows "ensures (for_each (int_range lo hi) f s) P"
  using for_range_total [of I lo s hi f] assms by (auto simp: ensures_def)

lemma ensures_break_range:
  assumes "I lo s" "lo \<le> hi"
    and "\<And>i s. lo \<le> i \<Longrightarrow> i < hi \<Longrightarrow> I i s \<Longrightarrow> ensures (f i s) (\<lambda>(s', go). if go then I (i + 1) s' else P s')"
    and "\<And>t. I hi t \<Longrightarrow> P t"
  shows "ensures (for_break (int_range lo hi) f s) P"
  using assms
proof (induction "nat (hi - lo)" arbitrary: lo s)
  case 0
  then show ?case by (simp add: ensures_Some)
next
  case (Suc n)
  then have lt: "lo < hi" by simp
  obtain s' go where f: "f lo s = Some (s', go)" "if go then I (lo + 1) s' else P s'"
    using Suc.prems(3) [OF order_refl lt Suc.prems(1)] by (auto simp: ensures_def)
  show ?case
  proof (cases go)
    case True
    have "ensures (for_break (int_range (lo + 1) hi) f s') P"
      by (rule Suc.hyps(1)) (use Suc.hyps(2) Suc.prems f True lt in auto)
    then show ?thesis using f True by (simp add: int_range_Cons [OF lt])
  next
    case False
    then show ?thesis using f by (simp add: int_range_Cons [OF lt] ensures_Some)
  qed
qed

text \<open>A loop that may not end; it ends when a measure gets smaller.\<close>

partial_function (option) loop_while :: "('s \<Rightarrow> bool) \<Rightarrow> ('s \<Rightarrow> 's option) \<Rightarrow> 's \<Rightarrow> 's option" where
  "loop_while c f s = (if c s then do { s \<leftarrow> f s; loop_while c f s } else Some s)"

declare loop_while.simps [code]

lemma loop_while_total:
  assumes "I s" "\<And>s. I s \<Longrightarrow> c s \<Longrightarrow> ensures (f s) (\<lambda>s'. I s' \<and> (m s' :: nat) < m s)"
  shows "ensures (loop_while c f s) (\<lambda>s'. I s' \<and> \<not> c s')"
  using assms(1)
proof (induction "m s" arbitrary: s rule: less_induct)
  case (less s)
  show ?case
  proof (cases "c s")
    case True
    obtain s' where s': "f s = Some s'" "I s'" "m s' < m s" using assms(2) [OF less.prems True] by (rule ensuresE) auto
    have "ensures (loop_while c f s') (\<lambda>s'. I s' \<and> \<not> c s')" by (rule less.hyps [OF s'(3,2)])
    then show ?thesis by (subst loop_while.simps) (simp add: True s'(1))
  qed (use less.prems in \<open>subst loop_while.simps, simp add: ensures_Some\<close>)
qed

text \<open>\<open>for (size_t i = 0; i < v.size(); ++i)\<close>: the positions of a vector.\<close>

abbreviation positions :: "'a list \<Rightarrow> int list" where
  "positions xs \<equiv> int_range 0 (vsize xs)"

section \<open>Strings of the standard library\<close>

text \<open>The characters that \<open>isspace\<close> accepts in the C locale.\<close>

definition isspace :: "char \<Rightarrow> bool" where
  "isspace c = (c \<in> {CHR '' '', CHR 0x09, CHR 0x0A, CHR 0x0B, CHR 0x0C, CHR 0x0D})"

text \<open>
  The maximal runs of characters outside \<open>p\<close>; \<open>words_of\<close> are the words that
  repeated \<open>stream >> word\<close> reads from a string.
\<close>

function split_by :: "(char \<Rightarrow> bool) \<Rightarrow> string \<Rightarrow> string list" where
  "split_by p [] = []"
| "split_by p (c # cs) = (if p c then split_by p cs
     else (c # takeWhile (\<lambda>d. \<not> p d) cs) # split_by p (dropWhile (\<lambda>d. \<not> p d) cs))"
  by pat_completeness auto
termination
  by (relation "measure (\<lambda>(p, s). length s)") (auto simp: less_Suc_eq_le length_dropWhile_le)

abbreviation words_of :: "string \<Rightarrow> string list" where
  "words_of \<equiv> split_by isspace"

text \<open>
  \<open>std::stoi\<close>: leading white space, an optional sign, digits; it raises when there is no
  digit and when the value is outside the range of \<open>int\<close>.
\<close>

definition is_digit :: "char \<Rightarrow> bool" where
  "is_digit c = (CHR ''0'' \<le> c \<and> c \<le> CHR ''9'')"

definition digit_value :: "char \<Rightarrow> int" where
  "digit_value c = of_char c - of_char (CHR ''0'')"

definition digits_value :: "string \<Rightarrow> int" where
  "digits_value ds = fold (\<lambda>c x. x * 10 + digit_value c) ds 0"

definition stoi :: "string \<Rightarrow> int option" where
  "stoi s =
     (let t = dropWhile isspace s;
          neg = (case t of c # _ \<Rightarrow> c = CHR ''-'' | [] \<Rightarrow> False);
          u = (case t of c # r \<Rightarrow> if c = CHR ''-'' \<or> c = CHR ''+'' then r else t | [] \<Rightarrow> t);
          ds = takeWhile is_digit u;
          v = (if neg then - digits_value ds else digits_value ds)
      in if ds = [] \<or> v < - (2 ^ 31) \<or> 2 ^ 31 \<le> v then None else Some v)"

text \<open>\<open>s.find(t)\<close>, with \<open>-1\<close> for \<open>npos\<close> as its value read as an \<open>int\<close>.\<close>

fun starts_with :: "string \<Rightarrow> string \<Rightarrow> bool" where
  "starts_with t [] = True"
| "starts_with [] (c # cs) = False"
| "starts_with (d # t) (c # cs) = (c = d \<and> starts_with t cs)"

fun find_from :: "string \<Rightarrow> string \<Rightarrow> int \<Rightarrow> int" where
  "find_from [] t i = (if t = [] then i else -1)"
| "find_from (c # s) t i = (if starts_with (c # s) t then i else find_from s t (i + 1))"

definition find_str :: "string \<Rightarrow> string \<Rightarrow> int" where
  "find_str s t = find_from s t 0"

text \<open>
  \<open>s.substr(pos)\<close> and \<open>s.substr(0, n)\<close> with the arguments converted to
  \<open>size_t\<close>: a start past the end raises \<open>out_of_range\<close>; a count past the end is cut.
\<close>

definition substr_from :: "string \<Rightarrow> int \<Rightarrow> string option" where
  "substr_from s pos = (if 0 \<le> pos \<and> pos \<le> int (length s) then Some (drop (nat pos) s) else None)"

definition substr_upto :: "string \<Rightarrow> int \<Rightarrow> string" where
  "substr_upto s n = (if n < 0 then s else take (nat n) s)"

text \<open>Decimal output of a number, \<open>stream << n\<close>.\<close>

fun show_nat :: "nat \<Rightarrow> string" where
  "show_nat n = (if n < 10 then [char_of (48 + n)] else show_nat (n div 10) @ [char_of (48 + n mod 10)])"

declare show_nat.simps [simp del]

definition show_int :: "int \<Rightarrow> string" where
  "show_int i = (if i < 0 then CHR ''-'' # show_nat (nat (- i)) else show_nat (nat i))"

section \<open>Lists\<close>

text \<open>\<open>operator<\<close> of \<open>std::vector<int>\<close> and of \<open>std::pair<int, int>\<close>.\<close>

fun vec_less :: "int list \<Rightarrow> int list \<Rightarrow> bool" where
  "vec_less xs [] = False"
| "vec_less [] (y # ys) = True"
| "vec_less (x # xs) (y # ys) = (x < y \<or> (x = y \<and> vec_less xs ys))"

lemma vec_less_append [simp]: "vec_less (xs @ ys) (xs @ zs) = vec_less ys zs"
  by (induction xs) auto

lemma vec_less_irrefl [simp]: "\<not> vec_less xs xs"
  by (induction xs) auto

lemma vec_less_trans: "vec_less xs ys \<Longrightarrow> vec_less ys zs \<Longrightarrow> vec_less xs zs"
proof (induction xs arbitrary: ys zs)
  case Nil
  then show ?case by (cases ys; cases zs) auto
next
  case (Cons x xs)
  then show ?case by (cases ys; cases zs) auto
qed

lemma vec_less_Nil: "vec_less [] xs \<longleftrightarrow> xs \<noteq> []"
  by (cases xs) auto

lemma vec_less_linear: "vec_less xs ys \<or> xs = ys \<or> vec_less ys xs"
  by (induction xs ys rule: vec_less.induct) (auto simp: vec_less_Nil)

lemma vec_less_total: "\<not> vec_less xs ys \<Longrightarrow> \<not> vec_less ys xs \<Longrightarrow> xs = ys"
  using vec_less_linear by blast

definition pair_less :: "int \<times> int \<Rightarrow> int \<times> int \<Rightarrow> bool" where
  "pair_less p q = (fst p < fst q \<or> (fst p = fst q \<and> snd p < snd q))"

lemma nth_update_if: "i < length xs \<Longrightarrow> xs[i := v] ! j = (if i = j then v else xs ! j)"
  by auto

lemma sorted_wrt_nth_less_iff:
  "sorted_wrt R xs \<longleftrightarrow> (\<forall>i j. i < j \<longrightarrow> j < length xs \<longrightarrow> R (xs ! i) (xs ! j))"
  by (auto simp: sorted_wrt_iff_nth_less)

end
