(* ===== verification/Corpus.thy ===== *)
theory Corpus
  imports Prelude
begin

text \<open>
  The numberized corpus of the grammar extractor: \<open>DataArray\<close> (one side of the parallel
  corpus), \<open>Vocabulary\<close> (the words met while extracting) and \<open>Alignment\<close> (the word
  links), from \<open>extractor/data_array\<close>, \<open>extractor/vocabulary\<close> and
  \<open>extractor/alignment\<close>. The two word tables share one interface, the locale \<open>word_table\<close>.
\<close>

section \<open>Word tables\<close>

text \<open>
  What the clients of a word table rely on: interning a word gives a number that is never
  reused for another word and that reads back as the word, and keeps the numbers already given.
\<close>

locale word_table =
  fixes intern :: "string \<Rightarrow> 's \<Rightarrow> int \<times> 's"
    and value_of :: "'s \<Rightarrow> int \<Rightarrow> string option"
    and wf_table :: "'s \<Rightarrow> bool"
  assumes intern_wf: "wf_table s \<Longrightarrow> intern w s = (i, s') \<Longrightarrow> wf_table s'"
    and intern_value: "wf_table s \<Longrightarrow> intern w s = (i, s') \<Longrightarrow> value_of s' i = Some w"
    and intern_keeps: "wf_table s \<Longrightarrow> intern w s = (i, s') \<Longrightarrow> value_of s j = Some v \<Longrightarrow> value_of s' j = Some v"
    and intern_stable: "wf_table s \<Longrightarrow> value_of s j = Some v \<Longrightarrow> intern v s = (i, s') \<Longrightarrow> i = j \<and> s' = s"
begin

primrec intern_all :: "string list \<Rightarrow> 's \<Rightarrow> int list \<times> 's" where
  "intern_all [] s = ([], s)"
| "intern_all (w # ws) s = (let (i, s1) = intern w s; (is, s2) = intern_all ws s1 in (i # is, s2))"

lemma intern_all_wf: "wf_table s \<Longrightarrow> intern_all ws s = (is, s') \<Longrightarrow> wf_table s'"
  by (induction ws arbitrary: s "is") (auto split: prod.splits dest: intern_wf)

lemma intern_all_keeps:
  "wf_table s \<Longrightarrow> intern_all ws s = (is, s') \<Longrightarrow> value_of s j = Some v \<Longrightarrow> value_of s' j = Some v"
proof (induction ws arbitrary: s "is")
  case (Cons w ws)
  then show ?case by (auto split: prod.splits dest: intern_wf intern_keeps)
qed simp

lemma intern_all_values:
  "wf_table s \<Longrightarrow> intern_all ws s = (is, s') \<Longrightarrow> map (value_of s') is = map Some ws"
proof (induction ws arbitrary: s "is" s')
  case (Cons w ws)
  obtain i s1 where i: "intern w s = (i, s1)" by fastforce
  obtain js s2 where js: "intern_all ws s1 = (js, s2)" by fastforce
  have wf1: "wf_table s1" using Cons.prems(1) i by (rule intern_wf)
  have "value_of s2 i = Some w"
    using intern_all_keeps [OF wf1 js] intern_value [OF Cons.prems(1) i] by simp
  then show ?case using Cons.IH [OF wf1 js] Cons.prems i js by auto
qed simp

lemma intern_all_inj:
  assumes "wf_table s" "intern_all ws s = (is, s')" "a < length ws" "b < length ws"
  shows "is ! a = is ! b \<longleftrightarrow> ws ! a = ws ! b"
proof -
  have len: "length is = length ws"
    using intern_all_values [OF assms(1,2)] by (metis length_map)
  have v: "value_of s' (is ! c) = Some (ws ! c)" if "c < length ws" for c
    using intern_all_values [OF assms(1,2)] that len by (metis nth_map)
  have wf: "wf_table s'" using assms(1,2) by (rule intern_all_wf)
  show ?thesis
  proof
    assume "is ! a = is ! b"
    then show "ws ! a = ws ! b" using v [OF assms(3)] v [OF assms(4)] by simp
  next
    assume eq: "ws ! a = ws ! b"
    obtain i t where "intern (ws ! a) s' = (i, t)" by fastforce
    then show "is ! a = is ! b"
      using intern_stable [OF wf v [OF assms(3)]] intern_stable [OF wf v [OF assms(4)]] eq by auto
  qed
qed

end

section \<open>A map and a vector that number the same words\<close>

definition numbering :: "(string \<rightharpoonup> int) \<Rightarrow> string list \<Rightarrow> bool" where
  "numbering m ws \<longleftrightarrow> (\<forall>w i. m w = Some i \<longleftrightarrow> vat ws i = Some w)"

lemma numbering_index: "numbering m ws \<Longrightarrow> vat ws i = Some w \<Longrightarrow> m w = Some i"
  by (simp add: numbering_def)

lemma numbering_value: "numbering m ws \<Longrightarrow> m w = Some i \<Longrightarrow> vat ws i = Some w"
  by (simp add: numbering_def)

lemma numbering_empty: "numbering Map.empty []"
  by (simp add: numbering_def vat_def)

lemma numbering_extend:
  assumes "numbering m ws" "m w = None"
  shows "numbering (m(w \<mapsto> vsize ws)) (ws @ [w])"
proof -
  have "vat ws j \<noteq> Some w" for j
    using assms by (metis option.distinct(1) numbering_def)
  then show ?thesis
    using assms(1) by (auto simp: numbering_def vat_append vat_singleton dest: vat_bound split: if_splits)
qed

lemma numbering_unique: "numbering m ws \<Longrightarrow> numbering m' ws \<Longrightarrow> m = m'"
  by (rule ext, metis numbering_def option.exhaust)

lemma numbering_distinct:
  assumes "numbering m ws"
  shows "distinct ws"
proof (unfold distinct_conv_nth, intro allI impI)
  fix i j assume "i < length ws" "j < length ws" "i \<noteq> j"
  then show "ws ! i \<noteq> ws ! j"
    using assms unfolding numbering_def by (metis vat_nat option.inject of_nat_eq_iff)
qed

definition index_words :: "string list \<Rightarrow> (string \<rightharpoonup> int)" where
  "index_words ws = fold (\<lambda>i m. m(ws ! i \<mapsto> int i)) [0..<length ws] Map.empty"

lemma numbering_index_words:
  assumes "distinct ws"
  shows "numbering (index_words ws) ws"
proof -
  have "numbering (fold (\<lambda>i m. m(ws ! i \<mapsto> int i)) [0..<n] Map.empty) (take n ws)"
    if "n \<le> length ws" for n
    using that
  proof (induction n)
    case 0
    then show ?case by (simp add: numbering_empty)
  next
    case (Suc n)
    let ?m = "fold (\<lambda>i m. m(ws ! i \<mapsto> int i)) [0..<n] Map.empty"
    have IH: "numbering ?m (take n ws)" by (rule Suc.IH) (use Suc.prems in simp)
    have "ws ! n \<notin> set (take n ws)"
      using assms Suc.prems by (auto simp: in_set_conv_nth distinct_conv_nth)
    then have "vat (take n ws) i \<noteq> Some (ws ! n)" for i
      using vat_in_set [of "take n ws" i "ws ! n"] by auto
    then have "?m (ws ! n) = None"
      using numbering_value [OF IH, of "ws ! n"] by (cases "?m (ws ! n)") auto
    from numbering_extend [OF IH this] show ?case
      using Suc.prems by (simp add: take_Suc_conv_app_nth vsize_def fun_upd_def)
  qed
  from this [of "length ws"] show ?thesis by (simp add: index_words_def)
qed

section \<open>Vocabulary\<close>

record vocabulary =
  voc_dictionary :: "string \<rightharpoonup> int"
  voc_words :: "string list"

definition empty_vocabulary :: vocabulary where
  "empty_vocabulary = \<lparr>voc_dictionary = Map.empty, voc_words = []\<rparr>"

definition GetTerminalIndex :: "string \<Rightarrow> vocabulary \<Rightarrow> int \<times> vocabulary" where
  "GetTerminalIndex word v =
     (case voc_dictionary v word of
        Some word_id \<Rightarrow> (word_id, v)
      | None \<Rightarrow> (let word_id = vsize (voc_words v) in
          (word_id, v\<lparr>voc_dictionary := (voc_dictionary v)(word \<mapsto> word_id),
                      voc_words := voc_words v @ [word]\<rparr>)))"

definition GetNonterminalIndex :: "int \<Rightarrow> int" where
  "GetNonterminalIndex position = - position"

definition IsTerminal :: "int \<Rightarrow> bool" where
  "IsTerminal symbol = (0 \<le> symbol)"

definition GetTerminalValue :: "vocabulary \<Rightarrow> int \<Rightarrow> string option" where
  "GetTerminalValue v symbol = vat (voc_words v) symbol"

definition wf_vocabulary :: "vocabulary \<Rightarrow> bool" where
  "wf_vocabulary v = numbering (voc_dictionary v) (voc_words v)"

lemma wf_empty_vocabulary: "wf_vocabulary empty_vocabulary"
  by (simp add: wf_vocabulary_def empty_vocabulary_def numbering_empty)

lemma GetTerminalIndex_cases:
  assumes "GetTerminalIndex w v = (i, v')"
  obtains "voc_dictionary v w = Some i" "v' = v"
  | "voc_dictionary v w = None" "i = vsize (voc_words v)" "voc_words v' = voc_words v @ [w]"
    "voc_dictionary v' = (voc_dictionary v)(w \<mapsto> i)"
  using assms by (auto simp: GetTerminalIndex_def Let_def split: option.splits)

interpretation voc: word_table GetTerminalIndex GetTerminalValue wf_vocabulary
proof
  fix s s' :: vocabulary and w i
  assume "wf_vocabulary s" "GetTerminalIndex w s = (i, s')"
  then show "wf_vocabulary s'"
    by (auto simp: wf_vocabulary_def numbering_extend elim: GetTerminalIndex_cases)
next
  fix s s' :: vocabulary and w i
  assume "wf_vocabulary s" "GetTerminalIndex w s = (i, s')"
  then show "GetTerminalValue s' i = Some w"
    by (auto simp: GetTerminalValue_def wf_vocabulary_def numbering_def vat_append vat_singleton
        elim: GetTerminalIndex_cases)
next
  fix s s' :: vocabulary and w v i j
  assume "GetTerminalIndex w s = (i, s')" "GetTerminalValue s j = Some v"
  then show "GetTerminalValue s' j = Some v"
    by (auto simp: GetTerminalValue_def vat_append dest: vat_bound elim!: GetTerminalIndex_cases)
next
  fix s s' :: vocabulary and v i j
  assume "wf_vocabulary s" "GetTerminalValue s j = Some v" "GetTerminalIndex v s = (i, s')"
  then show "i = j \<and> s' = s"
    by (auto simp: GetTerminalValue_def wf_vocabulary_def dest!: numbering_index
        elim!: GetTerminalIndex_cases)
qed

section \<open>DataArray\<close>

record data_array =
  da_word2id :: "string \<rightharpoonup> int"
  da_id2word :: "string list"
  da_data :: "int list"
  da_sentence_id :: "int list"
  da_sentence_start :: "int list"

datatype side = SOURCE | TARGET

definition NULL_WORD :: int where "NULL_WORD = 0"
definition END_OF_LINE :: int where "END_OF_LINE = 1"
definition NULL_WORD_STR :: string where "NULL_WORD_STR = ''__NULL__''"
definition END_OF_LINE_STR :: string where "END_OF_LINE_STR = ''__END_OF_LINE__''"

definition InitializeDataArray :: data_array where
  "InitializeDataArray =
     \<lparr>da_word2id = [NULL_WORD_STR \<mapsto> NULL_WORD, END_OF_LINE_STR \<mapsto> END_OF_LINE],
      da_id2word = [NULL_WORD_STR, END_OF_LINE_STR],
      da_data = [], da_sentence_id = [], da_sentence_start = []\<rparr>"

text \<open>The loop of \<open>CreateDataArray\<close>: numbering a word, one token, one line, all lines.\<close>

definition number_word :: "string \<Rightarrow> data_array \<Rightarrow> int \<times> data_array" where
  "number_word word d =
     (case da_word2id d word of
        Some word_id \<Rightarrow> (word_id, d)
      | None \<Rightarrow> (let word_id = vsize (da_id2word d) in
          (word_id, d\<lparr>da_word2id := (da_word2id d)(word \<mapsto> word_id),
                      da_id2word := da_id2word d @ [word]\<rparr>)))"

definition add_token :: "int \<Rightarrow> string \<Rightarrow> data_array \<Rightarrow> data_array" where
  "add_token i word d = (let (word_id, d1) = number_word word d in
     d1\<lparr>da_data := da_data d1 @ [word_id], da_sentence_id := da_sentence_id d1 @ [i]\<rparr>)"

definition add_line :: "int \<Rightarrow> string \<Rightarrow> data_array \<Rightarrow> data_array" where
  "add_line i line d =
     (let d1 = d\<lparr>da_sentence_start := da_sentence_start d @ [vsize (da_data d)]\<rparr>;
          d2 = fold (add_token i) (words_of line) d1
      in d2\<lparr>da_data := da_data d2 @ [END_OF_LINE], da_sentence_id := da_sentence_id d2 @ [i]\<rparr>)"

primrec add_lines :: "int \<Rightarrow> string list \<Rightarrow> data_array \<Rightarrow> data_array" where
  "add_lines i [] d = d"
| "add_lines i (line # lines) d = add_lines (i + 1) lines (add_line i line d)"

definition CreateDataArray :: "string list \<Rightarrow> data_array \<Rightarrow> data_array" where
  "CreateDataArray lines d = (let d1 = add_lines 0 lines d in
     d1\<lparr>da_sentence_start := da_sentence_start d1 @ [vsize (da_data d1)]\<rparr>)"

text \<open>The constructors; the argument is the list of lines that \<open>getline\<close> reads.\<close>

definition DataArray_of_file :: "string list \<Rightarrow> data_array" where
  "DataArray_of_file lines = CreateDataArray lines InitializeDataArray"

definition side_of_line :: "side \<Rightarrow> string \<Rightarrow> string option" where
  "side_of_line side line = (let delimiter = ''|||''; position = find_str line delimiter in
     if side = SOURCE then Some (substr_upto line position)
     else substr_from line (position + vsize delimiter))"

definition DataArray_of_bitext :: "string list \<Rightarrow> side \<Rightarrow> data_array option" where
  "DataArray_of_bitext file side = do {
     lines \<leftarrow> for_each file (\<lambda>line ls. do { l \<leftarrow> side_of_line side line; Some (ls @ [l]) }) [];
     Some (CreateDataArray lines InitializeDataArray) }"

definition AtIndex :: "data_array \<Rightarrow> int \<Rightarrow> int option" where
  "AtIndex d index = vat (da_data d) index"

definition GetWordAtIndex :: "data_array \<Rightarrow> int \<Rightarrow> string option" where
  "GetWordAtIndex d index = do { w \<leftarrow> vat (da_data d) index; vat (da_id2word d) w }"

definition GetWordIds :: "data_array \<Rightarrow> int \<Rightarrow> int \<Rightarrow> int list option" where
  "GetWordIds d index sz = vslice (da_data d) index sz"

definition GetWords :: "data_array \<Rightarrow> int \<Rightarrow> int \<Rightarrow> string list option" where
  "GetWords d start_index sz = do {
     ids \<leftarrow> GetWordIds d start_index sz;
     for_each ids (\<lambda>word_id words. do { w \<leftarrow> vat (da_id2word d) word_id; Some (words @ [w]) }) [] }"

definition GetSize :: "data_array \<Rightarrow> int" where
  "GetSize d = vsize (da_data d)"

definition GetVocabularySize :: "data_array \<Rightarrow> int" where
  "GetVocabularySize d = vsize (da_id2word d)"

definition GetNumSentences :: "data_array \<Rightarrow> int" where
  "GetNumSentences d = vsize (da_sentence_start d) - 1"

definition GetSentenceStart :: "data_array \<Rightarrow> int \<Rightarrow> int option" where
  "GetSentenceStart d position = vat (da_sentence_start d) position"

definition GetSentenceLength :: "data_array \<Rightarrow> int \<Rightarrow> int option" where
  "GetSentenceLength d sid = do {
     next_start \<leftarrow> vat (da_sentence_start d) (sid + 1);
     start \<leftarrow> vat (da_sentence_start d) sid;
     Some (next_start - start - 1) }"

definition GetSentenceId :: "data_array \<Rightarrow> int \<Rightarrow> int option" where
  "GetSentenceId d position = vat (da_sentence_id d) position"

definition GetWordId :: "data_array \<Rightarrow> string \<Rightarrow> int" where
  "GetWordId d word = (case da_word2id d word of None \<Rightarrow> -1 | Some i \<Rightarrow> i)"

definition GetWord :: "data_array \<Rightarrow> int \<Rightarrow> string option" where
  "GetWord d word_id = vat (da_id2word d) word_id"

text \<open>
  Serialization: the archive keeps every field but the word map, which \<open>load\<close> rebuilds.
  The archive library itself is outside the repository; what is written is read back.
\<close>

definition save_data_array :: "data_array \<Rightarrow> string list \<times> int list \<times> int list \<times> int list" where
  "save_data_array d = (da_id2word d, da_data d, da_sentence_id d, da_sentence_start d)"

definition load_data_array :: "string list \<times> int list \<times> int list \<times> int list \<Rightarrow> data_array" where
  "load_data_array = (\<lambda>(id2word, data, sids, starts).
     \<lparr>da_word2id = index_words id2word, da_id2word = id2word, da_data = data,
      da_sentence_id = sids, da_sentence_start = starts\<rparr>)"

definition save_vocabulary :: "vocabulary \<Rightarrow> string list" where
  "save_vocabulary v = voc_words v"

definition load_vocabulary :: "string list \<Rightarrow> vocabulary" where
  "load_vocabulary ws = \<lparr>voc_dictionary = index_words ws, voc_words = ws\<rparr>"

section \<open>Alignment\<close>

type_synonym link = "int \<times> int"
type_synonym alignment = "link list list"

text \<open>
  One line of the alignment file; \<open>split\<close> is \<open>boost::split\<close> at the characters
  \<open>is_any_of(" -")\<close>, a parameter of the model.
\<close>

definition parse_links :: "(string \<Rightarrow> string list) \<Rightarrow> string \<Rightarrow> link list option" where
  "parse_links split line = (let items = split line in
     for_each (filter odd (positions items)) (\<lambda>i alignment. do {
       a \<leftarrow> vat items (i - 1); x \<leftarrow> stoi a;
       b \<leftarrow> vat items i; y \<leftarrow> stoi b;
       Some (alignment @ [(x, y)]) }) [])"

definition Alignment_of_file :: "(string \<Rightarrow> string list) \<Rightarrow> string list \<Rightarrow> alignment option" where
  "Alignment_of_file split lines =
     for_each lines (\<lambda>line alignments. do {
       alignment \<leftarrow> parse_links split line; Some (alignments @ [alignment]) }) []"

definition GetLinks :: "alignment \<Rightarrow> int \<Rightarrow> link list option" where
  "GetLinks a sentence_index = vat a sentence_index"

section \<open>Facts about the corpus\<close>

definition wf_words :: "data_array \<Rightarrow> bool" where
  "wf_words d = numbering (da_word2id d) (da_id2word d)"

lemma wf_words_init: "wf_words InitializeDataArray"
proof -
  have "numbering ([NULL_WORD_STR \<mapsto> 0]) ([] @ [NULL_WORD_STR])"
    using numbering_extend [OF numbering_empty] by simp
  then have "numbering ([NULL_WORD_STR \<mapsto> 0, END_OF_LINE_STR \<mapsto> 1]) ([NULL_WORD_STR] @ [END_OF_LINE_STR])"
    using numbering_extend [of "[NULL_WORD_STR \<mapsto> 0]" "[NULL_WORD_STR]" END_OF_LINE_STR]
    by (simp add: NULL_WORD_STR_def END_OF_LINE_STR_def)
  then show ?thesis
    by (simp add: wf_words_def InitializeDataArray_def NULL_WORD_def END_OF_LINE_def)
qed

lemma number_word_cases:
  assumes "number_word w d = (i, d')"
  obtains "da_word2id d w = Some i" "d' = d"
  | "da_word2id d w = None" "i = vsize (da_id2word d)" "da_id2word d' = da_id2word d @ [w]"
    "da_word2id d' = (da_word2id d)(w \<mapsto> i)" "da_data d' = da_data d"
    "da_sentence_id d' = da_sentence_id d" "da_sentence_start d' = da_sentence_start d"
  using assms by (auto simp: number_word_def Let_def split: option.splits)

interpretation da: word_table number_word GetWord wf_words
proof
  fix s s' :: data_array and w i
  assume "wf_words s" "number_word w s = (i, s')"
  then show "wf_words s'"
    by (auto simp: wf_words_def numbering_extend elim: number_word_cases)
next
  fix s s' :: data_array and w i
  assume "wf_words s" "number_word w s = (i, s')"
  then show "GetWord s' i = Some w"
    by (auto simp: GetWord_def wf_words_def numbering_def vat_append vat_singleton
        elim: number_word_cases)
next
  fix s s' :: data_array and w v i j
  assume "number_word w s = (i, s')" "GetWord s j = Some v"
  then show "GetWord s' j = Some v"
    by (auto simp: GetWord_def vat_append dest: vat_bound elim!: number_word_cases)
next
  fix s s' :: data_array and v i j
  assume "wf_words s" "GetWord s j = Some v" "number_word v s = (i, s')"
  then show "i = j \<and> s' = s"
    by (auto simp: GetWord_def wf_words_def dest!: numbering_index elim!: number_word_cases)
qed

text \<open>\<open>grows d d'\<close>: \<open>d'\<close> is \<open>d\<close> with more words, tokens and sentences.\<close>

definition grows :: "data_array \<Rightarrow> data_array \<Rightarrow> bool" where
  "grows d d' \<longleftrightarrow> (\<forall>j v. GetWord d j = Some v \<longrightarrow> GetWord d' j = Some v)
     \<and> (\<exists>xs. da_data d' = da_data d @ xs) \<and> (\<exists>xs. da_sentence_id d' = da_sentence_id d @ xs)
     \<and> (\<exists>xs. da_sentence_start d' = da_sentence_start d @ xs)"

lemma grows_refl: "grows d d"
  by (auto simp: grows_def)

lemma grows_trans: "grows d d' \<Longrightarrow> grows d' d'' \<Longrightarrow> grows d d''"
  by (auto simp: grows_def)

lemma add_tokens:
  assumes "wf_words d"
  shows "let d' = fold (add_token i) ws d in wf_words d' \<and> grows d d' \<and>
    (\<exists>ids. da_data d' = da_data d @ ids \<and> map (GetWord d') ids = map Some ws) \<and>
    da_sentence_id d' = da_sentence_id d @ replicate (length ws) i \<and>
    da_sentence_start d' = da_sentence_start d"
  using assms
proof (induction ws arbitrary: d)
  case Nil
  then show ?case by (simp add: grows_refl)
next
  case (Cons w ws)
  obtain j d1 where num: "number_word w d = (j, d1)" by fastforce
  let ?d2 = "add_token i w d"
  let ?d' = "fold (add_token i) ws ?d2"
  have d2: "?d2 = d1\<lparr>da_data := da_data d1 @ [j], da_sentence_id := da_sentence_id d1 @ [i]\<rparr>"
    by (simp add: add_token_def num)
  have same: "da_data d1 = da_data d" "da_sentence_id d1 = da_sentence_id d"
    "da_sentence_start d1 = da_sentence_start d"
    using num by (auto elim: number_word_cases)
  have wf: "wf_words ?d2"
    using da.intern_wf [OF Cons.prems num] d2 by (simp add: wf_words_def)
  have g: "grows d ?d2"
    using da.intern_keeps [OF Cons.prems num] same d2 by (auto simp: grows_def GetWord_def)
  have j: "GetWord ?d2 j = Some w"
    using da.intern_value [OF Cons.prems num] d2 by (simp add: GetWord_def)
  from Cons.IH [OF wf] obtain ids where IH: "wf_words ?d'" "grows ?d2 ?d'"
    "da_data ?d' = da_data ?d2 @ ids" "map (GetWord ?d') ids = map Some ws"
    "da_sentence_id ?d' = da_sentence_id ?d2 @ replicate (length ws) i"
    "da_sentence_start ?d' = da_sentence_start ?d2"
    by (auto simp: Let_def)
  have "GetWord ?d' j = Some w" using IH(2) j by (simp add: grows_def)
  then have "da_data ?d' = da_data d @ (j # ids) \<and> map (GetWord ?d') (j # ids) = map Some (w # ws)"
    using IH(3,4) d2 same by simp
  then have "\<exists>ids. da_data ?d' = da_data d @ ids \<and> map (GetWord ?d') ids = map Some (w # ws)"
    by blast
  then show ?case
    using IH g d2 same by (auto simp: Let_def intro: grows_trans)
qed

lemma add_line:
  assumes "wf_words d" "d' = add_line i line d"
  shows "wf_words d'" "grows d d'"
    "\<exists>ids. da_data d' = da_data d @ ids @ [END_OF_LINE] \<and> map (GetWord d') ids = map Some (words_of line)"
    "da_sentence_id d' = da_sentence_id d @ replicate (Suc (length (words_of line))) i"
    "da_sentence_start d' = da_sentence_start d @ [vsize (da_data d)]"
proof -
  let ?d1 = "d\<lparr>da_sentence_start := da_sentence_start d @ [vsize (da_data d)]\<rparr>"
  let ?d2 = "fold (add_token i) (words_of line) ?d1"
  have "wf_words ?d1" using assms by (simp add: wf_words_def)
  from add_tokens [OF this, of i "words_of line"] obtain ids where t:
    "wf_words ?d2" "grows ?d1 ?d2" "da_data ?d2 = da_data d @ ids"
    "map (GetWord ?d2) ids = map Some (words_of line)"
    "da_sentence_id ?d2 = da_sentence_id d @ replicate (length (words_of line)) i"
    "da_sentence_start ?d2 = da_sentence_start ?d1"
    by (auto simp: Let_def)
  have d': "d' = ?d2\<lparr>da_data := da_data ?d2 @ [END_OF_LINE], da_sentence_id := da_sentence_id ?d2 @ [i]\<rparr>"
    using assms(2) by (simp add: add_line_def Let_def)
  have gw: "GetWord d' = GetWord ?d2" by (rule ext) (simp add: d' GetWord_def)
  show "wf_words d'" using t(1) by (simp add: d' wf_words_def)
  show "grows d d'" using t(2) gw by (auto simp: grows_def d' GetWord_def)
  show "\<exists>ids. da_data d' = da_data d @ ids @ [END_OF_LINE] \<and> map (GetWord d') ids = map Some (words_of line)"
    using t(3,4) by (auto simp: gw) (simp add: d')
  show "da_sentence_id d' = da_sentence_id d @ replicate (Suc (length (words_of line))) i"
    using t(5) by (simp add: d' replicate_append_same)
  show "da_sentence_start d' = da_sentence_start d @ [vsize (da_data d)]"
    using t(6) by (simp add: d')
qed

lemma add_lines_grows:
  assumes "wf_words d"
  shows "wf_words (add_lines i lines d) \<and> grows d (add_lines i lines d) \<and>
    length (da_sentence_start (add_lines i lines d)) = length (da_sentence_start d) + length lines"
  using assms
proof (induction lines arbitrary: i d)
  case Nil
  then show ?case by (simp add: grows_refl)
next
  case (Cons l ls)
  note line = add_line [OF Cons.prems refl, of i l]
  from Cons.IH [OF line(1), of "i + 1"] show ?case
    using line(2,5) by (simp add: grows_trans [OF line(2)])
qed

lemma add_lines_first_start:
  assumes "wf_words d" "lines \<noteq> []"
  shows "vat (da_sentence_start (add_lines i lines d)) (vsize (da_sentence_start d)) = Some (vsize (da_data d))"
proof -
  obtain l ls where lines: "lines = l # ls" using assms(2) by (cases lines) auto
  note line = add_line [OF assms(1) refl, of i l]
  have "grows (add_line i l d) (add_lines i lines d)"
    using add_lines_grows [OF line(1)] lines by simp
  then obtain ys where "da_sentence_start (add_lines i lines d) = da_sentence_start d @ [vsize (da_data d)] @ ys"
    using line(5) by (auto simp: grows_def)
  then show ?thesis by (simp add: vat_append vat_singleton)
qed

lemmas add_lines = add_lines_grows [THEN conjunct1] add_lines_grows [THEN conjunct2, THEN conjunct1]
  add_lines_grows [THEN conjunct2, THEN conjunct2] add_lines_first_start

lemma add_lines_append: "add_lines i (xs @ ys) d = add_lines (i + vsize xs) ys (add_lines i xs d)"
  by (induction xs arbitrary: i d) (auto simp: algebra_simps)

text \<open>
  What sentence \<open>k\<close> of the numberized corpus holds: it starts where the tokens of the lines
  before it end, its tokens read back as the words of line \<open>k\<close>, and the end marker follows.
\<close>

lemma CreateDataArray_sentence:
  assumes wf: "wf_words d" and empty: "da_data d = []" "da_sentence_start d = []" "da_sentence_id d = []"
    and k: "k < length lines" and D: "D = CreateDataArray lines d"
  obtains start ids where
    "GetSentenceStart D (int k) = Some start" "0 \<le> start"
    "GetSentenceLength D (int k) = Some (vsize ids)"
    "vslice (da_data D) start (vsize ids) = Some ids"
    "map (GetWord D) ids = map Some (words_of (lines ! k))"
    "AtIndex D (start + vsize ids) = Some END_OF_LINE"
proof -
  let ?pre = "take k lines" and ?post = "drop (Suc k) lines"
  let ?line = "lines ! k"
  define d1 where "d1 = add_lines 0 ?pre d"
  define d2 where "d2 = add_line (int k) ?line d1"
  define d3 where "d3 = add_lines (int k + 1) ?post d2"
  have lines: "lines = ?pre @ ?line # ?post" using k by (rule id_take_nth_drop)
  have "vsize ?pre = int k" using k by (simp add: vsize_def)
  then have "add_lines 0 lines d = d3"
    using arg_cong [OF lines, of "\<lambda>l. add_lines 0 l d"]
    by (simp add: add_lines_append d1_def d2_def d3_def)
  then have D': "D = d3\<lparr>da_sentence_start := da_sentence_start d3 @ [vsize (da_data d3)]\<rparr>"
    using D by (simp add: CreateDataArray_def Let_def)
  have wf1: "wf_words d1" using add_lines(1) [OF wf] by (simp add: d1_def)
  have starts1: "length (da_sentence_start d1) = k"
    using add_lines(3) [OF wf, of 0 ?pre] k empty by (simp add: d1_def)
  note line = add_line [OF wf1 d2_def]
  note rest = add_lines(1,2,3) [OF line(1), of "int k + 1" ?post]
    add_lines(4) [OF line(1), of ?post "int k + 1"]
  obtain ids where ids: "da_data d2 = da_data d1 @ ids @ [END_OF_LINE]"
    "map (GetWord d2) ids = map Some (words_of ?line)"
    using line(3) by blast
  obtain ys where ys: "da_sentence_start d3 = da_sentence_start d2 @ ys"
    using rest(2) by (auto simp: grows_def d3_def)
  obtain zs where zs: "da_data d3 = da_data d2 @ zs"
    using rest(2) by (auto simp: grows_def d3_def)
  have start: "vat (da_sentence_start D) (int k) = Some (vsize (da_data d1))"
    using starts1 by (simp add: D' ys line(5) vat_append vat_singleton vsize_def)
  have next': "vat (da_sentence_start D) (int k + 1) = Some (vsize (da_data d2))"
  proof (cases "?post = []")
    case True
    then have "d3 = d2" by (simp add: d3_def)
    then show ?thesis
      using starts1 by (simp add: D' line(5) vat_append vat_Cons vsize_def)
  next
    case False
    have s2: "vsize (da_sentence_start d2) = int k + 1" using starts1 line(5) by (simp add: vsize_def)
    from rest(4) [OF False] s2 show ?thesis
      by (simp add: D' d3_def vat_grow)
  qed
  have "GetWord D = GetWord d3" by (rule ext) (simp add: D' GetWord_def)
  moreover have "GetWord d3 i = Some v" if "GetWord d2 i = Some v" for i v
    using that rest(2) by (simp add: grows_def d3_def)
  ultimately have words: "map (GetWord D) ids = map Some (words_of ?line)"
    using ids(2) by (auto simp: list_eq_iff_nth_eq)
  show thesis
  proof (rule that)
    show "GetSentenceStart D (int k) = Some (vsize (da_data d1))"
      using start by (simp add: GetSentenceStart_def)
    show "GetSentenceLength D (int k) = Some (vsize ids)"
      using start next' ids(1) by (simp add: GetSentenceLength_def)
    show "vslice (da_data D) (vsize (da_data d1)) (vsize ids) = Some ids"
      by (simp add: vslice_Some_iff D' zs ids(1) vsize_def)
    show "AtIndex D (vsize (da_data d1) + vsize ids) = Some END_OF_LINE"
      by (simp add: AtIndex_def D' zs ids(1) vat_append vat_singleton)
  qed (use words in auto)
qed

lemma collect_words:
  assumes "map (vat ws) ids = map Some vs"
  shows "for_each ids (\<lambda>w out. do { v \<leftarrow> vat ws w; Some (out @ [v]) }) out = Some (out @ vs)"
  using assms
proof (induction ids arbitrary: vs out)
  case (Cons i ids)
  then show ?case by (cases vs) auto
qed simp

section \<open>Properties\<close>

text \<open>
  C38. The numberized corpus reads back as the text: for every line of the file, the tokens
  stored for its sentence are exactly the white-space separated words of the line, and they are
  followed by the end-of-line marker.
\<close>

theorem DataArray_reads_back:
  assumes "k < length lines"
  shows "let d = DataArray_of_file lines in
    (\<exists>start len. GetSentenceStart d (int k) = Some start \<and> GetSentenceLength d (int k) = Some len
       \<and> GetWords d start len = Some (words_of (lines ! k))
       \<and> AtIndex d (start + len) = Some END_OF_LINE)"
proof -
  let ?d = "DataArray_of_file lines"
  obtain start ids where s: "GetSentenceStart ?d (int k) = Some start"
    "GetSentenceLength ?d (int k) = Some (vsize ids)"
    "vslice (da_data ?d) start (vsize ids) = Some ids"
    "map (GetWord ?d) ids = map Some (words_of (lines ! k))"
    "AtIndex ?d (start + vsize ids) = Some END_OF_LINE"
    by (rule CreateDataArray_sentence [OF wf_words_init _ _ _ assms, of ?d])
      (auto simp: DataArray_of_file_def InitializeDataArray_def)
  have "GetWords ?d start (vsize ids) = Some (words_of (lines ! k))"
    using s(3) collect_words [of "da_id2word ?d" ids "words_of (lines ! k)" "[]"] s(4)
    by (simp add: GetWords_def GetWordIds_def GetWord_def [abs_def])
  with s show ?thesis by (auto simp: Let_def)
qed

lemma DataArray_reads_back_witness:
  "1 < length [''the house'', ''the  car''] \<and>
   (\<exists>start len. GetSentenceStart (DataArray_of_file [''the house'', ''the  car'']) 1 = Some start \<and>
     GetSentenceLength (DataArray_of_file [''the house'', ''the  car'']) 1 = Some len \<and>
     GetWords (DataArray_of_file [''the house'', ''the  car'']) start len = Some (words_of ''the  car''))"
  using DataArray_reads_back [of 1 "[''the house'', ''the  car'']"] by (auto simp: Let_def)

lemma wf_words_file: "wf_words (DataArray_of_file lines)"
  using add_lines(1) [OF wf_words_init, of 0 lines]
  by (simp add: DataArray_of_file_def CreateDataArray_def Let_def wf_words_def)

lemma load_save_words:
  assumes "wf_words d"
  shows "load_data_array (save_data_array d) = d"
proof -
  have "index_words (da_id2word d) = da_word2id d"
    using assms numbering_index_words [OF numbering_distinct] numbering_unique unfolding wf_words_def by blast
  then show ?thesis by (simp add: load_data_array_def save_data_array_def)
qed

text \<open>
  C39. Serialization round trip: a data array built from any file is equal to what
  \<open>load\<close> rebuilds from the archive \<open>save\<close> writes, the word map included.
\<close>

theorem load_save_data_array:
  "load_data_array (save_data_array (DataArray_of_file lines)) = DataArray_of_file lines"
  by (rule load_save_words [OF wf_words_file])

end
