(* ===== verification/Phrases.thy ===== *)
theory Phrases
  imports Corpus
begin

text \<open>
  Phrases with gaps and the places where they occur: \<open>Phrase\<close>, \<open>PhraseBuilder\<close> and
  \<open>PhraseLocation\<close> of the extractor. A symbol is a word number (not negative) or, for the
  \<open>k\<close>-th gap, \<open>-k\<close>.
\<close>

section \<open>Phrase\<close>

record phrase =
  ph_symbols :: "int list"
  ph_var_pos :: "int list"
  ph_words :: "string list"

definition empty_phrase :: phrase where
  "empty_phrase = \<lparr>ph_symbols = [], ph_var_pos = [], ph_words = []\<rparr>"

definition Arity :: "phrase \<Rightarrow> int" where
  "Arity p = vsize (ph_var_pos p)"

definition GetChunkLen :: "phrase \<Rightarrow> int \<Rightarrow> int option" where
  "GetChunkLen p index =
     (if vsize (ph_var_pos p) = 0 then Some (vsize (ph_symbols p))
      else if index = 0 then vat (ph_var_pos p) 0
      else if index = vsize (ph_var_pos p) then do {
        b \<leftarrow> vback (ph_var_pos p); Some (vsize (ph_symbols p) - b - 1) }
      else do {
        a \<leftarrow> vat (ph_var_pos p) index; b \<leftarrow> vat (ph_var_pos p) (index - 1); Some (a - b - 1) })"

definition GetSymbol :: "phrase \<Rightarrow> int \<Rightarrow> int option" where
  "GetSymbol p position = vat (ph_symbols p) position"

definition GetNumSymbols :: "phrase \<Rightarrow> int" where
  "GetNumSymbols p = vsize (ph_symbols p)"

definition phrase_less :: "phrase \<Rightarrow> phrase \<Rightarrow> bool" where
  "phrase_less p q = vec_less (ph_symbols p) (ph_symbols q)"

text \<open>\<open>operator<<\<close>: the loop counts the words it has printed.\<close>

definition show_phrase :: "phrase \<Rightarrow> string option" where
  "show_phrase p = do {
     (os, current_word) \<leftarrow> for_each (positions (ph_symbols p)) (\<lambda>i (os, current_word). do {
       s \<leftarrow> vat (ph_symbols p) i;
       (os1, current_word1) \<leftarrow>
         (if s < 0 then Some (os @ ''[X,'' @ show_int (- s) @ '']'', current_word)
          else do { w \<leftarrow> vat (ph_words p) current_word; Some (os @ w, current_word + 1) });
       Some (if i + 1 < vsize (ph_symbols p) then os1 @ '' '' else os1, current_word1) }) ([], 0);
     Some os }"

section \<open>PhraseBuilder\<close>

definition Build :: "vocabulary \<Rightarrow> int list \<Rightarrow> phrase option" where
  "Build v symbols =
     for_each (positions symbols) (\<lambda>i p. do {
       s \<leftarrow> vat symbols i;
       if IsTerminal s then do {
         w \<leftarrow> GetTerminalValue v s; Some (p\<lparr>ph_words := ph_words p @ [w]\<rparr>) }
       else Some (p\<lparr>ph_var_pos := ph_var_pos p @ [i]\<rparr>) })
     (empty_phrase\<lparr>ph_symbols := symbols\<rparr>)"

definition Extend :: "vocabulary \<Rightarrow> phrase \<Rightarrow> bool \<Rightarrow> bool \<Rightarrow> phrase option" where
  "Extend v p start_x end_x = do {
     let symbols0 = ph_symbols p;
     let symbols1 = (if start_x then GetNonterminalIndex 1 # symbols0 else symbols0);
     (symbols2, num_nonterminals) \<leftarrow>
       for_each (int_range (of_bool start_x) (vsize symbols1)) (\<lambda>i (symbols, n). do {
         s \<leftarrow> vat symbols i;
         if \<not> IsTerminal s then do {
           symbols' \<leftarrow> vset symbols i (GetNonterminalIndex (n + 1));
           Some (symbols', n + 1) }
         else Some (symbols, n) }) (symbols1, of_bool start_x);
     let symbols3 = (if end_x then symbols2 @ [GetNonterminalIndex (num_nonterminals + 1)] else symbols2);
     Build v symbols3 }"

section \<open>PhraseLocation\<close>

text \<open>
  \<open>matchings\<close> is a shared pointer that may be null; no code writes through it once a
  location has been built, so its value is kept here.
\<close>

record phrase_location =
  pl_sa_low :: int
  pl_sa_high :: int
  pl_matchings :: "int list option"
  pl_num_subpatterns :: int

definition PhraseLocation_range :: "int \<Rightarrow> int \<Rightarrow> phrase_location" where
  "PhraseLocation_range low high =
     \<lparr>pl_sa_low = low, pl_sa_high = high, pl_matchings = None, pl_num_subpatterns = 0\<rparr>"

definition PhraseLocation_matchings :: "int list \<Rightarrow> int \<Rightarrow> phrase_location" where
  "PhraseLocation_matchings matchings num_subpatterns =
     \<lparr>pl_sa_low = 0, pl_sa_high = 0, pl_matchings = Some matchings,
      pl_num_subpatterns = num_subpatterns\<rparr>"

definition LocationSize :: "phrase_location \<Rightarrow> int option" where
  "LocationSize l =
     (if 0 < pl_num_subpatterns l then map_option vsize (pl_matchings l)
      else Some (pl_sa_high l - pl_sa_low l))"

definition LocationIsEmpty :: "phrase_location \<Rightarrow> bool option" where
  "LocationIsEmpty l = map_option (\<lambda>n. n = 0) (LocationSize l)"

definition location_eq :: "phrase_location \<Rightarrow> phrase_location \<Rightarrow> bool" where
  "location_eq a b =
     (if pl_sa_low a \<noteq> pl_sa_low b \<or> pl_sa_high a \<noteq> pl_sa_high b \<or>
         pl_num_subpatterns a \<noteq> pl_num_subpatterns b then False
      else if pl_matchings a = None \<and> pl_matchings b = None then True
      else if pl_matchings a = None \<or> pl_matchings b = None then False
      else the (pl_matchings a) = the (pl_matchings b))"

lemma location_eq_iff: "location_eq a b \<longleftrightarrow> a = b"
  by (cases a; cases b) (auto simp: location_eq_def)

section \<open>Facts about phrases\<close>

text \<open>The reference reading of a symbol list: its terminal runs, and its gaps.\<close>

fun chunks :: "int list \<Rightarrow> int list list" where
  "chunks [] = [[]]"
| "chunks (s # ss) = (if IsTerminal s then (s # hd (chunks ss)) # tl (chunks ss) else [] # chunks ss)"

lemma chunks_not_Nil [simp]: "chunks ss \<noteq> []"
  by (cases ss) auto

definition var_positions :: "int list \<Rightarrow> int list" where
  "var_positions ss = filter (\<lambda>i. \<not> IsTerminal (ss ! nat i)) (positions ss)"

definition valid_symbols :: "vocabulary \<Rightarrow> int list \<Rightarrow> bool" where
  "valid_symbols v ss = (\<forall>s \<in> set ss. IsTerminal s \<longrightarrow> s < vsize (voc_words v))"

lemma var_positions_Nil [simp]: "var_positions [] = []"
  by (simp add: var_positions_def)

lemma var_positions_snoc:
  "var_positions (ss @ [s]) = var_positions ss @ (if IsTerminal s then [] else [vsize ss])"
proof -
  have "filter (\<lambda>i. \<not> IsTerminal ((ss @ [s]) ! nat i)) (positions ss) = var_positions ss"
    unfolding var_positions_def by (rule filter_cong) (auto simp: nth_append vsize_def)
  then show ?thesis
    using int_range_snoc [of 0 "vsize ss"]
    by (simp add: var_positions_def nth_append vsize_def add.commute)
qed

lemma var_positions_Cons:
  "var_positions (s # ss) = (if IsTerminal s then [] else [0]) @ map (\<lambda>i. i + 1) (var_positions ss)"
proof (induction ss rule: rev_induct)
  case Nil
  show ?case using var_positions_snoc [of "[]" s] by simp
next
  case (snoc x xs)
  show ?case
    using snoc.IH var_positions_snoc [of "s # xs" x] var_positions_snoc [of xs x]
    by (simp add: add.commute)
qed

lemma length_var_positions: "length (var_positions ss) = length (filter (\<lambda>s. \<not> IsTerminal s) ss)"
  by (induction ss rule: rev_induct) (auto simp: var_positions_snoc)

lemma Build_loop:
  assumes "valid_symbols v ss" "n \<le> length ss"
  shows "for_each (int_range 0 (int n)) (\<lambda>i p. do {
       s \<leftarrow> vat ss i;
       if IsTerminal s then do {
         w \<leftarrow> GetTerminalValue v s; Some (p\<lparr>ph_words := ph_words p @ [w]\<rparr>) }
       else Some (p\<lparr>ph_var_pos := ph_var_pos p @ [i]\<rparr>) }) (empty_phrase\<lparr>ph_symbols := ss\<rparr>) =
    Some \<lparr>ph_symbols = ss, ph_var_pos = var_positions (take n ss),
          ph_words = map (\<lambda>s. voc_words v ! nat s) (filter IsTerminal (take n ss))\<rparr>"
  using assms(2)
proof (induction n)
  case 0
  show ?case by (simp add: empty_phrase_def)
next
  case (Suc n)
  have mem: "ss ! n \<in> set ss" using Suc.prems by simp
  have "GetTerminalValue v (ss ! n) = Some (voc_words v ! nat (ss ! n))" if "IsTerminal (ss ! n)"
    using assms(1) mem that by (auto simp: valid_symbols_def GetTerminalValue_def IsTerminal_def vsize_def vat_eq)
  then show ?case
    using Suc int_range_snoc [of 0 "int n"]
    by (auto simp: for_each_append take_Suc_conv_app_nth var_positions_snoc vsize_def add.commute)
qed

lemma Build_eq:
  assumes "valid_symbols v ss"
  shows "Build v ss = Some \<lparr>ph_symbols = ss, ph_var_pos = var_positions ss,
          ph_words = map (\<lambda>s. voc_words v ! nat s) (filter IsTerminal ss)\<rparr>"
  using Build_loop [OF assms, of "length ss"] by (simp add: Build_def vsize_def)

lemma length_chunks: "length (chunks ss) = Suc (length (var_positions ss))"
  by (induction ss) (auto simp: var_positions_Cons)

lemma chunk_bounds:
  assumes "i < length (chunks ss)"
  shows "vsize (chunks ss ! i) = (var_positions ss @ [vsize ss]) ! i - (-1 # var_positions ss) ! i - 1"
  using assms
proof (induction ss arbitrary: i)
  case Nil
  then show ?case by simp
next
  case (Cons s ss)
  let ?V = "var_positions ss"
  obtain c cs where c: "chunks ss = c # cs" by (cases "chunks ss") auto
  have len: "length cs = length ?V" using length_chunks [of ss] c by simp
  have shift: "(map (\<lambda>i. i + 1) ?V @ [1 + vsize ss]) ! j = (?V @ [vsize ss]) ! j + 1"
    if "j \<le> length ?V" for j
    using that by (auto simp: nth_append)
  show ?case
  proof (cases "IsTerminal s")
    case True
    have "i \<le> length ?V" using Cons.prems c len True by auto
    then show ?thesis
      using True Cons.IH [of i] c len shift [of i] shift [of "i - 1"]
      by (cases i) (auto simp: var_positions_Cons)
  next
    case False
    then show ?thesis
      using Cons.prems c len shift [of "i - 1"] shift [of "i - 2"] Cons.IH [of "i - 1"]
      by (cases i; cases "i - 1") (auto simp: var_positions_Cons)
  qed
qed

text \<open>
   The chunk lengths of a phrase built from a symbol list are the lengths of its terminal runs:
  there is one more run than gaps, and \<open>GetChunkLen i\<close> is the length of run \<open>i\<close>.
\<close>

theorem GetChunkLen_chunks:
  assumes "valid_symbols v ss"
  shows "\<exists>p. Build v ss = Some p \<and> vsize (chunks ss) = Arity p + 1 \<and>
    (\<forall>i. 0 \<le> i \<and> i \<le> Arity p \<longrightarrow> GetChunkLen p i = map_option vsize (vat (chunks ss) i))"
proof -
  let ?p = "\<lparr>ph_symbols = ss, ph_var_pos = var_positions ss,
          ph_words = map (\<lambda>s. voc_words v ! nat s) (filter IsTerminal ss)\<rparr>"
  let ?V = "var_positions ss"
  have "GetChunkLen ?p i = map_option vsize (vat (chunks ss) i)" if i: "0 \<le> i" "i \<le> vsize ?V" for i
  proof -
    obtain n where n: "i = int n" using i(1) nonneg_int_cases by blast
    have le: "n \<le> length ?V" using i(2) n by (simp add: vsize_def)
    then have chunk: "map_option vsize (vat (chunks ss) i) =
        Some ((?V @ [vsize ss]) ! n - (-1 # ?V) ! n - 1)"
      using chunk_bounds [of n ss] by (simp add: n length_chunks)
    show ?thesis
    proof (cases "?V = []")
      case True
      then show ?thesis using chunk le by (auto simp: GetChunkLen_def)
    next
      case False
      show ?thesis
      proof (cases n)
        case 0
        then show ?thesis
          using chunk False n by (auto simp: GetChunkLen_def vsize_def nth_append vat_eq)
      next
        case (Suc k)
        have "vat ?V i = (if n = length ?V then None else Some (?V ! n))"
          using le by (auto simp: n vat_def)
        moreover have "vat ?V (i - 1) = Some (?V ! k)"
          using le Suc n by (simp add: vat_eq vsize_def)
        moreover have "vback ?V = Some (?V ! k)" if "n = length ?V"
          proof -
          have "length ?V - Suc 0 = k" using that Suc by arith
          then show ?thesis using False by (simp add: vback_def last_conv_nth)
        qed
        ultimately show ?thesis
          using chunk le n Suc by (auto simp: GetChunkLen_def vsize_def nth_append)
      qed
    qed
  qed
  moreover have "vsize (chunks ss) = Arity ?p + 1"
    by (simp add: vsize_def length_chunks Arity_def)
  ultimately show ?thesis using Build_eq [OF assms] by (auto simp: Arity_def)
qed

definition two_words :: vocabulary where
  "two_words = snd (GetTerminalIndex ''b'' (snd (GetTerminalIndex ''a'' empty_vocabulary)))"

lemma two_words_valid: "valid_symbols two_words [0, - 1, 1]"
  by code_simp

lemma GetChunkLen_chunks_witness:
  "valid_symbols two_words [0, - 1, 1] \<and> (\<exists>p. Build two_words [0, - 1, 1] = Some p \<and> GetChunkLen p 1 = Some 1)"
proof -
  obtain p where p: "Build two_words [0, - 1, 1] = Some p" "vsize (chunks [0, - 1, 1]) = Arity p + 1"
    "\<forall>i. 0 \<le> i \<and> i \<le> Arity p \<longrightarrow> GetChunkLen p i = map_option vsize (vat (chunks [0, - 1, 1]) i)"
    using GetChunkLen_chunks [OF two_words_valid] by blast
  have "chunks [0, - 1, 1] = [[0], [1]]" by code_simp
  with p have "GetChunkLen p 1 = Some 1" by (simp add: vsize_def vat_eq)
  with p(1) two_words_valid show ?thesis by blast
qed

text \<open>The reference reading of \<open>Extend\<close>: number the gaps from left to right.\<close>

fun renumber :: "int \<Rightarrow> int list \<Rightarrow> int list" where
  "renumber n [] = []"
| "renumber n (s # ss) = (if IsTerminal s then s # renumber n ss else - (n + 1) # renumber (n + 1) ss)"

definition num_gaps :: "int list \<Rightarrow> int" where
  "num_gaps ss = vsize (filter (\<lambda>s. \<not> IsTerminal s) ss)"

lemma num_gaps_simps [simp]:
  "num_gaps [] = 0"
  "num_gaps (s # ss) = (if IsTerminal s then num_gaps ss else num_gaps ss + 1)"
  by (auto simp: num_gaps_def vsize_def)

lemma renumber_append: "renumber n (xs @ ys) = renumber n xs @ renumber (n + num_gaps xs) ys"
  by (induction xs arbitrary: n) (auto simp: algebra_simps)

lemma length_renumber [simp]: "length (renumber n ss) = length ss"
  by (induction ss arbitrary: n) auto

lemma renumber_terminals: "0 \<le> n \<Longrightarrow> filter IsTerminal (renumber n ss) = filter IsTerminal ss"
  by (induction ss arbitrary: n) (auto simp: IsTerminal_def)

lemma renumber_gaps:
  "0 \<le> n \<Longrightarrow> filter (\<lambda>s. \<not> IsTerminal s) (renumber n ss) = map uminus (int_range (n + 1) (n + num_gaps ss + 1))"
proof (induction ss arbitrary: n)
  case Nil
  then show ?case by simp
next
  case (Cons s ss)
  have "0 \<le> num_gaps ss" by (simp add: num_gaps_def vsize_def)
  then show ?case
    using Cons by (auto simp: IsTerminal_def int_range_Cons algebra_simps)
qed

lemma Extend_loop:
  assumes f: "f = (\<lambda>i (symbols, n). do {
         s \<leftarrow> vat symbols i;
         if \<not> IsTerminal s then do {
           symbols' \<leftarrow> vset symbols i (GetNonterminalIndex (n + 1));
           Some (symbols', n + 1) }
         else Some (symbols, n) })"
  shows "for_each (int_range (vsize pre) (vsize pre + vsize ss)) f (pre @ ss, n) =
    Some (pre @ renumber n ss, n + num_gaps ss)"
proof (induction ss arbitrary: pre n)
  case Nil
  show ?case by (simp add: vsize_def)
next
  case (Cons s ss)
  let ?t = "if IsTerminal s then s else GetNonterminalIndex (n + 1)"
  let ?n = "if IsTerminal s then n else n + 1"
  have split: "int_range (vsize pre) (vsize pre + vsize (s # ss)) =
      vsize pre # int_range (vsize (pre @ [?t])) (vsize (pre @ [?t]) + vsize ss)"
    by (simp add: vsize_def int_range_Cons algebra_simps)
  have "f (vsize pre) (pre @ s # ss, n) = Some ((pre @ [?t]) @ ss, ?n)"
    by (simp add: f vat_eq vset_def vsize_def)
  then show ?case
    unfolding split using Cons.IH [of "pre @ [?t]" ?n]
    by (simp add: GetNonterminalIndex_def algebra_simps)
qed

lemma IsTerminal_minus_1: "\<not> IsTerminal (- 1)"
  by (simp add: IsTerminal_def)

lemma Extend_eq:
  "Extend v p start_x end_x = Build v (renumber 0
     ((if start_x then [GetNonterminalIndex 1] else []) @ ph_symbols p @
      (if end_x then [GetNonterminalIndex 1] else [])))"
proof -
  let ?g = "GetNonterminalIndex 1"
  show ?thesis
    using Extend_loop [OF refl, of "[?g]" "ph_symbols p" 1]
      Extend_loop [OF refl, of "[]" "ph_symbols p" 0]
    by (auto simp: Extend_def renumber_append IsTerminal_minus_1 Let_def vsize_def
          GetNonterminalIndex_def algebra_simps)
qed

lemma valid_symbols_renumber:
  "0 \<le> n \<Longrightarrow> valid_symbols v ss \<Longrightarrow> valid_symbols v (renumber n ss)"
  using arg_cong [OF renumber_terminals [of n ss], of set] by (auto simp: valid_symbols_def)

text \<open>
   \<open>Extend\<close> on a phrase of known words succeeds, adds one gap per requested side and nothing
  else, keeps the words, and numbers the gaps \<open>-1, -2, ...\<close> from left to right.
\<close>

theorem Extend_numbers_gaps:
  assumes "valid_symbols v (ph_symbols p)"
  shows "\<exists>q. Extend v p start_x end_x = Some q \<and>
    Arity q = num_gaps (ph_symbols p) + of_bool start_x + of_bool end_x \<and>
    filter IsTerminal (ph_symbols q) = filter IsTerminal (ph_symbols p) \<and>
    ph_words q = map (\<lambda>s. voc_words v ! nat s) (filter IsTerminal (ph_symbols p)) \<and>
    filter (\<lambda>s. \<not> IsTerminal s) (ph_symbols q) = map uminus (int_range 1 (Arity q + 1)) \<and>
    GetNumSymbols q = GetNumSymbols p + of_bool start_x + of_bool end_x"
proof -
  let ?g = "GetNonterminalIndex 1"
  let ?ss = "(if start_x then [?g] else []) @ ph_symbols p @ (if end_x then [?g] else [])"
  have g: "\<not> IsTerminal ?g" by (simp add: IsTerminal_def GetNonterminalIndex_def)
  have valid: "valid_symbols v (renumber 0 ?ss)"
    by (rule valid_symbols_renumber) (use assms g in \<open>auto simp: valid_symbols_def\<close>)
  have gaps: "vsize (var_positions (renumber 0 ?ss)) = num_gaps ?ss"
    using arg_cong [OF renumber_gaps [of 0 ?ss], of length]
    by (simp add: vsize_def length_var_positions num_gaps_def)
  have count: "num_gaps ?ss = num_gaps (ph_symbols p) + of_bool start_x + of_bool end_x"
    using g by (simp add: num_gaps_def vsize_def)
  show ?thesis
    unfolding Extend_eq Build_eq [OF valid]
    using renumber_gaps [of 0 ?ss] renumber_terminals [of 0 ?ss] gaps count g
    by (auto simp: Arity_def GetNumSymbols_def vsize_def)
qed

lemma Extend_numbers_gaps_witness:
  "valid_symbols two_words [0, - 1, 1] \<and>
   (\<exists>p q. Build two_words [0, - 1, 1] = Some p \<and> Extend two_words p True False = Some q \<and> Arity q = 2)"
proof -
  let ?p = "\<lparr>ph_symbols = [0, - 1, 1], ph_var_pos = [1], ph_words = [''a'', ''b'']\<rparr>"
  have "Build two_words [0, - 1, 1] = Some ?p" by code_simp
  moreover have "num_gaps [0, - 1, 1] = 1" by code_simp
  ultimately show ?thesis
    using Extend_numbers_gaps [of two_words ?p True False] two_words_valid by fastforce
qed

end
