(* ===== verification/SuffixArrays.thy ===== *)
theory SuffixArrays
  imports Phrases
begin

text \<open>
  \<open>SuffixArray\<close> (\<open>extractor/suffix_array\<close>): construction by bucket sort and prefix
  doubling with ternary quicksort, the longest-common-prefix array, and the lookups of
  \<open>MatchingsFinder\<close>. \<open>rand()\<close> is the parameter \<open>rnd\<close>, read at a counter that is
  part of the sorting state. The correctness proof of the construction is in
  \<open>SuffixSort\<close>, that of the lookups in \<open>SuffixLookup\<close>.
\<close>

section \<open>Sorting state\<close>

text \<open>The member \<open>suffix_array\<close>, the vector \<open>groups\<close>, and the calls of \<open>rand()\<close> so far.\<close>

type_synonym sort_state = "int list \<times> int list \<times> nat"

definition partition_step ::
  "int \<Rightarrow> int list \<Rightarrow> int \<Rightarrow> int \<Rightarrow> int list \<times> int \<times> int \<Rightarrow> (int list \<times> int \<times> int) option" where
  "partition_step step groups pivot_value i = (\<lambda>(sa, mid_left, mid_right). do {
     p \<leftarrow> vat sa i;
     v \<leftarrow> vat groups (p + step);
     if v < pivot_value then do {
       a \<leftarrow> vat sa (mid_right + 1);
       sa1 \<leftarrow> vset sa i a;
       b \<leftarrow> vat sa1 mid_left;
       sa2 \<leftarrow> vset sa1 (mid_right + 1) b;
       sa3 \<leftarrow> vset sa2 mid_left p;
       Some (sa3, mid_left + 1, mid_right + 1) }
     else if v = pivot_value then do {
       a \<leftarrow> vat sa (mid_right + 1);
       sa1 \<leftarrow> vset sa i a;
       sa2 \<leftarrow> vset sa1 (mid_right + 1) p;
       Some (sa2, mid_left, mid_right + 1) }
     else Some (sa, mid_left, mid_right) })"

definition mark_group :: "int \<Rightarrow> int \<Rightarrow> int list \<times> int list \<Rightarrow> (int list \<times> int list) option" where
  "mark_group mid_left mid_right = (\<lambda>(sa, groups).
     if mid_left = mid_right then do {
       p \<leftarrow> vat sa mid_left;
       groups1 \<leftarrow> vset groups p mid_left;
       sa1 \<leftarrow> vset sa mid_left (- 1);
       Some (sa1, groups1) }
     else do {
       groups1 \<leftarrow> for_each (int_range mid_left (mid_right + 1)) (\<lambda>i groups. do {
         p \<leftarrow> vat sa i; vset groups p mid_right }) groups;
       Some (sa, groups1) })"

partial_function (option) TernaryQuicksort ::
  "(nat \<Rightarrow> nat) \<Rightarrow> int \<Rightarrow> int \<Rightarrow> int \<Rightarrow> sort_state \<Rightarrow> sort_state option" where
  "TernaryQuicksort rnd left right step st =
     (if right < left then Some st
      else do {
        let (sa, groups, draws) = st;
        let pivot = left + int (rnd draws) mod (right - left + 1);
        p \<leftarrow> vat sa pivot;
        pivot_value \<leftarrow> vat groups (p + step);
        q \<leftarrow> vat sa left;
        sa1 \<leftarrow> vset sa pivot q;
        sa2 \<leftarrow> vset sa1 left p;
        (sa3, mid_left, mid_right) \<leftarrow>
          for_each (int_range (left + 1) (right + 1)) (partition_step step groups pivot_value)
            (sa2, left, left);
        (sa4, groups1, draws1) \<leftarrow>
          TernaryQuicksort rnd left (mid_left - 1) step (sa3, groups, draws + 1);
        (sa5, groups2) \<leftarrow> mark_group mid_left mid_right (sa4, groups1);
        TernaryQuicksort rnd (mid_right + 1) right step (sa5, groups2, draws1) })"

text \<open>One round of \<open>PrefixDoublingSort\<close>: the inner \<open>while\<close>, from position \<open>i\<close>.\<close>

partial_function (option) doubling_round ::
  "(nat \<Rightarrow> nat) \<Rightarrow> int \<Rightarrow> int \<Rightarrow> int \<Rightarrow> sort_state \<Rightarrow> sort_state option" where
  "doubling_round rnd step combined_group_size i st =
     (let (sa, groups, draws) = st in
      if i < vsize sa then do {
        x \<leftarrow> vat sa i;
        if x < 0 then do {
          let skip = - x;
          let combined = combined_group_size + skip;
          let i1 = i + skip;
          sa1 \<leftarrow> vset sa (i1 - combined) (- combined);
          doubling_round rnd step combined i1 (sa1, groups, draws) }
        else do {
          j \<leftarrow> vat groups x;
          st1 \<leftarrow> TernaryQuicksort rnd i j step st;
          doubling_round rnd step 0 (j + 1) st1 } }
      else Some st)"

partial_function (option) PrefixDoublingSort ::
  "(nat \<Rightarrow> nat) \<Rightarrow> int \<Rightarrow> sort_state \<Rightarrow> sort_state option" where
  "PrefixDoublingSort rnd step st = do {
     x \<leftarrow> vat (fst st) 0;
     if x \<noteq> - vsize (fst st) then do {
       st1 \<leftarrow> doubling_round rnd step 0 0 st;
       PrefixDoublingSort rnd (step * 2) st1 }
     else Some st }"

declare TernaryQuicksort.simps [code] doubling_round.simps [code] PrefixDoublingSort.simps [code]

text \<open>\<open>InitialBucketSort\<close> takes and returns the suffix array, the groups and \<open>word_start\<close>.\<close>

definition InitialBucketSort ::
  "int list \<Rightarrow> int list \<Rightarrow> int list \<Rightarrow> (int list \<times> int list \<times> int list) option" where
  "InitialBucketSort sa groups word_start = do {
     ws1 \<leftarrow> for_each (positions groups) (\<lambda>i ws. do {
       g \<leftarrow> vat groups i; c \<leftarrow> vat ws g; vset ws g (c + 1) }) word_start;
     ws2 \<leftarrow> for_each (int_range 1 (vsize ws1)) (\<lambda>i ws. do {
       a \<leftarrow> vat ws i; b \<leftarrow> vat ws (i - 1); vset ws i (a + b) }) ws1;
     (ws3, sa1) \<leftarrow> for_each (positions groups) (\<lambda>i (ws, sa). do {
       g \<leftarrow> vat groups i; c \<leftarrow> vat ws g; ws' \<leftarrow> vset ws g (c - 1);
       sa' \<leftarrow> vset sa (c - 1) i;
       Some (ws', sa') }) (ws2, sa);
     groups1 \<leftarrow> for_each (positions sa1) (\<lambda>i groups. do {
       g \<leftarrow> vat groups i; c \<leftarrow> vat ws3 (g + 1); vset groups i (c - 1) }) groups;
     Some (sa1, groups1, ws3) }"

definition combine_singletons :: "int list \<Rightarrow> int list \<Rightarrow> (int list \<times> int) option" where
  "combine_singletons word_start sa =
     for_each (int_range 1 (vsize word_start)) (\<lambda>i (sa, combined). do {
       a \<leftarrow> vat word_start i; b \<leftarrow> vat word_start (i - 1);
       if a - b = 1 then do {
         sa' \<leftarrow> vset sa (a - (combined + 1)) (- (combined + 1));
         Some (sa', combined + 1) }
       else Some (sa, 0) }) (sa, 0)"

section \<open>The suffix array\<close>

record suffix_array =
  sa_data :: data_array
  sa_array :: "int list"
  sa_word_start :: "int list"

definition BuildSuffixArray :: "(nat \<Rightarrow> nat) \<Rightarrow> data_array \<Rightarrow> suffix_array option" where
  "BuildSuffixArray rnd d = do {
     let groups = da_data d @ [NULL_WORD];
     let sa = replicate (length groups) 0;
     let word_start = replicate (nat (GetVocabularySize d + 1)) 0;
     (sa1, groups1, word_start1) \<leftarrow> InitialBucketSort sa groups word_start;
     (sa2, _) \<leftarrow> combine_singletons word_start1 sa1;
     (sa3, groups2, _) \<leftarrow> PrefixDoublingSort rnd 1 (sa2, groups1, 0);
     sa4 \<leftarrow> for_each (positions groups2) (\<lambda>i sa. do { g \<leftarrow> vat groups2 i; vset sa g i }) sa3;
     Some \<lparr>sa_data = d, sa_array = sa4, sa_word_start = word_start1\<rparr> }"

text \<open>The inner \<open>while\<close> of \<open>BuildLCPArray\<close>.\<close>

function extend_prefix :: "int list \<Rightarrow> int \<Rightarrow> int \<Rightarrow> int \<Rightarrow> int option" where
  "extend_prefix data i j prefix_len =
     (if i + prefix_len < vsize data \<and> j + prefix_len < vsize data
      then do {
        a \<leftarrow> vat data (i + prefix_len); b \<leftarrow> vat data (j + prefix_len);
        if a = b then extend_prefix data i j (prefix_len + 1) else Some prefix_len }
      else Some prefix_len)"
  by auto
termination by (relation "measure (\<lambda>(data, i, j, n). nat (vsize data - (i + n)))") auto

definition BuildLCPArray :: "suffix_array \<Rightarrow> int list option" where
  "BuildLCPArray s = do {
     let sa = sa_array s;
     rank \<leftarrow> for_each (positions sa) (\<lambda>i rank. do { p \<leftarrow> vat sa i; vset rank p i })
       (replicate (length sa) 0);
     (lcp, _) \<leftarrow> for_each (positions sa) (\<lambda>i (lcp, prefix_len). do {
       r \<leftarrow> vat rank i;
       (lcp1, len1) \<leftarrow>
         (if r = 0 then do { l \<leftarrow> vset lcp r (- 1); Some (l, prefix_len) }
          else do {
            j \<leftarrow> vat sa (r - 1);
            len \<leftarrow> extend_prefix (da_data (sa_data s)) i j prefix_len;
            l \<leftarrow> vset lcp r len;
            Some (l, len) });
       Some (lcp1, if 0 < len1 then len1 - 1 else len1) }) (replicate (length sa) 0, 0);
     Some lcp }"

definition GetSuffix :: "suffix_array \<Rightarrow> int \<Rightarrow> int option" where
  "GetSuffix s rank = vat (sa_array s) rank"

definition SuffixArraySize :: "suffix_array \<Rightarrow> int" where
  "SuffixArraySize s = vsize (sa_array s)"

function range_start_loop :: "suffix_array \<Rightarrow> int \<Rightarrow> int \<Rightarrow> int \<Rightarrow> int \<Rightarrow> int \<Rightarrow> int option" where
  "range_start_loop s low high word_id offset result =
     (if low < high then do {
        let middle = low + (high - low) div 2;
        p \<leftarrow> vat (sa_array s) middle;
        below \<leftarrow> (if GetSize (sa_data s) \<le> p + offset then Some True
          else do { a \<leftarrow> AtIndex (sa_data s) (p + offset); Some (a < word_id) });
        if below then range_start_loop s (middle + 1) high word_id offset result
        else range_start_loop s low middle word_id offset middle }
      else Some result)"
  by auto
termination by (relation "measure (\<lambda>(s, low, high, _). nat (high - low))") auto

declare extend_prefix.simps [simp del] range_start_loop.simps [simp del]

definition LookupRangeStart :: "suffix_array \<Rightarrow> int \<Rightarrow> int \<Rightarrow> int \<Rightarrow> int \<Rightarrow> int option" where
  "LookupRangeStart s low high word_id offset = range_start_loop s low high word_id offset high"

definition Lookup :: "suffix_array \<Rightarrow> int \<Rightarrow> int \<Rightarrow> string \<Rightarrow> int \<Rightarrow> phrase_location option" where
  "Lookup s low high word offset = do {
     let word_id = GetWordId (sa_data s) word;
     if word_id = -1 then Some (PhraseLocation_range 0 0)
     else if offset = 0 then do {
       a \<leftarrow> vat (sa_word_start s) word_id;
       b \<leftarrow> vat (sa_word_start s) (word_id + 1);
       Some (PhraseLocation_range a b) }
     else do {
       a \<leftarrow> LookupRangeStart s low high word_id offset;
       b \<leftarrow> LookupRangeStart s low high (word_id + 1) offset;
       Some (PhraseLocation_range a b) } }"

section \<open>MatchingsFinder\<close>

text \<open>\<open>Find\<close> takes the location by reference and normalizes it in place.\<close>

definition Find :: "suffix_array \<Rightarrow> phrase_location \<Rightarrow> string \<Rightarrow> int \<Rightarrow> (phrase_location \<times> phrase_location) option" where
  "Find s location word offset = do {
     let location1 = (if pl_sa_low location = -1 \<and> pl_sa_high location = -1
       then location\<lparr>pl_sa_low := 0, pl_sa_high := SuffixArraySize s\<rparr> else location);
     found \<leftarrow> Lookup s (pl_sa_low location1) (pl_sa_high location1) word offset;
     Some (found, location1) }"

end
