(* ===== verification/SuffixSort.thy ===== *)
theory SuffixSort
  imports SuffixArrays
begin

text \<open>
  The construction of the suffix array sorts the suffixes: the invariant of prefix doubling
  (the groups are a sound approximation of the suffix order, exact up to the current step), the
  layout of the array in sorted runs and unsorted groups, and the proof of every loop.
\<close>

section \<open>The suffix order\<close>

abbreviation ix :: "int list \<Rightarrow> int \<Rightarrow> int" where
  "ix xs i \<equiv> xs ! nat i"

definition suf :: "int list \<Rightarrow> int \<Rightarrow> int list" where
  "suf D p = drop (nat p) D"

definition agree :: "int list \<Rightarrow> int \<Rightarrow> int \<Rightarrow> int \<Rightarrow> bool" where
  "agree D h p q = (take (nat h) (suf D p) = take (nat h) (suf D q))"

lemma suf_split: "0 \<le> p \<Longrightarrow> 0 \<le> h \<Longrightarrow> suf D p = take (nat h) (suf D p) @ suf D (p + h)"
  by (simp add: suf_def nat_add_distrib add.commute append_take_drop_id flip: drop_drop)

lemma agree_step:
  assumes "0 \<le> p" "0 \<le> q" "0 \<le> h" "agree D h p q" "vec_less (suf D (p + h)) (suf D (q + h))"
  shows "vec_less (suf D p) (suf D q)"
  using suf_split [of p h D] suf_split [of q h D] assms unfolding agree_def
  by (metis vec_less_append)

lemma agree_double:
  assumes "0 \<le> p" "0 \<le> q" "0 \<le> h" "agree D h p q" "agree D h (p + h) (q + h)"
  shows "agree D (2 * h) p q"
proof -
  have d: "nat (2 * h) = nat h + nat h" using assms(3) by (simp add: nat_mult_distrib)
  have "drop (nat h) (suf D r) = suf D (r + h)" if "0 \<le> r" for r
    using that assms(3) by (simp add: suf_def nat_add_distrib add.commute)
  then show ?thesis using assms by (simp add: agree_def d take_add)
qed

lemma agree_refl [simp]: "agree D h p p"
  by (simp add: agree_def)

text \<open>The corpus with the sentinel: its last symbol is smaller than all others.\<close>

definition sentinel :: "int list \<Rightarrow> bool" where
  "sentinel D = (\<exists>E. D = E @ [0] \<and> (\<forall>x \<in> set E. 0 < x))"

lemma sentinel_nth: "sentinel D \<Longrightarrow> n < length D \<Longrightarrow> D ! n = 0 \<longleftrightarrow> n = length D - 1"
  by (fastforce simp: sentinel_def nth_append less_Suc_eq dest: nth_mem)

lemma agree_sentinel:
  assumes D: "sentinel D" and p: "0 \<le> p" "p < vsize D" and q: "0 \<le> q" "q < vsize D"
    and eq: "agree D h p q" and h: "vsize D \<le> p + h"
  shows "p = q"
proof -
  obtain a b where ab: "p = int a" "q = int b" using p q by (metis nonneg_int_cases)
  define n where "n = length D - 1 - a"
  have n: "n < nat h" "a + n = length D - 1" "a < length D" "b < length D"
    using p q h ab unfolding vsize_def n_def by arith+
  have take: "take (nat h) (drop a D) = take (nat h) (drop b D)"
    using eq by (simp add: agree_def suf_def ab)
  have "min (length D - a) (nat h) = min (length D - b) (nat h)"
    using arg_cong [OF take, of length] by simp
  then have len: "n < length D - b" using n by linarith
  have "D ! (a + n) = D ! (b + n)"
    using arg_cong [OF take, of "\<lambda>l. l ! n"] n len by simp
  then have "b + n = length D - 1"
    using sentinel_nth [OF D, of "b + n"] sentinel_nth [OF D, of "length D - 1"] len n
    by (simp add: less_diff_conv add.commute)
  then show ?thesis using n ab by linarith
qed

section \<open>Partition\<close>

lemma vat_mid: "i = vsize A \<Longrightarrow> vat (A @ x # B) i = Some x"
  by (simp add: vat_append)

lemma vset_mid: "i = vsize A \<Longrightarrow> vset (A @ x # B) i y = Some (A @ y # B)"
  by (simp add: vset_def vsize_def)

lemma partition_step_eq:
  assumes "vat groups (x + step) = Some k" "M \<noteq> []"
    and i: "i = vsize P + vsize L + vsize M + vsize G"
    and ml: "ml = vsize P + vsize L" and mr: "mr + 1 = vsize P + vsize L + vsize M"
  shows "partition_step step groups pv i (P @ L @ M @ G @ x # R, ml, mr) =
    Some (if k < pv then (P @ (L @ [x]) @ rotate1 M @ rotate1 G @ R, ml + 1, mr + 1)
          else if k = pv then (P @ L @ (M @ [x]) @ rotate1 G @ R, ml, mr + 1)
          else (P @ L @ M @ (G @ [x]) @ R, ml, mr))"
proof -
  obtain m M' where M: "M = m # M'" using assms(2) by (cases M) auto
  have x: "vat (P @ L @ M @ G @ x # R) i = Some x"
    using vat_mid [of i "P @ L @ M @ G" x R] i by simp
  have at_l: "vat (P @ L @ M @ z) ml = Some m" for z
    using vat_mid [of ml "P @ L" m "M' @ z"] M ml by simp
  have set_l: "vset (P @ L @ M @ z) ml x = Some (P @ L @ x # M' @ z)" for z
    using vset_mid [of ml "P @ L" m "M' @ z"] M ml by simp
  have at_r: "vat (P @ L @ M @ z # Z) (mr + 1) = Some z" for z Z
    using vat_mid [of "mr + 1" "P @ L @ M" z Z] mr by simp
  have set_r: "vset (P @ L @ M @ z # Z) (mr + 1) y = Some (P @ L @ M @ y # Z)" for y z Z
    using vset_mid [of "mr + 1" "P @ L @ M" z Z] mr by simp
  have set_i: "vset (P @ L @ M @ G @ x # R) i y = Some (P @ L @ M @ G @ y # R)" for y
    using vset_mid [of i "P @ L @ M @ G" x R y] i by simp
  have rot: "rotate1 M = M' @ [m]" using M by simp
  show ?thesis
  proof (cases G)
    case Nil
    show ?thesis
      using x at_l [of "_ # R"] set_l [of "_ # R"] at_r set_r set_i assms(1) rot
      unfolding Nil by (simp add: partition_step_def)
  next
    case (Cons g G')
    show ?thesis
      using x at_l [of "_ # G' @ _ # R"] set_l [of "_ # G' @ _ # R"] at_r set_r set_i assms(1) rot
      unfolding Cons by (simp add: partition_step_def)
  qed
qed

lemma partition_loop:
  assumes "\<forall>x \<in> set R. 0 \<le> x + step \<and> x + step < vsize groups" "M \<noteq> []"
    and "i = vsize P + vsize L + vsize M + vsize G"
    and "ml = vsize P + vsize L" and "mr + 1 = vsize P + vsize L + vsize M"
  shows "\<exists>L' M' G'. for_each (int_range i (i + vsize R)) (partition_step step groups pv)
      (P @ L @ M @ G @ R @ Q, ml, mr) =
      Some (P @ L' @ M' @ G' @ Q, vsize P + vsize L', vsize P + vsize L' + vsize M' - 1) \<and> M' \<noteq> [] \<and>
    mset L' = mset L + mset (filter (\<lambda>x. ix groups (x + step) < pv) R) \<and>
    mset M' = mset M + mset (filter (\<lambda>x. ix groups (x + step) = pv) R) \<and>
    mset G' = mset G + mset (filter (\<lambda>x. pv < ix groups (x + step)) R)"
  using assms
proof (induction R arbitrary: L M G i ml mr)
  case Nil
  then have "mr = vsize P + vsize L + vsize M - 1" by linarith
  then show ?case using Nil by (intro exI [of _ L] exI [of _ M] exI [of _ G]) simp
next
  case (Cons x R)
  have key: "vat groups (x + step) = Some (ix groups (x + step))"
    using Cons.prems(1) by (simp add: vat_eq vsize_def)
  have range: "int_range i (i + vsize (x # R)) = i # int_range (i + 1) ((i + 1) + vsize R)"
    by (simp add: int_range_Cons add.assoc [symmetric] vsize_def)
  note step = partition_step_eq [OF key Cons.prems(2-5), of pv "R @ Q"]
  have rest: "\<forall>x \<in> set R. 0 \<le> x + step \<and> x + step < vsize groups"
    using Cons.prems(1) by simp
  have rot: "rotate1 M \<noteq> []" "mset (rotate1 M) = mset M" "mset (rotate1 G) = mset G"
    "vsize (rotate1 M) = vsize M" "vsize (rotate1 G) = vsize G"
    using Cons.prems(2) by (cases M; cases G; simp)+
  note eqs = Cons.prems(3-5)
  consider "ix groups (x + step) < pv" | "ix groups (x + step) = pv" | "pv < ix groups (x + step)"
    by linarith
  then show ?case
  proof cases
    case 1
    have "\<exists>L' M' G'. for_each (int_range (i + 1) (i + 1 + vsize R)) (partition_step step groups pv)
        (P @ (L @ [x]) @ rotate1 M @ rotate1 G @ R @ Q, ml + 1, mr + 1) =
        Some (P @ L' @ M' @ G' @ Q, vsize P + vsize L', vsize P + vsize L' + vsize M' - 1) \<and> M' \<noteq> [] \<and>
      mset L' = mset (L @ [x]) + mset (filter (\<lambda>x. ix groups (x + step) < pv) R) \<and>
      mset M' = mset (rotate1 M) + mset (filter (\<lambda>x. ix groups (x + step) = pv) R) \<and>
      mset G' = mset (rotate1 G) + mset (filter (\<lambda>x. pv < ix groups (x + step)) R)"
      by (rule Cons.IH [OF rest rot(1)]) (use eqs rot in simp_all)
    then show ?thesis
      using 1 unfolding range by (simp add: step rot(2,3))
  next
    case 2
    have "\<exists>L' M' G'. for_each (int_range (i + 1) (i + 1 + vsize R)) (partition_step step groups pv)
        (P @ L @ (M @ [x]) @ rotate1 G @ R @ Q, ml, mr + 1) =
        Some (P @ L' @ M' @ G' @ Q, vsize P + vsize L', vsize P + vsize L' + vsize M' - 1) \<and> M' \<noteq> [] \<and>
      mset L' = mset L + mset (filter (\<lambda>x. ix groups (x + step) < pv) R) \<and>
      mset M' = mset (M @ [x]) + mset (filter (\<lambda>x. ix groups (x + step) = pv) R) \<and>
      mset G' = mset (rotate1 G) + mset (filter (\<lambda>x. pv < ix groups (x + step)) R)"
      by (rule Cons.IH [OF rest]) (use eqs rot in simp_all)
    then show ?thesis
      using 2 unfolding range by (simp add: step rot(2,3))
  next
    case 3
    have "\<exists>L' M' G'. for_each (int_range (i + 1) (i + 1 + vsize R)) (partition_step step groups pv)
        (P @ L @ M @ (G @ [x]) @ R @ Q, ml, mr) =
        Some (P @ L' @ M' @ G' @ Q, vsize P + vsize L', vsize P + vsize L' + vsize M' - 1) \<and> M' \<noteq> [] \<and>
      mset L' = mset L + mset (filter (\<lambda>x. ix groups (x + step) < pv) R) \<and>
      mset M' = mset M + mset (filter (\<lambda>x. ix groups (x + step) = pv) R) \<and>
      mset G' = mset (G @ [x]) + mset (filter (\<lambda>x. pv < ix groups (x + step)) R)"
      by (rule Cons.IH [OF rest Cons.prems(2)]) (use eqs rot in simp_all)
    then show ?thesis
      using 3 unfolding range by (simp add: step)
  qed
qed

lemma mark_loop:
  assumes "\<forall>p \<in> set M. 0 \<le> p \<and> p < vsize groups" "i = vsize A"
  shows "\<exists>g. for_each (int_range i (i + vsize M)) (\<lambda>i groups. do {
         p \<leftarrow> vat (A @ M @ B) i; vset groups p mr }) groups = Some g \<and> length g = length groups \<and>
    (\<forall>p. 0 \<le> p \<longrightarrow> ix g p = (if p \<in> set M then mr else ix groups p))"
  using assms
proof (induction M arbitrary: A i groups)
  case Nil
  then show ?case by simp
next
  case (Cons x M)
  have range: "int_range i (i + vsize (x # M)) = i # int_range (i + 1) ((i + 1) + vsize M)"
    by (simp add: int_range_Cons add.assoc [symmetric] vsize_def)
  have x: "vset groups x mr = Some (groups[nat x := mr])"
    using Cons.prems by (simp add: vset_eq vsize_def)
  obtain g where g: "for_each (int_range (i + 1) (i + 1 + vsize M)) (\<lambda>i groups. do {
         p \<leftarrow> vat ((A @ [x]) @ M @ B) i; vset groups p mr }) (groups[nat x := mr]) = Some g"
    "length g = length groups"
    "\<And>p. 0 \<le> p \<Longrightarrow> ix g p = (if p \<in> set M then mr else ix (groups[nat x := mr]) p)"
    using Cons.IH [of "groups[nat x := mr]" "i + 1" "A @ [x]"] Cons.prems by auto
  have "ix (groups[nat x := mr]) p = (if p = x then mr else ix groups p)" if "0 \<le> p" for p
    using Cons.prems that by (auto simp: vsize_def nth_list_update nat_eq_iff)
  with g show ?case
    unfolding range by (auto simp: vat_mid Cons.prems(2) x intro!: exI [of _ g])
qed

lemma mark_group_eq:
  assumes "\<forall>p \<in> set M. 0 \<le> p \<and> p < vsize groups" "M \<noteq> []"
    and "ml = vsize A" "mr = vsize A + vsize M - 1"
  shows "\<exists>g. mark_group ml mr (A @ M @ B, groups) =
      Some (A @ (if length M = 1 then [- 1] else M) @ B, g) \<and> length g = length groups \<and>
    (\<forall>p. 0 \<le> p \<longrightarrow> ix g p = (if p \<in> set M then mr else ix groups p))"
proof (cases "length M = 1")
  case True
  then obtain p where M: "M = [p]" by (cases M) auto
  have "vset groups p ml = Some (groups[nat p := ml])"
    using assms(1) by (simp add: M vset_eq vsize_def)
  moreover have "ix (groups[nat p := ml]) q = (if q = p then ml else ix groups q)" if "0 \<le> q" for q
    using assms(1) that by (auto simp: M vsize_def nth_list_update nat_eq_iff)
  ultimately show ?thesis
    using assms M vat_mid [of ml A p B] vset_mid [of ml A p B "- 1"]
    by (auto simp: mark_group_def)
next
  case False
  then have "ml \<noteq> mr" using assms by (cases M) (auto simp: vsize_def)
  then show ?thesis
    using False mark_loop [OF assms(1,3), of B mr] assms(3,4) by (auto simp: mark_group_def)
qed

section \<open>Groups\<close>

text \<open>
  \<open>good D h g\<close>: the group numbers order the suffixes soundly, and suffixes of one group agree on
  their first \<open>h\<close> symbols.
\<close>

definition pos :: "int list \<Rightarrow> int set" where
  "pos D = {0..<vsize D}"

definition good :: "int list \<Rightarrow> int \<Rightarrow> int list \<Rightarrow> bool" where
  "good D h g = (length g = length D \<and>
    (\<forall>p \<in> pos D. 0 \<le> ix g p \<and> ix g p < vsize D) \<and>
    (\<forall>p \<in> pos D. \<forall>q \<in> pos D. ix g p < ix g q \<longrightarrow> vec_less (suf D p) (suf D q)) \<and>
    (\<forall>p \<in> pos D. \<forall>q \<in> pos D. ix g p = ix g q \<longrightarrow> agree D h p q))"

lemma goodD:
  assumes "good D h g" "p \<in> pos D" "q \<in> pos D"
  shows "ix g p < ix g q \<Longrightarrow> vec_less (suf D p) (suf D q)"
    and "ix g p = ix g q \<Longrightarrow> agree D h p q"
    and "0 \<le> ix g p" and "ix g p < vsize D"
  using assms by (auto simp: good_def)

lemma good_length: "good D h g \<Longrightarrow> vsize g = vsize D"
  by (simp add: good_def vsize_def)

text \<open>
  The layout of the array from position \<open>l\<close> on: a block is a run of sorted suffixes, whose first
  cell holds minus its length, or the members of an unsorted group, which is numbered by the
  last position of its block.
\<close>

definition run_block :: "int list \<Rightarrow> int list \<Rightarrow> int \<Rightarrow> int list \<Rightarrow> bool" where
  "run_block D g l B = (B \<noteq> [] \<and> hd B = - vsize B \<and>
    (\<forall>j \<in> {l..<l + vsize B}. \<exists>p \<in> pos D. \<forall>q \<in> pos D. ix g q = j \<longleftrightarrow> q = p))"

definition group_block :: "int list \<Rightarrow> int list \<Rightarrow> int \<Rightarrow> int list \<Rightarrow> bool" where
  "group_block D g l B = (2 \<le> vsize B \<and> distinct B \<and>
    set B = {p \<in> pos D. l \<le> ix g p \<and> ix g p < l + vsize B} \<and>
    (\<forall>p \<in> set B. ix g p = l + vsize B - 1))"

inductive segs :: "int list \<Rightarrow> int list \<Rightarrow> int \<Rightarrow> int list \<Rightarrow> bool" for D g where
  segs_Nil: "segs D g l []"
| segs_Cons: "run_block D g l B \<or> group_block D g l B \<Longrightarrow> segs D g (l + vsize B) Y \<Longrightarrow> segs D g l (B @ Y)"

lemma segs_append: "segs D g l X \<Longrightarrow> segs D g (l + vsize X) Y \<Longrightarrow> segs D g l (X @ Y)"
  by (induction rule: segs.induct) (auto simp: add.assoc intro: segs_Cons)

lemma segs_block: "run_block D g l B \<or> group_block D g l B \<Longrightarrow> segs D g l B"
  using segs_Cons [OF _ segs_Nil] by force

text \<open>The layout of a range does not depend on the groups of suffixes outside it.\<close>

lemma segs_cong:
  assumes "segs D g l X"
    and "\<And>p. p \<in> pos D \<Longrightarrow> (l \<le> ix g p \<and> ix g p < l + vsize X) \<or> (l \<le> ix g' p \<and> ix g' p < l + vsize X) \<Longrightarrow>
      ix g' p = ix g p"
  shows "segs D g' l X"
  using assms
proof (induction rule: segs.induct)
  case (segs_Nil l)
  show ?case by (rule segs.segs_Nil)
next
  case (segs_Cons l B Y)
  have same: "ix g' p = ix g p"
    if "p \<in> pos D" "(l \<le> ix g p \<and> ix g p < l + vsize B) \<or> (l \<le> ix g' p \<and> ix g' p < l + vsize B)" for p
    by (rule segs_Cons.prems [OF that(1)]) (use that(2) in \<open>auto simp: vsize_def\<close>)
  have iff: "ix g' p = j \<longleftrightarrow> ix g p = j" if "p \<in> pos D" "j \<in> {l..<l + vsize B}" for p j
    using same [OF that(1)] that(2) by (cases "ix g p = j"; cases "ix g' p = j") auto
  have "run_block D g' l B" if run: "run_block D g l B"
  proof -
    have "\<exists>p \<in> pos D. \<forall>q \<in> pos D. ix g' q = j \<longleftrightarrow> q = p" if j: "j \<in> {l..<l + vsize B}" for j
    proof -
      obtain p where "p \<in> pos D" "\<forall>q \<in> pos D. ix g q = j \<longleftrightarrow> q = p"
        using run j unfolding run_block_def by blast
      then show ?thesis using iff [OF _ j] by (intro bexI [of _ p]) simp_all
    qed
    then show ?thesis using run unfolding run_block_def by blast
  qed
  moreover have "group_block D g' l B" if b: "group_block D g l B"
  proof -
    have b': "2 \<le> vsize B" "distinct B" "set B = {p \<in> pos D. l \<le> ix g p \<and> ix g p < l + vsize B}"
      "\<forall>p \<in> set B. ix g p = l + vsize B - 1"
      using b unfolding group_block_def by blast+
    have sets: "{p \<in> pos D. l \<le> ix g p \<and> ix g p < l + vsize B} = {p \<in> pos D. l \<le> ix g' p \<and> ix g' p < l + vsize B}"
    proof (rule Collect_cong)
      fix p
      show "(p \<in> pos D \<and> l \<le> ix g p \<and> ix g p < l + vsize B) = (p \<in> pos D \<and> l \<le> ix g' p \<and> ix g' p < l + vsize B)"
        using same [of p] by (cases "p \<in> pos D") auto
    qed
    have last: "\<forall>p \<in> set B. ix g' p = l + vsize B - 1"
    proof
      fix p assume p: "p \<in> set B"
      then have "ix g' p = ix g p" using b'(3) same by blast
      then show "ix g' p = l + vsize B - 1" using b'(4) p by simp
    qed
    show ?thesis unfolding group_block_def using b'(1,2) trans [OF b'(3) sets] last by blast
  qed
  moreover have "segs D g' (l + vsize B) Y"
    by (rule segs_Cons.IH) (rule segs_Cons.prems, auto simp: vsize_def)
  ultimately show ?case using segs_Cons.hyps(1) segs.segs_Cons by blast
qed

section \<open>Ternary quicksort\<close>

text \<open>What a call on \<open>X\<close> at position \<open>l\<close> relies on, \<open>v\<close> being the group number of all of \<open>X\<close>.\<close>

definition qpre :: "int list \<Rightarrow> int \<Rightarrow> int list \<Rightarrow> int \<Rightarrow> int \<Rightarrow> int list \<Rightarrow> bool" where
  "qpre D h g l v X = (0 \<le> l \<and> l + vsize X - 1 \<le> v \<and> v < vsize D \<and> distinct X \<and> set X \<subseteq> pos D \<and>
    (\<forall>p \<in> set X. p + h < vsize D \<and> ix g p = v) \<and>
    (\<forall>q \<in> pos D - set X. ix g q < l \<or> v < ix g q \<or>
       (ix g q = v \<and> l + vsize X - 1 < v \<and> (\<forall>p \<in> set X. vec_less (suf D p) (suf D q)))))"

definition qpost :: "int list \<Rightarrow> int \<Rightarrow> int list \<Rightarrow> int \<Rightarrow> int list \<Rightarrow> int list \<Rightarrow> int list \<Rightarrow> bool" where
  "qpost D h g l X g' X' = (vsize X' = vsize X \<and> good D h g' \<and>
    (\<forall>q \<in> pos D - set X. ix g' q = ix g q) \<and>
    (\<forall>p \<in> set X. l \<le> ix g' p \<and> ix g' p < l + vsize X) \<and>
    (\<forall>p \<in> set X. \<forall>q \<in> set X. ix g' p = ix g' q \<longrightarrow> agree D (2 * h) p q) \<and>
    segs D g' l X')"

text \<open>The outcome of the partition of \<open>X\<close> by the group numbers \<open>h\<close> further.\<close>

definition parted :: "int \<Rightarrow> int list \<Rightarrow> int list \<Rightarrow> int list \<Rightarrow> int list \<Rightarrow> int list \<Rightarrow> bool" where
  "parted h g X L M G = (mset X = mset L + mset M + mset G \<and> M \<noteq> [] \<and>
    (\<exists>pv. (\<forall>x \<in> set L. ix g (x + h) < pv) \<and> (\<forall>x \<in> set M. ix g (x + h) = pv) \<and> (\<forall>x \<in> set G. pv < ix g (x + h))))"

lemma parted_facts:
  assumes "parted h g X L M G"
  shows "set X = set L \<union> set M \<union> set G" and "vsize X = vsize L + vsize M + vsize G" and "0 < vsize M"
    and "distinct X \<Longrightarrow> distinct (L @ M @ G)"
proof -
  have m: "mset X = mset (L @ M @ G)" using assms by (simp add: parted_def)
  show "set X = set L \<union> set M \<union> set G" using mset_eq_setD [OF m] by auto
  show "vsize X = vsize L + vsize M + vsize G" using mset_eq_length [OF m] by (simp add: vsize_def)
  show "0 < vsize M" using assms by (simp add: parted_def vsize_def)
  show "distinct X \<Longrightarrow> distinct (L @ M @ G)" using mset_eq_imp_distinct_iff [OF m] by simp
qed

lemma qpreD:
  assumes "qpre D h g l v X"
  shows "0 \<le> l" and "l + vsize X - 1 \<le> v" and "v < vsize D" and "distinct X" and "set X \<subseteq> pos D"
    and "p \<in> set X \<Longrightarrow> p + h < vsize D" and "p \<in> set X \<Longrightarrow> ix g p = v" and "p \<in> set X \<Longrightarrow> p \<in> pos D"
    and "q \<in> pos D \<Longrightarrow> q \<notin> set X \<Longrightarrow> ix g q < l \<or> v < ix g q \<or>
       (ix g q = v \<and> l + vsize X - 1 < v \<and> (\<forall>p \<in> set X. vec_less (suf D p) (suf D q)))"
  using assms by (auto simp: qpre_def)

lemma posD: "p \<in> pos D \<Longrightarrow> 0 \<le> p \<and> p < vsize D"
  by (simp add: pos_def)

lemma parted_order:
  assumes pre: "qpre D h g l v X" and good: "good D h g" and h: "0 \<le> h" and part: "parted h g X L M G"
  shows "p \<in> set L \<Longrightarrow> q \<in> set M \<union> set G \<Longrightarrow> vec_less (suf D p) (suf D q)"
    and "p \<in> set M \<Longrightarrow> q \<in> set G \<Longrightarrow> vec_less (suf D p) (suf D q)"
    and "p \<in> set M \<Longrightarrow> q \<in> set M \<Longrightarrow> agree D (2 * h) p q"
proof -
  note X = parted_facts(1) [OF part]
  obtain pv where pv: "\<And>x. x \<in> set L \<Longrightarrow> ix g (x + h) < pv" "\<And>x. x \<in> set M \<Longrightarrow> ix g (x + h) = pv"
    "\<And>x. x \<in> set G \<Longrightarrow> pv < ix g (x + h)"
    using part unfolding parted_def by blast
  have base: "0 \<le> p" "p + h \<in> pos D" if "p \<in> set X" for p
  proof -
    have "0 \<le> p \<and> p < vsize D" by (rule posD [OF qpreD(8) [OF pre that]])
    then show "0 \<le> p" "p + h \<in> pos D" using qpreD(6) [OF pre that] h by (auto simp: pos_def)
  qed
  have same: "agree D h p q" if "p \<in> set X" "q \<in> set X" for p q
    using goodD(2) [OF good, of p q] qpreD(7,8) [OF pre] that by simp
  have less: "vec_less (suf D p) (suf D q)"
    if "p \<in> set X" "q \<in> set X" "ix g (p + h) < ix g (q + h)" for p q
    using agree_step [OF base(1) [OF that(1)] base(1) [OF that(2)] h same [OF that(1,2)]]
      goodD(1) [OF good base(2) [OF that(1)] base(2) [OF that(2)] that(3)] by blast
  show "vec_less (suf D p) (suf D q)" if "p \<in> set L" "q \<in> set M \<union> set G"
  proof (rule less)
    show "ix g (p + h) < ix g (q + h)"
    proof -
      have "pv \<le> ix g (q + h)" using that(2) pv(2) [of q] pv(3) [of q] by (auto simp only: Un_iff order.refl less_imp_le)
      then show ?thesis using pv(1) [OF that(1)] by simp
    qed
    show "p \<in> set X" "q \<in> set X" using that by (auto simp: X)
  qed
  show "vec_less (suf D p) (suf D q)" if "p \<in> set M" "q \<in> set G"
  proof (rule less)
    show "ix g (p + h) < ix g (q + h)"
      using that pv(2) [of p] pv(3) [of q] by simp
    show "p \<in> set X" "q \<in> set X" using that by (auto simp: X)
  qed
  show "agree D (2 * h) p q" if "p \<in> set M" "q \<in> set M"
  proof -
    have XX: "p \<in> set X" "q \<in> set X" using that by (auto simp: X)
    have "agree D h (p + h) (q + h)"
      using goodD(2) [OF good base(2) [OF XX(1)] base(2) [OF XX(2)]] pv(2) that by simp
    then show ?thesis
      using agree_double [OF base(1) [OF XX(1)] base(1) [OF XX(2)] h same [OF XX]] by blast
  qed
qed

lemma qpre_left:
  assumes pre: "qpre D h g l v X" and good: "good D h g" and h: "0 \<le> h" and part: "parted h g X L M G"
  shows "qpre D h g l v L"
proof -
  note X = parted_facts [OF part]
  have n: "l + vsize L - 1 < v" using X(2,3) qpreD(2) [OF pre] vsize_simps(4) [of G] by linarith
  have d: "distinct L" "set L \<subseteq> set X" using X(1,4) qpreD(4) [OF pre] by auto
  have "ix g q < l \<or> v < ix g q \<or>
       (ix g q = v \<and> l + vsize L - 1 < v \<and> (\<forall>p \<in> set L. vec_less (suf D p) (suf D q)))"
    if q: "q \<in> pos D - set L" for q
  proof (cases "q \<in> set X")
    case True
    then have "q \<in> set M \<union> set G" using q X(1) by auto
    then show ?thesis
      using parted_order(1) [OF pre good h part] qpreD(7) [OF pre True] n by blast
  next
    case False
    then show ?thesis using qpreD(9) [OF pre, of q] q n d(2) by auto
  qed
  then show ?thesis using qpreD(1,3,5-8) [OF pre] n d by (auto simp: qpre_def)
qed

lemma qpostD:
  assumes "qpost D h g l X g' X'"
  shows "vsize X' = vsize X" and "good D h g'" and "segs D g' l X'"
    and "q \<in> pos D \<Longrightarrow> q \<notin> set X \<Longrightarrow> ix g' q = ix g q"
    and "p \<in> set X \<Longrightarrow> l \<le> ix g' p" and "p \<in> set X \<Longrightarrow> ix g' p < l + vsize X"
    and "p \<in> set X \<Longrightarrow> q \<in> set X \<Longrightarrow> ix g' p = ix g' q \<Longrightarrow> agree D (2 * h) p q"
  using assms by (simp_all add: qpost_def)

text \<open>
  After the call on \<open>L\<close> and the marking of \<open>M\<close>, where every suffix stands: the facts from which
  soundness follows. The members of \<open>X\<close> are told apart by their new numbers.
\<close>

lemma mark_cases:
  assumes pre: "qpre D h g l v X" and part: "parted h g X L M G"
    and left: "qpost D h g l L g1 L'"
    and marked: "\<forall>p \<in> pos D. ix g2 p = (if p \<in> set M then l + vsize L + vsize M - 1 else ix g1 p)"
    and q: "q \<in> pos D"
  obtains (L) "q \<in> set L" "l \<le> ix g2 q" "ix g2 q < l + vsize L" "ix g2 q = ix g1 q"
  | (M) "q \<in> set M" "ix g2 q = l + vsize L + vsize M - 1" "ix g q = v"
  | (G) "q \<in> set G" "ix g2 q = v" "ix g1 q = v" "ix g q = v" "l + vsize L + vsize M - 1 < v"
  | (below) "q \<notin> set X" "ix g2 q < l" "ix g q = ix g2 q" "ix g1 q = ix g2 q"
  | (above) "q \<notin> set X" "v < ix g2 q" "ix g q = ix g2 q" "ix g1 q = ix g2 q"
  | (same) "q \<notin> set X" "ix g2 q = v" "ix g q = v" "ix g1 q = v" "l + vsize X - 1 < v"
      "\<forall>p \<in> set X. vec_less (suf D p) (suf D q)"
proof -
  note g2 = bspec [OF marked]
  note X = parted_facts [OF part]
  note d = X(4) [OF qpreD(4) [OF pre]]
  consider "q \<in> set L" | "q \<in> set M" | "q \<in> set G" | "q \<notin> set X" using X(1) by blast
  then show ?thesis
  proof cases
    case 1
    then have "ix g2 q = ix g1 q" using g2 [OF q] d by auto
    then show ?thesis using L qpostD(5,6) [OF left 1] 1 by simp
  next
    case 2
    then show ?thesis using M g2 [OF q] qpreD(7) [OF pre, of q] X(1) by simp
  next
    case 3
    have "q \<notin> set L" "q \<notin> set M" using d 3 by auto
    then have "ix g1 q = v" "ix g2 q = v" "ix g q = v"
      using g2 [OF q] qpostD(4) [OF left q] qpreD(7) [OF pre, of q] X(1) 3 by simp_all
    moreover have "0 < vsize G" using 3 by (cases G) (auto simp: vsize_def)
    ultimately show ?thesis using G 3 X(2) qpreD(2) [OF pre] by simp
  next
    case 4
    then have out: "q \<notin> set L" "q \<notin> set M" using X(1) by auto
    then have eq: "ix g1 q = ix g q" "ix g2 q = ix g q"
      using g2 [OF q] qpostD(4) [OF left q] by simp_all
    from qpreD(9) [OF pre q 4] consider "ix g q < l" | "v < ix g q"
      | "ix g q = v" "l + vsize X - 1 < v" "\<forall>p \<in> set X. vec_less (suf D p) (suf D q)" by blast
    then show ?thesis
    proof cases
      case 1
      show ?thesis by (rule below) (use 1 4 eq in simp_all)
    next
      case 2
      show ?thesis by (rule above) (use 2 4 eq in simp_all)
    next
      case 3
      show ?thesis by (rule same) (use 3 4 eq in simp_all)
    qed
  qed
qed

lemma mark_good:
  assumes pre: "qpre D h g l v X" and good: "good D h g" and h: "0 \<le> h" and part: "parted h g X L M G"
    and left: "qpost D h g l L g1 L'" and len: "length g2 = length g1"
    and marked: "\<forall>p \<in> pos D. ix g2 p = (if p \<in> set M then l + vsize L + vsize M - 1 else ix g1 p)"
  shows "good D h g2"
proof -
  note g2 = bspec [OF marked]
  note X = parted_facts [OF part]
  note order = parted_order [OF pre good h part]
  note good1 = qpostD(2) [OF left]
  have bnd: "l + vsize L + vsize M - 1 \<le> v" "0 \<le> l" "v < vsize D" "0 < vsize M"
    "l + vsize L + vsize M \<le> l + vsize X" "0 \<le> l + vsize L" "0 \<le> vsize L"
    using X(2,3) qpreD(1-3) [OF pre] vsize_simps(4) [of G] vsize_simps(4) [of L] by linarith+
  have XD: "p \<in> set X \<Longrightarrow> p \<in> pos D" for p using qpreD(8) [OF pre] .
  have MX: "p \<in> set M \<Longrightarrow> p \<in> set X" for p using X(1) by auto
  have range: "0 \<le> ix g2 p \<and> ix g2 p < vsize D" if "p \<in> pos D" for p
  proof (cases "p \<in> set M")
    case True
    then have "ix g2 p = l + vsize L + vsize M - 1" using g2 [OF that] by simp
    then show ?thesis using bnd by linarith
  next
    case False
    then show ?thesis using goodD(3,4) [OF good1 that that] g2 [OF that] by simp
  qed
  have less: "vec_less (suf D p) (suf D q)"
    if p: "p \<in> pos D" and q: "q \<in> pos D" and lt: "ix g2 p < ix g2 q" for p q
  proof (cases "p \<in> set M \<or> q \<in> set M")
    case False
    then show ?thesis using lt g2 [OF p] g2 [OF q] goodD(1) [OF good1 p q] by simp
  next
    case True
    then show ?thesis
    proof
      assume pM: "p \<in> set M"
      have gp: "ix g p = v" "ix g2 p = l + vsize L + vsize M - 1"
        using qpreD(7) [OF pre MX [OF pM]] g2 [OF p] pM by simp_all
      show ?thesis
        using pre part left marked q
      proof (cases rule: mark_cases)
        case G
        then show ?thesis using order(2) [OF pM] by blast
      next
        case above
        then show ?thesis using goodD(1) [OF good p q] gp by simp
      next
        case same
        then show ?thesis using MX [OF pM] by blast
      qed (use lt gp bnd in linarith)+
    next
      assume qM: "q \<in> set M"
      have gq: "ix g q = v" "ix g2 q = l + vsize L + vsize M - 1"
        using qpreD(7) [OF pre MX [OF qM]] g2 [OF q] qM by simp_all
      show ?thesis
        using pre part left marked p
      proof (cases rule: mark_cases)
        case L
        then show ?thesis using order(1) [OF _ UnI1 [OF qM]] by blast
      next
        case below
        then show ?thesis using goodD(1) [OF good p q] gq bnd vsize_simps(4) [of L] by simp
      qed (use lt gq bnd in linarith)+
    qed
  qed
  have eq: "agree D h p q" if p: "p \<in> pos D" and q: "q \<in> pos D" and e: "ix g2 p = ix g2 q" for p q
  proof -
    have key: "q \<in> set M" if "p \<in> pos D" "q \<in> pos D" "p \<in> set M" "ix g2 p = ix g2 q" for p q
      using pre part left marked that(2)
    proof (cases rule: mark_cases)
      case same
      then show ?thesis using that g2 [OF that(1)] bnd by simp
    qed (use that g2 [OF that(1)] bnd vsize_simps(4) [of L] in simp_all)
    show ?thesis
    proof (cases "p \<in> set M \<or> q \<in> set M")
      case False
      then show ?thesis using e g2 [OF p] g2 [OF q] goodD(2) [OF good1 p q] by simp
    next
      case True
      then have "p \<in> set M" "q \<in> set M" using key [OF p q] key [OF q p] e by auto
      then show ?thesis using goodD(2) [OF good p q] qpreD(7) [OF pre] MX by simp
    qed
  qed
  show ?thesis
    using range less eq len good1 unfolding good_def by simp
qed

lemma qpre_right:
  assumes pre: "qpre D h g l v X" and good: "good D h g" and h: "0 \<le> h" and part: "parted h g X L M G"
    and left: "qpost D h g l L g1 L'"
    and marked: "\<forall>p \<in> pos D. ix g2 p = (if p \<in> set M then l + vsize L + vsize M - 1 else ix g1 p)"
  shows "qpre D h g2 (l + vsize L + vsize M) v G"
proof -
  note g2 = bspec [OF marked]
  note X = parted_facts [OF part]
  note d = X(4) [OF qpreD(4) [OF pre]]
  have size: "l + vsize L + vsize M + vsize G = l + vsize X" using X(2) by simp
  have gX: "set G \<subseteq> set X" using X(1) by blast
  have G: "ix g2 p = v" if "p \<in> set G" for p
  proof -
    have "p \<in> pos D" "p \<notin> set M" "p \<in> set X" using that d X(1) qpreD(8) [OF pre, of p] by auto
    with pre part left marked \<open>p \<in> pos D\<close> show ?thesis
      by (cases rule: mark_cases) (use that d \<open>p \<in> set X\<close> in auto)
  qed
  have "ix g2 q < l + vsize L + vsize M \<or> v < ix g2 q \<or>
       (ix g2 q = v \<and> l + vsize L + vsize M + vsize G - 1 < v \<and> (\<forall>p \<in> set G. vec_less (suf D p) (suf D q)))"
    if q: "q \<in> pos D" "q \<notin> set G" for q
    using pre part left marked q(1)
  proof (cases rule: mark_cases)
    case L
    then show ?thesis using X(3) by linarith
  next
    case below
    then have "ix g2 q < l + vsize L + vsize M"
      using vsize_simps(4) [of M] vsize_simps(4) [of L] by linarith
    then show ?thesis by blast
  next
    case same
    then show ?thesis using gX size by auto
  next
    case G
    then show ?thesis using q(2) by blast
  qed auto
  moreover have "0 \<le> l + vsize L + vsize M"
    using qpreD(1) [OF pre] vsize_simps(4) [of M] vsize_simps(4) [of L] by linarith
  moreover have "distinct G" using d by simp
  ultimately show ?thesis
    unfolding qpre_def size using qpreD(2,3,5,6) [OF pre] gX G by auto
qed

lemma qpost_combine:
  assumes pre: "qpre D h g l v X" and good: "good D h g" and h: "0 \<le> h" and part: "parted h g X L M G"
    and left: "qpost D h g l L g1 L'"
    and marked: "\<forall>p \<in> pos D. ix g2 p = (if p \<in> set M then l + vsize L + vsize M - 1 else ix g1 p)"
    and right: "qpost D h g2 (l + vsize L + vsize M) G g3 G'"
  shows "qpost D h g l X g3 (L' @ (if length M = 1 then [- 1] else M) @ G')"
proof -
  note g2 = bspec [OF marked]
  note X = parted_facts [OF part]
  note d = X(4) [OF qpreD(4) [OF pre]]
  note bnd = qpreD(1-3) [OF pre] X(2,3)
  define B where "B = (if length M = 1 then [- 1] else M)"
  have B: "vsize B = vsize M" by (simp add: B_def vsize_def)
  have XD: "p \<in> set X \<Longrightarrow> p \<in> pos D" for p using qpreD(8) [OF pre] .
  have dis: "p \<in> set L \<Longrightarrow> p \<notin> set M \<and> p \<notin> set G" "p \<in> set M \<Longrightarrow> p \<notin> set G" for p
    using d by auto
  have inL: "ix g3 p = ix g1 p" "l \<le> ix g3 p" "ix g3 p < l + vsize L" if "p \<in> set L" for p
    using qpostD(4) [OF right, of p] g2 [of p] that dis(1) [of p] X(1) XD [of p] qpostD(5,6) [OF left that] by auto
  have inM: "ix g3 p = l + vsize L + vsize M - 1" if "p \<in> set M" for p
    using qpostD(4) [OF right, of p] g2 [of p] that dis(2) [of p] X(1) XD [of p] by auto
  have inG: "l + vsize L + vsize M \<le> ix g3 p" "ix g3 p < l + vsize X" if "p \<in> set G" for p
    using qpostD(5,6) [OF right that] X(2) by auto
  have out: "ix g3 p = ix g p" if "p \<in> pos D" "p \<notin> set X" for p
    using qpostD(4) [OF right that(1)] qpostD(4) [OF left that(1)] g2 [OF that(1)] that(2) X(1) by simp
  have outside: "ix g3 p < l \<or> l + vsize X \<le> ix g3 p" if "p \<in> pos D" "p \<notin> set X" for p
    using qpreD(9) [OF pre that] out [OF that] bnd by auto
  have bounds: "l \<le> ix g3 p \<and> ix g3 p < l + vsize X" if p: "p \<in> set X" for p
  proof -
    have n: "0 \<le> vsize L" "0 \<le> vsize G" by simp_all
    consider "p \<in> set L" | "p \<in> set M" | "p \<in> set G" using p X(1) by blast
    then show ?thesis by cases (use inL [of p] inM [of p] inG [of p] bnd n in linarith)+
  qed
  have agree: "agree D (2 * h) p q" if p: "p \<in> set X" and q: "q \<in> set X" and e: "ix g3 p = ix g3 q" for p q
  proof -
    consider "p \<in> set L \<and> q \<in> set L" | "p \<in> set M \<and> q \<in> set M" | "p \<in> set G \<and> q \<in> set G"
    proof -
      have "p \<in> set L \<longleftrightarrow> q \<in> set L" if "p \<in> set X" "q \<in> set X" "ix g3 p = ix g3 q" for p q
        using that X(1) inL [of p] inL [of q] inM [of p] inM [of q] inG [of p] inG [of q] bnd(5) by auto
      moreover have "p \<in> set M \<longleftrightarrow> q \<in> set M" if "p \<in> set X" "q \<in> set X" "ix g3 p = ix g3 q" for p q
        using that X(1) inL [of p] inL [of q] inM [of p] inM [of q] inG [of p] inG [of q] bnd(5) by auto
      ultimately show ?thesis using that p q e X(1) by blast
    qed
    then show ?thesis
      by cases (use e inL(1) qpostD(7) [OF left] qpostD(7) [OF right] parted_order(3) [OF pre good h part] in auto)
  qed
  have "segs D g3 l L'"
  proof (rule segs_cong [OF qpostD(3) [OF left]])
    fix p assume p: "p \<in> pos D"
      and r: "l \<le> ix g1 p \<and> ix g1 p < l + vsize L' \<or> l \<le> ix g3 p \<and> ix g3 p < l + vsize L'"
    show "ix g3 p = ix g1 p"
    proof (cases "p \<in> set X")
      case False
      then show ?thesis using out [OF p False] qpostD(4) [OF left p] X(1) by simp
    next
      case True
      have n: "vsize L' = vsize L" using qpostD(1) [OF left] .
      have "p \<in> set L"
      proof (rule ccontr)
        assume notL: "p \<notin> set L"
        then have "ix g1 p = v" using qpostD(4) [OF left p] qpreD(7) [OF pre True] by simp
        moreover have "l + vsize L \<le> ix g3 p"
          using inM [of p] inG [of p] True X(1) notL bnd(5) by auto
        ultimately show False using r n bnd vsize_simps(4) [of G] by linarith
      qed
      then show ?thesis using inL by blast
    qed
  qed
  moreover have "segs D g3 (l + vsize L) B"
  proof (rule segs_block)
    have M: "set M = {p \<in> pos D. l + vsize L \<le> ix g3 p \<and> ix g3 p < l + vsize L + vsize M}"
    proof (rule set_eqI)
      fix p
      have "p \<in> set M" if "p \<in> pos D" "l + vsize L \<le> ix g3 p" "ix g3 p < l + vsize L + vsize M"
      proof -
        have "p \<in> set X"
          using outside [of p] that bnd vsize_simps(4) [of G] vsize_simps(4) [of L] by linarith
        then show ?thesis using that X(1) inL [of p] inG [of p] by fastforce
      qed
      then show "p \<in> set M \<longleftrightarrow> p \<in> {p \<in> pos D. l + vsize L \<le> ix g3 p \<and> ix g3 p < l + vsize L + vsize M}"
        using inM [of p] XD [of p] X(1) bnd(5) by auto
    qed
    show "run_block D g3 (l + vsize L) B \<or> group_block D g3 (l + vsize L) B"
    proof (cases "length M = 1")
      case True
      then obtain x where x: "M = [x]" by (cases M) auto
      have "x \<in> pos D" using XD X(1) x by simp
      moreover have key: "ix g3 q = l + vsize L \<longleftrightarrow> q = x" if "q \<in> pos D" for q
      proof -
        have "q \<in> set M \<longleftrightarrow> l + vsize L \<le> ix g3 q \<and> ix g3 q < l + vsize L + vsize M"
          using M that by blast
        then show ?thesis using inM [of x] by (auto simp: x)
      qed
      ultimately have "run_block D g3 (l + vsize L) [- 1]"
        unfolding run_block_def
      proof (intro conjI ballI)
        fix j assume "j \<in> {l + vsize L..<l + vsize L + vsize [- 1 :: int]}"
        then have "j = l + vsize L" by simp
        then show "\<exists>p\<in>pos D. \<forall>q\<in>pos D. (ix g3 q = j) = (q = p)"
          using key \<open>x \<in> pos D\<close> by blast
      qed simp_all
      then show ?thesis using True by (simp add: B_def)
    next
      case False
      then have "2 \<le> vsize M" using bnd(5) by (cases M) (auto simp: vsize_def Suc_le_eq)
      then have "group_block D g3 (l + vsize L) M"
        unfolding group_block_def using M inM d by auto
      then show ?thesis using False by (simp add: B_def)
    qed
  qed
  moreover have "segs D g3 (l + vsize L + vsize M) G'" by (rule qpostD(3) [OF right])
  ultimately have "segs D g3 l (L' @ B @ G')"
    using B qpostD(1) [OF left] by (intro segs_append) (simp_all add: add.assoc)
  then show ?thesis
    unfolding B_def [symmetric] qpost_def
    using qpostD(1) [OF left] qpostD(1,2) [OF right] B X(2) out bounds agree by simp
qed

lemma parted_partition:
  assumes X: "X \<noteq> []" "\<forall>p \<in> set X. 0 \<le> p + h \<and> p + h < vsize g" and n: "0 \<le> n" "n < vsize X" and l: "l = vsize P"
  shows "\<exists>p q sa1 sa2 L M G. vat (P @ X @ Q) (l + n) = Some p \<and> vat g (p + h) = Some (ix g (p + h)) \<and>
    vat (P @ X @ Q) l = Some q \<and> vset (P @ X @ Q) (l + n) q = Some sa1 \<and> vset sa1 l p = Some sa2 \<and>
    for_each (int_range (l + 1) (l + vsize X)) (partition_step h g (ix g (p + h))) (sa2, l, l) =
      Some (P @ L @ M @ G @ Q, l + vsize L, l + vsize L + vsize M - 1) \<and> parted h g X L M G"
proof -
  obtain k where k: "n = int k" "k < length X" using n by (metis nonneg_int_cases vsize_def of_nat_less_iff)
  obtain x Y where XY: "X = x # Y" using X(1) by (cases X) auto
  define p where "p = X ! k"
  define R where "R = tl (X[k := x])"
  have hd: "(X[k := x])[0 := p] = p # R"
    using k(2) unfolding R_def XY by (cases k) auto
  have "mset (X[k := X ! 0, 0 := X ! k]) = mset X" using k(2) X(1) by (intro mset_swap) auto
  then have mset: "mset (p # R) = mset X"
    using hd unfolding XY p_def by simp
  have pX: "p \<in> set X" using k(2) by (simp add: p_def)
  have Rn: "vsize R + 1 = vsize X" using mset_eq_length [OF mset] by (simp add: vsize_def)
  have RX: "set R \<subseteq> set X" using mset_eq_setD [OF mset] by auto
  have at: "vat (P @ X @ Q) (l + n) = Some p" "vat (P @ X @ Q) l = Some x"
    using k X(1) by (auto simp: l p_def vat_def vsize_def nth_append XY [symmetric] nat_add_distrib)
      (simp add: XY)
  have set1: "vset (P @ X @ Q) (l + n) x = Some (P @ X[k := x] @ Q)"
    using k by (auto simp: l vset_def vsize_def list_update_append nat_add_distrib)
  have set2: "vset (P @ X[k := x] @ Q) l p = Some (P @ (p # R) @ Q)"
  proof -
    obtain y Z where Z: "X[k := x] = y # Z" using X(1) by (cases "X[k := x]") auto
    then have "Z = R" using hd by simp
    then show ?thesis unfolding Z using vset_mid [OF l, of y "Z @ Q" p] by simp
  qed
  have key: "vat g (p + h) = Some (ix g (p + h))"
    using X(2) pX by (simp add: vat_eq vsize_def)
  obtain L M G where loop: "for_each (int_range (l + 1) (l + 1 + vsize R)) (partition_step h g (ix g (p + h)))
      (P @ [] @ [p] @ [] @ R @ Q, l, l) =
      Some (P @ L @ M @ G @ Q, vsize P + vsize L, vsize P + vsize L + vsize M - 1)" "M \<noteq> []"
    "mset L = mset [] + mset (filter (\<lambda>x. ix g (x + h) < ix g (p + h)) R)"
    "mset M = mset [p] + mset (filter (\<lambda>x. ix g (x + h) = ix g (p + h)) R)"
    "mset G = mset [] + mset (filter (\<lambda>x. ix g (p + h) < ix g (x + h)) R)"
  proof -
    have "\<forall>x \<in> set R. 0 \<le> x + h \<and> x + h < vsize g" using X(2) RX by blast
    from partition_loop [OF this, of "[p]" "l + 1" P "[]" "[]" l l "ix g (p + h)" Q] that l
    show ?thesis by auto
  qed
  have "mset R = mset (filter (\<lambda>x. ix g (x + h) < ix g (p + h)) R) +
      mset (filter (\<lambda>x. ix g (x + h) = ix g (p + h)) R) + mset (filter (\<lambda>x. ix g (p + h) < ix g (x + h)) R)"
    by (induction R) auto
  then have "mset X = mset L + mset M + mset G" using mset loop(3-5) by simp
  moreover have "set L = set (filter (\<lambda>x. ix g (x + h) < ix g (p + h)) R)"
    "set M = insert p (set (filter (\<lambda>x. ix g (x + h) = ix g (p + h)) R))"
    "set G = set (filter (\<lambda>x. ix g (p + h) < ix g (x + h)) R)"
    using arg_cong [OF loop(3), of set_mset] arg_cong [OF loop(4), of set_mset]
      arg_cong [OF loop(5), of set_mset] by auto
  ultimately have "parted h g X L M G"
    using loop(2) unfolding parted_def by auto
  moreover have "int_range (l + 1) (l + vsize X) = int_range (l + 1) (l + 1 + vsize R)"
    by (simp add: Rn [symmetric] algebra_simps)
  ultimately show ?thesis
    using at set1 set2 key loop(1) l by (simp add: exI) blast
qed

lemma TernaryQuicksort_sorts:
  assumes "qpre D h g l v X" "good D h g" "0 \<le> h" "l = vsize P"
  shows "\<exists>X' g' k'. TernaryQuicksort rnd l (l + vsize X - 1) h (P @ X @ Q, g, k) = Some (P @ X' @ Q, g', k') \<and>
    qpost D h g l X g' X'"
  using assms
proof (induction "length X" arbitrary: X P Q g k l rule: less_induct)
  case less
  note pre = less.prems(1) and good = less.prems(2) and h = less.prems(3) and l = less.prems(4)
  show ?case
  proof (cases "X = []")
    case True
    then show ?thesis
      using good by (subst TernaryQuicksort.simps) (auto simp: qpost_def intro: segs_Nil)
  next
    case False
    then have X0: "0 < vsize X" by (simp add: vsize_def)
    define n where "n = int (rnd k) mod (l + vsize X - 1 - l + 1)"
    have n: "0 \<le> n" "n < vsize X" using X0 by (simp_all add: n_def)
    have in_g: "\<forall>p \<in> set X. 0 \<le> p + h \<and> p + h < vsize g"
      using qpreD(6,8) [OF pre] posD h good_length [OF good] by fastforce
    obtain p q sa1 sa2 L M G where split:
      "vat (P @ X @ Q) (l + n) = Some p" "vat g (p + h) = Some (ix g (p + h))"
      "vat (P @ X @ Q) l = Some q" "vset (P @ X @ Q) (l + n) q = Some sa1" "vset sa1 l p = Some sa2"
      "for_each (int_range (l + 1) (l + vsize X)) (partition_step h g (ix g (p + h))) (sa2, l, l) =
        Some (P @ L @ M @ G @ Q, l + vsize L, l + vsize L + vsize M - 1)"
      and part: "parted h g X L M G"
      using parted_partition [OF False in_g n l, of Q] by blast
    note X = parted_facts [OF part]
    have "length L < length X" "length G < length X" using X(2,3) vsize_simps(4) [of L] vsize_simps(4) [of G] unfolding vsize_def by linarith+
    note IH = less.hyps [OF this(1)] less.hyps [OF this(2)]
    obtain L' g1 k1 where left:
      "TernaryQuicksort rnd l (l + vsize L - 1) h (P @ L @ M @ G @ Q, g, k + 1) = Some (P @ L' @ M @ G @ Q, g1, k1)"
      "qpost D h g l L g1 L'"
      using IH(1) [OF qpre_left [OF pre good h part] good h l, of "M @ G @ Q" "k + 1"] by auto
    define B where "B = (if length M = 1 then [- 1] else M)"
    have sizes: "vsize B = vsize M" "vsize L' = vsize L"
      using qpostD(1) [OF left(2)] by (simp_all add: B_def vsize_def)
    have M0: "M \<noteq> []" using X(3) by auto
    have MD: "\<forall>p \<in> set M. 0 \<le> p \<and> p < vsize g1"
      using X(1) qpreD(8) [OF pre] posD good_length [OF qpostD(2) [OF left(2)]] by fastforce
    obtain g2 where mark: "mark_group (l + vsize L) (l + vsize L + vsize M - 1) (P @ L' @ M @ G @ Q, g1) =
        Some (P @ L' @ B @ G @ Q, g2)" "length g2 = length g1"
      "\<forall>p. 0 \<le> p \<longrightarrow> ix g2 p = (if p \<in> set M then l + vsize L + vsize M - 1 else ix g1 p)"
      using mark_group_eq [OF MD M0, of "l + vsize L" "P @ L'" "l + vsize L + vsize M - 1" "G @ Q"] l sizes(2)
      unfolding B_def by auto
    have g2: "\<forall>p \<in> pos D. ix g2 p = (if p \<in> set M then l + vsize L + vsize M - 1 else ix g1 p)"
      using mark(3) posD by blast
    note good2 = mark_good [OF pre good h part left(2) mark(2) g2]
    obtain G' g3 k3 where right:
      "TernaryQuicksort rnd (l + vsize L + vsize M) (l + vsize L + vsize M + vsize G - 1) h
        ((P @ L' @ B) @ G @ Q, g2, k1) = Some ((P @ L' @ B) @ G' @ Q, g3, k3)"
      "qpost D h g2 (l + vsize L + vsize M) G g3 G'"
      using IH(2) [OF qpre_right [OF pre good h part left(2) g2] good2 h, of "P @ L' @ B" Q k1] l sizes by auto
    define r where "r = l + vsize X - 1"
    have r: "\<not> r < l" "r + 1 = l + vsize X" "r = l + vsize L + vsize M + vsize G - 1"
      "l + int (rnd k) mod (r - l + 1) = l + n"
      using X0 X(2) unfolding r_def n_def by simp_all
    have "TernaryQuicksort rnd l r h (P @ X @ Q, g, k) = Some (P @ (L' @ B @ G') @ Q, g3, k3)"
      using split left(1) mark(1) right(1) unfolding r(3) [symmetric]
      by (subst TernaryQuicksort.simps) (simp add: r(1,2,4) Let_def)
    then show ?thesis
      using qpost_combine [OF pre good h part left(2) g2 right(2)] unfolding B_def r_def by blast
  qed
qed

end
