(* ===== verification/SuffixBuild.thy ===== *)
theory SuffixBuild
  imports SuffixSort
begin

text \<open>
  The rounds of prefix doubling, the bucket sort that starts them and the final inversion:
  \<open>BuildSuffixArray\<close> returns, and returns the sorted suffixes.
\<close>

section \<open>One round\<close>

lemma segs_first:
  assumes "segs D g l Y" "Y \<noteq> []"
  shows "\<exists>B Y'. B \<noteq> [] \<and> Y = B @ Y' \<and> (run_block D g l B \<or> group_block D g l B) \<and> segs D g (l + vsize B) Y'"
  using assms(1)
proof cases
  case segs_Nil
  then show ?thesis using assms(2) by blast
next
  case (segs_Cons B Y')
  moreover have "B \<noteq> []"
    using segs_Cons(2) unfolding run_block_def group_block_def by force
  ultimately show ?thesis by blast
qed

lemma run_block_extend:
  assumes C: "C = [] \<or> run_block D g a C" and B: "run_block D g (a + vsize C) B"
  shows "run_block D g a (- (vsize C + vsize B) # tl (C @ B))"
proof -
  have "B \<noteq> []" using B by (simp add: run_block_def)
  then have size: "vsize (- (vsize C + vsize B) # tl (C @ B)) = vsize C + vsize B"
    by (cases C; cases B) (auto simp: vsize_def)
  have "\<exists>p \<in> pos D. \<forall>q \<in> pos D. ix g q = j \<longleftrightarrow> q = p" if "a \<le> j" "j < a + (vsize C + vsize B)" for j
  proof (cases "j < a + vsize C")
    case True
    then have "run_block D g a C" using C that by auto
    then show ?thesis using that True unfolding run_block_def by simp
  next
    case False
    then show ?thesis using B that unfolding run_block_def by simp
  qed
  then show ?thesis unfolding run_block_def size by simp
qed

lemma doubling_round_step:
  assumes "good D h g" "1 \<le> h" "sentinel D" "segs D g 0 A" "C = [] \<or> run_block D g (vsize A) C"
    and "segs D g i Y" "i = vsize A + vsize C" "vsize A + vsize C + vsize Y = vsize D"
    and "\<forall>p \<in> pos D. \<forall>q \<in> pos D. ix g p = ix g q \<longrightarrow> ix g p < i \<longrightarrow> agree D (2 * h) p q"
  shows "\<exists>sa' g' k'. doubling_round rnd h (vsize C) i (A @ C @ Y, g, k) = Some (sa', g', k') \<and>
    good D (2 * h) g' \<and> segs D g' 0 sa' \<and> vsize sa' = vsize D \<and>
    (inj_on (ix g) (pos D) \<and> A = [] \<longrightarrow> hd sa' = - vsize D)"
  using assms
proof (induction "length Y" arbitrary: Y A C g i k rule: less_induct)
  case less
  note good = less.prems(1) and h = less.prems(2) and D = less.prems(3) and A = less.prems(4)
    and C = less.prems(5) and Y = less.prems(6) and i = less.prems(7) and size = less.prems(8)
    and early = less.prems(9)
  show ?case
  proof (cases Y)
    case Nil
    have "good D (2 * h) g"
      using good early size goodD(4) [OF good] i unfolding good_def Nil by simp
    moreover have "segs D g 0 (A @ C)"
      using A C by (intro segs_append) (auto intro: segs_block segs_Nil)
    moreover have "hd C = - vsize D" if "A = []"
      using C that size Nil D unfolding run_block_def by (auto simp: sentinel_def vsize_def)
    ultimately show ?thesis
      using size i Nil by (subst doubling_round.simps) auto
  next
    case (Cons y Y0)
    then obtain B Y' where B: "B \<noteq> []" "Y = B @ Y'" "run_block D g i B \<or> group_block D g i B"
        "segs D g (i + vsize B) Y'"
      using segs_first [OF Y] by blast
    have shorter: "length Y' < length Y" using B(1,2) by simp
    obtain b B' where b: "B = b # B'" using B(1) by (cases B) auto
    have lt: "i < vsize (A @ C @ Y)" using i B(2) by (auto simp: b vsize_def)
    have at: "vat (A @ C @ Y) i = Some b"
      using vat_mid [of i "A @ C" b "B' @ Y'"] i B(2) b by simp
    note IH = less.hyps [OF shorter]
    from B(3) show ?thesis
    proof
      assume run: "run_block D g i B"
      let ?C = "- (vsize C + vsize B) # tl (C @ B)"
      have C': "run_block D g (vsize A) ?C"
        using run_block_extend [OF C] run i by simp
      have b_neg: "b = - vsize B" "b < 0" using run b by (auto simp: run_block_def vsize_def)
      have C'_size: "vsize ?C = vsize C + vsize B"
        using b by (cases C) (auto simp: vsize_def)
      have set: "vset (A @ C @ Y) (i + vsize B - (vsize C + vsize B)) (- (vsize C + vsize B)) = Some (A @ ?C @ Y')"
        using vset_mid [of "vsize A" A _ "tl (C @ B) @ Y'" "- (vsize C + vsize B)"] i B(2) b
        by (cases C) auto
      have "agree D (2 * h) p q" if "p \<in> pos D" "q \<in> pos D" "ix g p = ix g q" "ix g p < i + vsize B" for p q
      proof (cases "ix g p < i")
        case True
        then show ?thesis using early that by blast
      next
        case False
        then have "p = q" using run that unfolding run_block_def by (metis atLeastLessThan_iff not_less)
        then show ?thesis by simp
      qed
      then have "\<exists>sa' g' k'. doubling_round rnd h (vsize ?C) (i + vsize B) (A @ ?C @ Y', g, k) = Some (sa', g', k') \<and>
          good D (2 * h) g' \<and> segs D g' 0 sa' \<and> vsize sa' = vsize D \<and>
          (inj_on (ix g) (pos D) \<and> A = [] \<longrightarrow> hd sa' = - vsize D)"
        using C' B(4) i size C'_size B(2) by (intro IH [OF good h D A]) auto
      then show ?thesis
        using lt at b_neg set unfolding C'_size by (subst doubling_round.simps) (simp add: Let_def)
    next
      assume grp: "group_block D g i B"
      have grp': "2 \<le> vsize B" "distinct B" "set B = {p \<in> pos D. i \<le> ix g p \<and> ix g p < i + vsize B}"
        "\<forall>p \<in> set B. ix g p = i + vsize B - 1"
        using grp unfolding group_block_def by blast+
      have BD: "p \<in> pos D" if "p \<in> set B" for p using grp'(3) that by blast
      obtain b2 where b2: "b2 \<in> set B" "b2 \<noteq> b"
        using grp'(1,2) b by (cases B') (auto simp: vsize_def)
      have bB: "b \<in> set B" using b by simp
      have inside: "p + h < vsize D" if p: "p \<in> set B" for p
      proof (rule ccontr)
        assume far: "\<not> p + h < vsize D"
        obtain q where q: "q \<in> set B" "q \<noteq> p" using b2 bB by (cases "p = b") auto
        have "agree D h p q" using goodD(2) [OF good BD [OF p] BD [OF q(1)]] grp'(4) p q(1) by simp
        then have "p = q"
          using agree_sentinel [OF D] posD [OF BD [OF p]] posD [OF BD [OF q(1)]] far by simp
        then show False using q(2) by simp
      qed
      have i0: "0 \<le> i" "i + vsize B \<le> vsize D" using i size B(2) vsize_simps(4) [of Y'] by (auto simp: vsize_def)
      have out: "ix g q < i \<or> i + vsize B - 1 < ix g q" if "q \<in> pos D" "q \<notin> set B" for q
        using that grp'(3) by (cases "i \<le> ix g q") auto
      have pre: "qpre D h g i (i + vsize B - 1) B"
        unfolding qpre_def using i0 grp'(2,4) BD inside out by (auto simp: b)
      obtain X' g' k' where q: "TernaryQuicksort rnd i (i + vsize B - 1) h (A @ C @ Y, g, k) =
            Some ((A @ C @ X') @ Y', g', k')" "qpost D h g i B g' X'"
        using TernaryQuicksort_sorts [OF pre good, of "A @ C" rnd Y' k] h i B(2) by auto
      have j: "vat g b = Some (i + vsize B - 1)"
        using grp'(4) bB posD [OF BD [OF bB]] good_length [OF good] by (simp add: vat_eq vsize_def)
      have keep: "ix g' p = ix g p" if "p \<in> pos D" "p \<notin> set B" for p
        using qpostD(4) [OF q(2)] that by blast
      have moved: "i \<le> ix g' p \<and> ix g' p < i + vsize B \<and> i \<le> ix g p \<and> ix g p < i + vsize B" if "p \<in> set B" for p
        using qpostD(5,6) [OF q(2) that] grp'(3) that by blast
      have "segs D g 0 (A @ C)"
        using A C by (intro segs_append) (auto intro: segs_block segs_Nil)
      then have "segs D g' 0 (A @ C)"
        by (rule segs_cong) (use keep moved i in fastforce)
      then have A': "segs D g' 0 (A @ C @ X')"
        using segs_append [of D g' 0 "A @ C" X'] qpostD(3) [OF q(2)] i by simp
      have Y': "segs D g' (i + vsize B) Y'"
        by (rule segs_cong [OF B(4)]) (use keep moved in fastforce)
      have ag: "agree D (2 * h) p q" if p: "p \<in> pos D" and q': "q \<in> pos D" and e: "ix g' p = ix g' q"
        and l: "ix g' p < i + vsize B" for p q
      proof (cases "p \<in> set B \<and> q \<in> set B")
        case True
        then show ?thesis using qpostD(7) [OF q(2)] e by blast
      next
        case False
        then have "p \<notin> set B" "q \<notin> set B"
          using e l keep [OF p] keep [OF q'] moved [of p] moved [of q] out [OF p] out [OF q'] by fastforce+
        then show ?thesis using early e l keep p q' out [OF p] by fastforce
      qed
      have "\<exists>sa' g'' k''. doubling_round rnd h (vsize ([] :: int list)) (i + vsize B) ((A @ C @ X') @ [] @ Y', g', k') = Some (sa', g'', k'') \<and>
          good D (2 * h) g'' \<and> segs D g'' 0 sa' \<and> vsize sa' = vsize D \<and>
          (inj_on (ix g') (pos D) \<and> A @ C @ X' = [] \<longrightarrow> hd sa' = - vsize D)"
        using A' Y' i size qpostD(1) [OF q(2)] B(2) ag by (intro IH [OF qpostD(2) [OF q(2)] h D]) auto
      moreover have "\<not> inj_on (ix g) (pos D)"
        using b2 bB BD grp'(4) by (metis inj_onD)
      moreover have "\<not> b < 0" using posD [OF BD [OF bB]] by simp
      moreover have "doubling_round rnd h (vsize C) i (A @ C @ Y, g, k) =
          doubling_round rnd h 0 (i + vsize B) (A @ C @ X' @ Y', g', k')"
        using lt at j q(1) \<open>\<not> b < 0\<close> by (subst doubling_round.simps) (simp add: Let_def)
      ultimately show ?thesis by auto
    qed
  qed
qed

section \<open>Prefix doubling\<close>

text \<open>
  Every round doubles the agreement of the groups; once it covers the corpus all groups are
  singletons, the next round makes one run of them and the loop ends.
\<close>

lemma hd_vat: "X \<noteq> [] \<Longrightarrow> vat X 0 = Some (hd X)"
  by (cases X) auto

lemma single_run_inj:
  assumes "segs D g 0 sa" "vsize sa = vsize D" "good D h g" "hd sa = - vsize D" "D \<noteq> []"
  shows "inj_on (ix g) (pos D)"
proof -
  have sa: "sa \<noteq> []" using assms(2,5) by (metis vsize_simps(8))
  then obtain B Y' where B: "B \<noteq> []" "sa = B @ Y'" "run_block D g 0 B \<or> group_block D g 0 B"
    using segs_first [OF assms(1)] by blast
  have neg: "hd B < 0" using B(1,2) assms(4,5) by (cases D) (auto simp: vsize_def)
  have "0 \<le> hd B" if "group_block D g 0 B"
    using that hd_in_set [OF B(1)] posD unfolding group_block_def by blast
  then have run: "run_block D g 0 B" using B(3) neg by linarith
  then have size: "vsize B = vsize D" using B(1,2) assms(4) unfolding run_block_def by simp
  show ?thesis
  proof (rule inj_onI)
    fix p q assume pq: "p \<in> pos D" "q \<in> pos D" "ix g p = ix g q"
    then have "ix g p \<in> {0..<0 + vsize B}" using goodD(3,4) [OF assms(3) pq(1,1)] size by simp
    then show "p = q" using run pq unfolding run_block_def by (metis (no_types, lifting))
  qed
qed

lemma PrefixDoublingSort_sorts:
  assumes "good D h g" "1 \<le> h" "sentinel D" "segs D g 0 sa" "vsize sa = vsize D"
  shows "\<exists>sa' g' k'. PrefixDoublingSort rnd h (sa, g, k) = Some (sa', g', k') \<and> vsize sa' = vsize D \<and>
    good D 1 g' \<and> inj_on (ix g') (pos D)"
  using assms
proof (induction "nat (vsize D - h)" arbitrary: h sa g k rule: less_induct)
  case less
  note good = less.prems(1) and h = less.prems(2) and D = less.prems(3) and segs = less.prems(4)
    and size = less.prems(5)
  have DN: "D \<noteq> []" using D by (auto simp: sentinel_def)
  have sa: "sa \<noteq> []" using size DN by (metis vsize_simps(8))
  have good1: "good D 1 g" if "good D k g" "1 \<le> k" for g k
  proof -
    have "agree D 1 p q" if "agree D k p q" for p q
    proof -
      have "1 \<le> nat k" using \<open>1 \<le> k\<close> by linarith
      then show ?thesis
        using arg_cong [OF that [unfolded agree_def], of "take 1"] by (simp add: agree_def min_def)
    qed
    then show ?thesis using that(1) unfolding good_def by blast
  qed
  have finish: "\<exists>sa' g' k'. PrefixDoublingSort rnd h (sa, g, k) = Some (sa', g', k') \<and> vsize sa' = vsize D \<and>
    good D 1 g' \<and> inj_on (ix g') (pos D)"
    if "hd sa = - vsize D" "segs D g 0 sa" "vsize sa = vsize D" "good D h g" "1 \<le> h" for sa g h k
  proof -
    have "sa \<noteq> []" using that(3) DN by (metis vsize_simps(8))
    then have "PrefixDoublingSort rnd h (sa, g, k) = Some (sa, g, k)"
      using that(1,3) by (subst PrefixDoublingSort.simps) (simp add: hd_vat)
    then show ?thesis using that(3) good1 [OF that(4,5)] single_run_inj [OF that(2,3,4,1) DN] by blast
  qed
  show ?case
  proof (cases "hd sa = - vsize D")
    case True
    then show ?thesis using finish segs size good h by blast
  next
    case False
    obtain sa' g' k' where r: "doubling_round rnd h 0 0 (sa, g, k) = Some (sa', g', k')"
      "good D (2 * h) g'" "segs D g' 0 sa'" "vsize sa' = vsize D" "inj_on (ix g) (pos D) \<Longrightarrow> hd sa' = - vsize D"
      using doubling_round_step [OF good h D segs_Nil, of "[]" 0 sa rnd k] segs size goodD(3) [OF good]
      by fastforce
    have step: "PrefixDoublingSort rnd h (sa, g, k) = PrefixDoublingSort rnd (2 * h) (sa', g', k')"
      using False r(1) sa size by (subst PrefixDoublingSort.simps) (simp add: hd_vat mult.commute)
    show ?thesis
    proof (cases "h < vsize D")
      case True
      then have "nat (vsize D - 2 * h) < nat (vsize D - h)" using h by linarith
      then show ?thesis unfolding step using less.hyps [OF _ r(2) _ D r(3,4)] h by simp
    next
      case far: False
      have "inj_on (ix g) (pos D)"
      proof (rule inj_onI)
        fix p q assume pq: "p \<in> pos D" "q \<in> pos D" "ix g p = ix g q"
        show "p = q"
          using agree_sentinel [OF D _ _ _ _ goodD(2) [OF good pq]] posD [OF pq(1)] posD [OF pq(2)] far by simp
      qed
      then have "hd sa' = - vsize D" by (rule r(5))
      then show ?thesis unfolding step using finish [OF _ r(3,4,2)] h by simp
    qed
  qed
qed

section \<open>The bucket sort\<close>

definition below :: "int list \<Rightarrow> int \<Rightarrow> int" where
  "below D w = vsize (filter (\<lambda>x. x < w) D)"

definition occurrences :: "int list \<Rightarrow> int \<Rightarrow> int" where
  "occurrences D w = vsize (filter (\<lambda>x. x = w) D)"

lemma below_Suc: "below D (w + 1) = below D w + occurrences D w"
  by (induction D) (auto simp: below_def occurrences_def)

lemma below_mono: "v \<le> w \<Longrightarrow> below D v \<le> below D w"
  by (induction D) (auto simp: below_def)

lemma below_zero: "\<forall>x \<in> set D. 0 \<le> x \<Longrightarrow> below D 0 = 0"
  by (auto simp: below_def filter_empty_conv)

lemma below_all: "\<forall>x \<in> set D. x < V \<Longrightarrow> below D V = vsize D"
  by (simp add: below_def)

lemma below_bounds: "0 \<le> below D w" "below D w \<le> vsize D"
  by (auto simp: below_def vsize_def)

lemma occurrences_take_Suc:
  "n < length D \<Longrightarrow> occurrences (take (Suc n) D) w = occurrences (take n D) w + of_bool (D ! n = w)"
  by (simp add: occurrences_def take_Suc_conv_app_nth)

lemma occurrences_take: "occurrences (take n D) w \<le> occurrences D w"
proof -
  have "filter (\<lambda>x. x = w) D = filter (\<lambda>x. x = w) (take n D) @ filter (\<lambda>x. x = w) (drop n D)"
    by (metis append_take_drop_id filter_append)
  then show ?thesis by (simp add: occurrences_def)
qed

lemma nat_index: "0 \<le> i \<Longrightarrow> i < vsize xs \<Longrightarrow> nat i < length xs"
  by (simp add: vsize_def nat_less_iff)

lemma ix_update: "0 \<le> i \<Longrightarrow> i < vsize xs \<Longrightarrow> 0 \<le> j \<Longrightarrow> ix (xs[nat i := v]) j = (if j = i then v else ix xs j)"
  by (auto simp: nat_index nth_list_update nat_eq_iff)

lemma vat_ix: "0 \<le> i \<Longrightarrow> i < vsize xs \<Longrightarrow> vat xs i = Some (ix xs i)"
  by (simp add: vat_eq vsize_def)

lemma vset_ix: "0 \<le> i \<Longrightarrow> i < vsize xs \<Longrightarrow> vset xs i v = Some (xs[nat i := v])"
  by (simp add: vset_eq vsize_def)

lemma ix_in_set: "0 \<le> i \<Longrightarrow> i < vsize xs \<Longrightarrow> ix xs i \<in> set xs"
  by (simp add: nat_index)

definition bounded :: "int list \<Rightarrow> int \<Rightarrow> bool" where
  "bounded D V = (0 \<le> V \<and> (\<forall>x \<in> set D. 0 \<le> x \<and> x < V))"

lemma boundedD: "bounded D V \<Longrightarrow> p \<in> pos D \<Longrightarrow> 0 \<le> ix D p \<and> ix D p < V"
  using ix_in_set posD unfolding bounded_def by blast

lemma take_pos: "p \<in> pos D \<Longrightarrow> occurrences (take (nat (p + 1)) D) w = occurrences (take (nat p) D) w + of_bool (ix D p = w)"
  using occurrences_take_Suc [of "nat p" D w] posD [of p D]
  by (simp add: nat_index nat_add_distrib flip: Suc_eq_plus1)

lemma count_loop:
  assumes "bounded D V"
  shows "\<exists>ws. for_each (positions D) (\<lambda>i ws. do {
       g \<leftarrow> vat D i; c \<leftarrow> vat ws g; vset ws g (c + 1) }) (replicate (nat (V + 1)) 0) = Some ws \<and>
    vsize ws = V + 1 \<and> (\<forall>w. 0 \<le> w \<longrightarrow> w \<le> V \<longrightarrow> ix ws w = occurrences (take (nat (vsize D)) D) w)"
proof (rule for_range_total)
  show "vsize (replicate (nat (V + 1)) 0) = V + 1 \<and>
    (\<forall>w. 0 \<le> w \<longrightarrow> w \<le> V \<longrightarrow> ix (replicate (nat (V + 1)) 0) w = occurrences (take (nat 0) D) w)"
    using assms by (auto simp: bounded_def occurrences_def)
next
  fix i ws assume i: "0 \<le> i" "i < vsize D"
    and I: "vsize ws = V + 1 \<and> (\<forall>w. 0 \<le> w \<longrightarrow> w \<le> V \<longrightarrow> ix ws w = occurrences (take (nat i) D) w)"
  have p: "i \<in> pos D" using i by (simp add: pos_def)
  note g = boundedD [OF assms p]
  show "\<exists>s'. (do { g \<leftarrow> vat D i; c \<leftarrow> vat ws g; vset ws g (c + 1) }) = Some s' \<and>
      vsize s' = V + 1 \<and> (\<forall>w. 0 \<le> w \<longrightarrow> w \<le> V \<longrightarrow> ix s' w = occurrences (take (nat (i + 1)) D) w)"
    using i g I by (auto simp: vat_ix vset_ix take_pos [OF p] ix_update)
qed simp

lemma prefix_sum_loop:
  assumes "vsize ws = V + 1" "0 \<le> V" "\<forall>w. 0 \<le> w \<longrightarrow> w \<le> V \<longrightarrow> ix ws w = occurrences D w"
    and "\<forall>x \<in> set D. 0 \<le> x"
  shows "\<exists>ws'. for_each (int_range 1 (vsize ws)) (\<lambda>i ws. do {
       a \<leftarrow> vat ws i; b \<leftarrow> vat ws (i - 1); vset ws i (a + b) }) ws = Some ws' \<and>
    vsize ws' = V + 1 \<and> (\<forall>w. 0 \<le> w \<longrightarrow> w \<le> V \<longrightarrow> ix ws' w = below D (w + 1))"
proof -
  have "\<exists>ws'. for_each (int_range 1 (V + 1)) (\<lambda>i ws. do {
       a \<leftarrow> vat ws i; b \<leftarrow> vat ws (i - 1); vset ws i (a + b) }) ws = Some ws' \<and>
    vsize ws' = V + 1 \<and> (\<forall>w. 0 \<le> w \<longrightarrow> w \<le> V \<longrightarrow> ix ws' w = (if w < V + 1 then below D (w + 1) else occurrences D w))"
  proof (rule for_range_total [where I = "\<lambda>i ws. vsize ws = V + 1 \<and>
      (\<forall>w. 0 \<le> w \<longrightarrow> w \<le> V \<longrightarrow> ix ws w = (if w < i then below D (w + 1) else occurrences D w))"])
    have "ix ws 0 = below D 1"
      using assms(2,4) assms(3) [rule_format, of 0] below_Suc [of D 0] below_zero [of D] by simp
    moreover have "w < 1 \<longleftrightarrow> w = 0" if "0 \<le> w" for w :: int using that by linarith
    ultimately show "vsize ws = V + 1 \<and>
        (\<forall>w. 0 \<le> w \<longrightarrow> w \<le> V \<longrightarrow> ix ws w = (if w < 1 then below D (w + 1) else occurrences D w))"
      using assms(1,2,3) assms(3) [rule_format, of 0] by auto
  next
    fix i ws assume i: "1 \<le> i" "i < V + 1"
      and I: "vsize ws = V + 1 \<and> (\<forall>w. 0 \<le> w \<longrightarrow> w \<le> V \<longrightarrow> ix ws w = (if w < i then below D (w + 1) else occurrences D w))"
    then show "\<exists>s'. (do { a \<leftarrow> vat ws i; b \<leftarrow> vat ws (i - 1); vset ws i (a + b) }) = Some s' \<and> vsize s' = V + 1 \<and>
        (\<forall>w. 0 \<le> w \<longrightarrow> w \<le> V \<longrightarrow> ix s' w = (if w < i + 1 then below D (w + 1) else occurrences D w))"
      using below_Suc [of D i] by (auto simp: vat_ix vset_ix ix_update)
  qed (use assms in simp)
  then show ?thesis using assms(1) by auto
qed

text \<open>The cells of a bucket after the suffixes below \<open>m\<close> have been placed.\<close>

definition placed :: "int list \<Rightarrow> int \<Rightarrow> int \<Rightarrow> int list \<times> int list \<Rightarrow> bool" where
  "placed D V m = (\<lambda>(ws, sa). vsize ws = V + 1 \<and> vsize sa = vsize D \<and> ix ws V = vsize D \<and>
    (\<forall>w. 0 \<le> w \<longrightarrow> w < V \<longrightarrow> ix ws w = below D (w + 1) - occurrences (take (nat m) D) w \<and>
      ix sa ` {ix ws w..<below D (w + 1)} = {p. 0 \<le> p \<and> p < m \<and> ix D p = w}))"

lemma place_loop:
  assumes D: "bounded D V" and ws: "vsize ws = V + 1" "\<forall>w. 0 \<le> w \<longrightarrow> w \<le> V \<longrightarrow> ix ws w = below D (w + 1)"
    and sa: "vsize sa = vsize D"
  shows "\<exists>t. for_each (positions D) (\<lambda>i (ws, sa). do {
       g \<leftarrow> vat D i; c \<leftarrow> vat ws g; ws' \<leftarrow> vset ws g (c - 1);
       sa' \<leftarrow> vset sa (c - 1) i;
       Some (ws', sa') }) (ws, sa) = Some t \<and> placed D V (vsize D) t"
proof (rule for_range_total)
  have "below D (V + 1) = vsize D" using D by (intro below_all) (auto simp: bounded_def)
  then show "placed D V 0 (ws, sa)"
    using ws sa D by (auto simp: placed_def occurrences_def bounded_def)
next
  fix i s assume i: "0 \<le> i" "i < vsize D" and I: "placed D V i s"
  obtain ws sa where s: "s = (ws, sa)" by (cases s)
  have p: "i \<in> pos D" using i by (simp add: pos_def)
  define w0 where "w0 = ix D i"
  have w0: "0 \<le> w0" "w0 < V" using boundedD [OF D p] by (simp_all add: w0_def)
  have I': "vsize ws = V + 1" "vsize sa = vsize D" "ix ws V = vsize D"
    "\<And>w. 0 \<le> w \<Longrightarrow> w < V \<Longrightarrow> ix ws w = below D (w + 1) - occurrences (take (nat i) D) w"
    "\<And>w. 0 \<le> w \<Longrightarrow> w < V \<Longrightarrow> ix sa ` {ix ws w..<below D (w + 1)} = {p. 0 \<le> p \<and> p < i \<and> ix D p = w}"
    using I unfolding placed_def s prod.case by blast+
  have lo: "below D w \<le> ix ws w" if "0 \<le> w" "w < V" for w
    using I'(4) [OF that] below_Suc [of D w] occurrences_take [of "nat i" D w] by simp
  define c where "c = ix ws w0"
  have "occurrences (take (nat i) D) w0 + 1 \<le> occurrences D w0"
    using take_pos [OF p, of w0] occurrences_take [of "nat (i + 1)" D w0] by (simp add: w0_def)
  then have c: "below D w0 \<le> c - 1" "c \<le> below D (w0 + 1)"
    using I'(4) [OF w0] below_Suc [of D w0] by (auto simp: c_def occurrences_def)
  then have c_bnd: "0 \<le> c - 1" "c - 1 < vsize D"
    using below_bounds [of D w0] below_bounds [of D "w0 + 1"] by linarith+
  let ?ws = "ws[nat w0 := c - 1]" and ?sa = "sa[nat (c - 1) := i]"
  have run: "(do { g \<leftarrow> vat D i; c \<leftarrow> vat ws g; ws' \<leftarrow> vset ws g (c - 1);
       sa' \<leftarrow> vset sa (c - 1) i; Some (ws', sa') }) = Some (?ws, ?sa)"
    using i w0 c_bnd I'(1,2) by (simp add: vat_ix vset_ix flip: w0_def c_def)
  have cells: "ix ?sa j = (if j = c - 1 then i else ix sa j)" if "0 \<le> j" for j
    using that c_bnd I'(2) by (intro ix_update) auto
  have starts: "ix ?ws w = (if w = w0 then c - 1 else ix ws w)" if "0 \<le> w" for w
    using that w0 I'(1) by (intro ix_update) auto
  have bucket: "ix ?sa ` {ix ?ws w..<below D (w + 1)} = {p. 0 \<le> p \<and> p < i + 1 \<and> ix D p = w}"
    if w: "0 \<le> w" "w < V" for w
  proof (cases "w = w0")
    case True
    have "ix ?sa ` {ix ?ws w..<below D (w + 1)} = ix ?sa ` insert (c - 1) {c..<below D (w + 1)}"
      using c True starts [OF w(1)] by (intro arg_cong [where f = "image _"]) auto
    also have "\<dots> = insert i (ix sa ` {c..<below D (w + 1)})"
      using cells c_bnd by (auto intro!: image_eqI)
    also have "\<dots> = insert i {p. 0 \<le> p \<and> p < i \<and> ix D p = w}"
      using I'(5) [OF w] True by (simp add: c_def)
    also have "\<dots> = {p. 0 \<le> p \<and> p < i + 1 \<and> ix D p = w}"
      using True i by (auto simp: w0_def)
    finally show ?thesis .
  next
    case False
    have "j \<noteq> c - 1" "0 \<le> j" if j: "ix ws w \<le> j" "j < below D (w + 1)" for j
    proof -
      have "below D (w + 1) \<le> below D w0 \<or> below D (w0 + 1) \<le> below D w"
        using False below_mono [of "w + 1" w0 D] below_mono [of "w0 + 1" w D] by linarith
      then show "j \<noteq> c - 1" using j c lo [OF w] by linarith
      show "0 \<le> j" using j lo [OF w] below_bounds [of D w] by linarith
    qed
    then have "ix ?sa ` {ix ws w..<below D (w + 1)} = ix sa ` {ix ws w..<below D (w + 1)}"
      using cells by (intro image_cong) auto
    then show ?thesis
      using I'(5) [OF w] False starts [OF w(1)] by (auto simp: w0_def less_le)
  qed
  have "placed D V (i + 1) (?ws, ?sa)"
    using I'(1-4) starts bucket w0 D c take_pos [OF p] by (auto simp: placed_def bounded_def w0_def c_def)
  then show "\<exists>s'. (case s of (ws, sa) \<Rightarrow> do { g \<leftarrow> vat D i; c \<leftarrow> vat ws g; ws' \<leftarrow> vset ws g (c - 1);
       sa' \<leftarrow> vset sa (c - 1) i; Some (ws', sa') }) = Some s' \<and> placed D V (i + 1) s'"
    using run by (simp add: s)
qed simp

lemma group_loop:
  assumes D: "bounded D V" and ws: "vsize ws = V + 1" "\<And>w. 0 \<le> w \<Longrightarrow> w \<le> V \<Longrightarrow> ix ws w = below D w"
  shows "\<exists>g. for_each (positions D) (\<lambda>i groups. do {
       g \<leftarrow> vat groups i; c \<leftarrow> vat ws (g + 1); vset groups i (c - 1) }) D = Some g \<and>
    vsize g = vsize D \<and> (\<forall>p. 0 \<le> p \<longrightarrow> p < vsize D \<longrightarrow> ix g p = (if p < vsize D then below D (ix D p + 1) - 1 else ix D p))"
proof (rule for_range_total [where I = "\<lambda>i g. vsize g = vsize D \<and>
    (\<forall>p. 0 \<le> p \<longrightarrow> p < vsize D \<longrightarrow> ix g p = (if p < i then below D (ix D p + 1) - 1 else ix D p))"])
  fix i g assume i: "0 \<le> i" "i < vsize D"
    and I: "vsize g = vsize D \<and> (\<forall>p. 0 \<le> p \<longrightarrow> p < vsize D \<longrightarrow> ix g p = (if p < i then below D (ix D p + 1) - 1 else ix D p))"
  note b = boundedD [OF D, of i]
  show "\<exists>s'. (do { g' \<leftarrow> vat g i; c \<leftarrow> vat ws (g' + 1); vset g i (c - 1) }) = Some s' \<and> vsize s' = vsize D \<and>
      (\<forall>p. 0 \<le> p \<longrightarrow> p < vsize D \<longrightarrow> ix s' p = (if p < i + 1 then below D (ix D p + 1) - 1 else ix D p))"
    using i I b ws by (auto simp: vat_ix vset_ix ix_update pos_def)
qed auto

lemma InitialBucketSort_eq:
  assumes D: "bounded D V"
  shows "\<exists>sa g ws. InitialBucketSort (replicate (length D) 0) D (replicate (nat (V + 1)) 0) = Some (sa, g, ws) \<and>
    vsize sa = vsize D \<and> vsize g = vsize D \<and> vsize ws = V + 1 \<and>
    (\<forall>p \<in> pos D. ix g p = below D (ix D p + 1) - 1) \<and> (\<forall>w. 0 \<le> w \<longrightarrow> w \<le> V \<longrightarrow> ix ws w = below D w) \<and>
    (\<forall>w. 0 \<le> w \<longrightarrow> w < V \<longrightarrow> ix sa ` {below D w..<below D (w + 1)} = {p \<in> pos D. ix D p = w})"
proof -
  have V: "0 \<le> V" "\<forall>x \<in> set D. 0 \<le> x" "below D V = vsize D"
    using D by (auto simp: bounded_def intro: below_all)
  obtain ws1 where ws1: "for_each (positions D) (\<lambda>i ws. do {
       g \<leftarrow> vat D i; c \<leftarrow> vat ws g; vset ws g (c + 1) }) (replicate (nat (V + 1)) 0) = Some ws1"
    "vsize ws1 = V + 1" "\<forall>w. 0 \<le> w \<longrightarrow> w \<le> V \<longrightarrow> ix ws1 w = occurrences D w"
    using count_loop [OF D] by (auto simp: vsize_def)
  obtain ws2 where ws2: "for_each (int_range 1 (vsize ws1)) (\<lambda>i ws. do {
       a \<leftarrow> vat ws i; b \<leftarrow> vat ws (i - 1); vset ws i (a + b) }) ws1 = Some ws2"
    "vsize ws2 = V + 1" "\<forall>w. 0 \<le> w \<longrightarrow> w \<le> V \<longrightarrow> ix ws2 w = below D (w + 1)"
    using prefix_sum_loop [OF ws1(2) V(1) ws1(3) V(2)] by blast
  have "vsize (replicate (length D) 0) = vsize D" by (simp add: vsize_def)
  from place_loop [OF D ws2(2,3) this] obtain ws3 sa where s3: "for_each (positions D) (\<lambda>i (ws, sa). do {
       g \<leftarrow> vat D i; c \<leftarrow> vat ws g; ws' \<leftarrow> vset ws g (c - 1);
       sa' \<leftarrow> vset sa (c - 1) i;
       Some (ws', sa') }) (ws2, replicate (length D) 0) = Some (ws3, sa)" "placed D V (vsize D) (ws3, sa)"
    by auto
  have p: "vsize ws3 = V + 1" "vsize sa = vsize D" "ix ws3 V = vsize D"
    "\<And>w. 0 \<le> w \<Longrightarrow> w < V \<Longrightarrow> ix ws3 w = below D (w + 1) - occurrences D w"
    "\<And>w. 0 \<le> w \<Longrightarrow> w < V \<Longrightarrow> ix sa ` {ix ws3 w..<below D (w + 1)} = {p. 0 \<le> p \<and> p < vsize D \<and> ix D p = w}"
  proof -
    have "take (nat (vsize D)) D = D" by (simp add: vsize_def)
    with s3(2) show "vsize ws3 = V + 1" "vsize sa = vsize D" "ix ws3 V = vsize D"
      "\<And>w. 0 \<le> w \<Longrightarrow> w < V \<Longrightarrow> ix ws3 w = below D (w + 1) - occurrences D w"
      "\<And>w. 0 \<le> w \<Longrightarrow> w < V \<Longrightarrow> ix sa ` {ix ws3 w..<below D (w + 1)} = {p. 0 \<le> p \<and> p < vsize D \<and> ix D p = w}"
      unfolding placed_def prod.case by metis+
  qed
  have starts: "ix ws3 w = below D w" if "0 \<le> w" "w \<le> V" for w
    using p(3) p(4) [of w] that V(3) below_Suc [of D w] by (cases "w = V") auto
  have buckets: "ix sa ` {below D w..<below D (w + 1)} = {p \<in> pos D. ix D p = w}" if "0 \<le> w" "w < V" for w
    using p(5) [OF that] starts [of w] that by (simp add: pos_def)
  obtain g where g: "for_each (positions D) (\<lambda>i groups. do {
       g \<leftarrow> vat groups i; c \<leftarrow> vat ws3 (g + 1); vset groups i (c - 1) }) D = Some g"
    "vsize g = vsize D" "\<And>p. 0 \<le> p \<Longrightarrow> p < vsize D \<Longrightarrow> ix g p = below D (ix D p + 1) - 1"
    using group_loop [OF D p(1) starts] by auto
  have "InitialBucketSort (replicate (length D) 0) D (replicate (nat (V + 1)) 0) = Some (sa, g, ws3)"
    unfolding InitialBucketSort_def using ws1(1) ws2(1) s3(1) g(1) p(2) by simp
  moreover have "\<forall>p \<in> pos D. ix g p = below D (ix D p + 1) - 1"
    using g(3) by (auto simp: pos_def)
  moreover have "\<forall>w. 0 \<le> w \<longrightarrow> w \<le> V \<longrightarrow> ix ws3 w = below D w"
    using starts by blast
  moreover have "\<forall>w. 0 \<le> w \<longrightarrow> w < V \<longrightarrow> ix sa ` {below D w..<below D (w + 1)} = {p \<in> pos D. ix D p = w}"
    using buckets by blast
  ultimately show ?thesis
    using p(1,2) g(2) by (intro exI [of _ sa] exI [of _ g] exI [of _ ws3] conjI) assumption+
qed

text \<open>The groups of equal first words are a good start.\<close>

lemma below_less: "p \<in> pos D \<Longrightarrow> ix D p < w \<Longrightarrow> below D (ix D p) + 1 \<le> below D w"
proof -
  assume p: "p \<in> pos D" "ix D p < w"
  have "ix D p \<in> set D" using p posD ix_in_set by blast
  then have "0 < occurrences D (ix D p)" by (auto simp: occurrences_def vsize_def filter_empty_conv)
  then show ?thesis using below_Suc [of D "ix D p"] below_mono [of "ix D p + 1" w D] p by linarith
qed

lemma suf_Cons: "p \<in> pos D \<Longrightarrow> suf D p = ix D p # suf D (p + 1)"
  using posD [of p D] unfolding suf_def
  by (metis Cons_nth_drop_Suc nat_index Suc_nat_eq_nat_zadd1 add.commute)

lemma initial_good:
  assumes D: "bounded D V" and g: "vsize g = vsize D" "\<forall>p \<in> pos D. ix g p = below D (ix D p + 1) - 1"
  shows "good D 1 g"
proof -
  have gp: "ix g p = below D (ix D p + 1) - 1" "below D (ix D p) < below D (ix D p + 1)" if "p \<in> pos D" for p
    using that g(2) below_less [OF that, of "ix D p + 1"] by simp_all
  have lt: "ix g p < ix g q \<longleftrightarrow> ix D p < ix D q" if pq: "p \<in> pos D" "q \<in> pos D" for p q
  proof (cases "ix D p < ix D q")
    case True
    then have "below D (ix D p + 1) \<le> below D (ix D q)" by (intro below_mono) simp
    then show ?thesis using True gp [OF pq(1)] gp [OF pq(2)] by simp
  next
    case False
    then have "below D (ix D q + 1) \<le> below D (ix D p + 1)" by (intro below_mono) simp
    then show ?thesis using False gp [OF pq(1)] gp [OF pq(2)] by simp
  qed
  have "0 \<le> ix g p" "ix g p < vsize D" if "p \<in> pos D" for p
    using gp [OF that] below_bounds [of D "ix D p"] below_bounds [of D "ix D p + 1"] by linarith+
  moreover have "agree D 1 p q" if "p \<in> pos D" "q \<in> pos D" "ix g p = ix g q" for p q
  proof -
    have "ix D p = ix D q" using lt [OF that(1,2)] lt [OF that(2,1)] that(3) by linarith
    then show ?thesis using that by (simp add: agree_def suf_Cons)
  qed
  moreover have "vec_less (suf D p) (suf D q)" if "p \<in> pos D" "q \<in> pos D" "ix g p < ix g q" for p q
    using that lt by (simp add: suf_Cons)
  ultimately show ?thesis using g(1) unfolding good_def by (simp add: vsize_def)
qed

section \<open>Runs of singleton buckets\<close>

lemma combine_loop:
  assumes D: "bounded D V" and g: "\<forall>p \<in> pos D. ix g p = below D (ix D p + 1) - 1"
    and ws: "vsize ws = V + 1" "\<forall>w. 0 \<le> w \<longrightarrow> w \<le> V \<longrightarrow> ix ws w = below D w"
    and sa: "vsize sa = vsize D"
      "\<forall>w. 0 \<le> w \<longrightarrow> w < V \<longrightarrow> ix sa ` {below D w..<below D (w + 1)} = {p \<in> pos D. ix D p = w}"
  shows "\<exists>t. combine_singletons ws sa = Some t \<and> vsize (fst t) = vsize D \<and> segs D g 0 (fst t)"
proof -
  define I where "I = (\<lambda>i (s, c). \<exists>A C. s = A @ C @ drop (nat (below D (i - 1))) sa \<and>
    vsize A + vsize C = below D (i - 1) \<and> c = vsize C \<and> segs D g 0 A \<and> (C = [] \<or> run_block D g (vsize A) C))"
  have V: "0 \<le> V" "below D V = vsize D" "below D 0 = 0"
    using D by (auto simp: bounded_def intro: below_all below_zero)
  have bucket_groups: "{p \<in> pos D. below D w \<le> ix g p \<and> ix g p < below D (w + 1)} = {p \<in> pos D. ix D p = w}" for w
  proof (intro Collect_cong conj_cong refl)
    fix p assume p: "p \<in> pos D"
    have gp: "ix g p = below D (ix D p + 1) - 1" "below D (ix D p) < below D (ix D p + 1)"
      using p g below_less [OF p, of "ix D p + 1"] by simp_all
    consider "ix D p < w" | "ix D p = w" | "w < ix D p" by linarith
    then show "(below D w \<le> ix g p \<and> ix g p < below D (w + 1)) = (ix D p = w)"
    proof cases
      case 1
      then have "below D (ix D p + 1) \<le> below D w" by (intro below_mono) simp
      then show ?thesis using 1 gp by simp
    next
      case 2
      then show ?thesis using gp by simp
    next
      case 3
      then have "below D (w + 1) \<le> below D (ix D p)" by (intro below_mono) simp
      then show ?thesis using 3 gp by simp
    qed
  qed
  have "\<exists>t. for_each (int_range 1 (V + 1)) (\<lambda>i (sa, combined). do {
       a \<leftarrow> vat ws i; b \<leftarrow> vat ws (i - 1);
       if a - b = 1 then do {
         sa' \<leftarrow> vset sa (a - (combined + 1)) (- (combined + 1));
         Some (sa', combined + 1) }
       else Some (sa, 0) }) (sa, 0) = Some t \<and> I (V + 1) t"
  proof (rule for_range_total [where I = I])
    show "I 1 (sa, 0)" using V by (auto simp: I_def intro: segs_Nil)
  next
    fix i s assume i: "1 \<le> i" "i < V + 1" and I: "I i s"
    obtain s' c where s: "s = (s', c)" by (cases s)
    define w where "w = i - 1"
    have w: "0 \<le> w" "w < V" "i = w + 1" using i by (simp_all add: w_def)
    define l where "l = below D w"
    define r where "r = below D (w + 1)"
    obtain A C where AC: "s' = A @ C @ drop (nat l) sa" "vsize A + vsize C = l" "c = vsize C" "segs D g 0 A"
      "C = [] \<or> run_block D g (vsize A) C"
      using I by (auto simp: I_def s w(3) l_def)
    have lr: "0 \<le> l" "l \<le> r" "r \<le> vsize D"
      using below_bounds below_mono [of w "w + 1" D] by (simp_all add: l_def r_def)
    define B where "B = map (ix sa) (int_range l r)"
    have B_set: "set B = {p \<in> pos D. ix D p = w}"
      using sa(2) w by (simp add: B_def l_def r_def)
    have B_size: "vsize B = r - l" using lr by (simp add: B_def vsize_def)
    have B_split: "drop (nat l) sa = B @ drop (nat r) sa"
    proof -
      have "B = take (nat r - nat l) (drop (nat l) sa)"
        using lr sa(1) by (intro nth_equalityI) (auto simp: B_def vsize_def nat_add_distrib nat_diff_distrib)
      then show ?thesis using lr by (metis append_take_drop_id drop_drop le_add_diff_inverse2 nat_mono)
    qed
    have card: "vsize B = int (card (set B))"
    proof -
      have "card {p \<in> pos D. ix D p = w} = length (filter (\<lambda>x. x = w) D)"
      proof -
        have "{p \<in> pos D. ix D p = w} = int ` {n. n < length D \<and> D ! n = w}"
        proof (intro set_eqI iffI)
          fix p assume "p \<in> {p \<in> pos D. ix D p = w}"
          then show "p \<in> int ` {n. n < length D \<and> D ! n = w}"
            by (intro image_eqI [of _ _ "nat p"]) (auto simp: pos_def vsize_def)
        qed (auto simp: pos_def vsize_def)
        then show ?thesis by (simp add: card_image length_filter_conv_card)
      qed
      then show ?thesis
        using B_size below_Suc [of D w] by (simp add: B_set l_def r_def occurrences_def vsize_def)
    qed
    then have B_distinct: "distinct B" by (simp add: card_distinct vsize_def)
    have next_r: "below D (i + 1 - 1) = r" by (simp add: w(3) r_def add.commute)
    have at: "vat ws i = Some r" "vat ws (i - 1) = Some l"
      using ws w by (simp_all add: vat_ix l_def r_def)
    show "\<exists>t. (case s of (sa, combined) \<Rightarrow> do {
       a \<leftarrow> vat ws i; b \<leftarrow> vat ws (i - 1);
       if a - b = 1 then do {
         sa' \<leftarrow> vset sa (a - (combined + 1)) (- (combined + 1));
         Some (sa', combined + 1) }
       else Some (sa, 0) }) = Some t \<and> I (i + 1) t"
    proof (cases "r - l = 1")
      case True
      then obtain x where x: "B = [x]" using B_size by (cases B) (auto simp: vsize_def)
      let ?C = "- (vsize C + 1) # tl (C @ [x])"
      have "run_block D g (vsize A + vsize C) [- 1]"
        unfolding run_block_def
      proof (intro conjI ballI)
        fix j assume "j \<in> {vsize A + vsize C..<vsize A + vsize C + vsize [- 1 :: int]}"
        then have "j = l" using AC(2) by simp
        moreover have one: "{p \<in> pos D. l \<le> ix g p \<and> ix g p < r} = {x}"
          using bucket_groups [of w] B_set unfolding x l_def r_def by simp
        moreover have "ix g q = l \<longleftrightarrow> q = x" if "q \<in> pos D" for q
        proof -
          have "ix g q = l \<longleftrightarrow> q \<in> {p \<in> pos D. l \<le> ix g p \<and> ix g p < r}"
            using that True by auto
          then show ?thesis unfolding one by simp
        qed
        moreover have "x \<in> pos D" using one by blast
        ultimately show "\<exists>p \<in> pos D. \<forall>q \<in> pos D. (ix g q = j) = (q = p)" by blast
      qed simp_all
      from run_block_extend [OF AC(5) this]
      have "run_block D g (vsize A) ?C"
        unfolding run_block_def by (cases C) (auto simp: vsize_def)
      moreover have "vset s' (r - (c + 1)) (- (c + 1)) = Some (A @ ?C @ drop (nat r) sa)"
        using vset_mid [of "vsize A" A _ "tl (C @ [x]) @ drop (nat r) sa" "- (c + 1)"] AC(1-3) True B_split x
        by (cases C) (auto simp: algebra_simps)
      moreover have "vsize ?C = vsize C + 1" by (cases C) (auto simp: vsize_def)
      ultimately have new: "run_block D g (vsize A) ?C" "vsize ?C = vsize C + 1"
        "vset s' (r - (c + 1)) (- (c + 1)) = Some (A @ ?C @ drop (nat r) sa)" by blast+
      have "I (i + 1) (A @ ?C @ drop (nat r) sa, c + 1)"
        unfolding I_def prod.case next_r
      proof (rule exI [of _ A], rule exI [of _ ?C], intro conjI)
        show "vsize A + vsize ?C = r" using new(2) AC(2) True by linarith
        show "c + 1 = vsize ?C" using new(2) AC(3) by linarith
      qed (use new(1) AC(4) in blast)+
      then show ?thesis using at True new(3) by (auto simp: s)
    next
      case False
      have "segs D g 0 ((A @ C) @ B)"
      proof (intro segs_append)
        show "segs D g 0 A" by fact
        show "segs D g (0 + vsize A) C" using AC(5) by (auto intro: segs_block segs_Nil)
        show "segs D g (0 + vsize (A @ C)) B"
        proof (cases "B = []")
          case True
          then show ?thesis by (simp add: segs_Nil)
        next
          case B0: False
          then have "2 \<le> vsize B" using False B_size lr by (cases B) (auto simp: vsize_def)
          moreover have "\<forall>p \<in> set B. ix g p = l + vsize B - 1"
            using g B_size by (auto simp: B_set r_def)
          ultimately have "group_block D g l B"
            using B_distinct bucket_groups [of w] B_size lr unfolding group_block_def B_set l_def r_def by simp
          then show ?thesis using AC(2) by (auto intro: segs_block)
        qed
      qed
      then have A': "segs D g 0 (A @ C @ B)" by simp
      have "I (i + 1) (s', 0)"
        unfolding I_def prod.case next_r
      proof (rule exI [of _ "A @ C @ B"], rule exI [of _ "[]"], intro conjI)
        show "s' = (A @ C @ B) @ [] @ drop (nat r) sa" using AC(1) B_split by simp
        show "vsize (A @ C @ B) + vsize ([] :: int list) = r" using AC(2) B_size by simp
      qed (use A' in simp_all)
      then show ?thesis using at False by (auto simp: s)
    qed
  qed (use V in simp)
  then obtain t where t: "combine_singletons ws sa = Some t" "I (V + 1) t"
    unfolding combine_singletons_def ws(1) by blast
  have "vsize (fst t) = vsize D \<and> segs D g 0 (fst t)"
  proof -
    obtain A C where "fst t = A @ C" "vsize A + vsize C = vsize D" "segs D g 0 A" "C = [] \<or> run_block D g (vsize A) C"
      using t(2) V sa(1) by (cases t) (auto simp: I_def vsize_def)
    then show ?thesis by (auto intro!: segs_append intro: segs_block segs_Nil)
  qed
  with t(1) show ?thesis by blast
qed

section \<open>The suffix array\<close>

text \<open>A corpus as the file constructor of \<open>DataArray\<close> makes it when no word is the reserved \<open>__NULL__\<close>.\<close>

definition sortable :: "data_array \<Rightarrow> bool" where
  "sortable d = (0 < GetVocabularySize d \<and>
    (\<forall>x \<in> set (da_data d). NULL_WORD < x \<and> x < GetVocabularySize d))"

lemma finalize_loop:
  assumes "vsize g = n" "vsize sa = n" "\<And>p. 0 \<le> p \<Longrightarrow> p < n \<Longrightarrow> 0 \<le> ix g p \<and> ix g p < n" "inj_on (ix g) {0..<n}"
  shows "\<exists>sa'. for_each (positions g) (\<lambda>i sa. do { x \<leftarrow> vat g i; vset sa x i }) sa = Some sa' \<and>
    vsize sa' = n \<and> (\<forall>p. 0 \<le> p \<longrightarrow> p < n \<longrightarrow> ix sa' (ix g p) = p)"
proof -
  have "\<exists>sa'. for_each (positions g) (\<lambda>i sa. do { x \<leftarrow> vat g i; vset sa x i }) sa = Some sa' \<and>
    vsize sa' = n \<and> (\<forall>p. 0 \<le> p \<longrightarrow> p < vsize g \<longrightarrow> ix sa' (ix g p) = p)"
  proof (rule for_range_total [where I = "\<lambda>i sa. vsize sa = n \<and> (\<forall>p. 0 \<le> p \<longrightarrow> p < i \<longrightarrow> ix sa (ix g p) = p)"])
    fix i s assume i: "0 \<le> i" "i < vsize g" and I: "vsize s = n \<and> (\<forall>p. 0 \<le> p \<longrightarrow> p < i \<longrightarrow> ix s (ix g p) = p)"
    have "ix g p \<noteq> ix g i" if "0 \<le> p" "p < i" for p
      using inj_onD [OF assms(4), of p i] that i assms(1) by auto
    moreover have "p < i \<or> p = i" if "p < i + 1" for p using that by linarith
    ultimately have "\<forall>p. 0 \<le> p \<longrightarrow> p < i + 1 \<longrightarrow> ix (s[nat (ix g i) := i]) (ix g p) = p"
      using i I assms(1,3) by (simp add: ix_update) metis
    then show "\<exists>s'. (do { x \<leftarrow> vat g i; vset s x i }) = Some s' \<and> vsize s' = n \<and>
        (\<forall>p. 0 \<le> p \<longrightarrow> p < i + 1 \<longrightarrow> ix s' (ix g p) = p)"
      using i I assms(1,3) by (simp add: vat_ix vset_ix)
  qed (use assms in auto)
  then show ?thesis using assms(1) by simp
qed

lemma BuildSuffixArray_sorts:
  assumes "sortable d"
  defines "D \<equiv> da_data d @ [NULL_WORD]"
  shows "\<exists>s. BuildSuffixArray rnd d = Some s \<and> sa_data s = d \<and> vsize (sa_array s) = vsize D \<and>
    (\<forall>w. 0 \<le> w \<longrightarrow> w \<le> GetVocabularySize d \<longrightarrow> vat (sa_word_start s) w = Some (below D w)) \<and>
    ix (sa_array s) ` {0..<vsize D} = {0..<vsize D} \<and>
    (\<forall>i j. 0 \<le> i \<longrightarrow> i < j \<longrightarrow> j < vsize D \<longrightarrow>
      vec_less (suf D (ix (sa_array s) i)) (suf D (ix (sa_array s) j)))"
proof -
  define V where "V = GetVocabularySize d"
  have D: "bounded D V" "sentinel D"
    using assms(1) by (auto simp: bounded_def sentinel_def sortable_def D_def V_def NULL_WORD_def)
  obtain sa1 g1 ws where s1: "InitialBucketSort (replicate (length D) 0) D (replicate (nat (V + 1)) 0) = Some (sa1, g1, ws)"
    "vsize sa1 = vsize D" "vsize g1 = vsize D" "vsize ws = V + 1"
    "\<forall>p \<in> pos D. ix g1 p = below D (ix D p + 1) - 1" "\<forall>w. 0 \<le> w \<longrightarrow> w \<le> V \<longrightarrow> ix ws w = below D w"
    "\<forall>w. 0 \<le> w \<longrightarrow> w < V \<longrightarrow> ix sa1 ` {below D w..<below D (w + 1)} = {p \<in> pos D. ix D p = w}"
    using InitialBucketSort_eq [OF D(1)] by blast
  obtain sa2 c where s2: "combine_singletons ws sa1 = Some (sa2, c)" "vsize sa2 = vsize D" "segs D g1 0 sa2"
    using combine_loop [OF D(1) s1(5,4,6,2,7)] by auto
  obtain sa3 g2 k where s3: "PrefixDoublingSort rnd 1 (sa2, g1, 0) = Some (sa3, g2, k)" "vsize sa3 = vsize D"
    "good D 1 g2" "inj_on (ix g2) (pos D)"
    using PrefixDoublingSort_sorts [OF initial_good [OF D(1) s1(3,5)] order_refl D(2) s2(3,2)] by blast
  have g2: "vsize g2 = vsize D" using good_length [OF s3(3)] .
  have range: "0 \<le> ix g2 p \<and> ix g2 p < vsize D" if "0 \<le> p" "p < vsize D" for p
    using goodD(3,4) [OF s3(3), of p p] that by (simp add: pos_def)
  obtain sa where s4: "for_each (positions g2) (\<lambda>i sa. do { x \<leftarrow> vat g2 i; vset sa x i }) sa3 = Some sa"
    "vsize sa = vsize D" "\<forall>p. 0 \<le> p \<longrightarrow> p < vsize D \<longrightarrow> ix sa (ix g2 p) = p"
    using finalize_loop [OF g2 s3(2) range] s3(4) by (auto simp: pos_def)
  have build: "BuildSuffixArray rnd d = Some \<lparr>sa_data = d, sa_array = sa, sa_word_start = ws\<rparr>"
    unfolding BuildSuffixArray_def Let_def D_def [symmetric] V_def [symmetric]
    using s1(1) s2(1) s3(1) s4(1) by simp
  have surj: "ix g2 ` {0..<vsize D} = {0..<vsize D}"
    using s3(4) range by (intro endo_inj_surj) (auto simp: pos_def)
  have at: "\<exists>p. 0 \<le> p \<and> p < vsize D \<and> ix g2 p = i \<and> ix sa i = p" if "0 \<le> i" "i < vsize D" for i
  proof -
    have "i \<in> ix g2 ` {0..<vsize D}" using that surj by simp
    then show ?thesis using s4(3) by auto
  qed
  have "ix sa ` {0..<vsize D} = {0..<vsize D}"
  proof
    show "ix sa ` {0..<vsize D} \<subseteq> {0..<vsize D}" using at by fastforce
    show "{0..<vsize D} \<subseteq> ix sa ` {0..<vsize D}"
    proof
      fix p assume "p \<in> {0..<vsize D}"
      then show "p \<in> ix sa ` {0..<vsize D}"
        using s4(3) range by (intro image_eqI [of _ _ "ix g2 p"]) auto
    qed
  qed
  moreover have "vec_less (suf D (ix sa i)) (suf D (ix sa j))" if "0 \<le> i" "i < j" "j < vsize D" for i j
  proof -
    obtain p q where "p \<in> pos D" "ix g2 p = i" "ix sa i = p" "q \<in> pos D" "ix g2 q = j" "ix sa j = q"
    proof -
      have "0 \<le> j" "i < vsize D" using \<open>0 \<le> i\<close> \<open>i < j\<close> \<open>j < vsize D\<close> by linarith+
      then show ?thesis using at [of i] at [of j] \<open>0 \<le> i\<close> \<open>j < vsize D\<close> that by (auto simp: pos_def)
    qed
    then show ?thesis using goodD(1) [OF s3(3), of p q] that(2) by simp
  qed
  ultimately show ?thesis
    using build s4(2) s1(4,6) unfolding V_def [symmetric] by (simp add: vat_ix)
qed

end
