(* ===== verification/SuffixLookup.thy ===== *)
theory SuffixLookup
  imports SuffixBuild
begin

text \<open>
  What the users of the suffix array rely on: its order, the ranges that \<open>Lookup\<close> finds by
  binary search, and the longest-common-prefix array.
\<close>

section \<open>Sorted suffixes\<close>

definition suffix_at :: "data_array \<Rightarrow> int \<Rightarrow> int list" where
  "suffix_at d p = drop (nat p) (da_data d)"

definition starts_at :: "data_array \<Rightarrow> int \<Rightarrow> int list \<Rightarrow> bool" where
  "starts_at d p ids = (take (length ids) (suffix_at d p) = ids)"

text \<open>A suffix array over \<open>d\<close>: all positions, the one past the end included, in suffix order.\<close>

definition suffix_sorted :: "suffix_array \<Rightarrow> bool" where
  "suffix_sorted s =
     (mset (sa_array s) = mset (int_range 0 (GetSize (sa_data s) + 1)) \<and>
      sorted_wrt (\<lambda>p q. vec_less (suffix_at (sa_data s) p) (suffix_at (sa_data s) q)) (sa_array s))"

lemma vec_less_sentinel:
  assumes "\<forall>x \<in> set xs. 0 < x" "\<forall>x \<in> set ys. 0 < x" "vec_less (xs @ [0]) (ys @ [0])"
  shows "vec_less xs ys"
proof -
  have "\<forall>x \<in> set xs. 0 < x \<Longrightarrow> \<not> vec_less (xs @ [0]) [0]" for xs :: "int list"
    by (cases xs) auto
  then show ?thesis
    using assms by (induction xs ys rule: vec_less.induct) (auto simp: neq_Nil_conv)
qed

lemma suf_snoc: "p \<le> vsize E \<Longrightarrow> suf (E @ [x]) p = drop (nat p) E @ [x]"
proof -
  assume "p \<le> vsize E"
  then have "nat p - length E = 0" by (simp add: vsize_def)
  then show ?thesis by (simp add: suf_def)
qed

lemma BuildSuffixArray_result:
  assumes "sortable d"
  shows "\<exists>s. BuildSuffixArray rnd d = Some s \<and> sa_data s = d \<and> suffix_sorted s"
proof -
  let ?D = "da_data d @ [NULL_WORD]"
  obtain s where s: "BuildSuffixArray rnd d = Some s" "sa_data s = d" "vsize (sa_array s) = vsize ?D"
    "ix (sa_array s) ` {0..<vsize ?D} = {0..<vsize ?D}"
    "\<And>i j. 0 \<le> i \<Longrightarrow> i < j \<Longrightarrow> j < vsize ?D \<Longrightarrow>
      vec_less (suf ?D (ix (sa_array s) i)) (suf ?D (ix (sa_array s) j))"
    using BuildSuffixArray_sorts [OF assms, of rnd] by blast
  let ?sa = "sa_array s"
  have len: "length ?sa = Suc (length (da_data d))" using s(3) by (simp add: vsize_def)
  have pos: "\<forall>x \<in> set (da_data d). 0 < x"
    using assms by (auto simp: sortable_def NULL_WORD_def)
  have set: "set ?sa = {0..<vsize ?D}"
  proof -
    have "set ?sa = (\<lambda>n. ?sa ! n) ` {0..<length ?sa}" by (auto simp: set_conv_nth)
    also have "\<dots> = ix ?sa ` (int ` {0..<length ?sa})" by (simp add: image_image)
    also have "int ` {0..<length ?sa} = {0..<vsize ?D}"
      using s(3) by (simp add: image_int_atLeastLessThan vsize_def)
    finally show ?thesis using s(4) by simp
  qed
  have less: "vec_less (suf ?D (?sa ! i)) (suf ?D (?sa ! j))" if "i < j" "j < length ?sa" for i j
    using s(5) [of "int i" "int j"] that s(3) by (simp add: vsize_def)
  have "distinct ?sa"
    using less by (metis distinct_conv_nth linorder_neqE_nat vec_less_irrefl)
  then have "mset ?sa = mset (int_range 0 (GetSize d + 1))"
  proof (rule iffD1 [OF set_eq_iff_mset_eq_distinct])
    show "distinct (int_range 0 (GetSize d + 1))" by (simp add: int_range_def)
    show "set ?sa = set (int_range 0 (GetSize d + 1))"
      unfolding set set_int_range by (simp add: GetSize_def)
  qed
  moreover have "vec_less (suffix_at d (?sa ! i)) (suffix_at d (?sa ! j))" if ij: "i < j" "j < length ?sa" for i j
  proof -
    have mem: "?sa ! k \<in> {0..<vsize ?D}" if "k < length ?sa" for k
      using nth_mem [OF that] unfolding set .
    have p: "0 \<le> ?sa ! i \<and> ?sa ! i \<le> vsize (da_data d)" "0 \<le> ?sa ! j \<and> ?sa ! j \<le> vsize (da_data d)"
      using mem [of i] mem [of j] ij by simp_all
    then have eqs: "suf ?D (?sa ! i) = suffix_at d (?sa ! i) @ [0]" "suf ?D (?sa ! j) = suffix_at d (?sa ! j) @ [0]"
      using suf_snoc [of _ "da_data d" 0] p by (simp_all only: suffix_at_def NULL_WORD_def)
    have "\<forall>x \<in> set (suffix_at d p). 0 < x" for p
      using pos set_drop_subset [of "nat p" "da_data d"] unfolding suffix_at_def by blast
    then show ?thesis
      using vec_less_sentinel less [OF ij] unfolding eqs by blast
  qed
  ultimately show ?thesis
    using s(1,2) unfolding suffix_sorted_def sorted_wrt_iff_nth_less by blast
qed

lemma BuildSuffixArray_suffix_sorted:
  "sortable d \<Longrightarrow> BuildSuffixArray rnd d = Some s \<Longrightarrow> suffix_sorted s"
  using BuildSuffixArray_result [of d rnd] by auto

text \<open>The file constructor makes such a corpus, unless a line contains the reserved word.\<close>

lemma sortable_add_line:
  assumes d: "wf_words d" "sortable d" "GetWord d 0 = Some NULL_WORD_STR" "GetWord d 1 = Some END_OF_LINE_STR"
    and line: "NULL_WORD_STR \<notin> set (words_of line)"
  shows "sortable (add_line i line d)"
proof -
  let ?d' = "add_line i line d"
  note l = add_line [OF d(1) refl, of i line]
  obtain ids where ids: "da_data ?d' = da_data d @ ids @ [END_OF_LINE]"
    "map (GetWord ?d') ids = map Some (words_of line)" using l(3) by blast
  have keep: "GetWord ?d' j = Some v" if "GetWord d j = Some v" for j v
    using l(2) that by (simp add: grows_def)
  have bnd: "j < GetVocabularySize e" if "GetWord e j = Some v" for e j v
    using that vat_bound by (fastforce simp: GetWord_def GetVocabularySize_def)
  have "0 < x \<and> x < GetVocabularySize ?d'" if x: "x \<in> set ids" for x
  proof -
    obtain v where v: "GetWord ?d' x = Some v" "v \<in> set (words_of line)"
    proof -
      have "GetWord ?d' x \<in> Some ` set (words_of line)"
        using arg_cong [OF ids(2), of set] x by (metis image_eqI image_set)
      then show ?thesis using that by blast
    qed
    moreover have "GetWord ?d' 0 = Some NULL_WORD_STR" by (rule keep [OF d(3)])
    ultimately have "x \<noteq> 0" using line by auto
    moreover have "0 \<le> x" using v(1) vat_bound by (fastforce simp: GetWord_def)
    ultimately show ?thesis using bnd [OF v(1)] by simp
  qed
  moreover have "x < GetVocabularySize ?d'" if x: "x \<in> set (da_data d)" for x
  proof -
    have "vat (da_id2word d) x = Some (da_id2word d ! nat x)"
      using d(2) x by (auto simp: sortable_def GetVocabularySize_def vat_eq vsize_def NULL_WORD_def)
    then show ?thesis using bnd [OF keep] by (simp add: GetWord_def)
  qed
  moreover have "1 < GetVocabularySize ?d'" using bnd [OF keep [OF d(4)]] .
  ultimately show ?thesis
    using d(2) ids(1) by (auto simp: sortable_def NULL_WORD_def END_OF_LINE_def)
qed

lemma sortable_add_lines:
  assumes "wf_words d" "sortable d" "GetWord d 0 = Some NULL_WORD_STR" "GetWord d 1 = Some END_OF_LINE_STR"
    and "\<forall>line \<in> set lines. NULL_WORD_STR \<notin> set (words_of line)"
  shows "sortable (add_lines i lines d)"
  using assms
proof (induction lines arbitrary: d i)
  case Nil
  then show ?case by simp
next
  case (Cons l ls)
  note a = add_line [OF Cons.prems(1) refl, of i l]
  have "sortable (add_line i l d)"
    by (rule sortable_add_line) (use Cons.prems in auto)
  moreover have "GetWord (add_line i l d) 0 = Some NULL_WORD_STR" "GetWord (add_line i l d) 1 = Some END_OF_LINE_STR"
    using a(2) Cons.prems(3,4) by (auto simp: grows_def)
  ultimately show ?case using Cons.IH [OF a(1)] Cons.prems(5) by simp
qed

lemma sortable_file:
  assumes "\<forall>line \<in> set lines. NULL_WORD_STR \<notin> set (words_of line)"
  shows "sortable (DataArray_of_file lines)"
proof -
  have "sortable (add_lines 0 lines InitializeDataArray)"
    by (rule sortable_add_lines [OF wf_words_init _ _ _ assms])
      (auto simp: InitializeDataArray_def sortable_def GetVocabularySize_def GetWord_def vat_def)
  then show ?thesis
    by (auto simp: DataArray_of_file_def CreateDataArray_def Let_def sortable_def GetVocabularySize_def)
qed

section \<open>Ranges of the suffix array\<close>

text \<open>The ranks \<open>lo\<close> to \<open>hi\<close> are those of the suffixes that start with \<open>ids\<close>.\<close>

definition covers_ids :: "suffix_array \<Rightarrow> int \<Rightarrow> int \<Rightarrow> int list \<Rightarrow> bool" where
  "covers_ids s lo hi ids = (0 \<le> lo \<and> lo \<le> hi \<and> hi \<le> SuffixArraySize s \<and>
    (\<forall>i p. GetSuffix s i = Some p \<longrightarrow> (lo \<le> i \<and> i < hi \<longleftrightarrow> starts_at (sa_data s) p ids)))"

lemma suffix_sortedD:
  assumes "suffix_sorted s"
  shows "SuffixArraySize s = GetSize (sa_data s) + 1"
    and "GetSuffix s i = Some p \<Longrightarrow> 0 \<le> p \<and> p \<le> GetSize (sa_data s)"
    and "GetSuffix s i = Some p \<Longrightarrow> GetSuffix s j = Some q \<Longrightarrow> i < j \<Longrightarrow>
      vec_less (suffix_at (sa_data s) p) (suffix_at (sa_data s) q)"
proof -
  have m: "mset (sa_array s) = mset (int_range 0 (GetSize (sa_data s) + 1))"
    using assms by (simp add: suffix_sorted_def)
  show "SuffixArraySize s = GetSize (sa_data s) + 1"
    using mset_eq_length [OF m] by (simp add: SuffixArraySize_def vsize_def GetSize_def)
  show "0 \<le> p \<and> p \<le> GetSize (sa_data s)" if "GetSuffix s i = Some p"
    using mset_eq_setD [OF m] vat_in_set that unfolding GetSuffix_def set_int_range by fastforce
  show "vec_less (suffix_at (sa_data s) p) (suffix_at (sa_data s) q)"
    if "GetSuffix s i = Some p" "GetSuffix s j = Some q" "i < j"
  proof -
    have "sorted_wrt (\<lambda>p q. vec_less (suffix_at (sa_data s) p) (suffix_at (sa_data s) q)) (sa_array s)"
      using assms by (simp add: suffix_sorted_def)
    moreover have "nat i < nat j" "nat j < length (sa_array s)" "p = sa_array s ! nat i" "q = sa_array s ! nat j"
      using that by (auto simp: GetSuffix_def vat_Some_iff)
    ultimately show ?thesis unfolding sorted_wrt_iff_nth_less by blast
  qed
qed

lemma covers_all: "suffix_sorted s \<Longrightarrow> covers_ids s 0 (SuffixArraySize s) []"
  by (auto simp: covers_ids_def starts_at_def GetSuffix_def SuffixArraySize_def dest: vat_bound)

text \<open>The test of the binary search: the suffix of rank \<open>i\<close> ends before \<open>offset\<close> or is smaller there.\<close>

definition rank_below :: "suffix_array \<Rightarrow> int \<Rightarrow> int \<Rightarrow> int \<Rightarrow> bool" where
  "rank_below s word_id offset i = (\<exists>p. GetSuffix s i = Some p \<and>
     (case drop (nat offset) (suffix_at (sa_data s) p) of [] \<Rightarrow> True | x # _ \<Rightarrow> x < word_id))"

lemma drop_suffix_at: "0 \<le> p \<Longrightarrow> 0 \<le> k \<Longrightarrow> drop (nat k) (suffix_at d p) = suffix_at d (p + k)"
  by (simp add: suffix_at_def nat_add_distrib add.commute)

lemma suffix_at_cases:
  assumes "0 \<le> p"
  shows "suffix_at d p = (if GetSize d \<le> p then [] else the (AtIndex d p) # suffix_at d (p + 1))"
    and "p < GetSize d \<Longrightarrow> AtIndex d p = Some (the (AtIndex d p))"
proof -
  have "drop (nat p) (da_data d) = da_data d ! nat p # drop (nat (p + 1)) (da_data d)" if "p < GetSize d"
    using that assms Cons_nth_drop_Suc [of "nat p" "da_data d"]
    by (simp add: GetSize_def nat_add_distrib vsize_def nat_less_iff)
  then show "suffix_at d p = (if GetSize d \<le> p then [] else the (AtIndex d p) # suffix_at d (p + 1))"
    using assms by (auto simp: suffix_at_def AtIndex_def GetSize_def vsize_def vat_eq)
  show "p < GetSize d \<Longrightarrow> AtIndex d p = Some (the (AtIndex d p))"
    using assms by (simp add: AtIndex_def GetSize_def vsize_def vat_eq)
qed

lemma rank_below_eq:
  assumes "GetSuffix s i = Some p" "0 \<le> p" "0 \<le> offset"
  shows "(if GetSize (sa_data s) \<le> p + offset then Some True
      else do { a \<leftarrow> AtIndex (sa_data s) (p + offset); Some (a < w) }) = Some (rank_below s w offset i)"
  using suffix_at_cases [of "p + offset" "sa_data s"] assms
  by (cases "GetSize (sa_data s) \<le> p + offset"; cases "AtIndex (sa_data s) (p + offset)")
    (auto simp: rank_below_def drop_suffix_at)

lemma range_start_loop_eq:
  assumes "suffix_sorted s" "0 \<le> offset" "0 \<le> low" "low \<le> high" "high \<le> SuffixArraySize s"
    and "\<And>i j. low \<le> i \<Longrightarrow> i \<le> j \<Longrightarrow> j < high \<Longrightarrow> rank_below s w offset j \<Longrightarrow> rank_below s w offset i"
  shows "\<exists>r. range_start_loop s low high w offset high = Some r \<and> low \<le> r \<and> r \<le> high \<and>
    (\<forall>i. low \<le> i \<longrightarrow> i < high \<longrightarrow> (rank_below s w offset i \<longleftrightarrow> i < r))"
  using assms(3-)
proof (induction "nat (high - low)" arbitrary: low high rule: less_induct)
  case less
  show ?case
  proof (cases "low < high")
    case False
    then show ?thesis using less.prems by (subst range_start_loop.simps) auto
  next
    case True
    define m where "m = low + (high - low) div 2"
    have m: "low \<le> m" "m < high" using True by (auto simp: m_def)
    obtain p where p: "GetSuffix s m = Some p"
      using m less.prems by (auto simp: GetSuffix_def SuffixArraySize_def vat_eq vsize_def)
    note test = rank_below_eq [OF p _ assms(2), of w]
    have p0: "0 \<le> p" using suffix_sortedD(2) [OF assms(1) p] by simp
    have step: "range_start_loop s low high w offset high =
        (if rank_below s w offset m then range_start_loop s (m + 1) high w offset high
         else range_start_loop s low m w offset m)"
      using True p test [OF p0] by (subst range_start_loop.simps) (simp add: Let_def GetSuffix_def flip: m_def)
    show ?thesis
    proof (cases "rank_below s w offset m")
      case below: True
      have "nat (high - (m + 1)) < nat (high - low)" using m by simp
      from less.hyps [OF this, of] obtain r where r: "range_start_loop s (m + 1) high w offset high = Some r"
        "m + 1 \<le> r" "r \<le> high" "\<forall>i. m + 1 \<le> i \<longrightarrow> i < high \<longrightarrow> (rank_below s w offset i \<longleftrightarrow> i < r)"
        using less.prems m by auto
      have "rank_below s w offset i \<longleftrightarrow> i < r" if "low \<le> i" "i < high" for i
        using r(2,4) that below less.prems(4) [of i m] m by (cases "i \<le> m") auto
      then show ?thesis using r m below by (auto simp: step)
    next
      case above: False
      have "nat (m - low) < nat (high - low)" using m by simp
      from less.hyps [OF this] obtain r where r: "range_start_loop s low m w offset m = Some r"
        "low \<le> r" "r \<le> m" "\<forall>i. low \<le> i \<longrightarrow> i < m \<longrightarrow> (rank_below s w offset i \<longleftrightarrow> i < r)"
        using less.prems m by auto
      have "rank_below s w offset i \<longleftrightarrow> i < r" if "low \<le> i" "i < high" for i
        using r(3,4) that above less.prems(4) [of m i] m by (cases "m \<le> i") auto
      then show ?thesis using r m above by (auto simp: step)
    qed
  qed
qed

lemma rank_below_mono:
  assumes s: "suffix_sorted s" "covers_ids s low high ids"
    and ij: "low \<le> i" "i \<le> j" "j < high" "rank_below s w (vsize ids) j"
  shows "rank_below s w (vsize ids) i"
proof (cases "i = j")
  case True
  then show ?thesis using ij(4) by simp
next
  case False
  have "0 \<le> i" "j < SuffixArraySize s" using s(2) ij by (auto simp: covers_ids_def)
  then obtain p q where pq: "GetSuffix s i = Some p" "GetSuffix s j = Some q"
    using ij by (auto simp: GetSuffix_def SuffixArraySize_def vat_eq vsize_def)
  then have "starts_at (sa_data s) p ids" "starts_at (sa_data s) q ids"
    using s(2) ij unfolding covers_ids_def by force+
  then obtain a b where ab: "suffix_at (sa_data s) p = ids @ a" "suffix_at (sa_data s) q = ids @ b"
    unfolding starts_at_def by (metis append_take_drop_id)
  have "vec_less a b"
    using suffix_sortedD(3) [OF s(1) pq] False ij(2) ab by simp
  then show ?thesis
    using ij(4) pq ab unfolding rank_below_def
    by (cases a; cases b) (auto simp: vsize_def)
qed

lemma starts_at_snoc:
  "starts_at d p (ids @ [w]) \<longleftrightarrow> starts_at d p ids \<and>
     (case drop (length ids) (suffix_at d p) of [] \<Rightarrow> False | x # _ \<Rightarrow> x = w)"
proof -
  have "take (length (ids @ [w])) xs = ids @ [w] \<longleftrightarrow> take (length ids) xs = ids \<and>
      (case drop (length ids) xs of [] \<Rightarrow> False | x # _ \<Rightarrow> x = w)" for xs
  proof (cases "drop (length ids) xs")
    case Nil
    then have "take (length (ids @ [w])) xs = xs" "length xs \<le> length ids" by simp_all
    then show ?thesis using Nil by auto
  next
    case (Cons x r)
    then have "length ids < length xs" by (metis drop_eq_Nil2 list.distinct(1) not_le)
    then show ?thesis using Cons take_add [of "length ids" 1 xs] by auto
  qed
  then show ?thesis by (simp add: starts_at_def)
qed

lemma LookupRangeStart_covers:
  assumes s: "suffix_sorted s" "covers_ids s low high ids"
  shows "\<exists>a b. LookupRangeStart s low high w (vsize ids) = Some a \<and>
    LookupRangeStart s low high (w + 1) (vsize ids) = Some b \<and> covers_ids s a b (ids @ [w])"
proof -
  have bnd: "0 \<le> low" "low \<le> high" "high \<le> SuffixArraySize s" using s(2) by (auto simp: covers_ids_def)
  have run: "\<exists>r. range_start_loop s low high w (vsize ids) high = Some r \<and> low \<le> r \<and> r \<le> high \<and>
    (\<forall>i. low \<le> i \<longrightarrow> i < high \<longrightarrow> (rank_below s w (vsize ids) i \<longleftrightarrow> i < r))" for w
    by (rule range_start_loop_eq [OF s(1) vsize_simps(4) bnd]) (rule rank_below_mono [OF s])
  obtain a where a: "LookupRangeStart s low high w (vsize ids) = Some a" "low \<le> a" "a \<le> high"
    "\<And>i. low \<le> i \<Longrightarrow> i < high \<Longrightarrow> rank_below s w (vsize ids) i \<longleftrightarrow> i < a"
    using run [of w] unfolding LookupRangeStart_def by blast
  obtain b where b: "LookupRangeStart s low high (w + 1) (vsize ids) = Some b" "low \<le> b" "b \<le> high"
    "\<And>i. low \<le> i \<Longrightarrow> i < high \<Longrightarrow> rank_below s (w + 1) (vsize ids) i \<longleftrightarrow> i < b"
    using run [of "w + 1"] unfolding LookupRangeStart_def by blast
  have "rank_below s w k i \<Longrightarrow> rank_below s (w + 1) k i" for k i
    by (auto simp: rank_below_def split: list.splits)
  then have ab: "a \<le> b"
    using a(2-4) b(2-4) by (metis linorder_not_less order_less_le_trans order_refl less_le_not_le)
  have "a \<le> i \<and> i < b \<longleftrightarrow> starts_at (sa_data s) p (ids @ [w])" if p: "GetSuffix s i = Some p" for i p
  proof (cases "low \<le> i \<and> i < high")
    case True
    then have "starts_at (sa_data s) p ids" using s(2) p by (auto simp: covers_ids_def)
    then have "starts_at (sa_data s) p (ids @ [w]) \<longleftrightarrow>
        \<not> rank_below s w (vsize ids) i \<and> rank_below s (w + 1) (vsize ids) i"
      using p by (auto simp: starts_at_snoc rank_below_def vsize_def split: list.splits)
    then show ?thesis using True a(4) b(4) by auto
  next
    case False
    then have "\<not> starts_at (sa_data s) p ids" using s(2) p by (auto simp: covers_ids_def)
    then show ?thesis using False a(2,3) b(2,3) by (auto simp: starts_at_snoc)
  qed
  then show ?thesis using a(1-3) b(1-3) ab bnd by (auto simp: covers_ids_def)
qed

text \<open>The first word: the buckets of the initial sort.\<close>

lemma sorted_prefix: "sorted xs \<Longrightarrow> n < length xs \<Longrightarrow> xs ! n < w \<longleftrightarrow> n < length (filter (\<lambda>x. x < w) xs)"
proof (induction xs arbitrary: n)
  case Nil
  then show ?case by simp
next
  case (Cons x xs)
  have "filter (\<lambda>x. x < w) xs = []" if "\<not> x < w"
    using Cons.prems(1) that by (auto simp: filter_empty_conv)
  then show ?case using Cons by (cases n) auto
qed

definition word_starts_ok :: "suffix_array \<Rightarrow> bool" where
  "word_starts_ok s = (\<forall>w. 0 \<le> w \<longrightarrow> w \<le> GetVocabularySize (sa_data s) \<longrightarrow>
     vat (sa_word_start s) w = Some (below (da_data (sa_data s) @ [NULL_WORD]) w))"

lemma first_word_ranks:
  assumes s: "suffix_sorted s" and d: "sortable (sa_data s)" and i: "GetSuffix s i = Some p"
  defines "D \<equiv> da_data (sa_data s) @ [NULL_WORD]"
  shows "D ! nat p < w \<longleftrightarrow> i < below D w"
proof -
  let ?key = "\<lambda>p. D ! nat p"
  let ?K = "map ?key (sa_array s)"
  have D_len: "vsize D = GetSize (sa_data s) + 1" by (simp add: D_def GetSize_def)
  have pos: "\<forall>x \<in> set (da_data (sa_data s)). 0 < x" using d by (auto simp: sortable_def NULL_WORD_def)
  have "mset ?K = image_mset ?key (mset (sa_array s))" by simp
  also have "\<dots> = image_mset ?key (mset (int_range 0 (vsize D)))"
    using s D_len by (simp add: suffix_sorted_def)
  also have "\<dots> = mset (map ?key (int_range 0 (vsize D)))" by simp
  also have "map ?key (int_range 0 (vsize D)) = D"
    by (rule nth_equalityI) (simp_all add: vsize_def)
  finally have K: "mset ?K = mset D" .
  have key: "?key p = (case suffix_at (sa_data s) p of [] \<Rightarrow> 0 | x # _ \<Rightarrow> x)"
    if "0 \<le> p" "p \<le> GetSize (sa_data s)" for p
  proof (cases "p = GetSize (sa_data s)")
    case True
    then show ?thesis by (simp add: D_def suffix_at_def GetSize_def vsize_def NULL_WORD_def)
  next
    case False
    then have "p < GetSize (sa_data s)" using that by simp
    then show ?thesis
      using suffix_at_cases [OF that(1), of "sa_data s"] that(1)
      by (auto simp: D_def AtIndex_def vat_def GetSize_def vsize_def nth_append)
  qed
  have "sorted ?K"
    unfolding sorted_wrt_iff_nth_less
  proof (intro allI impI)
    fix m n assume mn: "m < n" "n < length ?K"
    then have g: "GetSuffix s (int m) = Some (sa_array s ! m)" "GetSuffix s (int n) = Some (sa_array s ! n)"
      by (simp_all add: GetSuffix_def)
    have "vec_less (suffix_at (sa_data s) (sa_array s ! m)) (suffix_at (sa_data s) (sa_array s ! n))"
      using suffix_sortedD(3) [OF s g] mn by simp
    moreover have "\<forall>x \<in> set (suffix_at (sa_data s) q). 0 < x" for q
      using pos set_drop_subset [of "nat q" "da_data (sa_data s)"] unfolding suffix_at_def by blast
    ultimately have "(case suffix_at (sa_data s) (sa_array s ! m) of [] \<Rightarrow> 0 | x # _ \<Rightarrow> x) \<le>
        (case suffix_at (sa_data s) (sa_array s ! n) of [] \<Rightarrow> 0 | x # _ \<Rightarrow> x)"
      by (cases "suffix_at (sa_data s) (sa_array s ! m)"; cases "suffix_at (sa_data s) (sa_array s ! n)")
        (auto, metis list.set_intros(1) order_less_imp_le)
    then show "?K ! m \<le> ?K ! n"
      using key suffix_sortedD(2) [OF s g(1)] suffix_sortedD(2) [OF s g(2)] mn by simp
  qed
  moreover have n: "nat i < length ?K" "p = sa_array s ! nat i" "0 \<le> i"
    using i by (auto simp: GetSuffix_def vat_Some_iff)
  ultimately have "?K ! nat i < w \<longleftrightarrow> nat i < length (filter (\<lambda>x. x < w) ?K)"
    by (intro sorted_prefix)
  moreover have "int (length (filter (\<lambda>x. x < w) ?K)) = below D w"
  proof -
    have "size (filter_mset (\<lambda>x. x < w) (mset ?K)) = size (filter_mset (\<lambda>x. x < w) (mset D))"
      by (simp only: K)
    then show ?thesis by (simp only: below_def vsize_def size_mset flip: mset_filter)
  qed
  ultimately show ?thesis using n by (auto simp: nat_less_iff)
qed

section \<open>Looking up a phrase word by word\<close>

text \<open>
  The interface of a phrase index: a location that stands for a word sequence is extended by
  one word. What \<open>RuleFactory\<close> relies on when it grows phrases from left to right.
\<close>

locale phrase_index =
  fixes extend :: "'s \<Rightarrow> 'r \<Rightarrow> string \<Rightarrow> int \<Rightarrow> 'r option"
    and located :: "'s \<Rightarrow> 'r \<Rightarrow> string list \<Rightarrow> bool"
    and indexed :: "'s \<Rightarrow> bool"
    and plain :: "string \<Rightarrow> bool"
    and whole :: 'r
  assumes whole_located: "indexed s \<Longrightarrow> located s whole []"
    and extend_located: "indexed s \<Longrightarrow> located s r ws \<Longrightarrow> plain w \<Longrightarrow>
      \<exists>r'. extend s r w (vsize ws) = Some r' \<and> located s r' (ws @ [w])"
begin

lemma extend_all_located:
  assumes "indexed s" "located s r ws" "\<forall>v \<in> set vs. plain v"
    and "run [] = (\<lambda>r k. Some r)" "\<And>v vs. run (v # vs) = (\<lambda>r k. do { r' \<leftarrow> extend s r v k; run vs r' (k + 1) })"
  shows "\<exists>r'. run vs r (vsize ws) = Some r' \<and> located s r' (ws @ vs)"
  using assms(2,3)
proof (induction vs arbitrary: r ws)
  case Nil
  then show ?case by (simp add: assms(4))
next
  case (Cons v vs)
  have "plain v" using Cons.prems(2) by simp
  then obtain r' where r': "extend s r v (vsize ws) = Some r'" "located s r' (ws @ [v])"
    using extend_located [OF assms(1) Cons.prems(1)] by blast
  then show ?case
    using Cons.IH [OF r'(2)] Cons.prems(2) by (simp add: assms(5))
qed

end

definition indexed :: "suffix_array \<Rightarrow> bool" where
  "indexed s = (suffix_sorted s \<and> sortable (sa_data s) \<and> word_starts_ok s \<and> wf_words (sa_data s) \<and>
     GetWord (sa_data s) NULL_WORD = Some NULL_WORD_STR)"

definition located :: "suffix_array \<Rightarrow> phrase_location \<Rightarrow> string list \<Rightarrow> bool" where
  "located s loc ws =
     (let lo = (if pl_sa_low loc = -1 \<and> pl_sa_high loc = -1 then 0 else pl_sa_low loc);
          hi = (if pl_sa_low loc = -1 \<and> pl_sa_high loc = -1 then SuffixArraySize s else pl_sa_high loc)
      in covers_ids s lo hi (map (GetWordId (sa_data s)) ws) \<and> (ws \<noteq> [] \<longrightarrow> 0 \<le> pl_sa_low loc))"

lemma GetWordId_cases:
  assumes "wf_words d" "GetWord d NULL_WORD = Some NULL_WORD_STR" "w \<noteq> NULL_WORD_STR"
  obtains "GetWordId d w = -1" "\<And>i. GetWord d i \<noteq> Some w"
  | "0 < GetWordId d w" "GetWordId d w < GetVocabularySize d" "GetWord d (GetWordId d w) = Some w"
proof (cases "da_word2id d w")
  case None
  then have "GetWord d i \<noteq> Some w" for i
    using assms(1) numbering_index unfolding wf_words_def GetWord_def by fastforce
  then show ?thesis using that(1) None by (simp add: GetWordId_def)
next
  case (Some i)
  then have i: "GetWord d i = Some w"
    using assms(1) numbering_value unfolding wf_words_def GetWord_def by fastforce
  then have "i \<noteq> 0" using assms(2,3) by (auto simp: NULL_WORD_def)
  then have "0 < i \<and> i < GetVocabularySize d"
    using i vat_bound [of "da_id2word d" i w] by (auto simp: GetWord_def GetVocabularySize_def)
  then show ?thesis using that(2) i Some by (simp add: GetWordId_def)
qed

lemma starts_at_positive:
  assumes "sortable d" "starts_at d p ids" "x \<in> set ids"
  shows "0 < x"
proof -
  have "set (take (length ids) (drop (nat p) (da_data d))) \<subseteq> set (da_data d)"
    by (meson set_drop_subset set_take_subset subset_trans)
  then have "x \<in> set (da_data d)" using assms(2,3) unfolding starts_at_def suffix_at_def by auto
  then show ?thesis using assms(1) by (auto simp: sortable_def NULL_WORD_def)
qed

lemma Lookup_first_word:
  assumes s: "indexed s" and w: "0 < w" "w < GetVocabularySize (sa_data s)"
  shows "\<exists>a b. vat (sa_word_start s) w = Some a \<and> vat (sa_word_start s) (w + 1) = Some b \<and> covers_ids s a b [w]"
proof -
  let ?D = "da_data (sa_data s) @ [NULL_WORD]"
  have S: "suffix_sorted s" "sortable (sa_data s)" "word_starts_ok s" using s by (auto simp: indexed_def)
  have starts: "vat (sa_word_start s) w = Some (below ?D w)" "vat (sa_word_start s) (w + 1) = Some (below ?D (w + 1))"
    using S(3) w by (auto simp: word_starts_ok_def)
  have "below ?D w \<le> i \<and> i < below ?D (w + 1) \<longleftrightarrow> starts_at (sa_data s) p [w]" if p: "GetSuffix s i = Some p" for i p
  proof -
    have "below ?D w \<le> i \<and> i < below ?D (w + 1) \<longleftrightarrow> ?D ! nat p = w"
      using first_word_ranks [OF S(1,2) p, of w] first_word_ranks [OF S(1,2) p, of "w + 1"] by auto
    also have "\<dots> \<longleftrightarrow> starts_at (sa_data s) p [w]"
    proof (cases "p = GetSize (sa_data s)")
      case True
      then show ?thesis
        using w by (simp add: starts_at_def suffix_at_def GetSize_def vsize_def NULL_WORD_def)
    next
      case False
      then have "nat p < length (da_data (sa_data s))"
        using suffix_sortedD(2) [OF S(1) p] by (simp add: GetSize_def vsize_def nat_less_iff)
      then show ?thesis
        by (simp add: starts_at_def suffix_at_def nth_append take_Suc_conv_app_nth)
    qed
    finally show ?thesis .
  qed
  moreover have "0 \<le> below ?D w" "below ?D w \<le> below ?D (w + 1)" "below ?D (w + 1) \<le> SuffixArraySize s"
    using below_bounds [of ?D] below_mono [of w "w + 1" ?D] suffix_sortedD(1) [OF S(1)]
    by (simp_all add: GetSize_def)
  ultimately show ?thesis using starts by (simp add: covers_ids_def)
qed

lemma Find_located:
  assumes s: "indexed s" and loc: "located s loc ws" and w: "w \<noteq> NULL_WORD_STR"
  shows "\<exists>loc'. map_option fst (Find s loc w (vsize ws)) = Some loc' \<and> located s loc' (ws @ [w])"
proof -
  let ?d = "sa_data s" and ?ids = "map (GetWordId (sa_data s)) ws"
  define lo where "lo = (if pl_sa_low loc = -1 \<and> pl_sa_high loc = -1 then 0 else pl_sa_low loc)"
  define hi where "hi = (if pl_sa_low loc = -1 \<and> pl_sa_high loc = -1 then SuffixArraySize s else pl_sa_high loc)"
  have cov: "covers_ids s lo hi ?ids" using loc by (simp add: located_def lo_def hi_def Let_def)
  have S: "suffix_sorted s" "sortable ?d" using s by (auto simp: indexed_def)
  have find: "map_option fst (Find s loc w (vsize ws)) = Lookup s lo hi w (vsize ws)"
    by (cases "Lookup s lo hi w (vsize ws)") (auto simp: Find_def lo_def hi_def Let_def)
  have done_range: "located s (PhraseLocation_range a b) (ws @ [w])" if "covers_ids s a b (?ids @ [GetWordId ?d w])" for a b
    using that by (auto simp: located_def PhraseLocation_range_def covers_ids_def)
  have "\<exists>a b. Lookup s lo hi w (vsize ws) = Some (PhraseLocation_range a b) \<and>
      covers_ids s a b (?ids @ [GetWordId ?d w])"
  proof (rule GetWordId_cases [of ?d w])
    assume new: "GetWordId ?d w = -1"
    then have "\<not> starts_at ?d p (?ids @ [GetWordId ?d w])" for p
      using starts_at_positive [OF S(2), of p "?ids @ [GetWordId ?d w]" "- 1"] by auto
    then have "covers_ids s 0 0 (?ids @ [GetWordId ?d w])"
      by (auto simp: covers_ids_def SuffixArraySize_def)
    then show ?thesis using new by (auto simp: Lookup_def Let_def)
  next
    assume known: "0 < GetWordId ?d w" "GetWordId ?d w < GetVocabularySize ?d"
    show ?thesis
    proof (cases "ws = []")
      case True
      obtain a b where ab: "vat (sa_word_start s) (GetWordId ?d w) = Some a"
        "vat (sa_word_start s) (GetWordId ?d w + 1) = Some b" "covers_ids s a b [GetWordId ?d w]"
        using Lookup_first_word [OF s known] by blast
      then have "Lookup s lo hi w (vsize ws) = Some (PhraseLocation_range a b)"
        using True known by (simp add: Lookup_def Let_def)
      then show ?thesis using ab(3) True by auto
    next
      case False
      then show ?thesis
        using LookupRangeStart_covers [OF S(1) cov, of "GetWordId ?d w"] known
        by (fastforce simp: Lookup_def Let_def)
    qed
  qed (use s w in \<open>auto simp: indexed_def\<close>)
  then show ?thesis using find done_range by auto
qed

interpretation idx: phrase_index "\<lambda>s loc w k. map_option fst (Find s loc w k)" located indexed
  "\<lambda>w. w \<noteq> NULL_WORD_STR" "PhraseLocation_range (- 1) (- 1)"
  by unfold_locales (use covers_all Find_located in \<open>auto simp: located_def PhraseLocation_range_def indexed_def\<close>)

text \<open>Looking up a whole phrase, one \<open>Find\<close> per word.\<close>

primrec find_words :: "suffix_array \<Rightarrow> string list \<Rightarrow> phrase_location \<Rightarrow> int \<Rightarrow> phrase_location option" where
  "find_words s [] loc k = Some loc"
| "find_words s (w # ws) loc k = do { r \<leftarrow> map_option fst (Find s loc w k); find_words s ws r (k + 1) }"

lemma starts_at_words:
  assumes "wf_words d" "GetWord d NULL_WORD = Some NULL_WORD_STR" "sortable d" "0 \<le> p"
    and "\<forall>w \<in> set ws. w \<noteq> NULL_WORD_STR" "ws \<noteq> []"
  shows "starts_at d p (map (GetWordId d) ws) \<longleftrightarrow> GetWords d p (vsize ws) = Some ws"
proof
  assume st: "starts_at d p (map (GetWordId d) ws)"
  let ?ids = "map (GetWordId d) ws"
  have ids: "take (length ws) (drop (nat p) (da_data d)) = ?ids"
    using st by (simp add: starts_at_def suffix_at_def)
  have "GetWord d (GetWordId d w) = Some w" if "w \<in> set ws" for w
  proof -
    have "0 < GetWordId d w" using starts_at_positive [OF assms(3) st, of "GetWordId d w"] that by simp
    moreover have "w \<noteq> NULL_WORD_STR" using that assms(5) by blast
    ultimately show ?thesis by (cases rule: GetWordId_cases [OF assms(1,2)]) simp_all
  qed
  then have "map (vat (da_id2word d)) ?ids = map Some ws" by (simp add: GetWord_def)
  moreover have "int (nat p + length ws) \<le> vsize (da_data d)"
  proof -
    have "min (length (da_data d) - nat p) (length ws) = length ws" "0 < length ws"
      using arg_cong [OF ids, of length] assms(6) by simp_all
    then show ?thesis unfolding vsize_def by linarith
  qed
  ultimately show "GetWords d p (vsize ws) = Some ws"
    using ids assms(4) collect_words [of "da_id2word d" ?ids ws "[]"]
    by (simp add: GetWords_def GetWordIds_def vslice_def vsize_def GetWord_def [abs_def])
next
  assume w: "GetWords d p (vsize ws) = Some ws"
  then obtain ids where ids: "vslice (da_data d) p (vsize ws) = Some ids"
    "for_each ids (\<lambda>w out. do { v \<leftarrow> GetWord d w; Some (out @ [v]) }) [] = Some ws"
    by (auto simp: GetWords_def GetWordIds_def GetWord_def bind_Some_iff)
  have "map (GetWord d) ids = map Some ws" if
    "for_each ids (\<lambda>w out. do { v \<leftarrow> GetWord d w; Some (out @ [v]) }) out = Some (out @ ws)" for out ws
    using that
  proof (induction ids arbitrary: out ws)
    case (Cons i ids)
    then obtain v where v: "GetWord d i = Some v"
      "for_each ids (\<lambda>w out. do { v \<leftarrow> GetWord d w; Some (out @ [v]) }) (out @ [v]) = Some (out @ ws)"
      by (auto simp: bind_Some_iff)
    have "\<exists>zs. t = s @ zs" if "for_each ids (\<lambda>w out. do { v \<leftarrow> GetWord d w; Some (out @ [v]) }) s = Some t" for s t
      by (rule for_each_keeps [OF that, where P = "\<lambda>t. \<exists>zs. t = s @ zs"]) (auto simp: bind_Some_iff)
    from this [OF v(2)] obtain zs where zs: "out @ ws = (out @ [v]) @ zs" by blast
    then show ?case using Cons.IH [of "out @ [v]" zs] v by simp
  qed simp
  from this [of "[]" ws] ids(2) have gw: "map (GetWord d) ids = map Some ws" by simp
  have id: "GetWordId d v = i" if "GetWord d i = Some v" for i v
    using that numbering_index assms(1) by (fastforce simp: GetWord_def GetWordId_def wf_words_def)
  then have "map (GetWordId d) ws = ids"
    using gw
  proof (induction ids arbitrary: ws)
    case (Cons i ids)
    then show ?case by (cases ws) (auto simp: id)
  qed simp
  then show "starts_at d p (map (GetWordId d) ws)"
    using ids(1) by (auto simp: vslice_Some_iff starts_at_def suffix_at_def vsize_def)
qed

lemma indexed_file:
  assumes "\<forall>line \<in> set lines. NULL_WORD_STR \<notin> set (words_of line)"
  shows "\<exists>s. BuildSuffixArray rnd (DataArray_of_file lines) = Some s \<and> sa_data s = DataArray_of_file lines \<and> indexed s"
proof -
  let ?d = "DataArray_of_file lines"
  note sort = sortable_file [OF assms]
  obtain s where s: "BuildSuffixArray rnd ?d = Some s" "sa_data s = ?d" "word_starts_ok s"
    using BuildSuffixArray_sorts [OF sort, of rnd] by (auto simp: word_starts_ok_def)
  moreover have "suffix_sorted s"
    using BuildSuffixArray_suffix_sorted [OF sort s(1)] .
  moreover have "GetWord ?d NULL_WORD = Some NULL_WORD_STR"
  proof -
    have "GetWord InitializeDataArray NULL_WORD = Some NULL_WORD_STR"
      by (simp add: InitializeDataArray_def GetWord_def NULL_WORD_def)
    then have "GetWord (add_lines 0 lines InitializeDataArray) NULL_WORD = Some NULL_WORD_STR"
      using add_lines_grows [OF wf_words_init] by (simp add: grows_def)
    then show ?thesis by (simp add: DataArray_of_file_def CreateDataArray_def Let_def GetWord_def)
  qed
  ultimately show ?thesis using sort wf_words_file unfolding indexed_def by auto
qed

text \<open>
  C1. Construction and lookup together: for a corpus file without the reserved word, building
  the suffix array succeeds for every behaviour of \<open>rand()\<close>, and looking up any non-empty phrase
  one word at a time succeeds and returns the range of exactly those ranks whose suffix starts
  with the phrase.
\<close>

theorem find_words_exact:
  assumes "\<forall>line \<in> set lines. NULL_WORD_STR \<notin> set (words_of line)"
    and "\<forall>w \<in> set ws. w \<noteq> NULL_WORD_STR" "ws \<noteq> []"
  shows "\<exists>s. BuildSuffixArray rnd (DataArray_of_file lines) = Some s \<and>
    (\<exists>loc. find_words s ws (PhraseLocation_range (- 1) (- 1)) 0 = Some loc \<and>
      (\<forall>rank p. GetSuffix s rank = Some p \<longrightarrow>
        (pl_sa_low loc \<le> rank \<and> rank < pl_sa_high loc \<longleftrightarrow>
         GetWords (DataArray_of_file lines) p (vsize ws) = Some ws)))"
proof -
  let ?d = "DataArray_of_file lines"
  obtain s where s: "BuildSuffixArray rnd ?d = Some s" "sa_data s = ?d" "indexed s"
    using indexed_file [OF assms(1)] by blast
  have step: "find_words s [] = (\<lambda>r k. Some r)" "\<And>v vs. find_words s (v # vs) =
      (\<lambda>r k. do { r' \<leftarrow> map_option fst (Find s r v k); find_words s vs r' (k + 1) })"
    by (auto simp: fun_eq_iff)
  obtain loc where loc: "find_words s ws (PhraseLocation_range (- 1) (- 1)) 0 = Some loc" "located s loc ws"
    using idx.extend_all_located [OF s(3) idx.whole_located [OF s(3)] assms(2), where run = "find_words s"] step
    by auto
  have d: "wf_words ?d" "GetWord ?d NULL_WORD = Some NULL_WORD_STR" "sortable ?d" "suffix_sorted s"
    using s(2,3) by (auto simp: indexed_def)
  have "pl_sa_low loc \<le> rank \<and> rank < pl_sa_high loc \<longleftrightarrow> GetWords ?d p (vsize ws) = Some ws"
    if p: "GetSuffix s rank = Some p" for rank p
  proof -
    have "0 \<le> p" using suffix_sortedD(2) [OF d(4) p] by simp
    then have "GetWords ?d p (vsize ws) = Some ws \<longleftrightarrow> starts_at ?d p (map (GetWordId ?d) ws)"
      using starts_at_words [OF d(1,2,3) _ assms(2,3)] by blast
    moreover have "0 \<le> pl_sa_low loc" using loc(2) assms(3) by (simp add: located_def Let_def)
    ultimately show ?thesis
      using loc(2) p s(2) by (simp add: located_def covers_ids_def Let_def)
  qed
  with s(1) loc(1) show ?thesis by blast
qed

lemma find_words_exact_witness:
  "\<exists>s loc. BuildSuffixArray (\<lambda>_. 0) (DataArray_of_file [''a b'', ''b a b'']) = Some s \<and>
     find_words s [''a'', ''b''] (PhraseLocation_range (- 1) (- 1)) 0 = Some loc"
proof -
  have "\<forall>line \<in> set [''a b'', ''b a b'']. NULL_WORD_STR \<notin> set (words_of line)"
    "\<forall>w \<in> set [''a'', ''b'']. w \<noteq> NULL_WORD_STR" "[''a'', ''b''] \<noteq> []"
    by code_simp+
  with find_words_exact [OF this, of "\<lambda>_. 0"] show ?thesis by blast
qed

text \<open>
  C2. \<open>BuildSuffixArray\<close> returns for every behaviour of \<open>rand()\<close>, and its array holds every
  position of the corpus and the one past its end exactly once, ordered by the suffixes that
  start there.
\<close>

theorem BuildSuffixArray_sorted:
  assumes "\<forall>x \<in> set (da_data d). NULL_WORD < x \<and> x < GetVocabularySize d" "0 < GetVocabularySize d"
  shows "\<exists>s. BuildSuffixArray rnd d = Some s \<and> sa_data s = d \<and>
    mset (sa_array s) = mset (int_range 0 (GetSize d + 1)) \<and>
    sorted_wrt (\<lambda>p q. vec_less (drop (nat p) (da_data d)) (drop (nat q) (da_data d))) (sa_array s)"
  using BuildSuffixArray_result [of d rnd] assms
  unfolding sortable_def suffix_sorted_def suffix_at_def by metis

lemma BuildSuffixArray_sorted_witness:
  "\<exists>s. BuildSuffixArray (\<lambda>_. 0) (DataArray_of_file [''a b a'']) = Some s \<and> mset (sa_array s) = mset (int_range 0 5)"
proof -
  have "\<forall>x \<in> set (da_data (DataArray_of_file [''a b a''])). NULL_WORD < x \<and> x < GetVocabularySize (DataArray_of_file [''a b a''])"
    "0 < GetVocabularySize (DataArray_of_file [''a b a''])"
    by code_simp+
  moreover have "GetSize (DataArray_of_file [''a b a'']) + 1 = 5" by code_simp
  ultimately show ?thesis
    using BuildSuffixArray_sorted [of "DataArray_of_file [''a b a'']" "\<lambda>_. 0"] by auto
qed

text \<open>
   A corpus line that holds the reserved word \<open>__NULL__\<close> breaks the construction: the
  sentinel is no longer unique, and the sort reads the groups past their end, for every
  behaviour of \<open>rand()\<close>.
\<close>

theorem BuildSuffixArray_reserved_word:
  "BuildSuffixArray rnd (DataArray_of_file [NULL_WORD_STR]) = None"
proof -
  let ?d = "DataArray_of_file [NULL_WORD_STR]"
  have d: "da_data ?d = [0, 1]" "GetVocabularySize ?d = 2" by code_simp+
  have init: "InitialBucketSort [0, 0, 0] [0, 1, 0] [0, 0, 0] = Some ([2, 0, 1], [1, 2, 1], [0, 2, 3])"
    "combine_singletons [0, 2, 3] [2, 0, 1] = Some ([2, 0, - 1], 1)"
    by code_simp+
  have range: "int_range 1 2 = [1]" by code_simp
  have "TernaryQuicksort rnd 0 1 1 ([2, 0, - 1], [1, 2, 1], 0) = None"
  proof -
    have "int (rnd 0) mod 2 = 0 \<or> int (rnd 0) mod 2 = 1" by presburger
    then show ?thesis
      by (subst TernaryQuicksort.simps) (auto simp: vat_def vset_def range partition_step_def)
  qed
  then have "doubling_round rnd 1 0 0 ([2, 0, - 1], [1, 2, 1], 0) = None"
    by (subst doubling_round.simps) (simp add: vat_def)
  then have "PrefixDoublingSort rnd 1 ([2, 0, - 1], [1, 2, 1], 0) = None"
    by (subst PrefixDoublingSort.simps) (simp add: vat_def)
  then show ?thesis
    using init by (simp add: BuildSuffixArray_def Let_def d NULL_WORD_def numeral_3_eq_3)
qed

end
