(* ===== verification/SuffixLcp.thy ===== *)
theory SuffixLcp
  imports SuffixLookup
begin

text \<open>The longest-common-prefix array of \<open>BuildLCPArray\<close> (Kasai et al.).\<close>

fun common_prefix :: "int list \<Rightarrow> int list \<Rightarrow> nat" where
  "common_prefix (x # xs) (y # ys) = (if x = y then Suc (common_prefix xs ys) else 0)"
| "common_prefix xs ys = 0"

lemma common_prefix_sym: "common_prefix xs ys = common_prefix ys xs"
  by (induction xs ys rule: common_prefix.induct) auto

lemma common_prefix_Nil [simp]: "common_prefix [] ys = 0" "common_prefix xs [] = 0"
  by (cases ys; cases xs; simp)+

lemma common_prefix_next:
  "k \<le> common_prefix xs ys \<Longrightarrow>
   k < common_prefix xs ys \<longleftrightarrow> k < length xs \<and> k < length ys \<and> xs ! k = ys ! k"
proof (induction xs ys arbitrary: k rule: common_prefix.induct)
  case (1 x xs y ys)
  show ?case
  proof (cases k)
    case 0
    then show ?thesis by simp
  next
    case (Suc m)
    then have xy: "x = y" "m \<le> common_prefix xs ys" using 1(2) by (simp_all split: if_splits)
    show ?thesis using 1(1) [OF xy] xy(1) Suc by simp
  qed
qed auto

lemma common_prefix_between:
  "vec_less xs ys \<or> xs = ys \<Longrightarrow> vec_less ys zs \<Longrightarrow> common_prefix xs zs \<le> common_prefix ys zs"
proof (induction xs zs arbitrary: ys rule: common_prefix.induct)
  case (1 x xs z zs)
  then show ?case by (cases ys) auto
qed auto

lemma drop_nth: "m < length xs - n \<Longrightarrow> drop n xs ! m = xs ! (n + m)"
  by simp

lemma extend_prefix_eq:
  assumes "0 \<le> i" "0 \<le> j" "0 \<le> k"
    and "nat k \<le> common_prefix (drop (nat i) xs) (drop (nat j) xs)"
  shows "extend_prefix xs i j k = Some (int (common_prefix (drop (nat i) xs) (drop (nat j) xs)))"
  using assms(3,4)
proof (induction "common_prefix (drop (nat i) xs) (drop (nat j) xs) - nat k" arbitrary: k)
  case (0 k)
  let ?c = "common_prefix (drop (nat i) xs) (drop (nat j) xs)"
  have "nat k = ?c" using 0 by simp
  then have "\<not> (nat k < length xs - nat i \<and> nat k < length xs - nat j \<and> xs ! (nat i + nat k) = xs ! (nat j + nat k))"
    using common_prefix_next [OF 0(3)] by (auto simp: drop_nth)
  then have "\<not> (i + k < vsize xs \<and> j + k < vsize xs \<and> xs ! nat (i + k) = xs ! nat (j + k))"
    using assms(1,2) 0(2) by (auto simp: vsize_def nat_add_distrib)
  then show ?case
    using \<open>nat k = ?c\<close> assms(1,2) 0(2) by (subst extend_prefix.simps) (auto simp: vat_ix)
next
  case (Suc n k)
  let ?c = "common_prefix (drop (nat i) xs) (drop (nat j) xs)"
  have "nat k < ?c" using Suc(2) by simp
  then have "nat k < length xs - nat i \<and> nat k < length xs - nat j \<and> xs ! (nat i + nat k) = xs ! (nat j + nat k)"
    using common_prefix_next [OF Suc(4)] by (auto simp: drop_nth)
  then have "i + k < vsize xs \<and> j + k < vsize xs \<and> xs ! nat (i + k) = xs ! nat (j + k)"
    using assms(1,2) Suc(3) unfolding vsize_def nat_add_distrib [OF assms(1) Suc(3)] nat_add_distrib [OF assms(2) Suc(3)]
    by linarith
  then have step: "extend_prefix xs i j k = extend_prefix xs i j (k + 1)"
    using assms(1,2) Suc(3) by (subst extend_prefix.simps) (auto simp: vat_ix)
  have "nat (k + 1) = Suc (nat k)" using Suc(3) by simp
  then have "n = ?c - nat (k + 1)" "0 \<le> k + 1" "nat (k + 1) \<le> ?c" using Suc(2,3) by linarith+
  then show ?case unfolding step by (rule Suc(1))
qed

section \<open>Kasai's algorithm\<close>

lemma rank_unique:
  assumes "suffix_sorted s" "GetSuffix s i = Some p" "GetSuffix s j = Some p"
  shows "i = j"
proof (rule ccontr)
  assume "i \<noteq> j"
  then consider "i < j" | "j < i" by linarith
  then show False
    by cases (use suffix_sortedD(3) [OF assms(1,2,3)] suffix_sortedD(3) [OF assms(1,3,2)] in simp_all)
qed

definition rank_map :: "suffix_array \<Rightarrow> int list \<Rightarrow> bool" where
  "rank_map s rank = (vsize rank = SuffixArraySize s \<and>
    (\<forall>p. 0 \<le> p \<longrightarrow> p < SuffixArraySize s \<longrightarrow> GetSuffix s (ix rank p) = Some p))"

lemma rank_loop:
  assumes s: "suffix_sorted s"
  shows "\<exists>rank. for_each (positions (sa_array s)) (\<lambda>i rank. do { p \<leftarrow> vat (sa_array s) i; vset rank p i })
      (replicate (length (sa_array s)) 0) = Some rank \<and> rank_map s rank"
proof -
  let ?sa = "sa_array s" and ?n = "SuffixArraySize s"
  have at: "GetSuffix s i = Some (ix ?sa i)" if "0 \<le> i" "i < ?n" for i
    using that by (simp add: GetSuffix_def SuffixArraySize_def vat_ix)
  have range: "0 \<le> ix ?sa i \<and> ix ?sa i < ?n" if "0 \<le> i" "i < ?n" for i
    using suffix_sortedD(1) [OF s] suffix_sortedD(2) [OF s at [OF that]] by simp
  have less: "vec_less (suffix_at (sa_data s) (ix ?sa i)) (suffix_at (sa_data s) (ix ?sa j))"
    if "0 \<le> i" "i < j" "j < ?n" for i j
    using suffix_sortedD(3) [OF s at at] that by simp
  have inj: "inj_on (ix ?sa) {0..<?n}"
  proof (rule inj_onI, rule ccontr)
    fix i j assume ij: "i \<in> {0..<?n}" "j \<in> {0..<?n}" "ix ?sa i = ix ?sa j" "i \<noteq> j"
    then consider "i < j" | "j < i" by linarith
    then show False by cases (use less [of i j] less [of j i] ij in auto)
  qed
  have "vsize ?sa = ?n" "vsize (replicate (length ?sa) 0) = ?n" by (simp_all add: SuffixArraySize_def vsize_def)
  from finalize_loop [OF this range inj] obtain rank where r:
    "for_each (positions ?sa) (\<lambda>i rank. do { p \<leftarrow> vat ?sa i; vset rank p i }) (replicate (length ?sa) 0) = Some rank"
    "vsize rank = ?n" "\<forall>p. 0 \<le> p \<longrightarrow> p < ?n \<longrightarrow> ix rank (ix ?sa p) = p"
    by blast
  have surj: "ix ?sa ` {0..<?n} = {0..<?n}"
    using inj range by (intro endo_inj_surj) auto
  have "GetSuffix s (ix rank p) = Some p" if "0 \<le> p" "p < ?n" for p
  proof -
    have "p \<in> ix ?sa ` {0..<?n}" using that surj by simp
    then obtain i where i: "0 \<le> i" "i < ?n" "p = ix ?sa i" by auto
    then show ?thesis using r(3) at by simp
  qed
  then show ?thesis using r(1,2) by (auto simp: rank_map_def)
qed

lemma rank_mapD:
  assumes "suffix_sorted s" "rank_map s rank" "0 \<le> p" "p < SuffixArraySize s"
  shows "GetSuffix s (ix rank p) = Some p" and "0 \<le> ix rank p" and "ix rank p < SuffixArraySize s"
    and "0 < ix rank p \<Longrightarrow> \<exists>q. GetSuffix s (ix rank p - 1) = Some q \<and> 0 \<le> q \<and> q < SuffixArraySize s \<and>
      ix rank q = ix rank p - 1"
proof -
  show g: "GetSuffix s (ix rank p) = Some p" using assms by (simp add: rank_map_def)
  then show b: "0 \<le> ix rank p" "ix rank p < SuffixArraySize s"
    using vat_bound unfolding GetSuffix_def SuffixArraySize_def by fast+
  assume pos: "0 < ix rank p"
  then obtain q where q: "GetSuffix s (ix rank p - 1) = Some q"
    using b by (simp add: GetSuffix_def SuffixArraySize_def vat_ix)
  have qb: "0 \<le> q" "q < SuffixArraySize s"
    using suffix_sortedD(1) [OF assms(1)] suffix_sortedD(2) [OF assms(1) q] by simp_all
  then have "GetSuffix s (ix rank q) = Some q" using assms(2) by (simp add: rank_map_def)
  then have "ix rank q = ix rank p - 1"
    using rank_unique [OF assms(1) _ q] by blast
  then show "\<exists>q. GetSuffix s (ix rank p - 1) = Some q \<and> 0 \<le> q \<and> q < SuffixArraySize s \<and>
      ix rank q = ix rank p - 1"
    using q qb by blast
qed

lemma rank_less_iff:
  assumes "suffix_sorted s" "rank_map s rank" "0 \<le> p" "p < SuffixArraySize s" "0 \<le> q" "q < SuffixArraySize s"
  shows "vec_less (suffix_at (sa_data s) p) (suffix_at (sa_data s) q) \<longleftrightarrow> ix rank p < ix rank q"
proof -
  have p: "GetSuffix s (ix rank p) = Some p" "GetSuffix s (ix rank q) = Some q"
    using assms by (simp_all add: rank_map_def)
  consider "ix rank p < ix rank q" | "ix rank q < ix rank p" | "p = q"
    using p by (metis linorder_neqE option.inject)
  then show ?thesis
  proof cases
    case 1
    then show ?thesis using suffix_sortedD(3) [OF assms(1) p] by simp
  next
    case 2
    then have "\<not> vec_less (suffix_at (sa_data s) p) (suffix_at (sa_data s) q)"
      using suffix_sortedD(3) [OF assms(1) p(2,1)] vec_less_trans vec_less_irrefl by blast
    then show ?thesis using 2 by simp
  next
    case 3
    then show ?thesis by simp
  qed
qed

text \<open>The length the array must hold for the suffix at \<open>p\<close>.\<close>

definition lcp_of :: "suffix_array \<Rightarrow> int list \<Rightarrow> int \<Rightarrow> int" where
  "lcp_of s rank p = (case GetSuffix s (ix rank p - 1) of None \<Rightarrow> -1
     | Some q \<Rightarrow> int (common_prefix (suffix_at (sa_data s) q) (suffix_at (sa_data s) p)))"

lemma lcp_next:
  assumes s: "suffix_sorted s" and r: "rank_map s rank" and p: "0 \<le> p" "p + 1 < SuffixArraySize s"
    and pos: "0 < ix rank p" "0 < ix rank (p + 1)"
  shows "lcp_of s rank p - 1 \<le> lcp_of s rank (p + 1)"
proof -
  let ?suf = "suffix_at (sa_data s)" and ?n = "GetSize (sa_data s)"
  have pN: "p < SuffixArraySize s" using p by simp
  obtain q where q: "GetSuffix s (ix rank p - 1) = Some q" "0 \<le> q" "q < SuffixArraySize s" "ix rank q = ix rank p - 1"
    using rank_mapD(4) [OF s r p(1) pN pos(1)] by blast
  obtain q' where q': "GetSuffix s (ix rank (p + 1) - 1) = Some q'" "0 \<le> q'" "q' < SuffixArraySize s"
      "ix rank q' = ix rank (p + 1) - 1"
    using rank_mapD(4) [OF s r _ p(2) pos(2)] p by auto
  show ?thesis
  proof (cases "common_prefix (?suf q) (?suf p)")
    case 0
    then show ?thesis using q q' by (simp add: lcp_of_def)
  next
    case (Suc l)
    then have qn: "q < ?n"
      using suffix_at_cases(1) [OF q(2), of "sa_data s"] by (cases "?n \<le> q") auto
    have pn: "p < ?n" using p suffix_sortedD(1) [OF s] by simp
    have cons: "?suf q = the (AtIndex (sa_data s) q) # ?suf (q + 1)" "?suf p = the (AtIndex (sa_data s) p) # ?suf (p + 1)"
      using suffix_at_cases(1) [OF q(2), of "sa_data s"] suffix_at_cases(1) [OF p(1), of "sa_data s"] qn pn by auto
    have eq: "the (AtIndex (sa_data s) q) = the (AtIndex (sa_data s) p)" "l = common_prefix (?suf (q + 1)) (?suf (p + 1))"
      using Suc unfolding cons by (auto split: if_splits)
    have "vec_less (?suf q) (?suf p)"
      using rank_less_iff [OF s r q(2,3) p(1) pN] q(4) by simp
    then have less: "vec_less (?suf (q + 1)) (?suf (p + 1))"
      unfolding cons eq(1) by simp
    have q1: "0 \<le> q + 1" "q + 1 < SuffixArraySize s" using q(2) qn suffix_sortedD(1) [OF s] by simp_all
    have "ix rank (q + 1) < ix rank (p + 1)"
      using rank_less_iff [OF s r q1 _ p(2)] less p(1) by simp
    then have "ix rank (q + 1) < ix rank q' \<or> ix rank (q + 1) = ix rank q'" using q'(4) by linarith
    then have "vec_less (?suf (q + 1)) (?suf q') \<or> ?suf (q + 1) = ?suf q'"
    proof
      assume "ix rank (q + 1) < ix rank q'"
      then show ?thesis using rank_less_iff [OF s r q1 q'(2,3)] by blast
    next
      assume "ix rank (q + 1) = ix rank q'"
      then have "Some (q + 1) = Some q'"
        using rank_mapD(1) [OF s r q1] rank_mapD(1) [OF s r q'(2,3)] by (metis (no_types))
      then show ?thesis by simp
    qed
    moreover have "vec_less (?suf q') (?suf (p + 1))"
      using rank_less_iff [OF s r q'(2,3) _ p(2)] q'(4) p(1) by simp
    ultimately have "l \<le> common_prefix (?suf q') (?suf (p + 1))"
      unfolding eq(2) by (rule common_prefix_between)
    then show ?thesis using Suc q(1) q'(1) by (simp add: lcp_of_def)
  qed
qed

lemma rank_zero:
  assumes s: "suffix_sorted s" and r: "rank_map s rank" and p: "0 \<le> p" "p < SuffixArraySize s" "ix rank p = 0"
  shows "p + 1 = SuffixArraySize s"
proof (rule ccontr)
  let ?n = "GetSize (sa_data s)"
  assume "p + 1 \<noteq> SuffixArraySize s"
  then have "p < ?n" using p suffix_sortedD(1) [OF s] by simp
  then have ne: "suffix_at (sa_data s) p \<noteq> []" using suffix_at_cases(1) [OF p(1), of "sa_data s"] by simp
  have n: "0 \<le> ?n" "?n < SuffixArraySize s" using suffix_sortedD(1) [OF s] by (simp_all add: GetSize_def)
  have "suffix_at (sa_data s) ?n = []" by (simp add: suffix_at_def GetSize_def vsize_def)
  then have "ix rank ?n < ix rank p"
    using rank_less_iff [OF s r n p(1,2)] ne by (simp add: vec_less_Nil)
  then show False using rank_mapD(2) [OF s r n] p(3) by simp
qed

text \<open>
  C6. On a sorted suffix array \<open>BuildLCPArray\<close> returns the array whose entry at a rank \<open>r > 0\<close> is
  the length of the longest common prefix of the suffixes ranked \<open>r - 1\<close> and \<open>r\<close>, and whose
  first entry is \<open>-1\<close>.
\<close>

theorem BuildLCPArray_correct:
  assumes "suffix_sorted s"
  shows "\<exists>lcp. BuildLCPArray s = Some lcp \<and> vsize lcp = SuffixArraySize s \<and> vat lcp 0 = Some (- 1) \<and>
    (\<forall>r p q. GetSuffix s (r - 1) = Some p \<longrightarrow> GetSuffix s r = Some q \<longrightarrow>
      vat lcp r = Some (int (common_prefix (suffix_at (sa_data s) p) (suffix_at (sa_data s) q))))"
proof -
  let ?N = "SuffixArraySize s" and ?d = "da_data (sa_data s)"
  obtain rank where rank: "for_each (positions (sa_array s)) (\<lambda>i rank. do { p \<leftarrow> vat (sa_array s) i; vset rank p i })
      (replicate (length (sa_array s)) 0) = Some rank" "rank_map s rank"
    using rank_loop [OF assms] by blast
  note rD = rank_mapD [OF assms rank(2)]
  have size: "vsize (sa_array s) = ?N" "0 < ?N"
    using suffix_sortedD(1) [OF assms] by (simp_all add: SuffixArraySize_def GetSize_def vsize_def)
  define body where "body = (\<lambda>i (lcp, prefix_len). do {
       r \<leftarrow> vat rank i;
       (lcp1, len1) \<leftarrow>
         (if r = 0 then do { l \<leftarrow> vset lcp r (- 1); Some (l, prefix_len) }
          else do {
            j \<leftarrow> vat (sa_array s) (r - 1);
            len \<leftarrow> extend_prefix ?d i j prefix_len;
            l \<leftarrow> vset lcp r len;
            Some (l, len) });
       Some (lcp1, if 0 < len1 then len1 - 1 else len1) })"
  define I where "I = (\<lambda>i (lcp, k). vsize lcp = ?N \<and> 0 \<le> k \<and>
    (\<forall>p. 0 \<le> p \<longrightarrow> p < i \<longrightarrow> ix lcp (ix rank p) = lcp_of s rank p) \<and>
    (i < ?N \<longrightarrow> 0 < ix rank i \<longrightarrow> k \<le> lcp_of s rank i))"
  have "\<exists>t. for_each (int_range 0 ?N) body (replicate (length (sa_array s)) 0, 0) = Some t \<and> I ?N t"
  proof (rule for_range_total [where I = I])
    have "0 \<le> lcp_of s rank 0" if "0 < ix rank 0"
      using rD(4) [of 0] that size(2) by (auto simp: lcp_of_def)
    then show "I 0 (replicate (length (sa_array s)) 0, 0)"
      using size by (simp add: I_def vsize_def)
  next
    fix i st assume i: "0 \<le> i" "i < ?N" and I: "I i st"
    obtain lcp k where st: "st = (lcp, k)" by (cases st)
    have I': "vsize lcp = ?N" "0 \<le> k" "\<And>p. 0 \<le> p \<Longrightarrow> p < i \<Longrightarrow> ix lcp (ix rank p) = lcp_of s rank p"
      "0 < ix rank i \<Longrightarrow> k \<le> lcp_of s rank i"
      using I i by (simp_all add: I_def st)
    note ri = rD(1-3) [OF i]
    have r: "vat rank i = Some (ix rank i)" using i rank(2) by (simp add: rank_map_def vat_ix)
    define lcp1 where "lcp1 = lcp[nat (ix rank i) := lcp_of s rank i]"
    have set: "vset lcp (ix rank i) (lcp_of s rank i) = Some lcp1"
      using ri I'(1) by (simp add: vset_ix lcp1_def)
    have diff: "ix rank p \<noteq> ix rank i" if "0 \<le> p" "p < i" for p
      using rD(1) [of p] ri(1) that i by auto
    have stored: "ix lcp1 (ix rank p) = lcp_of s rank p" if p: "0 \<le> p" "p < i + 1" for p
    proof (cases "p = i")
      case True
      then show ?thesis using ri I'(1) by (simp add: lcp1_def ix_update)
    next
      case False
      then have "p < i" "p < ?N" using p i by simp_all
      then show ?thesis
        using diff [OF p(1)] I'(1,3) ri rD(2) [OF p(1)] by (simp add: lcp1_def ix_update p(1))
    qed
    have stored_size: "vsize lcp1 = ?N" using I'(1) by (simp add: lcp1_def)
    show "\<exists>st'. body i st = Some st' \<and> I (i + 1) st'"
    proof (cases "ix rank i = 0")
      case True
      have "lcp_of s rank i = -1"
        unfolding lcp_of_def True by (simp add: GetSuffix_def vat_def)
      then have "body i st = Some (lcp1, if 0 < k then k - 1 else k)"
        using r set True by (simp add: body_def st)
      moreover have "I (i + 1) (lcp1, if 0 < k then k - 1 else k)"
        using rank_zero [OF assms rank(2) i True] stored stored_size I'(2) by (simp add: I_def)
      ultimately show ?thesis by blast
    next
      case False
      then have pos: "0 < ix rank i" using ri(2) by simp
      obtain q where q: "GetSuffix s (ix rank i - 1) = Some q" "0 \<le> q"
        using rD(4) [OF i pos] by blast
      have l: "lcp_of s rank i = int (common_prefix (drop (nat i) ?d) (drop (nat q) ?d))"
        using q(1) by (simp add: lcp_of_def suffix_at_def common_prefix_sym)
      then have "extend_prefix ?d i q k = Some (lcp_of s rank i)"
        using extend_prefix_eq [OF i(1) q(2) I'(2), of ?d] I'(4) [OF pos] by simp
      then have "body i st = Some (lcp1, if 0 < lcp_of s rank i then lcp_of s rank i - 1 else lcp_of s rank i)"
        using r set False q(1) by (simp add: body_def st GetSuffix_def)
      moreover have "I (i + 1) (lcp1, if 0 < lcp_of s rank i then lcp_of s rank i - 1 else lcp_of s rank i)"
      proof -
        have "0 \<le> lcp_of s rank (i + 1)" if "i + 1 < ?N" "0 < ix rank (i + 1)"
          using rD(4) [of "i + 1"] that i by (auto simp: lcp_of_def)
        then show ?thesis
          using stored stored_size lcp_next [OF assms rank(2) i(1) _ pos] l by (auto simp: I_def)
      qed
      ultimately show ?thesis by blast
    qed
  qed (use size in simp)
  then obtain lcp k where lcp: "for_each (int_range 0 ?N) body (replicate (length (sa_array s)) 0, 0) = Some (lcp, k)"
    "vsize lcp = ?N" "\<And>p. 0 \<le> p \<Longrightarrow> p < ?N \<Longrightarrow> ix lcp (ix rank p) = lcp_of s rank p"
    by (auto simp: I_def)
  have qb: "0 \<le> q" "q < ?N" if "GetSuffix s r = Some q" for r q
    using suffix_sortedD(1) [OF assms] suffix_sortedD(2) [OF assms that] by simp_all
  have rank_of: "ix rank q = r" if q: "GetSuffix s r = Some q" for r q
    using rank_unique [OF assms rD(1) [OF qb [OF q]] q] .
  have at: "vat lcp r = Some (lcp_of s rank q)" if q: "GetSuffix s r = Some q" for r q
    using lcp(2) lcp(3) [OF qb [OF q]] rD(2,3) [OF qb [OF q]] rank_of [OF q] by (simp add: vat_ix)
  have "BuildLCPArray s = Some lcp"
    using rank(1) lcp(1) size(1) by (simp add: BuildLCPArray_def Let_def body_def)
  moreover have "vat lcp 0 = Some (- 1)"
  proof -
    have "vat (sa_array s) 0 = Some (ix (sa_array s) 0)"
      by (rule vat_ix) (use size in simp_all)
    then obtain q where q: "GetSuffix s 0 = Some q" by (simp add: GetSuffix_def)
    have "GetSuffix s (- 1) = None" by (simp add: GetSuffix_def vat_def)
    then have "lcp_of s rank q = -1" by (simp add: lcp_of_def rank_of [OF q])
    then show ?thesis using at [OF q] by simp
  qed
  moreover have "vat lcp r = Some (int (common_prefix (suffix_at (sa_data s) p) (suffix_at (sa_data s) q)))"
    if "GetSuffix s (r - 1) = Some p" "GetSuffix s r = Some q" for r p q
    using at [OF that(2)] rank_of [OF that(2)] that(1) by (simp add: lcp_of_def)
  ultimately show ?thesis using lcp(2) by (intro exI [of _ lcp] conjI allI impI) simp_all
qed

lemma BuildLCPArray_correct_witness:
  "\<exists>s lcp. BuildSuffixArray (\<lambda>_. 0) (DataArray_of_file [''a b a'']) = Some s \<and> suffix_sorted s \<and>
     BuildLCPArray s = Some lcp \<and> vat lcp 0 = Some (- 1)"
proof -
  have "sortable (DataArray_of_file [''a b a''])" by code_simp
  then obtain s where "BuildSuffixArray (\<lambda>_. 0) (DataArray_of_file [''a b a'']) = Some s" "suffix_sorted s"
    using BuildSuffixArray_result by blast
  with BuildLCPArray_correct [of s] show ?thesis by blast
qed

end
