(* ===== verification/Precomputed.thy ===== *)
theory Precomputed
  imports SuffixArrays "HOL-Library.Product_Lexorder"
begin

text \<open>
  \<open>Precomputation\<close> (\<open>extractor/precomputation\<close>): the index of frequent collocations with one
  or two gaps. The index is a finite map from symbol lists to the flattened positions of their
  occurrences. \<open>std::priority_queue\<close> is a list whose greatest element is on top.
\<close>

type_synonym collocation_index = "int list \<rightharpoonup> int list"

type_synonym matching = "int \<times> int \<times> bool"

section \<open>Frequent contiguous patterns\<close>

definition frequent_runs ::
  "suffix_array \<Rightarrow> int list \<Rightarrow> int list \<Rightarrow> int \<Rightarrow> int \<Rightarrow> (int \<times> int \<times> int) list option" where
  "frequent_runs s lcp data max_frequent_phrase_len min_frequency = do {
     (heap, _) \<leftarrow> for_each (int_range 1 (vsize lcp)) (\<lambda>i st. do {
         l \<leftarrow> vat lcp i;
         for_each (int_range l max_frequent_phrase_len) (\<lambda>len (heap, run_start). do {
           r \<leftarrow> vat run_start len;
           let frequency = i - r;
           start \<leftarrow> GetSuffix s r;
           run_start' \<leftarrow> vset run_start len i;
           Some (if min_frequency \<le> frequency \<and> start + len \<le> vsize data
                 then (frequency, start, len + 1) # heap else heap, run_start') }) st })
       ([], replicate (nat max_frequent_phrase_len) 0);
     Some heap }"

primrec pop_patterns ::
  "int list \<Rightarrow> int \<Rightarrow> (int \<times> int \<times> int) list \<Rightarrow> int list list \<Rightarrow> int list list option" where
  "pop_patterns data num_frequent_patterns [] patterns = Some patterns"
| "pop_patterns data num_frequent_patterns (t # ts) patterns =
     (if vsize patterns < to_size_t num_frequent_patterns then do {
        let (_, start, len) = t;
        pattern \<leftarrow> vslice data start len;
        pop_patterns data num_frequent_patterns ts
          (if END_OF_LINE \<in> set pattern then patterns else patterns @ [pattern]) }
      else Some patterns)"

definition FindMostFrequentPatterns ::
  "suffix_array \<Rightarrow> int list \<Rightarrow> int \<Rightarrow> int \<Rightarrow> int \<Rightarrow> int list list option" where
  "FindMostFrequentPatterns s data num_frequent_patterns max_frequent_phrase_len min_frequency = do {
     lcp \<leftarrow> BuildLCPArray s;
     heap \<leftarrow> frequent_runs s lcp data max_frequent_phrase_len min_frequency;
     pop_patterns data num_frequent_patterns (rev (sort heap)) [] }"

section \<open>The index\<close>

definition AnnotatePattern ::
  "vocabulary \<Rightarrow> data_array \<Rightarrow> int list \<Rightarrow> (int list \<times> vocabulary) option" where
  "AnnotatePattern v d pattern = for_each pattern (\<lambda>word_id (annotation, v). do {
     w \<leftarrow> GetWord d word_id;
     let (i, v') = GetTerminalIndex w v;
     Some (annotation @ [i], v') }) ([], v)"

definition AppendCollocation :: "int list \<Rightarrow> int list \<Rightarrow> collocation_index \<Rightarrow> collocation_index" where
  "AppendCollocation pattern starts index =
     index(pattern \<mapsto> (case index pattern of None \<Rightarrow> [] | Some c \<Rightarrow> c) @ starts)"

text \<open>The innermost loop of \<open>UpdateIndex\<close>; its state is the index and the vector \<open>pattern\<close>.\<close>

definition third_step ::
  "matching list \<Rightarrow> int list list \<Rightarrow> int \<Rightarrow> int \<Rightarrow> int \<Rightarrow> matching \<Rightarrow> matching \<Rightarrow> int \<Rightarrow>
   collocation_index \<times> int list \<Rightarrow> ((collocation_index \<times> int list) \<times> bool) option" where
  "third_step matchings annotations max_rule_span min_gap_size max_rule_symbols m1 m2 k st = do {
     let (start1, size1, is_super1) = m1;
     let (start2, size2, is_super2) = m2;
     let (index, pattern) = st;
     (start3, size3, is_super3) \<leftarrow> vat matchings k;
     if max_rule_span \<le> start3 - start1 then Some (st, False)
     else if min_gap_size \<le> start3 - start2 - size2 \<and> start3 + size3 - start1 \<le> max_rule_span \<and>
        size1 + size2 + size3 + 2 \<le> max_rule_symbols \<and> (is_super1 \<or> is_super3) then do {
       a \<leftarrow> vat annotations k;
       let pattern1 = pattern @ a;
       let index1 = AppendCollocation pattern1 [start1, start2, start3] index;
       pattern2 \<leftarrow> verase pattern1 (vsize pattern1 - size3);
       Some ((index1, pattern2), True) }
     else Some (st, True) }"

definition second_step ::
  "matching list \<Rightarrow> int list list \<Rightarrow> int \<Rightarrow> int \<Rightarrow> int \<Rightarrow> int \<Rightarrow> matching \<Rightarrow> int \<Rightarrow>
   collocation_index \<Rightarrow> (collocation_index \<times> bool) option" where
  "second_step matchings annotations max_rule_span min_gap_size max_rule_symbols i m1 j index = do {
     let (start1, size1, is_super1) = m1;
     (start2, size2, is_super2) \<leftarrow> vat matchings j;
     if max_rule_span \<le> start2 - start1 then Some (index, False)
     else if min_gap_size \<le> start2 - start1 - size1 \<and> start2 + size2 - start1 \<le> max_rule_span \<and>
        size1 + size2 + 1 \<le> max_rule_symbols then do {
       a \<leftarrow> vat annotations i;
       b \<leftarrow> vat annotations j;
       let pattern = a @ [- 1] @ b;
       let index1 = AppendCollocation pattern [start1, start2] index;
       if is_super2 then do {
         (index2, _) \<leftarrow> for_break (int_range (j + 1) (vsize matchings))
           (third_step matchings annotations max_rule_span min_gap_size max_rule_symbols
             m1 (start2, size2, is_super2)) (index1, pattern @ [- 2]);
         Some (index2, True) }
       else Some (index1, True) }
     else Some (index, True) }"

definition UpdateIndex ::
  "matching list \<Rightarrow> int list list \<Rightarrow> int \<Rightarrow> int \<Rightarrow> int \<Rightarrow> collocation_index \<Rightarrow> collocation_index option" where
  "UpdateIndex matchings annotations max_rule_span min_gap_size max_rule_symbols index =
     for_each (positions matchings) (\<lambda>i index. do {
       m1 \<leftarrow> vat matchings i;
       for_break (int_range (i + 1) (vsize matchings))
         (second_step matchings annotations max_rule_span min_gap_size max_rule_symbols i m1) index }) index"

definition annotate_all ::
  "vocabulary \<Rightarrow> data_array \<Rightarrow> int list list \<Rightarrow>
   ((int list \<rightharpoonup> int) \<times> int list list \<times> vocabulary) option" where
  "annotate_all v d patterns =
     for_each (positions patterns) (\<lambda>i (patterns_index, annotations, v). do {
       p \<leftarrow> vat patterns i;
       (a, v') \<leftarrow> AnnotatePattern v d p;
       Some (patterns_index(p \<mapsto> i), annotations @ [a], v') }) (Map.empty, [], v)"

text \<open>The contiguous frequent patterns that start at position \<open>i\<close> of the corpus.\<close>

definition matchings_at ::
  "int list \<Rightarrow> (int list \<rightharpoonup> int) \<Rightarrow> int list list \<Rightarrow> int \<Rightarrow> int \<Rightarrow> int \<Rightarrow>
   matching list \<times> int list list \<Rightarrow> (matching list \<times> int list list) option" where
  "matchings_at data patterns_index pattern_annotations max_frequent_phrase_len num_super_frequent_patterns i st = do {
     (_, matchings, annotations) \<leftarrow>
       for_break (int_range 1 (min (max_frequent_phrase_len + 1) (vsize data - i + 1)))
         (\<lambda>j (pattern, matchings, annotations). do {
           x \<leftarrow> vat data (i + j - 1);
           let pattern1 = pattern @ [x];
           (case patterns_index pattern1 of
              None \<Rightarrow> Some ((pattern1, matchings, annotations), False)
            | Some n \<Rightarrow> do {
                a \<leftarrow> vat pattern_annotations n;
                Some ((pattern1, matchings @ [(i, j, n < num_super_frequent_patterns)], annotations @ [a]), True) }) })
         ([], fst st, snd st);
     Some (matchings, annotations) }"

definition Precompute ::
  "vocabulary \<Rightarrow> suffix_array \<Rightarrow> int \<Rightarrow> int \<Rightarrow> int \<Rightarrow> int \<Rightarrow> int \<Rightarrow> int \<Rightarrow> int \<Rightarrow>
   (collocation_index \<times> vocabulary) option" where
  "Precompute v s num_frequent_patterns num_super_frequent_patterns max_rule_span max_rule_symbols
     min_gap_size max_frequent_phrase_len min_frequency = do {
     let data = da_data (sa_data s);
     patterns \<leftarrow> FindMostFrequentPatterns s data num_frequent_patterns max_frequent_phrase_len min_frequency;
     (patterns_index, pattern_annotations, v') \<leftarrow> annotate_all v (sa_data s) patterns;
     (index, _, _) \<leftarrow> for_each (positions data) (\<lambda>i (index, matchings, annotations). do {
         x \<leftarrow> vat data i;
         if x = END_OF_LINE then do {
           index' \<leftarrow> UpdateIndex matchings annotations max_rule_span min_gap_size max_rule_symbols index;
           Some (index', [], []) }
         else do {
           (matchings', annotations') \<leftarrow> matchings_at data patterns_index pattern_annotations
             max_frequent_phrase_len num_super_frequent_patterns i (matchings, annotations);
           Some (index, matchings', annotations') } }) (Map.empty, [], []);
     Some (index, v') }"

definition Contains :: "collocation_index \<Rightarrow> int list \<Rightarrow> bool" where
  "Contains index pattern = (index pattern \<noteq> None)"

definition GetCollocations :: "collocation_index \<Rightarrow> int list \<Rightarrow> int list option" where
  "GetCollocations index pattern = index pattern"

section \<open>What the index holds\<close>

definition collocations :: "collocation_index \<Rightarrow> int list \<Rightarrow> int list" where
  "collocations index key = (case index key of None \<Rightarrow> [] | Some c \<Rightarrow> c)"

lemma collocations_append:
  "collocations (AppendCollocation p c index) key = collocations index key @ (if key = p then c else [])"
  by (auto simp: collocations_def AppendCollocation_def split: option.splits)

text \<open>
  The matchings of one sentence, as the constructor collects them: ordered by start, of positive
  size, each with an annotation of that many terminals.
\<close>

definition wf_matchings :: "matching list \<Rightarrow> int list list \<Rightarrow> bool" where
  "wf_matchings ms anns = (sorted_wrt (\<lambda>m m'. fst m \<le> fst m') ms \<and> length anns = length ms \<and>
     (\<forall>i < length ms. 1 \<le> fst (snd (ms ! i)) \<and> vsize (anns ! i) = fst (snd (ms ! i)) \<and> (\<forall>x \<in> set (anns ! i). 0 \<le> x)))"

definition pair_ok :: "int \<Rightarrow> int \<Rightarrow> int \<Rightarrow> matching \<Rightarrow> matching \<Rightarrow> bool" where
  "pair_ok max_rule_span min_gap_size max_rule_symbols m1 m2 =
     (min_gap_size \<le> fst m2 - fst m1 - fst (snd m1) \<and> fst m2 + fst (snd m2) - fst m1 \<le> max_rule_span \<and>
      fst (snd m1) + fst (snd m2) + 1 \<le> max_rule_symbols)"

lemma wf_matchings_at:
  assumes "wf_matchings ms anns" "0 \<le> i" "i < vsize ms"
  shows "vat ms i = Some (ms ! nat i)" "vat anns i = Some (anns ! nat i)"
    "1 \<le> fst (snd (ms ! nat i))" "vsize (anns ! nat i) = fst (snd (ms ! nat i))" "\<forall>x \<in> set (anns ! nat i). 0 \<le> x"
proof -
  have n: "nat i < length ms" using assms(2,3) by (simp add: vsize_def nat_less_iff)
  show "vat ms i = Some (ms ! nat i)" "vat anns i = Some (anns ! nat i)"
    using assms by (auto simp: wf_matchings_def vat_eq vsize_def)
  show "1 \<le> fst (snd (ms ! nat i))" "vsize (anns ! nat i) = fst (snd (ms ! nat i))" "\<forall>x \<in> set (anns ! nat i). 0 \<le> x"
    using assms(1) n unfolding wf_matchings_def by blast+
qed

lemma wf_matchings_mono:
  assumes "wf_matchings ms anns" "0 \<le> i" "i \<le> j" "j < vsize ms"
  shows "fst (ms ! nat i) \<le> fst (ms ! nat j)"
proof (cases "i = j")
  case False
  then have "nat i < nat j" "nat j < length ms" using assms by (auto simp: vsize_def)
  then show ?thesis using assms(1) unfolding wf_matchings_def sorted_wrt_iff_nth_less by blast
qed simp

lemma third_loop:
  assumes "wf_matchings ms anns" "set ks \<subseteq> {0..<vsize ms}" "- 2 \<in> set pattern"
  shows "\<exists>st. for_break ks (third_step ms anns span gap syms m1 m2) (index, pattern) = Some st \<and>
    (\<forall>key. - 2 \<notin> set key \<longrightarrow> collocations (fst st) key = collocations index key)"
  using assms(2,3)
proof (induction ks arbitrary: index pattern)
  case Nil
  then show ?case by simp
next
  case (Cons k ks)
  have k: "0 \<le> k" "k < vsize ms" using Cons.prems(1) by simp_all
  note at = wf_matchings_at [OF assms(1) k]
  obtain start3 size3 sup3 where m3: "ms ! nat k = (start3, size3, sup3)" by (cases "ms ! nat k")
  obtain start1 size1 sup1 where m1: "m1 = (start1, size1, sup1)" by (cases m1)
  obtain start2 size2 sup2 where m2: "m2 = (start2, size2, sup2)" by (cases m2)
  let ?a = "anns ! nat k"
  have a: "vsize ?a = size3" "1 \<le> size3" using at(3,4) m3 by simp_all
  then obtain x a' where xa: "?a = x # a'" by (cases ?a) auto
  have erase: "verase (pattern @ ?a) (vsize (pattern @ ?a) - size3) = Some (pattern @ a')"
  proof -
    have "vsize (pattern @ ?a) - size3 = int (length pattern)" using a(1) by (simp add: vsize_def)
    then show ?thesis unfolding xa by (simp add: verase_def)
  qed
  have mem: "- 2 \<in> set (pattern @ a')" "- 2 \<in> set (pattern @ ?a)" using Cons.prems(2) by simp_all
  note IH = Cons.IH [of "pattern @ a'" "AppendCollocation (pattern @ ?a) [start1, start2, start3] index"]
    Cons.IH [of pattern index]
  show ?case
    using IH Cons.prems mem erase at(1,2)
    by (auto simp: third_step_def m1 m2 m3 Let_def collocations_append)
qed

lemma second_loop:
  assumes wf: "wf_matchings ms anns" and i: "0 \<le> i" "i < vsize ms"
    and js: "js = int_range lo (vsize ms)" "i < lo"
  shows "\<exists>index'. for_break js (second_step ms anns span gap syms i (ms ! nat i)) index = Some index' \<and>
    (\<forall>key. - 2 \<notin> set key \<longrightarrow> collocations index' key = collocations index key @
      concat (map (\<lambda>j. if pair_ok span gap syms (ms ! nat i) (ms ! nat j) \<and> key = anns ! nat i @ [- 1] @ anns ! nat j
        then [fst (ms ! nat i), fst (ms ! nat j)] else []) js))"
  using js
proof (induction "nat (vsize ms - lo)" arbitrary: lo js index)
  case 0
  then show ?case by simp
next
  case (Suc n)
  have lo: "lo < vsize ms" "0 \<le> lo" using Suc(2,4) i by simp_all
  let ?js = "int_range (lo + 1) (vsize ms)"
  have js: "js = lo # ?js" using lo Suc(3) by (simp add: int_range_Cons)
  note IH = Suc(1) [OF _ refl, of "lo + 1"]
  have n: "n = nat (vsize ms - (lo + 1))" "i < lo + 1" using Suc(2,4) by simp_all
  note IH = Suc(1) [OF n(1) refl n(2)]
  note ai = wf_matchings_at [OF wf i] and aj = wf_matchings_at [OF wf lo(2,1)]
  obtain start1 size1 sup1 where m1: "ms ! nat i = (start1, size1, sup1)" by (cases "ms ! nat i")
  obtain start2 size2 sup2 where m2: "ms ! nat lo = (start2, size2, sup2)" by (cases "ms ! nat lo")
  show ?case
  proof (cases "span \<le> start2 - start1")
    case True
    have "\<not> pair_ok span gap syms (ms ! nat i) (ms ! nat j)" if "j \<in> set js" for j
    proof -
      have j: "lo \<le> j" "j < vsize ms" using that Suc(3) by simp_all
      then have "fst (ms ! nat lo) \<le> fst (ms ! nat j)" "1 \<le> fst (snd (ms ! nat j))"
        using wf_matchings_mono [OF wf lo(2) j] wf_matchings_at(3) [OF wf, of j] lo(2) by auto
      then show ?thesis using True m1 m2 by (simp add: pair_ok_def)
    qed
    then have "concat (map (\<lambda>j. if pair_ok span gap syms (ms ! nat i) (ms ! nat j) \<and> key = anns ! nat i @ [- 1] @ anns ! nat j
        then [fst (ms ! nat i), fst (ms ! nat j)] else []) js) = []" for key
      by (simp add: concat_eq_Nil_conv)
    moreover have "for_break js (second_step ms anns span gap syms i (ms ! nat i)) index = Some index"
      using True aj(1) by (simp add: js second_step_def m1 m2)
    ultimately show ?thesis by simp
  next
    case False
    let ?key = "anns ! nat i @ [- 1] @ anns ! nat lo"
    let ?ok = "pair_ok span gap syms (ms ! nat i) (ms ! nat lo)"
    have plain: "- 2 \<notin> set ?key" using ai(5) aj(5) by auto
    obtain index1 where step: "second_step ms anns span gap syms i (ms ! nat i) lo index = Some (index1, True)"
      "\<forall>key. - 2 \<notin> set key \<longrightarrow> collocations index1 key = collocations index key @ (if ?ok \<and> key = ?key then [start1, start2] else [])"
    proof (cases ?ok)
      case no: False
      then have "second_step ms anns span gap syms i (ms ! nat i) lo index = Some (index, True)"
        using False aj(1) by (auto simp: second_step_def m1 m2 pair_ok_def)
      then show ?thesis using that [of index] no by simp
    next
      case yes: True
      let ?index = "AppendCollocation ?key [start1, start2] index"
      show ?thesis
      proof (cases sup2)
        case no: False
        then have "second_step ms anns span gap syms i (ms ! nat i) lo index = Some (?index, True)"
          using False yes aj(1,2) ai(2) by (auto simp: second_step_def m1 m2 pair_ok_def Let_def)
        then show ?thesis using that [of ?index] yes by (simp add: collocations_append)
      next
        case sup: True
        have "set ?js \<subseteq> {0..<vsize ms}" using lo by auto
        from third_loop [OF wf this, of "?key @ [- 2]" span gap syms "ms ! nat i" "ms ! nat lo" ?index]
        obtain index2 p where third: "for_break ?js (third_step ms anns span gap syms (ms ! nat i) (ms ! nat lo))
            (?index, ?key @ [- 2]) = Some (index2, p)"
          "\<forall>key. - 2 \<notin> set key \<longrightarrow> collocations index2 key = collocations ?index key" by auto
        then have "second_step ms anns span gap syms i (ms ! nat i) lo index = Some (index2, True)"
          using False yes sup aj(1,2) ai(2) by (auto simp: second_step_def m1 m2 pair_ok_def Let_def)
        then show ?thesis using that [of index2] third(2) yes by (simp add: collocations_append)
      qed
    qed
    obtain index' where rest: "for_break ?js (second_step ms anns span gap syms i (ms ! nat i)) index1 = Some index'"
      "\<forall>key. - 2 \<notin> set key \<longrightarrow> collocations index' key = collocations index1 key @
        concat (map (\<lambda>j. if pair_ok span gap syms (ms ! nat i) (ms ! nat j) \<and> key = anns ! nat i @ [- 1] @ anns ! nat j
          then [fst (ms ! nat i), fst (ms ! nat j)] else []) ?js)"
      using IH [of index1] by blast
    have "for_break js (second_step ms anns span gap syms i (ms ! nat i)) index = Some index'"
      using step(1) rest(1) by (simp add: js)
    moreover have "collocations index' key = collocations index key @
        concat (map (\<lambda>j. if pair_ok span gap syms (ms ! nat i) (ms ! nat j) \<and> key = anns ! nat i @ [- 1] @ anns ! nat j
          then [fst (ms ! nat i), fst (ms ! nat j)] else []) js)" if "- 2 \<notin> set key" for key
      using step(2) rest(2) that by (simp add: js m1 m2)
    ultimately show ?thesis by blast
  qed
qed

text \<open>
  C7. \<open>UpdateIndex\<close> on the matchings of a sentence succeeds, and the entry of a pattern with one
  gap grows by exactly the start pairs of the ordered pairs of matchings that respect the span,
  gap and length limits and have that pattern, in order; the early exit of the loop loses none.
\<close>

theorem UpdateIndex_one_gap:
  assumes "wf_matchings ms anns" "- 2 \<notin> set key"
  shows "\<exists>index'. UpdateIndex ms anns max_rule_span min_gap_size max_rule_symbols index = Some index' \<and>
    collocations index' key = collocations index key @
      concat (map (\<lambda>i. concat (map (\<lambda>j.
        if pair_ok max_rule_span min_gap_size max_rule_symbols (ms ! nat i) (ms ! nat j) \<and> key = anns ! nat i @ [- 1] @ anns ! nat j
        then [fst (ms ! nat i), fst (ms ! nat j)] else []) (int_range (i + 1) (vsize ms)))) (positions ms))"
proof -
  let ?row = "\<lambda>i. concat (map (\<lambda>j.
        if pair_ok max_rule_span min_gap_size max_rule_symbols (ms ! nat i) (ms ! nat j) \<and> key = anns ! nat i @ [- 1] @ anns ! nat j
        then [fst (ms ! nat i), fst (ms ! nat j)] else []) (int_range (i + 1) (vsize ms)))"
  have "\<exists>index'. UpdateIndex ms anns max_rule_span min_gap_size max_rule_symbols index = Some index' \<and>
      collocations index' key = collocations index key @ concat (map ?row (int_range 0 (vsize ms)))"
    unfolding UpdateIndex_def
  proof (rule for_range_total [where I = "\<lambda>n ix. collocations ix key = collocations index key @ concat (map ?row (int_range 0 n))"])
    fix i ix assume i: "0 \<le> i" "i < vsize ms"
      and I: "collocations ix key = collocations index key @ concat (map ?row (int_range 0 i))"
    obtain ix' where "for_break (int_range (i + 1) (vsize ms))
        (second_step ms anns max_rule_span min_gap_size max_rule_symbols i (ms ! nat i)) ix = Some ix'"
      "\<forall>k. - 2 \<notin> set k \<longrightarrow> collocations ix' k = collocations ix k @ concat (map (\<lambda>j.
        if pair_ok max_rule_span min_gap_size max_rule_symbols (ms ! nat i) (ms ! nat j) \<and> k = anns ! nat i @ [- 1] @ anns ! nat j
        then [fst (ms ! nat i), fst (ms ! nat j)] else []) (int_range (i + 1) (vsize ms)))"
    proof -
      have "i < i + 1" by simp
      from second_loop [OF assms(1) i refl this, where span = max_rule_span and gap = min_gap_size
          and syms = max_rule_symbols and index = ix] that show ?thesis by blast
    qed
    then show "\<exists>s'. (do { m1 \<leftarrow> vat ms i; for_break (int_range (i + 1) (vsize ms))
        (second_step ms anns max_rule_span min_gap_size max_rule_symbols i m1) ix }) = Some s' \<and>
        collocations s' key = collocations index key @ concat (map ?row (int_range 0 (i + 1)))"
      using I assms(2) wf_matchings_at(1) [OF assms(1) i] int_range_snoc [OF i(1)] by simp
  qed simp_all
  then show ?thesis by simp
qed

definition sample_matchings :: "matching list" where
  "sample_matchings = [(0, 1, True), (2, 1, True), (4, 2, True), (5, 1, True)]"

definition sample_annotations :: "int list list" where
  "sample_annotations = [[5], [6], [7, 8], [8]]"

lemma UpdateIndex_one_gap_witness:
  "wf_matchings sample_matchings sample_annotations \<and> - 2 \<notin> set [5, - 1, 6 :: int] \<and>
   (\<exists>index'. UpdateIndex sample_matchings sample_annotations 10 1 5 Map.empty = Some index' \<and>
     collocations index' [5, - 1, 6] = [0, 2])"
proof -
  have wf: "wf_matchings sample_matchings sample_annotations" "- 2 \<notin> set [5, - 1, 6 :: int]"
    by (auto simp: wf_matchings_def sample_matchings_def sample_annotations_def vsize_def less_Suc_eq)
  obtain index' where u: "UpdateIndex sample_matchings sample_annotations 10 1 5 Map.empty = Some index'"
    "collocations index' [5, - 1, 6] = collocations Map.empty [5, - 1, 6] @
      concat (map (\<lambda>i. concat (map (\<lambda>j.
        if pair_ok 10 1 5 (sample_matchings ! nat i) (sample_matchings ! nat j) \<and>
          [5, - 1, 6] = sample_annotations ! nat i @ [- 1] @ sample_annotations ! nat j
        then [fst (sample_matchings ! nat i), fst (sample_matchings ! nat j)] else [])
        (int_range (i + 1) (vsize sample_matchings)))) (positions sample_matchings))"
    using UpdateIndex_one_gap [OF wf] by blast
  moreover have "positions sample_matchings = [0, 1, 2, 3]" "vsize sample_matchings = 4"
    "int_range 1 4 = [1, 2, 3]" "int_range 2 4 = [2, 3]" "int_range 3 4 = [3]" by code_simp+
  ultimately have "collocations index' [5, - 1, 6] = [0, 2]"
    by (simp add: collocations_def sample_matchings_def sample_annotations_def pair_ok_def)
  then show ?thesis using wf u(1) by blast
qed

text \<open>
   After a third subpattern of two words has been recorded, only one of its words is removed
  from the working pattern: with the matchings \<open>a\<close>, \<open>b\<close>, \<open>c d\<close>, \<open>d\<close> the last occurrence is filed
  under \<open>a X b X d d\<close>, which is not in the sentence, and \<open>a X b X d\<close> gets no entry.
\<close>

theorem UpdateIndex_two_gaps_wrong_key:
  "map_option (\<lambda>index. (index [5, - 1, 6, - 2, 8, 8], index [5, - 1, 6, - 2, 8]))
     (UpdateIndex sample_matchings sample_annotations 10 1 6 Map.empty) = Some (Some [0, 2, 5], None)"
  by code_simp

section \<open>The runs of frequent patterns\<close>

definition repeated_word :: suffix_array where
  "repeated_word = \<lparr>sa_data = DataArray_of_file [''a'', ''a''], sa_array = [4, 3, 1, 2, 0], sa_word_start = [0, 1, 3, 5]\<rparr>"

text \<open>
   The run that ends with the suffix array is never pushed on the heap: in the corpus of the two
  lines \<open>a\<close> and \<open>a\<close> the word occurs twice, but with a minimal frequency of 2 no pattern is found.
\<close>

theorem FindMostFrequentPatterns_last_run:
  "BuildSuffixArray (\<lambda>n. n) (DataArray_of_file [''a'', ''a'']) = Some repeated_word \<and>
   FindMostFrequentPatterns repeated_word (da_data (sa_data repeated_word)) 100 4 2 = Some [] \<and>
   count_list (da_data (sa_data repeated_word)) 2 = 2"
proof -
  have "map_option (\<lambda>s. (sa_array s, sa_word_start s)) (BuildSuffixArray (\<lambda>n. n) (DataArray_of_file [''a'', ''a'']))
      = Some ([4, 3, 1, 2, 0], [0, 1, 3, 5])" by code_simp
  then obtain s where s: "BuildSuffixArray (\<lambda>n. n) (DataArray_of_file [''a'', ''a'']) = Some s"
    "sa_array s = [4, 3, 1, 2, 0]" "sa_word_start s = [0, 1, 3, 5]" by auto
  moreover have "sa_data s = DataArray_of_file [''a'', ''a'']"
    using s(1) by (auto simp: BuildSuffixArray_def Let_def bind_Some_iff)
  ultimately have "BuildSuffixArray (\<lambda>n. n) (DataArray_of_file [''a'', ''a'']) = Some repeated_word"
    by (simp add: repeated_word_def)
  moreover have "FindMostFrequentPatterns repeated_word (da_data (sa_data repeated_word)) 100 4 2 = Some [] \<and>
      count_list (da_data (sa_data repeated_word)) 2 = 2" by code_simp
  ultimately show ?thesis by simp
qed

definition single_word :: suffix_array where
  "single_word = \<lparr>sa_data = DataArray_of_file [''a''], sa_array = [2, 1, 0], sa_word_start = [0, 1, 2, 3]\<rparr>"

text \<open>
   With a minimal frequency of 1 the bound \<open>start + len <= data.size()\<close> lets a pattern of
  \<open>len + 1\<close> words run past the end of the corpus.
\<close>

theorem FindMostFrequentPatterns_past_end:
  "Option.is_none (FindMostFrequentPatterns single_word (da_data (sa_data single_word)) 100 4 1) \<and>
   map_option (map (\<lambda>(_, start, len). start + len)) (frequent_runs single_word [-1, 0, 0] (da_data (sa_data single_word)) 4 1)
     = Some [3, 2, 3] \<and> vsize (da_data (sa_data single_word)) = 2"
  by code_simp

end
