(* ===== verification/Intersect.thy ===== *)
theory Intersect
  imports Precomputed
begin

text \<open>
  \<open>FastIntersector\<close> (\<open>extractor/fast_intersector\<close>): the occurrences of a phrase with gaps from
  those of its prefix or of its suffix. Locations passed by reference are returned as well.
\<close>

record intersector =
  fi_suffix_array :: suffix_array
  fi_index :: collocation_index
  fi_max_rule_span :: int
  fi_min_gap_size :: int

definition EstimateNumOperations :: "intersector \<Rightarrow> phrase_location \<Rightarrow> bool \<Rightarrow> int option" where
  "EstimateNumOperations f location has_margin_x = do {
     num_locations \<leftarrow> LocationSize location;
     Some (if has_margin_x then num_locations * fi_max_rule_span f else num_locations) }"

definition ExtendPhraseLocation :: "intersector \<Rightarrow> phrase_location \<Rightarrow> phrase_location option" where
  "ExtendPhraseLocation f location =
     (if pl_matchings location \<noteq> None then Some location
      else do {
        matchings \<leftarrow> for_each (int_range (pl_sa_low location) (pl_sa_high location)) (\<lambda>i m. do {
          p \<leftarrow> GetSuffix (fi_suffix_array f) i; Some (m @ [p]) }) [];
        Some (location\<lparr>pl_num_subpatterns := 1, pl_matchings := Some matchings,
                       pl_sa_low := 0, pl_sa_high := 0\<rparr>) })"

definition GetSearchRange :: "intersector \<Rightarrow> bool \<Rightarrow> int \<times> int" where
  "GetSearchRange f has_marginal_x =
     (if has_marginal_x then (fi_min_gap_size f + 1, fi_max_rule_span f) else (1, 2))"

text \<open>\<open>for (size_t i = 0; i < n; i += step)\<close>; with no positive step it does not end.\<close>

definition strided :: "int \<Rightarrow> int \<Rightarrow> int list option" where
  "strided n step =
     (if n \<le> 0 then Some [] else if step \<le> 0 then None
      else Some (filter (\<lambda>i. i mod step = 0) (int_range 0 n)))"

text \<open>The body of the outer loop of \<open>ExtendPrefixPhraseLocation\<close>, and the loop.\<close>

definition extend_prefix_at ::
  "intersector \<Rightarrow> phrase \<Rightarrow> bool \<Rightarrow> int \<Rightarrow> int \<Rightarrow> int list \<Rightarrow> int \<Rightarrow> int list \<Rightarrow> int list option" where
  "extend_prefix_at f phrase prefix_ends_with_x symbol num_subpatterns matchings i new_positions = do {
     let d = sa_data (fi_suffix_array f);
     let range = GetSearchRange f prefix_ends_with_x;
     first \<leftarrow> vat matchings i;
     sent_id \<leftarrow> GetSentenceId d first;
     next_start \<leftarrow> GetSentenceStart d (sent_id + 1);
     let sent_end = next_start - 1;
     last \<leftarrow> vat matchings (i + num_subpatterns - 1);
     len \<leftarrow> (if prefix_ends_with_x then map_option (\<lambda>n. n - 1) (GetChunkLen phrase (Arity phrase - 1))
             else map_option (\<lambda>n. n - 2) (GetChunkLen phrase (Arity phrase)));
     (new_positions', _) \<leftarrow> for_break (int_range (fst range) (snd range)) (\<lambda>j (new_positions, pattern_end).
       if sent_end \<le> pattern_end \<or> fi_max_rule_span f \<le> pattern_end - first
       then Some ((new_positions, pattern_end), False)
       else do {
         x \<leftarrow> AtIndex d pattern_end;
         new1 \<leftarrow> (if x = symbol then do {
             group \<leftarrow> vslice matchings i num_subpatterns;
             Some (new_positions @ group @ (if prefix_ends_with_x then [pattern_end] else [])) }
           else Some new_positions);
         Some ((new1, pattern_end + 1), True) })
       (new_positions, last + fst range + len);
     Some new_positions' }"

definition ExtendPrefixPhraseLocation ::
  "intersector \<Rightarrow> vocabulary \<Rightarrow> phrase_location \<Rightarrow> phrase \<Rightarrow> bool \<Rightarrow> int \<Rightarrow>
   (phrase_location \<times> phrase_location) option" where
  "ExtendPrefixPhraseLocation f v prefix_location phrase prefix_ends_with_x next_symbol = do {
     location \<leftarrow> ExtendPhraseLocation f prefix_location;
     matchings \<leftarrow> pl_matchings location;
     let num_subpatterns = pl_num_subpatterns location;
     w \<leftarrow> GetTerminalValue v next_symbol;
     let symbol = GetWordId (sa_data (fi_suffix_array f)) w;
     if symbol = -1 then Some (PhraseLocation_matchings [] num_subpatterns, location)
     else do {
       starts \<leftarrow> strided (vsize matchings) num_subpatterns;
       new_positions \<leftarrow> for_each starts
         (extend_prefix_at f phrase prefix_ends_with_x symbol num_subpatterns matchings) [];
       Some (PhraseLocation_matchings new_positions (Arity phrase + 1), location) } }"

definition extend_suffix_at ::
  "intersector \<Rightarrow> phrase \<Rightarrow> bool \<Rightarrow> int \<Rightarrow> int \<Rightarrow> int list \<Rightarrow> int \<Rightarrow> int list \<Rightarrow> int list option" where
  "extend_suffix_at f phrase suffix_starts_with_x symbol num_subpatterns matchings i new_positions = do {
     let d = sa_data (fi_suffix_array f);
     let range = GetSearchRange f suffix_starts_with_x;
     first \<leftarrow> vat matchings i;
     sent_id \<leftarrow> GetSentenceId d first;
     sent_start \<leftarrow> GetSentenceStart d sent_id;
     last \<leftarrow> vat matchings (i + num_subpatterns - 1);
     len \<leftarrow> GetChunkLen phrase (Arity phrase);
     let pattern_end = last + len - 1;
     let skip = of_bool (\<not> suffix_starts_with_x);
     (new_positions', _) \<leftarrow> for_break (int_range (fst range) (snd range)) (\<lambda>j (new_positions, pattern_start).
       if pattern_start < sent_start \<or> fi_max_rule_span f \<le> pattern_end - pattern_start
       then Some ((new_positions, pattern_start), False)
       else do {
         x \<leftarrow> AtIndex d pattern_start;
         new1 \<leftarrow> (if x = symbol then do {
             group \<leftarrow> vslice matchings (i + skip) (num_subpatterns - skip);
             Some (new_positions @ [pattern_start] @ group) }
           else Some new_positions);
         Some ((new1, pattern_start - 1), True) })
       (new_positions, first - fst range);
     Some new_positions' }"

definition ExtendSuffixPhraseLocation ::
  "intersector \<Rightarrow> vocabulary \<Rightarrow> phrase_location \<Rightarrow> phrase \<Rightarrow> bool \<Rightarrow> int \<Rightarrow>
   (phrase_location \<times> phrase_location) option" where
  "ExtendSuffixPhraseLocation f v suffix_location phrase suffix_starts_with_x prev_symbol = do {
     location \<leftarrow> ExtendPhraseLocation f suffix_location;
     matchings \<leftarrow> pl_matchings location;
     let num_subpatterns = pl_num_subpatterns location;
     w \<leftarrow> GetTerminalValue v prev_symbol;
     let symbol = GetWordId (sa_data (fi_suffix_array f)) w;
     if symbol = -1 then Some (PhraseLocation_matchings [] num_subpatterns, location)
     else do {
       starts \<leftarrow> strided (vsize matchings) num_subpatterns;
       new_positions \<leftarrow> for_each starts
         (extend_suffix_at f phrase suffix_starts_with_x symbol num_subpatterns matchings) [];
       Some (PhraseLocation_matchings new_positions (Arity phrase + 1), location) } }"

text \<open>\<open>Intersect\<close> returns the location, and the prefix and suffix locations as it leaves them.\<close>

definition Intersect ::
  "intersector \<Rightarrow> vocabulary \<Rightarrow> phrase_location \<Rightarrow> phrase_location \<Rightarrow> phrase \<Rightarrow>
   (phrase_location \<times> phrase_location \<times> phrase_location) option" where
  "Intersect f v prefix_location suffix_location phrase = do {
     let symbols = ph_symbols phrase;
     front \<leftarrow> vfront symbols;
     back \<leftarrow> vback symbols;
     _ \<leftarrow> check (IsTerminal front \<and> IsTerminal back);
     if Contains (fi_index f) symbols then do {
       c \<leftarrow> GetCollocations (fi_index f) symbols;
       Some (PhraseLocation_matchings c (Arity phrase + 1), prefix_location, suffix_location) }
     else do {
       before_last \<leftarrow> vat symbols (vsize symbols - 2);
       let prefix_ends_with_x = \<not> IsTerminal before_last;
       second \<leftarrow> vat symbols 1;
       let suffix_starts_with_x = \<not> IsTerminal second;
       a \<leftarrow> EstimateNumOperations f prefix_location prefix_ends_with_x;
       b \<leftarrow> EstimateNumOperations f suffix_location suffix_starts_with_x;
       if a \<le> b then do {
         (l, p) \<leftarrow> ExtendPrefixPhraseLocation f v prefix_location phrase prefix_ends_with_x back;
         Some (l, p, suffix_location) }
       else do {
         (l, s) \<leftarrow> ExtendSuffixPhraseLocation f v suffix_location phrase suffix_starts_with_x front;
         Some (l, prefix_location, s) } } }"

section \<open>The occurrences found\<close>

lemma scan_up:
  assumes that: "hi = min sent_end (first + span)" and "\<And>q. e \<le> q \<Longrightarrow> q < hi \<Longrightarrow> AtIndex d q \<noteq> None"
  shows "\<exists>e'. for_break (int_range a b) (\<lambda>j (acc, e).
      if sent_end \<le> e \<or> span \<le> e - first then Some ((acc, e), False)
      else do {
        x \<leftarrow> AtIndex d e;
        new \<leftarrow> (if x = symbol then do { occ \<leftarrow> Some g; Some (acc @ occ @ [e]) } else Some acc);
        Some ((new, e + 1), True) }) (acc, e) =
    Some (acc @ concat (map (\<lambda>q. g @ [q]) (filter (\<lambda>q. AtIndex d q = Some symbol)
      (int_range e (min hi (e + (b - a)))))), e')"
  using assms(2)
proof (induction "nat (b - a)" arbitrary: a acc e)
  case 0
  then show ?case by simp
next
  case (Suc n)
  have ab: "int_range a b = a # int_range (a + 1) b" "n = nat (b - (a + 1))"
    using Suc(2) by (simp_all add: int_range_Cons)
  show ?case
  proof (cases "hi \<le> e")
    case True
    then have "sent_end \<le> e \<or> span \<le> e - first" using that by (auto simp: min_def split: if_splits)
    then show ?thesis using True ab(1) by auto
  next
    case False
    then have go: "\<not> (sent_end \<le> e \<or> span \<le> e - first)" using that by auto
    obtain x where x: "AtIndex d e = Some x" using Suc.prems [of e] False by auto
    have range: "int_range e (min hi (e + (b - a))) = e # int_range (e + 1) (min hi (e + 1 + (b - (a + 1))))"
      using False Suc(2) by (subst int_range_Cons) (auto simp: algebra_simps)
    have nx: "\<And>q. e + 1 \<le> q \<Longrightarrow> q < hi \<Longrightarrow> AtIndex d q \<noteq> None" using Suc.prems by simp
    note IH = Suc(1) [OF ab(2), where e = "e + 1", OF nx, where acc = "if x = symbol then acc @ g @ [e] else acc"]
    show ?thesis
      using IH go x unfolding ab(1) range by (cases "x = symbol") simp_all
  qed
qed

text \<open>
  C34. Extending one occurrence of a prefix that ends in a gap: the result is the occurrence
  followed by \<open>q\<close>, for exactly the positions \<open>q\<close> of the next word that lie past the smallest gap,
  before the end of the sentence and within the maximal span, in increasing order.
\<close>

theorem extend_prefix_at_gap:
  defines "d f \<equiv> sa_data (fi_suffix_array f)"
  assumes "vslice matchings i n = Some occ" "1 \<le> n" "0 \<le> hd occ" "hd occ \<le> last occ"
    and "GetSentenceId (d f) (hd occ) = Some sent_id" "GetSentenceStart (d f) (sent_id + 1) = Some (sent_end + 1)"
    and "sent_end \<le> GetSize (d f)" "GetChunkLen phrase (Arity phrase - 1) = Some len" "1 \<le> len" "0 \<le> fi_min_gap_size f"
  shows "extend_prefix_at f phrase True symbol n matchings i new_positions =
    Some (new_positions @ concat (map (\<lambda>q. occ @ [q]) (filter (\<lambda>q. AtIndex (d f) q = Some symbol)
      (int_range (last occ + len + fi_min_gap_size f) (min sent_end (hd occ + fi_max_rule_span f))))))"
proof -
  let ?span = "fi_max_rule_span f" and ?gap = "fi_min_gap_size f" and ?first = "hd occ"
  let ?e = "last occ + len + ?gap" and ?hi = "min sent_end (hd occ + fi_max_rule_span f)"
  have occ: "0 \<le> i" "i + n \<le> int (length matchings)" "occ = take (nat n) (drop (nat i) matchings)"
    using assms(2) by (auto simp: vslice_Some_iff)
  have len: "length occ = nat n" "occ \<noteq> []" using occ assms(3) by auto
  have hd: "vat matchings i = Some (hd occ)"
    using occ assms(3) len by (simp add: vat_eq hd_conv_nth)
  have last: "vat matchings (i + n - 1) = Some (last occ)"
  proof -
    have "last occ = matchings ! (nat i + (nat n - 1))"
      using occ assms(3) len by (simp add: last_conv_nth)
    also have "nat i + (nat n - 1) = nat (i + n - 1)" using occ(1) assms(3) by linarith
    finally show ?thesis using occ(1,2) assms(3) by (simp add: vat_eq)
  qed
  have in_range: "AtIndex (d f) q \<noteq> None" if "?e \<le> q" "q < ?hi" for q
    using that assms(4,5,8,10,11) by (auto simp: AtIndex_def vat_None_iff GetSize_def vsize_def)
  obtain e' where loop: "for_break (int_range (?gap + 1) ?span) (\<lambda>j (acc, e).
      if sent_end \<le> e \<or> ?span \<le> e - ?first then Some ((acc, e), False)
      else do {
        x \<leftarrow> AtIndex (d f) e;
        new \<leftarrow> (if x = symbol then do { occ \<leftarrow> Some occ; Some (acc @ occ @ [e]) } else Some acc);
        Some ((new, e + 1), True) }) (new_positions, ?e) =
    Some (new_positions @ concat (map (\<lambda>q. occ @ [q]) (filter (\<lambda>q. AtIndex (d f) q = Some symbol)
      (int_range ?e (min ?hi (?e + (?span - (?gap + 1))))))), e')"
    using scan_up [OF refl in_range] by blast
  have cap: "int_range ?e (min ?hi (?e + (?span - (?gap + 1)))) = int_range ?e ?hi"
    using assms(5,10) by (cases "?e < ?hi") (simp_all add: min_def)
  have e: "last occ + (?gap + 1) + (len - 1) = ?e" by simp
  show ?thesis
    using hd last assms(2,6,7,9) loop unfolding cap d_def
    by (simp add: extend_prefix_at_def GetSearchRange_def Let_def algebra_simps cong: if_cong)
qed

lemma scan_down:
  assumes that: "lo = max sent_start (pattern_end - span + 1)" and "\<And>q. lo \<le> q \<Longrightarrow> q \<le> e \<Longrightarrow> AtIndex d q \<noteq> None"
  shows "\<exists>e'. for_break (int_range a b) (\<lambda>j (acc, e).
      if e < sent_start \<or> span \<le> pattern_end - e then Some ((acc, e), False)
      else do {
        x \<leftarrow> AtIndex d e;
        new \<leftarrow> (if x = symbol then do { g \<leftarrow> Some occ; Some (acc @ [e] @ g) } else Some acc);
        Some ((new, e - 1), True) }) (acc, e) =
    Some (acc @ concat (map (\<lambda>q. q # occ) (filter (\<lambda>q. AtIndex d q = Some symbol)
      (rev (int_range (max lo (e + 1 - (b - a))) (e + 1))))), e')"
  using assms(2)
proof (induction "nat (b - a)" arbitrary: a acc e)
  case 0
  then show ?case by simp
next
  case (Suc n)
  have ab: "int_range a b = a # int_range (a + 1) b" "n = nat (b - (a + 1))"
    using Suc(2) by (simp_all add: int_range_Cons)
  show ?case
  proof (cases "e < lo")
    case True
    then have "e < sent_start \<or> span \<le> pattern_end - e" using that by (auto simp: max_def split: if_splits)
    then show ?thesis using True ab(1) by auto
  next
    case False
    then have go: "\<not> (e < sent_start \<or> span \<le> pattern_end - e)" using that by auto
    obtain x where x: "AtIndex d e = Some x" using Suc.prems [of e] False by auto
    have "int_range (max lo (e + 1 - (b - a))) (e + 1) = int_range (max lo (e + 1 - (b - a))) e @ [e]"
      using False Suc(2) by (intro int_range_snoc) auto
    then have range: "rev (int_range (max lo (e + 1 - (b - a))) (e + 1)) =
        e # rev (int_range (max lo (e - 1 + 1 - (b - (a + 1)))) (e - 1 + 1))"
      by (simp add: algebra_simps)
    have nx: "\<And>q. lo \<le> q \<Longrightarrow> q \<le> e - 1 \<Longrightarrow> AtIndex d q \<noteq> None" using Suc.prems by simp
    note IH = Suc(1) [OF ab(2), where e = "e - 1", OF nx, where acc = "if x = symbol then acc @ e # occ else acc"]
    show ?thesis
      using IH go x unfolding ab(1) range by (cases "x = symbol") simp_all
  qed
qed

text \<open>
   Extending one occurrence of a suffix that starts with a gap: the result is \<open>q\<close> followed
  by the occurrence, for exactly the positions \<open>q\<close> of the word before it that lie before the
  smallest gap, inside the sentence and within the maximal span of the end of the occurrence,
  in decreasing order.
\<close>

theorem extend_suffix_at_gap:
  defines "d f \<equiv> sa_data (fi_suffix_array f)"
  assumes "vslice matchings i n = Some occ" "1 \<le> n" "hd occ \<le> last occ" "hd occ < GetSize (d f)"
    and "GetSentenceId (d f) (hd occ) = Some sent_id" "GetSentenceStart (d f) sent_id = Some sent_start"
    and "0 \<le> sent_start" "GetChunkLen phrase (Arity phrase) = Some len" "1 \<le> len" "0 \<le> fi_min_gap_size f"
  shows "extend_suffix_at f phrase True symbol n matchings i new_positions =
    Some (new_positions @ concat (map (\<lambda>q. q # occ) (filter (\<lambda>q. AtIndex (d f) q = Some symbol)
      (rev (int_range (max sent_start (last occ + len - fi_max_rule_span f)) (hd occ - fi_min_gap_size f))))))"
proof -
  let ?span = "fi_max_rule_span f" and ?gap = "fi_min_gap_size f" and ?e = "hd occ - (fi_min_gap_size f + 1)"
  let ?lo = "max sent_start (last occ + len - 1 - ?span + 1)"
  have occ: "0 \<le> i" "i + n \<le> int (length matchings)" "occ = take (nat n) (drop (nat i) matchings)"
    using assms(2) by (auto simp: vslice_Some_iff)
  have len: "length occ = nat n" "occ \<noteq> []" using occ assms(3) by auto
  have hd: "vat matchings i = Some (hd occ)"
    using occ assms(3) len by (simp add: vat_eq hd_conv_nth)
  have last: "vat matchings (i + n - 1) = Some (last occ)"
  proof -
    have "last occ = matchings ! (nat i + (nat n - 1))"
      using occ assms(3) len by (simp add: last_conv_nth)
    also have "nat i + (nat n - 1) = nat (i + n - 1)" using occ(1) assms(3) by linarith
    finally show ?thesis using occ(1,2) assms(3) by (simp add: vat_eq)
  qed
  have in_range: "AtIndex (d f) q \<noteq> None" if "?lo \<le> q" "q \<le> ?e" for q
    using that assms(5,8,11) by (auto simp: AtIndex_def vat_None_iff GetSize_def vsize_def)
  obtain e' where loop: "for_break (int_range (?gap + 1) ?span) (\<lambda>j (acc, e).
      if e < sent_start \<or> ?span \<le> last occ + len - 1 - e then Some ((acc, e), False)
      else do {
        x \<leftarrow> AtIndex (d f) e;
        new \<leftarrow> (if x = symbol then do { g \<leftarrow> Some occ; Some (acc @ [e] @ g) } else Some acc);
        Some ((new, e - 1), True) }) (new_positions, ?e) =
    Some (new_positions @ concat (map (\<lambda>q. q # occ) (filter (\<lambda>q. AtIndex (d f) q = Some symbol)
      (rev (int_range (max ?lo (?e + 1 - (?span - (?gap + 1)))) (?e + 1))))), e')"
    using scan_down [OF refl in_range] by blast
  have cap: "?e + 1 = hd occ - ?gap"
    "max ?lo (hd occ - ?gap - (?span - (?gap + 1))) = max sent_start (last occ + len - ?span)"
    using assms(4,10) by simp_all
  show ?thesis
    using hd last assms(2,6,7,9) loop unfolding cap d_def
    by (simp add: extend_suffix_at_def GetSearchRange_def Let_def algebra_simps cong: if_cong)
qed

definition sample_intersector :: intersector where
  "sample_intersector =
     \<lparr>fi_suffix_array = \<lparr>sa_data = DataArray_of_file [''a c b c b a''], sa_array = [], sa_word_start = []\<rparr>,
      fi_index = Map.empty, fi_max_rule_span = 5, fi_min_gap_size = 1\<rparr>"

definition sample_phrase :: phrase where
  "sample_phrase = \<lparr>ph_symbols = [0, - 1, 1], ph_var_pos = [1], ph_words = [''a'', ''b'']\<rparr>"

lemma sample_lookups:
  "GetSentenceId (sa_data (fi_suffix_array sample_intersector)) 0 = Some 0"
  "GetSentenceId (sa_data (fi_suffix_array sample_intersector)) 4 = Some 0"
  "GetSentenceStart (sa_data (fi_suffix_array sample_intersector)) 0 = Some 0"
  "GetSentenceStart (sa_data (fi_suffix_array sample_intersector)) 1 = Some 7"
  "GetSize (sa_data (fi_suffix_array sample_intersector)) = 7"
  "GetChunkLen sample_phrase (Arity sample_phrase - 1) = Some 1" "GetChunkLen sample_phrase (Arity sample_phrase) = Some 1"
  "fi_max_rule_span sample_intersector = 5" "fi_min_gap_size sample_intersector = 1"
  by code_simp+

lemma extend_prefix_at_gap_witness:
  "vslice [0] 0 1 = Some [0 :: int] \<and> GetSentenceId (sa_data (fi_suffix_array sample_intersector)) 0 = Some 0 \<and>
   extend_prefix_at sample_intersector sample_phrase True 4 1 [0] 0 [] = Some [0, 2, 0, 4]"
proof -
  let ?d = "sa_data (fi_suffix_array sample_intersector)"
  have v: "vslice [0] 0 1 = Some [0 :: int]" by (simp add: vslice_def)
  have "extend_prefix_at sample_intersector sample_phrase True 4 1 [0] 0 [] =
    Some ([] @ concat (map (\<lambda>q. [0] @ [q]) (filter (\<lambda>q. AtIndex ?d q = Some 4) (int_range 2 5))))"
    using extend_prefix_at_gap [OF v, of sample_intersector 0 6 sample_phrase 1 4 "[]"] sample_lookups by simp
  moreover have "concat (map (\<lambda>q. [0] @ [q]) (filter (\<lambda>q. AtIndex ?d q = Some 4) (int_range 2 5))) = [0, 2, 0, 4]"
    by code_simp
  ultimately show ?thesis using v sample_lookups(1) by simp
qed

lemma extend_suffix_at_gap_witness:
  "vslice [4] 0 1 = Some [4 :: int] \<and> GetSentenceId (sa_data (fi_suffix_array sample_intersector)) 4 = Some 0 \<and>
   extend_suffix_at sample_intersector sample_phrase True 2 1 [4] 0 [] = Some [0, 4]"
proof -
  let ?d = "sa_data (fi_suffix_array sample_intersector)"
  have v: "vslice [4] 0 1 = Some [4 :: int]" by (simp add: vslice_def)
  have "extend_suffix_at sample_intersector sample_phrase True 2 1 [4] 0 [] =
    Some ([] @ concat (map (\<lambda>q. q # [4]) (filter (\<lambda>q. AtIndex ?d q = Some 2) (rev (int_range 0 3)))))"
    using extend_suffix_at_gap [OF v, of sample_intersector 0 0 sample_phrase 1 2 "[]"] sample_lookups by simp
  moreover have "concat (map (\<lambda>q. q # [4]) (filter (\<lambda>q. AtIndex ?d q = Some 2) (rev (int_range 0 3)))) = [0, 4]"
    by code_simp
  ultimately show ?thesis using v sample_lookups(2) by simp
qed

end
