(* ===== verification/Spans.thy ===== *)
theory Spans
  imports Phrases
begin

text \<open>
  \<open>RuleExtractorHelper\<close> (\<open>extractor/rule_extractor_helper\<close>): alignment spans, the fix point
  of projecting a phrase to the other side and back, the checks on a matching, gaps and their
  order. Out parameters are results. A span is \<open>-1\<close> where nothing is aligned.
\<close>

record helper =
  rh_source :: data_array
  rh_target :: data_array
  rh_alignment :: alignment
  rh_max_rule_span :: int
  rh_max_rule_symbols :: int
  rh_require_aligned_terminal :: bool
  rh_require_aligned_chunks :: bool
  rh_require_tight_phrases :: bool

section \<open>Alignment spans\<close>

definition add_link :: "int \<Rightarrow> int \<Rightarrow> int list \<times> int list \<Rightarrow> (int list \<times> int list) option" where
  "add_link i j = (\<lambda>(low, high). do {
     l \<leftarrow> vat low i;
     low' \<leftarrow> (if l = -1 \<or> j < l then vset low i j else Some low);
     h \<leftarrow> vat high i;
     high' \<leftarrow> vset high i (max h (j + 1));
     Some (low', high') })"

definition GetLinksSpans ::
  "helper \<Rightarrow> int \<Rightarrow> ((int list \<times> int list) \<times> (int list \<times> int list)) option" where
  "GetLinksSpans r sentence_id = do {
     n \<leftarrow> GetSentenceLength (rh_source r) sentence_id;
     m \<leftarrow> GetSentenceLength (rh_target r) sentence_id;
     links \<leftarrow> GetLinks (rh_alignment r) sentence_id;
     for_each links (\<lambda>link (source, target). do {
         source' \<leftarrow> add_link (fst link) (snd link) source;
         target' \<leftarrow> add_link (snd link) (fst link) target;
         Some (source', target') })
       ((replicate (nat n) (-1), replicate (nat n) (-1)), (replicate (nat m) (-1), replicate (nat m) (-1))) }"

section \<open>Checks on a matching\<close>

definition chunk_aligned :: "int list \<Rightarrow> int list \<Rightarrow> int \<Rightarrow> int \<Rightarrow> int \<Rightarrow> bool option" where
  "chunk_aligned matching source_low source_sent_start i len =
     for_break (size_range 0 len) (\<lambda>j found. do {
       m \<leftarrow> vat matching i;
       l \<leftarrow> vat source_low (m - source_sent_start + j);
       Some (if l \<noteq> -1 then (True, False) else (found, True)) }) False"

definition CheckAlignedTerminals ::
  "helper \<Rightarrow> int list \<Rightarrow> int list \<Rightarrow> int list \<Rightarrow> int \<Rightarrow> bool option" where
  "CheckAlignedTerminals r matching chunklen source_low source_sent_start =
     (if \<not> rh_require_aligned_terminal r then Some True
      else do {
        num_aligned_chunks \<leftarrow> for_each (positions chunklen) (\<lambda>i n. do {
          len \<leftarrow> vat chunklen i;
          a \<leftarrow> chunk_aligned matching source_low source_sent_start i len;
          Some (if a then n + 1 else n) }) 0;
        if num_aligned_chunks = 0 then Some False
        else Some (\<not> rh_require_aligned_chunks r \<or> num_aligned_chunks = vsize chunklen) })"

definition CheckTightPhrases ::
  "helper \<Rightarrow> int list \<Rightarrow> int list \<Rightarrow> int list \<Rightarrow> int \<Rightarrow> bool option" where
  "CheckTightPhrases r matching chunklen source_low source_sent_start =
     (if \<not> rh_require_tight_phrases r then Some True
      else for_break (int_range 0 (vsize chunklen - 1)) (\<lambda>i tight. do {
        m \<leftarrow> vat matching i; len \<leftarrow> vat chunklen i; m' \<leftarrow> vat matching (i + 1);
        a \<leftarrow> vat source_low (m + len - source_sent_start);
        if a = -1 then Some (False, False)
        else do {
          b \<leftarrow> vat source_low (m' - 1 - source_sent_start);
          Some (if b = -1 then (False, False) else (tight, True)) } }) True)"

section \<open>Projection and fix point\<close>

definition FindProjection ::
  "int \<Rightarrow> int \<Rightarrow> int list \<Rightarrow> int list \<Rightarrow> int \<times> int \<Rightarrow> (int \<times> int) option" where
  "FindProjection phrase_low phrase_high low high =
     for_each (size_range phrase_low phrase_high) (\<lambda>i (target_low, target_high). do {
       l \<leftarrow> vat low i;
       if l \<noteq> -1 then do {
         h \<leftarrow> vat high i;
         Some (if target_low = -1 \<or> l < target_low then l else target_low, max target_high h) }
       else Some (target_low, target_high) })"

record spans =
  sp_source_low :: "int list"
  sp_source_high :: "int list"
  sp_target_low :: "int list"
  sp_target_high :: "int list"

record expansion =
  ex_min_source_gap_size :: int
  ex_max_new_x :: int
  ex_allow_low_x :: bool
  ex_allow_high_x :: bool
  ex_allow_arbitrary :: bool

record fix_point =
  fp_target_low :: int
  fp_target_high :: int
  fp_back_low :: int
  fp_back_high :: int

text \<open>
  The \<open>while (true)\<close> loop. \<open>Some None\<close> is \<open>return false\<close>; every caller then drops the out
  parameters.
\<close>

function fix_point_loop ::
  "helper \<Rightarrow> spans \<Rightarrow> expansion \<Rightarrow> int \<Rightarrow> int \<Rightarrow> int \<Rightarrow> int \<Rightarrow> int \<Rightarrow> int \<Rightarrow> int \<Rightarrow> int \<Rightarrow> bool \<Rightarrow> bool \<Rightarrow>
   fix_point option option" where
  "fix_point_loop r s e source_sent_len source_phrase_low source_phrase_high target_phrase_low target_phrase_high
     source_back_low source_back_high new_x new_low_x new_high_x = (
     let back_low = min source_back_low source_phrase_low;
         back_high = max source_back_high source_phrase_high in
     if back_low = source_phrase_low \<and> back_high = source_phrase_high then
       Some (Some \<lparr>fp_target_low = target_phrase_low, fp_target_high = target_phrase_high,
                   fp_back_low = back_low, fp_back_high = back_high\<rparr>)
     else if \<not> ex_allow_low_x e \<and> back_low < source_phrase_low then Some None
     else if \<not> ex_allow_high_x e \<and> source_phrase_high < back_high then Some None
     else if back_low < source_phrase_low \<and> \<not> new_low_x \<and> ex_max_new_x e \<le> new_x then Some None
     else let extend_low = back_low < source_phrase_low;
              new_x1 = (if extend_low \<and> \<not> new_low_x then new_x + 1 else new_x);
              new_low_x1 = (new_low_x \<or> extend_low);
              back_low1 = (if extend_low \<and> source_phrase_low - back_low < ex_min_source_gap_size e
                then source_phrase_low - ex_min_source_gap_size e else back_low) in
     if extend_low \<and> source_phrase_low - back_low < ex_min_source_gap_size e \<and> back_low1 < 0 then Some None
     else if source_phrase_high < back_high \<and> \<not> new_high_x \<and> ex_max_new_x e \<le> new_x1 then Some None
     else let extend_high = source_phrase_high < back_high;
              new_x2 = (if extend_high \<and> \<not> new_high_x then new_x1 + 1 else new_x1);
              new_high_x1 = (new_high_x \<or> extend_high);
              back_high1 = (if extend_high \<and> back_high - source_phrase_high < ex_min_source_gap_size e
                then source_phrase_high + ex_min_source_gap_size e else back_high) in
     if extend_high \<and> back_high - source_phrase_high < ex_min_source_gap_size e \<and> source_sent_len < back_high1 then Some None
     else if rh_max_rule_span r < back_high1 - back_low1 then Some None
     else do {
       p1 \<leftarrow> FindProjection back_low1 source_phrase_low (sp_source_low s) (sp_source_high s)
         (target_phrase_low, target_phrase_high);
       (target_low, target_high) \<leftarrow> FindProjection source_phrase_high back_high1 (sp_source_low s) (sp_source_high s) p1;
       if target_phrase_low = target_low \<and> target_phrase_high = target_high then
         Some (Some \<lparr>fp_target_low = target_low, fp_target_high = target_high,
                     fp_back_low = back_low1, fp_back_high = back_high1\<rparr>)
       else if \<not> ex_allow_arbitrary e then Some None
       else if rh_max_rule_span r < target_high - target_low then Some None
       else do {
         q1 \<leftarrow> FindProjection target_low target_phrase_low (sp_target_low s) (sp_target_high s) (back_low1, back_high1);
         (back_low2, back_high2) \<leftarrow> FindProjection target_phrase_high target_high (sp_target_low s) (sp_target_high s) q1;
         fix_point_loop r s e source_sent_len back_low1 back_high1 target_low target_high back_low2 back_high2
           new_x2 new_low_x1 new_high_x1 } })"
  by pat_completeness auto
termination
  by (relation "measure (\<lambda>(r, s, e, n, l, h, _). nat (rh_max_rule_span r - (h - l)))")
    (auto simp: Let_def min_def max_def split: if_splits)

declare fix_point_loop.simps [simp del]

definition FindFixPoint ::
  "helper \<Rightarrow> spans \<Rightarrow> expansion \<Rightarrow> int \<Rightarrow> int \<Rightarrow> int \<times> int \<Rightarrow> int \<Rightarrow> int \<Rightarrow> fix_point option option" where
  "FindFixPoint r s e source_phrase_low source_phrase_high prev sentence_id min_target_gap_size = do {
     (target_low, target_high) \<leftarrow> FindProjection source_phrase_low source_phrase_high (sp_source_low s) (sp_source_high s) prev;
     if target_low = -1 then Some None
     else do {
       source_sent_len \<leftarrow> GetSentenceLength (rh_source r) sentence_id;
       target_sent_len \<leftarrow> GetSentenceLength (rh_target r) sentence_id;
       let grow_low = (fst prev \<noteq> -1 \<and> target_low \<noteq> fst prev \<and> fst prev - target_low < min_target_gap_size);
       let target_low1 = (if grow_low then fst prev - min_target_gap_size else target_low);
       if grow_low \<and> target_low1 < 0 then Some None
       else do {
         let grow_high = (snd prev \<noteq> -1 \<and> target_high \<noteq> snd prev \<and> target_high - snd prev < min_target_gap_size);
         let target_high1 = (if grow_high then snd prev + min_target_gap_size else target_high);
         if grow_high \<and> target_sent_len < target_high1 then Some None
         else if rh_max_rule_span r < target_high1 - target_low1 then Some None
         else do {
           (back_low, back_high) \<leftarrow> FindProjection target_low1 target_high1 (sp_target_low s) (sp_target_high s) (-1, -1);
           fix_point_loop r s e source_sent_len source_phrase_low source_phrase_high target_low1 target_high1
             back_low back_high 0 False False } } } }"

section \<open>Gaps\<close>

definition edge_loose :: "helper \<Rightarrow> int list \<Rightarrow> int \<Rightarrow> bool option" where
  "edge_loose r source_low i = (if rh_require_tight_phrases r
     then do { l \<leftarrow> vat source_low i; Some (l = -1) } else Some False)"

text \<open>
  A gap before or after the phrase: \<open>Some None\<close> is \<open>return false\<close>. When the phrase was not
  extended on this side, a loose edge only clears \<open>met_constraints\<close>.
\<close>

definition margin_gap ::
  "helper \<Rightarrow> int list \<Rightarrow> int \<Rightarrow> int \<Rightarrow> int \<Rightarrow> (int \<times> int) list \<times> int \<times> bool \<Rightarrow>
   ((int \<times> int) list \<times> int \<times> bool) option option" where
  "margin_gap r source_low low high edge = (\<lambda>(gaps, num_symbols, met).
     if low < high then
       if rh_max_rule_symbols r \<le> num_symbols then Some None
       else do {
         a \<leftarrow> edge_loose r source_low low;
         b \<leftarrow> (if a then Some True else edge_loose r source_low (high - 1));
         Some (if b then None else Some (gaps @ [(low, high)], num_symbols + 1, met)) }
     else do {
       a \<leftarrow> edge_loose r source_low edge;
       Some (Some (gaps, num_symbols, met \<and> \<not> a)) })"

definition inner_gaps :: "int list \<Rightarrow> int list \<Rightarrow> int \<Rightarrow> (int \<times> int) list \<Rightarrow> (int \<times> int) list option" where
  "inner_gaps matching chunklen source_sent_start = for_each (int_range 0 (vsize chunklen - 1)) (\<lambda>i gaps. do {
     m \<leftarrow> vat matching i; len \<leftarrow> vat chunklen i; m' \<leftarrow> vat matching (i + 1);
     Some (gaps @ [(m + len - source_sent_start, m' - source_sent_start)]) })"

definition no_expansion :: expansion where
  "no_expansion = \<lparr>ex_min_source_gap_size = 0, ex_max_new_x = 0, ex_allow_low_x = False,
     ex_allow_high_x = False, ex_allow_arbitrary = False\<rparr>"

text \<open>The last loop: every gap must have a target span that reflects back into it.\<close>

definition gap_targets ::
  "helper \<Rightarrow> spans \<Rightarrow> int \<Rightarrow> (int \<times> int) list \<Rightarrow> ((int \<times> int) list \<times> (int \<times> int) list) option option" where
  "gap_targets r s sentence_id gaps = for_break gaps (\<lambda>g acc. do {
     res \<leftarrow> FindFixPoint r s no_expansion (fst g) (snd g) (-1, -1) sentence_id 0;
     Some (case (res, acc) of
       (Some f, Some (sources, targets)) \<Rightarrow>
         (Some (sources @ [(fp_back_low f, fp_back_high f)], targets @ [(fp_target_low f, fp_target_high f)]), True)
     | _ \<Rightarrow> (None, False)) }) (Some ([], []))"

definition GetGaps ::
  "helper \<Rightarrow> spans \<Rightarrow> int list \<Rightarrow> int list \<Rightarrow> int \<times> int \<Rightarrow> int \<times> int \<Rightarrow> int \<Rightarrow> int \<Rightarrow> int \<Rightarrow> bool \<Rightarrow>
   ((int \<times> int) list \<times> (int \<times> int) list \<times> int \<times> bool) option option" where
  "GetGaps r s matching chunklen source_phrase source_back sentence_id source_sent_start num_symbols met = do {
     leading \<leftarrow> margin_gap r (sp_source_low s) (fst source_back) (fst source_phrase) (fst source_phrase)
       ([], num_symbols, met);
     (case leading of None \<Rightarrow> Some None | Some (gaps1, num_symbols1, met1) \<Rightarrow> do {
       gaps2 \<leftarrow> inner_gaps matching chunklen source_sent_start gaps1;
       after \<leftarrow> margin_gap r (sp_source_low s) (snd source_phrase) (snd source_back) (snd source_phrase - 1)
         (gaps2, num_symbols1, met1);
       (case after of None \<Rightarrow> Some None | Some (gaps3, num_symbols2, met2) \<Rightarrow> do {
         res \<leftarrow> gap_targets r s sentence_id gaps3;
         Some (case res of None \<Rightarrow> None
           | Some (source_gaps, target_gaps) \<Rightarrow> Some (source_gaps, target_gaps, num_symbols2, met2)) }) }) }"

definition order_step :: "(int \<times> int) list \<Rightarrow> int \<Rightarrow> int \<Rightarrow> int list \<Rightarrow> int list option" where
  "order_step gaps i j gap_order = do {
     oj \<leftarrow> vat gap_order j; g \<leftarrow> vat gaps oj; gi \<leftarrow> vat gaps i;
     if pair_less g gi then do { oi \<leftarrow> vat gap_order i; vset gap_order i (oi + 1) }
     else vset gap_order j (oj + 1) }"

definition GetGapOrder :: "(int \<times> int) list \<Rightarrow> int list option" where
  "GetGapOrder gaps = for_each (positions gaps) (\<lambda>i. for_each (int_range 0 i) (order_step gaps i))
     (replicate (length gaps) 0)"

definition GetSourceIndexes :: "int list \<Rightarrow> int list \<Rightarrow> int \<Rightarrow> int \<Rightarrow> (int \<rightharpoonup> int) option" where
  "GetSourceIndexes matching chunklen starts_with_x source_sent_start = map_option fst (
     for_each (positions matching) (\<lambda>i (source_indexes, num_symbols). do {
       len \<leftarrow> vat chunklen i; m \<leftarrow> vat matching i;
       let (source_indexes', num_symbols') = fold (\<lambda>j (ix, n). (ix(m + j - source_sent_start \<mapsto> n), n + 1))
         (size_range 0 len) (source_indexes, num_symbols);
       Some (source_indexes', num_symbols' + 1) }) (Map.empty, starts_with_x))"

section \<open>The spans of the links\<close>

definition partners :: "(int \<times> int) list \<Rightarrow> int \<Rightarrow> int set" where
  "partners links i = {j. (i, j) \<in> set links}"

text \<open>For every word the first linked position and one past the last one, \<open>-1\<close> without links.\<close>

definition link_spans :: "(int \<times> int) list \<Rightarrow> nat \<Rightarrow> int list \<Rightarrow> int list \<Rightarrow> bool" where
  "link_spans links n low high \<longleftrightarrow> length low = n \<and> length high = n \<and>
     (\<forall>i<n. low ! i = (if partners links (int i) = {} then -1 else Min (partners links (int i))) \<and>
            high ! i = (if partners links (int i) = {} then -1 else Max (partners links (int i)) + 1))"

definition links_inside :: "(int \<times> int) list \<Rightarrow> nat \<Rightarrow> nat \<Rightarrow> bool" where
  "links_inside links n m \<longleftrightarrow> (\<forall>(i, j) \<in> set links. 0 \<le> i \<and> i < int n \<and> 0 \<le> j \<and> j < int m)"

definition flip :: "(int \<times> int) list \<Rightarrow> (int \<times> int) list" where
  "flip links = map (\<lambda>(i, j). (j, i)) links"

lemma finite_partners [simp, intro]: "finite (partners links i)"
proof -
  have "partners links i \<subseteq> snd ` set links" by (force simp: partners_def)
  then show ?thesis by (rule finite_subset) simp
qed

lemma partners_snoc: "partners (links @ [(i, j)]) k = (if k = i then insert j (partners links k) else partners links k)"
  by (auto simp: partners_def)

lemma in_flip [simp]: "(j, i) \<in> set (flip links) \<longleftrightarrow> (i, j) \<in> set links"
  by (force simp: flip_def)

lemma flip_snoc [simp]: "flip (links @ [(i, j)]) = flip links @ [(j, i)]"
  by (simp add: flip_def)

lemma links_inside_flip: "links_inside links n m \<Longrightarrow> links_inside (flip links) m n"
  by (force simp: links_inside_def flip_def)

lemma link_spans_empty: "link_spans [] n (replicate n (-1)) (replicate n (-1))"
  by (simp add: link_spans_def partners_def)

lemma links_inside_snoc:
  "links_inside (links @ [(i, j)]) n m \<longleftrightarrow> links_inside links n m \<and> 0 \<le> i \<and> i < int n \<and> 0 \<le> j \<and> j < int m"
  by (auto simp: links_inside_def)

lemma add_link_spans:
  assumes "link_spans links n low high" "links_inside (links @ [(i, j)]) n m"
  shows "\<exists>low' high'. add_link i j (low, high) = Some (low', high') \<and> link_spans (links @ [(i, j)]) n low' high'"
proof -
  let ?T = "partners links i"
  have i: "0 \<le> i" "i < int n" "0 \<le> j" and inside: "links_inside links n m"
    using assms(2) by (auto simp: links_inside_snoc)
  have len: "length low = n" "length high = n" using assms(1) by (auto simp: link_spans_def)
  have at: "low ! nat i = (if ?T = {} then -1 else Min ?T)" "high ! nat i = (if ?T = {} then -1 else Max ?T + 1)"
    using assms(1) i by (auto simp: link_spans_def)
  have pos: "?T \<noteq> {} \<Longrightarrow> 0 \<le> Min ?T" using inside
    unfolding Min_ge_iff [OF finite_partners] by (auto simp: partners_def links_inside_def)
  let ?low = "if low ! nat i = -1 \<or> j < low ! nat i then low[nat i := j] else low"
  let ?high = "high[nat i := max (high ! nat i) (j + 1)]"
  have run: "add_link i j (low, high) = Some (?low, ?high)"
    using i len by (auto simp: add_link_def vat_eq vset_eq)
  have "link_spans (links @ [(i, j)]) n ?low ?high"
    unfolding link_spans_def
  proof (intro conjI allI impI)
    fix k assume k: "k < n"
    show "?low ! k = (if partners (links @ [(i, j)]) (int k) = {} then -1
      else Min (partners (links @ [(i, j)]) (int k)))"
    proof (cases "int k = i")
      case True
      then show ?thesis using k len at(1) pos i(3)
        by (cases "?T = {}") (auto simp: partners_snoc min_def simp del: Min_le_iff Min_ge_iff Min_less_iff Min_gr_iff)
    next
      case False
      then have "nat i \<noteq> k" using i by auto
      then show ?thesis using False assms(1) k by (auto simp: partners_snoc link_spans_def)
    qed
    show "?high ! k = (if partners (links @ [(i, j)]) (int k) = {} then -1
      else Max (partners (links @ [(i, j)]) (int k)) + 1)"
    proof (cases "int k = i")
      case True
      then show ?thesis using k len at(2) i(3)
        by (cases "?T = {}") (auto simp: partners_snoc simp del: Max_le_iff Max_ge_iff Max_less_iff Max_gr_iff)
    next
      case False
      then have "nat i \<noteq> k" using i by auto
      then show ?thesis using False assms(1) k by (auto simp: partners_snoc link_spans_def)
    qed
  qed (use len in auto)
  with run show ?thesis by blast
qed

text \<open>
   \<open>GetLinksSpans\<close> gives every source and every target word the exact span of its links,
  and \<open>-1\<close> to the words without links, when the links lie inside the sentence pair.
\<close>

theorem GetLinksSpans_exact:
  assumes "GetSentenceLength (rh_source r) k = Some (int n)" "GetSentenceLength (rh_target r) k = Some (int m)"
    "GetLinks (rh_alignment r) k = Some links" "links_inside links n m"
  shows "\<exists>sl sh tl th. GetLinksSpans r k = Some ((sl, sh), (tl, th)) \<and> link_spans links n sl sh \<and>
    link_spans (flip links) m tl th"
proof -
  let ?I = "\<lambda>ys. \<lambda>(source, target). link_spans ys n (fst source) (snd source) \<and> link_spans (flip ys) m (fst target) (snd target)"
  have "\<exists>t. for_each links (\<lambda>link (source, target). do {
         source' \<leftarrow> add_link (fst link) (snd link) source;
         target' \<leftarrow> add_link (snd link) (fst link) target;
         Some (source', target') })
       ((replicate n (-1), replicate n (-1)), (replicate m (-1), replicate m (-1))) = Some t \<and> ?I links t"
  proof (rule for_each_total)
    show "?I [] ((replicate n (-1), replicate n (-1)), (replicate m (-1), replicate m (-1)))"
      by (simp add: link_spans_empty flip_def)
  next
    fix ys x zs s
    assume split: "links = ys @ x # zs" and I: "?I ys s"
    obtain i j where x: "x = (i, j)" by (cases x)
    obtain sl sh tl th where s: "s = ((sl, sh), (tl, th))" by (metis prod.exhaust)
    have inside: "links_inside (ys @ [(i, j)]) n m"
      using assms(4) split x by (auto simp: links_inside_def)
    have inside': "links_inside (flip ys @ [(j, i)]) m n" using links_inside_flip [OF inside] by simp
    have Is: "link_spans ys n sl sh" "link_spans (flip ys) m tl th" using I s by auto
    obtain sl' sh' where 1: "add_link i j (sl, sh) = Some (sl', sh')" "link_spans (ys @ [(i, j)]) n sl' sh'"
      using add_link_spans [OF Is(1) inside] by blast
    obtain tl' th' where 2: "add_link j i (tl, th) = Some (tl', th')" "link_spans (flip ys @ [(j, i)]) m tl' th'"
      using add_link_spans [OF Is(2) inside'] by blast
    show "\<exists>s'. (case s of (source, target) \<Rightarrow> do {
         source' \<leftarrow> add_link (fst x) (snd x) source;
         target' \<leftarrow> add_link (snd x) (fst x) target;
         Some (source', target') }) = Some s' \<and> ?I (ys @ [x]) s'"
      using 1 2 x s by simp
  qed
  then show ?thesis using assms(1-3) by (auto simp: GetLinksSpans_def)
qed

section \<open>Projections\<close>

lemma link_spans_at:
  assumes "link_spans links n low high" "(i, j) \<in> set links" "0 \<le> i" "i < int n"
  shows "low ! nat i \<le> j" "j < high ! nat i" "(i, low ! nat i) \<in> set links"
proof -
  have j: "j \<in> partners links i" using assms(2) by (simp add: partners_def)
  then have at: "low ! nat i = Min (partners links i)" "high ! nat i = Max (partners links i) + 1"
    using assms(1,3,4) by (auto simp: link_spans_def)
  have "Min (partners links i) \<le> j" "j \<le> Max (partners links i)"
    using j by (auto intro: Min_le Max_ge)
  then show "low ! nat i \<le> j" "j < high ! nat i" using at by simp_all
  have "Min (partners links i) \<in> partners links i" using j by (intro Min_in) auto
  then show "(i, low ! nat i) \<in> set links" using at by (simp add: partners_def)
qed

lemma link_spans_bounds:
  assumes "link_spans links n low high" "links_inside links n m" "k < n" "low ! k \<noteq> -1"
  shows "0 \<le> low ! k" "low ! k < int m" "high ! k \<le> int m" "(int k, low ! k) \<in> set links"
proof -
  let ?T = "partners links (int k)"
  have at: "low ! k = Min ?T" "high ! k = Max ?T + 1" "?T \<noteq> {}"
    using assms(1,3,4) by (auto simp: link_spans_def split: if_splits)
  have in_T: "Min ?T \<in> ?T" "Max ?T \<in> ?T" using at(3) by (auto intro: Min_in Max_in)
  have bound: "0 \<le> j \<and> j < int m" if "j \<in> ?T" for j
    using that assms(2) by (auto simp: partners_def links_inside_def)
  show "0 \<le> low ! k" "low ! k < int m" unfolding at(1) using bound [OF in_T(1)] by blast+
  show "high ! k \<le> int m" unfolding at(2) using bound [OF in_T(2)] by linarith
  show "(int k, low ! k) \<in> set links" using in_T at by (simp add: partners_def)
qed

text \<open>What a projection of \<open>[a, b)\<close>, started at the span \<open>(p, q)\<close>, is for the links.\<close>

definition projected :: "(int \<times> int) list \<Rightarrow> nat \<Rightarrow> int \<Rightarrow> int \<Rightarrow> int \<times> int \<Rightarrow> int \<times> int \<Rightarrow> bool" where
  "projected links m a b s t \<longleftrightarrow>
     (\<forall>(i, j) \<in> set links. a \<le> i \<and> i < b \<longrightarrow> fst t \<noteq> -1 \<and> fst t \<le> j \<and> j < snd t) \<and>
     (fst s \<noteq> -1 \<longrightarrow> fst t \<noteq> -1 \<and> fst t \<le> fst s) \<and> snd s \<le> snd t \<and>
     (fst t \<noteq> fst s \<longrightarrow> 0 \<le> fst t \<and> (\<exists>i. a \<le> i \<and> i < b \<and> (i, fst t) \<in> set links)) \<and>
     (snd t \<noteq> snd s \<longrightarrow> snd t \<le> int m)"

lemma projected_link:
  "projected links m a b s t \<Longrightarrow> (i, j) \<in> set links \<Longrightarrow> a \<le> i \<Longrightarrow> i < b \<Longrightarrow>
     fst t \<noteq> -1 \<and> fst t \<le> j \<and> j < snd t"
  unfolding projected_def by blast

lemma projected_start:
  assumes "projected links m a b s t"
  shows "fst s \<noteq> -1 \<Longrightarrow> fst t \<noteq> -1 \<and> fst t \<le> fst s" "snd s \<le> snd t"
    "fst t \<noteq> fst s \<Longrightarrow> 0 \<le> fst t \<and> (\<exists>i. a \<le> i \<and> i < b \<and> (i, fst t) \<in> set links)"
    "snd t \<noteq> snd s \<Longrightarrow> snd t \<le> int m"
  using assms unfolding projected_def by blast+

lemma projection_step:
  assumes spans: "link_spans links n low high" "links_inside links n m"
    and x: "a \<le> x" "0 \<le> x" "x < int n" and I: "projected links m a x s (p, q)"
    and l: "l = low ! nat x" and h: "h = high ! nat x"
    and p': "p' = (if l = -1 then p else if p = -1 \<or> l < p then l else p)"
    and q': "q' = (if l = -1 then q else max q h)"
  shows "projected links m a (x + 1) s (p', q')"
proof -
  have bounds: "0 \<le> l" "l < int m" "h \<le> int m" "(x, l) \<in> set links" if "l \<noteq> -1"
    using link_spans_bounds [OF spans, of "nat x"] that x l h by auto
  have at_x: "l \<noteq> -1 \<and> l \<le> j \<and> j < h" if "(x, j) \<in> set links" for j
  proof -
    note at = link_spans_at [OF spans(1) that x(2,3)]
    moreover have "0 \<le> low ! nat x" using at(3) spans(2) by (auto simp: links_inside_def)
    ultimately show ?thesis using l h by auto
  qed
  have "p' \<noteq> -1 \<and> p' \<le> j \<and> j < q'" if ij: "(i, j) \<in> set links" "a \<le> i" "i < x + 1" for i j
  proof (cases "i = x")
    case True
    then show ?thesis using at_x [of j] ij(1) p' q' by auto
  next
    case False
    then have "p \<noteq> -1 \<and> p \<le> j \<and> j < q" using projected_link [OF I ij(1,2)] ij(3) by simp
    then show ?thesis using p' q' by auto
  qed
  moreover have "fst s \<noteq> -1 \<longrightarrow> p' \<noteq> -1 \<and> p' \<le> fst s" using projected_start(1) [OF I] p' by auto
  moreover have "snd s \<le> q'" using projected_start(2) [OF I] q' by auto
  moreover have "p' \<noteq> fst s \<longrightarrow> 0 \<le> p' \<and> (\<exists>i. a \<le> i \<and> i < x + 1 \<and> (i, p') \<in> set links)"
  proof (cases "p' = p")
    case True
    show ?thesis
    proof
      assume "p' \<noteq> fst s"
      then obtain i where "0 \<le> p" "a \<le> i" "i < x" "(i, p) \<in> set links"
        using projected_start(3) [OF I] True by auto
      then show "0 \<le> p' \<and> (\<exists>i. a \<le> i \<and> i < x + 1 \<and> (i, p') \<in> set links)"
        using True by (intro conjI exI [of _ i]) auto
    qed
  next
    case False
    then have l': "l \<noteq> -1" "p' = l" using p' by (auto split: if_splits)
    show ?thesis using bounds [OF l'(1)] x(1) l'(2) by (intro impI conjI exI [of _ x]) auto
  qed
  moreover have "q' \<noteq> snd s \<longrightarrow> q' \<le> int m"
    using projected_start(4) [OF I] q' bounds(3) by (auto simp: max_def)
  ultimately show ?thesis unfolding projected_def fst_conv snd_conv by blast
qed

lemma FindProjection_spec:
  assumes "link_spans links n low high" "links_inside links n m" "0 \<le> a" "0 \<le> b" "b \<le> int n"
  shows "\<exists>t. FindProjection a b low high s = Some t \<and> projected links m a b s t"
proof (cases "a \<le> b")
  case False
  then have "FindProjection a b low high s = Some s"
    using assms(3,4) by (simp add: FindProjection_def)
  moreover have "projected links m a b s s" using False by (auto simp: projected_def)
  ultimately show ?thesis by blast
next
  case True
  have range: "size_range a b = int_range a b" using assms(3,4) by (simp add: int_range_def)
  show ?thesis unfolding FindProjection_def range
  proof (rule for_range_total [where I = "\<lambda>x. projected links m a x s"])
    show "projected links m a a s s" by (auto simp: projected_def)
    show "a \<le> b" by fact
  next
    fix x t assume x: "a \<le> x" "x < b" and I: "projected links m a x s t"
    obtain p q where t: "t = (p, q)" by (cases t)
    have len: "length low = n" "length high = n" using assms(1) by (auto simp: link_spans_def)
    have x': "0 \<le> x" "x < int n" using x assms(3,5) by auto
    have at: "vat low x = Some (low ! nat x)" "vat high x = Some (high ! nat x)"
      using x' len by (simp_all add: vat_eq)
    have next_span: "projected links m a (x + 1) s
        (if low ! nat x = -1 then p else if p = -1 \<or> low ! nat x < p then low ! nat x else p,
         if low ! nat x = -1 then q else max q (high ! nat x))" (is "projected links m a (x + 1) s ?t'")
      by (rule projection_step [OF assms(1,2) x(1) x' I [unfolded t] refl refl refl refl])
    show "\<exists>s'. (case t of (target_low, target_high) \<Rightarrow> do {
       l \<leftarrow> vat low x;
       if l \<noteq> -1 then do {
         h \<leftarrow> vat high x;
         Some (if target_low = -1 \<or> l < target_low then l else target_low, max target_high h) }
       else Some (target_low, target_high) }) = Some s' \<and> projected links m a (x + 1) s s'"
      by (rule exI [of _ ?t'], rule conjI [OF _ next_span]) (simp add: t at)
  qed
qed

section \<open>The fix point is a consistent phrase pair\<close>

text \<open>Every link of a position in \<open>[a, b)\<close> ends in \<open>[c, d)\<close>.\<close>

definition lands :: "(int \<times> int) list \<Rightarrow> int \<Rightarrow> int \<Rightarrow> int \<Rightarrow> int \<Rightarrow> bool" where
  "lands links a b c d \<longleftrightarrow> (\<forall>(i, j) \<in> set links. a \<le> i \<and> i < b \<longrightarrow> c \<le> j \<and> j < d)"

text \<open>No link leaves the pair of spans, on either side.\<close>

definition consistent :: "(int \<times> int) list \<Rightarrow> fix_point \<Rightarrow> bool" where
  "consistent links f \<longleftrightarrow> (\<forall>(i, j) \<in> set links.
     (fp_back_low f \<le> i \<and> i < fp_back_high f) \<longleftrightarrow> (fp_target_low f \<le> j \<and> j < fp_target_high f))"

definition spans_of :: "(int \<times> int) list \<Rightarrow> nat \<Rightarrow> nat \<Rightarrow> spans \<Rightarrow> bool" where
  "spans_of links n m s \<longleftrightarrow> link_spans links n (sp_source_low s) (sp_source_high s) \<and>
     link_spans (flip links) m (sp_target_low s) (sp_target_high s) \<and> links_inside links n m"

lemma landsD: "lands links a b c d \<Longrightarrow> (i, j) \<in> set links \<Longrightarrow> a \<le> i \<Longrightarrow> i < b \<Longrightarrow> c \<le> j \<and> j < d"
  unfolding lands_def by blast

lemma landsI: "(\<And>i j. (i, j) \<in> set links \<Longrightarrow> a \<le> i \<Longrightarrow> i < b \<Longrightarrow> c \<le> j \<and> j < d) \<Longrightarrow> lands links a b c d"
  unfolding lands_def by blast

lemma consistentI:
  assumes "lands links (fp_back_low f) (fp_back_high f) (fp_target_low f) (fp_target_high f)"
    "lands (flip links) (fp_target_low f) (fp_target_high f) (fp_back_low f) (fp_back_high f)"
  shows "consistent links f"
  unfolding consistent_def
proof (intro ballI, clarify)
  fix i j assume ij: "(i, j) \<in> set links"
  show "(fp_back_low f \<le> i \<and> i < fp_back_high f) \<longleftrightarrow> (fp_target_low f \<le> j \<and> j < fp_target_high f)"
    using landsD [OF assms(1) ij] landsD [OF assms(2), of j i] ij by auto
qed

lemma lands_projected:
  assumes "lands links a b (fst s) (snd s)" "projected links m c d s t" "fst s \<noteq> -1"
    and "\<And>i. x \<le> i \<Longrightarrow> i < y \<Longrightarrow> (a \<le> i \<and> i < b) \<or> (c \<le> i \<and> i < d)"
  shows "lands links x y (fst t) (snd t)"
proof (rule landsI)
  fix i j assume ij: "(i, j) \<in> set links" "x \<le> i" "i < y"
  consider "a \<le> i \<and> i < b" | "c \<le> i \<and> i < d" using assms(4) [OF ij(2,3)] by blast
  then show "fst t \<le> j \<and> j < snd t"
  proof cases
    case 1
    then show ?thesis
      using landsD [OF assms(1) ij(1)] projected_start(1,2) [OF assms(2)] assms(3) by linarith
  next
    case 2
    then show ?thesis using projected_link [OF assms(2) ij(1)] by blast
  qed
qed

lemma two_projections:
  assumes spans: "link_spans links n low high" "links_inside links n m"
    and bounds: "0 \<le> a" "a \<le> b" "b \<le> c" "c \<le> d" "d \<le> int n"
    and s: "0 \<le> fst s" "snd s \<le> int m" and old: "lands links b c (fst s) (snd s)"
  shows "ensures (FindProjection a b low high s \<bind> FindProjection c d low high)
    (\<lambda>t. lands links a d (fst t) (snd t) \<and> 0 \<le> fst t \<and> fst t \<le> fst s \<and> snd s \<le> snd t \<and> snd t \<le> int m)"
proof -
  obtain t where t: "FindProjection a b low high s = Some t" "projected links m a b s t"
    using FindProjection_spec [OF spans, of a b s] bounds by auto
  obtain u where u: "FindProjection c d low high t = Some u" "projected links m c d t u"
    using FindProjection_spec [OF spans, of c d t] bounds by auto
  have st: "0 \<le> fst t" "fst t \<le> fst s" "snd s \<le> snd t" "snd t \<le> int m"
    using projected_start [OF t(2)] s by (force+)[4]
  have tu: "0 \<le> fst u" "fst u \<le> fst t" "snd t \<le> snd u" "snd u \<le> int m"
    using projected_start [OF u(2)] st by (force+)[4]
  have "lands links a c (fst t) (snd t)"
    by (rule lands_projected [OF old t(2)]) (use s bounds in auto)
  then have "lands links a d (fst u) (snd u)"
    by (rule lands_projected [OF _ u(2)]) (use st bounds in auto)
  then show ?thesis using t u st tu by (simp add: ensures_def)
qed

definition loop_inv :: "(int \<times> int) list \<Rightarrow> nat \<Rightarrow> nat \<Rightarrow> int \<Rightarrow> int \<Rightarrow> int \<Rightarrow> int \<Rightarrow> int \<Rightarrow> int \<Rightarrow> bool" where
  "loop_inv links n m pl ph ql qh bl bh \<longleftrightarrow> 0 \<le> pl \<and> pl \<le> ph \<and> ph \<le> int n \<and> 0 \<le> ql \<and> ql \<le> qh \<and> qh \<le> int m \<and>
     0 \<le> bl \<and> bh \<le> int n \<and> lands links pl ph ql qh \<and> lands (flip links) ql qh (min bl pl) (max bh ph)"

definition fixed :: "(int \<times> int) list \<Rightarrow> nat \<Rightarrow> nat \<Rightarrow> int \<Rightarrow> int \<Rightarrow> fix_point option \<Rightarrow> bool" where
  "fixed links n m pl ph res \<longleftrightarrow> (\<forall>f. res = Some f \<longrightarrow> consistent links f \<and>
     0 \<le> fp_back_low f \<and> fp_back_low f \<le> pl \<and> ph \<le> fp_back_high f \<and> fp_back_high f \<le> int n \<and>
     0 \<le> fp_target_low f \<and> fp_target_high f \<le> int m)"

lemma fixed_None [simp]: "fixed links n m pl ph None"
  by (simp add: fixed_def)

lemma fixedI:
  assumes "lands links (fp_back_low f) (fp_back_high f) (fp_target_low f) (fp_target_high f)"
    "lands (flip links) (fp_target_low f) (fp_target_high f) (fp_back_low f) (fp_back_high f)"
    "0 \<le> fp_back_low f" "fp_back_low f \<le> pl" "ph \<le> fp_back_high f" "fp_back_high f \<le> int n"
    "0 \<le> fp_target_low f" "fp_target_high f \<le> int m"
  shows "fixed links n m pl ph (Some f)"
  using assms consistentI unfolding fixed_def by blast

lemma fixed_mono: "fixed links n m pl' ph' res \<Longrightarrow> pl' \<le> pl \<Longrightarrow> ph \<le> ph' \<Longrightarrow> fixed links n m pl ph res"
  unfolding fixed_def by (metis order_trans)

lemma fix_point_loop_fixed:
  assumes "spans_of links n m s" "loop_inv links n m pl ph ql qh bl bh" "src_len = int n"
    "0 \<le> ex_min_source_gap_size e"
  shows "ensures (fix_point_loop r s e src_len pl ph ql qh bl bh new_x low_x high_x) (fixed links n m pl ph)"
  using assms
proof (induction "nat (rh_max_rule_span r - (ph - pl))" arbitrary: pl ph ql qh bl bh new_x low_x high_x
    rule: less_induct)
  case less
  have spans: "link_spans links n (sp_source_low s) (sp_source_high s)" "links_inside links n m"
    "link_spans (flip links) m (sp_target_low s) (sp_target_high s)" "links_inside (flip links) m n"
    using less.prems(1) links_inside_flip by (auto simp: spans_of_def)
  have inv: "0 \<le> pl" "pl \<le> ph" "ph \<le> int n" "0 \<le> ql" "ql \<le> qh" "qh \<le> int m" "0 \<le> bl" "bh \<le> int n"
    "lands links pl ph ql qh" "lands (flip links) ql qh (min bl pl) (max bh ph)"
    using less.prems(2) by (simp_all add: loop_inv_def)
  define g where "g = ex_min_source_gap_size e"
  define lo where "lo = (if min bl pl < pl \<and> pl - min bl pl < g then pl - g else min bl pl)"
  define hi where "hi = (if ph < max bh ph \<and> max bh ph - ph < g then ph + g else max bh ph)"
  show ?case
  proof (cases "min bl pl = pl \<and> max bh ph = ph")
    case True
    then show ?thesis using inv
      by (subst fix_point_loop.simps) (simp add: ensures_Some fixed_def consistentI)
  next
    case moved: False
    have lo: "lo \<le> pl" "lo \<le> min bl pl" and hi: "ph \<le> hi" "max bh ph \<le> hi"
      by (auto simp: lo_def hi_def)
    have next_run: "ensures (do {
         p1 \<leftarrow> FindProjection lo pl (sp_source_low s) (sp_source_high s) (ql, qh);
         (target_low, target_high) \<leftarrow> FindProjection ph hi (sp_source_low s) (sp_source_high s) p1;
         if ql = target_low \<and> qh = target_high then
           Some (Some \<lparr>fp_target_low = target_low, fp_target_high = target_high,
                       fp_back_low = lo, fp_back_high = hi\<rparr>)
         else if \<not> ex_allow_arbitrary e then Some None
         else if rh_max_rule_span r < target_high - target_low then Some None
         else do {
           q1 \<leftarrow> FindProjection target_low ql (sp_target_low s) (sp_target_high s) (lo, hi);
           (back_low2, back_high2) \<leftarrow> FindProjection qh target_high (sp_target_low s) (sp_target_high s) q1;
           fix_point_loop r s e src_len lo hi target_low target_high back_low2 back_high2 x l h } })
       (fixed links n m pl ph)" (is "ensures ?run _")
      if ok: "0 \<le> lo" "hi \<le> int n" "hi - lo \<le> rh_max_rule_span r" for x l h
    proof -
      obtain p1 t where t: "FindProjection lo pl (sp_source_low s) (sp_source_high s) (ql, qh) = Some p1"
        "FindProjection ph hi (sp_source_low s) (sp_source_high s) p1 = Some t"
        "lands links lo hi (fst t) (snd t)" "0 \<le> fst t" "fst t \<le> ql" "qh \<le> snd t" "snd t \<le> int m"
        using two_projections [OF spans(1,2), of lo pl ph hi "(ql, qh)"] ok lo hi inv
        by (auto simp: ensures_def bind_Some_iff)
      have old: "lands (flip links) ql qh lo hi"
        using inv(10) lo hi unfolding lands_def by fastforce
      show ?thesis
      proof (cases "ql = fst t \<and> qh = snd t")
        case True
        have "fixed links n m pl ph (Some \<lparr>fp_target_low = fst t, fp_target_high = snd t,
            fp_back_low = lo, fp_back_high = hi\<rparr>)"
          by (rule fixedI) (use t old True ok lo hi in auto)
        then show ?thesis using t(1,2) True by (simp add: ensures_Some split_def)
      next
        case False
        obtain q1 u where u: "FindProjection (fst t) ql (sp_target_low s) (sp_target_high s) (lo, hi) = Some q1"
          "FindProjection qh (snd t) (sp_target_low s) (sp_target_high s) q1 = Some u"
          "lands (flip links) (fst t) (snd t) (fst u) (snd u)" "0 \<le> fst u" "fst u \<le> lo" "hi \<le> snd u" "snd u \<le> int n"
          using two_projections [OF spans(3,4), of "fst t" ql qh "snd t" "(lo, hi)"] ok t inv old
          by (auto simp: ensures_def bind_Some_iff)
        have "loop_inv links n m lo hi (fst t) (snd t) (fst u) (snd u)"
          using t u ok lo hi inv unfolding loop_inv_def by (simp add: min_def max_def)
        moreover have "nat (rh_max_rule_span r - (hi - lo)) < nat (rh_max_rule_span r - (ph - pl))"
          using moved ok lo hi by (auto simp: min_def max_def split: if_splits)
        ultimately have "ensures (fix_point_loop r s e src_len lo hi (fst t) (snd t) (fst u) (snd u) x l h)
            (fixed links n m lo hi)"
          using less.hyps less.prems by blast
        then have "ensures (fix_point_loop r s e src_len lo hi (fst t) (snd t) (fst u) (snd u) x l h)
            (fixed links n m pl ph)"
          by (rule ensures_mono) (use fixed_mono lo hi in blast)
        then show ?thesis using t(1,2) u(1,2) False by (auto simp: ensures_Some split_def)
      qed
    qed
    have lo_pos: "0 \<le> lo" if "\<not> (min bl pl < pl \<and> pl - min bl pl < g \<and> lo < 0)"
      using that inv by (auto simp: lo_def min_def split: if_splits)
    have hi_in: "hi \<le> int n" if "\<not> (ph < max bh ph \<and> max bh ph - ph < g \<and> src_len < hi)"
      using that inv less.prems(3) by (auto simp: hi_def max_def split: if_splits)
    show ?thesis
      apply (subst fix_point_loop.simps)
      apply (unfold Let_def)
      apply (fold g_def)
      apply (fold lo_def hi_def)
      apply (unfold ensures_if ensures_Some)
      apply (intro conjI impI fixed_None)
      subgoal using moved by blast
      subgoal by (rule next_run) (use lo_pos hi_in in \<open>blast | linarith\<close>)+
      done
  qed
qed

text \<open>
  C4. \<open>FindFixPoint\<close> always returns on a phrase inside the sentence, and the pair of spans it
  accepts is consistent with the word links: the source span contains the phrase and a link has
  its source end in the source span exactly when it has its target end in the target span.
\<close>

theorem FindFixPoint_consistent:
  assumes "spans_of links n m s" "0 \<le> pl" "pl \<le> ph" "ph \<le> int n"
    and "prev = (-1, -1) \<or> (0 \<le> fst prev \<and> fst prev \<le> snd prev \<and> snd prev \<le> int m \<and>
      (\<exists>(i, j) \<in> set links. fst prev \<le> j \<and> j < snd prev))"
    and "GetSentenceLength (rh_source r) k = Some (int n)" "GetSentenceLength (rh_target r) k = Some (int m)"
    and "0 \<le> ex_min_source_gap_size e" "0 \<le> min_target_gap_size"
  shows "\<exists>res. FindFixPoint r s e pl ph prev k min_target_gap_size = Some res \<and>
    (\<forall>f. res = Some f \<longrightarrow> consistent links f \<and>
       0 \<le> fp_back_low f \<and> fp_back_low f \<le> pl \<and> ph \<le> fp_back_high f \<and> fp_back_high f \<le> int n \<and>
       0 \<le> fp_target_low f \<and> fp_target_high f \<le> int m)"
proof -
  have spans: "link_spans links n (sp_source_low s) (sp_source_high s)" "links_inside links n m"
    "link_spans (flip links) m (sp_target_low s) (sp_target_high s)" "links_inside (flip links) m n"
    using assms(1) links_inside_flip by (auto simp: spans_of_def)
  obtain a b where t: "FindProjection pl ph (sp_source_low s) (sp_source_high s) prev = Some (a, b)"
    "projected links m pl ph prev (a, b)"
    using FindProjection_spec [OF spans(1,2) assms(2), of ph prev] assms(2-4) by auto
  define grow_low where "grow_low = (fst prev \<noteq> -1 \<and> a \<noteq> fst prev \<and> fst prev - a < min_target_gap_size)"
  define ql where "ql = (if grow_low then fst prev - min_target_gap_size else a)"
  define grow_high where "grow_high = (snd prev \<noteq> -1 \<and> b \<noteq> snd prev \<and> b - snd prev < min_target_gap_size)"
  define qh where "qh = (if grow_high then snd prev + min_target_gap_size else b)"
  have rest: "ensures (do { (back_low, back_high) \<leftarrow> FindProjection ql qh (sp_target_low s) (sp_target_high s) (-1, -1);
       fix_point_loop r s e (int n) pl ph ql qh back_low back_high 0 False False }) (fixed links n m pl ph)"
    if ok: "a \<noteq> -1" "\<not> (grow_low \<and> ql < 0)" "\<not> (grow_high \<and> int m < qh)"
  proof -
    have a: "0 \<le> a" using projected_start(3) [OF t(2)] assms(5) ok(1) by (cases "a = fst prev") auto
    have b: "b \<le> int m" using projected_start(4) [OF t(2)] assms(5) by (cases "b = snd prev") auto
    obtain i j where ij: "(i, j) \<in> set links" "a \<le> j" "j < b"
    proof (cases "a = fst prev")
      case True
      then obtain i j where "(i, j) \<in> set links" "fst prev \<le> j" "j < snd prev" using assms(5) ok(1) by auto
      then show ?thesis using that True projected_start(2) [OF t(2)] by fastforce
    next
      case False
      then obtain i where "pl \<le> i" "i < ph" "(i, a) \<in> set links" using projected_start(3) [OF t(2)] by auto
      then show ?thesis using that projected_link [OF t(2)] by fastforce
    qed
    have grow: "ql \<le> a" "b \<le> qh"
      using projected_start(1,2) [OF t(2)] by (auto simp: ql_def qh_def grow_low_def grow_high_def)
    have bounds: "0 \<le> ql" "ql \<le> j" "j < qh" "qh \<le> int m"
      using ok a b ij grow by (auto simp: ql_def qh_def)
    obtain bl bh where u: "FindProjection ql qh (sp_target_low s) (sp_target_high s) (-1, -1) = Some (bl, bh)"
      "projected (flip links) n ql qh (-1, -1) (bl, bh)"
      using FindProjection_spec [OF spans(3,4) bounds(1), of qh "(-1, -1)"] bounds by auto
    have found: "bl \<noteq> -1" using projected_link [OF u(2), of j i] ij(1) bounds by simp
    have back_in: "0 \<le> bl" "bh \<le> int n"
      using projected_start(3) [OF u(2)] found projected_start(4) [OF u(2)] by (simp, cases "bh = -1", simp_all)
    have A: "lands links pl ph ql qh"
    proof (rule landsI)
      fix i' j' assume "(i', j') \<in> set links" "pl \<le> i'" "i' < ph"
      then show "ql \<le> j' \<and> j' < qh" using projected_link [OF t(2)] grow by fastforce
    qed
    have B: "lands (flip links) ql qh (min bl pl) (max bh ph)"
    proof (rule landsI)
      fix j' i' assume "(j', i') \<in> set (flip links)" "ql \<le> j'" "j' < qh"
      then have "bl \<le> i' \<and> i' < bh" using projected_link [OF u(2)] by simp
      then show "min bl pl \<le> i' \<and> i' < max bh ph" by auto
    qed
    have "loop_inv links n m pl ph ql qh bl bh"
      using A B back_in bounds assms(2-4) unfolding loop_inv_def by simp
    then show ?thesis
      using fix_point_loop_fixed [OF assms(1) _ refl assms(8), of pl ph ql qh bl bh r 0 False False] u(1)
      by (simp add: ensures_Some)
  qed
  have "ensures (FindFixPoint r s e pl ph prev k min_target_gap_size) (fixed links n m pl ph)"
    unfolding FindFixPoint_def t(1) assms(6,7) Option.bind.bind_lunit prod.case Let_def
    apply (fold grow_low_def grow_high_def)
    apply (fold ql_def qh_def)
    apply (unfold ensures_if ensures_Some)
    apply (intro conjI impI fixed_None)
    apply (rule rest; assumption)
    done
  then show ?thesis unfolding ensures_def fixed_def .
qed

section \<open>A sentence pair\<close>

definition sample_links :: "(int \<times> int) list" where
  "sample_links = [(0, 1), (1, 0), (2, 2)]"

definition sample_data :: data_array where
  "sample_data = \<lparr>da_word2id = Map.empty, da_id2word = [], da_data = [2, 3, 4, 1],
     da_sentence_id = [0, 0, 0, 0], da_sentence_start = [0, 4]\<rparr>"

definition sample_helper :: helper where
  "sample_helper = \<lparr>rh_source = sample_data, rh_target = sample_data, rh_alignment = [sample_links],
     rh_max_rule_span = 15, rh_max_rule_symbols = 5, rh_require_aligned_terminal = True,
     rh_require_aligned_chunks = False, rh_require_tight_phrases = True\<rparr>"

definition sample_spans :: spans where
  "sample_spans = \<lparr>sp_source_low = [1, 0, 2], sp_source_high = [2, 1, 3],
     sp_target_low = [1, 0, 2], sp_target_high = [2, 1, 3]\<rparr>"

lemma sample_lengths:
  "GetSentenceLength (rh_source sample_helper) 0 = Some (int 3)"
  "GetSentenceLength (rh_target sample_helper) 0 = Some (int 3)"
  "GetLinks (rh_alignment sample_helper) 0 = Some sample_links"
  by (simp_all add: GetSentenceLength_def GetLinks_def sample_helper_def sample_data_def vat_def)

lemma sample_inside: "links_inside sample_links 3 3"
  by (simp add: links_inside_def sample_links_def)

lemma sample_partners:
  "partners sample_links 0 = {1}" "partners sample_links 1 = {0}" "partners sample_links 2 = {2}"
  "partners (flip sample_links) 0 = {1}" "partners (flip sample_links) 1 = {0}" "partners (flip sample_links) 2 = {2}"
  by (auto simp: partners_def sample_links_def flip_def)

lemma less_3: "i < 3 \<longleftrightarrow> i = 0 \<or> i = 1 \<or> i = (2 :: nat)"
  by auto

lemma sample_spans_of: "spans_of sample_links 3 3 sample_spans"
  by (auto simp: spans_of_def sample_inside link_spans_def sample_spans_def less_3 sample_partners)

theorem GetLinksSpans_exact_witness:
  "\<exists>sl sh tl th. GetLinksSpans sample_helper 0 = Some ((sl, sh), (tl, th)) \<and> link_spans sample_links 3 sl sh \<and>
    link_spans (flip sample_links) 3 tl th"
  by (rule GetLinksSpans_exact [OF sample_lengths sample_inside])

lemma FindFixPoint_sample:
  "FindFixPoint sample_helper sample_spans no_expansion 0 2 (-1, -1) 0 0 =
     Some (Some \<lparr>fp_target_low = 0, fp_target_high = 2, fp_back_low = 0, fp_back_high = 2\<rparr>)"
  by code_simp

theorem FindFixPoint_consistent_witness:
  "consistent sample_links \<lparr>fp_target_low = 0, fp_target_high = 2, fp_back_low = 0, fp_back_high = 2\<rparr>"
  using FindFixPoint_consistent [OF sample_spans_of _ _ _ _ sample_lengths(1,2),
      where e = no_expansion and pl = 0 and ph = 2 and prev = "(-1, -1)" and min_target_gap_size = 0]
  by (simp add: FindFixPoint_sample) (simp add: no_expansion_def)

section \<open>Aligned chunks\<close>

text \<open>The chunk of \<open>len\<close> words at \<open>start\<close> has a linked word.\<close>

definition has_link :: "int list \<Rightarrow> int \<Rightarrow> int \<Rightarrow> bool" where
  "has_link source_low start len \<longleftrightarrow> (\<exists>j \<in> {0..<len}. source_low ! nat (start + j) \<noteq> -1)"

lemma chunk_aligned_iff:
  assumes "0 \<le> i" "i < vsize matching" "0 \<le> len" "start = matching ! nat i - source_sent_start"
    "0 \<le> start" "start + len \<le> vsize source_low"
  shows "chunk_aligned matching source_low source_sent_start i len = Some (has_link source_low start len)"
proof -
  have m: "vat matching i = Some (matching ! nat i)" using assms(1,2) by (simp add: vat_def vsize_def)
  have "for_break (int_range k len) (\<lambda>j found. do {
       m \<leftarrow> vat matching i;
       l \<leftarrow> vat source_low (m - source_sent_start + j);
       Some (if l \<noteq> -1 then (True, False) else (found, True)) }) False =
    Some (\<exists>j \<in> {k..<len}. source_low ! nat (start + j) \<noteq> -1)" if "0 \<le> k" for k
    using that
  proof (induction "nat (len - k)" arbitrary: k rule: less_induct)
    case less
    show ?case
    proof (cases "k < len")
      case False
      then show ?thesis by simp
    next
      case True
      have l: "vat source_low (start + k) = Some (source_low ! nat (start + k))"
        using True less.prems assms(5,6) by (simp add: vat_def vsize_def)
      have split: "{k..<len} = insert k {k + 1..<len}" using True by auto
      show ?thesis
        unfolding int_range_Cons [OF True] split
        using less.hyps [of "k + 1"] True less.prems by (simp add: m assms(4) [symmetric] l)
    qed
  qed
  from this [of 0] show ?thesis
    unfolding chunk_aligned_def has_link_def using assms(3) by (simp add: int_range_def)
qed

definition chunks_inside :: "int list \<Rightarrow> int list \<Rightarrow> int \<Rightarrow> int \<Rightarrow> bool" where
  "chunks_inside matching chunklen source_sent_start n \<longleftrightarrow> length matching = length chunklen \<and>
     (\<forall>i < length chunklen. 0 \<le> chunklen ! i \<and> source_sent_start \<le> matching ! i \<and>
        matching ! i - source_sent_start + chunklen ! i \<le> n)"

definition chunk_links :: "int list \<Rightarrow> int list \<Rightarrow> int list \<Rightarrow> int \<Rightarrow> nat \<Rightarrow> bool" where
  "chunk_links matching chunklen source_low source_sent_start i =
     has_link source_low (matching ! i - source_sent_start) (chunklen ! i)"

lemma card_all_below: "card {i. i < n \<and> P i} = n \<longleftrightarrow> (\<forall>i < (n :: nat). P i)"
proof
  assume "card {i. i < n \<and> P i} = n"
  then have "{i. i < n \<and> P i} = {..<n}"
    by (intro card_subset_eq) auto
  then show "\<forall>i < n. P i" by blast
next
  assume "\<forall>i < n. P i"
  then have "{i. i < n \<and> P i} = {..<n}" by blast
  then show "card {i. i < n \<and> P i} = n" by simp
qed

text \<open>
   With \<open>require_aligned_terminal\<close> the check accepts a matching exactly when some chunk has
  a linked word, and with \<open>require_aligned_chunks\<close> also exactly when every chunk has one.
\<close>

theorem CheckAlignedTerminals_iff:
  assumes "chunks_inside matching chunklen source_sent_start (vsize source_low)"
  shows "CheckAlignedTerminals r matching chunklen source_low source_sent_start = Some (
    rh_require_aligned_terminal r \<longrightarrow>
      (\<exists>i < length chunklen. chunk_links matching chunklen source_low source_sent_start i) \<and>
      (rh_require_aligned_chunks r \<longrightarrow>
        (\<forall>i < length chunklen. chunk_links matching chunklen source_low source_sent_start i)))"
proof -
  let ?P = "chunk_links matching chunklen source_low source_sent_start"
  let ?count = "\<lambda>k. int (card {i. i < nat k \<and> ?P i})"
  have "ensures (for_each (positions chunklen) (\<lambda>i n. do {
          len \<leftarrow> vat chunklen i;
          a \<leftarrow> chunk_aligned matching source_low source_sent_start i len;
          Some (if a then n + 1 else n) }) 0) (\<lambda>t. t = ?count (vsize chunklen))"
  proof (rule ensures_for_range [where I = "\<lambda>k n. n = ?count k"])
    fix k n assume k: "0 \<le> k" "k < vsize chunklen" and I: "n = ?count k"
    have nk: "nat k < length chunklen" "length matching = length chunklen" using k assms by (auto simp: vsize_def chunks_inside_def)
    then have inside: "0 \<le> chunklen ! nat k" "source_sent_start \<le> matching ! nat k"
      "matching ! nat k - source_sent_start + chunklen ! nat k \<le> vsize source_low"
      using assms by (auto simp: chunks_inside_def)
    have c: "chunk_aligned matching source_low source_sent_start k (chunklen ! nat k) = Some (?P (nat k))"
      unfolding chunk_links_def
      by (rule chunk_aligned_iff [OF k(1) _ inside(1) refl]) (use k nk inside in \<open>auto simp: vsize_def\<close>)
    have "{i. i < nat (k + 1) \<and> ?P i} = (if ?P (nat k) then insert (nat k) {i. i < nat k \<and> ?P i} else {i. i < nat k \<and> ?P i})"
      using k(1) by (auto simp: nat_add_distrib less_Suc_eq)
    then have "?count (k + 1) = (if ?P (nat k) then n + 1 else n)" using I by simp
    then show "ensures (do {
          len \<leftarrow> vat chunklen k;
          a \<leftarrow> chunk_aligned matching source_low source_sent_start k len;
          Some (if a then n + 1 else n) }) (\<lambda>n. n = ?count (k + 1))"
      using k by (simp add: wp c)
  qed simp_all
  then have run: "for_each (positions chunklen) (\<lambda>i n. do {
          len \<leftarrow> vat chunklen i;
          a \<leftarrow> chunk_aligned matching source_low source_sent_start i len;
          Some (if a then n + 1 else n) }) 0 = Some (int (card {i. i < length chunklen \<and> ?P i}))"
    by (auto simp: ensures_def vsize_def)
  have none: "card {i. i < length chunklen \<and> ?P i} = 0 \<longleftrightarrow> \<not> (\<exists>i < length chunklen. ?P i)" by auto
  have all: "card {i. i < length chunklen \<and> ?P i} = length chunklen \<longleftrightarrow> (\<forall>i < length chunklen. ?P i)"
    by (rule card_all_below)
  show ?thesis using none all unfolding CheckAlignedTerminals_def run by (simp add: vsize_def)
qed

theorem CheckAlignedTerminals_iff_witness:
  "CheckAlignedTerminals sample_helper [0, 2] [1, 1] [1, -1, -1] 0 = Some True"
proof -
  have "chunks_inside [0, 2] [1, 1] 0 (vsize [1, -1, -1 :: int])"
    by (auto simp: chunks_inside_def less_Suc_eq)
  moreover have "chunk_links [0, 2] [1, 1] [1, -1, -1] 0 0"
    unfolding chunk_links_def has_link_def by (rule bexI [of _ 0]) simp_all
  ultimately show ?thesis
    using CheckAlignedTerminals_iff [of "[0, 2]" "[1, 1]" 0 "[1, -1, -1]" sample_helper]
    by (auto simp: sample_helper_def)
qed

section \<open>The order of the gaps\<close>

text \<open>
   With three gaps \<open>GetGapOrder\<close> gives the target gaps \<open>[5,6)\<close>, \<open>[1,2)\<close>, \<open>[3,4)\<close> the ranks
  1, 1, 1 in place of 2, 0, 1: the comparison reads the gap at a rank, \<open>gaps[gap_order[j]]\<close>,
  where it means \<open>gaps[j]\<close>.
\<close>

theorem GetGapOrder_three_gaps:
  "GetGapOrder [(5, 6), (1, 2), (3, 4)] = Some [1, 1, 1]"
  by code_simp

text \<open>
   For up to two gaps that differ, which is what the default of two nonterminals
  allows, \<open>GetGapOrder\<close> gives every gap the number of gaps before it.
\<close>

theorem GetGapOrder_ranks:
  assumes "length gaps \<le> 2" "distinct gaps"
  shows "GetGapOrder gaps = Some (map (\<lambda>g. vsize (filter (\<lambda>h. pair_less h g) gaps)) gaps)"
proof -
  have "GetGapOrder [] = Some []" by code_simp
  moreover have "GetGapOrder [g] = Some [0]" for g
    by (simp add: GetGapOrder_def int_range_def vsize_def)
  moreover have "GetGapOrder [g, h] = Some (if pair_less g h then [0, 1] else [1, 0])" for g h
    by (simp add: GetGapOrder_def int_range_def vsize_def upto_rec1 order_step_def vat_def vset_def)
  moreover have "\<not> pair_less g h \<longleftrightarrow> g = h \<or> pair_less h g" "\<not> (pair_less g h \<and> pair_less h g)" for g h
    by (auto simp: pair_less_def prod_eq_iff)
  ultimately show ?thesis
    using assms by (cases gaps; cases "tl gaps"; cases "tl (tl gaps)") (auto simp: pair_less_def)
qed

theorem GetGapOrder_ranks_witness:
  "GetGapOrder [(3, 4), (1, 2)] = Some (map (\<lambda>g. vsize (filter (\<lambda>h. pair_less h g) [(3, 4), (1, 2)])) [(3, 4), (1, 2)])"
  by (rule GetGapOrder_ranks) simp_all

end
