(* ===== verification/TargetPhrases.thy ===== *)
theory TargetPhrases
  imports Spans
begin

text \<open>
  \<open>TargetPhraseExtractor\<close> (\<open>extractor/target_phrase_extractor\<close>): the target phrases that a
  target span with gaps allows, widened over unaligned words. Building a phrase adds words to
  the shared vocabulary, which is part of the state.
\<close>

record target_extractor =
  tx_data :: data_array
  tx_alignment :: alignment
  tx_helper :: helper
  tx_max_rule_span :: int
  tx_require_tight_phrases :: bool

type_synonym phrase_alignment = "(int \<times> int) list"

type_synonym target_state = "vocabulary \<times> (phrase \<times> phrase_alignment) list"

section \<open>One target phrase\<close>

definition add_word ::
  "data_array \<Rightarrow> int \<Rightarrow> int \<Rightarrow> vocabulary \<times> int list \<times> (int \<rightharpoonup> int) \<Rightarrow> (vocabulary \<times> int list \<times> (int \<rightharpoonup> int)) option" where
  "add_word d target_sent_start j = (\<lambda>(voc, symbols, target_indexes). do {
     w \<leftarrow> GetWordAtIndex d (target_sent_start + j);
     let (symbol, voc') = GetTerminalIndex w voc;
     Some (voc', symbols @ [symbol], target_indexes(j \<mapsto> vsize symbols)) })"

definition add_chunk ::
  "data_array \<Rightarrow> int \<Rightarrow> int list \<Rightarrow> int list \<Rightarrow> int \<Rightarrow>
   vocabulary \<times> int list \<times> (int \<rightharpoonup> int) \<Rightarrow> (vocabulary \<times> int list \<times> (int \<rightharpoonup> int)) option" where
  "add_chunk d target_sent_start subpatterns target_gap_order i st = do {
     a \<leftarrow> vat subpatterns (2 * i);
     b \<leftarrow> vat subpatterns (2 * i + 1);
     (voc, symbols, target_indexes) \<leftarrow> for_each (size_range a b) (add_word d target_sent_start) st;
     if i < vsize target_gap_order then do {
       k \<leftarrow> vat target_gap_order i;
       Some (voc, symbols @ [GetNonterminalIndex (k + 1)], target_indexes) }
     else Some (voc, symbols, target_indexes) }"

definition phrase_links ::
  "link list \<Rightarrow> (int \<rightharpoonup> int) \<Rightarrow> (int \<rightharpoonup> int) \<Rightarrow> phrase_alignment option" where
  "phrase_links links source_indexes target_indexes = for_each links (\<lambda>link alignment.
     (case target_indexes (snd link) of
       None \<Rightarrow> Some alignment
     | Some t \<Rightarrow> do { s \<leftarrow> source_indexes (fst link); Some (alignment @ [(s, t)]) })) []"

text \<open>The base case of \<open>GeneratePhrases\<close>, all chunk limits chosen.\<close>

definition emit_phrase ::
  "target_extractor \<Rightarrow> int list \<Rightarrow> (int \<rightharpoonup> int) \<Rightarrow> int \<Rightarrow> int list \<Rightarrow> target_state \<Rightarrow> target_state option" where
  "emit_phrase x target_gap_order source_indexes sentence_id subpatterns = (\<lambda>(voc, target_phrases). do {
     last_end \<leftarrow> vback subpatterns;
     first_start \<leftarrow> vfront subpatterns;
     if tx_max_rule_span x < last_end - first_start then Some (voc, target_phrases)
     else do {
       target_sent_start \<leftarrow> GetSentenceStart (tx_data x) sentence_id;
       (voc1, symbols, target_indexes) \<leftarrow> for_each (int_range 0 ((vsize subpatterns + 1) div 2))
         (add_chunk (tx_data x) target_sent_start subpatterns target_gap_order) (voc, [], Map.empty);
       links \<leftarrow> GetLinks (tx_alignment x) sentence_id;
       alignment \<leftarrow> phrase_links links source_indexes target_indexes;
       target_phrase \<leftarrow> Build voc1 symbols;
       Some (voc1, target_phrases @ [(target_phrase, alignment)]) } })"

section \<open>All target phrases\<close>

text \<open>
  The loop counters live in \<open>subpatterns\<close>, which the calls share; a call writes the entries from
  \<open>index\<close> on only, so the counters of the callers keep the values of their loops.
\<close>

function GeneratePhrases ::
  "target_extractor \<Rightarrow> (int \<times> int) list \<Rightarrow> int \<Rightarrow> int list \<Rightarrow> (int \<rightharpoonup> int) \<Rightarrow> int \<Rightarrow>
   int list \<times> target_state \<Rightarrow> (int list \<times> target_state) option" where
  "GeneratePhrases x ranges index target_gap_order source_indexes sentence_id st =
     (if vsize ranges \<le> index then do {
        out \<leftarrow> emit_phrase x target_gap_order source_indexes sentence_id (fst st) (snd st);
        Some (fst st, out) }
      else do {
        (low, high) \<leftarrow> vat ranges index;
        (low', high') \<leftarrow> vat ranges (index + 1);
        start \<leftarrow> (if 0 < index then do { p \<leftarrow> vat (fst st) (index - 1); Some (max low p) } else Some low);
        for_each (int_range start (high + 1)) (\<lambda>a st. do {
          subpatterns1 \<leftarrow> vset (fst st) index a;
          for_each (int_range (max a low') (high' + 1)) (\<lambda>b st. do {
            subpatterns2 \<leftarrow> vset (fst st) (index + 1) b;
            GeneratePhrases x ranges (index + 2) target_gap_order source_indexes sentence_id (subpatterns2, snd st) })
            (subpatterns1, snd st) }) st })"
  by pat_completeness auto
termination
  by (relation "measure (\<lambda>(x, ranges, index, _). nat (vsize ranges - index))") auto

declare GeneratePhrases.simps [simp del]

text \<open>The widening loops: step over unaligned words, not past \<open>limit\<close>.\<close>

function loose_left :: "int list \<Rightarrow> int \<Rightarrow> int \<Rightarrow> int option" where
  "loose_left low limit x = (if limit < x then do {
     l \<leftarrow> vat low (x - 1);
     if l = -1 then loose_left low limit (x - 1) else Some x } else Some x)"
  by auto
termination by (relation "measure (\<lambda>(low, limit, x). nat (x - limit))") auto

function loose_right :: "int list \<Rightarrow> int \<Rightarrow> int \<Rightarrow> int option" where
  "loose_right low limit x = (if x < limit then do {
     l \<leftarrow> vat low x;
     if l = -1 then loose_right low limit (x + 1) else Some x } else Some x)"
  by auto
termination by (relation "measure (\<lambda>(low, limit, x). nat (limit - x))") auto

declare loose_left.simps [simp del] loose_right.simps [simp del]

definition widen_gap :: "bool \<Rightarrow> int list \<Rightarrow> int \<Rightarrow> int \<Rightarrow> int \<times> int \<Rightarrow> (int \<times> int) option" where
  "widen_gap tight target_low target_x_low target_x_high gap =
     (if tight then Some gap
      else do {
        a \<leftarrow> loose_left target_low target_x_low (fst gap);
        b \<leftarrow> loose_right target_low target_x_high (snd gap);
        Some (a, b) })"

definition ExtractPhrases ::
  "target_extractor \<Rightarrow> (int \<times> int) list \<Rightarrow> int list \<Rightarrow> int \<Rightarrow> int \<Rightarrow> (int \<rightharpoonup> int) \<Rightarrow> int \<Rightarrow> vocabulary \<Rightarrow>
   target_state option" where
  "ExtractPhrases x target_gaps target_low target_phrase_low target_phrase_high source_indexes sentence_id voc = do {
     target_sent_len \<leftarrow> GetSentenceLength (tx_data x) sentence_id;
     target_gap_order \<leftarrow> GetGapOrder target_gaps;
     target_x_low \<leftarrow> (if tx_require_tight_phrases x then Some target_phrase_low
       else loose_left target_low (max 0 (target_phrase_high - tx_max_rule_span x)) target_phrase_low);
     target_x_high \<leftarrow> (if tx_require_tight_phrases x then Some target_phrase_high
       else loose_right target_low (min target_sent_len (target_phrase_low + tx_max_rule_span x)) target_phrase_high);
     ranges \<leftarrow> for_each (positions target_gaps) (\<lambda>i ranges. do {
         j \<leftarrow> vat target_gap_order i;
         g \<leftarrow> vat target_gaps j;
         (a, b) \<leftarrow> widen_gap (tx_require_tight_phrases x) target_low target_x_low target_x_high g;
         Some (ranges @ [(a, fst g), (snd g, b)]) }) [(target_x_low, target_phrase_low)];
     let ranges1 = ranges @ [(target_phrase_high, target_x_high)];
     (_, out) \<leftarrow> GeneratePhrases x ranges1 0 target_gap_order source_indexes sentence_id
       (replicate (length ranges1) 0, voc, []);
     Some out }"

section \<open>The search enumerates the chunk limits in order\<close>

text \<open>
  The chunk limits that fit the ranges, in lexicographic order: starts and ends alternate, every
  limit is in its range and none is before the one before it.
\<close>

fun choices :: "int option \<Rightarrow> (int \<times> int) list \<Rightarrow> int list list" where
  "choices p (r # r' # rs) = concat (map (\<lambda>a. concat (map (\<lambda>b. map (\<lambda>c. a # b # c) (choices (Some b) rs))
     (int_range (max a (fst r')) (snd r' + 1))))
     (int_range (case p of None \<Rightarrow> fst r | Some q \<Rightarrow> max (fst r) q) (snd r + 1)))"
| "choices p rs = [[]]"

text \<open>A run with scratch memory that acts on the rest of the state as the loop over \<open>L\<close>.\<close>

definition emits ::
  "('m \<Rightarrow> bool) \<Rightarrow> ('m \<times> 's \<Rightarrow> ('m \<times> 's) option) \<Rightarrow> 'a list \<Rightarrow> ('a \<Rightarrow> 's \<Rightarrow> 's option) \<Rightarrow> bool" where
  "emits I f L e \<longleftrightarrow> (\<forall>m s. I m \<longrightarrow> map_option snd (f (m, s)) = for_each L e s \<and>
     (\<forall>m' s'. f (m, s) = Some (m', s') \<longrightarrow> I m'))"

lemma emitsI:
  assumes "\<And>m s. I m \<Longrightarrow> map_option snd (f (m, s)) = for_each L e s"
    "\<And>m s m' s'. I m \<Longrightarrow> f (m, s) = Some (m', s') \<Longrightarrow> I m'"
  shows "emits I f L e"
  using assms unfolding emits_def by blast

lemma emitsD:
  assumes "emits I f L e" "I m"
  shows "map_option snd (f (m, s)) = for_each L e s" "f (m, s) = Some (m', s') \<Longrightarrow> I m'"
  using assms unfolding emits_def by blast+

lemma emits_for_each:
  assumes "\<And>x. x \<in> set xs \<Longrightarrow> emits I (f x) (L x) e"
  shows "emits I (for_each xs f) (concat (map L xs)) e"
  using assms
proof (induction xs)
  case Nil
  show ?case by (rule emitsI) auto
next
  case (Cons x xs)
  have x: "emits I (f x) (L x) e" and xs: "emits I (for_each xs f) (concat (map L xs)) e"
    using Cons by auto
  show ?case
  proof (rule emitsI)
    fix m s assume m: "I m"
    show "map_option snd (for_each (x # xs) f (m, s)) = for_each (concat (map L (x # xs))) e s"
    proof (cases "f x (m, s)")
      case None
      then have "for_each (L x) e s = None" using emitsD(1) [OF x m, of s] by simp
      with None show ?thesis by (simp add: for_each_append)
    next
      case (Some t)
      obtain m' s' where t: "t = (m', s')" by (cases t)
      have "for_each (L x) e s = Some s'" using emitsD(1) [OF x m, of s] Some t by simp
      then show ?thesis using Some t emitsD(1) [OF xs emitsD(2) [OF x m], of s m' s' s'] by (simp add: for_each_append)
    qed
  next
    fix m s m' s' assume m: "I m" and run: "for_each (x # xs) f (m, s) = Some (m', s')"
    obtain m1 s1 where 1: "f x (m, s) = Some (m1, s1)" "for_each xs f (m1, s1) = Some (m', s')"
      using run by (auto simp: bind_Some_iff)
    show "I m'" by (rule emitsD(2) [OF xs emitsD(2) [OF x m 1(1)] 1(2)])
  qed
qed

text \<open>The scratch memory: the entries before \<open>index\<close> are fixed.\<close>

definition fixed_upto :: "nat \<Rightarrow> int list \<Rightarrow> int list \<Rightarrow> bool" where
  "fixed_upto n pre sub \<longleftrightarrow> length sub = n \<and> take (length pre) sub = pre \<and> length pre \<le> n"

lemma fixed_upto_at: "fixed_upto n (pre @ [a] @ post) sub \<Longrightarrow> vat sub (vsize pre) = Some a"
proof -
  assume f: "fixed_upto n (pre @ [a] @ post) sub"
  then have "sub ! length pre = take (length (pre @ [a] @ post)) sub ! length pre" by simp
  also have "\<dots> = a" using f by (simp only: fixed_upto_def) (simp add: nth_append)
  finally show "vat sub (vsize pre) = Some a" using f by (simp add: vat_def vsize_def fixed_upto_def)
qed

lemma fixed_upto_set:
  assumes "fixed_upto n pre sub" "length pre < n"
  shows "\<exists>sub'. vset sub (vsize pre) a = Some sub' \<and> fixed_upto n (pre @ [a]) sub'"
proof -
  have len: "length pre < length sub" using assms by (simp add: fixed_upto_def)
  have "take (Suc (length pre)) (sub[length pre := a]) = take (length pre) sub @ [a]"
    using len by (simp add: take_Suc_conv_app_nth)
  then show ?thesis using assms len by (simp add: fixed_upto_def vsize_def)
qed

lemma fixed_upto_less: "fixed_upto n (pre @ post) sub \<Longrightarrow> fixed_upto n pre sub"
  by (auto simp: fixed_upto_def) (metis append_eq_conv_conj append_take_drop_id append.assoc)

lemma emits_weaken:
  assumes "emits J f L e" "\<And>m s. I m \<Longrightarrow> \<exists>m'. g m = Some m' \<and> J m'" "\<And>m. J m \<Longrightarrow> I m"
  shows "emits I (\<lambda>(m, s). do { m' \<leftarrow> g m; f (m', s) }) L e"
proof (rule emitsI)
  fix m s assume "I m"
  then obtain m1 where m1: "g m = Some m1" "J m1" using assms(2) by blast
  show "map_option snd ((\<lambda>(m, s). do { m' \<leftarrow> g m; f (m', s) }) (m, s)) = for_each L e s"
    using emitsD(1) [OF assms(1) m1(2)] m1(1) by simp
  fix m' s' assume "(\<lambda>(m, s). do { m' \<leftarrow> g m; f (m', s) }) (m, s) = Some (m', s')"
  then show "I m'" using emitsD(2) [OF assms(1) m1(2)] assms(3) m1(1) by auto
qed

lemma GeneratePhrases_emits:
  assumes "even (length rs)" "even (length pre)" "length ranges0 = length pre"
  shows "emits (fixed_upto (length pre + length rs) pre)
    (GeneratePhrases x (ranges0 @ rs) (vsize pre) order si sid)
    (map (\<lambda>c. pre @ c) (choices (if pre = [] then None else Some (last pre)) rs))
    (emit_phrase x order si sid)"
  using assms
proof (induction "length rs" arbitrary: pre ranges0 rs rule: less_induct)
  case less
  let ?P = "if pre = [] then None else Some (last pre)"
  show ?case
  proof (cases rs)
    case Nil
    show ?thesis
    proof (rule emitsI)
      fix sub st assume "fixed_upto (length pre + length rs) pre sub"
      then have sub: "sub = pre" using Nil by (auto simp: fixed_upto_def)
      show "map_option snd (GeneratePhrases x (ranges0 @ rs) (vsize pre) order si sid (sub, st)) =
        for_each (map (\<lambda>c. pre @ c) (choices ?P rs)) (emit_phrase x order si sid) st"
        using Nil less.prems(3) sub
        by (subst GeneratePhrases.simps) (auto simp: vsize_def split: Option.bind_split)
    next
      fix sub st sub' st' assume "fixed_upto (length pre + length rs) pre sub"
        "GeneratePhrases x (ranges0 @ rs) (vsize pre) order si sid (sub, st) = Some (sub', st')"
      then show "fixed_upto (length pre + length rs) pre sub'"
        using Nil less.prems(3) by (subst (asm) GeneratePhrases.simps) (auto simp: vsize_def bind_Some_iff)
    qed
  next
    case (Cons r rest)
    then obtain r' rs' where rs: "rs = r # r' # rs'" using less.prems(1) by (cases rest) auto
    let ?n = "length pre + length rs"
    let ?start = "case ?P of None \<Rightarrow> fst r | Some q \<Rightarrow> max (fst r) q"
    let ?inner = "\<lambda>a b. \<lambda>st. do {
            subpatterns2 \<leftarrow> vset (fst st) (vsize pre + 1) b;
            GeneratePhrases x (ranges0 @ rs) (vsize pre + 2) order si sid (subpatterns2, snd st) }"
    let ?outer = "\<lambda>a st. do {
          subpatterns1 \<leftarrow> vset (fst st) (vsize pre) a;
          for_each (int_range (max a (fst r')) (snd r' + 1)) (?inner a) (subpatterns1, snd st) }"
    have inner: "emits (fixed_upto ?n (pre @ [a])) (?inner a b)
        (map (\<lambda>c. pre @ a # b # c) (choices (Some b) rs')) (emit_phrase x order si sid)" for a b
    proof -
      have "emits (fixed_upto (length (pre @ [a, b]) + length rs') (pre @ [a, b]))
        (GeneratePhrases x ((ranges0 @ [r, r']) @ rs') (vsize (pre @ [a, b])) order si sid)
        (map (\<lambda>c. (pre @ [a, b]) @ c) (choices (if pre @ [a, b] = [] then None else Some (last (pre @ [a, b]))) rs'))
        (emit_phrase x order si sid)"
        by (rule less.hyps) (use less.prems rs in simp_all)
      then have step: "emits (fixed_upto ?n (pre @ [a, b])) (GeneratePhrases x (ranges0 @ rs) (vsize pre + 2) order si sid)
        (map (\<lambda>c. pre @ a # b # c) (choices (Some b) rs')) (emit_phrase x order si sid)"
        by (simp add: rs)
      have "emits (fixed_upto ?n (pre @ [a])) (\<lambda>(m, s). do { m' \<leftarrow> vset m (vsize pre + 1) b;
          GeneratePhrases x (ranges0 @ rs) (vsize pre + 2) order si sid (m', s) })
        (map (\<lambda>c. pre @ a # b # c) (choices (Some b) rs')) (emit_phrase x order si sid)"
      proof (rule emits_weaken [OF step])
        fix m assume "fixed_upto ?n (pre @ [a]) m"
        then show "\<exists>m'. vset m (vsize pre + 1) b = Some m' \<and> fixed_upto ?n (pre @ [a, b]) m'"
          using fixed_upto_set [of ?n "pre @ [a]" m b] rs by simp
      next
        fix m assume "fixed_upto ?n (pre @ [a, b]) m"
        then show "fixed_upto ?n (pre @ [a]) m" using fixed_upto_less [of ?n "pre @ [a]" "[b]" m] by simp
      qed
      then show ?thesis by (simp add: split_def)
    qed
    have outer: "emits (fixed_upto ?n pre) (?outer a)
        (concat (map (\<lambda>b. map (\<lambda>c. pre @ a # b # c) (choices (Some b) rs')) (int_range (max a (fst r')) (snd r' + 1))))
        (emit_phrase x order si sid)" for a
    proof -
      have "emits (fixed_upto ?n pre) (\<lambda>(m, s). do { m' \<leftarrow> vset m (vsize pre) a;
          for_each (int_range (max a (fst r')) (snd r' + 1)) (?inner a) (m', s) })
        (concat (map (\<lambda>b. map (\<lambda>c. pre @ a # b # c) (choices (Some b) rs')) (int_range (max a (fst r')) (snd r' + 1))))
        (emit_phrase x order si sid)"
      proof (rule emits_weaken [OF emits_for_each [OF inner]])
        fix m assume "fixed_upto ?n pre m"
        then show "\<exists>m'. vset m (vsize pre) a = Some m' \<and> fixed_upto ?n (pre @ [a]) m'"
          using fixed_upto_set [of ?n pre m a] rs by simp
      next
        fix m assume "fixed_upto ?n (pre @ [a]) m"
        then show "fixed_upto ?n pre m" using fixed_upto_less [of ?n pre "[a]" m] by simp
      qed
      then show ?thesis by (simp add: split_def)
    qed
    have loop: "emits (fixed_upto ?n pre) (for_each (int_range ?start (snd r + 1)) ?outer)
      (concat (map (\<lambda>a. concat (map (\<lambda>b. map (\<lambda>c. pre @ a # b # c) (choices (Some b) rs'))
         (int_range (max a (fst r')) (snd r' + 1)))) (int_range ?start (snd r + 1)))) (emit_phrase x order si sid)"
      by (rule emits_for_each [OF outer])
    have run: "GeneratePhrases x (ranges0 @ rs) (vsize pre) order si sid (sub, st) =
        for_each (int_range ?start (snd r + 1)) ?outer (sub, st)"
      if sub: "fixed_upto ?n pre sub" for sub st
    proof -
      have at: "vat (ranges0 @ rs) (vsize pre) = Some r" "vat (ranges0 @ rs) (vsize pre + 1) = Some r'"
        using less.prems(3) rs by (simp_all add: vat_append vsize_def vat_Cons)
      have prev: "vat sub (vsize pre - 1) = Some (last pre)" if "pre \<noteq> []"
      proof -
        have "fixed_upto ?n (butlast pre @ [last pre] @ []) sub" using sub that by simp
        from fixed_upto_at [OF this] show ?thesis using that by (simp add: vsize_def of_nat_diff Suc_leI)
      qed
      have "\<not> vsize (ranges0 @ rs) \<le> vsize pre" "0 < vsize pre \<longleftrightarrow> pre \<noteq> []"
        using less.prems(3) rs by (auto simp: vsize_def)
      then show ?thesis
        by (subst GeneratePhrases.simps) (use at prev in \<open>simp add: split_def\<close>)
    qed
    have flat: "map (\<lambda>c. pre @ c) (choices ?P rs) =
        concat (map (\<lambda>a. concat (map (\<lambda>b. map (\<lambda>c. pre @ a # b # c) (choices (Some b) rs'))
         (int_range (max a (fst r')) (snd r' + 1)))) (int_range ?start (snd r + 1)))"
      by (simp add: rs map_concat o_def)
    show ?thesis
    proof (rule emitsI)
      fix sub st assume I: "fixed_upto ?n pre sub"
      show "map_option snd (GeneratePhrases x (ranges0 @ rs) (vsize pre) order si sid (sub, st)) =
          for_each (map (\<lambda>c. pre @ c) (choices ?P rs)) (emit_phrase x order si sid) st"
        unfolding run [OF I] flat by (rule emitsD(1) [OF loop I])
    next
      fix sub st sub' st' assume I: "fixed_upto ?n pre sub"
        and r: "GeneratePhrases x (ranges0 @ rs) (vsize pre) order si sid (sub, st) = Some (sub', st')"
      show "fixed_upto ?n pre sub'" by (rule emitsD(2) [OF loop I r [unfolded run [OF I]]])
    qed
  qed
qed

text \<open>
  The recursive search over the shared array \<open>subpatterns\<close> does what a loop over all
  admissible chunk limits in lexicographic order does, and stops where one fails.
\<close>

lemma GeneratePhrases_loop:
  assumes "even (length ranges)"
  shows "map_option snd (GeneratePhrases x ranges 0 order si sid (replicate (length ranges) 0, st)) =
    for_each (choices None ranges) (emit_phrase x order si sid) st"
proof -
  have "emits (fixed_upto (length ranges) []) (GeneratePhrases x ranges 0 order si sid)
    (choices None ranges) (emit_phrase x order si sid)"
    using GeneratePhrases_emits [of ranges "[]" "[]" x order si sid] assms by simp
  then show ?thesis by (rule emitsD(1)) (simp add: fixed_upto_def)
qed

text \<open>The limits of a choice: as many as there are ranges, none before the one before it or its range.\<close>

lemma choices_limits:
  assumes "c \<in> set (choices p rs)" "even (length rs)"
  shows "length c = length rs \<and> sorted c \<and> (\<forall>q. p = Some q \<longrightarrow> (\<forall>s \<in> set c. q \<le> s)) \<and>
    list_all2 (\<lambda>s r. fst r \<le> s \<and> s \<le> snd r) c rs"
  using assms
proof (induction p rs arbitrary: c rule: choices.induct)
  case (1 p r r' rs)
  let ?lo = "case p of None \<Rightarrow> fst r | Some q \<Rightarrow> max (fst r) q"
  obtain a b c' where c: "c = a # b # c'" and a: "a \<in> set (int_range ?lo (snd r + 1))"
    and b: "b \<in> set (int_range (max a (fst r')) (snd r' + 1))" and c': "c' \<in> set (choices (Some b) rs)"
    using 1(2) unfolding choices.simps by auto
  have IH: "length c' = length rs \<and> sorted c' \<and> (\<forall>s \<in> set c'. b \<le> s) \<and> list_all2 (\<lambda>s r. fst r \<le> s \<and> s \<le> snd r) c' rs"
    using 1(1) [OF a b c'] 1(3) by simp
  have lo: "fst r \<le> a" "a \<le> snd r" "\<forall>q. p = Some q \<longrightarrow> q \<le> a" using a by (auto split: option.splits)
  have "a \<le> b" "fst r' \<le> b" "b \<le> snd r'" using b by auto
  with IH lo show ?case unfolding c by fastforce
qed auto

section \<open>What an emitted phrase says\<close>

text \<open>The target positions that the chunk limits cover, chunk by chunk.\<close>

definition covered :: "int list \<Rightarrow> nat \<Rightarrow> int list" where
  "covered subpatterns n = concat (map (\<lambda>i. int_range (subpatterns ! (2 * i)) (subpatterns ! (2 * i + 1))) [0..<n])"

lemma covered_0 [simp]: "covered sub 0 = []"
  by (simp add: covered_def)

lemma covered_Suc: "covered sub (Suc n) = covered sub n @ int_range (sub ! (2 * n)) (sub ! (2 * n + 1))"
  by (simp add: covered_def)

text \<open>
  What a phrase is to say: the words at the positions of its chunks, and after the chunk \<open>i\<close> the
  nonterminal of the gap that \<open>target_gap_order\<close> has at \<open>i\<close>.
\<close>

datatype piece = At int | Gap int

definition chunk_plan :: "int list \<Rightarrow> int list \<Rightarrow> nat \<Rightarrow> piece list" where
  "chunk_plan c order i = map At (int_range (c ! (2 * i)) (c ! (2 * i + 1))) @ (if i < length order then [Gap (order ! i + 1)] else [])"

definition plan_upto :: "int list \<Rightarrow> int list \<Rightarrow> nat \<Rightarrow> piece list" where
  "plan_upto c order n = concat (map (chunk_plan c order) [0..<n])"

definition phrase_plan :: "int list \<Rightarrow> int list \<Rightarrow> piece list" where
  "phrase_plan c order = plan_upto c order (length c div 2)"

text \<open>A symbol that says a piece, in a vocabulary.\<close>

fun says :: "vocabulary \<Rightarrow> data_array \<Rightarrow> int \<Rightarrow> piece \<Rightarrow> int \<Rightarrow> bool" where
  "says voc d start (At j) s = (GetWordAtIndex d (start + j) \<noteq> None \<and> GetTerminalValue voc s = GetWordAtIndex d (start + j))"
| "says voc d start (Gap k) s = (s = GetNonterminalIndex k)"

text \<open>
  The phrase and links for a choice of chunk limits: every symbol says its piece, the words are those
  of the covered positions, and there is an entry for every link into a covered position, with the
  source index of the link and the place that the word of the link has in the phrase.
\<close>

definition target_phrase_of ::
  "target_extractor \<Rightarrow> int list \<Rightarrow> (int \<rightharpoonup> int) \<Rightarrow> link list \<Rightarrow> int \<Rightarrow> vocabulary \<Rightarrow> int list \<Rightarrow> phrase \<times> phrase_alignment \<Rightarrow> bool" where
  "target_phrase_of x order si links start voc c = (\<lambda>(p, al).
     list_all2 (says voc (tx_data x) start) (phrase_plan c order) (ph_symbols p) \<and>
     map Some (ph_words p) = map (\<lambda>j. GetWordAtIndex (tx_data x) (start + j)) (covered c (length c div 2)) \<and>
     map (\<lambda>(s, t). (Some s, vat (phrase_plan c order) t)) al =
       map (\<lambda>(i, j). (si i, Some (At j))) (filter (\<lambda>(i, j). j \<in> set (covered c (length c div 2))) links))"

lemma plan_upto_Suc: "plan_upto c order (Suc n) = plan_upto c order n @ chunk_plan c order n"
  by (simp add: plan_upto_def)

lemma plan_upto_covered: "At j \<in> set (plan_upto c order n) \<longleftrightarrow> j \<in> set (covered c n)"
  by (induction n) (auto simp: plan_upto_Suc covered_Suc chunk_plan_def plan_upto_def)

lemma plan_words: "concat (map (\<lambda>q. case q of At j \<Rightarrow> [f j] | Gap k \<Rightarrow> []) (plan_upto c order n)) = map f (covered c n)"
  by (induction n) (simp_all add: plan_upto_Suc covered_Suc chunk_plan_def plan_upto_def o_def)

text \<open>The state of the construction after the pieces \<open>plan\<close>.\<close>

definition keeps_words :: "vocabulary \<Rightarrow> vocabulary \<Rightarrow> bool" where
  "keeps_words voc voc' \<longleftrightarrow> wf_vocabulary voc' \<and> (\<forall>s w. GetTerminalValue voc s = Some w \<longrightarrow> GetTerminalValue voc' s = Some w)"

definition built :: "data_array \<Rightarrow> int \<Rightarrow> vocabulary \<Rightarrow> piece list \<Rightarrow> vocabulary \<times> int list \<times> (int \<rightharpoonup> int) \<Rightarrow> bool" where
  "built d start voc0 plan = (\<lambda>(voc, symbols, target_indexes). keeps_words voc0 voc \<and>
     list_all2 (says voc d start) plan symbols \<and>
     dom target_indexes = {j. At j \<in> set plan} \<and> (\<forall>j t. target_indexes j = Some t \<longrightarrow> vat plan t = Some (At j)))"

lemma keeps_words_trans: "keeps_words a b \<Longrightarrow> keeps_words b c \<Longrightarrow> keeps_words a c"
  by (simp add: keeps_words_def)

lemma says_kept: "says voc d start q s \<Longrightarrow> keeps_words voc voc' \<Longrightarrow> says voc' d start q s"
  by (cases q) (auto simp: keeps_words_def)

lemma says_all_kept: "list_all2 (says voc d start) plan symbols \<Longrightarrow> keeps_words voc voc' \<Longrightarrow> list_all2 (says voc' d start) plan symbols"
  by (erule list_all2_mono) (rule says_kept)

lemma vat_snoc_keep: "vat xs t = Some y \<Longrightarrow> vat (xs @ ys) t = Some y"
  by (auto simp: vat_append dest: vat_bound)

lemma terminal_value_terminal: "GetTerminalValue voc s = Some w \<Longrightarrow> IsTerminal s"
  by (auto simp: GetTerminalValue_def IsTerminal_def dest: vat_bound)

lemma add_word_built:
  assumes "built d start voc0 plan st" "GetWordAtIndex d (start + j) = Some w"
  shows "ensures (add_word d start j st) (built d start voc0 (plan @ [At j]))"
proof -
  obtain voc symbols ix where st: "st = (voc, symbols, ix)" by (cases st)
  obtain s voc' where s: "GetTerminalIndex w voc = (s, voc')" by fastforce
  have I: "keeps_words voc0 voc" "list_all2 (says voc d start) plan symbols" "dom ix = {j. At j \<in> set plan}"
    "\<And>j t. ix j = Some t \<Longrightarrow> vat plan t = Some (At j)"
    using assms(1) st by (auto simp: built_def)
  have wf: "wf_vocabulary voc" using I(1) by (simp add: keeps_words_def)
  have val: "GetTerminalValue voc' s = Some w" using voc.intern_value [OF wf s] .
  have k: "keeps_words voc voc'" using voc.intern_wf [OF wf s] voc.intern_keeps [OF wf s] by (simp add: keeps_words_def)
  have bound: "t < vsize plan" if "ix j = Some t" for j t using vat_bound [OF I(4) [OF that]] by simp
  have "vsize symbols = vsize plan" using list_all2_lengthD [OF I(2)] by (simp add: vsize_def)
  then show ?thesis
    using keeps_words_trans [OF I(1) k] says_all_kept [OF I(2) k] I(3,4) assms(2) val
    by (auto simp: st add_word_def s ensures_Some built_def list_all2_appendI vat_snoc_keep vat_append vat_singleton dest: bound)
qed

lemma add_words_built:
  assumes "built d start voc0 plan st" "\<forall>j \<in> set (int_range a b). GetWordAtIndex d (start + j) \<noteq> None" "0 \<le> a" "0 \<le> b"
  shows "ensures (for_each (size_range a b) (add_word d start) st) (built d start voc0 (plan @ map At (int_range a b)))"
proof -
  have range: "size_range a b = int_range a b" using assms(3,4) by (simp add: int_range_def)
  show ?thesis unfolding range
  proof (rule ensures_for_each [where I = "\<lambda>ys. built d start voc0 (plan @ map At ys)"])
    show "built d start voc0 (plan @ map At []) st" using assms(1) by simp
  next
    fix ys x zs u assume split: "int_range a b = ys @ x # zs" and I: "built d start voc0 (plan @ map At ys) u"
    have "x \<in> set (int_range a b)" using split by simp
    then obtain w where "GetWordAtIndex d (start + x) = Some w" using assms(2) by blast
    from add_word_built [OF I this] show "ensures (add_word d start x u) (built d start voc0 (plan @ map At (ys @ [x])))" by simp
  qed simp
qed

lemma add_gap_built:
  assumes "built d start voc0 plan (voc, symbols, ix)"
  shows "built d start voc0 (plan @ [Gap k]) (voc, symbols @ [GetNonterminalIndex k], ix)"
  using assms by (auto simp: built_def list_all2_appendI vat_snoc_keep)

lemma add_chunk_built:
  assumes "built d start voc0 (plan_upto c order n) st" "2 * n + 1 < length c" "\<forall>s \<in> set c. 0 \<le> s"
    "\<forall>j \<in> set (covered c (Suc n)). GetWordAtIndex d (start + j) \<noteq> None"
  shows "ensures (add_chunk d start c order (int n) st) (built d start voc0 (plan_upto c order (Suc n)))"
proof -
  let ?a = "c ! (2 * n)" and ?b = "c ! (2 * n + 1)"
  have at: "vat c (2 * int n) = Some ?a" "vat c (2 * int n + 1) = Some ?b"
    using assms(2) vat_nat [of "2 * n" c] vat_nat [of "2 * n + 1" c] by (simp_all add: add.commute)
  have pos: "0 \<le> ?a" "0 \<le> ?b"
    using assms(2,3) nth_mem [of "2 * n" c] nth_mem [of "2 * n + 1" c] by auto
  have "ensures (for_each (size_range ?a ?b) (add_word d start) st) (built d start voc0 (plan_upto c order n @ map At (int_range ?a ?b)))"
    by (rule add_words_built [OF assms(1) _ pos]) (use assms(4) in \<open>simp add: covered_Suc\<close>)
  then obtain voc symbols ix where run: "for_each (size_range ?a ?b) (add_word d start) st = Some (voc, symbols, ix)"
    and I: "built d start voc0 (plan_upto c order n @ map At (int_range ?a ?b)) (voc, symbols, ix)"
    by (auto simp: ensures_def)
  show ?thesis using I add_gap_built [OF I, of "order ! n + 1"]
    unfolding add_chunk_def at Option.bind.bind_lunit run by (auto simp: ensures_def vsize_def plan_upto_Suc chunk_plan_def)
qed

lemma phrase_links_run:
  assumes "\<forall>(i, j) \<in> set links. j \<in> dom ix \<longrightarrow> si i \<noteq> None" "\<forall>j t. ix j = Some t \<longrightarrow> vat plan t = Some (At j)"
  shows "ensures (phrase_links links si ix) (\<lambda>al. map (\<lambda>(s, t). (Some s, vat plan t)) al =
    map (\<lambda>(i, j). (si i, Some (At j))) (filter (\<lambda>(i, j). j \<in> dom ix) links))"
  unfolding phrase_links_def
proof (rule ensures_for_each [where I = "\<lambda>ys al. map (\<lambda>(s, t). (Some s, vat plan t)) al =
    map (\<lambda>(i, j). (si i, Some (At j))) (filter (\<lambda>(i, j). j \<in> dom ix) ys)"])
  fix ys x zs and al :: "(int \<times> int) list"
  assume split: "links = ys @ x # zs"
    and I: "map (\<lambda>(s, t). (Some s, vat plan t)) al = map (\<lambda>(i, j). (si i, Some (At j))) (filter (\<lambda>(i, j). j \<in> dom ix) ys)"
  have "snd x \<in> dom ix \<longrightarrow> si (fst x) \<noteq> None" using assms(1) split by (cases x) auto
  then show "ensures (case ix (snd x) of None \<Rightarrow> Some al | Some t \<Rightarrow> do { s \<leftarrow> si (fst x); Some (al @ [(s, t)]) })
    (\<lambda>al. map (\<lambda>(s, t). (Some s, vat plan t)) al = map (\<lambda>(i, j). (si i, Some (At j))) (filter (\<lambda>(i, j). j \<in> dom ix) (ys @ [x])))"
    using I assms(2) by (cases x) (auto simp: ensures_def split: option.splits)
qed simp_all

text \<open>The symbols for a plan are in the vocabulary, and its words are their words.\<close>

lemma says_valid:
  assumes "list_all2 (says voc d start) plan symbols" "\<forall>k. Gap k \<in> set plan \<longrightarrow> 0 < k"
  shows "valid_symbols voc symbols" "map Some (map (\<lambda>s. voc_words voc ! nat s) (filter IsTerminal symbols)) =
    concat (map (\<lambda>q. case q of At j \<Rightarrow> [GetWordAtIndex d (start + j)] | Gap k \<Rightarrow> []) plan)"
proof -
  have word: "IsTerminal s \<and> 0 \<le> s \<and> s < vsize (voc_words voc) \<and> Some (voc_words voc ! nat s) = GetWordAtIndex d (start + j)"
    if "says voc d start (At j) s" for s j
    using that by (auto simp: GetTerminalValue_def IsTerminal_def vat_def vsize_def split: if_splits)
  have gap: "\<not> IsTerminal s" if "says voc d start (Gap k) s" "0 < k" for s k
    using that by (simp add: IsTerminal_def GetNonterminalIndex_def)
  show "valid_symbols voc symbols"
    using assms
  proof (induction rule: list_all2_induct)
    case (Cons q plan s symbols)
    then show ?case using word [of _ s] gap [of _ s] by (cases q) (auto simp: valid_symbols_def)
  qed (simp add: valid_symbols_def)
  show "map Some (map (\<lambda>s. voc_words voc ! nat s) (filter IsTerminal symbols)) =
    concat (map (\<lambda>q. case q of At j \<Rightarrow> [GetWordAtIndex d (start + j)] | Gap k \<Rightarrow> []) plan)"
    using assms
  proof (induction rule: list_all2_induct)
    case (Cons q plan s symbols)
    then show ?case using word [of _ s] gap [of _ s] by (cases q) auto
  qed simp
qed

text \<open>What the emission of a phrase needs of the chunk limits.\<close>

definition limits_ok :: "target_extractor \<Rightarrow> (int \<rightharpoonup> int) \<Rightarrow> link list \<Rightarrow> int \<Rightarrow> int list \<Rightarrow> bool" where
  "limits_ok x si links start c \<longleftrightarrow> even (length c) \<and> c \<noteq> [] \<and> (\<forall>s \<in> set c. 0 \<le> s) \<and>
     (last c - hd c \<le> tx_max_rule_span x \<longrightarrow>
       (\<forall>j \<in> set (covered c (length c div 2)). GetWordAtIndex (tx_data x) (start + j) \<noteq> None) \<and>
       (\<forall>(i, j) \<in> set links. j \<in> set (covered c (length c div 2)) \<longrightarrow> si i \<noteq> None))"

lemma emit_phrase_run:
  assumes wf: "wf_vocabulary voc" and c: "limits_ok x si links start c" and span: "last c - hd c \<le> tx_max_rule_span x"
    and order: "\<forall>k \<in> set order. 0 \<le> k" and s: "GetSentenceStart (tx_data x) sid = Some start" and l: "GetLinks (tx_alignment x) sid = Some links"
  shows "\<exists>voc' r. emit_phrase x order si sid c (voc, phrases) = Some (voc', phrases @ [r]) \<and> keeps_words voc voc' \<and>
    target_phrase_of x order si links start voc' c r"
proof -
  let ?n = "length c div 2" and ?d = "tx_data x" and ?plan = "phrase_plan c order"
  have c': "even (length c)" "c \<noteq> []" "\<forall>s \<in> set c. 0 \<le> s" "\<forall>j \<in> set (covered c ?n). GetWordAtIndex ?d (start + j) \<noteq> None"
    "\<forall>(i, j) \<in> set links. j \<in> set (covered c ?n) \<longrightarrow> si i \<noteq> None"
    using c span by (auto simp: limits_ok_def)
  have half: "(vsize c + 1) div 2 = int ?n" using c'(1) by (auto simp: vsize_def elim!: evenE)
  have "ensures (for_each (int_range 0 (int ?n)) (add_chunk ?d start c order) (voc, [], Map.empty)) (built ?d start voc ?plan)"
  proof (rule ensures_for_range [where I = "\<lambda>k. built ?d start voc (plan_upto c order (nat k))"])
    show "built ?d start voc (plan_upto c order (nat 0)) (voc, [], Map.empty)"
      using wf by (simp add: built_def plan_upto_def keeps_words_def)
  next
    fix k u assume k: "0 \<le> k" "k < int ?n" and I: "built ?d start voc (plan_upto c order (nat k)) u"
    have sub: "set (covered c (Suc (nat k))) \<subseteq> set (covered c ?n)"
    proof -
      have "[0..<?n] = [0..<Suc (nat k)] @ [Suc (nat k)..<?n]"
        using k upt_add_eq_append [of 0 "Suc (nat k)" "?n - Suc (nat k)"] by simp
      then show ?thesis unfolding covered_def by (simp, blast)
    qed
    have "ensures (add_chunk ?d start c order (int (nat k)) u) (built ?d start voc (plan_upto c order (Suc (nat k))))"
      by (rule add_chunk_built [OF I]) (use k sub c' in auto)
    then show "ensures (add_chunk ?d start c order k u) (built ?d start voc (plan_upto c order (nat (k + 1))))"
      using k by (simp add: nat_add_distrib)
  qed (simp_all add: phrase_plan_def)
  then obtain voc' symbols ix where run: "for_each (int_range 0 (int ?n)) (add_chunk ?d start c order) (voc, [], Map.empty)
      = Some (voc', symbols, ix)" and I: "keeps_words voc voc'" "list_all2 (says voc' ?d start) ?plan symbols"
    "dom ix = {j. At j \<in> set ?plan}" "\<forall>j t. ix j = Some t \<longrightarrow> vat ?plan t = Some (At j)"
    by (auto simp: ensures_def built_def)
  have dom: "j \<in> dom ix \<longleftrightarrow> j \<in> set (covered c ?n)" for j using I(3) by (simp add: phrase_plan_def plan_upto_covered)
  have "\<forall>(i, j) \<in> set links. j \<in> dom ix \<longrightarrow> si i \<noteq> None" using c'(5) by (simp only: dom)
  from phrase_links_run [OF this I(4)] obtain al where al: "phrase_links links si ix = Some al"
    "map (\<lambda>(s, t). (Some s, vat ?plan t)) al = map (\<lambda>(i, j). (si i, Some (At j))) (filter (\<lambda>(i, j). j \<in> set (covered c ?n)) links)"
    by (auto simp only: ensures_def dom)
  have gaps: "\<forall>k. Gap k \<in> set ?plan \<longrightarrow> 0 < k"
    using order by (auto simp: phrase_plan_def plan_upto_def chunk_plan_def all_set_conv_all_nth split: if_splits)
  note v = says_valid [OF I(2) gaps]
  have "vfront c = Some (hd c)" "vback c = Some (last c)"
    using c'(2) by (auto simp: vfront_def vback_def split: list.split)
  then have "emit_phrase x order si sid c (voc, phrases) =
      Some (voc', phrases @ [(\<lparr>ph_symbols = symbols, ph_var_pos = var_positions symbols,
        ph_words = map (\<lambda>s. voc_words voc' ! nat s) (filter IsTerminal symbols)\<rparr>, al)])"
    using span by (simp add: emit_phrase_def s l half run al(1) Build_eq [OF v(1)])
  moreover have "map Some (map (\<lambda>s. voc_words voc' ! nat s) (filter IsTerminal symbols)) =
      map (\<lambda>j. GetWordAtIndex ?d (start + j)) (covered c ?n)"
    unfolding v(2) phrase_plan_def by (rule plan_words)
  ultimately show ?thesis using al(2) I(1,2) by (auto simp: target_phrase_of_def)
qed

text \<open>
  C36. For chunk limits inside the sentence that respect the maximal span, \<open>GeneratePhrases\<close> adds one
  phrase: its symbols say, chunk by chunk, the target words at the covered positions, each chunk followed by
  the nonterminal that the gap order has for it, if it has one, and its alignment has one
  entry for every link into a covered position, with the source index of the link and the place of the
  word in the phrase. For limits that do not respect the span it adds nothing.
\<close>

theorem emit_phrase_words:
  assumes "wf_vocabulary voc" "limits_ok x si links start c" "\<forall>k \<in> set order. 0 \<le> k"
    and "GetSentenceStart (tx_data x) sid = Some start" "GetLinks (tx_alignment x) sid = Some links"
  shows "\<exists>voc' new. emit_phrase x order si sid c (voc, phrases) = Some (voc', phrases @ new) \<and> keeps_words voc voc' \<and>
    (if last c - hd c \<le> tx_max_rule_span x then \<exists>r. new = [r] \<and> target_phrase_of x order si links start voc' c r
     else new = [] \<and> voc' = voc)"
proof (cases "last c - hd c \<le> tx_max_rule_span x")
  case True
  with emit_phrase_run [OF assms(1,2) True assms(3-5)] show ?thesis by fastforce
next
  case False
  have "vfront c = Some (hd c)" "vback c = Some (last c)"
    using assms(2) by (auto simp: limits_ok_def vfront_def vback_def split: list.split)
  then show ?thesis using False assms(1) by (simp add: emit_phrase_def keeps_words_def)
qed

text \<open>Phrases said in a vocabulary stay so when it grows.\<close>

lemma target_phrase_kept: "target_phrase_of x order si links start voc c r \<Longrightarrow> keeps_words voc voc' \<Longrightarrow> target_phrase_of x order si links start voc' c r"
  by (auto simp: target_phrase_of_def intro: says_all_kept)

lemma emit_phrases_run:
  assumes "wf_vocabulary voc" "\<forall>c \<in> set cs. limits_ok x si links start c" "\<forall>k \<in> set order. 0 \<le> k"
    and "GetSentenceStart (tx_data x) sid = Some start" "GetLinks (tx_alignment x) sid = Some links"
  shows "ensures (for_each cs (emit_phrase x order si sid) (voc, phrases)) (\<lambda>(voc', out). \<exists>new. out = phrases @ new \<and> keeps_words voc voc' \<and>
    list_all2 (target_phrase_of x order si links start voc') (filter (\<lambda>c. last c - hd c \<le> tx_max_rule_span x) cs) new)"
proof (rule ensures_for_each [where I = "\<lambda>ys (voc', out). \<exists>new. out = phrases @ new \<and> keeps_words voc voc' \<and>
    list_all2 (target_phrase_of x order si links start voc') (filter (\<lambda>c. last c - hd c \<le> tx_max_rule_span x) ys) new"])
  show "case (voc, phrases) of (voc', out) \<Rightarrow> \<exists>new. out = phrases @ new \<and> keeps_words voc voc' \<and>
    list_all2 (target_phrase_of x order si links start voc') (filter (\<lambda>c. last c - hd c \<le> tx_max_rule_span x) []) new"
    using assms(1) by (simp add: keeps_words_def)
next
  fix ys c zs u
  assume split: "cs = ys @ c # zs" and I: "case u of (voc', out) \<Rightarrow> \<exists>new. out = phrases @ new \<and> keeps_words voc voc' \<and>
    list_all2 (target_phrase_of x order si links start voc') (filter (\<lambda>c. last c - hd c \<le> tx_max_rule_span x) ys) new"
  then obtain voc1 new where u: "u = (voc1, phrases @ new)" and k: "keeps_words voc voc1"
    and new: "list_all2 (target_phrase_of x order si links start voc1) (filter (\<lambda>c. last c - hd c \<le> tx_max_rule_span x) ys) new"
    by (cases u) auto
  have c: "limits_ok x si links start c" using assms(2) split by simp
  show "ensures (emit_phrase x order si sid c u) (\<lambda>(voc', out). \<exists>new. out = phrases @ new \<and> keeps_words voc voc' \<and>
    list_all2 (target_phrase_of x order si links start voc') (filter (\<lambda>c. last c - hd c \<le> tx_max_rule_span x) (ys @ [c])) new)"
  proof (cases "last c - hd c \<le> tx_max_rule_span x")
    case True
    have "wf_vocabulary voc1" using k by (simp add: keeps_words_def)
    from emit_phrase_run [OF this c True assms(3-5)] obtain voc2 r where
      r: "emit_phrase x order si sid c (voc1, phrases @ new) = Some (voc2, (phrases @ new) @ [r])" "keeps_words voc1 voc2"
        "target_phrase_of x order si links start voc2 c r" by blast
    have "list_all2 (target_phrase_of x order si links start voc2) (filter (\<lambda>c. last c - hd c \<le> tx_max_rule_span x) ys) new"
      by (rule list_all2_mono [OF new]) (rule target_phrase_kept [OF _ r(2)])
    then show ?thesis using True r keeps_words_trans [OF k r(2)]
      by (auto simp: u ensures_Some list_all2_appendI)
  next
    case False
    have "vfront c = Some (hd c)" "vback c = Some (last c)"
      using c by (auto simp: limits_ok_def vfront_def vback_def split: list.split)
    then show ?thesis using False k new by (simp add: u emit_phrase_def ensures_Some)
  qed
qed simp

text \<open>
  C8. The recursive search over the shared array \<open>subpatterns\<close> adds one phrase for every admissible choice of
  chunk limits that respects the maximal span, in lexicographic order, and nothing else. Each
  phrase has the symbols and the links that its limits determine, in the vocabulary at the end, which
  keeps the words it had. The limits of a choice never decrease, so that a word has one place in its phrase.
\<close>

theorem GeneratePhrases_choices:
  assumes "even (length ranges)" "wf_vocabulary voc" "\<forall>c \<in> set (choices None ranges). limits_ok x si links start c"
    and "\<forall>k \<in> set order. 0 \<le> k" "GetSentenceStart (tx_data x) sid = Some start" "GetLinks (tx_alignment x) sid = Some links"
  shows "\<exists>subpatterns voc' new.
    GeneratePhrases x ranges 0 order si sid (replicate (length ranges) 0, voc, phrases) = Some (subpatterns, voc', phrases @ new) \<and>
    keeps_words voc voc' \<and> (\<forall>c \<in> set (choices None ranges). sorted c) \<and>
    list_all2 (target_phrase_of x order si links start voc') (filter (\<lambda>c. last c - hd c \<le> tx_max_rule_span x) (choices None ranges)) new"
proof -
  obtain voc' new where "for_each (choices None ranges) (emit_phrase x order si sid) (voc, phrases) = Some (voc', phrases @ new)"
    and new: "keeps_words voc voc'"
      "list_all2 (target_phrase_of x order si links start voc') (filter (\<lambda>c. last c - hd c \<le> tx_max_rule_span x) (choices None ranges)) new"
    using emit_phrases_run [OF assms(2-6), of phrases] by (auto simp: ensures_def)
  then have "map_option snd (GeneratePhrases x ranges 0 order si sid (replicate (length ranges) 0, voc, phrases)) = Some (voc', phrases @ new)"
    using GeneratePhrases_loop [OF assms(1), of x order si sid "(voc, phrases)"] by simp
  then show ?thesis using new choices_limits [OF _ assms(1)] by auto
qed

section \<open>A target sentence\<close>

definition sample_target :: target_extractor where
  "sample_target = \<lparr>tx_data = DataArray_of_file [''a b c''], tx_alignment = [[(0, 1), (2, 0)]],
     tx_helper = sample_helper, tx_max_rule_span = 3, tx_require_tight_phrases = False\<rparr>"

theorem GeneratePhrases_choices_witness:
  "length (choices None [(0, 1), (1, 2), (2, 2), (3, 3)]) = 4 \<and>
    (\<exists>sub voc new. GeneratePhrases (sample_target\<lparr>tx_max_rule_span := 2\<rparr>) [(0, 1), (1, 2), (2, 2), (3, 3)] 0 [0] [0 \<mapsto> 0, 2 \<mapsto> 1] 0
      (replicate 4 0, empty_vocabulary, []) = Some (sub, voc, new) \<and> length new = 2)"
proof -
  let ?x = "sample_target\<lparr>tx_max_rule_span := 2\<rparr>" and ?ranges = "[(0, 1), (1, 2), (2, 2), (3, 3)] :: (int \<times> int) list"
  have ok: "\<forall>c \<in> set (choices None ?ranges). limits_ok ?x [0 \<mapsto> 0, 2 \<mapsto> 1] [(0, 1), (2, 0)] 0 c" by code_simp
  have start: "GetSentenceStart (tx_data ?x) 0 = Some 0" by code_simp
  have links: "GetLinks (tx_alignment ?x) 0 = Some [(0, 1), (2, 0)]" by code_simp
  have some: "length (choices None ?ranges) = 4" "length (filter (\<lambda>c. last c - hd c \<le> tx_max_rule_span ?x) (choices None ?ranges)) = 2"
    by code_simp+
  have len: "length ?ranges = 4" by simp
  have "even (length ?ranges)" "\<forall>k \<in> set [0 :: int]. 0 \<le> k" by simp_all
  from GeneratePhrases_choices [OF this(1) wf_empty_vocabulary ok this(2) start links, of "[]"] obtain sub voc new where
    run: "GeneratePhrases ?x ?ranges 0 [0] [0 \<mapsto> 0, 2 \<mapsto> 1] 0 (replicate (length ?ranges) 0, empty_vocabulary, []) = Some (sub, voc, [] @ new)"
    and new: "list_all2 (target_phrase_of ?x [0] [0 \<mapsto> 0, 2 \<mapsto> 1] [(0, 1), (2, 0)] 0 voc)
      (filter (\<lambda>c. last c - hd c \<le> tx_max_rule_span ?x) (choices None ?ranges)) new"
    by blast
  have "length new = 2" using list_all2_lengthD [OF new] some(2) by simp
  then show ?thesis using run some(1) unfolding len append_Nil by blast
qed

theorem emit_phrase_words_witness:
  "\<exists>voc p al. emit_phrase sample_target [0] [2 \<mapsto> 1] 0 [0, 1, 2, 3] (empty_vocabulary, []) = Some (voc, [(p, al)]) \<and>
    ph_words p = [''a'', ''c''] \<and> length (ph_symbols p) = 3 \<and> ph_symbols p ! 1 = GetNonterminalIndex 1 \<and> al = [(1, 0)]"
proof -
  let ?c = "[0, 1, 2, 3 :: int]"
  have ok: "limits_ok sample_target [2 \<mapsto> 1] [(0, 1), (2, 0)] 0 ?c" by code_simp
  have start: "GetSentenceStart (tx_data sample_target) 0 = Some 0" by code_simp
  have links: "GetLinks (tx_alignment sample_target) 0 = Some [(0, 1), (2, 0)]" by code_simp
  have span: "last ?c - hd ?c \<le> tx_max_rule_span sample_target" by code_simp
  have plan: "phrase_plan ?c [0] = [At 0, Gap 1, At 2]" by code_simp
  have words: "map (\<lambda>j. GetWordAtIndex (tx_data sample_target) (0 + j)) (covered ?c (length ?c div 2)) = map Some [''a'', ''c'']" by code_simp
  have kept: "map (\<lambda>(i, j). ([2 \<mapsto> 1] i, Some (At j))) (filter (\<lambda>(i, j). j \<in> set (covered ?c (length ?c div 2))) [(0, 1), (2 :: int, 0)]) =
      [(Some (1 :: int), Some (At 0))]" by code_simp
  have "\<forall>k \<in> set [0 :: int]. 0 \<le> k" by simp
  from emit_phrase_words [OF wf_empty_vocabulary ok this start links, of "[]"] span obtain voc p al where
    run: "emit_phrase sample_target [0] [2 \<mapsto> 1] 0 ?c (empty_vocabulary, []) = Some (voc, [(p, al)])"
    and r: "target_phrase_of sample_target [0] [2 \<mapsto> 1] [(0, 1), (2, 0)] 0 voc ?c (p, al)"
    by auto
  have says: "list_all2 (says voc (tx_data sample_target) 0) [At 0, Gap 1, At 2] (ph_symbols p)"
    and w: "map Some (ph_words p) = map Some [''a'', ''c'']"
    and al: "map (\<lambda>(s, t). (Some s, vat [At 0, Gap 1, At 2] t)) al = [(Some 1, Some (At 0))]"
    using r unfolding target_phrase_of_def plan words kept by simp_all
  have "t = 0" if "vat [At 0, Gap 1, At 2] t = Some (At 0)" for t
    using that by (auto simp: vat_Cons vat_def [of "[]"] split: if_splits)
  then have "al = [(1, 0)]" using al by (auto simp: map_eq_Cons_conv)
  moreover have "ph_words p = [''a'', ''c'']" using w by (rule map_injective) simp
  ultimately show ?thesis using run says by (auto simp: list_all2_Cons1)
qed

end
