(* ===== verification/Doubles.thy ===== *)
theory Doubles
  imports Prelude Complex_Main
begin

text \<open>
  The \<open>double\<close> operations of the program are a parameter, the record \<open>floats\<close>: the model fixes
  which operations the code applies to which operands in which order, not how they round.
  Facts that hold for exact arithmetic only are stated for \<open>exact\<close>, the rational instance.
\<close>

record 'd floats =
  fl_of_int :: "int \<Rightarrow> 'd"
  fl_add :: "'d \<Rightarrow> 'd \<Rightarrow> 'd"
  fl_sub :: "'d \<Rightarrow> 'd \<Rightarrow> 'd"
  fl_neg :: "'d \<Rightarrow> 'd"
  fl_mul :: "'d \<Rightarrow> 'd \<Rightarrow> 'd"
  fl_div :: "'d \<Rightarrow> 'd \<Rightarrow> 'd"
  fl_less :: "'d \<Rightarrow> 'd \<Rightarrow> bool"
  fl_round :: "'d \<Rightarrow> int"
  fl_log10 :: "'d \<Rightarrow> 'd"

text \<open>\<open>std::max\<close> and \<open>fabs\<close>.\<close>

definition fl_max :: "'d floats \<Rightarrow> 'd \<Rightarrow> 'd \<Rightarrow> 'd" where
  "fl_max fl a b = (if fl_less fl a b then b else a)"

definition fl_abs :: "'d floats \<Rightarrow> 'd \<Rightarrow> 'd" where
  "fl_abs fl a = (if fl_less fl a (fl_of_int fl 0) then fl_neg fl a else a)"

text \<open>Exact arithmetic; \<open>round\<close> takes halves away from zero, the logarithm is left open.\<close>

definition round_away :: "rat \<Rightarrow> int" where
  "round_away x = (if 0 \<le> x then \<lfloor>x + 1 / 2\<rfloor> else \<lceil>x - 1 / 2\<rceil>)"

definition exact :: "(rat \<Rightarrow> rat) \<Rightarrow> rat floats" where
  "exact lg = \<lparr>fl_of_int = of_int, fl_add = (+), fl_sub = (-), fl_neg = uminus, fl_mul = (*), fl_div = (/), fl_less = (<),
     fl_round = round_away, fl_log10 = lg\<rparr>"

lemma exact_simps [simp]:
  "fl_of_int (exact lg) = of_int" "fl_add (exact lg) = (+)" "fl_sub (exact lg) = (-)" "fl_neg (exact lg) = uminus" "fl_mul (exact lg) = (*)"
  "fl_div (exact lg) = (/)" "fl_less (exact lg) = (<)" "fl_round (exact lg) = round_away" "fl_log10 (exact lg) = lg"
  by (simp_all add: exact_def)

end
