(* ===== verification/TransTable.thy ===== *)
theory TransTable
  imports Corpus Doubles
begin

text \<open>
  \<open>TranslationTable\<close> (\<open>extractor/translation_table\<close>): counts of linked word pairs and the
  two conditional probabilities. The hash maps are finite maps; \<open>map[k]\<close> creates the value 0.
\<close>

type_synonym counts = "(int \<rightharpoonup> int) \<times> (int \<rightharpoonup> int) \<times> (int \<times> int \<rightharpoonup> int)"

definition increment :: "'k \<Rightarrow> ('k \<rightharpoonup> int) \<Rightarrow> ('k \<rightharpoonup> int)" where
  "increment k m = m(k \<mapsto> (case m k of None \<Rightarrow> 0 | Some n \<Rightarrow> n) + 1)"

definition IncrementLinksCount :: "int \<Rightarrow> int \<Rightarrow> counts \<Rightarrow> counts" where
  "IncrementLinksCount f e = (\<lambda>(source_count, target_count, links_count).
     (increment f source_count, increment e target_count, increment (f, e) links_count))"

text \<open>The three loops for one sentence pair.\<close>

definition count_links ::
  "link list \<Rightarrow> int list \<Rightarrow> int list \<Rightarrow> counts \<Rightarrow> (bool list \<times> bool list \<times> counts) option" where
  "count_links links source_sentence target_sentence counts =
     for_each links (\<lambda>link (source_linked, target_linked, counts). do {
       source_linked' \<leftarrow> vset source_linked (fst link) True;
       target_linked' \<leftarrow> vset target_linked (snd link) True;
       f \<leftarrow> vat source_sentence (fst link);
       e \<leftarrow> vat target_sentence (snd link);
       Some (source_linked', target_linked', IncrementLinksCount f e counts) })
     (replicate (length source_sentence) False, replicate (length target_sentence) False, counts)"

definition count_unlinked ::
  "(int \<Rightarrow> counts \<Rightarrow> counts) \<Rightarrow> bool list \<Rightarrow> int list \<Rightarrow> counts \<Rightarrow> counts option" where
  "count_unlinked add linked sentence = for_each (positions sentence) (\<lambda>i counts. do {
     l \<leftarrow> vat linked i;
     if \<not> l then do { w \<leftarrow> vat sentence i; Some (add w counts) } else Some counts })"

definition count_sentence ::
  "data_array \<Rightarrow> data_array \<Rightarrow> alignment \<Rightarrow> int \<Rightarrow> counts \<Rightarrow> counts option" where
  "count_sentence source target a i counts = do {
     links \<leftarrow> GetLinks a i;
     source_start \<leftarrow> GetSentenceStart source i;
     target_start \<leftarrow> GetSentenceStart target i;
     next_source_start \<leftarrow> map_option (\<lambda>n. n - 1) (GetSentenceStart source (i + 1));
     next_target_start \<leftarrow> map_option (\<lambda>n. n - 1) (GetSentenceStart target (i + 1));
     source_sentence \<leftarrow> vslice (da_data source) source_start (next_source_start - source_start);
     target_sentence \<leftarrow> vslice (da_data target) target_start (next_target_start - target_start);
     (source_linked, target_linked, counts1) \<leftarrow> count_links links source_sentence target_sentence counts;
     counts2 \<leftarrow> count_unlinked (\<lambda>w. IncrementLinksCount w NULL_WORD) source_linked source_sentence counts1;
     count_unlinked (\<lambda>w. IncrementLinksCount NULL_WORD w) target_linked target_sentence counts2 }"

definition count_corpus :: "data_array \<Rightarrow> data_array \<Rightarrow> alignment \<Rightarrow> counts option" where
  "count_corpus source target a =
     for_each (int_range 0 (GetNumSentences source)) (count_sentence source target a) (Map.empty, Map.empty, Map.empty)"

record 'd translation_table =
  tt_source :: data_array
  tt_target :: data_array
  tt_probabilities :: "int \<times> int \<rightharpoonup> 'd \<times> 'd"

text \<open>\<open>source_links_count[source_word]\<close> reads 0 for a missing key.\<close>

definition count_of :: "('k \<rightharpoonup> int) \<Rightarrow> 'k \<Rightarrow> int" where
  "count_of m k = (case m k of None \<Rightarrow> 0 | Some n \<Rightarrow> n)"

definition TranslationTable :: "'d floats \<Rightarrow> data_array \<Rightarrow> data_array \<Rightarrow> alignment \<Rightarrow> 'd translation_table option" where
  "TranslationTable fl source target a = do {
     (source_count, target_count, links_count) \<leftarrow> count_corpus source target a;
     let score = (\<lambda>n m. fl_div fl (fl_mul fl (fl_of_int fl 1) (fl_of_int fl n)) (fl_of_int fl m));
     Some \<lparr>tt_source = source, tt_target = target,
       tt_probabilities = (\<lambda>k. map_option (\<lambda>n. (score n (count_of source_count (fst k)), score n (count_of target_count (snd k))))
         (links_count k))\<rparr> }"

definition GetTargetGivenSourceScore :: "'d floats \<Rightarrow> 'd translation_table \<Rightarrow> string \<Rightarrow> string \<Rightarrow> 'd" where
  "GetTargetGivenSourceScore fl t source_word target_word = (
     let source_id = GetWordId (tt_source t) source_word; target_id = GetWordId (tt_target t) target_word in
     if source_id = -1 \<or> target_id = -1 then fl_of_int fl (-1)
     else case tt_probabilities t (source_id, target_id) of
       None \<Rightarrow> fl_of_int fl 0 | Some p \<Rightarrow> fst p)"

definition GetSourceGivenTargetScore :: "'d floats \<Rightarrow> 'd translation_table \<Rightarrow> string \<Rightarrow> string \<Rightarrow> 'd" where
  "GetSourceGivenTargetScore fl t source_word target_word = (
     let source_id = GetWordId (tt_source t) source_word; target_id = GetWordId (tt_target t) target_word in
     if source_id = -1 \<or> target_id = -1 then fl_of_int fl (-1)
     else case tt_probabilities t (source_id, target_id) of
       None \<Rightarrow> fl_of_int fl 0 | Some p \<Rightarrow> snd p)"

section \<open>The counts add up\<close>

text \<open>
  Only finitely many pairs are counted, every count is positive, and the count of a word is the
  sum of the counts of its pairs.
\<close>

definition counts_inv :: "counts \<Rightarrow> bool" where
  "counts_inv = (\<lambda>(source_count, target_count, links_count). finite (dom links_count) \<and>
     (\<forall>k n. links_count k = Some n \<longrightarrow> 0 < n) \<and>
     (\<forall>f. count_of source_count f = (\<Sum>k \<in> {k \<in> dom links_count. fst k = f}. count_of links_count k)) \<and>
     (\<forall>e. count_of target_count e = (\<Sum>k \<in> {k \<in> dom links_count. snd k = e}. count_of links_count k)))"

lemma count_of_increment: "count_of (increment k m) j = count_of m j + of_bool (j = k)"
  by (auto simp: count_of_def increment_def split: option.splits)

lemma dom_increment: "dom (increment k m) = insert k (dom m)"
  by (auto simp: increment_def)

lemma sum_increment:
  assumes "finite (dom m)"
  shows "(\<Sum>x \<in> {x \<in> dom (increment k m). P x}. count_of (increment k m) x) =
    (\<Sum>x \<in> {x \<in> dom m. P x}. count_of m x) + of_bool (P k)"
proof -
  let ?A = "{x \<in> dom m. P x}"
  have zero: "count_of m x = 0" if "x \<notin> dom m" for x
    using that by (auto simp: count_of_def domIff split: option.split)
  have "(\<Sum>x \<in> {x \<in> dom (increment k m). P x}. count_of (increment k m) x) =
      (\<Sum>x \<in> {x \<in> insert k (dom m). P x}. count_of m x + of_bool (x = k))"
    by (simp add: dom_increment count_of_increment)
  also have "\<dots> = (\<Sum>x \<in> {x \<in> insert k (dom m). P x}. count_of m x) + (\<Sum>x \<in> {x \<in> insert k (dom m). P x}. of_bool (x = k))"
    by (rule sum.distrib)
  also have "(\<Sum>x \<in> {x \<in> insert k (dom m). P x}. count_of m x) = (\<Sum>x \<in> ?A. count_of m x)"
    by (rule sum.mono_neutral_right) (use assms zero in auto)
  also have "(\<Sum>x \<in> {x \<in> insert k (dom m). P x}. of_bool (x = k)) = (of_bool (P k) :: int)"
  proof (cases "P k")
    case True
    have "(\<Sum>x \<in> {x \<in> insert k (dom m). P x}. of_bool (x = k)) = (\<Sum>x \<in> {k}. of_bool (x = k) :: int)"
      by (rule sum.mono_neutral_right) (use assms True in auto)
    then show ?thesis using True by simp
  next
    case False
    then have "(\<Sum>x \<in> {x \<in> insert k (dom m). P x}. of_bool (x = k)) = (\<Sum>x \<in> {x \<in> insert k (dom m). P x}. 0 :: int)"
      by (intro sum.cong) auto
    then show ?thesis using False by simp
  qed
  finally show ?thesis .
qed

lemma IncrementLinksCount_inv:
  assumes "counts_inv c"
  shows "counts_inv (IncrementLinksCount f e c)"
proof -
  obtain sc tc lc where c: "c = (sc, tc, lc)" by (cases c)
  have fin: "finite (dom lc)" and pos: "\<forall>k n. lc k = Some n \<longrightarrow> 0 < n"
    and sums: "\<forall>f. count_of sc f = (\<Sum>k \<in> {k \<in> dom lc. fst k = f}. count_of lc k)"
      "\<forall>e. count_of tc e = (\<Sum>k \<in> {k \<in> dom lc. snd k = e}. count_of lc k)"
    using assms c by (auto simp: counts_inv_def)
  have "finite (dom (increment (f, e) lc))" using fin by (simp add: dom_increment)
  moreover have "0 < n" if "increment (f, e) lc k = Some n" for k n
  proof (cases "k = (f, e)")
    case True
    have "0 \<le> count_of lc (f, e)"
      using pos [rule_format, of "(f, e)"] by (cases "lc (f, e)") (auto simp: count_of_def)
    then show ?thesis using that True by (auto simp: increment_def count_of_def)
  next
    case False
    then have "lc k = Some n" using that by (simp add: increment_def)
    then show ?thesis by (rule pos [rule_format])
  qed
  moreover have "count_of (increment f sc) g = (\<Sum>k \<in> {k \<in> dom (increment (f, e) lc). fst k = g}. count_of (increment (f, e) lc) k)" for g
    unfolding sum_increment [OF fin] count_of_increment [of f sc g] using sums(1) by auto
  moreover have "count_of (increment e tc) g = (\<Sum>k \<in> {k \<in> dom (increment (f, e) lc). snd k = g}. count_of (increment (f, e) lc) k)" for g
    unfolding sum_increment [OF fin] count_of_increment [of e tc g] using sums(2) by auto
  ultimately show ?thesis unfolding c IncrementLinksCount_def counts_inv_def by auto
qed

lemma count_links_inv:
  assumes "count_links links ss ts c = Some (sl, tl', c')" "counts_inv c"
  shows "counts_inv c'"
proof -
  have "counts_inv (snd (snd (sl, tl', c')))"
  proof (rule for_each_keeps [OF assms(1) [unfolded count_links_def], where P = "\<lambda>s. counts_inv (snd (snd s))"])
    show "counts_inv (snd (snd (replicate (length ss) False, replicate (length ts) False, c)))" using assms(2) by simp
  next
    fix link and s s' :: "bool list \<times> bool list \<times> counts"
    assume I: "counts_inv (snd (snd s))" and run: "(case s of (source_linked, target_linked, counts) \<Rightarrow> do {
       source_linked' \<leftarrow> vset source_linked (fst link) True;
       target_linked' \<leftarrow> vset target_linked (snd link) True;
       f \<leftarrow> vat ss (fst link);
       e \<leftarrow> vat ts (snd link);
       Some (source_linked', target_linked', IncrementLinksCount f e counts) }) = Some s'"
    obtain a b d where s: "s = (a, b, d)" by (metis prod.exhaust)
    obtain f e where "snd (snd s') = IncrementLinksCount f e d" using run s by (auto simp: bind_Some_iff)
    then show "counts_inv (snd (snd s'))" using I s IncrementLinksCount_inv by simp
  qed
  then show ?thesis by simp
qed

lemma count_unlinked_inv:
  assumes "count_unlinked add linked s c = Some c'" "counts_inv c"
    and "\<And>w c. counts_inv c \<Longrightarrow> counts_inv (add w c)"
  shows "counts_inv c'"
proof (rule for_each_keeps [OF assms(1) [unfolded count_unlinked_def]])
  show "counts_inv c" by fact
next
  fix i d d'
  assume I: "counts_inv d" and run: "(do { l \<leftarrow> vat linked i;
     if \<not> l then do { w \<leftarrow> vat s i; Some (add w d) } else Some d }) = Some d'"
  then have "d' = d \<or> (\<exists>w. d' = add w d)" by (cases "vat linked i"; cases "vat s i") (auto split: if_splits)
  then show "counts_inv d'" using I assms(3) by blast
qed

lemma count_corpus_inv:
  assumes "count_corpus source target a = Some c"
  shows "counts_inv c"
proof (rule for_each_keeps [OF assms [unfolded count_corpus_def]])
  show "counts_inv (Map.empty, Map.empty, Map.empty)" by (simp add: counts_inv_def count_of_def)
next
  fix i c c' assume "counts_inv c" "count_sentence source target a i c = Some c'"
  then show "counts_inv c'"
    unfolding count_sentence_def
    by (auto simp: bind_Some_iff intro!: IncrementLinksCount_inv dest!: count_links_inv count_unlinked_inv)
qed

text \<open>
  C35. With exact arithmetic the scores of a source word that was counted are a probability
  distribution: they are positive on the counted pairs and sum to one over the target words,
  and likewise for a target word over the source words.
\<close>

theorem TranslationTable_distributions:
  assumes "TranslationTable (exact lg) source target a = Some t"
  shows "finite (dom (tt_probabilities t)) \<and>
    (\<forall>k p q. tt_probabilities t k = Some (p, q) \<longrightarrow> 0 < p \<and> 0 < q \<and>
      (\<Sum>j \<in> {j \<in> dom (tt_probabilities t). fst j = fst k}. fst (the (tt_probabilities t j))) = 1 \<and>
      (\<Sum>j \<in> {j \<in> dom (tt_probabilities t). snd j = snd k}. snd (the (tt_probabilities t j))) = 1)"
proof -
  obtain sc tc lc where c: "count_corpus source target a = Some (sc, tc, lc)"
    using assms by (auto simp: TranslationTable_def bind_Some_iff)
  let ?P = "tt_probabilities t"
  have P: "?P = (\<lambda>k. map_option (\<lambda>n. (of_int n / of_int (count_of sc (fst k)), of_int n / of_int (count_of tc (snd k)))) (lc k))"
    using assms c by (auto simp: TranslationTable_def)
  have inv: "finite (dom lc)" "\<forall>k n. lc k = Some n \<longrightarrow> 0 < n"
    "\<forall>f. count_of sc f = (\<Sum>k \<in> {k \<in> dom lc. fst k = f}. count_of lc k)"
    "\<forall>e. count_of tc e = (\<Sum>k \<in> {k \<in> dom lc. snd k = e}. count_of lc k)"
    using count_corpus_inv [OF c] by (auto simp: counts_inv_def)
  have dom: "dom ?P = dom lc" by (auto simp: P)
  have the_P: "the (?P j) = (of_int (count_of lc j) / of_int (count_of sc (fst j)), of_int (count_of lc j) / of_int (count_of tc (snd j)))"
    if "j \<in> dom lc" for j
    using that by (auto simp: P count_of_def)
  have count_pos: "0 < count_of lc k" if "k \<in> dom lc" for k
    using that inv(2) [rule_format, of k] by (auto simp: count_of_def)
  have one: "(\<Sum>j \<in> {j \<in> dom lc. g j = g k}. of_int (count_of lc j) / of_int (count_of m (g j))) = (1 :: rat)" "0 < count_of m (g k)"
    if k: "k \<in> dom lc" and m: "\<forall>f. count_of m f = (\<Sum>k \<in> {k \<in> dom lc. g k = f}. count_of lc k)" for g :: "int \<times> int \<Rightarrow> int" and m k
  proof -
    have nonneg: "0 \<le> count_of lc j" for j
      using inv(2) [rule_format, of j] by (cases "lc j") (auto simp: count_of_def)
    have "count_of lc k \<le> (\<Sum>j \<in> {j \<in> dom lc. g j = g k}. count_of lc j)"
      by (rule member_le_sum) (use k inv(1) nonneg in auto)
    moreover have "0 < count_of lc k" by (rule count_pos [OF k])
    ultimately show pos: "0 < count_of m (g k)" using m by simp
    have "(\<Sum>j \<in> {j \<in> dom lc. g j = g k}. of_int (count_of lc j) / of_int (count_of m (g j))) =
        (\<Sum>j \<in> {j \<in> dom lc. g j = g k}. of_int (count_of lc j) / of_int (count_of m (g k)) :: rat)"
      by (rule sum.cong) auto
    also have "\<dots> = of_int (\<Sum>j \<in> {j \<in> dom lc. g j = g k}. count_of lc j) / of_int (count_of m (g k))"
      by (simp add: sum_divide_distrib)
    also have "(\<Sum>j \<in> {j \<in> dom lc. g j = g k}. count_of lc j) = count_of m (g k)" using m by simp
    finally show "(\<Sum>j \<in> {j \<in> dom lc. g j = g k}. of_int (count_of lc j) / of_int (count_of m (g j))) = (1 :: rat)"
      using pos by simp
  qed
  show ?thesis
  proof (intro conjI allI impI)
    show "finite (dom ?P)" using dom inv(1) by simp
    fix k p q assume k: "?P k = Some (p, q)"
    then have kd: "k \<in> dom lc" using dom by blast
    have pq: "p = of_int (count_of lc k) / of_int (count_of sc (fst k))" "q = of_int (count_of lc k) / of_int (count_of tc (snd k))"
      using the_P [OF kd] k by auto
    have "0 < count_of lc k" by (rule count_pos [OF kd])
    then show "0 < p" "0 < q" using pq one(2) [OF kd inv(3)] one(2) [OF kd inv(4)] by simp_all
    show "(\<Sum>j \<in> {j \<in> dom ?P. fst j = fst k}. fst (the (?P j))) = 1"
      using one(1) [OF kd inv(3)] the_P by (simp add: dom)
    show "(\<Sum>j \<in> {j \<in> dom ?P. snd j = snd k}. snd (the (?P j))) = 1"
      using one(1) [OF kd inv(4)] the_P by (simp add: dom)
  qed
qed

theorem TranslationTable_distributions_witness:
  "\<exists>t p q. TranslationTable (exact id) (DataArray_of_file [''a b'']) (DataArray_of_file [''c c'']) [[(0, 0), (0, 1)]] = Some t \<and>
    tt_probabilities t (2, 2) = Some (p, q) \<and> 0 < p \<and>
    (\<Sum>j \<in> {j \<in> dom (tt_probabilities t). fst j = 2}. fst (the (tt_probabilities t j))) = 1"
proof -
  let ?t = "TranslationTable (exact id) (DataArray_of_file [''a b'']) (DataArray_of_file [''c c'']) [[(0, 0), (0, 1)]]"
  have "map_option (\<lambda>t. tt_probabilities t (2, 2) \<noteq> None) ?t = Some True" by code_simp
  then obtain t where t: "?t = Some t" "tt_probabilities t (2, 2) \<noteq> None" by auto
  then obtain p q where pq: "tt_probabilities t (2, 2) = Some (p, q)" by fastforce
  have "\<forall>k p q. tt_probabilities t k = Some (p, q) \<longrightarrow> 0 < p \<and> 0 < q \<and>
      (\<Sum>j \<in> {j \<in> dom (tt_probabilities t). fst j = fst k}. fst (the (tt_probabilities t j))) = 1 \<and>
      (\<Sum>j \<in> {j \<in> dom (tt_probabilities t). snd j = snd k}. snd (the (tt_probabilities t j))) = 1"
    using TranslationTable_distributions [OF t(1)] by blast
  from this [rule_format, OF pq] t(1) pq show ?thesis by auto
qed

end
