(* ===== verification/Features.thy ===== *)
theory Features
  imports Phrases TransTable
begin

text \<open>
  The features of a rule, the \<open>Scorer\<close> and the \<open>Grammar\<close> output (\<open>extractor/features\<close>,
  \<open>extractor/scorer\<close>, \<open>extractor/grammar\<close>).
\<close>

record 'd feature_context =
  fc_source_phrase :: phrase
  fc_target_phrase :: phrase
  fc_source_phrase_count :: 'd
  fc_pair_count :: int
  fc_num_samples :: int

definition MAX_SCORE :: "'d floats \<Rightarrow> 'd" where
  "MAX_SCORE fl = fl_of_int fl 99"

definition bool_score :: "'d floats \<Rightarrow> bool \<Rightarrow> 'd" where
  "bool_score fl b = fl_of_int fl (if b then 1 else 0)"

definition CountSourceTarget_Score :: "'d floats \<Rightarrow> 'd feature_context \<Rightarrow> 'd" where
  "CountSourceTarget_Score fl context = fl_log10 fl (fl_of_int fl (1 + fc_pair_count context))"

definition SampleSourceCount_Score :: "'d floats \<Rightarrow> 'd feature_context \<Rightarrow> 'd" where
  "SampleSourceCount_Score fl context = fl_log10 fl (fl_of_int fl (1 + fc_num_samples context))"

text \<open>The literal \<open>1e-6\<close> is the parameter \<open>eps\<close>.\<close>

definition IsSourceSingleton_Score :: "'d floats \<Rightarrow> 'd \<Rightarrow> 'd feature_context \<Rightarrow> 'd" where
  "IsSourceSingleton_Score fl eps context =
     bool_score fl (fl_less fl (fl_abs fl (fl_sub fl (fc_source_phrase_count context) (fl_of_int fl 1))) eps)"

definition IsSourceTargetSingleton_Score :: "'d floats \<Rightarrow> 'd feature_context \<Rightarrow> 'd" where
  "IsSourceTargetSingleton_Score fl context = bool_score fl (fc_pair_count context = 1)"

definition neg_log_score :: "'d floats \<Rightarrow> 'd \<Rightarrow> 'd" where
  "neg_log_score fl x = (if fl_less fl (fl_of_int fl 0) x then fl_neg fl (fl_log10 fl x) else MAX_SCORE fl)"

definition TargetGivenSourceCoherent_Score :: "'d floats \<Rightarrow> 'd feature_context \<Rightarrow> 'd" where
  "TargetGivenSourceCoherent_Score fl context =
     neg_log_score fl (fl_div fl (fl_of_int fl (fc_pair_count context)) (fl_of_int fl (fc_num_samples context)))"

definition best_score :: "'d floats \<Rightarrow> (string \<Rightarrow> 'd) \<Rightarrow> string list \<Rightarrow> 'd" where
  "best_score fl score ws = fold (\<lambda>w max_score. fl_max fl max_score (score w)) ws (fl_of_int fl 0)"

definition MaxLexSourceGivenTarget_Score :: "'d floats \<Rightarrow> 'd translation_table \<Rightarrow> 'd feature_context \<Rightarrow> 'd" where
  "MaxLexSourceGivenTarget_Score fl t context =
     fold (\<lambda>source_word score. fl_add fl score (neg_log_score fl
       (best_score fl (GetSourceGivenTargetScore fl t source_word) (ph_words (fc_target_phrase context) @ [NULL_WORD_STR]))))
     (ph_words (fc_source_phrase context)) (fl_of_int fl 0)"

definition MaxLexTargetGivenSource_Score :: "'d floats \<Rightarrow> 'd translation_table \<Rightarrow> 'd feature_context \<Rightarrow> 'd" where
  "MaxLexTargetGivenSource_Score fl t context =
     fold (\<lambda>target_word score. fl_add fl score (neg_log_score fl
       (best_score fl (\<lambda>source_word. GetTargetGivenSourceScore fl t source_word target_word)
         (ph_words (fc_source_phrase context) @ [NULL_WORD_STR]))))
     (ph_words (fc_target_phrase context)) (fl_of_int fl 0)"

text \<open>A feature is its name and its score; the scorer holds a list of them.\<close>

type_synonym 'd scorer = "(string \<times> ('d feature_context \<Rightarrow> 'd)) list"

definition Score :: "'d scorer \<Rightarrow> 'd feature_context \<Rightarrow> 'd list" where
  "Score features context = map (\<lambda>feature. snd feature context) features"

definition GetFeatureNames :: "'d scorer \<Rightarrow> string list" where
  "GetFeatureNames features = map fst features"

definition default_scorer :: "'d floats \<Rightarrow> 'd \<Rightarrow> 'd translation_table \<Rightarrow> 'd scorer" where
  "default_scorer fl eps t = [
     (''EgivenFCoherent'', TargetGivenSourceCoherent_Score fl),
     (''SampleCountF'', SampleSourceCount_Score fl),
     (''CountEF'', CountSourceTarget_Score fl),
     (''MaxLexFgivenE'', MaxLexSourceGivenTarget_Score fl t),
     (''MaxLexEgivenF'', MaxLexTargetGivenSource_Score fl t),
     (''IsSingletonF'', IsSourceSingleton_Score fl eps),
     (''IsSingletonFE'', IsSourceTargetSingleton_Score fl)]"

section \<open>Rules and grammars\<close>

record 'd rule =
  rl_source_phrase :: phrase
  rl_target_phrase :: phrase
  rl_scores :: "'d list"
  rl_alignment :: "(int \<times> int) list"

record 'd grammar =
  gr_rules :: "'d rule list"
  gr_feature_names :: "string list"

text \<open>\<open>operator<<\<close>; \<open>show_score\<close> is the output of a \<open>double\<close> with 12 digits.\<close>

definition show_rule :: "('d \<Rightarrow> string) \<Rightarrow> string list \<Rightarrow> 'd rule \<Rightarrow> string option" where
  "show_rule show_score feature_names rule = do {
     source \<leftarrow> show_phrase (rl_source_phrase rule);
     target \<leftarrow> show_phrase (rl_target_phrase rule);
     scores \<leftarrow> for_each (positions (rl_scores rule)) (\<lambda>i os. do {
       name \<leftarrow> vat feature_names i; score \<leftarrow> vat (rl_scores rule) i;
       Some (os @ '' '' @ name @ ''='' @ show_score score) }) [];
     Some (''[X] ||| '' @ source @ '' ||| '' @ target @ '' |||'' @ scores @ '' |||'' @
       concat (map (\<lambda>link. '' '' @ show_int (fst link) @ ''-'' @ show_int (snd link)) (rl_alignment rule)) @ [CHR 0x0A]) }"

definition show_grammar :: "('d \<Rightarrow> string) \<Rightarrow> 'd grammar \<Rightarrow> string option" where
  "show_grammar show_score g = for_each (gr_rules g) (\<lambda>rule os. do {
     line \<leftarrow> show_rule show_score (gr_feature_names g) rule; Some (os @ line) }) []"

section \<open>The lexical scores\<close>

lemma best_score_exact:
  "best_score (exact lg) score ws = Max (insert 0 (score ` set ws))"
proof -
  have "fold (\<lambda>w m. fl_max (exact lg) m (score w)) ws b = Max (insert b (score ` set ws))" for b
  proof (induction ws arbitrary: b)
    case (Cons w ws)
    have "fl_max (exact lg) b (score w) = max b (score w)" by (simp add: fl_max_def max_def)
    moreover have "Max (insert (max b (score w)) (score ` set ws)) = Max (insert b (insert (score w) (score ` set ws)))"
      by (cases "set ws = {}") (simp_all add: max.assoc)
    ultimately show ?case using Cons.IH by simp
  qed simp
  then show ?thesis by (simp add: best_score_def)
qed

end
