(* ===== verification/OrderedMap.thy ===== *)
theory OrderedMap
  imports Prelude
begin

text \<open>
  \<open>std::map\<close> as the list of its entries in iteration order. Two keys are the same when
  neither is less than the other; the first key inserted stays.
\<close>

fun om_update :: "('k \<Rightarrow> 'k \<Rightarrow> bool) \<Rightarrow> 'k \<Rightarrow> ('v option \<Rightarrow> 'v) \<Rightarrow> ('k \<times> 'v) list \<Rightarrow> ('k \<times> 'v) list" where
  "om_update lt k f [] = [(k, f None)]"
| "om_update lt k f ((k', v) # m) =
     (if lt k k' then (k, f None) # (k', v) # m
      else if lt k' k then (k', v) # om_update lt k f m
      else (k', f (Some v)) # m)"

fun om_get :: "('k \<Rightarrow> 'k \<Rightarrow> bool) \<Rightarrow> 'k \<Rightarrow> ('k \<times> 'v) list \<Rightarrow> 'v option" where
  "om_get lt k [] = None"
| "om_get lt k ((k', v) # m) =
     (if lt k k' then None else if lt k' k then om_get lt k m else Some v)"

text \<open>What the clients rely on; the keys are compared by a strict weak order.\<close>

locale weak_order =
  fixes lt :: "'k \<Rightarrow> 'k \<Rightarrow> bool"
  assumes irrefl: "\<not> lt a a"
    and trans: "lt a b \<Longrightarrow> lt b c \<Longrightarrow> lt a c"
    and incomparable: "\<not> lt a b \<Longrightarrow> \<not> lt b a \<Longrightarrow> \<not> lt b c \<Longrightarrow> \<not> lt c b \<Longrightarrow> \<not> lt a c"
begin

definition same :: "'k \<Rightarrow> 'k \<Rightarrow> bool" where
  "same a b \<longleftrightarrow> \<not> lt a b \<and> \<not> lt b a"

definition ordered :: "('k \<times> 'v) list \<Rightarrow> bool" where
  "ordered m = sorted_wrt (\<lambda>a b. lt (fst a) (fst b)) m"

lemma asym: "lt a b \<Longrightarrow> \<not> lt b a"
  using trans irrefl by blast

lemma same_lt: "same a b \<Longrightarrow> lt b c \<Longrightarrow> lt a c"
  unfolding same_def by (metis incomparable trans asym)

lemma lt_same: "lt a b \<Longrightarrow> same b c \<Longrightarrow> lt a c"
  unfolding same_def by (metis incomparable trans asym)

lemma same_refl: "same a a"
  by (simp add: same_def irrefl)

lemma same_sym: "same a b \<Longrightarrow> same b a"
  by (simp add: same_def)

lemma same_trans: "same a b \<Longrightarrow> same b c \<Longrightarrow> same a c"
  unfolding same_def using incomparable by blast

lemma update_keys: "fst ` set (om_update lt k f m) \<subseteq> insert k (fst ` set m)"
proof (induction m)
  case (Cons e m)
  then show ?case by (cases e) (auto split: if_splits)
qed simp

lemma update_entries:
  "(k', v') \<in> set (om_update lt k f m) \<Longrightarrow> (k', v') \<in> set m \<or> v' = f None \<or> (\<exists>v. (k', v) \<in> set m \<and> v' = f (Some v))"
proof (induction m)
  case (Cons e m)
  then show ?case by (cases e) (auto split: if_splits)
qed simp

lemma update_not_Nil: "om_update lt k f m \<noteq> []"
  by (cases "(lt, k, f, m)" rule: om_update.cases) auto

lemma ordered_update: "ordered m \<Longrightarrow> ordered (om_update lt k f m)"
proof (induction m)
  case Nil
  then show ?case by (simp add: ordered_def)
next
  case (Cons e m)
  obtain k' v where e: "e = (k', v)" by (cases e)
  have rest: "ordered m" "\<forall>x \<in> set m. lt k' (fst x)" using Cons.prems e by (auto simp: ordered_def)
  consider "lt k k'" | "\<not> lt k k'" "lt k' k" | "\<not> lt k k'" "\<not> lt k' k" by blast
  then show ?case
  proof cases
    case 1
    then show ?thesis using rest e trans by (auto simp: ordered_def)
  next
    case 2
    have "lt k' (fst x)" if x: "x \<in> set (om_update lt k f m)" for x
    proof -
      have "fst x = k \<or> fst x \<in> fst ` set m" using update_keys x by blast
      then show ?thesis using 2(2) rest(2) by auto
    qed
    then show ?thesis using 2 e Cons.IH [OF rest(1)] by (simp add: ordered_def)
  next
    case 3
    then show ?thesis using rest e by (simp add: ordered_def)
  qed
qed

lemma get_update:
  "ordered m \<Longrightarrow> om_get lt j (om_update lt k f m) = (if same j k then Some (f (om_get lt k m)) else om_get lt j m)"
proof (induction m)
  case Nil
  then show ?case by (auto simp: same_def)
next
  case (Cons e m)
  obtain k' v where e: "e = (k', v)" by (cases e)
  have rest: "ordered m" using Cons.prems by (simp add: ordered_def)
  consider "lt k k'" | "\<not> lt k k'" "lt k' k" | "same k k'" unfolding same_def by blast
  then show ?case
  proof cases
    case 1
    consider "same j k" | "lt j k" | "lt k j" unfolding same_def by blast
    then show ?thesis
    proof cases
      case a: 1
      then show ?thesis using 1 e by (auto simp: same_def)
    next
      case b: 2
      then show ?thesis using 1 e trans [OF b 1] by (auto simp: same_def)
    next
      case c: 3
      then show ?thesis using 1 e asym [OF c] by (auto simp: same_def)
    qed
  next
    case 2
    consider "lt j k'" | "lt k' j" | "same j k'" unfolding same_def by blast
    then show ?thesis
    proof cases
      case a: 1
      have "lt j k" by (rule trans [OF a 2(2)])
      then show ?thesis using 2 e a by (auto simp: same_def)
    next
      case b: 2
      then show ?thesis using 2 e asym [OF b] Cons.IH [OF rest] by auto
    next
      case c: 3
      then have "lt j k" using same_lt 2(2) by blast
      then show ?thesis using 2 e c by (auto simp: same_def)
    qed
  next
    case 3
    consider "lt j k'" | "lt k' j" | "same j k'" unfolding same_def by blast
    then show ?thesis
    proof cases
      case a: 1
      have "lt j k" by (rule lt_same [OF a same_sym [OF 3]])
      then show ?thesis using 3 e a by (auto simp: same_def)
    next
      case b: 2
      have "lt k j" by (rule same_lt [OF 3 b])
      then show ?thesis using 3 e b asym [OF b] by (auto simp: same_def)
    next
      case c: 3
      have "same j k" by (rule same_trans [OF c same_sym [OF 3]])
      then show ?thesis using 3 e c by (auto simp: same_def)
    qed
  qed
qed

lemma get_entry: "ordered m \<Longrightarrow> (k, v) \<in> set m \<Longrightarrow> om_get lt k m = Some v"
proof (induction m)
  case (Cons e m)
  obtain k' v' where e: "e = (k', v')" by (cases e)
  show ?case
  proof (cases "(k, v) = e")
    case True
    then show ?thesis using e irrefl by simp
  next
    case False
    then have "(k, v) \<in> set m" "lt k' k" using Cons.prems e by (auto simp: ordered_def)
    then show ?thesis using Cons e asym [of k' k] by (simp add: ordered_def)
  qed
qed simp

lemma entry_get: "om_get lt k m = Some v \<Longrightarrow> \<exists>k'. same k k' \<and> (k', v) \<in> set m"
  by (induction m) (auto simp: same_def split: if_splits)

lemma get_same: "same u t \<Longrightarrow> om_get lt u m = om_get lt t m"
proof (induction m)
  case (Cons e m)
  obtain k v where e: "e = (k, v)" by (cases e)
  have "lt u k \<longleftrightarrow> lt t k" "lt k u \<longleftrightarrow> lt k t"
    using same_lt [OF Cons.prems] same_lt [OF same_sym [OF Cons.prems]] lt_same [OF _ Cons.prems]
      lt_same [OF _ same_sym [OF Cons.prems]] by blast+
  then show ?case using Cons e by simp
qed simp

lemma ordered_Nil: "ordered []"
  by (simp add: ordered_def)

end

section \<open>The orders of the program's map keys\<close>

text \<open>\<open>operator<\<close> of \<open>vector\<close> over a given \<open>operator<\<close> of the elements.\<close>

fun lex_less :: "('a \<Rightarrow> 'a \<Rightarrow> bool) \<Rightarrow> 'a list \<Rightarrow> 'a list \<Rightarrow> bool" where
  "lex_less lt xs [] = False"
| "lex_less lt [] (y # ys) = True"
| "lex_less lt (x # xs) (y # ys) = (lt x y \<or> (\<not> lt y x \<and> lex_less lt xs ys))"

interpretation vec: weak_order vec_less
  by standard (use vec_less_irrefl vec_less_trans vec_less_total in blast)+

definition links_less :: "(int \<times> int) list \<Rightarrow> (int \<times> int) list \<Rightarrow> bool" where
  "links_less = lex_less pair_less"

lemma pair_less_facts: "\<not> pair_less p p" "pair_less p q \<Longrightarrow> pair_less q r \<Longrightarrow> pair_less p r"
  "\<not> pair_less p q \<Longrightarrow> \<not> pair_less q p \<Longrightarrow> p = q"
  by (auto simp: pair_less_def prod_eq_iff)

lemma links_less_simps:
  "\<not> links_less xs []" "links_less [] (y # ys)"
  "links_less (x # xs) (y # ys) \<longleftrightarrow> pair_less x y \<or> (x = y \<and> links_less xs ys)"
  unfolding links_less_def using pair_less_facts by (simp, simp, simp, metis)

lemma links_less_irrefl: "\<not> links_less xs xs"
  by (induction xs) (simp_all add: links_less_simps pair_less_facts(1))

lemma links_less_total: "\<not> links_less xs ys \<Longrightarrow> \<not> links_less ys xs \<Longrightarrow> xs = ys"
proof (induction xs arbitrary: ys)
  case Nil
  then show ?case by (cases ys) (simp_all add: links_less_simps)
next
  case (Cons x xs)
  then obtain y ys' where y: "ys = y # ys'" by (cases ys) (simp_all add: links_less_simps)
  then have "x = y" using Cons.prems by (intro pair_less_facts(3)) (simp_all add: links_less_simps)
  then show ?case using Cons y by (simp add: links_less_simps)
qed

lemma links_less_trans: "links_less xs ys \<Longrightarrow> links_less ys zs \<Longrightarrow> links_less xs zs"
proof (induction xs arbitrary: ys zs)
  case Nil
  then show ?case by (cases zs) (simp_all add: links_less_simps)
next
  case (Cons x xs)
  obtain y ys' where y: "ys = y # ys'" using Cons.prems by (cases ys) (simp_all add: links_less_simps)
  obtain z zs' where z: "zs = z # zs'" using Cons.prems y by (cases zs) (simp_all add: links_less_simps)
  show ?case using Cons.prems Cons.IH [of ys' zs'] pair_less_facts(2) [of x y z]
    unfolding y z links_less_simps by blast
qed

interpretation links: weak_order links_less
  by standard (use links_less_irrefl links_less_trans links_less_total in blast)+

end
