(* ===== verification/RuleExtraction.thy ===== *)
theory RuleExtraction
  imports TargetPhrases Features OrderedMap
begin

text \<open>
  \<open>RuleExtractor\<close> (\<open>extractor/rule_extractor\<close>): the rules that the sampled occurrences of a
  source phrase license, with their counts. The shared vocabulary is threaded through.
\<close>

record rule_extractor =
  rx_source_data :: data_array
  rx_target_extractor :: target_extractor
  rx_helper :: helper
  rx_max_rule_span :: int
  rx_min_gap_size :: int
  rx_max_nonterminals :: int
  rx_max_rule_symbols :: int
  rx_require_tight_phrases :: bool

record 'd extracted =
  xt_source_phrase :: phrase
  xt_target_phrase :: phrase
  xt_pairs_count :: 'd
  xt_alignment :: phrase_alignment

type_synonym 'd extract_state = "vocabulary \<times> 'd extracted list"

text \<open>What is fixed for one occurrence: its sentence, its spans and its chunks.\<close>

record occurrence =
  oc_spans :: spans
  oc_matching :: "int list"
  oc_chunklen :: "int list"
  oc_sentence_id :: int
  oc_source_sent_start :: int

section \<open>Extracts of one occurrence\<close>

definition AddExtracts ::
  "'d floats \<Rightarrow> rule_extractor \<Rightarrow> phrase \<Rightarrow> (int \<rightharpoonup> int) \<Rightarrow> (int \<times> int) list \<Rightarrow> int list \<Rightarrow> int \<Rightarrow> int \<Rightarrow> int \<Rightarrow>
   'd extract_state \<Rightarrow> 'd extract_state option" where
  "AddExtracts fl r source_phrase source_indexes target_gaps target_low target_phrase_low target_phrase_high
     sentence_id = (\<lambda>(voc, extracts). do {
     (voc1, target_phrases) \<leftarrow> ExtractPhrases (rx_target_extractor r) target_gaps target_low
       target_phrase_low target_phrase_high source_indexes sentence_id voc;
     if 0 < vsize target_phrases then do {
       let pairs_count = fl_div fl (fl_of_int fl 1) (fl_of_int fl (vsize target_phrases));
       Some (voc1, extracts @ map (\<lambda>t. \<lparr>xt_source_phrase = source_phrase, xt_target_phrase = fst t,
         xt_pairs_count = pairs_count, xt_alignment = snd t\<rparr>) target_phrases) }
     else Some (voc1, extracts) })"

text \<open>The loops that look for a tight edge of the new gap.\<close>

function tight_left :: "int list \<Rightarrow> int \<Rightarrow> int option" where
  "tight_left low x = (if 0 \<le> x then do {
     l \<leftarrow> vat low x; if l = -1 then tight_left low (x - 1) else Some x } else Some x)"
  by auto
termination by (relation "measure (\<lambda>(low, x). nat (x + 1))") auto

function tight_right :: "int list \<Rightarrow> int \<Rightarrow> int \<Rightarrow> int option" where
  "tight_right low sent_len x = (if x \<le> sent_len then do {
     l \<leftarrow> vat low (x - 1); if l = -1 then tight_right low sent_len (x + 1) else Some x } else Some x)"
  by auto
termination by (relation "measure (\<lambda>(low, len, x). nat (len + 1 - x))") auto

declare tight_left.simps [simp del] tight_right.simps [simp del]

text \<open>The tightness test at the start; its reads come before every bounds check.\<close>

definition loose_extension :: "rule_extractor \<Rightarrow> int list \<Rightarrow> int \<Rightarrow> int \<Rightarrow> bool option" where
  "loose_extension r source_low left right =
     (if rx_require_tight_phrases r then do {
        a \<leftarrow> vat source_low left;
        if a = -1 then Some True else do { b \<leftarrow> vat source_low right; Some (b = -1) } }
      else Some False)"

text \<open>The limits of the source span with the new gaps; \<open>Some None\<close> is an early return.\<close>

definition extended_low :: "rule_extractor \<Rightarrow> int list \<Rightarrow> int \<Rightarrow> bool \<Rightarrow> bool \<Rightarrow> int option option" where
  "extended_low r source_low source_back_low starts_with_x extend_left =
     (if \<not> extend_left then Some (Some source_back_low)
      else if starts_with_x \<or> source_back_low < rx_min_gap_size r then Some None
      else do {
        let x = source_back_low - rx_min_gap_size r;
        x' \<leftarrow> (if rx_require_tight_phrases r then tight_left source_low x else Some x);
        Some (if x' < 0 then None else Some x') })"

definition extended_high :: "rule_extractor \<Rightarrow> int list \<Rightarrow> int \<Rightarrow> int \<Rightarrow> bool \<Rightarrow> bool \<Rightarrow> int option option" where
  "extended_high r source_low sentence_id source_back_high ends_with_x extend_right =
     (if \<not> extend_right then Some (Some source_back_high)
      else do {
        source_sent_len \<leftarrow> GetSentenceLength (rx_source_data r) sentence_id;
        if ends_with_x \<or> source_sent_len < source_back_high + rx_min_gap_size r then Some None
        else do {
          let x = source_back_high + rx_min_gap_size r;
          x' \<leftarrow> (if rx_require_tight_phrases r then tight_right source_low source_sent_len x else Some x);
          Some (if source_sent_len < x' then None else Some x') } })"

text \<open>The integrity check of a new gap: its target span, if it has one.\<close>

definition new_gap :: "rule_extractor \<Rightarrow> spans \<Rightarrow> int \<Rightarrow> int \<Rightarrow> int \<Rightarrow> int \<Rightarrow> (int \<times> int) option option" where
  "new_gap r s sentence_id edge low high = do {
     loose \<leftarrow> (if rx_require_tight_phrases r then map_option (\<lambda>l. l = -1) (vat (sp_source_low s) edge) else Some False);
     if loose then Some None
     else do {
       res \<leftarrow> FindFixPoint (rx_helper r) s no_expansion low high (-1, -1) sentence_id 0;
       Some (map_option (\<lambda>f. (fp_target_low f, fp_target_high f)) res) } }"

definition AddNonterminalExtremities ::
  "'d floats \<Rightarrow> rule_extractor \<Rightarrow> occurrence \<Rightarrow> phrase \<Rightarrow> int \<times> int \<Rightarrow> (int \<times> int) list \<Rightarrow> bool \<Rightarrow> bool \<Rightarrow> bool \<Rightarrow> bool \<Rightarrow>
   'd extract_state \<Rightarrow> 'd extract_state option" where
  "AddNonterminalExtremities fl r oc source_phrase source_back target_gaps starts_with_x ends_with_x
     extend_left extend_right st = do {
     let s = oc_spans oc;
     let new_nonterminals = of_bool extend_left + of_bool extend_right;
     loose \<leftarrow> loose_extension r (sp_source_low s) (fst source_back - of_bool extend_left)
       (snd source_back + of_bool extend_right - 1);
     if loose then Some st else do {
     low \<leftarrow> extended_low r (sp_source_low s) (fst source_back) starts_with_x extend_left;
     case low of None \<Rightarrow> Some st | Some source_x_low \<Rightarrow> do {
     high \<leftarrow> extended_high r (sp_source_low s) (oc_sentence_id oc) (snd source_back) ends_with_x extend_right;
     case high of None \<Rightarrow> Some st | Some source_x_high \<Rightarrow>
     if rx_max_rule_span r < source_x_high - source_x_low \<or>
        rx_max_nonterminals r < vsize target_gaps + new_nonterminals \<or>
        rx_max_rule_symbols r < GetNumSymbols source_phrase + new_nonterminals then Some st
     else do {
     res \<leftarrow> FindFixPoint (rx_helper r) s \<lparr>ex_min_source_gap_size = 1, ex_max_new_x = new_nonterminals,
         ex_allow_low_x = extend_left, ex_allow_high_x = extend_right, ex_allow_arbitrary = True\<rparr>
       source_x_low source_x_high (-1, -1) (oc_sentence_id oc) 1;
     case res of None \<Rightarrow> Some st | Some f \<Rightarrow> do {
     left_gap \<leftarrow> (if extend_left then
         map_option (map_option (\<lambda>g. [g])) (new_gap r s (oc_sentence_id oc) (fp_back_low f) (fp_back_low f) (fst source_back))
       else Some (Some []));
     case left_gap of None \<Rightarrow> Some st | Some gaps_before \<Rightarrow> do {
     right_gap \<leftarrow> (if extend_right then
         map_option (map_option (\<lambda>g. [g])) (new_gap r s (oc_sentence_id oc) (fp_back_high f - 1) (snd source_back) (fp_back_high f))
       else Some (Some []));
     case right_gap of None \<Rightarrow> Some st | Some gaps_after \<Rightarrow> do {
     new_source_phrase \<leftarrow> Extend (fst st) source_phrase extend_left extend_right;
     source_indexes \<leftarrow> GetSourceIndexes (oc_matching oc) (oc_chunklen oc)
       (of_bool (extend_left \<or> starts_with_x)) (oc_source_sent_start oc);
     AddExtracts fl r new_source_phrase source_indexes (gaps_before @ target_gaps @ gaps_after)
       (sp_target_low s) (fp_target_low f) (fp_target_high f) (oc_sentence_id oc) st } } } } } } }"

definition open_occurrence :: "rule_extractor \<Rightarrow> phrase \<Rightarrow> int list \<Rightarrow> occurrence option" where
  "open_occurrence r phrase matching = do {
     first \<leftarrow> vat matching 0;
     sentence_id \<leftarrow> GetSentenceId (rx_source_data r) first;
     source_sent_start \<leftarrow> GetSentenceStart (rx_source_data r) sentence_id;
     ((source_low, source_high), (target_low, target_high)) \<leftarrow> GetLinksSpans (rx_helper r) sentence_id;
     chunklen \<leftarrow> for_each (positions matching) (\<lambda>i ls. do { l \<leftarrow> GetChunkLen phrase i; Some (ls @ [l]) }) [];
     Some \<lparr>oc_spans = \<lparr>sp_source_low = source_low, sp_source_high = source_high,
             sp_target_low = target_low, sp_target_high = target_high\<rparr>,
           oc_matching = matching, oc_chunklen = chunklen, oc_sentence_id = sentence_id,
           oc_source_sent_start = source_sent_start\<rparr> }"

definition ExtractAlignments ::
  "'d floats \<Rightarrow> rule_extractor \<Rightarrow> phrase \<Rightarrow> int list \<Rightarrow> vocabulary \<Rightarrow> 'd extract_state option" where
  "ExtractAlignments fl r phrase matching voc = do {
     oc \<leftarrow> open_occurrence r phrase matching;
     let s = oc_spans oc;
     let source_sent_start = oc_source_sent_start oc;
     aligned \<leftarrow> CheckAlignedTerminals (rx_helper r) matching (oc_chunklen oc) (sp_source_low s) source_sent_start;
     tight \<leftarrow> (if aligned then CheckTightPhrases (rx_helper r) matching (oc_chunklen oc) (sp_source_low s) source_sent_start
       else Some False);
     if \<not> tight then Some (voc, []) else do {
     first \<leftarrow> vat matching 0;
     last_start \<leftarrow> vback matching;
     last_len \<leftarrow> vback (oc_chunklen oc);
     let source_phrase_low = first - source_sent_start;
     let source_phrase_high = last_start + last_len - source_sent_start;
     res \<leftarrow> FindFixPoint (rx_helper r) s \<lparr>ex_min_source_gap_size = rx_min_gap_size r,
         ex_max_new_x = rx_max_nonterminals r - vsize matching + 1,
         ex_allow_low_x = True, ex_allow_high_x = True, ex_allow_arbitrary = False\<rparr>
       source_phrase_low source_phrase_high (-1, -1) (oc_sentence_id oc) 0;
     case res of None \<Rightarrow> Some (voc, []) | Some f \<Rightarrow> do {
     let source_back = (fp_back_low f, fp_back_high f);
     gaps \<leftarrow> GetGaps (rx_helper r) s matching (oc_chunklen oc) (source_phrase_low, source_phrase_high) source_back
       (oc_sentence_id oc) source_sent_start (GetNumSymbols phrase) True;
     case gaps of None \<Rightarrow> Some (voc, []) | Some (source_gaps, target_gaps, num_symbols, met_constraints) \<Rightarrow> do {
     let starts_with_x = fp_back_low f \<noteq> source_phrase_low;
     let ends_with_x = fp_back_high f \<noteq> source_phrase_high;
     source_phrase \<leftarrow> Extend voc phrase starts_with_x ends_with_x;
     source_indexes \<leftarrow> GetSourceIndexes matching (oc_chunklen oc) (of_bool starts_with_x) source_sent_start;
     st \<leftarrow> (if met_constraints then AddExtracts fl r source_phrase source_indexes target_gaps (sp_target_low s)
         (fp_target_low f) (fp_target_high f) (oc_sentence_id oc) (voc, [])
       else Some (voc, []));
     if rx_max_nonterminals r \<le> vsize source_gaps \<or> rx_max_rule_symbols r \<le> GetNumSymbols source_phrase \<or>
        rx_max_rule_span r < fp_back_high f - fp_back_low f + rx_min_gap_size r then Some st
     else for_each [(False, True), (True, False), (True, True)] (\<lambda>(extend_left, extend_right).
       AddNonterminalExtremities fl r oc source_phrase source_back target_gaps starts_with_x ends_with_x
         extend_left extend_right) st } } } }"

section \<open>Rules from all occurrences\<close>

text \<open>The occurrences in \<open>matchings\<close>; a list that is not made of whole occurrences runs off its end.\<close>

function matching_groups :: "int \<Rightarrow> int list \<Rightarrow> int list list option" where
  "matching_groups num_subpatterns xs =
     (if xs = [] then Some []
      else if num_subpatterns \<le> 0 \<or> vsize xs < num_subpatterns then None
      else map_option (\<lambda>gs. take (nat num_subpatterns) xs # gs)
        (matching_groups num_subpatterns (drop (nat num_subpatterns) xs)))"
  by auto
termination by (relation "measure (\<lambda>(n, xs). length xs)") auto

declare matching_groups.simps [simp del]

type_synonym alignment_counts = "(phrase_alignment \<times> int) list"

type_synonym 'd counters = "(phrase \<times> 'd) list \<times> (phrase \<times> (phrase \<times> alignment_counts) list) list"

definition count_alignment :: "phrase_alignment \<Rightarrow> alignment_counts \<Rightarrow> alignment_counts" where
  "count_alignment a = om_update links_less a (\<lambda>n. (case n of None \<Rightarrow> 0 | Some k \<Rightarrow> k) + 1)"

definition count_target :: "phrase \<Rightarrow> phrase_alignment \<Rightarrow> (phrase \<times> alignment_counts) list \<Rightarrow> (phrase \<times> alignment_counts) list" where
  "count_target t a = om_update phrase_less t (\<lambda>m. count_alignment a (case m of None \<Rightarrow> [] | Some c \<Rightarrow> c))"

definition count_extract :: "'d floats \<Rightarrow> 'd extracted \<Rightarrow> 'd counters \<Rightarrow> 'd counters" where
  "count_extract fl e = (\<lambda>(source_phrase_counter, alignments_counter).
     (om_update phrase_less (xt_source_phrase e)
        (\<lambda>c. fl_add fl (case c of None \<Rightarrow> fl_of_int fl 0 | Some x \<Rightarrow> x) (xt_pairs_count e)) source_phrase_counter,
      om_update phrase_less (xt_source_phrase e)
        (\<lambda>m. count_target (xt_target_phrase e) (xt_alignment e) (case m of None \<Rightarrow> [] | Some c \<Rightarrow> c)) alignments_counter))"

text \<open>The most frequent alignment (the first among equals) and the number of locations.\<close>

definition frequent_step :: "phrase_alignment \<times> int \<Rightarrow> phrase_alignment \<times> int \<times> int \<Rightarrow> phrase_alignment \<times> int \<times> int" where
  "frequent_step entry = (\<lambda>(best, max_locations, num_locations).
     if max_locations < snd entry then (fst entry, snd entry, num_locations + snd entry)
     else (best, max_locations, num_locations + snd entry))"

definition most_frequent :: "alignment_counts \<Rightarrow> phrase_alignment \<times> int \<times> int" where
  "most_frequent m = fold frequent_step m ([], 0, 0)"

definition make_rules :: "'d floats \<Rightarrow> 'd scorer \<Rightarrow> int \<Rightarrow> 'd counters \<Rightarrow> 'd rule list" where
  "make_rules fl scorer num_samples = (\<lambda>(source_phrase_counter, alignments_counter).
     concat (map (\<lambda>(source_phrase, targets). map (\<lambda>(target_phrase, alignments).
       (case most_frequent alignments of (best, _, num_locations) \<Rightarrow>
         \<lparr>rl_source_phrase = source_phrase, rl_target_phrase = target_phrase,
          rl_scores = Score scorer \<lparr>fc_source_phrase = source_phrase, fc_target_phrase = target_phrase,
            fc_source_phrase_count = (case om_get phrase_less source_phrase source_phrase_counter of
              None \<Rightarrow> fl_of_int fl 0 | Some c \<Rightarrow> c),
            fc_pair_count = num_locations, fc_num_samples = num_samples\<rparr>,
          rl_alignment = best\<rparr>)) targets) alignments_counter))"

definition ExtractRules ::
  "'d floats \<Rightarrow> rule_extractor \<Rightarrow> 'd scorer \<Rightarrow> phrase \<Rightarrow> phrase_location \<Rightarrow> vocabulary \<Rightarrow> (vocabulary \<times> 'd rule list) option" where
  "ExtractRules fl r scorer phrase location voc = do {
     matchings \<leftarrow> pl_matchings location;
     groups \<leftarrow> matching_groups (pl_num_subpatterns location) matchings;
     (voc1, counters) \<leftarrow> for_each groups (\<lambda>matching (voc, counters). do {
       (voc', extracts) \<leftarrow> ExtractAlignments fl r phrase matching voc;
       Some (voc', fold (count_extract fl) extracts counters) }) (voc, ([], []));
     check (pl_num_subpatterns location \<noteq> 0);
     let num_samples = vsize matchings div pl_num_subpatterns location;
     Some (voc1, make_rules fl scorer num_samples counters) }"

section \<open>What the counters count\<close>

interpretation phrases: weak_order phrase_less
proof
  fix a b c :: phrase
  show "\<not> phrase_less a a" by (simp add: phrase_less_def vec_less_irrefl)
  show "phrase_less a b \<Longrightarrow> phrase_less b c \<Longrightarrow> phrase_less a c"
    unfolding phrase_less_def by (rule vec_less_trans)
  assume "\<not> phrase_less a b" "\<not> phrase_less b a" "\<not> phrase_less b c" "\<not> phrase_less c b"
  then have "ph_symbols a = ph_symbols b" "ph_symbols b = ph_symbols c"
    unfolding phrase_less_def using vec_less_total by simp_all
  then show "\<not> phrase_less a c" by (simp add: phrase_less_def vec_less_irrefl)
qed

lemma same_phrase: "phrases.same p q \<longleftrightarrow> ph_symbols p = ph_symbols q"
  unfolding phrases.same_def phrase_less_def using vec_less_total vec_less_irrefl by metis

lemma same_links: "links.same a b \<longleftrightarrow> a = b"
  unfolding links.same_def using links_less_total links_less_irrefl by blast

definition alignments_ok :: "alignment_counts \<Rightarrow> bool" where
  "alignments_ok c \<longleftrightarrow> links.ordered c \<and> c \<noteq> [] \<and> (\<forall>a n. (a, n) \<in> set c \<longrightarrow> 0 < n)"

definition targets_ok :: "(phrase \<times> alignment_counts) list \<Rightarrow> bool" where
  "targets_ok m \<longleftrightarrow> phrases.ordered m \<and> m \<noteq> [] \<and> (\<forall>t c. (t, c) \<in> set m \<longrightarrow> alignments_ok c)"

definition sources_ok :: "(phrase \<times> (phrase \<times> alignment_counts) list) list \<Rightarrow> bool" where
  "sources_ok ac \<longleftrightarrow> phrases.ordered ac \<and> (\<forall>s m. (s, m) \<in> set ac \<longrightarrow> targets_ok m)"

definition alignment_count :: "phrase_alignment \<Rightarrow> alignment_counts \<Rightarrow> int" where
  "alignment_count a c = (case om_get links_less a c of None \<Rightarrow> 0 | Some n \<Rightarrow> n)"

definition target_count :: "phrase \<Rightarrow> phrase_alignment \<Rightarrow> (phrase \<times> alignment_counts) list \<Rightarrow> int" where
  "target_count t a m = (case om_get phrase_less t m of None \<Rightarrow> 0 | Some c \<Rightarrow> alignment_count a c)"

definition source_count ::
  "phrase \<Rightarrow> phrase \<Rightarrow> phrase_alignment \<Rightarrow> (phrase \<times> (phrase \<times> alignment_counts) list) list \<Rightarrow> int" where
  "source_count s t a ac = (case om_get phrase_less s ac of None \<Rightarrow> 0 | Some m \<Rightarrow> target_count t a m)"

lemma count_alignment_ok:
  assumes "c = [] \<or> alignments_ok c"
  shows "alignments_ok (count_alignment a c)"
    "alignment_count b (count_alignment a c) = alignment_count b c + of_bool (b = a)"
proof -
  have ord: "links.ordered c" and pos: "\<forall>a n. (a, n) \<in> set c \<longrightarrow> 0 < n"
    using assms by (auto simp: alignments_ok_def links.ordered_Nil)
  have "0 < n" if "(b, n) \<in> set (count_alignment a c)" for b n
    using links.update_entries [OF that [unfolded count_alignment_def]] pos by fastforce
  then show "alignments_ok (count_alignment a c)"
    using links.ordered_update [OF ord] links.update_not_Nil by (simp add: alignments_ok_def count_alignment_def)
  show "alignment_count b (count_alignment a c) = alignment_count b c + of_bool (b = a)"
    unfolding alignment_count_def count_alignment_def links.get_update [OF ord] same_links
    by (auto split: option.split)
qed

lemma count_target_ok:
  assumes "m = [] \<or> targets_ok m"
  shows "targets_ok (count_target t a m)"
    "target_count u b (count_target t a m) = target_count u b m + of_bool (ph_symbols u = ph_symbols t \<and> b = a)"
proof -
  have ord: "phrases.ordered m" and cs: "\<forall>t c. (t, c) \<in> set m \<longrightarrow> alignments_ok c"
    using assms by (auto simp: targets_ok_def phrases.ordered_Nil)
  have "alignments_ok c" if c: "(u, c) \<in> set (count_target t a m)" for u c
    using phrases.update_entries [OF c [unfolded count_target_def]] cs count_alignment_ok(1) by auto
  then show "targets_ok (count_target t a m)"
    using phrases.ordered_update [OF ord] phrases.update_not_Nil by (simp add: targets_ok_def count_target_def)
  have entry: "case om_get phrase_less t m of None \<Rightarrow> True | Some c \<Rightarrow> alignments_ok c"
    using phrases.entry_get [of t m] cs by (auto split: option.split)
  show "target_count u b (count_target t a m) = target_count u b m + of_bool (ph_symbols u = ph_symbols t \<and> b = a)"
    unfolding target_count_def count_target_def phrases.get_update [OF ord] same_phrase
    using entry phrases.get_same [of u t m] count_alignment_ok(2) [of "[]" b a]
      count_alignment_ok(2) [of "the (om_get phrase_less t m)" b a]
    by (cases "om_get phrase_less t m") (auto simp: same_phrase alignment_count_def)
qed

lemma count_source_ok:
  fixes s t :: phrase and a :: phrase_alignment
  assumes "sources_ok ac"
  defines "ac' \<equiv> om_update phrase_less s (\<lambda>m. count_target t a (case m of None \<Rightarrow> [] | Some c \<Rightarrow> c)) ac"
  shows "sources_ok ac'"
    "source_count r u b ac' = source_count r u b ac +
       of_bool (ph_symbols r = ph_symbols s \<and> ph_symbols u = ph_symbols t \<and> b = a)"
proof -
  have ord: "phrases.ordered ac" and ms: "\<forall>s m. (s, m) \<in> set ac \<longrightarrow> targets_ok m"
    using assms(1) by (auto simp: sources_ok_def)
  have "targets_ok m" if m: "(u, m) \<in> set ac'" for u m
    using phrases.update_entries [OF m [unfolded ac'_def]] ms count_target_ok(1) by auto
  then show "sources_ok ac'"
    using phrases.ordered_update [OF ord] by (simp add: sources_ok_def ac'_def)
  have entry: "case om_get phrase_less s ac of None \<Rightarrow> True | Some m \<Rightarrow> targets_ok m"
    using phrases.entry_get [of s ac] ms by (auto split: option.split)
  show "source_count r u b ac' = source_count r u b ac +
       of_bool (ph_symbols r = ph_symbols s \<and> ph_symbols u = ph_symbols t \<and> b = a)"
    unfolding source_count_def ac'_def phrases.get_update [OF ord] same_phrase
    using entry phrases.get_same [of r s ac] count_target_ok(2) [of "[]" u b t a]
      count_target_ok(2) [of "the (om_get phrase_less s ac)" u b t a]
    by (cases "om_get phrase_less s ac") (auto simp: same_phrase target_count_def)
qed

text \<open>The extracts of a source phrase with a target phrase and an alignment.\<close>

definition extract_count :: "'d extracted list \<Rightarrow> int list \<Rightarrow> int list \<Rightarrow> phrase_alignment \<Rightarrow> int" where
  "extract_count es s t a = vsize (filter (\<lambda>e. ph_symbols (xt_source_phrase e) = s \<and> ph_symbols (xt_target_phrase e) = t \<and>
     xt_alignment e = a) es)"

lemma count_extracts:
  "sources_ok (snd (fold (count_extract fl) es ([], []))) \<and>
   source_count s t a (snd (fold (count_extract fl) es ([], []))) = extract_count es (ph_symbols s) (ph_symbols t) a"
proof (induction es rule: rev_induct)
  case Nil
  show ?case by (simp add: sources_ok_def phrases.ordered_Nil source_count_def extract_count_def)
next
  case (snoc e es)
  obtain sc ac where ac: "fold (count_extract fl) es ([], []) = (sc, ac)" by fastforce
  have "sources_ok ac" "source_count s t a ac = extract_count es (ph_symbols s) (ph_symbols t) a"
    using snoc.IH ac by auto
  note step = this
  have now: "snd (fold (count_extract fl) (es @ [e]) ([], [])) = om_update phrase_less (xt_source_phrase e)
      (\<lambda>m. count_target (xt_target_phrase e) (xt_alignment e) (case m of None \<Rightarrow> [] | Some c \<Rightarrow> c)) ac"
    by (simp add: ac) (simp add: count_extract_def)
  show ?case
    unfolding now
    using count_source_ok(1) [OF step(1)] step(2)
      count_source_ok(2) [OF step(1), where s = "xt_source_phrase e" and t = "xt_target_phrase e" and a = "xt_alignment e"]
    by (auto simp: extract_count_def)
qed

section \<open>The most frequent alignment\<close>

lemma most_frequent_max:
  assumes "alignments_ok c" "most_frequent c = (best, max_locations, num_locations)"
  shows "0 < alignment_count best c" "alignment_count a c \<le> alignment_count best c"
    "num_locations = sum_list (map snd c)"
proof -
  have inv: "num = sum_list (map snd c) \<and> (\<forall>e \<in> set c. snd e \<le> mx) \<and> 0 \<le> mx \<and> (c \<noteq> [] \<longrightarrow> (b, mx) \<in> set c)"
    if "\<forall>e \<in> set c. 0 < snd e" "fold frequent_step c ([], 0, 0) = (b, mx, num)" for c :: alignment_counts and b mx num
    using that
  proof (induction c arbitrary: b mx num rule: rev_induct)
    case (snoc x c)
    obtain b' mx' num' where run: "fold frequent_step c ([], 0, 0) = (b', mx', num')"
      by (cases "fold frequent_step c ([], 0, 0)" rule: prod_cases3)
    have IH: "num' = sum_list (map snd c)" "\<forall>e \<in> set c. snd e \<le> mx'" "0 \<le> mx'" "c \<noteq> [] \<longrightarrow> (b', mx') \<in> set c"
      using snoc.IH [OF _ run] snoc.prems(1) by simp_all
    have x: "0 < snd x" using snoc.prems(1) by simp
    have now: "(b, mx, num) = frequent_step x (b', mx', num')" using snoc.prems(2) run by simp
    show ?case
    proof (cases "mx' < snd x")
      case True
      then have "b = fst x" "mx = snd x" "num = num' + snd x" using now by (simp_all add: frequent_step_def)
      then show ?thesis using True IH x by force
    next
      case False
      then have "b = b'" "mx = mx'" "num = num' + snd x" using now by (simp_all add: frequent_step_def)
      moreover have "c \<noteq> []"
      proof
        assume "c = []"
        then have "mx' = 0" using run by simp
        then show False using False x by simp
      qed
      ultimately show ?thesis using False IH by simp
    qed
  qed simp
  have ok: "links.ordered c" "c \<noteq> []" "\<forall>a n. (a, n) \<in> set c \<longrightarrow> 0 < n" using assms(1) by (auto simp: alignments_ok_def)
  have "\<forall>e \<in> set c. 0 < snd e" using ok(3) by (metis prod.collapse)
  from inv [OF this assms(2) [unfolded most_frequent_def]] ok(2)
  have facts: "num_locations = sum_list (map snd c)" "\<forall>e \<in> set c. snd e \<le> max_locations"
    "(best, max_locations) \<in> set c"
    by blast+
  have best: "alignment_count best c = max_locations"
    using links.get_entry [OF ok(1) facts(3)] by (simp add: alignment_count_def)
  then show "0 < alignment_count best c" using ok(3) facts(3) by blast
  show "alignment_count a c \<le> alignment_count best c"
  proof (cases "om_get links_less a c")
    case None
    then have "alignment_count a c = 0" by (simp add: alignment_count_def)
    moreover have "0 < max_locations" using facts(3) ok(3) by blast
    ultimately show ?thesis using best by simp
  next
    case (Some n)
    then obtain a' where "(a', n) \<in> set c" using links.entry_get [OF Some] by blast
    then have "n \<le> max_locations" using facts(2) by fastforce
    then show ?thesis using Some best by (simp add: alignment_count_def)
  qed
  show "num_locations = sum_list (map snd c)" by fact
qed

section \<open>The rules\<close>

text \<open>The strict order of the rules: by the source symbols, then by the target symbols.\<close>

definition rule_less :: "'d rule \<Rightarrow> 'd rule \<Rightarrow> bool" where
  "rule_less a b \<longleftrightarrow> phrase_less (rl_source_phrase a) (rl_source_phrase b) \<or>
     (ph_symbols (rl_source_phrase a) = ph_symbols (rl_source_phrase b) \<and>
      phrase_less (rl_target_phrase a) (rl_target_phrase b))"

lemma sorted_wrt_concat_map:
  assumes "sorted_wrt R xs" "\<And>x. x \<in> set xs \<Longrightarrow> sorted_wrt S (f x)"
    "\<And>x y a b. R x y \<Longrightarrow> a \<in> set (f x) \<Longrightarrow> b \<in> set (f y) \<Longrightarrow> S a b"
  shows "sorted_wrt S (concat (map f xs))"
  using assms by (induction xs) (auto simp: sorted_wrt_append)

lemma source_count_entry:
  assumes "sources_ok ac" "(s, m) \<in> set ac" "(t, c) \<in> set m"
  shows "source_count s t a ac = alignment_count a c" "alignments_ok c"
proof -
  have "phrases.ordered ac" "targets_ok m" using assms by (auto simp: sources_ok_def)
  then have "om_get phrase_less s ac = Some m" "om_get phrase_less t m = Some c" "alignments_ok c"
    using phrases.get_entry assms(2,3) by (auto simp: targets_ok_def)
  then show "source_count s t a ac = alignment_count a c" "alignments_ok c"
    by (simp_all add: source_count_def target_count_def)
qed

lemma extract_count_pos: "0 < extract_count es s t a \<longleftrightarrow>
    (\<exists>e \<in> set es. ph_symbols (xt_source_phrase e) = s \<and> ph_symbols (xt_target_phrase e) = t \<and> xt_alignment e = a)"
  by (auto simp: extract_count_def vsize_def filter_empty_conv)

definition rules_of :: "'d floats \<Rightarrow> 'd scorer \<Rightarrow> int \<Rightarrow> 'd extracted list \<Rightarrow> 'd rule list" where
  "rules_of fl scorer num_samples es = make_rules fl scorer num_samples (fold (count_extract fl) es ([], []))"

text \<open>
  C33. The rules made from the extracts come in strictly increasing order of source and target
  symbols, so no phrase pair has two rules; every extract's phrase pair has its rule; and the
  alignment of a rule occurs with its phrase pair, at least as often as any other.
\<close>

theorem make_rules_counts:
  "sorted_wrt rule_less (rules_of fl scorer num_samples es) \<and>
    (\<forall>e \<in> set es. \<exists>r \<in> set (rules_of fl scorer num_samples es). ph_symbols (rl_source_phrase r) = ph_symbols (xt_source_phrase e) \<and>
       ph_symbols (rl_target_phrase r) = ph_symbols (xt_target_phrase e)) \<and>
    (\<forall>r \<in> set (rules_of fl scorer num_samples es). \<forall>a.
       0 < extract_count es (ph_symbols (rl_source_phrase r)) (ph_symbols (rl_target_phrase r)) (rl_alignment r) \<and>
       extract_count es (ph_symbols (rl_source_phrase r)) (ph_symbols (rl_target_phrase r)) a
         \<le> extract_count es (ph_symbols (rl_source_phrase r)) (ph_symbols (rl_target_phrase r)) (rl_alignment r))"
proof -
  obtain sc ac where run: "fold (count_extract fl) es ([], []) = (sc, ac)" by fastforce
  have ok: "sources_ok ac" and cnt: "source_count s t a ac = extract_count es (ph_symbols s) (ph_symbols t) a" for s t a
    using count_extracts [of fl es] run by auto
  define mk where "mk = (\<lambda>source_phrase :: phrase. \<lambda>(target_phrase, alignments).
       (case most_frequent alignments of (best, _, num_locations) \<Rightarrow>
         \<lparr>rl_source_phrase = source_phrase, rl_target_phrase = target_phrase,
          rl_scores = Score scorer \<lparr>fc_source_phrase = source_phrase, fc_target_phrase = target_phrase,
            fc_source_phrase_count = (case om_get phrase_less source_phrase sc of None \<Rightarrow> fl_of_int fl 0 | Some c \<Rightarrow> c),
            fc_pair_count = num_locations, fc_num_samples = num_samples\<rparr>,
          rl_alignment = best\<rparr>))"
  have rules: "rules_of fl scorer num_samples es = concat (map (\<lambda>(s, m). map (mk s) m) ac)"
    by (simp add: rules_of_def run make_rules_def mk_def)
  have mk: "rl_source_phrase (mk s (t, c)) = s" "rl_target_phrase (mk s (t, c)) = t"
    "rl_alignment (mk s (t, c)) = fst (most_frequent c)" for s t c
    by (simp_all add: mk_def split_def)
  have "sorted_wrt rule_less (concat (map (\<lambda>(s, m). map (mk s) m) ac))"
  proof (rule sorted_wrt_concat_map)
    show "sorted_wrt (\<lambda>a b. phrase_less (fst a) (fst b)) ac" using ok by (simp add: sources_ok_def phrases.ordered_def)
  next
    fix x assume x: "x \<in> set ac"
    obtain s m where sm: "x = (s, m)" by (cases x)
    have "sorted_wrt (\<lambda>a b. phrase_less (fst a) (fst b)) m"
      using ok x sm by (auto simp: sources_ok_def targets_ok_def phrases.ordered_def)
    then have "sorted_wrt (\<lambda>a b. rule_less (mk s a) (mk s b)) m"
      by (rule sorted_wrt_mono_rel [rotated]) (auto simp: rule_less_def mk)
    then show "sorted_wrt rule_less (case x of (s, m) \<Rightarrow> map (mk s) m)" by (simp add: sm sorted_wrt_map)
  next
    fix x y a b
    assume "phrase_less (fst x) (fst y)" "a \<in> set (case x of (s, m) \<Rightarrow> map (mk s) m)" "b \<in> set (case y of (s, m) \<Rightarrow> map (mk s) m)"
    then show "rule_less a b" by (auto simp: rule_less_def mk split: prod.splits)
  qed
  moreover have "\<exists>r \<in> set (rules_of fl scorer num_samples es). ph_symbols (rl_source_phrase r) = ph_symbols (xt_source_phrase e) \<and>
       ph_symbols (rl_target_phrase r) = ph_symbols (xt_target_phrase e)" if e: "e \<in> set es" for e
  proof -
    have "0 < source_count (xt_source_phrase e) (xt_target_phrase e) (xt_alignment e) ac"
      unfolding cnt extract_count_pos using e by blast
    then obtain m c where "om_get phrase_less (xt_source_phrase e) ac = Some m" "om_get phrase_less (xt_target_phrase e) m = Some c"
      by (auto simp: source_count_def target_count_def split: option.splits)
    then obtain s t where st: "phrases.same (xt_source_phrase e) s" "(s, m) \<in> set ac" "phrases.same (xt_target_phrase e) t" "(t, c) \<in> set m"
      using phrases.entry_get by metis
    have "mk s (t, c) \<in> set (rules_of fl scorer num_samples es)" unfolding rules using st(2,4) by fastforce
    then show ?thesis using st(1,3) mk by (metis same_phrase)
  qed
  moreover have "0 < extract_count es (ph_symbols (rl_source_phrase r)) (ph_symbols (rl_target_phrase r)) (rl_alignment r) \<and>
       extract_count es (ph_symbols (rl_source_phrase r)) (ph_symbols (rl_target_phrase r)) a
         \<le> extract_count es (ph_symbols (rl_source_phrase r)) (ph_symbols (rl_target_phrase r)) (rl_alignment r)"
    if r: "r \<in> set (rules_of fl scorer num_samples es)" for r a
  proof -
    obtain s m t c where e: "(s, m) \<in> set ac" "(t, c) \<in> set m" "r = mk s (t, c)"
      using r unfolding rules by auto
    obtain best mx num where best: "most_frequent c = (best, mx, num)" by (cases "most_frequent c" rule: prod_cases3)
    note entry = source_count_entry [OF ok e(1,2)]
    show ?thesis
      using most_frequent_max(1,2) [OF entry(2) best] entry(1) best
      by (simp add: e(3) mk cnt)
  qed
  ultimately show ?thesis unfolding rules by blast
qed

lemma make_rules_counts_witness:
  "let es = [\<lparr>xt_source_phrase = \<lparr>ph_symbols = [0], ph_var_pos = [], ph_words = [''a'']\<rparr>,
       xt_target_phrase = \<lparr>ph_symbols = [1], ph_var_pos = [], ph_words = [''b'']\<rparr>,
       xt_pairs_count = (1 :: rat), xt_alignment = [(0, 0)]\<rparr>]
     in sorted_wrt rule_less (rules_of (exact id) [] 1 es) \<and>
       (\<exists>r \<in> set (rules_of (exact id) [] 1 es). ph_symbols (rl_source_phrase r) = [0] \<and> ph_symbols (rl_target_phrase r) = [1])"
  unfolding Let_def
  by (rule conjI, rule conjunct1 [OF make_rules_counts],
      use make_rules_counts [of "exact id" "[]" 1 "[\<lparr>xt_source_phrase = \<lparr>ph_symbols = [0], ph_var_pos = [], ph_words = [''a'']\<rparr>,
       xt_target_phrase = \<lparr>ph_symbols = [1], ph_var_pos = [], ph_words = [''b'']\<rparr>,
       xt_pairs_count = (1 :: rat), xt_alignment = [(0, 0)]\<rparr>]"] in simp)

section \<open>Phrases at the start of a sentence\<close>

definition sample_pair :: data_array where
  "sample_pair = DataArray_of_file [''a b'']"

definition sample_extractor :: rule_extractor where
  "sample_extractor =
     (let h = \<lparr>rh_source = sample_pair, rh_target = sample_pair, rh_alignment = [[(0, 0), (1, 1)]],
        rh_max_rule_span = 15, rh_max_rule_symbols = 5, rh_require_aligned_terminal = True,
        rh_require_aligned_chunks = False, rh_require_tight_phrases = True\<rparr>
      in \<lparr>rx_source_data = sample_pair,
        rx_target_extractor = \<lparr>tx_data = sample_pair, tx_alignment = [[(0, 0), (1, 1)]], tx_helper = h,
          tx_max_rule_span = 15, tx_require_tight_phrases = True\<rparr>,
        rx_helper = h, rx_max_rule_span = 15, rx_min_gap_size = 1, rx_max_nonterminals = 2,
        rx_max_rule_symbols = 5, rx_require_tight_phrases = True\<rparr>)"

definition sample_voc :: vocabulary where
  "sample_voc = snd (GetTerminalIndex ''b'' (snd (GetTerminalIndex ''a'' empty_vocabulary)))"

text \<open>
   With the default limits and tight phrases, the occurrence of the word \<open>a\<close> at the start of the
  sentence \<open>a b\<close> makes the extractor read \<open>source_low[-1]\<close>: the tightness test of a leading
  nonterminal reads the word before the phrase before anything checks that there is one.
\<close>

theorem ExtractAlignments_reads_before_sentence:
  "Option.is_none (ExtractAlignments (exact id) sample_extractor
     \<lparr>ph_symbols = [0], ph_var_pos = [], ph_words = [''a'']\<rparr> [0] sample_voc) \<and>
   Option.is_none (loose_extension sample_extractor [0, 1] (0 - of_bool True) (1 + of_bool False - 1))"
  by code_simp

end
