(* ===== verification/Samplers.thy ===== *)
theory Samplers
  imports Precomputed Doubles
begin

text \<open>
  The samplers of occurrences: \<open>BackoffSampler\<close> over a suffix array range or a list of matchings,
  and the choice between the two (\<open>extractor/backoff_sampler\<close>, \<open>suffix_array_sampler\<close>,
  \<open>matchings_sampler\<close>, \<open>phrase_location_sampler\<close>). The counters \<open>num_samples\<close> and
  \<open>backoff_step\<close> are doubles that only count up by one from an integer, which is exact far
  beyond the range of \<open>int\<close>; they are integers here. Positions and the step are doubles.
\<close>

text \<open>The private virtual functions of a sampler.\<close>

record sampler =
  sm_num_subpatterns :: "phrase_location \<Rightarrow> int"
  sm_range_low :: "phrase_location \<Rightarrow> int"
  sm_range_high :: "phrase_location \<Rightarrow> int option"
  sm_position :: "phrase_location \<Rightarrow> int \<Rightarrow> int option"
  sm_matching :: "phrase_location \<Rightarrow> int \<Rightarrow> int list option"

definition suffix_array_sampler :: "suffix_array \<Rightarrow> sampler" where
  "suffix_array_sampler s = \<lparr>sm_num_subpatterns = (\<lambda>_. 1), sm_range_low = pl_sa_low,
     sm_range_high = (\<lambda>l. Some (pl_sa_high l)), sm_position = (\<lambda>_ i. GetSuffix s i),
     sm_matching = (\<lambda>_ i. map_option (\<lambda>p. [p]) (GetSuffix s i))\<rparr>"

definition matchings_sampler :: sampler where
  "matchings_sampler = \<lparr>sm_num_subpatterns = pl_num_subpatterns, sm_range_low = (\<lambda>_. 0),
     sm_range_high = (\<lambda>l. do {
       ms \<leftarrow> pl_matchings l; check (pl_num_subpatterns l \<noteq> 0); Some (vsize ms div pl_num_subpatterns l) }),
     sm_position = (\<lambda>l i. do { ms \<leftarrow> pl_matchings l; vat ms (i * pl_num_subpatterns l) }),
     sm_matching = (\<lambda>l i. do { ms \<leftarrow> pl_matchings l; vslice ms (i * pl_num_subpatterns l) (pl_num_subpatterns l) })\<rparr>"

definition blacklisted_at ::
  "data_array \<Rightarrow> sampler \<Rightarrow> phrase_location \<Rightarrow> (int \<Rightarrow> bool) \<Rightarrow> int \<Rightarrow> bool option" where
  "blacklisted_at d sm location blacklisted sample = do {
     position \<leftarrow> sm_position sm location sample;
     sentence_id \<leftarrow> GetSentenceId d position;
     Some (blacklisted sentence_id) }"

text \<open>The inner loop: the nearest usable occurrence before or after \<open>i\<close>, with its sample number.\<close>

partial_function (option) back_off ::
  "'d floats \<Rightarrow> data_array \<Rightarrow> sampler \<Rightarrow> phrase_location \<Rightarrow> (int \<Rightarrow> bool) \<Rightarrow> int \<Rightarrow> int \<Rightarrow> 'd \<Rightarrow> 'd \<Rightarrow> int \<Rightarrow>
   int option option" where
  "back_off fl d sm location blacklisted high last_sample step i backoff_step =
     (if \<not> fl_less fl (fl_of_int fl backoff_step) step then Some None
      else do {
        let earlier = fl_round fl (fl_sub fl i (fl_of_int fl backoff_step));
        b \<leftarrow> (if 0 \<le> earlier then blacklisted_at d sm location blacklisted earlier else Some True);
        if last_sample < earlier \<and> \<not> b then Some (Some earlier)
        else do {
          let after = fl_round fl (fl_add fl i (fl_of_int fl backoff_step));
          a \<leftarrow> (if after < high then blacklisted_at d sm location blacklisted after else Some True);
          if \<not> a then Some (Some after)
          else back_off fl d sm location blacklisted high last_sample step i (backoff_step + 1) } })"

declare back_off.simps [code]

text \<open>One round of the outer loop; the state holds \<open>i\<close>, \<open>last\<close> and the samples.\<close>

definition sample_step ::
  "'d floats \<Rightarrow> data_array \<Rightarrow> sampler \<Rightarrow> phrase_location \<Rightarrow> (int \<Rightarrow> bool) \<Rightarrow> int \<Rightarrow> 'd \<Rightarrow>
   'd \<times> int \<times> int list \<Rightarrow> (('d \<times> int \<times> int list) \<times> bool) option" where
  "sample_step fl d sm location blacklisted high step = (\<lambda>(i, last_sample, samples).
     if \<not> fl_less fl i (fl_of_int fl high) then Some ((i, last_sample, samples), False)
     else do {
       let sample = fl_round fl i;
       b \<leftarrow> blacklisted_at d sm location blacklisted sample;
       found \<leftarrow> (if sample \<le> last_sample \<or> b then back_off fl d sm location blacklisted high last_sample step i 1
         else Some (Some sample));
       (case found of
         None \<Rightarrow> Some ((fl_add fl i step, last_sample, samples), True)
       | Some s \<Rightarrow> do {
           matching \<leftarrow> sm_matching sm location s;
           Some ((fl_add fl i step, s, samples @ matching), True) }) })"

definition BackoffSample ::
  "'d floats \<Rightarrow> data_array \<Rightarrow> int \<Rightarrow> sampler \<Rightarrow> phrase_location \<Rightarrow> (int \<Rightarrow> bool) \<Rightarrow> phrase_location option" where
  "BackoffSample fl d max_samples sm location blacklisted = do {
     let low = sm_range_low sm location;
     high \<leftarrow> sm_range_high sm location;
     let step = fl_max fl (fl_of_int fl 1) (fl_div fl (fl_of_int fl (high - low)) (fl_of_int fl max_samples));
     (_, _, samples) \<leftarrow> for_break (int_range 0 max_samples)
       (\<lambda>_. sample_step fl d sm location blacklisted high step) (fl_of_int fl low, low - 1, []);
     Some (PhraseLocation_matchings samples (sm_num_subpatterns sm location)) }"

definition Sample ::
  "'d floats \<Rightarrow> suffix_array \<Rightarrow> int \<Rightarrow> phrase_location \<Rightarrow> (int \<Rightarrow> bool) \<Rightarrow> phrase_location option" where
  "Sample fl s max_samples location blacklisted =
     (if pl_matchings location = None
      then BackoffSample fl (sa_data s) max_samples (suffix_array_sampler s) location blacklisted
      else BackoffSample fl (sa_data s) max_samples matchings_sampler location blacklisted)"

section \<open>Rounding\<close>

lemma round_away_bounds: "of_int (round_away x) \<le> x + 1 / 2" "x - 1 / 2 \<le> of_int (round_away x)"
  unfolding round_away_def by (simp_all, linarith+)

lemma round_away_int [simp]: "round_away (of_int n) = n"
proof -
  have "\<bar>of_int (round_away (of_int n)) - (of_int n :: rat)\<bar> \<le> 1 / 2"
    using round_away_bounds [of "of_int n"] by linarith
  then have "\<bar>of_int (round_away (of_int n) - n) :: rat\<bar> \<le> 1 / 2" by simp
  then show ?thesis by linarith
qed

section \<open>What a sample holds\<close>

text \<open>
  The contract between \<open>BackoffSampler\<close> and its two subclasses: a valid location has a range of
  numbered occurrences, each with a place in the corpus and a matching; the numbers from
  \<open>first\<close> on have one, also below the range.
\<close>

locale sampling =
  fixes sm :: "'c \<Rightarrow> sampler"
    and data :: "'c \<Rightarrow> data_array"
    and valid :: "'c \<Rightarrow> phrase_location \<Rightarrow> bool"
    and first :: "'c \<Rightarrow> phrase_location \<Rightarrow> int"
    and high :: "'c \<Rightarrow> phrase_location \<Rightarrow> int"
  assumes range: "valid c l \<Longrightarrow> sm_range_high (sm c) l = Some (high c l) \<and> 0 \<le> first c l \<and>
      first c l \<le> sm_range_low (sm c) l \<and> sm_range_low (sm c) l \<le> high c l"
    and occurrence: "valid c l \<Longrightarrow> first c l \<le> i \<Longrightarrow> i < high c l \<Longrightarrow> \<exists>p sid m.
      sm_position (sm c) l i = Some p \<and> GetSentenceId (data c) p = Some sid \<and> sm_matching (sm c) l i = Some m"
begin

definition matching_of :: "'c \<Rightarrow> phrase_location \<Rightarrow> int \<Rightarrow> int list" where
  "matching_of c l i = the (sm_matching (sm c) l i)"

definition barred :: "'c \<Rightarrow> phrase_location \<Rightarrow> (int \<Rightarrow> bool) \<Rightarrow> int \<Rightarrow> bool" where
  "barred c l bl i = the (blacklisted_at (data c) (sm c) l bl i)"

lemma barred_eq: "valid c l \<Longrightarrow> first c l \<le> i \<Longrightarrow> i < high c l \<Longrightarrow>
    blacklisted_at (data c) (sm c) l bl i = Some (barred c l bl i)"
  using occurrence [of c l i] by (auto simp: barred_def blacklisted_at_def)

lemma matching_eq: "valid c l \<Longrightarrow> first c l \<le> i \<Longrightarrow> i < high c l \<Longrightarrow> sm_matching (sm c) l i = Some (matching_of c l i)"
  using occurrence [of c l i] by (auto simp: matching_of_def)

lemma back_off_ensures:
  assumes "valid c l" "of_int (sm_range_low (sm c) l) \<le> i" "i \<le> of_int (high c l) - 1" "of_int last_sample < i + 1 / 2" "1 \<le> k"
    and reach: "first c l = 0 \<or> step \<le> of_int (sm_range_low (sm c) l - first c l + 1)"
  shows "ensures (back_off (exact lg) (data c) (sm c) l bl (high c l) last_sample step i k)
    (\<lambda>res. \<forall>s. res = Some s \<longrightarrow> last_sample < s \<and> first c l \<le> s \<and> s < high c l \<and> \<not> barred c l bl s \<and> of_int s < i + step + 1 / 2)"
  using assms(5)
proof (induction "nat (\<lceil>step\<rceil> - k)" arbitrary: k rule: less_induct)
  case less
  let ?before = "round_away (i - of_int k)" and ?after = "round_away (i + of_int k)"
  show ?case
  proof (cases "of_int k < step")
    case False
    then show ?thesis by (subst back_off.simps) (simp add: ensures_Some)
  next
    case True
    have bnd: "of_int ?before \<le> i - of_int k + 1 / 2" "i + of_int k - 1 / 2 \<le> of_int ?after" "of_int ?after \<le> i + of_int k + 1 / 2"
      using round_away_bounds [of "i - of_int k"] round_away_bounds [of "i + of_int k"] by simp_all
    have k1: "(1 :: rat) \<le> of_int k" using less.prems by simp
    have before_lt: "?before < high c l"
    proof -
      have "(of_int ?before :: rat) < of_int (high c l)" using bnd(1) assms(3) k1 by linarith
      then show ?thesis by simp
    qed
    note rng = range [OF assms(1)]
    have before_ge: "first c l \<le> ?before" if "0 \<le> ?before"
    proof (cases "first c l = 0")
      case False
      then have "(of_int k :: rat) < of_int (sm_range_low (sm c) l - first c l + 1)" using reach True by linarith
      then have "k \<le> sm_range_low (sm c) l - first c l" unfolding of_int_less_iff by simp
      then have "(of_int k :: rat) \<le> of_int (sm_range_low (sm c) l) - of_int (first c l)" by (metis of_int_diff of_int_le_iff)
      then have "(of_int (first c l) :: rat) - 1 / 2 \<le> of_int ?before"
        using assms(2) round_away_bounds(2) [of "i - of_int k"] by linarith
      then show ?thesis by linarith
    qed (use that in simp)
    have after_gt: "last_sample < ?after" "first c l \<le> ?after"
    proof -
      have "(of_int last_sample :: rat) < of_int ?after" using bnd(2) assms(4) k1 by linarith
      then show "last_sample < ?after" by simp
      have "(of_int (first c l) :: rat) \<le> of_int (sm_range_low (sm c) l)" using rng by simp
      then have "(of_int (first c l) - 1 :: rat) < of_int ?after" using bnd(2) assms(2) k1 by linarith
      then show "first c l \<le> ?after" by linarith
    qed
    have dec: "nat (\<lceil>step\<rceil> - (k + 1)) < nat (\<lceil>step\<rceil> - k)"
    proof -
      have "k < \<lceil>step\<rceil>" using True by (simp add: less_ceiling_iff)
      then show ?thesis by simp
    qed
    note IH = less.hyps [OF dec]
    have b: "(if 0 \<le> ?before then blacklisted_at (data c) (sm c) l bl ?before else Some True) =
        Some (?before < 0 \<or> barred c l bl ?before)"
      using barred_eq [OF assms(1) before_ge before_lt] by simp
    have a: "(if ?after < high c l then blacklisted_at (data c) (sm c) l bl ?after else Some True) =
        Some (high c l \<le> ?after \<or> barred c l bl ?after)"
      using barred_eq [OF assms(1) after_gt(2)] by simp
    show ?thesis
    proof (cases "last_sample < ?before \<and> \<not> (?before < 0 \<or> barred c l bl ?before)")
      case found: True
      have "of_int ?before < i + step + 1 / 2" using bnd(1) True k1 by linarith
      moreover have "blacklisted_at (data c) (sm c) l bl ?before = Some False"
        using found barred_eq [OF assms(1) before_ge before_lt] by simp
      ultimately show ?thesis using True found before_lt before_ge
        by (subst back_off.simps) (simp add: Let_def ensures_Some)
    next
      case no_before: False
      show ?thesis
      proof (cases "high c l \<le> ?after \<or> barred c l bl ?after")
        case False
        have "of_int ?after < i + step + 1 / 2" using bnd(3) True by linarith
        moreover have "blacklisted_at (data c) (sm c) l bl ?after = Some False"
          using False barred_eq [OF assms(1) after_gt(2)] by simp
        ultimately show ?thesis using True no_before False after_gt
          by (subst back_off.simps) (auto simp: Let_def b ensures_Some)
      next
        case no_after: True
        have "back_off (exact lg) (data c) (sm c) l bl (high c l) last_sample step i k =
            back_off (exact lg) (data c) (sm c) l bl (high c l) last_sample step i (k + 1)"
          using True no_before no_after by (subst back_off.simps) (auto simp: Let_def a b)
        then show ?thesis using IH less.prems by simp
      qed
    qed
  qed
qed

text \<open>The invariant of the outer loop before round \<open>n\<close>.\<close>

definition round_inv ::
  "'c \<Rightarrow> phrase_location \<Rightarrow> (int \<Rightarrow> bool) \<Rightarrow> rat \<Rightarrow> int \<Rightarrow> rat \<times> int \<times> int list \<Rightarrow> bool" where
  "round_inv c l bl step n = (\<lambda>(i, last_sample, samples). i = of_int (sm_range_low (sm c) l) + of_int n * step \<and>
     of_int last_sample < i + 1 / 2 \<and>
     (\<exists>ranks. samples = concat (map (matching_of c l) ranks) \<and> sorted_wrt (<) ranks \<and> int (length ranks) \<le> n \<and>
       (\<forall>r \<in> set ranks. sm_range_low (sm c) l \<le> r \<and> r < high c l \<and> r \<le> last_sample \<and> \<not> barred c l bl r) \<and>
       sm_range_low (sm c) l - 1 \<le> last_sample))"

lemma sample_step_inv:
  assumes "valid c l" "0 < max_samples" "0 \<le> n" "n < max_samples"
    and step: "step = max 1 (of_int (high c l - sm_range_low (sm c) l) / of_int max_samples)"
    and reach: "first c l = 0 \<or> step \<le> of_int (sm_range_low (sm c) l - first c l + 1)"
    and I: "round_inv c l bl step n (i, last_sample, samples)"
  shows "ensures (sample_step (exact lg) (data c) (sm c) l bl (high c l) step (i, last_sample, samples))
    (\<lambda>(st, go). if go then round_inv c l bl step (n + 1) st else round_inv c l bl step n st)"
proof -
  let ?low = "sm_range_low (sm c) l" and ?high = "high c l"
  have low: "first c l \<le> ?low" "?low \<le> ?high" "0 \<le> ?low" using range [OF assms(1)] by linarith+
  obtain ranks where i: "i = of_int ?low + of_int n * step" and last: "of_int last_sample < i + 1 / 2"
    and ranks: "samples = concat (map (matching_of c l) ranks)" "sorted_wrt (<) ranks" "int (length ranks) \<le> n"
      "\<forall>r \<in> set ranks. ?low \<le> r \<and> r < ?high \<and> r \<le> last_sample \<and> \<not> barred c l bl r" "?low - 1 \<le> last_sample"
    using I by (auto simp: round_inv_def)
  show ?thesis
  proof (cases "i < of_int ?high")
    case False
    then show ?thesis using I by (simp add: sample_step_def ensures_Some)
  next
    case True
    have step1: "1 \<le> step" using step by simp
    have pos: "of_int ?low \<le> i" using i step1 assms(3) by simp
    have inside: "i \<le> of_int ?high - 1"
    proof (cases "step = 1")
      case one: True
      then have "i = of_int (?low + n)" using i by simp
      moreover have "?low + n < ?high"
        using True \<open>i = of_int (?low + n)\<close> by (simp only: of_int_less_iff)
      ultimately show ?thesis by linarith
    next
      case False
      then have s: "step = of_int (?high - ?low) / of_int max_samples" using step by (simp add: max_def split: if_splits)
      have "of_int n * step \<le> of_int (max_samples - 1) * step"
        using assms(4) step1 by (intro mult_right_mono) simp_all
      also have "\<dots> = of_int max_samples * step - step" by (simp add: algebra_simps)
      also have "of_int max_samples * step = of_int (?high - ?low)" using s assms(2) by simp
      finally show ?thesis using i step1 by simp
    qed
    let ?sample = "round_away i"
    have bnd: "of_int ?sample \<le> i + 1 / 2" "i - 1 / 2 \<le> of_int ?sample" by (rule round_away_bounds)+
    have sample_in: "first c l \<le> ?sample" "?sample < ?high"
    proof -
      have "(of_int (first c l) :: rat) \<le> of_int ?low" using low(1) by simp
      then have "(of_int (first c l) - 1 :: rat) < of_int ?sample" using bnd(2) pos by linarith
      then show "first c l \<le> ?sample" by linarith
      have "(of_int ?sample :: rat) < of_int ?high" using bnd(1) inside by linarith
      then show "?sample < ?high" by simp
    qed
    have next_i: "i + step = of_int ?low + of_int (n + 1) * step" using i by (simp add: algebra_simps)
    have skip: "round_inv c l bl step (n + 1) (i + step, last_sample, samples)"
      unfolding round_inv_def using next_i last step1 ranks by auto
    have take_it: "\<exists>m. sm_matching (sm c) l s = Some m \<and> round_inv c l bl step (n + 1) (i + step, s, samples @ m)"
      if s: "last_sample < s" "first c l \<le> s" "s < ?high" "\<not> barred c l bl s" "of_int s < i + step + 1 / 2" for s
    proof (intro exI conjI)
      show "sm_matching (sm c) l s = Some (matching_of c l s)" by (rule matching_eq [OF assms(1) s(2,3)])
      have "\<forall>r \<in> set ranks. r < s" using ranks(4) s(1) by force
      then have "sorted_wrt (<) (ranks @ [s])" using ranks(2) by (simp add: sorted_wrt_append)
      moreover have "\<forall>r \<in> set (ranks @ [s]). ?low \<le> r \<and> r < ?high \<and> r \<le> s \<and> \<not> barred c l bl r"
        using ranks(4,5) s by force
      ultimately show "round_inv c l bl step (n + 1) (i + step, s, samples @ matching_of c l s)"
        unfolding round_inv_def prod.case using next_i s(1,5) ranks(1,3,5)
        by (intro conjI exI [of _ "ranks @ [s]"]) simp_all
    qed
    have found: "ensures (if ?sample \<le> last_sample \<or> barred c l bl ?sample
        then back_off (exact lg) (data c) (sm c) l bl ?high last_sample step i 1 else Some (Some ?sample))
      (\<lambda>res. \<forall>s. res = Some s \<longrightarrow> last_sample < s \<and> first c l \<le> s \<and> s < ?high \<and> \<not> barred c l bl s \<and> of_int s < i + step + 1 / 2)"
    proof (cases "?sample \<le> last_sample \<or> barred c l bl ?sample")
      case True
      then show ?thesis using back_off_ensures [OF assms(1) pos inside last _ reach, of 1 lg bl] by simp
    next
      case False
      have "of_int ?sample < i + step + 1 / 2" using bnd(1) step1 by linarith
      then show ?thesis using False sample_in by (simp add: ensures_Some)
    qed
    then obtain res where res: "(if ?sample \<le> last_sample \<or> barred c l bl ?sample
        then back_off (exact lg) (data c) (sm c) l bl ?high last_sample step i 1 else Some (Some ?sample)) = Some res"
      "\<forall>s. res = Some s \<longrightarrow> last_sample < s \<and> first c l \<le> s \<and> s < ?high \<and> \<not> barred c l bl s \<and> of_int s < i + step + 1 / 2"
      by (rule ensuresE) blast
    show ?thesis
    proof (cases res)
      case None
      then show ?thesis using True res(1) skip
        by (simp add: sample_step_def barred_eq [OF assms(1) sample_in] ensures_Some)
    next
      case (Some s)
      then obtain m where "sm_matching (sm c) l s = Some m" "round_inv c l bl step (n + 1) (i + step, s, samples @ m)"
        using take_it [of s] res(2) by blast
      then show ?thesis using True res(1) Some
        by (simp add: sample_step_def barred_eq [OF assms(1) sample_in] ensures_Some)
    qed
  qed
qed

lemma sample_sound:
  assumes "valid c l" "0 < max_samples"
    and "first c l = 0 \<or> high c l - sm_range_low (sm c) l \<le> max_samples * (sm_range_low (sm c) l - first c l + 1)"
  shows "\<exists>ranks. BackoffSample (exact lg) (data c) max_samples (sm c) l bl =
      Some (PhraseLocation_matchings (concat (map (matching_of c l) ranks)) (sm_num_subpatterns (sm c) l)) \<and>
    sorted_wrt (<) ranks \<and> int (length ranks) \<le> max_samples \<and>
    (\<forall>r \<in> set ranks. sm_range_low (sm c) l \<le> r \<and> r < high c l \<and> \<not> barred c l bl r)"
proof -
  let ?low = "sm_range_low (sm c) l" and ?high = "high c l"
  define step where "step = max (1 :: rat) (of_int (?high - ?low) / of_int max_samples)"
  have reach: "first c l = 0 \<or> step \<le> of_int (?low - first c l + 1)"
  proof (cases "first c l = 0")
    case False
    have "of_int (?high - ?low) \<le> (of_int (max_samples * (?low - first c l + 1)) :: rat)"
      unfolding of_int_le_iff using False assms(3) by blast
    then have "of_int (?high - ?low) \<le> (of_int max_samples :: rat) * of_int (?low - first c l + 1)"
      by (simp only: of_int_mult)
    then have "of_int (?high - ?low) / of_int max_samples \<le> (of_int (?low - first c l + 1) :: rat)"
      using assms(2) by (subst pos_divide_le_eq) (simp_all only: of_int_0_less_iff mult.commute)
    moreover have "(1 :: rat) \<le> of_int (?low - first c l + 1)" using range [OF assms(1)] unfolding of_int_1_le_iff by linarith
    ultimately show ?thesis by (simp add: step_def)
  qed simp
  have "fl_max (exact lg) (of_int 1) (of_int (?high - ?low) / of_int max_samples) = step"
    by (simp add: fl_max_def step_def max_def)
  moreover have "ensures (for_break (int_range 0 max_samples) (\<lambda>_. sample_step (exact lg) (data c) (sm c) l bl ?high step)
      (of_int ?low, ?low - 1, [])) (\<lambda>st. \<exists>n \<le> max_samples. round_inv c l bl step n st)"
  proof (rule ensures_break_range [where I = "\<lambda>n. round_inv c l bl step n"])
    show "round_inv c l bl step 0 (of_int ?low, ?low - 1, [])" by (simp add: round_inv_def)
  next
    fix n and st :: "rat \<times> int \<times> int list"
    assume n: "0 \<le> n" "n < max_samples" and I: "round_inv c l bl step n st"
    obtain i ls sa where st: "st = (i, ls, sa)" by (cases st rule: prod_cases3)
    show "ensures (sample_step (exact lg) (data c) (sm c) l bl ?high step st)
        (\<lambda>(s', go). if go then round_inv c l bl step (n + 1) s' else \<exists>n \<le> max_samples. round_inv c l bl step n s')"
      unfolding st
      by (rule ensures_mono [OF sample_step_inv [OF assms(1,2) n step_def reach I [unfolded st]]])
        (use n(2) in \<open>auto split: prod.splits if_splits intro!: exI [of _ n]\<close>)
  qed (use assms(2) in auto)
  then obtain i ls sa n where run: "for_break (int_range 0 max_samples) (\<lambda>_. sample_step (exact lg) (data c) (sm c) l bl ?high step)
      (of_int ?low, ?low - 1, []) = Some (i, ls, sa)" "n \<le> max_samples" "round_inv c l bl step n (i, ls, sa)"
    by (auto simp: ensures_def)
  ultimately show ?thesis using range [OF assms(1)]
    by (auto simp: BackoffSample_def round_inv_def)
qed

end

section \<open>Both samplers keep the contract\<close>

text \<open>
  A range of the suffix array: the suffixes from rank 1 on lie in sentences, the one at rank 0
  is empty.
\<close>

definition valid_range :: "suffix_array \<Rightarrow> phrase_location \<Rightarrow> bool" where
  "valid_range s l \<longleftrightarrow> 1 \<le> pl_sa_low l \<and> pl_sa_low l \<le> pl_sa_high l \<and>
     (\<forall>i. 1 \<le> i \<and> i < pl_sa_high l \<longrightarrow> (\<exists>p sid. GetSuffix s i = Some p \<and> GetSentenceId (sa_data s) p = Some sid))"

text \<open>A list of whole occurrences whose first positions lie in sentences.\<close>

definition valid_matchings :: "suffix_array \<Rightarrow> phrase_location \<Rightarrow> bool" where
  "valid_matchings s l \<longleftrightarrow> (\<exists>ms. pl_matchings l = Some ms \<and> 0 < pl_num_subpatterns l \<and>
     pl_num_subpatterns l * (vsize ms div pl_num_subpatterns l) = vsize ms \<and>
     (\<forall>p \<in> set ms. \<exists>sid. GetSentenceId (sa_data s) p = Some sid))"

definition num_occurrences :: "phrase_location \<Rightarrow> int" where
  "num_occurrences l = vsize (the (pl_matchings l)) div pl_num_subpatterns l"

interpretation by_range: sampling suffix_array_sampler sa_data valid_range "\<lambda>_ _. 1" "\<lambda>s. pl_sa_high"
proof
  fix c l i assume v: "valid_range c l"
  then show "sm_range_high (suffix_array_sampler c) l = Some (pl_sa_high l) \<and>
      0 \<le> (1 :: int) \<and> 1 \<le> sm_range_low (suffix_array_sampler c) l \<and> sm_range_low (suffix_array_sampler c) l \<le> pl_sa_high l"
    by (simp add: suffix_array_sampler_def valid_range_def)
  assume "1 \<le> i" "i < pl_sa_high l"
  then obtain p sid where "GetSuffix c i = Some p" "GetSentenceId (sa_data c) p = Some sid"
    using v unfolding valid_range_def by blast
  then show "\<exists>p sid m. sm_position (suffix_array_sampler c) l i = Some p \<and> GetSentenceId (sa_data c) p = Some sid \<and>
      sm_matching (suffix_array_sampler c) l i = Some m"
    by (simp add: suffix_array_sampler_def)
qed

interpretation by_matchings: sampling "\<lambda>_. matchings_sampler" sa_data valid_matchings "\<lambda>_ _. 0" "\<lambda>s. num_occurrences"
proof
  fix c l i assume "valid_matchings c l"
  then obtain ms where ms: "pl_matchings l = Some ms" "0 < pl_num_subpatterns l"
    "pl_num_subpatterns l * (vsize ms div pl_num_subpatterns l) = vsize ms"
    "\<forall>p \<in> set ms. \<exists>sid. GetSentenceId (sa_data c) p = Some sid"
    by (auto simp: valid_matchings_def)
  then show "sm_range_high matchings_sampler l = Some (num_occurrences l) \<and>
      0 \<le> (0 :: int) \<and> 0 \<le> sm_range_low matchings_sampler l \<and> sm_range_low matchings_sampler l \<le> num_occurrences l"
    by (simp add: matchings_sampler_def num_occurrences_def pos_imp_zdiv_nonneg_iff)
  assume i: "0 \<le> i" "i < num_occurrences l"
  let ?n = "pl_num_subpatterns l"
  have "?n * (i + 1) \<le> ?n * (vsize ms div ?n)"
    using i ms(1,2) by (intro mult_left_mono) (simp_all add: num_occurrences_def)
  then have bound: "0 \<le> i * ?n" "i * ?n + ?n \<le> vsize ms" using i(1) ms(2,3) by (simp_all add: algebra_simps)
  then have "vat ms (i * ?n) = Some (ms ! nat (i * ?n))" using ms(2) by (simp add: vat_def vsize_def)
  moreover then have "ms ! nat (i * ?n) \<in> set ms" by (rule vat_in_set)
  moreover have "vslice ms (i * ?n) ?n \<noteq> None" using bound ms(2) by (simp add: vslice_def vsize_def)
  ultimately show "\<exists>p sid m. sm_position matchings_sampler l i = Some p \<and> GetSentenceId (sa_data c) p = Some sid \<and>
      sm_matching matchings_sampler l i = Some m"
    using ms(1,4) by (auto simp: matchings_sampler_def)
qed

text \<open>
  C5. With exact arithmetic, sampling a range of the suffix array always returns, with at most
  \<open>max_samples\<close> positions: the suffixes at strictly increasing ranks of the range, none of
  them in a blacklisted sentence. The last hypothesis bounds the step by the start of the
  range; without it the sampler can read rank 0.
\<close>

theorem Sample_range:
  assumes "valid_range s l" "pl_matchings l = None" "0 < max_samples"
    and "pl_sa_high l - pl_sa_low l \<le> max_samples * pl_sa_low l"
  shows "\<exists>ranks positions. Sample (exact lg) s max_samples l bl = Some (PhraseLocation_matchings positions 1) \<and>
    map Some positions = map (GetSuffix s) ranks \<and> sorted_wrt (<) ranks \<and> int (length ranks) \<le> max_samples \<and>
    (\<forall>r \<in> set ranks. pl_sa_low l \<le> r \<and> r < pl_sa_high l) \<and>
    (\<forall>p \<in> set positions. \<exists>sid. GetSentenceId (sa_data s) p = Some sid \<and> \<not> bl sid)"
proof -
  obtain ranks where r: "BackoffSample (exact lg) (sa_data s) max_samples (suffix_array_sampler s) l bl =
      Some (PhraseLocation_matchings (concat (map (by_range.matching_of s l) ranks)) (sm_num_subpatterns (suffix_array_sampler s) l))"
    "sorted_wrt (<) ranks" "int (length ranks) \<le> max_samples"
    "\<forall>r \<in> set ranks. sm_range_low (suffix_array_sampler s) l \<le> r \<and> r < pl_sa_high l \<and> \<not> by_range.barred s l bl r"
    using by_range.sample_sound [OF assms(1,3), of lg bl] assms(4) by (auto simp: suffix_array_sampler_def)
  have low: "1 \<le> pl_sa_low l" using assms(1) by (simp add: valid_range_def)
  have rng: "\<forall>r \<in> set ranks. pl_sa_low l \<le> r \<and> r < pl_sa_high l" using r(4) by (simp add: suffix_array_sampler_def)
  have at: "\<exists>p sid. GetSuffix s i = Some p \<and> GetSentenceId (sa_data s) p = Some sid \<and>
      by_range.matching_of s l i = [p] \<and> by_range.barred s l bl i = bl sid" if "i \<in> set ranks" for i
  proof -
    have i: "1 \<le> i" "i < pl_sa_high l" using rng that low by force+
    then obtain p sid where "GetSuffix s i = Some p" "GetSentenceId (sa_data s) p = Some sid"
      using assms(1) unfolding valid_range_def by blast
    then show ?thesis
      by (simp add: by_range.matching_of_def by_range.barred_def blacklisted_at_def suffix_array_sampler_def)
  qed
  let ?ps = "map (\<lambda>i. the (GetSuffix s i)) ranks"
  have "concat (map (by_range.matching_of s l) ranks) = concat (map (\<lambda>i. [the (GetSuffix s i)]) ranks)"
    using at by (intro arg_cong [where f = concat] map_cong) fastforce+
  then have "concat (map (by_range.matching_of s l) ranks) = ?ps" by simp
  moreover have "map Some ?ps = map (GetSuffix s) ranks" using at by fastforce
  moreover have "\<forall>p \<in> set ?ps. \<exists>sid. GetSentenceId (sa_data s) p = Some sid \<and> \<not> bl sid"
    using at r(4) by fastforce
  ultimately show ?thesis using r(1-3) rng assms(2)
    by (intro exI [of _ ranks] exI [of _ ?ps]) (simp add: Sample_def suffix_array_sampler_def)
qed


definition sample_corpus :: data_array where
  "sample_corpus = DataArray_of_file [''a a a'']"

definition sample_suffixes :: suffix_array where
  "sample_suffixes = \<lparr>sa_data = sample_corpus, sa_array = [4, 3, 2, 1, 0], sa_word_start = [0, 1, 2, 5]\<rparr>"

theorem Sample_range_witness:
  "\<exists>positions. Sample (exact id) sample_suffixes 2 (PhraseLocation_range 2 5) (\<lambda>_. False) =
     Some (PhraseLocation_matchings positions 1) \<and> int (length positions) \<le> 2"
proof -
  have "\<exists>p sid. GetSuffix sample_suffixes i = Some p \<and> GetSentenceId (sa_data sample_suffixes) p = Some sid"
    if "1 \<le> i" "i < 5" for i
  proof -
    have "i = 1 \<or> i = 2 \<or> i = 3 \<or> i = 4" using that by arith
    moreover have "Option.bind (GetSuffix sample_suffixes j) (GetSentenceId (sa_data sample_suffixes)) = Some 0"
      if "j \<in> {1, 2, 3, 4}" for j
    proof -
      have "list_all (\<lambda>j. Option.bind (GetSuffix sample_suffixes j) (GetSentenceId (sa_data sample_suffixes)) = Some 0) [1, 2, 3, 4]"
        by code_simp
      then show ?thesis using that by (auto simp: list_all_iff)
    qed
    ultimately show ?thesis by (fastforce simp: bind_Some_iff)
  qed
  then have "valid_range sample_suffixes (PhraseLocation_range 2 5)"
    by (simp add: valid_range_def PhraseLocation_range_def)
  from Sample_range [OF this, of 2 id "\<lambda>_. False"]
  obtain ranks positions where "Sample (exact id) sample_suffixes 2 (PhraseLocation_range 2 5) (\<lambda>_. False) =
      Some (PhraseLocation_matchings positions 1)"
    "map Some positions = map (GetSuffix sample_suffixes) ranks" "int (length ranks) \<le> 2"
    by (auto simp: PhraseLocation_range_def)
  moreover from this(2) have "length positions = length ranks" by (rule map_eq_imp_length_eq)
  ultimately show ?thesis by auto
qed

text \<open>
   When every sentence of the range is blacklisted and the step is larger than the start of
  the range, the sampler backs off to rank 0, whose suffix is the position past the corpus, and
  reads \<open>sentence_id\<close> past its end: here for the word \<open>a\<close> of the one-sentence corpus
  \<open>a a a\<close>, whose suffix array is the one given.
\<close>

theorem Sample_backs_off_too_far:
  "map_option sa_array (BuildSuffixArray (\<lambda>_. 0) sample_corpus) = Some (sa_array sample_suffixes) \<and>
   Option.is_none (Sample (exact id) sample_suffixes 1 (PhraseLocation_range 2 5) (\<lambda>_. True))"
  by (rule conjI; code_simp)

end
