(* ===== verification/RuleFactory.thy ===== *)
theory RuleFactory
  imports Intersect RuleExtraction Samplers
begin

text \<open>
  \<open>MatchingsTrie\<close>, \<open>HieroCachingRuleFactory\<close> and \<open>GrammarExtractor\<close>
  (\<open>extractor/matchings_trie\<close>, \<open>rule_factory\<close>, \<open>grammar_extractor\<close>): all source phrases
  of a sentence, in breadth-first order, with a cache of their occurrences. Nodes live in a
  store, a list in which \<open>make_shared\<close> appends; a pointer is an address or null. Timing and
  output to \<open>cerr\<close> are left out.
\<close>

section \<open>The trie\<close>

record trie_node =
  tn_suffix_link :: "nat option"
  tn_phrase :: phrase
  tn_matchings :: phrase_location
  tn_children :: "int \<rightharpoonup> nat option"

type_synonym trie = "trie_node list"

definition new_node :: "nat option \<Rightarrow> phrase \<Rightarrow> phrase_location \<Rightarrow> trie_node" where
  "new_node suffix_link phrase matchings =
     \<lparr>tn_suffix_link = suffix_link, tn_phrase = phrase, tn_matchings = matchings, tn_children = Map.empty\<rparr>"

definition node_at :: "trie \<Rightarrow> nat \<Rightarrow> trie_node option" where
  "node_at trie a = (if a < length trie then Some (trie ! a) else None)"

definition make_node :: "trie_node \<Rightarrow> trie \<Rightarrow> nat \<times> trie" where
  "make_node n trie = (length trie, trie @ [n])"

definition AddChild :: "nat \<Rightarrow> int \<Rightarrow> nat option \<Rightarrow> trie \<Rightarrow> trie option" where
  "AddChild a key child trie = do {
     n \<leftarrow> node_at trie a; Some (trie[a := n\<lparr>tn_children := (tn_children n)(key \<mapsto> child)\<rparr>]) }"

definition HasChild :: "nat \<Rightarrow> int \<Rightarrow> trie \<Rightarrow> bool option" where
  "HasChild a key trie = do { n \<leftarrow> node_at trie a; Some (tn_children n key \<noteq> None) }"

text \<open>\<open>children[key]\<close> inserts a null pointer for a missing key.\<close>

definition GetChild :: "nat \<Rightarrow> int \<Rightarrow> trie \<Rightarrow> (nat option \<times> trie) option" where
  "GetChild a key trie = do {
     n \<leftarrow> node_at trie a;
     (case tn_children n key of
        Some child \<Rightarrow> Some (child, trie)
      | None \<Rightarrow> do { trie' \<leftarrow> AddChild a key None trie; Some (None, trie') }) }"

definition set_matchings :: "nat \<Rightarrow> phrase_location \<Rightarrow> trie \<Rightarrow> trie option" where
  "set_matchings a l trie = do { n \<leftarrow> node_at trie a; Some (trie[a := n\<lparr>tn_matchings := l\<rparr>]) }"

definition empty_trie :: trie where
  "empty_trie = [new_node None empty_phrase (PhraseLocation_range (-1) (-1))]"

section \<open>The factory\<close>

record state =
  st_start :: int
  st_end :: int
  st_phrase :: "int list"
  st_subpatterns_start :: "int list"
  st_node :: "nat option"
  st_starts_with_x :: bool

text \<open>The option \<open>min_gap_size\<close> is taken to be a natural number.\<close>

record 'd factory =
  rf_suffix_array :: suffix_array
  rf_intersector :: intersector
  rf_extractor :: rule_extractor
  rf_scorer :: "'d scorer"
  rf_max_samples :: int
  rf_min_gap_size :: nat
  rf_max_rule_span :: int
  rf_max_nonterminals :: int
  rf_max_chunks :: int
  rf_max_rule_symbols :: int

type_synonym 'd world = "trie \<times> vocabulary \<times> 'd rule list"

definition CannotHaveMatchings :: "nat \<Rightarrow> int \<Rightarrow> trie \<Rightarrow> (bool \<times> trie) option" where
  "CannotHaveMatchings node word_id trie = do {
     has \<leftarrow> HasChild node word_id trie;
     (missing, trie1) \<leftarrow> (if has then map_option (\<lambda>(c, t). (c = None, t)) (GetChild node word_id trie) else Some (False, trie));
     if missing then Some (True, trie1)
     else do {
       n \<leftarrow> node_at trie1 node;
       (case tn_suffix_link n of
          None \<Rightarrow> Some (False, trie1)
        | Some suffix_link \<Rightarrow> do {
            (c, trie2) \<leftarrow> GetChild suffix_link word_id trie1;
            Some (c = None, trie2) }) } }"

definition RequiresLookup :: "nat \<Rightarrow> int \<Rightarrow> trie \<Rightarrow> bool option" where
  "RequiresLookup node word_id trie = map_option Not (HasChild node word_id trie)"

definition AddTrailingNonterminal ::
  "'d factory \<Rightarrow> vocabulary \<Rightarrow> int list \<Rightarrow> phrase \<Rightarrow> nat \<Rightarrow> bool \<Rightarrow> trie \<Rightarrow> trie option" where
  "AddTrailingNonterminal f voc symbols prefix prefix_node starts_with_x trie =
     (if rf_max_nonterminals f \<le> Arity prefix then Some trie
      else do {
        let var_id = GetNonterminalIndex (Arity prefix + 1);
        var_phrase \<leftarrow> Build voc (symbols @ [var_id]);
        let suffix_var_id = GetNonterminalIndex (Arity prefix + of_bool (\<not> starts_with_x));
        p \<leftarrow> node_at trie prefix_node;
        link \<leftarrow> tn_suffix_link p;
        (var_suffix_link, trie1) \<leftarrow> GetChild link suffix_var_id trie;
        p1 \<leftarrow> node_at trie1 prefix_node;
        let (a, trie2) = make_node (new_node var_suffix_link var_phrase (tn_matchings p1)) trie1;
        AddChild prefix_node var_id (Some a) trie2 })"

text \<open>The states of the last loop of \<open>ExtendState\<close>: the positions \<open>i\<close> within the span.\<close>

definition ExtendState ::
  "'d factory \<Rightarrow> int list \<Rightarrow> state \<Rightarrow> int list \<Rightarrow> phrase \<Rightarrow> nat option \<Rightarrow> trie \<Rightarrow> (state list \<times> trie) option" where
  "ExtendState f word_ids s symbols phrase node trie =
     (if rf_max_rule_symbols f \<le> vsize symbols \<or> vsize word_ids \<le> st_end s + 1 \<or>
         rf_max_rule_span f \<le> st_end s - st_start s then Some ([], trie)
      else do {
        let next_state = \<lparr>st_start = st_start s, st_end = st_end s + 1, st_phrase = symbols,
          st_subpatterns_start = st_subpatterns_start s, st_node = node, st_starts_with_x = st_starts_with_x s\<rparr>;
        let num_subpatterns = Arity phrase + of_bool (\<not> st_starts_with_x s);
        if rf_max_rule_symbols f \<le> vsize symbols + 1 \<or> rf_max_nonterminals f \<le> Arity phrase \<or>
           rf_max_chunks f \<le> num_subpatterns then Some ([next_state], trie)
        else do {
          let var_id = GetNonterminalIndex (Arity phrase + 1);
          for_each (int_range (st_end s + 1 + int (rf_min_gap_size f))
              (min (vsize word_ids) (st_start s + rf_max_rule_span f + 1))) (\<lambda>i (new_states, trie). do {
            a \<leftarrow> node;
            (c, trie1) \<leftarrow> GetChild a var_id trie;
            Some (new_states @ [\<lparr>st_start = st_start s, st_end = i, st_phrase = symbols @ [var_id],
              st_subpatterns_start = st_subpatterns_start s @ [i], st_node = c,
              st_starts_with_x = st_starts_with_x s\<rparr>], trie1) }) ([next_state], trie) } })"

text \<open>The occurrences of the next phrase; the lookups normalize the locations of the nodes.\<close>

definition find_location ::
  "'d factory \<Rightarrow> vocabulary \<Rightarrow> state \<Rightarrow> nat \<Rightarrow> nat \<Rightarrow> phrase \<Rightarrow> int \<Rightarrow> trie \<Rightarrow> (phrase_location \<times> trie) option" where
  "find_location f voc s node next_suffix_link next_phrase word_id trie = do {
     n \<leftarrow> node_at trie node;
     if 0 < Arity next_phrase then do {
       l \<leftarrow> node_at trie next_suffix_link;
       (location, prefix_location, suffix_location) \<leftarrow> Intersect (rf_intersector f) voc (tn_matchings n) (tn_matchings l) next_phrase;
       trie1 \<leftarrow> set_matchings node prefix_location trie;
       trie2 \<leftarrow> set_matchings next_suffix_link suffix_location trie1;
       Some (location, trie2) }
     else do {
       w \<leftarrow> GetTerminalValue voc word_id;
       (location, prefix_location) \<leftarrow> Find (rf_suffix_array f) (tn_matchings n) w (vsize (st_phrase s));
       trie1 \<leftarrow> set_matchings node prefix_location trie;
       Some (location, trie1) } }"

text \<open>
  The part of the loop for a phrase that is not cached; \<open>None\<close> as the node is \<open>continue\<close>.
\<close>

definition look_up ::
  "'d floats \<Rightarrow> 'd factory \<Rightarrow> (int \<Rightarrow> bool) \<Rightarrow> state \<Rightarrow> nat \<Rightarrow> int list \<Rightarrow> phrase \<Rightarrow> int \<Rightarrow> 'd world \<Rightarrow>
   (nat option \<times> 'd world) option" where
  "look_up fl f blacklist s node phrase next_phrase word_id = (\<lambda>(trie, voc, rules). do {
     n \<leftarrow> node_at trie node;
     (link, trie1) \<leftarrow> (case tn_suffix_link n of
         None \<Rightarrow> Some (Some 0, trie)
       | Some a \<Rightarrow> GetChild a word_id trie);
     next_suffix_link \<leftarrow> link;
     l \<leftarrow> node_at trie1 next_suffix_link;
     (location, trie2) \<leftarrow> (if st_starts_with_x s then Some (tn_matchings l, trie1)
       else find_location f voc s node next_suffix_link next_phrase word_id trie1);
     empty \<leftarrow> (if st_starts_with_x s then Some False else LocationIsEmpty location);
     if empty then Some (None, (trie2, voc, rules))
     else do {
       let (next_node, trie3) = make_node (new_node (Some next_suffix_link) next_phrase location) trie2;
       trie4 \<leftarrow> AddChild node word_id (Some next_node) trie3;
       trie5 \<leftarrow> AddTrailingNonterminal f voc phrase next_phrase next_node (st_starts_with_x s) trie4;
       if st_starts_with_x s then Some (Some next_node, (trie5, voc, rules))
       else do {
         sample \<leftarrow> Sample fl (rf_suffix_array f) (rf_max_samples f) location blacklist;
         (voc1, new_rules) \<leftarrow> ExtractRules fl (rf_extractor f) (rf_scorer f) next_phrase sample voc;
         Some (Some next_node, (trie5, voc1, rules @ new_rules)) } } })"

definition process_state ::
  "'d floats \<Rightarrow> 'd factory \<Rightarrow> (int \<Rightarrow> bool) \<Rightarrow> int list \<Rightarrow> state \<Rightarrow> 'd world \<Rightarrow> (state list \<times> 'd world) option" where
  "process_state fl f blacklist word_ids s = (\<lambda>(trie, voc, rules). do {
     word_id \<leftarrow> vat word_ids (st_end s);
     let phrase = st_phrase s @ [word_id];
     next_phrase \<leftarrow> Build voc phrase;
     node \<leftarrow> st_node s;
     (cannot, trie1) \<leftarrow> CannotHaveMatchings node word_id trie;
     if cannot then do {
       has \<leftarrow> HasChild node word_id trie1;
       trie2 \<leftarrow> (if has then Some trie1 else AddChild node word_id None trie1);
       Some ([], (trie2, voc, rules)) }
     else do {
       lookup \<leftarrow> RequiresLookup node word_id trie1;
       (next_node, (trie2, voc1, rules1)) \<leftarrow>
         (if lookup then map_option (\<lambda>(a, w). (map_option Some a, w))
            (look_up fl f blacklist s node phrase next_phrase word_id (trie1, voc, rules))
          else map_option (\<lambda>(c, t). (Some c, (t, voc, rules))) (GetChild node word_id trie1));
       (case next_node of
         None \<Rightarrow> Some ([], (trie2, voc1, rules1))
       | Some child \<Rightarrow> do {
           (new_states, trie3) \<leftarrow> ExtendState f word_ids s phrase next_phrase child trie2;
           Some (new_states, (trie3, voc1, rules1)) }) } })"

lemma ExtendState_ends:
  assumes "ExtendState f word_ids s symbols phrase node trie = Some (new_states, trie')" "s' \<in> set new_states"
  shows "st_end s < st_end s' \<and> st_end s' < vsize word_ids"
proof -
  have loop: "\<forall>s' \<in> set (fst t). st_end s < st_end s' \<and> st_end s' < vsize word_ids"
    if run: "for_each (int_range (st_end s + 1 + int (rf_min_gap_size f))
        (min (vsize word_ids) (st_start s + rf_max_rule_span f + 1))) (\<lambda>i (new_states, trie). do {
      a \<leftarrow> node; (c, trie1) \<leftarrow> GetChild a var_id trie;
      Some (new_states @ [\<lparr>st_start = st_start s, st_end = i, st_phrase = symbols @ [var_id],
        st_subpatterns_start = st_subpatterns_start s @ [i], st_node = c, st_starts_with_x = st_starts_with_x s\<rparr>], trie1) })
      st = Some t" and st: "\<forall>s' \<in> set (fst st). st_end s < st_end s' \<and> st_end s' < vsize word_ids" for st t var_id
  proof (rule for_each_keeps [OF run, where P = "\<lambda>st. \<forall>s' \<in> set (fst st). st_end s < st_end s' \<and> st_end s' < vsize word_ids"])
    show "\<forall>s' \<in> set (fst st). st_end s < st_end s' \<and> st_end s' < vsize word_ids" by (rule st)
  qed (auto simp: bind_Some_iff)
  show ?thesis
  proof (cases "rf_max_rule_symbols f \<le> vsize symbols \<or> vsize word_ids \<le> st_end s + 1 \<or> rf_max_rule_span f \<le> st_end s - st_start s")
    case True
    then show ?thesis using assms by (auto simp: ExtendState_def)
  next
    case False
    then show ?thesis using assms loop
      by (fastforce simp: ExtendState_def Let_def split: if_splits)
  qed
qed

lemma process_state_ends:
  assumes "process_state fl f blacklist word_ids s w = Some (new_states, w')" "s' \<in> set new_states"
  shows "st_end s < st_end s' \<and> st_end s' < vsize word_ids"
proof -
  obtain trie voc rules where w: "w = (trie, voc, rules)" by (cases w rule: prod_cases3)
  have "returns (process_state fl f blacklist word_ids s w)
      (\<lambda>r. \<forall>s' \<in> set (fst r). st_end s < st_end s' \<and> st_end s' < vsize word_ids)"
    unfolding process_state_def w prod.case Let_def
    apply (intro run_intros)
    apply (auto intro!: run_intros split: prod.split option.split)
     apply (drule (1) ExtendState_ends, simp)
    apply (drule (1) ExtendState_ends, simp)
    done
  from returnsD [OF this assms(1)] show ?thesis using assms(2) by auto
qed

text \<open>
  The loop over the queue. It ends because the states that a state adds end later in the
  sentence: the measure is the multiset of the distances to the end.
\<close>

definition queue_measure :: "int list \<Rightarrow> state list \<Rightarrow> nat multiset" where
  "queue_measure word_ids states = mset (map (\<lambda>s. nat (vsize word_ids - st_end s)) states)"

function run_queue ::
  "'d floats \<Rightarrow> 'd factory \<Rightarrow> (int \<Rightarrow> bool) \<Rightarrow> int list \<Rightarrow> state list \<Rightarrow> 'd world \<Rightarrow> 'd world option" where
  "run_queue fl f blacklist word_ids [] w = Some w"
| "run_queue fl f blacklist word_ids (s # states) w =
     (case process_state fl f blacklist word_ids s w of
        None \<Rightarrow> None
      | Some (new_states, w') \<Rightarrow> run_queue fl f blacklist word_ids (states @ new_states) w')"
  by pat_completeness auto
termination
proof (relation "inv_image (mult less_than) (\<lambda>(fl, f, b, word_ids, states, w). queue_measure word_ids states)")
  show "wf (inv_image (mult less_than) (\<lambda>(fl, f, b, word_ids, states, w). queue_measure word_ids states))"
    by (intro wf_inv_image wf_mult wf_less_than)
next
  fix fl :: "'d floats" and f blacklist word_ids s states w r new_states w'
  assume "process_state fl f blacklist word_ids s w = Some r" "(new_states, w') = r"
  then have step: "process_state fl f blacklist word_ids s w = Some (new_states, w')" by simp
  have "(queue_measure word_ids (states @ new_states), queue_measure word_ids (s # states)) \<in> mult less_than"
  proof -
    let ?m = "\<lambda>s. nat (vsize word_ids - st_end s)"
    have "(mset (map ?m states) + mset (map ?m new_states), mset (map ?m states) + {#?m s#}) \<in> mult less_than"
    proof (rule one_step_implies_mult)
      show "\<forall>k \<in># mset (map ?m new_states). \<exists>j \<in># {#?m s#}. (k, j) \<in> less_than"
        using process_state_ends [OF step] by fastforce
    qed simp
    then show ?thesis by (simp add: queue_measure_def)
  qed
  then show "((fl, f, blacklist, word_ids, states @ new_states, w'), (fl, f, blacklist, word_ids, s # states, w))
      \<in> inv_image (mult less_than) (\<lambda>(fl, f, b, word_ids, states, w). queue_measure word_ids states)"
    by simp
qed

declare run_queue.simps [simp del]

definition initial_states :: "'d factory \<Rightarrow> int list \<Rightarrow> state list" where
  "initial_states f word_ids =
     map (\<lambda>i. \<lparr>st_start = i, st_end = i, st_phrase = [], st_subpatterns_start = [i], st_node = Some 0,
       st_starts_with_x = False\<rparr>) (int_range 0 (vsize word_ids)) @
     map (\<lambda>i. \<lparr>st_start = i - int (rf_min_gap_size f), st_end = i, st_phrase = [GetNonterminalIndex 1],
       st_subpatterns_start = [i], st_node = Some 1, st_starts_with_x = True\<rparr>)
       (int_range (int (rf_min_gap_size f)) (vsize word_ids))"

definition search ::
  "'d floats \<Rightarrow> 'd factory \<Rightarrow> (int \<Rightarrow> bool) \<Rightarrow> int list \<Rightarrow> vocabulary \<Rightarrow> 'd world option" where
  "search fl f blacklist word_ids voc = do {
     let (x_root, trie) = make_node (new_node (Some 0) empty_phrase (PhraseLocation_range (-1) (-1))) empty_trie;
     trie1 \<leftarrow> AddChild 0 (GetNonterminalIndex 1) (Some x_root) trie;
     run_queue fl f blacklist word_ids (initial_states f word_ids) (trie1, voc, []) }"

definition GetGrammar ::
  "'d floats \<Rightarrow> 'd factory \<Rightarrow> (int \<Rightarrow> bool) \<Rightarrow> int list \<Rightarrow> vocabulary \<Rightarrow> (vocabulary \<times> 'd grammar) option" where
  "GetGrammar fl f blacklist word_ids voc = do {
     (_, voc1, rules) \<leftarrow> search fl f blacklist word_ids voc;
     Some (voc1, \<lparr>gr_rules = rules, gr_feature_names = GetFeatureNames (rf_scorer f)\<rparr>) }"

section \<open>GrammarExtractor\<close>

definition TokenizeSentence :: "string \<Rightarrow> string list" where
  "TokenizeSentence sentence = [''<s>''] @ words_of sentence @ [''</s>'']"

primrec AnnotateWords :: "string list \<Rightarrow> vocabulary \<Rightarrow> int list \<times> vocabulary" where
  "AnnotateWords [] voc = ([], voc)"
| "AnnotateWords (word # words) voc = (let (i, voc1) = GetTerminalIndex word voc; (is, voc2) = AnnotateWords words voc1
     in (i # is, voc2))"

definition ExtractGrammar ::
  "'d floats \<Rightarrow> 'd factory \<Rightarrow> string \<Rightarrow> (int \<Rightarrow> bool) \<Rightarrow> vocabulary \<Rightarrow> (vocabulary \<times> 'd grammar) option" where
  "ExtractGrammar fl f sentence blacklist voc =
     (let (word_ids, voc1) = AnnotateWords (TokenizeSentence sentence) voc
      in GetGrammar fl f blacklist word_ids voc1)"

section \<open>The states of the search\<close>

text \<open>The states that are ever queued for a sentence, whatever the store holds.\<close>

inductive queued :: "'d floats \<Rightarrow> 'd factory \<Rightarrow> (int \<Rightarrow> bool) \<Rightarrow> int list \<Rightarrow> state \<Rightarrow> bool" for fl f blacklist word_ids where
  queued_initial: "s \<in> set (initial_states f word_ids) \<Longrightarrow> queued fl f blacklist word_ids s"
| queued_step: "queued fl f blacklist word_ids s \<Longrightarrow> process_state fl f blacklist word_ids s w = Some (new_states, w') \<Longrightarrow>
    s' \<in> set new_states \<Longrightarrow> queued fl f blacklist word_ids s'"

definition state_ok :: "'d factory \<Rightarrow> int list \<Rightarrow> state \<Rightarrow> bool" where
  "state_ok f word_ids s \<longleftrightarrow> 0 \<le> st_start s \<and> st_start s \<le> st_end s \<and> st_end s < vsize word_ids \<and>
     st_end s - st_start s \<le> rf_max_rule_span f \<and>
     vsize (st_phrase s) < rf_max_rule_symbols f \<and> num_gaps (st_phrase s) \<le> rf_max_nonterminals f"

lemma Build_result:
  assumes "Build v symbols = Some p"
  shows "ph_symbols p = symbols \<and> Arity p = num_gaps symbols"
proof -
  let ?body = "\<lambda>i p. do {
       s \<leftarrow> vat symbols i;
       if IsTerminal s then do {
         w \<leftarrow> GetTerminalValue v s; Some (p\<lparr>ph_words := ph_words p @ [w]\<rparr>) }
       else Some (p\<lparr>ph_var_pos := ph_var_pos p @ [i]\<rparr>) }"
  have "ph_symbols p = symbols \<and> vsize (ph_var_pos p) = num_gaps (take (nat (vsize symbols)) symbols)"
  proof (rule for_range_inv [OF assms [unfolded Build_def],
      where I = "\<lambda>i p. ph_symbols p = symbols \<and> vsize (ph_var_pos p) = num_gaps (take (nat i) symbols)"])
    fix i q q' assume i: "0 \<le> i" "i < vsize symbols" and I: "ph_symbols q = symbols \<and> vsize (ph_var_pos q) = num_gaps (take (nat i) symbols)"
      and run: "?body i q = Some q'"
    have n: "nat i < length symbols" using i by (simp add: vsize_def)
    have at: "vat symbols i = Some (symbols ! nat i)" using i by (simp add: vat_def vsize_def)
    have "take (nat (i + 1)) symbols = take (nat i) symbols @ [symbols ! nat i]"
      using i(1) n by (simp add: nat_add_distrib take_Suc_conv_app_nth)
    then show "ph_symbols q' = symbols \<and> vsize (ph_var_pos q') = num_gaps (take (nat (i + 1)) symbols)"
      using run I by (auto simp: at num_gaps_def bind_Some_iff split: if_splits)
  qed (simp_all add: num_gaps_def empty_phrase_def)
  then show ?thesis by (simp add: Arity_def vsize_def)
qed

lemma num_gaps_snoc [simp]:
  "num_gaps (xs @ [x]) = num_gaps xs + of_bool (\<not> IsTerminal x)"
  by (simp add: num_gaps_def)

lemma ExtendState_ok:
  assumes "state_ok f word_ids s" "Arity phrase = num_gaps symbols"
    "num_gaps symbols \<le> rf_max_nonterminals f"
    "ExtendState f word_ids s symbols phrase node trie = Some (new_states, trie')" "s' \<in> set new_states"
  shows "state_ok f word_ids s'"
proof (cases "rf_max_rule_symbols f \<le> vsize symbols \<or> vsize word_ids \<le> st_end s + 1 \<or> rf_max_rule_span f \<le> st_end s - st_start s")
  case True
  then show ?thesis using assms(4,5) by (auto simp: ExtendState_def)
next
  case False
  define next_state where "next_state = \<lparr>st_start = st_start s, st_end = st_end s + 1, st_phrase = symbols,
          st_subpatterns_start = st_subpatterns_start s, st_node = node, st_starts_with_x = st_starts_with_x s\<rparr>"
  have ok: "state_ok f word_ids next_state" using assms(1,3) False by (auto simp: state_ok_def next_state_def)
  show ?thesis
  proof (cases "rf_max_rule_symbols f \<le> vsize symbols + 1 \<or> rf_max_nonterminals f \<le> Arity phrase \<or>
           rf_max_chunks f \<le> Arity phrase + of_bool (\<not> st_starts_with_x s)")
    case True
    then show ?thesis using assms(4,5) False ok by (auto simp: ExtendState_def Let_def next_state_def)
  next
    case more: False
    define var_id where "var_id = GetNonterminalIndex (Arity phrase + 1)"
    have loop: "\<forall>s' \<in> set (fst t). state_ok f word_ids s'"
      if run: "for_each (int_range (st_end s + 1 + int (rf_min_gap_size f))
          (min (vsize word_ids) (st_start s + rf_max_rule_span f + 1))) (\<lambda>i (new_states, trie). do {
        a \<leftarrow> node; (c, trie1) \<leftarrow> GetChild a var_id trie;
        Some (new_states @ [\<lparr>st_start = st_start s, st_end = i, st_phrase = symbols @ [var_id],
          st_subpatterns_start = st_subpatterns_start s @ [i], st_node = c, st_starts_with_x = st_starts_with_x s\<rparr>], trie1) })
        ([next_state], trie) = Some t" for t
    proof (rule for_each_keeps [OF run, where P = "\<lambda>st. \<forall>s' \<in> set (fst st). state_ok f word_ids s'"])
      fix i and u u' :: "state list \<times> trie"
      assume i: "i \<in> set (int_range (st_end s + 1 + int (rf_min_gap_size f)) (min (vsize word_ids) (st_start s + rf_max_rule_span f + 1)))"
        and u: "\<forall>s' \<in> set (fst u). state_ok f word_ids s'"
        and run: "(case u of (new_states, trie) \<Rightarrow> do {
        a \<leftarrow> node; (c, trie1) \<leftarrow> GetChild a var_id trie;
        Some (new_states @ [\<lparr>st_start = st_start s, st_end = i, st_phrase = symbols @ [var_id],
          st_subpatterns_start = st_subpatterns_start s @ [i], st_node = c, st_starts_with_x = st_starts_with_x s\<rparr>], trie1) }) = Some u'"
      obtain c where "fst u' = fst u @ [\<lparr>st_start = st_start s, st_end = i, st_phrase = symbols @ [var_id],
          st_subpatterns_start = st_subpatterns_start s @ [i], st_node = c, st_starts_with_x = st_starts_with_x s\<rparr>]"
        using run by (auto simp: bind_Some_iff split: prod.splits)
      then show "\<forall>s' \<in> set (fst u'). state_ok f word_ids s'"
        using u i assms(1-3) more by (auto simp: state_ok_def)
    qed (use ok in simp)
    show ?thesis using assms(4,5) False more loop
      by (auto simp: ExtendState_def Let_def next_state_def [symmetric] var_id_def [symmetric])
  qed
qed

lemma process_state_ok:
  assumes "process_state fl f blacklist word_ids s w = Some (new_states, w')" "s' \<in> set new_states"
    "state_ok f word_ids s" "\<forall>x \<in> set word_ids. 0 \<le> x"
  shows "state_ok f word_ids s'"
proof -
  obtain trie voc rules where w: "w = (trie, voc, rules)" by (cases w rule: prod_cases3)
  have ext: "\<forall>s' \<in> set ns. state_ok f word_ids s'"
    if "vat word_ids (st_end s) = Some x" "Build voc (st_phrase s @ [x]) = Some p"
      "ExtendState f word_ids s (st_phrase s @ [x]) p child t = Some (ns, t')" for x p child t ns t'
  proof -
    have "IsTerminal x" using vat_in_set [OF that(1)] assms(4) by (simp add: IsTerminal_def)
    then have "num_gaps (st_phrase s @ [x]) \<le> rf_max_nonterminals f" using assms(3) by (simp add: state_ok_def)
    then show ?thesis using ExtendState_ok [OF assms(3) conjunct2 [OF Build_result [OF that(2)]] _ that(3)] by blast
  qed
  have "returns (process_state fl f blacklist word_ids s w) (\<lambda>r. \<forall>s' \<in> set (fst r). state_ok f word_ids s')"
    unfolding process_state_def w prod.case Let_def
    apply (intro run_intros)
    apply (auto intro!: run_intros split: prod.split option.split)
    apply (drule (2) ext, simp)
    done
  from returnsD [OF this assms(1)] show ?thesis using assms(2) by auto
qed

text \<open>
  C10. Every state that is ever queued lies inside the sentence, spans at most \<open>max_rule_span\<close> more
  positions than its first, has room for its next word within \<open>max_rule_symbols\<close> and no more
  nonterminals than allowed.
\<close>

theorem queued_states_ok:
  assumes "queued fl f blacklist word_ids s" "\<forall>x \<in> set word_ids. 0 \<le> x"
    and "1 \<le> rf_max_nonterminals f" "2 \<le> rf_max_rule_symbols f" "int (rf_min_gap_size f) \<le> rf_max_rule_span f"
  shows "0 \<le> st_start s \<and> st_start s \<le> st_end s \<and> st_end s < vsize word_ids \<and>
     st_end s - st_start s \<le> rf_max_rule_span f \<and>
     vsize (st_phrase s) < rf_max_rule_symbols f \<and> num_gaps (st_phrase s) \<le> rf_max_nonterminals f"
proof -
  have "state_ok f word_ids s"
    using assms(1)
  proof (induction rule: queued.induct)
    case (queued_initial s)
    then show ?case using assms(3-5)
      by (auto simp: initial_states_def state_ok_def num_gaps_def IsTerminal_def GetNonterminalIndex_def)
  next
    case (queued_step s w new_states w' s')
    then show ?case using process_state_ok assms(2) by blast
  qed
  then show ?thesis by (simp add: state_ok_def)
qed

section \<open>A corpus to run on\<close>

definition demo_corpus :: data_array where
  "demo_corpus = DataArray_of_file [''x a b y'']"

definition demo_extractor :: rule_extractor where
  "demo_extractor =
     (let links = [[(0, 0), (1, 1), (2, 2), (3, 3)]];
        h = \<lparr>rh_source = demo_corpus, rh_target = demo_corpus, rh_alignment = links,
          rh_max_rule_span = 15, rh_max_rule_symbols = 5, rh_require_aligned_terminal = True,
          rh_require_aligned_chunks = False, rh_require_tight_phrases = True\<rparr>
      in \<lparr>rx_source_data = demo_corpus,
        rx_target_extractor = \<lparr>tx_data = demo_corpus, tx_alignment = links, tx_helper = h,
          tx_max_rule_span = 15, tx_require_tight_phrases = True\<rparr>,
        rx_helper = h, rx_max_rule_span = 15, rx_min_gap_size = 1, rx_max_nonterminals = 2,
        rx_max_rule_symbols = 5, rx_require_tight_phrases = True\<rparr>)"

definition demo_factory :: "rat factory" where
  "demo_factory =
     (let sa = \<lparr>sa_data = demo_corpus, sa_array = [4, 3, 0, 1, 2], sa_word_start = [0, 1, 2, 3, 4, 5]\<rparr>
      in \<lparr>rf_suffix_array = sa,
        rf_intersector = \<lparr>fi_suffix_array = sa, fi_index = Map.empty, fi_max_rule_span = 15, fi_min_gap_size = 1\<rparr>,
        rf_extractor = demo_extractor, rf_scorer = [], rf_max_samples = 300, rf_min_gap_size = 1,
        rf_max_rule_span = 15, rf_max_nonterminals = 2, rf_max_chunks = 3, rf_max_rule_symbols = 5\<rparr>)"

lemma queued_states_ok_witness:
  "let s = \<lparr>st_start = 1, st_end = 1, st_phrase = [], st_subpatterns_start = [1], st_node = Some 0, st_starts_with_x = False\<rparr>
     in 0 \<le> st_start s \<and> st_end s < vsize [0 :: int, 1, 2] \<and> vsize (st_phrase s) < rf_max_rule_symbols demo_factory"
proof -
  let ?s = "\<lparr>st_start = 1, st_end = 1, st_phrase = [], st_subpatterns_start = [1], st_node = Some 0, st_starts_with_x = False\<rparr>"
  have "queued (exact id) demo_factory (\<lambda>_. False) [0, 1, 2] ?s"
    by (rule queued_initial) (simp add: initial_states_def int_range_def vsize_def)
  from queued_states_ok [OF this] show ?thesis by (simp add: demo_factory_def Let_def)
qed

end
