(* ===== verification/TrieLinks.thy ===== *)
theory TrieLinks
  imports RuleFactory
begin

text \<open>
  The invariant of the trie that \<open>GetGrammar\<close> fills: the path to a node spells its phrase, its
  suffix link leads to the phrase without its first symbol, and no pointer that the search follows
  is null. The node of the single nonterminal, at address 1, has no phrase of its own.
\<close>

definition node_symbols :: "trie \<Rightarrow> nat \<Rightarrow> int list" where
  "node_symbols t a = (if a = 1 then [GetNonterminalIndex 1] else ph_symbols (tn_phrase (t ! a)))"

text \<open>The symbols after which a nonterminal may follow.\<close>

definition gap_may_follow :: "int list \<Rightarrow> bool" where
  "gap_may_follow ss \<longleftrightarrow> ss = [] \<or> IsTerminal (last ss)"

definition next_gap :: "int list \<Rightarrow> int" where
  "next_gap ss = GetNonterminalIndex (num_gaps ss + 1)"

text \<open>One node; \<open>open\<close> nodes are those that still wait for their trailing nonterminal.\<close>

definition node_linked :: "trie \<Rightarrow> nat \<Rightarrow> bool" where
  "node_linked t a \<longleftrightarrow> node_symbols t a \<noteq> [] \<and> renumber 0 (node_symbols t a) = node_symbols t a \<and>
     (\<exists>l < length t. tn_suffix_link (t ! a) = Some l \<and> node_symbols t l = renumber 0 (tl (node_symbols t a)))"

definition children_linked :: "trie \<Rightarrow> nat \<Rightarrow> bool" where
  "children_linked t a \<longleftrightarrow> (\<forall>k c. tn_children (t ! a) k = Some (Some c) \<longrightarrow>
     c < length t \<and> node_symbols t c = node_symbols t a @ [k])"

definition gap_added :: "int \<Rightarrow> trie \<Rightarrow> nat \<Rightarrow> bool" where
  "gap_added mx t a \<longleftrightarrow> (gap_may_follow (node_symbols t a) \<and> num_gaps (node_symbols t a) < mx \<longrightarrow>
     (\<exists>c. tn_children (t ! a) (next_gap (node_symbols t a)) = Some (Some c)))"

definition well_linked :: "int \<Rightarrow> nat set \<Rightarrow> trie \<Rightarrow> bool" where
  "well_linked mx waiting t \<longleftrightarrow> 2 \<le> length t \<and> node_symbols t 0 = [] \<and> tn_suffix_link (t ! 0) = None \<and>
     (\<forall>a < length t. (a \<noteq> 0 \<longrightarrow> node_linked t a) \<and> children_linked t a \<and> (a \<notin> waiting \<longrightarrow> gap_added mx t a))"

definition same_nodes :: "trie \<Rightarrow> trie \<Rightarrow> bool" where
  "same_nodes t t' \<longleftrightarrow> length t \<le> length t' \<and> (\<forall>a < length t. node_symbols t' a = node_symbols t a)"

lemma same_nodes_refl [simp]: "same_nodes t t"
  by (simp add: same_nodes_def)

lemma same_nodes_trans: "same_nodes t t' \<Longrightarrow> same_nodes t' t'' \<Longrightarrow> same_nodes t t''"
  by (simp add: same_nodes_def)

lemma num_gaps_renumber [simp]: "0 \<le> n \<Longrightarrow> num_gaps (renumber n ss) = num_gaps ss"
  using arg_cong [OF renumber_gaps [of n ss], of length] by (simp add: num_gaps_def vsize_def)

lemma num_gaps_append [simp]: "num_gaps (xs @ ys) = num_gaps xs + num_gaps ys"
  by (simp add: num_gaps_def)

lemma last_renumber: "0 \<le> n \<Longrightarrow> ss \<noteq> [] \<Longrightarrow> IsTerminal (last (renumber n ss)) = IsTerminal (last ss)"
proof (induction ss arbitrary: n)
  case (Cons s ss)
  show ?case
  proof (cases "ss = []")
    case True
    then show ?thesis using Cons.prems by (simp add: IsTerminal_def)
  next
    case False
    then have "renumber m ss \<noteq> []" for m by (metis length_0_conv length_renumber)
    then show ?thesis using Cons.IH [OF _ False] Cons.prems False by simp
  qed
qed simp

lemma gap_not_terminal [simp]: "0 \<le> num_gaps ss" "\<not> IsTerminal (next_gap ss)"
  by (simp_all add: next_gap_def GetNonterminalIndex_def IsTerminal_def num_gaps_def)

lemma renumber_gap: "renumber 0 (ss @ [next_gap ss]) = renumber 0 ss @ [next_gap ss]"
  by (simp add: renumber_append next_gap_def GetNonterminalIndex_def IsTerminal_def num_gaps_def)

lemma renumber_word: "IsTerminal w \<Longrightarrow> renumber 0 (ss @ [w]) = renumber 0 ss @ [w]"
  by (simp add: renumber_append)

section \<open>Operations on the store\<close>

lemma node_at_Some: "node_at t a = Some n \<longleftrightarrow> a < length t \<and> n = t ! a"
  by (auto simp: node_at_def)

lemma node_symbols_update:
  assumes "tn_phrase n = tn_phrase (t ! a)"
  shows "node_symbols (t[a := n]) b = node_symbols t b"
  using assms by (cases "a < length t") (auto simp: node_symbols_def nth_list_update list_update_beyond)

text \<open>A node gets new children, or new matchings; the rest of it stays.\<close>

lemma well_linked_update:
  assumes wl: "well_linked mx waiting t" and a: "a < length t"
    and n: "tn_phrase n = tn_phrase (t ! a)" "tn_suffix_link n = tn_suffix_link (t ! a)"
    and new: "\<And>k c. tn_children n k = Some (Some c) \<Longrightarrow> tn_children (t ! a) k \<noteq> Some (Some c) \<Longrightarrow>
      c < length t \<and> node_symbols t c = node_symbols t a @ [k]"
    and keep: "a \<notin> waiting \<Longrightarrow> \<forall>k c. tn_children (t ! a) k = Some (Some c) \<longrightarrow> tn_children n k = Some (Some c)"
  shows "well_linked mx waiting (t[a := n])" "same_nodes t (t[a := n])"
proof -
  note sym = node_symbols_update [OF n(1)]
  show "same_nodes t (t[a := n])" by (simp add: same_nodes_def sym)
  have link: "tn_suffix_link (t[a := n] ! b) = tn_suffix_link (t ! b)" for b
    using n(2) a by (cases "a = b") auto
  have "node_linked (t[a := n]) b" if "node_linked t b" for b
    using that by (auto simp: node_linked_def sym link)
  moreover have "children_linked (t[a := n]) b" if "children_linked t b" for b
    unfolding children_linked_def
  proof (intro allI impI)
    fix k c assume c: "tn_children (t[a := n] ! b) k = Some (Some c)"
    have "c < length t \<and> node_symbols t c = node_symbols t b @ [k]"
      using that new [of k c] c a by (cases "a = b") (auto simp: children_linked_def)
    then show "c < length (t[a := n]) \<and> node_symbols (t[a := n]) c = node_symbols (t[a := n]) b @ [k]" by (simp add: sym)
  qed
  moreover have "gap_added mx (t[a := n]) b" if "gap_added mx t b" "b \<notin> waiting" for b
  proof (cases "a = b")
    case True
    then show ?thesis using that keep a unfolding gap_added_def sym by (metis nth_list_update_eq)
  next
    case False
    then show ?thesis using that by (simp add: gap_added_def sym)
  qed
  ultimately show "well_linked mx waiting (t[a := n])"
    using wl link by (simp add: well_linked_def sym)
qed

lemma AddChild_linked:
  assumes wl: "well_linked mx waiting t" and run: "AddChild a key child t = Some t'" and fresh: "tn_children (t ! a) key = None"
    and child: "\<And>c. child = Some c \<Longrightarrow> c < length t \<and> node_symbols t c = node_symbols t a @ [key]"
  shows "well_linked mx waiting t' \<and> same_nodes t t'"
proof -
  have a: "a < length t" and t': "t' = t[a := (t ! a)\<lparr>tn_children := (tn_children (t ! a))(key \<mapsto> child)\<rparr>]"
    using run by (auto simp: AddChild_def bind_Some_iff node_at_Some)
  have "well_linked mx waiting t'" unfolding t'
    by (rule well_linked_update(1) [OF wl a]) (use fresh child in \<open>auto split: if_splits\<close>)
  moreover have "same_nodes t t'" unfolding t'
    by (rule well_linked_update(2) [OF wl a]) (use fresh child in \<open>auto split: if_splits\<close>)
  ultimately show ?thesis by simp
qed

lemma set_matchings_linked:
  assumes "well_linked mx waiting t" "set_matchings a l t = Some t'"
  shows "well_linked mx waiting t' \<and> same_nodes t t'"
proof -
  have "a < length t" "t' = t[a := (t ! a)\<lparr>tn_matchings := l\<rparr>]"
    using assms(2) by (auto simp: set_matchings_def bind_Some_iff node_at_Some)
  then show ?thesis using well_linked_update [OF assms(1), of a "(t ! a)\<lparr>tn_matchings := l\<rparr>"] by simp
qed

lemma GetChild_linked:
  assumes "well_linked mx waiting t" "GetChild a key t = Some (c, t')"
  shows "well_linked mx waiting t' \<and> same_nodes t t' \<and> a < length t \<and>
    (\<forall>b. c = Some b \<longrightarrow> t' = t \<and> tn_children (t ! a) key = Some (Some b) \<and> b < length t \<and> node_symbols t b = node_symbols t a @ [key])"
  using assms AddChild_linked [OF assms(1), of a key None t']
  by (auto simp: GetChild_def bind_Some_iff node_at_Some well_linked_def children_linked_def split: option.splits)

text \<open>A new node waits for its trailing nonterminal.\<close>

lemma make_node_linked:
  assumes wl: "well_linked mx waiting t" and p: "ph_symbols (tn_phrase n) = ss" "ss \<noteq> []" "renumber 0 ss = ss"
    and l: "tn_suffix_link n = Some l" "l < length t" "node_symbols t l = renumber 0 (tl ss)" and c: "tn_children n = Map.empty"
    and new: "make_node n t = (a, t')"
  shows "well_linked mx (insert a waiting) t'" "same_nodes t t'" "a = length t" "length t' = Suc (length t)" "node_symbols t' a = ss"
    "tn_children (t' ! a) = Map.empty" "tn_suffix_link (t' ! a) = Some l" "\<forall>b < length t. t' ! b = t ! b"
proof -
  show a: "a = length t" and t': "length t' = Suc (length t)" "\<forall>b < length t. t' ! b = t ! b" "tn_children (t' ! a) = Map.empty"
    "tn_suffix_link (t' ! a) = Some l"
    using new c l(1) by (auto simp: make_node_def nth_append)
  have two: "2 \<le> length t" using wl by (simp add: well_linked_def)
  show ss: "node_symbols t' a = ss" using two p(1) new by (auto simp: node_symbols_def make_node_def)
  have sym: "node_symbols t' b = node_symbols t b" if "b < length t" for b
    using that t'(2) by (simp add: node_symbols_def)
  then show "same_nodes t t'" using t'(1) by (simp add: same_nodes_def)
  have "node_linked t' b" if "b < length t" "node_linked t b" for b
    using that t'(1,2) sym by (fastforce simp: node_linked_def less_Suc_eq)
  moreover have "node_linked t' a" using p l(2,3) t' ss sym by (auto simp: node_linked_def)
  moreover have "children_linked t' b" if "b < length t" "children_linked t b" for b
    using that t'(1,2) sym by (auto simp: children_linked_def less_Suc_eq)
  moreover have "children_linked t' a" using t'(3) by (simp add: children_linked_def)
  moreover have "gap_added mx t' b" if "b < length t" "gap_added mx t b" for b
    using that t'(1,2) sym by (simp add: gap_added_def)
  moreover have "node_symbols t' 0 = node_symbols t 0" "t' ! 0 = t ! 0" using sym [of 0] t'(2) two by (cases t, simp, simp)+
  ultimately show "well_linked mx (insert a waiting) t'"
    using wl t'(1) two by (auto simp: well_linked_def a less_Suc_eq)
qed

lemma well_linked_mono: "well_linked mx waiting t \<Longrightarrow> waiting \<subseteq> waiting' \<Longrightarrow> well_linked mx waiting' t"
  by (auto simp: well_linked_def)

lemma well_linked_done:
  assumes "well_linked mx waiting t" "\<And>a. a \<in> waiting \<Longrightarrow> a < length t \<Longrightarrow> gap_added mx t a"
  shows "well_linked mx {} t"
  using assms by (auto simp: well_linked_def)

lemma well_linkedD:
  assumes "well_linked mx waiting t" "a < length t"
  shows "a \<noteq> 0 \<Longrightarrow> node_linked t a" "children_linked t a" "a \<notin> waiting \<Longrightarrow> gap_added mx t a"
  using assms by (auto simp: well_linked_def)

section \<open>The steps of the search\<close>

lemma AddTrailingNonterminal_linked:
  assumes wl: "well_linked (rf_max_nonterminals f) {a} t" and a: "a < length t" "node_symbols t a = ss @ [w]" "IsTerminal w"
    and link: "tn_suffix_link (t ! a) = Some l" "l < length t" "l \<noteq> a" "node_symbols t l = renumber 0 (tl (ss @ [w]))"
    and fresh: "tn_children (t ! a) = Map.empty" and arity: "Arity prefix = num_gaps (ss @ [w])"
    and numbered: "renumber 0 (ss @ [w]) = ss @ [w]"
    and x: "starts_with_x \<longleftrightarrow> ss \<noteq> [] \<and> \<not> IsTerminal (hd ss)"
    and run: "AddTrailingNonterminal f voc (ss @ [w]) prefix a starts_with_x t = Some t'"
  shows "well_linked (rf_max_nonterminals f) {} t' \<and> same_nodes t t'"
proof (cases "rf_max_nonterminals f \<le> num_gaps (ss @ [w])")
  case True
  then have "t' = t" using run arity by (simp add: AddTrailingNonterminal_def)
  moreover have "gap_added (rf_max_nonterminals f) t a" using True a(2) by (simp add: gap_added_def)
  ultimately show ?thesis using well_linked_done [OF wl] by auto
next
  case False
  let ?ss = "ss @ [w]" and ?mx = "rf_max_nonterminals f"
  have tl: "tl ?ss = (if ss = [] then [] else tl ss @ [w])" by (cases ss) auto
  have gaps: "num_gaps (tl ?ss) = num_gaps ?ss - of_bool starts_with_x"
    using a(3) x by (cases ss) (auto simp: IsTerminal_def)
  have key: "GetNonterminalIndex (Arity prefix + of_bool (\<not> starts_with_x)) = next_gap (node_symbols t l)"
    using gaps a(3) by (simp add: link(4) next_gap_def arity)
  have "gap_may_follow (node_symbols t l)"
    using a(3) by (auto simp: gap_may_follow_def link(4) tl renumber_word)
  moreover have "num_gaps (node_symbols t l) < ?mx" using False gaps by (auto simp: link(4))
  ultimately obtain c where c: "tn_children (t ! l) (next_gap (node_symbols t l)) = Some (Some c)"
    using well_linkedD(3) [OF wl link(2)] link(3) by (auto simp: gap_added_def)
  then have c_node: "c < length t" "node_symbols t c = node_symbols t l @ [next_gap (node_symbols t l)]"
    using well_linkedD(2) [OF wl link(2)] by (auto simp: children_linked_def)
  have child: "GetChild l (next_gap (node_symbols t l)) t = Some (Some c, t)"
    using link(2) c by (simp add: GetChild_def node_at_def)
  define var where "var = GetNonterminalIndex (Arity prefix + 1)"
  have var: "var = next_gap ?ss" by (simp add: var_def next_gap_def arity)
  have child': "GetChild l (GetNonterminalIndex (Arity prefix + of_bool (\<not> starts_with_x))) t = Some (Some c, t)"
    using child key by simp
  have le: "\<not> ?mx \<le> Arity prefix" using False arity by simp
  obtain var_phrase where phrase: "Build voc (?ss @ [var]) = Some var_phrase"
    and add: "AddChild a var (Some (length t)) (t @ [new_node (Some c) var_phrase (tn_matchings (t ! a))]) = Some t'"
    using run a(1) link(1)
    by (auto simp: AddTrailingNonterminal_def le child' bind_Some_iff node_at_Some make_node_def simp flip: var_def)
  let ?n = "new_node (Some c) var_phrase (tn_matchings (t ! a))"
  have new: "make_node ?n t = (length t, t @ [?n])" by (simp add: make_node_def)
  have sub: "well_linked ?mx (insert (length t) {a}) (t @ [?n])" "same_nodes t (t @ [?n])"
    "node_symbols (t @ [?n]) (length t) = ?ss @ [var]"
  proof -
    have sym: "ph_symbols (tn_phrase ?n) = ?ss @ [var]" using Build_result [OF phrase] by (simp add: new_node_def)
    have num: "renumber 0 (?ss @ [var]) = ?ss @ [var]" using numbered renumber_gap [of ?ss] by (simp only: var)
    have vars: "var = next_gap (tl ?ss)" if "\<not> starts_with_x" using gaps that by (simp add: var next_gap_def)
    have "next_gap (node_symbols t l) = next_gap (tl ?ss)" by (simp add: link(4) next_gap_def)
    moreover have "renumber 0 (tl (?ss @ [var])) = renumber 0 (tl ?ss) @ [next_gap (tl ?ss)]"
    proof -
      have "tl (?ss @ [var]) = tl ?ss @ [var]" by (cases ss) auto
      moreover have "\<not> IsTerminal var" by (simp only: var gap_not_terminal not_False_eq_True)
      ultimately show ?thesis by (simp only: renumber_append renumber.simps next_gap_def GetNonterminalIndex_def if_False add_0)
    qed
    ultimately have suffix: "node_symbols t c = renumber 0 (tl (?ss @ [var]))" using c_node(2) link(4) by simp
    note facts = make_node_linked [OF wl sym _ num _ c_node(1) suffix _ new]
    show "well_linked ?mx (insert (length t) {a}) (t @ [?n])" "same_nodes t (t @ [?n])"
      "node_symbols (t @ [?n]) (length t) = ?ss @ [var]"
      using facts by (simp_all add: new_node_def)
  qed
  have a_sym: "node_symbols (t @ [?n]) a = ?ss" using sub(2) a(1,2) by (simp add: same_nodes_def)
  have added: "well_linked ?mx (insert (length t) {a}) t'" "same_nodes (t @ [?n]) t'"
    using AddChild_linked [OF sub(1) add] a(1) fresh sub(3) a_sym by (auto simp: nth_append)
  have "gap_added ?mx t' (length t)"
  proof -
    have "node_symbols t' (length t) = ?ss @ [var]" using added(2) sub(3) by (simp add: same_nodes_def)
    then show ?thesis by (simp add: gap_added_def gap_may_follow_def var)
  qed
  moreover have "gap_added ?mx t' a"
  proof -
    have "node_symbols t' a = ?ss" using added(2) a_sym a(1) by (simp add: same_nodes_def)
    moreover have "tn_children (t' ! a) var = Some (Some (length t))"
      using add a(1) by (auto simp: AddChild_def bind_Some_iff node_at_Some nth_append)
    ultimately show ?thesis by (auto simp: gap_added_def var)
  qed
  ultimately show ?thesis
    using well_linked_done [OF added(1)] same_nodes_trans [OF sub(2) added(2)] by auto
qed

definition state_linked :: "trie \<Rightarrow> state \<Rightarrow> bool" where
  "state_linked t s \<longleftrightarrow> (\<exists>a < length t. st_node s = Some a \<and> node_symbols t a = st_phrase s) \<and>
     (st_starts_with_x s \<longleftrightarrow> st_phrase s \<noteq> [] \<and> \<not> IsTerminal (hd (st_phrase s)))"

lemma state_linked_same: "state_linked t s \<Longrightarrow> same_nodes t t' \<Longrightarrow> state_linked t' s"
  by (fastforce simp: state_linked_def same_nodes_def)

lemma find_location_linked:
  assumes "find_location f voc s node l p word_id t = Some (location, t')" "well_linked mx waiting t"
  shows "well_linked mx waiting t' \<and> same_nodes t t'"
proof (cases "0 < Arity p")
  case True
  then obtain t1 a b where "set_matchings node a t = Some t1" "set_matchings l b t1 = Some t'"
    using assms(1) by (auto simp: find_location_def bind_Some_iff)
  then show ?thesis using set_matchings_linked [OF assms(2)] set_matchings_linked same_nodes_trans by metis
next
  case False
  then obtain a where "set_matchings node a t = Some t'"
    using assms(1) by (auto simp: find_location_def bind_Some_iff)
  then show ?thesis using set_matchings_linked [OF assms(2)] by blast
qed

lemma look_up_linked:
  assumes wl: "well_linked (rf_max_nonterminals f) {} t" and s: "state_linked t s" "st_node s = Some node"
    and w: "IsTerminal w" and fresh: "tn_children (t ! node) w = None"
    and next_phrase: "Build voc (st_phrase s @ [w]) = Some next_phrase"
    and run: "look_up fl f blacklist s node (st_phrase s @ [w]) next_phrase w (t, voc, rules) = Some (child, (t', voc', rules'))"
  shows "well_linked (rf_max_nonterminals f) {} t' \<and> same_nodes t t' \<and>
    (\<forall>c. child = Some c \<longrightarrow> c < length t' \<and> node_symbols t' c = st_phrase s @ [w])"
proof -
  let ?mx = "rf_max_nonterminals f" and ?ss = "st_phrase s @ [w]"
  have node: "node < length t" "node_symbols t node = st_phrase s" using s by (auto simp: state_linked_def)
  have numbered: "renumber 0 ?ss = ?ss"
    using well_linkedD(1) [OF wl node(1)] wl w node(2) by (cases "node = 0") (auto simp: node_linked_def renumber_word well_linked_def)
  have "\<exists>t1 l location t2. (case tn_suffix_link (t ! node) of None \<Rightarrow> Some (Some 0, t) | Some a \<Rightarrow> GetChild a w t) = Some (Some l, t1) \<and>
      l < length t1 \<and> (if st_starts_with_x s then Some (tn_matchings (t1 ! l), t1)
       else find_location f voc s node l next_phrase w t1) = Some (location, t2) \<and>
      (child = None \<and> t' = t2 \<or> (\<exists>t4. child = Some (length t2) \<and>
          AddChild node w (Some (length t2)) (t2 @ [new_node (Some l) next_phrase location]) = Some t4 \<and>
          AddTrailingNonterminal f voc ?ss next_phrase (length t2) (st_starts_with_x s) t4 = Some t'))"
  proof (cases "st_starts_with_x s")
    case True
    then show ?thesis using run by (fastforce simp: look_up_def bind_Some_iff node_at_Some make_node_def)
  next
    case False
    then show ?thesis using run by (fastforce simp: look_up_def bind_Some_iff node_at_Some make_node_def split: if_splits)
  qed
  then obtain t1 l location t2 where link: "(case tn_suffix_link (t ! node) of None \<Rightarrow> Some (Some 0, t) | Some a \<Rightarrow> GetChild a w t) = Some (Some l, t1)"
    and l1: "l < length t1"
    and loc1: "(if st_starts_with_x s then Some (tn_matchings (t1 ! l), t1)
       else find_location f voc s node l next_phrase w t1) = Some (location, t2)"
    and rest': "child = None \<and> t' = t2 \<or> (\<exists>t4. child = Some (length t2) \<and>
          AddChild node w (Some (length t2)) (t2 @ [new_node (Some l) next_phrase location]) = Some t4 \<and>
          AddTrailingNonterminal f voc ?ss next_phrase (length t2) (st_starts_with_x s) t4 = Some t')"
    by blast
  have t1: "t1 = t" and l: "l < length t" "node_symbols t l = renumber 0 (tl ?ss)"
  proof -
    have "t1 = t \<and> l < length t \<and> node_symbols t l = renumber 0 (tl ?ss)"
    proof (cases "tn_suffix_link (t ! node)")
      case None
      then have "node = 0" using well_linkedD(1) [OF wl node(1)] by (auto simp: node_linked_def)
      then have "st_phrase s = []" using wl node(2) by (simp add: well_linked_def)
      then show ?thesis using None link wl by (auto simp: well_linked_def)
    next
      case (Some a)
      then have ne: "node \<noteq> 0" using wl by (cases "node = 0") (auto simp: well_linked_def)
      from well_linkedD(1) [OF wl node(1) ne] Some
      have "st_phrase s \<noteq> []" "node_symbols t a = renumber 0 (tl (st_phrase s))" by (auto simp: node_linked_def node(2))
      moreover have "GetChild a w t = Some (Some l, t1)" using link Some by simp
      ultimately show ?thesis using GetChild_linked [OF wl, of a w "Some l" t1] w by (auto simp: renumber_word)
    qed
    then show "t1 = t" "l < length t" "node_symbols t l = renumber 0 (tl ?ss)" by simp_all
  qed
  note loc = loc1 [unfolded t1]
  have t2: "well_linked ?mx {} t2" "same_nodes t t2"
    using loc wl find_location_linked [of f voc s node l next_phrase w t location t2] by (auto split: if_splits)
  show ?thesis
  proof (cases "child = None")
    case True
    then show ?thesis using t2 rest' by auto
  next
    case False
    then obtain t4 where child: "child = Some (length t2)"
      and add: "AddChild node w (Some (length t2)) (t2 @ [new_node (Some l) next_phrase location]) = Some t4"
      and trail: "AddTrailingNonterminal f voc ?ss next_phrase (length t2) (st_starts_with_x s) t4 = Some t'"
      using rest' by auto
    let ?n = "new_node (Some l) next_phrase location"
    have new: "make_node ?n t2 = (length t2, t2 @ [?n])" by (simp add: make_node_def)
    have sym: "ph_symbols (tn_phrase ?n) = ?ss" using Build_result [OF next_phrase] by (simp add: new_node_def)
    have l2: "l < length t2" "node_symbols t2 l = renumber 0 (tl ?ss)" "node < length t2" "node_symbols t2 node = st_phrase s"
      using t2(2) l node by (auto simp: same_nodes_def)
    note facts = make_node_linked [OF t2(1) sym _ numbered _ l2(1,2) _ new]
    have t3: "well_linked ?mx {length t2} (t2 @ [?n])" "same_nodes t2 (t2 @ [?n])" "node_symbols (t2 @ [?n]) (length t2) = ?ss"
      using facts by (simp_all add: new_node_def)
    have "tn_children (t2 ! node) w = None"
      using loc fresh by (auto simp: find_location_def set_matchings_def bind_Some_iff node_at_Some nth_list_update split: if_splits prod.splits)
    then have t4: "well_linked ?mx {length t2} t4" "same_nodes (t2 @ [?n]) t4"
      using AddChild_linked [OF t3(1) add] l2(3,4) t3(2,3) by (auto simp: nth_append same_nodes_def)
    have upd: "t4 = (t2 @ [?n])[node := ((t2 @ [?n]) ! node)\<lparr>tn_children := (tn_children ((t2 @ [?n]) ! node))(w \<mapsto> Some (length t2))\<rparr>]"
      using add by (auto simp: AddChild_def bind_Some_iff node_at_Some)
    have at: "t4 ! length t2 = ?n" "length t4 = Suc (length t2)"
      using upd l2(3) by simp_all
    have "node_symbols t4 (length t2) = ?ss" "node_symbols t4 l = renumber 0 (tl ?ss)"
      using t4(2) t3(2,3) l2(1,2) by (auto simp: same_nodes_def)
    then have "well_linked ?mx {} t' \<and> same_nodes t4 t'"
      using AddTrailingNonterminal_linked [OF t4(1), of "st_phrase s" w l next_phrase "st_starts_with_x s" voc t']
        at l2(1) w numbered Build_result [OF next_phrase] s(1) trail
      by (auto simp: new_node_def state_linked_def)
    moreover have "node_symbols t' (length t2) = ?ss \<and> length t2 < length t'"
      using calculation \<open>node_symbols t4 (length t2) = ?ss\<close> at(2) by (auto simp: same_nodes_def)
    ultimately show ?thesis
      using child t2(2) t3(2) t4(2) by (auto intro: same_nodes_trans)
  qed
qed

lemma ExtendState_linked:
  assumes wl: "well_linked (rf_max_nonterminals f) {} t" and s: "state_linked t s" and w: "IsTerminal w"
    and c: "c < length t" "node_symbols t c = st_phrase s @ [w]" and arity: "Arity phrase = num_gaps (st_phrase s @ [w])"
    and run: "ExtendState f word_ids s (st_phrase s @ [w]) phrase (Some c) t = Some (new_states, t')"
  shows "well_linked (rf_max_nonterminals f) {} t' \<and> same_nodes t t' \<and> (\<forall>s' \<in> set new_states. state_linked t' s')"
proof -
  let ?ss = "st_phrase s @ [w]"
  define next_state where "next_state = \<lparr>st_start = st_start s, st_end = st_end s + 1, st_phrase = ?ss,
          st_subpatterns_start = st_subpatterns_start s, st_node = Some c, st_starts_with_x = st_starts_with_x s\<rparr>"
  have starts: "st_starts_with_x s \<longleftrightarrow> \<not> IsTerminal (hd ?ss)"
    using s w by (cases "st_phrase s") (auto simp: state_linked_def)
  have first: "state_linked t next_state" using c starts by (auto simp: state_linked_def next_state_def)
  show ?thesis
  proof (cases "rf_max_rule_symbols f \<le> vsize ?ss \<or> vsize word_ids \<le> st_end s + 1 \<or> rf_max_rule_span f \<le> st_end s - st_start s")
    case True
    then show ?thesis using run wl by (auto simp: ExtendState_def)
  next
    case ext: False
    show ?thesis
    proof (cases "rf_max_rule_symbols f \<le> vsize ?ss + 1 \<or> rf_max_nonterminals f \<le> Arity phrase \<or>
           rf_max_chunks f \<le> Arity phrase + of_bool (\<not> st_starts_with_x s)")
      case True
      then have "new_states = [next_state] \<and> t' = t" using run ext by (auto simp: ExtendState_def Let_def next_state_def)
      then show ?thesis using wl first by simp
    next
      case False
      define var where "var = GetNonterminalIndex (Arity phrase + 1)"
      have var: "var = next_gap ?ss" by (simp add: var_def next_gap_def arity)
      have "gap_may_follow (node_symbols t c)" "num_gaps (node_symbols t c) < rf_max_nonterminals f"
        using False arity c(2) w by (auto simp: gap_may_follow_def)
      then obtain d where d: "tn_children (t ! c) var = Some (Some d)"
        using well_linkedD(3) [OF wl c(1)] c(2) by (auto simp: gap_added_def var)
      then have d_node: "d < length t" "node_symbols t d = ?ss @ [var]"
        using well_linkedD(2) [OF wl c(1)] c(2) by (auto simp: children_linked_def)
      have child: "GetChild c var t = Some (Some d, t)" using c(1) d by (simp add: GetChild_def node_at_def)
      let ?body = "\<lambda>i (new_states, trie). do {
          a \<leftarrow> Some c; (c, trie1) \<leftarrow> GetChild a var trie;
          Some (new_states @ [\<lparr>st_start = st_start s, st_end = i, st_phrase = ?ss @ [var],
            st_subpatterns_start = st_subpatterns_start s @ [i], st_node = c, st_starts_with_x = st_starts_with_x s\<rparr>], trie1) }"
      have loop: "for_each (int_range (st_end s + 1 + int (rf_min_gap_size f))
          (min (vsize word_ids) (st_start s + rf_max_rule_span f + 1))) ?body ([next_state], t) = Some (new_states, t')"
        using run ext False by (simp add: ExtendState_def Let_def next_state_def var_def)
      have "snd (new_states, t') = t \<and> (\<forall>s' \<in> set (fst (new_states, t')). state_linked t s')"
      proof (rule for_each_keeps [OF loop, where P = "\<lambda>st. snd st = t \<and> (\<forall>s' \<in> set (fst st). state_linked t s')"])
        fix i and u u' :: "state list \<times> trie"
        assume u: "snd u = t \<and> (\<forall>s' \<in> set (fst u). state_linked t s')" and step: "?body i u = Some u'"
        obtain ns where u_eq: "u = (ns, t)" using u by (cases u) simp
        have "u' = (ns @ [\<lparr>st_start = st_start s, st_end = i, st_phrase = ?ss @ [var],
            st_subpatterns_start = st_subpatterns_start s @ [i], st_node = Some d, st_starts_with_x = st_starts_with_x s\<rparr>], t)"
          using step by (simp add: u_eq child)
        then show "snd u' = t \<and> (\<forall>s' \<in> set (fst u'). state_linked t s')"
          using u d_node starts by (auto simp: u_eq state_linked_def hd_append)
      qed (use first in simp)
      then show ?thesis using wl by simp
    qed
  qed
qed

lemma CannotHaveMatchings_linked:
  assumes wl: "well_linked mx {} t" and run: "CannotHaveMatchings node w t = Some (cannot, t1)"
  shows "well_linked mx {} t1 \<and> same_nodes t t1 \<and> (\<not> cannot \<longrightarrow> t1 = t \<and> tn_children (t ! node) w \<noteq> Some None)"
proof -
  have node: "node < length t"
    using run by (auto simp: CannotHaveMatchings_def HasChild_def node_at_Some bind_Some_iff)
  define missing where "missing = (tn_children (t ! node) w = Some None)"
  have head: "(if tn_children (t ! node) w \<noteq> None then map_option (\<lambda>(c, t). (c = None, t)) (GetChild node w t) else Some (False, t)) = Some (missing, t)"
    using node by (auto simp: GetChild_def node_at_def missing_def)
  show ?thesis
  proof (cases missing)
    case True
    then show ?thesis using run node head wl
      by (simp add: CannotHaveMatchings_def HasChild_def node_at_def)
  next
    case False
    show ?thesis
    proof (cases "tn_suffix_link (t ! node)")
      case None
      then show ?thesis using run node head wl False
        by (simp add: CannotHaveMatchings_def HasChild_def node_at_def missing_def)
    next
      case (Some l)
      then obtain c where "GetChild l w t = Some (c, t1)" "cannot = (c = None)"
        using run node head False by (auto simp: CannotHaveMatchings_def HasChild_def node_at_def bind_Some_iff)
      then show ?thesis using GetChild_linked [OF wl, of l w c t1] False by (auto simp: missing_def)
    qed
  qed
qed

lemma process_state_linked:
  assumes wl: "well_linked (rf_max_nonterminals f) {} t" and s: "state_linked t s" and words: "\<forall>x \<in> set word_ids. 0 \<le> x"
    and run: "process_state fl f blacklist word_ids s (t, voc, rules) = Some (new_states, (t', voc', rules'))"
  shows "well_linked (rf_max_nonterminals f) {} t' \<and> same_nodes t t' \<and> (\<forall>s' \<in> set new_states. state_linked t' s')"
proof -
  let ?mx = "rf_max_nonterminals f"
  obtain node where node: "st_node s = Some node" "node < length t" "node_symbols t node = st_phrase s"
    using s by (auto simp: state_linked_def)
  obtain w phrase cannot t1 where w: "vat word_ids (st_end s) = Some w" and phrase: "Build voc (st_phrase s @ [w]) = Some phrase"
    and cannot: "CannotHaveMatchings node w t = Some (cannot, t1)"
    using run by (auto simp: process_state_def node(1) Let_def elim!: bind_SomeE)
  have word: "IsTerminal w" using vat_in_set [OF w] words by (simp add: IsTerminal_def)
  note t1 = CannotHaveMatchings_linked [OF wl cannot]
  note steps = process_state_def w phrase node(1) cannot Let_def
  show ?thesis
  proof (cases cannot)
    case True
    then show ?thesis
      using run t1 AddChild_linked [of ?mx "{}" t1 node w None t'] same_nodes_trans [of t t1 t'] node(2)
      by (auto simp: steps HasChild_def node_at_Some bind_Some_iff split: if_splits)
  next
    case False
    then have t: "t1 = t" and child: "tn_children (t ! node) w \<noteq> Some None" using t1 by simp_all
    have arity: "Arity phrase = num_gaps (st_phrase s @ [w])" using Build_result [OF phrase] by simp
    show ?thesis
    proof (cases "tn_children (t ! node) w")
      case None
      then have look: "RequiresLookup node w t = Some True" using node(2) by (simp add: RequiresLookup_def HasChild_def node_at_def)
      obtain next_node t2 voc1 rules1 where
        found: "look_up fl f blacklist s node (st_phrase s @ [w]) phrase w (t, voc, rules) = Some (next_node, (t2, voc1, rules1))"
        and rest: "(case next_node of None \<Rightarrow> new_states = [] \<and> t' = t2
         | Some c \<Rightarrow> ExtendState f word_ids s (st_phrase s @ [w]) phrase (Some c) t2 = Some (new_states, t'))"
        using run False by (auto simp: steps t look bind_Some_iff split: option.splits)
      note t2 = look_up_linked [OF wl s node(1) word None phrase found]
      show ?thesis
      proof (cases next_node)
        case None
        then show ?thesis using t2 rest by simp
      next
        case (Some c)
        then have ext: "ExtendState f word_ids s (st_phrase s @ [w]) phrase (Some c) t2 = Some (new_states, t')" using rest by simp
        have "state_linked t2 s" using state_linked_same [OF s] t2 by blast
        then show ?thesis
          using ExtendState_linked [OF _ _ word _ _ arity ext] t2 Some same_nodes_trans [of t t2 t'] by auto
      qed
    next
      case (Some c')
      then obtain c where c: "tn_children (t ! node) w = Some (Some c)" using child by (cases c') auto
      then have look: "RequiresLookup node w t = Some False" "GetChild node w t = Some (Some c, t)"
        using node(2) by (simp_all add: RequiresLookup_def HasChild_def GetChild_def node_at_def)
      have "c < length t" "node_symbols t c = st_phrase s @ [w]"
        using well_linkedD(2) [OF wl node(2)] c node(3) by (auto simp: children_linked_def)
      moreover have "ExtendState f word_ids s (st_phrase s @ [w]) phrase (Some c) t = Some (new_states, t')"
        using run False by (auto simp: steps t look bind_Some_iff)
      ultimately show ?thesis using ExtendState_linked [OF wl s word _ _ arity] by blast
    qed
  qed
qed

lemma run_queue_linked:
  assumes "run_queue fl f blacklist word_ids states w = Some w'" "well_linked (rf_max_nonterminals f) {} (fst w)"
    "\<forall>s \<in> set states. state_linked (fst w) s" "\<forall>x \<in> set word_ids. 0 \<le> x"
  shows "well_linked (rf_max_nonterminals f) {} (fst w')"
  using assms
proof (induction fl f blacklist word_ids states w rule: run_queue.induct)
  case (1 fl f blacklist word_ids w)
  then show ?case by (simp add: run_queue.simps)
next
  case (2 fl f blacklist word_ids s states w)
  obtain new_states w1 where step: "process_state fl f blacklist word_ids s w = Some (new_states, w1)"
    and rest: "run_queue fl f blacklist word_ids (states @ new_states) w1 = Some w'"
    using "2.prems"(1) by (auto simp: run_queue.simps split: option.splits)
  obtain t voc rules t1 voc1 rules1 where w: "w = (t, voc, rules)" "w1 = (t1, voc1, rules1)"
    by (cases w rule: prod_cases3, cases w1 rule: prod_cases3) blast
  have "well_linked (rf_max_nonterminals f) {} t1 \<and> same_nodes t t1 \<and> (\<forall>s' \<in> set new_states. state_linked t1 s')"
    by (rule process_state_linked) (use step "2.prems"(2-4) w in auto)
  moreover from this have "\<forall>s' \<in> set states. state_linked t1 s'"
    using "2.prems"(3) w(1) state_linked_same by auto
  ultimately show ?case using "2.IH" [OF step refl rest] "2.prems"(4) w by auto
qed

text \<open>
  C9. In the trie that the search leaves, a child of a node has its phrase followed by the child's
  key, and every node but the root has a suffix link, which leads to the node of its phrase without
  the first symbol, the gaps numbered anew.
\<close>

theorem search_suffix_links:
  assumes "search fl f blacklist word_ids voc = Some (t, voc', rules)" "\<forall>x \<in> set word_ids. 0 \<le> x"
  shows "node_symbols t 0 = [] \<and>
    (\<forall>a < length t. \<forall>k c. tn_children (t ! a) k = Some (Some c) \<longrightarrow> c < length t \<and> node_symbols t c = node_symbols t a @ [k]) \<and>
    (\<forall>a < length t. a \<noteq> 0 \<longrightarrow> (\<exists>l < length t. tn_suffix_link (t ! a) = Some l \<and>
       node_symbols t l = renumber 0 (tl (node_symbols t a))))"
proof -
  let ?mx = "rf_max_nonterminals f" and ?X = "GetNonterminalIndex 1"
  let ?l = "PhraseLocation_range (-1) (-1)"
  define t0 where "t0 = [(new_node None empty_phrase ?l)\<lparr>tn_children := [?X \<mapsto> Some 1]\<rparr>, new_node (Some 0) empty_phrase ?l]"
  have run: "run_queue fl f blacklist word_ids (initial_states f word_ids) (t0, voc, []) = Some (t, voc', rules)"
    using assms(1) by (auto simp: search_def make_node_def empty_trie_def AddChild_def node_at_def t0_def new_node_def)
  have sym: "node_symbols t0 0 = []" "node_symbols t0 1 = [?X]" "node_symbols t0 (Suc 0) = [?X]"
    by (simp_all add: node_symbols_def t0_def new_node_def empty_phrase_def)
  have X: "\<not> IsTerminal ?X" "renumber 0 [?X] = [?X]" "next_gap [] = ?X"
    by (simp_all add: IsTerminal_def GetNonterminalIndex_def next_gap_def)
  have "well_linked ?mx {} t0"
  proof -
    have "gap_added ?mx t0 0" "gap_added ?mx t0 (Suc 0)"
      using sym X by (auto simp: gap_added_def gap_may_follow_def t0_def)
    moreover have "children_linked t0 0" "children_linked t0 (Suc 0)"
      using sym by (auto simp: children_linked_def t0_def new_node_def split: if_splits)
    moreover have "node_linked t0 (Suc 0)" using sym X by (auto simp: node_linked_def t0_def new_node_def)
    moreover have "length t0 = 2" "tn_suffix_link (t0 ! 0) = None" by (simp_all add: t0_def new_node_def)
    ultimately show ?thesis using sym by (auto simp: well_linked_def less_Suc_eq numeral_2_eq_2)
  qed
  moreover have "\<forall>s \<in> set (initial_states f word_ids). state_linked t0 s"
    using sym X by (auto simp: initial_states_def state_linked_def t0_def)
  ultimately have "well_linked ?mx {} t" using run_queue_linked [OF run] assms(2) by simp
  then show ?thesis by (auto simp: well_linked_def children_linked_def node_linked_def)
qed

lemma search_suffix_links_witness:
  "\<exists>t voc rules. search (exact id) demo_factory (\<lambda>_. False) [0, 1] (snd (AnnotateWords [''a'', ''b''] empty_vocabulary)) = Some (t, voc, rules) \<and>
     5 < length t \<and> node_symbols t 0 = []"
proof -
  let ?run = "search (exact id) demo_factory (\<lambda>_. False) [0, 1] (snd (AnnotateWords [''a'', ''b''] empty_vocabulary))"
  have "map_option (\<lambda>(t, _). 5 < length t) ?run = Some True" by code_simp
  then obtain t voc rules where run: "?run = Some (t, voc, rules)" "5 < length t" by auto
  from search_suffix_links [OF run(1)] run show ?thesis by auto
qed

end
