(* ===== verification/RunExtractor.thy ===== *)
theory RunExtractor
  imports RuleFactory
begin

text \<open>
  The constructors that put the extractor together and the program \<open>run_extractor\<close>
  (\<open>extractor/run_extractor.cc\<close>), from the lines of its input files to the grammars it
  writes. The sentences are processed in order, as with one thread; the operators of
  \<open>boost::filesystem\<close> and \<open>boost::split\<close> are parameters; clocks, progress messages and the
  parsing of the command line are left out.
\<close>

definition new_rule_extractor ::
  "data_array \<Rightarrow> data_array \<Rightarrow> alignment \<Rightarrow> int \<Rightarrow> int \<Rightarrow> int \<Rightarrow> int \<Rightarrow> bool \<Rightarrow> bool \<Rightarrow> bool \<Rightarrow> rule_extractor" where
  "new_rule_extractor source target a max_rule_span min_gap_size max_nonterminals max_rule_symbols
     require_aligned_terminal require_aligned_chunks require_tight_phrases =
     (let h = \<lparr>rh_source = source, rh_target = target, rh_alignment = a, rh_max_rule_span = max_rule_span,
          rh_max_rule_symbols = max_rule_symbols, rh_require_aligned_terminal = require_aligned_terminal,
          rh_require_aligned_chunks = require_aligned_chunks, rh_require_tight_phrases = require_tight_phrases\<rparr>
      in \<lparr>rx_source_data = source,
        rx_target_extractor = \<lparr>tx_data = target, tx_alignment = a, tx_helper = h,
          tx_max_rule_span = max_rule_span, tx_require_tight_phrases = require_tight_phrases\<rparr>,
        rx_helper = h, rx_max_rule_span = max_rule_span, rx_min_gap_size = min_gap_size,
        rx_max_nonterminals = max_nonterminals, rx_max_rule_symbols = max_rule_symbols,
        rx_require_tight_phrases = require_tight_phrases\<rparr>)"

definition new_factory ::
  "suffix_array \<Rightarrow> data_array \<Rightarrow> alignment \<Rightarrow> collocation_index \<Rightarrow> 'd scorer \<Rightarrow> nat \<Rightarrow> int \<Rightarrow> int \<Rightarrow> int \<Rightarrow> int \<Rightarrow> bool \<Rightarrow>
   'd factory" where
  "new_factory sa target a index scorer min_gap_size max_rule_span max_nonterminals max_rule_symbols
     max_samples require_tight_phrases =
     \<lparr>rf_suffix_array = sa,
      rf_intersector = \<lparr>fi_suffix_array = sa, fi_index = index, fi_max_rule_span = max_rule_span,
        fi_min_gap_size = int min_gap_size\<rparr>,
      rf_extractor = new_rule_extractor (sa_data sa) target a max_rule_span (int min_gap_size) max_nonterminals
        max_rule_symbols True False require_tight_phrases,
      rf_scorer = scorer, rf_max_samples = max_samples, rf_min_gap_size = min_gap_size,
      rf_max_rule_span = max_rule_span, rf_max_nonterminals = max_nonterminals,
      rf_max_chunks = max_nonterminals + 1, rf_max_rule_symbols = max_rule_symbols\<rparr>"

section \<open>The program\<close>

text \<open>The corpus is one bitext file or two files, here their lines.\<close>

datatype corpus_files = Bitext "string list" | Separate "string list" "string list"

record options =
  op_files :: corpus_files
  op_alignment :: "string list"
  op_grammars :: string
  op_frequent :: int
  op_super_frequent :: int
  op_max_rule_span :: int
  op_max_rule_symbols :: int
  op_min_gap_size :: nat
  op_max_phrase_len :: int
  op_max_nonterminals :: int
  op_min_frequency :: int
  op_max_samples :: int
  op_tight_phrases :: bool
  op_leave_one_out :: bool

record environment =
  ev_rand :: "nat \<Rightarrow> nat"
  ev_split :: "string \<Rightarrow> string list"
  ev_join :: "string \<Rightarrow> string \<Rightarrow> string"
  ev_show_path :: "string \<Rightarrow> string"

definition read_corpus :: "corpus_files \<Rightarrow> (data_array \<times> data_array) option" where
  "read_corpus files = (case files of
     Bitext lines \<Rightarrow> do {
       source \<leftarrow> DataArray_of_bitext lines SOURCE;
       target \<leftarrow> DataArray_of_bitext lines TARGET;
       Some (source, target) }
   | Separate source target \<Rightarrow> Some (DataArray_of_file source, DataArray_of_file target))"

definition GetGrammarFilePath :: "environment \<Rightarrow> string \<Rightarrow> int \<Rightarrow> string" where
  "GetGrammarFilePath ev grammar_path file_number = ev_join ev grammar_path (''grammar.'' @ show_int file_number)"

definition set_up :: "'d floats \<Rightarrow> 'd \<Rightarrow> environment \<Rightarrow> options \<Rightarrow> (vocabulary \<times> 'd factory) option" where
  "set_up fl eps ev opts = do {
     (source, target) \<leftarrow> read_corpus (op_files opts);
     sa \<leftarrow> BuildSuffixArray (ev_rand ev) source;
     a \<leftarrow> Alignment_of_file (ev_split ev) (op_alignment opts);
     (index, voc) \<leftarrow> Precompute empty_vocabulary sa (op_frequent opts) (op_super_frequent opts) (op_max_rule_span opts)
       (op_max_rule_symbols opts) (int (op_min_gap_size opts)) (op_max_phrase_len opts) (op_min_frequency opts);
     table \<leftarrow> TranslationTable fl source target a;
     Some (voc, new_factory sa target a index (default_scorer fl eps table) (op_min_gap_size opts)
       (op_max_rule_span opts) (op_max_nonterminals opts) (op_max_rule_symbols opts) (op_max_samples opts)
       (op_tight_phrases opts)) }"

text \<open>The sentence and the rest of the line from the first \<open>|||\<close> on.\<close>

definition split_suffix :: "string \<Rightarrow> (string \<times> string) option" where
  "split_suffix line = (let position = find_str line ''|||'' in
     if position \<noteq> -1 then do { suffix \<leftarrow> substr_from line position; Some (substr_upto line position, suffix) }
     else Some (line, ''''))"

definition extract_sentence ::
  "'d floats \<Rightarrow> 'd factory \<Rightarrow> bool \<Rightarrow> int \<Rightarrow> string \<Rightarrow> vocabulary \<Rightarrow>
   (vocabulary \<times> string \<times> string \<times> 'd grammar) option" where
  "extract_sentence fl f leave_one_out i line voc = do {
     (sentence, suffix) \<leftarrow> split_suffix line;
     let blacklist = (\<lambda>id. leave_one_out \<and> id = i);
     (voc1, grammar) \<leftarrow> ExtractGrammar fl f sentence blacklist voc;
     Some (voc1, sentence, suffix, grammar) }"

definition seg_line :: "environment \<Rightarrow> string \<Rightarrow> int \<Rightarrow> string \<Rightarrow> string \<Rightarrow> string" where
  "seg_line ev grammar_path i sentence suffix =
     ''<seg grammar='' @ ev_show_path ev (GetGrammarFilePath ev grammar_path i) @ '' id='' @ [CHR 0x22] @ show_int i @
     [CHR 0x22] @ ''> '' @ sentence @ '' </seg> '' @ suffix @ [CHR 0x0A]"

text \<open>
  The loop over the sentences. The result is the grammar files with their text, and the standard
  output.
\<close>

definition extract_all ::
  "'d floats \<Rightarrow> ('d \<Rightarrow> string) \<Rightarrow> environment \<Rightarrow> 'd factory \<Rightarrow> bool \<Rightarrow> string \<Rightarrow> string list \<Rightarrow> vocabulary \<Rightarrow>
   ((string \<times> string) list \<times> string list) option" where
  "extract_all fl show_score ev f leave_one_out grammar_path sentences voc = do {
     (_, files, lines) \<leftarrow> for_each (positions sentences) (\<lambda>i (voc, files, lines). do {
       line \<leftarrow> vat sentences i;
       (voc1, sentence, suffix, grammar) \<leftarrow> extract_sentence fl f leave_one_out i line voc;
       out \<leftarrow> show_grammar show_score grammar;
       Some (voc1, files @ [(GetGrammarFilePath ev grammar_path i, out)],
         lines @ [seg_line ev grammar_path i sentence suffix]) }) (voc, [], []);
     Some (files, lines) }"

definition run_extractor ::
  "'d floats \<Rightarrow> 'd \<Rightarrow> ('d \<Rightarrow> string) \<Rightarrow> environment \<Rightarrow> options \<Rightarrow> string list \<Rightarrow>
   ((string \<times> string) list \<times> string list) option" where
  "run_extractor fl eps show_score ev opts sentences = do {
     (voc, f) \<leftarrow> set_up fl eps ev opts;
     extract_all fl show_score ev f (op_leave_one_out opts) (op_grammars opts) sentences voc }"

section \<open>What it writes\<close>

lemma find_from_spec:
  "find_from s t i = -1 \<or> (i \<le> find_from s t i \<and> find_from s t i \<le> i + int (length s) \<and>
     starts_with (drop (nat (find_from s t i - i)) s) t)"
proof (induction s t i rule: find_from.induct)
  case (2 c s t i)
  show ?case
  proof (cases "starts_with (c # s) t \<or> find_from s t (i + 1) = -1")
    case False
    then have "i + 1 \<le> find_from s t (i + 1)" and "find_from s t (i + 1) \<le> i + 1 + int (length s)"
      and "starts_with (drop (nat (find_from s t (i + 1) - (i + 1))) s) t"
      using 2 by auto
    moreover from this(1) have "nat (find_from s t (i + 1) - i) = Suc (nat (find_from s t (i + 1) - (i + 1)))" by linarith
    ultimately show ?thesis using False by simp
  qed auto
qed auto

lemma split_suffix_parts:
  assumes "split_suffix line = Some (sentence, suffix)"
  shows "line = sentence @ suffix \<and> (suffix = [] \<or> starts_with suffix ''|||'')"
  using assms find_from_spec [of line "''|||''" 0]
  by (auto simp: split_suffix_def find_str_def substr_from_def substr_upto_def Let_def bind_Some_iff split: if_splits)

text \<open>
   When the program runs to its end, it has written the files \<open>grammar.0\<close>, \<open>grammar.1\<close>, ..., one
  for each sentence and in this order, and one line of output for each sentence, which holds the
  part of the input line before the first \<open>|||\<close> as the segment and the rest after it.
\<close>

theorem extract_all_outputs:
  assumes "extract_all fl show_score ev f leave_one_out grammar_path sentences voc = Some (files, lines)"
  shows "map fst files = map (GetGrammarFilePath ev grammar_path) (positions sentences) \<and>
    length lines = length sentences \<and>
    (\<forall>i < length sentences. \<exists>sentence suffix. sentences ! i = sentence @ suffix \<and>
       (suffix = [] \<or> starts_with suffix ''|||'') \<and> lines ! i = seg_line ev grammar_path (int i) sentence suffix)"
proof -
  define I where "I = (\<lambda>n (voc :: vocabulary, files :: (string \<times> string) list, lines).
     map fst files = map (GetGrammarFilePath ev grammar_path) (int_range 0 n) \<and> length lines = nat n \<and>
     (\<forall>i < nat n. \<exists>sentence suffix. sentences ! i = sentence @ suffix \<and>
       (suffix = [] \<or> starts_with suffix ''|||'') \<and> lines ! i = seg_line ev grammar_path (int i) sentence suffix))"
  obtain voc' where run: "for_each (positions sentences) (\<lambda>i (voc, files, lines). do {
       line \<leftarrow> vat sentences i;
       (voc1, sentence, suffix, grammar) \<leftarrow> extract_sentence fl f leave_one_out i line voc;
       out \<leftarrow> show_grammar show_score grammar;
       Some (voc1, files @ [(GetGrammarFilePath ev grammar_path i, out)],
         lines @ [seg_line ev grammar_path i sentence suffix]) }) (voc, [], []) = Some (voc', files, lines)"
    using assms by (auto simp: extract_all_def bind_Some_iff)
  have "I (vsize sentences) (voc', files, lines)"
  proof (rule for_range_inv [OF run, where I = I])
    fix i and st st' :: "vocabulary \<times> (string \<times> string) list \<times> string list"
    assume i: "0 \<le> i" "i < vsize sentences" and I: "I i st" and step: "(case st of (voc, files, lines) \<Rightarrow> do {
       line \<leftarrow> vat sentences i;
       (voc1, sentence, suffix, grammar) \<leftarrow> extract_sentence fl f leave_one_out i line voc;
       out \<leftarrow> show_grammar show_score grammar;
       Some (voc1, files @ [(GetGrammarFilePath ev grammar_path i, out)],
         lines @ [seg_line ev grammar_path i sentence suffix]) }) = Some st'"
    obtain v fs ls where st: "st = (v, fs, ls)" by (cases st rule: prod_cases3)
    obtain v1 sentence suffix g out where e: "extract_sentence fl f leave_one_out i (sentences ! nat i) v = Some (v1, sentence, suffix, g)"
      and st': "st' = (v1, fs @ [(GetGrammarFilePath ev grammar_path i, out)], ls @ [seg_line ev grammar_path i sentence suffix])"
      using step by (auto simp: st bind_Some_iff vat_Some_iff)
    have parts: "sentences ! nat i = sentence @ suffix \<and> (suffix = [] \<or> starts_with suffix ''|||'')"
      using e split_suffix_parts by (auto simp: extract_sentence_def bind_Some_iff)
    have I': "map fst fs = map (GetGrammarFilePath ev grammar_path) (int_range 0 i)" "length ls = nat i"
      "\<And>k. k < nat i \<Longrightarrow> \<exists>sentence suffix. sentences ! k = sentence @ suffix \<and>
       (suffix = [] \<or> starts_with suffix ''|||'') \<and> ls ! k = seg_line ev grammar_path (int k) sentence suffix"
      using I by (auto simp: I_def st)
    have "\<exists>sentence suffix. sentences ! k = sentence @ suffix \<and> (suffix = [] \<or> starts_with suffix ''|||'') \<and>
        (ls @ [seg_line ev grammar_path i sentence0 suffix0]) ! k = seg_line ev grammar_path (int k) sentence suffix"
      if "k < nat (i + 1)" "sentence0 = sentence" "suffix0 = suffix" for k sentence0 suffix0
    proof (cases "k < nat i")
      case True
      then show ?thesis using I'(2) I'(3) [OF True] by (simp add: nth_append)
    next
      case False
      then have "k = nat i" using that by linarith
      then show ?thesis using i(1) parts I'(2) that by (intro exI [of _ sentence] exI [of _ suffix]) (simp add: nth_append)
    qed
    then show "I (i + 1) st'" using i(1) I'(1,2) by (simp add: I_def st' int_range_snoc nat_add_distrib)
  qed (simp_all add: I_def)
  then show ?thesis by (simp add: I_def vsize_def)
qed

definition demo_environment :: environment where
  "demo_environment = \<lparr>ev_rand = id, ev_split = split_by (\<lambda>c. c = CHR '' '' \<or> c = CHR ''-''),
     ev_join = (\<lambda>a b. a @ ''/'' @ b), ev_show_path = id\<rparr>"

lemma extract_all_outputs_witness:
  "\<exists>files lines. extract_all (exact id) (\<lambda>_. ''0'') demo_environment demo_factory False ''g'' [''b ||| c''] empty_vocabulary
      = Some (files, lines) \<and> map fst files = [''g/grammar.0''] \<and> length lines = 1"
proof -
  have "\<not> Option.is_none (extract_all (exact id) (\<lambda>_. ''0'') demo_environment demo_factory False ''g'' [''b ||| c''] empty_vocabulary)"
    by code_simp
  then obtain files lines where
    run: "extract_all (exact id) (\<lambda>_. ''0'') demo_environment demo_factory False ''g'' [''b ||| c''] empty_vocabulary = Some (files, lines)"
    by (auto simp: Option.is_none_def)
  have "map (GetGrammarFilePath demo_environment ''g'') (positions [''b ||| c'']) = [''g/grammar.0'']" by code_simp
  then show ?thesis using extract_all_outputs [OF run] run by auto
qed

end
