(* ===== verification/Compile.thy ===== *)
theory Compile
  imports RunExtractor "HOL-Library.List_Lexorder"
begin

text \<open>
  The two-step way to a grammar: \<open>sacompile\<close> (\<open>extractor/sacompile.cc\<close>) writes its data
  structures to archives, \<open>extract\<close> (\<open>extractor/extract.cc\<close>) reads them back. An archive is
  the sequence of values that \<open>save\<close> hands to \<open>boost::archive\<close>; the order in which a hash map
  lists its entries is a parameter.
\<close>

section \<open>Archives\<close>

type_synonym data_archive = "string list \<times> int list \<times> int list \<times> int list"

definition save_suffix_array :: "suffix_array \<Rightarrow> data_archive \<times> int list \<times> int list" where
  "save_suffix_array sa = (save_data_array (sa_data sa), sa_array sa, sa_word_start sa)"

definition load_suffix_array :: "data_archive \<times> int list \<times> int list \<Rightarrow> suffix_array" where
  "load_suffix_array = (\<lambda>(data, array, word_start).
     \<lparr>sa_data = load_data_array data, sa_array = array, sa_word_start = word_start\<rparr>)"

text \<open>The entries of a hash map; \<open>insert\<close> keeps an entry that is there.\<close>

definition save_entries :: "'k list \<Rightarrow> ('k \<rightharpoonup> 'v) \<Rightarrow> int \<times> ('k \<times> 'v) list" where
  "save_entries keys m = (vsize keys, map (\<lambda>k. (k, the (m k))) keys)"

definition load_entries :: "int \<times> ('k \<times> 'v) list \<Rightarrow> ('k \<rightharpoonup> 'v) option" where
  "load_entries = (\<lambda>(num_entries, entries). for_each (int_range 0 num_entries) (\<lambda>i m. do {
     (k, v) \<leftarrow> vat entries i;
     Some (if m k = None then m(k \<mapsto> v) else m) }) Map.empty)"

type_synonym 'd table_archive = "data_archive \<times> data_archive \<times> int \<times> ((int \<times> int) \<times> 'd \<times> 'd) list"

definition save_table :: "(int \<times> int) list \<Rightarrow> 'd translation_table \<Rightarrow> 'd table_archive" where
  "save_table keys t = (save_data_array (tt_source t), save_data_array (tt_target t), save_entries keys (tt_probabilities t))"

definition load_table :: "'d table_archive \<Rightarrow> 'd translation_table option" where
  "load_table = (\<lambda>(source, target, entries). do {
     probabilities \<leftarrow> load_entries entries;
     Some \<lparr>tt_source = load_data_array source, tt_target = load_data_array target, tt_probabilities = probabilities\<rparr> })"

lemma load_save_entries:
  assumes "distinct keys" "set keys = dom m"
  shows "load_entries (save_entries keys m) = Some m"
proof -
  let ?step = "\<lambda>i m'. do { (k, v) \<leftarrow> vat (map (\<lambda>k. (k, the (m k))) keys) i; Some (if m' k = None then m'(k \<mapsto> v) else m') }"
  have "\<exists>t. for_each (int_range 0 (vsize keys)) ?step Map.empty = Some t \<and> t = m |` set (take (nat (vsize keys)) keys)"
  proof (rule for_range_total [where I = "\<lambda>i m'. m' = m |` set (take (nat i) keys)"])
    fix i m' assume i: "0 \<le> i" "i < vsize keys" and m': "m' = m |` set (take (nat i) keys)"
    have n: "nat i < length keys" using i by (simp add: vsize_def)
    obtain v where v: "m (keys ! nat i) = Some v" using assms(2) n by fastforce
    have "keys ! nat i \<notin> set (take (nat i) keys)"
      using assms(1) n by (auto simp: in_set_conv_nth nth_eq_iff_index_eq)
    then have "m' (keys ! nat i) = None" by (simp add: m')
    moreover have "set (take (nat (i + 1)) keys) = insert (keys ! nat i) (set (take (nat i) keys))"
      using i(1) n by (simp add: nat_add_distrib take_Suc_conv_app_nth)
    moreover have "m'(keys ! nat i \<mapsto> v) = m |` insert (keys ! nat i) (set (take (nat i) keys))"
      using v by (auto simp: m' restrict_map_def fun_eq_iff)
    ultimately show "\<exists>s'. ?step i m' = Some s' \<and> s' = m |` set (take (nat (i + 1)) keys)"
      using i n v by (simp add: vat_def)
  qed simp_all
  moreover have "m |` set (take (nat (vsize keys)) keys) = m"
    using assms(2) by (auto simp: vsize_def restrict_map_def fun_eq_iff dom_def)
  ultimately show ?thesis by (simp add: load_entries_def save_entries_def)
qed

section \<open>The programs\<close>

record 'd archives =
  ac_target :: data_archive
  ac_source :: "data_archive \<times> int list \<times> int list"
  ac_alignment :: alignment
  ac_precomputation :: "int \<times> (int list \<times> int list) list"
  ac_vocabulary :: "string list"
  ac_ttable :: "'d table_archive"

text \<open>\<open>list_index\<close> and \<open>list_table\<close> are the orders in which the two hash maps are written.\<close>

definition sacompile ::
  "'d floats \<Rightarrow> environment \<Rightarrow> (collocation_index \<Rightarrow> int list list) \<Rightarrow> ((int \<times> int \<rightharpoonup> 'd \<times> 'd) \<Rightarrow> (int \<times> int) list) \<Rightarrow>
   options \<Rightarrow> 'd archives option" where
  "sacompile fl ev list_index list_table opts = do {
     (source, target) \<leftarrow> read_corpus (op_files opts);
     sa \<leftarrow> BuildSuffixArray (ev_rand ev) source;
     a \<leftarrow> Alignment_of_file (ev_split ev) (op_alignment opts);
     (index, voc) \<leftarrow> Precompute empty_vocabulary sa (op_frequent opts) (op_super_frequent opts) (op_max_rule_span opts)
       (op_max_rule_symbols opts) (int (op_min_gap_size opts)) (op_max_phrase_len opts) (op_min_frequency opts);
     table \<leftarrow> TranslationTable fl source target a;
     Some \<lparr>ac_target = save_data_array target, ac_source = save_suffix_array sa, ac_alignment = a,
       ac_precomputation = save_entries (list_index index) index, ac_vocabulary = save_vocabulary voc,
       ac_ttable = save_table (list_table (tt_probabilities table)) table\<rparr> }"

definition extract_grammars ::
  "'d floats \<Rightarrow> 'd \<Rightarrow> ('d \<Rightarrow> string) \<Rightarrow> environment \<Rightarrow> options \<Rightarrow> 'd archives \<Rightarrow> string list \<Rightarrow>
   ((string \<times> string) list \<times> string list) option" where
  "extract_grammars fl eps show_score ev opts archives sentences = do {
     let target = load_data_array (ac_target archives);
     let sa = load_suffix_array (ac_source archives);
     index \<leftarrow> load_entries (ac_precomputation archives);
     let voc = load_vocabulary (ac_vocabulary archives);
     table \<leftarrow> load_table (ac_ttable archives);
     let f = new_factory sa target (ac_alignment archives) index (default_scorer fl eps table) (op_min_gap_size opts)
       (op_max_rule_span opts) (op_max_nonterminals opts) (op_max_rule_symbols opts) (op_max_samples opts)
       (op_tight_phrases opts);
     extract_all fl show_score ev f (op_leave_one_out opts) (op_grammars opts) sentences voc }"

section \<open>The archives lose nothing\<close>

lemma load_save_vocabulary:
  assumes "wf_vocabulary v"
  shows "load_vocabulary (save_vocabulary v) = v"
  using assms numbering_index_words [OF numbering_distinct] numbering_unique
  unfolding wf_vocabulary_def load_vocabulary_def save_vocabulary_def by fastforce

text \<open>The index stays a finite map.\<close>

lemma finite_append: "finite (dom index) \<Longrightarrow> finite (dom (AppendCollocation p starts index))"
  by (simp add: AppendCollocation_def)

lemma third_step_finite:
  assumes "third_step matchings annotations max_rule_span min_gap_size max_rule_symbols m1 m2 k st = Some (st', go)"
    and "finite (dom (fst st))"
  shows "finite (dom (fst st'))"
  using assms by (auto simp: third_step_def bind_Some_iff finite_append Let_def split: prod.splits if_splits)

lemma second_step_finite:
  assumes "second_step matchings annotations max_rule_span min_gap_size max_rule_symbols i m1 j index = Some (index', go)"
    and "finite (dom index)"
  shows "finite (dom index')"
proof -
  have loop: "finite (dom index2)"
    if "for_break xs (third_step matchings annotations max_rule_span min_gap_size max_rule_symbols m1 m2) (index1, p) = Some (index2, q)"
      "finite (dom index1)" for xs m2 index1 p index2 q
    using for_break_keeps [OF that(1), where P = "\<lambda>st. finite (dom (fst st))"] that(2) third_step_finite by fastforce
  show ?thesis
    using assms by (auto simp: second_step_def bind_Some_iff Let_def split: prod.splits if_splits intro: finite_append
        loop [OF _ finite_append])
qed

lemma UpdateIndex_finite:
  assumes "UpdateIndex matchings annotations max_rule_span min_gap_size max_rule_symbols index = Some index'" "finite (dom index)"
  shows "finite (dom index')"
proof (rule for_each_keeps [OF assms(1) [unfolded UpdateIndex_def], where P = "\<lambda>m. finite (dom m)"])
  show "finite (dom index)" by fact
next
  fix i :: int and m m' :: collocation_index
  assume m: "finite (dom m)" and "do { m1 \<leftarrow> vat matchings i; for_break (int_range (i + 1) (vsize matchings))
         (second_step matchings annotations max_rule_span min_gap_size max_rule_symbols i m1) m } = Some m'"
  then obtain m1 where "for_break (int_range (i + 1) (vsize matchings))
         (second_step matchings annotations max_rule_span min_gap_size max_rule_symbols i m1) m = Some m'"
    by (auto simp: bind_Some_iff)
  then show "finite (dom m')"
    by (rule for_break_keeps [where P = "\<lambda>m. finite (dom m)"]) (use m second_step_finite in blast)+
qed

lemma annotate_all_wf:
  assumes "annotate_all v d patterns = Some (index, annotations, v')" "wf_vocabulary v"
  shows "wf_vocabulary v'"
proof -
  have word: "wf_vocabulary v'" if "AnnotatePattern u d p = Some (a, v')" "wf_vocabulary u" for u d p a v'
  proof -
    have "wf_vocabulary (snd (a, v'))"
      by (rule for_each_keeps [OF that(1) [unfolded AnnotatePattern_def], where P = "\<lambda>st. wf_vocabulary (snd st)"])
        (use that(2) in \<open>auto simp: bind_Some_iff Let_def split_beta intro: voc.intern_wf [OF _ prod.collapse [symmetric]]\<close>)
    then show ?thesis by simp
  qed
  have "wf_vocabulary (snd (snd (index, annotations, v')))"
    by (rule for_each_keeps [OF assms(1) [unfolded annotate_all_def], where P = "\<lambda>st. wf_vocabulary (snd (snd st))"])
      (use assms(2) in \<open>auto simp: bind_Some_iff split: prod.splits intro: word\<close>)
  then show ?thesis by simp
qed

lemma Precompute_ok:
  assumes "Precompute v s a b c d e f g = Some (index, v')" "wf_vocabulary v"
  shows "finite (dom index) \<and> wf_vocabulary v'"
proof -
  obtain patterns pi anns ms ans where v': "annotate_all v (sa_data s) patterns = Some (pi, anns, v')"
    and run: "for_each (positions (da_data (sa_data s))) (\<lambda>i (index, matchings, annotations). do {
         x \<leftarrow> vat (da_data (sa_data s)) i;
         if x = END_OF_LINE then do {
           index' \<leftarrow> UpdateIndex matchings annotations c e d index;
           Some (index', [], []) }
         else do {
           (matchings', annotations') \<leftarrow> matchings_at (da_data (sa_data s)) pi anns f b i (matchings, annotations);
           Some (index, matchings', annotations') } }) (Map.empty, [], []) = Some (index, ms, ans)"
    using assms(1) by (auto simp: Precompute_def bind_Some_iff Let_def)
  have "finite (dom (fst (index, ms, ans)))"
  proof (rule for_each_keeps [OF run, where P = "\<lambda>st. finite (dom (fst st))"])
    fix i and st st' :: "collocation_index \<times> matching list \<times> int list list"
    assume "finite (dom (fst st))" "(case st of (index, matchings, annotations) \<Rightarrow> do {
         x \<leftarrow> vat (da_data (sa_data s)) i;
         if x = END_OF_LINE then do {
           index' \<leftarrow> UpdateIndex matchings annotations c e d index;
           Some (index', [], []) }
         else do {
           (matchings', annotations') \<leftarrow> matchings_at (da_data (sa_data s)) pi anns f b i (matchings, annotations);
           Some (index, matchings', annotations') } }) = Some st'"
    then show "finite (dom (fst st'))" by (auto simp: bind_Some_iff UpdateIndex_finite split: prod.splits if_splits)
  qed simp
  then show ?thesis using annotate_all_wf [OF v' assms(2)] by simp
qed

lemma read_corpus_wf:
  assumes "read_corpus files = Some (source, target)"
  shows "wf_words source \<and> wf_words target"
proof -
  have "wf_words (CreateDataArray lines InitializeDataArray)" for lines
    using add_lines(1) [OF wf_words_init, of 0 lines] by (simp add: CreateDataArray_def Let_def wf_words_def)
  then show ?thesis
    using assms wf_words_file by (auto simp: read_corpus_def DataArray_of_bitext_def bind_Some_iff split: corpus_files.splits)
qed

lemma TranslationTable_ok:
  assumes "TranslationTable fl source target a = Some t"
  shows "tt_source t = source \<and> tt_target t = target \<and> finite (dom (tt_probabilities t))"
proof -
  obtain sc tc lc where c: "count_corpus source target a = Some (sc, tc, lc)"
    using assms by (auto simp: TranslationTable_def bind_Some_iff)
  have "finite (dom lc)" using count_corpus_inv [OF c] by (simp add: counts_inv_def)
  moreover have "dom (tt_probabilities t) = dom lc" using assms c by (auto simp: TranslationTable_def)
  ultimately show ?thesis using assms c by (auto simp: TranslationTable_def)
qed

lemma load_save_suffix_array: "wf_words (sa_data s) \<Longrightarrow> load_suffix_array (save_suffix_array s) = s"
  by (simp add: load_suffix_array_def save_suffix_array_def load_save_words)

lemma load_save_table:
  assumes "wf_words (tt_source t)" "wf_words (tt_target t)" "distinct keys" "set keys = dom (tt_probabilities t)"
  shows "load_table (save_table keys t) = Some t"
  using assms load_save_entries [OF assms(3,4)]
  by (simp add: load_table_def save_table_def load_save_words save_entries_def)

text \<open>
  C3. Compiling a corpus with \<open>sacompile\<close> and extracting from the archives with \<open>extract\<close> writes
  the same grammar files and the same output as \<open>run_extractor\<close> on the corpus itself, and fails
  exactly when that fails, provided each hash map is written with every key once.
\<close>

theorem sacompile_extract:
  assumes "\<And>m. finite (dom m) \<Longrightarrow> distinct (list_index m) \<and> set (list_index m) = dom m"
    and "\<And>m. finite (dom m) \<Longrightarrow> distinct (list_table m) \<and> set (list_table m) = dom m"
  shows "do { archives \<leftarrow> sacompile fl ev list_index list_table opts;
              extract_grammars fl eps show_score ev opts archives sentences } =
    run_extractor fl eps show_score ev opts sentences"
proof -
  have step: "(do { table \<leftarrow> TranslationTable fl source target a;
      extract_grammars fl eps show_score ev opts \<lparr>ac_target = save_data_array target, ac_source = save_suffix_array sa,
        ac_alignment = a, ac_precomputation = save_entries (list_index index) index, ac_vocabulary = save_vocabulary voc,
        ac_ttable = save_table (list_table (tt_probabilities table)) table\<rparr> sentences }) =
    (do { table \<leftarrow> TranslationTable fl source target a;
      extract_all fl show_score ev (new_factory sa target a index (default_scorer fl eps table) (op_min_gap_size opts)
        (op_max_rule_span opts) (op_max_nonterminals opts) (op_max_rule_symbols opts) (op_max_samples opts)
        (op_tight_phrases opts)) (op_leave_one_out opts) (op_grammars opts) sentences voc })"
    if corpus: "read_corpus (op_files opts) = Some (source, target)" and sa: "BuildSuffixArray (ev_rand ev) source = Some sa"
      and pre: "Precompute empty_vocabulary sa p q r s t u v = Some (index, voc)"
    for source target sa a index voc p q r s t u v
  proof -
    note wf = read_corpus_wf [OF corpus]
    have data: "sa_data sa = source" using sa by (auto simp: BuildSuffixArray_def Let_def bind_Some_iff)
    have fin: "finite (dom index)" and voc: "wf_vocabulary voc" using Precompute_ok [OF pre wf_empty_vocabulary] by simp_all
    have "load_entries (save_entries (list_index index) index) = Some index"
      using assms(1) [OF fin] by (intro load_save_entries) simp_all
    note index = this load_save_vocabulary [OF voc]
    show ?thesis
    proof (cases "TranslationTable fl source target a")
      case (Some table)
      note ok = TranslationTable_ok [OF Some]
      have "load_table (save_table (list_table (tt_probabilities table)) table) = Some table"
        using ok assms(2) [of "tt_probabilities table"] wf by (intro load_save_table) simp_all
      then show ?thesis
        using wf data index by (simp add: Some extract_grammars_def load_save_words load_save_suffix_array)
    qed simp
  qed
  show ?thesis
    unfolding sacompile_def run_extractor_def set_up_def split_beta Option.bind_assoc bind.bind_lunit prod.sel
    by (intro Option.bind_cong refl step) (simp_all only: prod.collapse)
qed

definition demo_options :: options where
  "demo_options = \<lparr>op_files = Bitext [''x a y ||| x b y''], op_alignment = [''0-0 1-1 2-2''], op_grammars = ''g'',
     op_frequent = 100, op_super_frequent = 10, op_max_rule_span = 15, op_max_rule_symbols = 5, op_min_gap_size = 1,
     op_max_phrase_len = 4, op_max_nonterminals = 2, op_min_frequency = 2, op_max_samples = 300,
     op_tight_phrases = True, op_leave_one_out = False\<rparr>"

lemma sacompile_extract_witness:
  "do { archives \<leftarrow> sacompile (exact id) demo_environment (\<lambda>m. sorted_list_of_set (dom m)) (\<lambda>m. sorted_list_of_set (dom m)) demo_options;
        extract_grammars (exact id) (1 / 1000000) (\<lambda>_. ''0'') demo_environment demo_options archives [''a''] } =
     run_extractor (exact id) (1 / 1000000) (\<lambda>_. ''0'') demo_environment demo_options [''a''] \<and>
   map_option (\<lambda>(files, lines). map fst files)
     (run_extractor (exact id) (1 / 1000000) (\<lambda>_. ''0'') demo_environment demo_options [''a'']) = Some [''g/grammar.0'']"
proof (rule conjI, rule sacompile_extract)
  show "map_option (\<lambda>(files, lines). map fst files)
     (run_extractor (exact id) (1 / 1000000) (\<lambda>_. ''0'') demo_environment demo_options [''a'']) = Some [''g/grammar.0'']"
    by code_simp
qed simp_all

end
