(* ===== verification/Rules.thy ===== *)
theory Rules
  imports Prelude
begin

text \<open>
  \<open>TRule\<close> (\<open>decoder/trule\<close>): a translation rule with its two sides. A word is a positive number;
  on the target side a number \<open>c < 1\<close> is the variable \<open>- c\<close>, on the source side a negative number is
  a category. Feature values are of a type \<open>'f\<close> of their own; members that only one application uses
  (\<open>ext_states_\<close>, \<open>parent_rule_\<close>, \<open>fine_rules_\<close>, \<open>tree_structure\<close>) are left out.
\<close>

type_synonym alignment_point = "int \<times> int"

record 'f trule =
  tr_e :: "int list"
  tr_f :: "int list"
  tr_lhs :: int
  tr_scores :: 'f
  tr_arity :: int
  tr_prev_i :: int
  tr_prev_j :: int
  tr_a :: "alignment_point list"

definition Inverted :: "alignment_point \<Rightarrow> alignment_point" where
  "Inverted p = (snd p, fst p)"

text \<open>A value stored in a \<open>char\<close>, which is signed here.\<close>

definition to_char :: "int \<Rightarrow> int" where
  "to_char x = (x + 128) mod 256 - 128"

definition TRule_sides :: "'f \<Rightarrow> int list \<Rightarrow> int list \<Rightarrow> int \<Rightarrow> int \<Rightarrow> int \<Rightarrow> int \<Rightarrow> 'f trule" where
  "TRule_sides no_features src trg lhs arity pi pj =
     \<lparr>tr_e = trg, tr_f = src, tr_lhs = lhs, tr_scores = no_features, tr_arity = to_char arity,
      tr_prev_i = pi, tr_prev_j = pj, tr_a = []\<rparr>"

definition CreateLexicalRule :: "'f \<Rightarrow> int \<Rightarrow> int \<Rightarrow> 'f trule" where
  "CreateLexicalRule no_features src trg =
     \<lparr>tr_e = [trg], tr_f = [src], tr_lhs = 0, tr_scores = no_features, tr_arity = 0,
      tr_prev_i = 0, tr_prev_j = 0, tr_a = []\<rparr>"

definition ESubstitute :: "'f trule \<Rightarrow> int list list \<Rightarrow> int list option" where
  "ESubstitute r var_values = do {
     (vc, result) \<leftarrow> for_each (tr_e r) (\<lambda>c (vc, result).
       if c < 1 then do { v \<leftarrow> vat var_values (- c); Some (vc + 1, result @ v) }
       else Some (vc, result @ [c])) (0, []);
     check (vc = vsize var_values);
     Some result }"

definition FSubstitute :: "'f trule \<Rightarrow> int list list \<Rightarrow> int list option" where
  "FSubstitute r var_values = do {
     (vc, result) \<leftarrow> for_each (tr_f r) (\<lambda>c (vc, result).
       if c < 1 then do { v \<leftarrow> vat var_values vc; Some (vc + 1, result @ v) }
       else Some (vc, result @ [c])) (0, []);
     check (vc = vsize var_values);
     Some result }"

definition TRule_Arity :: "'f trule \<Rightarrow> int" where
  "TRule_Arity r = tr_arity r"

definition FLength :: "'f trule \<Rightarrow> int" where
  "FLength r = vsize (tr_f r)"

definition ELength :: "'f trule \<Rightarrow> int" where
  "ELength r = vsize (tr_e r)"

definition EWords :: "'f trule \<Rightarrow> int" where
  "EWords r = ELength r - TRule_Arity r"

definition FWords :: "'f trule \<Rightarrow> int" where
  "FWords r = FLength r - TRule_Arity r"

definition IsUnary :: "'f trule \<Rightarrow> bool" where
  "IsUnary r = (TRule_Arity r = 1 \<and> vsize (tr_f r) = 1)"

definition Initialized :: "'f trule \<Rightarrow> bool" where
  "Initialized r = (vsize (tr_e r) \<noteq> 0)"

definition ComputeArity :: "'f trule \<Rightarrow> 'f trule" where
  "ComputeArity r = r\<lparr>tr_arity := to_char (1 - fold (\<lambda>c m. if c < m then c else m) (tr_e r) 1)\<rparr>"

definition trule_eq :: "'f trule \<Rightarrow> 'f trule \<Rightarrow> bool" where
  "trule_eq a b = (tr_lhs a = tr_lhs b \<and> tr_e a = tr_e b \<and> tr_f a = tr_f b)"

text \<open>
  What \<open>ReadFromString\<close> does after the lexer for a monolingual rule: the target side is the source
  side, the categories replaced by the variables \<open>0, -1, ...\<close> in order.
\<close>

primrec number_variables :: "int \<Rightarrow> int list \<Rightarrow> int list" where
  "number_variables ntc [] = []"
| "number_variables ntc (i # is) =
     (if i < 0 then - ntc # number_variables (ntc + 1) is else i # number_variables ntc is)"

definition monolingual :: "'f trule \<Rightarrow> 'f trule" where
  "monolingual r = r\<lparr>tr_e := number_variables 0 (tr_f r)\<rparr>"

text \<open>
  \<open>convert\<close> is \<open>TD::Convert\<close>, \<open>show_scores\<close> the output of the features and \<open>no_scores\<close> says that
  there are none.
\<close>

definition IsGoal :: "(string \<Rightarrow> int) \<Rightarrow> 'f trule \<Rightarrow> bool" where
  "IsGoal number r = (tr_lhs r = number ''Goal'' * (- 1))"

definition AsString :: "(int \<Rightarrow> string) \<Rightarrow> ('f \<Rightarrow> string) \<Rightarrow> ('f \<Rightarrow> bool) \<Rightarrow> bool \<Rightarrow> 'f trule \<Rightarrow> string" where
  "AsString convert show_scores no_scores verbose r =
     (if tr_lhs r \<noteq> 0 then ''['' @ convert (tr_lhs r * (- 1)) @ ''] |||'' else ''NOLHS |||'') @
     concat (map (\<lambda>w. if w < 0 then '' ['' @ convert (w * (- 1)) @ '']'' else '' '' @ convert w) (tr_f r)) @
     '' ||| '' @
     concat (map (\<lambda>(i, w). (if i \<noteq> 0 then '' '' else '''') @
       (if w < 1 then ''['' @ show_int (1 - w) @ '']'' else convert w)) (enumerate 0 (tr_e r))) @
     (if \<not> no_scores (tr_scores r) \<and> verbose then
        '' ||| '' @ show_scores (tr_scores r) @
        (if tr_a r \<noteq> [] then
           '' |||'' @ concat (map (\<lambda>p. '' '' @ show_int (fst p) @ ''-'' @ show_int (snd p)) (tr_a r))
         else '''')
      else '''')"

section \<open>Substitution\<close>

text \<open>The two sides with their variables replaced.\<close>

definition count_variables :: "int list \<Rightarrow> int" where
  "count_variables cs = vsize (filter (\<lambda>c. c < 1) cs)"

lemma count_variables_simps [simp]:
  "count_variables [] = 0" "count_variables (c # cs) = (if c < 1 then 1 + count_variables cs else count_variables cs)"
  by (auto simp: count_variables_def)

lemma ESubstitute_loop:
  "for_each cs (\<lambda>c (vc, result).
       if c < 1 then do { v \<leftarrow> vat vs (- c); Some (vc + 1, result @ v) }
       else Some (vc, result @ [c])) (n, pre) =
   (if \<forall>c \<in> set cs. c < 1 \<longrightarrow> - c < vsize vs
    then Some (n + count_variables cs, pre @ concat (map (\<lambda>c. if c < 1 then vs ! nat (- c) else [c]) cs)) else None)"
proof (induction cs arbitrary: n pre)
  case (Cons c cs)
  show ?case by (auto simp: Cons.IH vat_def vsize_def add.assoc)
qed simp

lemma ESubstitute_eq:
  "ESubstitute r vs = (if (\<forall>c \<in> set (tr_e r). c < 1 \<longrightarrow> - c < vsize vs) \<and> count_variables (tr_e r) = vsize vs
    then Some (concat (map (\<lambda>c. if c < 1 then vs ! nat (- c) else [c]) (tr_e r))) else None)"
  unfolding ESubstitute_def ESubstitute_loop by auto

fun substitute_in_order :: "int list list \<Rightarrow> int list \<Rightarrow> int list" where
  "substitute_in_order vs [] = []"
| "substitute_in_order vs (c # cs) = (if c < 1 then hd vs @ substitute_in_order (tl vs) cs else c # substitute_in_order vs cs)"

lemma FSubstitute_loop:
  assumes "0 \<le> n"
  shows "for_each cs (\<lambda>c (vc, result).
       if c < 1 then do { v \<leftarrow> vat vs vc; Some (vc + 1, result @ v) }
       else Some (vc, result @ [c])) (n, pre) =
   (if n + count_variables cs \<le> vsize vs \<or> count_variables cs = 0
    then Some (n + count_variables cs, pre @ substitute_in_order (drop (nat n) vs) cs) else None)"
  using assms
proof (induction cs arbitrary: n pre)
  case (Cons c cs)
  have nonneg: "0 \<le> count_variables cs" by (simp add: count_variables_def)
  show ?case
  proof (cases "c < 1 \<and> n < vsize vs")
    case True
    then have "vat vs n = Some (vs ! nat n)" "hd (drop (nat n) vs) = vs ! nat n" "tl (drop (nat n) vs) = drop (nat (n + 1)) vs"
      using Cons.prems by (simp_all add: vat_def vsize_def hd_drop_conv_nth nat_less_iff nat_add_distrib drop_Suc tl_drop)
    then show ?thesis using True Cons nonneg by (auto simp: add.assoc)
  next
    case False
    then show ?thesis using Cons nonneg by (auto simp: vat_def vsize_def)
  qed
qed simp

lemma FSubstitute_eq:
  "FSubstitute r vs = (if count_variables (tr_f r) = vsize vs then Some (substitute_in_order vs (tr_f r)) else None)"
  unfolding FSubstitute_def FSubstitute_loop [OF order_refl] by auto

lemma number_variables_substitute:
  assumes "0 \<le> n" "n + count_variables cs = vsize vs" "0 \<notin> set cs"
  shows "(\<forall>c \<in> set (number_variables n cs). c < 1 \<longrightarrow> - c < vsize vs) \<and>
    count_variables (number_variables n cs) = count_variables cs \<and>
    concat (map (\<lambda>c. if c < 1 then vs ! nat (- c) else [c]) (number_variables n cs)) = substitute_in_order (drop (nat n) vs) cs"
  using assms
proof (induction cs arbitrary: n)
  case (Cons c cs)
  have nonneg: "0 \<le> count_variables cs" by (simp add: count_variables_def)
  show ?case
  proof (cases "c < 0")
    case True
    then have "nat n < length vs" using Cons.prems nonneg by (simp add: vsize_def)
    then have "hd (drop (nat n) vs) = vs ! nat n" "tl (drop (nat n) vs) = drop (nat (n + 1)) vs"
      using Cons.prems(1) by (simp_all add: hd_drop_conv_nth nat_add_distrib drop_Suc tl_drop)
    then show ?thesis using True Cons.IH [of "n + 1"] Cons.prems nonneg by auto
  next
    case False
    then have "1 \<le> c" using Cons.prems(3) by (cases "c = 0") auto
    then show ?thesis using Cons.IH [of n] Cons.prems by auto
  qed
qed simp

text \<open>
   A monolingual rule says the same on both sides: whatever the values of its variables, its
  target side substitutes to what its source side does, and fails when it does.
\<close>

theorem monolingual_substitutes:
  assumes "0 \<notin> set (tr_f r)"
  shows "ESubstitute (monolingual r) vs = FSubstitute (monolingual r) vs"
proof (cases "count_variables (tr_f r) = vsize vs")
  case True
  then show ?thesis
    using number_variables_substitute [of 0 "tr_f r" vs] assms by (simp add: ESubstitute_eq FSubstitute_eq monolingual_def)
next
  case False
  have "count_variables (number_variables n cs) = count_variables cs" if "0 \<notin> set cs" "0 \<le> n" for n cs
    using that by (induction cs arbitrary: n) auto
  then show ?thesis using False assms by (simp add: ESubstitute_eq FSubstitute_eq monolingual_def)
qed

lemma monolingual_substitutes_witness:
  "ESubstitute (monolingual (TRule_sides () [3, -1, 4, -1] [] (-1) 2 (-1) (-1))) [[7], [8, 9]] = Some [3, 7, 4, 8, 9]"
proof -
  have "FSubstitute (monolingual (TRule_sides () [3, -1, 4, -1] [] (-1) 2 (-1) (-1))) [[7], [8, 9]] = Some [3, 7, 4, 8, 9]"
    by code_simp
  moreover have "0 \<notin> set (tr_f (TRule_sides () [3, -1, 4, -1] [] (-1) 2 (-1) (-1)))" by (simp add: TRule_sides_def)
  ultimately show ?thesis using monolingual_substitutes by metis
qed

end
