(* ===== verification/Hypergraphs.thy ===== *)
theory Hypergraphs
  imports Rules
begin

text \<open>
  The hypergraph of the decoder (\<open>decoder/hg.h\<close>, \<open>decoder/hg.cc\<close>): nodes and edges with indices into
  each other's vectors, and the operations that build one. Weights (\<open>prob_t\<close>) are of a type \<open>'w\<close> and
  feature vectors of a type \<open>'f\<close>; hashes and spans are integers. A null rule pointer is \<open>None\<close>. The
  members \<open>head_node_\<close> and \<open>id_\<close>, which a new \<open>Edge\<close> leaves without a value, hold -1.
\<close>

record ('f, 'w) edge =
  ed_head :: int
  ed_tails :: "int list"
  ed_rule :: "'f trule option"
  ed_features :: 'f
  ed_prob :: 'w
  ed_id :: int
  ed_i :: int
  ed_j :: int
  ed_prev_i :: int
  ed_prev_j :: int

record node =
  nd_hash :: int
  nd_id :: int
  nd_cat :: int
  nd_in :: "int list"
  nd_out :: "int list"

record ('f, 'w) hypergraph =
  hg_linear_chain :: bool
  hg_nodes :: "node list"
  hg_edges :: "('f, 'w) edge list"

definition new_edge :: "'f \<Rightarrow> 'w \<Rightarrow> ('f, 'w) edge" where
  "new_edge no_features zero = \<lparr>ed_head = -1, ed_tails = [], ed_rule = None, ed_features = no_features, ed_prob = zero,
     ed_id = -1, ed_i = -1, ed_j = -1, ed_prev_i = -1, ed_prev_j = -1\<rparr>"

definition new_hg_node :: node where
  "new_hg_node = \<lparr>nd_hash = 0, nd_id = 0, nd_cat = 0, nd_in = [], nd_out = []\<rparr>"

definition empty_hypergraph :: "('f, 'w) hypergraph" where
  "empty_hypergraph = \<lparr>hg_linear_chain = False, hg_nodes = [], hg_edges = []\<rparr>"

section \<open>Edges and nodes\<close>

definition Edge_Arity :: "('f, 'w) edge \<Rightarrow> int" where
  "Edge_Arity e = vsize (ed_tails e)"

definition copy_pod :: "('f, 'w) edge \<Rightarrow> ('f, 'w) edge \<Rightarrow> ('f, 'w) edge" where
  "copy_pod ed from_edge = ed\<lparr>ed_rule := ed_rule from_edge, ed_i := ed_i from_edge, ed_j := ed_j from_edge,
     ed_prev_i := ed_prev_i from_edge, ed_prev_j := ed_prev_j from_edge\<rparr>"

definition copy_features :: "('f, 'w) edge \<Rightarrow> ('f, 'w) edge \<Rightarrow> ('f, 'w) edge" where
  "copy_features ed from_edge = ed\<lparr>ed_features := ed_features from_edge\<rparr>"

definition copy_fixed_edge :: "('f, 'w) edge \<Rightarrow> ('f, 'w) edge \<Rightarrow> ('f, 'w) edge" where
  "copy_fixed_edge ed from_edge = (copy_features (copy_pod ed from_edge) from_edge)\<lparr>ed_prob := ed_prob from_edge\<rparr>"

definition copy_fixed_node :: "node \<Rightarrow> node \<Rightarrow> node" where
  "copy_fixed_node nd from_node = nd\<lparr>nd_hash := nd_hash from_node, nd_cat := nd_cat from_node\<rparr>"

definition NT :: "node \<Rightarrow> int" where
  "NT n = - nd_cat n"

section \<open>Queries\<close>

definition NumberOfEdges :: "('f, 'w) hypergraph \<Rightarrow> int" where
  "NumberOfEdges hg = vsize (hg_edges hg)"

definition NumberOfNodes :: "('f, 'w) hypergraph \<Rightarrow> int" where
  "NumberOfNodes hg = vsize (hg_nodes hg)"

definition GoalNode :: "('f, 'w) hypergraph \<Rightarrow> int" where
  "GoalNode hg = vsize (hg_nodes hg) - 1"

definition NodeLHS :: "int \<Rightarrow> ('f, 'w) hypergraph \<Rightarrow> int option" where
  "NodeLHS nodeid hg = map_option NT (vat (hg_nodes hg) nodeid)"

text \<open>The index of the first in-edge; \<open>Some None\<close> is a null pointer.\<close>

definition first_edge_of :: "int \<Rightarrow> ('f, 'w) hypergraph \<Rightarrow> ('f, 'w) edge option option" where
  "first_edge_of nodeid hg = do {
     n \<leftarrow> vat (hg_nodes hg) nodeid;
     (case nd_in n of [] \<Rightarrow> Some None | e # _ \<Rightarrow> map_option Some (vat (hg_edges hg) e)) }"

definition first_edge :: "('f, 'w) hypergraph \<Rightarrow> ('f, 'w) edge option option" where
  "first_edge hg = (let nn = vsize (hg_nodes hg) in if 0 \<le> nn then first_edge_of (nn - 1) hg else Some None)"

text \<open>The span of a node, \<open>Span()\<close> being \<open>no_span\<close>, and that in the other language.\<close>

definition NodeSpan :: "int \<times> int \<Rightarrow> int \<Rightarrow> ('f, 'w) hypergraph \<Rightarrow> ((int \<times> int) \<times> (int \<times> int) option) option" where
  "NodeSpan no_span nodeid hg = map_option (\<lambda>fe. case fe of
      None \<Rightarrow> (no_span, None)
    | Some e \<Rightarrow> ((ed_i e, ed_j e), Some (ed_prev_i e, ed_prev_j e))) (first_edge_of nodeid hg)"

definition NodeOrigin :: "int \<times> int \<Rightarrow> int \<Rightarrow> ('f, 'w) hypergraph \<Rightarrow> (int \<times> int \<times> int) option" where
  "NodeOrigin no_span nodeid hg = do {
     n \<leftarrow> vat (hg_nodes hg) nodeid;
     (s, _) \<leftarrow> NodeSpan no_span nodeid hg;
     Some (NT n, s) }"

definition AreNodesUniquelyIdentified :: "('f, 'w) hypergraph \<Rightarrow> bool" where
  "AreNodesUniquelyIdentified hg = distinct (map nd_hash (hg_nodes hg))"

definition ArePreGoalEdgesArity1 :: "('f, 'w) hypergraph \<Rightarrow> bool option" where
  "ArePreGoalEdgesArity1 hg = do {
     n \<leftarrow> vback (hg_nodes hg);
     for_break (nd_in n) (\<lambda>eid _. do {
       e \<leftarrow> vat (hg_edges hg) eid;
       Some (if Edge_Arity e \<noteq> 1 then (False, False) else (True, True)) }) True }"

section \<open>Building\<close>

definition AddNode :: "int \<Rightarrow> ('f, 'w) hypergraph \<Rightarrow> int \<times> ('f, 'w) hypergraph" where
  "AddNode cat hg = (let i = vsize (hg_nodes hg) in
     (i, hg\<lparr>hg_nodes := hg_nodes hg @ [new_hg_node\<lparr>nd_cat := cat, nd_id := i\<rparr>]\<rparr>))"

definition index_tails :: "('f, 'w) edge \<Rightarrow> ('f, 'w) hypergraph \<Rightarrow> ('f, 'w) hypergraph option" where
  "index_tails e hg = do {
     nodes \<leftarrow> for_each (ed_tails e) (\<lambda>t nodes. do {
       n \<leftarrow> vat nodes t;
       vset nodes t (n\<lparr>nd_out := nd_out n @ [ed_id e]\<rparr>) }) (hg_nodes hg);
     Some (hg\<lparr>hg_nodes := nodes\<rparr>) }"

definition push_edge :: "('f, 'w) edge \<Rightarrow> ('f, 'w) hypergraph \<Rightarrow> (int \<times> ('f, 'w) hypergraph) option" where
  "push_edge e hg = (let eid = vsize (hg_edges hg); e1 = e\<lparr>ed_id := eid\<rparr> in
     map_option (\<lambda>hg1. (eid, hg1)) (index_tails e1 (hg\<lparr>hg_edges := hg_edges hg @ [e1]\<rparr>)))"

text \<open>The three \<open>AddEdge\<close>: of an edge with its tails, of a copy with new tails, of a rule with tails.\<close>

definition AddEdge :: "('f, 'w) edge \<Rightarrow> ('f, 'w) hypergraph \<Rightarrow> (int \<times> ('f, 'w) hypergraph) option" where
  "AddEdge nedge hg = push_edge nedge hg"

definition AddEdge_copy :: "'f \<Rightarrow> 'w \<Rightarrow> ('f, 'w) edge \<Rightarrow> int list \<Rightarrow> ('f, 'w) hypergraph \<Rightarrow> (int \<times> ('f, 'w) hypergraph) option" where
  "AddEdge_copy no_features zero in_edge tail hg =
     push_edge ((copy_features (copy_pod ((new_edge no_features zero)\<lparr>ed_i := 0, ed_j := 0, ed_prev_i := 0, ed_prev_j := 0\<rparr>) in_edge) in_edge)
       \<lparr>ed_tails := tail\<rparr>) hg"

definition AddEdge_rule :: "'f \<Rightarrow> 'w \<Rightarrow> 'f trule \<Rightarrow> int list \<Rightarrow> ('f, 'w) hypergraph \<Rightarrow> (int \<times> ('f, 'w) hypergraph) option" where
  "AddEdge_rule no_features zero rule tail hg = push_edge ((new_edge no_features zero)\<lparr>ed_rule := Some rule, ed_tails := tail\<rparr>) hg"

definition ConnectEdgeToHeadNode :: "int \<Rightarrow> int \<Rightarrow> ('f, 'w) hypergraph \<Rightarrow> ('f, 'w) hypergraph option" where
  "ConnectEdgeToHeadNode edge_id head_id hg = do {
     e \<leftarrow> vat (hg_edges hg) edge_id;
     edges \<leftarrow> vset (hg_edges hg) edge_id (e\<lparr>ed_head := head_id\<rparr>);
     n \<leftarrow> vat (hg_nodes hg) head_id;
     nodes \<leftarrow> vset (hg_nodes hg) head_id (n\<lparr>nd_in := nd_in n @ [edge_id]\<rparr>);
     Some (hg\<lparr>hg_edges := edges, hg_nodes := nodes\<rparr>) }"

definition ResizeNodes :: "nat \<Rightarrow> ('f, 'w) hypergraph \<Rightarrow> ('f, 'w) hypergraph" where
  "ResizeNodes n hg = (let nodes = take n (hg_nodes hg) @ replicate (n - length (hg_nodes hg)) new_hg_node
     in hg\<lparr>hg_nodes := map (\<lambda>(i, nd). nd\<lparr>nd_id := int i\<rparr>) (enumerate 0 nodes)\<rparr>)"

definition Reweight :: "('f \<Rightarrow> 'w) \<Rightarrow> ('f, 'w) hypergraph \<Rightarrow> ('f, 'w) hypergraph" where
  "Reweight dot hg = hg\<lparr>hg_edges := map (\<lambda>e. e\<lparr>ed_prob := dot (ed_features e)\<rparr>) (hg_edges hg)\<rparr>"

definition set_ids :: "('f, 'w) hypergraph \<Rightarrow> ('f, 'w) hypergraph" where
  "set_ids hg = hg\<lparr>hg_edges := map (\<lambda>(i, e). e\<lparr>ed_id := int i\<rparr>) (enumerate 0 (hg_edges hg)),
     hg_nodes := map (\<lambda>(i, n). n\<lparr>nd_id := int i\<rparr>) (enumerate 0 (hg_nodes hg))\<rparr>"

definition check_ids :: "('f, 'w) hypergraph \<Rightarrow> unit option" where
  "check_ids hg = check (list_all (\<lambda>(i, e). ed_id e = int i) (enumerate 0 (hg_edges hg)) \<and>
     list_all (\<lambda>(i, n). nd_id n = int i) (enumerate 0 (hg_nodes hg)))"

definition hg_clear :: "('f, 'w) hypergraph \<Rightarrow> ('f, 'w) hypergraph" where
  "hg_clear hg = hg\<lparr>hg_nodes := [], hg_edges := []\<rparr>"

section \<open>Consistency\<close>

text \<open>
  Ids are positions; a node lists its in-edges once each, and its out-edges as often as they have it
  as a tail. The edges in \<open>loose\<close> have no head yet.
\<close>

definition consistent_hg :: "int set \<Rightarrow> ('f, 'w) hypergraph \<Rightarrow> bool" where
  "consistent_hg loose hg \<longleftrightarrow>
     (\<forall>n < length (hg_nodes hg). nd_id (hg_nodes hg ! n) = int n) \<and>
     (\<forall>e < length (hg_edges hg). ed_id (hg_edges hg ! e) = int e \<and>
        (\<forall>t \<in> set (ed_tails (hg_edges hg ! e)). 0 \<le> t \<and> t < vsize (hg_nodes hg)) \<and>
        (int e \<notin> loose \<longrightarrow> 0 \<le> ed_head (hg_edges hg ! e) \<and> ed_head (hg_edges hg ! e) < vsize (hg_nodes hg))) \<and>
     (\<forall>n < length (hg_nodes hg). distinct (nd_in (hg_nodes hg ! n)) \<and>
        (\<forall>e. e \<in> set (nd_in (hg_nodes hg ! n)) \<longleftrightarrow>
           0 \<le> e \<and> e < vsize (hg_edges hg) \<and> e \<notin> loose \<and> ed_head (hg_edges hg ! nat e) = int n) \<and>
        (\<forall>e. count_list (nd_out (hg_nodes hg ! n)) e =
           (if 0 \<le> e \<and> e < vsize (hg_edges hg) then count_list (ed_tails (hg_edges hg ! nat e)) (int n) else 0)))"

lemma consistent_empty: "consistent_hg {} empty_hypergraph"
  by (simp add: consistent_hg_def empty_hypergraph_def)

named_theorems hg_simps \<open>fields of the results of the building operations\<close>

text \<open>Appending an id to the out-edges of the tails, as a function on the nodes.\<close>

definition add_out :: "int \<Rightarrow> int list \<Rightarrow> node list \<Rightarrow> node list" where
  "add_out eid ts nodes = map (\<lambda>(i, n). n\<lparr>nd_out := nd_out n @ replicate (count_list ts (int i)) eid\<rparr>) (enumerate 0 nodes)"

lemma length_add_out [simp]: "length (add_out eid ts nodes) = length nodes"
  by (simp add: add_out_def)

lemma nth_add_out [hg_simps]: "i < length nodes \<Longrightarrow>
    add_out eid ts nodes ! i = (nodes ! i)\<lparr>nd_out := nd_out (nodes ! i) @ replicate (count_list ts (int i)) eid\<rparr>"
  by (simp add: add_out_def nth_enumerate_eq)

lemma index_tails_nodes:
  "(\<And>t. t \<in> set ts \<Longrightarrow> 0 \<le> t \<and> t < vsize nodes) \<Longrightarrow>
   for_each ts (\<lambda>t nodes. do { n \<leftarrow> vat nodes t; vset nodes t (n\<lparr>nd_out := nd_out n @ [eid]\<rparr>) }) nodes = Some (add_out eid ts nodes)"
proof (induction ts arbitrary: nodes)
  case Nil
  show ?case
    by (simp, rule nth_equalityI) (simp_all add: hg_simps)
next
  case (Cons t ts)
  have t: "0 \<le> t" "t < vsize nodes" and rest: "\<And>u. u \<in> set ts \<Longrightarrow> 0 \<le> u \<and> u < vsize nodes"
    using Cons.prems by auto
  define m where "m = nodes[nat t := (nodes ! nat t)\<lparr>nd_out := nd_out (nodes ! nat t) @ [eid]\<rparr>]"
  have "add_out eid ts m = add_out eid (t # ts) nodes"
    by (rule nth_equalityI) (use t in \<open>auto simp: m_def hg_simps nth_list_update vsize_def\<close>)
  then show ?case
    using t Cons.IH [of m] rest by (simp add: m_def vat_eq vset_eq vsize_def)
qed

lemma push_edge_runs [hg_simps]:
  "(\<And>t. t \<in> set (ed_tails e) \<Longrightarrow> 0 \<le> t \<and> t < vsize (hg_nodes hg)) \<Longrightarrow>
   push_edge e hg = Some (vsize (hg_edges hg),
     hg\<lparr>hg_edges := hg_edges hg @ [e\<lparr>ed_id := vsize (hg_edges hg)\<rparr>],
        hg_nodes := add_out (vsize (hg_edges hg)) (ed_tails e) (hg_nodes hg)\<rparr>)"
  by (simp add: push_edge_def Let_def index_tails_def index_tails_nodes)

lemma count_list_outside: "(\<And>x. x \<in> set xs \<Longrightarrow> x < b) \<Longrightarrow> (b :: int) \<le> n \<Longrightarrow> count_list xs n = 0"
  by (rule count_notin) force

text \<open>The three parts of the invariant, for one node or one edge.\<close>

lemma consistent_hgI:
  assumes "\<And>n. n < length (hg_nodes hg) \<Longrightarrow> nd_id (hg_nodes hg ! n) = int n"
    and "\<And>e. e < length (hg_edges hg) \<Longrightarrow> ed_id (hg_edges hg ! e) = int e"
    and "\<And>e t. e < length (hg_edges hg) \<Longrightarrow> t \<in> set (ed_tails (hg_edges hg ! e)) \<Longrightarrow> 0 \<le> t \<and> t < vsize (hg_nodes hg)"
    and "\<And>e. e < length (hg_edges hg) \<Longrightarrow> int e \<notin> loose \<Longrightarrow>
      0 \<le> ed_head (hg_edges hg ! e) \<and> ed_head (hg_edges hg ! e) < vsize (hg_nodes hg)"
    and "\<And>n. n < length (hg_nodes hg) \<Longrightarrow> distinct (nd_in (hg_nodes hg ! n))"
    and "\<And>n e. n < length (hg_nodes hg) \<Longrightarrow> e \<in> set (nd_in (hg_nodes hg ! n)) \<longleftrightarrow>
      0 \<le> e \<and> e < vsize (hg_edges hg) \<and> e \<notin> loose \<and> ed_head (hg_edges hg ! nat e) = int n"
    and "\<And>n e. n < length (hg_nodes hg) \<Longrightarrow> count_list (nd_out (hg_nodes hg ! n)) e =
      (if 0 \<le> e \<and> e < vsize (hg_edges hg) then count_list (ed_tails (hg_edges hg ! nat e)) (int n) else 0)"
  shows "consistent_hg loose hg"
  using assms by (simp add: consistent_hg_def)

lemma consistentD:
  assumes "consistent_hg loose hg"
  shows "n < length (hg_nodes hg) \<Longrightarrow> nd_id (hg_nodes hg ! n) = int n"
    and "e < length (hg_edges hg) \<Longrightarrow> ed_id (hg_edges hg ! e) = int e"
    and "e < length (hg_edges hg) \<Longrightarrow> t \<in> set (ed_tails (hg_edges hg ! e)) \<Longrightarrow> 0 \<le> t \<and> t < vsize (hg_nodes hg)"
    and "e < length (hg_edges hg) \<Longrightarrow> int e \<notin> loose \<Longrightarrow>
      0 \<le> ed_head (hg_edges hg ! e) \<and> ed_head (hg_edges hg ! e) < vsize (hg_nodes hg)"
    and "n < length (hg_nodes hg) \<Longrightarrow> distinct (nd_in (hg_nodes hg ! n))"
    and "n < length (hg_nodes hg) \<Longrightarrow> k \<in> set (nd_in (hg_nodes hg ! n)) \<longleftrightarrow>
      0 \<le> k \<and> k < vsize (hg_edges hg) \<and> k \<notin> loose \<and> ed_head (hg_edges hg ! nat k) = int n"
    and "n < length (hg_nodes hg) \<Longrightarrow> count_list (nd_out (hg_nodes hg ! n)) k =
      (if 0 \<le> k \<and> k < vsize (hg_edges hg) then count_list (ed_tails (hg_edges hg ! nat k)) (int n) else 0)"
  using assms by (auto simp: consistent_hg_def)

lemma AddNode_consistent:
  assumes c: "consistent_hg loose hg"
  shows "consistent_hg loose (snd (AddNode cat hg))"
proof -
  define nd where "nd = new_hg_node\<lparr>nd_cat := cat, nd_id := vsize (hg_nodes hg)\<rparr>"
  have hg': "snd (AddNode cat hg) = hg\<lparr>hg_nodes := hg_nodes hg @ [nd]\<rparr>"
    by (simp add: AddNode_def Let_def nd_def)
  have nd: "nd_id nd = vsize (hg_nodes hg)" "nd_in nd = []" "nd_out nd = []"
    by (simp_all add: nd_def new_hg_node_def)
  have new: "n < length (hg_nodes hg @ [nd]) \<longleftrightarrow> n < length (hg_nodes hg) \<or> n = length (hg_nodes hg)" for n
    by auto
  have headless: "ed_head (hg_edges hg ! nat e) \<noteq> int (length (hg_nodes hg))" if "0 \<le> e" "e < vsize (hg_edges hg)" "e \<notin> loose" for e
    using consistentD(4) [OF c, of "nat e"] that by (auto simp: vsize_def nat_less_iff)
  have tailless: "count_list (ed_tails (hg_edges hg ! nat e)) (int (length (hg_nodes hg))) = 0" if "0 \<le> e" "e < vsize (hg_edges hg)" for e
    by (rule count_list_outside [of _ "vsize (hg_nodes hg)"]) (use consistentD(3) [OF c, of "nat e"] that in \<open>auto simp: vsize_def nat_less_iff\<close>)
  show ?thesis
    unfolding hg' by (rule consistent_hgI)
      (use consistentD [OF c] headless tailless nd in \<open>auto simp: nth_append new vsize_def less_Suc_eq intro: less_SucI dest: consistentD(3,4) [OF c]\<close>)
qed

lemma push_edge_consistent:
  assumes c: "consistent_hg loose hg"
    and tails: "\<And>t. t \<in> set (ed_tails e) \<Longrightarrow> 0 \<le> t \<and> t < vsize (hg_nodes hg)"
  shows "\<exists>hg'. push_edge e hg = Some (vsize (hg_edges hg), hg') \<and> consistent_hg (insert (vsize (hg_edges hg)) loose) hg'"
proof -
  define k where "k = vsize (hg_edges hg)"
  define hg' where "hg' = hg\<lparr>hg_edges := hg_edges hg @ [e\<lparr>ed_id := k\<rparr>], hg_nodes := add_out k (ed_tails e) (hg_nodes hg)\<rparr>"
  have run: "push_edge e hg = Some (k, hg')"
    unfolding hg'_def k_def by (rule push_edge_runs) (rule tails)
  have edge: "hg_edges hg' ! n = (if n < length (hg_edges hg) then hg_edges hg ! n else e\<lparr>ed_id := k\<rparr>)"
    if "n < length (hg_edges hg')" for n
    using that by (auto simp: hg'_def nth_append less_Suc_eq)
  have len: "length (hg_edges hg') = Suc (length (hg_edges hg))" "length (hg_nodes hg') = length (hg_nodes hg)" "k = int (length (hg_edges hg))"
    by (auto simp: hg'_def k_def vsize_def)
  have node: "nd_id (hg_nodes hg' ! n) = nd_id (hg_nodes hg ! n)" "nd_in (hg_nodes hg' ! n) = nd_in (hg_nodes hg ! n)"
    "nd_out (hg_nodes hg' ! n) = nd_out (hg_nodes hg ! n) @ replicate (count_list (ed_tails e) (int n)) k"
    if "n < length (hg_nodes hg)" for n
    using that by (simp_all add: hg'_def hg_simps)
  have rep: "count_list (replicate m k) x = (if x = k then m else 0)" for m x
    by (induction m) auto
  have "consistent_hg (insert k loose) hg'"
  proof (rule consistent_hgI)
    show "count_list (nd_out (hg_nodes hg' ! n)) x =
      (if 0 \<le> x \<and> x < vsize (hg_edges hg') then count_list (ed_tails (hg_edges hg' ! nat x)) (int n) else 0)"
      if "n < length (hg_nodes hg')" for n x
      using that consistentD(7) [OF c, of n x] by (auto simp: node edge len rep [unfolded len(3)] vsize_def nat_less_iff)
    show "x \<in> set (nd_in (hg_nodes hg' ! n)) \<longleftrightarrow>
      0 \<le> x \<and> x < vsize (hg_edges hg') \<and> x \<notin> insert k loose \<and> ed_head (hg_edges hg' ! nat x) = int n"
      if "n < length (hg_nodes hg')" for n x
      using that consistentD(6) [OF c, of n x] by (auto simp: node edge len vsize_def nat_less_iff)
  qed (use consistentD [OF c] tails in \<open>auto simp: edge node len vsize_def less_Suc_eq\<close>)
  with run show ?thesis
    by (auto simp: k_def)
qed

lemma ConnectEdgeToHeadNode_consistent:
  assumes c: "consistent_hg loose hg" and e: "e \<in> loose" "0 \<le> e" "e < vsize (hg_edges hg)" and n: "0 \<le> n" "n < vsize (hg_nodes hg)"
  shows "\<exists>hg'. ConnectEdgeToHeadNode e n hg = Some hg' \<and> consistent_hg (loose - {e}) hg'"
proof -
  define hg' where "hg' = hg\<lparr>hg_edges := (hg_edges hg)[nat e := (hg_edges hg ! nat e)\<lparr>ed_head := n\<rparr>],
    hg_nodes := (hg_nodes hg)[nat n := (hg_nodes hg ! nat n)\<lparr>nd_in := nd_in (hg_nodes hg ! nat n) @ [e]\<rparr>]\<rparr>"
  have run: "ConnectEdgeToHeadNode e n hg = Some hg'"
    using e n by (simp add: ConnectEdgeToHeadNode_def hg'_def vat_eq vset_eq vsize_def)
  have len: "length (hg_edges hg') = length (hg_edges hg)" "length (hg_nodes hg') = length (hg_nodes hg)"
    by (auto simp: hg'_def)
  have edge: "ed_id (hg_edges hg' ! i) = ed_id (hg_edges hg ! i)" "ed_tails (hg_edges hg' ! i) = ed_tails (hg_edges hg ! i)"
    "ed_head (hg_edges hg' ! i) = (if i = nat e then n else ed_head (hg_edges hg ! i))" if "i < length (hg_edges hg)" for i
    using that by (cases "i = nat e"; simp add: hg'_def)+
  have node: "nd_id (hg_nodes hg' ! i) = nd_id (hg_nodes hg ! i)" "nd_out (hg_nodes hg' ! i) = nd_out (hg_nodes hg ! i)"
    "nd_in (hg_nodes hg' ! i) = nd_in (hg_nodes hg ! i) @ (if i = nat n then [e] else [])" if "i < length (hg_nodes hg)" for i
    using that by (cases "i = nat n"; simp add: hg'_def)+
  have "consistent_hg (loose - {e}) hg'"
  proof (rule consistent_hgI)
    show "count_list (nd_out (hg_nodes hg' ! i)) x =
      (if 0 \<le> x \<and> x < vsize (hg_edges hg') then count_list (ed_tails (hg_edges hg' ! nat x)) (int i) else 0)"
      if "i < length (hg_nodes hg')" for i x
      using that consistentD(7) [OF c, of i x] by (auto simp: node edge len vsize_def nat_less_iff)
    show "x \<in> set (nd_in (hg_nodes hg' ! i)) \<longleftrightarrow>
      0 \<le> x \<and> x < vsize (hg_edges hg') \<and> x \<notin> loose - {e} \<and> ed_head (hg_edges hg' ! nat x) = int i"
      if "i < length (hg_nodes hg')" for i x
      using that e n consistentD(6) [OF c, of i x] by (auto simp: node edge len vsize_def nat_less_iff eq_nat_nat_iff split: if_splits)
    show "distinct (nd_in (hg_nodes hg' ! i))" if "i < length (hg_nodes hg')" for i
      using that e consistentD(5,6) [OF c, of i] by (auto simp: node len)
    show "nd_id (hg_nodes hg' ! i) = int i" if "i < length (hg_nodes hg')" for i
      using that consistentD(1) [OF c, of i] by (simp add: node len)
    show "ed_id (hg_edges hg' ! i) = int i" if "i < length (hg_edges hg')" for i
      using that consistentD(2) [OF c, of i] by (simp add: edge len)
    show "0 \<le> t \<and> t < vsize (hg_nodes hg')" if "i < length (hg_edges hg')" "t \<in> set (ed_tails (hg_edges hg' ! i))" for i t
      using that consistentD(3) [OF c, of i t] by (simp add: edge len vsize_def)
    show "0 \<le> ed_head (hg_edges hg' ! i) \<and> ed_head (hg_edges hg' ! i) < vsize (hg_nodes hg')"
      if "i < length (hg_edges hg')" "int i \<notin> loose - {e}" for i
      using that consistentD(4) [OF c, of i] n e by (auto simp: edge len vsize_def)
  qed
  with run show ?thesis
    by blast
qed

text \<open>A test for the invariant.\<close>

definition hg_check :: "('f, 'w) hypergraph \<Rightarrow> bool" where
  "hg_check hg = (
     list_all (\<lambda>(i, n). nd_id n = int i \<and> distinct (nd_in n) \<and>
       list_all (\<lambda>e. 0 \<le> e \<and> e < vsize (hg_edges hg) \<and> ed_head (hg_edges hg ! nat e) = int i) (nd_in n) \<and>
       list_all (\<lambda>e. 0 \<le> e \<and> e < vsize (hg_edges hg)) (nd_out n) \<and>
       list_all (\<lambda>(k, e). count_list (nd_out n) (int k) = count_list (ed_tails e) (int i)) (enumerate 0 (hg_edges hg)))
       (enumerate 0 (hg_nodes hg)) \<and>
     list_all (\<lambda>(k, e). ed_id e = int k \<and> list_all (\<lambda>t. 0 \<le> t \<and> t < vsize (hg_nodes hg)) (ed_tails e) \<and>
       0 \<le> ed_head e \<and> ed_head e < vsize (hg_nodes hg) \<and> int k \<in> set (nd_in (hg_nodes hg ! nat (ed_head e))))
       (enumerate 0 (hg_edges hg)))"

lemma list_all_enumerate: "list_all (\<lambda>(i, x). P i x) (enumerate 0 xs) \<longleftrightarrow> (\<forall>i < length xs. P i (xs ! i))"
  by (simp add: list_all_length nth_enumerate_eq)

lemma hg_check_consistent:
  assumes "hg_check hg"
  shows "consistent_hg {} hg"
proof -
  have node: "nd_id (hg_nodes hg ! i) = int i" "distinct (nd_in (hg_nodes hg ! i))"
    "\<And>e. e \<in> set (nd_in (hg_nodes hg ! i)) \<Longrightarrow> 0 \<le> e \<and> e < vsize (hg_edges hg) \<and> ed_head (hg_edges hg ! nat e) = int i"
    "\<And>e. e \<in> set (nd_out (hg_nodes hg ! i)) \<Longrightarrow> 0 \<le> e \<and> e < vsize (hg_edges hg)"
    "\<And>k. k < length (hg_edges hg) \<Longrightarrow> count_list (nd_out (hg_nodes hg ! i)) (int k) = count_list (ed_tails (hg_edges hg ! k)) (int i)"
    if "i < length (hg_nodes hg)" for i
    using assms that by (simp_all add: hg_check_def list_all_enumerate) (auto simp: list_all_iff)
  have edge: "ed_id (hg_edges hg ! k) = int k" "\<And>t. t \<in> set (ed_tails (hg_edges hg ! k)) \<Longrightarrow> 0 \<le> t \<and> t < vsize (hg_nodes hg)"
    "0 \<le> ed_head (hg_edges hg ! k) \<and> ed_head (hg_edges hg ! k) < vsize (hg_nodes hg)"
    "int k \<in> set (nd_in (hg_nodes hg ! nat (ed_head (hg_edges hg ! k))))"
    if "k < length (hg_edges hg)" for k
    using assms that by (simp_all add: hg_check_def list_all_enumerate) (auto simp: list_all_iff)
  show ?thesis
  proof (rule consistent_hgI)
    fix n e assume n: "n < length (hg_nodes hg)"
    show "e \<in> set (nd_in (hg_nodes hg ! n)) \<longleftrightarrow> 0 \<le> e \<and> e < vsize (hg_edges hg) \<and> e \<notin> {} \<and> ed_head (hg_edges hg ! nat e) = int n"
      using node(3) [OF n, of e] edge(4) [of "nat e"] by (auto simp: vsize_def nat_less_iff)
    show "count_list (nd_out (hg_nodes hg ! n)) e =
        (if 0 \<le> e \<and> e < vsize (hg_edges hg) then count_list (ed_tails (hg_edges hg ! nat e)) (int n) else 0)"
    proof (cases "0 \<le> e \<and> e < vsize (hg_edges hg)")
      case True
      then show ?thesis using node(5) [OF n, of "nat e"] by (auto simp: vsize_def nat_less_iff)
    next
      case False
      then show ?thesis using node(4) [OF n, of e] by (auto intro: count_notin)
    qed
  qed (use node edge in auto)
qed

text \<open>
  What building leads to: any order of the operations in which an edge is added to existing nodes and
  connected once, to an existing node.
\<close>

inductive hg_built :: "int set \<Rightarrow> ('f, 'w) hypergraph \<Rightarrow> bool" where
  built_empty: "hg_built {} empty_hypergraph"
| built_node: "hg_built loose hg \<Longrightarrow> AddNode cat hg = (i, hg') \<Longrightarrow> hg_built loose hg'"
| built_edge: "hg_built loose hg \<Longrightarrow> AddEdge e hg = Some (i, hg') \<Longrightarrow> hg_built (insert i loose) hg'"
| built_copy: "hg_built loose hg \<Longrightarrow> AddEdge_copy nof z e tail hg = Some (i, hg') \<Longrightarrow> hg_built (insert i loose) hg'"
| built_rule: "hg_built loose hg \<Longrightarrow> AddEdge_rule nof z r tail hg = Some (i, hg') \<Longrightarrow> hg_built (insert i loose) hg'"
| built_head: "hg_built loose hg \<Longrightarrow> e \<in> loose \<Longrightarrow> ConnectEdgeToHeadNode e n hg = Some hg' \<Longrightarrow> hg_built (loose - {e}) hg'"

lemma push_edge_tails:
  assumes "push_edge e hg = Some (i, hg')" and "t \<in> set (ed_tails e)"
  shows "0 \<le> t \<and> t < vsize (hg_nodes hg)"
proof -
  have "for_each ts (\<lambda>t nodes. do { n \<leftarrow> vat nodes t; vset nodes t (n\<lparr>nd_out := nd_out n @ [k]\<rparr>) }) nodes = Some nodes' \<Longrightarrow>
      t \<in> set ts \<Longrightarrow> 0 \<le> t \<and> t < vsize nodes" for ts k nodes nodes'
  proof (induction ts arbitrary: nodes)
    case (Cons u ts)
    then show ?case
      by (auto elim!: bind_SomeE dest!: Cons.IH simp: vat_Some_iff vset_Some_iff vsize_def)
  qed simp
  with assms show ?thesis
    by (auto simp: push_edge_def Let_def index_tails_def elim!: bind_SomeE)
qed

lemma push_edge_step: "consistent_hg loose hg \<Longrightarrow> push_edge e hg = Some (i, hg') \<Longrightarrow> consistent_hg (insert i loose) hg'"
  using push_edge_consistent [of loose hg e] push_edge_tails [of e hg i hg'] by auto

lemma consistent_loose: "consistent_hg loose hg \<Longrightarrow> ConnectEdgeToHeadNode e n hg = Some hg' \<Longrightarrow> e \<in> loose \<Longrightarrow> consistent_hg (loose - {e}) hg'"
  using ConnectEdgeToHeadNode_consistent [of loose hg e n]
  by (auto simp: ConnectEdgeToHeadNode_def vat_Some_iff vset_Some_iff vsize_def elim!: bind_SomeE)

text \<open>C27. However a hypergraph is built with \<open>AddNode\<close>, the three \<open>AddEdge\<close> and \<open>ConnectEdgeToHeadNode\<close>,
  ids stay positions, tails and heads stay nodes of the graph, every node lists as in-edges exactly the
  edges connected to it, once each, and as out-edges every edge as often as the node is among its tails.\<close>

theorem built_consistent:
  "hg_built loose hg \<Longrightarrow> consistent_hg loose hg"
proof (induction rule: hg_built.induct)
  case (built_node loose hg cat i hg')
  then show ?case
    using AddNode_consistent [of loose hg cat] by simp
qed (auto simp: consistent_empty AddEdge_def AddEdge_copy_def AddEdge_rule_def intro: push_edge_step consistent_loose)

definition demo_rule :: "int trule" where
  "demo_rule = TRule_sides 0 [7] [8] (-2) 0 0 0"

lemma built_consistent_witness:
  "consistent_hg {} (the (ConnectEdgeToHeadNode 0 1 (snd (the (AddEdge_rule (0 :: int) (0 :: int) demo_rule [0, 0]
     (snd (AddNode (-2) (snd (AddNode (-1) empty_hypergraph)))))))))"
proof -
  let ?h2 = "snd (AddNode (-2) (snd (AddNode (-1) empty_hypergraph))) :: (int, int) hypergraph"
  have b2: "hg_built {} ?h2"
    by (rule built_node [OF built_node [OF built_empty]]) (rule prod.collapse [symmetric])+
  have e: "AddEdge_rule 0 0 demo_rule [0, 0] ?h2 = Some (0, snd (the (AddEdge_rule 0 0 demo_rule [0, 0] ?h2)))"
    by code_simp
  have h: "ConnectEdgeToHeadNode 0 1 (snd (the (AddEdge_rule 0 0 demo_rule [0, 0] ?h2))) =
      Some (the (ConnectEdgeToHeadNode 0 1 (snd (the (AddEdge_rule 0 0 demo_rule [0, 0] ?h2)))))"
    by code_simp
  have "hg_built ({0} - {0}) (the (ConnectEdgeToHeadNode 0 1 (snd (the (AddEdge_rule 0 0 demo_rule [0, 0] ?h2)))))"
    by (rule built_head [OF built_rule [OF b2 e] _ h]) simp
  then have "hg_built {} (the (ConnectEdgeToHeadNode 0 1 (snd (the (AddEdge_rule 0 0 demo_rule [0, 0] ?h2)))))"
    by simp
  then show ?thesis
    by (rule built_consistent)
qed

end
