(* ===== verification/LogVal.thy ===== *)
theory LogVal
  imports Doubles
begin

text \<open>
  \<open>LogVal<T>\<close> (\<open>utils/logval.h\<close>), the type \<open>prob_t\<close> of the decoder: a number is kept as its sign and the
  logarithm of its absolute value. The operations on \<open>T\<close> are a parameter; \<open>exact_reals\<close> is the instance
  of real numbers with the infinities and the not-a-number of IEEE 754, which has no rounding and one zero.
\<close>

record 'd log_floats = "'d floats" +
  lf_eq :: "'d \<Rightarrow> 'd \<Rightarrow> bool"
  lf_signbit :: "'d \<Rightarrow> bool"
  lf_infinity :: 'd
  lf_exp :: "'d \<Rightarrow> 'd"
  lf_log :: "'d \<Rightarrow> 'd"
  lf_log1p :: "'d \<Rightarrow> 'd"

record 'd logval =
  lv_s :: bool
  lv_v :: 'd

definition LOGVAL_LOG0 :: "('d, 'z) log_floats_scheme \<Rightarrow> 'd" where
  "LOGVAL_LOG0 fl = fl_neg fl (lf_infinity fl)"

section \<open>Construction\<close>

definition LogVal_double :: "('d, 'z) log_floats_scheme \<Rightarrow> 'd \<Rightarrow> 'd logval" where
  "LogVal_double fl x = (let s = lf_signbit fl x in
     \<lparr>lv_s = s, lv_v = (if s then lf_log fl (fl_neg fl x) else lf_log fl x)\<rparr>)"

definition lv_Zero :: "('d, 'z) log_floats_scheme \<Rightarrow> 'd logval" where
  "lv_Zero fl = \<lparr>lv_s = False, lv_v = LOGVAL_LOG0 fl\<rparr>"

definition lv_One :: "('d, 'z) log_floats_scheme \<Rightarrow> 'd logval" where
  "lv_One fl = LogVal_double fl (fl_of_int fl 1)"

definition lv_exp :: "'d \<Rightarrow> 'd logval" where
  "lv_exp lnx = \<lparr>lv_s = False, lv_v = lnx\<rparr>"

definition lv_e :: "('d, 'z) log_floats_scheme \<Rightarrow> 'd logval" where
  "lv_e fl = \<lparr>lv_s = False, lv_v = fl_of_int fl 1\<rparr>"

definition logeq :: "'d \<Rightarrow> 'd logval" where
  "logeq v = \<lparr>lv_s = False, lv_v = v\<rparr>"

definition is_1 :: "('d, 'z) log_floats_scheme \<Rightarrow> 'd logval \<Rightarrow> bool" where
  "is_1 fl x = (lf_eq fl (lv_v x) (fl_of_int fl 0) \<and> \<not> lv_s x)"

definition is_0 :: "('d, 'z) log_floats_scheme \<Rightarrow> 'd logval \<Rightarrow> bool" where
  "is_0 fl x = lf_eq fl (lv_v x) (LOGVAL_LOG0 fl)"

section \<open>Arithmetic\<close>

definition negate :: "'d logval \<Rightarrow> 'd logval" where
  "negate x = x\<lparr>lv_s := \<not> lv_s x\<rparr>"

definition plus_eq :: "('d, 'z) log_floats_scheme \<Rightarrow> 'd logval \<Rightarrow> 'd logval \<Rightarrow> 'd logval" where
  "plus_eq fl x a =
     (if is_0 fl a then x
      else if lv_s a = lv_s x then
        (if fl_less fl (lv_v a) (lv_v x)
         then x\<lparr>lv_v := fl_add fl (lv_v x) (lf_log1p fl (lf_exp fl (fl_sub fl (lv_v a) (lv_v x))))\<rparr>
         else x\<lparr>lv_v := fl_add fl (lv_v a) (lf_log1p fl (lf_exp fl (fl_sub fl (lv_v x) (lv_v a))))\<rparr>)
      else
        (if fl_less fl (lv_v a) (lv_v x)
         then x\<lparr>lv_v := fl_add fl (lv_v x) (lf_log1p fl (fl_neg fl (lf_exp fl (fl_sub fl (lv_v a) (lv_v x)))))\<rparr>
         else \<lparr>lv_s = (\<not> lv_s x), lv_v = fl_add fl (lv_v a) (lf_log1p fl (fl_neg fl (lf_exp fl (fl_sub fl (lv_v x) (lv_v a)))))\<rparr>))"

definition times_eq :: "('d, 'z) log_floats_scheme \<Rightarrow> 'd logval \<Rightarrow> 'd logval \<Rightarrow> 'd logval" where
  "times_eq fl x a = \<lparr>lv_s = (lv_s x \<noteq> lv_s a), lv_v = fl_add fl (lv_v x) (lv_v a)\<rparr>"

definition div_eq :: "('d, 'z) log_floats_scheme \<Rightarrow> 'd logval \<Rightarrow> 'd logval \<Rightarrow> 'd logval" where
  "div_eq fl x a = \<lparr>lv_s = (lv_s x \<noteq> lv_s a), lv_v = fl_sub fl (lv_v x) (lv_v a)\<rparr>"

definition minus_eq :: "('d, 'z) log_floats_scheme \<Rightarrow> 'd logval \<Rightarrow> 'd logval \<Rightarrow> 'd logval" where
  "minus_eq fl x a = (let b = negate a in plus_eq fl x b)"

definition besteq :: "('d, 'z) log_floats_scheme \<Rightarrow> 'd logval \<Rightarrow> 'd logval \<Rightarrow> 'd logval option" where
  "besteq fl x a = do {
     check (\<not> lv_s a \<and> \<not> lv_s x);
     Some (if fl_less fl (lv_v a) (lv_v x) then x\<lparr>lv_v := lv_v a\<rparr> else x) }"

definition abslog :: "('d, 'z) log_floats_scheme \<Rightarrow> 'd logval \<Rightarrow> 'd logval" where
  "abslog fl x = (if fl_less fl (lv_v x) (fl_of_int fl 0) then x\<lparr>lv_v := fl_neg fl (lv_v x)\<rparr> else x)"

definition poweq :: "('d, 'z) log_floats_scheme \<Rightarrow> 'd logval \<Rightarrow> 'd \<Rightarrow> 'd logval" where
  "poweq fl x p = x\<lparr>lv_v := fl_mul fl (lv_v x) p\<rparr>"

definition lv_pow :: "('d, 'z) log_floats_scheme \<Rightarrow> 'd logval \<Rightarrow> 'd \<Rightarrow> 'd logval" where
  "lv_pow fl x p = poweq fl x p"

definition lv_root :: "('d, 'z) log_floats_scheme \<Rightarrow> 'd logval \<Rightarrow> 'd \<Rightarrow> 'd logval" where
  "lv_root fl x r = lv_pow fl x (fl_div fl (fl_of_int fl 1) r)"

definition lv_inverse :: "('d, 'z) log_floats_scheme \<Rightarrow> 'd logval \<Rightarrow> 'd logval" where
  "lv_inverse fl x = \<lparr>lv_s = lv_s x, lv_v = fl_neg fl (lv_v x)\<rparr>"

definition as_float :: "('d, 'z) log_floats_scheme \<Rightarrow> 'd logval \<Rightarrow> 'd" where
  "as_float fl x = (if lv_s x then fl_neg fl (lf_exp fl (lv_v x)) else lf_exp fl (lv_v x))"

text \<open>\<open>LOGVAL_CHECK_NEG\<close> is defined (as \<open>false\<close>), so the \<open>#ifdef\<close> of \<open>log\<close> takes its first branch.\<close>

definition lv_log :: "('d, 'z) log_floats_scheme \<Rightarrow> 'd logval \<Rightarrow> 'd" where
  "lv_log fl x = (if lv_s x then lf_log fl (fl_neg fl (fl_of_int fl 1)) else lv_v x)"

definition lv_abs :: "'d logval \<Rightarrow> 'd logval" where
  "lv_abs x = (if lv_s x then x\<lparr>lv_s := False\<rparr> else x)"

definition lv_star :: "('d, 'z) log_floats_scheme \<Rightarrow> 'd logval \<Rightarrow> 'd logval" where
  "lv_star fl x =
     (if is_0 fl x then x
      else if fl_less fl (fl_of_int fl 0) (lv_v x) \<or> lf_eq fl (lv_v x) (fl_of_int fl 0) then x\<lparr>lv_v := lf_infinity fl\<rparr>
      else x\<lparr>lv_v := fl_neg fl (lf_log1p fl (fl_neg fl (as_float fl x)))\<rparr>)"

section \<open>Comparison\<close>

definition lv_lt :: "('d, 'z) log_floats_scheme \<Rightarrow> 'd logval \<Rightarrow> 'd logval \<Rightarrow> bool" where
  "lv_lt fl x a = (if lv_s x = lv_s a then fl_less fl (lv_v x) (lv_v a) else lv_s x \<and> \<not> lv_s a)"

definition lv_gt :: "('d, 'z) log_floats_scheme \<Rightarrow> 'd logval \<Rightarrow> 'd logval \<Rightarrow> bool" where
  "lv_gt fl x a = (if lv_s x = lv_s a then fl_less fl (lv_v a) (lv_v x) else \<not> lv_s x \<and> lv_s a)"

definition lv_eq :: "('d, 'z) log_floats_scheme \<Rightarrow> 'd logval \<Rightarrow> 'd logval \<Rightarrow> bool" where
  "lv_eq fl x a = (lf_eq fl (lv_v x) (lv_v a) \<and> lv_s x = lv_s a)"

definition lv_less :: "('d, 'z) log_floats_scheme \<Rightarrow> 'd logval \<Rightarrow> 'd logval \<Rightarrow> bool" where
  "lv_less fl x a = (if lv_s x = lv_s a then fl_less fl (lv_v x) (lv_v a) else lv_s x \<and> \<not> lv_s a)"

definition lv_less_eq :: "('d, 'z) log_floats_scheme \<Rightarrow> 'd logval \<Rightarrow> 'd logval \<Rightarrow> bool" where
  "lv_less_eq fl x a = (lv_less fl x a \<or> lv_eq fl x a)"

definition lv_greater :: "('d, 'z) log_floats_scheme \<Rightarrow> 'd logval \<Rightarrow> 'd logval \<Rightarrow> bool" where
  "lv_greater fl x a = (\<not> lv_less_eq fl x a)"

definition lv_greater_eq :: "('d, 'z) log_floats_scheme \<Rightarrow> 'd logval \<Rightarrow> 'd logval \<Rightarrow> bool" where
  "lv_greater_eq fl x a = (\<not> lv_less fl x a)"

section \<open>Exact reals\<close>

datatype xreal = Fin real | PInf | MInf | NaN

fun x_add :: "xreal \<Rightarrow> xreal \<Rightarrow> xreal" where
  "x_add (Fin a) (Fin b) = Fin (a + b)"
| "x_add (Fin a) y = y"
| "x_add NaN y = NaN"
| "x_add x NaN = NaN"
| "x_add PInf MInf = NaN"
| "x_add MInf PInf = NaN"
| "x_add x y = x"

fun x_neg :: "xreal \<Rightarrow> xreal" where
  "x_neg (Fin a) = Fin (- a)"
| "x_neg PInf = MInf"
| "x_neg MInf = PInf"
| "x_neg NaN = NaN"

definition x_scale :: "real \<Rightarrow> xreal \<Rightarrow> xreal" where
  "x_scale a x = (if a = 0 then NaN else if 0 < a then x else x_neg x)"

fun x_mul :: "xreal \<Rightarrow> xreal \<Rightarrow> xreal" where
  "x_mul (Fin a) (Fin b) = Fin (a * b)"
| "x_mul (Fin a) y = x_scale a y"
| "x_mul x (Fin b) = x_scale b x"
| "x_mul PInf y = y"
| "x_mul MInf y = x_neg y"
| "x_mul NaN y = NaN"

fun x_div :: "xreal \<Rightarrow> xreal \<Rightarrow> xreal" where
  "x_div (Fin a) (Fin b) = (if b = 0 then x_scale a PInf else Fin (a / b))"
| "x_div NaN y = NaN"
| "x_div x NaN = NaN"
| "x_div (Fin a) y = Fin 0"
| "x_div x (Fin b) = (if b = 0 then x else x_scale b x)"
| "x_div x y = NaN"

fun x_less :: "xreal \<Rightarrow> xreal \<Rightarrow> bool" where
  "x_less (Fin a) (Fin b) = (a < b)"
| "x_less NaN y = False"
| "x_less x NaN = False"
| "x_less MInf y = (y \<noteq> MInf)"
| "x_less x PInf = (x \<noteq> PInf)"
| "x_less x y = False"

fun x_exp :: "xreal \<Rightarrow> xreal" where
  "x_exp (Fin a) = Fin (exp a)"
| "x_exp MInf = Fin 0"
| "x_exp x = x"

fun x_log :: "xreal \<Rightarrow> xreal" where
  "x_log (Fin a) = (if 0 < a then Fin (ln a) else if a = 0 then MInf else NaN)"
| "x_log PInf = PInf"
| "x_log x = NaN"

fun x_round :: "xreal \<Rightarrow> int" where
  "x_round (Fin a) = (if 0 \<le> a then \<lfloor>a + 1 / 2\<rfloor> else \<lceil>a - 1 / 2\<rceil>)"
| "x_round x = 0"

definition exact_reals :: "xreal log_floats" where
  "exact_reals = \<lparr>fl_of_int = \<lambda>i. Fin (of_int i), fl_add = x_add, fl_sub = \<lambda>x y. x_add x (x_neg y), fl_neg = x_neg,
     fl_mul = x_mul, fl_div = x_div, fl_less = x_less, fl_round = x_round, fl_log10 = \<lambda>x. x_div (x_log x) (Fin (ln 10)),
     lf_eq = \<lambda>x y. x = y \<and> x \<noteq> NaN, lf_signbit = \<lambda>x. x_less x (Fin 0), lf_infinity = PInf, lf_exp = x_exp, lf_log = x_log,
     lf_log1p = \<lambda>x. x_log (x_add (Fin 1) x)\<rparr>"

lemma exact_reals_simps [simp]:
  "fl_of_int exact_reals i = Fin (of_int i)" "fl_add exact_reals = x_add" "fl_sub exact_reals x y = x_add x (x_neg y)"
  "fl_neg exact_reals = x_neg" "fl_mul exact_reals = x_mul" "fl_div exact_reals = x_div" "fl_less exact_reals = x_less"
  "lf_eq exact_reals x y \<longleftrightarrow> x = y \<and> x \<noteq> NaN" "lf_signbit exact_reals x = x_less x (Fin 0)" "lf_infinity exact_reals = PInf"
  "lf_exp exact_reals = x_exp" "lf_log exact_reals = x_log" "lf_log1p exact_reals x = x_log (x_add (Fin 1) x)"
  by (simp_all add: exact_reals_def)

text \<open>The logarithm of a number is finite, or minus infinity for 0.\<close>

definition lv_ok :: "xreal logval \<Rightarrow> bool" where
  "lv_ok x \<longleftrightarrow> (\<exists>a. lv_v x = Fin a) \<or> lv_v x = MInf"

definition lv_value :: "xreal logval \<Rightarrow> real" where
  "lv_value x = (if lv_s x then - 1 else 1) * (case lv_v x of Fin a \<Rightarrow> exp a | _ \<Rightarrow> 0)"

lemma lv_ok_cases:
  assumes "lv_ok x"
  obtains s a where "x = \<lparr>lv_s = s, lv_v = Fin a\<rparr>" | s where "x = \<lparr>lv_s = s, lv_v = MInf\<rparr>"
  using assms by (cases x) (auto simp: lv_ok_def)

lemma lv_value_simps [simp]: "lv_value \<lparr>lv_s = s, lv_v = Fin a\<rparr> = (if s then - exp a else exp a)" "lv_value \<lparr>lv_s = s, lv_v = MInf\<rparr> = 0"
  by (auto simp: lv_value_def)

lemma lv_ok_simps [simp]: "lv_ok \<lparr>lv_s = s, lv_v = Fin a\<rparr>" "lv_ok \<lparr>lv_s = s, lv_v = MInf\<rparr>"
  by (auto simp: lv_ok_def)

lemma log_sum: "exp ((v :: real) + ln (1 + exp (u - v))) = exp v + exp u"
  by (simp add: exp_add exp_ln add_pos_pos distrib_left exp_diff)

lemma log_difference: "u < v \<Longrightarrow> exp ((v :: real) + ln (1 - exp (u - v))) = exp v - exp u"
  by (simp add: exp_add exp_ln right_diff_distrib exp_diff)

lemma plus_eq_value:
  assumes "lv_ok x" "lv_ok a"
  shows "lv_ok (plus_eq exact_reals x a)" "lv_value (plus_eq exact_reals x a) = lv_value x + lv_value a"
proof -
  have "lv_ok (plus_eq exact_reals x a) \<and> lv_value (plus_eq exact_reals x a) = lv_value x + lv_value a"
    using assms(1)
  proof (cases rule: lv_ok_cases)
    case (1 s v)
    note x = 1
    show ?thesis
      using assms(2)
    proof (cases rule: lv_ok_cases)
      case (1 t u)
      have "u = v \<or> u < v \<or> v < u" by linarith
      then show ?thesis
        using log_sum [of u v] log_sum [of v u] log_difference [of u v] log_difference [of v u]
        by (cases s; cases t) (auto simp: x 1 plus_eq_def is_0_def LOGVAL_LOG0_def add_pos_pos)
    qed (auto simp: x plus_eq_def is_0_def LOGVAL_LOG0_def)
  next
    case (2 s)
    note x = 2
    show ?thesis
      using assms(2)
      by (cases rule: lv_ok_cases) (auto simp: x plus_eq_def is_0_def LOGVAL_LOG0_def)
  qed
  then show "lv_ok (plus_eq exact_reals x a)" "lv_value (plus_eq exact_reals x a) = lv_value x + lv_value a" by auto
qed

lemma times_eq_value:
  assumes "lv_ok x" "lv_ok a"
  shows "lv_ok (times_eq exact_reals x a)" "lv_value (times_eq exact_reals x a) = lv_value x * lv_value a"
  using assms by (auto elim!: lv_ok_cases simp: times_eq_def exp_add)

lemma negate_value:
  assumes "lv_ok x"
  shows "lv_ok (negate x)" "lv_value (negate x) = - lv_value x"
  using assms by (auto elim!: lv_ok_cases simp: negate_def)

lemma minus_eq_value:
  assumes "lv_ok x" "lv_ok a"
  shows "lv_ok (minus_eq exact_reals x a)" "lv_value (minus_eq exact_reals x a) = lv_value x - lv_value a"
  using assms by (simp_all add: minus_eq_def Let_def plus_eq_value negate_value)

lemma div_eq_value:
  assumes "lv_ok x" "lv_ok a" "lv_value a \<noteq> 0"
  shows "lv_ok (div_eq exact_reals x a)" "lv_value (div_eq exact_reals x a) = lv_value x / lv_value a"
  using assms by (auto elim!: lv_ok_cases simp: div_eq_def exp_diff)

lemma LogVal_double_value: "lv_ok (LogVal_double exact_reals (Fin r))" "lv_value (LogVal_double exact_reals (Fin r)) = r"
  by (auto simp: LogVal_double_def Let_def lv_ok_def lv_value_def)

lemma as_float_value: "lv_ok x \<Longrightarrow> as_float exact_reals x = Fin (lv_value x)"
  by (auto elim!: lv_ok_cases simp: as_float_def)

lemma lv_less_value:
  assumes "lv_ok x" "lv_ok a" "\<not> lv_s x" "\<not> lv_s a"
  shows "lv_less exact_reals x a \<longleftrightarrow> lv_value x < lv_value a" "lv_eq exact_reals x a \<longleftrightarrow> lv_value x = lv_value a"
  using assms by (auto elim!: lv_ok_cases simp: lv_less_def lv_eq_def)

lemma lv_pow_value:
  assumes "lv_ok x" "\<not> lv_s x" "0 < p"
  shows "lv_ok (lv_pow exact_reals x (Fin p))" "\<not> lv_s (lv_pow exact_reals x (Fin p))"
    "lv_value (lv_pow exact_reals x (Fin p)) = lv_value x powr p"
  using assms by (auto elim!: lv_ok_cases simp: lv_pow_def poweq_def x_scale_def powr_def)

text \<open>C29. Over exact reals \<open>LogVal\<close> computes with the numbers it stands for: construction from a
  \<open>double\<close> and \<open>as_float\<close> are inverse, and sum, difference, product and quotient are those of the
  values, whatever the signs and with zeros as operands.\<close>

theorem LogVal_arithmetic:
  assumes "lv_ok x" and "lv_ok a"
  shows "as_float exact_reals (LogVal_double exact_reals (Fin r)) = Fin r \<and>
    as_float exact_reals (plus_eq exact_reals x a) = Fin (lv_value x + lv_value a) \<and>
    as_float exact_reals (minus_eq exact_reals x a) = Fin (lv_value x - lv_value a) \<and>
    as_float exact_reals (times_eq exact_reals x a) = Fin (lv_value x * lv_value a) \<and>
    (lv_value a \<noteq> 0 \<longrightarrow> as_float exact_reals (div_eq exact_reals x a) = Fin (lv_value x / lv_value a))"
  using assms by (simp add: as_float_value LogVal_double_value plus_eq_value minus_eq_value times_eq_value div_eq_value)

lemma LogVal_arithmetic_witness:
  "as_float exact_reals (plus_eq exact_reals (LogVal_double exact_reals (Fin 2)) (LogVal_double exact_reals (Fin (- 5)))) = Fin (- 3) \<and>
   as_float exact_reals (div_eq exact_reals (LogVal_double exact_reals (Fin 2)) (LogVal_double exact_reals (Fin (- 5)))) = Fin (- 2 / 5)"
  using LogVal_arithmetic [OF LogVal_double_value(1) LogVal_double_value(1), of "- 5" 2] by (simp add: LogVal_double_value)

text \<open> The order of \<open>LogVal\<close> is the order of the values where the operands are not negative, but it is
  reversed on negative values: \<open>operator<\<close> compares the logarithms of the absolute values there too.\<close>

theorem LogVal_order:
  assumes "lv_ok x" and "lv_ok a"
  shows "(\<not> lv_s x \<and> \<not> lv_s a \<longrightarrow> (lv_less exact_reals x a \<longleftrightarrow> lv_value x < lv_value a)) \<and>
    (lv_s x \<and> lv_s a \<longrightarrow> (lv_less exact_reals x a \<longleftrightarrow> lv_value a < lv_value x))"
  using assms by (auto elim!: lv_ok_cases simp: lv_less_def)

lemma LogVal_order_witness:
  "lv_less exact_reals (LogVal_double exact_reals (Fin (- 1))) (LogVal_double exact_reals (Fin (- 2))) \<and>
   \<not> lv_less exact_reals (LogVal_double exact_reals (Fin 2)) (LogVal_double exact_reals (Fin 1))"
  using LogVal_order [OF LogVal_double_value(1) LogVal_double_value(1), of "- 1" "- 2"]
    LogVal_order [OF LogVal_double_value(1) LogVal_double_value(1), of 2 1]
  by (simp add: LogVal_double_value LogVal_double_def [of _ "Fin (- 1)"] LogVal_double_def [of _ "Fin (- 2)"]
      LogVal_double_def [of _ "Fin 1"] LogVal_double_def [of _ "Fin 2"] Let_def lv_value_def)

end
