(* ===== verification/Inside.thy ===== *)
theory Inside
  imports Hypergraphs LogVal
begin

text \<open>
  The inside algorithm (\<open>decoder/inside_outside.h\<close>) over the weights the decoder uses it with: \<open>Boolean\<close>,
  \<open>double\<close>, \<open>prob_t\<close> and \<open>TropicalValue\<close> (\<open>decoder/hg.cc\<close>). A weight type is the record of its
  operations; its laws are the locale \<open>semiring_on\<close>, and in it the inside score of a node is the sum over
  the derivations of the node.
\<close>

record 'w weights =
  w_zero :: 'w
  w_one :: 'w
  w_add :: "'w \<Rightarrow> 'w \<Rightarrow> 'w"
  w_mul :: "'w \<Rightarrow> 'w \<Rightarrow> 'w"

definition Boolean :: "bool weights" where
  "Boolean = \<lparr>w_zero = False, w_one = True, w_add = (\<or>), w_mul = (\<and>)\<rparr>"

definition double_weights :: "('d, 'z) floats_scheme \<Rightarrow> 'd weights" where
  "double_weights fl = \<lparr>w_zero = fl_of_int fl 0, w_one = fl_of_int fl 1, w_add = fl_add fl, w_mul = fl_mul fl\<rparr>"

definition prob_weights :: "('d, 'z) log_floats_scheme \<Rightarrow> 'd logval weights" where
  "prob_weights fl = \<lparr>w_zero = lv_Zero fl, w_one = lv_One fl, w_add = plus_eq fl, w_mul = times_eq fl\<rparr>"

definition TropicalValue :: "('d, 'z) log_floats_scheme \<Rightarrow> 'd logval weights" where
  "TropicalValue fl = \<lparr>w_zero = lv_Zero fl, w_one = lv_One fl,
     w_add = \<lambda>v o_v. if lv_less fl v o_v then o_v else v, w_mul = times_eq fl\<rparr>"

section \<open>The algorithm\<close>

definition inside_edge :: "'w weights \<Rightarrow> (('f, 'p) edge \<Rightarrow> 'w option) \<Rightarrow> 'w list \<Rightarrow> ('f, 'p) edge \<Rightarrow> 'w option" where
  "inside_edge W weight inside_score e = do {
     score \<leftarrow> weight e;
     for_each (ed_tails e) (\<lambda>t score. map_option (w_mul W score) (vat inside_score t)) score }"

definition inside_node :: "'w weights \<Rightarrow> (('f, 'p) edge \<Rightarrow> 'w option) \<Rightarrow> ('f, 'p) hypergraph \<Rightarrow> int \<Rightarrow> 'w list \<Rightarrow> 'w list option" where
  "inside_node W weight hg i inside_score = do {
     n \<leftarrow> vat (hg_nodes hg) i;
     for_each (nd_in n) (\<lambda>eid sc. do {
       e \<leftarrow> vat (hg_edges hg) eid;
       score \<leftarrow> inside_edge W weight sc e;
       cur \<leftarrow> vat sc i;
       vset sc i (w_add W cur score) }) inside_score }"

definition Inside :: "'w weights \<Rightarrow> (('f, 'p) edge \<Rightarrow> 'w option) \<Rightarrow> ('f, 'p) hypergraph \<Rightarrow> ('w \<times> 'w list) option" where
  "Inside W weight hg = do {
     let num_nodes = vsize (hg_nodes hg);
     inside_score \<leftarrow> for_each (int_range 0 num_nodes) (inside_node W weight hg) (replicate (nat num_nodes) (w_zero W));
     Some (if inside_score = [] then w_zero W else last inside_score, inside_score) }"

section \<open>Derivations\<close>

text \<open>A derivation: an edge with a derivation for each of its tails.\<close>

datatype deriv = Deriv (dv_edge: int) (dv_subs: "deriv list")

text \<open>Nodes are in topological order: the tails of an in-edge come before the node.\<close>

definition topological :: "('f, 'p) hypergraph \<Rightarrow> bool" where
  "topological hg \<longleftrightarrow> list_all (\<lambda>(i, n). list_all (\<lambda>e. 0 \<le> e \<and> e < vsize (hg_edges hg) \<and>
     list_all (\<lambda>t. 0 \<le> t \<and> t < int i) (ed_tails (hg_edges hg ! nat e))) (nd_in n)) (enumerate 0 (hg_nodes hg))"

inductive derives :: "('f, 'p) hypergraph \<Rightarrow> nat \<Rightarrow> deriv \<Rightarrow> bool" for hg where
  derives_edge: "i < length (hg_nodes hg) \<Longrightarrow> e \<in> set (nd_in (hg_nodes hg ! i)) \<Longrightarrow>
    list_all2 (\<lambda>t d. derives hg (nat t) d) (ed_tails (hg_edges hg ! nat e)) ds \<Longrightarrow> derives hg i (Deriv e ds)"

text \<open>The derivations of a node, listed; the test on the tails holds for nodes in topological order.\<close>

function derivs :: "('f, 'p) hypergraph \<Rightarrow> nat \<Rightarrow> deriv list" where
  "derivs hg i = concat (map (\<lambda>e. map (Deriv e) (product_lists
     (map (\<lambda>t. if nat t < i then derivs hg (nat t) else []) (ed_tails (hg_edges hg ! nat e))))) (nd_in (hg_nodes hg ! i)))"
  by pat_completeness auto
termination
  by (relation "measure snd") auto

declare derivs.simps [simp del]

text \<open>The weight of a derivation, multiplied in the order of the code.\<close>

fun deriv_weight :: "'w weights \<Rightarrow> (int \<Rightarrow> 'w) \<Rightarrow> deriv \<Rightarrow> 'w" where
  "deriv_weight W wt (Deriv e ds) = fold (\<lambda>d s. w_mul W s (deriv_weight W wt d)) ds (wt e)"

definition w_sum :: "'w weights \<Rightarrow> 'w list \<Rightarrow> 'w" where
  "w_sum W xs = fold (\<lambda>x s. w_add W s x) xs (w_zero W)"

definition edge_weights :: "(('f, 'p) edge \<Rightarrow> 'w option) \<Rightarrow> ('f, 'p) hypergraph \<Rightarrow> (int \<Rightarrow> 'w)" where
  "edge_weights weight hg e = the (weight (hg_edges hg ! nat e))"

lemma topologicalD:
  "topological hg \<Longrightarrow> i < length (hg_nodes hg) \<Longrightarrow> e \<in> set (nd_in (hg_nodes hg ! i)) \<Longrightarrow> 0 \<le> e \<and> e < vsize (hg_edges hg)"
  "topological hg \<Longrightarrow> i < length (hg_nodes hg) \<Longrightarrow> e \<in> set (nd_in (hg_nodes hg ! i)) \<Longrightarrow>
     t \<in> set (ed_tails (hg_edges hg ! nat e)) \<Longrightarrow> 0 \<le> t \<and> t < int i"
  by (force simp: topological_def list_all_length nth_enumerate_eq in_set_conv_nth)+

text \<open>The list has every derivation, once.\<close>

lemma list_all2_map1: "list_all2 P (map f xs) ys \<longleftrightarrow> list_all2 (\<lambda>x. P (f x)) xs ys"
  by (simp add: list.rel_map)

lemma set_product_lists_iff: "ds \<in> set (product_lists dss) \<longleftrightarrow> list_all2 (\<lambda>xs d. d \<in> set xs) dss ds"
  by (simp add: product_lists_set list_all2_conv_all_nth) (auto simp: eq_commute)?

lemma Deriv_in_derivs: "Deriv e ds \<in> set (derivs hg i) \<longleftrightarrow> e \<in> set (nd_in (hg_nodes hg ! i)) \<and>
    list_all2 (\<lambda>t d. nat t < i \<and> d \<in> set (derivs hg (nat t))) (ed_tails (hg_edges hg ! nat e)) ds"
proof -
  have "d \<in> set (if nat t < i then derivs hg (nat t) else []) \<longleftrightarrow> nat t < i \<and> d \<in> set (derivs hg (nat t))" for t d
    by simp
  then show ?thesis
    unfolding derivs.simps [of hg i] set_concat set_map
    by (auto simp: image_iff set_product_lists_iff list_all2_map1)
qed

inductive_simps derives_Deriv: "derives hg i (Deriv e ds)"

lemma derivs_iff:
  assumes top: "topological hg"
  shows "i < length (hg_nodes hg) \<Longrightarrow> d \<in> set (derivs hg i) \<longleftrightarrow> derives hg i d"
proof (induction i arbitrary: d rule: less_induct)
  case (less i)
  obtain e ds where d: "d = Deriv e ds" by (cases d)
  have sub: "list_all2 (\<lambda>t d. nat t < i \<and> d \<in> set (derivs hg (nat t))) (ed_tails (hg_edges hg ! nat e)) ds \<longleftrightarrow>
      list_all2 (\<lambda>t d. derives hg (nat t) d) (ed_tails (hg_edges hg ! nat e)) ds"
    if e: "e \<in> set (nd_in (hg_nodes hg ! i))"
  proof (rule list.rel_cong [OF refl refl])
    fix t d
    assume "t \<in> set (ed_tails (hg_edges hg ! nat e))"
    then have "nat t < i" using topologicalD(2) [OF top less.prems e] by (auto simp: nat_less_iff)
    then show "(nat t < i \<and> d \<in> set (derivs hg (nat t))) \<longleftrightarrow> derives hg (nat t) d"
      using less.IH less.prems by simp
  qed
  show ?case
    using sub less.prems by (auto simp: d Deriv_in_derivs derives_Deriv)
qed

lemma distinct_product_lists: "(\<And>xs. xs \<in> set xss \<Longrightarrow> distinct xs) \<Longrightarrow> distinct (product_lists xss)"
proof (induction xss)
  case (Cons xs xss)
  have "distinct (concat (map (\<lambda>x. map ((#) x) ps) ys))" if "distinct ps" "distinct ys" for ps :: "'a list list" and ys
    using that by (induction ys) (auto simp: distinct_map)
  with Cons show ?case by simp
qed simp

lemma derivs_distinct:
  "(\<And>n. n \<in> set (hg_nodes hg) \<Longrightarrow> distinct (nd_in n)) \<Longrightarrow> i < length (hg_nodes hg) \<Longrightarrow> distinct (derivs hg i)"
proof (induction i rule: less_induct)
  case (less i)
  define subs where "subs e = product_lists (map (\<lambda>t. if nat t < i then derivs hg (nat t) else []) (ed_tails (hg_edges hg ! nat e)))" for e
  have "distinct (subs e)" for e
    unfolding subs_def by (rule distinct_product_lists) (use less in \<open>auto split: if_splits\<close>)
  moreover have "distinct (concat (map (\<lambda>e. map (Deriv e) (f e)) es))" if "\<And>e. distinct (f e)" "distinct es" for f es
    using that by (induction es) (auto simp: distinct_map inj_on_def)
  ultimately show ?case
    using less.prems by (simp add: derivs.simps [of hg i] subs_def [symmetric])
qed

section \<open>The inside score is the sum over the derivations\<close>

locale semiring_on =
  fixes W :: "'w weights" and ok :: "'w \<Rightarrow> bool"
  assumes ok_zero: "ok (w_zero W)"
    and ok_add: "ok a \<Longrightarrow> ok b \<Longrightarrow> ok (w_add W a b)"
    and ok_mul: "ok a \<Longrightarrow> ok b \<Longrightarrow> ok (w_mul W a b)"
    and add_assoc: "ok a \<Longrightarrow> ok b \<Longrightarrow> ok c \<Longrightarrow> w_add W (w_add W a b) c = w_add W a (w_add W b c)"
    and zero_add: "ok a \<Longrightarrow> w_add W (w_zero W) a = a"
    and add_zero: "ok a \<Longrightarrow> w_add W a (w_zero W) = a"
    and mul_assoc: "ok a \<Longrightarrow> ok b \<Longrightarrow> ok c \<Longrightarrow> w_mul W (w_mul W a b) c = w_mul W a (w_mul W b c)"
    and zero_mul: "ok a \<Longrightarrow> w_mul W (w_zero W) a = w_zero W"
    and mul_zero: "ok a \<Longrightarrow> w_mul W a (w_zero W) = w_zero W"
    and distrib_left: "ok a \<Longrightarrow> ok b \<Longrightarrow> ok c \<Longrightarrow> w_mul W a (w_add W b c) = w_add W (w_mul W a b) (w_mul W a c)"
    and distrib_right: "ok a \<Longrightarrow> ok b \<Longrightarrow> ok c \<Longrightarrow> w_mul W (w_add W a b) c = w_add W (w_mul W a c) (w_mul W b c)"
begin

lemma ok_fold_add: "ok a \<Longrightarrow> (\<And>x. x \<in> set xs \<Longrightarrow> ok x) \<Longrightarrow> ok (fold (\<lambda>x s. w_add W s x) xs a)"
  by (induction xs arbitrary: a) (auto simp: ok_add)

lemma ok_sum: "(\<And>x. x \<in> set xs \<Longrightarrow> ok x) \<Longrightarrow> ok (w_sum W xs)"
  unfolding w_sum_def by (rule ok_fold_add) (auto simp: ok_zero)

lemma fold_add_shift: "ok a \<Longrightarrow> ok b \<Longrightarrow> (\<And>x. x \<in> set xs \<Longrightarrow> ok x) \<Longrightarrow>
    fold (\<lambda>x s. w_add W s x) xs (w_add W a b) = w_add W a (fold (\<lambda>x s. w_add W s x) xs b)"
  by (induction xs arbitrary: b) (auto simp: ok_add add_assoc)

lemma fold_add_sum: "ok a \<Longrightarrow> (\<And>x. x \<in> set xs \<Longrightarrow> ok x) \<Longrightarrow> fold (\<lambda>x s. w_add W s x) xs a = w_add W a (w_sum W xs)"
  using fold_add_shift [of a "w_zero W" xs] by (simp add: w_sum_def ok_zero add_zero)

lemma sum_Nil [simp]: "w_sum W [] = w_zero W"
  by (simp add: w_sum_def)

lemma sum_Cons: "ok x \<Longrightarrow> \<forall>y \<in> set xs. ok y \<Longrightarrow> w_sum W (x # xs) = w_add W x (w_sum W xs)"
  using fold_add_sum [of x xs] by (simp add: w_sum_def zero_add)

lemma sum_append: "\<forall>x \<in> set xs. ok x \<Longrightarrow> \<forall>y \<in> set ys. ok y \<Longrightarrow> w_sum W (xs @ ys) = w_add W (w_sum W xs) (w_sum W ys)"
  using fold_add_sum [OF ok_sum [of xs], of ys] by (simp add: w_sum_def)

lemma sum_map_append: "(\<And>x. ok (f x)) \<Longrightarrow> w_sum W (map f (xs @ ys)) = w_add W (w_sum W (map f xs)) (w_sum W (map f ys))"
  using sum_append [of "map f xs" "map f ys"] by auto

lemma sum_concat: "(\<And>xs x. xs \<in> set xss \<Longrightarrow> x \<in> set xs \<Longrightarrow> ok x) \<Longrightarrow> w_sum W (concat xss) = w_sum W (map (w_sum W) xss)"
proof (induction xss)
  case (Cons xs xss)
  have xs: "\<forall>x \<in> set xs. ok x" and xss: "\<forall>ys \<in> set xss. \<forall>x \<in> set ys. ok x"
    using Cons.prems by auto
  then show ?case
    using Cons.IH by (simp add: sum_append sum_Cons ok_sum)
qed simp

lemma sum_mul_right: "(\<And>x. x \<in> set xs \<Longrightarrow> ok x) \<Longrightarrow> ok c \<Longrightarrow> w_mul W (w_sum W xs) c = w_sum W (map (\<lambda>x. w_mul W x c) xs)"
  by (induction xs) (auto simp: zero_mul sum_Cons ok_mul distrib_right ok_sum)

lemma sum_mul_left: "(\<And>x. x \<in> set xs \<Longrightarrow> ok x) \<Longrightarrow> ok c \<Longrightarrow> w_mul W c (w_sum W xs) = w_sum W (map (\<lambda>x. w_mul W c x) xs)"
  by (induction xs) (auto simp: mul_zero sum_Cons ok_mul distrib_left ok_sum)

lemma ok_fold_mul: "ok a \<Longrightarrow> (\<And>x. x \<in> set xs \<Longrightarrow> ok (f x)) \<Longrightarrow> ok (fold (\<lambda>x s. w_mul W s (f x)) xs a)"
  by (induction xs arbitrary: a) (auto simp: ok_mul)

lemma fold_mul_sum: "(\<And>a. a \<in> set as \<Longrightarrow> ok a) \<Longrightarrow> (\<And>x. x \<in> set xs \<Longrightarrow> ok (f x)) \<Longrightarrow>
    fold (\<lambda>x s. w_mul W s (f x)) xs (w_sum W as) = w_sum W (map (fold (\<lambda>x s. w_mul W s (f x)) xs) as)"
proof (induction xs arbitrary: as)
  case (Cons x xs)
  have "fold (\<lambda>x s. w_mul W s (f x)) xs (w_sum W (map (\<lambda>a. w_mul W a (f x)) as)) =
      w_sum W (map (fold (\<lambda>x s. w_mul W s (f x)) xs) (map (\<lambda>a. w_mul W a (f x)) as))"
    by (rule Cons.IH) (use Cons.prems in \<open>auto simp: ok_mul\<close>)
  then show ?case
    using Cons.prems by (simp add: sum_mul_right comp_def)
qed simp

text \<open>The sum over the tuples of derivations is the product of the sums.\<close>

lemma sum_product_lists:
  "ok a \<Longrightarrow> (\<And>ds d. ds \<in> set dss \<Longrightarrow> d \<in> set ds \<Longrightarrow> ok (g d)) \<Longrightarrow>
   w_sum W (map (\<lambda>ds. fold (\<lambda>d s. w_mul W s (g d)) ds a) (product_lists dss)) =
   fold (\<lambda>ds s. w_mul W s (w_sum W (map g ds))) dss a"
proof (induction dss arbitrary: a)
  case Nil
  then show ?case by (simp add: w_sum_def zero_add)
next
  case (Cons xs dss)
  let ?F = "\<lambda>a. fold (\<lambda>ds s. w_mul W s (w_sum W (map g ds))) dss a"
  have gx: "ok (g x)" if "x \<in> set xs" for x using that Cons.prems(2) [of xs x] by simp
  note a = Cons.prems(1)
  have oks: "ok (w_sum W (map g ds))" if "ds \<in> set dss" for ds
    by (rule ok_sum) (use that Cons.prems(2) [of ds] in auto)
  have parts: "ok (fold (\<lambda>d s. w_mul W s (g d)) ds (w_mul W a (g x)))" if "x \<in> set xs" "ds \<in> set (product_lists dss)" for x ds
  proof (rule ok_fold_mul)
    show "ok (w_mul W a (g x))" using that gx a by (simp add: ok_mul)
    show "ok (g d)" if d: "d \<in> set ds" for d
    proof -
      obtain n where "n < length ds" "d = ds ! n" using d by (auto simp: in_set_conv_nth)
      then show ?thesis
        using \<open>ds \<in> set (product_lists dss)\<close> Cons.prems(2) [of "dss ! n" d]
        by (auto simp: set_product_lists_iff list_all2_conv_all_nth)
    qed
  qed
  have "w_sum W (map (\<lambda>ds. fold (\<lambda>d s. w_mul W s (g d)) ds a) (product_lists (xs # dss))) =
      w_sum W (concat (map (\<lambda>x. map (\<lambda>ds. fold (\<lambda>d s. w_mul W s (g d)) ds (w_mul W a (g x))) (product_lists dss)) xs))"
    by (simp add: map_concat comp_def)
  also have "\<dots> = w_sum W (map (\<lambda>x. w_sum W (map (\<lambda>ds. fold (\<lambda>d s. w_mul W s (g d)) ds (w_mul W a (g x))) (product_lists dss))) xs)"
    using parts by (subst sum_concat) (auto simp: comp_def)
  also have "\<dots> = w_sum W (map (\<lambda>x. ?F (w_mul W a (g x))) xs)"
    by (intro arg_cong [where f = "w_sum W"] map_cong refl Cons.IH) (use Cons.prems(2) gx a in \<open>auto simp: ok_mul\<close>)
  also have "\<dots> = ?F (w_sum W (map (\<lambda>x. w_mul W a (g x)) xs))"
    by (subst fold_mul_sum) (use a gx oks in \<open>auto simp: comp_def ok_mul\<close>)
  also have "\<dots> = ?F (w_mul W a (w_sum W (map g xs)))"
    by (subst sum_mul_left) (use a gx in \<open>auto simp: comp_def\<close>)
  finally show ?case by simp
qed

lemma ok_deriv_weight:
  "(\<And>e. ok (wt e)) \<Longrightarrow> ok (deriv_weight W wt d)"
proof (induction d)
  case (Deriv e ds)
  then show ?case by (auto intro!: ok_fold_mul)
qed

lemma inside_edge_sum:
  assumes "weight e = Some a" "ok a"
    and "\<And>t. t \<in> set (ed_tails e) \<Longrightarrow> 0 \<le> t \<and> t < vsize sc \<and> sc ! nat t = w_sum W (map g (ds t)) \<and> (\<forall>d \<in> set (ds t). ok (g d))"
  shows "inside_edge W weight sc e = Some (w_sum W (map (\<lambda>ds. fold (\<lambda>d s. w_mul W s (g d)) ds a) (product_lists (map ds (ed_tails e)))))"
proof -
  have "for_each ts (\<lambda>t s. map_option (w_mul W s) (vat sc t)) b = Some (fold (\<lambda>t s. w_mul W s (w_sum W (map g (ds t)))) ts b)"
    if "set ts \<subseteq> set (ed_tails e)" for ts b
    using that assms(3) by (induction ts arbitrary: b) (auto simp: vat_eq vsize_def)
  then show ?thesis
    using assms by (subst sum_product_lists) (auto simp: inside_edge_def fold_map comp_def)
qed

text \<open>
  Here \<open>wt\<close> is the weight of an edge given by its number, with the values of \<open>weight\<close> on the edges of
  the graph.
\<close>

lemma inside_node_sum:
  assumes top: "topological hg" and i: "i < length (hg_nodes hg)"
    and wt: "\<And>e. 0 \<le> e \<Longrightarrow> e < vsize (hg_edges hg) \<Longrightarrow> weight (hg_edges hg ! nat e) = Some (wt e)" "\<And>e. ok (wt e)"
    and sc: "length sc = length (hg_nodes hg)" "sc ! i = w_zero W"
      "\<And>n. n < i \<Longrightarrow> sc ! n = w_sum W (map (deriv_weight W wt) (derivs hg n))"
  shows "inside_node W weight hg (int i) sc = Some (sc[i := w_sum W (map (deriv_weight W wt) (derivs hg i))])"
proof -
  let ?dw = "deriv_weight W wt"
  let ?D = "\<lambda>e. map (Deriv e) (product_lists (map (\<lambda>t. if nat t < i then derivs hg (nat t) else []) (ed_tails (hg_edges hg ! nat e))))"
  let ?ds = "\<lambda>es. concat (map ?D es)"
  let ?body = "\<lambda>eid sc. do {
       e \<leftarrow> vat (hg_edges hg) eid;
       score \<leftarrow> inside_edge W weight sc e;
       cur \<leftarrow> vat sc (int i);
       vset sc (int i) (w_add W cur score) }"
  have okd: "ok (?dw d)" for d
    using wt(2) by (rule ok_deriv_weight)
  have okm: "ok (w_sum W (map ?dw ds))" for ds
    by (rule ok_sum) (use okd in auto)
  have step: "?body e (sc[i := a]) = Some (sc[i := w_add W a (w_sum W (map ?dw (?D e)))])" if e: "e \<in> set (nd_in (hg_nodes hg ! i))" for e a
  proof -
    have b: "0 \<le> e" "e < vsize (hg_edges hg)" using topologicalD(1) [OF top i e] by auto
    have "inside_edge W weight (sc[i := a]) (hg_edges hg ! nat e) =
        Some (w_sum W (map (\<lambda>ds. fold (\<lambda>d s. w_mul W s (?dw d)) ds (wt e))
          (product_lists (map (\<lambda>t. if nat t < i then derivs hg (nat t) else []) (ed_tails (hg_edges hg ! nat e))))))"
    proof (rule inside_edge_sum)
      fix t assume "t \<in> set (ed_tails (hg_edges hg ! nat e))"
      then show "0 \<le> t \<and> t < vsize (sc[i := a]) \<and>
          sc[i := a] ! nat t = w_sum W (map ?dw (if nat t < i then derivs hg (nat t) else [])) \<and>
          (\<forall>d \<in> set (if nat t < i then derivs hg (nat t) else []). ok (?dw d))"
        using topologicalD(2) [OF top i e, of t] sc i okd by (auto simp: vsize_def nat_less_iff)
    qed (use wt b in auto)
    then show ?thesis
      using b sc i by (simp add: vat_eq vset_eq vsize_def comp_def)
  qed
  have loop: "for_each es ?body (sc[i := a]) = Some (sc[i := w_add W a (w_sum W (map ?dw (?ds es)))])"
    if "set es \<subseteq> set (nd_in (hg_nodes hg ! i))" "ok a" for es a
    using that
  proof (induction es arbitrary: a)
    case Nil
    then show ?case by (simp add: add_zero)
  next
    case (Cons e es)
    note oks = okm [of "?D e"] okm [of "?ds es"]
    have "for_each (e # es) ?body (sc[i := a]) = for_each es ?body (sc[i := w_add W a (w_sum W (map ?dw (?D e)))])"
      using step [of e a] Cons.prems by simp
    also have "\<dots> = Some (sc[i := w_add W (w_add W a (w_sum W (map ?dw (?D e)))) (w_sum W (map ?dw (?ds es)))])"
      by (rule Cons.IH) (use Cons.prems oks in \<open>auto simp: ok_add\<close>)
    also have "w_add W (w_add W a (w_sum W (map ?dw (?D e)))) (w_sum W (map ?dw (?ds es))) = w_add W a (w_sum W (map ?dw (?ds (e # es))))"
      using Cons.prems(2) by (simp only: add_assoc [OF _ oks] list.map concat.simps sum_map_append [OF okd])
    finally show ?case .
  qed
  have "sc[i := w_zero W] = sc" using sc(2) by (metis list_update_id)
  then show ?thesis
    using loop [of "nd_in (hg_nodes hg ! i)" "w_zero W"] i
    by (simp add: inside_node_def ok_zero zero_add [OF okm] derivs.simps [of hg i] vat_nat)
qed

lemma Inside_sum:
  assumes top: "topological hg"
    and wt: "\<And>e. 0 \<le> e \<Longrightarrow> e < vsize (hg_edges hg) \<Longrightarrow> weight (hg_edges hg ! nat e) = Some (wt e)" "\<And>e. ok (wt e)"
  shows "\<exists>sc. Inside W weight hg = Some (if hg_nodes hg = [] then w_zero W else last sc, sc) \<and>
    sc = map (\<lambda>n. w_sum W (map (deriv_weight W wt) (derivs hg n))) [0..<length (hg_nodes hg)]"
proof -
  let ?f = "\<lambda>n. w_sum W (map (deriv_weight W wt) (derivs hg n))"
  let ?N = "length (hg_nodes hg)"
  let ?I = "\<lambda>(i :: int) sc. length sc = ?N \<and> (\<forall>n < ?N. sc ! n = (if int n < i then ?f n else w_zero W))"
  have "\<exists>t. for_each (int_range 0 (int ?N)) (inside_node W weight hg) (replicate ?N (w_zero W)) = Some t \<and> ?I (int ?N) t"
  proof (rule for_range_total)
    fix i sc
    assume i: "0 \<le> i" "i < int ?N" and I: "?I i sc"
    have "inside_node W weight hg (int (nat i)) sc = Some (sc[nat i := ?f (nat i)])"
      by (rule inside_node_sum) (use top wt i I in \<open>auto simp: nat_less_iff\<close>)
    then show "\<exists>s'. inside_node W weight hg i sc = Some s' \<and> ?I (i + 1) s'"
      using i I by (auto simp: nth_list_update)
  qed auto
  then obtain t where t: "for_each (int_range 0 (int ?N)) (inside_node W weight hg) (replicate ?N (w_zero W)) = Some t"
    "length t = ?N" "\<And>n. n < ?N \<Longrightarrow> t ! n = ?f n"
    by auto
  have "t = map ?f [0..<?N]"
    by (rule nth_equalityI) (use t in auto)
  then show ?thesis
    using t by (auto simp: Inside_def Let_def vsize_def)
qed

end

section \<open>The weights of the decoder are semirings\<close>

interpretation reachable: semiring_on Boolean "\<lambda>_. True"
  by unfold_locales (auto simp: Boolean_def)

interpretation path_count: semiring_on "double_weights (exact lg)" "\<lambda>_. True"
  by unfold_locales (auto simp: double_weights_def algebra_simps)

text \<open>Probabilities: values of \<open>LogVal\<close> that are not negative; there the value determines the pair.\<close>

definition lv_prob :: "xreal logval \<Rightarrow> bool" where
  "lv_prob x \<longleftrightarrow> lv_ok x \<and> \<not> lv_s x"

lemma lv_prob_inject: "lv_prob x \<Longrightarrow> lv_prob y \<Longrightarrow> lv_value x = lv_value y \<Longrightarrow> x = y"
  by (auto simp: lv_prob_def elim!: lv_ok_cases)

lemma lv_prob_constants: "lv_prob (lv_Zero exact_reals)" "lv_prob (lv_One exact_reals)"
  "lv_value (lv_Zero exact_reals) = 0" "lv_value (lv_One exact_reals) = 1"
  by (simp_all add: lv_prob_def lv_Zero_def lv_One_def LOGVAL_LOG0_def LogVal_double_def lv_ok_def lv_value_def)

lemma lv_prob_add:
  assumes "lv_prob x" "lv_prob y"
  shows "lv_prob (plus_eq exact_reals x y)" "lv_value (plus_eq exact_reals x y) = lv_value x + lv_value y"
  using assms by (simp_all add: lv_prob_def plus_eq_value) (simp add: plus_eq_def)

lemma lv_prob_mul:
  assumes "lv_prob x" "lv_prob y"
  shows "lv_prob (times_eq exact_reals x y)" "lv_value (times_eq exact_reals x y) = lv_value x * lv_value y"
  using assms by (simp_all add: lv_prob_def times_eq_value) (simp add: times_eq_def)

lemma lv_prob_less: "lv_prob x \<Longrightarrow> lv_prob y \<Longrightarrow> lv_less exact_reals x y \<longleftrightarrow> lv_value x < lv_value y"
  by (simp add: lv_prob_def lv_less_value)

lemma lv_prob_nonneg: "lv_prob x \<Longrightarrow> 0 \<le> lv_value x"
  by (auto simp: lv_prob_def lv_value_def split: xreal.splits)

lemmas lv_prob_simps = lv_prob_constants lv_prob_add lv_prob_mul lv_prob_less lv_prob_nonneg

interpretation probability: semiring_on "prob_weights exact_reals" lv_prob
  by unfold_locales (auto simp: prob_weights_def lv_prob_simps algebra_simps intro!: lv_prob_inject)

definition best_of :: "xreal logval \<Rightarrow> xreal logval \<Rightarrow> xreal logval" where
  "best_of v w = (if lv_less exact_reals v w then w else v)"

lemma best_of_prob: "lv_prob x \<Longrightarrow> lv_prob y \<Longrightarrow> lv_prob (best_of x y)"
  "lv_prob x \<Longrightarrow> lv_prob y \<Longrightarrow> lv_value (best_of x y) = max (lv_value x) (lv_value y)"
  by (auto simp: best_of_def lv_prob_simps)

interpretation tropical: semiring_on "TropicalValue exact_reals" lv_prob
  by unfold_locales (auto simp: TropicalValue_def best_of_def [symmetric] best_of_prob lv_prob_simps max_mult_distrib_left
      max_mult_distrib_right max.assoc max_absorb2 max_absorb1 intro!: lv_prob_inject)

section \<open>Weight functions and what is computed with them\<close>

definition EdgeProb :: "('f, 'w) edge \<Rightarrow> 'w option" where
  "EdgeProb e = Some (ed_prob e)"

definition EdgeSelectEdgeWeightFunction :: "'w weights \<Rightarrow> bool list \<Rightarrow> ('f, 'w) edge \<Rightarrow> 'w option" where
  "EdgeSelectEdgeWeightFunction W v e = map_option (\<lambda>b. if b then w_one W else w_zero W) (vat v (ed_id e))"

definition ScaledEdgeProb :: "('d, 'z) log_floats_scheme \<Rightarrow> 'd \<Rightarrow> ('f, 'd logval) edge \<Rightarrow> 'd logval option" where
  "ScaledEdgeProb fl alpha e = Some (lv_pow fl (ed_prob e) alpha)"

definition TransitionCountWeightFunction :: "('d, 'z) floats_scheme \<Rightarrow> ('f, 'w) edge \<Rightarrow> 'd option" where
  "TransitionCountWeightFunction fl e = Some (fl_of_int fl 1)"

definition EdgeExistsWeightFunction :: "bool list \<Rightarrow> ('f, 'w) edge \<Rightarrow> bool option" where
  "EdgeExistsWeightFunction prunes e = map_option Not (vat prunes (ed_id e))"

definition NumberOfPaths :: "('d, 'z) floats_scheme \<Rightarrow> ('f, 'w) hypergraph \<Rightarrow> 'd option" where
  "NumberOfPaths fl hg = map_option fst (Inside (double_weights fl) (TransitionCountWeightFunction fl) hg)"

definition ComputeNodeViterbi :: "('d, 'z) log_floats_scheme \<Rightarrow> ('f, 'd logval) hypergraph \<Rightarrow> ('d logval \<times> 'd logval list) option" where
  "ComputeNodeViterbi fl hg = Inside (TropicalValue fl) EdgeProb hg"

definition ComputeEdgeViterbi_of :: "('d, 'z) log_floats_scheme \<Rightarrow> 'd logval list \<Rightarrow> ('f, 'd logval) hypergraph \<Rightarrow> ('d logval \<times> 'd logval list) option" where
  "ComputeEdgeViterbi_of fl nv hg = do {
     ev \<leftarrow> for_each (hg_edges hg) (\<lambda>e ev. do {
       r \<leftarrow> for_each (ed_tails e) (\<lambda>j r. map_option (times_eq fl r) (vat nv j)) (ed_prob e);
       Some (ev @ [r]) }) [];
     Some (if nv = [] then LogVal_double fl (fl_of_int fl 0) else last nv, ev) }"

definition ComputeEdgeViterbi :: "('d, 'z) log_floats_scheme \<Rightarrow> ('f, 'd logval) hypergraph \<Rightarrow> ('d logval \<times> 'd logval list) option" where
  "ComputeEdgeViterbi fl hg = do { (_, nv) \<leftarrow> ComputeNodeViterbi fl hg; ComputeEdgeViterbi_of fl nv hg }"

text \<open>The probability of a derivation is the product of those of its edges.\<close>

fun deriv_prob :: "(int \<Rightarrow> real) \<Rightarrow> deriv \<Rightarrow> real" where
  "deriv_prob p (Deriv e ds) = p e * prod_list (map (deriv_prob p) ds)"

definition edge_value :: "('f, xreal logval) hypergraph \<Rightarrow> int \<Rightarrow> real" where
  "edge_value hg e = lv_value (ed_prob (hg_edges hg ! nat e))"

definition prob_graph :: "('f, xreal logval) hypergraph \<Rightarrow> bool" where
  "prob_graph hg \<longleftrightarrow> topological hg \<and> consistent_hg {} hg \<and> (\<forall>e \<in> set (hg_edges hg). lv_prob (ed_prob e))"

lemma consistent_distinct: "consistent_hg loose hg \<Longrightarrow> n \<in> set (hg_nodes hg) \<Longrightarrow> distinct (nd_in n)"
  by (auto simp: in_set_conv_nth dest: consistentD(5))

lemma set_derivs: "topological hg \<Longrightarrow> i < length (hg_nodes hg) \<Longrightarrow> set (derivs hg i) = {d. derives hg i d}"
  using derivs_iff [of hg i] by auto

text \<open>The weights of the edges as a function of their numbers that has a value of the carrier everywhere.\<close>

definition prob_of :: "('f, xreal logval) hypergraph \<Rightarrow> int \<Rightarrow> xreal logval" where
  "prob_of hg e = (if 0 \<le> e \<and> e < vsize (hg_edges hg) then ed_prob (hg_edges hg ! nat e) else lv_Zero exact_reals)"

lemma prob_of_prob: "\<forall>e \<in> set (hg_edges hg). lv_prob (ed_prob e) \<Longrightarrow> lv_prob (prob_of hg e)"
  by (auto simp: prob_of_def lv_prob_simps vsize_def nat_less_iff)

lemma EdgeProb_prob_of: "0 \<le> e \<Longrightarrow> e < vsize (hg_edges hg) \<Longrightarrow> EdgeProb (hg_edges hg ! nat e) = Some (prob_of hg e)"
  by (simp add: EdgeProb_def prob_of_def)

lemma fold_times_value:
  assumes "lv_prob a" "\<And>x. x \<in> set xs \<Longrightarrow> lv_prob (f x)"
  shows "lv_prob (fold (\<lambda>x s. times_eq exact_reals s (f x)) xs a) \<and>
    lv_value (fold (\<lambda>x s. times_eq exact_reals s (f x)) xs a) = lv_value a * prod_list (map (\<lambda>x. lv_value (f x)) xs)"
  using assms by (induction xs arbitrary: a) (auto simp: lv_prob_simps algebra_simps)

lemma deriv_weight_value:
  assumes "\<And>e. lv_prob (wt e)" and "w_mul W = times_eq exact_reals"
  shows "lv_prob (deriv_weight W wt d) \<and> lv_value (deriv_weight W wt d) = deriv_prob (\<lambda>e. lv_value (wt e)) d"
proof (induction d)
  case (Deriv e ds)
  have eq: "map (\<lambda>x. lv_value (deriv_weight W wt x)) ds = map (deriv_prob (\<lambda>e. lv_value (wt e))) ds"
    using Deriv by simp
  show ?case
    using fold_times_value [of "wt e" ds "deriv_weight W wt"] Deriv assms unfolding eq by simp
qed

lemma sum_value:
  assumes "\<And>x. x \<in> set xs \<Longrightarrow> lv_prob x"
  shows "lv_value (w_sum (prob_weights exact_reals) xs) = sum_list (map lv_value xs)"
  using assms
proof (induction xs)
  case (Cons x xs)
  have "lv_prob (w_sum (prob_weights exact_reals) xs)" by (rule probability.ok_sum) (use Cons.prems in auto)
  then show ?case
    using Cons by (simp add: probability.sum_Cons) (simp add: prob_weights_def lv_prob_simps)
qed (simp, simp add: prob_weights_def lv_prob_simps)

lemma deriv_prob_cong:
  assumes top: "topological hg" and eq: "\<And>e. 0 \<le> e \<Longrightarrow> e < vsize (hg_edges hg) \<Longrightarrow> p e = q e"
  shows "derives hg n d \<Longrightarrow> deriv_prob p d = deriv_prob q d"
proof (induction d arbitrary: n)
  case (Deriv e ds)
  then have n: "n < length (hg_nodes hg)" "e \<in> set (nd_in (hg_nodes hg ! n))"
    and ds: "list_all2 (\<lambda>t d. derives hg (nat t) d) (ed_tails (hg_edges hg ! nat e)) ds"
    by (auto simp: derives_Deriv)
  have "deriv_prob p d = deriv_prob q d" if d: "d \<in> set ds" for d
  proof -
    have "\<exists>t. derives hg t d"
      using d ds by (fastforce simp: in_set_conv_nth list_all2_conv_all_nth)
    then show ?thesis
      using Deriv.IH d by blast
  qed
  then have "map (deriv_prob p) ds = map (deriv_prob q) ds" by simp
  moreover have "p e = q e"
    using topologicalD(1) [OF top n] eq by simp
  ultimately show ?case
    by (simp only: deriv_prob.simps)
qed

lemma prob_inside:
  assumes pg: "prob_graph hg" and n: "n < length (hg_nodes hg)"
  shows "lv_value (w_sum (prob_weights exact_reals) (map (deriv_weight (prob_weights exact_reals) (prob_of hg)) (derivs hg n))) =
    (\<Sum>d | derives hg n d. deriv_prob (edge_value hg) d)"
proof -
  let ?dw = "deriv_weight (prob_weights exact_reals) (prob_of hg)"
  have top: "topological hg" and c: "consistent_hg {} hg" and p: "\<forall>e \<in> set (hg_edges hg). lv_prob (ed_prob e)"
    using pg by (auto simp: prob_graph_def)
  have dw: "lv_prob (?dw d) \<and> lv_value (?dw d) = deriv_prob (\<lambda>e. lv_value (prob_of hg e)) d" for d
    by (rule deriv_weight_value) (simp_all add: prob_of_prob [OF p] prob_weights_def)
  have "lv_value (w_sum (prob_weights exact_reals) (map ?dw (derivs hg n))) = sum_list (map (\<lambda>d. lv_value (?dw d)) (derivs hg n))"
    by (subst sum_value) (use dw in \<open>auto simp: comp_def\<close>)
  also have "\<dots> = (\<Sum>d \<in> set (derivs hg n). lv_value (?dw d))"
    by (rule sum_list_distinct_conv_sum_set) (rule derivs_distinct [OF consistent_distinct [OF c] n])
  also have "\<dots> = (\<Sum>d | derives hg n d. deriv_prob (edge_value hg) d)"
    unfolding set_derivs [OF top n]
  proof (rule sum.cong [OF refl])
    fix d assume d: "d \<in> {d. derives hg n d}"
    have "deriv_prob (\<lambda>e. lv_value (prob_of hg e)) d = deriv_prob (edge_value hg) d"
      by (rule deriv_prob_cong [OF top]) (use d in \<open>simp_all add: edge_value_def prob_of_def\<close>)
    with dw [of d] show "lv_value (?dw d) = deriv_prob (edge_value hg) d" by simp
  qed
  finally show ?thesis .
qed

text \<open>An example: the first node has two edges without tails, the second an edge from the first.\<close>

definition demo_edge :: "int \<Rightarrow> int list \<Rightarrow> int \<Rightarrow> 'w \<Rightarrow> (int, 'w) edge" where
  "demo_edge k ts h w = \<lparr>ed_head = h, ed_tails = ts, ed_rule = None, ed_features = 0, ed_prob = w, ed_id = k,
     ed_i = 0, ed_j = 0, ed_prev_i = 0, ed_prev_j = 0\<rparr>"

definition demo_hg :: "'w \<Rightarrow> 'w \<Rightarrow> 'w \<Rightarrow> (int, 'w) hypergraph" where
  "demo_hg w0 w1 w2 = \<lparr>hg_linear_chain = False,
     hg_nodes = [\<lparr>nd_hash = 0, nd_id = 0, nd_cat = -1, nd_in = [0, 1], nd_out = [2]\<rparr>,
                 \<lparr>nd_hash = 0, nd_id = 1, nd_cat = -2, nd_in = [2], nd_out = []\<rparr>],
     hg_edges = [demo_edge 0 [] 0 w0, demo_edge 1 [] 0 w1, demo_edge 2 [0] 1 w2]\<rparr>"

lemma demo_hg_simps: "topological (demo_hg a b c)" "consistent_hg {} (demo_hg a b c)" "hg_nodes (demo_hg a b c) \<noteq> []"
proof -
  show "topological (demo_hg a b c)" by (simp add: demo_hg_def demo_edge_def topological_def)
  show "consistent_hg {} (demo_hg a b c)"
    by (rule hg_check_consistent) (simp add: demo_hg_def demo_edge_def hg_check_def)
  show "hg_nodes (demo_hg a b c) \<noteq> []" by (simp add: demo_hg_def)
qed

lemma demo_hg_derivs: "derivs (demo_hg a b c) 0 = [Deriv 0 [], Deriv 1 []]"
    "derivs (demo_hg a b c) (Suc 0) = [Deriv 2 [Deriv 0 []], Deriv 2 [Deriv 1 []]]"
proof -
  show "derivs (demo_hg a b c) 0 = [Deriv 0 [], Deriv 1 []]"
    by (subst derivs.simps) (simp add: demo_hg_def demo_edge_def)
  then show "derivs (demo_hg a b c) (Suc 0) = [Deriv 2 [Deriv 0 []], Deriv 2 [Deriv 1 []]]"
    by (subst derivs.simps) (simp add: demo_hg_def demo_edge_def)
qed

lemma demo_hg_derives: "{d. derives (demo_hg a b c) (Suc 0) d} = {Deriv 2 [Deriv 0 []], Deriv 2 [Deriv 1 []]}"
  using set_derivs [OF demo_hg_simps(1), of "Suc 0" a b c] by (simp add: demo_hg_derivs) (simp add: demo_hg_def)

text \<open>C11. The inside algorithm over \<open>prob_t\<close>, in exact arithmetic, returns, and gives every node of a
  topologically sorted hypergraph the sum, over all derivations of the node, of the product of the
  probabilities of the edges of the derivation.\<close>

theorem Inside_probability:
  assumes "prob_graph hg"
  shows "\<exists>z sc. Inside (prob_weights exact_reals) EdgeProb hg = Some (z, sc) \<and> length sc = length (hg_nodes hg) \<and>
    (\<forall>n < length (hg_nodes hg). lv_value (sc ! n) = (\<Sum>d | derives hg n d. deriv_prob (edge_value hg) d))"
proof -
  have "\<exists>sc. Inside (prob_weights exact_reals) EdgeProb hg =
      Some (if hg_nodes hg = [] then w_zero (prob_weights exact_reals) else last sc, sc) \<and>
    sc = map (\<lambda>n. w_sum (prob_weights exact_reals) (map (deriv_weight (prob_weights exact_reals) (prob_of hg)) (derivs hg n))) [0..<length (hg_nodes hg)]"
    by (rule probability.Inside_sum) (use assms prob_of_prob in \<open>auto simp: prob_graph_def EdgeProb_prob_of\<close>)
  then show ?thesis
    using prob_inside [OF assms] by auto
qed

lemma Inside_probability_witness:
  "\<exists>z sc. Inside (prob_weights exact_reals) EdgeProb
      (demo_hg (lv_One exact_reals) (lv_One exact_reals) (LogVal_double exact_reals (Fin (1 / 2)))) = Some (z, sc) \<and>
    lv_value (sc ! 1) = 1"
proof -
  let ?hg = "demo_hg (lv_One exact_reals) (lv_One exact_reals) (LogVal_double exact_reals (Fin (1 / 2)))"
  have half: "lv_prob (LogVal_double exact_reals (Fin (1 / 2)))"
    by (simp add: lv_prob_def LogVal_double_def lv_ok_def)
  have "prob_graph ?hg"
    using demo_hg_simps half by (auto simp: prob_graph_def lv_prob_simps) (auto simp: demo_hg_def demo_edge_def lv_prob_simps half)
  from Inside_probability [OF this] obtain z sc where "Inside (prob_weights exact_reals) EdgeProb ?hg = Some (z, sc)"
    and "lv_value (sc ! Suc 0) = (\<Sum>d | derives ?hg (Suc 0) d. deriv_prob (edge_value ?hg) d)"
    by (auto simp: demo_hg_def)
  moreover have "(\<Sum>d | derives ?hg (Suc 0) d. deriv_prob (edge_value ?hg) d) = 1"
    unfolding demo_hg_derives by (simp add: edge_value_def demo_hg_def demo_edge_def lv_prob_simps LogVal_double_value)
  ultimately show ?thesis by auto
qed

text \<open>C28. \<open>NumberOfPaths\<close> is the number of derivations of the goal node, which is finite.\<close>

theorem NumberOfPaths_counts:
  assumes top: "topological hg" and c: "consistent_hg {} hg" and ne: "hg_nodes hg \<noteq> []"
  shows "finite {d. derives hg (nat (GoalNode hg)) d} \<and>
    NumberOfPaths (exact lg) hg = Some (of_nat (card {d. derives hg (nat (GoalNode hg)) d}))"
proof -
  let ?W = "double_weights (exact lg)"
  let ?g = "length (hg_nodes hg) - 1"
  have one: "deriv_weight ?W (\<lambda>_. 1) = (\<lambda>_. 1)"
  proof
    fix d show "deriv_weight ?W (\<lambda>_. 1) d = 1"
  proof (induction d)
    case (Deriv e ds)
    have "fold (\<lambda>d s. w_mul ?W s (deriv_weight ?W (\<lambda>_. 1) d)) ds 1 = 1" if "\<And>d. d \<in> set ds \<Longrightarrow> deriv_weight ?W (\<lambda>_. 1) d = 1" for ds
      using that by (induction ds) (auto simp: double_weights_def)
    with Deriv show ?case by simp
  qed
  qed
  have count: "w_sum ?W (map (\<lambda>_. 1) xs) = of_nat (length xs)" for xs :: "deriv list"
  proof (induction xs)
    case (Cons x xs)
    then show ?case by (simp add: path_count.sum_Cons) (simp add: double_weights_def)
  qed (simp, simp add: double_weights_def)
  have "\<exists>sc. Inside ?W (TransitionCountWeightFunction (exact lg)) hg = Some (if hg_nodes hg = [] then w_zero ?W else last sc, sc) \<and>
    sc = map (\<lambda>n. w_sum ?W (map (deriv_weight ?W (\<lambda>_. 1)) (derivs hg n))) [0..<length (hg_nodes hg)]"
    by (rule path_count.Inside_sum [OF top]) (auto simp: TransitionCountWeightFunction_def)
  then have "NumberOfPaths (exact lg) hg = Some (of_nat (length (derivs hg ?g)))"
    using ne by (auto simp: NumberOfPaths_def one count last_map last_upt)
  moreover have "card {d. derives hg ?g d} = length (derivs hg ?g)"
    using ne distinct_card [OF derivs_distinct [where i = ?g and hg = hg, OF consistent_distinct [OF c]]] by (simp add: set_derivs [OF top])
  moreover have "finite {d. derives hg ?g d}"
    using ne set_derivs [where i = ?g, OF top] by (metis List.finite_set diff_less length_greater_0_conv zero_less_one)
  moreover have "nat (GoalNode hg) = ?g"
    using ne by (cases "hg_nodes hg") (auto simp: GoalNode_def vsize_def)
  ultimately show ?thesis
    by simp
qed

lemma NumberOfPaths_counts_witness:
  "NumberOfPaths (exact (\<lambda>_. 0)) (demo_hg True True False) = Some 2"
  using NumberOfPaths_counts [OF demo_hg_simps, of True True False "\<lambda>_. 0"] demo_hg_derives [of True True False]
  by (simp add: GoalNode_def) (simp add: demo_hg_def)

end
