(* ===== verification/SubGraphs.thy ===== *)
theory SubGraphs
  imports Inside
begin

text \<open>
  Parts of a hypergraph: a list of nodes and a list of edges, renumbered in the order of the lists. Several
  operations of \<open>decoder/hg.cc\<close> return one; here is what it has of the invariant and of the derivations of
  the whole.
\<close>

section \<open>Positions\<close>

definition posn :: "int list \<Rightarrow> int \<Rightarrow> int" where
  "posn xs x = vsize (takeWhile (\<lambda>y. y \<noteq> x) xs)"

lemma posn_nonneg [simp]: "0 \<le> posn xs x"
  by (simp add: posn_def)

lemma posn_nth: "distinct xs \<Longrightarrow> k < length xs \<Longrightarrow> posn xs (xs ! k) = int k"
proof -
  assume d: "distinct xs" and k: "k < length xs"
  have "takeWhile (\<lambda>y. y \<noteq> xs ! k) xs = take k xs"
    by (rule takeWhile_eq_take_P_nth) (use d k in \<open>auto simp: nth_eq_iff_index_eq\<close>)
  then show ?thesis using k by (simp add: posn_def vsize_def)
qed

lemma posn_member:
  assumes "x \<in> set xs"
  shows "posn xs x < vsize xs" "xs ! nat (posn xs x) = x"
proof -
  have "length (takeWhile (\<lambda>y. y \<noteq> x) xs) < length xs"
    using assms by (induction xs) auto
  then show "posn xs x < vsize xs" "xs ! nat (posn xs x) = x"
    using nth_length_takeWhile [of "\<lambda>y. y \<noteq> x" xs] by (auto simp: posn_def vsize_def)
qed

lemma posn_inj: "x \<in> set xs \<Longrightarrow> y \<in> set xs \<Longrightarrow> posn xs x = posn xs y \<longleftrightarrow> x = y"
  by (metis posn_member(2))

lemma posn_eq_iff: "distinct xs \<Longrightarrow> x \<in> set xs \<Longrightarrow> k < length xs \<Longrightarrow> posn xs x = int k \<longleftrightarrow> x = xs ! k"
  by (metis posn_nth posn_member(2) nat_int)

section \<open>The subgraph\<close>

definition subgraph :: "int list \<Rightarrow> int list \<Rightarrow> ('f, 'w) hypergraph \<Rightarrow> ('f, 'w) hypergraph" where
  "subgraph ord K hg = hg\<lparr>
     hg_nodes := map (\<lambda>i. let n = hg_nodes hg ! nat i; keep = \<lambda>es. map (posn K) (filter (\<lambda>e. e \<in> set K) es)
       in n\<lparr>nd_id := posn ord i, nd_in := keep (nd_in n), nd_out := keep (nd_out n)\<rparr>) ord,
     hg_edges := map (\<lambda>e. let ed = hg_edges hg ! nat e
       in ed\<lparr>ed_id := posn K e, ed_head := posn ord (ed_head ed), ed_tails := map (posn ord) (ed_tails ed)\<rparr>) K\<rparr>"

definition sub_ok :: "int list \<Rightarrow> int list \<Rightarrow> ('f, 'w) hypergraph \<Rightarrow> bool" where
  "sub_ok ord K hg \<longleftrightarrow> distinct ord \<and> distinct K \<and> set ord \<subseteq> {0..<vsize (hg_nodes hg)} \<and> set K \<subseteq> {0..<vsize (hg_edges hg)} \<and>
     (\<forall>e \<in> set K. ed_head (hg_edges hg ! nat e) \<in> set ord \<and> set (ed_tails (hg_edges hg ! nat e)) \<subseteq> set ord)"

lemma sub_okD:
  assumes "sub_ok ord K hg"
  shows "distinct ord" "distinct K"
    and "i \<in> set ord \<Longrightarrow> 0 \<le> i \<and> i < vsize (hg_nodes hg) \<and> nat i < length (hg_nodes hg)"
    and "e \<in> set K \<Longrightarrow> 0 \<le> e \<and> e < vsize (hg_edges hg) \<and> nat e < length (hg_edges hg)"
    and "e \<in> set K \<Longrightarrow> ed_head (hg_edges hg ! nat e) \<in> set ord"
    and "e \<in> set K \<Longrightarrow> t \<in> set (ed_tails (hg_edges hg ! nat e)) \<Longrightarrow> t \<in> set ord"
  using assms by (auto simp: sub_ok_def vsize_def nat_less_iff)

lemma subgraph_simps:
  "length (hg_nodes (subgraph ord K hg)) = length ord" "length (hg_edges (subgraph ord K hg)) = length K"
  "k < length ord \<Longrightarrow> nd_id (hg_nodes (subgraph ord K hg) ! k) = posn ord (ord ! k)"
  "k < length ord \<Longrightarrow> nd_cat (hg_nodes (subgraph ord K hg) ! k) = nd_cat (hg_nodes hg ! nat (ord ! k))"
  "k < length ord \<Longrightarrow> nd_in (hg_nodes (subgraph ord K hg) ! k) = map (posn K) (filter (\<lambda>e. e \<in> set K) (nd_in (hg_nodes hg ! nat (ord ! k))))"
  "k < length ord \<Longrightarrow> nd_out (hg_nodes (subgraph ord K hg) ! k) = map (posn K) (filter (\<lambda>e. e \<in> set K) (nd_out (hg_nodes hg ! nat (ord ! k))))"
  "j < length K \<Longrightarrow> ed_id (hg_edges (subgraph ord K hg) ! j) = posn K (K ! j)"
  "j < length K \<Longrightarrow> ed_head (hg_edges (subgraph ord K hg) ! j) = posn ord (ed_head (hg_edges hg ! nat (K ! j)))"
  "j < length K \<Longrightarrow> ed_tails (hg_edges (subgraph ord K hg) ! j) = map (posn ord) (ed_tails (hg_edges hg ! nat (K ! j)))"
  by (simp_all add: subgraph_def Let_def)

lemma count_list_posn:
  assumes "distinct K" "j < length K"
  shows "count_list (map (posn K) (filter (\<lambda>e. e \<in> set K) es)) (int j) = count_list es (K ! j)"
proof (induction es)
  case (Cons e es)
  have "posn K e = int j \<longleftrightarrow> e = K ! j" if "e \<in> set K" using posn_eq_iff [OF assms(1) that assms(2)] .
  moreover have "K ! j \<in> set K" using assms by simp
  ultimately show ?case using Cons by auto
qed simp

lemma count_list_posn_tails:
  assumes "distinct ord" "k < length ord" "set ts \<subseteq> set ord"
  shows "count_list (map (posn ord) ts) (int k) = count_list ts (ord ! k)"
  using assms(3)
proof (induction ts)
  case (Cons t ts)
  then show ?case using posn_eq_iff [OF assms(1) _ assms(2), of t] by auto
qed simp

lemma subgraph_consistent:
  assumes c: "consistent_hg {} hg" and ok: "sub_ok ord K hg"
  shows "consistent_hg {} (subgraph ord K hg)"
proof (rule consistent_hgI)
  note dist = sub_okD(1,2) [OF ok]
  show "nd_id (hg_nodes (subgraph ord K hg) ! n) = int n" if "n < length (hg_nodes (subgraph ord K hg))" for n
    using that dist by (simp add: subgraph_simps posn_nth)
  show "ed_id (hg_edges (subgraph ord K hg) ! e) = int e" if "e < length (hg_edges (subgraph ord K hg))" for e
    using that dist by (simp add: subgraph_simps posn_nth)
  show "0 \<le> t \<and> t < vsize (hg_nodes (subgraph ord K hg))"
    if "e < length (hg_edges (subgraph ord K hg))" "t \<in> set (ed_tails (hg_edges (subgraph ord K hg) ! e))" for e t
    using that sub_okD(6) [OF ok, of "K ! e"] posn_member(1) [of _ ord] by (fastforce simp: subgraph_simps vsize_def)
  show "0 \<le> ed_head (hg_edges (subgraph ord K hg) ! e) \<and> ed_head (hg_edges (subgraph ord K hg) ! e) < vsize (hg_nodes (subgraph ord K hg))"
    if "e < length (hg_edges (subgraph ord K hg))" "int e \<notin> {}" for e
    using that sub_okD(5) [OF ok, of "K ! e"] posn_member(1) [of _ ord] by (simp add: subgraph_simps vsize_def)
  fix n assume n: "n < length (hg_nodes (subgraph ord K hg))"
  then have n': "n < length ord" by (simp add: subgraph_simps)
  note i = sub_okD(3) [OF ok nth_mem [OF n']]
  show "distinct (nd_in (hg_nodes (subgraph ord K hg) ! n))"
    using consistentD(5) [OF c, of "nat (ord ! n)"] i n' posn_inj [of _ K] by (auto simp: subgraph_simps distinct_map inj_on_def)
  fix e
  show "e \<in> set (nd_in (hg_nodes (subgraph ord K hg) ! n)) \<longleftrightarrow> 0 \<le> e \<and> e < vsize (hg_edges (subgraph ord K hg)) \<and> e \<notin> {} \<and>
      ed_head (hg_edges (subgraph ord K hg) ! nat e) = int n"
  proof (cases "0 \<le> e \<and> e < vsize K")
    case True
    then have e: "nat e < length K" "e = int (nat e)" by (auto simp: vsize_def)
    let ?x = "K ! nat e"
    note x = nth_mem [OF e(1)]
    have "e \<in> set (nd_in (hg_nodes (subgraph ord K hg) ! n)) \<longleftrightarrow> ?x \<in> set (nd_in (hg_nodes hg ! nat (ord ! n)))"
      using n' e posn_eq_iff [OF dist(2) _ e(1)] posn_nth [OF dist(2) e(1)] x by (force simp: subgraph_simps image_iff)
    also have "\<dots> \<longleftrightarrow> ed_head (hg_edges hg ! nat ?x) = ord ! n"
      using consistentD(6) [OF c, of "nat (ord ! n)" ?x] i sub_okD(4) [OF ok x] by simp
    also have "\<dots> \<longleftrightarrow> posn ord (ed_head (hg_edges hg ! nat ?x)) = int n"
      using posn_eq_iff [OF dist(1) sub_okD(5) [OF ok x] n'] by simp
    finally show ?thesis
      using True e(1) by (simp add: subgraph_simps vsize_def)
  next
    case False
    then show ?thesis using n' posn_member(1) [of _ K] by (auto simp: subgraph_simps vsize_def)
  qed
  show "count_list (nd_out (hg_nodes (subgraph ord K hg) ! n)) e = (if 0 \<le> e \<and> e < vsize (hg_edges (subgraph ord K hg))
      then count_list (ed_tails (hg_edges (subgraph ord K hg) ! nat e)) (int n) else 0)"
  proof (cases "0 \<le> e \<and> e < vsize K")
    case True
    then have e: "nat e < length K" "e = int (nat e)" by (auto simp: vsize_def)
    let ?x = "K ! nat e"
    note x = nth_mem [OF e(1)]
    have "count_list (nd_out (hg_nodes (subgraph ord K hg) ! n)) e = count_list (nd_out (hg_nodes hg ! nat (ord ! n))) ?x"
      using count_list_posn [OF dist(2) e(1)] n' e(2) by (simp add: subgraph_simps)
    also have "\<dots> = count_list (ed_tails (hg_edges hg ! nat ?x)) (ord ! n)"
      using consistentD(7) [OF c, of "nat (ord ! n)" ?x] i sub_okD(4) [OF ok x] by simp
    also have "\<dots> = count_list (map (posn ord) (ed_tails (hg_edges hg ! nat ?x))) (int n)"
      using count_list_posn_tails [OF dist(1) n'] sub_okD(6) [OF ok x] by (metis subsetI)
    finally show ?thesis
      using True e(1) by (simp add: subgraph_simps vsize_def)
  next
    case False
    then have "e \<notin> set (map (posn K) (filter (\<lambda>e. e \<in> set K) (nd_out (hg_nodes hg ! nat (ord ! n)))))"
      using posn_member(1) [of _ K] by auto
    then show ?thesis using False n' by (simp only: subgraph_simps count_notin) (auto simp: vsize_def subgraph_simps)
  qed
qed

lemma subgraph_topological:
  assumes c: "consistent_hg {} hg" and ok: "sub_ok ord K hg"
    and down: "\<And>e t. e \<in> set K \<Longrightarrow> t \<in> set (ed_tails (hg_edges hg ! nat e)) \<Longrightarrow> posn ord t < posn ord (ed_head (hg_edges hg ! nat e))"
  shows "topological (subgraph ord K hg)"
proof -
  have "0 \<le> e \<and> e < vsize (hg_edges (subgraph ord K hg)) \<and>
      (\<forall>t \<in> set (ed_tails (hg_edges (subgraph ord K hg) ! nat e)). 0 \<le> t \<and> t < int n)"
    if n: "n < length (hg_nodes (subgraph ord K hg))" and e: "e \<in> set (nd_in (hg_nodes (subgraph ord K hg) ! n))" for n e
  proof -
    have r: "0 \<le> e" "e < vsize (hg_edges (subgraph ord K hg))" "ed_head (hg_edges (subgraph ord K hg) ! nat e) = int n"
      using consistentD(6) [OF subgraph_consistent [OF c ok] n] e by auto
    then have "nat e < length K" by (simp add: subgraph_simps vsize_def nat_less_iff)
    then show ?thesis using r down [of "K ! nat e"] by (auto simp: subgraph_simps)
  qed
  then show ?thesis by (fastforce simp: topological_def list_all_iff in_set_enumerate_eq)
qed

section \<open>Its derivations\<close>

fun deriv_edges :: "deriv \<Rightarrow> int set" where
  "deriv_edges (Deriv e ds) = insert e (\<Union>d \<in> set ds. deriv_edges d)"

fun relabel :: "(int \<Rightarrow> int) \<Rightarrow> deriv \<Rightarrow> deriv" where
  "relabel f (Deriv e ds) = Deriv (f e) (map (relabel f) ds)"

lemma relabel_inj: "inj_on f A \<Longrightarrow> deriv_edges d \<subseteq> A \<Longrightarrow> deriv_edges d' \<subseteq> A \<Longrightarrow> relabel f d = relabel f d' \<Longrightarrow> d = d'"
proof (induction d arbitrary: d')
  case (Deriv e ds)
  obtain e' ds' where d': "d' = Deriv e' ds'" by (cases d')
  have "ds = ds'"
  proof (rule nth_equalityI)
    show len: "length ds = length ds'" using Deriv.prems(4) by (auto simp: d' dest: map_eq_imp_length_eq)
    fix i assume i: "i < length ds"
    have "relabel f (ds ! i) = relabel f (ds' ! i)"
      using Deriv.prems(4) i len by (auto simp: d' list_eq_iff_nth_eq)
    then show "ds ! i = ds' ! i"
      using Deriv.IH [of "ds ! i" "ds' ! i"] Deriv.prems(1-3) i len by (auto simp: d' UN_subset_iff)
  qed
  then show ?case using Deriv.prems by (auto simp: d' inj_on_def)
qed

lemma subgraph_derives_of:
  assumes c: "consistent_hg {} hg" and ok: "sub_ok ord K hg"
  shows "derives hg n d \<Longrightarrow> int n \<in> set ord \<Longrightarrow> deriv_edges d \<subseteq> set K \<Longrightarrow>
    derives (subgraph ord K hg) (nat (posn ord (int n))) (relabel (posn K) d)"
proof (induction rule: derives.induct)
  case (derives_edge n e ds)
  let ?k = "nat (posn ord (int n))" and ?j = "nat (posn K e)"
  have k: "?k < length ord" "ord ! ?k = int n" and e: "e \<in> set K" "?j < length K" "K ! ?j = e"
    using posn_member [OF derives_edge.prems(1)] posn_member [of e K] derives_edge.prems by (auto simp: vsize_def nat_less_iff)
  have "list_all2 (\<lambda>t d. derives (subgraph ord K hg) (nat (posn ord t)) (relabel (posn K) d)) (ed_tails (hg_edges hg ! nat e)) ds"
    unfolding list_all2_conv_all_nth
  proof (intro conjI allI impI)
    show len: "length (ed_tails (hg_edges hg ! nat e)) = length ds"
      using derives_edge(3) by (simp add: list_all2_lengthD)
    fix m assume m: "m < length (ed_tails (hg_edges hg ! nat e))"
    let ?t = "ed_tails (hg_edges hg ! nat e) ! m"
    have "?t \<in> set ord" "0 \<le> ?t" using sub_okD(6) [OF ok e(1)] sub_okD(3) [OF ok] m by auto
    moreover have "deriv_edges (ds ! m) \<subseteq> set K" using derives_edge.prems(2) nth_mem [of m ds] m len by fastforce
    ultimately show "derives (subgraph ord K hg) (nat (posn ord ?t)) (relabel (posn K) (ds ! m))"
      using derives_edge(3) m by (auto simp: list_all2_conv_all_nth)
  qed
  then show ?case
    using k e derives_edge.hyps by (auto simp: derives_Deriv subgraph_simps list_all2_map1 list_all2_map2 list.rel_map)
qed

lemma subgraph_derives_only:
  assumes c: "consistent_hg {} hg" and ok: "sub_ok ord K hg"
  shows "derives (subgraph ord K hg) k d' \<Longrightarrow>
    \<exists>d. d' = relabel (posn K) d \<and> derives hg (nat (ord ! k)) d \<and> deriv_edges d \<subseteq> set K"
proof (induction rule: derives.induct)
  case (derives_edge k j ds')
  have k: "k < length ord" using derives_edge.hyps(1) by (simp add: subgraph_simps)
  obtain e where e: "e \<in> set K" "j = posn K e" "e \<in> set (nd_in (hg_nodes hg ! nat (ord ! k)))"
    using derives_edge.hyps(2) k by (auto simp: subgraph_simps)
  have j: "nat j < length K" "K ! nat j = e" using posn_member [OF e(1)] e(2) by (auto simp: vsize_def nat_less_iff)
  let ?ts = "ed_tails (hg_edges hg ! nat e)"
  have tails: "ed_tails (hg_edges (subgraph ord K hg) ! nat j) = map (posn ord) ?ts" using j by (simp add: subgraph_simps)
  have len: "length ?ts = length ds'" using derives_edge(3) tails by (auto dest: list_all2_lengthD)
  have "\<exists>d. ds' ! m = relabel (posn K) d \<and> derives hg (nat (?ts ! m)) d \<and> deriv_edges d \<subseteq> set K" if m: "m < length ds'" for m
  proof -
    have "?ts ! m \<in> set ord" using sub_okD(6) [OF ok e(1)] m len by simp
    then have "ord ! nat (posn ord (?ts ! m)) = ?ts ! m" by (rule posn_member(2))
    moreover have "\<exists>d. ds' ! m = relabel (posn K) d \<and> derives hg (nat (ord ! nat (posn ord (?ts ! m)))) d \<and> deriv_edges d \<subseteq> set K"
      using derives_edge(3) m len unfolding tails by (auto simp: list_all2_conv_all_nth)
    ultimately show ?thesis by (simp only:)
  qed
  then obtain f where f: "\<And>m. m < length ds' \<Longrightarrow> ds' ! m = relabel (posn K) (f m) \<and> derives hg (nat (?ts ! m)) (f m) \<and> deriv_edges (f m) \<subseteq> set K"
    by metis
  let ?ds = "map f [0..<length ds']"
  have "ds' = map (relabel (posn K)) ?ds" by (rule nth_equalityI) (use f in auto)
  moreover have "derives hg (nat (ord ! k)) (Deriv e ?ds)"
    using sub_okD(3) [OF ok nth_mem [OF k]] e(3) f len by (auto simp: derives_Deriv list_all2_conv_all_nth)
  moreover have "deriv_edges (Deriv e ?ds) \<subseteq> set K" using f e(1) by fastforce
  ultimately show ?case using e(2) by (intro exI [of _ "Deriv e ?ds"]) simp
qed

lemma subgraph_derives:
  assumes "consistent_hg {} hg" "sub_ok ord K hg" "n \<in> set ord"
  shows "{d. derives (subgraph ord K hg) (nat (posn ord n)) d} = relabel (posn K) ` {d. derives hg (nat n) d \<and> deriv_edges d \<subseteq> set K}"
proof -
  have n: "int (nat n) = n" using sub_okD(3) [OF assms(2,3)] by simp
  note only = subgraph_derives_only [OF assms(1,2), of "nat (posn ord n)", unfolded posn_member(2) [OF assms(3)]]
    and of = subgraph_derives_of [OF assms(1,2), of "nat n", unfolded n]
  show ?thesis using only of assms(3) unfolding image_def by blast
qed

end
