(* ===== verification/TopoSort.thy ===== *)
theory TopoSort
  imports SubGraphs
begin

text \<open>
  \<open>Hypergraph::TopologicallySortNodesAndEdges\<close> (\<open>decoder/hg.cc\<close>): a depth-first search from the goal with
  an explicit stack numbers the nodes it leaves; nodes and edges that get no number are removed and the
  rest are renumbered. The head of the list is the top of the stack. A cycle aborts (\<open>None\<close>).
\<close>

section \<open>The search\<close>

datatype ColorType = WHITE | GRAY | BLACK

datatype DFSContext = DFSContext (cx_node: int) (cx_edge_iter: int) (cx_tail_iter: int)

definition is_pruned :: "bool list option \<Rightarrow> int \<Rightarrow> bool option" where
  "is_pruned prune_edges e = (case prune_edges of None \<Rightarrow> Some False | Some m \<Rightarrow> vat m e)"

text \<open>The inner loop: from a position in a node down to a node whose tails have all been left.\<close>

partial_function (option) visit_node :: "('f, 'w) hypergraph \<Rightarrow> bool list option \<Rightarrow> int \<Rightarrow> int \<Rightarrow> int \<Rightarrow> DFSContext list \<Rightarrow> ColorType list \<Rightarrow>
    (int \<times> DFSContext list \<times> ColorType list) option" where
  "visit_node hg prune_edges cur_ni edge_i tail_i stack color = do {
     cur_node \<leftarrow> vat (hg_nodes hg) cur_ni;
     if edge_i = vsize (nd_in cur_node) then Some (cur_ni, stack, color)
     else do {
       eid \<leftarrow> vat (nd_in cur_node) edge_i;
       cur_edge \<leftarrow> vat (hg_edges hg) eid;
       skip \<leftarrow> (if vsize (ed_tails cur_edge) = tail_i then Some True else is_pruned prune_edges (ed_id cur_edge));
       if skip then visit_node hg prune_edges cur_ni (edge_i + 1) 0 stack color
       else do {
         tail_ni \<leftarrow> vat (ed_tails cur_edge) tail_i;
         tail_color \<leftarrow> vat color tail_ni;
         case tail_color of
           WHITE \<Rightarrow> do {
             color \<leftarrow> vset color tail_ni GRAY;
             visit_node hg prune_edges tail_ni 0 0 (DFSContext cur_ni edge_i (tail_i + 1) # stack) color }
         | BLACK \<Rightarrow> visit_node hg prune_edges cur_ni edge_i (tail_i + 1) stack color
         | GRAY \<Rightarrow> None } } }"

record topo_state =
  ts_stack :: "DFSContext list"
  ts_color :: "ColorType list"
  ts_reloc_node :: "int list"
  ts_reloc_edge :: "int list"
  ts_node_count :: int
  ts_edge_count :: int

definition leave_node :: "('f, 'w) hypergraph \<Rightarrow> bool list option \<Rightarrow> int \<Rightarrow> topo_state \<Rightarrow> topo_state option" where
  "leave_node hg prune_edges cur_ni ts = do {
     color \<leftarrow> vset (ts_color ts) cur_ni BLACK;
     reloc_node \<leftarrow> vset (ts_reloc_node ts) cur_ni (ts_node_count ts);
     cur_node \<leftarrow> vat (hg_nodes hg) cur_ni;
     (reloc_edge, edge_count) \<leftarrow> for_each (nd_in cur_node) (\<lambda>ei (reloc_edge, edge_count). do {
       p \<leftarrow> is_pruned prune_edges ei;
       if p then Some (reloc_edge, edge_count)
       else map_option (\<lambda>re. (re, edge_count + 1)) (vset reloc_edge ei edge_count) }) (ts_reloc_edge ts, ts_edge_count ts);
     Some (ts\<lparr>ts_color := color, ts_reloc_node := reloc_node, ts_node_count := ts_node_count ts + 1,
       ts_reloc_edge := reloc_edge, ts_edge_count := edge_count\<rparr>) }"

partial_function (option) topo_search :: "('f, 'w) hypergraph \<Rightarrow> bool list option \<Rightarrow> topo_state \<Rightarrow> topo_state option" where
  "topo_search hg prune_edges ts = (case ts_stack ts of
      [] \<Rightarrow> Some ts
    | p # stack \<Rightarrow> do {
        (cur_ni, stack, color) \<leftarrow> visit_node hg prune_edges (cx_node p) (cx_edge_iter p) (cx_tail_iter p) stack (ts_color ts);
        ts \<leftarrow> leave_node hg prune_edges cur_ni (ts\<lparr>ts_stack := stack, ts_color := color\<rparr>);
        topo_search hg prune_edges ts })"

section \<open>Renumbering\<close>

text \<open>The edges that stay keep their order.\<close>

definition renumber_edges :: "int list \<Rightarrow> int list" where
  "renumber_edges reloc_edge = fst (fold (\<lambda>cp (re, ec). if 0 \<le> cp then (re @ [ec], ec + 1) else (re @ [cp], ec)) reloc_edge ([], 0))"

definition relocate :: "int list \<Rightarrow> int list \<Rightarrow> int list option" where
  "relocate reloc es = for_each es (\<lambda>e out. do {
     new_index \<leftarrow> vat reloc e;
     Some (if 0 \<le> new_index then out @ [new_index] else out) }) []"

definition reloc_node_edges :: "int list \<Rightarrow> int list \<Rightarrow> node list \<Rightarrow> node list option" where
  "reloc_node_edges reloc_node reloc_edge nodes = for_each (positions nodes) (\<lambda>i nodes. do {
     node \<leftarrow> vat nodes i;
     r \<leftarrow> vat reloc_node i;
     ins \<leftarrow> relocate reloc_edge (nd_in node);
     outs \<leftarrow> relocate reloc_edge (nd_out node);
     vset nodes i (node\<lparr>nd_id := r, nd_in := ins, nd_out := outs\<rparr>) }) nodes"

definition reloc_edge_nodes :: "int list \<Rightarrow> int list \<Rightarrow> ('f, 'w) edge list \<Rightarrow> ('f, 'w) edge list option" where
  "reloc_edge_nodes reloc_node reloc_edge edges = for_each (positions edges) (\<lambda>i edges. do {
     edge \<leftarrow> vat edges i;
     r \<leftarrow> vat reloc_edge i;
     h \<leftarrow> vat reloc_node (ed_head edge);
     ts \<leftarrow> for_each (ed_tails edge) (\<lambda>t ts. map_option (\<lambda>r. ts @ [r]) (vat reloc_node t)) [];
     vset edges i (edge\<lparr>ed_id := r, ed_head := h, ed_tails := ts\<rparr>) }) edges"

definition TopologicallySortNodesAndEdges :: "int \<Rightarrow> bool list option \<Rightarrow> ('f, 'w) hypergraph \<Rightarrow> ('f, 'w) hypergraph option" where
  "TopologicallySortNodesAndEdges goal_index prune_edges hg = do {
     ts \<leftarrow> topo_search hg prune_edges \<lparr>ts_stack = [DFSContext goal_index 0 0], ts_color = map (\<lambda>_. WHITE) (hg_nodes hg),
       ts_reloc_node = map (\<lambda>_. -1) (hg_nodes hg), ts_reloc_edge = map (\<lambda>_. -1) (hg_edges hg), ts_node_count = 0, ts_edge_count = 0\<rparr>;
     let reloc_node = ts_reloc_node ts;
     let reloc_edge = renumber_edges (ts_reloc_edge ts);
     if reloc_node = positions (hg_nodes hg) \<and> reloc_edge = positions (hg_edges hg) then Some hg
     else do {
       nodes \<leftarrow> reloc_node_edges reloc_node reloc_edge (hg_nodes hg);
       edges \<leftarrow> reloc_edge_nodes reloc_node reloc_edge (hg_edges hg);
       Some (hg\<lparr>hg_edges := sort_key ed_id (filter (\<lambda>e. ed_id e \<noteq> -1) edges),
         hg_nodes := sort_key nd_id (filter (\<lambda>n. nd_id n \<noteq> -1) nodes)\<rparr>) } }"

definition PruneUnreachable :: "int \<Rightarrow> ('f, 'w) hypergraph \<Rightarrow> ('f, 'w) hypergraph option" where
  "PruneUnreachable goal_node_id hg = TopologicallySortNodesAndEdges goal_node_id None hg"

section \<open>The search ends, with the tails of a node before the node\<close>

definition pruned :: "bool list option \<Rightarrow> int \<Rightarrow> bool" where
  "pruned prune_edges e = (case prune_edges of None \<Rightarrow> False | Some m \<Rightarrow> m ! nat e)"

definition mask_ok :: "('f, 'w) hypergraph \<Rightarrow> bool list option \<Rightarrow> bool" where
  "mask_ok hg prune_edges \<longleftrightarrow> (case prune_edges of None \<Rightarrow> True | Some m \<Rightarrow> length m = length (hg_edges hg))"

lemma is_pruned_Some: "mask_ok hg pr \<Longrightarrow> 0 \<le> e \<Longrightarrow> e < vsize (hg_edges hg) \<Longrightarrow> is_pruned pr e = Some (pruned pr e)"
  by (auto simp: is_pruned_def pruned_def mask_ok_def vat_eq vsize_def split: option.splits)

abbreviation ins :: "('f, 'w) hypergraph \<Rightarrow> int \<Rightarrow> int list" where
  "ins hg n \<equiv> nd_in (hg_nodes hg ! nat n)"

abbreviation tails :: "('f, 'w) hypergraph \<Rightarrow> int \<Rightarrow> int list" where
  "tails hg e \<equiv> ed_tails (hg_edges hg ! nat e)"

text \<open>The tail of an edge that is not pruned and its head.\<close>

definition dep :: "('f, 'w) hypergraph \<Rightarrow> bool list option \<Rightarrow> (int \<times> int) set" where
  "dep hg pr = {(t, n). 0 \<le> n \<and> n < vsize (hg_nodes hg) \<and> (\<exists>e \<in> set (ins hg n). \<not> pruned pr e \<and> t \<in> set (tails hg e))}"

text \<open>The tails before a position.\<close>

definition seen :: "('f, 'w) hypergraph \<Rightarrow> bool list option \<Rightarrow> int \<Rightarrow> int \<Rightarrow> int \<Rightarrow> int set" where
  "seen hg pr n ei ti = {t. \<exists>j k. j < length (ins hg n) \<and> \<not> pruned pr (ins hg n ! j) \<and> k < length (tails hg (ins hg n ! j)) \<and>
     (int j < ei \<or> int j = ei \<and> int k < ti) \<and> t = tails hg (ins hg n ! j) ! k}"

lemma seen_start: "seen hg pr n 0 0 = {}"
  by (auto simp: seen_def)

lemma seen_all: "0 \<le> n \<Longrightarrow> n < vsize (hg_nodes hg) \<Longrightarrow> seen hg pr n (vsize (ins hg n)) ti = {t. (t, n) \<in> dep hg pr}"
  by (fastforce simp: seen_def dep_def vsize_def in_set_conv_nth)

lemma seen_next_edge:
  assumes "vsize (tails hg (ins hg n ! nat ei)) = ti \<or> pruned pr (ins hg n ! nat ei)"
  shows "seen hg pr n (ei + 1) 0 \<subseteq> seen hg pr n ei ti"
  using assms by (fastforce simp: seen_def vsize_def)

lemma seen_next_tail:
  assumes "0 \<le> ti"
  shows "seen hg pr n ei (ti + 1) \<subseteq> insert (tails hg (ins hg n ! nat ei) ! nat ti) (seen hg pr n ei ti)"
proof
  fix t assume "t \<in> seen hg pr n ei (ti + 1)"
  then obtain j k where jk: "j < length (ins hg n)" "\<not> pruned pr (ins hg n ! j)" "k < length (tails hg (ins hg n ! j))"
    "int j < ei \<or> int j = ei \<and> int k < ti + 1" "t = tails hg (ins hg n ! j) ! k"
    by (auto simp: seen_def)
  show "t \<in> insert (tails hg (ins hg n ! nat ei) ! nat ti) (seen hg pr n ei ti)"
  proof (cases "int j = ei \<and> int k = ti")
    case True
    then have "nat ei = j" "nat ti = k" by auto
    then show ?thesis using jk by simp
  next
    case False
    then have "int j < ei \<or> int j = ei \<and> int k < ti" using jk(4) by linarith
    then show ?thesis using jk by (auto simp: seen_def)
  qed
qed

text \<open>The stack is a path from the goal to the current node; \<open>B\<close> are the nodes that have been left.\<close>

fun path_ok :: "('f, 'w) hypergraph \<Rightarrow> bool list option \<Rightarrow> int \<Rightarrow> int set \<Rightarrow> int \<Rightarrow> DFSContext list \<Rightarrow> bool" where
  "path_ok hg pr goal B cur [] \<longleftrightarrow> cur = goal"
| "path_ok hg pr goal B cur (DFSContext n ei ti # st) \<longleftrightarrow> (cur, n) \<in> dep hg pr \<and> n \<notin> B \<and> 0 \<le> ei \<and> ei < vsize (ins hg n) \<and>
     0 \<le> ti \<and> ti \<le> vsize (tails hg (ins hg n ! nat ei)) \<and> seen hg pr n ei ti \<subseteq> insert cur B \<and> path_ok hg pr goal B n st"

lemma path_ok_above: "path_ok hg pr goal B cur st \<Longrightarrow> n \<in> cx_node ` set st \<Longrightarrow> (cur, n) \<in> (dep hg pr)\<^sup>+ \<and> n \<notin> B"
proof (induction st arbitrary: cur)
  case (Cons p st)
  then show ?case by (cases p) (auto intro: trancl_into_trancl2)
qed simp

lemma path_ok_goal: "path_ok hg pr goal B cur st \<Longrightarrow> (cur, goal) \<in> (dep hg pr)\<^sup>*"
proof (induction st arbitrary: cur)
  case (Cons p st)
  then show ?case by (cases p) (auto intro: converse_rtrancl_into_rtrancl)
qed simp

lemma path_ok_mono: "path_ok hg pr goal B cur st \<Longrightarrow> B \<subseteq> B' \<Longrightarrow> B' \<inter> cx_node ` set st = {} \<Longrightarrow> path_ok hg pr goal B' cur st"
proof (induction st arbitrary: cur)
  case (Cons p st)
  then show ?case by (cases p) (auto, blast?)
qed simp

text \<open>What is known of the numbers given so far; \<open>ord\<close> are the nodes left, in order.\<close>

definition topo_inv :: "('f, 'w) hypergraph \<Rightarrow> bool list option \<Rightarrow> int \<Rightarrow> int list \<Rightarrow> ColorType list \<Rightarrow> topo_state \<Rightarrow> bool" where
  "topo_inv hg pr goal ord color ts \<longleftrightarrow>
     length color = length (hg_nodes hg) \<and> length (ts_reloc_node ts) = length (hg_nodes hg) \<and> length (ts_reloc_edge ts) = length (hg_edges hg) \<and>
     ts_node_count ts = vsize ord \<and> 0 \<le> ts_edge_count ts \<and> distinct ord \<and> set ord \<subseteq> {0..<vsize (hg_nodes hg)} \<and>
     (\<forall>n < length (hg_nodes hg). (color ! n = BLACK \<longleftrightarrow> int n \<in> set ord) \<and>
        ts_reloc_node ts ! n = (if int n \<in> set ord then posn ord (int n) else -1)) \<and>
     (\<forall>k < length ord. \<forall>t. (t, ord ! k) \<in> dep hg pr \<longrightarrow> t \<in> set (take k ord)) \<and>
     (\<forall>n \<in> set ord. (n, goal) \<in> (dep hg pr)\<^sup>*) \<and>
     (\<forall>e < length (hg_edges hg). if ed_head (hg_edges hg ! e) \<in> set ord \<and> \<not> pruned pr (int e) then 0 \<le> ts_reloc_edge ts ! e
        else ts_reloc_edge ts ! e = -1)"

lemma posn_snoc: "x \<in> set xs \<Longrightarrow> posn (xs @ [y]) x = posn xs x" "x \<notin> set xs \<Longrightarrow> posn (xs @ [x]) x = vsize xs"
  by (induction xs) (auto simp: posn_def)

text \<open>The loop that numbers the in-edges of a node.\<close>

lemma number_edges:
  assumes "mask_ok hg pr" "set es \<subseteq> {0..<vsize (hg_edges hg)}" "length re = length (hg_edges hg)" "0 \<le> (ec :: int)"
  shows "\<exists>re' ec'. for_each es (\<lambda>ei (reloc_edge, edge_count). do {
       p \<leftarrow> is_pruned pr ei;
       if p then Some (reloc_edge, edge_count)
       else map_option (\<lambda>re. (re, edge_count + 1)) (vset reloc_edge ei edge_count) }) (re, ec) = Some (re', ec') \<and>
     length re' = length re \<and> 0 \<le> ec' \<and>
     (\<forall>e < length re. if int e \<in> set es \<and> \<not> pruned pr (int e) then 0 \<le> re' ! e else re' ! e = re ! e)"
  using assms(2-4)
proof (induction es arbitrary: re ec)
  case (Cons x es)
  have x: "0 \<le> x" "x < vsize (hg_edges hg)" using Cons.prems by auto
  show ?case
  proof (cases "pruned pr x")
    case True
    with Cons.IH [of re ec] Cons.prems show ?thesis by (fastforce simp: is_pruned_Some [OF assms(1) x])
  next
    case False
    have "length (re[nat x := ec]) = length (hg_edges hg)" "0 \<le> ec + 1" "set es \<subseteq> {0..<vsize (hg_edges hg)}"
      using Cons.prems by auto
    from Cons.IH [OF this(3,1,2)] obtain re' ec' where "for_each es (\<lambda>ei (reloc_edge, edge_count). do {
         p \<leftarrow> is_pruned pr ei;
         if p then Some (reloc_edge, edge_count)
         else map_option (\<lambda>re. (re, edge_count + 1)) (vset reloc_edge ei edge_count) }) (re[nat x := ec], ec + 1) = Some (re', ec')"
      and "length re' = length (re[nat x := ec])" "0 \<le> ec'"
        "\<forall>e < length (re[nat x := ec]). if int e \<in> set es \<and> \<not> pruned pr (int e) then 0 \<le> re' ! e else re' ! e = re[nat x := ec] ! e"
      by (elim exE conjE) (rule that)
    note rest = this
    have "if int e \<in> set (x # es) \<and> \<not> pruned pr (int e) then 0 \<le> re' ! e else re' ! e = re ! e" if e: "e < length re" for e
      using rest(4) [rule_format, of e] e False x Cons.prems(3) by (cases "e = nat x") (auto split: if_splits)
    moreover have "is_pruned pr x = Some False" "vset re x ec = Some (re[nat x := ec])"
      using False x Cons.prems by (simp_all add: is_pruned_Some [OF assms(1) x] vset_eq vsize_def)
    ultimately show ?thesis
      using rest(1-3) by (intro exI [of _ re'] exI [of _ ec']) simp
  qed
qed auto

lemma topo_invD:
  assumes "topo_inv hg pr goal ord color ts"
  shows "length color = length (hg_nodes hg)" "distinct ord"
    and "n \<in> set ord \<Longrightarrow> 0 \<le> n \<and> n < vsize (hg_nodes hg)"
    and "0 \<le> n \<Longrightarrow> n < vsize (hg_nodes hg) \<Longrightarrow> color ! nat n = BLACK \<longleftrightarrow> n \<in> set ord"
  using assms by (auto simp: topo_inv_def vsize_def nat_less_iff)

lemma leave_node_inv:
  assumes c: "consistent_hg {} hg" and m: "mask_ok hg pr" and I: "topo_inv hg pr goal ord (ts_color ts) ts"
    and n: "0 \<le> n" "n < vsize (hg_nodes hg)" "n \<notin> set ord" "(n, goal) \<in> (dep hg pr)\<^sup>*" "\<And>t. (t, n) \<in> dep hg pr \<Longrightarrow> t \<in> set ord"
  shows "\<exists>ts'. leave_node hg pr n ts = Some ts' \<and> topo_inv hg pr goal (ord @ [n]) (ts_color ts') ts' \<and> ts_stack ts' = ts_stack ts \<and>
    ts_color ts' = (ts_color ts)[nat n := BLACK]"
proof -
  have len: "length (ts_color ts) = length (hg_nodes hg)" "length (ts_reloc_node ts) = length (hg_nodes hg)"
    "length (ts_reloc_edge ts) = length (hg_edges hg)" "ts_node_count ts = vsize ord" "0 \<le> ts_edge_count ts"
    and dist: "distinct ord" and range: "set ord \<subseteq> {0..<vsize (hg_nodes hg)}"
    and nodes: "\<forall>n < length (hg_nodes hg). (ts_color ts ! n = BLACK \<longleftrightarrow> int n \<in> set ord) \<and>
      ts_reloc_node ts ! n = (if int n \<in> set ord then posn ord (int n) else -1)"
    and down: "\<forall>k < length ord. \<forall>t. (t, ord ! k) \<in> dep hg pr \<longrightarrow> t \<in> set (take k ord)"
    and reach: "\<forall>n \<in> set ord. (n, goal) \<in> (dep hg pr)\<^sup>*"
    and edges: "\<forall>e < length (hg_edges hg). if ed_head (hg_edges hg ! e) \<in> set ord \<and> \<not> pruned pr (int e)
      then 0 \<le> ts_reloc_edge ts ! e else ts_reloc_edge ts ! e = -1"
    using I unfolding topo_inv_def by - (elim conjE, assumption)+
  have nn: "nat n < length (hg_nodes hg)" "int (nat n) = n" using n by (auto simp: vsize_def nat_less_iff)
  have es: "set (ins hg n) \<subseteq> {0..<vsize (hg_edges hg)}" "\<And>e. e < length (hg_edges hg) \<Longrightarrow> int e \<in> set (ins hg n) \<longleftrightarrow> ed_head (hg_edges hg ! e) = n"
    using consistentD(6) [OF c nn(1), unfolded nn(2)] by (simp_all add: subset_iff) (simp_all add: vsize_def)
  obtain re ec where run: "for_each (ins hg n) (\<lambda>ei (reloc_edge, edge_count). do {
       p \<leftarrow> is_pruned pr ei;
       if p then Some (reloc_edge, edge_count)
       else map_option (\<lambda>re. (re, edge_count + 1)) (vset reloc_edge ei edge_count) }) (ts_reloc_edge ts, ts_edge_count ts) = Some (re, ec)"
    and re: "length re = length (ts_reloc_edge ts)" "0 \<le> ec"
      "\<forall>e < length (ts_reloc_edge ts). if int e \<in> set (ins hg n) \<and> \<not> pruned pr (int e) then 0 \<le> re ! e else re ! e = ts_reloc_edge ts ! e"
    using number_edges [OF m es(1) len(3,5)] by (elim exE conjE) (rule that)
  let ?ts = "ts\<lparr>ts_color := (ts_color ts)[nat n := BLACK], ts_reloc_node := (ts_reloc_node ts)[nat n := ts_node_count ts],
    ts_node_count := ts_node_count ts + 1, ts_reloc_edge := re, ts_edge_count := ec\<rparr>"
  have "vset (ts_color ts) n BLACK = Some ((ts_color ts)[nat n := BLACK])" "vat (hg_nodes hg) n = Some (hg_nodes hg ! nat n)"
    "vset (ts_reloc_node ts) n (ts_node_count ts) = Some ((ts_reloc_node ts)[nat n := ts_node_count ts])"
    using n(1,2) len(1,2) by (simp_all add: vset_def vat_def vsize_def)
  then have "leave_node hg pr n ts = Some ?ts"
    using run by (simp add: leave_node_def)
  moreover have "topo_inv hg pr goal (ord @ [n]) ((ts_color ts)[nat n := BLACK]) ?ts"
    unfolding topo_inv_def
  proof (intro conjI)
    show "\<forall>k < length (hg_nodes hg). ((ts_color ts)[nat n := BLACK] ! k = BLACK \<longleftrightarrow> int k \<in> set (ord @ [n])) \<and>
        ts_reloc_node ?ts ! k = (if int k \<in> set (ord @ [n]) then posn (ord @ [n]) (int k) else -1)"
    proof (intro allI impI)
      fix k assume k: "k < length (hg_nodes hg)"
      show "((ts_color ts)[nat n := BLACK] ! k = BLACK \<longleftrightarrow> int k \<in> set (ord @ [n])) \<and>
          ts_reloc_node ?ts ! k = (if int k \<in> set (ord @ [n]) then posn (ord @ [n]) (int k) else -1)"
        using nodes [rule_format, OF k] posn_snoc n len nn k by (cases "k = nat n") auto
    qed
    show "\<forall>k < length (ord @ [n]). \<forall>t. (t, (ord @ [n]) ! k) \<in> dep hg pr \<longrightarrow> t \<in> set (take k (ord @ [n]))"
      using down n(5) by (auto simp: nth_append less_Suc_eq)
    show "\<forall>e < length (hg_edges hg). if ed_head (hg_edges hg ! e) \<in> set (ord @ [n]) \<and> \<not> pruned pr (int e) then 0 \<le> ts_reloc_edge ?ts ! e
        else ts_reloc_edge ?ts ! e = -1"
    proof (intro allI impI)
      fix e assume e: "e < length (hg_edges hg)"
      show "if ed_head (hg_edges hg ! e) \<in> set (ord @ [n]) \<and> \<not> pruned pr (int e) then 0 \<le> ts_reloc_edge ?ts ! e else ts_reloc_edge ?ts ! e = -1"
        using edges [rule_format, OF e] re(3) [rule_format, of e] es(2) [OF e] e len(3) n(3) by (auto split: if_splits)
    qed
  qed (use n(1-4) len re(1,2) dist range reach in auto)
  ultimately show ?thesis by (intro exI [of _ ?ts]) simp
qed

text \<open>The search from a node and a stack, and what remains of it.\<close>

definition search_from :: "('f, 'w) hypergraph \<Rightarrow> bool list option \<Rightarrow> int \<times> int \<times> int \<times> DFSContext list \<times> topo_state \<Rightarrow> topo_state option" where
  "search_from hg pr = (\<lambda>(n, ei, ti, st, ts). do {
     (cur_ni, stack, color) \<leftarrow> visit_node hg pr n ei ti st (ts_color ts);
     ts \<leftarrow> leave_node hg pr cur_ni (ts\<lparr>ts_stack := stack, ts_color := color\<rparr>);
     topo_search hg pr ts })"

lemma topo_search_simps:
  "ts_stack ts = [] \<Longrightarrow> topo_search hg pr ts = Some ts"
  "ts_stack ts = DFSContext n ei ti # st \<Longrightarrow> topo_search hg pr ts = search_from hg pr (n, ei, ti, st, ts)"
  by (subst topo_search.simps, simp add: search_from_def)+

definition remaining :: "('f, 'w) hypergraph \<Rightarrow> int \<Rightarrow> int \<Rightarrow> int \<Rightarrow> nat" where
  "remaining hg n ei ti = (\<Sum>j = nat ei..<length (ins hg n). length (tails hg (ins hg n ! j)) + 1) + 1 - nat ti"

definition whites :: "topo_state \<Rightarrow> nat" where
  "whites ts = count_list (ts_color ts) WHITE"

definition to_do :: "('f, 'w) hypergraph \<Rightarrow> int \<times> int \<times> int \<times> DFSContext list \<times> topo_state \<Rightarrow> nat" where
  "to_do hg = (\<lambda>(n, ei, ti, st, ts). remaining hg n ei ti + (\<Sum>p\<leftarrow>st. remaining hg (cx_node p) (cx_edge_iter p) (cx_tail_iter p)))"

lemma remaining_eq:
  assumes "0 \<le> ei" "ei < vsize (ins hg n)" "0 \<le> ti"
  shows "\<exists>r. \<forall>ti. remaining hg n ei ti = length (tails hg (ins hg n ! nat ei)) + r + 2 - nat ti \<and> remaining hg n (ei + 1) 0 = r + 1"
proof -
  have e: "nat ei < length (ins hg n)" "nat (ei + 1) = Suc (nat ei)"
    using assms by (auto simp: vsize_def nat_less_iff)
  show ?thesis
    unfolding remaining_def sum.atLeast_Suc_lessThan [OF e(1)] e(2)
    by (intro exI [of _ "\<Sum>j = Suc (nat ei)..<length (ins hg n). length (tails hg (ins hg n ! j)) + 1"] allI conjI) simp_all
qed

lemma remaining_next:
  assumes e: "0 \<le> ei" "ei < vsize (ins hg n)" "0 \<le> ti" and ti: "ti \<le> vsize (tails hg (ins hg n ! nat ei))"
  shows "remaining hg n (ei + 1) 0 < remaining hg n ei ti"
    and "ti < vsize (tails hg (ins hg n ! nat ei)) \<Longrightarrow> remaining hg n ei (ti + 1) < remaining hg n ei ti"
    and "0 < remaining hg n ei ti"
proof -
  obtain r where r: "\<And>ti. remaining hg n ei ti = length (tails hg (ins hg n ! nat ei)) + r + 2 - nat ti" "remaining hg n (ei + 1) 0 = r + 1"
    using remaining_eq [OF e] by blast
  have t: "nat ti \<le> length (tails hg (ins hg n ! nat ei))" "nat (ti + 1) = Suc (nat ti)"
    using e ti by (auto simp: vsize_def)
  show "remaining hg n (ei + 1) 0 < remaining hg n ei ti" "0 < remaining hg n ei ti"
    using t unfolding r by linarith+
  show "remaining hg n ei (ti + 1) < remaining hg n ei ti" if "ti < vsize (tails hg (ins hg n ! nat ei))"
    using t that unfolding r t(2) by linarith
qed

lemma count_list_update:
  "n < length xs \<Longrightarrow> xs ! n = x \<Longrightarrow> y \<noteq> x \<Longrightarrow> count_list (xs[n := y]) x < count_list xs x"
  "y \<noteq> x \<Longrightarrow> count_list (xs[n := y]) x \<le> count_list xs x"
  by (induction xs arbitrary: n) (auto split: nat.split)

text \<open>The state in which the search goes on at a position of a node.\<close>

definition search_ok :: "('f, 'w) hypergraph \<Rightarrow> bool list option \<Rightarrow> int \<Rightarrow> int list \<Rightarrow> int \<times> int \<times> int \<times> DFSContext list \<times> topo_state \<Rightarrow> bool" where
  "search_ok hg pr goal ord = (\<lambda>(n, ei, ti, st, ts).
     topo_inv hg pr goal ord (ts_color ts) ts \<and> path_ok hg pr goal (set ord) n st \<and> n \<notin> set ord \<and> 0 \<le> n \<and> n < vsize (hg_nodes hg) \<and>
     0 \<le> ei \<and> ei \<le> vsize (ins hg n) \<and> 0 \<le> ti \<and> (ei < vsize (ins hg n) \<longrightarrow> ti \<le> vsize (tails hg (ins hg n ! nat ei))) \<and> (ei = vsize (ins hg n) \<longrightarrow> ti = 0) \<and>
     seen hg pr n ei ti \<subseteq> set ord \<and>
     (\<forall>m < length (hg_nodes hg). ts_color ts ! m = GRAY \<longrightarrow> int m \<in> insert n (cx_node ` set st)))"

lemma topo_inv_gray:
  assumes "topo_inv hg pr goal ord (ts_color ts) ts" "0 \<le> t" "t < vsize (hg_nodes hg)" "t \<notin> set ord"
  shows "topo_inv hg pr goal ord ((ts_color ts)[nat t := GRAY]) (ts\<lparr>ts_color := (ts_color ts)[nat t := GRAY]\<rparr>)"
proof -
  have "((ts_color ts)[nat t := GRAY] ! m = BLACK) = (ts_color ts ! m = BLACK)" if "m < length (hg_nodes hg)" for m
    using topo_invD(1,4) [OF assms(1)] assms(2-4) that by (cases "m = nat t") (auto simp: vsize_def)
  then show ?thesis using assms(1) by (simp add: topo_inv_def)
qed

lemma search_skip:
  assumes ok: "search_ok hg pr goal ord (n, ei, ti, st, ts)" and e: "ei < vsize (ins hg n)"
    and skip: "vsize (tails hg (ins hg n ! nat ei)) = ti \<or> pruned pr (ins hg n ! nat ei)"
  shows "search_ok hg pr goal ord (n, ei + 1, 0, st, ts)" "to_do hg (n, ei + 1, 0, st, ts) < to_do hg (n, ei, ti, st, ts)"
  using ok e seen_next_edge [OF skip] remaining_next(1) [of ei hg n ti] by (auto simp: search_ok_def to_do_def)

lemma search_tail:
  assumes ok: "search_ok hg pr goal ord (n, ei, ti, st, ts)" and e: "ei < vsize (ins hg n)"
    and ti: "ti < vsize (tails hg (ins hg n ! nat ei))" and t: "tails hg (ins hg n ! nat ei) ! nat ti \<in> set ord"
  shows "search_ok hg pr goal ord (n, ei, ti + 1, st, ts)" "to_do hg (n, ei, ti + 1, st, ts) < to_do hg (n, ei, ti, st, ts)"
proof -
  have "0 \<le> ti" using ok by (simp add: search_ok_def)
  from seen_next_tail [OF this, of hg pr n ei] show "search_ok hg pr goal ord (n, ei, ti + 1, st, ts)"
    using ok e ti t by (auto simp: search_ok_def)
  show "to_do hg (n, ei, ti + 1, st, ts) < to_do hg (n, ei, ti, st, ts)"
    using ok e ti remaining_next(2) [of ei hg n ti] by (simp add: search_ok_def to_do_def)
qed

lemma search_descend:
  assumes ok: "search_ok hg pr goal ord (n, ei, ti, st, ts)" and e: "ei < vsize (ins hg n)" "\<not> pruned pr (ins hg n ! nat ei)"
    and ti: "ti < vsize (tails hg (ins hg n ! nat ei))" and t: "t = tails hg (ins hg n ! nat ei) ! nat ti" "0 \<le> t" "t < vsize (hg_nodes hg)"
    and white: "ts_color ts ! nat t = WHITE" and dep: "(t, n) \<in> dep hg pr"
  shows "search_ok hg pr goal ord (t, 0, 0, DFSContext n ei (ti + 1) # st, ts\<lparr>ts_color := (ts_color ts)[nat t := GRAY]\<rparr>)"
    "whites (ts\<lparr>ts_color := (ts_color ts)[nat t := GRAY]\<rparr>) < whites ts"
proof -
  have I: "topo_inv hg pr goal ord (ts_color ts) ts" and ti0: "0 \<le> ti" using ok by (simp_all add: search_ok_def)
  have len: "nat t < length (ts_color ts)" using topo_invD(1) [OF I] t by (simp add: vsize_def nat_less_iff)
  have nt: "t \<notin> set ord" using topo_invD(4) [OF I t(2,3)] white by simp
  show "whites (ts\<lparr>ts_color := (ts_color ts)[nat t := GRAY]\<rparr>) < whites ts"
    using count_list_update(1) [OF len white] by (simp add: whites_def)
  have gray: "int m \<in> insert t (insert n (cx_node ` set st))" if "m < length (hg_nodes hg)" "(ts_color ts)[nat t := GRAY] ! m = GRAY" for m
    using ok that t(2) by (cases "m = nat t") (auto simp: search_ok_def)
  have "seen hg pr n ei (ti + 1) \<subseteq> insert t (set ord)"
    using seen_next_tail [OF ti0, of hg pr n ei] ok unfolding t(1) by (auto simp: search_ok_def)
  then show "search_ok hg pr goal ord (t, 0, 0, DFSContext n ei (ti + 1) # st, ts\<lparr>ts_color := (ts_color ts)[nat t := GRAY]\<rparr>)"
    using ok e ti t(2,3) dep nt gray topo_inv_gray [OF I t(2,3) nt] by (simp add: search_ok_def seen_start)
qed

text \<open>A node is left when all its tails have been; then the search goes on where the stack says.\<close>

lemma search_leave:
  assumes c: "consistent_hg {} hg" and m: "mask_ok hg pr" and ac: "acyclic (dep hg pr)"
    and ok: "search_ok hg pr goal ord (n, vsize (ins hg n), 0, st, ts)"
  shows "\<exists>ts'. leave_node hg pr n (ts\<lparr>ts_stack := st\<rparr>) = Some ts' \<and> ts_stack ts' = st \<and> whites ts' \<le> whites ts \<and>
    topo_inv hg pr goal (ord @ [n]) (ts_color ts') ts' \<and>
    (case st of [] \<Rightarrow> n = goal | DFSContext n' ei' ti' # st' \<Rightarrow> search_ok hg pr goal (ord @ [n]) (n', ei', ti', st', ts') \<and>
       to_do hg (n', ei', ti', st', ts') < to_do hg (n, vsize (ins hg n), 0, st, ts))"
proof -
  have I: "topo_inv hg pr goal ord (ts_color ts) ts" and path: "path_ok hg pr goal (set ord) n st" and n: "n \<notin> set ord" "0 \<le> n" "n < vsize (hg_nodes hg)"
    and gray: "\<forall>m < length (hg_nodes hg). ts_color ts ! m = GRAY \<longrightarrow> int m \<in> insert n (cx_node ` set st)"
    using ok by (simp_all add: search_ok_def)
  have deps: "t \<in> set ord" if "(t, n) \<in> dep hg pr" for t
    using ok that seen_all [OF n(2,3)] by (auto simp: search_ok_def)
  have "topo_inv hg pr goal ord (ts_color (ts\<lparr>ts_stack := st\<rparr>)) (ts\<lparr>ts_stack := st\<rparr>)" using I by (simp add: topo_inv_def)
  from leave_node_inv [OF c m this n(2,3,1) path_ok_goal [OF path] deps] obtain ts' where
    ts': "leave_node hg pr n (ts\<lparr>ts_stack := st\<rparr>) = Some ts'" "topo_inv hg pr goal (ord @ [n]) (ts_color ts') ts'" "ts_stack ts' = st"
      "ts_color ts' = (ts_color ts)[nat n := BLACK]"
    by auto
  have w: "whites ts' \<le> whites ts" by (simp add: whites_def ts'(4) count_list_update)
  have not_n: "m \<noteq> n" if "m \<in> cx_node ` set st" for m
    using path_ok_above [OF path that] ac by (auto simp: acyclic_def)
  have path': "path_ok hg pr goal (set (ord @ [n])) n st"
    by (rule path_ok_mono [OF path]) (use path_ok_above [OF path] not_n in auto)
  have "search_ok hg pr goal (ord @ [n]) (n', ei', ti', st', ts') \<and> to_do hg (n', ei', ti', st', ts') < to_do hg (n, vsize (ins hg n), 0, st, ts)"
    if st: "st = DFSContext n' ei' ti' # st'" for n' ei' ti' st'
  proof
    have len: "length (ts_color ts) = length (hg_nodes hg)" by (rule topo_invD(1) [OF I])
    have "int k \<in> insert n' (cx_node ` set st')" if "k < length (hg_nodes hg)" "ts_color ts' ! k = GRAY" for k
    proof -
      have "nat n \<noteq> k" using that(2) len that(1) by (auto simp: ts'(4))
      then have "ts_color ts ! k = GRAY" "int k \<noteq> n" using that(2) by (auto simp: ts'(4))
      then show ?thesis using gray that(1) by (auto simp: st)
    qed
    moreover have "(n, n') \<in> dep hg pr" using path st by simp
    ultimately show "search_ok hg pr goal (ord @ [n]) (n', ei', ti', st', ts')"
      using path' ts'(2) not_n [of n'] unfolding st by (auto simp: search_ok_def dep_def)
    show "to_do hg (n', ei', ti', st', ts') < to_do hg (n, vsize (ins hg n), 0, st, ts)"
      unfolding st to_do_def by (simp add: remaining_def)
  qed
  then show ?thesis
    using ts' w path by (cases st) (auto split: DFSContext.splits)
qed

text \<open>One iteration of the inner loop.\<close>

lemma search_from_step:
  assumes n: "0 \<le> n" "n < vsize (hg_nodes hg)" and e: "0 \<le> ei" "ei < vsize (ins hg n)"
    and edge: "0 \<le> ins hg n ! nat ei" "ins hg n ! nat ei < vsize (hg_edges hg)" "ed_id (hg_edges hg ! nat (ins hg n ! nat ei)) = ins hg n ! nat ei"
    and m: "mask_ok hg pr"
  shows "search_from hg pr (n, ei, ti, st, ts) =
    (if vsize (tails hg (ins hg n ! nat ei)) = ti \<or> pruned pr (ins hg n ! nat ei) then search_from hg pr (n, ei + 1, 0, st, ts)
     else do {
       t \<leftarrow> vat (tails hg (ins hg n ! nat ei)) ti;
       tail_color \<leftarrow> vat (ts_color ts) t;
       case tail_color of
         WHITE \<Rightarrow> do { color \<leftarrow> vset (ts_color ts) t GRAY; search_from hg pr (t, 0, 0, DFSContext n ei (ti + 1) # st, ts\<lparr>ts_color := color\<rparr>) }
       | BLACK \<Rightarrow> search_from hg pr (n, ei, ti + 1, st, ts)
       | GRAY \<Rightarrow> None })"
proof -
  have v: "vat (hg_nodes hg) n = Some (hg_nodes hg ! nat n)" "vat (ins hg n) ei = Some (ins hg n ! nat ei)"
    "vat (hg_edges hg) (ins hg n ! nat ei) = Some (hg_edges hg ! nat (ins hg n ! nat ei))"
    "is_pruned pr (ins hg n ! nat ei) = Some (pruned pr (ins hg n ! nat ei))"
    using n e edge is_pruned_Some [OF m edge(1,2)] by (simp_all add: vat_eq vsize_def)
  show ?thesis
    unfolding search_from_def prod.case
    by (subst visit_node.simps) (use e(2) edge(3) v in \<open>auto split: ColorType.splits Option.bind_split\<close>)
qed

lemma search_returns:
  assumes c: "consistent_hg {} hg" and m: "mask_ok hg pr" and ac: "acyclic (dep hg pr)"
  shows "search_ok hg pr goal ord x \<Longrightarrow>
    \<exists>ts' ord'. search_from hg pr x = Some ts' \<and> topo_inv hg pr goal (ord' @ [goal]) (ts_color ts') ts'"
proof (induction x arbitrary: ord rule: wf_induct_rule [OF wf_measures [of "[\<lambda>(n, ei, ti, st, ts). whites ts, to_do hg]"]])
  case (1 x)
  obtain n ei ti st ts where x: "x = (n, ei, ti, st, ts)" by (cases x)
  note ok = 1(2) [unfolded x]
  have I: "topo_inv hg pr goal ord (ts_color ts) ts" and n: "0 \<le> n" "n < vsize (hg_nodes hg)" and e: "0 \<le> ei" "ei \<le> vsize (ins hg n)"
    and ti: "0 \<le> ti" "ei < vsize (ins hg n) \<Longrightarrow> ti \<le> vsize (tails hg (ins hg n ! nat ei))" "ei = vsize (ins hg n) \<Longrightarrow> ti = 0"
    and path: "path_ok hg pr goal (set ord) n st"
    and gray: "\<forall>m < length (hg_nodes hg). ts_color ts ! m = GRAY \<longrightarrow> int m \<in> insert n (cx_node ` set st)"
    using ok by (simp_all add: search_ok_def)
  have IH: "\<exists>ts' ord'. search_from hg pr (n', ei', ti', st', ts2) = Some ts' \<and> topo_inv hg pr goal (ord' @ [goal]) (ts_color ts') ts'"
    if "search_ok hg pr goal ord2 (n', ei', ti', st', ts2)"
      "whites ts2 < whites ts \<or> whites ts2 \<le> whites ts \<and> to_do hg (n', ei', ti', st', ts2) < to_do hg (n, ei, ti, st, ts)" for ord2 n' ei' ti' st' ts2
    by (rule 1(1) [OF _ that(1)]) (use that(2) in \<open>auto simp: x\<close>)
  show ?case
  proof (cases "ei = vsize (ins hg n)")
    case True
    note ok' = ok [unfolded True ti(3) [OF True]]
    from search_leave [OF c m ac ok'] obtain ts' where ts': "leave_node hg pr n (ts\<lparr>ts_stack := st\<rparr>) = Some ts'" "ts_stack ts' = st"
      "whites ts' \<le> whites ts" "topo_inv hg pr goal (ord @ [n]) (ts_color ts') ts'"
      and go: "case st of [] \<Rightarrow> n = goal | DFSContext n' ei' ti' # st' \<Rightarrow> search_ok hg pr goal (ord @ [n]) (n', ei', ti', st', ts') \<and>
         to_do hg (n', ei', ti', st', ts') < to_do hg (n, vsize (ins hg n), 0, st, ts)"
      by (elim exE conjE)
    have "visit_node hg pr n ei ti st (ts_color ts) = Some (n, st, ts_color ts)"
      using n by (subst visit_node.simps) (simp add: True vat_eq vsize_def)
    moreover have "ts\<lparr>ts_stack := st, ts_color := ts_color ts\<rparr> = ts\<lparr>ts_stack := st\<rparr>" by simp
    ultimately have run: "search_from hg pr x = topo_search hg pr ts'"
      using ts'(1) by (simp add: x search_from_def)
    show ?thesis
    proof (cases st)
      case Nil
      then show ?thesis using run go ts' by (auto simp: topo_search_simps)
    next
      case (Cons p st')
      obtain n' ei' ti' where p: "p = DFSContext n' ei' ti'" by (cases p)
      have sf: "search_from hg pr x = search_from hg pr (n', ei', ti', st', ts')"
        unfolding run by (rule topo_search_simps(2)) (use ts'(2) Cons p in simp)
      show ?thesis
        unfolding sf by (rule IH) (use go Cons p ts'(3) True ti(3) in auto)
    qed
  next
    case False
    then have lt: "ei < vsize (ins hg n)" using e by simp
    let ?e = "ins hg n ! nat ei"
    have nn: "nat n < length (hg_nodes hg)" using n by (simp add: vsize_def nat_less_iff)
    have mem: "?e \<in> set (ins hg n)" using e lt by (simp add: vsize_def nat_less_iff)
    then have edge: "0 \<le> ?e" "?e < vsize (hg_edges hg)" using consistentD(6) [OF c nn] by auto
    then have id: "nat ?e < length (hg_edges hg)" "ed_id (hg_edges hg ! nat ?e) = ?e" using consistentD(2) [OF c, of "nat ?e"] by (auto simp: vsize_def nat_less_iff)
    note step = search_from_step [where ti = ti and st = st and ts = ts, OF n e(1) lt edge id(2) m]
    show ?thesis
    proof (cases "vsize (tails hg ?e) = ti \<or> pruned pr ?e")
      case True
      then show ?thesis
        unfolding x step using IH [OF search_skip(1) [OF ok lt True]] search_skip(2) [OF ok lt True] by simp
    next
      case False
      let ?t = "tails hg ?e ! nat ti"
      have lt': "ti < vsize (tails hg ?e)" using ti(2) [OF lt] False by simp
      then have t: "?t \<in> set (tails hg ?e)" using ti(1) by (simp add: vsize_def nat_less_iff)
      then have tn: "0 \<le> ?t" "?t < vsize (hg_nodes hg)" using consistentD(3) [OF c id(1)] by auto
      have dep: "(?t, n) \<in> dep hg pr" using t n mem False by (auto simp: dep_def)
      have v: "vat (tails hg ?e) ti = Some ?t" "vat (ts_color ts) ?t = Some (ts_color ts ! nat ?t)"
        "vset (ts_color ts) ?t GRAY = Some ((ts_color ts)[nat ?t := GRAY])"
        using lt' ti(1) tn topo_invD(1) [OF I] by (simp_all add: vat_eq vset_eq vsize_def)
      show ?thesis
      proof (cases "ts_color ts ! nat ?t")
        case WHITE
        show ?thesis
          unfolding x step using False v WHITE IH [OF search_descend(1) [OF ok lt _ lt' refl tn WHITE dep]]
            search_descend(2) [OF ok lt _ lt' refl tn WHITE dep] by simp
      next
        case BLACK
        then have "?t \<in> set ord" using topo_invD(4) [OF I tn] by simp
        then show ?thesis
          unfolding x step using False v BLACK IH [OF search_tail(1) [OF ok lt lt']] search_tail(2) [OF ok lt lt'] by simp
      next
        case GRAY
        have "nat ?t < length (hg_nodes hg)" "int (nat ?t) = ?t" using tn by (auto simp: vsize_def nat_less_iff)
        then have "?t \<in> insert n (cx_node ` set st)" using gray GRAY by metis
        then have "(n, ?t) \<in> (dep hg pr)\<^sup>*" using path_ok_above [OF path] by (auto intro: trancl_into_rtrancl)
        then have "(?t, ?t) \<in> (dep hg pr)\<^sup>+" using dep by (rule rtrancl_into_trancl2 [rotated])
        then show ?thesis using ac by (simp add: acyclic_def)
      qed
    qed
  qed
qed

lemma topo_search_runs:
  assumes "consistent_hg {} hg" "mask_ok hg pr" "acyclic (dep hg pr)" "0 \<le> goal" "goal < vsize (hg_nodes hg)"
  shows "\<exists>ts ord. topo_search hg pr \<lparr>ts_stack = [DFSContext goal 0 0], ts_color = map (\<lambda>_. WHITE) (hg_nodes hg),
       ts_reloc_node = map (\<lambda>_. -1) (hg_nodes hg), ts_reloc_edge = map (\<lambda>_. -1) (hg_edges hg), ts_node_count = 0, ts_edge_count = 0\<rparr> = Some ts \<and>
     topo_inv hg pr goal (ord @ [goal]) (ts_color ts) ts"
proof -
  let ?ts = "\<lparr>ts_stack = [DFSContext goal 0 0], ts_color = map (\<lambda>_. WHITE) (hg_nodes hg),
       ts_reloc_node = map (\<lambda>_. -1) (hg_nodes hg), ts_reloc_edge = map (\<lambda>_. -1) (hg_edges hg), ts_node_count = 0, ts_edge_count = 0\<rparr>"
  have "topo_search hg pr ?ts = search_from hg pr (goal, 0, 0, [], ?ts)" by (rule topo_search_simps) simp
  moreover have "search_ok hg pr goal [] (goal, 0, 0, [], ?ts)"
    using assms(4,5) by (simp add: search_ok_def topo_inv_def seen_start)
  ultimately show ?thesis
    using search_returns [OF assms(1-3)] by metis
qed

section \<open>The renumbered graph is the part that the goal reaches\<close>

definition kept :: "int list \<Rightarrow> int list" where
  "kept re = filter (\<lambda>e. 0 \<le> re ! nat e) (positions re)"

lemma kept_snoc: "kept (re @ [c]) = (if 0 \<le> c then kept re @ [vsize re] else kept re)"
proof -
  have "int_range 0 (vsize re + 1) = positions re @ [vsize re]" by (rule int_range_snoc) simp
  moreover have "filter (\<lambda>e. 0 \<le> (re @ [c]) ! nat e) (positions re) = filter (\<lambda>e. 0 \<le> re ! nat e) (positions re)"
    by (rule filter_cong) (auto simp: nth_append vsize_def nat_less_iff)
  ultimately show ?thesis by (simp add: kept_def) (simp add: vsize_def)
qed

lemma set_kept: "set (kept re) = {e. 0 \<le> e \<and> e < vsize re \<and> 0 \<le> re ! nat e}"
  by (auto simp: kept_def)

lemma renumber_fold:
  "fold (\<lambda>cp (re, ec). if 0 \<le> cp then (re @ [ec], ec + 1) else (re @ [cp], ec)) re ([], 0) =
    (map (\<lambda>e. if 0 \<le> re ! e then posn (kept re) (int e) else re ! e) [0..<length re], vsize (kept re))"
proof (induction re rule: rev_induct)
  case Nil
  then show ?case by (simp add: kept_def)
next
  case (snoc c re)
  have mem: "int e \<in> set (kept re)" if "e < length re" "0 \<le> re ! e" for e
    using that by (simp add: set_kept vsize_def)
  have new: "vsize re \<notin> set (kept re)" by (simp add: set_kept)
  have "map (\<lambda>e. if 0 \<le> (re @ [c]) ! e then posn (kept (re @ [c])) (int e) else (re @ [c]) ! e) [0..<length re] =
      map (\<lambda>e. if 0 \<le> re ! e then posn (kept re) (int e) else re ! e) [0..<length re]"
    using mem posn_snoc(1) by (auto simp: kept_snoc nth_append)
  then show ?case
    using snoc posn_snoc(2) [OF new] by (simp add: kept_snoc) (simp add: vsize_def)
qed

lemma renumber_edges_eq:
  "renumber_edges re = map (\<lambda>e. if 0 \<le> re ! e then posn (kept re) (int e) else re ! e) [0..<length re]"
  by (simp add: renumber_edges_def renumber_fold)

text \<open>Looking every element up, dropping those without a new number.\<close>

lemma relocate_eq:
  assumes "\<And>e. e \<in> set es \<Longrightarrow> 0 \<le> e \<and> e < vsize reloc \<and> reloc ! nat e = (if e \<in> K then f e else -1)" "\<And>e. 0 \<le> f e"
  shows "relocate reloc es = Some (map f (filter (\<lambda>e. e \<in> K) es))"
proof -
  have "for_each xs (\<lambda>e out. do { new_index \<leftarrow> vat reloc e; Some (if 0 \<le> new_index then out @ [new_index] else out) }) out =
      Some (out @ map f (filter (\<lambda>e. e \<in> K) xs))" if "set xs \<subseteq> set es" for xs out
    using that
  proof (induction xs arbitrary: out)
    case (Cons x xs)
    then have "vat reloc x = Some (if x \<in> K then f x else -1)" using assms(1) [of x] by (simp add: vat_eq vsize_def)
    then show ?case using Cons assms(2) by simp
  qed simp
  then show ?thesis by (simp add: relocate_def)
qed

lemma for_each_vat: "(\<And>t. t \<in> set ts \<Longrightarrow> 0 \<le> t \<and> t < vsize reloc) \<Longrightarrow>
    for_each ts (\<lambda>t ts. map_option (\<lambda>r. ts @ [r]) (vat reloc t)) out = Some (out @ map (\<lambda>t. reloc ! nat t) ts)"
  by (induction ts arbitrary: out) (auto simp: vat_eq vsize_def)

text \<open>A loop that changes every element by itself.\<close>

lemma for_each_update:
  assumes "\<And>i. i < length xs \<Longrightarrow> f (int i) (xs ! i) = Some (g i)"
  shows "for_each (positions xs) (\<lambda>i xs. do { x \<leftarrow> vat xs i; y \<leftarrow> f i x; vset xs i y }) xs = Some (map g [0..<length xs])"
proof -
  have "\<exists>t. for_each (int_range 0 (vsize xs)) (\<lambda>i xs. do { x \<leftarrow> vat xs i; y \<leftarrow> f i x; vset xs i y }) xs = Some t \<and>
      (length t = length xs \<and> (\<forall>i < length xs. t ! i = (if int i < vsize xs then g i else xs ! i)))"
  proof (rule for_range_total [where I = "\<lambda>k t. length t = length xs \<and> (\<forall>i < length xs. t ! i = (if int i < k then g i else xs ! i))"])
    fix k t
    assume k: "0 \<le> k" "k < vsize xs" and I: "length t = length xs \<and> (\<forall>i < length xs. t ! i = (if int i < k then g i else xs ! i))"
    have n: "nat k < length xs" "int (nat k) = k" using k by (auto simp: vsize_def nat_less_iff)
    have "vat t k = Some (xs ! nat k)" "f k (xs ! nat k) = Some (g (nat k))"
      using I n assms [OF n(1)] vat_nat [of "nat k" t] by simp_all
    moreover have "vset t k (g (nat k)) = Some (t[nat k := g (nat k)])"
      using I n vset_nat [of "nat k" t] by simp
    moreover have "(t[nat k := g (nat k)]) ! i = (if int i < k + 1 then g i else xs ! i)" if "i < length xs" for i
      using I n that by (cases "i = nat k") auto
    ultimately show "\<exists>s'. do { x \<leftarrow> vat t k; y \<leftarrow> f k x; vset t k y } = Some s' \<and> length s' = length xs \<and>
        (\<forall>i < length xs. s' ! i = (if int i < k + 1 then g i else xs ! i))"
      using I by simp
  qed simp_all
  then obtain t where run: "for_each (positions xs) (\<lambda>i xs. do { x \<leftarrow> vat xs i; y \<leftarrow> f i x; vset xs i y }) xs = Some t"
    and t: "length t = length xs" "\<forall>i < length xs. t ! i = (if int i < vsize xs then g i else xs ! i)" by (elim exE conjE)
  have "t = map g [0..<length xs]" by (rule nth_equalityI) (use t in \<open>simp_all add: vsize_def\<close>)
  then show ?thesis using run by simp
qed

text \<open>Sorting the kept elements by their new numbers.\<close>

lemma sort_kept:
  fixes key :: "'a \<Rightarrow> int"
  assumes ord: "distinct ord" "set ord \<subseteq> {0..<int n}" and key: "\<And>i. i < n \<Longrightarrow> key (f i) = (if int i \<in> set ord then posn ord (int i) else -1)"
  shows "sort_key key (filter (\<lambda>x. key x \<noteq> -1) (map f [0..<n])) = map (\<lambda>i. f (nat i)) ord"
proof -
  have "filter (\<lambda>x. key x \<noteq> -1) (map f [0..<n]) = map f (filter (\<lambda>i. int i \<in> set ord) [0..<n])"
  proof -
    have "posn ord x \<noteq> -1" for x using posn_nonneg [of ord x] by linarith
    then have "filter (\<lambda>i. key (f i) \<noteq> -1) [0..<n] = filter (\<lambda>i. int i \<in> set ord) [0..<n]"
      using key by (intro filter_cong) auto
    then show ?thesis by (simp add: filter_map comp_def)
  qed
  also have "sort_key key \<dots> = map (\<lambda>i. f (nat i)) ord"
  proof (rule sort_key_inj_key_eq)
    have nonneg: "\<forall>x \<in> set ord. 0 \<le> x" using ord(2) by auto
    have "set (map nat ord) = set (filter (\<lambda>i. int i \<in> set ord) [0..<n])"
      using ord(2) by (force simp: image_iff)
    moreover have "distinct (map nat ord)"
      using ord(1) nonneg by (metis (mono_tags) distinct_map inj_on_def eq_nat_nat_iff)
    ultimately have "mset (map nat ord) = mset (filter (\<lambda>i. int i \<in> set ord) [0..<n])"
      using set_eq_iff_mset_eq_distinct [of "map nat ord" "filter (\<lambda>i. int i \<in> set ord) [0..<n]"] by simp
    then have "image_mset f (mset (filter (\<lambda>i. int i \<in> set ord) [0..<n])) = image_mset f (mset (map nat ord))" by simp
    then show "mset (map f (filter (\<lambda>i. int i \<in> set ord) [0..<n])) = mset (map (\<lambda>i. f (nat i)) ord)"
      by (simp add: image_mset.compositionality comp_def)
    show "inj_on key (set (map f (filter (\<lambda>i. int i \<in> set ord) [0..<n])))"
      by (auto simp: inj_on_def key posn_inj)
    show "sorted (map key (map (\<lambda>i. f (nat i)) ord))"
    proof -
      have "key (f (nat (ord ! k))) = int k" if "k < length ord" for k
      proof -
        have "ord ! k \<in> set ord" using that by simp
        then have "0 \<le> ord ! k \<and> ord ! k < int n" using ord(2) by auto
        then show ?thesis using key [of "nat (ord ! k)"] posn_nth [OF ord(1) that] that by (simp add: nat_less_iff)
      qed
      then show ?thesis by (simp add: sorted_iff_nth_mono)
    qed
  qed
  finally show ?thesis .
qed

text \<open>The renumbering as a whole, for numbers of the nodes \<open>ord\<close> and the edges \<open>K\<close>.\<close>

lemma renumbered_subgraph:
  assumes c: "consistent_hg {} hg" and ok: "sub_ok ord K hg" and K: "sorted K"
    and rn: "length rn = length (hg_nodes hg)" "\<And>n. n < length (hg_nodes hg) \<Longrightarrow> rn ! n = (if int n \<in> set ord then posn ord (int n) else -1)"
    and re: "length re = length (hg_edges hg)" "\<And>e. e < length (hg_edges hg) \<Longrightarrow> re ! e = (if int e \<in> set K then posn K (int e) else -1)"
  shows "do { nodes \<leftarrow> reloc_node_edges rn re (hg_nodes hg); edges \<leftarrow> reloc_edge_nodes rn re (hg_edges hg);
      Some (hg\<lparr>hg_edges := sort_key ed_id (filter (\<lambda>e. ed_id e \<noteq> -1) edges), hg_nodes := sort_key nd_id (filter (\<lambda>n. nd_id n \<noteq> -1) nodes)\<rparr>) } =
    Some (subgraph ord K hg)"
proof -
  let ?keep = "\<lambda>es. map (posn K) (filter (\<lambda>e. e \<in> set K) es)"
  let ?node = "\<lambda>i. (hg_nodes hg ! i)\<lparr>nd_id := rn ! i, nd_in := ?keep (nd_in (hg_nodes hg ! i)), nd_out := ?keep (nd_out (hg_nodes hg ! i))\<rparr>"
  let ?edge = "\<lambda>i. (hg_edges hg ! i)\<lparr>ed_id := re ! i, ed_head := rn ! nat (ed_head (hg_edges hg ! i)),
    ed_tails := map (\<lambda>t. rn ! nat t) (ed_tails (hg_edges hg ! i))\<rparr>"
  have reloc: "relocate re es = Some (?keep es)" if "\<And>e. e \<in> set es \<Longrightarrow> 0 \<le> e \<and> e < vsize (hg_edges hg)" for es
    by (rule relocate_eq) (use that re in \<open>fastforce simp: vsize_def nat_less_iff\<close>)+
  have outs: "0 \<le> e \<and> e < vsize (hg_edges hg)" if "i < length (hg_nodes hg)" "e \<in> set (nd_out (hg_nodes hg ! i))" for i e
    using consistentD(7) [OF c that(1), of e] that(2) by (auto split: if_splits simp: count_list_0_iff)
  have node: "do { r \<leftarrow> vat rn (int i); ins \<leftarrow> relocate re (nd_in n); outs \<leftarrow> relocate re (nd_out n);
      Some (n\<lparr>nd_id := r, nd_in := ins, nd_out := outs\<rparr>) } = Some (?node i)" if i: "i < length (hg_nodes hg)" and n: "n = hg_nodes hg ! i" for i n
    using i rn(1) reloc [of "nd_in n"] reloc [of "nd_out n"] consistentD(6) [OF c i] outs [OF i] unfolding n by simp
  have nodes: "reloc_node_edges rn re (hg_nodes hg) = Some (map ?node [0..<length (hg_nodes hg)])"
    using for_each_update [of "hg_nodes hg" "\<lambda>i n. do { r \<leftarrow> vat rn i; ins \<leftarrow> relocate re (nd_in n); outs \<leftarrow> relocate re (nd_out n);
      Some (n\<lparr>nd_id := r, nd_in := ins, nd_out := outs\<rparr>) }" ?node, OF node [OF _ refl]] by (simp add: reloc_node_edges_def)
  have edge: "do { r \<leftarrow> vat re (int i); h \<leftarrow> vat rn (ed_head e); ts \<leftarrow> for_each (ed_tails e) (\<lambda>t ts. map_option (\<lambda>r. ts @ [r]) (vat rn t)) [];
      Some (e\<lparr>ed_id := r, ed_head := h, ed_tails := ts\<rparr>) } = Some (?edge i)" if i: "i < length (hg_edges hg)" and e: "e = hg_edges hg ! i" for i e
    using i re(1) rn(1) consistentD(3,4) [OF c i] unfolding e by (simp add: for_each_vat vat_eq vsize_def)
  have edges: "reloc_edge_nodes rn re (hg_edges hg) = Some (map ?edge [0..<length (hg_edges hg)])"
    using for_each_update [of "hg_edges hg" "\<lambda>i e. do { r \<leftarrow> vat re i; h \<leftarrow> vat rn (ed_head e);
      ts \<leftarrow> for_each (ed_tails e) (\<lambda>t ts. map_option (\<lambda>r. ts @ [r]) (vat rn t)) [];
      Some (e\<lparr>ed_id := r, ed_head := h, ed_tails := ts\<rparr>) }" ?edge, OF edge [OF _ refl]] by (simp add: reloc_edge_nodes_def)
  have sn: "sort_key nd_id (filter (\<lambda>n. nd_id n \<noteq> -1) (map ?node [0..<length (hg_nodes hg)])) = map (\<lambda>i. ?node (nat i)) ord"
    by (rule sort_kept) (use ok rn(2) in \<open>auto simp: sub_ok_def vsize_def\<close>)
  have se: "sort_key ed_id (filter (\<lambda>e. ed_id e \<noteq> -1) (map ?edge [0..<length (hg_edges hg)])) = map (\<lambda>e. ?edge (nat e)) K"
    by (rule sort_kept) (use ok re(2) in \<open>auto simp: sub_ok_def vsize_def\<close>)
  have "?node (nat i) = (hg_nodes hg ! nat i)\<lparr>nd_id := posn ord i, nd_in := ?keep (nd_in (hg_nodes hg ! nat i)), nd_out := ?keep (nd_out (hg_nodes hg ! nat i))\<rparr>"
    if "i \<in> set ord" for i
    using sub_okD(3) [OF ok that] rn(2) [of "nat i"] that by simp
  moreover have "?edge (nat e) = (hg_edges hg ! nat e)\<lparr>ed_id := posn K e, ed_head := posn ord (ed_head (hg_edges hg ! nat e)),
      ed_tails := map (posn ord) (ed_tails (hg_edges hg ! nat e))\<rparr>" if e: "e \<in> set K" for e
  proof -
    have pos: "rn ! nat t = posn ord t" if "t \<in> set ord" for t
      using sub_okD(3) [OF ok that] rn(2) [of "nat t"] that by simp
    have "map (\<lambda>t. rn ! nat t) (ed_tails (hg_edges hg ! nat e)) = map (posn ord) (ed_tails (hg_edges hg ! nat e))"
      using pos sub_okD(6) [OF ok e] by simp
    then show ?thesis
      using sub_okD(4) [OF ok e] re(2) [of "nat e"] e pos [OF sub_okD(5) [OF ok e]] by simp
  qed
  ultimately show ?thesis
    unfolding nodes edges by (simp add: sn se subgraph_def Let_def cong: map_cong)
qed

text \<open>Numbers that change nothing.\<close>

lemma posn_identity:
  assumes "distinct xs" "set xs \<subseteq> {0..<int n}" "\<And>i. i < n \<Longrightarrow> int i \<in> set xs \<and> posn xs (int i) = int i"
  shows "xs = map int [0..<n]"
proof (rule nth_equalityI)
  have "set xs = {0..<int n}"
    using assms(2,3) by (auto simp: subset_iff) (metis nat_less_iff int_nat_eq)
  then show len: "length xs = length (map int [0..<n])"
    using distinct_card [OF assms(1)] by simp
  show "xs ! k = map int [0..<n] ! k" if "k < length xs" for k
    using assms(3) [of k] posn_member(2) [of "int k" xs] that len by simp
qed

lemma subgraph_identity:
  assumes c: "consistent_hg {} hg"
  shows "subgraph (map int [0..<length (hg_nodes hg)]) (map int [0..<length (hg_edges hg)]) hg = hg"
proof -
  have pos: "posn (map int [0..<n]) x = x" if "0 \<le> x" "x < int n" for n x
    using posn_nth [of "map int [0..<n]" "nat x"] that by (simp add: distinct_map nat_less_iff)
  have keep: "map (posn (map int [0..<length (hg_edges hg)])) (filter (\<lambda>e. e \<in> set (map int [0..<length (hg_edges hg)])) es) = es"
    if "\<And>e. e \<in> set es \<Longrightarrow> 0 \<le> e \<and> e < vsize (hg_edges hg)" for es
    using that by (induction es) (auto simp: pos vsize_def image_int_atLeastLessThan)
  have outs: "0 \<le> e \<and> e < vsize (hg_edges hg)" if "i < length (hg_nodes hg)" "e \<in> set (nd_out (hg_nodes hg ! i))" for i e
    using consistentD(7) [OF c that(1), of e] that(2) by (auto split: if_splits simp: count_list_0_iff)
  have ins: "0 \<le> e \<and> e < vsize (hg_edges hg)" if "i < length (hg_nodes hg)" "e \<in> set (nd_in (hg_nodes hg ! i))" for i e
    using consistentD(6) [OF c that(1), of e] that(2) by auto
  let ?S = "subgraph (map int [0..<length (hg_nodes hg)]) (map int [0..<length (hg_edges hg)]) hg"
  have "hg_nodes ?S = hg_nodes hg"
  proof (rule nth_equalityI)
    fix i assume "i < length (hg_nodes ?S)"
    then have i: "i < length (hg_nodes hg)" by (simp add: subgraph_def)
    show "hg_nodes ?S ! i = hg_nodes hg ! i"
      using i keep [OF ins [OF i]] keep [OF outs [OF i]] consistentD(1) [OF c i] by (simp add: subgraph_def Let_def pos)
  qed (simp add: subgraph_def)
  moreover have "hg_edges ?S = hg_edges hg"
  proof (rule nth_equalityI)
    fix i assume "i < length (hg_edges ?S)"
    then have i: "i < length (hg_edges hg)" by (simp add: subgraph_def)
    have "map (posn (map int [0..<length (hg_nodes hg)])) (ed_tails (hg_edges hg ! i)) = ed_tails (hg_edges hg ! i)"
      by (rule map_idI) (use consistentD(3) [OF c i] in \<open>simp add: pos vsize_def\<close>)
    then show "hg_edges ?S ! i = hg_edges hg ! i"
      using i consistentD(2,4) [OF c i] by (simp add: subgraph_def Let_def pos vsize_def)
  qed (simp add: subgraph_def)
  moreover have "hg_linear_chain ?S = hg_linear_chain hg" by (simp add: subgraph_def)
  ultimately show ?thesis by (intro hypergraph.equality) simp_all
qed

text \<open>What a graph is sorted into.\<close>

definition topo_result :: "('f, 'w) hypergraph \<Rightarrow> bool list option \<Rightarrow> int \<Rightarrow> int list \<Rightarrow> int list \<Rightarrow> bool" where
  "topo_result hg pr goal ord K \<longleftrightarrow> sub_ok ord K hg \<and> ord \<noteq> [] \<and> last ord = goal \<and> set ord = {n. (n, goal) \<in> (dep hg pr)\<^sup>*} \<and>
     set K = {e. 0 \<le> e \<and> e < vsize (hg_edges hg) \<and> \<not> pruned pr e \<and> (ed_head (hg_edges hg ! nat e), goal) \<in> (dep hg pr)\<^sup>*} \<and>
     (\<forall>t n. (t, n) \<in> dep hg pr \<longrightarrow> n \<in> set ord \<longrightarrow> t \<in> set ord \<and> posn ord t < posn ord n)"

lemma posn_take: "distinct xs \<Longrightarrow> x \<in> set (take k xs) \<Longrightarrow> x \<in> set xs \<and> posn xs x < int k"
  using posn_nth [of xs] by (fastforce simp: in_set_conv_nth)

lemma topo_inv_result:
  assumes c: "consistent_hg {} hg" and I: "topo_inv hg pr goal (ord @ [goal]) color ts"
  shows "topo_result hg pr goal (ord @ [goal]) (kept (ts_reloc_edge ts))"
    and "\<And>n. n < length (hg_nodes hg) \<Longrightarrow> ts_reloc_node ts ! n = (if int n \<in> set (ord @ [goal]) then posn (ord @ [goal]) (int n) else -1)"
    and "\<And>e. e < length (hg_edges hg) \<Longrightarrow> ts_reloc_edge ts ! e < 0 \<Longrightarrow> ts_reloc_edge ts ! e = -1"
    and "length (ts_reloc_node ts) = length (hg_nodes hg)" "length (ts_reloc_edge ts) = length (hg_edges hg)"
proof -
  let ?ord = "ord @ [goal]" and ?K = "kept (ts_reloc_edge ts)"
  have len: "length (ts_reloc_edge ts) = length (hg_edges hg)" "length (ts_reloc_node ts) = length (hg_nodes hg)"
    and dist: "distinct ?ord" and range: "set ?ord \<subseteq> {0..<vsize (hg_nodes hg)}"
    and nodes: "\<forall>n < length (hg_nodes hg). (color ! n = BLACK \<longleftrightarrow> int n \<in> set ?ord) \<and>
      ts_reloc_node ts ! n = (if int n \<in> set ?ord then posn ?ord (int n) else -1)"
    and down: "\<forall>k < length ?ord. \<forall>t. (t, ?ord ! k) \<in> dep hg pr \<longrightarrow> t \<in> set (take k ?ord)"
    and reach: "\<forall>n \<in> set ?ord. (n, goal) \<in> (dep hg pr)\<^sup>*"
    and edges: "\<forall>e < length (hg_edges hg). if ed_head (hg_edges hg ! e) \<in> set ?ord \<and> \<not> pruned pr (int e)
      then 0 \<le> ts_reloc_edge ts ! e else ts_reloc_edge ts ! e = -1"
    using I unfolding topo_inv_def by - (elim conjE, assumption)+
  have below: "t \<in> set ?ord \<and> posn ?ord t < posn ?ord n" if d: "(t, n) \<in> dep hg pr" "n \<in> set ?ord" for t n
  proof -
    let ?k = "nat (posn ?ord n)"
    have k: "?k < length ?ord" "?ord ! ?k = n" using posn_member [OF d(2)] by (auto simp: vsize_def nat_less_iff)
    then have "t \<in> set (take ?k ?ord)" using down d(1) by metis
    then show ?thesis using posn_take [OF dist] by fastforce
  qed
  have "n \<in> set ?ord" if "(n, goal) \<in> (dep hg pr)\<^sup>*" for n
    using that by (induction rule: converse_rtrancl_induct) (use below in auto)
  then have ords: "set ?ord = {n. (n, goal) \<in> (dep hg pr)\<^sup>*}" using reach by blast
  have K: "set ?K = {e. 0 \<le> e \<and> e < vsize (hg_edges hg) \<and> \<not> pruned pr e \<and> ed_head (hg_edges hg ! nat e) \<in> set ?ord}"
  proof -
    have "0 \<le> ts_reloc_edge ts ! nat e \<longleftrightarrow> \<not> pruned pr e \<and> ed_head (hg_edges hg ! nat e) \<in> set ?ord"
      if "0 \<le> e" "e < vsize (hg_edges hg)" for e
      using edges [rule_format, of "nat e"] that by (auto simp: vsize_def nat_less_iff split: if_splits)
    then show ?thesis using len by (auto simp: set_kept vsize_def)
  qed
  have "sub_ok ?ord ?K hg"
    unfolding sub_ok_def
  proof (intro conjI ballI subsetI)
    fix e assume e: "e \<in> set ?K"
    then have r: "0 \<le> e" "nat e < length (hg_edges hg)" "\<not> pruned pr e" "ed_head (hg_edges hg ! nat e) \<in> set ?ord"
      by (auto simp: K vsize_def nat_less_iff)
    then show "ed_head (hg_edges hg ! nat e) \<in> set ?ord" by simp
    fix t assume t: "t \<in> set (tails hg e)"
    let ?h = "ed_head (hg_edges hg ! nat e)"
    have h: "0 \<le> ?h" "?h < vsize (hg_nodes hg)" "nat ?h < length (hg_nodes hg)"
      using consistentD(4) [OF c r(2)] by (auto simp: vsize_def nat_less_iff)
    have "e \<in> set (ins hg ?h)" using consistentD(6) [OF c h(3), of e] r h by (simp add: vsize_def nat_less_iff)
    then have "(t, ?h) \<in> dep hg pr" using t r h by (auto simp: dep_def)
    then show "t \<in> set ?ord" using below r(4) by blast
  qed (use dist range K in \<open>auto simp: kept_def int_range_def\<close>)
  then show "topo_result hg pr goal ?ord ?K"
    unfolding topo_result_def using ords K below by auto
  show "ts_reloc_node ts ! n = (if int n \<in> set ?ord then posn ?ord (int n) else -1)" if "n < length (hg_nodes hg)" for n
    using nodes that by blast
  show "ts_reloc_edge ts ! e = -1" if "e < length (hg_edges hg)" "ts_reloc_edge ts ! e < 0" for e
    using edges that by (auto split: if_splits)
qed (use I in \<open>simp_all add: topo_inv_def\<close>)

lemma topo_result_sorted: "topo_result hg pr goal ord (kept re) \<Longrightarrow> sorted (kept re)"
  by (simp add: kept_def int_range_def sorted_wrt_filter)

lemma TopologicallySort_result:
  assumes c: "consistent_hg {} hg" and "mask_ok hg pr" "acyclic (dep hg pr)" "0 \<le> goal" "goal < vsize (hg_nodes hg)"
  shows "\<exists>ord K. TopologicallySortNodesAndEdges goal pr hg = Some (subgraph ord K hg) \<and> topo_result hg pr goal ord K"
proof -
  obtain ts ord where run: "topo_search hg pr \<lparr>ts_stack = [DFSContext goal 0 0], ts_color = map (\<lambda>_. WHITE) (hg_nodes hg),
       ts_reloc_node = map (\<lambda>_. -1) (hg_nodes hg), ts_reloc_edge = map (\<lambda>_. -1) (hg_edges hg), ts_node_count = 0, ts_edge_count = 0\<rparr> = Some ts"
    and I: "topo_inv hg pr goal (ord @ [goal]) (ts_color ts) ts"
    using topo_search_runs [OF assms] by blast
  let ?ord = "ord @ [goal]" and ?K = "kept (ts_reloc_edge ts)" and ?rn = "ts_reloc_node ts" and ?re = "renumber_edges (ts_reloc_edge ts)"
  note res = topo_inv_result [OF c I]
  have ok: "sub_ok ?ord ?K hg" using res(1) by (simp add: topo_result_def)
  have re: "length ?re = length (hg_edges hg)"
    "\<And>e. e < length (hg_edges hg) \<Longrightarrow> ?re ! e = (if int e \<in> set ?K then posn ?K (int e) else -1)"
    using res(3,5) by (auto simp: renumber_edges_eq set_kept vsize_def)
  have sub: "do { nodes \<leftarrow> reloc_node_edges ?rn ?re (hg_nodes hg); edges \<leftarrow> reloc_edge_nodes ?rn ?re (hg_edges hg);
      Some (hg\<lparr>hg_edges := sort_key ed_id (filter (\<lambda>e. ed_id e \<noteq> -1) edges), hg_nodes := sort_key nd_id (filter (\<lambda>n. nd_id n \<noteq> -1) nodes)\<rparr>) } =
    Some (subgraph ?ord ?K hg)"
    by (rule renumbered_subgraph [OF c ok topo_result_sorted [OF res(1)] res(4,2) re])
  have same: "subgraph ?ord ?K hg = hg" if id: "?rn = positions (hg_nodes hg)" "?re = positions (hg_edges hg)"
  proof -
    have "?ord = map int [0..<length (hg_nodes hg)]"
    proof (rule posn_identity)
      show "int i \<in> set ?ord \<and> posn ?ord (int i) = int i" if "i < length (hg_nodes hg)" for i
        using res(2) [OF that] id(1) that by (auto simp: vsize_def split: if_splits)
    qed (use ok in \<open>auto simp: sub_ok_def vsize_def\<close>)
    moreover have "?K = map int [0..<length (hg_edges hg)]"
    proof (rule posn_identity)
      show "int i \<in> set ?K \<and> posn ?K (int i) = int i" if "i < length (hg_edges hg)" for i
        using re(2) [OF that] id(2) that by (auto simp: vsize_def split: if_splits)
    qed (use ok in \<open>auto simp: sub_ok_def vsize_def\<close>)
    ultimately show ?thesis using subgraph_identity [OF c] by simp
  qed
  have "TopologicallySortNodesAndEdges goal pr hg = Some (subgraph ?ord ?K hg)"
    unfolding TopologicallySortNodesAndEdges_def run using sub same by (simp add: Let_def)
  then show ?thesis using res(1) by blast
qed

text \<open>A derivation of a node that stays uses edges that stay, unless one of them is pruned.\<close>

lemma derivation_stays:
  assumes c: "consistent_hg {} hg" and res: "topo_result hg pr goal ord K"
  shows "derives hg n d \<Longrightarrow> int n \<in> set ord \<Longrightarrow> (\<forall>e \<in> deriv_edges d. \<not> pruned pr e) \<Longrightarrow> deriv_edges d \<subseteq> set K"
proof (induction rule: derives.induct)
  case (derives_edge n e ds)
  have e: "0 \<le> e" "e < vsize (hg_edges hg)" "ed_head (hg_edges hg ! nat e) = int n" "\<not> pruned pr e"
    using consistentD(6) [OF c derives_edge.hyps(1), of e] derives_edge.hyps(2) derives_edge.prems(2) by auto
  then have "e \<in> set K" using res derives_edge.prems(1) by (simp add: topo_result_def)
  moreover have "deriv_edges d \<subseteq> set K" if d: "d \<in> set ds" for d
  proof -
    obtain m where m: "m < length ds" "d = ds ! m" using d by (auto simp: in_set_conv_nth)
    let ?t = "tails hg e ! m"
    have t: "?t \<in> set (tails hg e)" using derives_edge(3) m by (auto dest: list_all2_lengthD)
    have "(?t, int n) \<in> dep hg pr" using t derives_edge.hyps(1,2) e(4) by (auto simp: dep_def vsize_def)
    then have to: "?t \<in> set ord" using res derives_edge.prems(1) by (auto simp: topo_result_def)
    moreover have "0 \<le> ?t" using res to by (auto simp: topo_result_def sub_ok_def)
    moreover have "int (nat ?t) \<in> set ord \<Longrightarrow> \<forall>e \<in> deriv_edges (ds ! m). \<not> pruned pr e \<Longrightarrow> deriv_edges (ds ! m) \<subseteq> set K"
      using derives_edge(3) m(1) by (auto simp: list_all2_conv_all_nth)
    moreover have "\<forall>e \<in> deriv_edges (ds ! m). \<not> pruned pr e" using derives_edge.prems(2) m(1) by auto
    ultimately show ?thesis unfolding m(2) by simp
  qed
  ultimately show ?case by auto
qed

lemma topo_result_subgraph:
  assumes c: "consistent_hg {} hg" and res: "topo_result hg pr goal ord K"
  shows "consistent_hg {} (subgraph ord K hg)" "topological (subgraph ord K hg)"
    "{d. derives (subgraph ord K hg) (nat (GoalNode (subgraph ord K hg))) d} =
      relabel (posn K) ` {d. derives hg (nat goal) d \<and> (\<forall>e \<in> deriv_edges d. \<not> pruned pr e)}"
proof -
  have ok: "sub_ok ord K hg" and ord: "ord \<noteq> []" "last ord = goal" using res by (simp_all add: topo_result_def)
  show "consistent_hg {} (subgraph ord K hg)" by (rule subgraph_consistent [OF c ok])
  show "topological (subgraph ord K hg)"
  proof (rule subgraph_topological [OF c ok])
    fix e t assume e: "e \<in> set K" and t: "t \<in> set (tails hg e)"
    let ?h = "ed_head (hg_edges hg ! nat e)"
    have h: "?h \<in> set ord" by (rule sub_okD(5) [OF ok e])
    note r = sub_okD(3) [OF ok h] sub_okD(4) [OF ok e]
    have "e \<in> set (ins hg ?h)" using consistentD(6) [OF c, of "nat ?h" e] r by simp
    moreover have "\<not> pruned pr e" using res e by (simp add: topo_result_def)
    ultimately have "(t, ?h) \<in> dep hg pr" using t r by (auto simp: dep_def)
    then show "posn ord t < posn ord ?h" using res h by (simp add: topo_result_def)
  qed
  have goal: "goal \<in> set ord" using ord by auto
  have "posn ord goal = vsize ord - 1"
    using posn_nth [OF sub_okD(1) [OF ok], of "length ord - 1"] ord by (simp add: last_conv_nth vsize_def Suc_leI)
  then have g: "GoalNode (subgraph ord K hg) = posn ord goal"
    by (simp add: GoalNode_def) (simp add: vsize_def subgraph_simps)
  have "deriv_edges d \<subseteq> set K \<longleftrightarrow> (\<forall>e \<in> deriv_edges d. \<not> pruned pr e)" if "derives hg (nat goal) d" for d
    using derivation_stays [OF c res that] goal sub_okD(3) [OF ok goal] res by (auto simp: topo_result_def)
  then show "{d. derives (subgraph ord K hg) (nat (GoalNode (subgraph ord K hg))) d} =
      relabel (posn K) ` {d. derives hg (nat goal) d \<and> (\<forall>e \<in> deriv_edges d. \<not> pruned pr e)}"
    unfolding g subgraph_derives [OF c ok goal] by (intro arg_cong [where f = "image _"]) blast
qed

text \<open>Numbers of the nodes that grow from tails to heads.\<close>

lemma dep_acyclic:
  assumes "\<And>t n. (t, n) \<in> dep hg pr \<Longrightarrow> rank t < (rank n :: int)"
  shows "acyclic (dep hg pr)"
proof (rule acyclicI, intro allI notI)
  fix n assume "(n, n) \<in> (dep hg pr)\<^sup>+"
  moreover have "rank t < rank n" if "(t, n) \<in> (dep hg pr)\<^sup>+" for t n
    using that by (induction rule: trancl_induct) (use assms in fastforce)+
  ultimately show False by fastforce
qed

lemma topological_acyclic:
  assumes top: "topological hg"
  shows "acyclic (dep hg pr)"
proof (rule dep_acyclic [where rank = id])
  fix t n assume "(t, n) \<in> dep hg pr"
  then obtain e where "0 \<le> n" "nat n < length (hg_nodes hg)" "e \<in> set (ins hg n)" "t \<in> set (tails hg e)"
    by (auto simp: dep_def vsize_def nat_less_iff)
  then show "id t < id n" using topologicalD(2) [OF top, of "nat n" e t] by simp
qed

text \<open>C19. If no node is reached from itself over edges that are not pruned, the sort returns: the nodes from
  which the goal is reached, the goal last, and the edges between them that are not pruned. Tails come
  before heads, the invariant of the graph holds, and the derivations of the goal are the old ones without
  pruned edges, renumbered.\<close>

theorem TopologicallySort_correct:
  assumes c: "consistent_hg {} hg" and "mask_ok hg pr" "acyclic (dep hg pr)" "0 \<le> goal" "goal < vsize (hg_nodes hg)"
  shows "\<exists>hg' ord K. TopologicallySortNodesAndEdges goal pr hg = Some hg' \<and> hg' = subgraph ord K hg \<and>
    distinct ord \<and> distinct K \<and> last ord = goal \<and> set ord = {n. (n, goal) \<in> (dep hg pr)\<^sup>*} \<and>
    set K = {e. 0 \<le> e \<and> e < vsize (hg_edges hg) \<and> \<not> pruned pr e \<and> (ed_head (hg_edges hg ! nat e), goal) \<in> (dep hg pr)\<^sup>*} \<and>
    topological hg' \<and> consistent_hg {} hg' \<and>
    {d. derives hg' (nat (GoalNode hg')) d} = relabel (posn K) ` {d. derives hg (nat goal) d \<and> (\<forall>e \<in> deriv_edges d. \<not> pruned pr e)}"
proof -
  obtain ord K where run: "TopologicallySortNodesAndEdges goal pr hg = Some (subgraph ord K hg)" and res: "topo_result hg pr goal ord K"
    using TopologicallySort_result [OF assms] by blast
  show ?thesis
    using run res topo_result_subgraph [OF c res] by (intro exI [of _ "subgraph ord K hg"] exI [of _ ord] exI [of _ K]) (simp add: topo_result_def sub_ok_def)
qed

text \<open>A graph whose goal, node 0, comes before its tail, with an edge to a node the goal does not reach.\<close>

definition unsorted_hg :: "(int, int) hypergraph" where
  "unsorted_hg = \<lparr>hg_linear_chain = False,
     hg_nodes = [\<lparr>nd_hash = 0, nd_id = 0, nd_cat = -1, nd_in = [1], nd_out = []\<rparr>,
                 \<lparr>nd_hash = 0, nd_id = 1, nd_cat = -2, nd_in = [0], nd_out = [1, 2]\<rparr>,
                 \<lparr>nd_hash = 0, nd_id = 2, nd_cat = -3, nd_in = [2], nd_out = []\<rparr>],
     hg_edges = [demo_edge 0 [] 1 7, demo_edge 1 [1] 0 8, demo_edge 2 [1] 2 9]\<rparr>"

lemma TopologicallySort_correct_witness:
  "\<exists>hg'. TopologicallySortNodesAndEdges 0 None unsorted_hg = Some hg' \<and> topological hg' \<and> consistent_hg {} hg' \<and> \<not> topological unsorted_hg"
proof -
  have c: "consistent_hg {} unsorted_hg"
    by (rule hg_check_consistent) (simp add: unsorted_hg_def demo_edge_def hg_check_def)
  have range: "n = 0 \<or> n = 1 \<or> n = 2" if "0 \<le> n" "n < 3" for n :: int using that by linarith
  have "acyclic (dep unsorted_hg None)"
    by (rule dep_acyclic [where rank = "\<lambda>n. if n = 1 then 0 else 1"])
      (auto simp: dep_def unsorted_hg_def demo_edge_def vsize_def pruned_def dest!: range split: if_splits)
  from TopologicallySort_correct [OF c _ this, of 0] have "\<exists>hg'. TopologicallySortNodesAndEdges 0 None unsorted_hg = Some hg' \<and>
      topological hg' \<and> consistent_hg {} hg'"
    by (auto simp: mask_ok_def unsorted_hg_def)
  moreover have "\<not> topological unsorted_hg" by (simp add: topological_def unsorted_hg_def demo_edge_def)
  ultimately show ?thesis by blast
qed

text \<open>A cycle aborts.\<close>

lemma TopologicallySort_cycle_aborts:
  "TopologicallySortNodesAndEdges 0 None \<lparr>hg_linear_chain = False, hg_nodes = [\<lparr>nd_hash = 0, nd_id = 0, nd_cat = -1, nd_in = [0], nd_out = [0]\<rparr>],
     hg_edges = [demo_edge 0 [0] 0 (1 :: int)]\<rparr> = None"
  unfolding TopologicallySortNodesAndEdges_def demo_edge_def
  by (subst topo_search.simps, simp, subst visit_node.simps, simp add: is_pruned_def vat_def vset_def,
      subst visit_node.simps, simp add: is_pruned_def vat_def)

end
