(* ===== verification/SparseVectors.thy ===== *)
theory SparseVectors
  imports Doubles
begin

text \<open>
  \<open>FastSparseVector\<close> (\<open>utils/fast_sparse_vector.h\<close>): a vector indexed by numbers that keeps up to \<open>LOCAL_MAX\<close>
  entries in an array and moves to a hash map when it grows. The operations on the values are a
  parameter (\<open>sv_ops\<close>), and so is the order in which a hash map is iterated, a list of the keys.
  Iterators are the list of entries they run through; swapping two vectors is left out.
\<close>

record 'v sv_ops =
  so_zero :: 'v
  so_add :: "'v \<Rightarrow> 'v \<Rightarrow> 'v"
  so_sub :: "'v \<Rightarrow> 'v \<Rightarrow> 'v"
  so_mul :: "'v \<Rightarrow> 'v \<Rightarrow> 'v"
  so_div :: "'v \<Rightarrow> 'v \<Rightarrow> 'v"
  so_eq :: "'v \<Rightarrow> 'v \<Rightarrow> bool"
  so_true :: "'v \<Rightarrow> bool"

datatype 'v svec = Local "(int \<times> 'v) list" | Remote "int \<rightharpoonup> 'v"

type_synonym 'v hash_order = "(int \<rightharpoonup> 'v) \<Rightarrow> int list"

definition LOCAL_MAX_of :: "int \<Rightarrow> int \<Rightarrow> nat" where
  "LOCAL_MAX_of sizeof_T sizeof_float = (if sizeof_T = sizeof_float then 15 else 7)"

definition empty_svec :: "'v svec" where
  "empty_svec = Local []"

section \<open>Entries\<close>

text \<open>What runs from \<open>begin()\<close> to \<open>end()\<close>.\<close>

definition sv_entries :: "'v hash_order \<Rightarrow> 'v svec \<Rightarrow> (int \<times> 'v) list" where
  "sv_entries ord v = (case v of Local xs \<Rightarrow> xs | Remote m \<Rightarrow> map (\<lambda>k. (k, the (m k))) (ord m))"

definition sv_value :: "'v \<Rightarrow> 'v svec \<Rightarrow> int \<Rightarrow> 'v" where
  "sv_value zero v k = (case v of
      Local xs \<Rightarrow> (case find (\<lambda>p. fst p = k) xs of Some p \<Rightarrow> snd p | None \<Rightarrow> zero)
    | Remote m \<Rightarrow> (case m k of Some x \<Rightarrow> x | None \<Rightarrow> zero))"

definition sv_nonzero :: "'v sv_ops \<Rightarrow> 'v svec \<Rightarrow> int \<Rightarrow> bool" where
  "sv_nonzero W v k = so_true W (sv_value (so_zero W) v k)"

definition sv_size :: "'v hash_order \<Rightarrow> 'v svec \<Rightarrow> int" where
  "sv_size ord v = (case v of Local xs \<Rightarrow> vsize xs | Remote m \<Rightarrow> vsize (ord m))"

definition sv_empty :: "'v hash_order \<Rightarrow> 'v svec \<Rightarrow> bool" where
  "sv_empty ord v = (sv_size ord v = 0)"

definition num_nonzero :: "'v sv_ops \<Rightarrow> 'v hash_order \<Rightarrow> 'v svec \<Rightarrow> int" where
  "num_nonzero W ord v = fold (\<lambda>p sz. if sv_nonzero W v (fst p) then sz + 1 else sz) (sv_entries ord v) 0"

definition get_singleton :: "'v hash_order \<Rightarrow> 'v svec \<Rightarrow> 'v option" where
  "get_singleton ord v = do { check (sv_size ord v = 1); map_option snd (vfront (sv_entries ord v)) }"

text \<open>The reference \<open>get_or_create_bin\<close> returns is used to change the entry, by \<open>f\<close>.\<close>

fun bin_update :: "int \<Rightarrow> ('v \<Rightarrow> 'v) \<Rightarrow> (int \<times> 'v) list \<Rightarrow> (int \<times> 'v) list option" where
  "bin_update k f [] = None"
| "bin_update k f ((j, x) # xs) = (if j = k then Some ((j, f x) # xs) else map_option (Cons (j, x)) (bin_update k f xs))"

definition swap_local_rbmap :: "(int \<times> 'v) list \<Rightarrow> int \<rightharpoonup> 'v" where
  "swap_local_rbmap xs = map_of xs"

definition get_or_create_bin :: "nat \<Rightarrow> 'v \<Rightarrow> int \<Rightarrow> ('v \<Rightarrow> 'v) \<Rightarrow> 'v svec \<Rightarrow> 'v svec" where
  "get_or_create_bin LOCAL_MAX zero k f v = (case v of
      Remote m \<Rightarrow> Remote (m(k \<mapsto> f (case m k of Some x \<Rightarrow> x | None \<Rightarrow> zero)))
    | Local xs \<Rightarrow> (case bin_update k f xs of
        Some ys \<Rightarrow> Local ys
      | None \<Rightarrow> if length xs < LOCAL_MAX then Local (xs @ [(k, f zero)])
                else let m = swap_local_rbmap xs in Remote (m(k \<mapsto> f (case m k of Some x \<Rightarrow> x | None \<Rightarrow> zero)))))"

definition set_value :: "nat \<Rightarrow> 'v \<Rightarrow> int \<Rightarrow> 'v \<Rightarrow> 'v svec \<Rightarrow> 'v svec" where
  "set_value LOCAL_MAX zero k x v = get_or_create_bin LOCAL_MAX zero k (\<lambda>_. x) v"

definition add_value :: "nat \<Rightarrow> 'v sv_ops \<Rightarrow> int \<Rightarrow> 'v \<Rightarrow> 'v svec \<Rightarrow> 'v svec" where
  "add_value LOCAL_MAX W k x v = get_or_create_bin LOCAL_MAX (so_zero W) k (\<lambda>y. so_add W y x) v"

text \<open>
  \<open>erase\<close> moves the entries behind the key one position down and then drops one entry. With no entry
  the size, an \<open>unsigned char\<close>, becomes 255, more than the array has.
\<close>

definition erase :: "int \<Rightarrow> 'v svec \<Rightarrow> 'v svec option" where
  "erase k v = (case v of
      Remote m \<Rightarrow> Some (Remote (m(k := None)))
    | Local xs \<Rightarrow> do {
        ys \<leftarrow> for_each (positions xs) (\<lambda>i data. do {
          p \<leftarrow> vat data i;
          if fst p = k then
            for_each (int_range (i + 1) (vsize xs)) (\<lambda>j data. do { q \<leftarrow> vat data j; vset data (j - 1) q }) data
          else Some data }) xs;
        check (ys \<noteq> []);
        Some (Local (butlast ys)) })"

section \<open>Arithmetic\<close>

definition sv_plus_eq :: "nat \<Rightarrow> 'v sv_ops \<Rightarrow> 'v hash_order \<Rightarrow> 'v svec \<Rightarrow> 'v svec \<Rightarrow> 'v svec" where
  "sv_plus_eq LOCAL_MAX W ord v other =
     (if sv_empty ord v then other
      else fold (\<lambda>p v. get_or_create_bin LOCAL_MAX (so_zero W) (fst p) (\<lambda>x. so_add W x (snd p)) v) (sv_entries ord other) v)"

definition plus_eq_v_times_s :: "nat \<Rightarrow> 'v sv_ops \<Rightarrow> 'v hash_order \<Rightarrow> 'v svec \<Rightarrow> 'v svec \<Rightarrow> 'v \<Rightarrow> 'v svec" where
  "plus_eq_v_times_s LOCAL_MAX W ord v other scalar =
     fold (\<lambda>p v. get_or_create_bin LOCAL_MAX (so_zero W) (fst p) (\<lambda>x. so_add W x (so_mul W (snd p) scalar)) v) (sv_entries ord other) v"

definition sv_minus_eq :: "nat \<Rightarrow> 'v sv_ops \<Rightarrow> 'v hash_order \<Rightarrow> 'v svec \<Rightarrow> 'v svec \<Rightarrow> 'v svec" where
  "sv_minus_eq LOCAL_MAX W ord v other =
     fold (\<lambda>p v. get_or_create_bin LOCAL_MAX (so_zero W) (fst p) (\<lambda>x. so_sub W x (snd p)) v) (sv_entries ord other) v"

definition sv_map :: "('v \<Rightarrow> 'v) \<Rightarrow> 'v svec \<Rightarrow> 'v svec" where
  "sv_map f v = (case v of Remote m \<Rightarrow> Remote (\<lambda>k. map_option f (m k)) | Local xs \<Rightarrow> Local (map (\<lambda>(k, x). (k, f x)) xs))"

definition sv_times_eq :: "'v sv_ops \<Rightarrow> 'v svec \<Rightarrow> 'v \<Rightarrow> 'v svec" where
  "sv_times_eq W v scalar = sv_map (\<lambda>x. so_mul W x scalar) v"

definition sv_div_eq :: "'v sv_ops \<Rightarrow> 'v svec \<Rightarrow> 'v \<Rightarrow> 'v svec" where
  "sv_div_eq W v scalar = sv_map (\<lambda>x. so_div W x scalar) v"

definition sv_plus :: "nat \<Rightarrow> 'v sv_ops \<Rightarrow> 'v hash_order \<Rightarrow> 'v svec \<Rightarrow> 'v svec \<Rightarrow> 'v svec" where
  "sv_plus LOCAL_MAX W ord x y = (if sv_size ord y < sv_size ord x then sv_plus_eq LOCAL_MAX W ord x y else sv_plus_eq LOCAL_MAX W ord y x)"

definition sv_minus :: "nat \<Rightarrow> 'v sv_ops \<Rightarrow> 'v hash_order \<Rightarrow> 'v svec \<Rightarrow> 'v svec \<Rightarrow> 'v svec" where
  "sv_minus LOCAL_MAX W ord x y = sv_minus_eq LOCAL_MAX W ord x y"

definition l2norm_sq :: "'v sv_ops \<Rightarrow> 'v hash_order \<Rightarrow> 'v svec \<Rightarrow> 'v" where
  "l2norm_sq W ord v = fold (\<lambda>p s. so_add W s (so_mul W (snd p) (snd p))) (sv_entries ord v) (so_zero W)"

definition sv_dot_vector :: "'v sv_ops \<Rightarrow> 'v hash_order \<Rightarrow> 'v svec \<Rightarrow> 'v list \<Rightarrow> 'v" where
  "sv_dot_vector W ord v u = fold (\<lambda>p res. if fst p < vsize u then so_add W res (so_mul W (snd p) (u ! nat (fst p))) else res)
     (sv_entries ord v) (so_zero W)"

definition sv_dot :: "'v sv_ops \<Rightarrow> 'v hash_order \<Rightarrow> 'v svec \<Rightarrow> 'v svec \<Rightarrow> 'v" where
  "sv_dot W ord v other = fold (\<lambda>p res. so_add W res (so_mul W (sv_value (so_zero W) other (fst p)) (snd p))) (sv_entries ord v) (so_zero W)"

definition tanimoto_coef :: "'v sv_ops \<Rightarrow> 'v hash_order \<Rightarrow> 'v svec \<Rightarrow> 'v svec \<Rightarrow> 'v" where
  "tanimoto_coef W ord v vec = (let dp = sv_dot W ord v vec in
     so_div W dp (so_sub W (so_add W (l2norm_sq W ord v) (l2norm_sq W ord vec)) dp))"

definition sv_eq :: "'v sv_ops \<Rightarrow> 'v hash_order \<Rightarrow> 'v svec \<Rightarrow> 'v svec \<Rightarrow> bool" where
  "sv_eq W ord v other =
     (if sv_size ord other \<noteq> sv_size ord v then False
      else list_all (\<lambda>p. so_eq W (sv_value (so_zero W) other (fst p)) (snd p)) (sv_entries ord v))"

definition erase_zeros :: "nat \<Rightarrow> 'v sv_ops \<Rightarrow> 'v hash_order \<Rightarrow> ('v \<Rightarrow> bool) \<Rightarrow> 'v svec \<Rightarrow> 'v svec" where
  "erase_zeros LOCAL_MAX W ord large v = fold (\<lambda>p o_v. if large (snd p) then set_value LOCAL_MAX (so_zero W) (fst p) (snd p) o_v else o_v)
     (sv_entries ord v) empty_svec"

definition init_vector :: "'v \<Rightarrow> 'v hash_order \<Rightarrow> 'v svec \<Rightarrow> 'v list" where
  "init_vector zero ord sv = fold (\<lambda>p v. (if vsize v \<le> fst p then v @ replicate (nat (fst p + 1 - vsize v)) zero else v)[nat (fst p) := snd p])
     (sv_entries ord sv) []"

section \<open>Refinement of a function\<close>

text \<open>The order lists the keys of a map, once each.\<close>

definition order_ok :: "'v hash_order \<Rightarrow> bool" where
  "order_ok ord \<longleftrightarrow> (\<forall>m. finite (dom m) \<longrightarrow> set (ord m) = dom m \<and> distinct (ord m))"

definition sv_ok :: "nat \<Rightarrow> 'v svec \<Rightarrow> bool" where
  "sv_ok LOCAL_MAX v \<longleftrightarrow> (case v of
      Local xs \<Rightarrow> distinct (map fst xs) \<and> length xs \<le> LOCAL_MAX
    | Remote m \<Rightarrow> finite (dom m))"

lemma find_fst: "find (\<lambda>p. fst p = k) xs = map_option (Pair k) (map_of xs k)"
  by (induction xs) auto

lemma sv_value_alt: "sv_value zero v k = (case (case v of Local xs \<Rightarrow> map_of xs k | Remote m \<Rightarrow> m k) of Some x \<Rightarrow> x | None \<Rightarrow> zero)"
  by (auto simp: sv_value_def find_fst split: svec.splits option.splits)

lemma bin_update_None: "bin_update k f xs = None \<longleftrightarrow> k \<notin> fst ` set xs"
  by (induction k f xs rule: bin_update.induct) auto

lemma bin_update_Some: "bin_update k f xs = Some ys \<Longrightarrow> map fst ys = map fst xs \<and> map_of ys = (map_of xs)(k \<mapsto> f (the (map_of xs k)))"
proof (induction xs arbitrary: ys)
  case (Cons p xs)
  then show ?case
    by (cases p) (auto split: if_splits simp: fun_upd_twist)
qed simp

lemma bin_cases:
  obtains (remote) m where "v = Remote m"
  | (there) xs ys x where "v = Local xs" "bin_update k f xs = Some ys" "map fst ys = map fst xs"
      "map_of ys = (map_of xs)(k \<mapsto> f x)" "map_of xs k = Some x"
  | (room) xs where "v = Local xs" "bin_update k f xs = None" "map_of xs k = None" "k \<notin> fst ` set xs" "length xs < L"
  | (full) xs where "v = Local xs" "bin_update k f xs = None" "map_of xs k = None" "\<not> length xs < L"
proof (cases v)
  case (Local xs)
  show ?thesis
  proof (cases "bin_update k f xs")
    case None
    then have "k \<notin> fst ` set xs" by (simp add: bin_update_None)
    then have "map_of xs k = None" by (simp add: map_of_eq_None_iff)
    with None Local \<open>k \<notin> fst ` set xs\<close> show ?thesis
      by (cases "length xs < L") (auto intro: room full)
  next
    case (Some ys)
    then have "k \<in> fst ` set xs" using bin_update_None [of k f xs] by auto
    then obtain x where "map_of xs k = Some x" by (metis map_of_eq_None_iff option.exhaust)
    with bin_update_Some [OF Some] Some Local show ?thesis by (auto intro: there)
  qed
qed (auto intro: remote)

lemma bin_ok: "sv_ok L v \<Longrightarrow> sv_ok L (get_or_create_bin L zero k f v)"
proof (cases rule: bin_cases [where v = v and k = k and f = f and L = L])
  case (there xs ys x)
  moreover have "length ys = length xs" by (metis length_map there(3))
  ultimately show "sv_ok L v \<Longrightarrow> ?thesis" by (simp add: get_or_create_bin_def sv_ok_def)
qed (auto simp: sv_ok_def get_or_create_bin_def Let_def swap_local_rbmap_def finite_dom_map_of)

lemma bin_value: "sv_value zero (get_or_create_bin L zero k f v) = (sv_value zero v)(k := f (sv_value zero v k))"
  by (cases rule: bin_cases [where v = v and k = k and f = f and L = L])
    (auto simp: get_or_create_bin_def sv_value_alt fun_eq_iff Let_def swap_local_rbmap_def map_add_def split: option.splits)

text \<open>The entries are the graph of the lookup function.\<close>

definition sv_lookup :: "'v svec \<Rightarrow> int \<rightharpoonup> 'v" where
  "sv_lookup v = (case v of Local xs \<Rightarrow> map_of xs | Remote m \<Rightarrow> m)"

lemma sv_value_lookup: "sv_value zero v k = (case sv_lookup v k of Some x \<Rightarrow> x | None \<Rightarrow> zero)"
  by (auto simp: sv_value_alt sv_lookup_def split: svec.splits)

lemma map_of_graph: "map_of (map (\<lambda>k. (k, f k)) ks) k = (if k \<in> set ks then Some (f k) else None)"
  by (induction ks) auto

lemma order_okD: "order_ok ord \<Longrightarrow> finite (dom m) \<Longrightarrow> set (ord m) = dom m" "order_ok ord \<Longrightarrow> finite (dom m) \<Longrightarrow> distinct (ord m)"
  by (simp_all add: order_ok_def)

lemma entries_lookup: "order_ok ord \<Longrightarrow> sv_ok L v \<Longrightarrow> map_of (sv_entries ord v) = sv_lookup v"
  by (cases v) (auto simp: sv_entries_def sv_lookup_def order_okD sv_ok_def map_of_graph fun_eq_iff domIff)

lemma entries_distinct: "order_ok ord \<Longrightarrow> sv_ok L v \<Longrightarrow> distinct (map fst (sv_entries ord v))"
  by (auto simp: sv_entries_def order_ok_def sv_ok_def comp_def split: svec.splits)

lemma entries_empty: "order_ok ord \<Longrightarrow> sv_ok L v \<Longrightarrow> sv_empty ord v \<Longrightarrow> sv_value zero v k = zero"
  using order_okD(1) [of ord "sv_lookup v"]
  by (cases v) (auto simp: sv_empty_def sv_size_def sv_value_lookup sv_lookup_def sv_ok_def split: option.splits)

text \<open>Updating with every entry of a vector.\<close>

lemma fold_bin:
  assumes "distinct (map fst ps)"
  shows "sv_value zero (fold (\<lambda>p v. get_or_create_bin L zero (fst p) (\<lambda>x. g x (snd p)) v) ps v) k =
    (case map_of ps k of None \<Rightarrow> sv_value zero v k | Some y \<Rightarrow> g (sv_value zero v k) y)"
  using assms
proof (induction ps arbitrary: v)
  case (Cons p ps)
  then have "map_of ps (fst p) = None" by (simp add: map_of_eq_None_iff)
  with Cons show ?case
    by (cases p) (auto simp: bin_value split: option.splits)
qed simp

lemma fold_bin_ok: "sv_ok L v \<Longrightarrow> sv_ok L (fold (\<lambda>p v. get_or_create_bin L zero (fst p) (\<lambda>x. g x (snd p)) v) ps v)"
  by (induction ps arbitrary: v) (auto simp: bin_ok)

lemma sv_map_value: "f zero = zero \<Longrightarrow> sv_value zero (sv_map f v) k = f (sv_value zero v k)"
proof -
  have "map_of (map (\<lambda>(k, x). (k, f x)) xs) k = map_option f (map_of xs k)" for xs
    by (induction xs) auto
  then show "f zero = zero \<Longrightarrow> ?thesis"
    by (auto simp: sv_value_alt sv_map_def split: svec.splits option.splits)
qed

lemma sv_map_ok: "sv_ok L v \<Longrightarrow> sv_ok L (sv_map f v)"
  by (auto simp: sv_ok_def sv_map_def dom_def comp_def split_def split: svec.splits)

section \<open>Exact arithmetic\<close>

definition sv_double :: "('d, 'z) floats_scheme \<Rightarrow> 'd sv_ops" where
  "sv_double fl = \<lparr>so_zero = fl_of_int fl 0, so_add = fl_add fl, so_sub = fl_sub fl, so_mul = fl_mul fl, so_div = fl_div fl,
     so_eq = \<lambda>a b. \<not> fl_less fl a b \<and> \<not> fl_less fl b a, so_true = \<lambda>a. fl_less fl a (fl_of_int fl 0) \<or> fl_less fl (fl_of_int fl 0) a\<rparr>"

lemma sv_double_simps [simp]: "so_zero (sv_double (exact lg)) = 0" "so_add (sv_double (exact lg)) = (+)" "so_sub (sv_double (exact lg)) = (-)"
  "so_mul (sv_double (exact lg)) = (*)" "so_div (sv_double (exact lg)) = (/)"
  "so_eq (sv_double (exact lg)) a b \<longleftrightarrow> a = b" "so_true (sv_double (exact lg)) a \<longleftrightarrow> a \<noteq> 0"
  by (auto simp: sv_double_def)

lemma sv_dot_sum:
  assumes "order_ok ord" "sv_ok L v"
  shows "sv_dot (sv_double (exact lg)) ord v u = (\<Sum>k | sv_value 0 v k \<noteq> 0. sv_value 0 v k * sv_value 0 u k)"
proof -
  let ?es = "sv_entries ord v"
  have fold: "fold (\<lambda>p res. res + sv_value 0 u (fst p) * snd p) ps a = a + (\<Sum>p\<leftarrow>ps. sv_value 0 u (fst p) * snd p)" for ps a
    by (induction ps arbitrary: a) (auto simp: algebra_simps)
  have es: "distinct ?es" "inj_on fst (set ?es)"
    using entries_distinct [OF assms] by (auto simp: distinct_map)
  have vals: "sv_value 0 v (fst p) = snd p" if "p \<in> set ?es" for p
  proof -
    have "map_of ?es (fst p) = Some (snd p)" using that entries_distinct [OF assms] by (simp add: map_of_eq_Some_iff)
    then show ?thesis using assms by (simp add: sv_value_lookup entries_lookup)
  qed
  have dom: "k \<in> fst ` set ?es" if nz: "sv_value 0 v k \<noteq> 0" for k
  proof -
    obtain x where "sv_lookup v k = Some x" using nz by (auto simp: sv_value_lookup split: option.splits)
    then have "map_of ?es k = Some x" using assms by (simp add: entries_lookup)
    then show ?thesis by (force dest: map_of_SomeD)
  qed
  have "sv_dot (sv_double (exact lg)) ord v u = (\<Sum>p \<in> set ?es. sv_value 0 u (fst p) * snd p)"
    unfolding sv_dot_def using es by (simp add: fold sum_list_distinct_conv_sum_set)
  also have "\<dots> = (\<Sum>p \<in> set ?es. sv_value 0 v (fst p) * sv_value 0 u (fst p))"
    by (rule sum.cong) (auto simp: vals)
  also have "\<dots> = (\<Sum>k \<in> fst ` set ?es. sv_value 0 v k * sv_value 0 u k)"
    using es by (simp add: sum.reindex comp_def)
  also have "\<dots> = (\<Sum>k | sv_value 0 v k \<noteq> 0. sv_value 0 v k * sv_value 0 u k)"
    by (rule sum.mono_neutral_right) (use dom in auto)
  finally show ?thesis .
qed

lemma sv_plus_eq_value:
  assumes "order_ok ord" "sv_ok L v" "sv_ok L u"
  shows "sv_ok L (sv_plus_eq L (sv_double (exact lg)) ord v u)"
    "sv_value 0 (sv_plus_eq L (sv_double (exact lg)) ord v u) k = sv_value 0 v k + sv_value 0 u k"
  using assms entries_empty [of ord L v 0 k]
  by (auto simp: sv_plus_eq_def fold_bin_ok fold_bin entries_distinct entries_lookup sv_value_lookup [of 0 u] split: option.splits)

text \<open>C23. \<open>FastSparseVector\<close> refines a function from indices to numbers: whether the entries are in the
  array or in the hash map, and over the change from one to the other, writing an entry changes the
  function at that index, \<open>+=\<close>, \<open>-=\<close> and \<open>*=\<close> are pointwise, \<open>dot\<close> is the inner product, and the
  representation stays well-formed.\<close>

theorem FastSparseVector_refines:
  assumes "order_ok ord" and "sv_ok L v" and "sv_ok L u"
  shows "sv_value 0 (set_value L 0 k x v) = (sv_value 0 v)(k := x) \<and> sv_ok L (set_value L 0 k x v) \<and>
    sv_value 0 (add_value L (sv_double (exact lg)) k x v) = (sv_value 0 v)(k := sv_value 0 v k + x) \<and>
    sv_value 0 (sv_plus_eq L (sv_double (exact lg)) ord v u) = (\<lambda>j. sv_value 0 v j + sv_value 0 u j) \<and>
    sv_ok L (sv_plus_eq L (sv_double (exact lg)) ord v u) \<and>
    sv_value 0 (sv_minus_eq L (sv_double (exact lg)) ord v u) = (\<lambda>j. sv_value 0 v j - sv_value 0 u j) \<and>
    sv_ok L (sv_minus_eq L (sv_double (exact lg)) ord v u) \<and>
    sv_value 0 (sv_times_eq (sv_double (exact lg)) v x) = (\<lambda>j. sv_value 0 v j * x) \<and>
    sv_ok L (sv_times_eq (sv_double (exact lg)) v x) \<and>
    sv_dot (sv_double (exact lg)) ord v u = (\<Sum>j | sv_value 0 v j \<noteq> 0. sv_value 0 v j * sv_value 0 u j)"
proof (intro conjI)
  show "sv_value 0 (sv_minus_eq L (sv_double (exact lg)) ord v u) = (\<lambda>j. sv_value 0 v j - sv_value 0 u j)"
    using assms by (auto simp: sv_minus_eq_def fold_bin entries_distinct entries_lookup sv_value_lookup [of 0 u] fun_eq_iff split: option.splits)
  show "sv_ok L (sv_minus_eq L (sv_double (exact lg)) ord v u)"
    using assms by (simp add: sv_minus_eq_def fold_bin_ok)
qed (use assms in \<open>auto simp: set_value_def add_value_def bin_value bin_ok sv_plus_eq_value sv_times_eq_def sv_map_value sv_map_ok sv_dot_sum fun_eq_iff\<close>)

lemma FastSparseVector_refines_witness:
  "sv_value 0 (set_value 1 0 5 (7 :: rat) (Local [(3, 4)])) = (sv_value 0 (Local [(3, 4)]))(5 := 7) \<and>
   sv_dot (sv_double (exact (\<lambda>_. 0))) (\<lambda>m. sorted_list_of_set (dom m)) (Local [(3, 4)]) (Remote [3 \<mapsto> 2, 5 \<mapsto> 1]) = 8"
proof -
  have ord: "order_ok (\<lambda>m :: int \<rightharpoonup> rat. sorted_list_of_set (dom m))" by (simp add: order_ok_def)
  have "{j. sv_value 0 (Local [(3, 4 :: rat)]) j \<noteq> 0} = {3}" by (auto simp: sv_value_def)
  then show ?thesis
    using FastSparseVector_refines [OF ord, of 1 "Local [(3, 4)]" "Remote [3 \<mapsto> 2, 5 \<mapsto> 1]" 5 7 "\<lambda>_. 0"]
    by (simp add: sv_ok_def) (simp add: sv_value_def)
qed

section \<open>Erasing\<close>

lemma shift_down:
  "for_each (int_range (vsize pre + 1) (vsize pre + 1 + vsize rest)) (\<lambda>j data. do { q \<leftarrow> vat data j; vset data (j - 1) q }) (pre @ q # rest) =
   Some (pre @ rest @ [last (q # rest)])"
proof (induction rest arbitrary: pre q)
  case (Cons r rs)
  have "vat (pre @ q # r # rs) (vsize pre + 1) = Some r" "vset (pre @ q # r # rs) (vsize pre) r = Some ((pre @ [r]) @ r # rs)"
    by (auto simp: vat_def vset_def vsize_def nth_append nat_add_distrib)
  moreover have "int_range (vsize pre + 1) (vsize pre + 1 + vsize (r # rs)) =
      (vsize pre + 1) # int_range (vsize (pre @ [r]) + 1) (vsize (pre @ [r]) + 1 + vsize rs)"
    by (subst int_range_Cons) (auto simp: vsize_def algebra_simps)
  ultimately show ?case
    using Cons [of "pre @ [r]" r] by simp
qed simp

lemma erase_skips:
  "(\<And>j. lo \<le> j \<Longrightarrow> j < hi \<Longrightarrow> 0 \<le> j \<and> j < vsize data \<and> fst (data ! nat j) \<noteq> k) \<Longrightarrow>
   for_each (int_range lo hi) (\<lambda>i data. do { p \<leftarrow> vat data i; if fst p = k then f i data else Some data }) data = Some data"
proof (induction "nat (hi - lo)" arbitrary: lo)
  case (Suc n)
  then have "lo < hi" by simp
  with Suc show ?case by (simp add: int_range_Cons vat_eq vsize_def)
qed simp

lemma erase_absent:
  assumes "k \<notin> fst ` set xs" "xs \<noteq> []"
  shows "erase k (Local xs) = Some (Local (butlast xs))"
proof -
  have "fst (xs ! nat j) \<noteq> k" if "0 \<le> j" "j < vsize xs" for j
    using that assms nth_mem [of "nat j" xs] by (force simp: vsize_def nat_less_iff)
  then show ?thesis
    using assms by (simp add: erase_def erase_skips)
qed

lemma erase_present:
  assumes pre: "k \<notin> fst ` set pre" and rest: "k \<notin> fst ` set rest"
  shows "erase k (Local (pre @ (k, x) # rest)) = Some (Local (pre @ rest))"
proof -
  let ?xs = "pre @ (k, x) # rest"
  let ?inner = "\<lambda>i data. for_each (int_range (i + 1) (vsize ?xs)) (\<lambda>j data. do { q \<leftarrow> vat data j; vset data (j - 1) q }) data"
  let ?F = "\<lambda>i data. do { p \<leftarrow> vat data i; if fst p = k then ?inner i data else Some data }"
  let ?n = "vsize pre"
  have split: "positions ?xs = int_range 0 ?n @ ?n # int_range (?n + 1) (vsize ?xs)"
    using int_range_append [of 0 ?n "vsize ?xs"] int_range_Cons [of ?n "vsize ?xs"] by (simp add: vsize_def)
  have "fst (?xs ! nat j) \<noteq> k" if "0 \<le> j" "j < ?n" for j
    using that pre nth_mem [of "nat j" pre] by (force simp: vsize_def nat_less_iff nth_append)
  then have first: "for_each (int_range 0 ?n) ?F ?xs = Some ?xs"
    by (intro erase_skips) (auto simp: vsize_def)
  have mid: "?F ?n ?xs = Some (pre @ rest @ [last ((k, x) # rest)])"
    using shift_down [of pre rest "(k, x)"] by (simp add: vat_append add.commute add.left_commute)
  have "fst ((pre @ rest @ [last ((k, x) # rest)]) ! nat j) \<noteq> k" if "?n + 1 \<le> j" "j < vsize ?xs" for j
  proof -
    have "rest \<noteq> []" using that by auto
    then have "last ((k, x) # rest) \<in> set rest" by simp
    moreover have "(pre @ rest @ [last ((k, x) # rest)]) ! nat j \<in> set (rest @ [last ((k, x) # rest)])"
      using that by (subst nth_append) (auto simp: vsize_def nat_less_iff intro!: nth_mem simp del: set_append last.simps)
    ultimately show ?thesis using rest by force
  qed
  then have "for_each (int_range (?n + 1) (vsize ?xs)) ?F (pre @ rest @ [last ((k, x) # rest)]) = Some (pre @ rest @ [last ((k, x) # rest)])"
    by (intro erase_skips) (auto simp: vsize_def)
  then have "for_each (positions ?xs) ?F ?xs = Some (pre @ rest @ [last ((k, x) # rest)])"
    unfolding split for_each_append first using mid by simp
  then show ?thesis
    by (simp add: erase_def butlast_append)
qed

text \<open>C40. \<open>erase\<close> removes the entry of an index that the array has, but with an index it does not have it
  removes the last entry, whatever its index, and with an empty array it leaves a size larger than the
  array.\<close>

theorem erase_drops_last:
  assumes "distinct (map fst xs)"
  shows "(k \<in> fst ` set xs \<longrightarrow> (\<exists>v. erase k (Local xs) = Some v \<and> sv_value zero v = (sv_value zero (Local xs))(k := zero))) \<and>
    (k \<notin> fst ` set xs \<longrightarrow> erase k (Local xs) = (if xs = [] then None else Some (Local (butlast xs))))"
proof (intro conjI impI)
  assume "k \<in> fst ` set xs"
  then obtain pre x rest where xs: "xs = pre @ (k, x) # rest" by (force dest!: split_list)
  then have k: "k \<notin> fst ` set pre" "k \<notin> fst ` set rest" using assms by auto
  then have "map_of pre k = None" "map_of rest k = None" by (auto simp: map_of_eq_None_iff)
  then have "sv_value zero (Local (pre @ rest)) = (sv_value zero (Local xs))(k := zero)"
    by (auto simp: xs sv_value_alt fun_eq_iff map_add_def split: option.splits)
  then show "\<exists>v. erase k (Local xs) = Some v \<and> sv_value zero v = (sv_value zero (Local xs))(k := zero)"
    using erase_present [OF k] xs by auto
next
  assume "k \<notin> fst ` set xs"
  then show "erase k (Local xs) = (if xs = [] then None else Some (Local (butlast xs)))"
    using erase_absent [of k xs] by (simp add: erase_def)
qed

lemma erase_drops_last_witness: "erase 9 (Local [(1, 2 :: int), (3, 4)]) = Some (Local [(1, 2)])"
  using erase_drops_last [of "[(1, 2 :: int), (3, 4)]" 9 0] by simp

text \<open>The comparison looks up the entries of the left vector only: with as many entries on both sides, one
  that is 0 on the left and missing on the right hides one that is missing on the left.\<close>

lemma sv_eq_not_symmetric:
  "sv_eq (sv_double (exact lg)) ord (Local [(0, 0)]) (Local [(1, 5)]) \<and>
   \<not> sv_eq (sv_double (exact lg)) ord (Local [(1, 5)]) (Local [(0, 0)])"
  by (simp add: sv_eq_def sv_size_def sv_entries_def sv_value_def)

end
