(* ===== verification/Outside.thy ===== *)
theory Outside
  imports Inside SparseVectors
begin

text \<open>
  The outside algorithm and what is computed with both scores (\<open>decoder/inside_outside.h\<close> and, in
  \<open>decoder/hg.cc\<close>, the posteriors of the edges and the pushing of weights).
\<close>

definition outside_contribution :: "'w weights \<Rightarrow> 'w list \<Rightarrow> int list \<Rightarrow> int \<Rightarrow> 'w option" where
  "outside_contribution W inside_score tails update_tail = for_each tails (\<lambda>other_tail c.
     if update_tail \<noteq> other_tail then map_option (w_mul W c) (vat inside_score other_tail) else Some c) (w_one W)"

definition outside_edge :: "'w weights \<Rightarrow> (('f, 'p) edge \<Rightarrow> 'w option) \<Rightarrow> 'w list \<Rightarrow> int \<Rightarrow> ('f, 'p) edge \<Rightarrow> 'w list \<Rightarrow> 'w list option" where
  "outside_edge W weight inside_score i e outside_score = do {
     w \<leftarrow> weight e;
     head_node_outside_score \<leftarrow> vat outside_score i;
     let head_and_edge_weight = w_mul W w head_node_outside_score;
     for_each (ed_tails e) (\<lambda>update_tail outside_score. do {
       c \<leftarrow> outside_contribution W inside_score (ed_tails e) update_tail;
       cur \<leftarrow> vat outside_score update_tail;
       vset outside_score update_tail (w_add W cur (w_mul W c head_and_edge_weight)) }) outside_score }"

definition outside_node :: "'w weights \<Rightarrow> (('f, 'p) edge \<Rightarrow> 'w option) \<Rightarrow> ('f, 'p) hypergraph \<Rightarrow> 'w list \<Rightarrow> int \<Rightarrow> 'w list \<Rightarrow> 'w list option" where
  "outside_node W weight hg inside_score i outside_score = do {
     n \<leftarrow> vat (hg_nodes hg) i;
     for_each (nd_in n) (\<lambda>eid out. do { e \<leftarrow> vat (hg_edges hg) eid; outside_edge W weight inside_score i e out }) outside_score }"

definition Outside :: "'w weights \<Rightarrow> (('f, 'p) edge \<Rightarrow> 'w option) \<Rightarrow> 'w \<Rightarrow> ('f, 'p) hypergraph \<Rightarrow> 'w list \<Rightarrow> 'w list option" where
  "Outside W weight scale_outside hg inside_score = do {
     let num_nodes = vsize (hg_nodes hg);
     check (vsize inside_score = num_nodes);
     out \<leftarrow> vset (replicate (nat num_nodes) (w_zero W)) (num_nodes - 1) scale_outside;
     for_each (rev (int_range 0 num_nodes)) (outside_node W weight hg inside_score) out }"

section \<open>Inside and outside together\<close>

definition OutsideNormalize :: "'w weights \<Rightarrow> ('w \<Rightarrow> 'w \<Rightarrow> 'w) \<Rightarrow> bool \<Rightarrow> 'w \<Rightarrow> 'w" where
  "OutsideNormalize W quot enable k = (if enable then quot (w_one W) k else w_one W)"

definition Outside1 :: "'w weights \<Rightarrow> 'w \<Rightarrow> 'w" where
  "Outside1 W k = w_one W"

definition io_compute :: "'w weights \<Rightarrow> (('f, 'p) edge \<Rightarrow> 'w option) \<Rightarrow> ('w \<Rightarrow> 'w) \<Rightarrow> ('f, 'p) hypergraph \<Rightarrow> ('w \<times> 'w list \<times> 'w list) option" where
  "io_compute W kwf outside1 hg = do {
     (_, inside) \<leftarrow> Inside W kwf hg;
     root \<leftarrow> vback inside;
     outside \<leftarrow> Outside W kwf (outside1 root) hg inside;
     Some (root, inside, outside) }"

definition kbar :: "'w weights \<Rightarrow> 'w list \<Rightarrow> 'w list \<Rightarrow> int \<Rightarrow> ('f, 'p) edge \<Rightarrow> 'w option" where
  "kbar W inside outside i e = do {
     o_score \<leftarrow> vat outside i;
     for_each (ed_tails e) (\<lambda>t k. map_option (w_mul W k) (vat inside t)) o_score }"

definition in_edges_loop :: "('f, 'p) hypergraph \<Rightarrow> (int \<Rightarrow> int \<Rightarrow> ('f, 'p) edge \<Rightarrow> 's \<Rightarrow> 's option) \<Rightarrow> 's \<Rightarrow> 's option" where
  "in_edges_loop hg body s = for_each (positions (hg_nodes hg)) (\<lambda>i s. do {
     n \<leftarrow> vat (hg_nodes hg) i;
     for_each (nd_in n) (\<lambda>edgei s. do { e \<leftarrow> vat (hg_edges hg) edgei; body i edgei e s }) s }) s"

definition expect :: "'w weights \<Rightarrow> 'x \<Rightarrow> ('x \<Rightarrow> 'x \<Rightarrow> 'x) \<Rightarrow> ('x \<Rightarrow> 'w \<Rightarrow> 'x) \<Rightarrow> (('f, 'p) edge \<Rightarrow> 'x) \<Rightarrow> ('f, 'p) hypergraph \<Rightarrow>
    'w list \<Rightarrow> 'w list \<Rightarrow> 'x option" where
  "expect W xzero xplus xtimes xwf hg inside outside = in_edges_loop hg (\<lambda>i edgei e x. do {
     k \<leftarrow> kbar W inside outside i e;
     Some (xplus x (xtimes (xwf e) k)) }) xzero"

definition InsideOutside :: "'w weights \<Rightarrow> 'x \<Rightarrow> ('x \<Rightarrow> 'x \<Rightarrow> 'x) \<Rightarrow> ('x \<Rightarrow> 'w \<Rightarrow> 'x) \<Rightarrow> (('f, 'p) edge \<Rightarrow> 'w option) \<Rightarrow> (('f, 'p) edge \<Rightarrow> 'x) \<Rightarrow>
    ('f, 'p) hypergraph \<Rightarrow> ('w \<times> 'x) option" where
  "InsideOutside W xzero xplus xtimes kwf xwf hg = do {
     (root, inside, outside) \<leftarrow> io_compute W kwf (Outside1 W) hg;
     x \<leftarrow> expect W xzero xplus xtimes xwf hg inside outside;
     Some (root, x) }"

definition compute_edge_marginals :: "'w weights \<Rightarrow> (('f, 'p) edge \<Rightarrow> 'w) \<Rightarrow> ('f, 'p) hypergraph \<Rightarrow> 'w list \<Rightarrow> 'w list \<Rightarrow> 'w list option" where
  "compute_edge_marginals W weight hg inside outside = in_edges_loop hg (\<lambda>i edgei e vs. do {
     o_score \<leftarrow> vat outside i;
     x \<leftarrow> for_each (ed_tails e) (\<lambda>t x. map_option (w_mul W x) (vat inside t)) (w_mul W (weight e) o_score);
     vset vs edgei x }) (replicate (length (hg_edges hg)) (w_zero W))"

section \<open>Posteriors of edges, pushing\<close>

definition prob_sv_ops :: "('d, 'z) log_floats_scheme \<Rightarrow> 'd logval sv_ops" where
  "prob_sv_ops fl = \<lparr>so_zero = lv_Zero fl, so_add = plus_eq fl, so_sub = minus_eq fl, so_mul = times_eq fl, so_div = div_eq fl,
     so_eq = lv_eq fl, so_true = \<lambda>x. \<not> is_0 fl x\<rparr>"

definition ScaledTransitionEventWeightFunction :: "('d, 'z) log_floats_scheme \<Rightarrow> 'd \<Rightarrow> ('f, 'd logval) edge \<Rightarrow> 'd logval svec" where
  "ScaledTransitionEventWeightFunction fl scale e = set_value 7 (lv_Zero fl) (ed_id e) (lv_pow fl (ed_prob e) scale) empty_svec"

definition ComputeEdgePosteriors :: "('d, 'z) log_floats_scheme \<Rightarrow> 'd logval hash_order \<Rightarrow> 'd \<Rightarrow> ('f, 'd logval) hypergraph \<Rightarrow>
    ('d logval \<times> 'd logval list) option" where
  "ComputeEdgePosteriors fl ord scale hg = do {
     (inside, pv) \<leftarrow> InsideOutside (prob_weights fl) empty_svec (sv_plus_eq 7 (prob_sv_ops fl) ord) (sv_times_eq (prob_sv_ops fl))
       (ScaledEdgeProb fl scale) (ScaledTransitionEventWeightFunction fl scale) hg;
     Some (inside, map (\<lambda>i. sv_value (lv_Zero fl) pv i) (positions (hg_edges hg))) }"

text \<open>The loops of the two pushing functions: normalise the posteriors of a list of edges.\<close>

definition push_weights :: "('d, 'z) log_floats_scheme \<Rightarrow> 'd logval list \<Rightarrow> int list \<Rightarrow> ('f, 'd logval) edge list \<Rightarrow> ('f, 'd logval) edge list option" where
  "push_weights fl posts eids edges = do {
     z \<leftarrow> for_each eids (\<lambda>j z. map_option (plus_eq fl z) (vat posts j)) (lv_Zero fl);
     for_each eids (\<lambda>j edges. do {
       p \<leftarrow> vat posts j; e \<leftarrow> vat edges j; vset edges j (e\<lparr>ed_prob := div_eq fl p z\<rparr>) }) edges }"

definition PushWeightsToSource :: "('d, 'z) log_floats_scheme \<Rightarrow> 'd logval hash_order \<Rightarrow> 'd \<Rightarrow> ('f, 'd logval) hypergraph \<Rightarrow> ('f, 'd logval) hypergraph option" where
  "PushWeightsToSource fl ord scale hg = do {
     (_, posts) \<leftarrow> ComputeEdgePosteriors fl ord scale hg;
     edges \<leftarrow> for_each (hg_nodes hg) (\<lambda>node. push_weights fl posts (nd_out node)) (hg_edges hg);
     Some (hg\<lparr>hg_edges := edges\<rparr>) }"

definition PushWeightsToGoal :: "('d, 'z) log_floats_scheme \<Rightarrow> 'd logval hash_order \<Rightarrow> 'd \<Rightarrow> ('f, 'd logval) hypergraph \<Rightarrow>
    ('d logval \<times> ('f, 'd logval) hypergraph) option" where
  "PushWeightsToGoal fl ord scale hg = do {
     (inside_z, posts) \<leftarrow> ComputeEdgePosteriors fl ord scale hg;
     edges \<leftarrow> for_each (hg_nodes hg) (\<lambda>node. push_weights fl posts (nd_in node)) (hg_edges hg);
     Some (inside_z, hg\<lparr>hg_edges := edges\<rparr>) }"

definition ViterbiTransitionEventWeightFunction :: "('d, 'z) log_floats_scheme \<Rightarrow> ('f, 'd logval) edge \<Rightarrow> 'd logval svec" where
  "ViterbiTransitionEventWeightFunction fl e = set_value 7 (lv_Zero fl) (ed_id e) (ed_prob e) empty_svec"

definition tropical_sv_ops :: "('d, 'z) log_floats_scheme \<Rightarrow> 'd logval sv_ops" where
  "tropical_sv_ops fl = (prob_sv_ops fl)\<lparr>so_add := w_add (TropicalValue fl)\<rparr>"

definition ComputeBestPathThroughEdges :: "('d, 'z) log_floats_scheme \<Rightarrow> 'd logval hash_order \<Rightarrow> ('f, 'd logval) hypergraph \<Rightarrow>
    ('d logval \<times> 'd logval list) option" where
  "ComputeBestPathThroughEdges fl ord hg = do {
     (viterbi_weight, pv) \<leftarrow> InsideOutside (TropicalValue fl) empty_svec (sv_plus_eq 7 (tropical_sv_ops fl) ord) (sv_times_eq (tropical_sv_ops fl))
       EdgeProb (ViterbiTransitionEventWeightFunction fl) hg;
     Some (viterbi_weight, map (\<lambda>i. sv_value (lv_Zero fl) pv i) (positions (hg_edges hg))) }"

text \<open>
  \<open>visit_edges\<close> calls the pusher on every edge. The pusher of \<open>PushViterbiWeightsToGoal\<close> is
  itself the vector of scores it reads, and is left empty: the scores go into another vector.
\<close>

definition vpusher :: "('d, 'z) log_floats_scheme \<Rightarrow> ('f \<Rightarrow> 'd \<Rightarrow> 'f) \<Rightarrow> 'd logval list \<Rightarrow> int \<Rightarrow> ('f, 'd logval) edge \<Rightarrow> ('f, 'd logval) edge option" where
  "vpusher fl set_feature vi n e = do {
     p \<leftarrow> for_each (ed_tails e) (\<lambda>t p. map_option (times_eq fl p) (vat vi t)) (ed_prob e);
     v \<leftarrow> vat vi n;
     let q = div_eq fl p v;
     Some (e\<lparr>ed_prob := q, ed_features := set_feature (ed_features e) (lv_log fl q)\<rparr>) }"

definition PushViterbiWeightsToGoal :: "('d, 'z) log_floats_scheme \<Rightarrow> ('f \<Rightarrow> 'd \<Rightarrow> 'f) \<Rightarrow> ('f, 'd logval) hypergraph \<Rightarrow>
    ('d logval \<times> ('f, 'd logval) hypergraph) option" where
  "PushViterbiWeightsToGoal fl set_feature hg = do {
     let vi = [];
     (r, np) \<leftarrow> ComputeNodeViterbi fl hg;
     edges \<leftarrow> for_each (positions (hg_edges hg)) (\<lambda>i edges. do {
       e \<leftarrow> vat edges i;
       e' \<leftarrow> vpusher fl set_feature vi (ed_head e) e;
       vset edges i e' }) (hg_edges hg);
     Some (r, hg\<lparr>hg_edges := edges\<rparr>) }"

section \<open>Expected counts: the linear equations\<close>

text \<open>How often a derivation uses an edge.\<close>

fun edge_count :: "int \<Rightarrow> deriv \<Rightarrow> nat" where
  "edge_count f (Deriv e ds) = (if e = f then 1 else 0) + sum_list (map (edge_count f) ds)"

definition d_sum :: "(deriv \<Rightarrow> real) \<Rightarrow> deriv list \<Rightarrow> real" where
  "d_sum g ds = (\<Sum>d\<leftarrow>ds. g d)"

lemma d_sum_simps [simp]: "d_sum g [] = 0" "d_sum g (d # ds) = g d + d_sum g ds" "d_sum g (ds @ es) = d_sum g ds + d_sum g es"
  by (simp_all add: d_sum_def)

definition tuple_prob :: "(int \<Rightarrow> real) \<Rightarrow> deriv list list \<Rightarrow> real" where
  "tuple_prob p dss = (\<Sum>ds\<leftarrow>product_lists dss. prod_list (map (deriv_prob p) ds))"

definition tuple_count :: "(int \<Rightarrow> real) \<Rightarrow> int \<Rightarrow> deriv list list \<Rightarrow> real" where
  "tuple_count p f dss = (\<Sum>ds\<leftarrow>product_lists dss. prod_list (map (deriv_prob p) ds) * real (sum_list (map (edge_count f) ds)))"

lemma sum_list_concat_map: "sum_list (concat (map f xs)) = (\<Sum>x\<leftarrow>xs. sum_list (f x) :: real)"
  by (induction xs) auto

lemma sum_list_product: "(\<Sum>ds\<leftarrow>product_lists (xs # dss). h ds :: real) = (\<Sum>x\<leftarrow>xs. \<Sum>ds\<leftarrow>product_lists dss. h (x # ds))"
  by (simp add: map_concat comp_def sum_list_concat_map)

lemma tuple_prob_Cons: "tuple_prob p (xs # dss) = d_sum (deriv_prob p) xs * tuple_prob p dss"
  unfolding tuple_prob_def sum_list_product d_sum_def
  by (simp add: sum_list_const_mult sum_list_mult_const)

lemma tuple_prob_prod: "tuple_prob p (map D ts) = prod_list (map (\<lambda>t. d_sum (deriv_prob p) (D t)) ts)"
  by (induction ts) (auto simp: tuple_prob_Cons, simp add: tuple_prob_def)

lemma tuple_count_Cons: "tuple_count p f (xs # dss) =
    d_sum (\<lambda>d. deriv_prob p d * real (edge_count f d)) xs * tuple_prob p dss + d_sum (deriv_prob p) xs * tuple_count p f dss"
proof -
  have "tuple_count p f (xs # dss) = (\<Sum>x\<leftarrow>xs. \<Sum>ds\<leftarrow>product_lists dss.
      (deriv_prob p x * real (edge_count f x)) * prod_list (map (deriv_prob p) ds) +
      deriv_prob p x * (prod_list (map (deriv_prob p) ds) * real (sum_list (map (edge_count f) ds))))"
    unfolding tuple_count_def sum_list_product by (simp add: algebra_simps)
  also have "\<dots> = (\<Sum>x\<leftarrow>xs. deriv_prob p x * real (edge_count f x) * tuple_prob p dss + deriv_prob p x * tuple_count p f dss)"
    by (simp add: sum_list_addf sum_list_const_mult tuple_prob_def tuple_count_def)
  also have "\<dots> = (\<Sum>x\<leftarrow>xs. deriv_prob p x * real (edge_count f x)) * tuple_prob p dss + (\<Sum>x\<leftarrow>xs. deriv_prob p x) * tuple_count p f dss"
    by (simp add: sum_list_addf sum_list_mult_const)
  finally show ?thesis by (simp add: d_sum_def)
qed

text \<open>With different tails, leaving out a position is leaving out a node.\<close>

lemma tuple_count_others:
  "distinct ts \<Longrightarrow> tuple_count p f (map D ts) =
    (\<Sum>t\<leftarrow>ts. d_sum (\<lambda>d. deriv_prob p d * real (edge_count f d)) (D t) *
      prod_list (map (\<lambda>t. d_sum (deriv_prob p) (D t)) (filter (\<lambda>l. l \<noteq> t) ts)))"
proof (induction ts)
  case (Cons t ts)
  let ?S = "\<lambda>t. d_sum (\<lambda>d. deriv_prob p d * real (edge_count f d)) (D t)"
  let ?I = "\<lambda>t. d_sum (deriv_prob p) (D t)"
  have t: "filter (\<lambda>l. l \<noteq> t) ts = ts"
    using Cons.prems by (auto simp: filter_id_conv)
  let ?F = "\<lambda>u. ?S u * prod_list (map ?I (filter (\<lambda>l. l \<noteq> u) (t # ts)))"
  have eq: "map ?F ts =
      map (\<lambda>u. ?I t * (?S u * prod_list (map ?I (filter (\<lambda>l. l \<noteq> u) ts)))) ts"
    by (rule map_cong [OF refl]) (use Cons.prems in auto)
  have "(\<Sum>u\<leftarrow>t # ts. ?F u) = ?F t + sum_list (map ?F ts)" by simp
  also have "\<dots> = ?S t * prod_list (map ?I ts) + ?I t * (\<Sum>u\<leftarrow>ts. ?S u * prod_list (map ?I (filter (\<lambda>l. l \<noteq> u) ts)))"
    unfolding eq by (simp add: sum_list_const_mult t)
  finally have "(\<Sum>u\<leftarrow>t # ts. ?F u) =
      ?S t * prod_list (map ?I ts) + ?I t * (\<Sum>u\<leftarrow>ts. ?S u * prod_list (map ?I (filter (\<lambda>l. l \<noteq> u) ts)))" .
  then show ?case
    using Cons by (simp only: tuple_count_Cons tuple_prob_prod list.map distinct.simps)
qed (simp add: tuple_count_def)

definition i_val :: "(int \<Rightarrow> real) \<Rightarrow> ('f, 'w) hypergraph \<Rightarrow> nat \<Rightarrow> real" where
  "i_val p hg n = d_sum (deriv_prob p) (derivs hg n)"

definition s_val :: "(int \<Rightarrow> real) \<Rightarrow> ('f, 'w) hypergraph \<Rightarrow> int \<Rightarrow> nat \<Rightarrow> real" where
  "s_val p hg f n = d_sum (\<lambda>d. deriv_prob p d * real (edge_count f d)) (derivs hg n)"

definition others :: "(nat \<Rightarrow> real) \<Rightarrow> int list \<Rightarrow> int \<Rightarrow> real" where
  "others I ts t = prod_list (map (\<lambda>l. I (nat l)) (filter (\<lambda>l. l \<noteq> t) ts))"

definition tails_of :: "('f, 'w) hypergraph \<Rightarrow> int \<Rightarrow> int list" where
  "tails_of hg e = ed_tails (hg_edges hg ! nat e)"

text \<open>What one unit of outside score of \<open>g\<close> gives to \<open>n\<close>.\<close>

definition a_val :: "(int \<Rightarrow> real) \<Rightarrow> ('f, 'w) hypergraph \<Rightarrow> nat \<Rightarrow> nat \<Rightarrow> real" where
  "a_val p hg g n = (\<Sum>e\<leftarrow>nd_in (hg_nodes hg ! g). \<Sum>t\<leftarrow>tails_of hg e.
     if nat t = n then p e * others (i_val p hg) (tails_of hg e) t else 0)"

definition simple_tails :: "('f, 'w) hypergraph \<Rightarrow> bool" where
  "simple_tails hg \<longleftrightarrow> list_all (\<lambda>e. distinct (ed_tails e)) (hg_edges hg)"

lemma simple_tailsD: "simple_tails hg \<Longrightarrow> 0 \<le> e \<Longrightarrow> e < vsize (hg_edges hg) \<Longrightarrow> distinct (tails_of hg e)"
  by (auto simp: simple_tails_def list_all_length tails_of_def vsize_def nat_less_iff)

lemma derivs_topological:
  assumes "topological hg" "g < length (hg_nodes hg)"
  shows "derivs hg g = concat (map (\<lambda>e. map (Deriv e) (product_lists (map (\<lambda>t. derivs hg (nat t)) (tails_of hg e)))) (nd_in (hg_nodes hg ! g)))"
proof -
  have "map (\<lambda>t. if nat t < g then derivs hg (nat t) else []) (ed_tails (hg_edges hg ! nat e)) = map (\<lambda>t. derivs hg (nat t)) (tails_of hg e)"
    if "e \<in> set (nd_in (hg_nodes hg ! g))" for e
    using topologicalD(2) [OF assms that] by (auto simp: tails_of_def nat_less_iff)
  then show ?thesis
    by (subst derivs.simps) (auto intro!: arg_cong [where f = concat] map_cong)
qed

lemma d_sum_concat: "d_sum g (concat (map F es)) = (\<Sum>e\<leftarrow>es. d_sum g (F e))"
  by (induction es) auto

lemma s_val_rec:
  assumes top: "topological hg" and g: "g < length (hg_nodes hg)" and simp_t: "simple_tails hg"
  shows "s_val p hg f g = (\<Sum>e\<leftarrow>nd_in (hg_nodes hg ! g).
     (if e = f then p e * prod_list (map (\<lambda>t. i_val p hg (nat t)) (tails_of hg e)) else 0) +
     (\<Sum>t\<leftarrow>tails_of hg e. p e * others (i_val p hg) (tails_of hg e) t * s_val p hg f (nat t)))"
proof -
  have "d_sum (\<lambda>d. deriv_prob p d * real (edge_count f d)) (map (Deriv e) (product_lists (map (\<lambda>t. derivs hg (nat t)) (tails_of hg e)))) =
     (if e = f then p e * prod_list (map (\<lambda>t. i_val p hg (nat t)) (tails_of hg e)) else 0) +
     (\<Sum>t\<leftarrow>tails_of hg e. p e * others (i_val p hg) (tails_of hg e) t * s_val p hg f (nat t))"
    if e: "e \<in> set (nd_in (hg_nodes hg ! g))" for e
  proof -
    let ?D = "\<lambda>t. derivs hg (nat t)"
    have dist: "distinct (tails_of hg e)"
      using simple_tailsD [OF simp_t] topologicalD(1) [OF top g e] by blast
    have "d_sum (\<lambda>d. deriv_prob p d * real (edge_count f d)) (map (Deriv e) (product_lists (map ?D (tails_of hg e)))) =
        (\<Sum>ds\<leftarrow>product_lists (map ?D (tails_of hg e)). p e * ((if e = f then 1 else 0) * prod_list (map (deriv_prob p) ds) +
          prod_list (map (deriv_prob p) ds) * real (sum_list (map (edge_count f) ds))))"
      by (simp add: d_sum_def comp_def algebra_simps)
    also have "\<dots> = p e * ((if e = f then 1 else 0) * tuple_prob p (map ?D (tails_of hg e)) + tuple_count p f (map ?D (tails_of hg e)))"
      by (simp only: sum_list_const_mult sum_list_addf tuple_prob_def tuple_count_def)
    also have "tuple_count p f (map ?D (tails_of hg e)) = (\<Sum>t\<leftarrow>tails_of hg e. s_val p hg f (nat t) * others (i_val p hg) (tails_of hg e) t)"
      using tuple_count_others [OF dist, of p f ?D] by (simp add: s_val_def others_def i_val_def)
    finally show ?thesis
      by (simp add: tuple_prob_prod i_val_def distrib_left sum_list_const_mult [symmetric] algebra_simps)
  qed
  then show ?thesis
    unfolding s_val_def [of p hg f g] derivs_topological [OF top g] d_sum_concat
    by (intro arg_cong [where f = sum_list] map_cong refl)
qed

text \<open>
  The outside scores solve \<open>O = scale * goal + O A\<close> and the counts \<open>S = b + A S\<close>; multiplying the two gives
  \<open>O b = scale * S goal\<close>.
\<close>

lemma sum_if_list: "(\<Sum>n<N. (\<Sum>t\<leftarrow>ts. if nat t = n then c t else 0) * S n) = (\<Sum>t\<leftarrow>ts. if nat t < N then c t * S (nat t) else (0 :: real))"
proof (induction ts)
  case (Cons t ts)
  have "(\<Sum>n<N. (if nat t = n then c t else 0) * S n) = (if nat t < N then c t * S (nat t) else 0)"
    by (simp add: if_distrib [of "\<lambda>x. x * _"] sum.delta cong: if_cong)
  with Cons show ?case
    by (simp only: list.map sum_list.Cons distrib_right sum.distrib)
qed simp

lemma a_val_s_val:
  assumes top: "topological hg" and g: "g < length (hg_nodes hg)"
  shows "(\<Sum>n<length (hg_nodes hg). a_val p hg g n * S n) =
    (\<Sum>e\<leftarrow>nd_in (hg_nodes hg ! g). \<Sum>t\<leftarrow>tails_of hg e. p e * others (i_val p hg) (tails_of hg e) t * S (nat t))"
proof -
  let ?N = "length (hg_nodes hg)"
  let ?c = "\<lambda>e t. p e * others (i_val p hg) (tails_of hg e) t"
  have "(\<Sum>n<?N. (\<Sum>e\<leftarrow>es. \<Sum>t\<leftarrow>tails_of hg e. if nat t = n then ?c e t else 0) * S n) =
      (\<Sum>e\<leftarrow>es. \<Sum>t\<leftarrow>tails_of hg e. ?c e t * S (nat t))" if "set es \<subseteq> set (nd_in (hg_nodes hg ! g))" for es
    using that
  proof (induction es)
    case (Cons e es)
    have "(\<Sum>t\<leftarrow>tails_of hg e. if nat t < ?N then ?c e t * S (nat t) else 0) = (\<Sum>t\<leftarrow>tails_of hg e. ?c e t * S (nat t))"
      by (intro arg_cong [where f = sum_list] map_cong refl)
        (use topologicalD(2) [OF top g, of e] Cons.prems g in \<open>force simp: tails_of_def\<close>)
    with Cons show ?case
      by (simp add: distrib_right sum.distrib sum_if_list)
  qed simp
  then show ?thesis by (simp add: a_val_def)
qed

lemma sum_list_if_one: "distinct xs \<Longrightarrow> (\<Sum>x\<leftarrow>xs. if x = a then c x else 0) = (if a \<in> set xs then c a else (0 :: real))"
  by (induction xs) auto

lemma expected_counts:
  assumes top: "topological hg" and c: "consistent_hg {} hg" and simp_t: "simple_tails hg"
    and f: "0 \<le> f" "f < vsize (hg_edges hg)"
    and ne: "hg_nodes hg \<noteq> []"
    and O_rec: "\<And>n. n < length (hg_nodes hg) \<Longrightarrow>
      Oc n = (if n = length (hg_nodes hg) - 1 then scale else 0) + (\<Sum>g<length (hg_nodes hg). Oc g * a_val p hg g n)"
  shows "Oc (nat (ed_head (hg_edges hg ! nat f))) * (p f * prod_list (map (\<lambda>t. i_val p hg (nat t)) (tails_of hg f))) =
    scale * s_val p hg f (length (hg_nodes hg) - 1)"
proof -
  let ?N = "length (hg_nodes hg)"
  let ?S = "s_val p hg f"
  let ?b = "\<lambda>g. \<Sum>e\<leftarrow>nd_in (hg_nodes hg ! g). if e = f then p e * prod_list (map (\<lambda>t. i_val p hg (nat t)) (tails_of hg e)) else 0"
  let ?pf = "p f * prod_list (map (\<lambda>t. i_val p hg (nat t)) (tails_of hg f))"
  let ?h = "nat (ed_head (hg_edges hg ! nat f))"
  have b: "?b g = (if g = ?h then ?pf else 0)" if "g < ?N" for g
  proof -
    have "f \<in> set (nd_in (hg_nodes hg ! g)) \<longleftrightarrow> g = ?h"
      using consistentD(6) [OF c that, of f] f consistentD(4) [OF c, of "nat f"] by (auto simp: vsize_def nat_less_iff)
    then show ?thesis
      using consistentD(5) [OF c that] by (simp add: sum_list_if_one)
  qed
  have h: "?h < ?N"
    using consistentD(4) [OF c, of "nat f"] f by (auto simp: vsize_def nat_less_iff)
  have S: "?S g = ?b g + (\<Sum>n<?N. a_val p hg g n * ?S n)" if "g < ?N" for g
    unfolding a_val_s_val [OF top that] by (subst s_val_rec [OF top that simp_t]) (simp add: sum_list_addf)
  have "(\<Sum>g<?N. Oc g * ?S g) = (\<Sum>g<?N. Oc g * ?b g) + (\<Sum>g<?N. Oc g * (\<Sum>n<?N. a_val p hg g n * ?S n))"
    unfolding sum.distrib [symmetric] by (rule sum.cong [OF refl]) (use S in \<open>simp add: distrib_left [symmetric]\<close>)
  moreover have "(\<Sum>g<?N. Oc g * (\<Sum>n<?N. a_val p hg g n * ?S n)) = (\<Sum>n<?N. (\<Sum>g<?N. Oc g * a_val p hg g n) * ?S n)"
    by (simp add: sum_distrib_left sum_distrib_right mult.assoc) (rule sum.swap)
  moreover have "(\<Sum>n<?N. Oc n * ?S n) = scale * ?S (?N - 1) + (\<Sum>n<?N. (\<Sum>g<?N. Oc g * a_val p hg g n) * ?S n)"
  proof -
    have "(\<Sum>n<?N. Oc n * ?S n) = (\<Sum>n<?N. (if n = ?N - 1 then scale * ?S n else 0) + (\<Sum>g<?N. Oc g * a_val p hg g n) * ?S n)"
      by (rule sum.cong [OF refl]) (use O_rec in \<open>auto simp: distrib_right\<close>)
    then show ?thesis
      using ne by (simp add: sum.distrib sum.delta)
  qed
  ultimately have "(\<Sum>g<?N. Oc g * ?b g) = scale * ?S (?N - 1)" by linarith
  moreover have "(\<Sum>g<?N. Oc g * ?b g) = (\<Sum>g<?N. if g = ?h then Oc g * ?pf else 0)"
    by (rule sum.cong [OF refl]) (use b in auto)
  ultimately show ?thesis
    using h by (simp add: sum.delta)
qed

section \<open>The outside scores solve the equations\<close>

lemma for_down_total:
  assumes "I (int n) s" and step: "\<And>i s. i < n \<Longrightarrow> I (int i + 1) s \<Longrightarrow> \<exists>s'. f (int i) s = Some s' \<and> I (int i) s'"
  shows "\<exists>t. for_each (rev (int_range 0 (int n))) f s = Some t \<and> I 0 t"
  using assms
proof (induction n arbitrary: s)
  case (Suc n)
  obtain s' where s': "f (int n) s = Some s'" "I (int n) s'"
    using Suc.prems(2) [of n s] Suc.prems(1) by (auto simp: add.commute)
  have "int_range 0 (int (Suc n)) = int_range 0 (int n) @ [int n]"
    using int_range_snoc [of 0 "int n"] by (simp add: add.commute)
  then show ?case
    using Suc.IH [OF s'(2)] Suc.prems(2) s'(1) by simp
qed simp

abbreviation PW :: "xreal logval weights" where
  "PW \<equiv> prob_weights exact_reals"

lemma PW_simps [simp]: "w_mul PW = times_eq exact_reals" "w_add PW = plus_eq exact_reals" "w_one PW = lv_One exact_reals" "w_zero PW = lv_Zero exact_reals"
  by (simp_all add: prob_weights_def)

definition probs :: "nat \<Rightarrow> xreal logval list \<Rightarrow> bool" where
  "probs N xs \<longleftrightarrow> length xs = N \<and> (\<forall>x \<in> set xs. lv_prob x)"

lemma probsD: "probs N xs \<Longrightarrow> n < N \<Longrightarrow> lv_prob (xs ! n)" "probs N xs \<Longrightarrow> length xs = N"
  by (auto simp: probs_def)

lemma probs_update: "probs N xs \<Longrightarrow> lv_prob x \<Longrightarrow> probs N (xs[i := x])"
  by (auto simp: probs_def dest: set_update_subset_insert [THEN subsetD])

definition nodes_in :: "nat \<Rightarrow> int list \<Rightarrow> bool" where
  "nodes_in N ts \<longleftrightarrow> (\<forall>t \<in> set ts. 0 \<le> t \<and> nat t < N)"

lemma contribution_value:
  assumes ins: "probs N inside" and ts: "nodes_in N ts"
  shows "\<exists>c. outside_contribution PW inside ts u = Some c \<and> lv_prob c \<and> lv_value c = others (\<lambda>n. lv_value (inside ! n)) ts u"
proof -
  have "\<exists>c. for_each ts (\<lambda>l c. if u \<noteq> l then map_option (times_eq exact_reals c) (vat inside l) else Some c) b = Some c \<and>
      lv_prob c \<and> lv_value c = lv_value b * others (\<lambda>n. lv_value (inside ! n)) ts u" if "lv_prob b" for b
    using that ts
  proof (induction ts arbitrary: b)
    case (Cons t ts)
    have t: "0 \<le> t" "nat t < N" and rest: "nodes_in N ts" using Cons.prems by (auto simp: nodes_in_def)
    have p: "lv_prob (inside ! nat t)" and v: "vat inside t = Some (inside ! nat t)"
      using t ins by (auto simp: probsD vat_eq nat_less_iff)
    show ?case
    proof (cases "u = t")
      case True
      then show ?thesis using Cons.IH [OF Cons.prems(1) rest] by (simp add: others_def)
    next
      case False
      then show ?thesis
        using Cons.IH [of "times_eq exact_reals b (inside ! nat t)"] Cons.prems(1) p rest v by (simp add: others_def lv_prob_simps mult.assoc)
    qed
  qed (simp add: others_def)
  from this [of "lv_One exact_reals"] show ?thesis
    unfolding outside_contribution_def PW_simps by (simp add: lv_prob_simps)
qed

lemma outside_edge_value:
  assumes ins: "probs N inside" and out: "probs N out" and ts: "nodes_in N (ed_tails e)"
    and w: "weight e = Some a" "lv_prob a" and i: "i < N"
  shows "\<exists>out'. outside_edge PW weight inside (int i) e out = Some out' \<and> probs N out' \<and>
    (\<forall>n < N. lv_value (out' ! n) = lv_value (out ! n) + (\<Sum>t\<leftarrow>ed_tails e.
      if nat t = n then lv_value a * others (\<lambda>n. lv_value (inside ! n)) (ed_tails e) t * lv_value (out ! i) else 0))"
proof -
  let ?hw = "times_eq exact_reals a (out ! i)"
  let ?g = "\<lambda>t. lv_value a * others (\<lambda>n. lv_value (inside ! n)) (ed_tails e) t * lv_value (out ! i)"
  let ?body = "\<lambda>u out. do {
       c \<leftarrow> outside_contribution PW inside (ed_tails e) u;
       cur \<leftarrow> vat out u;
       vset out u (plus_eq exact_reals cur (times_eq exact_reals c ?hw)) }"
  have hw: "lv_prob ?hw" "lv_value ?hw = lv_value a * lv_value (out ! i)"
    using w(2) probsD(1) [OF out i] by (auto simp: lv_prob_simps)
  have "\<exists>out'. for_each us ?body o1 = Some out' \<and> probs N out' \<and>
      (\<forall>n < N. lv_value (out' ! n) = lv_value (o1 ! n) + (\<Sum>t\<leftarrow>us. if nat t = n then ?g t else 0))"
    if "probs N o1" "set us \<subseteq> set (ed_tails e)" for us o1
    using that
  proof (induction us arbitrary: o1)
    case (Cons u us)
    have u: "0 \<le> u" "nat u < N" using Cons.prems ts by (auto simp: nodes_in_def)
    obtain c where c: "outside_contribution PW inside (ed_tails e) u = Some c" "lv_prob c"
      "lv_value c = others (\<lambda>n. lv_value (inside ! n)) (ed_tails e) u"
      using contribution_value [OF ins ts] by blast
    let ?new = "plus_eq exact_reals (o1 ! nat u) (times_eq exact_reals c ?hw)"
    let ?o2 = "o1[nat u := ?new]"
    have p: "lv_prob (o1 ! nat u)" by (rule probsD(1) [OF Cons.prems(1) u(2)])
    have new: "lv_prob ?new" "lv_value ?new = lv_value (o1 ! nat u) + ?g u"
      using p c hw by (auto simp: lv_prob_simps)
    have run: "?body u o1 = Some ?o2"
      using u c(1) probsD(2) [OF Cons.prems(1)] by (simp add: vat_eq vset_eq nat_less_iff)
    obtain out' where out': "for_each us ?body ?o2 = Some out'" "probs N out'"
      "\<And>n. n < N \<Longrightarrow> lv_value (out' ! n) = lv_value (?o2 ! n) + (\<Sum>t\<leftarrow>us. if nat t = n then ?g t else 0)"
      using Cons.IH [of ?o2, OF probs_update [OF Cons.prems(1) new(1)]] Cons.prems(2) by auto
    have "lv_value (?o2 ! n) = lv_value (o1 ! n) + (if nat u = n then ?g u else 0)" if "n < N" for n
      using that u new(2) probsD(2) [OF Cons.prems(1)] by (auto simp: nth_list_update)
    then show ?case
      using run out' by auto
  qed simp
  from this [OF out order_refl] show ?thesis
    using w i probsD(2) [OF out] by (simp add: outside_edge_def vat_nat Let_def)
qed

lemma others_cong: "(\<And>t. t \<in> set ts \<Longrightarrow> I (nat t) = J (nat t)) \<Longrightarrow> others I ts t = others J ts t"
  unfolding others_def by (intro arg_cong [where f = prod_list] map_cong refl) auto

lemma sum_list_zero: "(\<And>x. x \<in> set xs \<Longrightarrow> f x = 0) \<Longrightarrow> (\<Sum>x\<leftarrow>xs. f x) = (0 :: real)"
  by (induction xs) auto

lemma a_val_later:
  assumes "topological hg" "g < length (hg_nodes hg)" "g \<le> n"
  shows "a_val p hg g n = 0"
  unfolding a_val_def
proof (intro sum_list_zero)
  fix e t
  assume "e \<in> set (nd_in (hg_nodes hg ! g))" "t \<in> set (tails_of hg e)"
  then have "nat t \<noteq> n"
    using topologicalD(2) [OF assms(1,2), of e t] assms(3) by (auto simp: tails_of_def)
  then show "(if nat t = n then p e * others (i_val p hg) (tails_of hg e) t else 0) = 0" by simp
qed

text \<open>Processing a node adds its score, times the matrix, to the scores of the nodes below it.\<close>

lemma outside_node_value:
  assumes top: "topological hg" and g: "g < length (hg_nodes hg)"
    and wt: "\<And>e. 0 \<le> e \<Longrightarrow> e < vsize (hg_edges hg) \<Longrightarrow> weight (hg_edges hg ! nat e) = Some (wt e)" "\<And>e. lv_prob (wt e)"
    and ins: "probs (length (hg_nodes hg)) inside"
      "\<And>n. n < length (hg_nodes hg) \<Longrightarrow> lv_value (inside ! n) = i_val (\<lambda>e. lv_value (wt e)) hg n"
    and out: "probs (length (hg_nodes hg)) out"
  shows "\<exists>out'. outside_node PW weight hg inside (int g) out = Some out' \<and> probs (length (hg_nodes hg)) out' \<and>
    (\<forall>n < length (hg_nodes hg). lv_value (out' ! n) = lv_value (out ! n) + lv_value (out ! g) * a_val (\<lambda>e. lv_value (wt e)) hg g n)"
proof -
  let ?N = "length (hg_nodes hg)"
  let ?p = "\<lambda>e. lv_value (wt e)"
  let ?I = "i_val ?p hg"
  let ?row = "\<lambda>e n. \<Sum>t\<leftarrow>tails_of hg e. if nat t = n then ?p e * others ?I (tails_of hg e) t else 0"
  let ?body = "\<lambda>eid out. do { e \<leftarrow> vat (hg_edges hg) eid; outside_edge PW weight inside (int g) e out }"
  have "\<exists>out'. for_each es ?body o1 = Some out' \<and> probs ?N out' \<and> out' ! g = o1 ! g \<and>
      (\<forall>n < ?N. lv_value (out' ! n) = lv_value (o1 ! n) + lv_value (o1 ! g) * (\<Sum>e\<leftarrow>es. ?row e n))"
    if "probs ?N o1" "set es \<subseteq> set (nd_in (hg_nodes hg ! g))" for es o1
    using that
  proof (induction es arbitrary: o1)
    case (Cons e es)
    have e: "0 \<le> e" "e < vsize (hg_edges hg)" and tl: "\<And>t. t \<in> set (tails_of hg e) \<Longrightarrow> 0 \<le> t \<and> t < int g"
      using topologicalD [OF top g, of e] Cons.prems(2) by (auto simp: tails_of_def)
    have nodes: "nodes_in ?N (ed_tails (hg_edges hg ! nat e))"
      using tl g by (force simp: nodes_in_def tails_of_def)
    obtain o2 where o2: "outside_edge PW weight inside (int g) (hg_edges hg ! nat e) o1 = Some o2" "probs ?N o2"
      "\<And>n. n < ?N \<Longrightarrow> lv_value (o2 ! n) = lv_value (o1 ! n) + (\<Sum>t\<leftarrow>tails_of hg e.
        if nat t = n then ?p e * others (\<lambda>n. lv_value (inside ! n)) (tails_of hg e) t * lv_value (o1 ! g) else 0)"
      using outside_edge_value [where weight = weight and a = "wt e", OF ins(1) Cons.prems(1) nodes wt(1) [OF e] wt(2) g, folded tails_of_def] by auto
    have row: "(\<Sum>t\<leftarrow>tails_of hg e. if nat t = n then ?p e * others (\<lambda>n. lv_value (inside ! n)) (tails_of hg e) t * lv_value (o1 ! g) else 0) =
        lv_value (o1 ! g) * ?row e n" for n
    proof -
      have "others (\<lambda>n. lv_value (inside ! n)) (tails_of hg e) t = others ?I (tails_of hg e) t" for t
        by (rule others_cong, rule ins(2)) (use tl g in \<open>force simp: nat_less_iff\<close>)
      then show ?thesis
        by (simp add: sum_list_const_mult [symmetric] if_distrib cong: if_cong) (intro arg_cong [where f = sum_list] map_cong refl; simp)
    qed
    have "?row e g = 0"
    proof (rule sum_list_zero)
      fix t assume "t \<in> set (tails_of hg e)"
      then have "nat t \<noteq> g" using tl [of t] by auto
      then show "(if nat t = g then ?p e * others ?I (tails_of hg e) t else 0) = 0" by simp
    qed
    then have "lv_value (o2 ! g) = lv_value (o1 ! g)"
      using o2(3) [OF g] row [of g] by simp
    then have same: "o2 ! g = o1 ! g"
      using probsD(1) [OF o2(2) g] probsD(1) [OF Cons.prems(1) g] by (metis lv_prob_inject)
    show ?case
      using Cons.IH [OF o2(2)] Cons.prems(2) o2(1,3) e same
      by (auto simp: row vat_eq vsize_def algebra_simps)
  qed simp
  from this [OF out order_refl] show ?thesis
    using g by (auto simp: outside_node_def vat_nat a_val_def)
qed

lemma Outside_value:
  assumes top: "topological hg" and ne: "hg_nodes hg \<noteq> []"
    and wt: "\<And>e. 0 \<le> e \<Longrightarrow> e < vsize (hg_edges hg) \<Longrightarrow> weight (hg_edges hg ! nat e) = Some (wt e)" "\<And>e. lv_prob (wt e)"
    and ins: "probs (length (hg_nodes hg)) inside"
      "\<And>n. n < length (hg_nodes hg) \<Longrightarrow> lv_value (inside ! n) = i_val (\<lambda>e. lv_value (wt e)) hg n"
    and scale: "lv_prob scale"
  shows "\<exists>out. Outside PW weight scale hg inside = Some out \<and> probs (length (hg_nodes hg)) out \<and>
    (\<forall>n < length (hg_nodes hg). lv_value (out ! n) = (if n = length (hg_nodes hg) - 1 then lv_value scale else 0) +
      (\<Sum>g<length (hg_nodes hg). lv_value (out ! g) * a_val (\<lambda>e. lv_value (wt e)) hg g n))"
proof -
  let ?N = "length (hg_nodes hg)"
  let ?A = "a_val (\<lambda>e. lv_value (wt e)) hg"
  let ?goal = "\<lambda>n. if n = ?N - 1 then lv_value scale else 0"
  let ?I = "\<lambda>i out. probs ?N out \<and> (\<forall>n < ?N. lv_value (out ! n) = ?goal n + (\<Sum>g \<in> {nat i..<?N}. lv_value (out ! g) * ?A g n))"
  let ?out0 = "(replicate ?N (lv_Zero exact_reals))[?N - 1 := scale]"
  have "\<exists>t. for_each (rev (int_range 0 (int ?N))) (outside_node PW weight hg inside) ?out0 = Some t \<and> ?I 0 t"
  proof (rule for_down_total)
    have "probs ?N ?out0"
      by (rule probs_update) (simp_all add: probs_def scale lv_prob_simps)
    then show "?I (int ?N) ?out0"
      using ne by (auto simp: nth_list_update lv_prob_simps)
  next
    fix i s assume i: "i < ?N" and I: "?I (int i + 1) s"
    then obtain s' where s': "outside_node PW weight hg inside (int i) s = Some s'" "probs ?N s'"
      "\<And>n. n < ?N \<Longrightarrow> lv_value (s' ! n) = lv_value (s ! n) + lv_value (s ! i) * ?A i n"
      using outside_node_value [of hg i weight wt inside s, OF top i wt ins] by auto
    have same: "lv_value (s' ! g) = lv_value (s ! g)" if "i \<le> g" "g < ?N" for g
      using s'(3) [OF that(2)] a_val_later [OF top i that(1)] by simp
    have "lv_value (s' ! n) = ?goal n + (\<Sum>g \<in> {i..<?N}. lv_value (s' ! g) * ?A g n)" if n: "n < ?N" for n
    proof -
      have "{i..<?N} = insert i {Suc i..<?N}" using i by auto
      then have "(\<Sum>g \<in> {i..<?N}. lv_value (s' ! g) * ?A g n) = lv_value (s ! i) * ?A i n + (\<Sum>g \<in> {Suc i..<?N}. lv_value (s' ! g) * ?A g n)"
        using same [of i] i by simp
      also have "(\<Sum>g \<in> {Suc i..<?N}. lv_value (s' ! g) * ?A g n) = (\<Sum>g \<in> {Suc i..<?N}. lv_value (s ! g) * ?A g n)"
        by (rule sum.cong) (auto simp: same)
      finally have split: "(\<Sum>g \<in> {i..<?N}. lv_value (s' ! g) * ?A g n) =
          lv_value (s ! i) * ?A i n + (\<Sum>g \<in> {Suc i..<?N}. lv_value (s ! g) * ?A g n)" .
      have Suc: "nat (int i + 1) = Suc i" by simp
      have before: "lv_value (s ! n) = ?goal n + (\<Sum>g \<in> {nat (int i + 1)..<?N}. lv_value (s ! g) * ?A g n)"
        using I n by blast
      show ?thesis
        unfolding s'(3) [OF n] before [unfolded Suc] split by (simp only: ac_simps)
    qed
    then have "?I (int i) s'"
      using s'(2) unfolding nat_int by blast
    then show "\<exists>s'. outside_node PW weight hg inside (int i) s = Some s' \<and> ?I (int i) s'"
      using s'(1) by blast
  qed
  then obtain t where t: "for_each (rev (int_range 0 (int ?N))) (outside_node PW weight hg inside) ?out0 = Some t" "?I 0 t"
    by blast
  have "vset (replicate (nat (int ?N)) (lv_Zero exact_reals)) (int ?N - 1) scale = Some ?out0"
  proof -
    have "int ?N - 1 = int (?N - 1)" "?N - 1 < ?N" using ne by (simp_all add: Suc_leI of_nat_diff)
    then show ?thesis by (simp only: vset_nat length_replicate nat_int)
  qed
  then have "Outside PW weight scale hg inside = Some t"
    using t(1) probsD(2) [OF ins(1)] by (simp add: Outside_def Let_def vsize_def)
  then show ?thesis
    using t(2) unfolding nat_0 lessThan_atLeast0 by blast
qed

end
