(* ===== verification/Posteriors.thy ===== *)
theory Posteriors
  imports Outside
begin

text \<open>
  What the inside and outside scores are for: the posteriors of the edges (\<open>ComputeEdgePosteriors\<close>) are
  expected counts, and pushing weights towards the goal makes them conditional probabilities.
\<close>

section \<open>Posteriors are expected counts\<close>

text \<open>The loop over the in-edges of all nodes runs once over every edge, with its head.\<close>

definition head_pairs :: "('f, 'w) hypergraph \<Rightarrow> (nat \<times> int) list" where
  "head_pairs hg = concat (map (\<lambda>i. map (Pair i) (nd_in (hg_nodes hg ! i))) [0..<length (hg_nodes hg)])"

lemma for_each_concat: "for_each (concat xss) f s = for_each xss (\<lambda>xs s. for_each xs f s) s"
  by (induction xss arbitrary: s) (auto simp: for_each_append)

lemma for_each_map: "for_each (map g xs) f s = for_each xs (\<lambda>x. f (g x)) s"
  by (induction xs arbitrary: s) (auto split: Option.bind_split)

lemma for_each_positions: "for_each (positions xs) f s = for_each [0..<length xs] (\<lambda>i. f (int i)) s"
proof -
  have "positions xs = map int [0..<length xs]"
    by (rule nth_equalityI) (auto simp: vsize_def)
  then show ?thesis by (simp add: for_each_map)
qed

lemma in_edges_loop_pairs:
  assumes top: "topological hg"
  shows "in_edges_loop hg body s = for_each (head_pairs hg) (\<lambda>(i, e). body (int i) e (hg_edges hg ! nat e)) s"
proof -
  have inner: "for_each es (\<lambda>edgei s. do { e \<leftarrow> vat (hg_edges hg) edgei; body (int i) edgei e s }) s =
      for_each es (\<lambda>e. body (int i) e (hg_edges hg ! nat e)) s"
    if "i < length (hg_nodes hg)" "set es \<subseteq> set (nd_in (hg_nodes hg ! i))" for i es s
    by (rule for_each_cong) (use topologicalD(1) [OF top that(1)] that(2) in \<open>auto simp: vat_eq vsize_def\<close>)
  show ?thesis
    unfolding in_edges_loop_def head_pairs_def for_each_concat for_each_map for_each_positions
    by (rule for_each_cong) (auto simp: vat_nat inner)
qed

lemma head_pairs_set:
  assumes c: "consistent_hg {} hg"
  shows "(i, e) \<in> set (head_pairs hg) \<longleftrightarrow> 0 \<le> e \<and> e < vsize (hg_edges hg) \<and> i = nat (ed_head (hg_edges hg ! nat e))"
proof -
  have "(i, e) \<in> set (head_pairs hg) \<longleftrightarrow> i < length (hg_nodes hg) \<and> e \<in> set (nd_in (hg_nodes hg ! i))"
    by (auto simp: head_pairs_def)
  also have "\<dots> \<longleftrightarrow> i < length (hg_nodes hg) \<and> 0 \<le> e \<and> e < vsize (hg_edges hg) \<and> ed_head (hg_edges hg ! nat e) = int i"
    using consistentD(6) [OF c, of i e] by blast
  also have "\<dots> \<longleftrightarrow> 0 \<le> e \<and> e < vsize (hg_edges hg) \<and> i = nat (ed_head (hg_edges hg ! nat e))"
  proof (cases "0 \<le> e \<and> e < vsize (hg_edges hg)")
    case True
    then have "0 \<le> ed_head (hg_edges hg ! nat e)" "ed_head (hg_edges hg ! nat e) < int (length (hg_nodes hg))"
      using consistentD(4) [OF c, of "nat e"] by (auto simp: vsize_def nat_less_iff)
    then show ?thesis by auto
  qed auto
  finally show ?thesis .
qed

lemma head_pairs_distinct:
  assumes c: "consistent_hg {} hg"
  shows "distinct (map snd (head_pairs hg))"
proof -
  have "distinct (concat (map (\<lambda>i. nd_in (hg_nodes hg ! i)) [0..<n]))" if "n \<le> length (hg_nodes hg)" for n
    using that
  proof (induction n)
    case (Suc n)
    have "x \<notin> set (nd_in (hg_nodes hg ! i))" if "i < n" "x \<in> set (nd_in (hg_nodes hg ! n))" for i x
      using consistentD(6) [OF c, of n] consistentD(6) [OF c, of i] Suc.prems that by auto
    then show ?case
      using Suc consistentD(5) [OF c, of n] by auto
  qed simp
  then show ?thesis
    by (simp add: head_pairs_def map_concat comp_def)
qed

lemma head_pairs_edges: "consistent_hg {} hg \<Longrightarrow> set (map snd (head_pairs hg)) = {0..<vsize (hg_edges hg)}"
proof (rule set_eqI)
  fix e
  assume "consistent_hg {} hg"
  then have "e \<in> {0..<vsize (hg_edges hg)} \<longleftrightarrow> (\<exists>i. (i, e) \<in> set (head_pairs hg))"
    by (simp add: head_pairs_set)
  also have "\<dots> \<longleftrightarrow> e \<in> set (map snd (head_pairs hg))" by force
  finally show "e \<in> set (map snd (head_pairs hg)) \<longleftrightarrow> e \<in> {0..<vsize (hg_edges hg)}" by simp
qed

text \<open>The scores of the two algorithms, for weights given by the number of the edge.\<close>

lemma inside_value:
  assumes top: "topological hg"
    and wt: "\<And>e. 0 \<le> e \<Longrightarrow> e < vsize (hg_edges hg) \<Longrightarrow> weight (hg_edges hg ! nat e) = Some (wt e)" "\<And>e. lv_prob (wt e)"
  shows "\<exists>z sc. Inside PW weight hg = Some (z, sc) \<and> probs (length (hg_nodes hg)) sc \<and>
    (\<forall>n < length (hg_nodes hg). lv_value (sc ! n) = i_val (\<lambda>e. lv_value (wt e)) hg n)"
proof -
  have dw: "lv_prob (deriv_weight PW wt d) \<and> lv_value (deriv_weight PW wt d) = deriv_prob (\<lambda>e. lv_value (wt e)) d" for d
    by (rule deriv_weight_value) (simp_all add: wt(2))
  have ws: "lv_prob (w_sum PW (map (deriv_weight PW wt) ds))" for ds
    by (rule probability.ok_sum) (use dw in auto)
  have v: "lv_value (w_sum PW (map (deriv_weight PW wt) ds)) = d_sum (deriv_prob (\<lambda>e. lv_value (wt e))) ds" for ds
    by (subst sum_value) (use dw in \<open>auto simp: comp_def d_sum_def\<close>)
  have "\<exists>sc. Inside PW weight hg = Some (if hg_nodes hg = [] then w_zero PW else last sc, sc) \<and>
    sc = map (\<lambda>n. w_sum PW (map (deriv_weight PW wt) (derivs hg n))) [0..<length (hg_nodes hg)]"
    by (rule probability.Inside_sum [OF top]) (use wt in auto)
  then show ?thesis
    using ws by (auto simp: probs_def i_val_def v)
qed

lemma product_value:
  assumes "probs N inside" "nodes_in N ts" "lv_prob b"
  shows "\<exists>c. for_each ts (\<lambda>t k. map_option (times_eq exact_reals k) (vat inside t)) b = Some c \<and> lv_prob c \<and>
    lv_value c = lv_value b * prod_list (map (\<lambda>t. lv_value (inside ! nat t)) ts)"
  using assms(2,3)
proof (induction ts arbitrary: b)
  case (Cons t ts)
  then have t: "0 \<le> t" "nat t < N" and rest: "nodes_in N ts" by (auto simp: nodes_in_def)
  have p: "lv_prob (inside ! nat t)" and v: "vat inside t = Some (inside ! nat t)"
    using t assms(1) by (auto simp: probsD vat_eq nat_less_iff)
  show ?case
    using Cons.IH [OF rest, of "times_eq exact_reals b (inside ! nat t)"] Cons.prems(2) p v by (simp add: lv_prob_simps mult.assoc)
qed simp

lemma edge_nodes_in:
  assumes "consistent_hg {} hg" "0 \<le> e" "e < vsize (hg_edges hg)"
  shows "nodes_in (length (hg_nodes hg)) (ed_tails (hg_edges hg ! nat e))"
  using consistentD(3) [OF assms(1), of "nat e"] assms(2,3) by (auto simp: nodes_in_def vsize_def nat_less_iff)

text \<open>Both together: the score of an edge between the two is its expected count, times the scale.\<close>

lemma io_compute_value:
  assumes top: "topological hg" and c: "consistent_hg {} hg" and st: "simple_tails hg" and ne: "hg_nodes hg \<noteq> []"
    and wt: "\<And>e. 0 \<le> e \<Longrightarrow> e < vsize (hg_edges hg) \<Longrightarrow> weight (hg_edges hg ! nat e) = Some (wt e)" "\<And>e. lv_prob (wt e)"
    and scale: "\<And>z. lv_prob z \<Longrightarrow> lv_value z = i_val (\<lambda>e. lv_value (wt e)) hg (length (hg_nodes hg) - 1) \<Longrightarrow> lv_prob (outside1 z)"
  shows "\<exists>z inside out. io_compute PW weight outside1 hg = Some (z, inside, out) \<and> lv_prob z \<and>
    lv_value z = i_val (\<lambda>e. lv_value (wt e)) hg (length (hg_nodes hg) - 1) \<and>
    probs (length (hg_nodes hg)) inside \<and> probs (length (hg_nodes hg)) out \<and>
    (\<forall>f. 0 \<le> f \<and> f < vsize (hg_edges hg) \<longrightarrow> (\<exists>k. kbar PW inside out (ed_head (hg_edges hg ! nat f)) (hg_edges hg ! nat f) = Some k \<and> lv_prob k \<and>
      lv_value (wt f) * lv_value k = lv_value (outside1 z) * s_val (\<lambda>e. lv_value (wt e)) hg f (length (hg_nodes hg) - 1)))"
proof -
  let ?N = "length (hg_nodes hg)"
  let ?p = "\<lambda>e. lv_value (wt e)"
  obtain z0 ins where ins: "Inside PW weight hg = Some (z0, ins)" "probs ?N ins" "\<And>n. n < ?N \<Longrightarrow> lv_value (ins ! n) = i_val ?p hg n"
    using inside_value [where weight = weight and wt = wt, OF top wt] by blast
  define z where "z = last ins"
  have N: "?N - 1 < ?N" using ne by simp
  have "ins \<noteq> []" using ne probsD(2) [OF ins(2)] by auto
  then have z: "vback ins = Some z" "lv_prob z" "lv_value z = i_val ?p hg (?N - 1)"
    using ins(3) [OF N] probsD [OF ins(2)] N by (auto simp: z_def vback_def last_conv_nth)
  obtain out where out: "Outside PW weight (outside1 z) hg ins = Some out" "probs ?N out"
    "\<And>n. n < ?N \<Longrightarrow> lv_value (out ! n) = (if n = ?N - 1 then lv_value (outside1 z) else 0) +
      (\<Sum>g<?N. lv_value (out ! g) * a_val ?p hg g n)"
    using Outside_value [of hg weight wt ins "outside1 z", OF top ne wt ins(2,3) scale [OF z(2,3)]] by blast
  have "\<exists>k. kbar PW ins out (ed_head (hg_edges hg ! nat f)) (hg_edges hg ! nat f) = Some k \<and> lv_prob k \<and>
      lv_value (wt f) * lv_value k = lv_value (outside1 z) * s_val ?p hg f (?N - 1)" if f: "0 \<le> f" "f < vsize (hg_edges hg)" for f
  proof -
    let ?h = "ed_head (hg_edges hg ! nat f)"
    have h: "0 \<le> ?h" "nat ?h < ?N" using consistentD(4) [OF c, of "nat f"] f by (auto simp: vsize_def nat_less_iff)
    have ho: "vat out ?h = Some (out ! nat ?h)" "lv_prob (out ! nat ?h)"
      using h probsD [OF out(2)] by (auto simp: vat_eq nat_less_iff)
    obtain k where k: "for_each (ed_tails (hg_edges hg ! nat f)) (\<lambda>t k. map_option (times_eq exact_reals k) (vat ins t)) (out ! nat ?h) = Some k"
      "lv_prob k" "lv_value k = lv_value (out ! nat ?h) * prod_list (map (\<lambda>t. lv_value (ins ! nat t)) (tails_of hg f))"
      using product_value [OF ins(2) edge_nodes_in [OF c f] ho(2)] by (auto simp: tails_of_def)
    have eq: "map (\<lambda>t. lv_value (ins ! nat t)) (tails_of hg f) = map (\<lambda>t. i_val ?p hg (nat t)) (tails_of hg f)"
      using edge_nodes_in [OF c f] ins(3) by (auto simp: nodes_in_def tails_of_def)
    have "lv_value (wt f) * lv_value k =
        lv_value (out ! nat ?h) * (lv_value (wt f) * prod_list (map (\<lambda>t. i_val ?p hg (nat t)) (tails_of hg f)))"
      unfolding k(3) eq by (simp only: ac_simps)
    also have "\<dots> = lv_value (outside1 z) * s_val ?p hg f (?N - 1)"
      by (rule expected_counts [OF top c st f ne]) (rule out(3))
    finally show ?thesis
      using k(1,2) ho by (auto simp: kbar_def)
  qed
  then show ?thesis
    using ins z out(1,2) by (auto simp: io_compute_def)
qed

text \<open>The sparse vector of the posteriors: what has been added for the edges in \<open>P\<close>.\<close>

definition posteriors_of :: "(int \<Rightarrow> xreal logval) \<Rightarrow> int set \<Rightarrow> xreal logval svec \<Rightarrow> bool" where
  "posteriors_of M P x \<longleftrightarrow> sv_ok 7 x \<and> (\<forall>f. sv_value (lv_Zero exact_reals) x f = (if f \<in> P then M f else lv_Zero exact_reals))"

lemma plus_eq_Zero: "lv_prob x \<Longrightarrow> plus_eq exact_reals (lv_Zero exact_reals) x = x"
  by (rule lv_prob_inject) (simp_all add: lv_prob_simps)

lemma posteriors_add:
  assumes ord: "order_ok ord" and x: "posteriors_of M P x" and e: "e \<notin> P" and M: "lv_prob (M e)" "M e = times_eq exact_reals w k"
  shows "posteriors_of M (insert e P) (sv_plus_eq 7 (prob_sv_ops exact_reals) ord x
    (sv_times_eq (prob_sv_ops exact_reals) (set_value 7 (lv_Zero exact_reals) e w empty_svec) k))"
proof -
  let ?Z = "lv_Zero exact_reals"
  have one: "sv_times_eq (prob_sv_ops exact_reals) (set_value 7 ?Z e w empty_svec) k = Local [(e, M e)]"
    by (simp add: sv_times_eq_def sv_map_def set_value_def get_or_create_bin_def empty_svec_def prob_sv_ops_def M(2))
  have ok: "sv_ok 7 x" and v: "\<And>f. sv_value ?Z x f = (if f \<in> P then M f else ?Z)"
    using x by (auto simp: posteriors_of_def)
  show ?thesis
  proof (cases "sv_empty ord x")
    case True
    then have "sv_value ?Z x f = ?Z" for f using entries_empty [OF ord ok] by blast
    then have "f \<in> P \<Longrightarrow> M f = ?Z" for f using v [of f] by simp
    with True show ?thesis
      by (auto simp: posteriors_of_def sv_plus_eq_def one sv_ok_def sv_value_def)
  next
    case False
    then have "sv_plus_eq 7 (prob_sv_ops exact_reals) ord x (Local [(e, M e)]) =
        get_or_create_bin 7 ?Z e (\<lambda>y. plus_eq exact_reals y (M e)) x"
      by (simp add: sv_plus_eq_def sv_entries_def prob_sv_ops_def)
    then show ?thesis
      using e v M by (auto simp: posteriors_of_def one bin_ok [OF ok] bin_value plus_eq_Zero)
  qed
qed

text \<open>The weights of the edges, scaled.\<close>

definition scaled_of :: "real \<Rightarrow> ('f, xreal logval) hypergraph \<Rightarrow> int \<Rightarrow> xreal logval" where
  "scaled_of alpha hg e = lv_pow exact_reals (prob_of hg e) (Fin alpha)"

lemma scaled_of_prob: "\<forall>e \<in> set (hg_edges hg). lv_prob (ed_prob e) \<Longrightarrow> 0 < alpha \<Longrightarrow> lv_prob (scaled_of alpha hg e)"
  using prob_of_prob [of hg e] lv_pow_value [of "prob_of hg e" alpha] by (simp add: scaled_of_def lv_prob_def)

lemma scaled_of_value: "\<forall>e \<in> set (hg_edges hg). lv_prob (ed_prob e) \<Longrightarrow> 0 < alpha \<Longrightarrow>
    lv_value (scaled_of alpha hg e) = lv_value (prob_of hg e) powr alpha"
  using prob_of_prob [of hg e] lv_pow_value [of "prob_of hg e" alpha] by (simp add: scaled_of_def lv_prob_def)

lemma ScaledEdgeProb_of: "0 \<le> e \<Longrightarrow> e < vsize (hg_edges hg) \<Longrightarrow> ScaledEdgeProb exact_reals (Fin alpha) (hg_edges hg ! nat e) = Some (scaled_of alpha hg e)"
  by (simp add: ScaledEdgeProb_def scaled_of_def prob_of_def)

text \<open>Sums over the set of derivations.\<close>

lemma d_sum_derives:
  assumes "topological hg" "consistent_hg {} hg" "n < length (hg_nodes hg)"
  shows "d_sum g (derivs hg n) = (\<Sum>d | derives hg n d. g d)"
  unfolding d_sum_def set_derivs [OF assms(1,3), symmetric]
  by (rule sum_list_distinct_conv_sum_set) (rule derivs_distinct [OF consistent_distinct [OF assms(2)] assms(3)])

lemma posteriors_run:
  assumes pg: "prob_graph hg" and st: "simple_tails hg" and ne: "hg_nodes hg \<noteq> []" and alpha: "0 < alpha" and ord: "order_ok ord"
  shows "\<exists>z posts. ComputeEdgePosteriors exact_reals ord (Fin alpha) hg = Some (z, posts) \<and> lv_prob z \<and>
    lv_value z = i_val (\<lambda>e. lv_value (scaled_of alpha hg e)) hg (length (hg_nodes hg) - 1) \<and>
    probs (length (hg_edges hg)) posts \<and>
    (\<forall>f < length (hg_edges hg). lv_value (posts ! f) = s_val (\<lambda>e. lv_value (scaled_of alpha hg e)) hg (int f) (length (hg_nodes hg) - 1))"
proof -
  let ?N = "length (hg_nodes hg)"
  let ?wt = "scaled_of alpha hg"
  let ?p = "\<lambda>e. lv_value (?wt e)"
  let ?ops = "prob_sv_ops exact_reals"
  have top: "topological hg" and c: "consistent_hg {} hg" and p: "\<forall>e \<in> set (hg_edges hg). lv_prob (ed_prob e)"
    using pg by (auto simp: prob_graph_def)
  note wt = ScaledEdgeProb_of [of _ hg alpha] scaled_of_prob [OF p alpha]
  obtain z ins out where io: "io_compute PW (ScaledEdgeProb exact_reals (Fin alpha)) (Outside1 PW) hg = Some (z, ins, out)"
    and z: "lv_prob z" "lv_value z = i_val ?p hg (?N - 1)"
    and k: "\<And>f. 0 \<le> f \<Longrightarrow> f < vsize (hg_edges hg) \<Longrightarrow> \<exists>k. kbar PW ins out (ed_head (hg_edges hg ! nat f)) (hg_edges hg ! nat f) = Some k \<and> lv_prob k \<and>
      ?p f * lv_value k = s_val ?p hg f (?N - 1)"
    using io_compute_value [where weight = "ScaledEdgeProb exact_reals (Fin alpha)" and wt = ?wt and ?outside1.0 = "Outside1 PW", OF top c st ne wt]
    by (auto simp: Outside1_def lv_prob_simps)
  define M where "M f = times_eq exact_reals (?wt f) (the (kbar PW ins out (ed_head (hg_edges hg ! nat f)) (hg_edges hg ! nat f)))" for f
  let ?body = "\<lambda>i edgei e x. do {
     k \<leftarrow> kbar PW ins out i e;
     Some (sv_plus_eq 7 ?ops ord x (sv_times_eq ?ops (ScaledTransitionEventWeightFunction exact_reals (Fin alpha) e) k)) }"
  have "\<exists>pv. for_each (head_pairs hg) (\<lambda>(i, e). ?body (int i) e (hg_edges hg ! nat e)) empty_svec = Some pv \<and>
      posteriors_of M (set (map snd (head_pairs hg))) pv"
  proof (rule for_each_total)
    show "posteriors_of M (set (map snd [])) empty_svec"
      by (simp add: posteriors_of_def empty_svec_def sv_ok_def sv_value_def)
  next
    fix ys x zs and s :: "xreal logval svec"
    assume split: "head_pairs hg = ys @ x # zs" and I: "posteriors_of M (set (map snd ys)) s"
    obtain i e where x: "x = (i, e)" by (cases x)
    have "(i, e) \<in> set (head_pairs hg)" by (simp add: split x)
    then have e: "0 \<le> e" "e < vsize (hg_edges hg)" "i = nat (ed_head (hg_edges hg ! nat e))"
      by (auto simp: head_pairs_set [OF c])
    then have i: "int i = ed_head (hg_edges hg ! nat e)" and ide: "ed_id (hg_edges hg ! nat e) = e"
      using consistentD(4) [OF c, of "nat e"] consistentD(2) [OF c, of "nat e"] by (auto simp: vsize_def nat_less_iff)
    obtain kk where kk: "kbar PW ins out (int i) (hg_edges hg ! nat e) = Some kk" "lv_prob kk" "M e = times_eq exact_reals (?wt e) kk"
      using k [OF e(1,2)] by (auto simp: i M_def)
    have fresh: "e \<notin> set (map snd ys)"
      using head_pairs_distinct [OF c] by (auto simp: split x)
    have ev: "ScaledTransitionEventWeightFunction exact_reals (Fin alpha) (hg_edges hg ! nat e) = set_value 7 (lv_Zero exact_reals) e (?wt e) empty_svec"
      using e by (simp add: ScaledTransitionEventWeightFunction_def ide scaled_of_def prob_of_def)
    have "posteriors_of M (insert e (set (map snd ys))) (sv_plus_eq 7 ?ops ord s (sv_times_eq ?ops (set_value 7 (lv_Zero exact_reals) e (?wt e) empty_svec) kk))"
      by (rule posteriors_add [OF ord I fresh _ kk(3)]) (simp add: kk lv_prob_simps scaled_of_prob [OF p alpha])
    then show "\<exists>s'. (case x of (i, e) \<Rightarrow> ?body (int i) e (hg_edges hg ! nat e)) s = Some s' \<and> posteriors_of M (set (map snd (ys @ [x]))) s'"
      using kk(1) by (simp add: x ev)
  qed
  then obtain pv where pv: "in_edges_loop hg ?body empty_svec = Some pv" "posteriors_of M {0..<vsize (hg_edges hg)} pv"
    unfolding in_edges_loop_pairs [OF top] head_pairs_edges [OF c] by blast
  let ?posts = "map (\<lambda>i. sv_value (lv_Zero exact_reals) pv i) (positions (hg_edges hg))"
  have run: "ComputeEdgePosteriors exact_reals ord (Fin alpha) hg = Some (z, ?posts)"
    using io pv(1) by (simp add: ComputeEdgePosteriors_def InsideOutside_def expect_def)
  have posts: "?posts ! f = M (int f)" if "f < length (hg_edges hg)" for f
    using that pv(2) by (simp add: posteriors_of_def vsize_def)
  have M: "lv_prob (M (int f))" "lv_value (M (int f)) = s_val ?p hg (int f) (?N - 1)" if f: "f < length (hg_edges hg)" for f
    using k [of "int f"] f scaled_of_prob [OF p alpha] by (auto simp: M_def vsize_def lv_prob_simps)
  have "lv_prob (sv_value (lv_Zero exact_reals) pv x)" if "0 \<le> x" "x < vsize (hg_edges hg)" for x
    using that pv(2) M(1) [of "nat x"] by (auto simp: posteriors_of_def vsize_def nat_less_iff)
  then have "probs (length (hg_edges hg)) ?posts"
    by (auto simp: probs_def vsize_def)
  then show ?thesis
    using run z posts M(2) by auto
qed

text \<open>C24. \<open>ComputeEdgePosteriors\<close> returns the sum \<open>Z\<close> over the derivations of the goal of the product of
  their edges' scaled probabilities, and for every edge the expected number of its uses: the sum over
  the derivations of that product times the number of times the derivation uses the edge (divided by
  \<open>Z\<close> it is the posterior expectation). No edge may have the same node twice among its tails.\<close>

theorem ComputeEdgePosteriors_expected:
  assumes pg: "prob_graph hg" and st: "simple_tails hg" and ne: "hg_nodes hg \<noteq> []" and alpha: "0 < alpha" and ord: "order_ok ord"
  shows "\<exists>z posts. ComputeEdgePosteriors exact_reals ord (Fin alpha) hg = Some (z, posts) \<and>
    lv_value z = (\<Sum>d | derives hg (nat (GoalNode hg)) d. deriv_prob (\<lambda>e. edge_value hg e powr alpha) d) \<and>
    length posts = length (hg_edges hg) \<and>
    (\<forall>f < length (hg_edges hg). lv_value (posts ! f) =
      (\<Sum>d | derives hg (nat (GoalNode hg)) d. deriv_prob (\<lambda>e. edge_value hg e powr alpha) d * real (edge_count (int f) d)))"
proof -
  let ?g = "length (hg_nodes hg) - 1"
  have top: "topological hg" and c: "consistent_hg {} hg" and p: "\<forall>e \<in> set (hg_edges hg). lv_prob (ed_prob e)"
    using pg by (auto simp: prob_graph_def)
  have g: "?g < length (hg_nodes hg)" "nat (GoalNode hg) = ?g"
    using ne by (cases "hg_nodes hg"; simp add: GoalNode_def vsize_def)+
  have same: "deriv_prob (\<lambda>e. lv_value (scaled_of alpha hg e)) d = deriv_prob (\<lambda>e. edge_value hg e powr alpha) d" if "derives hg ?g d" for d
    by (rule deriv_prob_cong [OF top _ that]) (simp add: scaled_of_value [OF p alpha] edge_value_def prob_of_def)
  have i: "i_val (\<lambda>e. lv_value (scaled_of alpha hg e)) hg ?g = (\<Sum>d | derives hg ?g d. deriv_prob (\<lambda>e. edge_value hg e powr alpha) d)"
    unfolding i_val_def d_sum_derives [OF top c g(1)] by (rule sum.cong) (auto simp: same)
  have sv: "s_val (\<lambda>e. lv_value (scaled_of alpha hg e)) hg f ?g =
      (\<Sum>d | derives hg ?g d. deriv_prob (\<lambda>e. edge_value hg e powr alpha) d * real (edge_count f d))" for f
    unfolding s_val_def d_sum_derives [OF top c g(1)] by (rule sum.cong) (auto simp: same)
  show ?thesis
    using posteriors_run [OF pg st ne alpha ord] unfolding g(2) i sv by (auto dest: probsD(2))
qed

abbreviation demo_prob_hg :: "(int, xreal logval) hypergraph" where
  "demo_prob_hg \<equiv> demo_hg (lv_One exact_reals) (lv_One exact_reals) (LogVal_double exact_reals (Fin (1 / 2)))"

lemma demo_prob_graph: "prob_graph demo_prob_hg" "simple_tails demo_prob_hg"
proof -
  have half: "lv_prob (LogVal_double exact_reals (Fin (1 / 2)))"
    by (simp add: lv_prob_def LogVal_double_def lv_ok_def)
  show "prob_graph demo_prob_hg"
    using demo_hg_simps half by (auto simp: prob_graph_def lv_prob_simps) (auto simp: demo_hg_def demo_edge_def lv_prob_simps half)
  show "simple_tails demo_prob_hg" by (simp add: simple_tails_def demo_hg_def demo_edge_def)
qed

definition sorted_keys :: "'v hash_order" where
  "sorted_keys m = sorted_list_of_set (dom m)"

lemma order_sorted_keys: "order_ok sorted_keys"
  by (simp add: order_ok_def sorted_keys_def)

lemma ComputeEdgePosteriors_expected_witness:
  "\<exists>z posts. ComputeEdgePosteriors exact_reals sorted_keys (Fin 1) demo_prob_hg = Some (z, posts) \<and>
    lv_value z = 1 \<and> lv_value (posts ! 0) = 1 / 2 \<and> lv_value (posts ! 2) = 1"
proof -
  have g: "nat (GoalNode demo_prob_hg) = Suc 0" "length (hg_edges demo_prob_hg) = 3" by (simp_all add: GoalNode_def demo_hg_def)
  have v: "edge_value demo_prob_hg 0 = 1" "edge_value demo_prob_hg 1 = 1" "edge_value demo_prob_hg 2 = 1 / 2"
    by (simp_all add: edge_value_def demo_hg_def demo_edge_def lv_prob_simps LogVal_double_value)
  obtain z posts where run: "ComputeEdgePosteriors exact_reals sorted_keys (Fin 1) demo_prob_hg = Some (z, posts)"
    and z: "lv_value z = (\<Sum>d | derives demo_prob_hg (Suc 0) d. deriv_prob (\<lambda>e. edge_value demo_prob_hg e powr 1) d)"
    and posts: "\<forall>f < 3. lv_value (posts ! f) =
      (\<Sum>d | derives demo_prob_hg (Suc 0) d. deriv_prob (\<lambda>e. edge_value demo_prob_hg e powr 1) d * real (edge_count (int f) d))"
    using ComputeEdgePosteriors_expected [OF demo_prob_graph demo_hg_simps(3) zero_less_one order_sorted_keys] unfolding g by blast
  have "lv_value z = 1"
    unfolding z demo_hg_derives by (simp add: v)
  moreover have "lv_value (posts ! 0) = 1 / 2"
    by (subst posts [rule_format]) (simp_all add: demo_hg_derives v)
  moreover have "lv_value (posts ! 2) = 1"
    by (subst posts [rule_format]) (simp_all add: demo_hg_derives v)
  ultimately show ?thesis using run by blast
qed

text \<open>
  With the same node twice among the tails the outside scores are too small: in this graph the second
  node has four derivations, which use edge 0 four times in all, but the outside score of the first node
  is 2, and so is the score of edge 0 (its weight and its inside product being 1).
\<close>

definition twice_hg :: "(int, rat) hypergraph" where
  "twice_hg = \<lparr>hg_linear_chain = False,
     hg_nodes = [\<lparr>nd_hash = 0, nd_id = 0, nd_cat = -1, nd_in = [0, 1], nd_out = [2, 2]\<rparr>,
                 \<lparr>nd_hash = 0, nd_id = 1, nd_cat = -2, nd_in = [2], nd_out = []\<rparr>],
     hg_edges = [demo_edge 0 [] 0 1, demo_edge 1 [] 0 1, demo_edge 2 [0, 0] 1 1]\<rparr>"

lemma Outside_repeated_tail:
  "InsideOutside (double_weights (exact lg)) 0 (+) (*) (TransitionCountWeightFunction (exact lg)) (\<lambda>e. of_bool (ed_id e = 0)) twice_hg = Some (4, 2) \<and>
   (\<Sum>d\<leftarrow>derivs twice_hg 1. edge_count 0 d) = 4"
proof -
  have d0: "derivs twice_hg 0 = [Deriv 0 [], Deriv 1 []]"
    by (subst derivs.simps) (simp add: twice_hg_def demo_edge_def)
  have "derivs twice_hg (Suc 0) = map (Deriv 2) (product_lists [derivs twice_hg 0, derivs twice_hg 0])"
    by (subst derivs.simps) (simp add: twice_hg_def demo_edge_def)
  then have "(\<Sum>d\<leftarrow>derivs twice_hg 1. edge_count 0 d) = 4"
    by (simp add: d0)
  moreover have "InsideOutside (double_weights (exact lg)) 0 (+) (*) (TransitionCountWeightFunction (exact lg)) (\<lambda>e. of_bool (ed_id e = 0)) twice_hg = Some (4, 2)"
    by code_simp
  ultimately show ?thesis by simp
qed

text \<open>\<open>PushViterbiWeightsToGoal\<close> reads its scores from an empty vector, so with an edge it reads out of range.\<close>

lemma PushViterbiWeightsToGoal_reads_empty:
  "hg_edges hg \<noteq> [] \<Longrightarrow> PushViterbiWeightsToGoal fl set_feature hg = None"
proof -
  assume "hg_edges hg \<noteq> []"
  then obtain e es where edges: "hg_edges hg = e # es" by (cases "hg_edges hg") auto
  have "vpusher fl set_feature [] n e = None" for n
    by (auto simp: vpusher_def vat_def split: Option.bind_split)
  then show ?thesis
    by (auto simp: PushViterbiWeightsToGoal_def edges int_range_Cons vsize_def vat_Cons split: Option.bind_split)
qed

end
