(* ===== verification/Pushing.thy ===== *)
theory Pushing
  imports Posteriors
begin

text \<open>
  \<open>PushWeightsToGoal\<close> (\<open>decoder/hg.cc\<close>): dividing the posterior of each edge by the sum over the edges of
  its head makes the weight of a derivation its conditional probability.
\<close>

section \<open>Inside scores and outside scores\<close>

lemma i_val_rec:
  assumes top: "topological hg" and g: "g < length (hg_nodes hg)"
  shows "i_val p hg g = (\<Sum>e\<leftarrow>nd_in (hg_nodes hg ! g). p e * prod_list (map (\<lambda>t. i_val p hg (nat t)) (tails_of hg e)))"
proof -
  have "d_sum (deriv_prob p) (map (Deriv e) (product_lists (map (\<lambda>t. derivs hg (nat t)) ts))) =
      p e * prod_list (map (\<lambda>t. i_val p hg (nat t)) ts)" for e ts
    using tuple_prob_prod [of p "\<lambda>t. derivs hg (nat t)" ts]
    by (simp add: d_sum_def tuple_prob_def comp_def sum_list_const_mult i_val_def)
  then show ?thesis
    unfolding i_val_def [of p hg g] derivs_topological [OF top g] d_sum_concat by simp
qed

lemma i_val_ge:
  assumes top: "topological hg" and g: "g < length (hg_nodes hg)" and p: "\<And>e. 0 \<le> p e" and d: "d \<in> set (derivs hg g)"
  shows "deriv_prob p d \<le> i_val p hg g"
proof -
  have nn: "0 \<le> deriv_prob p d" for d
    by (induction d) (auto intro!: mult_nonneg_nonneg p prod_list_nonneg)
  have "0 \<le> d_sum (deriv_prob p) ds" for ds
    unfolding d_sum_def by (rule sum_list_nonneg) (auto intro: nn)
  then have "d \<in> set ds \<Longrightarrow> deriv_prob p d \<le> d_sum (deriv_prob p) ds" for ds
    by (induction ds) (auto intro: add_increasing add_increasing2 nn)
  with d show ?thesis by (simp add: i_val_def)
qed

lemma outside_exists:
  assumes top: "topological hg" and c: "consistent_hg {} hg" and ne: "hg_nodes hg \<noteq> []" and wt: "\<And>e. lv_prob (wt e)"
  shows "\<exists>Oc. (\<forall>n < length (hg_nodes hg). 0 \<le> Oc n \<and> Oc n = (if n = length (hg_nodes hg) - 1 then 1 else 0) +
    (\<Sum>g<length (hg_nodes hg). Oc g * a_val (\<lambda>e. lv_value (wt e)) hg g n))"
proof -
  let ?weight = "\<lambda>e. Some (wt (ed_id e))"
  have w: "?weight (hg_edges hg ! nat e) = Some (wt e)" if "0 \<le> e" "e < vsize (hg_edges hg)" for e
    using consistentD(2) [OF c, of "nat e"] that by (simp add: vsize_def nat_less_iff)
  obtain ins where ins: "probs (length (hg_nodes hg)) ins" "\<And>n. n < length (hg_nodes hg) \<Longrightarrow> lv_value (ins ! n) = i_val (\<lambda>e. lv_value (wt e)) hg n"
    using inside_value [where weight = ?weight and wt = wt, OF top w wt] by blast
  have "\<exists>out. Outside PW ?weight (lv_One exact_reals) hg ins = Some out \<and> probs (length (hg_nodes hg)) out \<and>
    (\<forall>n < length (hg_nodes hg). lv_value (out ! n) = (if n = length (hg_nodes hg) - 1 then lv_value (lv_One exact_reals) else 0) +
      (\<Sum>g<length (hg_nodes hg). lv_value (out ! g) * a_val (\<lambda>e. lv_value (wt e)) hg g n))"
    by (rule Outside_value) (auto simp: w [simplified] wt ins top ne lv_prob_constants)
  then obtain out where out: "probs (length (hg_nodes hg)) out"
    "\<forall>n < length (hg_nodes hg). lv_value (out ! n) = (if n = length (hg_nodes hg) - 1 then lv_value (lv_One exact_reals) else 0) +
      (\<Sum>g<length (hg_nodes hg). lv_value (out ! g) * a_val (\<lambda>e. lv_value (wt e)) hg g n)"
    by (elim exE conjE) (rule that)
  have "0 \<le> lv_value (out ! n)" if "n < length (hg_nodes hg)" for n
    using probsD(1) [OF out(1) that] by (rule lv_prob_nonneg)
  then show ?thesis
    using out(2) unfolding lv_prob_constants(4) by (intro exI [of _ "\<lambda>n. lv_value (out ! n)"] allI impI conjI) simp_all
qed

section \<open>Conditional weights\<close>

text \<open>An edge's share of the inside score of its head.\<close>

definition share :: "(int \<Rightarrow> real) \<Rightarrow> ('f, 'w) hypergraph \<Rightarrow> int \<Rightarrow> real" where
  "share p hg e = p e * prod_list (map (\<lambda>t. i_val p hg (nat t)) (tails_of hg e)) / i_val p hg (nat (ed_head (hg_edges hg ! nat e)))"

lemma deriv_nonneg: "(\<And>e. 0 \<le> p e) \<Longrightarrow> 0 \<le> deriv_prob p d"
  by (induction d) (auto intro!: mult_nonneg_nonneg prod_list_nonneg)

lemma derives_pos:
  assumes top: "topological hg" and p: "\<And>e. 0 \<le> p e" and d: "derives hg n d" "0 < deriv_prob p d"
  shows "0 < i_val p hg n"
proof -
  have n: "n < length (hg_nodes hg)" using d(1) by (auto elim: derives.cases)
  then have "d \<in> set (derivs hg n)" using derivs_iff [OF top n] d(1) by blast
  from i_val_ge [where p = p, OF top n p this] d(2) show ?thesis by simp
qed

lemma prod_list_pos: "(\<And>x. x \<in> set xs \<Longrightarrow> 0 \<le> x) \<Longrightarrow> 0 < prod_list xs \<Longrightarrow> x \<in> set xs \<Longrightarrow> 0 < (x :: real)"
proof (induction xs)
  case (Cons y xs)
  then have "0 \<le> y" "0 \<le> prod_list xs" by (auto intro: prod_list_nonneg)
  then have "0 < y" "0 < prod_list xs" using Cons.prems(2) by (auto simp: zero_less_mult_iff)
  with Cons show ?case by auto
qed simp

lemma prod_list_posI: "(\<And>x. x \<in> set xs \<Longrightarrow> 0 < x) \<Longrightarrow> 0 < (prod_list xs :: real)"
  by (induction xs) auto

text \<open>The parts of a derivation of positive probability.\<close>

lemma derives_parts:
  assumes top: "topological hg" and c: "consistent_hg {} hg" and p: "\<And>e. 0 \<le> p e"
    and d: "derives hg n (Deriv e ds)" "0 < deriv_prob p (Deriv e ds)"
  shows "n < length (hg_nodes hg)" "e \<in> set (nd_in (hg_nodes hg ! n))" "ed_head (hg_edges hg ! nat e) = int n" "0 < p e"
    "list_all2 (\<lambda>t d. derives hg (nat t) d) (tails_of hg e) ds" "\<And>d. d \<in> set ds \<Longrightarrow> 0 < deriv_prob p d"
    "\<And>t. t \<in> set (tails_of hg e) \<Longrightarrow> 0 < i_val p hg (nat t)"
proof -
  show n: "n < length (hg_nodes hg)" and e: "e \<in> set (nd_in (hg_nodes hg ! n))"
    and ds: "list_all2 (\<lambda>t d. derives hg (nat t) d) (tails_of hg e) ds"
    using d(1) by (auto simp: derives_Deriv tails_of_def)
  show "ed_head (hg_edges hg ! nat e) = int n"
    using consistentD(6) [OF c n, of e] e by simp
  have nn: "0 \<le> x" if "x \<in> set (map (deriv_prob p) ds)" for x
    using that deriv_nonneg [where p = p] p by auto
  then have "0 \<le> prod_list (map (deriv_prob p) ds)" by (rule prod_list_nonneg)
  then show "0 < p e" using d(2) p [of e] by (auto simp: zero_less_mult_iff)
  then have "0 < prod_list (map (deriv_prob p) ds)" using d(2) by (simp add: zero_less_mult_iff)
  then show pos: "0 < deriv_prob p d" if "d \<in> set ds" for d
    using prod_list_pos [of "map (deriv_prob p) ds" "deriv_prob p d", OF nn] that by simp
  show "0 < i_val p hg (nat t)" if t: "t \<in> set (tails_of hg e)" for t
  proof -
    obtain k where k: "k < length ds" "derives hg (nat t) (ds ! k)"
      using t ds by (auto simp: in_set_conv_nth list_all2_conv_all_nth)
    then show ?thesis
      using derives_pos [where p = p, OF top p k(2)] pos [of "ds ! k"] by simp
  qed
qed

lemma prod_list_div: "list_all2 (\<lambda>t d. f d = g d / I t) ts ds \<Longrightarrow> prod_list (map f ds) = prod_list (map g ds) / prod_list (map I ts :: real list)"
  by (induction rule: list_all2_induct) auto

lemma share_prob:
  assumes top: "topological hg" and c: "consistent_hg {} hg" and p: "\<And>e. 0 \<le> p e"
  shows "derives hg n d \<Longrightarrow> 0 < deriv_prob p d \<Longrightarrow> deriv_prob (share p hg) d = deriv_prob p d / i_val p hg n"
proof (induction d arbitrary: n)
  case (Deriv e ds)
  note parts = derives_parts [where p = p, OF top c p Deriv.prems]
  let ?I = "\<lambda>t. i_val p hg (nat t)"
  have "list_all2 (\<lambda>t d. deriv_prob (share p hg) d = deriv_prob p d / ?I t) (tails_of hg e) ds"
    using parts(5,6) Deriv.IH by (auto simp: list_all2_conv_all_nth)
  then have "prod_list (map (deriv_prob (share p hg)) ds) = prod_list (map (deriv_prob p) ds) / prod_list (map ?I (tails_of hg e))"
    by (rule prod_list_div)
  moreover have "0 < prod_list (map ?I (tails_of hg e))"
    by (rule prod_list_posI) (use parts(7) in auto)
  moreover have "share p hg e = p e * prod_list (map ?I (tails_of hg e)) / i_val p hg n"
    by (simp add: share_def parts(3))
  ultimately show ?case
    by (simp add: field_simps)
qed

lemma deriv_prob_used: "(\<And>e. edge_count e d \<noteq> 0 \<Longrightarrow> q e = r e) \<Longrightarrow> deriv_prob q d = deriv_prob r d"
proof (induction d)
  case (Deriv e ds)
  have "deriv_prob q d = deriv_prob r d" if d: "d \<in> set ds" for d
    by (rule Deriv.IH [OF d]) (use Deriv.prems d in \<open>auto simp: sum_list_eq_0_iff\<close>)
  then have "map (deriv_prob q) ds = map (deriv_prob r) ds" by simp
  moreover have "q e = r e" by (rule Deriv.prems) simp
  ultimately show ?case by (simp only: deriv_prob.simps)
qed

text \<open>The edges of a derivation of the goal of positive probability have heads of positive outside score.\<close>

lemma others_pos: "(\<And>l. l \<in> set ts \<Longrightarrow> 0 < I (nat l)) \<Longrightarrow> 0 < others I ts t"
  unfolding others_def by (rule prod_list_posI) auto

lemma a_val_pos:
  assumes p: "\<And>e. 0 \<le> p e" and e: "e \<in> set (nd_in (hg_nodes hg ! n))" "0 < p e" and t: "t \<in> set (tails_of hg e)"
    and I: "\<And>t. t \<in> set (tails_of hg e) \<Longrightarrow> 0 < i_val p hg (nat t)"
  shows "0 < a_val p hg n (nat t)"
proof -
  let ?c = "\<lambda>e t. p e * others (i_val p hg) (tails_of hg e) t"
  have nn: "0 \<le> i_val p hg m" for m
    unfolding i_val_def d_sum_def by (rule sum_list_nonneg) (auto intro: deriv_nonneg p)
  have cn: "0 \<le> ?c e t" for e t
    by (auto simp: others_def intro!: mult_nonneg_nonneg p prod_list_nonneg nn)
  have member: "x \<in> set xs \<Longrightarrow> 0 < f x \<Longrightarrow> (\<And>y. 0 \<le> f y) \<Longrightarrow> 0 < (\<Sum>y\<leftarrow>xs. f y :: real)" for x xs and f :: "int \<Rightarrow> real"
  proof (induction xs)
    case (Cons y ys)
    have "0 \<le> (\<Sum>y\<leftarrow>ys. f y)" by (rule sum_list_nonneg) (use Cons.prems(3) in auto)
    with Cons show ?case by (auto intro: add_pos_nonneg add_nonneg_pos)
  qed simp
  have "0 < ?c e t" using e(2) others_pos [of "tails_of hg e" "i_val p hg" t] I by simp
  then have "0 < (\<Sum>u\<leftarrow>tails_of hg e. if nat u = nat t then ?c e u else 0)"
    by (intro member [OF t]) (auto simp: cn)
  moreover have "0 \<le> (\<Sum>u\<leftarrow>tails_of hg e. if nat u = nat t then ?c e u else 0)" for e
    by (rule sum_list_nonneg) (auto simp: cn)
  ultimately show ?thesis
    unfolding a_val_def by (intro member [OF e(1)]) auto
qed

lemma used_pos:
  assumes top: "topological hg" and c: "consistent_hg {} hg" and p: "\<And>e. 0 \<le> p e"
    and Oc: "\<And>n. n < length (hg_nodes hg) \<Longrightarrow> 0 \<le> Oc n \<and> Oc n = (if n = length (hg_nodes hg) - 1 then 1 else 0) +
      (\<Sum>g<length (hg_nodes hg). Oc g * a_val p hg g n)"
  shows "derives hg n d \<Longrightarrow> 0 < deriv_prob p d \<Longrightarrow> 0 < Oc n \<Longrightarrow> edge_count f d \<noteq> 0 \<Longrightarrow>
    0 < Oc (nat (ed_head (hg_edges hg ! nat f))) \<and> 0 < i_val p hg (nat (ed_head (hg_edges hg ! nat f))) \<and> 0 \<le> f \<and> f < vsize (hg_edges hg)"
proof (induction d arbitrary: n)
  case (Deriv e ds)
  note parts = derives_parts [where p = p, OF top c p Deriv.prems(1,2)]
  show ?case
  proof (cases "f = e")
    case True
    then show ?thesis
      using parts(3) Deriv.prems(3) derives_pos [where p = p, OF top p Deriv.prems(1,2)] topologicalD(1) [OF top parts(1,2)] by simp
  next
    case False
    then obtain k where k: "k < length ds" "edge_count f (ds ! k) \<noteq> 0"
      using Deriv.prems(4) by (auto simp: in_set_conv_nth)
    let ?t = "tails_of hg e ! k"
    have t: "?t \<in> set (tails_of hg e)" "derives hg (nat ?t) (ds ! k)"
      using parts(5) k(1) by (auto simp: list_all2_conv_all_nth)
    then have tN: "nat ?t < length (hg_nodes hg)" by (auto elim: derives.cases)
    have nn: "0 \<le> i_val p hg m" for m
      unfolding i_val_def d_sum_def by (rule sum_list_nonneg) (auto intro: deriv_nonneg p)
    have an: "0 \<le> a_val p hg g m" for g m
      unfolding a_val_def by (intro sum_list_nonneg) (auto simp: others_def intro!: sum_list_nonneg mult_nonneg_nonneg p prod_list_nonneg nn)
    have O_nn: "0 \<le> Oc g" if "g < length (hg_nodes hg)" for g using Oc [OF that] by (rule conjunct1)
    have "0 < Oc n * a_val p hg n (nat ?t)"
      using a_val_pos [where p = p, OF p parts(2,4) t(1) parts(7)] Deriv.prems(3) by simp
    also have "\<dots> \<le> (\<Sum>g<length (hg_nodes hg). Oc g * a_val p hg g (nat ?t))"
      by (rule member_le_sum) (use parts(1) O_nn an in auto)
    also have "\<dots> \<le> Oc (nat ?t)" using Oc [OF tN] by (auto split: if_splits)
    finally have "0 < Oc (nat ?t)" .
    then show ?thesis
      using Deriv.IH [of "ds ! k" "nat ?t"] k t(2) parts(6) [of "ds ! k"] by simp
  qed
qed

section \<open>The loops\<close>

lemma sum_posts:
  assumes "probs E posts" "nodes_in E es" "lv_prob z"
  shows "\<exists>z'. for_each es (\<lambda>j z. map_option (plus_eq exact_reals z) (vat posts j)) z = Some z' \<and> lv_prob z' \<and>
    lv_value z' = lv_value z + (\<Sum>j\<leftarrow>es. lv_value (posts ! nat j))"
  using assms(2,3)
proof (induction es arbitrary: z)
  case (Cons j es)
  then have j: "0 \<le> j" "nat j < E" and rest: "nodes_in E es" by (auto simp: nodes_in_def)
  have p: "lv_prob (posts ! nat j)" and v: "vat posts j = Some (posts ! nat j)"
    using j assms(1) by (auto simp: probsD vat_eq nat_less_iff)
  show ?case
    using Cons.IH [OF rest, of "plus_eq exact_reals z (posts ! nat j)"] Cons.prems(2) p v by (simp add: lv_prob_simps add.assoc)
qed simp

lemma divide_posts:
  assumes "length posts = E" "nodes_in E es" "distinct es" "length edges = E"
  shows "\<exists>edges'. for_each es (\<lambda>j edges. do { p \<leftarrow> vat posts j; e \<leftarrow> vat edges j; vset edges j (e\<lparr>ed_prob := div_eq fl p z\<rparr>) }) edges = Some edges' \<and>
    length edges' = E \<and> (\<forall>i < E. edges' ! i = (if int i \<in> set es then (edges ! i)\<lparr>ed_prob := div_eq fl (posts ! i) z\<rparr> else edges ! i))"
  using assms(2-4)
proof (induction es arbitrary: edges)
  case (Cons j es)
  then have j: "0 \<le> j" "nat j < E" and rest: "nodes_in E es" by (auto simp: nodes_in_def)
  let ?edges = "edges[nat j := (edges ! nat j)\<lparr>ed_prob := div_eq fl (posts ! nat j) z\<rparr>]"
  have run: "vat posts j = Some (posts ! nat j)" "vat edges j = Some (edges ! nat j)" "vset edges j e = Some (edges[nat j := e])" for e
    using j assms(1) Cons.prems(3) by (simp_all add: vat_eq vset_eq nat_less_iff)
  obtain edges' where IH: "for_each es (\<lambda>j edges. do { p \<leftarrow> vat posts j; e \<leftarrow> vat edges j; vset edges j (e\<lparr>ed_prob := div_eq fl p z\<rparr>) }) ?edges = Some edges'"
    "length edges' = E" "\<And>i. i < E \<Longrightarrow> edges' ! i = (if int i \<in> set es then (?edges ! i)\<lparr>ed_prob := div_eq fl (posts ! i) z\<rparr> else ?edges ! i)"
    using Cons.IH [OF rest, of ?edges] Cons.prems by auto
  have "edges' ! i = (if int i \<in> set (j # es) then (edges ! i)\<lparr>ed_prob := div_eq fl (posts ! i) z\<rparr> else edges ! i)" if "i < E" for i
    using IH(3) [OF that] j Cons.prems that by (cases "i = nat j") auto
  then show ?case
    using IH(1,2) run by simp
qed simp

lemma push_weights_run:
  assumes posts: "probs E posts" and es: "nodes_in E es" "distinct es" and len: "length edges = E"
  shows "\<exists>z edges'. push_weights exact_reals posts es edges = Some edges' \<and> lv_prob z \<and>
    lv_value z = (\<Sum>j\<leftarrow>es. lv_value (posts ! nat j)) \<and> length edges' = E \<and>
    (\<forall>i < E. edges' ! i = (if int i \<in> set es then (edges ! i)\<lparr>ed_prob := div_eq exact_reals (posts ! i) z\<rparr> else edges ! i))"
proof -
  obtain z where z: "for_each es (\<lambda>j z. map_option (plus_eq exact_reals z) (vat posts j)) (lv_Zero exact_reals) = Some z" "lv_prob z"
    "lv_value z = (\<Sum>j\<leftarrow>es. lv_value (posts ! nat j))"
    using sum_posts [OF posts es(1) lv_prob_constants(1)] by (auto simp: lv_prob_simps)
  show ?thesis
    using divide_posts [OF probsD(2) [OF posts] es len, of exact_reals z] z
    by (auto simp: push_weights_def)
qed

lemma for_each_nth: "for_each xs f s = for_each [0..<length xs] (\<lambda>i. f (xs ! i)) s"
  using for_each_map [of "\<lambda>i. xs ! i" "[0..<length xs]" f s] by (simp add: map_nth)

text \<open>Every edge is divided once, by the sum over the in-edges of its head.\<close>

lemma push_nodes:
  assumes c: "consistent_hg {} hg" and posts: "probs (length (hg_edges hg)) posts"
  shows "\<exists>z edges'. for_each (hg_nodes hg) (\<lambda>node. push_weights exact_reals posts (nd_in node)) (hg_edges hg) = Some edges' \<and>
    (\<forall>n. lv_prob (z n)) \<and> (\<forall>n < length (hg_nodes hg). lv_value (z n) = (\<Sum>j\<leftarrow>nd_in (hg_nodes hg ! n). lv_value (posts ! nat j))) \<and>
    length edges' = length (hg_edges hg) \<and>
    (\<forall>i < length (hg_edges hg). edges' ! i = (hg_edges hg ! i)\<lparr>ed_prob := div_eq exact_reals (posts ! i) (z (nat (ed_head (hg_edges hg ! i))))\<rparr>)"
proof -
  let ?N = "length (hg_nodes hg)"
  let ?E = "length (hg_edges hg)"
  let ?h = "\<lambda>i. nat (ed_head (hg_edges hg ! i))"
  have mem: "int i \<in> set (nd_in (hg_nodes hg ! n)) \<longleftrightarrow> ?h i = n" if "n < ?N" "i < ?E" for n i
  proof -
    have "int i \<in> set (nd_in (hg_nodes hg ! n)) \<longleftrightarrow> ed_head (hg_edges hg ! i) = int n"
      using consistentD(6) [OF c that(1), of "int i"] that(2) unfolding vsize_def nat_int by simp
    moreover have "0 \<le> ed_head (hg_edges hg ! i)"
      using consistentD(4) [OF c that(2)] by blast
    ultimately show ?thesis by auto
  qed
  have ins: "nodes_in ?E (nd_in (hg_nodes hg ! n))" "distinct (nd_in (hg_nodes hg ! n))" if "n < ?N" for n
  proof -
    have "0 \<le> e \<and> e < int ?E" if "e \<in> set (nd_in (hg_nodes hg ! n))" for e
      using consistentD(6) [OF c \<open>n < ?N\<close>, of e] that unfolding vsize_def by blast
    then show "nodes_in ?E (nd_in (hg_nodes hg ! n))" by (simp add: nodes_in_def nat_less_iff)
    show "distinct (nd_in (hg_nodes hg ! n))" by (rule consistentD(5) [OF c that])
  qed
  let ?run = "\<lambda>m. for_each [0..<m] (\<lambda>n. push_weights exact_reals posts (nd_in (hg_nodes hg ! n))) (hg_edges hg)"
  let ?sum = "\<lambda>n. \<Sum>j\<leftarrow>nd_in (hg_nodes hg ! n). lv_value (posts ! nat j)"
  define J where "J m z edges' \<longleftrightarrow> (\<forall>n. lv_prob (z n)) \<and> (\<forall>n < m. lv_value (z n) = ?sum n) \<and> length edges' = ?E \<and>
      (\<forall>i < ?E. edges' ! i = (if ?h i < m then (hg_edges hg ! i)\<lparr>ed_prob := div_eq exact_reals (posts ! i) (z (?h i))\<rparr> else hg_edges hg ! i))"
    for m :: nat and z edges'
  have "\<exists>z edges'. ?run m = Some edges' \<and> J m z edges'" if "m \<le> ?N" for m
    using that
  proof (induction m)
    case 0
    have "J 0 (\<lambda>_. lv_Zero exact_reals) (hg_edges hg)" by (simp add: J_def lv_prob_simps)
    then show ?case by auto
  next
    case (Suc m)
    then obtain z edges' where run: "?run m = Some edges'" and J: "J m z edges'" by auto
    have m: "m < ?N" using Suc.prems by simp
    have len: "length edges' = ?E" using J by (simp add: J_def)
    obtain y edges2 where step: "push_weights exact_reals posts (nd_in (hg_nodes hg ! m)) edges' = Some edges2" "lv_prob y"
      "lv_value y = ?sum m" "length edges2 = ?E"
      "\<And>i. i < ?E \<Longrightarrow> edges2 ! i = (if int i \<in> set (nd_in (hg_nodes hg ! m)) then (edges' ! i)\<lparr>ed_prob := div_eq exact_reals (posts ! i) y\<rparr> else edges' ! i)"
      using push_weights_run [OF posts ins [OF m] len] by blast
    let ?z = "z(m := y)"
    have "edges2 ! i = (if ?h i < Suc m then (hg_edges hg ! i)\<lparr>ed_prob := div_eq exact_reals (posts ! i) (?z (?h i))\<rparr> else hg_edges hg ! i)" if i: "i < ?E" for i
    proof -
      have "edges' ! i = (if ?h i < m then (hg_edges hg ! i)\<lparr>ed_prob := div_eq exact_reals (posts ! i) (z (?h i))\<rparr> else hg_edges hg ! i)"
        using J i by (simp add: J_def)
      then show ?thesis
        unfolding step(5) [OF i] mem [OF m i] by (cases "?h i = m") simp_all
    qed
    then have "J (Suc m) ?z edges2"
      using J step(2-4) by (simp add: J_def less_Suc_eq)
    moreover have "?run (Suc m) = Some edges2"
      using run step(1) by (simp add: for_each_append)
    ultimately show ?case by blast
  qed
  from this [OF order_refl] obtain z edges' where r: "?run ?N = Some edges'" and J: "J ?N z edges'" by blast
  have "?h i < ?N" if "i < ?E" for i
    using consistentD(4) [OF c that] by (auto simp: vsize_def nat_less_iff)
  then show ?thesis
    using r J by (subst for_each_nth) (simp add: J_def; blast)
qed

text \<open>The posterior of an edge over the sum for its head is its share.\<close>

lemma share_posterior:
  assumes top: "topological hg" and c: "consistent_hg {} hg" and st: "simple_tails hg" and ne: "hg_nodes hg \<noteq> []" and f: "0 \<le> f" "f < vsize (hg_edges hg)"
    and Oc: "\<And>n. n < length (hg_nodes hg) \<Longrightarrow> Oc n = (if n = length (hg_nodes hg) - 1 then 1 else 0) +
      (\<Sum>g<length (hg_nodes hg). Oc g * a_val p hg g n)"
    and pos: "Oc (nat (ed_head (hg_edges hg ! nat f))) \<noteq> 0" "i_val p hg (nat (ed_head (hg_edges hg ! nat f))) \<noteq> 0"
  shows "(\<Sum>e\<leftarrow>nd_in (hg_nodes hg ! nat (ed_head (hg_edges hg ! nat f))). s_val p hg e (length (hg_nodes hg) - 1)) \<noteq> 0 \<and>
    s_val p hg f (length (hg_nodes hg) - 1) /
      (\<Sum>e\<leftarrow>nd_in (hg_nodes hg ! nat (ed_head (hg_edges hg ! nat f))). s_val p hg e (length (hg_nodes hg) - 1)) = share p hg f"
proof -
  let ?g = "length (hg_nodes hg) - 1"
  let ?h = "nat (ed_head (hg_edges hg ! nat f))"
  let ?e = "\<lambda>e. p e * prod_list (map (\<lambda>t. i_val p hg (nat t)) (tails_of hg e))"
  have s: "s_val p hg e ?g = Oc (nat (ed_head (hg_edges hg ! nat e))) * ?e e" if "0 \<le> e" "e < vsize (hg_edges hg)" for e
    using expected_counts [where p = p and Oc = Oc and scale = 1, OF top c st that ne Oc] by simp
  have h: "?h < length (hg_nodes hg)" using consistentD(4) [OF c, of "nat f"] f by (auto simp: vsize_def nat_less_iff)
  have "map (\<lambda>e. s_val p hg e ?g) (nd_in (hg_nodes hg ! ?h)) = map (\<lambda>e. Oc ?h * ?e e) (nd_in (hg_nodes hg ! ?h))"
  proof (rule map_cong [OF refl])
    fix e assume "e \<in> set (nd_in (hg_nodes hg ! ?h))"
    then have "0 \<le> e" "e < vsize (hg_edges hg)" "ed_head (hg_edges hg ! nat e) = int ?h"
      using consistentD(6) [OF c h, of e] by auto
    then show "s_val p hg e ?g = Oc ?h * ?e e" using s [of e] by simp
  qed
  then have total: "(\<Sum>e\<leftarrow>nd_in (hg_nodes hg ! ?h). s_val p hg e ?g) = Oc ?h * i_val p hg ?h"
    unfolding i_val_rec [OF top h] by (simp only: sum_list_const_mult)
  then show ?thesis
    using pos s [OF f] by (simp add: share_def)
qed

text \<open>C25. \<open>PushWeightsToGoal\<close> changes nothing but the probabilities of the edges, and it makes them
  conditional: every derivation of the goal of positive probability gets as its new probability its old
  one (with the edges' probabilities scaled) divided by the sum over all derivations of the goal, which
  is the value returned.\<close>

theorem PushWeightsToGoal_conditional:
  assumes pg: "prob_graph hg" and st: "simple_tails hg" and ne: "hg_nodes hg \<noteq> []" and alpha: "0 < alpha" and ord: "order_ok ord"
  shows "\<exists>z hg'. PushWeightsToGoal exact_reals ord (Fin alpha) hg = Some (z, hg') \<and>
    hg_nodes hg' = hg_nodes hg \<and> list_all2 (\<lambda>e e'. e' = e\<lparr>ed_prob := ed_prob e'\<rparr>) (hg_edges hg) (hg_edges hg') \<and>
    lv_value z = (\<Sum>d | derives hg (nat (GoalNode hg)) d. deriv_prob (\<lambda>e. edge_value hg e powr alpha) d) \<and>
    (\<forall>d. derives hg (nat (GoalNode hg)) d \<and> 0 < deriv_prob (\<lambda>e. edge_value hg e powr alpha) d \<longrightarrow>
      deriv_prob (edge_value hg') d = deriv_prob (\<lambda>e. edge_value hg e powr alpha) d / lv_value z)"
proof -
  let ?g = "length (hg_nodes hg) - 1"
  let ?E = "length (hg_edges hg)"
  let ?p = "\<lambda>e. lv_value (scaled_of alpha hg e)"
  let ?h = "\<lambda>f. nat (ed_head (hg_edges hg ! nat f))"
  have top: "topological hg" and c: "consistent_hg {} hg" and pr: "\<forall>e \<in> set (hg_edges hg). lv_prob (ed_prob e)"
    using pg by (auto simp: prob_graph_def)
  have g: "?g < length (hg_nodes hg)" "nat (GoalNode hg) = ?g"
    using ne by (cases "hg_nodes hg"; simp add: GoalNode_def vsize_def)+
  have pnn: "0 \<le> ?p e" for e by (rule lv_prob_nonneg [OF scaled_of_prob [OF pr alpha]])
  have same: "deriv_prob ?p d = deriv_prob (\<lambda>e. edge_value hg e powr alpha) d" if "derives hg ?g d" for d
    by (rule deriv_prob_cong [OF top _ that]) (simp add: scaled_of_value [OF pr alpha] edge_value_def prob_of_def)
  obtain z posts where post: "ComputeEdgePosteriors exact_reals ord (Fin alpha) hg = Some (z, posts)" "lv_value z = i_val ?p hg ?g"
    "probs ?E posts" "\<And>f. f < ?E \<Longrightarrow> lv_value (posts ! f) = s_val ?p hg (int f) ?g"
    using posteriors_run [OF pg st ne alpha ord] by blast
  obtain zs edges' where push: "for_each (hg_nodes hg) (\<lambda>node. push_weights exact_reals posts (nd_in node)) (hg_edges hg) = Some edges'"
    "\<And>n. lv_prob (zs n)" "\<And>n. n < length (hg_nodes hg) \<Longrightarrow> lv_value (zs n) = (\<Sum>j\<leftarrow>nd_in (hg_nodes hg ! n). lv_value (posts ! nat j))"
    "length edges' = ?E"
    "\<And>i. i < ?E \<Longrightarrow> edges' ! i = (hg_edges hg ! i)\<lparr>ed_prob := div_eq exact_reals (posts ! i) (zs (nat (ed_head (hg_edges hg ! i))))\<rparr>"
    using push_nodes [OF c post(3)] by blast
  let ?hg = "hg\<lparr>hg_edges := edges'\<rparr>"
  have run: "PushWeightsToGoal exact_reals ord (Fin alpha) hg = Some (z, ?hg)"
    using post(1) push(1) by (simp add: PushWeightsToGoal_def)
  obtain Oc where Oc_all: "\<forall>n < length (hg_nodes hg). 0 \<le> Oc n \<and> Oc n = (if n = ?g then 1 else 0) +
    (\<Sum>k<length (hg_nodes hg). Oc k * a_val ?p hg k n)"
    using outside_exists [where wt = "scaled_of alpha hg", OF top c ne scaled_of_prob [OF pr alpha]] by (elim exE)
  note Oc = Oc_all [THEN spec, THEN mp]
  have zs: "lv_value (zs n) = (\<Sum>e\<leftarrow>nd_in (hg_nodes hg ! n). s_val ?p hg e ?g)" if n: "n < length (hg_nodes hg)" for n
  proof -
    have eq: "map (\<lambda>j. lv_value (posts ! nat j)) (nd_in (hg_nodes hg ! n)) = map (\<lambda>e. s_val ?p hg e ?g) (nd_in (hg_nodes hg ! n))"
      by (rule map_cong [OF refl]) (use topologicalD(1) [OF top n] post(4) in \<open>auto simp: vsize_def nat_less_iff\<close>)
    show ?thesis unfolding push(3) [OF n] eq ..
  qed
  have new: "edge_value ?hg f = share ?p hg f"
    if f: "0 \<le> f" "f < vsize (hg_edges hg)" and pos: "0 < Oc (?h f)" "0 < i_val ?p hg (?h f)" for f
  proof -
    have fE: "nat f < ?E" using f by (simp add: vsize_def nat_less_iff)
    have h: "?h f < length (hg_nodes hg)" using consistentD(4) [OF c fE] by (auto simp: vsize_def nat_less_iff)
    have sh: "lv_value (zs (?h f)) \<noteq> 0 \<and> s_val ?p hg f ?g / lv_value (zs (?h f)) = share ?p hg f"
      unfolding zs [OF h] by (rule share_posterior [OF top c st ne f conjunct2 [OF Oc]]) (use pos in auto)
    have "lv_prob (posts ! nat f)" by (rule probsD(1) [OF post(3) fE])
    then have "lv_value (div_eq exact_reals (posts ! nat f) (zs (?h f))) = lv_value (posts ! nat f) / lv_value (zs (?h f))"
      using div_eq_value(2) push(2) sh by (simp add: lv_prob_def)
    then show ?thesis
      using sh post(4) [OF fE] push(5) [OF fE] f by (simp add: edge_value_def)
  qed
  have goal: "0 < Oc ?g"
  proof -
    have an: "0 \<le> a_val ?p hg k m" for k m
      unfolding a_val_def i_val_def others_def d_sum_def
      by (intro sum_list_nonneg) (auto intro!: sum_list_nonneg mult_nonneg_nonneg pnn prod_list_nonneg deriv_nonneg)
    have "0 \<le> (\<Sum>k<length (hg_nodes hg). Oc k * a_val ?p hg k ?g)"
      by (intro sum_nonneg mult_nonneg_nonneg an) (use Oc in blast)
    then show ?thesis using conjunct2 [OF Oc [OF g(1)]] by simp
  qed
  have cond: "deriv_prob (edge_value ?hg) d = deriv_prob ?p d / i_val ?p hg ?g" if d: "derives hg ?g d" "0 < deriv_prob ?p d" for d
  proof -
    have "deriv_prob (edge_value ?hg) d = deriv_prob (share ?p hg) d"
      by (rule deriv_prob_used) (use used_pos [where p = ?p and Oc = Oc, OF top c pnn Oc d goal] new in blast)
    then show ?thesis
      using share_prob [where p = ?p, OF top c pnn d] by simp
  qed
  have "i_val ?p hg ?g = (\<Sum>d | derives hg ?g d. deriv_prob (\<lambda>e. edge_value hg e powr alpha) d)"
    unfolding i_val_def d_sum_derives [OF top c g(1)] by (rule sum.cong) (auto simp: same)
  moreover have "list_all2 (\<lambda>e e'. e' = e\<lparr>ed_prob := ed_prob e'\<rparr>) (hg_edges hg) edges'"
    using push(4,5) by (auto simp: list_all2_conv_all_nth)
  ultimately show ?thesis
    using run cond same post(2) unfolding g(2) by (intro exI [of _ z] exI [of _ ?hg]) simp
qed

lemma PushWeightsToGoal_conditional_witness:
  "\<exists>z hg'. PushWeightsToGoal exact_reals sorted_keys (Fin 1) demo_prob_hg = Some (z, hg') \<and>
    deriv_prob (edge_value hg') (Deriv 2 [Deriv 0 []]) = 1 / 2"
proof -
  have g: "nat (GoalNode demo_prob_hg) = Suc 0" by (simp add: GoalNode_def demo_hg_def)
  have v: "edge_value demo_prob_hg 0 = 1" "edge_value demo_prob_hg 1 = 1" "edge_value demo_prob_hg 2 = 1 / 2"
    by (simp_all add: edge_value_def demo_hg_def demo_edge_def lv_prob_simps LogVal_double_value)
  have "Deriv 2 [Deriv 0 []] \<in> {d. derives demo_prob_hg (Suc 0) d}"
    unfolding demo_hg_derives by simp
  then have d: "derives demo_prob_hg (Suc 0) (Deriv 2 [Deriv 0 []])" by simp
  from PushWeightsToGoal_conditional [OF demo_prob_graph demo_hg_simps(3) zero_less_one order_sorted_keys, unfolded g]
  obtain z hg' where run: "PushWeightsToGoal exact_reals sorted_keys (Fin 1) demo_prob_hg = Some (z, hg')"
    and z: "lv_value z = (\<Sum>d | derives demo_prob_hg (Suc 0) d. deriv_prob (\<lambda>e. edge_value demo_prob_hg e powr 1) d)"
    and c: "\<forall>d. derives demo_prob_hg (Suc 0) d \<and> 0 < deriv_prob (\<lambda>e. edge_value demo_prob_hg e powr 1) d \<longrightarrow>
      deriv_prob (edge_value hg') d = deriv_prob (\<lambda>e. edge_value demo_prob_hg e powr 1) d / lv_value z"
    by (elim exE conjE) (rule that)
  have "lv_value z = 1"
    unfolding z demo_hg_derives by (simp add: v)
  then have "deriv_prob (edge_value hg') (Deriv 2 [Deriv 0 []]) = 1 / 2"
    using c [THEN spec, of "Deriv 2 [Deriv 0 []]"] d by (simp add: v)
  then show ?thesis using run by blast
qed

end
