(* ===== verification/Viterbi.thy ===== *)
theory Viterbi
  imports Pushing
begin

text \<open>
  The best derivation of a hypergraph (\<open>decoder/viterbi.h\<close>, \<open>decoder/viterbi.cc\<close>). A traversal is
  the function called on the best edge of a node, the results of its tails and a fresh result; it may fail.
  Pointers to edges are the edges. The traversals that print trees are left out.
\<close>

type_synonym ('f, 'w, 'r) traversal = "('f, 'w) edge \<Rightarrow> 'r list \<Rightarrow> 'r \<Rightarrow> 'r option"

section \<open>The algorithm\<close>

definition viterbi_score :: "'w weights \<Rightarrow> (('f, 'p) edge \<Rightarrow> 'w option) \<Rightarrow> 'w list \<Rightarrow> ('f, 'p) edge \<Rightarrow> 'w option" where
  "viterbi_score W weight vit_weight e = do {
     score \<leftarrow> weight e;
     for_each (ed_tails e) (\<lambda>k score. map_option (w_mul W score) (vat vit_weight k)) score }"

definition viterbi_best_edge :: "'w weights \<Rightarrow> ('w \<Rightarrow> 'w \<Rightarrow> bool) \<Rightarrow> (('f, 'p) edge \<Rightarrow> 'w option) \<Rightarrow> ('f, 'p) hypergraph \<Rightarrow> int \<Rightarrow> int list \<Rightarrow>
    'w list \<Rightarrow> (('f, 'p) edge option \<times> 'w list) option" where
  "viterbi_best_edge W wless weight hg i in_edges vit_weight = for_each in_edges (\<lambda>eid (edge_best, vit_weight). do {
     e \<leftarrow> vat (hg_edges hg) eid;
     score \<leftarrow> viterbi_score W weight vit_weight e;
     cur \<leftarrow> vat vit_weight i;
     if edge_best = None \<or> wless cur score
     then map_option (Pair (Some e)) (vset vit_weight i score)
     else Some (edge_best, vit_weight) }) (None, vit_weight)"

definition viterbi_node :: "'w weights \<Rightarrow> ('w \<Rightarrow> 'w \<Rightarrow> bool) \<Rightarrow> (('f, 'p) edge \<Rightarrow> 'w option) \<Rightarrow> ('f, 'p, 'r) traversal \<Rightarrow> ('f, 'p) hypergraph \<Rightarrow>
    int \<Rightarrow> 'w list \<times> 'r list \<Rightarrow> ('w list \<times> 'r list) option" where
  "viterbi_node W wless weight traverse hg i s = do {
     let (vit_weight, vit_result) = s;
     cur_node \<leftarrow> vat (hg_nodes hg) i;
     if nd_in cur_node = [] then map_option (\<lambda>ws. (ws, vit_result)) (vset vit_weight i (w_one W))
     else do {
       (edge_best, vit_weight) \<leftarrow> viterbi_best_edge W wless weight hg i (nd_in cur_node) vit_weight;
       edgeb \<leftarrow> edge_best;
       antsb \<leftarrow> those (map (vat vit_result) (ed_tails edgeb));
       cur \<leftarrow> vat vit_result i;
       r \<leftarrow> traverse edgeb antsb cur;
       vit_result \<leftarrow> vset vit_result i r;
       Some (vit_weight, vit_result) } }"

text \<open>\<open>r0\<close> is a default constructed result, \<open>result\<close> the caller's, which an empty graph leaves alone.\<close>

definition Viterbi :: "'w weights \<Rightarrow> ('w \<Rightarrow> 'w \<Rightarrow> bool) \<Rightarrow> (('f, 'p) edge \<Rightarrow> 'w option) \<Rightarrow> ('f, 'p, 'r) traversal \<Rightarrow> 'r \<Rightarrow> 'r \<Rightarrow>
    ('f, 'p) hypergraph \<Rightarrow> ('w \<times> 'r) option" where
  "Viterbi W wless weight traverse r0 result hg = do {
     let num_nodes = vsize (hg_nodes hg);
     (vit_weight, vit_result) \<leftarrow> for_each (int_range 0 num_nodes) (viterbi_node W wless weight traverse hg)
       (replicate (nat num_nodes) (w_zero W), replicate (nat num_nodes) r0);
     if vit_result = [] then Some (w_zero W, result) else Some (last vit_weight, last vit_result) }"

definition Viterbi_EdgeProb :: "('d, 'z) log_floats_scheme \<Rightarrow> ('f, 'd logval, 'r) traversal \<Rightarrow> 'r \<Rightarrow> 'r \<Rightarrow> ('f, 'd logval) hypergraph \<Rightarrow>
    ('d logval \<times> 'r) option" where
  "Viterbi_EdgeProb fl = Viterbi (prob_weights fl) (lv_less fl) EdgeProb"

section \<open>Traversals\<close>

definition PathLengthTraversal :: "('f, 'w, int) traversal" where
  "PathLengthTraversal e ants result = Some (fold (\<lambda>a r. r + a) ants 1)"

definition ESentenceTraversal :: "('f, 'w, int list) traversal" where
  "ESentenceTraversal e ants result = do { rule \<leftarrow> ed_rule e; ESubstitute rule ants }"

definition ELengthTraversal :: "('f, 'w, int) traversal" where
  "ELengthTraversal e ants result = do { rule \<leftarrow> ed_rule e; Some (fold (\<lambda>a r. r + a) ants (ELength rule - TRule_Arity rule)) }"

definition FSentenceTraversal :: "('f, 'w, int list) traversal" where
  "FSentenceTraversal e ants result = do { rule \<leftarrow> ed_rule e; FSubstitute rule ants }"

definition ViterbiPathTraversal :: "('f, 'w, ('f, 'w) edge list) traversal" where
  "ViterbiPathTraversal e ants result = Some (fold (\<lambda>a r. fold (\<lambda>x r. r @ [x]) a r) ants result @ [e])"

definition FeatureVectorTraversal :: "'v sv_ops \<Rightarrow> 'v hash_order \<Rightarrow> ('v svec, 'w, 'v svec) traversal" where
  "FeatureVectorTraversal W ord e ants result =
     Some (sv_plus_eq 7 W ord (fold (\<lambda>a r. sv_plus_eq 7 W ord r a) ants result) (ed_features e))"

section \<open>What is computed with them\<close>

definition ViterbiRules :: "('d, 'z) log_floats_scheme \<Rightarrow> ('f trule \<Rightarrow> string) \<Rightarrow> ('f, 'd logval) hypergraph \<Rightarrow> string option" where
  "ViterbiRules fl as_string hg = do {
     (_, edges) \<leftarrow> Viterbi_EdgeProb fl ViterbiPathTraversal [] [] hg;
     lines \<leftarrow> those (map (\<lambda>e. map_option (\<lambda>r. as_string r @ [CHR 0x0A]) (ed_rule e)) edges);
     Some (concat lines) }"

definition ViterbiESentence :: "('d, 'z) log_floats_scheme \<Rightarrow> int list \<Rightarrow> ('f, 'd logval) hypergraph \<Rightarrow> ('d logval \<times> int list) option" where
  "ViterbiESentence fl result hg = Viterbi_EdgeProb fl ESentenceTraversal [] result hg"

definition ViterbiFSentence :: "('d, 'z) log_floats_scheme \<Rightarrow> int list \<Rightarrow> ('f, 'd logval) hypergraph \<Rightarrow> ('d logval \<times> int list) option" where
  "ViterbiFSentence fl result hg = Viterbi_EdgeProb fl FSentenceTraversal [] result hg"

definition ViterbiELength :: "('d, 'z) log_floats_scheme \<Rightarrow> ('f, 'd logval) hypergraph \<Rightarrow> int option" where
  "ViterbiELength fl hg = map_option snd (Viterbi_EdgeProb fl ELengthTraversal 0 (-1) hg)"

definition ViterbiPathLength :: "('d, 'z) log_floats_scheme \<Rightarrow> ('f, 'd logval) hypergraph \<Rightarrow> int option" where
  "ViterbiPathLength fl hg = map_option snd (Viterbi_EdgeProb fl PathLengthTraversal 0 (-1) hg)"

definition close_enough :: "'d log_floats \<Rightarrow> 'd \<Rightarrow> 'd \<Rightarrow> 'd \<Rightarrow> bool" where
  "close_enough fl a b epsilon = (let abs = fl_abs (floats.truncate fl); diff = abs (fl_sub fl a b);
     le = (\<lambda>x y. fl_less fl x y \<or> lf_eq fl x y) in
     le diff (fl_mul fl epsilon (abs a)) \<or> le diff (fl_mul fl epsilon (abs b)))"

text \<open>The features, whether the weights disagree with the probability, or an exception.\<close>

definition ViterbiFeatures :: "'d log_floats \<Rightarrow> 'd \<Rightarrow> 'd sv_ops \<Rightarrow> 'd hash_order \<Rightarrow> 'd list option \<Rightarrow> bool \<Rightarrow>
    ('d svec, 'd logval) hypergraph \<Rightarrow> ('d svec \<times> bool) option" where
  "ViterbiFeatures fl EPSILON W ord weights fatal_dotprod_disagreement hg = do {
     (p, r) \<leftarrow> Viterbi_EdgeProb fl (FeatureVectorTraversal W ord) empty_svec empty_svec hg;
     (case weights of
        None \<Rightarrow> Some (r, False)
      | Some ws \<Rightarrow> do {
          let complaint = (\<not> close_enough fl (lv_log fl p) (sv_dot_vector W ord r ws) EPSILON);
          check (\<not> (complaint \<and> fatal_dotprod_disagreement));
          Some (r, complaint) }) }"

section \<open>The result belongs to a best derivation\<close>

text \<open>The traversal applied along a derivation.\<close>

fun deriv_result :: "('f, 'w, 'r) traversal \<Rightarrow> 'r \<Rightarrow> ('f, 'w) hypergraph \<Rightarrow> deriv \<Rightarrow> 'r option" where
  "deriv_result traverse r0 hg (Deriv e ds) = do {
     ed \<leftarrow> vat (hg_edges hg) e;
     rs \<leftarrow> those (map (deriv_result traverse r0 hg) ds);
     traverse ed rs r0 }"

lemma those_Some_iff: "those xs = Some ys \<longleftrightarrow> list_all2 (\<lambda>x y. x = Some y) xs ys"
proof (induction xs arbitrary: ys)
  case (Cons x xs)
  then show ?case by (cases x) (auto simp: list_all2_Cons1 split: option.splits)
qed auto

lemma those_map: "(\<And>x. x \<in> set xs \<Longrightarrow> f x = Some (g x)) \<Longrightarrow> those (map f xs) = Some (map g xs)"
  by (induction xs) auto

lemma prod_list_mono:
  "list_all2 (\<lambda>a b. (0 :: real) \<le> a \<and> a \<le> b) xs ys \<Longrightarrow> 0 \<le> prod_list xs \<and> prod_list xs \<le> prod_list ys"
  by (induction rule: list_all2_induct) (auto intro!: mult_mono)

text \<open>What is known of a processed node; \<open>D\<close> is the derivation found for each node.\<close>

definition best_at :: "('f, xreal logval, 'r) traversal \<Rightarrow> 'r \<Rightarrow> ('f, xreal logval) hypergraph \<Rightarrow> (nat \<Rightarrow> deriv) \<Rightarrow> nat \<Rightarrow> xreal logval \<Rightarrow> 'r \<Rightarrow> bool" where
  "best_at traverse r0 hg D n w r \<longleftrightarrow> lv_prob w \<and> (\<forall>d'. derives hg n d' \<longrightarrow> deriv_prob (edge_value hg) d' \<le> lv_value w) \<and>
     derives hg n (D n) \<and> deriv_result traverse r0 hg (D n) = Some r \<and> lv_value w = deriv_prob (edge_value hg) (D n) \<and>
     (\<exists>e \<in> set (nd_in (hg_nodes hg ! n)). D n = Deriv e (map (\<lambda>t. D (nat t)) (ed_tails (hg_edges hg ! nat e))))"

lemma best_at_update:
  assumes "topological hg" "n < i" "i < length (hg_nodes hg)" "best_at traverse r0 hg D n w r"
  shows "best_at traverse r0 hg (D(i := d)) n w r"
proof -
  have "map (\<lambda>t. (D(i := d)) (nat t)) (ed_tails (hg_edges hg ! nat e)) = map (\<lambda>t. D (nat t)) (ed_tails (hg_edges hg ! nat e))"
    if "e \<in> set (nd_in (hg_nodes hg ! n))" for e
    using topologicalD(2) [OF assms(1) _ that] assms(2,3) by (fastforce simp: nat_less_iff)
  then show ?thesis using assms by (auto simp: best_at_def)
qed

lemma viterbi_score_value:
  assumes "lv_prob (ed_prob e)" "\<And>t. t \<in> set (ed_tails e) \<Longrightarrow> 0 \<le> t \<and> t < vsize ws \<and> lv_prob (ws ! nat t)"
  shows "\<exists>s. viterbi_score (prob_weights exact_reals) EdgeProb ws e = Some s \<and> lv_prob s \<and>
    lv_value s = lv_value (ed_prob e) * prod_list (map (\<lambda>t. lv_value (ws ! nat t)) (ed_tails e))"
proof -
  have "for_each ts (\<lambda>k score. map_option (w_mul (prob_weights exact_reals) score) (vat ws k)) a =
      Some (fold (\<lambda>t s. times_eq exact_reals s (ws ! nat t)) ts a)" if "set ts \<subseteq> set (ed_tails e)" for ts a
    using that assms(2) by (induction ts arbitrary: a) (auto simp: vat_eq vsize_def prob_weights_def)
  then show ?thesis
    using fold_times_value [of "ed_prob e" "ed_tails e" "\<lambda>t. ws ! nat t"] assms by (simp add: viterbi_score_def EdgeProb_def)
qed

text \<open>The loop over the in-edges keeps an edge with the greatest score.\<close>

lemma viterbi_best_edge_max:
  assumes es: "es \<noteq> []" "\<And>e. e \<in> set es \<Longrightarrow> 0 \<le> e \<and> e < vsize (hg_edges hg) \<and> lv_prob (ed_prob (hg_edges hg ! nat e))"
    and i: "i < length ws"
    and tails: "\<And>e t. e \<in> set es \<Longrightarrow> t \<in> set (ed_tails (hg_edges hg ! nat e)) \<Longrightarrow> 0 \<le> t \<and> t < int i \<and> lv_prob (ws ! nat t)"
  shows "\<exists>b w. viterbi_best_edge (prob_weights exact_reals) (lv_less exact_reals) EdgeProb hg (int i) es ws =
      Some (Some (hg_edges hg ! nat b), ws[i := w]) \<and> b \<in> set es \<and> lv_prob w \<and>
    lv_value w = edge_value hg b * prod_list (map (\<lambda>t. lv_value (ws ! nat t)) (ed_tails (hg_edges hg ! nat b))) \<and>
    (\<forall>e \<in> set es. edge_value hg e * prod_list (map (\<lambda>t. lv_value (ws ! nat t)) (ed_tails (hg_edges hg ! nat e))) \<le> lv_value w)"
proof -
  let ?val = "\<lambda>e. edge_value hg e * prod_list (map (\<lambda>t. lv_value (ws ! nat t)) (ed_tails (hg_edges hg ! nat e)))"
  let ?I = "\<lambda>seen (best, ws'). if seen = [] then best = None \<and> ws' = ws else
    (\<exists>b w. best = Some (hg_edges hg ! nat b) \<and> ws' = ws[i := w] \<and> b \<in> set seen \<and> lv_prob w \<and> lv_value w = ?val b \<and>
      (\<forall>e \<in> set seen. ?val e \<le> lv_value w))"
  have "\<exists>t. viterbi_best_edge (prob_weights exact_reals) (lv_less exact_reals) EdgeProb hg (int i) es ws = Some t \<and> ?I es t"
    unfolding viterbi_best_edge_def
  proof (rule for_each_total [where I = ?I])
    fix ys e zs s
    assume split: "es = ys @ e # zs" and I: "?I ys s"
    have e: "e \<in> set es" using split by simp
    obtain best ws' where s: "s = (best, ws')" by (cases s)
    obtain a where ws': "ws' = ws[i := a]"
      using I by (cases "ys = []") (auto simp: s intro: that [of "ws ! i"])
    have low: "0 \<le> t \<and> t < vsize ws' \<and> lv_prob (ws' ! nat t) \<and> ws' ! nat t = ws ! nat t" if "t \<in> set (ed_tails (hg_edges hg ! nat e))" for t
      using tails [OF e that] i by (auto simp: ws' vsize_def nat_less_iff)
    have eq: "map (\<lambda>t. lv_value (ws' ! nat t)) (ed_tails (hg_edges hg ! nat e)) = map (\<lambda>t. lv_value (ws ! nat t)) (ed_tails (hg_edges hg ! nat e))"
      using low by simp
    have "\<exists>s. viterbi_score (prob_weights exact_reals) EdgeProb ws' (hg_edges hg ! nat e) = Some s \<and> lv_prob s \<and>
        lv_value s = lv_value (ed_prob (hg_edges hg ! nat e)) * prod_list (map (\<lambda>t. lv_value (ws' ! nat t)) (ed_tails (hg_edges hg ! nat e)))"
      by (rule viterbi_score_value) (use es(2) [OF e] low in blast)+
    then obtain sc where sc: "viterbi_score (prob_weights exact_reals) EdgeProb ws' (hg_edges hg ! nat e) = Some sc" "lv_prob sc" "lv_value sc = ?val e"
      unfolding eq by (auto simp: edge_value_def)
    have ve: "vat (hg_edges hg) e = Some (hg_edges hg ! nat e)" and vi: "vat ws' (int i) = Some a" "\<And>x. vset ws' (int i) x = Some (ws[i := x])"
      using es(2) [OF e] i by (simp_all add: vat_eq vsize_def ws')
    show "\<exists>s'. (case s of (edge_best, vit_weight) \<Rightarrow> do {
        e \<leftarrow> vat (hg_edges hg) e;
        score \<leftarrow> viterbi_score (prob_weights exact_reals) EdgeProb vit_weight e;
        cur \<leftarrow> vat vit_weight (int i);
        if edge_best = None \<or> lv_less exact_reals cur score then map_option (Pair (Some e)) (vset vit_weight (int i) score)
        else Some (edge_best, vit_weight) }) = Some s' \<and> ?I (ys @ [e]) s'"
    proof (cases "best = None \<or> lv_less exact_reals a sc")
      case True
      have "?val f \<le> lv_value sc" if "f \<in> set (ys @ [e])" for f
      proof (cases "ys = []")
        case False
        then obtain b w where "ws' = ws[i := w]" "lv_prob w" "\<forall>f \<in> set ys. ?val f \<le> lv_value w" "best \<noteq> None"
          using I s by auto
        moreover have "a = w" using ws' \<open>ws' = ws[i := w]\<close> i by (metis nth_list_update_eq)
        ultimately have "lv_value w < lv_value sc" using True sc(2) \<open>lv_prob w\<close> \<open>best \<noteq> None\<close> by (auto simp: lv_prob_less)
        then show ?thesis using that \<open>\<forall>f \<in> set ys. ?val f \<le> lv_value w\<close> sc(3) by fastforce
      qed (use that sc(3) in auto)
      then show ?thesis
        using True ve vi sc by (auto simp: s intro!: exI [of _ e])
    next
      case False
      then obtain b w where bw: "best = Some (hg_edges hg ! nat b)" "ws' = ws[i := w]" "b \<in> set ys" "lv_prob w" "lv_value w = ?val b"
        "\<forall>f \<in> set ys. ?val f \<le> lv_value w"
        using I s by (cases "ys = []") auto
      have "a = w" using ws' bw(2) i by (metis nth_list_update_eq)
      then have "?val e \<le> lv_value w" using False sc bw by (simp add: lv_prob_less)
      then show ?thesis
        using False ve vi sc bw by (auto simp: s intro!: exI [of _ b] exI [of _ w])
    qed
  qed simp
  then show ?thesis using es(1) by (auto split: prod.splits)
qed

text \<open>The score of an edge bounds the probability of the derivations with it on top.\<close>

lemma deriv_prob_bound:
  assumes "0 \<le> edge_value hg e" "list_all2 (\<lambda>t d. derives hg (nat t) d) ts ds" "\<And>n d. derives hg n d \<Longrightarrow> 0 \<le> deriv_prob (edge_value hg) d"
    and "\<And>t d. t \<in> set ts \<Longrightarrow> derives hg (nat t) d \<Longrightarrow> deriv_prob (edge_value hg) d \<le> f t"
  shows "deriv_prob (edge_value hg) (Deriv e ds) \<le> edge_value hg e * prod_list (map f ts)"
proof -
  have "list_all2 (\<lambda>a b. 0 \<le> a \<and> a \<le> b) (map (deriv_prob (edge_value hg)) ds) (map f ts)"
    using assms(2-4) by (fastforce simp: list_all2_conv_all_nth)
  then show ?thesis
    using prod_list_mono assms(1) by (auto intro: mult_left_mono)
qed

lemma edge_value_nonneg: "prob_graph hg \<Longrightarrow> 0 \<le> e \<Longrightarrow> e < vsize (hg_edges hg) \<Longrightarrow> 0 \<le> edge_value hg e"
  by (simp add: edge_value_def prob_graph_def lv_prob_nonneg vsize_def nat_less_iff)

lemma derives_prob_nonneg:
  assumes pg: "prob_graph hg"
  shows "derives hg n d \<Longrightarrow> 0 \<le> deriv_prob (edge_value hg) d"
proof (induction rule: derives.induct)
  case (derives_edge n e ds)
  have "0 \<le> edge_value hg e"
    using pg derives_edge.hyps topologicalD(1) by (intro edge_value_nonneg) (auto simp: prob_graph_def)
  moreover have "\<forall>d \<in> set ds. 0 \<le> deriv_prob (edge_value hg) d"
    using derives_edge by (auto simp: list_all2_conv_all_nth in_set_conv_nth)
  ultimately show ?case
    by (auto intro!: mult_nonneg_nonneg prod_list_nonneg)
qed

lemma viterbi_node_best:
  assumes pg: "prob_graph hg" and i: "i < length (hg_nodes hg)" and ne: "nd_in (hg_nodes hg ! i) \<noteq> []"
    and len: "length ws = length (hg_nodes hg)" "length rs = length (hg_nodes hg)" and r0: "rs ! i = r0"
    and low: "\<And>n. n < i \<Longrightarrow> best_at traverse r0 hg D n (ws ! n) (rs ! n)"
    and total: "\<And>e ants. e \<in> set (hg_edges hg) \<Longrightarrow> length ants = length (ed_tails e) \<Longrightarrow> \<exists>r. traverse e ants r0 = Some r"
  shows "\<exists>w r d. viterbi_node (prob_weights exact_reals) (lv_less exact_reals) EdgeProb traverse hg (int i) (ws, rs) =
      Some (ws[i := w], rs[i := r]) \<and> best_at traverse r0 hg (D(i := d)) i w r"
proof -
  have top: "topological hg" and pr: "\<forall>e \<in> set (hg_edges hg). lv_prob (ed_prob e)"
    using pg by (auto simp: prob_graph_def)
  let ?es = "nd_in (hg_nodes hg ! i)" and ?T = "\<lambda>e. ed_tails (hg_edges hg ! nat e)"
  have edge: "0 \<le> e \<and> e < vsize (hg_edges hg) \<and> lv_prob (ed_prob (hg_edges hg ! nat e)) \<and> 0 \<le> edge_value hg e" if "e \<in> set ?es" for e
    using topologicalD(1) [OF top i that] pr edge_value_nonneg [OF pg] by (auto simp: vsize_def nat_less_iff)
  have tail: "0 \<le> t \<and> t < int i \<and> best_at traverse r0 hg D (nat t) (ws ! nat t) (rs ! nat t)" if "e \<in> set ?es" "t \<in> set (?T e)" for e t
    using topologicalD(2) [OF top i that] low by (auto simp: nat_less_iff)
  obtain b w where best: "viterbi_best_edge (prob_weights exact_reals) (lv_less exact_reals) EdgeProb hg (int i) ?es ws =
      Some (Some (hg_edges hg ! nat b), ws[i := w])" "b \<in> set ?es" "lv_prob w"
    and w: "lv_value w = edge_value hg b * prod_list (map (\<lambda>t. lv_value (ws ! nat t)) (?T b))"
    and max: "\<forall>e \<in> set ?es. edge_value hg e * prod_list (map (\<lambda>t. lv_value (ws ! nat t)) (?T e)) \<le> lv_value w"
    using viterbi_best_edge_max [of ?es hg i ws] ne edge tail i len by (auto simp: best_at_def)
  define d where "d = Deriv b (map (\<lambda>t. D (nat t)) (?T b))"
  have D: "derives hg (nat t) (D (nat t)) \<and> deriv_result traverse r0 hg (D (nat t)) = Some (rs ! nat t) \<and>
      lv_value (ws ! nat t) = deriv_prob (edge_value hg) (D (nat t)) \<and> nat t \<noteq> i" if "t \<in> set (?T b)" for t
    using tail [OF best(2) that] by (auto simp: best_at_def)
  let ?ants = "map (\<lambda>t. rs ! nat t) (?T b)"
  have ed: "vat (hg_edges hg) b = Some (hg_edges hg ! nat b)" "hg_edges hg ! nat b \<in> set (hg_edges hg)"
    using edge [OF best(2)] by (auto simp: vat_eq vsize_def nat_less_iff)
  obtain r where r: "traverse (hg_edges hg ! nat b) ?ants r0 = Some r"
    using total [OF ed(2), of ?ants] by auto
  have ants: "those (map (vat rs) (?T b)) = Some ?ants"
    by (rule those_map) (use tail [OF best(2)] i len in \<open>fastforce intro: vat_eq\<close>)
  have res: "those (map (deriv_result traverse r0 hg) (map (\<lambda>t. D (nat t)) (?T b))) = Some ?ants"
    using D by (simp add: those_Some_iff list_all2_conv_all_nth)
  have "viterbi_node (prob_weights exact_reals) (lv_less exact_reals) EdgeProb traverse hg (int i) (ws, rs) = Some (ws[i := w], rs[i := r])"
    using i len ne best(1) ants r r0 by (simp add: viterbi_node_def)
  moreover have "best_at traverse r0 hg (D(i := d)) i w r"
    unfolding best_at_def fun_upd_same
  proof (intro conjI allI impI bexI)
    fix d' assume "derives hg i d'"
    then obtain e ds where d': "d' = Deriv e ds" "e \<in> set ?es" "list_all2 (\<lambda>t d. derives hg (nat t) d) (?T e) ds"
      by (cases d') (auto simp: derives_Deriv)
    have "deriv_prob (edge_value hg) d' \<le> edge_value hg e * prod_list (map (\<lambda>t. lv_value (ws ! nat t)) (?T e))"
      unfolding d'(1)
    proof (rule deriv_prob_bound)
      show "deriv_prob (edge_value hg) d \<le> lv_value (ws ! nat t)" if "t \<in> set (?T e)" "derives hg (nat t) d" for t d
        using tail [OF d'(2) that(1)] that(2) by (auto simp: best_at_def)
    qed (use edge d' derives_prob_nonneg [OF pg] in auto)
    then show "deriv_prob (edge_value hg) d' \<le> lv_value w" using max d'(2) by fastforce
  next
    show "derives hg i d"
      using i best(2) D by (simp add: d_def derives_Deriv list.rel_map list_all2_same)
    show "deriv_result traverse r0 hg d = Some r"
      using ed(1) res r by (simp add: d_def)
    have "map (\<lambda>t. lv_value (ws ! nat t)) (?T b) = map (deriv_prob (edge_value hg)) (map (\<lambda>t. D (nat t)) (?T b))"
      using D by simp
    then show "lv_value w = deriv_prob (edge_value hg) d"
      unfolding w d_def deriv_prob.simps by (simp only:)
    have "map (\<lambda>t. (D(i := d)) (nat t)) (?T b) = map (\<lambda>t. D (nat t)) (?T b)" using D by simp
    then show "d = Deriv b (map (\<lambda>t. (D(i := d)) (nat t)) (?T b))" by (simp only: d_def)
  qed (rule best(3) best(2))+
  ultimately show ?thesis by blast
qed

lemma Viterbi_total:
  assumes pg: "prob_graph hg" and ne: "\<forall>n \<in> set (hg_nodes hg). nd_in n \<noteq> []" and "hg_nodes hg \<noteq> []"
    and total: "\<And>e ants. e \<in> set (hg_edges hg) \<Longrightarrow> length ants = length (ed_tails e) \<Longrightarrow> \<exists>r. traverse e ants r0 = Some r"
  shows "\<exists>z r D. Viterbi_EdgeProb exact_reals traverse r0 result hg = Some (z, r) \<and> best_at traverse r0 hg D (nat (GoalNode hg)) z r \<and>
    (\<forall>n < length (hg_nodes hg). \<exists>w r. best_at traverse r0 hg D n w r)"
proof -
  let ?N = "length (hg_nodes hg)"
  let ?I = "\<lambda>(i :: int) (ws, rs). length ws = ?N \<and> length rs = ?N \<and> (\<exists>D. \<forall>n < ?N. if int n < i then best_at traverse r0 hg D n (ws ! n) (rs ! n) else rs ! n = r0)"
  have "\<exists>t. for_each (int_range 0 (int ?N)) (viterbi_node (prob_weights exact_reals) (lv_less exact_reals) EdgeProb traverse hg)
      (replicate ?N (w_zero (prob_weights exact_reals)), replicate ?N r0) = Some t \<and> ?I (int ?N) t"
  proof (rule for_range_total [where I = ?I])
    fix i :: int and s
    assume i: "0 \<le> i" "i < int ?N" and I: "?I i s"
    obtain ws rs D where s: "s = (ws, rs)" and len: "length ws = ?N" "length rs = ?N"
      and D: "\<forall>n < ?N. if int n < i then best_at traverse r0 hg D n (ws ! n) (rs ! n) else rs ! n = r0"
      using I by (cases s) auto
    have n: "nat i < ?N" "int (nat i) = i" using i by auto
    have "\<exists>w r d. viterbi_node (prob_weights exact_reals) (lv_less exact_reals) EdgeProb traverse hg (int (nat i)) (ws, rs) =
        Some (ws[nat i := w], rs[nat i := r]) \<and> best_at traverse r0 hg (D(nat i := d)) (nat i) w r"
    proof (rule viterbi_node_best [OF pg n(1) _ len])
      show "nd_in (hg_nodes hg ! nat i) \<noteq> []" using ne n(1) by simp
      show "rs ! nat i = r0" using D [rule_format, OF n(1)] n(2) by simp
      show "best_at traverse r0 hg D m (ws ! m) (rs ! m)" if "m < nat i" for m
        using D [rule_format, of m] that n by (auto split: if_splits)
    qed (rule total)
    then obtain w r d where run: "viterbi_node (prob_weights exact_reals) (lv_less exact_reals) EdgeProb traverse hg i s =
        Some (ws[nat i := w], rs[nat i := r])" and best: "best_at traverse r0 hg (D(nat i := d)) (nat i) w r"
      unfolding n(2) s by blast
    have "if int m < i + 1 then best_at traverse r0 hg (D(nat i := d)) m (ws[nat i := w] ! m) (rs[nat i := r] ! m) else rs[nat i := r] ! m = r0"
      if m: "m < ?N" for m
    proof (cases "m = nat i")
      case True
      then show ?thesis using best len n by simp
    next
      case False
      then show ?thesis
        using D [rule_format, OF m] best_at_update [of hg m "nat i"] pg n m by (auto simp: prob_graph_def zless_nat_eq_int_zless split: if_splits)
    qed
    then show "\<exists>s'. viterbi_node (prob_weights exact_reals) (lv_less exact_reals) EdgeProb traverse hg i s = Some s' \<and> ?I (i + 1) s'"
      by (intro exI [of _ "(ws[nat i := w], rs[nat i := r])"] conjI) (use run len in \<open>simp_all only: prod.case length_list_update\<close>, blast)
  qed auto
  then obtain ws rs D where run: "for_each (int_range 0 (int ?N)) (viterbi_node (prob_weights exact_reals) (lv_less exact_reals) EdgeProb traverse hg)
      (replicate ?N (w_zero (prob_weights exact_reals)), replicate ?N r0) = Some (ws, rs)" and len: "length ws = ?N" "length rs = ?N"
    and D: "\<forall>n < ?N. best_at traverse r0 hg D n (ws ! n) (rs ! n)"
    by auto
  have "rs \<noteq> []" "last ws = ws ! (?N - 1)" "last rs = rs ! (?N - 1)"
    using len assms(3) last_conv_nth [of ws] last_conv_nth [of rs] by fastforce+
  moreover have "nat (GoalNode hg) = ?N - 1" by (simp add: GoalNode_def vsize_def)
  moreover have "?N - 1 < ?N" using assms(3) by simp
  ultimately show ?thesis
    using run D by (intro exI [of _ "last ws"] exI [of _ "last rs"] exI [of _ D]) (auto simp: Viterbi_EdgeProb_def Viterbi_def vsize_def)
qed

text \<open>C12. On a topologically sorted hypergraph whose nodes all have in-edges, with a traversal that does
  not fail, \<open>Viterbi\<close> over exact probabilities returns. The weight is the greatest probability of a
  derivation of the goal, and the result is the traversal applied along a derivation with that probability.\<close>

theorem Viterbi_best:
  assumes "prob_graph hg" "\<forall>n \<in> set (hg_nodes hg). nd_in n \<noteq> []" "hg_nodes hg \<noteq> []"
    and "\<And>e ants. e \<in> set (hg_edges hg) \<Longrightarrow> length ants = length (ed_tails e) \<Longrightarrow> \<exists>r. traverse e ants r0 = Some r"
  shows "\<exists>z r d. Viterbi_EdgeProb exact_reals traverse r0 result hg = Some (z, r) \<and>
    derives hg (nat (GoalNode hg)) d \<and> deriv_result traverse r0 hg d = Some r \<and> lv_value z = deriv_prob (edge_value hg) d \<and>
    (\<forall>d'. derives hg (nat (GoalNode hg)) d' \<longrightarrow> deriv_prob (edge_value hg) d' \<le> lv_value z)"
  using Viterbi_total [where traverse = traverse and result = result, OF assms(1,2,3)] assms(4) by (fastforce simp: best_at_def)

lemma Viterbi_best_witness:
  "\<exists>z. Viterbi_EdgeProb exact_reals PathLengthTraversal 0 (-1) demo_prob_hg = Some (z, 2) \<and> lv_value z = 1 / 2"
proof -
  have v: "edge_value demo_prob_hg 0 = 1" "edge_value demo_prob_hg 1 = 1" "edge_value demo_prob_hg 2 = 1 / 2"
    by (simp_all add: edge_value_def demo_hg_def demo_edge_def lv_prob_simps LogVal_double_value)
  have "\<forall>n \<in> set (hg_nodes demo_prob_hg). nd_in n \<noteq> []" by (simp add: demo_hg_def)
  from Viterbi_best [where traverse = PathLengthTraversal and ?r0.0 = 0 and result = "-1", OF demo_prob_graph(1) this demo_hg_simps(3)]
  obtain z r d where run: "Viterbi_EdgeProb exact_reals PathLengthTraversal 0 (-1) demo_prob_hg = Some (z, r)"
    and d: "derives demo_prob_hg (nat (GoalNode demo_prob_hg)) d" "deriv_result PathLengthTraversal 0 demo_prob_hg d = Some r"
      "lv_value z = deriv_prob (edge_value demo_prob_hg) d"
    by (auto simp: PathLengthTraversal_def)
  have "nat (GoalNode demo_prob_hg) = Suc 0" by (simp add: GoalNode_def demo_hg_def)
  then have "d \<in> {d. derives demo_prob_hg (Suc 0) d}" using d(1) by simp
  then have "d \<in> {Deriv 2 [Deriv 0 []], Deriv 2 [Deriv 1 []]}" unfolding demo_hg_derives .
  then have "r = 2 \<and> lv_value z = 1 / 2"
    using d(2,3) v by (auto simp: demo_hg_def PathLengthTraversal_def vat_def)
  then show ?thesis using run by blast
qed

text \<open>A node without in-edges: \<open>Viterbi\<close> gives it probability one, \<open>ComputeNodeViterbi\<close> zero.\<close>

lemma Viterbi_leaf_disagrees:
  "map_option fst (Viterbi_EdgeProb exact_reals PathLengthTraversal 0 (-1) (snd (AddNode (-1) (empty_hypergraph :: (unit, xreal logval) hypergraph)))) =
     Some (lv_One exact_reals)"
  "map_option fst (ComputeNodeViterbi exact_reals (snd (AddNode (-1) (empty_hypergraph :: (unit, xreal logval) hypergraph)))) = Some (lv_Zero exact_reals)"
  by (simp_all add: AddNode_def empty_hypergraph_def new_hg_node_def Viterbi_EdgeProb_def Viterbi_def viterbi_node_def prob_weights_def
      ComputeNodeViterbi_def Inside_def inside_node_def TropicalValue_def int_range_def vset_def)

end
