(* ===== verification/Pruning.thy ===== *)
theory Pruning
  imports TopoSort Viterbi
begin

text \<open>
  Pruning of hypergraphs (\<open>decoder/hg.cc\<close>): by a mask of edges, by a threshold on the scores of the edges,
  and by the scores on the best derivations through them. Messages are left out. A conversion of a
  \<open>double\<close> to \<open>unsigned\<close> is a parameter.
\<close>

definition filter_mask :: "('f, 'w) hypergraph \<Rightarrow> bool list \<Rightarrow> bool list \<Rightarrow> bool list option" where
  "filter_mask hg prune_edge reachable = for_each (positions (hg_edges hg)) (\<lambda>i filtered. do {
     p \<leftarrow> vat prune_edge i;
     prune \<leftarrow> (if p then Some True else do {
       edge \<leftarrow> vat (hg_edges hg) i;
       for_break (ed_tails edge) (\<lambda>t _. do {
         r \<leftarrow> vat reachable t;
         Some (if \<not> r then (True, False) else (False, True)) }) False });
     vset filtered i prune }) prune_edge"

definition PruneEdges :: "bool list \<Rightarrow> bool \<Rightarrow> ('f, 'w) hypergraph \<Rightarrow> ('f, 'w) hypergraph option" where
  "PruneEdges prune_edge run_inside_algorithm hg = do {
     check (vsize prune_edge = vsize (hg_edges hg));
     if run_inside_algorithm then do {
       (goal_derivable, reachable) \<leftarrow> Inside Boolean (EdgeExistsWeightFunction prune_edge) hg;
       if \<not> goal_derivable then Some (hg\<lparr>hg_edges := [], hg_nodes := [new_hg_node]\<rparr>)
       else do {
         check (vsize reachable = vsize (hg_nodes hg));
         filtered \<leftarrow> filter_mask hg prune_edge reachable;
         TopologicallySortNodesAndEdges (vsize (hg_nodes hg) - 1) (Some filtered) hg } }
     else TopologicallySortNodesAndEdges (vsize (hg_nodes hg) - 1) (Some prune_edge) hg }"

definition margin_mask :: "('d, 'z) log_floats_scheme \<Rightarrow> 'd \<Rightarrow> 'd logval list \<Rightarrow> 'd logval \<Rightarrow> bool list option \<Rightarrow> bool list option" where
  "margin_mask fl creep_exponent io cutoff preserve_mask = do {
     let creep = lv_pow fl (abslog fl cutoff) creep_exponent;
     map_option fst (for_each (positions io) (\<lambda>i (prune, cutoff). do {
       let cutoff = times_eq fl cutoff creep;
       x \<leftarrow> vat io i;
       if lv_less fl x cutoff then do {
         keep \<leftarrow> (case preserve_mask of None \<Rightarrow> Some False | Some m \<Rightarrow> vat m i);
         map_option (\<lambda>prune. (prune, cutoff)) (vset prune i (\<not> keep)) }
       else Some (prune, cutoff) }) (replicate (length io) False, cutoff)) }"

text \<open>\<open>creep_exponent\<close> is the constant \<open>1e-6\<close>.\<close>

definition MarginPrune :: "('d, 'z) log_floats_scheme \<Rightarrow> 'd \<Rightarrow> 'd logval list \<Rightarrow> 'd logval \<Rightarrow> bool list option \<Rightarrow> bool \<Rightarrow>
    ('f, 'w) hypergraph \<Rightarrow> ('f, 'w) hypergraph option" where
  "MarginPrune fl creep_exponent io cutoff preserve_mask safe_inside hg = do {
     check (vsize io = vsize (hg_edges hg));
     prune \<leftarrow> margin_mask fl creep_exponent io cutoff preserve_mask;
     PruneEdges prune safe_inside hg }"

text \<open>The element that \<open>nth_element\<close> leaves at position \<open>n\<close>: that of the list sorted with the comparison.\<close>

fun insert_by :: "('a \<Rightarrow> 'a \<Rightarrow> bool) \<Rightarrow> 'a \<Rightarrow> 'a list \<Rightarrow> 'a list" where
  "insert_by before x [] = [x]"
| "insert_by before x (y # ys) = (if before y x then y # insert_by before x ys else x # y # ys)"

definition nth_greatest :: "('d, 'z) log_floats_scheme \<Rightarrow> int \<Rightarrow> 'd logval list \<Rightarrow> 'd logval option" where
  "nth_greatest fl n vs = vat (foldr (insert_by (lv_greater fl)) vs []) n"

definition PruneInsideOutside :: "'d log_floats \<Rightarrow> ('d \<Rightarrow> int) \<Rightarrow> 'd \<Rightarrow> 'd \<Rightarrow> 'd \<Rightarrow> bool list option \<Rightarrow> bool \<Rightarrow> 'd \<Rightarrow> bool \<Rightarrow>
    ('f, 'd logval) hypergraph \<Rightarrow> (bool \<times> ('f, 'd logval) hypergraph) option" where
  "PruneInsideOutside fl to_unsigned creep_exponent alpha density preserve_mask use_sum_prod_semiring scale safe_inside hg = do {
     let zero = fl_of_int fl 0;
     let use_density = (\<not> lf_eq fl density zero);
     let use_beam = (\<not> lf_eq fl alpha zero);
     check (\<not> use_beam \<or> fl_less fl zero alpha);
     check (\<not> use_density \<or> fl_less fl (fl_of_int fl 1) density \<or> lf_eq fl density (fl_of_int fl 1));
     check (\<not> use_sum_prod_semiring \<or> fl_less fl zero scale);
     let edges = vsize (hg_edges hg);
     rnum \<leftarrow> (if use_density then do {
       plen \<leftarrow> ViterbiPathLength fl hg;
       Some (min edges (to_unsigned (fl_mul fl density (fl_of_int fl plen)))) } else Some edges);
     if use_density \<and> rnum = edges \<and> \<not> use_beam then Some (False, hg)
     else do {
       let use_density = (use_density \<and> rnum \<noteq> edges);
       check (use_density \<or> use_beam);
       let norm = OutsideNormalize (prob_weights fl) (div_eq fl) True;
       (_, inside, outside) \<leftarrow> (if use_sum_prod_semiring then io_compute (prob_weights fl) (ScaledEdgeProb fl scale) norm hg
         else io_compute (TropicalValue fl) EdgeProb norm hg);
       mm \<leftarrow> compute_edge_marginals (prob_weights fl) ed_prob hg inside outside;
       density_cut \<leftarrow> (if use_density then nth_greatest fl rnum mm else Some (lv_One fl));
       let best = (if use_sum_prod_semiring then fold (\<lambda>m best. if lv_greater fl m best then m else best) mm (lv_One fl) else lv_One fl);
       let beam_cut = times_eq fl best (lv_exp (fl_neg fl alpha));
       let (cutoff, density_won) = (if use_beam \<and> \<not> (use_density \<and> lv_greater fl density_cut beam_cut) then (beam_cut, False)
         else (density_cut, use_density));
       hg \<leftarrow> MarginPrune fl creep_exponent mm cutoff preserve_mask safe_inside hg;
       Some (density_won, hg) } }"

definition DensityPruneInsideOutside :: "'d log_floats \<Rightarrow> ('d \<Rightarrow> int) \<Rightarrow> 'd \<Rightarrow> 'd \<Rightarrow> bool \<Rightarrow> 'd \<Rightarrow> bool list option \<Rightarrow>
    ('f, 'd logval) hypergraph \<Rightarrow> ('f, 'd logval) hypergraph option" where
  "DensityPruneInsideOutside fl to_unsigned creep_exponent scale use_sum_prod_semiring density preserve_mask hg =
     map_option snd (PruneInsideOutside fl to_unsigned creep_exponent (fl_of_int fl 0) density preserve_mask use_sum_prod_semiring scale False hg)"

definition BeamPruneInsideOutside :: "'d log_floats \<Rightarrow> ('d \<Rightarrow> int) \<Rightarrow> 'd \<Rightarrow> 'd \<Rightarrow> bool \<Rightarrow> 'd \<Rightarrow> bool list option \<Rightarrow>
    ('f, 'd logval) hypergraph \<Rightarrow> ('f, 'd logval) hypergraph option" where
  "BeamPruneInsideOutside fl to_unsigned creep_exponent scale use_sum_prod_semiring alpha preserve_mask hg =
     map_option snd (PruneInsideOutside fl to_unsigned creep_exponent alpha (fl_of_int fl 0) preserve_mask use_sum_prod_semiring scale False hg)"

section \<open>Pruning keeps the derivations without pruned edges\<close>

definition unpruned_derivs :: "bool list \<Rightarrow> ('f, 'w) hypergraph \<Rightarrow> deriv set" where
  "unpruned_derivs prune hg = {d. derives hg (nat (GoalNode hg)) d \<and> (\<forall>e \<in> deriv_edges d. \<not> prune ! nat e)}"

definition same_data :: "('f, 'w) edge \<Rightarrow> ('f, 'w) edge \<Rightarrow> bool" where
  "same_data e e' \<longleftrightarrow> (\<exists>i h ts. e' = e\<lparr>ed_id := i, ed_head := h, ed_tails := ts\<rparr>)"

definition reaches :: "bool list \<Rightarrow> ('f, 'w) hypergraph \<Rightarrow> nat \<Rightarrow> bool" where
  "reaches prune hg n \<longleftrightarrow> (\<exists>d. derives hg n d \<and> (\<forall>e \<in> deriv_edges d. \<not> prune ! nat e))"

lemma w_sum_Boolean: "w_sum Boolean xs \<longleftrightarrow> True \<in> set xs"
proof -
  have "fold (\<lambda>x s. w_add Boolean s x) xs b \<longleftrightarrow> b \<or> True \<in> set xs" for b
    by (induction xs arbitrary: b) (auto simp: Boolean_def)
  then show ?thesis by (simp add: w_sum_def) (simp add: Boolean_def)
qed

lemma deriv_weight_Boolean: "deriv_weight Boolean wt d \<longleftrightarrow> (\<forall>e \<in> deriv_edges d. wt e)"
proof (induction d)
  case (Deriv e ds)
  have "fold (\<lambda>d s. w_mul Boolean s (deriv_weight Boolean wt d)) xs b \<longleftrightarrow> b \<and> (\<forall>d \<in> set xs. deriv_weight Boolean wt d)" for xs b
    by (induction xs arbitrary: b) (auto simp: Boolean_def)
  with Deriv show ?case by simp
qed

lemma Inside_Boolean:
  assumes top: "topological hg" and c: "consistent_hg {} hg" and ne: "hg_nodes hg \<noteq> []" and len: "length prune = length (hg_edges hg)"
  shows "Inside Boolean (EdgeExistsWeightFunction prune) hg =
    Some (reaches prune hg (nat (GoalNode hg)), map (reaches prune hg) [0..<length (hg_nodes hg)])"
proof -
  have "EdgeExistsWeightFunction prune (hg_edges hg ! nat e) = Some (\<not> prune ! nat e)" if "0 \<le> e" "e < vsize (hg_edges hg)" for e
  proof -
    have n: "nat e < length (hg_edges hg)" "int (nat e) = e" using that by (auto simp: vsize_def nat_less_iff)
    then show ?thesis using consistentD(2) [OF c n(1)] len vat_nat [of "nat e" prune] by (simp add: EdgeExistsWeightFunction_def)
  qed
  from reachable.Inside_sum [where weight = "EdgeExistsWeightFunction prune" and wt = "\<lambda>e. \<not> prune ! nat e", OF top this]
  obtain sc where run: "Inside Boolean (EdgeExistsWeightFunction prune) hg = Some (last sc, sc)"
    and sc: "sc = map (\<lambda>n. w_sum Boolean (map (deriv_weight Boolean (\<lambda>e. \<not> prune ! nat e)) (derivs hg n))) [0..<length (hg_nodes hg)]"
    using ne by auto
  have "w_sum Boolean (map (deriv_weight Boolean (\<lambda>e. \<not> prune ! nat e)) (derivs hg n)) \<longleftrightarrow> reaches prune hg n" if "n < length (hg_nodes hg)" for n
    using derivs_iff [OF top that] by (auto simp: w_sum_Boolean deriv_weight_Boolean reaches_def image_iff)
  then have sc': "sc = map (reaches prune hg) [0..<length (hg_nodes hg)]" unfolding sc by simp
  have "last (map (reaches prune hg) [0..<length (hg_nodes hg)]) = reaches prune hg (nat (GoalNode hg))"
    using ne by (cases "hg_nodes hg" rule: rev_cases) (simp_all add: GoalNode_def vsize_def)
  then show ?thesis using run unfolding sc' by (simp only:)
qed

lemma for_break_any:
  assumes "\<And>t. t \<in> set ts \<Longrightarrow> 0 \<le> t \<and> t < vsize reachable"
  shows "for_break ts (\<lambda>t _. do { r \<leftarrow> vat reachable t; Some (if \<not> r then (True, False) else (False, True)) }) False =
    Some (\<exists>t \<in> set ts. \<not> reachable ! nat t)"
  using assms by (induction ts) (auto simp: vat_eq vsize_def)

lemma for_each_fill:
  assumes "\<And>i. i < length ys \<Longrightarrow> f (int i) = Some (g i)"
  shows "for_each (positions ys) (\<lambda>i ys. do { y \<leftarrow> f i; vset ys i y }) ys = Some (map g [0..<length ys])"
proof -
  let ?I = "\<lambda>k t. length t = length ys \<and> (\<forall>i < length ys. int i < k \<longrightarrow> t ! i = g i)"
  have "\<exists>t. for_each (int_range 0 (vsize ys)) (\<lambda>i ys. do { y \<leftarrow> f i; vset ys i y }) ys = Some t \<and> ?I (vsize ys) t"
  proof (rule for_range_total [where I = ?I])
    fix k t
    assume k: "0 \<le> k" "k < vsize ys" and I: "?I k t"
    have n: "nat k < length ys" "int (nat k) = k" using k by (auto simp: vsize_def nat_less_iff)
    have "f k = Some (g (nat k))" "vset t k (g (nat k)) = Some (t[nat k := g (nat k)])"
      using I n assms [OF n(1)] vset_nat [of "nat k" t] by simp_all
    moreover have "(t[nat k := g (nat k)]) ! i = g i" if "i < length ys" "int i < k + 1" for i
      using I n that by (cases "i = nat k") auto
    ultimately show "\<exists>s'. do { y \<leftarrow> f k; vset t k y } = Some s' \<and> ?I (k + 1) s'"
      using I by simp
  qed simp_all
  then obtain t where run: "for_each (positions ys) (\<lambda>i ys. do { y \<leftarrow> f i; vset ys i y }) ys = Some t"
    and t: "length t = length ys" "\<forall>i < length ys. int i < vsize ys \<longrightarrow> t ! i = g i" by (elim exE conjE)
  have "t = map g [0..<length ys]" by (rule nth_equalityI) (use t in \<open>simp_all add: vsize_def\<close>)
  then show ?thesis using run by simp
qed

lemma filter_mask_eq:
  assumes c: "consistent_hg {} hg" and len: "length prune = length (hg_edges hg)" "length reachable = length (hg_nodes hg)"
  shows "filter_mask hg prune reachable =
    Some (map (\<lambda>i. prune ! i \<or> (\<exists>t \<in> set (ed_tails (hg_edges hg ! i)). \<not> reachable ! nat t)) [0..<length (hg_edges hg)])"
proof -
  let ?g = "\<lambda>i. prune ! i \<or> (\<exists>t \<in> set (ed_tails (hg_edges hg ! i)). \<not> reachable ! nat t)"
  have "for_each (positions prune) (\<lambda>i filtered. do {
     prune \<leftarrow> (do { p \<leftarrow> vat prune i;
       (if p then Some True else do {
       edge \<leftarrow> vat (hg_edges hg) i;
       for_break (ed_tails edge) (\<lambda>t _. do {
         r \<leftarrow> vat reachable t;
         Some (if \<not> r then (True, False) else (False, True)) }) False }) });
     vset filtered i prune }) prune = Some (map ?g [0..<length prune])"
  proof (rule for_each_fill)
    fix i assume "i < length prune"
    then have i: "i < length (hg_edges hg)" using len by simp
    show "(do { p \<leftarrow> vat prune (int i);
       (if p then Some True else do {
       edge \<leftarrow> vat (hg_edges hg) (int i);
       for_break (ed_tails edge) (\<lambda>t _. do {
         r \<leftarrow> vat reachable t;
         Some (if \<not> r then (True, False) else (False, True)) }) False }) }) = Some (?g i)"
      using i consistentD(3) [OF c i] len by (simp add: for_break_any vsize_def)
  qed
  then show ?thesis using len by (simp add: filter_mask_def vsize_def)
qed

text \<open>Filtering edges whose tails are not reached does not change the derivations.\<close>

lemma filtered_derivation:
  assumes top: "topological hg" and len: "length prune = length (hg_edges hg)"
    and filtered: "\<And>e. 0 \<le> e \<Longrightarrow> e < vsize (hg_edges hg) \<Longrightarrow> filtered ! nat e \<longleftrightarrow> prune ! nat e \<or> (\<exists>t \<in> set (tails hg e). \<not> reaches prune hg (nat t))"
  shows "derives hg n d \<Longrightarrow> (\<forall>e \<in> deriv_edges d. \<not> filtered ! nat e) \<longleftrightarrow> (\<forall>e \<in> deriv_edges d. \<not> prune ! nat e)"
proof (induction rule: derives.induct)
  case (derives_edge n e ds)
  note e = topologicalD(1) [OF top derives_edge.hyps(1,2)]
  have len: "length (tails hg e) = length ds" and ds: "\<And>m. m < length ds \<Longrightarrow> derives hg (nat (tails hg e ! m)) (ds ! m) \<and>
      ((\<forall>e \<in> deriv_edges (ds ! m). \<not> filtered ! nat e) \<longleftrightarrow> (\<forall>e \<in> deriv_edges (ds ! m). \<not> prune ! nat e))"
    using derives_edge(3) by (auto simp: list_all2_conv_all_nth)
  have sub: "(\<forall>e \<in> deriv_edges d. \<not> filtered ! nat e) \<longleftrightarrow> (\<forall>e \<in> deriv_edges d. \<not> prune ! nat e)" if "d \<in> set ds" for d
    using ds that by (metis in_set_conv_nth)
  have reach: "reaches prune hg (nat t)" if all: "\<forall>e \<in> deriv_edges (Deriv e ds). \<not> prune ! nat e" and t: "t \<in> set (tails hg e)" for t
  proof -
    obtain m where m: "m < length ds" "t = tails hg e ! m" using t len by (auto simp: in_set_conv_nth)
    have "\<forall>e \<in> deriv_edges (ds ! m). \<not> prune ! nat e" using all m(1) by auto
    then show ?thesis using ds [OF m(1)] m(2) by (auto simp: reaches_def)
  qed
  show ?case
  proof (intro iffI)
    assume "\<forall>e \<in> deriv_edges (Deriv e ds). \<not> filtered ! nat e"
    then show "\<forall>e \<in> deriv_edges (Deriv e ds). \<not> prune ! nat e" using filtered [of e] e sub by auto
  next
    assume all: "\<forall>e \<in> deriv_edges (Deriv e ds). \<not> prune ! nat e"
    show "\<forall>e \<in> deriv_edges (Deriv e ds). \<not> filtered ! nat e" using filtered [of e] e sub reach [OF all] all by auto
  qed
qed

lemma unpruned_filtered:
  assumes "topological hg" "length prune = length (hg_edges hg)"
    and "\<And>e. 0 \<le> e \<Longrightarrow> e < vsize (hg_edges hg) \<Longrightarrow> filtered ! nat e \<longleftrightarrow> prune ! nat e \<or> (\<exists>t \<in> set (tails hg e). \<not> reaches prune hg (nat t))"
  shows "unpruned_derivs filtered hg = unpruned_derivs prune hg"
  using filtered_derivation [OF assms] by (auto simp: unpruned_derivs_def)

text \<open>Sorting with a mask.\<close>

lemma sort_with_mask:
  assumes top: "topological hg" and c: "consistent_hg {} hg" and ne: "hg_nodes hg \<noteq> []" and len: "length drop_e = length (hg_edges hg)"
  shows "\<exists>ord K. TopologicallySortNodesAndEdges (vsize (hg_nodes hg) - 1) (Some drop_e) hg = Some (subgraph ord K hg) \<and>
    topo_result hg (Some drop_e) (GoalNode hg) ord K \<and>
    {d. derives (subgraph ord K hg) (nat (GoalNode (subgraph ord K hg))) d} = relabel (posn K) ` unpruned_derivs drop_e hg \<and>
    (\<Union>d \<in> unpruned_derivs drop_e hg. deriv_edges d) \<subseteq> set K"
proof -
  have goal: "0 \<le> GoalNode hg" "GoalNode hg < vsize (hg_nodes hg)"
    using ne by (cases "hg_nodes hg"; simp add: GoalNode_def)+
  obtain ord K where run: "TopologicallySortNodesAndEdges (GoalNode hg) (Some drop_e) hg = Some (subgraph ord K hg)"
    and res: "topo_result hg (Some drop_e) (GoalNode hg) ord K"
    using TopologicallySort_result [OF c _ topological_acyclic [OF top] goal, of "Some drop_e"] len by (auto simp: mask_ok_def)
  have pr: "pruned (Some drop_e) e = drop_e ! nat e" for e by (simp add: pruned_def)
  have gset: "int (nat (GoalNode hg)) \<in> set ord" using res goal by (auto simp: topo_result_def)
  have "(\<Union>d \<in> unpruned_derivs drop_e hg. deriv_edges d) \<subseteq> set K"
  proof (rule UN_least)
    fix d assume "d \<in> unpruned_derivs drop_e hg"
    then show "deriv_edges d \<subseteq> set K"
      using derivation_stays [OF c res _ gset, of d] by (simp add: unpruned_derivs_def pr)
  qed
  then show ?thesis
    using run res topo_result_subgraph(3) [OF c res] by (auto simp: GoalNode_def unpruned_derivs_def pr)
qed

lemma subgraph_same_data: "e \<in> set K \<Longrightarrow> same_data (hg_edges hg ! nat e) (hg_edges (subgraph ord K hg) ! nat (posn K e))"
  using posn_member [of e K] by (auto simp: same_data_def subgraph_def Let_def vsize_def nat_less_iff)

text \<open>After filtering, every node that stays has a derivation.\<close>

lemma filtered_productive:
  assumes top: "topological hg" and c: "consistent_hg {} hg" and len: "length prune = length (hg_edges hg)" "length filtered = length (hg_edges hg)"
    and filtered: "\<And>e. 0 \<le> e \<Longrightarrow> e < vsize (hg_edges hg) \<Longrightarrow> filtered ! nat e \<longleftrightarrow> prune ! nat e \<or> (\<exists>t \<in> set (tails hg e). \<not> reaches prune hg (nat t))"
    and res: "topo_result hg (Some filtered) goal ord K" and goal: "reaches prune hg (nat goal)" and k: "k < length ord"
  shows "\<exists>d. derives (subgraph ord K hg) k d"
proof -
  have ok: "sub_ok ord K hg" using res by (simp add: topo_result_def)
  let ?n = "ord ! k"
  have n: "?n \<in> set ord" using k by simp
  note r = sub_okD(3) [OF ok n]
  have "(?n, goal) \<in> (dep hg (Some filtered))\<^sup>*" using res n by (auto simp: topo_result_def)
  then have "reaches prune hg (nat ?n)"
  proof (cases rule: converse_rtranclE)
    case base
    then show ?thesis using goal by simp
  next
    case (step m)
    then obtain e where e: "0 \<le> m" "nat m < length (hg_nodes hg)" "e \<in> set (ins hg m)" "\<not> filtered ! nat e" "?n \<in> set (tails hg e)"
      by (auto simp: dep_def pruned_def vsize_def nat_less_iff)
    then have "0 \<le> e" "e < vsize (hg_edges hg)" using topologicalD(1) [OF top e(2,3)] by auto
    then show ?thesis using filtered e(4,5) by blast
  qed
  then obtain d where d: "derives hg (nat ?n) d" "\<forall>e \<in> deriv_edges d. \<not> prune ! nat e" by (auto simp: reaches_def)
  then have "\<forall>e \<in> deriv_edges d. \<not> pruned (Some filtered) e"
    using filtered_derivation [OF top len(1) filtered d(1)] by (simp add: pruned_def)
  then have "deriv_edges d \<subseteq> set K" using derivation_stays [OF c res d(1)] n r by simp
  then have "derives (subgraph ord K hg) (nat (posn ord ?n)) (relabel (posn K) d)"
    using subgraph_derives_of [OF c ok d(1)] n r by simp
  then show ?thesis using posn_nth [OF sub_okD(1) [OF ok] k] by auto
qed

lemma PruneEdges_keeps:
  assumes top: "topological hg" and c: "consistent_hg {} hg" and ne: "hg_nodes hg \<noteq> []" and len: "length prune = length (hg_edges hg)"
  shows "\<exists>hg' f. PruneEdges prune run_inside hg = Some hg' \<and> topological hg' \<and> consistent_hg {} hg' \<and>
    {d. derives hg' (nat (GoalNode hg')) d} = relabel f ` unpruned_derivs prune hg \<and>
    inj_on f (\<Union>d \<in> unpruned_derivs prune hg. deriv_edges d) \<and>
    (\<forall>e \<in> (\<Union>d \<in> unpruned_derivs prune hg. deriv_edges d). same_data (hg_edges hg ! nat e) (hg_edges hg' ! nat (f e))) \<and>
    (run_inside \<longrightarrow> unpruned_derivs prune hg \<noteq> {} \<longrightarrow> (\<forall>n < length (hg_nodes hg'). \<exists>d. derives hg' n d))"
proof -
  have sorted: ?thesis
    if run: "PruneEdges prune run_inside hg = TopologicallySortNodesAndEdges (vsize (hg_nodes hg) - 1) (Some drop_e) hg"
      and m: "length drop_e = length (hg_edges hg)" and same: "unpruned_derivs drop_e hg = unpruned_derivs prune hg"
      and prod: "\<And>ord K k. topo_result hg (Some drop_e) (GoalNode hg) ord K \<Longrightarrow> run_inside \<Longrightarrow> k < length ord \<Longrightarrow> \<exists>d. derives (subgraph ord K hg) k d"
    for drop_e
  proof -
    obtain ord K where s: "TopologicallySortNodesAndEdges (vsize (hg_nodes hg) - 1) (Some drop_e) hg = Some (subgraph ord K hg)"
      "topo_result hg (Some drop_e) (GoalNode hg) ord K"
      "{d. derives (subgraph ord K hg) (nat (GoalNode (subgraph ord K hg))) d} = relabel (posn K) ` unpruned_derivs drop_e hg"
      "(\<Union>d \<in> unpruned_derivs drop_e hg. deriv_edges d) \<subseteq> set K"
      using sort_with_mask [OF top c ne m] by blast
    have "inj_on (posn K) (\<Union>d \<in> unpruned_derivs drop_e hg. deriv_edges d)"
      using s(4) posn_inj [of _ K] by (auto simp: inj_on_def subset_iff)
    then show ?thesis
      using run s topo_result_subgraph(1,2) [OF c s(2)] subgraph_same_data [of _ K hg ord] prod [OF s(2)] unfolding same
      by (intro exI [of _ "subgraph ord K hg"] exI [of _ "posn K"]) (auto simp: subgraph_simps)
  qed
  have len': "vsize prune = vsize (hg_edges hg)" using len by (simp add: vsize_def)
  show ?thesis
  proof (cases run_inside)
    case False
    then show ?thesis using len len' by (intro sorted [of prune]) (simp_all add: PruneEdges_def)
  next
    case True
    note inside = Inside_Boolean [OF top c ne len]
    show ?thesis
    proof (cases "reaches prune hg (nat (GoalNode hg))")
      case False
      then have none: "unpruned_derivs prune hg = {}" by (auto simp: unpruned_derivs_def reaches_def)
      let ?hg = "hg\<lparr>hg_edges := [], hg_nodes := [new_hg_node]\<rparr>"
      have "PruneEdges prune run_inside hg = Some ?hg" using True False len' inside by (simp add: PruneEdges_def)
      moreover have "topological ?hg" by (simp add: topological_def new_hg_node_def)
      moreover have "consistent_hg {} ?hg" by (rule hg_check_consistent) (simp add: hg_check_def new_hg_node_def)
      moreover have "\<not> derives ?hg n d" for n d by (cases d) (simp add: derives_Deriv new_hg_node_def nth_Cons')
      ultimately show ?thesis using none by (intro exI [of _ ?hg]) simp
    next
      case reach: True
      let ?filtered = "map (\<lambda>i. prune ! i \<or> (\<exists>t \<in> set (ed_tails (hg_edges hg ! i)). \<not> map (reaches prune hg) [0..<length (hg_nodes hg)] ! nat t)) [0..<length (hg_edges hg)]"
      have f: "?filtered ! nat e \<longleftrightarrow> prune ! nat e \<or> (\<exists>t \<in> set (tails hg e). \<not> reaches prune hg (nat t))" if "0 \<le> e" "e < vsize (hg_edges hg)" for e
      proof -
        have n: "nat e < length (hg_edges hg)" using that by (auto simp: vsize_def nat_less_iff)
        have "nat t < length (hg_nodes hg)" if "t \<in> set (tails hg e)" for t
          using consistentD(3) [OF c n that] by (simp add: vsize_def nat_less_iff)
        then show ?thesis using n by auto
      qed
      show ?thesis
      proof (rule sorted [of ?filtered])
        show "PruneEdges prune run_inside hg = TopologicallySortNodesAndEdges (vsize (hg_nodes hg) - 1) (Some ?filtered) hg"
          using True reach len' inside filter_mask_eq [OF c len, of "map (reaches prune hg) [0..<length (hg_nodes hg)]"]
          by (simp add: PruneEdges_def) (simp add: vsize_def)
        show "unpruned_derivs ?filtered hg = unpruned_derivs prune hg" by (rule unpruned_filtered [OF top len f])
        show "\<exists>d. derives (subgraph ord K hg) k d" if "topo_result hg (Some ?filtered) (GoalNode hg) ord K" "k < length ord" for ord K k
          by (rule filtered_productive [OF top c len _ f that(1) reach that(2)]) simp
      qed simp
    qed
  qed
qed

lemma derives_edges_range:
  assumes "topological hg"
  shows "derives hg n d \<Longrightarrow> e \<in> deriv_edges d \<Longrightarrow> 0 \<le> e \<and> e < vsize (hg_edges hg)"
proof (induction rule: derives.induct)
  case (derives_edge n e' ds)
  then show ?case using topologicalD(1) [OF assms] by (auto simp: list_all2_conv_all_nth in_set_conv_nth)
qed

text \<open>C21. \<open>PruneEdges\<close> on a sorted graph returns a sorted graph whose derivations of the goal are exactly
  those without pruned edges, over edges with the same data. With the inside algorithm, if there is one,
  every node left has a derivation.\<close>

theorem PruneEdges_derivations:
  assumes top: "topological hg" and c: "consistent_hg {} hg" and ne: "hg_nodes hg \<noteq> []" and len: "length prune = length (hg_edges hg)"
  shows "\<exists>hg' f. PruneEdges prune run_inside hg = Some hg' \<and> topological hg' \<and> consistent_hg {} hg' \<and>
    {d. derives hg' (nat (GoalNode hg')) d} = relabel f ` unpruned_derivs prune hg \<and>
    inj_on f (\<Union>d \<in> unpruned_derivs prune hg. deriv_edges d) \<and>
    (\<forall>e \<in> (\<Union>d \<in> unpruned_derivs prune hg. deriv_edges d). same_data (hg_edges hg ! nat e) (hg_edges hg' ! nat (f e))) \<and>
    (run_inside \<longrightarrow> unpruned_derivs prune hg \<noteq> {} \<longrightarrow> (\<forall>n < length (hg_nodes hg'). \<exists>d. derives hg' n d))"
  by (rule PruneEdges_keeps [OF assms])

lemma PruneEdges_derivations_witness:
  "\<exists>hg' f. PruneEdges [True, False, False] True (demo_hg 1 2 (3 :: int)) = Some hg' \<and>
    {d. derives hg' (nat (GoalNode hg')) d} = {relabel f (Deriv 2 [Deriv 1 []])}"
proof -
  have g: "nat (GoalNode (demo_hg 1 2 (3 :: int))) = Suc 0" by (simp add: GoalNode_def demo_hg_def)
  have "unpruned_derivs [True, False, False] (demo_hg 1 2 (3 :: int)) = {d \<in> {d. derives (demo_hg 1 2 (3 :: int)) (Suc 0) d}. \<forall>e \<in> deriv_edges d. \<not> [True, False, False] ! nat e}"
    by (auto simp: unpruned_derivs_def g)
  also have "\<dots> = {Deriv 2 [Deriv 1 []]}" unfolding demo_hg_derives by auto
  finally have u: "unpruned_derivs [True, False, False] (demo_hg 1 2 (3 :: int)) = {Deriv 2 [Deriv 1 []]}" .
  have "length [True, False, False] = length (hg_edges (demo_hg 1 2 (3 :: int)))" by (simp add: demo_hg_def)
  from PruneEdges_derivations [where run_inside = True, OF demo_hg_simps this, unfolded u] show ?thesis by auto
qed

section \<open>The threshold of \<open>MarginPrune\<close>\<close>

text \<open>
  In exact arithmetic the cutoff \<open>x\<close>, less than one, is multiplied by \<open>x powr - c\<close> before every edge, so that
  edge \<open>i\<close> is compared with \<open>x powr (1 - c * (i + 1))\<close>.
\<close>

definition threshold :: "real \<Rightarrow> real \<Rightarrow> nat \<Rightarrow> real" where
  "threshold a c i = exp (a * (1 - c * (real i + 1)))"

lemma creep_value:
  assumes "a \<le> 0"
  shows "lv_pow exact_reals (abslog exact_reals \<lparr>lv_s = False, lv_v = Fin a\<rparr>) (Fin c) = \<lparr>lv_s = False, lv_v = Fin (- a * c)\<rparr>"
  using assms by (auto simp: lv_pow_def poweq_def abslog_def)

lemma margin_mask_eq:
  assumes io: "\<forall>x \<in> set io. lv_prob x" and a: "a \<le> 0"
  shows "margin_mask exact_reals (Fin c) io \<lparr>lv_s = False, lv_v = Fin a\<rparr> None =
    Some (map (\<lambda>i. lv_value (io ! i) < threshold a c i) [0..<length io])"
proof -
  let ?cut = "\<lambda>k :: int. \<lparr>lv_s = False, lv_v = Fin (a * (1 - c * of_int k))\<rparr>"
  let ?creep = "\<lparr>lv_s = False, lv_v = Fin (- a * c)\<rparr>"
  let ?I = "\<lambda>(k :: int) (prune, cutoff). length prune = length io \<and> cutoff = ?cut k \<and>
    (\<forall>i < length io. prune ! i = (int i < k \<and> lv_value (io ! i) < threshold a c i))"
  have "\<exists>t. for_each (int_range 0 (vsize io)) (\<lambda>i (prune, cutoff). do {
       let cutoff = times_eq exact_reals cutoff ?creep;
       x \<leftarrow> vat io i;
       if lv_less exact_reals x cutoff then do {
         keep \<leftarrow> (case None of None \<Rightarrow> Some False | Some m \<Rightarrow> vat m i);
         map_option (\<lambda>prune. (prune, cutoff)) (vset prune i (\<not> keep)) }
       else Some (prune, cutoff) }) (replicate (length io) False, \<lparr>lv_s = False, lv_v = Fin a\<rparr>) = Some t \<and> ?I (vsize io) t"
  proof (rule for_range_total [where I = ?I])
    fix k :: int and s
    assume k: "0 \<le> k" "k < vsize io" and I: "?I k s"
    obtain prune where s: "s = (prune, ?cut k)" and p: "length prune = length io"
      "\<forall>i < length io. prune ! i = (int i < k \<and> lv_value (io ! i) < threshold a c i)"
      using I by (cases s) auto
    have n: "nat k < length io" "int (nat k) = k" using k by (auto simp: vsize_def nat_less_iff)
    have cut: "times_eq exact_reals (?cut k) ?creep = ?cut (k + 1)"
      by (simp add: times_eq_def algebra_simps)
    have x: "vat io k = Some (io ! nat k)" "lv_prob (io ! nat k)" using n io vat_nat [of "nat k" io] by simp_all
    have "lv_value (?cut (k + 1)) = threshold a c (nat k)" using k(1) by (simp add: threshold_def)
    moreover have "lv_prob (?cut (k + 1))" by (simp add: lv_prob_def)
    ultimately have less: "lv_less exact_reals (io ! nat k) (?cut (k + 1)) \<longleftrightarrow> lv_value (io ! nat k) < threshold a c (nat k)"
      using lv_prob_less [OF x(2)] by metis
    have set_k: "vset prune k True = Some (prune[nat k := True])" using n p(1) vset_nat [of "nat k" prune] by simp
    have below: "(prune[nat k := True]) ! i = (int i < k + 1 \<and> lv_value (io ! i) < threshold a c i)"
      if "i < length io" "lv_value (io ! nat k) < threshold a c (nat k)" for i
      using p n that by (cases "i = nat k") auto
    have above: "prune ! i = (int i < k + 1 \<and> lv_value (io ! i) < threshold a c i)"
      if "i < length io" "\<not> lv_value (io ! nat k) < threshold a c (nat k)" for i
      using p n that by (cases "i = nat k") auto
    show "\<exists>s'. (case s of (prune, cutoff) \<Rightarrow> do {
       let cutoff = times_eq exact_reals cutoff ?creep;
       x \<leftarrow> vat io k;
       if lv_less exact_reals x cutoff then do {
         keep \<leftarrow> (case None of None \<Rightarrow> Some False | Some m \<Rightarrow> vat m k);
         map_option (\<lambda>prune. (prune, cutoff)) (vset prune k (\<not> keep)) }
       else Some (prune, cutoff) }) = Some s' \<and> ?I (k + 1) s'"
      unfolding s prod.case Let_def cut x(1) bind.bind_lunit option.case less
      using set_k below above p(1) by (cases "lv_value (io ! nat k) < threshold a c (nat k)") simp_all
  qed auto
  then obtain prune where run: "for_each (int_range 0 (vsize io)) (\<lambda>i (prune, cutoff). do {
       let cutoff = times_eq exact_reals cutoff ?creep;
       x \<leftarrow> vat io i;
       if lv_less exact_reals x cutoff then do {
         keep \<leftarrow> (case None of None \<Rightarrow> Some False | Some m \<Rightarrow> vat m i);
         map_option (\<lambda>prune. (prune, cutoff)) (vset prune i (\<not> keep)) }
       else Some (prune, cutoff) }) (replicate (length io) False, \<lparr>lv_s = False, lv_v = Fin a\<rparr>) = Some (prune, ?cut (vsize io))"
    and p: "length prune = length io" "\<forall>i < length io. prune ! i = (int i < vsize io \<and> lv_value (io ! i) < threshold a c i)"
    by auto
  have "prune = map (\<lambda>i. lv_value (io ! i) < threshold a c i) [0..<length io]"
    by (rule nth_equalityI) (use p in \<open>simp_all add: vsize_def\<close>)
  then show ?thesis using run unfolding margin_mask_def creep_value [OF a] by (simp add: Let_def)
qed

text \<open> \<open>MarginPrune\<close> keeps exactly the derivations of the goal in which every edge \<open>e\<close> has at least the
  score \<open>x powr (1 - c * (e + 1))\<close>, where \<open>x = exp a\<close> is the cutoff, at most one, and \<open>c\<close> the exponent
  of the creep. With at most \<open>1 / c\<close> edges this threshold is at most one, so that the derivations over
  edges of score one stay.\<close>

theorem MarginPrune_threshold:
  assumes "topological hg" "consistent_hg {} hg" "hg_nodes hg \<noteq> []" "length io = length (hg_edges hg)"
    and io: "\<forall>x \<in> set io. lv_prob x" and a: "a \<le> 0" and c: "0 \<le> c" "c * real (length io) \<le> 1"
  shows "\<exists>hg' f. MarginPrune exact_reals (Fin c) io \<lparr>lv_s = False, lv_v = Fin a\<rparr> None safe_inside hg = Some hg' \<and>
    {d. derives hg' (nat (GoalNode hg')) d} =
      relabel f ` {d. derives hg (nat (GoalNode hg)) d \<and> (\<forall>e \<in> deriv_edges d. exp a powr (1 - c * (of_int e + 1)) \<le> lv_value (io ! nat e))} \<and>
    (\<forall>d. derives hg (nat (GoalNode hg)) d \<and> (\<forall>e \<in> deriv_edges d. lv_value (io ! nat e) = 1) \<longrightarrow> derives hg' (nat (GoalNode hg')) (relabel f d))"
proof -
  let ?prune = "map (\<lambda>i. lv_value (io ! i) < threshold a c i) [0..<length io]"
  have len: "length ?prune = length (hg_edges hg)" using assms(4) by simp
  obtain hg' f where run: "PruneEdges ?prune safe_inside hg = Some hg'"
    and d: "{d. derives hg' (nat (GoalNode hg')) d} = relabel f ` unpruned_derivs ?prune hg"
    using PruneEdges_keeps [OF assms(1-3) len, of safe_inside] by (elim exE conjE) (rule that)
  have MP: "MarginPrune exact_reals (Fin c) io \<lparr>lv_s = False, lv_v = Fin a\<rparr> None safe_inside hg = Some hg'"
    using run assms(4) by (simp add: MarginPrune_def margin_mask_eq [OF io a] vsize_def)
  have edge: "?prune ! nat e \<longleftrightarrow> \<not> exp a powr (1 - c * (of_int e + 1)) \<le> lv_value (io ! nat e)"
    "lv_value (io ! nat e) = 1 \<longrightarrow> exp a powr (1 - c * (of_int e + 1)) \<le> lv_value (io ! nat e)"
    if "derives hg (nat (GoalNode hg)) d" "e \<in> deriv_edges d" for d e
  proof -
    have r: "0 \<le> e" "nat e < length io" using derives_edges_range [OF assms(1) that] assms(4) by (auto simp: vsize_def nat_less_iff)
    have "threshold a c (nat e) = exp a powr (1 - c * (of_int e + 1))" using r by (simp add: threshold_def powr_def mult.commute)
    moreover have "c * (of_int e + 1) \<le> c * real (length io)" using r c(1) by (intro mult_left_mono) auto
    then have "a * (1 - c * (of_int e + 1)) \<le> 0" using a c(2) by (simp add: mult_nonpos_nonneg)
    then have "exp a powr (1 - c * (of_int e + 1)) \<le> 1" by (simp add: powr_def mult.commute)
    ultimately show "?prune ! nat e \<longleftrightarrow> \<not> exp a powr (1 - c * (of_int e + 1)) \<le> lv_value (io ! nat e)"
      "lv_value (io ! nat e) = 1 \<longrightarrow> exp a powr (1 - c * (of_int e + 1)) \<le> lv_value (io ! nat e)"
      using r by (simp_all add: not_le)
  qed
  have "unpruned_derivs ?prune hg = {d. derives hg (nat (GoalNode hg)) d \<and> (\<forall>e \<in> deriv_edges d. exp a powr (1 - c * (of_int e + 1)) \<le> lv_value (io ! nat e))}"
    unfolding unpruned_derivs_def by (intro Collect_cong conj_cong ball_cong refl) (use edge(1) in simp)
  note d' = d [unfolded this]
  moreover have "derives hg' (nat (GoalNode hg')) (relabel f d)" if "derives hg (nat (GoalNode hg)) d" "\<forall>e \<in> deriv_edges d. lv_value (io ! nat e) = 1" for d
  proof -
    have "\<forall>e \<in> deriv_edges d. exp a powr (1 - c * (of_int e + 1)) \<le> lv_value (io ! nat e)" using edge(2) [OF that(1)] that(2) by blast
    then have "relabel f d \<in> {d. derives hg' (nat (GoalNode hg')) d}" unfolding d' using that(1) by blast
    then show ?thesis by simp
  qed
  ultimately show ?thesis using MP by (intro exI [of _ hg'] exI [of _ f]) simp
qed

lemma MarginPrune_threshold_witness:
  "\<exists>hg' f. MarginPrune exact_reals (Fin (1 / 10)) [lv_One exact_reals, LogVal_double exact_reals (Fin (1 / 4)), lv_One exact_reals]
      \<lparr>lv_s = False, lv_v = Fin (ln (1 / 2))\<rparr> None False (demo_hg 1 2 (3 :: int)) = Some hg' \<and>
    derives hg' (nat (GoalNode hg')) (relabel f (Deriv 2 [Deriv 0 []]))"
proof -
  let ?io = "[lv_One exact_reals, LogVal_double exact_reals (Fin (1 / 4)), lv_One exact_reals]"
  have "Deriv 2 [Deriv 0 []] \<in> {d. derives (demo_hg 1 2 (3 :: int)) (Suc 0) d}" unfolding demo_hg_derives by simp
  then have d: "derives (demo_hg 1 2 (3 :: int)) (nat (GoalNode (demo_hg 1 2 (3 :: int)))) (Deriv 2 [Deriv 0 []])"
    by (simp add: GoalNode_def demo_hg_def)
  have len: "length ?io = length (hg_edges (demo_hg 1 2 (3 :: int)))" by (simp add: demo_hg_def)
  have io: "\<forall>x \<in> set ?io. lv_prob x"
    by (simp add: lv_prob_simps) (simp add: lv_prob_def LogVal_double_def lv_ok_def)
  have "ln (1 / 2) \<le> (0 :: real)" "(0 :: real) \<le> 1 / 10" "1 / 10 * real (length ?io) \<le> 1" by simp_all
  from MarginPrune_threshold [where safe_inside = False, OF demo_hg_simps len io this] obtain hg' f where keep: "\<forall>d. derives (demo_hg 1 2 (3 :: int)) (nat (GoalNode (demo_hg 1 2 (3 :: int)))) d \<and> (\<forall>e \<in> deriv_edges d. lv_value (?io ! nat e) = 1) \<longrightarrow>
      derives hg' (nat (GoalNode hg')) (relabel f d)"
    and run: "MarginPrune exact_reals (Fin (1 / 10)) ?io \<lparr>lv_s = False, lv_v = Fin (ln (1 / 2))\<rparr> None False (demo_hg 1 2 (3 :: int)) = Some hg'"
    by (elim exE conjE) (rule that)
  have "derives hg' (nat (GoalNode hg')) (relabel f (Deriv 2 [Deriv 0 []]))"
    by (rule keep [THEN spec, THEN mp]) (simp add: d lv_prob_simps)
  then show ?thesis using run by blast
qed

text \<open>A score equal to the cutoff is not enough: the creep makes even the first threshold stricter.\<close>

lemma MarginPrune_equal_score_pruned:
  "margin_mask exact_reals (Fin (1 / 1000000)) [\<lparr>lv_s = False, lv_v = Fin (ln (1 / 2))\<rparr>] \<lparr>lv_s = False, lv_v = Fin (ln (1 / 2))\<rparr> None = Some [True]"
  by (subst margin_mask_eq) (auto simp: lv_prob_def threshold_def ln_div)

end
