(* ===== verification/Subsets.thy ===== *)
theory Subsets
  imports Pruning
begin

text \<open>
  Subsets of a hypergraph by masks (\<open>decoder/hg.cc\<close>) and the renumbering they use
  (\<open>utils/indices_after.h\<close>). \<open>REMOVED\<close>, the greatest \<open>unsigned\<close>, is -1, which is what it becomes in an
  \<open>int\<close>. \<open>no_features\<close> and \<open>zero\<close> are what a new edge has for its features and its probability.
\<close>

section \<open>New indices\<close>

record indices_after =
  ia_map :: "int list"
  ia_kept :: int

definition REMOVED :: int where
  "REMOVED = -1"

definition new_indices_keep :: "bool list \<Rightarrow> int list \<times> int" where
  "new_indices_keep keep = fold (\<lambda>b (out, f). if b then (out @ [f], f + 1) else (out @ [REMOVED], f)) keep ([], 0)"

definition indices_after_of :: "bool list \<Rightarrow> indices_after" where
  "indices_after_of keep = (let (out, f) = new_indices_keep keep in \<lparr>ia_map = out, ia_kept = f\<rparr>)"

definition init_const :: "nat \<Rightarrow> int \<Rightarrow> indices_after" where
  "init_const n map_all_to = \<lparr>ia_map = replicate n map_all_to, ia_kept = (if map_all_to = REMOVED then 0 else int n)\<rparr>"

definition init_keep_none :: "nat \<Rightarrow> indices_after" where
  "init_keep_none n = (init_const n REMOVED)\<lparr>ia_kept := 0\<rparr>"

definition init_inverse_order :: "nat \<Rightarrow> int list \<Rightarrow> indices_after option" where
  "init_inverse_order from_sz order = do {
     (m, d) \<leftarrow> for_each order (\<lambda>x (m, d). do { check (d < from_sz); Some (m @ [x], d + 1) }) ([], 0 :: nat);
     Some \<lparr>ia_map = m @ replicate (from_sz - d) REMOVED, ia_kept = int d\<rparr> }"

definition ia_keeping :: "indices_after \<Rightarrow> int \<Rightarrow> bool option" where
  "ia_keeping ia i = map_option (\<lambda>m. m \<noteq> REMOVED) (vat (ia_map ia) i)"

definition ia_removing :: "indices_after \<Rightarrow> int \<Rightarrow> bool option" where
  "ia_removing ia i = map_option (\<lambda>m. m = REMOVED) (vat (ia_map ia) i)"

definition first_removed :: "indices_after \<Rightarrow> int" where
  "first_removed ia = vsize (takeWhile (\<lambda>m. m \<noteq> REMOVED) (ia_map ia))"

definition do_moves :: "indices_after \<Rightarrow> 'a list \<Rightarrow> 'a list option" where
  "do_moves ia v = do {
     check (vsize v = vsize (ia_map ia));
     v \<leftarrow> for_each (int_range (first_removed ia) (vsize (ia_map ia))) (\<lambda>i v. do {
       m \<leftarrow> vat (ia_map ia) i;
       if m \<noteq> REMOVED then do { x \<leftarrow> vat v i; vset v m x } else Some v }) v;
     Some (take (nat (ia_kept ia)) v) }"

definition do_moves_swap :: "indices_after \<Rightarrow> 'a list \<Rightarrow> 'a list option" where
  "do_moves_swap ia v = do {
     check (vsize v = vsize (ia_map ia));
     v \<leftarrow> for_each (int_range (first_removed ia) (vsize (ia_map ia))) (\<lambda>i v. do {
       m \<leftarrow> vat (ia_map ia) i;
       if m \<noteq> REMOVED then do { x \<leftarrow> vat v i; y \<leftarrow> vat v m; v \<leftarrow> vset v m x; vset v i y } else Some v }) v;
     Some (take (nat (ia_kept ia)) v) }"

definition copy_to :: "'a \<Rightarrow> indices_after \<Rightarrow> 'a list \<Rightarrow> 'a list option" where
  "copy_to fresh ia v = for_each (positions (ia_map ia)) (\<lambda>i to. do {
     m \<leftarrow> vat (ia_map ia) i;
     if m \<noteq> REMOVED then do { x \<leftarrow> vat v i; vset to m x } else Some to }) (replicate (nat (ia_kept ia)) fresh)"

definition reindex_push_back :: "indices_after \<Rightarrow> int list \<Rightarrow> int list \<Rightarrow> int list option" where
  "reindex_push_back ia is out = for_each is (\<lambda>i out. do {
     m \<leftarrow> vat (ia_map ia) i;
     Some (if m \<noteq> REMOVED then out @ [m] else out) }) out"

section \<open>Subsets of a graph\<close>

definition copy_reindex_edge :: "indices_after \<Rightarrow> indices_after \<Rightarrow> ('f, 'w) edge \<Rightarrow> ('f, 'w) edge \<Rightarrow> ('f, 'w) edge option" where
  "copy_reindex_edge n2 e2 ed o_edge = do {
     let ed = copy_fixed_edge ed o_edge;
     h \<leftarrow> vat (ia_map n2) (ed_head o_edge);
     i \<leftarrow> vat (ia_map e2) (ed_id o_edge);
     ts \<leftarrow> reindex_push_back n2 (ed_tails o_edge) (ed_tails ed);
     Some (ed\<lparr>ed_head := h, ed_id := i, ed_tails := ts\<rparr>) }"

text \<open>The new id is looked up for the id of the new node, not for that of \<open>o_node\<close>.\<close>

definition copy_reindex_node :: "indices_after \<Rightarrow> indices_after \<Rightarrow> node \<Rightarrow> node \<Rightarrow> node option" where
  "copy_reindex_node n2 e2 nd o_node = do {
     let nd = copy_fixed_node nd o_node;
     i \<leftarrow> vat (ia_map n2) (nd_id nd);
     ins \<leftarrow> reindex_push_back e2 (nd_in o_node) (nd_in nd);
     outs \<leftarrow> reindex_push_back e2 (nd_out o_node) (nd_out nd);
     Some (nd\<lparr>nd_id := i, nd_in := ins, nd_out := outs\<rparr>) }"

definition CreateNodeEdgeSubset :: "'f \<Rightarrow> 'w \<Rightarrow> bool list \<Rightarrow> bool list \<Rightarrow> ('f, 'w) hypergraph \<Rightarrow> ('f, 'w) hypergraph option" where
  "CreateNodeEdgeSubset no_features zero keep_nodes keep_edges hg = do {
     let n2 = indices_after_of keep_nodes;
     let e2 = indices_after_of keep_edges;
     rn \<leftarrow> for_each (positions (hg_nodes hg)) (\<lambda>i rn. do {
       m \<leftarrow> vat (ia_map n2) i;
       if m \<noteq> REMOVED then do {
         n \<leftarrow> vat (hg_nodes hg) i;
         r \<leftarrow> vat rn m;
         r \<leftarrow> copy_reindex_node n2 e2 r n;
         vset rn m r } else Some rn }) (replicate (nat (ia_kept n2)) new_hg_node);
     re \<leftarrow> for_each (positions (hg_edges hg)) (\<lambda>i re. do {
       m \<leftarrow> vat (ia_map e2) i;
       if m \<noteq> REMOVED then do {
         e \<leftarrow> vat (hg_edges hg) i;
         r \<leftarrow> vat re m;
         r \<leftarrow> copy_reindex_edge n2 e2 r e;
         vset re m r } else Some re }) (replicate (nat (ia_kept e2)) (new_edge no_features zero));
     Some \<lparr>hg_linear_chain = hg_linear_chain hg, hg_nodes = rn, hg_edges = re\<rparr> }"

text \<open>Whether the tails of an edge are all kept, up to the first that is not.\<close>

definition tails_kept :: "bool list \<Rightarrow> int list \<Rightarrow> bool option" where
  "tails_kept kn ts = for_break ts (\<lambda>t _. do { k \<leftarrow> vat kn t; Some (if k then (True, True) else (False, False)) }) True"

definition TightenEdgeMask :: "bool list \<Rightarrow> bool list \<Rightarrow> ('f, 'w) hypergraph \<Rightarrow> bool list option" where
  "TightenEdgeMask ke kn hg = for_each (positions (hg_edges hg)) (\<lambda>i ke. do {
     k \<leftarrow> vat ke i;
     if k then do {
       e \<leftarrow> vat (hg_edges hg) i;
       b \<leftarrow> tails_kept kn (ed_tails e);
       if b then Some ke else vset ke i False } else Some ke }) ke"

definition CreateNodeSubset :: "'f \<Rightarrow> 'w \<Rightarrow> bool list \<Rightarrow> bool list \<Rightarrow> ('f, 'w) hypergraph \<Rightarrow> (bool list \<times> ('f, 'w) hypergraph) option" where
  "CreateNodeSubset no_features zero keep_nodes keep_edges hg = do {
     keep_edges \<leftarrow> TightenEdgeMask keep_edges keep_nodes hg;
     hg' \<leftarrow> CreateNodeEdgeSubset no_features zero keep_nodes keep_edges hg;
     Some (keep_edges, hg') }"

definition edge_subset_masks :: "bool list \<Rightarrow> ('f, 'w) hypergraph \<Rightarrow> (bool list \<times> bool list) option" where
  "edge_subset_masks keep_edges hg = for_each (hg_nodes hg) (\<lambda>n s. for_each (nd_in n) (\<lambda>ei (keep_edges, kn). do {
     k \<leftarrow> vat keep_edges ei;
     if k then do {
       e \<leftarrow> vat (hg_edges hg) ei;
       b \<leftarrow> tails_kept kn (ed_tails e);
       if b then map_option (\<lambda>kn. (keep_edges, kn)) (vset kn (ed_head e) True)
       else map_option (\<lambda>ke. (ke, kn)) (vset keep_edges ei False) }
     else Some (keep_edges, kn) }) s) (keep_edges, replicate (length (hg_nodes hg)) False)"

definition CreateEdgeSubset :: "'f \<Rightarrow> 'w \<Rightarrow> bool list \<Rightarrow> ('f, 'w) hypergraph \<Rightarrow> (bool list \<times> bool list \<times> ('f, 'w) hypergraph) option" where
  "CreateEdgeSubset no_features zero keep_edges hg = do {
     (keep_edges, kn) \<leftarrow> edge_subset_masks keep_edges hg;
     hg' \<leftarrow> CreateNodeEdgeSubset no_features zero kn keep_edges hg;
     Some (keep_edges, kn, hg') }"

definition CreateViterbiHypergraph :: "'f \<Rightarrow> ('d, 'z) log_floats_scheme \<Rightarrow> bool list option \<Rightarrow> ('f, 'd logval) hypergraph \<Rightarrow>
    ('f, 'd logval) hypergraph option" where
  "CreateViterbiHypergraph no_features fl edges hg = do {
     (_, vit_edges) \<leftarrow> (case edges of
         Some m \<Rightarrow> do {
           check (vsize m = vsize (hg_edges hg));
           Viterbi (prob_weights fl) (lv_less fl) (EdgeSelectEdgeWeightFunction (prob_weights fl) m) ViterbiPathTraversal [] [] hg }
       | None \<Rightarrow> Viterbi_EdgeProb fl ViterbiPathTraversal [] [] hg);
     _ \<leftarrow> check_ids hg;
     used \<leftarrow> for_each vit_edges (\<lambda>e used. vset used (ed_id e) True) (replicate (length (hg_edges hg)) False);
     map_option (snd \<circ> snd) (CreateEdgeSubset no_features (lv_Zero fl) used hg) }"

section \<open>The new indices are positions among the kept ones\<close>

definition marked :: "bool list \<Rightarrow> int list" where
  "marked keep = filter (\<lambda>i. keep ! nat i) (positions keep)"

lemma marked_simps: "set (marked keep) = {i. 0 \<le> i \<and> i < vsize keep \<and> keep ! nat i}" "distinct (marked keep)" "sorted (marked keep)"
  by (auto simp: marked_def int_range_def sorted_wrt_filter)

lemma new_indices_keep_eq:
  "new_indices_keep keep = (map (\<lambda>i. if keep ! i then posn (marked keep) (int i) else REMOVED) [0..<length keep], vsize (marked keep))"
proof -
  let ?g = "\<lambda>b. if b then 0 else (-1 :: int)"
  have "new_indices_keep keep = fold (\<lambda>cp (re, ec). if 0 \<le> cp then (re @ [ec], ec + 1) else (re @ [cp], ec)) (map ?g keep) ([], 0)"
    unfolding new_indices_keep_def fold_map by (rule fold_cong) (auto simp: REMOVED_def)
  moreover have "kept (map ?g keep) = marked keep"
    unfolding kept_def marked_def by (rule filter_cong) (auto simp: vsize_def nat_less_iff)
  ultimately show ?thesis
    by (simp add: renumber_fold REMOVED_def)
qed

lemma indices_after_simps:
  "length (ia_map (indices_after_of keep)) = length keep" "ia_kept (indices_after_of keep) = vsize (marked keep)"
  "i < length keep \<Longrightarrow> ia_map (indices_after_of keep) ! i = (if keep ! i then posn (marked keep) (int i) else REMOVED)"
  by (simp_all add: indices_after_of_def new_indices_keep_eq)

lemma posn_not_removed [simp]: "posn xs x \<noteq> REMOVED"
  unfolding REMOVED_def using posn_nonneg [of xs x] by linarith

lemma vat_indices:
  assumes "0 \<le> i" "i < vsize keep"
  shows "vat (ia_map (indices_after_of keep)) i = Some (if i \<in> set (marked keep) then posn (marked keep) i else REMOVED)"
proof -
  have "nat i < length keep" "int (nat i) = i" using assms by (auto simp: vsize_def nat_less_iff)
  then show ?thesis
    using assms by (simp add: vat_eq indices_after_simps marked_simps vsize_def)
qed

lemma reindex_push_back_eq:
  assumes "\<And>i. i \<in> set is \<Longrightarrow> 0 \<le> i \<and> i < vsize keep"
  shows "reindex_push_back (indices_after_of keep) is out = Some (out @ map (posn (marked keep)) (filter (\<lambda>i. i \<in> set (marked keep)) is))"
  using assms by (induction "is" arbitrary: out) (auto simp: reindex_push_back_def vat_indices)

text \<open>The kept elements of a vector.\<close>

definition kept_of :: "bool list \<Rightarrow> 'a list \<Rightarrow> 'a list" where
  "kept_of keep v = map (\<lambda>i. v ! nat i) (marked keep)"

text \<open>Processing the elements that stay, each at its new position.\<close>

lemma scatter_eq:
  assumes len: "length xs = length keep"
    and g: "\<And>i. i < length keep \<Longrightarrow> keep ! i \<Longrightarrow> g fresh (xs ! i) = Some (h i)"
  shows "for_each (positions xs) (\<lambda>i out. do {
     m \<leftarrow> vat (ia_map (indices_after_of keep)) i;
     if m \<noteq> REMOVED then do { x \<leftarrow> vat xs i; r \<leftarrow> vat out m; r \<leftarrow> g r x; vset out m r } else Some out })
     (replicate (nat (ia_kept (indices_after_of keep))) fresh) = Some (map (\<lambda>i. h (nat i)) (marked keep))"
proof -
  let ?K = "marked keep"
  let ?I = "\<lambda>(i :: int) out. length out = length ?K \<and> (\<forall>j < length ?K. out ! j = (if ?K ! j < i then h (nat (?K ! j)) else fresh))"
  have "\<exists>t. for_each (int_range 0 (vsize xs)) (\<lambda>i out. do {
     m \<leftarrow> vat (ia_map (indices_after_of keep)) i;
     if m \<noteq> REMOVED then do { x \<leftarrow> vat xs i; r \<leftarrow> vat out m; r \<leftarrow> g r x; vset out m r } else Some out })
     (replicate (nat (ia_kept (indices_after_of keep))) fresh) = Some t \<and> ?I (vsize xs) t"
  proof (rule for_range_total [where I = ?I])
    show "?I 0 (replicate (nat (ia_kept (indices_after_of keep))) fresh)"
    proof -
      have "\<not> ?K ! j < 0" if "j < length ?K" for j using nth_mem [OF that] by (auto simp: marked_simps)
      then show ?thesis by (simp add: indices_after_simps vsize_def)
    qed
  next
    fix i out
    assume i: "0 \<le> i" "i < vsize xs" and I: "?I i out"
    have n: "nat i < length keep" "int (nat i) = i" "i < vsize keep" using i len by (auto simp: vsize_def nat_less_iff)
    show "\<exists>s'. do {
       m \<leftarrow> vat (ia_map (indices_after_of keep)) i;
       if m \<noteq> REMOVED then do { x \<leftarrow> vat xs i; r \<leftarrow> vat out m; r \<leftarrow> g r x; vset out m r } else Some out } = Some s' \<and> ?I (i + 1) s'"
    proof (cases "i \<in> set ?K")
      case True
      let ?p = "nat (posn ?K i)"
      have p: "?p < length ?K" "?K ! ?p = i" "int ?p = posn ?K i" using posn_member [OF True] by (auto simp: vsize_def nat_less_iff)
      have x: "vat xs i = Some (xs ! nat i)" "g fresh (xs ! nat i) = Some (h (nat i))"
        using i g [OF n(1)] True by (simp_all add: vat_eq vsize_def marked_simps)
      have o: "vat out (posn ?K i) = Some fresh" "vset out (posn ?K i) (h (nat i)) = Some (out[?p := h (nat i)])"
        using I p vat_nat [of ?p out] vset_nat [of ?p out] by simp_all
      have "(out[?p := h (nat i)]) ! j = (if ?K ! j < i + 1 then h (nat (?K ! j)) else fresh)" if j: "j < length ?K" for j
      proof (cases "j = ?p")
        case False
        then have "?K ! j \<noteq> i" using p j marked_simps(2) [of keep] nth_eq_iff_index_eq by metis
        then show ?thesis using I j False by auto
      qed (use I p in simp)
      then show ?thesis
        using True i(1) n(3) x o I by (simp add: vat_indices)
    next
      case False
      have "?K ! j \<noteq> i" if "j < length ?K" for j using nth_mem [OF that] False by metis
      then have "(?K ! j < i + 1) = (?K ! j < i)" if "j < length ?K" for j using that by force
      then show ?thesis using False i(1) n(3) I by (simp add: vat_indices)
    qed
  qed simp
  then obtain t where run: "for_each (positions xs) (\<lambda>i out. do {
     m \<leftarrow> vat (ia_map (indices_after_of keep)) i;
     if m \<noteq> REMOVED then do { x \<leftarrow> vat xs i; r \<leftarrow> vat out m; r \<leftarrow> g r x; vset out m r } else Some out })
     (replicate (nat (ia_kept (indices_after_of keep))) fresh) = Some t"
    and t: "length t = length ?K" "\<forall>j < length ?K. t ! j = (if ?K ! j < vsize xs then h (nat (?K ! j)) else fresh)"
    by (elim exE conjE)
  have "?K ! j < vsize xs" if "j < length ?K" for j using nth_mem [OF that] len by (simp add: marked_simps vsize_def)
  then have "t = map (\<lambda>i. h (nat i)) ?K" by (intro nth_equalityI) (use t in simp_all)
  then show ?thesis using run by simp
qed

text \<open>Moving the elements down in place, or swapping them down, leaves the kept ones in order.\<close>

lemma sorted_ge_index:
  assumes "sorted xs" "distinct xs" "\<forall>x \<in> set xs. (0 :: int) \<le> x" "j < length xs"
  shows "int j \<le> xs ! j"
  using assms(4)
proof (induction j)
  case 0
  then show ?case using assms(3) nth_mem [of 0 xs] by simp
next
  case (Suc j)
  have "xs ! j \<le> xs ! Suc j" "xs ! j \<noteq> xs ! Suc j"
    using Suc.prems assms(1) sorted_nth_mono [of xs j "Suc j"] nth_eq_iff_index_eq [OF assms(2), of j "Suc j"] by simp_all
  then show ?case using Suc by simp
qed

lemma marked_ge: "j < length (marked keep) \<Longrightarrow> int j \<le> marked keep ! j"
  by (rule sorted_ge_index) (auto simp: marked_simps)

lemma marked_before_removed:
  assumes "j < length (marked keep)" "marked keep ! j < first_removed (indices_after_of keep)"
  shows "marked keep ! j = int j"
proof -
  let ?ia = "ia_map (indices_after_of keep)" and ?P = "\<lambda>i. keep ! nat i"
  define f where "f = length (takeWhile (\<lambda>m. m \<noteq> REMOVED) ?ia)"
  have f: "f \<le> length keep" using length_takeWhile_le [of "\<lambda>m. m \<noteq> REMOVED" ?ia] by (simp add: f_def indices_after_simps)
  have "keep ! i" if "i < f" for i
  proof -
    have "?ia ! i \<noteq> REMOVED"
      using that nth_mem [of i "takeWhile (\<lambda>m. m \<noteq> REMOVED) ?ia"] takeWhile_nth [of i "\<lambda>m. m \<noteq> REMOVED" ?ia] set_takeWhileD by (fastforce simp: f_def)
    then show ?thesis using that f indices_after_simps(3) [of i keep] by (auto split: if_splits)
  qed
  then have "filter ?P (int_range 0 (int f)) = int_range 0 (int f)" by (auto simp: filter_id_conv)
  moreover have "positions keep = int_range 0 (int f) @ int_range (int f) (vsize keep)"
    using f by (simp add: int_range_append vsize_def)
  ultimately have m: "marked keep = int_range 0 (int f) @ filter ?P (int_range (int f) (vsize keep))" by (simp add: marked_def)
  have "j < f"
  proof (rule ccontr)
    assume "\<not> j < f"
    then have "int f \<le> int j" by simp
    also have "\<dots> \<le> marked keep ! j" by (rule marked_ge [OF assms(1)])
    finally show False using assms(2) by (simp add: first_removed_def f_def vsize_def)
  qed
  then show ?thesis by (simp add: m nth_append nth_int_range)
qed

lemma moves_kept:
  assumes len: "length v = length keep"
    and step: "\<And>w i. length w = length keep \<Longrightarrow> 0 \<le> i \<Longrightarrow> i < vsize keep \<Longrightarrow> i \<in> set (marked keep) \<Longrightarrow> posn (marked keep) i \<le> i \<Longrightarrow>
      \<exists>w'. move i (posn (marked keep) i) w = Some w' \<and> length w' = length keep \<and> w' ! nat (posn (marked keep) i) = w ! nat i \<and>
        (\<forall>k < length keep. int k \<noteq> i \<longrightarrow> int k \<noteq> posn (marked keep) i \<longrightarrow> w' ! k = w ! k)"
  shows "map_option (take (nat (ia_kept (indices_after_of keep))))
    (for_each (int_range (first_removed (indices_after_of keep)) (vsize (ia_map (indices_after_of keep)))) (\<lambda>i v. do {
       m \<leftarrow> vat (ia_map (indices_after_of keep)) i;
       if m \<noteq> REMOVED then move i m v else Some v }) v) = Some (kept_of keep v)"
proof -
  let ?K = "marked keep" and ?ia = "indices_after_of keep"
  let ?I = "\<lambda>i w. length w = length keep \<and> (\<forall>j < length ?K. ?K ! j < i \<longrightarrow> w ! j = v ! nat (?K ! j)) \<and>
    (\<forall>k < length keep. i \<le> int k \<longrightarrow> w ! k = v ! k)"
  have fr: "0 \<le> first_removed ?ia" "first_removed ?ia \<le> vsize (ia_map ?ia)"
    using length_takeWhile_le [of "\<lambda>m. m \<noteq> REMOVED" "ia_map ?ia"] by (simp_all add: first_removed_def vsize_def)
  have "\<exists>w. for_each (int_range (first_removed ?ia) (vsize (ia_map ?ia))) (\<lambda>i v. do {
       m \<leftarrow> vat (ia_map ?ia) i;
       if m \<noteq> REMOVED then move i m v else Some v }) v = Some w \<and> ?I (vsize (ia_map ?ia)) w"
  proof (rule for_range_total [where I = ?I])
    have "v ! j = v ! nat (?K ! j)" if "j < length ?K" "?K ! j < first_removed ?ia" for j
      using marked_before_removed [OF that] by simp
    then show "?I (first_removed ?ia) v" using len by blast
  next
    fix i w
    assume i: "first_removed ?ia \<le> i" "i < vsize (ia_map ?ia)" and I: "?I i w"
    have n: "0 \<le> i" "i < vsize keep" "nat i < length keep" "int (nat i) = i"
      using i fr by (auto simp: indices_after_simps vsize_def nat_less_iff)
    show "\<exists>s'. do { m \<leftarrow> vat (ia_map ?ia) i; if m \<noteq> REMOVED then move i m w else Some w } = Some s' \<and> ?I (i + 1) s'"
    proof (cases "i \<in> set ?K")
      case True
      let ?p = "nat (posn ?K i)"
      have p: "?p < length ?K" "?K ! ?p = i" "int ?p = posn ?K i" using posn_member [OF True] by (auto simp: vsize_def nat_less_iff)
      have le: "posn ?K i \<le> i" using marked_ge [OF p(1)] p by simp
      obtain w' where w': "move i (posn ?K i) w = Some w'" "length w' = length keep" "w' ! ?p = w ! nat i"
        and same: "\<forall>k < length keep. int k \<noteq> i \<longrightarrow> int k \<noteq> posn ?K i \<longrightarrow> w' ! k = w ! k"
        using step [OF _ n(1,2) True le, of w] I by blast
      have lk: "length ?K \<le> length keep" using length_filter_le [of "\<lambda>i. keep ! nat i" "positions keep"] by (simp add: marked_def vsize_def)
      have "w' ! j = v ! nat (?K ! j)" if j: "j < length ?K" "?K ! j < i + 1" for j
      proof (cases "j = ?p")
        case True
        then show ?thesis using w'(3) p I n(3,4) by simp
      next
        case False
        then have "?K ! j \<noteq> i" using p j(1) marked_simps(2) [of keep] nth_eq_iff_index_eq by metis
        then have "?K ! j < i" "int j < i" "j < length keep" using j marked_ge [OF j(1)] lk by simp_all
        then show ?thesis using same I j(1) False p(3) by auto
      qed
      moreover have "w' ! k = v ! k" if "k < length keep" "i + 1 \<le> int k" for k
        using same I that le by simp
      ultimately show ?thesis using True n(1,2) w'(1,2) by (simp add: vat_indices)
    next
      case False
      have "?K ! j < i + 1 \<longleftrightarrow> ?K ! j < i" if "j < length ?K" for j using nth_mem [OF that] False by (cases "?K ! j = i") auto
      then have "?I (i + 1) w" using I by simp
      then show ?thesis using False n(1,2) by (simp add: vat_indices)
    qed
  qed (use fr in simp_all)
  then obtain w where run: "for_each (int_range (first_removed ?ia) (vsize (ia_map ?ia))) (\<lambda>i v. do {
       m \<leftarrow> vat (ia_map ?ia) i;
       if m \<noteq> REMOVED then move i m v else Some v }) v = Some w" and I: "?I (vsize (ia_map ?ia)) w" by blast
  have "length ?K \<le> length keep" using length_filter_le [of "\<lambda>i. keep ! nat i" "positions keep"] by (simp add: marked_def vsize_def)
  moreover have "?K ! j < vsize (ia_map ?ia)" if "j < length ?K" for j
    using nth_mem [OF that] by (simp add: marked_simps indices_after_simps vsize_def)
  ultimately have "take (nat (ia_kept ?ia)) w = kept_of keep v"
    using I by (intro nth_equalityI) (simp_all add: kept_of_def indices_after_simps vsize_def)
  then show ?thesis using run by simp
qed

lemma moves_at:
  assumes "length w = length keep" "i < vsize keep" "posn (marked keep) i \<le> i"
  obtains p q where "posn (marked keep) i = int p" "i = int q" "p < length w" "q < length w"
proof
  have "0 \<le> i" by (rule order_trans [OF posn_nonneg assms(3)])
  then show "posn (marked keep) i = int (nat (posn (marked keep) i))" "i = int (nat i)"
    "nat (posn (marked keep) i) < length w" "nat i < length w"
    using assms posn_nonneg [of "marked keep" i] by (simp_all only: vsize_def)
qed

lemma do_moves_kept:
  assumes "length v = length keep"
  shows "do_moves (indices_after_of keep) v = Some (kept_of keep v)"
proof -
  have "map_option (take (nat (ia_kept (indices_after_of keep))))
    (for_each (int_range (first_removed (indices_after_of keep)) (vsize (ia_map (indices_after_of keep)))) (\<lambda>i v. do {
       m \<leftarrow> vat (ia_map (indices_after_of keep)) i;
       if m \<noteq> REMOVED then do { x \<leftarrow> vat v i; vset v m x } else Some v }) v) = Some (kept_of keep v)"
  proof (rule moves_kept [where move = "\<lambda>i m v. do { x \<leftarrow> vat v i; vset v m x }", OF assms])
    fix w :: "'a list" and i
    assume w: "length w = length keep" and i: "i < vsize keep" "posn (marked keep) i \<le> i"
    show "\<exists>w'. do { x \<leftarrow> vat w i; vset w (posn (marked keep) i) x } = Some w' \<and> length w' = length keep \<and>
        w' ! nat (posn (marked keep) i) = w ! nat i \<and>
        (\<forall>k < length keep. int k \<noteq> i \<longrightarrow> int k \<noteq> posn (marked keep) i \<longrightarrow> w' ! k = w ! k)"
      by (rule moves_at [OF w i]) (simp add: w)
  qed
  then show ?thesis using assms by (simp add: do_moves_def indices_after_simps vsize_def map_conv_bind_option comp_def)
qed

lemma do_moves_swap_kept:
  assumes "length v = length keep"
  shows "do_moves_swap (indices_after_of keep) v = Some (kept_of keep v)"
proof -
  have "map_option (take (nat (ia_kept (indices_after_of keep))))
    (for_each (int_range (first_removed (indices_after_of keep)) (vsize (ia_map (indices_after_of keep)))) (\<lambda>i v. do {
       m \<leftarrow> vat (ia_map (indices_after_of keep)) i;
       if m \<noteq> REMOVED then do { x \<leftarrow> vat v i; y \<leftarrow> vat v m; v \<leftarrow> vset v m x; vset v i y } else Some v }) v) = Some (kept_of keep v)"
  proof (rule moves_kept [where move = "\<lambda>i m v. do { x \<leftarrow> vat v i; y \<leftarrow> vat v m; v \<leftarrow> vset v m x; vset v i y }", OF assms])
    fix w :: "'a list" and i
    assume w: "length w = length keep" and i: "i < vsize keep" "posn (marked keep) i \<le> i"
    show "\<exists>w'. do { x \<leftarrow> vat w i; y \<leftarrow> vat w (posn (marked keep) i); w \<leftarrow> vset w (posn (marked keep) i) x; vset w i y } = Some w' \<and>
        length w' = length keep \<and> w' ! nat (posn (marked keep) i) = w ! nat i \<and>
        (\<forall>k < length keep. int k \<noteq> i \<longrightarrow> int k \<noteq> posn (marked keep) i \<longrightarrow> w' ! k = w ! k)"
      by (rule moves_at [OF w i]) (simp add: w nth_list_update)
  qed
  then show ?thesis using assms by (simp add: do_moves_swap_def indices_after_simps vsize_def map_conv_bind_option comp_def)
qed

section \<open>The subset is the subgraph of what is kept, but for the ids of the nodes\<close>

definition stamp_ids :: "int \<Rightarrow> ('f, 'w) hypergraph \<Rightarrow> ('f, 'w) hypergraph" where
  "stamp_ids i hg = hg\<lparr>hg_nodes := map (\<lambda>n. n\<lparr>nd_id := i\<rparr>) (hg_nodes hg)\<rparr>"

lemma stamp_ids_simps [simp]: "hg_edges (stamp_ids i hg) = hg_edges hg" "length (hg_nodes (stamp_ids i hg)) = length (hg_nodes hg)"
  "n < length (hg_nodes hg) \<Longrightarrow> nd_in (hg_nodes (stamp_ids i hg) ! n) = nd_in (hg_nodes hg ! n)" "GoalNode (stamp_ids i hg) = GoalNode hg"
  by (simp_all add: stamp_ids_def GoalNode_def vsize_def)

lemma derives_same_ins:
  assumes "length (hg_nodes hg') = length (hg_nodes hg)" "hg_edges hg' = hg_edges hg"
    and "\<And>n. n < length (hg_nodes hg) \<Longrightarrow> nd_in (hg_nodes hg' ! n) = nd_in (hg_nodes hg ! n)"
  shows "derives hg n d \<Longrightarrow> derives hg' n d"
proof (induction rule: derives.induct)
  case (derives_edge n e ds)
  then show ?case using assms by (auto simp: derives_Deriv list_all2_conv_all_nth)
qed

lemma derives_stamp_ids: "derives (stamp_ids i hg) n d \<longleftrightarrow> derives hg n d"
  using derives_same_ins [of "stamp_ids i hg" hg] derives_same_ins [of hg "stamp_ids i hg"] by auto

lemma CreateNodeEdgeSubset_eq:
  assumes c: "consistent_hg {} hg" and ne: "hg_nodes hg \<noteq> []" and len: "length kn = length (hg_nodes hg)" "length ke = length (hg_edges hg)"
    and ok: "sub_ok (marked kn) (marked ke) hg"
  shows "CreateNodeEdgeSubset no_features zero kn ke hg =
    Some (stamp_ids (if kn ! 0 then posn (marked kn) 0 else REMOVED) (subgraph (marked kn) (marked ke) hg))"
proof -
  let ?n2 = "indices_after_of kn" and ?e2 = "indices_after_of ke" and ?id = "if kn ! 0 then posn (marked kn) 0 else REMOVED"
  let ?keep = "\<lambda>es. map (posn (marked ke)) (filter (\<lambda>e. e \<in> set (marked ke)) es)"
  let ?node = "\<lambda>i. (hg_nodes hg ! i)\<lparr>nd_id := ?id, nd_in := ?keep (nd_in (hg_nodes hg ! i)), nd_out := ?keep (nd_out (hg_nodes hg ! i))\<rparr>"
  let ?edge = "\<lambda>i. (hg_edges hg ! i)\<lparr>ed_id := posn (marked ke) (int i), ed_head := posn (marked kn) (ed_head (hg_edges hg ! i)),
    ed_tails := map (posn (marked kn)) (ed_tails (hg_edges hg ! i))\<rparr>"
  have id: "vat (ia_map ?n2) 0 = Some ?id"
    using ne len by (simp add: vat_eq indices_after_simps)
  have outs: "0 \<le> e \<and> e < vsize ke" if "i < length (hg_nodes hg)" "e \<in> set (nd_out (hg_nodes hg ! i))" for i e
    using consistentD(7) [OF c that(1), of e] that(2) len by (auto split: if_splits simp: count_list_0_iff vsize_def)
  have ins: "0 \<le> e \<and> e < vsize ke" if "i < length (hg_nodes hg)" "e \<in> set (nd_in (hg_nodes hg ! i))" for i e
    using consistentD(6) [OF c that(1), of e] that(2) len by (auto simp: vsize_def)
  have node: "copy_reindex_node ?n2 ?e2 new_hg_node (hg_nodes hg ! i) = Some (?node i)" if i: "i < length kn" for i
  proof -
    have i': "i < length (hg_nodes hg)" using i len by simp
    have "reindex_push_back ?e2 (nd_in (hg_nodes hg ! i)) [] = Some (?keep (nd_in (hg_nodes hg ! i)))"
      "reindex_push_back ?e2 (nd_out (hg_nodes hg ! i)) [] = Some (?keep (nd_out (hg_nodes hg ! i)))"
      using reindex_push_back_eq [of "nd_in (hg_nodes hg ! i)" ke "[]"] reindex_push_back_eq [of "nd_out (hg_nodes hg ! i)" ke "[]"]
        ins [OF i'] outs [OF i'] by simp_all
    then show ?thesis
      using id by (simp add: copy_reindex_node_def copy_fixed_node_def new_hg_node_def)
  qed
  have rn: "for_each (positions (hg_nodes hg)) (\<lambda>i rn. do {
       m \<leftarrow> vat (ia_map ?n2) i;
       if m \<noteq> REMOVED then do { n \<leftarrow> vat (hg_nodes hg) i; r \<leftarrow> vat rn m; r \<leftarrow> copy_reindex_node ?n2 ?e2 r n; vset rn m r } else Some rn })
       (replicate (nat (ia_kept ?n2)) new_hg_node) = Some (map (\<lambda>i. ?node (nat i)) (marked kn))"
    by (rule scatter_eq) (use len node in simp_all)
  have edge: "copy_reindex_edge ?n2 ?e2 (new_edge no_features zero) (hg_edges hg ! i) = Some (?edge i)" if i: "i < length ke" "ke ! i" for i
  proof -
    have m: "int i \<in> set (marked ke)" using i by (simp add: marked_simps vsize_def)
    have i': "i < length (hg_edges hg)" using i len by simp
    have h: "ed_head (hg_edges hg ! i) \<in> set (marked kn)" and t: "\<And>t. t \<in> set (ed_tails (hg_edges hg ! i)) \<Longrightarrow> t \<in> set (marked kn)"
      using sub_okD(5,6) [OF ok m] by auto
    have r: "0 \<le> t \<and> t < vsize kn" if "t \<in> set (marked kn)" for t using that by (simp add: marked_simps)
    have "reindex_push_back ?n2 (ed_tails (hg_edges hg ! i)) [] = Some (map (posn (marked kn)) (ed_tails (hg_edges hg ! i)))"
      using reindex_push_back_eq [of "ed_tails (hg_edges hg ! i)" kn "[]"] r t by (simp add: filter_id_conv [THEN iffD2])
    moreover have "vat (ia_map ?n2) (ed_head (hg_edges hg ! i)) = Some (posn (marked kn) (ed_head (hg_edges hg ! i)))"
      using r [OF h] h by (simp add: vat_indices)
    moreover have "vat (ia_map ?e2) (ed_id (hg_edges hg ! i)) = Some (posn (marked ke) (int i))"
      using consistentD(2) [OF c i'] i m by (simp add: vat_indices vsize_def)
    ultimately show ?thesis
      by (simp add: copy_reindex_edge_def copy_fixed_edge_def copy_features_def copy_pod_def new_edge_def)
  qed
  have re: "for_each (positions (hg_edges hg)) (\<lambda>i re. do {
       m \<leftarrow> vat (ia_map ?e2) i;
       if m \<noteq> REMOVED then do { e \<leftarrow> vat (hg_edges hg) i; r \<leftarrow> vat re m; r \<leftarrow> copy_reindex_edge ?n2 ?e2 r e; vset re m r } else Some re })
       (replicate (nat (ia_kept ?e2)) (new_edge no_features zero)) = Some (map (\<lambda>i. ?edge (nat i)) (marked ke))"
    by (rule scatter_eq) (use len edge in simp_all)
  have nodes: "map (\<lambda>i. ?node (nat i)) (marked kn) = hg_nodes (stamp_ids ?id (subgraph (marked kn) (marked ke) hg))"
    by (simp add: stamp_ids_def subgraph_def Let_def)
  have edges: "map (\<lambda>i. ?edge (nat i)) (marked ke) = hg_edges (stamp_ids ?id (subgraph (marked kn) (marked ke) hg))"
    by (rule map_cong [THEN trans]) (auto simp: subgraph_def Let_def marked_simps)
  show ?thesis
    unfolding CreateNodeEdgeSubset_def Let_def rn re bind.bind_lunit nodes edges
    by (simp add: stamp_ids_def subgraph_def)
qed

section \<open>What can be built from the kept edges\<close>

lemma tails_kept_eq:
  assumes "\<And>t. t \<in> set ts \<Longrightarrow> 0 \<le> t \<and> t < vsize kn"
  shows "tails_kept kn ts = Some (\<forall>t \<in> set ts. kn ! nat t)"
  using assms unfolding tails_kept_def by (induction ts) (auto simp: vat_eq vsize_def)

lemma reaches_step:
  assumes "topological hg" "n < length (hg_nodes hg)"
  shows "reaches prune hg n \<longleftrightarrow> (\<exists>e \<in> set (nd_in (hg_nodes hg ! n)). \<not> prune ! nat e \<and> (\<forall>t \<in> set (tails hg e). reaches prune hg (nat t)))"
proof
  assume "reaches prune hg n"
  then obtain e ds where d: "derives hg n (Deriv e ds)" "\<forall>x \<in> deriv_edges (Deriv e ds). \<not> prune ! nat x"
    unfolding reaches_def by (metis deriv.exhaust)
  then have e: "e \<in> set (nd_in (hg_nodes hg ! n))" and ds: "list_all2 (\<lambda>t d. derives hg (nat t) d) (tails hg e) ds"
    by (auto simp: derives_Deriv)
  have "reaches prune hg (nat t)" if t: "t \<in> set (tails hg e)" for t
  proof -
    obtain m where m: "m < length ds" "t = tails hg e ! m" using t ds by (auto simp: in_set_conv_nth list_all2_conv_all_nth)
    then have "derives hg (nat t) (ds ! m)" using ds by (auto simp: list_all2_conv_all_nth)
    moreover have "\<forall>x \<in> deriv_edges (ds ! m). \<not> prune ! nat x" using d(2) m(1) by auto
    ultimately show ?thesis by (auto simp: reaches_def)
  qed
  then show "\<exists>e \<in> set (nd_in (hg_nodes hg ! n)). \<not> prune ! nat e \<and> (\<forall>t \<in> set (tails hg e). reaches prune hg (nat t))"
    using e d(2) by auto
next
  assume "\<exists>e \<in> set (nd_in (hg_nodes hg ! n)). \<not> prune ! nat e \<and> (\<forall>t \<in> set (tails hg e). reaches prune hg (nat t))"
  then obtain e where e: "e \<in> set (nd_in (hg_nodes hg ! n))" "\<not> prune ! nat e" "\<forall>t \<in> set (tails hg e). reaches prune hg (nat t)" by blast
  then obtain f where f: "\<And>t. t \<in> set (tails hg e) \<Longrightarrow> derives hg (nat t) (f t) \<and> (\<forall>x \<in> deriv_edges (f t). \<not> prune ! nat x)"
    unfolding reaches_def by metis
  have "derives hg n (Deriv e (map f (tails hg e)))"
    using e(1) f assms(2) by (simp add: derives_Deriv list.rel_map list_all2_same)
  moreover have "\<forall>x \<in> deriv_edges (Deriv e (map f (tails hg e))). \<not> prune ! nat x" using e(2) f by auto
  ultimately show "reaches prune hg n" unfolding reaches_def by blast
qed

definition buildable :: "bool list \<Rightarrow> ('f, 'w) hypergraph \<Rightarrow> int \<Rightarrow> bool" where
  "buildable keep hg e \<longleftrightarrow> (\<forall>t \<in> set (tails hg e). reaches (map Not keep) hg (nat t))"

lemma edge_subset_masks_eq:
  assumes top: "topological hg" and c: "consistent_hg {} hg" and len: "length keep = length (hg_edges hg)"
  shows "edge_subset_masks keep hg = Some (map (\<lambda>e. keep ! e \<and> buildable keep hg (int e)) [0..<length (hg_edges hg)],
    map (reaches (map Not keep) hg) [0..<length (hg_nodes hg)])"
proof -
  let ?E = "length (hg_edges hg)" and ?N = "length (hg_nodes hg)" and ?R = "reaches (map Not keep) hg" and ?B = "buildable keep hg"
  let ?h = "\<lambda>e. ed_head (hg_edges hg ! e)"
  let ?body = "\<lambda>ei (keep_edges, kn). do {
     k \<leftarrow> vat keep_edges ei;
     if k then do {
       e \<leftarrow> vat (hg_edges hg) ei;
       b \<leftarrow> tails_kept kn (ed_tails e);
       if b then map_option (\<lambda>kn. (keep_edges, kn)) (vset kn (ed_head e) True)
       else map_option (\<lambda>ke. (ke, kn)) (vset keep_edges ei False) }
     else Some (keep_edges, kn) }"
  let ?I = "\<lambda>ys (ke, kn). length ke = ?E \<and> length kn = ?N \<and> (\<forall>e < ?E. ke ! e = (keep ! e \<and> (?h e < vsize ys \<longrightarrow> ?B (int e)))) \<and>
    (\<forall>n < ?N. kn ! n = (int n < vsize ys \<and> ?R n))"
  have "\<exists>t. for_each (hg_nodes hg) (\<lambda>n s. for_each (nd_in n) ?body s) (keep, replicate ?N False) = Some t \<and> ?I (hg_nodes hg) t"
  proof (rule for_each_total [where I = ?I])
    have "\<not> ?h e < 0" if "e < ?E" for e using consistentD(4) [OF c that] by auto
    then show "?I [] (keep, replicate ?N False)" using len by auto
  next
    fix ys x zs s
    assume split: "hg_nodes hg = ys @ x # zs" and I: "?I ys s"
    let ?i = "length ys"
    have i: "?i < ?N" "x = hg_nodes hg ! ?i" using split by auto
    let ?J = "\<lambda>es (ke, kn). length ke = ?E \<and> length kn = ?N \<and>
      (\<forall>e < ?E. ke ! e = (keep ! e \<and> (?h e < int ?i \<or> int e \<in> set es \<longrightarrow> ?B (int e)))) \<and>
      (\<forall>n < ?N. kn ! n = (n < ?i \<and> ?R n \<or> n = ?i \<and> (\<exists>e \<in> set es. keep ! nat e \<and> ?B e)))"
    have "\<exists>t. for_each (nd_in x) ?body s = Some t \<and> ?J (nd_in x) t"
    proof (rule for_each_total [where I = ?J])
      show "?J [] s" using I by (auto simp: vsize_def)
    next
      fix es e fs u
      assume esplit: "nd_in x = es @ e # fs" and J: "?J es u"
      obtain ke kn where u: "u = (ke, kn)" by (cases u)
      have e: "e \<in> set (nd_in (hg_nodes hg ! ?i))" "e \<notin> set es"
        using esplit consistentD(5) [OF c i(1)] i(2) by auto
      have r: "0 \<le> e" "nat e < ?E" "?h (nat e) = int ?i" "int (nat e) = e"
        using consistentD(6) [OF c i(1)] e(1) by (auto simp: vsize_def nat_less_iff)
      have ke: "length ke = ?E" "\<And>f. f < ?E \<Longrightarrow> ke ! f = (keep ! f \<and> (?h f < int ?i \<or> int f \<in> set es \<longrightarrow> ?B (int f)))"
        and kn: "length kn = ?N" "\<And>n. n < ?N \<Longrightarrow> kn ! n = (n < ?i \<and> ?R n \<or> n = ?i \<and> (\<exists>e \<in> set es. keep ! nat e \<and> ?B e))"
        using J by (simp_all add: u)
      have v: "vat ke e = Some (keep ! nat e)" "vat (hg_edges hg) e = Some (hg_edges hg ! nat e)"
        using vat_nat [of "nat e" ke, unfolded r(4)] vat_nat [of "nat e" "hg_edges hg", unfolded r(4)] r(2) e(2) ke(1) ke(2) [OF r(2), unfolded r(3,4)] by simp_all
      have tail: "0 \<le> t \<and> t < vsize kn \<and> kn ! nat t = ?R (nat t)" if "t \<in> set (tails hg e)" for t
        using topologicalD(2) [OF top i(1) e(1) that] i(1) kn(1) kn(2) [of "nat t"] by (auto simp: nat_less_iff vsize_def)
      have tk: "tails_kept kn (tails hg e) = Some (?B e)"
        using tails_kept_eq [of "tails hg e" kn] tail by (auto simp: buildable_def)
      have sv: "vset kn (int ?i) True = Some (kn[?i := True])" "vset ke e False = Some (ke[nat e := False])"
        using i(1) kn(1) ke(1) r(2) vset_nat [of "nat e" ke, unfolded r(4)] by (simp_all add: vset_eq)
      show "\<exists>s'. ?body e u = Some s' \<and> ?J (es @ [e]) s'"
      proof (cases "keep ! nat e")
        case False
        have "ke ! f = (keep ! f \<and> (?h f < int ?i \<or> int f \<in> set (es @ [e]) \<longrightarrow> ?B (int f)))" if "f < ?E" for f
          using ke(2) [OF that] False r by (cases "f = nat e") auto
        moreover have "kn ! n = (n < ?i \<and> ?R n \<or> n = ?i \<and> (\<exists>e \<in> set (es @ [e]). keep ! nat e \<and> ?B e))" if "n < ?N" for n
          using kn(2) [OF that] False by auto
        ultimately show ?thesis using False v ke(1) kn(1) by (simp add: u)
      next
        case True
        show ?thesis
        proof (cases "?B e")
          case B: True
          have "ke ! f = (keep ! f \<and> (?h f < int ?i \<or> int f \<in> set (es @ [e]) \<longrightarrow> ?B (int f)))" if "f < ?E" for f
            using ke(2) [OF that] B r by (cases "f = nat e") auto
          moreover have "kn[?i := True] ! n = (n < ?i \<and> ?R n \<or> n = ?i \<and> (\<exists>e \<in> set (es @ [e]). keep ! nat e \<and> ?B e))" if "n < ?N" for n
            using kn(2) [OF that] kn(1) True B that by (cases "n = ?i") auto
          ultimately show ?thesis using True B v tk sv(1) r(3) ke(1) kn(1) by (simp add: u)
        next
          case B: False
          have "ke[nat e := False] ! f = (keep ! f \<and> (?h f < int ?i \<or> int f \<in> set (es @ [e]) \<longrightarrow> ?B (int f)))" if "f < ?E" for f
            using ke(2) [OF that] ke(1) B r that by (cases "f = nat e") auto
          moreover have "kn ! n = (n < ?i \<and> ?R n \<or> n = ?i \<and> (\<exists>e \<in> set (es @ [e]). keep ! nat e \<and> ?B e))" if "n < ?N" for n
            using kn(2) [OF that] B by auto
          ultimately show ?thesis using True B v tk sv(2) ke(1) kn(1) by (simp add: u)
        qed
      qed
    qed
    then obtain ke kn where run: "for_each (nd_in x) ?body s = Some (ke, kn)" and J: "?J (nd_in x) (ke, kn)" by auto
    have mem: "int e \<in> set (nd_in x) \<longleftrightarrow> ?h e = int ?i" if "e < ?E" for e
      using consistentD(6) [OF c i(1), of "int e"] that i(2) by (simp add: vsize_def)
    have "ke ! e = (keep ! e \<and> (?h e < vsize (ys @ [x]) \<longrightarrow> ?B (int e)))" if "e < ?E" for e
      using J that mem [OF that] by (auto simp: vsize_def)
    moreover have "kn ! n = (int n < vsize (ys @ [x]) \<and> ?R n)" if n: "n < ?N" for n
    proof (cases "n = ?i")
      case True
      have "?R ?i \<longleftrightarrow> (\<exists>e \<in> set (nd_in x). keep ! nat e \<and> ?B e)"
        unfolding reaches_step [OF top i(1)] i(2) [symmetric]
        using consistentD(6) [OF c i(1)] len i(2) by (intro bex_cong refl) (auto simp: buildable_def vsize_def nat_less_iff)
      then show ?thesis using J n True by (simp add: vsize_def)
    next
      case False
      then show ?thesis using J n by (auto simp: vsize_def)
    qed
    ultimately show "\<exists>s'. for_each (nd_in x) ?body s = Some s' \<and> ?I (ys @ [x]) s'"
      using run J by auto
  qed
  then obtain ke kn where run: "for_each (hg_nodes hg) (\<lambda>n s. for_each (nd_in n) ?body s) (keep, replicate ?N False) = Some (ke, kn)"
    and I: "?I (hg_nodes hg) (ke, kn)" by auto
  have "?h e < vsize (hg_nodes hg)" if "e < ?E" for e using consistentD(4) [OF c that] by auto
  then have "ke = map (\<lambda>e. keep ! e \<and> ?B (int e)) [0..<?E]" by (intro nth_equalityI) (use I in simp_all)
  moreover have "kn = map ?R [0..<?N]" by (rule nth_equalityI) (use I in \<open>simp_all add: vsize_def\<close>)
  ultimately show ?thesis using run by (simp add: edge_subset_masks_def)
qed

lemma posn_mono:
  assumes "sorted xs" "distinct xs" "x \<in> set xs" "y \<in> set xs" "x < y"
  shows "posn xs x < posn xs y"
proof -
  note x = posn_member [OF assms(3)] and y = posn_member [OF assms(4)]
  have "\<not> posn xs y \<le> posn xs x"
    using sorted_nth_mono [OF assms(1), of "nat (posn xs y)" "nat (posn xs x)"] x y assms(5) by (auto simp: vsize_def nat_le_eq_zle nat_less_iff)
  then show ?thesis by simp
qed

lemma topological_stamp_ids: "topological (stamp_ids i hg) \<longleftrightarrow> topological hg"
  by (simp add: topological_def list_all_enumerate)

lemma CreateEdgeSubset_result:
  assumes top: "topological hg" and c: "consistent_hg {} hg" and len: "length keep = length (hg_edges hg)"
    and goal: "unpruned_derivs (map Not keep) hg \<noteq> {}"
  shows "\<exists>ke kn hg' f. CreateEdgeSubset no_features zero keep hg = Some (ke, kn, hg') \<and> topological hg' \<and>
    {d. derives hg' (nat (GoalNode hg')) d} = relabel f ` unpruned_derivs (map Not keep) hg \<and>
    inj_on f (\<Union>d \<in> unpruned_derivs (map Not keep) hg. deriv_edges d) \<and>
    (\<forall>e \<in> (\<Union>d \<in> unpruned_derivs (map Not keep) hg. deriv_edges d). same_data (hg_edges hg ! nat e) (hg_edges hg' ! nat (f e))) \<and>
    (\<forall>n < length (hg_nodes hg'). \<exists>d. derives hg' n d)"
proof -
  let ?prune = "map Not keep" and ?E = "length (hg_edges hg)" and ?N = "length (hg_nodes hg)"
  let ?ke = "map (\<lambda>e. keep ! e \<and> buildable keep hg (int e)) [0..<?E]" and ?kn = "map (reaches ?prune hg) [0..<?N]"
  let ?ord = "marked ?kn" and ?K = "marked ?ke"
  have K: "e \<in> set ?K \<longleftrightarrow> 0 \<le> e \<and> e < vsize (hg_edges hg) \<and> keep ! nat e \<and> buildable keep hg e" for e
    by (auto simp: marked_simps vsize_def nat_less_iff)
  have ord: "n \<in> set ?ord \<longleftrightarrow> 0 \<le> n \<and> n < vsize (hg_nodes hg) \<and> reaches ?prune hg (nat n)" for n
    by (auto simp: marked_simps vsize_def nat_less_iff)
  have lenp: "length ?prune = ?E" using len by simp
  have ne: "hg_nodes hg \<noteq> []"
  proof -
    obtain d where "derives hg (nat (GoalNode hg)) d" using goal by (auto simp: unpruned_derivs_def)
    then show ?thesis by (cases d) (auto simp: derives_Deriv)
  qed
  have ok: "sub_ok ?ord ?K hg"
    unfolding sub_ok_def
  proof (intro conjI ballI subsetI)
    fix e assume e: "e \<in> set ?K"
    then have r: "nat e < ?E" "int (nat e) = e" "keep ! nat e" "buildable keep hg e" unfolding K by (auto simp: vsize_def nat_less_iff)
    let ?h = "ed_head (hg_edges hg ! nat e)"
    have h: "0 \<le> ?h" "?h < vsize (hg_nodes hg)" "nat ?h < ?N" using consistentD(4) [OF c r(1)] by (auto simp: vsize_def nat_less_iff)
    have "e \<in> set (ins hg ?h)" using consistentD(6) [OF c h(3), of e] e h by (simp add: K)
    moreover have "\<not> ?prune ! nat e" "\<forall>t \<in> set (tails hg e). reaches ?prune hg (nat t)" using r len by (simp_all add: buildable_def)
    ultimately have "reaches ?prune hg (nat ?h)"
      unfolding reaches_step [OF top h(3)] by blast
    then show "?h \<in> set ?ord" using h by (simp add: ord)
    fix t assume t: "t \<in> set (tails hg e)"
    then show "t \<in> set ?ord" using consistentD(3) [OF c r(1) t] r(4) by (simp add: ord buildable_def)
  qed (auto simp: marked_simps vsize_def)
  have filt: "(\<forall>x \<in> deriv_edges d. \<not> map Not ?ke ! nat x) \<longleftrightarrow> (\<forall>x \<in> deriv_edges d. \<not> ?prune ! nat x)" if "derives hg n d" for n d
  proof (rule filtered_derivation [OF top lenp _ that])
    show "map Not ?ke ! nat e \<longleftrightarrow> ?prune ! nat e \<or> (\<exists>t \<in> set (tails hg e). \<not> reaches ?prune hg (nat t))" if "0 \<le> e" "e < vsize (hg_edges hg)" for e
      using that len by (auto simp: vsize_def nat_less_iff buildable_def)
  qed
  have inK: "deriv_edges d \<subseteq> set ?K \<longleftrightarrow> (\<forall>x \<in> deriv_edges d. \<not> ?prune ! nat x)" if d: "derives hg n d" for n d
  proof -
    have "x \<in> set ?K \<longleftrightarrow> \<not> map Not ?ke ! nat x" if "x \<in> deriv_edges d" for x
      using derives_edges_range [OF top d that] by (auto simp: K vsize_def nat_less_iff)
    then show ?thesis using filt [OF d] by blast
  qed
  let ?S = "subgraph ?ord ?K hg" and ?id = "if ?kn ! 0 then posn ?ord 0 else REMOVED"
  let ?hg = "stamp_ids ?id ?S"
  have run: "CreateEdgeSubset no_features zero keep hg = Some (?ke, ?kn, ?hg)"
    using CreateNodeEdgeSubset_eq [OF c ne _ _ ok] by (simp add: CreateEdgeSubset_def edge_subset_masks_eq [OF top c len])
  have g: "GoalNode hg \<in> set ?ord"
  proof -
    have "0 \<le> GoalNode hg \<and> GoalNode hg < vsize (hg_nodes hg)" using ne by (cases "hg_nodes hg") (simp_all add: GoalNode_def vsize_def)
    moreover have "reaches ?prune hg (nat (GoalNode hg))" using goal by (auto simp: reaches_def unpruned_derivs_def)
    ultimately show ?thesis unfolding ord by blast
  qed
  have gpos: "GoalNode ?hg = posn ?ord (GoalNode hg)"
  proof -
    have "?ord \<noteq> []" using g by auto
    then have l: "last ?ord \<in> set ?ord" "length ?ord - 1 < length ?ord" "last ?ord = ?ord ! (length ?ord - 1)" by (simp_all add: last_conv_nth)
    have "x \<le> last ?ord" if "x \<in> set ?ord" for x
      using marked_simps(3) [of ?kn] that \<open>?ord \<noteq> []\<close> by (metis append_butlast_last_id sorted_append in_set_conv_decomp set_append Un_iff list.set_intros(1) order_refl set_ConsD empty_iff list.set(1))
    then have "last ?ord = GoalNode hg" using g l(1) ord [of "last ?ord"] by (fastforce simp: GoalNode_def)
    then have "posn ?ord (GoalNode hg) = int (length ?ord - 1)" using posn_nth [OF marked_simps(2) l(2)] l(3) by simp
    then show ?thesis using \<open>?ord \<noteq> []\<close> by (simp add: GoalNode_def vsize_def subgraph_simps Suc_leI of_nat_diff)
  qed
  have D: "{d. derives ?hg (nat (GoalNode ?hg)) d} = relabel (posn ?K) ` unpruned_derivs ?prune hg"
    unfolding derives_stamp_ids gpos subgraph_derives [OF c ok g] unpruned_derivs_def using inK by (intro arg_cong [where f = "image _"]) blast
  have T: "topological ?hg"
    unfolding topological_stamp_ids
  proof (rule subgraph_topological [OF c ok])
    fix e t assume e: "e \<in> set ?K" and t: "t \<in> set (tails hg e)"
    let ?h = "ed_head (hg_edges hg ! nat e)"
    note h = sub_okD(5) [OF ok e] and tt = sub_okD(6) [OF ok e t]
    note r = sub_okD(3) [OF ok h]
    have "e \<in> set (ins hg ?h)" using consistentD(6) [OF c, of "nat ?h" e] r e by (simp add: K)
    then have "t < ?h" using topologicalD(2) [OF top, of "nat ?h" e t] r t by simp
    then show "posn ?ord t < posn ?ord ?h" using posn_mono [OF marked_simps(3) marked_simps(2) tt h] by simp
  qed
  have inj: "inj_on (posn ?K) (\<Union>d \<in> unpruned_derivs ?prune hg. deriv_edges d)"
    and sub: "(\<Union>d \<in> unpruned_derivs ?prune hg. deriv_edges d) \<subseteq> set ?K"
  proof -
    show s: "(\<Union>d \<in> unpruned_derivs ?prune hg. deriv_edges d) \<subseteq> set ?K"
      using inK by (fastforce simp: unpruned_derivs_def)
    show "inj_on (posn ?K) (\<Union>d \<in> unpruned_derivs ?prune hg. deriv_edges d)"
      using s posn_inj [of _ ?K] by (meson inj_onI subsetD)
  qed
  have prod: "\<exists>d. derives ?hg n d" if n: "n < length (hg_nodes ?hg)" for n
  proof -
    have k: "n < length ?ord" using n by (simp add: subgraph_simps)
    note m = nth_mem [OF k]
    obtain d where d: "derives hg (nat (?ord ! n)) d" "\<forall>x \<in> deriv_edges d. \<not> ?prune ! nat x"
      using m unfolding ord by (auto simp: reaches_def)
    have "derives ?S (nat (posn ?ord (int (nat (?ord ! n))))) (relabel (posn ?K) d)"
      by (rule subgraph_derives_of [OF c ok d(1)]) (use m inK [OF d(1)] d(2) in \<open>simp_all add: ord\<close>)
    then show ?thesis using posn_nth [OF marked_simps(2) k] m by (auto simp: ord derives_stamp_ids)
  qed
  show ?thesis
    using run T D inj prod subgraph_same_data [of _ ?K hg ?ord] sub
    by (intro exI [of _ ?ke] exI [of _ ?kn] exI [of _ ?hg] exI [of _ "posn ?K"]) auto
qed

section \<open>The best derivation as a hypergraph\<close>

lemma ViterbiPathTraversal_eq: "ViterbiPathTraversal e ants r = Some (r @ concat ants @ [e])"
proof -
  have one: "fold (\<lambda>x r. r @ [x]) a r = r @ a" for a r :: "('a, 'b) edge list" by (induction a arbitrary: r) auto
  have "fold (\<lambda>a r. r @ a) ants r = r @ concat ants" by (induction ants arbitrary: r) auto
  then show ?thesis by (simp add: ViterbiPathTraversal_def one)
qed

lemma path_result:
  assumes top: "topological hg"
  shows "derives hg n d \<Longrightarrow> \<exists>r. deriv_result ViterbiPathTraversal [] hg d = Some r \<and> set r = (\<lambda>e. hg_edges hg ! nat e) ` deriv_edges d"
proof (induction rule: derives.induct)
  case (derives_edge i e ds)
  have "\<forall>d \<in> set ds. \<exists>r. deriv_result ViterbiPathTraversal [] hg d = Some r \<and> set r = (\<lambda>e. hg_edges hg ! nat e) ` deriv_edges d"
    using derives_edge.IH by (auto simp: in_set_conv_nth list_all2_conv_all_nth)
  then obtain f where f: "\<And>d. d \<in> set ds \<Longrightarrow> deriv_result ViterbiPathTraversal [] hg d = Some (f d) \<and> set (f d) = (\<lambda>e. hg_edges hg ! nat e) ` deriv_edges d"
    by metis
  have "vat (hg_edges hg) e = Some (hg_edges hg ! nat e)"
    using topologicalD(1) [OF top derives_edge.hyps(1,2)] by (simp add: vat_eq vsize_def)
  moreover have "those (map (deriv_result ViterbiPathTraversal [] hg) ds) = Some (map f ds)"
    by (rule those_map) (use f in blast)
  ultimately show ?case
    unfolding deriv_result.simps bind.bind_lunit ViterbiPathTraversal_eq
    using f by auto
qed

lemma mark_ids:
  assumes "\<And>e. e \<in> set es \<Longrightarrow> 0 \<le> ed_id e \<and> ed_id e < vsize m"
  shows "for_each es (\<lambda>e used. vset used (ed_id e) True) m = Some (map (\<lambda>i. m ! i \<or> int i \<in> ed_id ` set es) [0..<length m])"
  using assms
proof (induction es arbitrary: m)
  case Nil
  then show ?case by (simp add: map_nth)
next
  case (Cons e es)
  let ?m = "m[nat (ed_id e) := True]"
  have e: "nat (ed_id e) < length m" "int (nat (ed_id e)) = ed_id e" using Cons.prems [of e] by (auto simp: vsize_def nat_less_iff)
  have "vset m (ed_id e) True = Some ?m" using vset_nat [of "nat (ed_id e)" m, unfolded e(2)] e(1) by simp
  moreover have "for_each es (\<lambda>e used. vset used (ed_id e) True) ?m = Some (map (\<lambda>i. ?m ! i \<or> int i \<in> ed_id ` set es) [0..<length ?m])"
    by (rule Cons.IH) (use Cons.prems in \<open>simp add: vsize_def\<close>)
  moreover have "?m ! i = (m ! i \<or> int i = ed_id e)" if "i < length m" for i
    using that e by (cases "i = nat (ed_id e)") auto
  ultimately show ?case by auto
qed

text \<open>A derivation whose edges are all used by the best derivation of the goal is the best one of its node.\<close>

definition coherent :: "('f, 'w) hypergraph \<Rightarrow> (nat \<Rightarrow> deriv) \<Rightarrow> bool" where
  "coherent hg D \<longleftrightarrow> (\<forall>n < length (hg_nodes hg).
     \<exists>e \<in> set (nd_in (hg_nodes hg ! n)). D n = Deriv e (map (\<lambda>t. D (nat t)) (tails hg e)))"

lemma coherent_edges:
  assumes "topological hg" "coherent hg D" "n < length (hg_nodes hg)" "x \<in> deriv_edges (D n)"
  shows "\<exists>k < length (hg_nodes hg). x \<in> set (nd_in (hg_nodes hg ! k)) \<and> D k = Deriv x (map (\<lambda>t. D (nat t)) (tails hg x))"
  using assms(3,4)
proof (induction n rule: less_induct)
  case (less n)
  obtain e where e: "e \<in> set (nd_in (hg_nodes hg ! n))" "D n = Deriv e (map (\<lambda>t. D (nat t)) (tails hg e))"
    using assms(2) less.prems(1) by (auto simp: coherent_def)
  show ?case
  proof (cases "x = e")
    case False
    then obtain t where t: "t \<in> set (tails hg e)" "x \<in> deriv_edges (D (nat t))" using less.prems(2) e(2) by auto
    have "nat t < n" using topologicalD(2) [OF assms(1) less.prems(1) e(1) t(1)] by (simp add: nat_less_iff)
    then show ?thesis using less.IH [OF _ _ t(2)] less.prems(1) by simp
  qed (use less.prems e in blast)
qed

lemma coherent_only:
  assumes top: "topological hg" and c: "consistent_hg {} hg" and D: "coherent hg D" and g: "g < length (hg_nodes hg)"
  shows "derives hg n d \<Longrightarrow> deriv_edges d \<subseteq> deriv_edges (D g) \<Longrightarrow> d = D n"
proof (induction rule: derives.induct)
  case (derives_edge i e ds)
  obtain k where k: "k < length (hg_nodes hg)" "e \<in> set (nd_in (hg_nodes hg ! k))" "D k = Deriv e (map (\<lambda>t. D (nat t)) (tails hg e))"
    using coherent_edges [OF top D g, of e] derives_edge.prems by auto
  have "k = i" using consistentD(6) [OF c k(1), of e] consistentD(6) [OF c derives_edge.hyps(1), of e] k(2) derives_edge.hyps(2) by auto
  moreover have "ds = map (\<lambda>t. D (nat t)) (tails hg e)"
  proof (rule nth_equalityI)
    show len: "length ds = length (map (\<lambda>t. D (nat t)) (tails hg e))" using list_all2_lengthD [OF derives_edge.IH] by simp
    fix j assume j: "j < length ds"
    then have "deriv_edges (ds ! j) \<subseteq> deriv_edges (D g)"
      using derives_edge.prems UN_upper [OF nth_mem [OF j], of deriv_edges] by (simp del: UN_subset_iff) (metis subset_trans)
    then show "ds ! j = map (\<lambda>t. D (nat t)) (tails hg e) ! j"
      using list_all2_nthD2 [OF derives_edge.IH j] len j by simp
  qed
  ultimately show ?case using k(3) by simp
qed

lemma CreateViterbiHypergraph_single:
  assumes pg: "prob_graph hg" and ne: "\<forall>n \<in> set (hg_nodes hg). nd_in n \<noteq> []" and nn: "hg_nodes hg \<noteq> []"
  shows "\<exists>hg' f d. CreateViterbiHypergraph no_features exact_reals None hg = Some hg' \<and> topological hg' \<and>
    derives hg (nat (GoalNode hg)) d \<and>
    (\<forall>d'. derives hg (nat (GoalNode hg)) d' \<longrightarrow> deriv_prob (edge_value hg) d' \<le> deriv_prob (edge_value hg) d) \<and>
    {d'. derives hg' (nat (GoalNode hg')) d'} = {relabel f d} \<and> inj_on f (deriv_edges d) \<and>
    (\<forall>e \<in> deriv_edges d. same_data (hg_edges hg ! nat e) (hg_edges hg' ! nat (f e)))"
proof -
  have top: "topological hg" and c: "consistent_hg {} hg" using pg by (simp_all add: prob_graph_def)
  let ?g = "nat (GoalNode hg)"
  have "\<exists>r. ViterbiPathTraversal e ants [] = Some r" for e :: "('a, xreal logval) edge" and ants by (simp add: ViterbiPathTraversal_eq)
  with Viterbi_total [where traverse = ViterbiPathTraversal and ?r0.0 = "[]" and result = "[]", OF pg ne nn]
  obtain z r D where run: "Viterbi_EdgeProb exact_reals ViterbiPathTraversal [] [] hg = Some (z, r)"
    and best: "best_at ViterbiPathTraversal [] hg D ?g z r"
    and all: "\<forall>n < length (hg_nodes hg). \<exists>w r. best_at ViterbiPathTraversal [] hg D n w r" by blast
  have D: "coherent hg D" using all unfolding coherent_def best_at_def by blast
  have d: "derives hg ?g (D ?g)" and r: "deriv_result ViterbiPathTraversal [] hg (D ?g) = Some r"
    and max: "\<forall>d'. derives hg ?g d' \<longrightarrow> deriv_prob (edge_value hg) d' \<le> deriv_prob (edge_value hg) (D ?g)"
    using best unfolding best_at_def by auto
  have g: "?g < length (hg_nodes hg)" using d by (cases "D ?g") (simp add: derives_Deriv)
  have sr: "set r = (\<lambda>e. hg_edges hg ! nat e) ` deriv_edges (D ?g)" using path_result [OF top d] r by auto
  have rng: "0 \<le> e \<and> e < vsize (hg_edges hg) \<and> ed_id (hg_edges hg ! nat e) = e" if "e \<in> deriv_edges (D ?g)" for e
    using derives_edges_range [OF top d that] consistentD(2) [OF c, of "nat e"] by (auto simp: vsize_def nat_less_iff)
  have ids: "ed_id ` set r = deriv_edges (D ?g)" using rng by (force simp: sr image_image)
  let ?used = "map (\<lambda>i. int i \<in> deriv_edges (D ?g)) [0..<length (hg_edges hg)]"
  have used: "for_each r (\<lambda>e used. vset used (ed_id e) True) (replicate (length (hg_edges hg)) False) = Some ?used"
  proof -
    have "for_each r (\<lambda>e used. vset used (ed_id e) True) (replicate (length (hg_edges hg)) False) =
        Some (map (\<lambda>i. replicate (length (hg_edges hg)) False ! i \<or> int i \<in> ed_id ` set r) [0..<length (replicate (length (hg_edges hg)) False)])"
      by (rule mark_ids) (use rng in \<open>force simp: sr vsize_def\<close>)
    also have "\<dots> = Some ?used" unfolding ids by simp
    finally show ?thesis .
  qed
  have only: "unpruned_derivs (map Not ?used) hg = {D ?g}"
  proof -
    have "(\<forall>e \<in> deriv_edges d'. \<not> map Not ?used ! nat e) \<longleftrightarrow> deriv_edges d' \<subseteq> deriv_edges (D ?g)" if "derives hg ?g d'" for d'
      using derives_edges_range [OF top that] by (auto simp: vsize_def nat_less_iff subset_iff)
    then have "unpruned_derivs (map Not ?used) hg = {d'. derives hg ?g d' \<and> deriv_edges d' \<subseteq> deriv_edges (D ?g)}"
      unfolding unpruned_derivs_def by blast
    then show ?thesis using coherent_only [OF top c D g] d by blast
  qed
  have ci: "check_ids hg = Some ()"
    using consistentD(1,2) [OF c] by (simp add: check_ids_def list_all_length nth_enumerate_eq)
  obtain ke kn hg' f where sub: "CreateEdgeSubset no_features (lv_Zero exact_reals) ?used hg = Some (ke, kn, hg')" "topological hg'"
    and ders: "{d. derives hg' (nat (GoalNode hg')) d} = relabel f ` {D ?g}" "inj_on f (\<Union>d \<in> {D ?g}. deriv_edges d)"
      "\<forall>e \<in> (\<Union>d \<in> {D ?g}. deriv_edges d). same_data (hg_edges hg ! nat e) (hg_edges hg' ! nat (f e))"
    using CreateEdgeSubset_result [OF top c, of ?used no_features "lv_Zero exact_reals", unfolded only] by (simp only: length_map length_upt) auto
  have "CreateViterbiHypergraph no_features exact_reals None hg = Some hg'"
    by (simp only: CreateViterbiHypergraph_def option.case run used ci sub(1) bind.bind_lunit prod.case) simp
  then show ?thesis using sub(2) ders d max by (intro exI [of _ hg'] exI [of _ f] exI [of _ "D ?g"]) simp
qed

text \<open>C22. For a mask of edges that leaves a derivation of the goal, \<open>CreateEdgeSubset\<close> returns a
  topologically sorted hypergraph in which every node has a derivation; the derivations of its goal are the
  renumbered derivations over kept edges, and the edges keep their rules, features and spans.\<close>

theorem CreateEdgeSubset_derivations:
  assumes "topological hg" "consistent_hg {} hg" "length keep = length (hg_edges hg)" "unpruned_derivs (map Not keep) hg \<noteq> {}"
  shows "\<exists>ke kn hg' f. CreateEdgeSubset no_features zero keep hg = Some (ke, kn, hg') \<and> topological hg' \<and>
    {d. derives hg' (nat (GoalNode hg')) d} = relabel f ` unpruned_derivs (map Not keep) hg \<and>
    inj_on f (\<Union>d \<in> unpruned_derivs (map Not keep) hg. deriv_edges d) \<and>
    (\<forall>e \<in> (\<Union>d \<in> unpruned_derivs (map Not keep) hg. deriv_edges d). same_data (hg_edges hg ! nat e) (hg_edges hg' ! nat (f e))) \<and>
    (\<forall>n < length (hg_nodes hg'). \<exists>d. derives hg' n d)"
  by (rule CreateEdgeSubset_result [OF assms])

lemma CreateEdgeSubset_derivations_witness:
  "\<exists>ke kn hg' f. CreateEdgeSubset 0 0 [False, True, True] (demo_hg 1 2 (3 :: int)) = Some (ke, kn, hg') \<and>
    {d. derives hg' (nat (GoalNode hg')) d} = {relabel f (Deriv 2 [Deriv 1 []])}"
proof -
  have g: "nat (GoalNode (demo_hg 1 2 (3 :: int))) = Suc 0" by (simp add: GoalNode_def demo_hg_def)
  have "unpruned_derivs (map Not [False, True, True]) (demo_hg 1 2 (3 :: int)) =
      {d \<in> {d. derives (demo_hg 1 2 (3 :: int)) (Suc 0) d}. \<forall>e \<in> deriv_edges d. \<not> map Not [False, True, True] ! nat e}"
    by (auto simp: unpruned_derivs_def g)
  also have "\<dots> = {Deriv 2 [Deriv 1 []]}" unfolding demo_hg_derives by auto
  finally have u: "unpruned_derivs (map Not [False, True, True]) (demo_hg 1 2 (3 :: int)) = {Deriv 2 [Deriv 1 []]}" .
  have "length [False, True, True] = length (hg_edges (demo_hg 1 2 (3 :: int)))" by (simp add: demo_hg_def)
  from CreateEdgeSubset_derivations [where no_features = 0 and zero = 0, OF demo_hg_simps(1,2) this, unfolded u] show ?thesis by auto
qed

text \<open>C20. On a topologically sorted hypergraph whose nodes all have in-edges, \<open>CreateViterbiHypergraph\<close> over
  exact probabilities returns a topologically sorted hypergraph with one derivation of the goal: a derivation
  of the greatest probability, renumbered, over edges with the same rules, features and spans.\<close>

theorem CreateViterbiHypergraph_best:
  assumes "prob_graph hg" "\<forall>n \<in> set (hg_nodes hg). nd_in n \<noteq> []" "hg_nodes hg \<noteq> []"
  shows "\<exists>hg' f d. CreateViterbiHypergraph no_features exact_reals None hg = Some hg' \<and> topological hg' \<and>
    derives hg (nat (GoalNode hg)) d \<and>
    (\<forall>d'. derives hg (nat (GoalNode hg)) d' \<longrightarrow> deriv_prob (edge_value hg) d' \<le> deriv_prob (edge_value hg) d) \<and>
    {d'. derives hg' (nat (GoalNode hg')) d'} = {relabel f d} \<and> inj_on f (deriv_edges d) \<and>
    (\<forall>e \<in> deriv_edges d. same_data (hg_edges hg ! nat e) (hg_edges hg' ! nat (f e)))"
  by (rule CreateViterbiHypergraph_single [OF assms])

lemma CreateViterbiHypergraph_best_witness:
  "\<exists>hg' d. CreateViterbiHypergraph 0 exact_reals None demo_prob_hg = Some hg' \<and> {d'. derives hg' (nat (GoalNode hg')) d'} = {d}"
proof -
  have "\<forall>n \<in> set (hg_nodes demo_prob_hg). nd_in n \<noteq> []" by (simp add: demo_hg_def)
  from CreateViterbiHypergraph_best [where no_features = 0, OF demo_prob_graph(1) this demo_hg_simps(3)] show ?thesis by blast
qed

text \<open>The ids of the nodes of a subset: all the new index of node 0.\<close>

lemma CreateNodeEdgeSubset_ids:
  "map_option (\<lambda>hg. map nd_id (hg_nodes hg)) (CreateNodeEdgeSubset 0 0 [True, True] [True, False, True] (demo_hg 1 2 (3 :: int))) = Some [0, 0]"
  by code_simp

end
