(* ===== verification/KBest.thy ===== *)
theory KBest
  imports Viterbi
begin

text \<open>
  The lazy enumeration of best derivations, \<open>KBestDerivations\<close> of \<open>decoder/kbest.h\<close> (the third algorithm of Huang and
  Chiang), and its use in \<open>training/utils/candidate_set.cc\<close>. A derivation is an edge and, for each tail, the
  number of a derivation of that tail. Pointers to edges are their numbers, derivations are values, and the set
  that keeps candidates from being created twice is a set of keys. The heap algorithms of the standard library
  and \<open>std::nth_element\<close> are parameters. The recursion goes from a node to its tails and is given as fuel the
  number of nodes, which is enough for graphs without cycles; loops are partial functions.
\<close>

record ('f, 'w, 't) kderiv =
  kd_edge :: int
  kd_j :: "int list"
  kd_score :: 'w
  kd_feats :: 'f
  kd_yield :: 't

record ('f, 'w, 't, 'u) kstate =
  ks_cand :: "('f, 'w, 't) kderiv list"
  ks_D :: "('f, 'w, 't) kderiv list"
  ks_filter :: 'u
  ks_ds :: "(int \<times> int list) set"

record 'd heap_ops =
  h_make :: "('d \<Rightarrow> 'd \<Rightarrow> bool) \<Rightarrow> 'd list \<Rightarrow> 'd list"
  h_push :: "('d \<Rightarrow> 'd \<Rightarrow> bool) \<Rightarrow> 'd list \<Rightarrow> 'd list"
  h_pop :: "('d \<Rightarrow> 'd \<Rightarrow> bool) \<Rightarrow> 'd list \<Rightarrow> 'd list"
  h_nth_element :: "('d \<Rightarrow> 'd \<Rightarrow> bool) \<Rightarrow> int \<Rightarrow> 'd list \<Rightarrow> 'd list"

text \<open>
  What an enumeration is made for: the template parameters, the graph and \<open>k_prime\<close>. The filter takes a yield
  and its own state and tells whether to leave the derivation out.
\<close>

record ('f, 'p, 'w, 't, 'u) kbest =
  kb_hg :: "('f, 'p) hypergraph"
  kb_k_prime :: int
  kb_traverse :: "('f, 'p, 't) traversal"
  kb_yield0 :: 't
  kb_filter :: "'t \<Rightarrow> 'u \<Rightarrow> bool \<times> 'u"
  kb_filter0 :: 'u
  kb_no_filter :: bool
  kb_weight :: "('f, 'p) edge \<Rightarrow> 'w option"
  kb_mul :: "'w \<Rightarrow> 'w \<Rightarrow> 'w"
  kb_less :: "'w \<Rightarrow> 'w \<Rightarrow> bool"
  kb_greater :: "'w \<Rightarrow> 'w \<Rightarrow> bool"
  kb_add_feats :: "'f \<Rightarrow> 'f \<Rightarrow> 'f"
  kb_heap :: "('f, 'w, 't) kderiv heap_ops"

type_synonym ('f, 'w, 't, 'u) knodes = "('f, 'w, 't, 'u) kstate list"
type_synonym ('f, 'w, 't, 'u) krec = "int \<Rightarrow> int \<Rightarrow> ('f, 'w, 't, 'u) knodes \<Rightarrow> (('f, 'w, 't, 'u) knodes \<times> ('f, 'w, 't) kderiv option) option"

definition NoFilter :: "'t \<Rightarrow> unit \<Rightarrow> bool \<times> unit" where
  "NoFilter y u = (False, u)"

definition FilterUnique :: "'t \<Rightarrow> 't set \<Rightarrow> bool \<times> 't set" where
  "FilterUnique y unique = (y \<in> unique, insert y unique)"

definition HeapCompare :: "('f, 'p, 'w, 't, 'u) kbest \<Rightarrow> ('f, 'w, 't) kderiv \<Rightarrow> ('f, 'w, 't) kderiv \<Rightarrow> bool" where
  "HeapCompare K a b = kb_less K (kd_score a) (kd_score b)"

definition DerivationCompare :: "('f, 'p, 'w, 't, 'u) kbest \<Rightarrow> ('f, 'w, 't) kderiv \<Rightarrow> ('f, 'w, 't) kderiv \<Rightarrow> bool" where
  "DerivationCompare K a b = kb_greater K (kd_score a) (kd_score b)"

definition kd_key :: "('f, 'w, 't) kderiv \<Rightarrow> int \<times> int list" where
  "kd_key d = (kd_edge d, kd_j d)"

section \<open>Creating derivations\<close>

text \<open>\<open>rec\<close> is \<open>LazyKthBest\<close> on the tails. A null pointer is \<open>None\<close> in the result.\<close>

definition create_step :: "('f, 'p, 'w, 't, 'u) kbest \<Rightarrow> ('f, 'w, 't, 'u) krec \<Rightarrow> ('f, 'p) edge \<Rightarrow> int list \<Rightarrow> int \<Rightarrow>
    ('f, 'w, 't, 'u) knodes \<times> ('w \<times> 'f) option \<Rightarrow> ((('f, 'w, 't, 'u) knodes \<times> ('w \<times> 'f) option) \<times> bool) option" where
  "create_step K rec ed j i st = do {
     let (nds, r) = st;
     t \<leftarrow> vat (ed_tails ed) i;
     k \<leftarrow> vat j i;
     (nds, ant) \<leftarrow> rec t k nds;
     (score, feats) \<leftarrow> r;
     Some (case ant of
        None \<Rightarrow> ((nds, None), False)
      | Some ant \<Rightarrow> ((nds, Some (kb_mul K score (kd_score ant), kb_add_feats K feats (kd_feats ant))), True)) }"

definition CreateDerivation :: "('f, 'p, 'w, 't, 'u) kbest \<Rightarrow> ('f, 'w, 't, 'u) krec \<Rightarrow> int \<Rightarrow> int list \<Rightarrow> ('f, 'w, 't, 'u) knodes \<Rightarrow>
    (('f, 'w, 't, 'u) knodes \<times> ('f, 'w, 't) kderiv option) option" where
  "CreateDerivation K rec e j nds = do {
     ed \<leftarrow> vat (hg_edges (kb_hg K)) e;
     score \<leftarrow> kb_weight K ed;
     (nds, r) \<leftarrow> for_break (positions (ed_tails ed)) (create_step K rec ed j) (nds, Some (score, ed_features ed));
     Some (nds, map_option (\<lambda>(score, feats). \<lparr>kd_edge = e, kd_j = j, kd_score = score, kd_feats = feats, kd_yield = kb_yield0 K\<rparr>) r) }"

definition lazy_next_step :: "('f, 'p, 'w, 't, 'u) kbest \<Rightarrow> ('f, 'w, 't, 'u) krec \<Rightarrow> int \<Rightarrow> ('f, 'w, 't) kderiv \<Rightarrow> int \<Rightarrow> ('f, 'w, 't, 'u) knodes \<Rightarrow>
    ('f, 'w, 't, 'u) knodes option" where
  "lazy_next_step K rec v d i nds = do {
     k \<leftarrow> vat (kd_j d) i;
     j \<leftarrow> vset (kd_j d) i (k + 1);
     ed \<leftarrow> vat (hg_edges (kb_hg K)) (kd_edge d);
     t \<leftarrow> vat (ed_tails ed) i;
     (nds, ant) \<leftarrow> rec t (k + 1) nds;
     s \<leftarrow> vat nds v;
     if ant = None \<or> (kd_edge d, j) \<in> ks_ds s then Some nds
     else do {
       (nds, new_d) \<leftarrow> CreateDerivation K rec (kd_edge d) j nds;
       (case new_d of
          None \<Rightarrow> Some nds
        | Some new_d \<Rightarrow> do {
            s \<leftarrow> vat nds v;
            check (kd_key new_d \<notin> ks_ds s);
            vset nds v (s\<lparr>ks_cand := h_push (kb_heap K) (HeapCompare K) (ks_cand s @ [new_d]), ks_ds := insert (kd_key new_d) (ks_ds s)\<rparr>) }) } }"

definition LazyNext :: "('f, 'p, 'w, 't, 'u) kbest \<Rightarrow> ('f, 'w, 't, 'u) krec \<Rightarrow> int \<Rightarrow> ('f, 'w, 't) kderiv \<Rightarrow> ('f, 'w, 't, 'u) knodes \<Rightarrow>
    ('f, 'w, 't, 'u) knodes option" where
  "LazyNext K rec v d nds = for_each (positions (kd_j d)) (lazy_next_step K rec v d) nds"

definition gather_step :: "('f, 'p, 'w, 't, 'u) kbest \<Rightarrow> ('f, 'w, 't, 'u) krec \<Rightarrow> int \<Rightarrow> int \<Rightarrow> ('f, 'w, 't, 'u) knodes \<Rightarrow>
    ('f, 'w, 't, 'u) knodes option" where
  "gather_step K rec v e nds = do {
     edge \<leftarrow> vat (hg_edges (kb_hg K)) e;
     let jv = replicate (length (ed_tails edge)) 0;
     (nds, d) \<leftarrow> CreateDerivation K rec e jv nds;
     d \<leftarrow> d;
     s \<leftarrow> vat nds v;
     vset nds v (s\<lparr>ks_cand := ks_cand s @ [d]\<rparr>) }"

definition GetCandidates :: "('f, 'p, 'w, 't, 'u) kbest \<Rightarrow> ('f, 'w, 't, 'u) krec \<Rightarrow> int \<Rightarrow> ('f, 'w, 't, 'u) knodes \<Rightarrow>
    ('f, 'w, 't, 'u) knodes option" where
  "GetCandidates K rec v nds = do {
     s \<leftarrow> vat nds v;
     if ks_D s \<noteq> [] \<or> ks_cand s \<noteq> [] then Some nds
     else do {
       node \<leftarrow> vat (hg_nodes (kb_hg K)) v;
       nds \<leftarrow> for_each (nd_in node) (gather_step K rec v) nds;
       s \<leftarrow> vat nds v;
       let effective_k = (if kb_no_filter K then min (kb_k_prime K) (vsize (ks_cand s)) else vsize (ks_cand s));
       let cand = take (nat effective_k) (h_nth_element (kb_heap K) (DerivationCompare K) effective_k (ks_cand s));
       vset nds v (s\<lparr>ks_cand := h_make (kb_heap K) (HeapCompare K) cand\<rparr>) } }"

section \<open>The enumeration\<close>

text \<open>One turn of the loop that collects the antecedents' yields.\<close>

definition ant_step :: "('f, 'w, 't, 'u) krec \<Rightarrow> ('f, 'p) edge \<Rightarrow> ('f, 'w, 't) kderiv \<Rightarrow> int \<Rightarrow> ('f, 'w, 't, 'u) knodes \<times> 't list \<Rightarrow>
    (('f, 'w, 't, 'u) knodes \<times> 't list) option" where
  "ant_step rec ed d i st = do {
     let (nds, ants) = st;
     t \<leftarrow> vat (ed_tails ed) i;
     k \<leftarrow> vat (kd_j d) i;
     (nds, ant) \<leftarrow> rec t k nds;
     ant \<leftarrow> ant;
     Some (nds, ants @ [kd_yield ant]) }"

text \<open>One turn of the inner loop: the best candidate is taken off the heap; whether it was added.\<close>

definition take_best :: "('f, 'p, 'w, 't, 'u) kbest \<Rightarrow> ('f, 'w, 't, 'u) krec \<Rightarrow> int \<Rightarrow> ('f, 'w, 't, 'u) knodes \<times> bool \<Rightarrow>
    (('f, 'w, 't, 'u) knodes \<times> bool) option" where
  "take_best K rec v st = do {
     let (nds, add_next) = st;
     s \<leftarrow> vat nds v;
     let cand = h_pop (kb_heap K) (HeapCompare K) (ks_cand s);
     d \<leftarrow> vback cand;
     nds \<leftarrow> vset nds v (s\<lparr>ks_cand := butlast cand\<rparr>);
     ed \<leftarrow> vat (hg_edges (kb_hg K)) (kd_edge d);
     (nds, ants) \<leftarrow> for_each (positions (ed_tails ed)) (ant_step rec ed d) (nds, []);
     y \<leftarrow> kb_traverse K ed ants (kd_yield d);
     let d = d\<lparr>kd_yield := y\<rparr>;
     s \<leftarrow> vat nds v;
     let (filtered, fs) = kb_filter K y (ks_filter s);
     if \<not> filtered then do {
       nds \<leftarrow> vset nds v (s\<lparr>ks_filter := fs, ks_D := ks_D s @ [d]\<rparr>);
       Some (nds, True) }
     else do {
       nds \<leftarrow> vset nds v (s\<lparr>ks_filter := fs\<rparr>);
       nds \<leftarrow> LazyNext K rec v d nds;
       Some (nds, False) } }"

definition cand_left :: "int \<Rightarrow> ('f, 'w, 't, 'u) knodes \<times> bool \<Rightarrow> bool" where
  "cand_left v st = (\<not> snd st \<and> (case vat (fst st) v of Some s \<Rightarrow> ks_cand s \<noteq> [] | None \<Rightarrow> False))"

text \<open>One turn of the outer loop; the second flag is false after the \<open>break\<close>.\<close>

definition extend_D :: "('f, 'p, 'w, 't, 'u) kbest \<Rightarrow> ('f, 'w, 't, 'u) krec \<Rightarrow> int \<Rightarrow> ('f, 'w, 't, 'u) knodes \<times> bool \<times> bool \<Rightarrow>
    (('f, 'w, 't, 'u) knodes \<times> bool \<times> bool) option" where
  "extend_D K rec v st = do {
     let (nds, add_next, _) = st;
     s \<leftarrow> vat nds v;
     nds \<leftarrow> (if add_next \<and> ks_D s \<noteq> [] then LazyNext K rec v (last (ks_D s)) nds else Some nds);
     (nds, add_next) \<leftarrow> loop_while (cand_left v) (take_best K rec v) (nds, False);
     Some (nds, add_next, add_next) }"

definition D_short :: "int \<Rightarrow> int \<Rightarrow> ('f, 'w, 't, 'u) knodes \<times> bool \<times> bool \<Rightarrow> bool" where
  "D_short v k st = (case st of (nds, _, go) \<Rightarrow> go \<and> (case vat nds v of Some s \<Rightarrow> vsize (ks_D s) \<le> k | None \<Rightarrow> False))"

definition kth_best :: "('f, 'p, 'w, 't, 'u) kbest \<Rightarrow> ('f, 'w, 't, 'u) krec \<Rightarrow> ('f, 'w, 't, 'u) krec" where
  "kth_best K rec v k nds = do {
     nds \<leftarrow> GetCandidates K rec v nds;
     (nds, _) \<leftarrow> loop_while (D_short v k) (extend_D K rec v) (nds, True, True);
     s \<leftarrow> vat nds v;
     Some (nds, if k < vsize (ks_D s) then vat (ks_D s) k else None) }"

primrec kth_best_upto :: "('f, 'p, 'w, 't, 'u) kbest \<Rightarrow> nat \<Rightarrow> ('f, 'w, 't, 'u) krec" where
  "kth_best_upto K 0 = (\<lambda>v k nds. None)"
| "kth_best_upto K (Suc n) = kth_best K (kth_best_upto K n)"

definition LazyKthBest :: "('f, 'p, 'w, 't, 'u) kbest \<Rightarrow> ('f, 'w, 't, 'u) krec" where
  "LazyKthBest K = kth_best_upto K (length (hg_nodes (kb_hg K)))"

definition KBestDerivations :: "('f, 'p, 'w, 't, 'u) kbest \<Rightarrow> ('f, 'w, 't, 'u) knodes" where
  "KBestDerivations K = replicate (length (hg_nodes (kb_hg K))) \<lparr>ks_cand = [], ks_D = [], ks_filter = kb_filter0 K, ks_ds = {}\<rparr>"

text \<open>
  The constructor with the default template parameters, and the loop of \<open>CandidateSet::AddKBestCandidates\<close> over the
  derivations of the goal, up to the first null pointer.
\<close>

definition default_kbest :: "('d, 'z) log_floats_scheme \<Rightarrow> ('f \<Rightarrow> 'f \<Rightarrow> 'f) \<Rightarrow> ('f, 'd logval, 't) kderiv heap_ops \<Rightarrow> ('f, 'd logval, 't) traversal \<Rightarrow> 't \<Rightarrow>
    ('f, 'd logval) hypergraph \<Rightarrow> int \<Rightarrow> ('f, 'd logval, 'd logval, 't, unit) kbest" where
  "default_kbest fl add_feats heap traverse yield0 hg k = \<lparr>kb_hg = hg, kb_k_prime = k, kb_traverse = traverse, kb_yield0 = yield0,
     kb_filter = NoFilter, kb_filter0 = (), kb_no_filter = True, kb_weight = EdgeProb, kb_mul = times_eq fl, kb_less = lv_less fl,
     kb_greater = lv_greater fl, kb_add_feats = add_feats, kb_heap = heap\<rparr>"

definition kbest_list :: "('f, 'p, 'w, 't, 'u) kbest \<Rightarrow> int \<Rightarrow> ('f, 'w, 't) kderiv list option" where
  "kbest_list K kbest_size = map_option snd (for_break (int_range 0 kbest_size) (\<lambda>i (nds, cs). do {
     (nds, d) \<leftarrow> LazyKthBest K (vsize (hg_nodes (kb_hg K)) - 1) i nds;
     Some (case d of None \<Rightarrow> ((nds, cs), False) | Some d \<Rightarrow> ((nds, cs @ [d]), True)) }) (KBestDerivations K, []))"

section \<open>Keys and scores\<close>

text \<open>The probabilities of the derivations of a node, greatest first.\<close>

definition prob_list :: "('f, xreal logval) hypergraph \<Rightarrow> nat \<Rightarrow> real list" where
  "prob_list hg v = rev (sort (map (deriv_prob (edge_value hg)) (derivs hg v)))"

text \<open>The key \<open>(e, j)\<close> stands for edge \<open>e\<close> with the \<open>j ! i\<close>-th best derivation of its \<open>i\<close>-th tail.\<close>

definition key_prob :: "('f, xreal logval) hypergraph \<Rightarrow> int \<times> int list \<Rightarrow> real" where
  "key_prob hg x = edge_value hg (fst x) * prod_list (map2 (\<lambda>t i. prob_list hg (nat t) ! nat i) (ed_tails (hg_edges hg ! nat (fst x))) (snd x))"

definition index_ok :: "('f, xreal logval) hypergraph \<Rightarrow> int \<Rightarrow> int \<Rightarrow> bool" where
  "index_ok hg t i \<longleftrightarrow> 0 \<le> i \<and> i < int (length (prob_list hg (nat t)))"

definition keys :: "('f, xreal logval) hypergraph \<Rightarrow> nat \<Rightarrow> (int \<times> int list) set" where
  "keys hg v = {(e, j). e \<in> set (nd_in (hg_nodes hg ! v)) \<and> list_all2 (index_ok hg) (ed_tails (hg_edges hg ! nat e)) j}"

definition key_list :: "('f, xreal logval) hypergraph \<Rightarrow> nat \<Rightarrow> (int \<times> int list) list" where
  "key_list hg v = concat (map (\<lambda>e. map (Pair e) (product_lists (map (\<lambda>t. map int [0..<length (prob_list hg (nat t))]) (ed_tails (hg_edges hg ! nat e))))) (nd_in (hg_nodes hg ! v)))"

lemma mset_prob_list: "mset (prob_list hg v) = mset (map (deriv_prob (edge_value hg)) (derivs hg v))"
  by (simp add: prob_list_def)

lemma prob_list_sorted: "sorted_wrt (\<ge>) (prob_list hg v)"
  by (simp add: prob_list_def sorted_wrt_rev)

lemma prob_list_antimono: "i \<le> j \<Longrightarrow> j < length (prob_list hg v) \<Longrightarrow> prob_list hg v ! j \<le> prob_list hg v ! i"
  using prob_list_sorted [of hg v] by (cases "i = j") (auto simp: sorted_wrt_iff_nth_less)

lemma set_key_list: "set (key_list hg v) = keys hg v"
proof -
  have "j \<in> set (product_lists (map (\<lambda>t. map int [0..<length (prob_list hg (nat t))]) ts)) \<longleftrightarrow> list_all2 (index_ok hg) ts j" for ts j
  proof -
    have "i \<in> set (map int [0..<n]) \<longleftrightarrow> 0 \<le> i \<and> i < int n" for i n using zero_le_imp_eq_int by force
    then show ?thesis by (simp add: set_product_lists_iff list_all2_map1 index_ok_def [abs_def])
  qed
  then show ?thesis by (auto simp: key_list_def keys_def)
qed

lemma distinct_key_list: "distinct (nd_in (hg_nodes hg ! v)) \<Longrightarrow> distinct (key_list hg v)"
proof -
  have "distinct (concat (map (\<lambda>e. map (Pair e) (f e)) es))" if "\<And>e. distinct (f e)" "distinct es" for f :: "int \<Rightarrow> int list list" and es
    using that by (induction es) (auto simp: distinct_map inj_on_def)
  moreover have "distinct (product_lists (map (\<lambda>t. map int [0..<length (prob_list hg (nat t))]) ts))" for ts
    by (rule distinct_product_lists) (auto simp: distinct_map inj_on_def)
  ultimately show "distinct (nd_in (hg_nodes hg ! v)) \<Longrightarrow> distinct (key_list hg v)" by (simp add: key_list_def)
qed

lemma mset_concat_map: "mset (concat (map f xs)) = (\<Sum>x \<in># mset xs. mset (f x))"
  by (induction xs) auto

lemma mset_product_lists:
  fixes g :: "real list \<Rightarrow> 'b"
  assumes "\<And>t. t \<in> set ts \<Longrightarrow> mset (P t) = mset (map pr (D t))"
  shows "mset (map (\<lambda>ds. g (map pr ds)) (product_lists (map D ts))) =
    mset (map (\<lambda>j. g (map2 (\<lambda>t i. P t ! nat i) ts j)) (product_lists (map (\<lambda>t. map int [0..<length (P t)]) ts)))"
  using assms
proof (induction ts arbitrary: g)
  case (Cons t ts)
  let ?F = "\<lambda>r. mset (map (\<lambda>ds. g (r # map pr ds)) (product_lists (map D ts)))"
  let ?G = "\<lambda>r. mset (map (\<lambda>j. g (r # map2 (\<lambda>t i. P t ! nat i) ts j)) (product_lists (map (\<lambda>t. map int [0..<length (P t)]) ts)))"
  have FG: "?F r = ?G r" for r using Cons.IH [of "\<lambda>rs. g (r # rs)"] Cons.prems by simp
  have "mset (map (\<lambda>ds. g (map pr ds)) (product_lists (map D (t # ts)))) = (\<Sum>x \<in># mset (D t). ?F (pr x))"
    by (simp add: map_concat comp_def mset_concat_map)
  also have "\<dots> = (\<Sum>r \<in># mset (map pr (D t)). ?F r)" by (simp add: image_mset.compositionality comp_def)
  also have "\<dots> = (\<Sum>r \<in># mset (P t). ?G r)" using Cons.prems FG by simp
  also have "mset (P t) = mset (map (\<lambda>i. P t ! nat i) (map int [0..<length (P t)]))" by (simp add: comp_def map_nth)
  also have "(\<Sum>r \<in># \<dots>. ?G r) = (\<Sum>i \<in># mset (map int [0..<length (P t)]). ?G (P t ! nat i))" by (simp add: image_mset.compositionality comp_def)
  also have "\<dots> = mset (map (\<lambda>j. g (map2 (\<lambda>t i. P t ! nat i) (t # ts) j)) (product_lists (map (\<lambda>t. map int [0..<length (P t)]) (t # ts))))"
    by (simp add: map_concat comp_def mset_concat_map image_mset.compositionality)
  finally show ?case .
qed simp

lemma mset_key_list:
  assumes top: "topological hg" and v: "v < length (hg_nodes hg)"
  shows "mset (map (key_prob hg) (key_list hg v)) = mset (prob_list hg v)"
proof -
  let ?p = "deriv_prob (edge_value hg)"
  have step: "mset (map ?p (map (Deriv e) (product_lists (map (\<lambda>t. if nat t < v then derivs hg (nat t) else []) (ed_tails (hg_edges hg ! nat e)))))) =
      mset (map (key_prob hg) (map (Pair e) (product_lists (map (\<lambda>t. map int [0..<length (prob_list hg (nat t))]) (ed_tails (hg_edges hg ! nat e))))))"
    if e: "e \<in> set (nd_in (hg_nodes hg ! v))" for e
  proof -
    let ?ts = "ed_tails (hg_edges hg ! nat e)"
    have E: "map (\<lambda>t. if nat t < v then derivs hg (nat t) else []) ?ts = map (\<lambda>t. derivs hg (nat t)) ?ts"
      using topologicalD(2) [OF top v e] by (auto simp: nat_less_iff)
    show ?thesis
      unfolding E using mset_product_lists [of ?ts "\<lambda>t. prob_list hg (nat t)" ?p "\<lambda>t. derivs hg (nat t)" "\<lambda>rs. edge_value hg e * prod_list rs"]
      by (simp add: mset_prob_list comp_def key_prob_def)
  qed
  have "mset (map (key_prob hg) (key_list hg v)) = mset (map ?p (derivs hg v))"
    unfolding key_list_def derivs.simps [of hg v] map_concat map_map comp_def mset_concat_map
    by (intro arg_cong [where f = sum_mset] image_mset_cong) (use step in \<open>simp add: comp_def\<close>)
  then show ?thesis by (simp add: mset_prob_list)
qed

text \<open>A list of the best keys has the first probabilities.\<close>

lemma best_keys_take:
  assumes top: "topological hg" and v: "v < length (hg_nodes hg)" and dist: "distinct (nd_in (hg_nodes hg ! v))"
    and ks: "distinct ks" "set ks \<subseteq> keys hg v" "sorted_wrt (\<lambda>x y. key_prob hg y \<le> key_prob hg x) ks"
    and best: "\<forall>x \<in> keys hg v - set ks. \<forall>y \<in> set ks. key_prob hg x \<le> key_prob hg y"
  shows "map (key_prob hg) ks = take (length ks) (prob_list hg v)" "length ks \<le> length (prob_list hg v)"
proof -
  let ?f = "key_prob hg"
  define rest where "rest = filter (\<lambda>x. x \<notin> set ks) (key_list hg v)"
  let ?ys = "rev (sort (map ?f rest))"
  have all: "mset (ks @ rest) = mset (key_list hg v)"
  proof -
    have "distinct (ks @ rest)" "set (ks @ rest) = set (key_list hg v)"
      using ks distinct_key_list [OF dist] set_key_list [of hg v] by (auto simp: rest_def)
    then show ?thesis using distinct_key_list [OF dist] set_eq_iff_mset_eq_distinct by blast
  qed
  have "mset (map ?f ks @ ?ys) = image_mset ?f (mset (ks @ rest))" by simp
  also have "\<dots> = mset (prob_list hg v)" unfolding all using mset_key_list [OF top v] by simp
  finally have "mset (map ?f ks @ ?ys) = mset (prob_list hg v)" .
  moreover have "sorted_wrt (\<ge>) (map ?f ks @ ?ys)"
  proof -
    have "sorted_wrt (\<ge>) (map ?f ks)" using ks(3) by (simp add: sorted_wrt_map)
    moreover have "\<forall>x \<in> set (map ?f ks). \<forall>y \<in> set ?ys. y \<le> x" using best set_key_list [of hg v] by (auto simp: rest_def)
    ultimately show ?thesis by (simp add: sorted_wrt_append sorted_wrt_rev)
  qed
  ultimately have perm: "mset (rev (map ?f ks @ ?ys)) = mset (rev (prob_list hg v))" and "sorted (rev (map ?f ks @ ?ys))"
    by (simp_all only: mset_rev sorted_wrt_rev)
  then have "sort (rev (prob_list hg v)) = rev (map ?f ks @ ?ys)" by (intro properties_for_sort)
  moreover have "sort (rev (prob_list hg v)) = rev (prob_list hg v)"
    by (rule sorted_sort_id) (use prob_list_sorted [of hg v] in \<open>simp only: sorted_wrt_rev\<close>)
  ultimately have "rev (map ?f ks @ ?ys) = rev (prob_list hg v)" by (rule trans [OF sym])
  then have eq: "prob_list hg v = map ?f ks @ ?ys" by (simp only: rev_is_rev_conv)
  show "map ?f ks = take (length ks) (prob_list hg v)" "length ks \<le> length (prob_list hg v)" by (simp_all add: eq)
qed

section \<open>What holds of the nodes\<close>

text \<open>The laws of the heap algorithms on elements that \<open>P\<close> holds of; \<open>H\<close> tells a heap.\<close>

definition heap_laws :: "('d \<Rightarrow> bool) \<Rightarrow> ('d \<Rightarrow> 'd \<Rightarrow> bool) \<Rightarrow> ('d \<Rightarrow> 'd \<Rightarrow> bool) \<Rightarrow> ('d list \<Rightarrow> bool) \<Rightarrow> 'd heap_ops \<Rightarrow> bool" where
  "heap_laws P lt gt H h \<longleftrightarrow>
     (\<forall>xs. (\<forall>x \<in> set xs. P x) \<longrightarrow> mset (h_make h lt xs) = mset xs \<and> H (h_make h lt xs)) \<and>
     (\<forall>xs x. (\<forall>x \<in> set (xs @ [x]). P x) \<longrightarrow> H xs \<longrightarrow> mset (h_push h lt (xs @ [x])) = mset (xs @ [x]) \<and> H (h_push h lt (xs @ [x]))) \<and>
     (\<forall>xs. (\<forall>x \<in> set xs. P x) \<longrightarrow> H xs \<longrightarrow> xs \<noteq> [] \<longrightarrow> mset (h_pop h lt xs) = mset xs \<and> H (butlast (h_pop h lt xs)) \<and>
        (\<forall>x \<in> set xs. \<not> lt (last (h_pop h lt xs)) x)) \<and>
     (\<forall>xs k. (\<forall>x \<in> set xs. P x) \<longrightarrow> 0 \<le> k \<longrightarrow> k \<le> vsize xs \<longrightarrow> mset (h_nth_element h gt k xs) = mset xs \<and>
        (\<forall>x \<in> set (take (nat k) (h_nth_element h gt k xs)). \<forall>y \<in> set (drop (nat k) (h_nth_element h gt k xs)). \<not> gt y x))"

definition exact_kbest :: "(('f, xreal logval, 't) kderiv list \<Rightarrow> bool) \<Rightarrow> ('f, xreal logval, xreal logval, 't, 'u) kbest \<Rightarrow> bool" where
  "exact_kbest H K \<longleftrightarrow> prob_graph (kb_hg K) \<and> (\<forall>n \<in> set (hg_nodes (kb_hg K)). nd_in n \<noteq> []) \<and> kb_weight K = EdgeProb \<and>
     kb_mul K = times_eq exact_reals \<and> kb_less K = lv_less exact_reals \<and> kb_greater K = lv_greater exact_reals \<and> kb_no_filter K \<and>
     (\<forall>y u. \<not> fst (kb_filter K y u)) \<and>
     (\<forall>e ants. e \<in> set (hg_edges (kb_hg K)) \<longrightarrow> length ants = length (ed_tails e) \<longrightarrow> (\<exists>y. kb_traverse K e ants (kb_yield0 K) = Some y)) \<and>
     heap_laws (\<lambda>d. lv_prob (kd_score d)) (HeapCompare K) (DerivationCompare K) H (kb_heap K)"

text \<open>A derivation with its yield, for a node.\<close>

definition good :: "('f, xreal logval, xreal logval, 't, 'u) kbest \<Rightarrow> nat \<Rightarrow> real \<Rightarrow> ('f, xreal logval, 't) kderiv \<Rightarrow> bool" where
  "good K t p a \<longleftrightarrow> lv_prob (kd_score a) \<and> lv_value (kd_score a) = p \<and>
     (\<exists>\<tau>. derives (kb_hg K) t \<tau> \<and> deriv_prob (edge_value (kb_hg K)) \<tau> = p \<and> deriv_result (kb_traverse K) (kb_yield0 K) (kb_hg K) \<tau> = Some (kd_yield a))"

definition answers :: "('f, xreal logval, xreal logval, 't, 'u) kbest \<Rightarrow> nat \<Rightarrow> nat \<Rightarrow> ('f, xreal logval, 't) kderiv option \<Rightarrow> bool" where
  "answers K t i r \<longleftrightarrow> (if i < length (prob_list (kb_hg K) t) then \<exists>a. r = Some a \<and> good K t (prob_list (kb_hg K) t ! i) a else r = None)"

definition scored :: "('f, xreal logval, xreal logval, 't, 'u) kbest \<Rightarrow> nat \<Rightarrow> ('f, xreal logval, 't) kderiv \<Rightarrow> bool" where
  "scored K v d \<longleftrightarrow> kd_key d \<in> keys (kb_hg K) v \<and> lv_prob (kd_score d) \<and> lv_value (kd_score d) = key_prob (kb_hg K) (kd_key d)"

definition succs :: "int \<times> int list \<Rightarrow> (int \<times> int list) set" where
  "succs x = {(fst x, (snd x)[i := snd x ! i + 1]) | i. i < length (snd x)}"

definition zero_key :: "('f, 'w) hypergraph \<Rightarrow> int \<Rightarrow> int \<times> int list" where
  "zero_key hg e = (e, replicate (length (ed_tails (hg_edges hg ! nat e))) 0)"

definition score_heap_laws :: "(('f, xreal logval, 't) kderiv list \<Rightarrow> bool) \<Rightarrow> ('f, xreal logval, 't) kderiv heap_ops \<Rightarrow> bool" where
  "score_heap_laws H heap \<longleftrightarrow> heap_laws (\<lambda>d. lv_prob (kd_score d)) (\<lambda>a b. lv_less exact_reals (kd_score a) (kd_score b))
     (\<lambda>a b. lv_greater exact_reals (kd_score a) (kd_score b)) H heap"

abbreviation made :: "('f, 'w, 't, 'u) kstate \<Rightarrow> (int \<times> int list) set" where
  "made s \<equiv> kd_key ` (set (ks_D s) \<union> set (ks_cand s))"

definition kept :: "('f, xreal logval, xreal logval, 't, 'u) kbest \<Rightarrow> nat \<Rightarrow> (int \<times> int list) set \<Rightarrow> bool" where
  "kept K v M \<longleftrightarrow> (\<exists>E \<subseteq> set (nd_in (hg_nodes (kb_hg K) ! v)). zero_key (kb_hg K) ` E \<subseteq> M \<and>
     (E = set (nd_in (hg_nodes (kb_hg K) ! v)) \<or> int (card E) = kb_k_prime K \<and>
       (\<forall>e \<in> set (nd_in (hg_nodes (kb_hg K) ! v)) - E. \<forall>e' \<in> E. key_prob (kb_hg K) (zero_key (kb_hg K) e) \<le> key_prob (kb_hg K) (zero_key (kb_hg K) e'))))"

definition base_inv :: "(('f, xreal logval, 't) kderiv list \<Rightarrow> bool) \<Rightarrow> ('f, xreal logval, xreal logval, 't, 'u) kbest \<Rightarrow> nat \<Rightarrow>
    ('f, xreal logval, 't, 'u) kstate \<Rightarrow> bool" where
  "base_inv H K v s \<longleftrightarrow> (\<forall>d \<in> set (ks_D s) \<union> set (ks_cand s). scored K v d) \<and> (\<forall>d \<in> set (ks_cand s). kd_yield d = kb_yield0 K) \<and>
     (\<forall>d \<in> set (ks_D s). \<exists>p. good K v p d) \<and> distinct (map kd_key (ks_D s @ ks_cand s)) \<and> H (ks_cand s) \<and>
     ks_ds s = {x \<in> made s. \<exists>i \<in> set (snd x). i \<noteq> 0} \<and> vsize (ks_D s) \<le> kb_k_prime K \<and>
     (\<forall>m < length (ks_D s). sum_list (kd_j (ks_D s ! m)) \<le> int m) \<and> (\<forall>d \<in> set (ks_cand s). sum_list (kd_j d) \<le> vsize (ks_D s)) \<and>
     sorted_wrt (\<lambda>a b. key_prob (kb_hg K) (kd_key b) \<le> key_prob (kb_hg K) (kd_key a)) (ks_D s) \<and>
     (\<forall>x \<in> keys (kb_hg K) v - kd_key ` set (ks_D s). \<forall>d \<in> set (ks_D s). key_prob (kb_hg K) x \<le> key_prob (kb_hg K) (kd_key d)) \<and>
     kept K v (made s)"

definition expanded :: "('f, xreal logval, xreal logval, 't, 'u) kbest \<Rightarrow> nat \<Rightarrow> ('f, xreal logval, 't, 'u) kstate \<Rightarrow> nat \<Rightarrow> bool" where
  "expanded K v s n \<longleftrightarrow> (\<forall>m < n. succs (kd_key (ks_D s ! m)) \<inter> keys (kb_hg K) v \<subseteq> made s)"

definition node_inv :: "(('f, xreal logval, 't) kderiv list \<Rightarrow> bool) \<Rightarrow> ('f, xreal logval, xreal logval, 't, 'u) kbest \<Rightarrow> nat \<Rightarrow>
    ('f, xreal logval, 't, 'u) kstate \<Rightarrow> bool" where
  "node_inv H K v s \<longleftrightarrow> ks_D s = [] \<and> ks_cand s = [] \<and> ks_ds s = {} \<or> base_inv H K v s \<and> expanded K v s (length (ks_D s) - 1)"

text \<open>The nodes below \<open>v\<close> are in order; what a call for a node may change.\<close>

definition inv_below :: "(('f, xreal logval, 't) kderiv list \<Rightarrow> bool) \<Rightarrow> ('f, xreal logval, xreal logval, 't, 'u) kbest \<Rightarrow> nat \<Rightarrow>
    ('f, xreal logval, 't, 'u) knodes \<Rightarrow> bool" where
  "inv_below H K v nds \<longleftrightarrow> length nds = length (hg_nodes (kb_hg K)) \<and> (\<forall>u < v. node_inv H K u (nds ! u))"

definition same_from :: "nat \<Rightarrow> 'a list \<Rightarrow> 'a list \<Rightarrow> bool" where
  "same_from v nds nds' \<longleftrightarrow> (\<forall>u \<ge> v. nds' ! u = nds ! u)"

definition rec_ok :: "(('f, xreal logval, 't) kderiv list \<Rightarrow> bool) \<Rightarrow> ('f, xreal logval, xreal logval, 't, 'u) kbest \<Rightarrow>
    ('f, xreal logval, 't, 'u) krec \<Rightarrow> nat \<Rightarrow> bool" where
  "rec_ok H K rec v \<longleftrightarrow> (\<forall>t i nds. 0 \<le> t \<longrightarrow> t < int v \<longrightarrow> 0 \<le> i \<longrightarrow> i < kb_k_prime K \<longrightarrow> inv_below H K v nds \<longrightarrow>
     ensures (rec t i nds) (\<lambda>(nds', r). inv_below H K v nds' \<and> same_from v nds nds' \<and> answers K (nat t) (nat i) r))"

lemma rec_okE:
  assumes "rec_ok H K rec v" "0 \<le> t" "t < int v" "0 \<le> i" "i < kb_k_prime K" "inv_below H K v nds"
  obtains nds' r where "rec t i nds = Some (nds', r)" "inv_below H K v nds'" "same_from v nds nds'" "answers K (nat t) (nat i) r"
proof -
  have "ensures (rec t i nds) (\<lambda>(nds', r). inv_below H K v nds' \<and> same_from v nds nds' \<and> answers K (nat t) (nat i) r)"
    using assms by (simp add: rec_ok_def)
  then show thesis by (rule ensuresE) (use that in auto)
qed

lemma same_from_refl [simp]: "same_from v nds nds"
  by (simp add: same_from_def)

lemma same_from_trans: "same_from v a b \<Longrightarrow> same_from v b c \<Longrightarrow> same_from v a c"
  by (simp add: same_from_def)

lemma exact_kbestD:
  assumes "exact_kbest H K"
  shows "topological (kb_hg K)" "consistent_hg {} (kb_hg K)" "\<And>e. e \<in> set (hg_edges (kb_hg K)) \<Longrightarrow> lv_prob (ed_prob e)"
    "\<And>v. v < length (hg_nodes (kb_hg K)) \<Longrightarrow> nd_in (hg_nodes (kb_hg K) ! v) \<noteq> []"
    "\<And>v. v < length (hg_nodes (kb_hg K)) \<Longrightarrow> distinct (nd_in (hg_nodes (kb_hg K) ! v))"
  using assms consistent_distinct [of "{}" "kb_hg K"] by (auto simp: exact_kbest_def prob_graph_def)

lemma edge_of_node:
  assumes "exact_kbest H K" "v < length (hg_nodes (kb_hg K))" "e \<in> set (nd_in (hg_nodes (kb_hg K) ! v))"
  shows "vat (hg_edges (kb_hg K)) e = Some (hg_edges (kb_hg K) ! nat e)" "hg_edges (kb_hg K) ! nat e \<in> set (hg_edges (kb_hg K))"
    "\<And>t. t \<in> set (ed_tails (hg_edges (kb_hg K) ! nat e)) \<Longrightarrow> 0 \<le> t \<and> t < int v"
  using topologicalD [OF exact_kbestD(1) [OF assms(1)] assms(2,3)] by (auto simp: vat_eq vsize_def)

lemma keysD: "(e, j) \<in> keys hg v \<Longrightarrow> e \<in> set (nd_in (hg_nodes hg ! v)) \<and> length j = length (ed_tails (hg_edges hg ! nat e))"
  by (auto simp: keys_def dest: list_all2_lengthD)

section \<open>Creating derivations\<close>

lemma CreateDerivation_run:
  fixes K :: "('f, xreal logval, xreal logval, 't, 'u) kbest"
  assumes ok: "exact_kbest H K" and rec: "rec_ok H K rec v" and v: "v < length (hg_nodes (kb_hg K))"
    and e: "e \<in> set (nd_in (hg_nodes (kb_hg K) ! v))" and j: "length j = length (ed_tails (hg_edges (kb_hg K) ! nat e))"
      "\<And>i. i \<in> set j \<Longrightarrow> 0 \<le> i \<and> i < kb_k_prime K" and inv: "inv_below H K v nds"
  shows "ensures (CreateDerivation K rec e j nds) (\<lambda>(nds', r). inv_below H K v nds' \<and> same_from v nds nds' \<and>
    (if (e, j) \<in> keys (kb_hg K) v then \<exists>d. r = Some d \<and> kd_key d = (e, j) \<and> scored K v d \<and> kd_yield d = kb_yield0 K else r = None))"
proof -
  let ?hg = "kb_hg K"
  let ?ed = "hg_edges ?hg ! nat e"
  let ?ts = "ed_tails ?ed"
  let ?f = "\<lambda>t i. prob_list ?hg (nat t) ! nat i"
  note edge = edge_of_node [OF ok v e]
  have w: "kb_weight K ?ed = Some (ed_prob ?ed)" "kb_mul K = times_eq exact_reals" "lv_prob (ed_prob ?ed)"
    using ok edge(2) by (auto simp: exact_kbest_def EdgeProb_def prob_graph_def)
  let ?part = "\<lambda>n (r :: (xreal logval \<times> 'f) option). \<exists>s f. r = Some (s, f) \<and> lv_prob s \<and> lv_value s = edge_value ?hg e * prod_list (map2 ?f (take n ?ts) (take n j)) \<and>
      (\<forall>i < n. index_ok ?hg (?ts ! i) (j ! i))"
  let ?I = "\<lambda>i (nds', r). inv_below H K v nds' \<and> same_from v nds nds' \<and> ?part (nat i) r"
  let ?P = "\<lambda>(nds', r). inv_below H K v nds' \<and> same_from v nds nds' \<and>
      (if (e, j) \<in> keys ?hg v then \<exists>s f. r = Some (s, f) \<and> lv_prob s \<and> lv_value s = key_prob ?hg (e, j) else r = None)"
  have keys_iff: "(e, j) \<in> keys ?hg v \<longleftrightarrow> (\<forall>i < length ?ts. index_ok ?hg (?ts ! i) (j ! i))"
    using e j(1) by (auto simp: keys_def list_all2_conv_all_nth)
  have loop: "ensures (for_break (positions ?ts) (create_step K rec ?ed j) (nds, Some (ed_prob ?ed, ed_features ?ed))) ?P"
  proof (rule ensures_break_range [where I = ?I])
    show "?I 0 (nds, Some (ed_prob ?ed, ed_features ?ed))" using inv w(3) by (simp add: edge_value_def)
  next
    fix i st
    assume i: "0 \<le> i" "i < vsize ?ts" and I: "?I i st"
    define n where "n = nat i"
    have n: "i = int n" "n < length ?ts" "n < length j" using i j(1) by (auto simp: n_def vsize_def)
    obtain nds1 s f where st: "st = (nds1, Some (s, f))" "inv_below H K v nds1" "same_from v nds nds1" "lv_prob s"
      "lv_value s = edge_value ?hg e * prod_list (map2 ?f (take n ?ts) (take n j))" "\<forall>i < n. index_ok ?hg (?ts ! i) (j ! i)"
      using I by (cases st) (auto simp: n_def)
    have t: "0 \<le> ?ts ! n" "?ts ! n < int v" using edge(3) [of "?ts ! n"] n by auto
    have k: "0 \<le> j ! n" "j ! n < kb_k_prime K" using j(2) [of "j ! n"] n by auto
    obtain nds2 ant where r: "rec (?ts ! n) (j ! n) nds1 = Some (nds2, ant)" "inv_below H K v nds2" "same_from v nds1 nds2"
      "answers K (nat (?ts ! n)) (nat (j ! n)) ant"
      by (rule rec_okE [OF rec t k st(2)])
    have run: "create_step K rec ?ed j i st = Some (case ant of None \<Rightarrow> ((nds2, None), False)
        | Some ant \<Rightarrow> ((nds2, Some (times_eq exact_reals s (kd_score ant), kb_add_feats K f (kd_feats ant))), True))"
      using n r(1) st(1) w(2) by (simp add: create_step_def split: option.split)
    have ix: "index_ok ?hg (?ts ! n) (j ! n) \<longleftrightarrow> nat (j ! n) < length (prob_list ?hg (nat (?ts ! n)))" using k by (auto simp: index_ok_def)
    show "ensures (create_step K rec ?ed j i st) (\<lambda>(s', go). if go then ?I (i + 1) s' else ?P s')"
    proof (cases "index_ok ?hg (?ts ! n) (j ! n)")
      case True
      then obtain a where a: "ant = Some a" "good K (nat (?ts ! n)) (?f (?ts ! n) (j ! n)) a"
        using r(4) ix by (auto simp: answers_def)
      have "\<forall>i < Suc n. index_ok ?hg (?ts ! i) (j ! i)" using st(6) True by (auto simp: less_Suc_eq)
      moreover have "lv_prob (times_eq exact_reals s (kd_score a))"
        "lv_value (times_eq exact_reals s (kd_score a)) = edge_value ?hg e * prod_list (map2 ?f (take (Suc n) ?ts) (take (Suc n) j))"
        using a(2) st(4,5) n by (auto simp: good_def lv_prob_simps take_Suc_conv_app_nth)
      moreover have "nat (i + 1) = Suc n" using n by simp
      ultimately show ?thesis unfolding run a(1) using r(2,3) st(3) by (auto simp: ensures_Some intro: same_from_trans)
    next
      case False
      then have "ant = None" "(e, j) \<notin> keys ?hg v" using r(4) ix n keys_iff by (auto simp: answers_def)
      then show ?thesis unfolding run using r(2,3) st(3) by (auto simp: ensures_Some intro: same_from_trans)
    qed
  next
    fix t assume "?I (vsize ?ts) t"
    then show "?P t" using keys_iff j(1) by (cases t) (auto simp: vsize_def key_prob_def)
  qed (simp add: vsize_def)
  show ?thesis
    unfolding CreateDerivation_def
    using loop by (auto simp: edge(1) w(1) ensures_bind ensures_Some scored_def kd_key_def elim!: ensures_mono split: if_splits)
      (metis option.exhaust surj_pair)
qed

section \<open>The nodes' candidates\<close>

lemma lv_prob_greater: "lv_prob x \<Longrightarrow> lv_prob y \<Longrightarrow> lv_greater exact_reals x y \<longleftrightarrow> lv_value y < lv_value x"
  by (auto simp: lv_greater_def lv_less_eq_def lv_prob_def lv_less_value)

lemma heap_run:
  assumes "exact_kbest H K" "\<And>x. x \<in> set xs \<Longrightarrow> lv_prob (kd_score x)"
  shows "mset (h_make (kb_heap K) (HeapCompare K) xs) = mset xs \<and> H (h_make (kb_heap K) (HeapCompare K) xs)"
    "xs = ys @ [x] \<Longrightarrow> H ys \<Longrightarrow> mset (h_push (kb_heap K) (HeapCompare K) xs) = mset xs \<and> H (h_push (kb_heap K) (HeapCompare K) xs)"
    "H xs \<Longrightarrow> xs \<noteq> [] \<Longrightarrow> mset (h_pop (kb_heap K) (HeapCompare K) xs) = mset xs \<and> H (butlast (h_pop (kb_heap K) (HeapCompare K) xs)) \<and>
       (\<forall>x \<in> set xs. lv_value (kd_score x) \<le> lv_value (kd_score (last (h_pop (kb_heap K) (HeapCompare K) xs))))"
    "0 \<le> k \<Longrightarrow> k \<le> vsize xs \<Longrightarrow> mset (h_nth_element (kb_heap K) (DerivationCompare K) k xs) = mset xs \<and>
       (\<forall>x \<in> set (take (nat k) (h_nth_element (kb_heap K) (DerivationCompare K) k xs)).
        \<forall>y \<in> set (drop (nat k) (h_nth_element (kb_heap K) (DerivationCompare K) k xs)). lv_value (kd_score y) \<le> lv_value (kd_score x))"
proof -
  have laws: "heap_laws (\<lambda>d. lv_prob (kd_score d)) (HeapCompare K) (DerivationCompare K) H (kb_heap K)"
    and cmp: "kb_less K = lv_less exact_reals" "kb_greater K = lv_greater exact_reals"
    using assms(1) by (simp_all add: exact_kbest_def)
  have less: "HeapCompare K x y \<longleftrightarrow> lv_value (kd_score x) < lv_value (kd_score y)" if "lv_prob (kd_score x)" "lv_prob (kd_score y)" for x y
    using cmp that by (simp add: HeapCompare_def lv_prob_less)
  have gt: "DerivationCompare K x y \<longleftrightarrow> lv_value (kd_score y) < lv_value (kd_score x)" if "lv_prob (kd_score x)" "lv_prob (kd_score y)" for x y
    using cmp that by (simp add: DerivationCompare_def lv_prob_greater)
  note law = laws [unfolded heap_laws_def]
  show "mset (h_make (kb_heap K) (HeapCompare K) xs) = mset xs \<and> H (h_make (kb_heap K) (HeapCompare K) xs)"
    by (rule law [THEN conjunct1, rule_format]) (rule assms(2))
  show "xs = ys @ [x] \<Longrightarrow> H ys \<Longrightarrow> mset (h_push (kb_heap K) (HeapCompare K) xs) = mset xs \<and> H (h_push (kb_heap K) (HeapCompare K) xs)"
    using law [THEN conjunct2, THEN conjunct1, rule_format, of ys x] assms(2) by simp
  show "mset (h_pop (kb_heap K) (HeapCompare K) xs) = mset xs \<and> H (butlast (h_pop (kb_heap K) (HeapCompare K) xs)) \<and>
       (\<forall>x \<in> set xs. lv_value (kd_score x) \<le> lv_value (kd_score (last (h_pop (kb_heap K) (HeapCompare K) xs))))" if "H xs" "xs \<noteq> []"
  proof -
    let ?ys = "h_pop (kb_heap K) (HeapCompare K) xs"
    have l: "mset ?ys = mset xs" "H (butlast ?ys)" "\<forall>x \<in> set xs. \<not> HeapCompare K (last ?ys) x"
      using law [THEN conjunct2, THEN conjunct2, THEN conjunct1, rule_format, of xs] assms(2) that by simp_all
    have "last ?ys \<in> set xs" using l(1) that(2) by (metis last_in_set mset.simps(1) mset_zero_iff set_mset_mset)
    then show ?thesis using l less assms(2) by (metis not_le)
  qed
  show "mset (h_nth_element (kb_heap K) (DerivationCompare K) k xs) = mset xs \<and>
       (\<forall>x \<in> set (take (nat k) (h_nth_element (kb_heap K) (DerivationCompare K) k xs)).
        \<forall>y \<in> set (drop (nat k) (h_nth_element (kb_heap K) (DerivationCompare K) k xs)). lv_value (kd_score y) \<le> lv_value (kd_score x))"
    if "0 \<le> k" "k \<le> vsize xs"
  proof -
    let ?ys = "h_nth_element (kb_heap K) (DerivationCompare K) k xs"
    have l: "mset ?ys = mset xs" "\<forall>x \<in> set (take (nat k) ?ys). \<forall>y \<in> set (drop (nat k) ?ys). \<not> DerivationCompare K y x"
      using law [THEN conjunct2, THEN conjunct2, THEN conjunct2, rule_format, of xs k] assms(2) that by simp_all
    have "set ?ys = set xs" using l(1) by (metis set_mset_mset)
    then have "x \<in> set (take n ?ys) \<Longrightarrow> lv_prob (kd_score x)" "x \<in> set (drop n ?ys) \<Longrightarrow> lv_prob (kd_score x)" for x n
      using assms(2) by (auto dest: in_set_takeD in_set_dropD)
    then show ?thesis using l gt by (metis not_le)
  qed
qed

lemma sum_list_bump:
  fixes xs :: "int list"
  shows "i < length xs \<Longrightarrow> sum_list (xs[i := xs ! i + c]) = sum_list xs + c"
  by (induction xs arbitrary: i) (auto split: nat.split)

lemma elem_le_sum_list:
  fixes xs :: "int list"
  shows "\<forall>x \<in> set xs. 0 \<le> x \<Longrightarrow> x \<in> set xs \<Longrightarrow> x \<le> sum_list xs"
proof (induction xs)
  case (Cons a xs)
  then have "0 \<le> sum_list xs" by (intro sum_list_nonneg) auto
  then show ?case using Cons by auto
qed simp

lemma keys_nonneg: "(e, j) \<in> keys hg v \<Longrightarrow> i \<in> set j \<Longrightarrow> 0 \<le> i"
  by (auto simp: keys_def list_all2_conv_all_nth index_ok_def in_set_conv_nth)

lemma prob_list_nonneg:
  assumes "prob_graph hg" "t < length (hg_nodes hg)" "i < length (prob_list hg t)"
  shows "0 \<le> prob_list hg t ! i"
proof -
  have "prob_list hg t ! i \<in> deriv_prob (edge_value hg) ` set (derivs hg t)"
    using nth_mem [OF assms(3)] by (simp add: prob_list_def)
  then show ?thesis
    using set_derivs [OF _ assms(2)] derives_prob_nonneg [OF assms(1)] assms(1) by (auto simp: prob_graph_def)
qed

text \<open>A key and one of its predecessors.\<close>

lemma key_pred:
  assumes ok: "exact_kbest H K" and v: "v < length (hg_nodes (kb_hg K))" and x: "(e, j) \<in> keys (kb_hg K) v" and i: "i < length j" "0 < j ! i"
  shows "(e, j[i := j ! i - 1]) \<in> keys (kb_hg K) v" "(e, j) \<in> succs (e, j[i := j ! i - 1])"
    "key_prob (kb_hg K) (e, j) \<le> key_prob (kb_hg K) (e, j[i := j ! i - 1])" "sum_list (j[i := j ! i - 1]) = sum_list j - 1"
proof -
  let ?hg = "kb_hg K"
  let ?ts = "ed_tails (hg_edges ?hg ! nat e)"
  show "sum_list (j[i := j ! i - 1]) = sum_list j - 1" using sum_list_bump [OF i(1), of "-1"] by simp
  show "(e, j) \<in> succs (e, j[i := j ! i - 1])" using i(1) by (auto simp: succs_def intro!: exI [of _ i])
  have e: "e \<in> set (nd_in (hg_nodes ?hg ! v))" and len: "length j = length ?ts" and ix: "\<And>m. m < length ?ts \<Longrightarrow> index_ok ?hg (?ts ! m) (j ! m)"
    using x by (auto simp: keys_def list_all2_conv_all_nth)
  show "(e, j[i := j ! i - 1]) \<in> keys ?hg v"
  proof -
    have "index_ok ?hg (?ts ! i) (j ! i - 1)" using ix [of i] i len by (simp add: index_ok_def)
    then show ?thesis using e len ix i by (simp add: keys_def list_all2_conv_all_nth nth_list_update)
  qed
  have pg: "prob_graph ?hg" using ok by (simp add: exact_kbest_def)
  have "list_all2 (\<lambda>a b. 0 \<le> a \<and> a \<le> b) (map2 (\<lambda>t i. prob_list ?hg (nat t) ! nat i) ?ts j)
      (map2 (\<lambda>t i. prob_list ?hg (nat t) ! nat i) ?ts (j[i := j ! i - 1]))"
  proof (rule list_all2_all_nthI)
    fix m assume "m < length (map2 (\<lambda>t i. prob_list ?hg (nat t) ! nat i) ?ts j)"
    then have m: "m < length ?ts" "m < length j" by auto
    have "nat (?ts ! m) < length (hg_nodes ?hg)" using edge_of_node(3) [OF ok v e, of "?ts ! m"] m(1) v by auto
    then have "0 \<le> prob_list ?hg (nat (?ts ! m)) ! nat (j ! m)"
      using ix [OF m(1)] by (intro prob_list_nonneg [OF pg]) (auto simp: index_ok_def)
    moreover have "prob_list ?hg (nat (?ts ! m)) ! nat (j ! m) \<le> prob_list ?hg (nat (?ts ! m)) ! nat (j[i := j ! i - 1] ! m)"
      using ix [OF m(1)] m i by (intro prob_list_antimono) (auto simp: index_ok_def nth_list_update)
    ultimately show "0 \<le> map2 (\<lambda>t i. prob_list ?hg (nat t) ! nat i) ?ts j ! m \<and>
        map2 (\<lambda>t i. prob_list ?hg (nat t) ! nat i) ?ts j ! m \<le> map2 (\<lambda>t i. prob_list ?hg (nat t) ! nat i) ?ts (j[i := j ! i - 1]) ! m"
      using m by simp
  qed (simp add: len)
  then show "key_prob ?hg (e, j) \<le> key_prob ?hg (e, j[i := j ! i - 1])"
    using prod_list_mono edge_value_nonneg [OF pg] topologicalD(1) [OF exact_kbestD(1) [OF ok] v e]
    by (auto simp: key_prob_def intro!: mult_left_mono)
qed

lemma baseD:
  assumes "base_inv H K v s"
  shows "\<And>d. d \<in> set (ks_D s) \<Longrightarrow> scored K v d" "\<And>d. d \<in> set (ks_cand s) \<Longrightarrow> scored K v d"
    "\<And>d. d \<in> set (ks_cand s) \<Longrightarrow> kd_yield d = kb_yield0 K" "\<And>d. d \<in> set (ks_D s) \<Longrightarrow> \<exists>p. good K v p d"
    "distinct (map kd_key (ks_D s @ ks_cand s))" "H (ks_cand s)" "ks_ds s = {x \<in> made s. \<exists>i \<in> set (snd x). i \<noteq> 0}"
    "vsize (ks_D s) \<le> kb_k_prime K" "\<And>m. m < length (ks_D s) \<Longrightarrow> sum_list (kd_j (ks_D s ! m)) \<le> int m"
    "\<And>d. d \<in> set (ks_cand s) \<Longrightarrow> sum_list (kd_j d) \<le> vsize (ks_D s)"
    "sorted_wrt (\<lambda>a b. key_prob (kb_hg K) (kd_key b) \<le> key_prob (kb_hg K) (kd_key a)) (ks_D s)"
    "\<And>x d. x \<in> keys (kb_hg K) v - kd_key ` set (ks_D s) \<Longrightarrow> d \<in> set (ks_D s) \<Longrightarrow> key_prob (kb_hg K) x \<le> key_prob (kb_hg K) (kd_key d)"
    "kept K v (made s)"
  using assms unfolding base_inv_def by blast+

text \<open>When the derivations found have been expanded, the candidates bound the keys that are left.\<close>

lemma candidates_bound:
  assumes ok: "exact_kbest H K" and v: "v < length (hg_nodes (kb_hg K))" and base: "base_inv H K v s"
    and exp: "expanded K v s (length (ks_D s))" and short: "vsize (ks_D s) < kb_k_prime K"
  shows "x \<in> keys (kb_hg K) v - kd_key ` set (ks_D s) \<Longrightarrow> \<exists>c \<in> set (ks_cand s). key_prob (kb_hg K) x \<le> key_prob (kb_hg K) (kd_key c)"
proof (induction "nat (sum_list (snd x))" arbitrary: x rule: less_induct)
  case (less x)
  obtain e j where x: "x = (e, j)" by (cases x)
  have key: "(e, j) \<in> keys (kb_hg K) v" using less.prems x by simp
  show ?case
  proof (cases "\<exists>i < length j. 0 < j ! i")
    case True
    then obtain i where i: "i < length j" "0 < j ! i" by blast
    let ?y = "(e, j[i := j ! i - 1])"
    note pred = key_pred [OF ok v key i]
    show ?thesis
    proof (cases "?y \<in> kd_key ` set (ks_D s)")
      case True
      then obtain m where "m < length (ks_D s)" "?y = kd_key (ks_D s ! m)" by (auto simp: in_set_conv_nth)
      then have "x \<in> made s" using exp pred(2) key x by (auto simp: expanded_def)
      then show ?thesis using less.prems by auto
    next
      case False
      have "0 \<le> sum_list (snd ?y)" using keys_nonneg [OF pred(1)] by (auto intro: sum_list_nonneg)
      then have "nat (sum_list (snd ?y)) < nat (sum_list (snd x))" using pred(4) x by simp
      then show ?thesis using less.hyps [of ?y] False pred(1,3) x by fastforce
    qed
  next
    case False
    let ?es = "set (nd_in (hg_nodes (kb_hg K) ! v))"
    have j: "length j = length (ed_tails (hg_edges (kb_hg K) ! nat e))" "e \<in> ?es" using keysD [OF key] by auto
    have "j = replicate (length j) 0"
      using False keys_nonneg [OF key] by (intro nth_equalityI) (auto simp: order.antisym)
    then have zero: "x = zero_key (kb_hg K) e" using j by (simp add: x zero_key_def)
    obtain E where E: "E \<subseteq> ?es" "zero_key (kb_hg K) ` E \<subseteq> made s"
      "E = ?es \<or> int (card E) = kb_k_prime K \<and> (\<forall>e \<in> ?es - E. \<forall>e' \<in> E. key_prob (kb_hg K) (zero_key (kb_hg K) e) \<le> key_prob (kb_hg K) (zero_key (kb_hg K) e'))"
      using baseD(13) [OF base] unfolding kept_def by blast
    show ?thesis
    proof (cases "e \<in> E")
      case True
      then have "x \<in> made s" using E(2) zero by blast
      then show ?thesis using less.prems by auto
    next
      case False
      then have c: "int (card E) = kb_k_prime K" "\<And>e'. e' \<in> E \<Longrightarrow> key_prob (kb_hg K) x \<le> key_prob (kb_hg K) (zero_key (kb_hg K) e')"
        using E(3) j(2) zero by auto
      have "\<not> zero_key (kb_hg K) ` E \<subseteq> kd_key ` set (ks_D s)"
      proof
        assume "zero_key (kb_hg K) ` E \<subseteq> kd_key ` set (ks_D s)"
        then have "card (zero_key (kb_hg K) ` E) \<le> card (kd_key ` set (ks_D s))" by (intro card_mono) auto
        moreover have "card (zero_key (kb_hg K) ` E) = card E" by (intro card_image) (auto simp: inj_on_def zero_key_def)
        moreover have "card (kd_key ` set (ks_D s)) \<le> length (ks_D s)"
          by (metis card_image_le card_length finite_set le_trans)
        ultimately show False using c(1) short by (simp add: vsize_def)
      qed
      then obtain e' where "e' \<in> E" "zero_key (kb_hg K) e' \<notin> kd_key ` set (ks_D s)" by blast
      then show ?thesis using E(2) c(2) by fastforce
    qed
  qed
qed

section \<open>Expanding a derivation\<close>

lemma kept_mono: "kept K v M \<Longrightarrow> M \<subseteq> M' \<Longrightarrow> kept K v M'"
  unfolding kept_def by (elim exE conjE, intro exI conjI) auto

definition add_candidate :: "('f, 'p, 'w, 't, 'u) kbest \<Rightarrow> ('f, 'w, 't) kderiv \<Rightarrow> ('f, 'w, 't, 'u) kstate \<Rightarrow> ('f, 'w, 't, 'u) kstate" where
  "add_candidate K d s = s\<lparr>ks_cand := h_push (kb_heap K) (HeapCompare K) (ks_cand s @ [d]), ks_ds := insert (kd_key d) (ks_ds s)\<rparr>"

lemma add_candidate_base:
  assumes ok: "exact_kbest H K" and base: "base_inv H K v s" and d: "scored K v d" "kd_yield d = kb_yield0 K"
    "kd_key d \<notin> made s" "\<exists>i \<in> set (kd_j d). i \<noteq> 0" "sum_list (kd_j d) \<le> vsize (ks_D s)"
  shows "base_inv H K v (add_candidate K d s)" "made (add_candidate K d s) = insert (kd_key d) (made s)"
    "ks_D (add_candidate K d s) = ks_D s"
proof -
  note b = baseD [OF base]
  let ?c = "h_push (kb_heap K) (HeapCompare K) (ks_cand s @ [d])"
  have push: "mset ?c = mset (ks_cand s @ [d])" "H ?c"
    using heap_run(2) [OF ok _ refl b(6), of d] b(2) d(1) by (auto simp: scored_def)
  have set_c: "set ?c = insert d (set (ks_cand s))" using push(1) by (metis mset_append set_mset_mset Un_insert_right append_Nil2 list.set(1,2) set_append sup_bot_right)
  show D: "ks_D (add_candidate K d s) = ks_D s" by (simp add: add_candidate_def)
  show made: "made (add_candidate K d s) = insert (kd_key d) (made s)" by (auto simp: add_candidate_def set_c)
  have dist: "distinct (map kd_key (ks_D s @ ?c))"
  proof -
    have "mset (map kd_key (ks_D s @ ?c)) = mset (map kd_key (ks_D s @ ks_cand s @ [d]))" using push(1) by simp
    moreover have "distinct (map kd_key (ks_D s @ ks_cand s @ [d]))" using b(5) d(3) by (auto simp: image_Un)
    ultimately show ?thesis using mset_eq_imp_distinct_iff by blast
  qed
  have ds: "insert (kd_key d) (ks_ds s) = {x \<in> insert (kd_key d) (made s). \<exists>i \<in> set (snd x). i \<noteq> 0}"
    using b(7) d(4) by (auto simp: kd_key_def)
  show "base_inv H K v (add_candidate K d s)"
    unfolding base_inv_def made
  proof (intro conjI)
    show "kept K v (insert (kd_key d) (made s))" using kept_mono [OF b(13)] by blast
    show "distinct (map kd_key (ks_D (add_candidate K d s) @ ks_cand (add_candidate K d s)))"
      using dist by (simp add: add_candidate_def)
    show "ks_ds (add_candidate K d s) = {x \<in> insert (kd_key d) (made s). \<exists>i \<in> set (snd x). i \<noteq> 0}"
      using ds by (simp add: add_candidate_def)
  qed (use b d push(2) in \<open>auto simp: add_candidate_def set_c\<close>)
qed

lemma succ_index:
  assumes "(e, j) \<in> keys hg v" "i < length j"
  shows "0 \<le> j ! i" "j ! i + 1 \<le> sum_list j + 1" "x \<in> set (j[i := j ! i + 1]) \<Longrightarrow> 0 \<le> x \<and> x \<le> sum_list j + 1"
    "\<exists>x \<in> set (j[i := j ! i + 1]). x \<noteq> 0"
proof -
  have nn: "\<forall>x \<in> set j. 0 \<le> x" using keys_nonneg [OF assms(1)] by blast
  then show p: "0 \<le> j ! i" using assms(2) by simp
  have nn': "\<forall>x \<in> set (j[i := j ! i + 1]). 0 \<le> x" using nn p by (auto dest: set_update_subset_insert [THEN subsetD])
  show "j ! i + 1 \<le> sum_list j + 1" using elem_le_sum_list [OF nn] assms(2) by simp
  show "x \<in> set (j[i := j ! i + 1]) \<Longrightarrow> 0 \<le> x \<and> x \<le> sum_list j + 1"
    using elem_le_sum_list [OF nn', of x] nn' sum_list_bump [OF assms(2), of 1] by auto
  show "\<exists>x \<in> set (j[i := j ! i + 1]). x \<noteq> 0"
    using assms(2) p by (intro bexI [of _ "j ! i + 1"]) (auto simp: set_update_memI)
qed

text \<open>The state of the node after the first \<open>n\<close> successors.\<close>

definition expanding :: "(('f, xreal logval, 't) kderiv list \<Rightarrow> bool) \<Rightarrow> ('f, xreal logval, xreal logval, 't, 'u) kbest \<Rightarrow> nat \<Rightarrow>
    ('f, xreal logval, 't, 'u) knodes \<Rightarrow> int \<times> int list \<Rightarrow> nat \<Rightarrow> ('f, xreal logval, 't, 'u) knodes \<Rightarrow> bool" where
  "expanding H K v nds x n nds' \<longleftrightarrow> inv_below H K v nds' \<and> same_from (Suc v) nds nds' \<and> base_inv H K v (nds' ! v) \<and>
     ks_D (nds' ! v) = ks_D (nds ! v) \<and> made (nds ! v) \<subseteq> made (nds' ! v) \<and>
     (\<forall>i < n. (fst x, (snd x)[i := snd x ! i + 1]) \<in> keys (kb_hg K) v \<longrightarrow> (fst x, (snd x)[i := snd x ! i + 1]) \<in> made (nds' ! v))"

lemma lazy_next_step_run:
  assumes ok: "exact_kbest H K" and rec: "rec_ok H K rec v" and v: "v < length (hg_nodes (kb_hg K))"
    and d: "kd_key d \<in> keys (kb_hg K) v" "sum_list (kd_j d) < vsize (ks_D (nds ! v))" "vsize (ks_D (nds ! v)) < kb_k_prime K"
    and n: "n < length (kd_j d)" and inv: "expanding H K v nds (kd_key d) n nds1"
  shows "ensures (lazy_next_step K rec (int v) d (int n) nds1) (expanding H K v nds (kd_key d) (Suc n))"
proof -
  let ?hg = "kb_hg K"
  define e j where "e = kd_edge d" and "j = kd_j d"
  let ?j = "j[n := j ! n + 1]" and ?ts = "ed_tails (hg_edges ?hg ! nat e)"
  have key: "(e, j) \<in> keys ?hg v" and d_key: "kd_key d = (e, j)" using d(1) by (simp_all add: kd_key_def e_def j_def)
  have e: "e \<in> set (nd_in (hg_nodes ?hg ! v))" and len: "length j = length ?ts" using keysD [OF key] by auto
  note edge = edge_of_node [OF ok v e]
  have n': "n < length j" "n < length ?ts" using n len by (simp_all add: j_def)
  note ix = succ_index [OF key n'(1)]
  have sum: "sum_list j + 1 \<le> vsize (ks_D (nds ! v))" using d(2) by (simp add: j_def)
  have inv1: "inv_below H K v nds1" "same_from (Suc v) nds nds1" "base_inv H K v (nds1 ! v)" "ks_D (nds1 ! v) = ks_D (nds ! v)"
    "made (nds ! v) \<subseteq> made (nds1 ! v)"
    "\<And>i. i < n \<Longrightarrow> (e, j[i := j ! i + 1]) \<in> keys ?hg v \<Longrightarrow> (e, j[i := j ! i + 1]) \<in> made (nds1 ! v)"
    using inv by (auto simp: expanding_def d_key)
  obtain nds2 ant where r: "rec (?ts ! n) (j ! n + 1) nds1 = Some (nds2, ant)" "inv_below H K v nds2" "same_from v nds1 nds2"
    "answers K (nat (?ts ! n)) (nat (j ! n + 1)) ant"
    by (rule rec_okE [OF rec _ _ _ _ inv1(1), of "?ts ! n" "j ! n + 1"]) (use edge(3) [of "?ts ! n"] n' ix sum d(3) in auto)
  have nd2: "nds2 ! v = nds1 ! v" "same_from (Suc v) nds nds2" "int v < vsize nds2"
    using r(2,3) inv1(2) v by (auto simp: same_from_def inv_below_def vsize_def)
  have kept_all: "expanding H K v nds (e, j) (Suc n) nds2" if "(e, ?j) \<in> keys ?hg v \<Longrightarrow> (e, ?j) \<in> made (nds1 ! v)"
    using that inv1 r(2) nd2 by (auto simp: expanding_def less_Suc_eq)
  have none: "(e, ?j) \<notin> keys ?hg v" if "ant = None"
  proof
    assume "(e, ?j) \<in> keys ?hg v"
    then have "index_ok ?hg (?ts ! n) (?j ! n)" using n' len by (auto simp: keys_def list_all2_conv_all_nth)
    then show False using r(4) that n' by (auto simp: answers_def index_ok_def split: if_splits)
  qed
  have ds: "(e, ?j) \<in> ks_ds (nds1 ! v) \<longleftrightarrow> (e, ?j) \<in> made (nds1 ! v)"
    using baseD(7) [OF inv1(3)] ix(4) by auto
  have start: "lazy_next_step K rec (int v) d (int n) nds1 =
      (if ant = None \<or> (e, ?j) \<in> made (nds1 ! v) then Some nds2
       else do {
         (nds, new_d) \<leftarrow> CreateDerivation K rec e ?j nds2;
         (case new_d of
            None \<Rightarrow> Some nds
          | Some new_d \<Rightarrow> do {
              s \<leftarrow> vat nds (int v);
              check (kd_key new_d \<notin> ks_ds s);
              vset nds (int v) (add_candidate K new_d s) }) })"
    using n' r(1) edge(1) nd2 ds v r(2) unfolding lazy_next_step_def add_candidate_def
    by (simp add: e_def [symmetric] j_def [symmetric] inv_below_def)
  show ?thesis
  proof (cases "ant = None \<or> (e, ?j) \<in> made (nds1 ! v)")
    case True
    then show ?thesis using start kept_all none by (auto simp: ensures_Some d_key)
  next
    case False
    have "ensures (CreateDerivation K rec e ?j nds2) (\<lambda>(nds', r). inv_below H K v nds' \<and> same_from v nds2 nds' \<and>
        (if (e, ?j) \<in> keys ?hg v then \<exists>d. r = Some d \<and> kd_key d = (e, ?j) \<and> scored K v d \<and> kd_yield d = kb_yield0 K else r = None))"
    proof (rule CreateDerivation_run [OF ok rec v e _ _ r(2)])
      show "0 \<le> i \<and> i < kb_k_prime K" if "i \<in> set ?j" for i using ix(3) [OF that] sum d(3) by linarith
    qed (simp add: len)
    then obtain nds3 nd where c: "CreateDerivation K rec e ?j nds2 = Some (nds3, nd)" "inv_below H K v nds3" "same_from v nds2 nds3"
      "if (e, ?j) \<in> keys ?hg v then \<exists>d. nd = Some d \<and> kd_key d = (e, ?j) \<and> scored K v d \<and> kd_yield d = kb_yield0 K else nd = None"
      by (auto elim!: ensuresE)
    have nd3: "nds3 ! v = nds1 ! v" "same_from (Suc v) nds nds3" "v < length nds3"
      using c(2,3) nd2 v by (auto simp: same_from_def inv_below_def)
    show ?thesis
    proof (cases "(e, ?j) \<in> keys ?hg v")
      case True
      then obtain nw where nw: "nd = Some nw" "kd_key nw = (e, ?j)" "scored K v nw" "kd_yield nw = kb_yield0 K" using c(4) by auto
      have nwj: "kd_j nw = ?j" using nw(2) by (simp add: kd_key_def)
      have new: "kd_key nw \<notin> made (nds1 ! v)" "kd_key nw \<notin> ks_ds (nds1 ! v)" using False ds nw(2) by auto
      have "sum_list (kd_j nw) \<le> vsize (ks_D (nds1 ! v))" unfolding nwj using sum_list_bump [OF n'(1), of 1] sum inv1(4) by simp
      note add = add_candidate_base [OF ok inv1(3) nw(3,4) new(1) _ this, unfolded nwj, OF ix(4)]
      let ?nds = "nds3[v := add_candidate K nw (nds1 ! v)]"
      have "lazy_next_step K rec (int v) d (int n) nds1 = Some ?nds"
        using start False c(1) nw(1) nd3 new(2) by (simp add: check_def)
      moreover have "expanding H K v nds (e, j) (Suc n) ?nds"
        unfolding expanding_def fst_conv snd_conv
      proof (intro conjI allI impI)
        show "inv_below H K v ?nds" using c(2) by (auto simp: inv_below_def)
        show "same_from (Suc v) nds ?nds" using nd3(2) by (auto simp: same_from_def)
        show "made (nds ! v) \<subseteq> made (?nds ! v)" using nd3(3) add(2) inv1(5) by auto
        show "(e, j[i := j ! i + 1]) \<in> made (?nds ! v)" if "i < Suc n" "(e, j[i := j ! i + 1]) \<in> keys ?hg v" for i
          using that inv1(6) [of i] nd3(3) add(2) nw(2) by (auto simp: less_Suc_eq)
      qed (use nd3(3) add inv1(4) in simp_all)
      ultimately show ?thesis by (simp add: ensures_Some d_key)
    next
      case no: False
      then have "lazy_next_step K rec (int v) d (int n) nds1 = Some nds3"
        using start False c(1,4) by simp
      moreover have "expanding H K v nds (e, j) (Suc n) nds3"
        using no inv1 c(2) nd3 by (auto simp: expanding_def less_Suc_eq)
      ultimately show ?thesis by (simp add: ensures_Some d_key)
    qed
  qed
qed

lemma LazyNext_run:
  assumes ok: "exact_kbest H K" and rec: "rec_ok H K rec v" and v: "v < length (hg_nodes (kb_hg K))"
    and inv: "inv_below H K v nds" "base_inv H K v (nds ! v)" "expanded K v (nds ! v) (length (ks_D (nds ! v)) - 1)"
    and D: "ks_D (nds ! v) \<noteq> []" "vsize (ks_D (nds ! v)) < kb_k_prime K"
  shows "ensures (LazyNext K rec (int v) (last (ks_D (nds ! v))) nds) (\<lambda>nds'. inv_below H K v nds' \<and> same_from (Suc v) nds nds' \<and>
    base_inv H K v (nds' ! v) \<and> ks_D (nds' ! v) = ks_D (nds ! v) \<and> expanded K v (nds' ! v) (length (ks_D (nds' ! v))))"
proof -
  let ?D = "ks_D (nds ! v)"
  define d where "d = last ?D"
  have d: "d = ?D ! (length ?D - 1)" "d \<in> set ?D" using D(1) by (simp_all add: d_def last_conv_nth)
  have key: "kd_key d \<in> keys (kb_hg K) v" using baseD(1) [OF inv(2) d(2)] by (simp add: scored_def)
  have sum: "sum_list (kd_j d) < vsize ?D" using baseD(9) [OF inv(2), of "length ?D - 1"] D(1) d(1) by (cases ?D) (auto simp: vsize_def)
  have "ensures (LazyNext K rec (int v) d nds) (expanding H K v nds (kd_key d) (length (kd_j d)))"
    unfolding LazyNext_def
  proof (rule ensures_for_range [where I = "\<lambda>i. expanding H K v nds (kd_key d) (nat i)"])
    show "expanding H K v nds (kd_key d) (nat 0) nds" using inv(1,2) by (simp add: expanding_def)
  next
    fix i nds' assume i: "0 \<le> i" "i < vsize (kd_j d)" and I: "expanding H K v nds (kd_key d) (nat i) nds'"
    have "ensures (lazy_next_step K rec (int v) d (int (nat i)) nds') (expanding H K v nds (kd_key d) (Suc (nat i)))"
      by (rule lazy_next_step_run [OF ok rec v key sum D(2) _ I]) (use i in \<open>simp add: vsize_def\<close>)
    then show "ensures (lazy_next_step K rec (int v) d i nds') (expanding H K v nds (kd_key d) (nat (i + 1)))"
      using i by (simp add: nat_add_distrib)
  qed (auto simp: vsize_def)
  then show ?thesis unfolding d_def [symmetric]
  proof (rule ensures_mono)
    fix nds' assume x: "expanding H K v nds (kd_key d) (length (kd_j d)) nds'"
    then have "succs (kd_key d) \<inter> keys (kb_hg K) v \<subseteq> made (nds' ! v)" by (auto simp: expanding_def succs_def kd_key_def)
    moreover have "succs (kd_key (?D ! m)) \<inter> keys (kb_hg K) v \<subseteq> made (nds' ! v)" if "m < length ?D - 1" for m
      using inv(3) that x by (fastforce simp: expanded_def expanding_def)
    moreover have "m < length ?D - 1 \<or> m = length ?D - 1" if "m < length ?D" for m using that by auto
    ultimately have "expanded K v (nds' ! v) (length (ks_D (nds' ! v)))" using x d(1) unfolding expanded_def expanding_def by metis
    then show "inv_below H K v nds' \<and> same_from (Suc v) nds nds' \<and> base_inv H K v (nds' ! v) \<and> ks_D (nds' ! v) = ?D \<and>
        expanded K v (nds' ! v) (length (ks_D (nds' ! v)))" using x by (simp add: expanding_def)
  qed
qed

section \<open>The first candidates\<close>

lemma prob_list_Nil: "prob_list hg v = [] \<longleftrightarrow> derivs hg v = []"
  using mset_prob_list [of hg v] by (metis list.map_disc_iff mset_zero_iff)

lemma prob_list_nonempty:
  assumes ok: "exact_kbest H K"
  shows "v < length (hg_nodes (kb_hg K)) \<Longrightarrow> prob_list (kb_hg K) v \<noteq> []"
proof (induction v rule: less_induct)
  case (less v)
  let ?hg = "kb_hg K"
  obtain e where e: "e \<in> set (nd_in (hg_nodes ?hg ! v))"
    using exact_kbestD(4) [OF ok less.prems] by (meson ex_in_conv set_empty)
  have "derivs ?hg (nat t) \<noteq> []" if "t \<in> set (ed_tails (hg_edges ?hg ! nat e))" for t
    using edge_of_node(3) [OF ok less.prems e that] less.IH [of "nat t"] less.prems by (auto simp: prob_list_Nil nat_less_iff)
  then have "list_all2 (\<lambda>t d. nat t < v \<and> d \<in> set (derivs ?hg (nat t))) (ed_tails (hg_edges ?hg ! nat e))
      (map (\<lambda>t. hd (derivs ?hg (nat t))) (ed_tails (hg_edges ?hg ! nat e)))"
    using edge_of_node(3) [OF ok less.prems e] by (auto simp: list.rel_map list_all2_same nat_less_iff)
  then have "Deriv e (map (\<lambda>t. hd (derivs ?hg (nat t))) (ed_tails (hg_edges ?hg ! nat e))) \<in> set (derivs ?hg v)"
    using e by (simp add: Deriv_in_derivs)
  then show ?case by (auto simp: prob_list_Nil)
qed

lemma zero_key_in:
  assumes ok: "exact_kbest H K" and v: "v < length (hg_nodes (kb_hg K))" and e: "e \<in> set (nd_in (hg_nodes (kb_hg K) ! v))"
  shows "zero_key (kb_hg K) e \<in> keys (kb_hg K) v"
proof -
  have "index_ok (kb_hg K) t 0" if "t \<in> set (ed_tails (hg_edges (kb_hg K) ! nat e))" for t
    using prob_list_nonempty [OF ok, of "nat t"] edge_of_node(3) [OF ok v e that] v by (auto simp: index_ok_def nat_less_iff)
  then show ?thesis using e by (simp add: zero_key_def keys_def list_all2_conv_all_nth)
qed

text \<open>The candidates after the first in-edges.\<close>

definition gathering :: "(('f, xreal logval, 't) kderiv list \<Rightarrow> bool) \<Rightarrow> ('f, xreal logval, xreal logval, 't, 'u) kbest \<Rightarrow> nat \<Rightarrow>
    ('f, xreal logval, 't, 'u) knodes \<Rightarrow> int list \<Rightarrow> ('f, xreal logval, 't, 'u) knodes \<Rightarrow> bool" where
  "gathering H K v nds es nds' \<longleftrightarrow> inv_below H K v nds' \<and> same_from (Suc v) nds nds' \<and>
     (\<exists>c. nds' ! v = (nds ! v)\<lparr>ks_cand := c\<rparr> \<and> map kd_key c = map (zero_key (kb_hg K)) es \<and> (\<forall>d \<in> set c. scored K v d \<and> kd_yield d = kb_yield0 K))"

lemma gather_step_run:
  assumes ok: "exact_kbest H K" and rec: "rec_ok H K rec v" and v: "v < length (hg_nodes (kb_hg K))" and k: "0 < kb_k_prime K"
    and e: "e \<in> set (nd_in (hg_nodes (kb_hg K) ! v))" and inv: "gathering H K v nds es nds1"
  shows "ensures (gather_step K rec (int v) e nds1) (gathering H K v nds (es @ [e]))"
proof -
  let ?hg = "kb_hg K"
  let ?j = "replicate (length (ed_tails (hg_edges ?hg ! nat e))) (0 :: int)"
  have zero: "zero_key ?hg e = (e, ?j)" by (simp add: zero_key_def)
  obtain c where c: "inv_below H K v nds1" "same_from (Suc v) nds nds1" "nds1 ! v = (nds ! v)\<lparr>ks_cand := c\<rparr>"
    "map kd_key c = map (zero_key ?hg) es" "\<forall>d \<in> set c. scored K v d \<and> kd_yield d = kb_yield0 K"
    using inv by (auto simp: gathering_def)
  have "ensures (CreateDerivation K rec e ?j nds1) (\<lambda>(nds', r). inv_below H K v nds' \<and> same_from v nds1 nds' \<and>
      (if (e, ?j) \<in> keys ?hg v then \<exists>d. r = Some d \<and> kd_key d = (e, ?j) \<and> scored K v d \<and> kd_yield d = kb_yield0 K else r = None))"
    by (rule CreateDerivation_run [OF ok rec v e _ _ c(1)]) (use k in auto)
  then obtain nds2 d where d: "CreateDerivation K rec e ?j nds1 = Some (nds2, Some d)" "inv_below H K v nds2" "same_from v nds1 nds2"
    "kd_key d = (e, ?j)" "scored K v d" "kd_yield d = kb_yield0 K"
    using zero_key_in [OF ok v e] by (auto simp: zero elim!: ensuresE)
  have nd2: "nds2 ! v = (nds ! v)\<lparr>ks_cand := c\<rparr>" "v < length nds2"
    using c(3) d(2,3) v by (auto simp: same_from_def inv_below_def)
  have "gather_step K rec (int v) e nds1 = Some (nds2[v := (nds ! v)\<lparr>ks_cand := c @ [d]\<rparr>])"
    using edge_of_node(1) [OF ok v e] d(1) nd2 by (simp add: gather_step_def)
  moreover have "gathering H K v nds (es @ [e]) (nds2[v := (nds ! v)\<lparr>ks_cand := c @ [d]\<rparr>])"
    unfolding gathering_def
  proof (intro conjI exI)
    show "inv_below H K v (nds2[v := (nds ! v)\<lparr>ks_cand := c @ [d]\<rparr>])" using d(2) by (auto simp: inv_below_def)
    show "same_from (Suc v) nds (nds2[v := (nds ! v)\<lparr>ks_cand := c @ [d]\<rparr>])" using c(2) d(3) by (auto simp: same_from_def)
    show "nds2[v := (nds ! v)\<lparr>ks_cand := c @ [d]\<rparr>] ! v = (nds ! v)\<lparr>ks_cand := c @ [d]\<rparr>" using nd2(2) by simp
  qed (use c(4,5) d(4-6) zero in auto)
  ultimately show ?thesis by (simp add: ensures_Some)
qed

text \<open>The greatest \<open>k_prime\<close> of them are left.\<close>

lemma kept_first:
  assumes ok: "exact_kbest H K" and v: "v < length (hg_nodes (kb_hg K))"
    and c: "map kd_key c = map (zero_key (kb_hg K)) (nd_in (hg_nodes (kb_hg K) ! v))" "\<And>d. d \<in> set c \<Longrightarrow> scored K v d"
    and ys: "ys = take n (h_nth_element (kb_heap K) (DerivationCompare K) (int n) c)" "int n = min (kb_k_prime K) (vsize c)"
  shows "kept K v (kd_key ` set ys)" "set ys \<subseteq> set c" "distinct (map kd_key ys)"
proof -
  let ?hg = "kb_hg K"
  let ?all = "h_nth_element (kb_heap K) (DerivationCompare K) (int n) c"
  let ?es = "nd_in (hg_nodes ?hg ! v)"
  have n: "int n \<le> vsize c" using ys(2) by simp
  have el: "mset ?all = mset c" "\<forall>x \<in> set (take n ?all). \<forall>y \<in> set (drop n ?all). lv_value (kd_score y) \<le> lv_value (kd_score x)"
    using heap_run(4) [OF ok, of c "int n"] c(2) n by (simp_all add: scored_def)
  have all: "set ?all = set c" "length ?all = length c" using el(1) by (metis set_mset_mset, metis size_mset)
  have "distinct (map kd_key c)"
    unfolding c(1) using exact_kbestD(5) [OF ok v] by (simp add: distinct_map inj_on_def zero_key_def)
  moreover have "mset (map kd_key ?all) = mset (map kd_key c)" using el(1) by simp
  ultimately have dist: "distinct (map kd_key ?all)" using mset_eq_imp_distinct_iff by blast
  then show dys: "distinct (map kd_key ys)" by (simp add: ys(1) take_map [symmetric])
  show sub: "set ys \<subseteq> set c" using all(1) by (auto simp: ys(1) dest: in_set_takeD)
  have edge: "kd_key d = zero_key ?hg (kd_edge d) \<and> kd_edge d \<in> set ?es" if "d \<in> set c" for d
  proof -
    have "kd_key d \<in> set (map kd_key c)" using that by simp
    then show ?thesis unfolding c(1) by (auto simp: zero_key_def kd_key_def)
  qed
  define E where "E = kd_edge ` set ys"
  have im: "zero_key ?hg ` E = kd_key ` set ys" using edge sub by (force simp: E_def)
  have cardE: "card E = n"
  proof -
    have "card E = card (zero_key ?hg ` E)" by (rule card_image [symmetric]) (auto simp: inj_on_def zero_key_def)
    also have "\<dots> = length ys" unfolding im using distinct_card [OF dys] by simp
    also have "\<dots> = n" using ys all(2) by (simp add: vsize_def)
    finally show ?thesis .
  qed
  have best: "key_prob ?hg (zero_key ?hg e) \<le> key_prob ?hg (zero_key ?hg e')" if e: "e \<in> set ?es - E" and e': "e' \<in> E" for e e'
  proof -
    have "zero_key ?hg e \<in> set (map kd_key c)" unfolding c(1) using e by auto
    then obtain d where d: "d \<in> set c" "kd_key d = zero_key ?hg e" by auto
    then have "kd_edge d = e" by (simp add: kd_key_def zero_key_def)
    then have "d \<in> set (drop n ?all)"
      using e d(1) all(1) by (auto simp: E_def ys(1)) (metis Un_iff append_take_drop_id image_eqI set_append)
    moreover obtain d' where d': "d' \<in> set (take n ?all)" "kd_edge d' = e'" using e' by (auto simp: E_def ys(1))
    ultimately have "lv_value (kd_score d) \<le> lv_value (kd_score d')" using el(2) by blast
    then show ?thesis using c(2) d d' edge sub ys(1) unfolding scored_def by (metis subsetD)
  qed
  have "E = set ?es \<or> int (card E) = kb_k_prime K"
  proof (cases "kb_k_prime K \<le> vsize c")
    case False
    then have "ys = ?all" using ys all(2) by (simp add: vsize_def)
    then have "zero_key ?hg ` E = zero_key ?hg ` set ?es" using im all(1) c(1) by (metis image_set)
    moreover have "inj (zero_key ?hg)" by (auto simp: inj_on_def zero_key_def)
    ultimately show ?thesis by (simp add: inj_image_eq_iff)
  qed (use ys(2) cardE in auto)
  moreover have "E \<subseteq> set ?es" using edge sub by (auto simp: E_def)
  ultimately show "kept K v (kd_key ` set ys)"
    unfolding kept_def using im best by (intro exI [of _ E]) auto
qed

lemma kept_made_nonempty:
  assumes "exact_kbest H K" "v < length (hg_nodes (kb_hg K))" "0 < kb_k_prime K" "kept K v M"
  shows "M \<noteq> {}"
  using assms(3,4) exact_kbestD(4) [OF assms(1,2)] unfolding kept_def by fastforce

lemma GetCandidates_run:
  assumes ok: "exact_kbest H K" and rec: "rec_ok H K rec v" and v: "v < length (hg_nodes (kb_hg K))" and k: "0 < kb_k_prime K"
    and inv: "inv_below H K (Suc v) nds"
  shows "ensures (GetCandidates K rec (int v) nds) (\<lambda>nds'. inv_below H K v nds' \<and> same_from (Suc v) nds nds' \<and>
    base_inv H K v (nds' ! v) \<and> expanded K v (nds' ! v) (length (ks_D (nds' ! v)) - 1))"
proof -
  let ?hg = "kb_hg K"
  let ?es = "nd_in (hg_nodes ?hg ! v)"
  have below: "inv_below H K v nds" and node: "node_inv H K v (nds ! v)" and len: "v < length nds"
    using inv v by (auto simp: inv_below_def)
  show ?thesis
  proof (cases "ks_D (nds ! v) = [] \<and> ks_cand (nds ! v) = []")
    case False
    then have "GetCandidates K rec (int v) nds = Some nds" using len by (auto simp: GetCandidates_def)
    then show ?thesis using False node below by (auto simp: node_inv_def ensures_Some)
  next
    case fresh: True
    have ds: "ks_ds (nds ! v) = {}"
      using node kept_made_nonempty [OF ok v k] baseD(13) [of H K v "nds ! v"] fresh by (auto simp: node_inv_def)
    have "ensures (for_each ?es (gather_step K rec (int v)) nds) (gathering H K v nds ?es)"
    proof (rule ensures_for_each [where I = "gathering H K v nds"])
      show "gathering H K v nds [] nds"
        using below fresh by (auto simp: gathering_def intro!: exI [of _ "[]"])
    next
      fix ys e zs s assume "?es = ys @ e # zs" "gathering H K v nds ys s"
      then show "ensures (gather_step K rec (int v) e s) (gathering H K v nds (ys @ [e]))"
        by (intro gather_step_run [OF ok rec v k]) auto
    qed
    then obtain nds1 c where g: "for_each ?es (gather_step K rec (int v)) nds = Some nds1" "inv_below H K v nds1" "same_from (Suc v) nds nds1"
      "nds1 ! v = (nds ! v)\<lparr>ks_cand := c\<rparr>" "map kd_key c = map (zero_key ?hg) ?es" "\<And>d. d \<in> set c \<Longrightarrow> scored K v d \<and> kd_yield d = kb_yield0 K"
      by (auto simp: gathering_def elim!: ensuresE)
    define n where "n = nat (min (kb_k_prime K) (vsize c))"
    have n: "int n = min (kb_k_prime K) (vsize c)" using k by (simp add: n_def)
    define ys where "ys = take n (h_nth_element (kb_heap K) (DerivationCompare K) (int n) c)"
    note first = kept_first [OF ok v g(5) _ ys_def n]
    define h where "h = h_make (kb_heap K) (HeapCompare K) ys"
    have sub: "set ys \<subseteq> set c" and kept: "kept K v (kd_key ` set ys)" and dist: "distinct (map kd_key ys)" using first g(6) by blast+
    have h: "mset h = mset ys" "H h"
      using heap_run(1) [OF ok, of ys] sub g(6) unfolding h_def scored_def by blast+
    have set_h: "set h = set ys" using h(1) by (metis set_mset_mset)
    have dist_h: "distinct (map kd_key h)"
    proof -
      have "mset (map kd_key h) = mset (map kd_key ys)" using h(1) by simp
      then show ?thesis using dist mset_eq_imp_distinct_iff by blast
    qed
    have zero: "\<forall>i \<in> set (kd_j d). i = 0" if "d \<in> set ys" for d
    proof -
      have "kd_key d \<in> set (map kd_key c)" using that sub by auto
      then show ?thesis unfolding g(5) by (auto simp: zero_key_def kd_key_def)
    qed
    have sum: "sum_list (kd_j d) = 0" if "d \<in> set ys" for d using zero [OF that] by (subst sum_list_nonneg_eq_0_iff) auto
    let ?s = "(nds ! v)\<lparr>ks_cand := h\<rparr>"
    have run: "GetCandidates K rec (int v) nds = Some (nds1[v := ?s])"
      using fresh len v g(1,2,4) ok n
      by (simp add: GetCandidates_def Let_def exact_kbest_def inv_below_def h_def ys_def n_def)
    have "base_inv H K v ?s"
      unfolding base_inv_def using sub g(6) dist_h set_h h(2) zero sum kept ds fresh k by (auto simp: kd_key_def)
    moreover have "inv_below H K v (nds1[v := ?s])" "same_from (Suc v) nds (nds1[v := ?s])" "v < length nds1"
      using g(2,3) v by (auto simp: inv_below_def same_from_def)
    ultimately show ?thesis using run fresh by (auto simp: ensures_Some expanded_def)
  qed
qed

section \<open>Taking the best candidate\<close>

text \<open>Derivations of the first tails of a derivation, with the yields found.\<close>

definition collecting :: "(('f, xreal logval, 't) kderiv list \<Rightarrow> bool) \<Rightarrow> ('f, xreal logval, xreal logval, 't, 'u) kbest \<Rightarrow> nat \<Rightarrow>
    ('f, xreal logval, 't, 'u) knodes \<Rightarrow> int \<times> int list \<Rightarrow> nat \<Rightarrow> ('f, xreal logval, 't, 'u) knodes \<times> 't list \<Rightarrow> bool" where
  "collecting H K v nds x n st \<longleftrightarrow> inv_below H K v (fst st) \<and> same_from v nds (fst st) \<and>
     (\<exists>ds. list_all2 (\<lambda>t d. derives (kb_hg K) (nat t) d) (take n (ed_tails (hg_edges (kb_hg K) ! nat (fst x)))) ds \<and>
        map (deriv_prob (edge_value (kb_hg K))) ds =
          map2 (\<lambda>t i. prob_list (kb_hg K) (nat t) ! nat i) (take n (ed_tails (hg_edges (kb_hg K) ! nat (fst x)))) (take n (snd x)) \<and>
        map (deriv_result (kb_traverse K) (kb_yield0 K) (kb_hg K)) ds = map Some (snd st))"

lemma ant_step_run:
  assumes ok: "exact_kbest H K" and rec: "rec_ok H K rec v" and v: "v < length (hg_nodes (kb_hg K))"
    and d: "kd_key d \<in> keys (kb_hg K) v" "sum_list (kd_j d) < kb_k_prime K"
    and n: "n < length (kd_j d)" and inv: "collecting H K v nds (kd_key d) n st"
  shows "ensures (ant_step rec (hg_edges (kb_hg K) ! nat (kd_edge d)) d (int n) st) (collecting H K v nds (kd_key d) (Suc n))"
proof -
  let ?hg = "kb_hg K"
  define e j where "e = kd_edge d" and "j = kd_j d"
  let ?ts = "ed_tails (hg_edges ?hg ! nat e)"
  have key: "(e, j) \<in> keys ?hg v" and d_key: "kd_key d = (e, j)" using d(1) by (simp_all add: kd_key_def e_def j_def)
  have e: "e \<in> set (nd_in (hg_nodes ?hg ! v))" and len: "length j = length ?ts" using keysD [OF key] by auto
  have n': "n < length j" "n < length ?ts" using n len by (simp_all add: j_def)
  obtain nds1 ants ds where st: "st = (nds1, ants)" "inv_below H K v nds1" "same_from v nds nds1"
    "list_all2 (\<lambda>t d. derives ?hg (nat t) d) (take n ?ts) ds"
    "map (deriv_prob (edge_value ?hg)) ds = map2 (\<lambda>t i. prob_list ?hg (nat t) ! nat i) (take n ?ts) (take n j)"
    "map (deriv_result (kb_traverse K) (kb_yield0 K) ?hg) ds = map Some ants"
    using inv by (cases st) (auto simp: collecting_def d_key)
  have ix: "index_ok ?hg (?ts ! n) (j ! n)" using key n' by (auto simp: keys_def list_all2_conv_all_nth)
  have "j ! n \<le> sum_list j" using elem_le_sum_list [of j "j ! n"] keys_nonneg [OF key] n' by simp
  then have small: "j ! n < kb_k_prime K" using d(2) by (simp add: j_def)
  obtain nds2 ant where r: "rec (?ts ! n) (j ! n) nds1 = Some (nds2, ant)" "inv_below H K v nds2" "same_from v nds1 nds2"
    "answers K (nat (?ts ! n)) (nat (j ! n)) ant"
    by (rule rec_okE [OF rec _ _ _ _ st(2), of "?ts ! n" "j ! n"])
      (use edge_of_node(3) [OF ok v e, of "?ts ! n"] n' ix small in \<open>auto simp: index_ok_def\<close>)
  moreover have "nat (j ! n) < length (prob_list ?hg (nat (?ts ! n)))" using ix unfolding index_ok_def by linarith
  ultimately obtain a where a: "ant = Some a" "good K (nat (?ts ! n)) (prob_list ?hg (nat (?ts ! n)) ! nat (j ! n)) a"
    by (auto simp: answers_def)
  then obtain \<tau> where t: "derives ?hg (nat (?ts ! n)) \<tau>" "deriv_prob (edge_value ?hg) \<tau> = prob_list ?hg (nat (?ts ! n)) ! nat (j ! n)"
    "deriv_result (kb_traverse K) (kb_yield0 K) ?hg \<tau> = Some (kd_yield a)"
    by (auto simp: good_def)
  have "ant_step rec (hg_edges ?hg ! nat (kd_edge d)) d (int n) st = Some (nds2, ants @ [kd_yield a])"
    using n' r(1) a(1) st(1) by (simp add: ant_step_def e_def [symmetric] j_def [symmetric])
  moreover have "collecting H K v nds (e, j) (Suc n) (nds2, ants @ [kd_yield a])"
    unfolding collecting_def fst_conv snd_conv
  proof (intro conjI exI)
    show "list_all2 (\<lambda>t d. derives ?hg (nat t) d) (take (Suc n) ?ts) (ds @ [\<tau>])"
      using st(4) t(1) n' by (simp add: take_Suc_conv_app_nth list_all2_appendI)
    show "map (deriv_prob (edge_value ?hg)) (ds @ [\<tau>]) = map2 (\<lambda>t i. prob_list ?hg (nat t) ! nat i) (take (Suc n) ?ts) (take (Suc n) j)"
      using st(5) t(2) n' by (simp add: take_Suc_conv_app_nth)
  qed (use r(2,3) st t in \<open>auto intro: same_from_trans\<close>)
  ultimately show ?thesis by (simp add: ensures_Some d_key)
qed

lemma collected_length:
  assumes "collecting H K v nds x n st"
  shows "length (snd st) = min (length (ed_tails (hg_edges (kb_hg K) ! nat (fst x)))) n"
proof -
  obtain ds where ds: "list_all2 (\<lambda>t d. derives (kb_hg K) (nat t) d) (take n (ed_tails (hg_edges (kb_hg K) ! nat (fst x)))) ds"
    "map (deriv_result (kb_traverse K) (kb_yield0 K) (kb_hg K)) ds = map Some (snd st)"
    using assms by (auto simp: collecting_def)
  have "length ds = length (snd st)" using ds(2) by (metis length_map)
  then show ?thesis using list_all2_lengthD [OF ds(1)] by simp
qed

text \<open>The derivation made of the antecedents' derivations.\<close>

lemma good_derivation:
  assumes ok: "exact_kbest H K" and v: "v < length (hg_nodes (kb_hg K))" and d: "scored K v d"
    and c: "collecting H K v nds (kd_key d) (length (kd_j d)) st"
    and y: "kb_traverse K (hg_edges (kb_hg K) ! nat (kd_edge d)) (snd st) (kb_yield0 K) = Some y"
  shows "good K v (key_prob (kb_hg K) (kd_key d)) (d\<lparr>kd_yield := y\<rparr>)"
proof -
  let ?hg = "kb_hg K"
  let ?ts = "ed_tails (hg_edges ?hg ! nat (kd_edge d))"
  have key: "(kd_edge d, kd_j d) \<in> keys ?hg v" using d by (simp add: scored_def kd_key_def)
  have e: "kd_edge d \<in> set (nd_in (hg_nodes ?hg ! v))" and len: "length (kd_j d) = length ?ts" using keysD [OF key] by auto
  obtain ds where ds: "list_all2 (\<lambda>t d. derives ?hg (nat t) d) ?ts ds"
    "map (deriv_prob (edge_value ?hg)) ds = map2 (\<lambda>t i. prob_list ?hg (nat t) ! nat i) ?ts (kd_j d)"
    "map (deriv_result (kb_traverse K) (kb_yield0 K) ?hg) ds = map Some (snd st)"
    using c len by (auto simp: collecting_def kd_key_def)
  have "those (map (deriv_result (kb_traverse K) (kb_yield0 K) ?hg) ds) = Some (snd st)"
    unfolding ds(3) using those_map [of "snd st" Some "\<lambda>x. x"] by simp
  then have "deriv_result (kb_traverse K) (kb_yield0 K) ?hg (Deriv (kd_edge d) ds) = Some y"
    using edge_of_node(1) [OF ok v e] y by simp
  moreover have "derives ?hg v (Deriv (kd_edge d) ds)" using v e ds(1) by (simp add: derives_Deriv)
  moreover have "deriv_prob (edge_value ?hg) (Deriv (kd_edge d) ds) = key_prob ?hg (kd_key d)"
    using ds(2) by (simp add: key_prob_def kd_key_def)
  ultimately show "good K v (key_prob ?hg (kd_key d)) (d\<lparr>kd_yield := y\<rparr>)"
    using d unfolding good_def scored_def by auto
qed

text \<open>The state after the best candidate has moved to \<open>D\<close>.\<close>

definition move_best :: "('f, 'p, 'w, 't, 'u) kbest \<Rightarrow> 't \<Rightarrow> 'u \<Rightarrow> ('f, 'w, 't, 'u) kstate \<Rightarrow> ('f, 'w, 't, 'u) kstate" where
  "move_best K y fs s = (let c = h_pop (kb_heap K) (HeapCompare K) (ks_cand s)
     in s\<lparr>ks_cand := butlast c, ks_filter := fs, ks_D := ks_D s @ [(last c)\<lparr>kd_yield := y\<rparr>]\<rparr>)"

lemma move_best_base:
  fixes K :: "('f, xreal logval, xreal logval, 't, 'u) kbest"
  assumes ok: "exact_kbest H K" and v: "v < length (hg_nodes (kb_hg K))" and base: "base_inv H K v s"
    and exp: "expanded K v s (length (ks_D s))" and short: "vsize (ks_D s) < kb_k_prime K" and ne: "ks_cand s \<noteq> []"
    and d: "d = last (h_pop (kb_heap K) (HeapCompare K) (ks_cand s))"
    and y: "good K v p (d\<lparr>kd_yield := y\<rparr>)"
  shows "d \<in> set (ks_cand s)" "base_inv H K v (move_best K y fs s)" "expanded K v (move_best K y fs s) (length (ks_D s))"
    "ks_D (move_best K y fs s) = ks_D s @ [d\<lparr>kd_yield := y\<rparr>]"
proof -
  note b = baseD [OF base]
  let ?c = "h_pop (kb_heap K) (HeapCompare K) (ks_cand s)"
  let ?s = "move_best K y fs s" and ?d = "d\<lparr>kd_yield := y\<rparr>" and ?p = "key_prob (kb_hg K)"
  have pop: "mset ?c = mset (ks_cand s)" "H (butlast ?c)" "\<And>x. x \<in> set (ks_cand s) \<Longrightarrow> lv_value (kd_score x) \<le> lv_value (kd_score d)"
    using heap_run(3) [OF ok, of "ks_cand s"] b(2,6) ne by (auto simp: scored_def d)
  have "?c \<noteq> []" using pop(1) ne by auto
  then have c: "?c = butlast ?c @ [d]" by (simp add: d)
  have set_c: "set (ks_cand s) = insert d (set (butlast ?c))"
    using pop(1) c by (metis set_mset_mset set_append list.set(1,2) Un_insert_right sup_bot_right)
  then show din: "d \<in> set (ks_cand s)" by blast
  have key: "kd_key ?d = kd_key d" "kd_j ?d = kd_j d" "kd_score ?d = kd_score d" by (simp_all add: kd_key_def)
  show D: "ks_D ?s = ks_D s @ [?d]" by (simp add: move_best_def Let_def d)
  have cand: "ks_cand ?s = butlast ?c" "ks_ds ?s = ks_ds s" by (simp_all add: move_best_def Let_def)
  have made: "made ?s = made s" unfolding D cand set_c using key by (auto simp: image_Un)
  have best: "?p (kd_key x) \<le> ?p (kd_key d)" if "x \<in> set (ks_cand s)" for x
    using pop(3) [OF that] b(2) [OF that] b(2) [OF din] by (simp add: scored_def)
  have bound: "?p x \<le> ?p (kd_key d)" if "x \<in> keys (kb_hg K) v - kd_key ` set (ks_D s)" for x
    using candidates_bound [OF ok v base exp short that] best by force
  have dkey: "kd_key d \<in> keys (kb_hg K) v - kd_key ` set (ks_D s)" using b(2) [OF din] b(5) din by (auto simp: scored_def)
  show "base_inv H K v ?s"
    unfolding base_inv_def made
  proof (intro conjI)
    show "\<forall>x \<in> set (ks_D ?s) \<union> set (ks_cand ?s). scored K v x"
      unfolding D cand using b(1,2) set_c key by (auto simp: scored_def)
    show "\<forall>x \<in> set (ks_cand ?s). kd_yield x = kb_yield0 K" unfolding cand using b(3) set_c by blast
    show "\<forall>x \<in> set (ks_D ?s). \<exists>p. good K v p x" unfolding D using b(4) y by auto
    show "distinct (map kd_key (ks_D ?s @ ks_cand ?s))"
    proof -
      have "mset (map kd_key (ks_D ?s @ ks_cand ?s)) = image_mset kd_key (mset (ks_D s)) + image_mset kd_key (mset (butlast ?c @ [d]))"
        unfolding D cand by (simp add: key)
      also have "\<dots> = mset (map kd_key (ks_D s @ ks_cand s))" using pop(1) c by simp
      finally show ?thesis using b(5) mset_eq_imp_distinct_iff by blast
    qed
    show "H (ks_cand ?s)" unfolding cand by (rule pop(2))
    show "ks_ds ?s = {x \<in> made s. \<exists>i \<in> set (snd x). i \<noteq> 0}" unfolding cand by (rule b(7))
    show "vsize (ks_D ?s) \<le> kb_k_prime K" unfolding D using short by simp
    show "\<forall>m < length (ks_D ?s). sum_list (kd_j (ks_D ?s ! m)) \<le> int m"
      unfolding D using b(9) b(10) [OF din] by (auto simp: nth_append key less_Suc_eq vsize_def)
    show "\<forall>x \<in> set (ks_cand ?s). sum_list (kd_j x) \<le> vsize (ks_D ?s)" unfolding D cand using b(10) set_c by force
    show "sorted_wrt (\<lambda>a b. ?p (kd_key b) \<le> ?p (kd_key a)) (ks_D ?s)"
      unfolding D using b(11) b(12) [OF dkey] by (simp add: sorted_wrt_append key)
    show "\<forall>x \<in> keys (kb_hg K) v - kd_key ` set (ks_D ?s). \<forall>z \<in> set (ks_D ?s). ?p x \<le> ?p (kd_key z)"
      unfolding D using b(12) bound by (auto simp: key)
    show "kept K v (made s)" by (rule b(13))
  qed
  have "ks_D ?s ! m = ks_D s ! m" if "m < length (ks_D s)" for m using that by (simp add: D nth_append)
  then show "expanded K v ?s (length (ks_D s))" using exp unfolding expanded_def made by simp
qed

lemma take_best_run:
  assumes ok: "exact_kbest H K" and rec: "rec_ok H K rec v" and v: "v < length (hg_nodes (kb_hg K))"
    and inv: "inv_below H K v nds" "base_inv H K v (nds ! v)" "expanded K v (nds ! v) (length (ks_D (nds ! v)))"
    and short: "vsize (ks_D (nds ! v)) < kb_k_prime K" and ne: "ks_cand (nds ! v) \<noteq> []"
  shows "ensures (take_best K rec (int v) (nds, b)) (\<lambda>(nds', added). added \<and> inv_below H K v nds' \<and> same_from (Suc v) nds nds' \<and>
    base_inv H K v (nds' ! v) \<and> length (ks_D (nds' ! v)) = Suc (length (ks_D (nds ! v))) \<and>
    expanded K v (nds' ! v) (length (ks_D (nds ! v))))"
proof -
  let ?hg = "kb_hg K" and ?s = "nds ! v"
  let ?c = "h_pop (kb_heap K) (HeapCompare K) (ks_cand ?s)"
  define d where "d = last ?c"
  note b = baseD [OF inv(2)]
  have pop: "mset ?c = mset (ks_cand ?s)"
    using heap_run(3) [OF ok, of "ks_cand ?s"] b(2,6) ne by (auto simp: scored_def)
  have c: "?c \<noteq> []" using pop ne by auto
  have din: "d \<in> set (ks_cand ?s)" unfolding d_def using c pop by (metis last_in_set set_mset_mset)
  have d: "scored K v d" "kd_yield d = kb_yield0 K" "sum_list (kd_j d) < kb_k_prime K"
    using b(2,3) [OF din] b(10) [OF din] short by simp_all
  have key: "kd_key d \<in> keys ?hg v" using d(1) by (simp add: scored_def)
  have e: "kd_edge d \<in> set (nd_in (hg_nodes ?hg ! v))" and len: "length (kd_j d) = length (ed_tails (hg_edges ?hg ! nat (kd_edge d)))"
    using keysD [of "kd_edge d" "kd_j d"] key by (auto simp: kd_key_def)
  let ?ed = "hg_edges ?hg ! nat (kd_edge d)"
  let ?nds = "nds[v := ?s\<lparr>ks_cand := butlast ?c\<rparr>]"
  have lenv: "v < length nds" using inv(1) v by (simp add: inv_below_def)
  have "ensures (for_each (positions (ed_tails ?ed)) (ant_step rec ?ed d) (?nds, [])) (collecting H K v ?nds (kd_key d) (length (kd_j d)))"
  proof (rule ensures_for_range [where I = "\<lambda>i. collecting H K v ?nds (kd_key d) (nat i)"])
    show "collecting H K v ?nds (kd_key d) (nat 0) (?nds, [])" using inv(1) by (auto simp: collecting_def inv_below_def)
  next
    fix i st assume i: "0 \<le> i" "i < vsize (ed_tails ?ed)" and I: "collecting H K v ?nds (kd_key d) (nat i) st"
    have "ensures (ant_step rec ?ed d (int (nat i)) st) (collecting H K v ?nds (kd_key d) (Suc (nat i)))"
      by (rule ant_step_run [OF ok rec v key d(3) _ I]) (use i len in \<open>simp add: vsize_def\<close>)
    then show "ensures (ant_step rec ?ed d i st) (collecting H K v ?nds (kd_key d) (nat (i + 1)))"
      using i by (simp add: nat_add_distrib)
  qed (auto simp: vsize_def len)
  then obtain nds1 ants where col: "for_each (positions (ed_tails ?ed)) (ant_step rec ?ed d) (?nds, []) = Some (nds1, ants)"
    "collecting H K v ?nds (kd_key d) (length (kd_j d)) (nds1, ants)"
    by (auto simp: ensures_def)
  have n1: "inv_below H K v nds1" "same_from v ?nds nds1" using col(2) by (auto simp: collecting_def)
  have nd1: "nds1 ! v = ?s\<lparr>ks_cand := butlast ?c\<rparr>" "v < length nds1" "same_from (Suc v) nds nds1"
    using n1 lenv v by (auto simp: same_from_def inv_below_def)
  have "length ants = length (ed_tails ?ed)" using collected_length [OF col(2)] len by (simp add: kd_key_def)
  then obtain y where y: "kb_traverse K ?ed ants (kb_yield0 K) = Some y"
    using ok [unfolded exact_kbest_def] edge_of_node(2) [OF ok v e] by blast
  note gd = good_derivation(1) [OF ok v d(1) col(2), unfolded snd_conv, OF y]
  define fs where "fs = snd (kb_filter K y (ks_filter ?s))"
  have filt: "kb_filter K y (ks_filter ?s) = (False, fs)" using ok by (auto simp: exact_kbest_def fs_def prod_eq_iff)
  note move = move_best_base(2-4) [OF ok v inv(2,3) short ne d_def gd, where fs = fs]
  let ?r = "nds1[v := move_best K y fs ?s]"
  have "take_best K rec (int v) (nds, b) = Some (?r, True)"
    using lenv c edge_of_node(1) [OF ok v e] col(1) y d(2) nd1 filt
    by (simp add: take_best_def Let_def vback_def d_def [symmetric] move_best_def)
  moreover have "inv_below H K v ?r" "same_from (Suc v) nds ?r" using n1(1) nd1(3) by (auto simp: inv_below_def same_from_def)
  ultimately show ?thesis using move nd1(2) by (simp add: ensures_Some)
qed

section \<open>The best derivations in order\<close>

text \<open>What holds between two turns of the outer loop: the flag tells whether a derivation was added.\<close>

definition outer_inv :: "(('f, xreal logval, 't) kderiv list \<Rightarrow> bool) \<Rightarrow> ('f, xreal logval, xreal logval, 't, 'u) kbest \<Rightarrow> nat \<Rightarrow>
    ('f, xreal logval, 't, 'u) knodes \<Rightarrow> ('f, xreal logval, 't, 'u) knodes \<times> bool \<times> bool \<Rightarrow> bool" where
  "outer_inv H K v nds st \<longleftrightarrow> (case st of (nds', added, go) \<Rightarrow> inv_below H K v nds' \<and> same_from (Suc v) nds nds' \<and> added = go \<and>
     base_inv H K v (nds' ! v) \<and> expanded K v (nds' ! v) (length (ks_D (nds' ! v)) - 1) \<and>
     (\<not> go \<longrightarrow> keys (kb_hg K) v \<subseteq> kd_key ` set (ks_D (nds' ! v))))"

lemma same_from_Suc: "same_from v a b \<Longrightarrow> same_from (Suc v) a b"
  by (simp add: same_from_def)

lemma extend_D_run:
  assumes ok: "exact_kbest H K" and rec: "rec_ok H K rec v" and v: "v < length (hg_nodes (kb_hg K))"
    and k: "0 \<le> k" "k < kb_k_prime K" and inv: "outer_inv H K v nds st" and short: "D_short (int v) k st"
  shows "ensures (extend_D K rec (int v) st) (\<lambda>st'. outer_inv H K v nds st' \<and>
    (case st' of (nds', _, go') \<Rightarrow> go' \<longrightarrow> length (ks_D (nds' ! v)) = Suc (length (ks_D (fst st ! v)))))"
proof -
  obtain nds1 where st: "st = (nds1, True, True)" "inv_below H K v nds1" "same_from (Suc v) nds nds1" "base_inv H K v (nds1 ! v)"
    "expanded K v (nds1 ! v) (length (ks_D (nds1 ! v)) - 1)"
    using inv short by (cases st) (auto simp: outer_inv_def D_short_def)
  have len: "v < length nds1" using st(2) v by (simp add: inv_below_def)
  have few: "vsize (ks_D (nds1 ! v)) < kb_k_prime K" using short k len by (simp add: D_short_def st(1))
  let ?next = "if True \<and> ks_D (nds1 ! v) \<noteq> [] then LazyNext K rec (int v) (last (ks_D (nds1 ! v))) nds1 else Some nds1"
  have "ensures ?next (\<lambda>nds'. inv_below H K v nds' \<and> same_from (Suc v) nds1 nds' \<and>
    base_inv H K v (nds' ! v) \<and> ks_D (nds' ! v) = ks_D (nds1 ! v) \<and> expanded K v (nds' ! v) (length (ks_D (nds' ! v))))"
  proof (cases "ks_D (nds1 ! v) = []")
    case True
    then show ?thesis using st by (simp add: ensures_Some expanded_def)
  next
    case False
    then show ?thesis using LazyNext_run [OF ok rec v st(2,4,5) False few] by simp
  qed
  then obtain nds2 where n2: "?next = Some nds2" "inv_below H K v nds2" "same_from (Suc v) nds1 nds2" "base_inv H K v (nds2 ! v)"
    "ks_D (nds2 ! v) = ks_D (nds1 ! v)" "expanded K v (nds2 ! v) (length (ks_D (nds2 ! v)))"
    by (rule ensuresE) blast
  have len2: "v < length nds2" using n2(2) v by (simp add: inv_below_def)
  have run: "extend_D K rec (int v) st = map_option (\<lambda>(nds, add_next). (nds, add_next, add_next))
      (loop_while (cand_left (int v)) (take_best K rec (int v)) (nds2, False))"
    using len n2(1) by (simp add: extend_D_def st(1) map_option_case split: option.split)
  show ?thesis
  proof (cases "ks_cand (nds2 ! v) = []")
    case True
    then have "\<not> cand_left (int v) (nds2, False)" using len2 by (simp add: cand_left_def)
    then have "extend_D K rec (int v) st = Some (nds2, False, False)" unfolding run by (subst loop_while.simps) simp
    moreover have "keys (kb_hg K) v \<subseteq> kd_key ` set (ks_D (nds2 ! v))"
      using candidates_bound [OF ok v n2(4,6)] few n2(5) True by fastforce
    moreover have "expanded K v (nds2 ! v) (length (ks_D (nds2 ! v)) - 1)" using n2(6) by (auto simp: expanded_def)
    ultimately show ?thesis using n2 same_from_trans [OF st(3) n2(3)] by (simp add: ensures_Some outer_inv_def)
  next
    case False
    have "ensures (take_best K rec (int v) (nds2, False)) (\<lambda>(nds', added). added \<and> inv_below H K v nds' \<and> same_from (Suc v) nds2 nds' \<and>
        base_inv H K v (nds' ! v) \<and> length (ks_D (nds' ! v)) = Suc (length (ks_D (nds2 ! v))) \<and>
        expanded K v (nds' ! v) (length (ks_D (nds2 ! v))))"
      by (rule take_best_run [OF ok rec v n2(2,4,6)]) (use few n2(5) False in simp_all)
    then obtain nds3 where n3: "take_best K rec (int v) (nds2, False) = Some (nds3, True)" "inv_below H K v nds3" "same_from (Suc v) nds2 nds3"
      "base_inv H K v (nds3 ! v)" "length (ks_D (nds3 ! v)) = Suc (length (ks_D (nds2 ! v)))" "expanded K v (nds3 ! v) (length (ks_D (nds2 ! v)))"
      by (rule ensuresE) auto
    have "cand_left (int v) (nds2, False)" "\<not> cand_left (int v) (nds3, True)" using len2 False by (simp_all add: cand_left_def)
    then have "extend_D K rec (int v) st = Some (nds3, True, True)"
      unfolding run loop_while.simps [of "cand_left (int v)" _ "(nds2, False)"] loop_while.simps [of "cand_left (int v)" _ "(nds3, True)"]
      by (simp add: n3(1) loop_while.simps [of "cand_left (int v)" _ "(nds3, True)"])
    then show ?thesis
      using n2(5) n3 same_from_trans [OF st(3) same_from_trans [OF n2(3) n3(3)]] by (simp add: ensures_Some outer_inv_def st(1))
  qed
qed

text \<open>The derivations found are the first of the node.\<close>

lemma found_first:
  assumes ok: "exact_kbest H K" and v: "v < length (hg_nodes (kb_hg K))" and base: "base_inv H K v s"
  shows "m < length (ks_D s) \<Longrightarrow> m < length (prob_list (kb_hg K) v) \<and> good K v (prob_list (kb_hg K) v ! m) (ks_D s ! m)"
    "keys (kb_hg K) v \<subseteq> kd_key ` set (ks_D s) \<Longrightarrow> length (prob_list (kb_hg K) v) = length (ks_D s)"
proof -
  let ?hg = "kb_hg K" and ?ks = "map kd_key (ks_D s)"
  note b = baseD [OF base]
  note dist = exact_kbestD(5) [OF ok v]
  have ks: "distinct ?ks" "set ?ks \<subseteq> keys ?hg v" "sorted_wrt (\<lambda>x y. key_prob ?hg y \<le> key_prob ?hg x) ?ks"
    "\<forall>x \<in> keys ?hg v - set ?ks. \<forall>y \<in> set ?ks. key_prob ?hg x \<le> key_prob ?hg y"
    using b(1,5,11,12) by (auto simp: scored_def sorted_wrt_map)
  note take = best_keys_take [OF exact_kbestD(1) [OF ok] v dist ks]
  show "m < length (prob_list ?hg v) \<and> good K v (prob_list ?hg v ! m) (ks_D s ! m)" if m: "m < length (ks_D s)"
  proof -
    have "key_prob ?hg (kd_key (ks_D s ! m)) = take (length ?ks) (prob_list ?hg v) ! m"
      unfolding take(1) [symmetric] using m by simp
    then have "lv_value (kd_score (ks_D s ! m)) = prob_list ?hg v ! m"
      using b(1) [of "ks_D s ! m"] m by (simp add: scored_def)
    moreover obtain p where "good K v p (ks_D s ! m)" using b(4) [of "ks_D s ! m"] m by auto
    ultimately show ?thesis using take(2) m by (auto simp: good_def)
  qed
  show "length (prob_list ?hg v) = length (ks_D s)" if "keys ?hg v \<subseteq> kd_key ` set (ks_D s)"
  proof -
    have "set ?ks = set (key_list ?hg v)" using that ks(2) set_key_list [of ?hg v] by auto
    then have "length ?ks = length (key_list ?hg v)"
      using distinct_card [OF ks(1)] distinct_card [OF distinct_key_list [OF dist]] by simp
    then show ?thesis using arg_cong [OF mset_key_list [OF exact_kbestD(1) [OF ok] v], of size] by simp
  qed
qed

lemma kth_best_run:
  assumes ok: "exact_kbest H K" and rec: "rec_ok H K rec v" and v: "v < length (hg_nodes (kb_hg K))"
    and k: "0 \<le> k" "k < kb_k_prime K" and inv: "inv_below H K (Suc v) nds"
  shows "ensures (kth_best K rec (int v) k nds) (\<lambda>(nds', r). inv_below H K (Suc v) nds' \<and> same_from (Suc v) nds nds' \<and> answers K v (nat k) r)"
proof -
  have "0 < kb_k_prime K" using k by simp
  from GetCandidates_run [OF ok rec v this inv]
  obtain nds1 where n1: "GetCandidates K rec (int v) nds = Some nds1" "outer_inv H K v nds (nds1, True, True)"
    by (rule ensuresE) (auto simp: outer_inv_def)
  have "ensures (loop_while (D_short (int v) k) (extend_D K rec (int v)) (nds1, True, True)) (\<lambda>st. outer_inv H K v nds st \<and> \<not> D_short (int v) k st)"
  proof (rule loop_while_total [where m = "\<lambda>(nds', _, go). if go then Suc (nat (k + 1) - length (ks_D (nds' ! v))) else 0"])
    fix st assume st: "outer_inv H K v nds st" "D_short (int v) k st"
    obtain nds2 where st2: "st = (nds2, True, True)" "v < length nds2" "vsize (ks_D (nds2 ! v)) \<le> k"
      using st v by (cases st) (auto simp: outer_inv_def D_short_def inv_below_def split: option.splits)
    show "ensures (extend_D K rec (int v) st) (\<lambda>st'. outer_inv H K v nds st' \<and>
        (case st' of (nds', _, go) \<Rightarrow> if go then Suc (nat (k + 1) - length (ks_D (nds' ! v))) else 0) <
        (case st of (nds', _, go) \<Rightarrow> if go then Suc (nat (k + 1) - length (ks_D (nds' ! v))) else 0))"
      by (rule ensures_mono [OF extend_D_run [OF ok rec v k st]]) (use st2(3) in \<open>auto simp: st2(1) vsize_def split: prod.splits\<close>)
  qed (rule n1(2))
  then obtain nds2 added go where n2: "loop_while (D_short (int v) k) (extend_D K rec (int v)) (nds1, True, True) = Some (nds2, added, go)"
    "outer_inv H K v nds (nds2, added, go)" "\<not> D_short (int v) k (nds2, added, go)"
    by (auto simp: ensures_def)
  have o: "inv_below H K v nds2" "same_from (Suc v) nds nds2" "base_inv H K v (nds2 ! v)" "expanded K v (nds2 ! v) (length (ks_D (nds2 ! v)) - 1)"
    "\<not> go \<Longrightarrow> keys (kb_hg K) v \<subseteq> kd_key ` set (ks_D (nds2 ! v))"
    using n2(2) by (auto simp: outer_inv_def)
  have len: "v < length nds2" using o(1) v by (simp add: inv_below_def)
  have "k < vsize (ks_D (nds2 ! v)) \<or> keys (kb_hg K) v \<subseteq> kd_key ` set (ks_D (nds2 ! v))"
    using n2(3) o(5) len by (auto simp: D_short_def)
  moreover note first = found_first [OF ok v o(3)]
  ultimately have "answers K v (nat k) (if k < vsize (ks_D (nds2 ! v)) then vat (ks_D (nds2 ! v)) k else None)"
    using first(1) [of "nat k"] first(2) k(1) by (cases "k < vsize (ks_D (nds2 ! v))") (auto simp: answers_def vsize_def vat_def nat_less_iff)
  moreover have "kth_best K rec (int v) k nds = Some (nds2, if k < vsize (ks_D (nds2 ! v)) then vat (ks_D (nds2 ! v)) k else None)"
    using n1(1) n2(1) len by (simp add: kth_best_def)
  moreover have "inv_below H K (Suc v) nds2" using o by (auto simp: inv_below_def node_inv_def less_Suc_eq)
  ultimately show ?thesis using o(2) by (simp add: ensures_Some)
qed

lemma kth_best_upto_ok:
  assumes ok: "exact_kbest H K"
  shows "v \<le> n \<Longrightarrow> v \<le> length (hg_nodes (kb_hg K)) \<Longrightarrow> rec_ok H K (kth_best_upto K n) v"
proof (induction n arbitrary: v)
  case (Suc n)
  show ?case
    unfolding rec_ok_def
  proof (intro allI impI)
    fix t i nds assume t: "0 \<le> t" "t < int v" and i: "0 \<le> i" "i < kb_k_prime K" and inv: "inv_below H K v nds"
    define u where "u = nat t"
    have u: "t = int u" "u < v" "u < length (hg_nodes (kb_hg K))" "u \<le> n" using t Suc.prems by (auto simp: u_def)
    have "rec_ok H K (kth_best_upto K n) u" using Suc.IH u by simp
    moreover have "inv_below H K (Suc u) nds" using inv u(2) by (auto simp: inv_below_def)
    ultimately have "ensures (kth_best_upto K (Suc n) t i nds) (\<lambda>(nds', r). inv_below H K (Suc u) nds' \<and> same_from (Suc u) nds nds' \<and> answers K u (nat i) r)"
      using kth_best_run [OF ok _ u(3) i] by (simp add: u(1))
    then show "ensures (kth_best_upto K (Suc n) t i nds) (\<lambda>(nds', r). inv_below H K v nds' \<and> same_from v nds nds' \<and> answers K (nat t) (nat i) r)"
    proof (rule ensures_mono)
      fix x assume x: "case x of (nds', r) \<Rightarrow> inv_below H K (Suc u) nds' \<and> same_from (Suc u) nds nds' \<and> answers K u (nat i) r"
      obtain nds' r where x': "x = (nds', r)" "inv_below H K (Suc u) nds'" "same_from (Suc u) nds nds'" "answers K u (nat i) r"
        using x by (cases x) auto
      have "node_inv H K w (nds' ! w)" if "w < v" for w
        using x'(2,3) inv that unfolding inv_below_def same_from_def by (metis Suc_leI not_less_eq_eq not_le)
      moreover have "same_from v nds nds'" using x'(3) u(2) by (simp add: same_from_def)
      ultimately show "case x of (nds', r) \<Rightarrow> inv_below H K v nds' \<and> same_from v nds nds' \<and> answers K (nat t) (nat i) r"
        using x' u(1) by (simp add: inv_below_def)
    qed
  qed
qed (simp add: rec_ok_def)

lemma kbest_list_first:
  assumes ok: "exact_kbest H K" and ne: "hg_nodes (kb_hg K) \<noteq> []" and k: "0 \<le> k" "k \<le> kb_k_prime K"
  shows "\<exists>ds. kbest_list K k = Some ds \<and>
    map (\<lambda>d. lv_value (kd_score d)) ds =
      take (nat k) (rev (sort (map (deriv_prob (edge_value (kb_hg K))) (derivs (kb_hg K) (nat (GoalNode (kb_hg K))))))) \<and>
    (\<forall>d \<in> set ds. \<exists>\<tau>. derives (kb_hg K) (nat (GoalNode (kb_hg K))) \<tau> \<and> deriv_prob (edge_value (kb_hg K)) \<tau> = lv_value (kd_score d) \<and>
       deriv_result (kb_traverse K) (kb_yield0 K) (kb_hg K) \<tau> = Some (kd_yield d))"
proof -
  let ?hg = "kb_hg K"
  define N where "N = length (hg_nodes ?hg)"
  define g where "g = N - 1"
  have g: "vsize (hg_nodes ?hg) - 1 = int g" "g < N" using ne by (cases "hg_nodes ?hg", auto simp: g_def N_def vsize_def)
  have goal: "nat (GoalNode ?hg) = g" using g(1) by (simp add: GoalNode_def)
  let ?ps = "prob_list ?hg g"
  have rec: "rec_ok H K (LazyKthBest K) N" unfolding LazyKthBest_def N_def by (rule kth_best_upto_ok [OF ok]) simp_all
  have start: "inv_below H K N (KBestDerivations K)" by (simp add: inv_below_def KBestDerivations_def N_def node_inv_def)
  let ?body = "\<lambda>i (nds, cs). do {
     (nds, d) \<leftarrow> LazyKthBest K (vsize (hg_nodes ?hg) - 1) i nds;
     Some (case d of None \<Rightarrow> ((nds, cs), False) | Some d \<Rightarrow> ((nds, cs @ [d]), True)) }"
  let ?I = "\<lambda>i (nds, cs). inv_below H K N nds \<and> length cs = nat i \<and> nat i \<le> length ?ps \<and> (\<forall>m < length cs. good K g (?ps ! m) (cs ! m))"
  let ?P = "\<lambda>(nds, cs). length cs = min (nat k) (length ?ps) \<and> (\<forall>m < length cs. good K g (?ps ! m) (cs ! m))"
  have "ensures (for_break (int_range 0 k) ?body (KBestDerivations K, [])) ?P"
  proof (rule ensures_break_range [where I = ?I])
    fix i st assume i: "0 \<le> i" "i < k" and I: "?I i st"
    obtain nds cs where st: "st = (nds, cs)" "inv_below H K N nds" "length cs = nat i" "nat i \<le> length ?ps"
      "\<And>m. m < length cs \<Longrightarrow> good K g (?ps ! m) (cs ! m)" using I by (cases st) auto
    obtain nds' r where r: "LazyKthBest K (int g) i nds = Some (nds', r)" "inv_below H K N nds'" "answers K g (nat i) r"
      by (rule rec_okE [OF rec _ _ i(1) _ st(2), of "int g"]) (use g(2) i k in auto)
    show "ensures (?body i st) (\<lambda>(s', go). if go then ?I (i + 1) s' else ?P s')"
    proof (cases "nat i < length ?ps")
      case True
      then obtain a where a: "r = Some a" "good K g (?ps ! nat i) a" using r(3) by (auto simp: answers_def)
      then show ?thesis using st r(1,2) g(1) i True by (auto simp: ensures_Some nth_append less_Suc_eq nat_add_distrib)
    next
      case False
      then have "r = None" using r(3) by (simp add: answers_def)
      then show ?thesis using st r(1) g(1) i False by (auto simp: ensures_Some)
    qed
  next
    show "?P t" if "?I k t" for t using that by auto
  qed (use start k in auto)
  then obtain nds ds where run: "for_break (int_range 0 k) ?body (KBestDerivations K, []) = Some (nds, ds)"
    "length ds = min (nat k) (length ?ps)" "\<And>m. m < length ds \<Longrightarrow> good K g (?ps ! m) (ds ! m)"
    by (auto simp: ensures_def)
  have "kbest_list K k = Some ds" by (simp add: kbest_list_def run(1))
  moreover have "map (\<lambda>d. lv_value (kd_score d)) ds = take (nat k) ?ps"
    using run(2,3) by (intro nth_equalityI) (auto simp: good_def)
  moreover have "\<exists>\<tau>. derives ?hg g \<tau> \<and> deriv_prob (edge_value ?hg) \<tau> = lv_value (kd_score d) \<and>
       deriv_result (kb_traverse K) (kb_yield0 K) ?hg \<tau> = Some (kd_yield d)" if "d \<in> set ds" for d
    using that run(3) by (fastforce simp: in_set_conv_nth good_def)
  ultimately show ?thesis unfolding goal prob_list_def by blast
qed

text \<open>
  C15. The lazy enumeration is complete and in order: over a graph of probabilities in topological order whose nodes
  all have in-edges, with the defaults of \<open>KBestDerivations\<close>, the list built by \<open>CandidateSet::AddKBestCandidates\<close> has the first \<open>k\<close> derivations of
  the goal, or all when there are fewer: their scores are the \<open>k\<close> greatest probabilities of derivations of the goal,
  greatest first, and each comes with the yield of a derivation of that probability.
\<close>

theorem kbest_list_best:
  assumes "prob_graph hg" "\<forall>n \<in> set (hg_nodes hg). nd_in n \<noteq> []" "hg_nodes hg \<noteq> []" "score_heap_laws H heap" "0 \<le> k"
    and "\<And>e ants. e \<in> set (hg_edges hg) \<Longrightarrow> length ants = length (ed_tails e) \<Longrightarrow> \<exists>y. traverse e ants yield0 = Some y"
  shows "\<exists>ds. kbest_list (default_kbest exact_reals add_feats heap traverse yield0 hg k) k = Some ds \<and>
    map (\<lambda>d. lv_value (kd_score d)) ds =
      take (nat k) (rev (sort (map (deriv_prob (edge_value hg)) (derivs hg (nat (GoalNode hg)))))) \<and>
    (\<forall>d \<in> set ds. \<exists>\<tau>. derives hg (nat (GoalNode hg)) \<tau> \<and> deriv_prob (edge_value hg) \<tau> = lv_value (kd_score d) \<and>
       deriv_result traverse yield0 hg \<tau> = Some (kd_yield d))"
proof -
  let ?K = "default_kbest exact_reals add_feats heap traverse yield0 hg k"
  have "HeapCompare ?K = (\<lambda>a b. lv_less exact_reals (kd_score a) (kd_score b))"
    "DerivationCompare ?K = (\<lambda>a b. lv_greater exact_reals (kd_score a) (kd_score b))"
    by (auto simp: HeapCompare_def [abs_def] DerivationCompare_def [abs_def] default_kbest_def)
  then have "exact_kbest H ?K"
    using assms by (simp add: exact_kbest_def default_kbest_def score_heap_laws_def NoFilter_def)
  from kbest_list_first [OF this _ assms(5)] assms(3) show ?thesis by (simp add: default_kbest_def)
qed

text \<open>Sorted lists serve as heaps.\<close>

definition list_heap :: "('f, xreal logval, 't) kderiv heap_ops" where
  "list_heap = (let by_score = \<lambda>xs. rev (sort_key (\<lambda>d. lv_value (kd_score d)) xs)
     in \<lparr>h_make = \<lambda>lt xs. by_score xs, h_push = \<lambda>lt xs. by_score xs, h_pop = \<lambda>lt xs. tl xs @ [hd xs], h_nth_element = \<lambda>lt k xs. by_score xs\<rparr>)"

lemma list_heap_laws: "score_heap_laws (\<lambda>xs. sorted_wrt (\<ge>) (map (\<lambda>d. lv_value (kd_score d)) xs)) list_heap"
proof -
  let ?v = "\<lambda>d. lv_value (kd_score d)"
  have sorted: "sorted_wrt (\<ge>) (map ?v (rev (sort_key ?v xs)))" for xs :: "('f, xreal logval, 't) kderiv list"
    using sorted_sort_key [of ?v xs] by (simp add: rev_map [symmetric] sorted_wrt_rev)
  have best: "?v y \<le> ?v x" if "x \<in> set (take n (rev (sort_key ?v xs)))" "y \<in> set (drop n (rev (sort_key ?v xs)))"
    for x y n and xs :: "('f, xreal logval, 't) kderiv list"
  proof -
    have "sorted_wrt (\<ge>) (map ?v (take n (rev (sort_key ?v xs))) @ map ?v (drop n (rev (sort_key ?v xs))))"
      using sorted [of xs] by (metis append_take_drop_id map_append)
    then show ?thesis using that by (simp add: sorted_wrt_append)
  qed
  show ?thesis
    unfolding score_heap_laws_def heap_laws_def list_heap_def Let_def heap_ops.simps
  proof (intro conjI allI impI ballI)
    fix xs :: "('f, xreal logval, 't) kderiv list" and x
    assume p: "\<forall>x \<in> set xs. lv_prob (kd_score x)" "sorted_wrt (\<ge>) (map ?v xs)" "xs \<noteq> []"
    show "mset (tl xs @ [hd xs]) = mset xs" using p(3) by (cases xs) auto
    show "sorted_wrt (\<ge>) (map ?v (butlast (tl xs @ [hd xs])))" using p(2,3) by (cases xs) auto
    assume "x \<in> set xs"
    then have "?v x \<le> ?v (hd xs)" using p(2,3) by (cases xs) auto
    then show "\<not> lv_less exact_reals (kd_score (last (tl xs @ [hd xs]))) (kd_score x)"
      using p(1,3) \<open>x \<in> set xs\<close> by (simp add: lv_prob_less)
  next
    fix xs :: "('f, xreal logval, 't) kderiv list" and k x y
    assume p: "\<forall>x \<in> set xs. lv_prob (kd_score x)" and xy: "x \<in> set (take (nat k) (rev (sort_key ?v xs)))" "y \<in> set (drop (nat k) (rev (sort_key ?v xs)))"
    have "x \<in> set xs" "y \<in> set xs" using in_set_takeD [OF xy(1)] in_set_dropD [OF xy(2)] by simp_all
    moreover have "?v y \<le> ?v x" by (rule best [OF xy])
    ultimately show "\<not> lv_greater exact_reals (kd_score y) (kd_score x)" using p by (simp add: lv_prob_greater)
  qed (simp_all only: sorted mset_rev mset_sort)
qed

lemma kbest_list_best_witness:
  "\<exists>ds. kbest_list (default_kbest exact_reals (+) list_heap PathLengthTraversal 0
      (demo_hg (LogVal_double exact_reals (Fin (1 / 4))) (lv_One exact_reals) (LogVal_double exact_reals (Fin (1 / 2)))) 5) 5 = Some ds \<and>
    map (\<lambda>d. lv_value (kd_score d)) ds = [1 / 2, 1 / 8]"
proof -
  let ?hg = "demo_hg (LogVal_double exact_reals (Fin (1 / 4))) (lv_One exact_reals) (LogVal_double exact_reals (Fin (1 / 2)))"
  have p: "lv_prob (LogVal_double exact_reals (Fin r))" if "0 < r" for r using that by (simp add: lv_prob_def LogVal_double_def lv_ok_def)
  have v: "edge_value ?hg 0 = 1 / 4" "edge_value ?hg 1 = 1" "edge_value ?hg 2 = 1 / 2"
    by (simp_all add: edge_value_def demo_hg_def demo_edge_def lv_prob_simps LogVal_double_value)
  have pg: "prob_graph ?hg"
    using demo_hg_simps p by (auto simp: prob_graph_def) (auto simp: demo_hg_def demo_edge_def lv_prob_simps p)
  have "\<forall>n \<in> set (hg_nodes ?hg). nd_in n \<noteq> []" by (simp add: demo_hg_def)
  note best = kbest_list_best [OF pg this demo_hg_simps(3) list_heap_laws, of 5 PathLengthTraversal 0 "(+)"]
  have "nat (GoalNode ?hg) = Suc 0" by (simp add: GoalNode_def demo_hg_def)
  then show ?thesis using best v demo_hg_derivs(2) [of "LogVal_double exact_reals (Fin (1 / 4))"] by (auto simp: PathLengthTraversal_def)
qed

end
