(* ===== verification/InputLattice.thy ===== *)
theory InputLattice
  imports Prelude
begin

text \<open>
  The input of the decoder: \<open>Array2D\<close> (\<open>utils/array2d.h\<close>) and \<open>Lattice\<close> (\<open>decoder/lattice\<close>), a vector of the arcs
  that leave each position. Costs are of a type \<open>'d\<close>. The parsing of PLF text is left out.
\<close>

section \<open>Arrays of two dimensions\<close>

record 'a array2d =
  ar_width :: int
  ar_height :: int
  ar_data :: "'a list"

definition Array2D_empty :: "'a array2d" where
  "Array2D_empty = \<lparr>ar_width = 0, ar_height = 0, ar_data = []\<rparr>"

definition Array2D :: "int \<Rightarrow> int \<Rightarrow> 'a \<Rightarrow> 'a array2d" where
  "Array2D w h d = \<lparr>ar_width = w, ar_height = h, ar_data = replicate (nat (w * h)) d\<rparr>"

definition resize2d :: "int \<Rightarrow> int \<Rightarrow> 'a \<Rightarrow> 'a array2d \<Rightarrow> 'a array2d" where
  "resize2d w h d a = \<lparr>ar_width = w, ar_height = h,
     ar_data = take (nat (w * h)) (ar_data a) @ replicate (nat (w * h) - length (ar_data a)) d\<rparr>"

definition offset2d :: "'a array2d \<Rightarrow> int \<Rightarrow> int \<Rightarrow> int option" where
  "offset2d a i j = do {
     check (0 \<le> i \<and> i < ar_width a);
     check (0 \<le> j \<and> j < ar_height a);
     Some (i + j * ar_width a) }"

definition at2d :: "'a array2d \<Rightarrow> int \<Rightarrow> int \<Rightarrow> 'a option" where
  "at2d a i j = do { o1 \<leftarrow> offset2d a i j; vat (ar_data a) o1 }"

definition set2d :: "'a array2d \<Rightarrow> int \<Rightarrow> int \<Rightarrow> 'a \<Rightarrow> 'a array2d option" where
  "set2d a i j x = do { o1 \<leftarrow> offset2d a i j; xs \<leftarrow> vset (ar_data a) o1 x; Some (a\<lparr>ar_data := xs\<rparr>) }"

text \<open>An array as a function on its positions.\<close>

definition array_ok :: "int \<Rightarrow> int \<Rightarrow> 'a array2d \<Rightarrow> bool" where
  "array_ok w h a \<longleftrightarrow> ar_width a = w \<and> ar_height a = h \<and> 0 \<le> w \<and> 0 \<le> h \<and> vsize (ar_data a) = w * h"

definition val2d :: "'a array2d \<Rightarrow> int \<Rightarrow> int \<Rightarrow> 'a" where
  "val2d a i j = ar_data a ! nat (i + j * ar_width a)"

named_theorems array_simps \<open>reading and writing arrays in range\<close>

lemma offset_range:
  assumes "0 \<le> i" "i < w" "0 \<le> j" "j < (h :: int)"
  shows "0 \<le> i + j * w \<and> i + j * w < w * h"
proof
  show "0 \<le> i + j * w" using assms by simp
  have "i + j * w < w + j * w" using assms by simp
  also have "\<dots> = (j + 1) * w" by (simp add: algebra_simps)
  also have "\<dots> \<le> h * w" using assms by (intro mult_right_mono) auto
  finally show "i + j * w < w * h" by (simp add: mult.commute)
qed

lemma offset_eq:
  assumes "0 \<le> i" "i < w" "0 \<le> i'" "i' < (w :: int)" "i + j * w = i' + j' * w"
  shows "i = i' \<and> j = j'"
proof -
  have "i = (i + j * w) mod w" using assms(1,2) by simp
  also have "\<dots> = (i' + j' * w) mod w" by (simp only: assms(5))
  also have "\<dots> = i'" using assms(3,4) by simp
  finally show ?thesis using assms by simp
qed

lemma Array2D_ok [array_simps]: "0 \<le> w \<Longrightarrow> 0 \<le> h \<Longrightarrow> array_ok w h (Array2D w h d)"
  by (simp add: array_ok_def Array2D_def)

lemma Array2D_val [array_simps]: "0 \<le> i \<Longrightarrow> i < w \<Longrightarrow> 0 \<le> j \<Longrightarrow> j < h \<Longrightarrow> val2d (Array2D w h d) i j = d"
  using offset_range [of i w j h] by (simp add: val2d_def Array2D_def nat_less_iff)

lemma at2d_val [array_simps]: "array_ok w h a \<Longrightarrow> 0 \<le> i \<Longrightarrow> i < w \<Longrightarrow> 0 \<le> j \<Longrightarrow> j < h \<Longrightarrow> at2d a i j = Some (val2d a i j)"
  using offset_range [of i w j h] by (simp add: at2d_def offset2d_def check_def val2d_def array_ok_def vsize_def vat_eq)

lemma set2d_runs:
  assumes "array_ok w h a" "0 \<le> i" "i < w" "0 \<le> j" "j < h"
  shows "\<exists>a'. set2d a i j x = Some a' \<and> array_ok w h a' \<and>
    (\<forall>i' j'. 0 \<le> i' \<longrightarrow> i' < w \<longrightarrow> 0 \<le> j' \<longrightarrow> j' < h \<longrightarrow> val2d a' i' j' = (if i' = i \<and> j' = j then x else val2d a i' j'))"
proof -
  let ?k = "i + j * w"
  let ?a = "a\<lparr>ar_data := (ar_data a)[nat ?k := x]\<rparr>"
  have k: "0 \<le> ?k" "?k < int (length (ar_data a))" using offset_range [OF assms(2-5)] assms(1) by (simp_all add: array_ok_def vsize_def)
  have "set2d a i j x = Some ?a" using assms k by (simp add: set2d_def offset2d_def check_def array_ok_def vset_eq)
  moreover have "array_ok w h ?a" using assms(1) by (simp add: array_ok_def)
  moreover have "val2d ?a i' j' = (if i' = i \<and> j' = j then x else val2d a i' j')" if "0 \<le> i'" "i' < w" "0 \<le> j'" "j' < h" for i' j'
  proof (cases "i' = i \<and> j' = j")
    case True
    then show ?thesis using k assms(1) by (auto simp: val2d_def array_ok_def nat_less_iff)
  next
    case False
    then have "i' + j' * w \<noteq> ?k" using offset_eq [OF that(1,2) assms(2,3)] by blast
    then have "nat (i' + j' * w) \<noteq> nat ?k" using offset_range [OF that] k by (simp add: eq_nat_nat_iff)
    then show ?thesis using False assms(1) by (auto simp: val2d_def array_ok_def)
  qed
  ultimately show ?thesis by blast
qed

lemma set2dE:
  assumes "array_ok w h a" "0 \<le> i" "i < w" "0 \<le> j" "j < h"
  obtains a' where "set2d a i j x = Some a'" "array_ok w h a'" "\<And>i' j'. 0 \<le> i' \<Longrightarrow> i' < w \<Longrightarrow> 0 \<le> j' \<Longrightarrow> j' < h \<Longrightarrow>
    val2d a' i' j' = (if i' = i \<and> j' = j then x else val2d a i' j')"
  using set2d_runs [OF assms] by blast

section \<open>Lattices\<close>

record 'd lattice_arc =
  la_label :: int
  la_cost :: 'd
  la_dist2next :: int

record 'd lattice =
  lt_arcs :: "'d lattice_arc list list"
  lt_dist :: "int array2d"
  lt_is_sentence :: bool

definition Lattice :: "'d lattice" where
  "Lattice = \<lparr>lt_arcs = [], lt_dist = Array2D_empty, lt_is_sentence = False\<rparr>"

definition lattice_size :: "'d lattice \<Rightarrow> int" where
  "lattice_size l = vsize (lt_arcs l)"

definition Distance :: "'d lattice \<Rightarrow> int \<Rightarrow> int \<Rightarrow> int option" where
  "Distance l i j = (if ar_data (lt_dist l) = [] then Some (j - i) else at2d (lt_dist l) i j)"

definition kUNREACHABLE :: int where
  "kUNREACHABLE = 99999999"

definition mark_arcs :: "'d lattice \<Rightarrow> int array2d \<Rightarrow> int array2d option" where
  "mark_arcs l dist = for_each (positions (lt_arcs l)) (\<lambda>i dist. do {
     alts \<leftarrow> vat (lt_arcs l) i;
     for_each alts (\<lambda>a dist. set2d dist i (i + la_dist2next a) 1) dist }) dist"

definition relax :: "int \<Rightarrow> int \<Rightarrow> int \<Rightarrow> int array2d \<Rightarrow> int array2d option" where
  "relax k i j dist = do {
     a \<leftarrow> at2d dist i k;
     b \<leftarrow> at2d dist k j;
     let dp = a + b;
     c \<leftarrow> at2d dist i j;
     if dp < c then set2d dist i j dp else Some dist }"

definition shortest :: "int \<Rightarrow> int array2d \<Rightarrow> int array2d option" where
  "shortest n dist = for_each (int_range 0 n) (\<lambda>k. for_each (int_range 0 n) (\<lambda>i. for_each (int_range 0 n) (relax k i))) dist"

definition fill_gaps :: "int \<Rightarrow> int array2d \<Rightarrow> int array2d option" where
  "fill_gaps n dist = for_each (int_range 0 n) (\<lambda>i dist. map_option snd (for_each (rev (int_range 0 n)) (\<lambda>j (latest, dist). do {
     c \<leftarrow> at2d dist i j;
     if c < kUNREACHABLE then Some (c, dist)
     else map_option (Pair latest) (set2d dist i j latest) }) (kUNREACHABLE, dist))) dist"

definition ComputeDistances :: "'d lattice \<Rightarrow> 'd lattice option" where
  "ComputeDistances l = do {
     let n = lattice_size l + 1;
     dist \<leftarrow> mark_arcs l (resize2d n n kUNREACHABLE (lt_dist l));
     dist \<leftarrow> shortest n dist;
     dist \<leftarrow> fill_gaps n dist;
     Some (l\<lparr>lt_dist := dist\<rparr>) }"

text \<open>\<open>ids\<close> are the words of the text as \<open>TD::ConvertSentence\<close> numbers them, \<open>zero\<close> is the cost of an arc.\<close>

definition ConvertTextToLattice :: "'d \<Rightarrow> int list \<Rightarrow> 'd lattice \<Rightarrow> 'd lattice" where
  "ConvertTextToLattice zero ids l = l\<lparr>lt_arcs := map (\<lambda>w. [\<lparr>la_label = w, la_cost = zero, la_dist2next = 1\<rparr>]) ids, lt_is_sentence := True\<rparr>"

definition LooksLikePLF :: "string \<Rightarrow> bool" where
  "LooksLikePLF line = (length line > 5 \<and> take 4 line = ''((('' @ [CHR 0x27])"

definition ConvertTextOrPLF :: "'d \<Rightarrow> (string \<Rightarrow> int list) \<Rightarrow> (string \<Rightarrow> 'd lattice \<Rightarrow> 'd lattice option) \<Rightarrow> string \<Rightarrow> 'd lattice \<Rightarrow> 'd lattice option" where
  "ConvertTextOrPLF zero convert_sentence plf_to_lattice text_or_plf l = do {
     l \<leftarrow> (if LooksLikePLF text_or_plf then plf_to_lattice text_or_plf l
          else Some (ConvertTextToLattice zero (convert_sentence text_or_plf) l));
     ComputeDistances l }"

end
