(* ===== verification/Grammars.thy ===== *)
theory Grammars
  imports Rules OrderedMap
begin

text \<open>
  Grammars of the decoder (\<open>decoder/grammar\<close>) and the two that \<open>decoder/scfg_translator.cc\<close> makes itself: rules in
  a trie over their source sides, rules with a single category apart. The virtual function \<open>HasRuleForSpan\<close> is a
  member of the record. A pointer into the trie is the subtrie. Reading rules from text and coarse-to-fine
  refinement (\<open>ctf_level\<close> above zero) are left out.
\<close>

datatype 'f gnode = GNode (gn_tree: "(int \<times> 'f gnode) list") (gn_rules: "'f trule list option")

record 'f grammar =
  gr_root :: "'f gnode"
  gr_rhs2unaries :: "(int \<times> 'f trule list) list"
  gr_unaries :: "'f trule list"
  gr_has_rule :: "int \<Rightarrow> int \<Rightarrow> int \<Rightarrow> bool"

definition Extend_symbol :: "int \<Rightarrow> 'f gnode \<Rightarrow> 'f gnode option" where
  "Extend_symbol symbol g = om_get (<) symbol (gn_tree g)"

definition empty_gnode :: "'f gnode" where
  "empty_gnode = GNode [] None"

definition HasRuleForSpan :: "int \<Rightarrow> int \<Rightarrow> int \<Rightarrow> int \<Rightarrow> bool" where
  "HasRuleForSpan max_span i j distance = (max_span \<ge> distance)"

definition Glue_HasRuleForSpan :: "int \<Rightarrow> int \<Rightarrow> int \<Rightarrow> bool" where
  "Glue_HasRuleForSpan i j distance = (i = 0)"

definition PassThrough_HasRuleForSpan :: "int \<Rightarrow> int \<Rightarrow> int \<Rightarrow> bool" where
  "PassThrough_HasRuleForSpan i j distance = (distance < 4)"

definition TextGrammar :: "'f grammar" where
  "TextGrammar = \<lparr>gr_root = empty_gnode, gr_rhs2unaries = [], gr_unaries = [], gr_has_rule = HasRuleForSpan 10\<rparr>"

definition SetMaxSpan :: "int \<Rightarrow> 'f grammar \<Rightarrow> 'f grammar" where
  "SetMaxSpan m g = g\<lparr>gr_has_rule := HasRuleForSpan m\<rparr>"

text \<open>The path of the rule's source side is walked, with new nodes where it leaves the trie.\<close>

primrec add_to_trie :: "int list \<Rightarrow> 'f trule \<Rightarrow> 'f gnode \<Rightarrow> 'f gnode" where
  "add_to_trie [] r g = GNode (gn_tree g) (Some (case gn_rules g of None \<Rightarrow> [r] | Some rs \<Rightarrow> rs @ [r]))"
| "add_to_trie (w # ws) r g = GNode (om_update (<) w (\<lambda>c. add_to_trie ws r (case c of None \<Rightarrow> empty_gnode | Some c \<Rightarrow> c)) (gn_tree g)) (gn_rules g)"

definition AddRule :: "'f trule \<Rightarrow> 'f grammar \<Rightarrow> 'f grammar option" where
  "AddRule r g = (if IsUnary r then do {
       w \<leftarrow> vat (tr_f r) 0;
       Some (g\<lparr>gr_rhs2unaries := om_update (<) w (\<lambda>rs. (case rs of None \<Rightarrow> [] | Some rs \<Rightarrow> rs) @ [r]) (gr_rhs2unaries g),
         gr_unaries := gr_unaries g @ [r]\<rparr>) }
     else Some (g\<lparr>gr_root := add_to_trie (tr_f r) r (gr_root g)\<rparr>))"

definition GetUnaryRulesForRHS :: "int \<Rightarrow> 'f grammar \<Rightarrow> 'f trule list" where
  "GetUnaryRulesForRHS cat g = (case om_get (<) cat (gr_rhs2unaries g) of None \<Rightarrow> [] | Some rs \<Rightarrow> rs)"

text \<open>
  The glue grammar: the goal category from the default one, and from both in a row; the categories are their
  numbers. The grammar that passes words through has a rule for every word of the input.
\<close>

definition GlueGrammar :: "'f \<Rightarrow> 'f \<Rightarrow> int \<Rightarrow> int \<Rightarrow> 'f grammar option" where
  "GlueGrammar no_features glue_feature goal_nt default_nt = do {
     g \<leftarrow> AddRule (TRule_sides no_features [default_nt] [0] goal_nt 1 (-1) (-1)) (TextGrammar\<lparr>gr_has_rule := Glue_HasRuleForSpan\<rparr>);
     AddRule (TRule_sides glue_feature [goal_nt, default_nt] [0, -1] goal_nt 2 (-1) (-1)) g }"

definition PassThroughGrammar :: "(int \<Rightarrow> 'f) \<Rightarrow> int list \<Rightarrow> int \<Rightarrow> 'f grammar option" where
  "PassThroughGrammar features labels cat = map_option snd (for_each labels (\<lambda>w (ss, g).
     if w \<in> ss then Some (ss, g)
     else do {
       g \<leftarrow> AddRule ((TRule_sides (features w) [w] [w] cat 0 (-1) (-1))\<lparr>tr_a := [(0, 0)]\<rparr>) g;
       Some (insert w ss, g) }) ({}, TextGrammar\<lparr>gr_has_rule := PassThrough_HasRuleForSpan\<rparr>))"

section \<open>What a grammar holds\<close>

text \<open>The subtrie at a path, and the rules there.\<close>

fun walk :: "'f gnode \<Rightarrow> int list \<Rightarrow> 'f gnode option" where
  "walk g [] = Some g"
| "walk g (w # ws) = do { c \<leftarrow> Extend_symbol w g; walk c ws }"

definition rules_at :: "'f gnode \<Rightarrow> int list \<Rightarrow> 'f trule list" where
  "rules_at g p = (case walk g p of None \<Rightarrow> [] | Some c \<Rightarrow> (case gn_rules c of None \<Rightarrow> [] | Some rs \<Rightarrow> rs))"

interpretation symbols: weak_order "(<) :: int \<Rightarrow> int \<Rightarrow> bool"
  by unfold_locales auto

fun trie_ok :: "'f gnode \<Rightarrow> bool" where
  "trie_ok (GNode t rs) \<longleftrightarrow> symbols.ordered t \<and> (\<forall>p \<in> set t. trie_ok (snd p))"

lemma walk_append: "walk g (p @ q) = walk g p \<bind> (\<lambda>c. walk c q)"
  by (induction p arbitrary: g) (auto split: option.split bind_split)

lemma same_symbol [simp]: "symbols.same a b \<longleftrightarrow> a = b"
  by (auto simp: symbols.same_def)

lemma trie_ok_child: "trie_ok g \<Longrightarrow> Extend_symbol w g = Some c \<Longrightarrow> trie_ok c"
  by (cases g) (auto simp: Extend_symbol_def dest!: symbols.entry_get)

lemma trie_ok_add: "trie_ok g \<Longrightarrow> trie_ok (add_to_trie p r g)"
proof (induction p arbitrary: g)
  case Nil
  then show ?case by (cases g) simp
next
  case (Cons w ws)
  have e: "trie_ok (empty_gnode)" by (simp add: empty_gnode_def symbols.ordered_def)
  obtain t rs where g: "g = GNode t rs" by (cases g)
  have "trie_ok (snd x)" if "x \<in> set (om_update (<) w (\<lambda>c. add_to_trie ws r (case c of None \<Rightarrow> empty_gnode | Some c \<Rightarrow> c)) t)" for x
    using symbols.update_entries [of "fst x" "snd x" w _ t] that Cons e g by (fastforce)
  then show ?case using Cons.prems symbols.ordered_update by (auto simp: g)
qed

lemma add_to_trie_rules:
  "trie_ok g \<Longrightarrow> rules_at (add_to_trie p r g) q = rules_at g q @ (if q = p then [r] else [])"
proof (induction p arbitrary: g q)
  case Nil
  then show ?case by (cases q) (auto simp: rules_at_def Extend_symbol_def split: option.split)
next
  case (Cons w ws)
  show ?case
  proof (cases q)
    case Nil
    then show ?thesis by (simp add: rules_at_def)
  next
    case (Cons v vs)
    obtain t rs where g: "g = GNode t rs" by (cases g)
    have ext: "Extend_symbol v (add_to_trie (w # ws) r g) = (if v = w then Some (add_to_trie ws r (case Extend_symbol w g of None \<Rightarrow> empty_gnode | Some c \<Rightarrow> c))
        else Extend_symbol v g)"
      using Cons.prems g by (simp add: Extend_symbol_def symbols.get_update)
    have e: "trie_ok (empty_gnode :: 'a gnode)" "rules_at (empty_gnode :: 'a gnode) vs = []"
      by (simp add: empty_gnode_def symbols.ordered_def, cases vs) (simp_all add: empty_gnode_def rules_at_def Extend_symbol_def)
    have step: "rules_at h q = (case Extend_symbol v h of None \<Rightarrow> [] | Some c \<Rightarrow> rules_at c vs)" for h :: "'a gnode"
      by (simp add: rules_at_def Cons split: option.split)
    have "rules_at (add_to_trie ws r (case Extend_symbol w g of None \<Rightarrow> empty_gnode | Some c \<Rightarrow> c)) vs =
        (case Extend_symbol w g of None \<Rightarrow> [] | Some c \<Rightarrow> rules_at c vs) @ (if vs = ws then [r] else [])"
      using Cons.IH [of "case Extend_symbol w g of None \<Rightarrow> empty_gnode | Some c \<Rightarrow> c" vs] e trie_ok_child [OF Cons.prems, of w]
      by (cases "Extend_symbol w g") auto
    then show ?thesis unfolding step ext by (auto simp: Cons)
  qed
qed

text \<open>The abstract grammar: the rules of every source side, in the order added.\<close>

definition grammar_ok :: "'f grammar \<Rightarrow> bool" where
  "grammar_ok g \<longleftrightarrow> trie_ok (gr_root g) \<and> symbols.ordered (gr_rhs2unaries g)"

definition AddRules :: "'f trule list \<Rightarrow> 'f grammar \<Rightarrow> 'f grammar option" where
  "AddRules rs g = for_each rs AddRule g"

lemma TextGrammar_ok: "grammar_ok (TextGrammar :: 'f grammar)" "rules_at (gr_root (TextGrammar :: 'f grammar)) p = []"
    "gr_unaries (TextGrammar :: 'f grammar) = []" "GetUnaryRulesForRHS c (TextGrammar :: 'f grammar) = []"
  by (simp_all add: grammar_ok_def TextGrammar_def empty_gnode_def symbols.ordered_def GetUnaryRulesForRHS_def)
    (cases p; simp add: rules_at_def Extend_symbol_def)

lemma AddRule_step:
  assumes "grammar_ok g"
  shows "ensures (AddRule r g) (\<lambda>g'. grammar_ok g' \<and> gr_has_rule g' = gr_has_rule g \<and>
    (\<forall>p. rules_at (gr_root g') p = rules_at (gr_root g) p @ (if \<not> IsUnary r \<and> tr_f r = p then [r] else [])) \<and>
    gr_unaries g' = gr_unaries g @ (if IsUnary r then [r] else []) \<and>
    (\<forall>c. GetUnaryRulesForRHS c g' = GetUnaryRulesForRHS c g @ (if IsUnary r \<and> tr_f r = [c] then [r] else [])))"
proof (cases "IsUnary r")
  case True
  then obtain w where w: "tr_f r = [w]" by (auto simp: IsUnary_def vsize_def length_Suc_conv)
  have "symbols.ordered (om_update (<) w (\<lambda>rs. (case rs of None \<Rightarrow> [] | Some rs \<Rightarrow> rs) @ [r]) (gr_rhs2unaries g))"
    using assms by (auto simp: grammar_ok_def intro: symbols.ordered_update)
  then show ?thesis
    using True assms w by (auto simp: AddRule_def ensures_Some grammar_ok_def GetUnaryRulesForRHS_def symbols.get_update vat_def split: option.split)
next
  case False
  then show ?thesis
    using assms add_to_trie_rules [of "gr_root g"] by (auto simp: AddRule_def ensures_Some grammar_ok_def trie_ok_add GetUnaryRulesForRHS_def)
qed

text \<open>
  C18. A grammar that was filled with rules gives back, at the end of any path of symbols, the rules with that source
  side in the order they were added; rules with a single category are found by it and not in the trie.
\<close>

theorem AddRules_lookup:
  "\<exists>g. AddRules rs TextGrammar = Some g \<and>
    (\<forall>p. rules_at (gr_root g) p = filter (\<lambda>r. \<not> IsUnary r \<and> tr_f r = p) rs) \<and>
    gr_unaries g = filter IsUnary rs \<and>
    (\<forall>c. GetUnaryRulesForRHS c g = filter (\<lambda>r. IsUnary r \<and> tr_f r = [c]) rs)"
proof -
  let ?I = "\<lambda>rs g. grammar_ok g \<and> (\<forall>p. rules_at (gr_root g) p = filter (\<lambda>r. \<not> IsUnary r \<and> tr_f r = p) rs) \<and>
    gr_unaries g = filter IsUnary rs \<and> (\<forall>c. GetUnaryRulesForRHS c g = filter (\<lambda>r. IsUnary r \<and> tr_f r = [c]) rs)"
  have "ensures (for_each rs AddRule TextGrammar) (?I rs)"
  proof (rule ensures_for_each [where I = ?I])
    fix ys r zs g assume "?I ys g"
    then show "ensures (AddRule r g) (?I (ys @ [r]))"
      by (intro ensures_mono [OF AddRule_step]) auto
  qed (simp_all add: TextGrammar_ok)
  then show ?thesis by (auto simp: AddRules_def ensures_def)
qed

text \<open>What the parser needs of \<open>HasRuleForSpan\<close>: a rule for a span has its prefixes within reach.\<close>

locale span_test =
  fixes has_rule :: "int \<Rightarrow> int \<Rightarrow> int \<Rightarrow> bool"
  assumes prefix: "has_rule i j (j - i) \<Longrightarrow> i \<le> k \<Longrightarrow> k \<le> j \<Longrightarrow> has_rule i k (k - i)"
begin

lemma seeded: "has_rule i j (j - i) \<Longrightarrow> i \<le> j \<Longrightarrow> has_rule i i 0"
  using prefix [of i j i] by simp

end

interpretation text_grammar: span_test "HasRuleForSpan m"
  by unfold_locales (simp add: HasRuleForSpan_def)

interpretation glue_grammar: span_test Glue_HasRuleForSpan
  by unfold_locales (simp add: Glue_HasRuleForSpan_def)

interpretation pass_through_grammar: span_test PassThrough_HasRuleForSpan
  by unfold_locales (simp add: PassThrough_HasRuleForSpan_def)

end
