(* ===== verification/BottomUp.thy ===== *)
theory BottomUp
  imports InputLattice Grammars Hypergraphs
begin

text \<open>
  The bottom-up chart parser (\<open>decoder/bottom_up_parser.cc\<close>). The passive chart keeps, for each span, the nodes
  of the forest found; an active chart per grammar keeps the items, a place in the grammar's trie with the
  nodes used so far. Costs of arcs are of a type \<open>'d\<close>, their sums of a type \<open>'c\<close>. The vector \<open>nodes_\<close> moves when it
  outgrows its capacity; a reference into it that is used afterwards is a failure.
\<close>

record ('f, 'c) active_item =
  ai_gptr :: "'f gnode"
  ai_ant_nodes :: "int list"
  ai_lattice_cost :: 'c

text \<open>The parameters: what the parser is made for, and the numbers of its constants.\<close>

record ('f, 'w, 'd, 'c) parser =
  pa_grammars :: "'f grammar list"
  pa_input :: "'d lattice"
  pa_goal_cat :: int
  pa_goal_rule :: "'f trule"
  pa_kGOAL :: int
  pa_kEPS :: int
  pa_lc_fid :: int
  pa_no_features :: 'f
  pa_no_weight :: 'w
  pa_zero_cost :: 'c
  pa_add_cost :: "'c \<Rightarrow> 'd \<Rightarrow> 'c"
  pa_is_cost :: "'c \<Rightarrow> bool"
  pa_set_value :: "int \<Rightarrow> 'c \<Rightarrow> 'f \<Rightarrow> 'f"
  pa_grow :: "int \<Rightarrow> int"

record ('f, 'w, 'c) chart =
  ch_forest :: "('f, 'w) hypergraph"
  ch_chart :: "int list array2d"
  ch_nodemap :: "(int \<times> int) list array2d"
  ch_act :: "('f, 'c) active_item list array2d list"
  ch_goal_idx :: int
  ch_unaries :: "'f trule list"
  ch_capacity :: int
  ch_moves :: nat

section \<open>Unary rules in topological order\<close>

type_synonym 'f topo_state = "'f trule list \<times> (int \<Rightarrow> int)"

text \<open>The vector \<open>u\<close> and the map \<open>mark\<close>, whose missing entries are zero. The recursion is given fuel.\<close>

definition visit_edge :: "(int \<Rightarrow> 'f topo_state \<Rightarrow> (bool \<times> 'f topo_state) option) \<Rightarrow> 'f trule \<Rightarrow> bool list \<times> 'f topo_state \<Rightarrow>
    (bool list \<times> 'f topo_state) option" where
  "visit_edge rec r st = do { (ok, s) \<leftarrow> rec (tr_lhs r) (snd st); Some (fst st @ [ok], s) }"

primrec TopoSortVisit :: "(int \<times> 'f trule list) list \<Rightarrow> nat \<Rightarrow> int \<Rightarrow> 'f topo_state \<Rightarrow> (bool \<times> 'f topo_state) option" where
  "TopoSortVisit g 0 node st = None"
| "TopoSortVisit g (Suc n) node st = (let (u, mark) = st in
     if mark node = 1 then Some (False, u, mark)
     else if mark node = 2 then Some (True, u, mark)
     else do {
       let mark = mark(node := 1);
       (u, mark) \<leftarrow> (case om_get (<) node g of
         None \<Rightarrow> Some (u, mark)
       | Some edges \<Rightarrow> do {
           (okay, u, mark) \<leftarrow> for_each edges (visit_edge (TopoSortVisit g n)) ([], u, mark);
           Some (u @ map snd (filter fst (zip okay edges)), mark) });
       Some (True, u, mark(node := 2)) })"

definition TopoSortUnaries :: "int \<Rightarrow> 'f trule list \<Rightarrow> 'f trule list option" where
  "TopoSortUnaries goal_cat unaries = do {
     let mark = (\<lambda>_. 0)(goal_cat := 2);
     g \<leftarrow> for_each unaries (\<lambda>r g. do {
       c \<leftarrow> vat (tr_f r) 0;
       Some (om_update (<) c (\<lambda>rs. (case rs of None \<Rightarrow> [] | Some rs \<Rightarrow> rs) @ [r]) g) }) [];
     (u, mark) \<leftarrow> for_each g (\<lambda>(node, _) (u, mark).
       if 0 < mark node then Some (u, mark)
       else map_option snd (TopoSortVisit g (2 * length unaries + 2) node (u, mark))) ([], mark);
     Some (rev u) }"

definition PassiveChart :: "('f, 'w, 'd, 'c) parser \<Rightarrow> ('f, 'w) hypergraph \<Rightarrow> ('f, 'w, 'c) chart option" where
  "PassiveChart P forest = do {
     let n = lattice_size (pa_input P) + 1;
     unaries \<leftarrow> TopoSortUnaries (pa_goal_cat P) (concat (map gr_unaries (pa_grammars P)));
     Some \<lparr>ch_forest = forest, ch_chart = Array2D n n [], ch_nodemap = Array2D n n [],
       ch_act = map (\<lambda>_. Array2D n n []) (pa_grammars P), ch_goal_idx = -1, ch_unaries = unaries,
       ch_capacity = vsize (hg_nodes forest), ch_moves = 0\<rparr> }"

section \<open>Active items\<close>

definition ExtendTerminal :: "('f, 'w, 'd, 'c) parser \<Rightarrow> ('f, 'c) active_item \<Rightarrow> int \<Rightarrow> 'd \<Rightarrow> ('f, 'c) active_item list" where
  "ExtendTerminal P item symbol src_cost =
     (if symbol = pa_kEPS P then [item\<lparr>ai_lattice_cost := pa_add_cost P (ai_lattice_cost item) src_cost\<rparr>]
      else (case Extend_symbol symbol (ai_gptr item) of
          None \<Rightarrow> []
        | Some ni \<Rightarrow> [item\<lparr>ai_gptr := ni, ai_lattice_cost := pa_add_cost P (ai_lattice_cost item) src_cost\<rparr>]))"

definition ExtendNonTerminal :: "('f, 'w) hypergraph \<Rightarrow> ('f, 'c) active_item \<Rightarrow> int \<Rightarrow> ('f, 'c) active_item list option" where
  "ExtendNonTerminal hg item node_index = do {
     nd \<leftarrow> vat (hg_nodes hg) node_index;
     Some (case Extend_symbol (nd_cat nd) (ai_gptr item) of
         None \<Rightarrow> []
       | Some ni \<Rightarrow> [item\<lparr>ai_gptr := ni, ai_ant_nodes := ai_ant_nodes item @ [node_index]\<rparr>]) }"

definition SeedActiveChart :: "('f, 'w, 'd, 'c) parser \<Rightarrow> 'f grammar \<Rightarrow> ('f, 'c) active_item list array2d \<Rightarrow>
    ('f, 'c) active_item list array2d option" where
  "SeedActiveChart P g act = for_each (int_range 0 (ar_width act)) (\<lambda>i act.
     if gr_has_rule g i i 0 then do {
       cell \<leftarrow> at2d act i i;
       set2d act i i (cell @ [\<lparr>ai_gptr = gr_root g, ai_ant_nodes = [], ai_lattice_cost = pa_zero_cost P\<rparr>]) }
     else Some act) act"

text \<open>The vector that is walked is not the one that grows.\<close>

definition ExtendActiveItems :: "('f, 'w) hypergraph \<Rightarrow> int list array2d \<Rightarrow> int \<Rightarrow> int \<Rightarrow> int \<Rightarrow> ('f, 'c) active_item list array2d \<Rightarrow>
    ('f, 'c) active_item list array2d option" where
  "ExtendActiveItems hg psv_chart i k j act = do {
     cell \<leftarrow> at2d act i j;
     icell \<leftarrow> at2d act i k;
     idxs \<leftarrow> at2d psv_chart k j;
     check (k \<noteq> j);
     cell \<leftarrow> for_each icell (\<lambda>di. for_each idxs (\<lambda>ni cell. map_option (\<lambda>new. cell @ new) (ExtendNonTerminal hg di ni))) cell;
     set2d act i j cell }"

definition extend_arc :: "('f, 'w, 'd, 'c) parser \<Rightarrow> int \<Rightarrow> int \<Rightarrow> 'd lattice_arc \<Rightarrow> ('f, 'c) active_item list array2d \<Rightarrow>
    ('f, 'c) active_item list array2d option" where
  "extend_arc P i j a act = do {
     ec \<leftarrow> at2d act i (j - 1);
     for_each ec (\<lambda>di act. do {
       check (la_dist2next a \<noteq> 0);
       cell \<leftarrow> at2d act i (j + la_dist2next a - 1);
       set2d act i (j + la_dist2next a - 1) (cell @ ExtendTerminal P di (la_label a) (la_cost a)) }) act }"

definition AdvanceDotsForAllItemsInCell :: "('f, 'w, 'd, 'c) parser \<Rightarrow> ('f, 'w) hypergraph \<Rightarrow> int list array2d \<Rightarrow> int \<Rightarrow> int \<Rightarrow>
    ('f, 'c) active_item list array2d \<Rightarrow> ('f, 'c) active_item list array2d option" where
  "AdvanceDotsForAllItemsInCell P hg psv_chart i j act = do {
     act \<leftarrow> for_each (int_range (i + 1) j) (\<lambda>k. ExtendActiveItems hg psv_chart i k j) act;
     out_arcs \<leftarrow> vat (lt_arcs (pa_input P)) (j - 1);
     for_each out_arcs (extend_arc P i j) act }"

section \<open>Applying rules\<close>

text \<open>\<open>nodes_\<close> gets a new node; when it is full it moves.\<close>

definition push_node :: "('f, 'w, 'd, 'c) parser \<Rightarrow> int \<Rightarrow> ('f, 'w, 'c) chart \<Rightarrow> int \<times> ('f, 'w, 'c) chart" where
  "push_node P cat s = (let (v, forest) = AddNode cat (ch_forest s) in
     (v, if ch_capacity s \<le> v then s\<lparr>ch_forest := forest, ch_capacity := pa_grow P (ch_capacity s), ch_moves := Suc (ch_moves s)\<rparr>
         else s\<lparr>ch_forest := forest\<rparr>))"

definition head_node :: "('f, 'w, 'd, 'c) parser \<Rightarrow> int \<Rightarrow> int \<Rightarrow> 'f trule \<Rightarrow> ('f, 'w, 'c) chart \<Rightarrow> (int \<times> ('f, 'w, 'c) chart) option" where
  "head_node P i j r s = do {
     c2n \<leftarrow> at2d (ch_nodemap s) i j;
     (case om_get (<) (tr_lhs r) c2n of
        Some v \<Rightarrow> Some (v, s)
      | None \<Rightarrow> do {
          let (v, s) = push_node P (tr_lhs r) s;
          nodemap \<leftarrow> set2d (ch_nodemap s) i j (om_update (<) (tr_lhs r) (\<lambda>_. v) c2n);
          let s = s\<lparr>ch_nodemap := nodemap\<rparr>;
          if tr_lhs r = pa_kGOAL P then do {
            check (ch_goal_idx s = -1);
            Some (v, s\<lparr>ch_goal_idx := v\<rparr>) }
          else do {
            nodes \<leftarrow> at2d (ch_chart s) i j;
            chart \<leftarrow> set2d (ch_chart s) i j (nodes @ [v]);
            Some (v, s\<lparr>ch_chart := chart\<rparr>) } }) }"

definition ApplyRule :: "('f, 'w, 'd, 'c) parser \<Rightarrow> int \<Rightarrow> int \<Rightarrow> 'f trule \<Rightarrow> int list \<Rightarrow> 'c \<Rightarrow> ('f, 'w, 'c) chart \<Rightarrow> ('f, 'w, 'c) chart option" where
  "ApplyRule P i j r ant_nodes lattice_cost s = do {
     (e, forest) \<leftarrow> AddEdge_rule (pa_no_features P) (pa_no_weight P) r ant_nodes (ch_forest s);
     edge \<leftarrow> vat (hg_edges forest) e;
     let features = (if pa_is_cost P lattice_cost \<and> pa_lc_fid P \<noteq> 0 then pa_set_value P (pa_lc_fid P) lattice_cost (tr_scores r) else tr_scores r);
     edges \<leftarrow> vset (hg_edges forest) e (edge\<lparr>ed_prev_i := tr_prev_i r, ed_prev_j := tr_prev_j r, ed_i := i, ed_j := j, ed_features := features\<rparr>);
     (v, s) \<leftarrow> head_node P i j r (s\<lparr>ch_forest := forest\<lparr>hg_edges := edges\<rparr>\<rparr>);
     forest \<leftarrow> ConnectEdgeToHeadNode e v (ch_forest s);
     Some (s\<lparr>ch_forest := forest\<rparr>) }"

definition ApplyRules :: "('f, 'w, 'd, 'c) parser \<Rightarrow> int \<Rightarrow> int \<Rightarrow> 'f trule list \<Rightarrow> int list \<Rightarrow> 'c \<Rightarrow> ('f, 'w, 'c) chart \<Rightarrow> ('f, 'w, 'c) chart option" where
  "ApplyRules P i j rules tail lattice_cost s = for_each rules (\<lambda>r. ApplyRule P i j r tail lattice_cost) s"

text \<open>
  One node of the span: its category is read through a reference into \<open>nodes_\<close>, taken before the rules are applied.
\<close>

definition apply_unaries_to :: "('f, 'w, 'd, 'c) parser \<Rightarrow> int \<Rightarrow> int \<Rightarrow> int \<Rightarrow> ('f, 'w, 'c) chart \<Rightarrow> ('f, 'w, 'c) chart option" where
  "apply_unaries_to P i j v s = do {
     _ \<leftarrow> vat (hg_nodes (ch_forest s)) v;
     let moves = ch_moves s;
     for_each (ch_unaries s) (\<lambda>r s. do {
       c \<leftarrow> vat (tr_f r) 0;
       check (ch_moves s = moves);
       nd \<leftarrow> vat (hg_nodes (ch_forest s)) v;
       if c = nd_cat nd then ApplyRule P i j r [v] (pa_zero_cost P) s else Some s }) s }"

definition more_nodes :: "int \<Rightarrow> int \<Rightarrow> int \<times> ('f, 'w, 'c) chart \<Rightarrow> bool" where
  "more_nodes i j st = (case at2d (ch_chart (snd st)) i j of Some nodes \<Rightarrow> fst st < vsize nodes | None \<Rightarrow> False)"

definition ApplyUnaryRules :: "('f, 'w, 'd, 'c) parser \<Rightarrow> int \<Rightarrow> int \<Rightarrow> ('f, 'w, 'c) chart \<Rightarrow> ('f, 'w, 'c) chart option" where
  "ApplyUnaryRules P i j s = map_option snd (loop_while (more_nodes i j) (\<lambda>(di, s). do {
     nodes \<leftarrow> at2d (ch_chart s) i j;
     v \<leftarrow> vat nodes di;
     s \<leftarrow> apply_unaries_to P i j v s;
     Some (di + 1, s) }) (0, s))"

section \<open>Parsing\<close>

definition with_act :: "int \<Rightarrow> (('f, 'c) active_item list array2d \<Rightarrow> ('f, 'c) active_item list array2d option) \<Rightarrow> ('f, 'w, 'c) chart \<Rightarrow> ('f, 'w, 'c) chart option" where
  "with_act gi f s = do { act \<leftarrow> vat (ch_act s) gi; act \<leftarrow> f act; acts \<leftarrow> vset (ch_act s) gi act; Some (s\<lparr>ch_act := acts\<rparr>) }"

definition test_span :: "('f, 'w, 'd, 'c) parser \<Rightarrow> 'f grammar \<Rightarrow> int \<Rightarrow> int \<Rightarrow> bool option" where
  "test_span P g i j = do { d \<leftarrow> Distance (pa_input P) i j; Some (gr_has_rule g i j d) }"

definition apply_items :: "('f, 'w, 'd, 'c) parser \<Rightarrow> int \<Rightarrow> int \<Rightarrow> int \<Rightarrow> ('f, 'w, 'c) chart \<Rightarrow> ('f, 'w, 'c) chart option" where
  "apply_items P gi i j s = do {
     act \<leftarrow> vat (ch_act s) gi;
     cell \<leftarrow> at2d act i j;
     for_each cell (\<lambda>ai s. (case gn_rules (ai_gptr ai) of
        None \<Rightarrow> Some s
      | Some rules \<Rightarrow> ApplyRules P i j rules (ai_ant_nodes ai) (ai_lattice_cost ai) s)) s }"

definition visit_span :: "('f, 'w, 'd, 'c) parser \<Rightarrow> int \<Rightarrow> int \<Rightarrow> ('f, 'w, 'c) chart \<Rightarrow> ('f, 'w, 'c) chart option" where
  "visit_span P i j s = do {
     s \<leftarrow> for_each (positions (pa_grammars P)) (\<lambda>gi s. do {
       g \<leftarrow> vat (pa_grammars P) gi;
       has \<leftarrow> test_span P g i j;
       if has then do {
         s \<leftarrow> with_act gi (AdvanceDotsForAllItemsInCell P (ch_forest s) (ch_chart s) i j) s;
         apply_items P gi i j s }
       else Some s }) s;
     s \<leftarrow> ApplyUnaryRules P i j s;
     for_each (positions (pa_grammars P)) (\<lambda>gi s. do {
       g \<leftarrow> vat (pa_grammars P) gi;
       has \<leftarrow> test_span P g i j;
       if has then with_act gi (ExtendActiveItems (ch_forest s) (ch_chart s) i i j) s else Some s }) s }"

definition find_goal :: "('f, 'w, 'd, 'c) parser \<Rightarrow> ('f, 'w, 'c) chart \<Rightarrow> ('f, 'w, 'c) chart option" where
  "find_goal P s = do {
     let n = lattice_size (pa_input P);
     dh \<leftarrow> at2d (ch_chart s) 0 n;
     for_each dh (\<lambda>v s. do {
       nd \<leftarrow> vat (hg_nodes (ch_forest s)) v;
       if nd_cat nd = pa_goal_cat P then ApplyRule P 0 n (pa_goal_rule P) [nd_id nd] (pa_zero_cost P) s else Some s }) s }"

definition GoalFound :: "('f, 'w, 'c) chart \<Rightarrow> bool" where
  "GoalFound s = (0 \<le> ch_goal_idx s)"

definition fill_chart :: "('f, 'w, 'd, 'c) parser \<Rightarrow> ('f, 'w, 'c) chart \<Rightarrow> ('f, 'w, 'c) chart option" where
  "fill_chart P s = do {
     let n = lattice_size (pa_input P);
     let s = s\<lparr>ch_capacity := max (ch_capacity s) (n * n * 2), ch_goal_idx := -1\<rparr>;
     s \<leftarrow> for_each (positions (pa_grammars P)) (\<lambda>gi s. do { g \<leftarrow> vat (pa_grammars P) gi; with_act gi (SeedActiveChart P g) s }) s;
     for_each (int_range 1 (n + 1)) (\<lambda>l s. do {
       s \<leftarrow> for_each (int_range 0 (n + 1 - l)) (\<lambda>i. visit_span P i (i + l)) s;
       find_goal P s }) s }"

end
