(* ===== verification/ChartParsing.thy ===== *)
theory ChartParsing
  imports BottomUp TopoSort
begin

text \<open>
  The state of the parser as seen from outside: the nodes of a span, their categories, and the applications of
  rules that the edges of the forest stand for; and what applying a rule does to it.
\<close>

section \<open>The chart\<close>

abbreviation in_chart :: "int \<Rightarrow> int \<Rightarrow> int \<Rightarrow> bool" where
  "in_chart n i j \<equiv> 0 \<le> i \<and> i \<le> n \<and> 0 \<le> j \<and> j \<le> n"

abbreviation node_count :: "('f, 'w, 'c) chart \<Rightarrow> int" where
  "node_count s \<equiv> vsize (hg_nodes (ch_forest s))"

definition nodes_at :: "('f, 'w, 'c) chart \<Rightarrow> int \<Rightarrow> int \<Rightarrow> int list" where
  "nodes_at s i j = val2d (ch_chart s) i j"

definition node_of :: "('f, 'w, 'c) chart \<Rightarrow> int \<Rightarrow> int \<Rightarrow> int \<Rightarrow> int option" where
  "node_of s i j c = om_get (<) c (val2d (ch_nodemap s) i j)"

definition cat_of :: "('f, 'w, 'c) chart \<Rightarrow> int \<Rightarrow> int" where
  "cat_of s v = nd_cat (hg_nodes (ch_forest s) ! nat v)"

type_synonym 'f app = "int \<times> int \<times> 'f trule \<times> int list"

definition app_of :: "('f, 'w) edge \<Rightarrow> 'f app" where
  "app_of e = (ed_i e, ed_j e, the (ed_rule e), ed_tails e)"

definition apps :: "('f, 'w, 'c) chart \<Rightarrow> 'f app list" where
  "apps s = map app_of (hg_edges (ch_forest s))"

definition chart_ok :: "int \<Rightarrow> int \<Rightarrow> ('f, 'w, 'c) chart \<Rightarrow> bool" where
  "chart_ok n goal s \<longleftrightarrow> consistent_hg {} (ch_forest s) \<and> array_ok (n + 1) (n + 1) (ch_chart s) \<and> array_ok (n + 1) (n + 1) (ch_nodemap s) \<and>
     (\<forall>i j. in_chart n i j \<longrightarrow> symbols.ordered (val2d (ch_nodemap s) i j) \<and> distinct (nodes_at s i j)) \<and>
     (\<forall>i j c v. in_chart n i j \<longrightarrow> node_of s i j c = Some v \<longrightarrow> i < j \<and> 0 \<le> v \<and> v < node_count s \<and> cat_of s v = c) \<and>
     (\<forall>i j v. in_chart n i j \<longrightarrow> v \<in> set (nodes_at s i j) \<longleftrightarrow> node_of s i j (cat_of s v) = Some v \<and> cat_of s v \<noteq> goal) \<and>
     (\<forall>v. 0 \<le> v \<longrightarrow> v < node_count s \<longrightarrow> (\<exists>i j. in_chart n i j \<and> node_of s i j (cat_of s v) = Some v)) \<and>
     (\<forall>i j i' j' c c' v. in_chart n i j \<longrightarrow> in_chart n i' j' \<longrightarrow> node_of s i j c = Some v \<longrightarrow> node_of s i' j' c' = Some v \<longrightarrow> i = i' \<and> j = j') \<and>
     (\<forall>e \<in> set (hg_edges (ch_forest s)). \<exists>r. ed_rule e = Some r \<and> in_chart n (ed_i e) (ed_j e) \<and> node_of s (ed_i e) (ed_j e) (tr_lhs r) = Some (ed_head e)) \<and>
     (\<forall>v. 0 \<le> v \<longrightarrow> v < node_count s \<longrightarrow> (\<exists>e \<in> set (hg_edges (ch_forest s)). ed_head e = v \<and> (\<forall>t \<in> set (ed_tails e). 0 \<le> t \<and> t < v)))"

lemma chart_okD:
  assumes "chart_ok n goal s"
  shows "consistent_hg {} (ch_forest s)" "array_ok (n + 1) (n + 1) (ch_chart s)" "array_ok (n + 1) (n + 1) (ch_nodemap s)"
    "in_chart n i j \<Longrightarrow> symbols.ordered (val2d (ch_nodemap s) i j)" "in_chart n i j \<Longrightarrow> distinct (nodes_at s i j)"
    "in_chart n i j \<Longrightarrow> node_of s i j c = Some v \<Longrightarrow> i < j \<and> 0 \<le> v \<and> v < node_count s \<and> cat_of s v = c"
    "in_chart n i j \<Longrightarrow> v \<in> set (nodes_at s i j) \<longleftrightarrow> node_of s i j (cat_of s v) = Some v \<and> cat_of s v \<noteq> goal"
    "0 \<le> v \<Longrightarrow> v < node_count s \<Longrightarrow> \<exists>i j. in_chart n i j \<and> node_of s i j (cat_of s v) = Some v"
    "in_chart n i j \<Longrightarrow> in_chart n i' j' \<Longrightarrow> node_of s i j c = Some v \<Longrightarrow> node_of s i' j' c' = Some v \<Longrightarrow> i = i' \<and> j = j'"
    "e \<in> set (hg_edges (ch_forest s)) \<Longrightarrow> \<exists>r. ed_rule e = Some r \<and> in_chart n (ed_i e) (ed_j e) \<and> node_of s (ed_i e) (ed_j e) (tr_lhs r) = Some (ed_head e)"
    "0 \<le> v \<Longrightarrow> v < node_count s \<Longrightarrow> \<exists>e \<in> set (hg_edges (ch_forest s)). ed_head e = v \<and> (\<forall>t \<in> set (ed_tails e). 0 \<le> t \<and> t < v)"
proof -
  note d1 = assms [unfolded chart_ok_def] note d2 = d1 [THEN conjunct2] note d3 = d2 [THEN conjunct2] note d4 = d3 [THEN conjunct2]
  note d5 = d4 [THEN conjunct2] note d6 = d5 [THEN conjunct2] note d7 = d6 [THEN conjunct2] note d8 = d7 [THEN conjunct2] note d9 = d8 [THEN conjunct2]
  show "consistent_hg {} (ch_forest s)" "array_ok (n + 1) (n + 1) (ch_chart s)" "array_ok (n + 1) (n + 1) (ch_nodemap s)"
    by (rule d1 [THEN conjunct1] d2 [THEN conjunct1] d3 [THEN conjunct1])+
  show "in_chart n i j \<Longrightarrow> symbols.ordered (val2d (ch_nodemap s) i j)" "in_chart n i j \<Longrightarrow> distinct (nodes_at s i j)"
    using d4 [THEN conjunct1, rule_format, of i j] by simp_all
  show "in_chart n i j \<Longrightarrow> node_of s i j c = Some v \<Longrightarrow> i < j \<and> 0 \<le> v \<and> v < node_count s \<and> cat_of s v = c"
    by (rule d5 [THEN conjunct1, rule_format])
  show "in_chart n i j \<Longrightarrow> v \<in> set (nodes_at s i j) \<longleftrightarrow> node_of s i j (cat_of s v) = Some v \<and> cat_of s v \<noteq> goal"
    by (rule d6 [THEN conjunct1, rule_format])
  show "0 \<le> v \<Longrightarrow> v < node_count s \<Longrightarrow> \<exists>i j. in_chart n i j \<and> node_of s i j (cat_of s v) = Some v"
    by (rule d7 [THEN conjunct1, rule_format])
  show "in_chart n i j \<Longrightarrow> in_chart n i' j' \<Longrightarrow> node_of s i j c = Some v \<Longrightarrow> node_of s i' j' c' = Some v \<Longrightarrow> i = i' \<and> j = j'"
    by (rule d8 [THEN conjunct1, rule_format])
  show "e \<in> set (hg_edges (ch_forest s)) \<Longrightarrow> \<exists>r. ed_rule e = Some r \<and> in_chart n (ed_i e) (ed_j e) \<and> node_of s (ed_i e) (ed_j e) (tr_lhs r) = Some (ed_head e)"
    by (rule d9 [THEN conjunct1, rule_format])
  show "0 \<le> v \<Longrightarrow> v < node_count s \<Longrightarrow> \<exists>e \<in> set (hg_edges (ch_forest s)). ed_head e = v \<and> (\<forall>t \<in> set (ed_tails e). 0 \<le> t \<and> t < v)"
    by (rule d9 [THEN conjunct2, rule_format])
qed

section \<open>Applying a rule\<close>

text \<open>What applications of rules to a span change.\<close>

definition grown :: "int \<Rightarrow> int \<Rightarrow> int \<Rightarrow> int \<Rightarrow> ('f trule \<times> int list) list \<Rightarrow> ('f, 'w, 'c) chart \<Rightarrow> ('f, 'w, 'c) chart \<Rightarrow> bool" where
  "grown n goal i j xs s s' \<longleftrightarrow> chart_ok n goal s' \<and> apps s' = apps s @ map (\<lambda>(r, a). (i, j, r, a)) xs \<and>
     (\<forall>i' j'. in_chart n i' j' \<longrightarrow> (i', j') \<noteq> (i, j) \<longrightarrow> nodes_at s' i' j' = nodes_at s i' j' \<and> (\<forall>c. node_of s' i' j' c = node_of s i' j' c)) \<and>
     (\<forall>c. node_of s' i j c \<noteq> None \<longleftrightarrow> node_of s i j c \<noteq> None \<or> c \<in> (\<lambda>x. tr_lhs (fst x)) ` set xs) \<and>
     (\<exists>vs. nodes_at s' i j = nodes_at s i j @ vs) \<and>
     node_count s \<le> node_count s' \<and> (\<forall>v. 0 \<le> v \<longrightarrow> v < node_count s \<longrightarrow> cat_of s' v = cat_of s v) \<and>
     ch_act s' = ch_act s \<and> ch_unaries s' = ch_unaries s \<and>
     ((\<forall>x \<in> set xs. tr_lhs (fst x) \<noteq> goal) \<longrightarrow> ch_goal_idx s' = ch_goal_idx s) \<and>
     (node_count s' \<le> ch_capacity s \<longrightarrow> ch_capacity s' = ch_capacity s \<and> ch_moves s' = ch_moves s)"

lemma grown_refl: "chart_ok n goal s \<Longrightarrow> grown n goal i j [] s s"
  by (simp add: grown_def)

lemma grownD:
  assumes "grown n goal i j xs s s'"
  shows "chart_ok n goal s'" "apps s' = apps s @ map (\<lambda>(r, a). (i, j, r, a)) xs"
    "in_chart n i' j' \<Longrightarrow> (i', j') \<noteq> (i, j) \<Longrightarrow> nodes_at s' i' j' = nodes_at s i' j' \<and> node_of s' i' j' c = node_of s i' j' c"
    "node_of s' i j c \<noteq> None \<longleftrightarrow> node_of s i j c \<noteq> None \<or> c \<in> (\<lambda>x. tr_lhs (fst x)) ` set xs"
    "\<exists>vs. nodes_at s' i j = nodes_at s i j @ vs" "node_count s \<le> node_count s'"
    "0 \<le> v \<Longrightarrow> v < node_count s \<Longrightarrow> cat_of s' v = cat_of s v" "ch_act s' = ch_act s" "ch_unaries s' = ch_unaries s"
    "(\<And>x. x \<in> set xs \<Longrightarrow> tr_lhs (fst x) \<noteq> goal) \<Longrightarrow> ch_goal_idx s' = ch_goal_idx s"
    "node_count s' \<le> ch_capacity s \<Longrightarrow> ch_capacity s' = ch_capacity s \<and> ch_moves s' = ch_moves s"
proof -
  note d1 = assms [unfolded grown_def] note d2 = d1 [THEN conjunct2] note d3 = d2 [THEN conjunct2] note d4 = d3 [THEN conjunct2]
  note d5 = d4 [THEN conjunct2] note d6 = d5 [THEN conjunct2] note d7 = d6 [THEN conjunct2] note d8 = d7 [THEN conjunct2] note d9 = d8 [THEN conjunct2]
  note d10 = d9 [THEN conjunct2]
  show "chart_ok n goal s'" "apps s' = apps s @ map (\<lambda>(r, a). (i, j, r, a)) xs" by (rule d1 [THEN conjunct1] d2 [THEN conjunct1])+
  show "in_chart n i' j' \<Longrightarrow> (i', j') \<noteq> (i, j) \<Longrightarrow> nodes_at s' i' j' = nodes_at s i' j' \<and> node_of s' i' j' c = node_of s i' j' c"
    using d3 [THEN conjunct1, rule_format, of i' j'] by simp
  show "node_of s' i j c \<noteq> None \<longleftrightarrow> node_of s i j c \<noteq> None \<or> c \<in> (\<lambda>x. tr_lhs (fst x)) ` set xs" by (rule d4 [THEN conjunct1, rule_format])
  show "\<exists>vs. nodes_at s' i j = nodes_at s i j @ vs" "node_count s \<le> node_count s'" by (rule d5 [THEN conjunct1] d6 [THEN conjunct1])+
  show "0 \<le> v \<Longrightarrow> v < node_count s \<Longrightarrow> cat_of s' v = cat_of s v" by (rule d7 [THEN conjunct1, rule_format])
  show "ch_act s' = ch_act s" "ch_unaries s' = ch_unaries s" by (rule d8 [THEN conjunct1] d9 [THEN conjunct1])+
  show "(\<And>x. x \<in> set xs \<Longrightarrow> tr_lhs (fst x) \<noteq> goal) \<Longrightarrow> ch_goal_idx s' = ch_goal_idx s"
    "node_count s' \<le> ch_capacity s \<Longrightarrow> ch_capacity s' = ch_capacity s \<and> ch_moves s' = ch_moves s" using d10 by blast+
qed

lemma grown_trans:
  assumes "grown n goal i j xs s s'" "grown n goal i j ys s' s''"
  shows "grown n goal i j (xs @ ys) s s''"
  unfolding grown_def
proof (intro conjI allI impI)
  note g = grownD [OF assms(1)] and h = grownD [OF assms(2)]
  show "chart_ok n goal s''" by (rule h(1))
  show "apps s'' = apps s @ map (\<lambda>(r, a). (i, j, r, a)) (xs @ ys)" using g(2) h(2) by simp
  show "nodes_at s'' i' j' = nodes_at s i' j'" "node_of s'' i' j' c = node_of s i' j' c" if "in_chart n i' j'" "(i', j') \<noteq> (i, j)" for i' j' c
    using g(3) [OF that] h(3) [OF that] by simp_all
  show "node_of s'' i j c \<noteq> None \<longleftrightarrow> node_of s i j c \<noteq> None \<or> c \<in> (\<lambda>x. tr_lhs (fst x)) ` set (xs @ ys)" for c
    using g(4) [of c] h(4) [of c] by (simp only: set_append image_Un Un_iff) blast
  show "\<exists>vs. nodes_at s'' i j = nodes_at s i j @ vs" using g(5) h(5) by force
  show "node_count s \<le> node_count s''" using g(6) h(6) by simp
  show "cat_of s'' v = cat_of s v" if "0 \<le> v" "v < node_count s" for v using g(7) [OF that] h(7) [of v] g(6) that by simp
  show "ch_act s'' = ch_act s" "ch_unaries s'' = ch_unaries s" using g(8,9) h(8,9) by simp_all
  show "ch_goal_idx s'' = ch_goal_idx s" if "\<forall>x \<in> set (xs @ ys). tr_lhs (fst x) \<noteq> goal" using g(10) h(10) that by auto
  show "ch_capacity s'' = ch_capacity s" "ch_moves s'' = ch_moves s" if "node_count s'' \<le> ch_capacity s"
    using g(11) h(11) h(6) that by simp_all
qed

lemma consistent_edge_fields:
  assumes "consistent_hg loose hg" "k < length (hg_edges hg)" "ed_id e = ed_id (hg_edges hg ! k)" "ed_tails e = ed_tails (hg_edges hg ! k)"
    "ed_head e = ed_head (hg_edges hg ! k)"
  shows "consistent_hg loose (hg\<lparr>hg_edges := (hg_edges hg)[k := e]\<rparr>)"
proof -
  have "ed_id ((hg_edges hg)[k := e] ! m) = ed_id (hg_edges hg ! m)" "ed_tails ((hg_edges hg)[k := e] ! m) = ed_tails (hg_edges hg ! m)"
    "ed_head ((hg_edges hg)[k := e] ! m) = ed_head (hg_edges hg ! m)" for m
    using assms by (cases "m = k"; simp)+
  then show ?thesis using assms(1) unfolding consistent_hg_def by simp
qed

lemma chart_ok_step:
  assumes ok: "chart_ok n goal s" and ij: "in_chart n i j" "i < j"
    and forest: "consistent_hg {} (ch_forest s')" "hg_edges (ch_forest s') = hg_edges (ch_forest s) @ [E]" "ed_rule E = Some r" "ed_i E = i" "ed_j E = j" "ed_head E = v"
    and tails: "\<And>t. t \<in> set (ed_tails E) \<Longrightarrow> 0 \<le> t \<and> t < node_count s"
    and count: "node_count s' = node_count s + (if node_of s i j (tr_lhs r) = None then 1 else 0)"
    and v: "node_of s i j (tr_lhs r) = None \<Longrightarrow> v = node_count s \<and> cat_of s' v = tr_lhs r" "node_of s i j (tr_lhs r) \<noteq> None \<Longrightarrow> node_of s i j (tr_lhs r) = Some v"
    and cats: "\<And>u. 0 \<le> u \<Longrightarrow> u < node_count s \<Longrightarrow> cat_of s' u = cat_of s u"
    and arrays: "array_ok (n + 1) (n + 1) (ch_chart s')" "array_ok (n + 1) (n + 1) (ch_nodemap s')"
      "\<And>i' j'. in_chart n i' j' \<Longrightarrow> symbols.ordered (val2d (ch_nodemap s') i' j')"
    and maps: "\<And>i' j' c. in_chart n i' j' \<Longrightarrow> node_of s' i' j' c = (if (i', j') = (i, j) \<and> c = tr_lhs r then Some v else node_of s i' j' c)"
      "\<And>i' j'. in_chart n i' j' \<Longrightarrow> nodes_at s' i' j' = nodes_at s i' j' @ (if node_of s i j (tr_lhs r) = None \<and> (i', j') = (i, j) \<and> tr_lhs r \<noteq> goal then [v] else [])"
  shows "chart_ok n goal s'"
proof -
  note D = chart_okD [OF ok]
  let ?new = "node_of s i j (tr_lhs r) = None"
  have low: "0 \<le> v \<and> v < node_count s' \<and> cat_of s' v = tr_lhs r"
  proof (cases ?new)
    case True
    then show ?thesis using v(1) count by auto
  next
    case False
    then show ?thesis using v(2) D(6) [OF ij(1), of "tr_lhs r" v] cats [of v] count by simp
  qed
  have old: "i' < j' \<and> 0 \<le> u \<and> u < node_count s' \<and> cat_of s' u = c" if "in_chart n i' j'" "node_of s i' j' c = Some u" for i' j' c u
    using D(6) [OF that] cats [of u] count by auto
  have fresh: "\<not> (?new \<and> node_of s i' j' c = Some v)" if "in_chart n i' j'" for i' j' c
    using D(6) [OF that, of c v] v(1) by auto
  have node: "i' < j' \<and> 0 \<le> u \<and> u < node_count s' \<and> cat_of s' u = c" if "in_chart n i' j'" "node_of s' i' j' c = Some u" for i' j' c u
    using maps(1) [OF that(1), of c] that old [OF that(1), of c u] low ij by (auto split: if_splits)
  have at: "u \<in> set (nodes_at s' i' j') \<longleftrightarrow> node_of s' i' j' (cat_of s' u) = Some u \<and> cat_of s' u \<noteq> goal" if in': "in_chart n i' j'" for i' j' u
  proof
    assume "u \<in> set (nodes_at s' i' j')"
    then consider "u \<in> set (nodes_at s i' j')" | "?new" "(i', j') = (i, j)" "tr_lhs r \<noteq> goal" "u = v"
      using maps(2) [OF in'] by (auto split: if_splits)
    then show "node_of s' i' j' (cat_of s' u) = Some u \<and> cat_of s' u \<noteq> goal"
    proof cases
      case 1
      then have u: "node_of s i' j' (cat_of s u) = Some u" "cat_of s u \<noteq> goal" using D(7) [OF in'] by simp_all
      then have "cat_of s' u = cat_of s u" using old [OF in'] by blast
      then show ?thesis using u maps(1) [OF in'] v by (auto split: if_splits)
    next
      case 2
      then show ?thesis using low maps(1) [OF ij(1)] by simp
    qed
  next
    assume u: "node_of s' i' j' (cat_of s' u) = Some u \<and> cat_of s' u \<noteq> goal"
    show "u \<in> set (nodes_at s' i' j')"
    proof (cases "?new \<and> (i', j') = (i, j) \<and> cat_of s' u = tr_lhs r")
      case True
      then show ?thesis using u maps [OF in'] by auto
    next
      case False
      then have "node_of s i' j' (cat_of s' u) = Some u" using u maps(1) [OF in'] v(2) by (auto split: if_splits)
      moreover from this have "cat_of s u = cat_of s' u" using D(6) [OF in'] by blast
      ultimately show ?thesis using D(7) [OF in'] u maps(2) [OF in'] by auto
    qed
  qed
  have dist: "distinct (nodes_at s' i' j')" if "in_chart n i' j'" for i' j'
  proof -
    have "v \<notin> set (nodes_at s i' j')" if new: "?new"
    proof
      assume "v \<in> set (nodes_at s i' j')"
      then show False using D(7) [OF \<open>in_chart n i' j'\<close>] fresh [OF \<open>in_chart n i' j'\<close>] new by blast
    qed
    then show ?thesis using D(5) [OF that] maps(2) [OF that] by auto
  qed
  have owner: "\<exists>i' j'. in_chart n i' j' \<and> node_of s' i' j' (cat_of s' u) = Some u" if u0: "0 \<le> u" and u1: "u < node_count s'" for u
  proof (cases "u < node_count s")
    case True
    then obtain i' j' where o: "in_chart n i' j'" "node_of s i' j' (cat_of s u) = Some u" using D(8) [of u] u0 by blast
    then have "node_of s' i' j' (cat_of s u) = Some u" using maps(1) [OF o(1)] v by (auto split: if_splits)
    then show ?thesis using o(1) cats [OF u0 True] by auto
  next
    case False
    then have "u = v" "?new" using u1 count v(1) by (auto split: if_splits)
    then show ?thesis using low maps(1) [OF ij(1)] ij(1) by (intro exI [of _ i] exI [of _ j]) simp
  qed
  have span: "i1 = i2 \<and> j1 = j2" if in1: "in_chart n i1 j1" and in2: "in_chart n i2 j2" and n1: "node_of s' i1 j1 c1 = Some u" and n2: "node_of s' i2 j2 c2 = Some u"
    for i1 j1 i2 j2 c1 c2 u
  proof (cases "?new \<and> u = v")
    case True
    then show ?thesis using n1 n2 maps(1) [OF in1] maps(1) [OF in2] fresh [OF in1, of c1] fresh [OF in2, of c2] by (auto split: if_splits)
  next
    case False
    have "node_of s i1 j1 c1 = Some u" using n1 maps(1) [OF in1] v False by (auto split: if_splits)
    moreover have "node_of s i2 j2 c2 = Some u" using n2 maps(1) [OF in2] v False by (auto split: if_splits)
    ultimately show ?thesis using D(9) [OF in1 in2] by blast
  qed
  have edges: "\<exists>r. ed_rule e = Some r \<and> in_chart n (ed_i e) (ed_j e) \<and> node_of s' (ed_i e) (ed_j e) (tr_lhs r) = Some (ed_head e)"
    if e: "e \<in> set (hg_edges (ch_forest s'))" for e
  proof (cases "e = E")
    case True
    then show ?thesis using forest ij(1) maps(1) [OF ij(1)] by auto
  next
    case False
    then obtain r' where "ed_rule e = Some r'" "in_chart n (ed_i e) (ed_j e)" "node_of s (ed_i e) (ed_j e) (tr_lhs r') = Some (ed_head e)"
      using e forest(2) D(10) [of e] by auto
    then show ?thesis using maps(1) [of "ed_i e" "ed_j e" "tr_lhs r'"] v by (auto split: if_splits)
  qed
  have ground: "\<exists>e \<in> set (hg_edges (ch_forest s')). ed_head e = u \<and> (\<forall>t \<in> set (ed_tails e). 0 \<le> t \<and> t < u)" if u: "0 \<le> u" "u < node_count s'" for u
  proof (cases "u < node_count s")
    case True
    then show ?thesis using D(11) [OF u(1) True] forest(2) by auto
  next
    case False
    then have "u = node_count s" "u = v" using u(2) count v(1) by (auto split: if_splits)
    then show ?thesis using tails forest(2,6) by (intro bexI [of _ E]) auto
  qed
  show ?thesis
    unfolding chart_ok_def
  proof (intro conjI)
    show "\<forall>v. 0 \<le> v \<longrightarrow> v < node_count s' \<longrightarrow> (\<exists>e \<in> set (hg_edges (ch_forest s')). ed_head e = v \<and> (\<forall>t \<in> set (ed_tails e). 0 \<le> t \<and> t < v))"
      by (intro allI impI) (rule ground)
    show "\<forall>i j. in_chart n i j \<longrightarrow> symbols.ordered (val2d (ch_nodemap s') i j) \<and> distinct (nodes_at s' i j)" using arrays(3) dist by simp
    show "\<forall>i j c v. in_chart n i j \<longrightarrow> node_of s' i j c = Some v \<longrightarrow> i < j \<and> 0 \<le> v \<and> v < node_count s' \<and> cat_of s' v = c"
      by (intro allI impI) (rule node)
    show "\<forall>i j v. in_chart n i j \<longrightarrow> v \<in> set (nodes_at s' i j) \<longleftrightarrow> node_of s' i j (cat_of s' v) = Some v \<and> cat_of s' v \<noteq> goal"
      by (intro allI impI) (rule at)
    show "\<forall>v. 0 \<le> v \<longrightarrow> v < node_count s' \<longrightarrow> (\<exists>i j. in_chart n i j \<and> node_of s' i j (cat_of s' v) = Some v)"
      by (intro allI impI) (rule owner)
    show "\<forall>i j i' j' c c' v. in_chart n i j \<longrightarrow> in_chart n i' j' \<longrightarrow> node_of s' i j c = Some v \<longrightarrow> node_of s' i' j' c' = Some v \<longrightarrow> i = i' \<and> j = j'"
      by (intro allI impI) (rule span)
    show "\<forall>e \<in> set (hg_edges (ch_forest s')). \<exists>r. ed_rule e = Some r \<and> in_chart n (ed_i e) (ed_j e) \<and> node_of s' (ed_i e) (ed_j e) (tr_lhs r) = Some (ed_head e)"
      by (intro ballI) (rule edges)
  qed (rule forest(1) arrays(1,2))+
qed

lemma push_new_edge:
  assumes c: "consistent_hg {} hg" and t: "\<And>t. t \<in> set ts \<Longrightarrow> 0 \<le> t \<and> t < vsize (hg_nodes hg)"
  obtains hg1 E where "AddEdge_rule nf nw r ts hg = Some (vsize (hg_edges hg), hg1)" "consistent_hg {vsize (hg_edges hg)} hg1"
    "hg_edges hg1 = hg_edges hg @ [E]" "ed_rule E = Some r" "ed_tails E = ts" "length (hg_nodes hg1) = length (hg_nodes hg)"
    "\<And>u. u < length (hg_nodes hg) \<Longrightarrow> nd_cat (hg_nodes hg1 ! u) = nd_cat (hg_nodes hg ! u)"
proof -
  let ?e = "(new_edge nf nw)\<lparr>ed_rule := Some r, ed_tails := ts\<rparr>"
  obtain hg1 where hg1: "push_edge ?e hg = Some (vsize (hg_edges hg), hg1)" "consistent_hg {vsize (hg_edges hg)} hg1"
    using push_edge_consistent [OF c, of ?e] t by auto
  moreover have "hg1 = hg\<lparr>hg_edges := hg_edges hg @ [?e\<lparr>ed_id := vsize (hg_edges hg)\<rparr>], hg_nodes := add_out (vsize (hg_edges hg)) ts (hg_nodes hg)\<rparr>"
    using hg1(1) push_edge_runs [of ?e hg] t by simp
  ultimately show thesis
    using that [of hg1 "?e\<lparr>ed_id := vsize (hg_edges hg)\<rparr>"] by (simp add: AddEdge_rule_def hg_simps)
qed

lemma connect_new_edge:
  assumes c: "consistent_hg {int (length es)} hg" and es: "hg_edges hg = es @ [E]" and v: "0 \<le> v" "v < vsize (hg_nodes hg)"
  obtains hg' where "ConnectEdgeToHeadNode (int (length es)) v hg = Some hg'" "consistent_hg {} hg'" "hg_edges hg' = es @ [E\<lparr>ed_head := v\<rparr>]"
    "length (hg_nodes hg') = length (hg_nodes hg)" "\<And>u. u < length (hg_nodes hg) \<Longrightarrow> nd_cat (hg_nodes hg' ! u) = nd_cat (hg_nodes hg ! u)"
proof -
  obtain hg' where hg': "ConnectEdgeToHeadNode (int (length es)) v hg = Some hg'" "consistent_hg {} hg'"
    using ConnectEdgeToHeadNode_consistent [OF c _ _ _ v] es by (auto simp: vsize_def)
  have "hg' = hg\<lparr>hg_edges := es @ [E\<lparr>ed_head := v\<rparr>], hg_nodes := (hg_nodes hg)[nat v := (hg_nodes hg ! nat v)\<lparr>nd_in := nd_in (hg_nodes hg ! nat v) @ [int (length es)]\<rparr>]\<rparr>"
    using hg'(1) es v by (simp add: ConnectEdgeToHeadNode_def vat_eq vset_eq vsize_def nth_append list_update_append)
  moreover from this have "nd_cat (hg_nodes hg' ! u) = nd_cat (hg_nodes hg ! u)" for u using v by (cases "u = nat v") (simp_all add: vsize_def nat_less_iff)
  ultimately show thesis using that [of hg'] hg' by simp
qed

lemma ApplyRule_run:
  assumes ok: "chart_ok n (pa_kGOAL P) s" and ij: "0 \<le> i" "i < j" "j \<le> n" and tails: "\<And>t. t \<in> set a \<Longrightarrow> 0 \<le> t \<and> t < node_count s"
    and goal: "tr_lhs r = pa_kGOAL P \<Longrightarrow> ch_goal_idx s = -1 \<or> node_of s i j (pa_kGOAL P) \<noteq> None"
  shows "ensures (ApplyRule P i j r a cost s) (\<lambda>s'. grown n (pa_kGOAL P) i j [(r, a)] s s' \<and>
    (tr_lhs r = pa_kGOAL P \<longrightarrow> node_of s i j (pa_kGOAL P) = None \<longrightarrow> ch_goal_idx s' = node_count s \<and> node_count s' = node_count s + 1 \<and>
       node_of s' i j (pa_kGOAL P) = Some (node_count s)))"
proof -
  let ?hg = "ch_forest s" and ?k = "vsize (hg_edges (ch_forest s))"
  have in_ij: "in_chart n i j" using ij by simp
  note D = chart_okD [OF ok]
  obtain hg1 E where hg1: "AddEdge_rule (pa_no_features P) (pa_no_weight P) r a ?hg = Some (?k, hg1)" "consistent_hg {?k} hg1"
    "hg_edges hg1 = hg_edges ?hg @ [E]" "ed_rule E = Some r" "ed_tails E = a" "length (hg_nodes hg1) = length (hg_nodes ?hg)"
    "\<And>u. u < length (hg_nodes ?hg) \<Longrightarrow> nd_cat (hg_nodes hg1 ! u) = nd_cat (hg_nodes ?hg ! u)"
    using push_new_edge [OF D(1) tails] by metis
  define features where "features = (if pa_is_cost P cost \<and> pa_lc_fid P \<noteq> 0 then pa_set_value P (pa_lc_fid P) cost (tr_scores r) else tr_scores r)"
  define E1 where "E1 = E\<lparr>ed_prev_i := tr_prev_i r, ed_prev_j := tr_prev_j r, ed_i := i, ed_j := j, ed_features := features\<rparr>"
  define hg2 where "hg2 = hg1\<lparr>hg_edges := hg_edges ?hg @ [E1]\<rparr>"
  have c2: "consistent_hg {int (length (hg_edges ?hg))} hg2"
    using consistent_edge_fields [OF hg1(2), of "length (hg_edges ?hg)" E1] hg1(3) by (simp add: hg2_def E1_def vsize_def)
  have edge: "vat (hg_edges hg1) ?k = Some E" "vset (hg_edges hg1) ?k E1 = Some (hg_edges ?hg @ [E1])"
    using hg1(3) by (simp_all add: vsize_def)
  obtain c2n where c2n: "at2d (ch_nodemap s) i j = Some c2n" "c2n = val2d (ch_nodemap s) i j" using at2d_val [OF D(3), of i j] ij by simp
  have start: "ApplyRule P i j r a cost s = do {
      (v, s) \<leftarrow> head_node P i j r (s\<lparr>ch_forest := hg2\<rparr>);
      forest \<leftarrow> ConnectEdgeToHeadNode ?k v (ch_forest s);
      Some (s\<lparr>ch_forest := forest\<rparr>) }"
    using hg1(1) edge by (simp add: ApplyRule_def features_def [symmetric] E1_def [symmetric] hg2_def)
  have E1: "ed_rule E1 = Some r" "ed_i E1 = i" "ed_j E1 = j" "ed_tails E1 = a" using hg1(4,5) by (simp_all add: E1_def)
  show ?thesis
  proof (cases "node_of s i j (tr_lhs r)")
    case (Some v)
    have v: "0 \<le> v" "v < node_count s" using D(6) [OF in_ij Some] by simp_all
    obtain hg3 where hg3: "ConnectEdgeToHeadNode (int (length (hg_edges ?hg))) v hg2 = Some hg3" "consistent_hg {} hg3"
      "hg_edges hg3 = hg_edges ?hg @ [E1\<lparr>ed_head := v\<rparr>]" "length (hg_nodes hg3) = length (hg_nodes hg2)"
      "\<And>u. u < length (hg_nodes hg2) \<Longrightarrow> nd_cat (hg_nodes hg3 ! u) = nd_cat (hg_nodes hg2 ! u)"
      using connect_new_edge [OF c2, of E1 v] v hg1(6) by (auto simp: hg2_def vsize_def)
    let ?s = "s\<lparr>ch_forest := hg3\<rparr>"
    have "ApplyRule P i j r a cost s = Some ?s"
      using start c2n Some hg3(1) by (simp add: head_node_def node_of_def vsize_def)
    moreover have count: "node_count ?s = node_count s" using hg3(4) hg1(6) by (simp add: hg2_def vsize_def)
    moreover have cats: "cat_of ?s u = cat_of s u" if "0 \<le> u" "u < node_count s" for u
      using that hg3(5) [of "nat u"] hg1(6,7) by (simp add: cat_of_def hg2_def vsize_def nat_less_iff)
    moreover have "chart_ok n (pa_kGOAL P) ?s"
      by (rule chart_ok_step [OF ok in_ij ij(2), where s' = ?s and E = "E1\<lparr>ed_head := v\<rparr>" and r = r and v = v])
        (use Some hg3(2,3) E1 count cats tails D(2,3,4) in \<open>auto simp: node_of_def nodes_at_def\<close>)
    ultimately show ?thesis
      using Some hg3(3) E1 by (auto simp: ensures_Some grown_def apps_def app_of_def node_of_def nodes_at_def)
  next
    case None
    define v where "v = node_count s"
    define hg2' where "hg2' = snd (AddNode (tr_lhs r) hg2)"
    have v2: "v = vsize (hg_nodes hg2)" using hg1(6) by (simp add: v_def hg2_def vsize_def)
    have add: "AddNode (tr_lhs r) hg2 = (v, hg2')" by (simp add: hg2'_def AddNode_def Let_def v2)
    have nodes: "hg_nodes hg2' = hg_nodes hg2 @ [new_hg_node\<lparr>nd_cat := tr_lhs r, nd_id := v\<rparr>]" "hg_edges hg2' = hg_edges ?hg @ [E1]"
      by (simp_all add: hg2'_def AddNode_def Let_def v2) (simp add: hg2_def)
    have c2': "consistent_hg {int (length (hg_edges ?hg))} hg2'" unfolding hg2'_def by (rule AddNode_consistent [OF c2])
    obtain hg3 where hg3: "ConnectEdgeToHeadNode (int (length (hg_edges ?hg))) v hg2' = Some hg3" "consistent_hg {} hg3"
      "hg_edges hg3 = hg_edges ?hg @ [E1\<lparr>ed_head := v\<rparr>]" "length (hg_nodes hg3) = length (hg_nodes hg2')"
      "\<And>u. u < length (hg_nodes hg2') \<Longrightarrow> nd_cat (hg_nodes hg3 ! u) = nd_cat (hg_nodes hg2' ! u)"
      using connect_new_edge [OF c2' nodes(2), of v] nodes(1) by (auto simp: v2 vsize_def)
    obtain nm where nm: "set2d (ch_nodemap s) i j (om_update (<) (tr_lhs r) (\<lambda>_. v) c2n) = Some nm" "array_ok (n + 1) (n + 1) nm"
      "\<And>i' j'. in_chart n i' j' \<Longrightarrow> val2d nm i' j' = (if i' = i \<and> j' = j then om_update (<) (tr_lhs r) (\<lambda>_. v) c2n else val2d (ch_nodemap s) i' j')"
      using set2d_runs [OF D(3), of i j "om_update (<) (tr_lhs r) (\<lambda>_. v) c2n"] ij by auto
    obtain ct where ct: "set2d (ch_chart s) i j (nodes_at s i j @ [v]) = Some ct" "array_ok (n + 1) (n + 1) ct"
      "\<And>i' j'. in_chart n i' j' \<Longrightarrow> val2d ct i' j' = (if i' = i \<and> j' = j then nodes_at s i j @ [v] else val2d (ch_chart s) i' j')"
      using set2d_runs [OF D(2), of i j "nodes_at s i j @ [v]"] ij by auto
    let ?goal = "tr_lhs r = pa_kGOAL P"
    define full where "full \<longleftrightarrow> ch_capacity s \<le> v"
    define s' where "s' = s\<lparr>ch_forest := hg3, ch_nodemap := nm, ch_chart := (if ?goal then ch_chart s else ct),
      ch_goal_idx := (if ?goal then v else ch_goal_idx s),
      ch_capacity := (if full then pa_grow P (ch_capacity s) else ch_capacity s), ch_moves := (if full then Suc (ch_moves s) else ch_moves s)\<rparr>"
    have g: "ch_goal_idx s = -1" if ?goal using goal [OF that] None that by auto
    have chart_ij: "at2d (ch_chart s) i j = Some (nodes_at s i j)" using at2d_val [OF D(2), of i j] ij by (simp add: nodes_at_def)
    have run: "ApplyRule P i j r a cost s = Some s'"
      using None c2n add nm(1) hg3(1) ct(1) g chart_ij unfolding start s'_def full_def
      by (cases s) (auto simp: head_node_def node_of_def push_node_def Let_def check_def vsize_def)
    have count: "node_count s' = node_count s + 1" using hg3(4) nodes(1) hg1(6) by (simp add: s'_def hg2_def vsize_def)
    have cats: "cat_of s' u = cat_of s u" if "0 \<le> u" "u < node_count s" for u
      using that hg3(5) [of "nat u"] hg1(6,7) nodes(1) by (simp add: s'_def cat_of_def hg2_def vsize_def nat_less_iff nth_append)
    have cat_v: "cat_of s' v = tr_lhs r" using hg3(5) [of "nat v"] nodes(1) by (simp add: s'_def cat_of_def v2 vsize_def nth_append)
    have ord: "symbols.ordered (val2d (ch_nodemap s) i' j')" if "in_chart n i' j'" for i' j' by (rule D(4) [OF that])
    have map: "node_of s' i' j' c = (if (i', j') = (i, j) \<and> c = tr_lhs r then Some v else node_of s i' j' c)" if "in_chart n i' j'" for i' j' c
      using nm(3) [OF that] c2n(2) by (simp add: node_of_def s'_def symbols.get_update [OF ord [OF in_ij]])
    have at: "nodes_at s' i' j' = nodes_at s i' j' @ (if node_of s i j (tr_lhs r) = None \<and> (i', j') = (i, j) \<and> \<not> ?goal then [v] else [])"
      if "in_chart n i' j'" for i' j'
      using ct(3) [OF that] None by (auto simp: nodes_at_def s'_def)
    have ok': "chart_ok n (pa_kGOAL P) s'"
    proof (rule chart_ok_step [OF ok in_ij ij(2), where s' = s' and E = "E1\<lparr>ed_head := v\<rparr>" and r = r and v = v])
      show "hg_edges (ch_forest s') = hg_edges ?hg @ [E1\<lparr>ed_head := v\<rparr>]" using hg3(3) by (simp add: s'_def)
      show "symbols.ordered (val2d (ch_nodemap s') i' j')" if "in_chart n i' j'" for i' j'
        using nm(3) [OF that] ord [OF that] ord [OF in_ij] c2n(2) by (simp add: s'_def symbols.ordered_update)
    qed (use hg3(2) E1 tails None count cats cat_v map at nm(2) ct(2) D(2) in \<open>simp_all add: v_def [symmetric], simp_all add: s'_def\<close>)
    have "grown n (pa_kGOAL P) i j [(r, a)] s s'"
      unfolding grown_def
    proof (intro conjI allI impI)
      show "apps s' = apps s @ map (\<lambda>(r, a). (i, j, r, a)) [(r, a)]" using hg3(3) E1 by (simp add: s'_def apps_def app_of_def)
      show "nodes_at s' i' j' = nodes_at s i' j'" "node_of s' i' j' c = node_of s i' j' c" if "in_chart n i' j'" "(i', j') \<noteq> (i, j)" for i' j' c
        using at [OF that(1)] map [OF that(1)] that(2) by auto
      show "node_of s' i j c \<noteq> None \<longleftrightarrow> node_of s i j c \<noteq> None \<or> c \<in> (\<lambda>x. tr_lhs (fst x)) ` set [(r, a)]" for c
        using map [OF in_ij, of c] by simp
      show "\<exists>vs. nodes_at s' i j = nodes_at s i j @ vs" using at [OF in_ij] by blast
    qed (use ok' count cats in \<open>simp_all add: s'_def full_def v_def\<close>)
    moreover have "ch_goal_idx s' = v" if ?goal using that by (simp add: s'_def)
    moreover have "node_of s' i j (pa_kGOAL P) = Some v" if ?goal using map [OF in_ij, of "tr_lhs r"] that by simp
    ultimately show ?thesis using run count by (simp add: ensures_Some v_def)
  qed
qed

end
