(* ===== verification/ChartMatches.thy ===== *)
theory ChartMatches
  imports ChartParsing
begin

text \<open>
  What the active charts of the bottom-up parser should hold. A sequence of symbols matches a span when its words are
  the words of the sentence and its categories are those of nodes on the spans in between.
\<close>

section \<open>Matching a span\<close>

inductive matches :: "int list \<Rightarrow> (int \<Rightarrow> int \<Rightarrow> int set) \<Rightarrow> (int \<Rightarrow> int) \<Rightarrow> int \<Rightarrow> int \<Rightarrow> int list \<Rightarrow> int list \<Rightarrow> bool" for ws N K where
  matches_nil: "matches ws N K i i [] []"
| matches_word: "matches ws N K i k p a \<Longrightarrow> 0 \<le> k \<Longrightarrow> k < vsize ws \<Longrightarrow> matches ws N K i (k + 1) (p @ [ws ! nat k]) a"
| matches_node: "matches ws N K i k p a \<Longrightarrow> v \<in> N k j \<Longrightarrow> matches ws N K i j (p @ [K v]) (a @ [v])"

definition spans_ok :: "int \<Rightarrow> (int \<Rightarrow> int \<Rightarrow> int set) \<Rightarrow> bool" where
  "spans_ok n N \<longleftrightarrow> (\<forall>i j. N i j \<noteq> {} \<longrightarrow> 0 \<le> i \<and> i < j \<and> j \<le> n)"

lemma spans_okD: "spans_ok n N \<Longrightarrow> v \<in> N i j \<Longrightarrow> 0 \<le> i \<and> i < j \<and> j \<le> n"
  by (auto simp: spans_ok_def)

lemma matches_le:
  assumes "spans_ok n N"
  shows "matches ws N K i j p a \<Longrightarrow> i \<le> j \<and> (i = j \<longrightarrow> p = [] \<and> a = [])"
  by (induction rule: matches.induct) (use spans_okD [OF assms] in fastforce)+

lemma matches_in:
  assumes "spans_ok (vsize ws) N"
  shows "matches ws N K i j p a \<Longrightarrow> 0 \<le> i \<Longrightarrow> i \<le> vsize ws \<Longrightarrow> j \<le> vsize ws"
  by (induction rule: matches.induct) (use spans_okD [OF assms] in fastforce)+

lemma matches_nodes: "matches ws N K i j p a \<Longrightarrow> v \<in> set a \<Longrightarrow> \<exists>k l. v \<in> N k l"
  by (induction rule: matches.induct) auto

lemma matches_mono:
  assumes ok: "spans_ok n N" and sub: "\<And>k l v. i \<le> k \<Longrightarrow> l \<le> j \<Longrightarrow> v \<in> N k l \<Longrightarrow> v \<in> N' k l \<and> K' v = K v"
    and m: "matches ws N K i j p a"
  shows "matches ws N' K' i j p a"
  using m sub
proof (induction rule: matches.induct)
  case (matches_nil i)
  show ?case by (rule matches.matches_nil)
next
  case (matches_word i k p a)
  have "matches ws N' K' i k p a" by (rule matches_word.IH, rule matches_word.prems) auto
  then show ?case using matches_word.hyps by (intro matches.matches_word)
next
  case (matches_node i k p a v j)
  have kj: "k < j" "i \<le> k" using spans_okD [OF ok matches_node(2)] matches_le [OF ok matches_node(1)] by simp_all
  have "matches ws N' K' i k p a" by (rule matches_node.IH, rule matches_node.prems) (use kj in auto)
  moreover have "v \<in> N' k j \<and> K' v = K v" using matches_node.prems [of k j v] matches_node(2) kj by simp
  ultimately show ?case using matches.matches_node [of ws N' K' i k p a v j] by simp
qed

lemma matches_cong:
  assumes "spans_ok n N" "spans_ok n N'" "\<And>k l. i \<le> k \<Longrightarrow> l \<le> j \<Longrightarrow> N' k l = N k l \<and> (\<forall>v \<in> N k l. K' v = K v)"
  shows "matches ws N' K' i j p a \<longleftrightarrow> matches ws N K i j p a"
  using matches_mono [OF assms(1), of i j N' K' K] matches_mono [OF assms(2), of i j N K K'] assms(3) by metis

text \<open>The last step to a span that is not empty.\<close>

lemma matches_last:
  assumes ok: "spans_ok n N" and ij: "i < j"
  shows "matches ws N K i j p a \<longleftrightarrow>
    (\<exists>p0. 0 \<le> j - 1 \<and> j - 1 < vsize ws \<and> p = p0 @ [ws ! nat (j - 1)] \<and> matches ws N K i (j - 1) p0 a) \<or>
    (\<exists>k v p0 a0. i \<le> k \<and> k < j \<and> v \<in> N k j \<and> p = p0 @ [K v] \<and> a = a0 @ [v] \<and> matches ws N K i k p0 a0)"
proof
  assume "matches ws N K i j p a"
  then show "(\<exists>p0. 0 \<le> j - 1 \<and> j - 1 < vsize ws \<and> p = p0 @ [ws ! nat (j - 1)] \<and> matches ws N K i (j - 1) p0 a) \<or>
    (\<exists>k v p0 a0. i \<le> k \<and> k < j \<and> v \<in> N k j \<and> p = p0 @ [K v] \<and> a = a0 @ [v] \<and> matches ws N K i k p0 a0)"
  proof cases
    case (matches_node k p0 a0 v)
    then show ?thesis using spans_okD [OF ok] matches_le [OF ok] by blast
  qed (use ij in auto)
next
  assume "(\<exists>p0. 0 \<le> j - 1 \<and> j - 1 < vsize ws \<and> p = p0 @ [ws ! nat (j - 1)] \<and> matches ws N K i (j - 1) p0 a) \<or>
    (\<exists>k v p0 a0. i \<le> k \<and> k < j \<and> v \<in> N k j \<and> p = p0 @ [K v] \<and> a = a0 @ [v] \<and> matches ws N K i k p0 a0)"
  then show "matches ws N K i j p a"
    using matches_word [of ws N K i "j - 1"] matches_node [of ws N K i] by auto
qed

text \<open>Matches that do not take a node on the whole span.\<close>

definition inner :: "int \<Rightarrow> int \<Rightarrow> (int \<Rightarrow> int \<Rightarrow> int set) \<Rightarrow> int \<Rightarrow> int \<Rightarrow> int set" where
  "inner i j N = (\<lambda>k l. if k = i \<and> l = j then {} else N k l)"

lemma inner_ok: "spans_ok n N \<Longrightarrow> spans_ok n (inner i j N)"
  by (simp add: spans_ok_def inner_def)

lemma matches_inner:
  assumes ok: "spans_ok n N" and "k < j" "i \<le> k"
  shows "matches ws (inner i j N) K i k p a \<longleftrightarrow> matches ws N K i k p a"
  by (rule matches_cong [OF ok inner_ok [OF ok]]) (use assms(2) in \<open>auto simp: inner_def\<close>)

lemma matches_split:
  assumes ok: "spans_ok n N" and ij: "i < j"
  shows "matches ws N K i j p a \<longleftrightarrow> matches ws (inner i j N) K i j p a \<or> (\<exists>v \<in> N i j. p = [K v] \<and> a = [v])"
proof -
  have nil: "matches ws N K i i p0 a0 \<longleftrightarrow> p0 = [] \<and> a0 = []" for p0 a0
    using matches_le [OF ok, of ws K i i p0 a0] matches_nil by blast
  have node: "(i \<le> k \<and> k < j \<and> v \<in> N k j \<and> p = p0 @ [K v] \<and> a = a0 @ [v] \<and> matches ws N K i k p0 a0) \<longleftrightarrow>
    (i \<le> k \<and> k < j \<and> v \<in> inner i j N k j \<and> p = p0 @ [K v] \<and> a = a0 @ [v] \<and> matches ws (inner i j N) K i k p0 a0) \<or>
    k = i \<and> v \<in> N i j \<and> p0 = [] \<and> a0 = [] \<and> p = [K v] \<and> a = [v]" for k v p0 a0
    using matches_inner [OF ok, of k j i] nil ij by (auto simp: inner_def)
  have word: "matches ws (inner i j N) K i (j - 1) p0 a \<longleftrightarrow> matches ws N K i (j - 1) p0 a" for p0
    by (rule matches_inner [OF ok]) (use ij in auto)
  show ?thesis
    unfolding matches_last [OF ok ij] matches_last [OF inner_ok [OF ok] ij] word node by blast
qed

end
