(* ===== verification/ChartItems.thy ===== *)
theory ChartItems
  imports ChartMatches
begin

text \<open>
  The active items of a span are the paths of the trie that match it, and the steps of the parser keep them so.
\<close>

section \<open>Items\<close>

text \<open>The items are the matching paths of the trie, once each.\<close>

definition item_of :: "('f, 'c) active_item \<Rightarrow> 'f gnode \<times> int list" where
  "item_of it = (ai_gptr it, ai_ant_nodes it)"

definition items_are :: "'f gnode \<Rightarrow> (int list \<Rightarrow> int list \<Rightarrow> bool) \<Rightarrow> ('f, 'c) active_item list \<Rightarrow> bool" where
  "items_are trie S cell \<longleftrightarrow> (\<exists>pas. distinct pas \<and> set pas = {(p, a). S p a \<and> walk trie p \<noteq> None} \<and>
     map item_of cell = map (\<lambda>(p, a). (the (walk trie p), a)) pas)"

lemma items_nil: "items_are trie S [] \<longleftrightarrow> (\<forall>p a. S p a \<longrightarrow> walk trie p = None)"
  by (auto simp: items_are_def)

lemma items_cong: "(\<And>p a. walk trie p \<noteq> None \<Longrightarrow> S p a \<longleftrightarrow> T p a) \<Longrightarrow> items_are trie S cell \<longleftrightarrow> items_are trie T cell"
proof -
  assume "\<And>p a. walk trie p \<noteq> None \<Longrightarrow> S p a \<longleftrightarrow> T p a"
  then have "{(p, a). S p a \<and> walk trie p \<noteq> None} = {(p, a). T p a \<and> walk trie p \<noteq> None}" by blast
  then show ?thesis by (simp only: items_are_def)
qed

lemma items_union:
  assumes "items_are trie S c" "items_are trie T d" "\<And>p a. S p a \<Longrightarrow> \<not> T p a"
  shows "items_are trie (\<lambda>p a. S p a \<or> T p a) (c @ d)"
proof -
  obtain ps where ps: "distinct ps" "set ps = {(p, a). S p a \<and> walk trie p \<noteq> None}" "map item_of c = map (\<lambda>(p, a). (the (walk trie p), a)) ps"
    using assms(1) by (auto simp: items_are_def)
  obtain qs where qs: "distinct qs" "set qs = {(p, a). T p a \<and> walk trie p \<noteq> None}" "map item_of d = map (\<lambda>(p, a). (the (walk trie p), a)) qs"
    using assms(2) by (auto simp: items_are_def)
  show ?thesis
    unfolding items_are_def by (rule exI [of _ "ps @ qs"]) (use ps qs assms(3) in auto)
qed

lemma walk_snoc: "walk trie (p @ [c]) = walk trie p \<bind> Extend_symbol c"
  by (simp add: walk_append)

definition extended :: "('f, 'c) active_item \<Rightarrow> int \<Rightarrow> int list \<Rightarrow> ('f gnode \<times> int list) list" where
  "extended it c new = (case Extend_symbol c (ai_gptr it) of None \<Rightarrow> [] | Some g \<Rightarrow> [(g, ai_ant_nodes it @ new)])"

lemma conj_cong_right: "(Q \<Longrightarrow> P = P') \<Longrightarrow> (P \<and> Q) = (P' \<and> Q)"
  by blast

text \<open>Items extended by some of a list of choices, each a symbol and nodes for it.\<close>

lemma items_extend:
  fixes cell :: "('f, 'c) active_item list" and new :: "('f, 'c) active_item list"
  assumes S: "items_are trie S cell" and xs: "distinct xs" "\<And>x y. x \<in> set xs \<Longrightarrow> y \<in> set xs \<Longrightarrow> sy x = sy y \<Longrightarrow> ants x = ants y \<Longrightarrow> x = y"
    and len: "\<And>x y. x \<in> set xs \<Longrightarrow> y \<in> set xs \<Longrightarrow> length (ants x) = length (ants y)"
    and new: "map item_of new = concat (map (\<lambda>it. concat (map (\<lambda>x. extended it (sy x) (ants x)) xs)) cell)"
  shows "items_are trie (\<lambda>p a. \<exists>p0 a0 x. x \<in> set xs \<and> p = p0 @ [sy x] \<and> a = a0 @ ants x \<and> S p0 a0) new"
proof -
  obtain ps where ps: "distinct ps" "set ps = {(p, a). S p a \<and> walk trie p \<noteq> None}" "map item_of cell = map (\<lambda>(p, a). (the (walk trie p), a)) ps"
    using S by (auto simp: items_are_def)
  let ?f = "\<lambda>((p, a), x). (p @ [sy x], a @ ants x)"
  define qs where "qs = filter (\<lambda>(p, a). walk trie p \<noteq> None) (map ?f (List.product ps xs))"
  have inj: "inj_on ?f (set (List.product ps xs))"
  proof (rule inj_onI)
    fix z w assume z: "z \<in> set (List.product ps xs)" "w \<in> set (List.product ps xs)" "?f z = ?f w"
    obtain p a x q b y where zw: "z = ((p, a), x)" "w = ((q, b), y)" by (metis surj_pair)
    then have "x \<in> set xs" "y \<in> set xs" "p = q" "sy x = sy y" "a @ ants x = b @ ants y" using z by auto
    then show "z = w" using xs(2) [of x y] len [of x y] zw by auto
  qed
  have "distinct qs"
    unfolding qs_def using inj ps(1) xs(1) by (intro distinct_filter) (simp only: distinct_map distinct_product)
  moreover have "set qs = {(p, a). (\<exists>p0 a0 x. x \<in> set xs \<and> p = p0 @ [sy x] \<and> a = a0 @ ants x \<and> S p0 a0) \<and> walk trie p \<noteq> None}"
  proof -
    have qs: "(q, b) \<in> set qs \<longleftrightarrow> (\<exists>p a x. (p, a) \<in> set ps \<and> x \<in> set xs \<and> q = p @ [sy x] \<and> b = a @ ants x) \<and> walk trie q \<noteq> None" for q b
      by (force simp: qs_def)
    have prefix: "walk trie p \<noteq> None" if "walk trie (p @ [c]) \<noteq> None" for p c using that by (cases "walk trie p") (simp_all add: walk_snoc)
    have ps: "(p, a) \<in> set ps \<longleftrightarrow> S p a" if "walk trie (p @ [c]) \<noteq> None" for p a c using ps(2) prefix [OF that] by simp
    have "(q, b) \<in> set qs \<longleftrightarrow> (\<exists>p0 a0 x. x \<in> set xs \<and> q = p0 @ [sy x] \<and> b = a0 @ ants x \<and> S p0 a0) \<and> walk trie q \<noteq> None" for q b
      unfolding qs by (rule conj_cong_right) (metis ps)
    then show ?thesis by (simp add: set_eq_iff split_paired_all)
  qed
  moreover have "map item_of new = map (\<lambda>(p, a). (the (walk trie p), a)) qs"
  proof -
    have one: "concat (map (\<lambda>x. extended it (sy x) (ants x)) xs) =
        map (\<lambda>(p, a). (the (walk trie p), a)) (filter (\<lambda>(p, a). walk trie p \<noteq> None) (map (\<lambda>x. (p @ [sy x], a @ ants x)) xs))"
      if "item_of it = (the (walk trie p), a)" "walk trie p \<noteq> None" for it :: "('f, 'c) active_item" and p a
    proof -
      have "walk trie (p @ [c]) = Extend_symbol c (ai_gptr it)" for c using that by (auto simp: walk_snoc item_of_def)
      moreover have "ai_ant_nodes it = a" using that(1) by (simp add: item_of_def)
      ultimately show ?thesis by (induction xs) (auto simp: extended_def split: option.splits)
    qed
    have "concat (map (\<lambda>it. concat (map (\<lambda>x. extended it (sy x) (ants x)) xs)) cs) =
        map (\<lambda>(p, a). (the (walk trie p), a)) (filter (\<lambda>(p, a). walk trie p \<noteq> None) (map ?f (List.product rs xs)))"
      if "map item_of cs = map (\<lambda>(p, a). (the (walk trie p), a)) rs" "\<forall>(p, a) \<in> set rs. walk trie p \<noteq> None" for cs :: "('f, 'c) active_item list" and rs
      using that
    proof (induction cs arbitrary: rs)
      case (Cons it cs)
      then obtain p a rs' where rs: "rs = (p, a) # rs'" "item_of it = (the (walk trie p), a)" "map item_of cs = map (\<lambda>(p, a). (the (walk trie p), a)) rs'"
        by (cases rs) auto
      have "map ?f (map (Pair (p, a)) xs) = map (\<lambda>x. (p @ [sy x], a @ ants x)) xs" by simp
      then show ?case using one [OF rs(2)] Cons.IH [OF rs(3)] Cons.prems(2) rs(1) by (simp add: comp_def)
    qed simp
    then show ?thesis unfolding new qs_def using ps(2,3) by blast
  qed
  ultimately show ?thesis unfolding items_are_def by blast
qed

lemma extend_nodes_run:
  assumes vs: "\<And>v. v \<in> set vs \<Longrightarrow> 0 \<le> v \<and> v < vsize (hg_nodes hg)"
  shows "\<exists>new. for_each icell (\<lambda>di. for_each vs (\<lambda>ni cell. map_option (\<lambda>new. cell @ new) (ExtendNonTerminal hg di ni))) cell = Some (cell @ new) \<and>
    map item_of new = concat (map (\<lambda>it. concat (map (\<lambda>v. extended it (nd_cat (hg_nodes hg ! nat v)) [v]) vs)) icell)"
proof -
  have one: "\<exists>new. for_each us (\<lambda>ni cell. map_option (\<lambda>new. cell @ new) (ExtendNonTerminal hg it ni)) cell = Some (cell @ new) \<and>
      map item_of new = concat (map (\<lambda>v. extended it (nd_cat (hg_nodes hg ! nat v)) [v]) us)" if "set us \<subseteq> set vs" for us it cell
    using that
  proof (induction us arbitrary: cell)
    case (Cons u us)
    define new where "new = (case Extend_symbol (nd_cat (hg_nodes hg ! nat u)) (ai_gptr it) of None \<Rightarrow> []
       | Some ni \<Rightarrow> [it\<lparr>ai_gptr := ni, ai_ant_nodes := ai_ant_nodes it @ [u]\<rparr>])"
    have u: "ExtendNonTerminal hg it u = Some new" using vs [of u] Cons.prems by (simp add: ExtendNonTerminal_def vat_eq vsize_def new_def)
    have new: "map item_of new = extended it (nd_cat (hg_nodes hg ! nat u)) [u]" by (simp add: new_def extended_def item_of_def split: option.split)
    obtain new' where "for_each us (\<lambda>ni cell. map_option (\<lambda>new. cell @ new) (ExtendNonTerminal hg it ni)) (cell @ new) = Some ((cell @ new) @ new')"
      "map item_of new' = concat (map (\<lambda>v. extended it (nd_cat (hg_nodes hg ! nat v)) [v]) us)"
      using Cons.IH [of "cell @ new"] Cons.prems by auto
    then show ?case using u new by (intro exI [of _ "new @ new'"]) simp
  qed simp
  show ?thesis
  proof (induction icell arbitrary: cell)
    case (Cons it icell)
    obtain new where "for_each vs (\<lambda>ni cell. map_option (\<lambda>new. cell @ new) (ExtendNonTerminal hg it ni)) cell = Some (cell @ new)"
      "map item_of new = concat (map (\<lambda>v. extended it (nd_cat (hg_nodes hg ! nat v)) [v]) vs)" using one by blast
    moreover obtain new' where "for_each icell (\<lambda>di. for_each vs (\<lambda>ni cell. map_option (\<lambda>new. cell @ new) (ExtendNonTerminal hg di ni))) (cell @ new) = Some ((cell @ new) @ new')"
      "map item_of new' = concat (map (\<lambda>it. concat (map (\<lambda>v. extended it (nd_cat (hg_nodes hg ! nat v)) [v]) vs)) icell)" using Cons by blast
    ultimately show ?case by (intro exI [of _ "new @ new'"]) simp
  qed simp
qed

text \<open>Writing one cell of the array.\<close>

definition cell_set :: "int \<Rightarrow> int \<Rightarrow> int \<Rightarrow> 'a array2d \<Rightarrow> 'a \<Rightarrow> 'a array2d \<Rightarrow> bool" where
  "cell_set n i j a x a' \<longleftrightarrow> array_ok (n + 1) (n + 1) a' \<and>
     (\<forall>i' j'. in_chart n i' j' \<longrightarrow> val2d a' i' j' = (if i' = i \<and> j' = j then x else val2d a i' j'))"

lemma set2d_cell:
  assumes "array_ok (n + 1) (n + 1) a" "in_chart n i j"
  shows "ensures (set2d a i j x) (cell_set n i j a x)"
  using set2d_runs [OF assms(1), of i j x] assms(2) by (auto simp: ensures_def cell_set_def)

lemma cell_setD:
  assumes "cell_set n i j a x a'"
  shows "array_ok (n + 1) (n + 1) a'" "in_chart n i j \<Longrightarrow> val2d a' i j = x" "in_chart n i' j' \<Longrightarrow> (i', j') \<noteq> (i, j) \<Longrightarrow> val2d a' i' j' = val2d a i' j'"
  using assms by (auto simp: cell_set_def)

lemma ExtendActiveItems_run:
  assumes act: "array_ok (n + 1) (n + 1) act" and ct: "array_ok (n + 1) (n + 1) ct" and ij: "in_chart n i k" "in_chart n k j" "k \<noteq> j"
    and vs: "val2d ct k j = vs" "distinct vs" "\<And>v. v \<in> set vs \<Longrightarrow> 0 \<le> v \<and> v < vsize (hg_nodes hg)"
    and S: "items_are trie S (val2d act i k)"
  shows "ensures (ExtendActiveItems hg ct i k j act) (\<lambda>act'. \<exists>new. cell_set n i j act (val2d act i j @ new) act' \<and>
    items_are trie (\<lambda>p a. \<exists>p0 a0 v. v \<in> set vs \<and> p = p0 @ [nd_cat (hg_nodes hg ! nat v)] \<and> a = a0 @ [v] \<and> S p0 a0) new)"
proof -
  obtain new where new: "for_each (val2d act i k) (\<lambda>di. for_each vs (\<lambda>ni cell. map_option (\<lambda>new. cell @ new) (ExtendNonTerminal hg di ni))) (val2d act i j) = Some (val2d act i j @ new)"
    "map item_of new = concat (map (\<lambda>it. concat (map (\<lambda>v. extended it (nd_cat (hg_nodes hg ! nat v)) [v]) vs)) (val2d act i k))"
    using extend_nodes_run [OF vs(3)] by blast
  have items: "items_are trie (\<lambda>p a. \<exists>p0 a0 v. v \<in> set vs \<and> p = p0 @ [nd_cat (hg_nodes hg ! nat v)] \<and> a = a0 @ [v] \<and> S p0 a0) new"
    using items_extend [where ants = "\<lambda>v. [v]" and sy = "\<lambda>v. nd_cat (hg_nodes hg ! nat v)", OF S vs(2) _ _ new(2)] by simp
  have "ExtendActiveItems hg ct i k j act = set2d act i j (val2d act i j @ new)"
    using at2d_val [OF act, of i j] at2d_val [OF act, of i k] at2d_val [OF ct, of k j] ij vs(1) new(1)
    by (simp add: ExtendActiveItems_def check_def)
  then show ?thesis using set2d_cell [OF act, of i j "val2d act i j @ new"] ij items by (auto elim!: ensures_mono)
qed

lemma extend_arc_run:
  fixes P :: "('f, 'w, 'd, 'c) parser"
  assumes act: "array_ok (n + 1) (n + 1) act" and ij: "0 \<le> i" "i < j" "j \<le> n"
    and arc: "la_label arc = w" "la_dist2next arc = 1" "w \<noteq> pa_kEPS P" and S: "items_are trie S (val2d act i (j - 1))"
  shows "ensures (extend_arc P i j arc act) (\<lambda>act'. \<exists>new. cell_set n i j act (val2d act i j @ new) act' \<and>
    items_are trie (\<lambda>p a. \<exists>p0. p = p0 @ [w] \<and> S p0 a) new)"
proof -
  let ?ec = "val2d act i (j - 1)"
  have one: "map item_of (ExtendTerminal P it w (la_cost arc)) = extended it w []" for it :: "('f, 'c) active_item"
    using arc(3) by (simp add: ExtendTerminal_def extended_def item_of_def split: option.split)
  let ?step = "\<lambda>di act. do {
       check (la_dist2next arc \<noteq> 0);
       cell \<leftarrow> at2d act i (j + la_dist2next arc - 1);
       set2d act i (j + la_dist2next arc - 1) (cell @ ExtendTerminal P di (la_label arc) (la_cost arc)) }"
  have loop: "ensures (for_each ec ?step a0) (\<lambda>act'. \<exists>new. cell_set n i j a0 (val2d a0 i j @ new) act' \<and>
      map item_of new = concat (map (\<lambda>it. extended it w []) ec))" if "array_ok (n + 1) (n + 1) a0" for ec a0
    using that
  proof (induction ec arbitrary: a0)
    case Nil
    then show ?case by (auto simp: ensures_Some cell_set_def)
  next
    case (Cons it ec)
    obtain a1 where a1: "set2d a0 i j (val2d a0 i j @ ExtendTerminal P it w (la_cost arc)) = Some a1"
      "cell_set n i j a0 (val2d a0 i j @ ExtendTerminal P it w (la_cost arc)) a1"
      by (rule ensuresE [OF set2d_cell [OF Cons.prems, of i j "val2d a0 i j @ ExtendTerminal P it w (la_cost arc)"]]) (use ij in auto)
    have step: "?step it a0 = Some a1" using arc(1,2) a1(1) at2d_val [OF Cons.prems, of i j] ij by (simp add: check_def)
    have v1: "val2d a1 i j = val2d a0 i j @ ExtendTerminal P it w (la_cost arc)" using cell_setD(2) [OF a1(2)] ij by simp
    obtain a2 new where a2: "for_each ec ?step a1 = Some a2" "cell_set n i j a1 (val2d a1 i j @ new) a2" "map item_of new = concat (map (\<lambda>it. extended it w []) ec)"
      by (rule ensuresE [OF Cons.IH [OF cell_setD(1) [OF a1(2)]]]) blast
    have "cell_set n i j a0 (val2d a0 i j @ (ExtendTerminal P it w (la_cost arc) @ new)) a2"
      using a1(2) a2(2) v1 by (auto simp: cell_set_def)
    moreover have "map item_of (ExtendTerminal P it w (la_cost arc) @ new) = concat (map (\<lambda>it. extended it w []) (it # ec))"
      using one a2(3) by simp
    ultimately show ?case using step a2(1) by (auto simp: ensures_Some intro!: exI)
  qed
  have "extend_arc P i j arc act = for_each ?ec ?step act"
    using at2d_val [OF act, of i "j - 1"] ij by (simp add: extend_arc_def)
  moreover have "items_are trie (\<lambda>p a. \<exists>p0. p = p0 @ [w] \<and> S p0 a) new" if "map item_of new = concat (map (\<lambda>it. extended it w []) ?ec)" for new :: "('f, 'c) active_item list"
    using items_extend [where xs = "[()]" and sy = "\<lambda>_. w" and ants = "\<lambda>_. []" and new = new, OF S] that by simp
  ultimately show ?thesis using loop [OF act, of ?ec] by (auto elim!: ensures_mono)
qed


lemma cell_set_trans: "cell_set n i j a x b \<Longrightarrow> cell_set n i j b y c \<Longrightarrow> cell_set n i j a y c"
  by (auto simp: cell_set_def)

text \<open>Advancing the dots for a span, when the shorter items are there.\<close>

lemma AdvanceDots_run:
  assumes act: "array_ok (n + 1) (n + 1) act" and ct: "array_ok (n + 1) (n + 1) ct" and ij: "0 \<le> i" "i < j" "j \<le> n" and n: "n = vsize ws"
    and input: "lt_arcs (pa_input P) ! nat (j - 1) = [arc]" "vsize (lt_arcs (pa_input P)) = n" "la_label arc = ws ! nat (j - 1)" "la_dist2next arc = 1"
      "la_label arc \<noteq> pa_kEPS P" "0 < la_label arc"
    and N: "spans_ok n N" "\<And>k. i < k \<Longrightarrow> k < j \<Longrightarrow> N k j = set (val2d ct k j) \<and> distinct (val2d ct k j)"
      "\<And>k v. i < k \<Longrightarrow> k < j \<Longrightarrow> v \<in> N k j \<Longrightarrow> 0 \<le> v \<and> v < vsize (hg_nodes hg) \<and> nd_cat (hg_nodes hg ! nat v) = K v \<and> K v < 0"
      "\<And>k k' v. v \<in> N k j \<Longrightarrow> v \<in> N k' j \<Longrightarrow> k = k'"
    and S: "\<And>k. i \<le> k \<Longrightarrow> k < j \<Longrightarrow> items_are trie (matches ws N K i k) (val2d act i k)" and empty: "val2d act i j = []"
  shows "ensures (AdvanceDotsForAllItemsInCell P hg ct i j act) (\<lambda>act'. cell_set n i j act (val2d act' i j) act' \<and>
    items_are trie (matches ws (inner i j N) K i j) (val2d act' i j))"
proof -
  define via where "via k p a \<longleftrightarrow> (\<exists>p0 a0 v. v \<in> N k j \<and> p = p0 @ [K v] \<and> a = a0 @ [v] \<and> matches ws N K i k p0 a0)" for k p a
  have via_eq: "k = k'" if "via k p a" "via k' p a" for k k' p a
  proof -
    obtain a0 v a1 u where "v \<in> N k j" "a = a0 @ [v]" "u \<in> N k' j" "a = a1 @ [u]" using \<open>via k p a\<close> \<open>via k' p a\<close> unfolding via_def by blast
    then show ?thesis using N(4) [of v k k'] by simp
  qed
  let ?T = "\<lambda>m p a. \<exists>k. i < k \<and> k < m \<and> via k p a"
  let ?I = "\<lambda>m act'. cell_set n i j act (val2d act' i j) act' \<and> items_are trie (?T m) (val2d act' i j)"
  have loop: "ensures (for_each (int_range (i + 1) j) (\<lambda>k. ExtendActiveItems hg ct i k j) act) (?I j)"
  proof (rule ensures_for_range [where I = ?I])
    show "?I (i + 1) act" using act empty by (auto simp: cell_set_def items_nil)
  next
    fix k act1 assume k: "i + 1 \<le> k" "k < j" and I: "?I k act1"
    let ?vs = "val2d ct k j"
    note c1 = cell_setD [OF I [THEN conjunct1]]
    have vs: "N k j = set ?vs" "distinct ?vs" using N(2) [of k] k by simp_all
    have low: "0 \<le> v \<and> v < vsize (hg_nodes hg) \<and> nd_cat (hg_nodes hg ! nat v) = K v" if "v \<in> set ?vs" for v
      using N(3) [of k v] vs(1) that k by auto
    have "val2d act1 i k = val2d act i k" using c1(3) [of i k] k ij by simp
    then have Sk: "items_are trie (matches ws N K i k) (val2d act1 i k)" using S [of k] k by simp
    have "ensures (ExtendActiveItems hg ct i k j act1) (\<lambda>act'. \<exists>new. cell_set n i j act1 (val2d act1 i j @ new) act' \<and>
        items_are trie (\<lambda>p a. \<exists>p0 a0 v. v \<in> set ?vs \<and> p = p0 @ [nd_cat (hg_nodes hg ! nat v)] \<and> a = a0 @ [v] \<and> matches ws N K i k p0 a0) new)"
      by (rule ExtendActiveItems_run [OF c1(1) ct _ _ _ refl vs(2) _ Sk]) (use k ij low in auto)
    then show "ensures (ExtendActiveItems hg ct i k j act1) (?I (k + 1))"
    proof (rule ensures_mono)
      fix act2 assume "\<exists>new. cell_set n i j act1 (val2d act1 i j @ new) act2 \<and>
        items_are trie (\<lambda>p a. \<exists>p0 a0 v. v \<in> set ?vs \<and> p = p0 @ [nd_cat (hg_nodes hg ! nat v)] \<and> a = a0 @ [v] \<and> matches ws N K i k p0 a0) new"
      then obtain new where new: "cell_set n i j act1 (val2d act1 i j @ new) act2"
        "items_are trie (\<lambda>p a. \<exists>p0 a0 v. v \<in> set ?vs \<and> p = p0 @ [nd_cat (hg_nodes hg ! nat v)] \<and> a = a0 @ [v] \<and> matches ws N K i k p0 a0) new"
        by blast
      have "(\<exists>p0 a0 v. v \<in> set ?vs \<and> p = p0 @ [nd_cat (hg_nodes hg ! nat v)] \<and> a = a0 @ [v] \<and> matches ws N K i k p0 a0) \<longleftrightarrow> via k p a" for p a
        unfolding via_def vs(1) using low by (intro ex_cong1) auto
      then have "items_are trie (via k) new" using new(2) by simp
      moreover have "\<not> via k p a" if "?T k p a" for p a using that via_eq by blast
      ultimately have "items_are trie (\<lambda>p a. ?T k p a \<or> via k p a) (val2d act1 i j @ new)" by (rule items_union [OF I [THEN conjunct2]])
      moreover have "?T (k + 1) p a \<longleftrightarrow> ?T k p a \<or> via k p a" for p a
      proof -
        have "k' < k + 1 \<longleftrightarrow> k' < k \<or> k' = k" for k' by auto
        moreover have "i < k" using k by simp
        ultimately show ?thesis by metis
      qed
      ultimately have "items_are trie (?T (k + 1)) (val2d act1 i j @ new)" by simp
      moreover have "val2d act2 i j = val2d act1 i j @ new" using cell_setD(2) [OF new(1)] ij by simp
      moreover have "cell_set n i j act (val2d act1 i j @ new) act2" by (rule cell_set_trans [OF I [THEN conjunct1] new(1)])
      ultimately show "?I (k + 1) act2" by simp
    qed
  qed (use ij in auto)
  then obtain act1 where act1: "for_each (int_range (i + 1) j) (\<lambda>k. ExtendActiveItems hg ct i k j) act = Some act1" "?I j act1"
    by (rule ensuresE)
  note c1 = cell_setD [OF act1(2) [THEN conjunct1]]
  have "val2d act1 i (j - 1) = val2d act i (j - 1)" using c1(3) [of i "j - 1"] ij by simp
  then have Sj: "items_are trie (matches ws N K i (j - 1)) (val2d act1 i (j - 1))" using S [of "j - 1"] ij by simp
  have "ensures (extend_arc P i j arc act1) (\<lambda>act'. \<exists>new. cell_set n i j act1 (val2d act1 i j @ new) act' \<and>
      items_are trie (\<lambda>p a. \<exists>p0. p = p0 @ [la_label arc] \<and> matches ws N K i (j - 1) p0 a) new)"
    by (rule extend_arc_run [OF c1(1) ij refl input(4,5) Sj])
  then obtain act2 new where act2: "extend_arc P i j arc act1 = Some act2" "cell_set n i j act1 (val2d act1 i j @ new) act2"
    "items_are trie (\<lambda>p a. \<exists>p0. p = p0 @ [la_label arc] \<and> matches ws N K i (j - 1) p0 a) new"
    by (rule ensuresE) blast
  let ?W = "\<lambda>p a. \<exists>p0. p = p0 @ [la_label arc] \<and> matches ws N K i (j - 1) p0 a"
  have disj: "\<not> ?W p a" if "?T j p a" for p a
  proof -
    obtain k v p0 where v: "i < k" "k < j" "v \<in> N k j" "p = p0 @ [K v]" using \<open>?T j p a\<close> unfolding via_def by blast
    have "K v < 0" using N(3) [OF v(1-3)] by simp
    then show ?thesis using v(4) input(6) by auto
  qed
  have "items_are trie (\<lambda>p a. ?T j p a \<or> ?W p a) (val2d act1 i j @ new)" by (rule items_union [OF act1(2) [THEN conjunct2] act2(3) disj])
  moreover have "(?T j p a \<or> ?W p a) \<longleftrightarrow> matches ws (inner i j N) K i j p a" for p a
  proof -
    have "i \<le> k \<and> k < j \<and> v \<in> inner i j N k j \<and> p = p0 @ [K v] \<and> a = a0 @ [v] \<and> matches ws (inner i j N) K i k p0 a0 \<longleftrightarrow>
        i < k \<and> k < j \<and> v \<in> N k j \<and> p = p0 @ [K v] \<and> a = a0 @ [v] \<and> matches ws N K i k p0 a0" for k v p0 a0
      using matches_inner [OF N(1), of k j i] by (cases "k = i") (simp_all add: inner_def, auto)
    moreover have "matches ws (inner i j N) K i (j - 1) p0 a \<longleftrightarrow> matches ws N K i (j - 1) p0 a" for p0
      by (rule matches_inner [OF N(1)]) (use ij in auto)
    ultimately have m: "matches ws (inner i j N) K i j p a \<longleftrightarrow>
        (\<exists>p0. 0 \<le> j - 1 \<and> j - 1 < vsize ws \<and> p = p0 @ [ws ! nat (j - 1)] \<and> matches ws N K i (j - 1) p0 a) \<or>
        (\<exists>k v p0 a0. i < k \<and> k < j \<and> v \<in> N k j \<and> p = p0 @ [K v] \<and> a = a0 @ [v] \<and> matches ws N K i k p0 a0)"
      unfolding matches_last [OF inner_ok [OF N(1)] ij(2)] by simp
    have "?T j p a \<longleftrightarrow> (\<exists>k v p0 a0. i < k \<and> k < j \<and> v \<in> N k j \<and> p = p0 @ [K v] \<and> a = a0 @ [v] \<and> matches ws N K i k p0 a0)"
      unfolding via_def by blast
    then show ?thesis unfolding m using ij n input(3) by (simp add: disj_commute)
  qed
  ultimately have "items_are trie (matches ws (inner i j N) K i j) (val2d act1 i j @ new)" by simp
  moreover have v2: "val2d act2 i j = val2d act1 i j @ new" using cell_setD(2) [OF act2(2)] ij by simp
  moreover have "cell_set n i j act (val2d act2 i j) act2" unfolding v2 by (rule cell_set_trans [OF act1(2) [THEN conjunct1] act2(2)])
  moreover have "AdvanceDotsForAllItemsInCell P hg ct i j act = Some act2"
    using act1(1) act2(1) input(1,2) ij by (simp add: AdvanceDotsForAllItemsInCell_def vat_eq vsize_def)
  ultimately show ?thesis by (simp add: ensures_Some)
qed

end
