(* ===== verification/ChartSpans.thy ===== *)
theory ChartSpans
  imports ChartItems
begin

text \<open>
  The steps of the bottom-up parser on one span: the rules of the items, the unary rules on the nodes, and the
  items for the nodes that were just proved.
\<close>

section \<open>The rules of the items\<close>

lemma ApplyRules_run:
  assumes "chart_ok n (pa_kGOAL P) s" "0 \<le> i" "i < j" "j \<le> n" "\<And>t. t \<in> set a \<Longrightarrow> 0 \<le> t \<and> t < node_count s"
    "\<And>r. r \<in> set rs \<Longrightarrow> tr_lhs r \<noteq> pa_kGOAL P"
  shows "ensures (ApplyRules P i j rs a cost s) (grown n (pa_kGOAL P) i j (map (\<lambda>r. (r, a)) rs) s)"
  unfolding ApplyRules_def
proof (rule ensures_for_each [where I = "\<lambda>ys. grown n (pa_kGOAL P) i j (map (\<lambda>r. (r, a)) ys) s"])
  show "grown n (pa_kGOAL P) i j (map (\<lambda>r. (r, a)) []) s s" using assms(1) by (simp add: grown_refl)
next
  fix ys r zs s1 assume rs: "rs = ys @ r # zs" and g: "grown n (pa_kGOAL P) i j (map (\<lambda>r. (r, a)) ys) s s1"
  have r: "tr_lhs r \<noteq> pa_kGOAL P" using assms(6) rs by simp
  have tails: "0 \<le> t \<and> t < node_count s1" if "t \<in> set a" for t using assms(5) [OF that] grownD(6) [OF g] by simp
  have "ensures (ApplyRule P i j r a cost s1) (grown n (pa_kGOAL P) i j [(r, a)] s1)"
    by (rule ensures_mono [OF ApplyRule_run [OF grownD(1) [OF g] assms(2-4) tails]]) (use r in simp_all)
  then show "ensures (ApplyRule P i j r a cost s1) (grown n (pa_kGOAL P) i j (map (\<lambda>r. (r, a)) (ys @ [r])) s)"
    by (rule ensures_mono) (use grown_trans [OF g] in auto)
qed

text \<open>The applications that a cell of items gives.\<close>

definition rules_of :: "'f gnode \<Rightarrow> 'f trule list" where
  "rules_of g = (case gn_rules g of None \<Rightarrow> [] | Some rs \<Rightarrow> rs)"

definition cell_rules :: "('f, 'c) active_item list \<Rightarrow> ('f trule \<times> int list) list" where
  "cell_rules cell = concat (map (\<lambda>it. map (\<lambda>r. (r, ai_ant_nodes it)) (rules_of (ai_gptr it))) cell)"

lemma rules_of_walk: "walk trie p = Some g \<Longrightarrow> rules_of g = rules_at trie p"
  by (simp add: rules_of_def rules_at_def)

lemma rules_at_None: "walk trie p = None \<Longrightarrow> rules_at trie p = []"
  by (simp add: rules_at_def)

lemma cell_rules_map: "cell_rules cell = concat (map (\<lambda>(g, a). map (\<lambda>r. (r, a)) (rules_of g)) (map item_of cell))"
  by (simp add: cell_rules_def item_of_def comp_def)

lemma cell_rules_items:
  assumes "items_are trie S cell"
  obtains pas where "distinct pas" "set pas = {(p, a). S p a \<and> walk trie p \<noteq> None}"
    "cell_rules cell = concat (map (\<lambda>(p, a). map (\<lambda>r. (r, a)) (rules_at trie p)) pas)"
proof -
  obtain pas where pas: "distinct pas" "set pas = {(p, a). S p a \<and> walk trie p \<noteq> None}" "map item_of cell = map (\<lambda>(p, a). (the (walk trie p), a)) pas"
    using assms by (auto simp: items_are_def)
  have "rules_of (the (walk trie p)) = rules_at trie p" if "(p, a) \<in> set pas" for p a
    using that pas(2) by (auto simp: rules_of_walk)
  then have "cell_rules cell = concat (map (\<lambda>(p, a). map (\<lambda>r. (r, a)) (rules_at trie p)) pas)"
    unfolding cell_rules_map pas(3) by (auto simp: comp_def split_beta intro!: arg_cong [where f = concat] map_cong)
  then show thesis using that pas by blast
qed

lemma pairs_of_rules: "(r, a) \<in> set (concat (map (\<lambda>(p, a). map (\<lambda>r. (r, a)) (F p)) ps)) \<longleftrightarrow> (\<exists>p. (p, a) \<in> set ps \<and> r \<in> set (F p))"
  by (induction ps) auto

lemma cell_rules_set:
  assumes "items_are trie S cell"
  shows "(r, a) \<in> set (cell_rules cell) \<longleftrightarrow> (\<exists>p. S p a \<and> r \<in> set (rules_at trie p))"
proof -
  obtain pas where "distinct pas" and pas: "set pas = {(p, a). S p a \<and> walk trie p \<noteq> None}"
    "cell_rules cell = concat (map (\<lambda>(p, a). map (\<lambda>r. (r, a)) (rules_at trie p)) pas)"
    by (rule cell_rules_items [OF assms])
  have "(r, a) \<in> set (cell_rules cell) \<longleftrightarrow> (\<exists>p. (p, a) \<in> set pas \<and> r \<in> set (rules_at trie p))"
    unfolding pas(2) by (rule pairs_of_rules)
  moreover have "(p, a) \<in> set pas \<and> r \<in> set (rules_at trie p) \<longleftrightarrow> S p a \<and> r \<in> set (rules_at trie p)" for p
    using pas(1) by (cases "walk trie p") (simp_all add: rules_at_None)
  ultimately show ?thesis by simp
qed

lemma cell_rules_distinct:
  assumes "items_are trie S cell" "\<And>p. distinct (rules_at trie p)" "\<And>p r. r \<in> set (rules_at trie p) \<Longrightarrow> tr_f r = p"
  shows "distinct (cell_rules cell)"
proof -
  obtain pas where pas: "distinct pas" and "set pas = {(p, a). S p a \<and> walk trie p \<noteq> None}"
    and rules: "cell_rules cell = concat (map (\<lambda>(p, a). map (\<lambda>r. (r, a)) (rules_at trie p)) pas)"
    by (rule cell_rules_items [OF assms(1)])
  have "distinct (concat (map (\<lambda>(p, a). map (\<lambda>r. (r, a)) (rules_at trie p)) ps))" if "distinct ps" for ps
    using that
  proof (induction ps)
    case (Cons x ps)
    obtain p a where x: "x = (p, a)" by (cases x)
    have "distinct (map (\<lambda>r. (r, a)) (rules_at trie p))" using assms(2) [of p] by (simp add: distinct_map inj_on_def)
    moreover have sep: "\<not> (r, a) \<in> set (concat (map (\<lambda>(p, a). map (\<lambda>r. (r, a)) (rules_at trie p)) ps))" if r: "r \<in> set (rules_at trie p)" for r
    proof
      assume "(r, a) \<in> set (concat (map (\<lambda>(p, a). map (\<lambda>r. (r, a)) (rules_at trie p)) ps))"
      then obtain q where "(q, a) \<in> set ps" "r \<in> set (rules_at trie q)" unfolding pairs_of_rules by blast
      then show False using assms(3) [OF r] assms(3) [of r q] Cons.prems x by auto
    qed
    moreover have "set (map (\<lambda>r. (r, a)) (rules_at trie p)) \<inter> set (concat (map (\<lambda>(p, a). map (\<lambda>r. (r, a)) (rules_at trie p)) ps)) = {}"
      unfolding disjoint_iff set_map by (intro allI impI, erule imageE) (simp only: sep not_False_eq_True)
    moreover have "distinct (concat (map (\<lambda>(p, a). map (\<lambda>r. (r, a)) (rules_at trie p)) ps))" using Cons by simp
    ultimately show ?case unfolding x list.map concat.simps case_prod_conv distinct_append by (intro conjI)
  qed simp
  then show ?thesis unfolding rules using pas by blast
qed

lemma apply_items_run:
  assumes ok: "chart_ok n (pa_kGOAL P) s" and ij: "0 \<le> i" "i < j" "j \<le> n"
    and act: "0 \<le> gi" "gi < vsize (ch_act s)" "array_ok (n + 1) (n + 1) (ch_act s ! nat gi)" "val2d (ch_act s ! nat gi) i j = cell"
    and rs: "\<And>r a. (r, a) \<in> set (cell_rules cell) \<Longrightarrow> tr_lhs r \<noteq> pa_kGOAL P \<and> (\<forall>t \<in> set a. 0 \<le> t \<and> t < node_count s)"
  shows "ensures (apply_items P gi i j s) (grown n (pa_kGOAL P) i j (cell_rules cell) s)"
proof -
  have "ensures (for_each cell (\<lambda>ai s. (case gn_rules (ai_gptr ai) of None \<Rightarrow> Some s
      | Some rules \<Rightarrow> ApplyRules P i j rules (ai_ant_nodes ai) (ai_lattice_cost ai) s)) s) (grown n (pa_kGOAL P) i j (cell_rules cell) s)"
  proof (rule ensures_for_each [where I = "\<lambda>ys. grown n (pa_kGOAL P) i j (cell_rules ys) s"])
    show "grown n (pa_kGOAL P) i j (cell_rules []) s s" using ok by (simp add: grown_refl cell_rules_def)
  next
    fix ys it zs s1 assume cell: "cell = ys @ it # zs" and g: "grown n (pa_kGOAL P) i j (cell_rules ys) s s1"
    let ?rs = "rules_of (ai_gptr it)" and ?a = "ai_ant_nodes it"
    have snoc: "cell_rules (ys @ [it]) = cell_rules ys @ map (\<lambda>r. (r, ?a)) ?rs" by (simp add: cell_rules_def)
    have in_cell: "(r, ?a) \<in> set (cell_rules cell)" if "r \<in> set ?rs" for r using that by (auto simp: cell cell_rules_def)
    show "ensures (case gn_rules (ai_gptr it) of None \<Rightarrow> Some s1 | Some rules \<Rightarrow> ApplyRules P i j rules ?a (ai_lattice_cost it) s1)
        (grown n (pa_kGOAL P) i j (cell_rules (ys @ [it])) s)"
    proof (cases "gn_rules (ai_gptr it)")
      case None
      then show ?thesis using g snoc by (simp add: ensures_Some rules_of_def)
    next
      case (Some rules)
      then have rules: "?rs = rules" by (simp add: rules_of_def)
      show ?thesis
      proof (cases rules)
        case Nil
        then show ?thesis using Some g snoc rules by (simp add: ensures_Some ApplyRules_def)
      next
        case (Cons r0 rest)
        have tails: "0 \<le> t \<and> t < node_count s1" if "t \<in> set ?a" for t
          using rs [OF in_cell, of r0] Cons rules grownD(6) [OF g] that by fastforce
        have "ensures (ApplyRules P i j rules ?a (ai_lattice_cost it) s1) (grown n (pa_kGOAL P) i j (map (\<lambda>r. (r, ?a)) rules) s1)"
          by (rule ApplyRules_run [OF grownD(1) [OF g] ij tails]) (use rs [OF in_cell] rules in auto)
        then show ?thesis unfolding Some option.case snoc rules by (rule ensures_mono) (rule grown_trans [OF g])
      qed
    qed
  qed
  then show ?thesis
    using at2d_val [OF act(3), of i j] ij act(1,2,4) by (simp add: apply_items_def vat_eq vsize_def)
qed

section \<open>How many nodes there are\<close>

lemma card_spans: "2 * card {(i, j). 0 \<le> i \<and> i < j \<and> j \<le> int n} = n * (n + 1)"
proof (induction n)
  case 0
  have "{(i :: int, j). 0 \<le> i \<and> i < j \<and> j \<le> int 0} = {}" by auto
  then show ?case by (simp only: card.empty)
next
  case (Suc n)
  let ?S = "\<lambda>n. {(i, j). 0 \<le> i \<and> i < j \<and> j \<le> int n}"
  have split: "?S (Suc n) = ?S n \<union> (\<lambda>i. (i, int (Suc n))) ` {0..int n}" by auto
  have "finite (?S n)" by (rule finite_subset [of _ "{0..int n} \<times> {0..int n}"]) auto
  then have "card (?S (Suc n)) = card (?S n) + card ((\<lambda>i. (i, int (Suc n))) ` {0..int n})"
    unfolding split by (intro card_Un_disjoint) auto
  also have "card ((\<lambda>i. (i, int (Suc n))) ` {0..int n}) = n + 1" by (subst card_image) (auto intro: inj_onI)
  finally show ?case using Suc.IH by simp
qed

lemma node_bound:
  assumes ok: "chart_ok n goal s" and n: "0 \<le> n" and C: "finite C" "\<And>i j c. in_chart n i j \<Longrightarrow> node_of s i j c \<noteq> None \<Longrightarrow> c \<in> C"
  shows "2 * node_count s \<le> int (card C) * (n * (n + 1))"
proof -
  let ?S = "{(i, j). 0 \<le> i \<and> i < j \<and> j \<le> n}" and ?V = "{0..<node_count s}"
  note D = chart_okD [OF ok]
  have "\<forall>v \<in> ?V. \<exists>x. in_chart n (fst x) (snd x) \<and> node_of s (fst x) (snd x) (cat_of s v) = Some v" using D(8) by fastforce
  then obtain sp where sp: "v \<in> ?V \<Longrightarrow> in_chart n (fst (sp v)) (snd (sp v)) \<and> node_of s (fst (sp v)) (snd (sp v)) (cat_of s v) = Some v" for v
    by metis
  have inj: "inj_on (\<lambda>v. (sp v, cat_of s v)) ?V"
  proof (rule inj_onI)
    fix v u assume vu: "v \<in> ?V" "u \<in> ?V" "(sp v, cat_of s v) = (sp u, cat_of s u)"
    have eq: "sp v = sp u" "cat_of s v = cat_of s u" using vu(3) by blast+
    have "Some v = Some u" using sp [OF vu(1), THEN conjunct2] sp [OF vu(2), THEN conjunct2] unfolding eq by (rule trans [OF sym])
    then show "v = u" by blast
  qed
  have "(sp v, cat_of s v) \<in> ?S \<times> C" if "v \<in> ?V" for v
  proof -
    note v = sp [OF that, THEN conjunct1] sp [OF that, THEN conjunct2]
    have "fst (sp v) < snd (sp v)" using D(6) [OF v] by blast
    moreover have "cat_of s v \<in> C" by (rule C(2) [OF v(1)]) (simp add: v(2))
    ultimately show ?thesis using v(1) by (simp add: mem_Times_iff split_beta)
  qed
  then have sub: "(\<lambda>v. (sp v, cat_of s v)) ` ?V \<subseteq> ?S \<times> C" by (rule image_subsetI)
  have "finite ?S" by (rule finite_subset [of _ "{0..n} \<times> {0..n}"]) auto
  then have "card ?V \<le> card (?S \<times> C)" by (intro card_inj_on_le [OF inj sub] finite_cartesian_product C(1))
  then have "card ?V \<le> card ?S * card C" by (simp only: card_cartesian_product)
  moreover have "card ?V = length (hg_nodes (ch_forest s))" by (simp add: vsize_def)
  ultimately have "2 * length (hg_nodes (ch_forest s)) \<le> (2 * card ?S) * card C" by simp
  then have "int (2 * length (hg_nodes (ch_forest s))) \<le> int (2 * card ?S) * int (card C)" by (simp only: of_nat_le_iff of_nat_mult [symmetric])
  moreover have "int (2 * card ?S) = n * (n + 1)" using card_spans [of "nat n"] n by (simp add: algebra_simps)
  ultimately show ?thesis by (simp only: vsize_def mult.commute [of "int (card C)"])
qed

text \<open>\<open>nodes_\<close> has room for all the nodes that rules with given categories can add to a span.\<close>

definition room_for :: "int \<Rightarrow> int \<Rightarrow> int \<Rightarrow> int \<Rightarrow> int set \<Rightarrow> ('f, 'w, 'c) chart \<Rightarrow> bool" where
  "room_for n goal i j L s \<longleftrightarrow> (\<forall>s' xs. grown n goal i j xs s s' \<longrightarrow> (\<forall>x \<in> set xs. tr_lhs (fst x) \<in> L) \<longrightarrow> node_count s' \<le> ch_capacity s)"

lemma room_forD: "room_for n goal i j L s \<Longrightarrow> grown n goal i j xs s s' \<Longrightarrow> (\<And>x. x \<in> set xs \<Longrightarrow> tr_lhs (fst x) \<in> L) \<Longrightarrow> node_count s' \<le> ch_capacity s"
  by (simp add: room_for_def)

lemma room_for_grown:
  assumes r: "room_for n goal i j L s" and g: "grown n goal i j xs s s1" and L: "\<And>x. x \<in> set xs \<Longrightarrow> tr_lhs (fst x) \<in> L"
  shows "room_for n goal i j L s1" "ch_moves s1 = ch_moves s"
proof -
  have cap: "ch_capacity s1 = ch_capacity s \<and> ch_moves s1 = ch_moves s" by (rule grownD(11) [OF g room_forD [OF r g L]])
  then show "ch_moves s1 = ch_moves s" ..
  show "room_for n goal i j L s1"
    unfolding room_for_def
  proof (intro allI impI)
    fix s2 ys assume h: "grown n goal i j ys s1 s2" and ys: "\<forall>x \<in> set ys. tr_lhs (fst x) \<in> L"
    have "node_count s2 \<le> ch_capacity s" by (rule room_forD [OF r grown_trans [OF g h]]) (use L ys in auto)
    then show "node_count s2 \<le> ch_capacity s1" using cap by simp
  qed
qed

section \<open>Unary rules\<close>

definition unary_rules :: "'f trule list \<Rightarrow> int \<Rightarrow> int \<Rightarrow> ('f trule \<times> int list) list" where
  "unary_rules us c v = map (\<lambda>r. (r, [v])) (filter (\<lambda>r. tr_f r = [c]) us)"

lemma apply_unaries_to_run:
  assumes ok: "chart_ok n (pa_kGOAL P) s" and ij: "0 \<le> i" "i < j" "j \<le> n" and v: "0 \<le> v" "v < node_count s" and us: "ch_unaries s = us"
    "\<And>r. r \<in> set us \<Longrightarrow> tr_lhs r \<noteq> pa_kGOAL P \<and> (\<exists>c. tr_f r = [c])"
    and room: "us \<noteq> [] \<Longrightarrow> room_for n (pa_kGOAL P) i j (tr_lhs ` set us) s"
  shows "ensures (apply_unaries_to P i j v s) (grown n (pa_kGOAL P) i j (unary_rules us (cat_of s v) v) s)"
proof -
  let ?goal = "pa_kGOAL P" and ?c = "cat_of s v"
  have "ensures (for_each us (\<lambda>r s'. do {
       c \<leftarrow> vat (tr_f r) 0;
       check (ch_moves s' = ch_moves s);
       nd \<leftarrow> vat (hg_nodes (ch_forest s')) v;
       if c = nd_cat nd then ApplyRule P i j r [v] (pa_zero_cost P) s' else Some s' }) s) (grown n ?goal i j (unary_rules us ?c v) s)"
  proof (rule ensures_for_each [where I = "\<lambda>ys. grown n ?goal i j (unary_rules ys ?c v) s"])
    show "grown n ?goal i j (unary_rules [] ?c v) s s" using ok by (simp add: grown_refl unary_rules_def)
  next
    fix ys r zs s1 assume split: "us = ys @ r # zs" and g: "grown n ?goal i j (unary_rules ys ?c v) s s1"
    obtain c where c: "tr_f r = [c]" using us(2) [of r] split by auto
    have r: "tr_lhs r \<noteq> ?goal" using us(2) [of r] split by simp
    have "ch_moves s1 = ch_moves s" by (rule room_for_grown(2) [OF room g]) (use split in \<open>auto simp: unary_rules_def\<close>)
    moreover have v1: "v < node_count s1" "cat_of s1 v = ?c" using grownD(6,7) [OF g] v by simp_all
    moreover have "ensures (if c = ?c then ApplyRule P i j r [v] (pa_zero_cost P) s1 else Some s1) (grown n ?goal i j (unary_rules (ys @ [r]) ?c v) s)"
    proof (cases "c = ?c")
      case True
      have "ensures (ApplyRule P i j r [v] (pa_zero_cost P) s1) (grown n ?goal i j [(r, [v])] s1)"
        by (rule ensures_mono [OF ApplyRule_run [OF grownD(1) [OF g] ij]]) (use r v v1 in auto)
      then have "ensures (ApplyRule P i j r [v] (pa_zero_cost P) s1) (grown n ?goal i j (unary_rules ys ?c v @ [(r, [v])]) s)"
        by (rule ensures_mono) (rule grown_trans [OF g])
      then show ?thesis using True c by (simp add: unary_rules_def)
    next
      case False
      then show ?thesis using g c by (simp add: ensures_Some unary_rules_def)
    qed
    ultimately show "ensures (do {
       c \<leftarrow> vat (tr_f r) 0;
       check (ch_moves s1 = ch_moves s);
       nd \<leftarrow> vat (hg_nodes (ch_forest s1)) v;
       if c = nd_cat nd then ApplyRule P i j r [v] (pa_zero_cost P) s1 else Some s1 }) (grown n ?goal i j (unary_rules (ys @ [r]) ?c v) s)"
      using c v by (simp add: cat_of_def vat_eq vsize_def check_def)
  qed
  then show ?thesis using us(1) v by (simp add: apply_unaries_to_def vat_eq vsize_def)
qed

lemma nodes_few:
  assumes ok: "chart_ok n goal s" and ij: "in_chart n i j" and C: "finite C" "\<And>c. node_of s i j c \<noteq> None \<Longrightarrow> c \<in> C"
  shows "length (nodes_at s i j) \<le> card C"
proof -
  note D = chart_okD [OF ok]
  have node: "node_of s i j (cat_of s v) = Some v" if "v \<in> set (nodes_at s i j)" for v using D(7) [OF ij, of v] that by simp
  have "inj_on (cat_of s) (set (nodes_at s i j))"
  proof (rule inj_onI)
    fix v u assume vu: "v \<in> set (nodes_at s i j)" "u \<in> set (nodes_at s i j)" "cat_of s v = cat_of s u"
    have "Some v = Some u" using node [OF vu(1)] node [OF vu(2)] unfolding vu(3) by (rule trans [OF sym])
    then show "v = u" by blast
  qed
  moreover have "cat_of s ` set (nodes_at s i j) \<subseteq> C" by (intro image_subsetI C(2)) (simp add: node)
  ultimately have "card (set (nodes_at s i j)) \<le> card C" using C(1) by (rule card_inj_on_le)
  then show ?thesis using distinct_card [OF D(5) [OF ij]] by simp
qed

lemma ApplyUnaryRules_run:
  fixes P :: "('f, 'w, 'd, 'c) parser" and s :: "('f, 'w, 'c) chart"
  assumes ok: "chart_ok n (pa_kGOAL P) s" and ij: "0 \<le> i" "i < j" "j \<le> n" and us: "ch_unaries s = us"
    "\<And>r. r \<in> set us \<Longrightarrow> tr_lhs r \<noteq> pa_kGOAL P \<and> (\<exists>c. tr_f r = [c])"
    and room: "us \<noteq> [] \<Longrightarrow> room_for n (pa_kGOAL P) i j (tr_lhs ` set us) s"
  shows "ensures (ApplyUnaryRules P i j s)
    (\<lambda>s'. grown n (pa_kGOAL P) i j (concat (map (\<lambda>v. unary_rules us (cat_of s' v) v) (nodes_at s' i j))) s s')"
proof -
  let ?goal = "pa_kGOAL P"
  let ?ys = "\<lambda>di s1. concat (map (\<lambda>v. unary_rules us (cat_of s1 v) v) (take (nat di) (nodes_at s1 i j)))"
  define I where "I st \<longleftrightarrow> 0 \<le> fst st \<and> fst st \<le> vsize (nodes_at (snd st) i j) \<and> grown n ?goal i j (?ys (fst st) (snd st)) s (snd st)"
    for st :: "int \<times> ('f, 'w, 'c) chart"
  define C where "C = cat_of s ` {0..<node_count s} \<union> tr_lhs ` set us"
  let ?step = "\<lambda>(di, s). do { nodes \<leftarrow> at2d (ch_chart s) i j; v \<leftarrow> vat nodes di; s \<leftarrow> apply_unaries_to P i j v s; Some (di + 1, s) }"
  have in_ij: "in_chart n i j" using ij by simp
  have cell: "at2d (ch_chart s1) i j = Some (nodes_at s1 i j)" if "chart_ok n ?goal s1" for s1 :: "('f, 'w, 'c) chart"
    using at2d_val [OF chart_okD(2) [OF that], of i j] ij by (simp add: nodes_at_def)
  have more: "more_nodes i j st \<longleftrightarrow> fst st < vsize (nodes_at (snd st) i j)" if "I st" for st
  proof -
    have "chart_ok n ?goal (snd st)" using that grownD(1) unfolding I_def by blast
    from cell [OF this] show ?thesis by (simp add: more_nodes_def)
  qed
  have lhs: "tr_lhs (fst x) \<in> tr_lhs ` set us" if "x \<in> set (?ys di s1)" for x di s1
    using that by (auto simp: unary_rules_def)
  have start: "I (0, s)" using grown_refl [OF ok] by (simp add: I_def)
  have "ensures (loop_while (more_nodes i j) ?step (0, s)) (\<lambda>st. I st \<and> \<not> more_nodes i j st)"
  proof (rule loop_while_total [where I = I and m = "\<lambda>st. card C - nat (fst st)", OF start])
    fix st assume I: "I st" and c: "more_nodes i j st"
    obtain di s1 where st: "st = (di, s1)" by (cases st)
    have di: "0 \<le> di" "di < vsize (nodes_at s1 i j)" and g: "grown n ?goal i j (?ys di s1) s s1" using I more [OF I] c by (simp_all add: I_def st)
    let ?v = "nodes_at s1 i j ! nat di"
    note D = chart_okD [OF grownD(1) [OF g]]
    have v: "?v \<in> set (nodes_at s1 i j)" using di by (simp add: vsize_def)
    have node: "node_of s1 i j (cat_of s1 u) = Some u" if "u \<in> set (nodes_at s1 i j)" for u using D(7) [OF in_ij, of u] that by simp
    have low: "0 \<le> u \<and> u < node_count s1" if "u \<in> set (nodes_at s1 i j)" for u using D(6) [OF in_ij node [OF that]] by simp
    have us1: "ch_unaries s1 = us" using grownD(9) [OF g] us(1) by simp
    have room1: "room_for n ?goal i j (tr_lhs ` set us) s1" if "us \<noteq> []" by (rule room_for_grown(1) [OF room [OF that] g lhs])
    have v_low: "0 \<le> ?v" "?v < node_count s1" using low [OF v] by simp_all
    obtain s2 where s2: "apply_unaries_to P i j ?v s1 = Some s2" and h: "grown n ?goal i j (unary_rules us (cat_of s1 ?v) ?v) s1 s2"
      by (rule ensuresE [OF apply_unaries_to_run [OF grownD(1) [OF g] ij v_low us1 us(2) room1]])
    obtain vs where vs: "nodes_at s2 i j = nodes_at s1 i j @ vs" using grownD(5) [OF h] by blast
    have take: "take (nat (di + 1)) (nodes_at s2 i j) = take (nat di) (nodes_at s1 i j) @ [?v]"
      using di by (simp add: vs vsize_def nat_add_distrib take_Suc_conv_app_nth)
    have cats: "cat_of s2 u = cat_of s1 u" if "u \<in> set (nodes_at s1 i j)" for u using grownD(7) [OF h] low [OF that] by simp
    have same: "map (\<lambda>v. unary_rules us (cat_of s2 v) v) (take (nat di) (nodes_at s1 i j)) = map (\<lambda>v. unary_rules us (cat_of s1 v) v) (take (nat di) (nodes_at s1 i j))"
    proof (rule map_cong [OF refl])
      fix u assume "u \<in> set (take (nat di) (nodes_at s1 i j))"
      then show "unary_rules us (cat_of s2 u) u = unary_rules us (cat_of s1 u) u" by (simp only: cats [OF in_set_takeD])
    qed
    have "?ys (di + 1) s2 = ?ys di s1 @ unary_rules us (cat_of s1 ?v) ?v"
      by (simp only: take map_append concat_append same list.map concat.simps append_Nil2 cats [OF v])
    then have "I (di + 1, s2)" using grown_trans [OF g h] di vs by (simp add: I_def vsize_def)
    moreover have "nat di < card C"
    proof -
      have old: "c \<in> cat_of s ` {0..<node_count s}" if some: "node_of s i j c \<noteq> None" for c
      proof -
        obtain u where u: "node_of s i j c = Some u" using some by blast
        have "c = cat_of s u" "u \<in> {0..<node_count s}" using chart_okD(6) [OF ok in_ij u] by simp_all
        then show ?thesis by (rule image_eqI)
      qed
      have in_C: "c \<in> C" if "node_of s1 i j c \<noteq> None" for c
      proof -
        consider "node_of s i j c \<noteq> None" | x where "x \<in> set (?ys di s1)" "c = tr_lhs (fst x)"
          using \<open>node_of s1 i j c \<noteq> None\<close> unfolding grownD(4) [OF g] by blast
        then show ?thesis
        proof cases
          case 1
          then show ?thesis unfolding C_def by (rule UnI1 [OF old])
        next
          case 2
          then show ?thesis using lhs [OF 2(1)] by (simp only: C_def Un_iff simp_thms)
        qed
      qed
      have "finite C" by (simp add: C_def)
      then have "length (nodes_at s1 i j) \<le> card C" by (rule nodes_few [OF grownD(1) [OF g] in_ij]) (rule in_C)
      then show ?thesis using di by (simp add: vsize_def)
    qed
    ultimately show "ensures (?step st) (\<lambda>st'. I st' \<and> card C - nat (fst st') < card C - nat (fst st))"
      using s2 di cell [OF grownD(1) [OF g]] by (simp add: st ensures_Some vat_eq vsize_def nat_add_distrib)
  qed
  then have "ensures (loop_while (more_nodes i j) ?step (0, s)) (\<lambda>st. grown n ?goal i j (concat (map (\<lambda>v. unary_rules us (cat_of (snd st) v) v) (nodes_at (snd st) i j))) s (snd st))"
  proof (rule ensures_mono)
    fix st assume st: "I st \<and> \<not> more_nodes i j st"
    then have "nat (fst st) = length (nodes_at (snd st) i j)" using more [of st] by (simp add: I_def vsize_def)
    then show "grown n ?goal i j (concat (map (\<lambda>v. unary_rules us (cat_of (snd st) v) v) (nodes_at (snd st) i j))) s (snd st)"
      using st by (simp add: I_def)
  qed
  then show ?thesis by (simp add: ApplyUnaryRules_def ensures_map)
qed

end
