(* ===== verification/ChartVisit.thy ===== *)
theory ChartVisit
  imports ChartSpans
begin

text \<open>
  A visit of a span by the bottom-up parser: afterwards its nodes and the items of all grammars are what the
  grammars, the sentence and the nodes of the smaller spans say.
\<close>

section \<open>What is parsed\<close>

definition sentence :: "int list \<Rightarrow> 'd lattice \<Rightarrow> bool" where
  "sentence ws l \<longleftrightarrow> lattice_size l = vsize ws \<and>
     (\<forall>i. 0 \<le> i \<longrightarrow> i < vsize ws \<longrightarrow> (\<exists>arc. lt_arcs l ! nat i = [arc] \<and> la_label arc = ws ! nat i \<and> la_dist2next arc = 1)) \<and>
     (\<forall>i j. 0 \<le> i \<longrightarrow> i < j \<longrightarrow> j \<le> vsize ws \<longrightarrow> Distance l i j = Some (j - i))"

definition parser_ok :: "('f, 'w, 'd, 'c) parser \<Rightarrow> int list \<Rightarrow> 'f trule list \<Rightarrow> bool" where
  "parser_ok P ws us \<longleftrightarrow> sentence ws (pa_input P) \<and> (\<forall>w \<in> set ws. 0 < w \<and> w \<noteq> pa_kEPS P) \<and>
     (\<forall>g \<in> set (pa_grammars P). (\<forall>i k j. gr_has_rule g i j (j - i) \<longrightarrow> i \<le> k \<longrightarrow> k \<le> j \<longrightarrow> gr_has_rule g i k (k - i)) \<and>
        (\<forall>p. \<forall>r \<in> set (rules_at (gr_root g) p). tr_f r = p \<and> tr_lhs r < 0 \<and> tr_lhs r \<noteq> pa_kGOAL P \<and> \<not> (\<exists>c < 0. p = [c]))) \<and>
     (\<forall>r \<in> set us. tr_lhs r < 0 \<and> tr_lhs r \<noteq> pa_kGOAL P \<and> (\<exists>c < 0. tr_f r = [c]))"

lemma parser_okD:
  assumes "parser_ok P ws us"
  shows "sentence ws (pa_input P)" "w \<in> set ws \<Longrightarrow> 0 < w \<and> w \<noteq> pa_kEPS P"
    "g \<in> set (pa_grammars P) \<Longrightarrow> gr_has_rule g i j (j - i) \<Longrightarrow> i \<le> k \<Longrightarrow> k \<le> j \<Longrightarrow> gr_has_rule g i k (k - i)"
    "g \<in> set (pa_grammars P) \<Longrightarrow> r \<in> set (rules_at (gr_root g) p) \<Longrightarrow> tr_f r = p \<and> tr_lhs r < 0 \<and> tr_lhs r \<noteq> pa_kGOAL P \<and> \<not> (\<exists>c < 0. p = [c])"
    "r \<in> set us \<Longrightarrow> tr_lhs r < 0 \<and> tr_lhs r \<noteq> pa_kGOAL P \<and> (\<exists>c < 0. tr_f r = [c])"
proof -
  note d1 = assms [unfolded parser_ok_def] note d2 = d1 [THEN conjunct2] note d3 = d2 [THEN conjunct2]
  show "sentence ws (pa_input P)" by (rule d1 [THEN conjunct1])
  show "w \<in> set ws \<Longrightarrow> 0 < w \<and> w \<noteq> pa_kEPS P" by (rule d2 [THEN conjunct1, rule_format])
  show "r \<in> set us \<Longrightarrow> tr_lhs r < 0 \<and> tr_lhs r \<noteq> pa_kGOAL P \<and> (\<exists>c < 0. tr_f r = [c])" by (rule d3 [THEN conjunct2, rule_format])
  assume g: "g \<in> set (pa_grammars P)"
  note d4 = d3 [THEN conjunct1, rule_format, OF g]
  show "gr_has_rule g i j (j - i) \<Longrightarrow> i \<le> k \<Longrightarrow> k \<le> j \<Longrightarrow> gr_has_rule g i k (k - i)" by (rule d4 [THEN conjunct1, rule_format])
  show "r \<in> set (rules_at (gr_root g) p) \<Longrightarrow> tr_f r = p \<and> tr_lhs r < 0 \<and> tr_lhs r \<noteq> pa_kGOAL P \<and> \<not> (\<exists>c < 0. p = [c])"
    by (rule d4 [THEN conjunct2, rule_format])
qed

text \<open>No rule is given twice.\<close>

definition rules_distinct :: "'f grammar list \<Rightarrow> 'f trule list \<Rightarrow> bool" where
  "rules_distinct gs us \<longleftrightarrow> distinct us \<and> (\<forall>g \<in> set gs. \<forall>p. distinct (rules_at (gr_root g) p)) \<and>
     (\<forall>i j p q. i < j \<longrightarrow> j < length gs \<longrightarrow> set (rules_at (gr_root (gs ! i)) p) \<inter> set (rules_at (gr_root (gs ! j)) q) = {})"

section \<open>States that differ in their active items\<close>

lemma act_simps [simp]:
  "nodes_at (s\<lparr>ch_act := x\<rparr>) i j = nodes_at s i j" "node_of (s\<lparr>ch_act := x\<rparr>) i j c = node_of s i j c" "cat_of (s\<lparr>ch_act := x\<rparr>) = cat_of s"
  "apps (s\<lparr>ch_act := x\<rparr>) = apps s" "chart_ok n goal (s\<lparr>ch_act := x\<rparr>) \<longleftrightarrow> chart_ok n goal s"
  by (simp_all add: nodes_at_def node_of_def cat_of_def [abs_def] apps_def chart_ok_def)

definition moved :: "int \<Rightarrow> int \<Rightarrow> int \<Rightarrow> int \<Rightarrow> ('f trule \<times> int list) list \<Rightarrow> ('f, 'w, 'c) chart \<Rightarrow> ('f, 'w, 'c) chart \<Rightarrow> bool" where
  "moved n goal i j xs s s' \<longleftrightarrow> grown n goal i j xs s (s'\<lparr>ch_act := ch_act s\<rparr>)"

lemma moved_grown: "moved n goal i j xs s s1 \<Longrightarrow> grown n goal i j ys s1 s2 \<Longrightarrow> moved n goal i j (xs @ ys) s s2"
proof -
  assume m: "moved n goal i j xs s s1" and g: "grown n goal i j ys s1 s2"
  have "grown n goal i j ys (s1\<lparr>ch_act := ch_act s\<rparr>) (s2\<lparr>ch_act := ch_act s\<rparr>)" using g by (simp add: grown_def)
  then show ?thesis using grown_trans [OF m [unfolded moved_def]] by (simp add: moved_def)
qed

lemma moved_act: "moved n goal i j xs s (s1\<lparr>ch_act := x\<rparr>) \<longleftrightarrow> moved n goal i j xs s s1"
  by (simp add: moved_def)

lemma moved_refl: "chart_ok n goal s \<Longrightarrow> moved n goal i j [] s s"
  by (simp add: moved_def grown_refl)

lemma with_act_run:
  assumes "0 \<le> gi" "gi < vsize (ch_act s)" "ensures (f (ch_act s ! nat gi)) Q"
  shows "ensures (with_act gi f s) (\<lambda>s'. \<exists>act. Q act \<and> s' = s\<lparr>ch_act := (ch_act s)[nat gi := act]\<rparr>)"
  using assms by (auto simp: with_act_def vat_eq vset_eq vsize_def ensures_def)

definition span_nodes :: "int \<Rightarrow> ('f, 'w, 'c) chart \<Rightarrow> int \<Rightarrow> int \<Rightarrow> int set" where
  "span_nodes n s i j = (if in_chart n i j then set (nodes_at s i j) else {})"

lemma span_nodes_act [simp]: "span_nodes n (s\<lparr>ch_act := x\<rparr>) = span_nodes n s"
  by (intro ext) (simp add: span_nodes_def)

lemma span_nodes_ok:
  assumes "chart_ok n goal s"
  shows "spans_ok n (span_nodes n s)"
    "v \<in> span_nodes n s i j \<Longrightarrow> in_chart n i j \<and> node_of s i j (cat_of s v) = Some v \<and> 0 \<le> v \<and> v < node_count s \<and> cat_of s v \<noteq> goal"
    "v \<in> span_nodes n s i j \<Longrightarrow> v \<in> span_nodes n s i' j' \<Longrightarrow> i = i' \<and> j = j'"
proof -
  note D = chart_okD [OF assms]
  have node: "in_chart n i j \<and> node_of s i j (cat_of s v) = Some v \<and> cat_of s v \<noteq> goal" if "v \<in> span_nodes n s i j" for v i j
    using that D(7) [of i j v] by (simp add: span_nodes_def split: if_splits)
  show "v \<in> span_nodes n s i j \<Longrightarrow> in_chart n i j \<and> node_of s i j (cat_of s v) = Some v \<and> 0 \<le> v \<and> v < node_count s \<and> cat_of s v \<noteq> goal"
    using node [of v i j] D(6) [of i j "cat_of s v" v] by simp
  show "v \<in> span_nodes n s i j \<Longrightarrow> v \<in> span_nodes n s i' j' \<Longrightarrow> i = i' \<and> j = j'"
    using node [of v i j] node [of v i' j'] D(9) [of i j i' j' "cat_of s v" v "cat_of s v"] by simp
  have "0 \<le> i \<and> i < j \<and> j \<le> n" if "v \<in> span_nodes n s i j" for v i j
    using node [OF that] D(6) [of i j "cat_of s v" v] by simp
  then show "spans_ok n (span_nodes n s)" by (auto simp: spans_ok_def)
qed

section \<open>The rules of the grammars\<close>

lemma test_span_run:
  assumes "sentence ws (pa_input P)" "0 \<le> i" "i < j" "j \<le> vsize ws"
  shows "test_span P g i j = Some (gr_has_rule g i j (j - i))"
  using assms by (simp add: test_span_def sentence_def)

text \<open>The items that lead to rules for a span, and the state before it is visited.\<close>

abbreviation span_matches :: "int list \<Rightarrow> ('f, 'w, 'c) chart \<Rightarrow> int \<Rightarrow> int \<Rightarrow> int list \<Rightarrow> int list \<Rightarrow> bool" where
  "span_matches ws s i j \<equiv> matches ws (inner i j (span_nodes (vsize ws) s)) (cat_of s) i j"

definition ready :: "('f, 'w, 'd, 'c) parser \<Rightarrow> int list \<Rightarrow> int \<Rightarrow> int \<Rightarrow> ('f, 'w, 'c) chart \<Rightarrow> bool" where
  "ready P ws i j s \<longleftrightarrow> chart_ok (vsize ws) (pa_kGOAL P) s \<and> length (ch_act s) = length (pa_grammars P) \<and>
     (\<forall>k l v. v \<in> span_nodes (vsize ws) s k l \<longrightarrow> cat_of s v < 0) \<and>
     (\<forall>gi < length (pa_grammars P). array_ok (vsize ws + 1) (vsize ws + 1) (ch_act s ! gi) \<and> val2d (ch_act s ! gi) i j = [] \<and>
        (\<forall>k. i \<le> k \<longrightarrow> k < j \<longrightarrow> gr_has_rule (pa_grammars P ! gi) i k (k - i) \<longrightarrow>
           items_are (gr_root (pa_grammars P ! gi)) (matches ws (span_nodes (vsize ws) s) (cat_of s) i k) (val2d (ch_act s ! gi) i k)))"

text \<open>The active chart of a grammar after its dots were advanced.\<close>

definition advanced :: "('f, 'w, 'd, 'c) parser \<Rightarrow> int list \<Rightarrow> int \<Rightarrow> int \<Rightarrow> ('f, 'w, 'c) chart \<Rightarrow> nat \<Rightarrow> ('f, 'c) active_item list array2d \<Rightarrow> bool" where
  "advanced P ws i j s gi act \<longleftrightarrow> (if gr_has_rule (pa_grammars P ! gi) i j (j - i) then
       cell_set (vsize ws) i j (ch_act s ! gi) (val2d act i j) act \<and> items_are (gr_root (pa_grammars P ! gi)) (span_matches ws s i j) (val2d act i j)
     else act = ch_act s ! gi)"

lemma advance_run:
  assumes P: "parser_ok P ws us" and ready: "ready P ws i j s" and ij: "0 \<le> i" "i < j" "j \<le> vsize ws" and gi: "gi < length (pa_grammars P)"
    and has: "gr_has_rule (pa_grammars P ! gi) i j (j - i)" and m: "moved (vsize ws) (pa_kGOAL P) i j xs s s1"
  shows "ensures (AdvanceDotsForAllItemsInCell P (ch_forest s1) (ch_chart s1) i j (ch_act s ! gi)) (advanced P ws i j s gi)"
proof -
  let ?n = "vsize ws" and ?goal = "pa_kGOAL P" and ?g = "pa_grammars P ! gi" and ?N = "span_nodes (vsize ws) s"
  note r1 = ready [unfolded ready_def] note r2 = r1 [THEN conjunct2, THEN conjunct2]
  have ok: "chart_ok ?n ?goal s" by (rule r1 [THEN conjunct1])
  have neg: "cat_of s v < 0" if "v \<in> ?N k l" for v k l using r2 [THEN conjunct1] that by blast
  note acts = r2 [THEN conjunct2, rule_format, OF gi]
  have act: "array_ok (?n + 1) (?n + 1) (ch_act s ! gi)" "val2d (ch_act s ! gi) i j = []" using acts by blast+
  have g: "?g \<in> set (pa_grammars P)" using gi by simp
  have items: "items_are (gr_root ?g) (matches ws ?N (cat_of s) i k) (val2d (ch_act s ! gi) i k)" if "i \<le> k" "k < j" for k
    using acts that parser_okD(3) [OF P g has that(1)] by simp
  note G = grownD [OF m [unfolded moved_def]] note N = span_nodes_ok [OF ok]
  have ct: "array_ok (?n + 1) (?n + 1) (ch_chart s1)" using chart_okD(2) [OF G(1)] by simp
  obtain arc where arc: "lt_arcs (pa_input P) ! nat (j - 1) = [arc]" "la_label arc = ws ! nat (j - 1)" "la_dist2next arc = 1"
    using parser_okD(1) [OF P, unfolded sentence_def, THEN conjunct2, THEN conjunct1, rule_format, of "j - 1"] ij by auto
  have "ws ! nat (j - 1) \<in> set ws" using ij by (simp add: vsize_def)
  then have word: "la_label arc \<noteq> pa_kEPS P" "0 < la_label arc" using parser_okD(2) [OF P] arc(2) by auto
  have size: "vsize (lt_arcs (pa_input P)) = ?n" using parser_okD(1) [OF P] by (simp add: sentence_def lattice_size_def)
  have nodes: "nodes_at s1 k j = nodes_at s k j" if "i < k" "k < j" for k using G(3) [of k j] that ij by simp
  have "ensures (AdvanceDotsForAllItemsInCell P (ch_forest s1) (ch_chart s1) i j (ch_act s ! gi)) (\<lambda>act'. cell_set ?n i j (ch_act s ! gi) (val2d act' i j) act' \<and>
      items_are (gr_root ?g) (matches ws (inner i j ?N) (cat_of s) i j) (val2d act' i j))"
  proof (rule AdvanceDots_run [OF act(1) ct ij refl arc(1) size arc(2,3) word N(1)])
    show "?N k j = set (val2d (ch_chart s1) k j) \<and> distinct (val2d (ch_chart s1) k j)" if "i < k" "k < j" for k
      using nodes [OF that] chart_okD(5) [OF ok, of k j] that ij by (simp add: span_nodes_def nodes_at_def)
    show "0 \<le> v \<and> v < vsize (hg_nodes (ch_forest s1)) \<and> nd_cat (hg_nodes (ch_forest s1) ! nat v) = cat_of s v \<and> cat_of s v < 0"
      if "i < k" "k < j" "v \<in> ?N k j" for k v
      using N(2) [OF that(3)] G(6) G(7) [of v] neg [OF that(3)] by (simp add: cat_of_def)
    show "k = k'" if "v \<in> ?N k j" "v \<in> ?N k' j" for k k' v using N(3) [OF that] ..
  qed (rule items act(2) | assumption)+
  then show ?thesis by (rule ensures_mono) (simp add: advanced_def has)
qed

text \<open>The rules that the first grammars give for the span.\<close>

definition span_rule :: "('f, 'w, 'd, 'c) parser \<Rightarrow> int list \<Rightarrow> int \<Rightarrow> int \<Rightarrow> ('f, 'w, 'c) chart \<Rightarrow> nat \<Rightarrow> 'f trule \<Rightarrow> int list \<Rightarrow> bool" where
  "span_rule P ws i j s m r a \<longleftrightarrow> (\<exists>gi < m. gr_has_rule (pa_grammars P ! gi) i j (j - i) \<and>
     (\<exists>p. span_matches ws s i j p a \<and> r \<in> set (rules_at (gr_root (pa_grammars P ! gi)) p)))"

definition grammars_applied :: "('f, 'w, 'd, 'c) parser \<Rightarrow> int list \<Rightarrow> 'f trule list \<Rightarrow> int \<Rightarrow> int \<Rightarrow> ('f, 'w, 'c) chart \<Rightarrow> nat \<Rightarrow> ('f trule \<times> int list) list \<Rightarrow> ('f, 'w, 'c) chart \<Rightarrow> bool" where
  "grammars_applied P ws us i j s m xs s1 \<longleftrightarrow> moved (vsize ws) (pa_kGOAL P) i j xs s s1 \<and> (\<forall>r a. (r, a) \<in> set xs \<longleftrightarrow> span_rule P ws i j s m r a) \<and>
     (rules_distinct (pa_grammars P) us \<longrightarrow> distinct xs) \<and> length (ch_act s1) = length (pa_grammars P) \<and>
     (\<forall>gi < length (pa_grammars P). if gi < m then advanced P ws i j s gi (ch_act s1 ! gi) else ch_act s1 ! gi = ch_act s ! gi)"

lemma span_matches_nodes:
  assumes "chart_ok (vsize ws) goal s" "span_matches ws s i j p a" "t \<in> set a"
  shows "0 \<le> t \<and> t < node_count s"
proof -
  obtain k l where "t \<in> inner i j (span_nodes (vsize ws) s) k l" using matches_nodes [OF assms(2,3)] by blast
  then have "t \<in> span_nodes (vsize ws) s k l" by (simp add: inner_def split: if_splits)
  then show ?thesis using span_nodes_ok(2) [OF assms(1)] by blast
qed

lemma grammar_step:
  assumes P: "parser_ok P ws us" and ready: "ready P ws i j s" and ij: "0 \<le> i" "i < j" "j \<le> vsize ws" and gi: "gi < length (pa_grammars P)"
    and A: "grammars_applied P ws us i j s gi xs s1"
  shows "ensures (if gr_has_rule (pa_grammars P ! gi) i j (j - i) then do {
         s \<leftarrow> with_act (int gi) (AdvanceDotsForAllItemsInCell P (ch_forest s1) (ch_chart s1) i j) s1;
         apply_items P (int gi) i j s }
       else Some s1) (\<lambda>s2. \<exists>ys. grammars_applied P ws us i j s (Suc gi) (xs @ ys) s2)"
proof (cases "gr_has_rule (pa_grammars P ! gi) i j (j - i)")
  case False
  then have "span_rule P ws i j s (Suc gi) r a \<longleftrightarrow> span_rule P ws i j s gi r a" for r a by (auto simp: span_rule_def less_Suc_eq)
  moreover have "advanced P ws i j s gi (ch_act s ! gi)" using False by (simp add: advanced_def)
  ultimately have "grammars_applied P ws us i j s (Suc gi) (xs @ []) s1" using A by (simp add: grammars_applied_def less_Suc_eq)
  then show ?thesis using False by (simp only: if_False ensures_Some) blast
next
  case True
  let ?n = "vsize ws" and ?goal = "pa_kGOAL P" and ?root = "gr_root (pa_grammars P ! gi)"
  note a1 = A [unfolded grammars_applied_def] note a2 = a1 [THEN conjunct2] note a3 = a2 [THEN conjunct2] note a4 = a3 [THEN conjunct2]
  have m: "moved ?n ?goal i j xs s s1" by (rule a1 [THEN conjunct1])
  have len: "length (ch_act s1) = length (pa_grammars P)" by (rule a4 [THEN conjunct1])
  have acts: "if gi' < gi then advanced P ws i j s gi' (ch_act s1 ! gi') else ch_act s1 ! gi' = ch_act s ! gi'" if "gi' < length (pa_grammars P)" for gi'
    by (rule a4 [THEN conjunct2, rule_format, OF that])
  have ok: "chart_ok ?n ?goal s" using ready by (simp add: ready_def)
  note G = grownD [OF m [unfolded moved_def]]
  have g: "pa_grammars P ! gi \<in> set (pa_grammars P)" using gi by simp
  have "ch_act s1 ! gi = ch_act s ! gi" using acts [OF gi] by simp
  then have "ensures (AdvanceDotsForAllItemsInCell P (ch_forest s1) (ch_chart s1) i j (ch_act s1 ! nat (int gi))) (advanced P ws i j s gi)"
    using advance_run [OF P ready ij gi True m] by simp
  then have "ensures (with_act (int gi) (AdvanceDotsForAllItemsInCell P (ch_forest s1) (ch_chart s1) i j) s1)
      (\<lambda>s'. \<exists>act. advanced P ws i j s gi act \<and> s' = s1\<lparr>ch_act := (ch_act s1)[nat (int gi) := act]\<rparr>)"
    by (intro with_act_run) (use gi len in \<open>simp_all add: vsize_def\<close>)
  then obtain s2 where run: "with_act (int gi) (AdvanceDotsForAllItemsInCell P (ch_forest s1) (ch_chart s1) i j) s1 = Some s2"
    "\<exists>act. advanced P ws i j s gi act \<and> s2 = s1\<lparr>ch_act := (ch_act s1)[nat (int gi) := act]\<rparr>" by (rule ensuresE)
  then obtain act where act: "advanced P ws i j s gi act" and s2: "s2 = s1\<lparr>ch_act := (ch_act s1)[gi := act]\<rparr>" by auto
  have cell: "cell_set ?n i j (ch_act s ! gi) (val2d act i j) act" "items_are ?root (span_matches ws s i j) (val2d act i j)"
    using act True by (simp_all add: advanced_def)
  let ?ys = "cell_rules (val2d act i j)"
  have ys: "(r, a) \<in> set ?ys \<longleftrightarrow> (\<exists>p. span_matches ws s i j p a \<and> r \<in> set (rules_at ?root p))" for r a
    by (rule cell_rules_set [OF cell(2)])
  have ok2: "chart_ok ?n ?goal s2" using G(1) by (simp add: s2)
  have act2: "array_ok (?n + 1) (?n + 1) (ch_act s2 ! nat (int gi))" "val2d (ch_act s2 ! nat (int gi)) i j = val2d act i j"
    using cell_setD(1) [OF cell(1)] gi len by (simp_all add: s2)
  have rules: "tr_lhs r \<noteq> ?goal \<and> (\<forall>t \<in> set a. 0 \<le> t \<and> t < node_count s2)" if ra: "(r, a) \<in> set ?ys" for r a
  proof -
    obtain p where p: "span_matches ws s i j p a" "r \<in> set (rules_at ?root p)" using ra unfolding ys by blast
    have "node_count s \<le> node_count s2" using G(6) by (simp add: s2)
    then show ?thesis using parser_okD(4) [OF P g p(2)] span_matches_nodes [OF ok p(1)] by fastforce
  qed
  have "ensures (apply_items P (int gi) i j s2) (grown ?n ?goal i j ?ys s2)"
    by (rule apply_items_run [OF ok2 ij _ _ act2 rules]) (use gi len in \<open>simp_all add: vsize_def s2\<close>)
  then have "ensures (apply_items P (int gi) i j s2) (\<lambda>s3. \<exists>ys. grammars_applied P ws us i j s (Suc gi) (xs @ ys) s3)"
  proof (rule ensures_mono)
    fix s3 assume h: "grown ?n ?goal i j ?ys s2 s3"
    have "moved ?n ?goal i j xs s s2" using m by (simp add: s2 moved_act)
    then have m3: "moved ?n ?goal i j (xs @ ?ys) s s3" by (rule moved_grown [OF _ h])
    have acts3: "ch_act s3 = (ch_act s1)[gi := act]" using grownD(8) [OF h] by (simp add: s2)
    have mem: "(r, a) \<in> set (xs @ ?ys) \<longleftrightarrow> span_rule P ws i j s (Suc gi) r a" for r a
      using a2 [THEN conjunct1, rule_format, of r a] ys [of r a] True by (simp add: span_rule_def less_Suc_eq) blast
    have dist: "distinct (xs @ ?ys)" if d: "rules_distinct (pa_grammars P) us"
    proof -
      have "distinct xs" using a3 [THEN conjunct1] d by simp
      moreover have "distinct ?ys"
        by (rule cell_rules_distinct [OF cell(2)]) (use d parser_okD(4) [OF P g] g in \<open>simp_all add: rules_distinct_def\<close>)
      moreover have "\<not> ((r, a) \<in> set xs \<and> (r, a) \<in> set ?ys)" for r a
      proof
        assume ra: "(r, a) \<in> set xs \<and> (r, a) \<in> set ?ys"
        obtain gi' p where p: "gi' < gi" "r \<in> set (rules_at (gr_root (pa_grammars P ! gi')) p)"
          using ra a2 [THEN conjunct1, rule_format, of r a] unfolding span_rule_def by blast
        obtain q where q: "r \<in> set (rules_at ?root q)" using ra ys by blast
        have "set (rules_at (gr_root (pa_grammars P ! gi')) p) \<inter> set (rules_at ?root q) = {}"
          using d p(1) gi by (simp add: rules_distinct_def)
        then show False using p(2) q by blast
      qed
      ultimately show ?thesis unfolding distinct_append by auto
    qed
    have charts: "if gi' < Suc gi then advanced P ws i j s gi' (ch_act s3 ! gi') else ch_act s3 ! gi' = ch_act s ! gi'" if "gi' < length (pa_grammars P)" for gi'
      using acts [OF that] act len gi by (cases "gi' = gi") (auto simp: acts3)
    have "length (ch_act s3) = length (pa_grammars P)" by (simp add: acts3 len)
    then have "grammars_applied P ws us i j s (Suc gi) (xs @ ?ys) s3"
      unfolding grammars_applied_def by (intro conjI allI impI m3 mem dist charts)
    then show "\<exists>ys. grammars_applied P ws us i j s (Suc gi) (xs @ ys) s3" ..
  qed
  then show ?thesis using run(1) True by simp
qed

lemma apply_grammars_run:
  assumes P: "parser_ok P ws us" and ready: "ready P ws i j s" and ij: "0 \<le> i" "i < j" "j \<le> vsize ws"
  shows "ensures (for_each (positions (pa_grammars P)) (\<lambda>gi s. do {
       g \<leftarrow> vat (pa_grammars P) gi;
       has \<leftarrow> test_span P g i j;
       if has then do {
         s \<leftarrow> with_act gi (AdvanceDotsForAllItemsInCell P (ch_forest s) (ch_chart s) i j) s;
         apply_items P gi i j s }
       else Some s }) s) (\<lambda>s1. \<exists>xs. grammars_applied P ws us i j s (length (pa_grammars P)) xs s1)"
proof (rule ensures_for_range [where I = "\<lambda>gi s1. \<exists>xs. grammars_applied P ws us i j s (nat gi) xs s1"])
  have "chart_ok (vsize ws) (pa_kGOAL P) s" "length (ch_act s) = length (pa_grammars P)" using ready by (simp_all add: ready_def)
  then have "grammars_applied P ws us i j s 0 [] s" by (simp add: grammars_applied_def moved_refl span_rule_def)
  then show "\<exists>xs. grammars_applied P ws us i j s (nat 0) xs s" by (simp only: nat_0) blast
next
  fix gi s1 assume gi: "0 \<le> gi" "gi < vsize (pa_grammars P)" and "\<exists>xs. grammars_applied P ws us i j s (nat gi) xs s1"
  then obtain xs where A: "grammars_applied P ws us i j s (nat gi) xs s1" by blast
  have lt: "nat gi < length (pa_grammars P)" using gi by (simp add: vsize_def)
  have eq: "int (nat gi) = gi" "nat (gi + 1) = Suc (nat gi)" using gi by simp_all
  have "ensures (if gr_has_rule (pa_grammars P ! nat gi) i j (j - i) then do {
         s \<leftarrow> with_act gi (AdvanceDotsForAllItemsInCell P (ch_forest s1) (ch_chart s1) i j) s1;
         apply_items P gi i j s } else Some s1) (\<lambda>s2. \<exists>ys. grammars_applied P ws us i j s (nat (gi + 1)) (xs @ ys) s2)"
    using grammar_step [OF P ready ij lt A] unfolding eq .
  then have "ensures (if gr_has_rule (pa_grammars P ! nat gi) i j (j - i) then do {
         s \<leftarrow> with_act gi (AdvanceDotsForAllItemsInCell P (ch_forest s1) (ch_chart s1) i j) s1;
         apply_items P gi i j s } else Some s1) (\<lambda>s2. \<exists>xs. grammars_applied P ws us i j s (nat (gi + 1)) xs s2)"
    by (rule ensures_mono) blast
  then show "ensures (do {
       g \<leftarrow> vat (pa_grammars P) gi;
       has \<leftarrow> test_span P g i j;
       if has then do {
         s \<leftarrow> with_act gi (AdvanceDotsForAllItemsInCell P (ch_forest s1) (ch_chart s1) i j) s1;
         apply_items P gi i j s }
       else Some s1 }) (\<lambda>s2. \<exists>xs. grammars_applied P ws us i j s (nat (gi + 1)) xs s2)"
    using gi test_span_run [OF parser_okD(1) [OF P] ij] by (simp add: vat_eq vsize_def)
qed (simp_all add: vsize_def)

section \<open>The nodes that were just proved\<close>

lemma span_nodes_moved:
  assumes m: "moved n goal i j xs s s'" and ok: "chart_ok n goal s"
  shows "(k, l) \<noteq> (i, j) \<Longrightarrow> span_nodes n s' k l = span_nodes n s k l" "v \<in> span_nodes n s k l \<Longrightarrow> cat_of s' v = cat_of s v"
    "span_nodes n s i j \<subseteq> span_nodes n s' i j"
proof -
  note G = grownD [OF m [unfolded moved_def]]
  show "(k, l) \<noteq> (i, j) \<Longrightarrow> span_nodes n s' k l = span_nodes n s k l" using G(3) [of k l] by (simp add: span_nodes_def)
  show "v \<in> span_nodes n s k l \<Longrightarrow> cat_of s' v = cat_of s v" using span_nodes_ok(2) [OF ok, of v k l] G(7) [of v] by simp
  show "span_nodes n s i j \<subseteq> span_nodes n s' i j" using G(5) by (auto simp: span_nodes_def)
qed

lemma span_matches_moved:
  assumes m: "moved (vsize ws) goal i j xs s s'" and ok: "chart_ok (vsize ws) goal s"
  shows "span_matches ws s' i j p a \<longleftrightarrow> span_matches ws s i j p a"
proof (rule matches_cong)
  have "chart_ok (vsize ws) goal s'" using grownD(1) [OF m [unfolded moved_def]] by simp
  then show "spans_ok (vsize ws) (inner i j (span_nodes (vsize ws) s'))" by (intro inner_ok span_nodes_ok)
  show "spans_ok (vsize ws) (inner i j (span_nodes (vsize ws) s))" by (intro inner_ok span_nodes_ok [OF ok])
  show "inner i j (span_nodes (vsize ws) s') k l = inner i j (span_nodes (vsize ws) s) k l \<and>
    (\<forall>v \<in> inner i j (span_nodes (vsize ws) s) k l. cat_of s' v = cat_of s v)" for k l
    using span_nodes_moved(1,2) [OF m ok] by (auto simp: inner_def)
qed

definition finished :: "('f, 'w, 'd, 'c) parser \<Rightarrow> int list \<Rightarrow> int \<Rightarrow> int \<Rightarrow> ('f, 'w, 'c) chart \<Rightarrow> ('f, 'w, 'c) chart \<Rightarrow> nat \<Rightarrow> ('f, 'c) active_item list array2d \<Rightarrow> bool" where
  "finished P ws i j s s2 gi act \<longleftrightarrow> (if gr_has_rule (pa_grammars P ! gi) i j (j - i) then
       cell_set (vsize ws) i j (ch_act s ! gi) (val2d act i j) act \<and>
       items_are (gr_root (pa_grammars P ! gi)) (matches ws (span_nodes (vsize ws) s2) (cat_of s2) i j) (val2d act i j)
     else act = ch_act s ! gi)"

lemma finish_run:
  assumes P: "parser_ok P ws us" and ready: "ready P ws i j s" and ij: "0 \<le> i" "i < j" "j \<le> vsize ws" and gi: "gi < length (pa_grammars P)"
    and has: "gr_has_rule (pa_grammars P ! gi) i j (j - i)" and m: "moved (vsize ws) (pa_kGOAL P) i j xs s s2" and adv: "advanced P ws i j s gi act"
  shows "ensures (ExtendActiveItems (ch_forest s2) (ch_chart s2) i i j act) (finished P ws i j s s2 gi)"
proof -
  let ?n = "vsize ws" and ?goal = "pa_kGOAL P" and ?g = "pa_grammars P ! gi" and ?N = "span_nodes (vsize ws) s2" and ?vs = "nodes_at s2 i j"
  have in_ij: "in_chart ?n i j" "in_chart ?n i i" using ij by simp_all
  have ok: "chart_ok ?n ?goal s" using ready by (simp add: ready_def)
  note G = grownD [OF m [unfolded moved_def]]
  have ok2: "chart_ok ?n ?goal s2" using G(1) by simp
  have cell: "cell_set ?n i j (ch_act s ! gi) (val2d act i j) act" "items_are (gr_root ?g) (span_matches ws s i j) (val2d act i j)"
    using adv has by (simp_all add: advanced_def)
  have g: "?g \<in> set (pa_grammars P)" using gi by simp
  have "gr_has_rule ?g i i (i - i)" using parser_okD(3) [OF P g has order_refl] ij by simp
  then have "items_are (gr_root ?g) (matches ws (span_nodes ?n s) (cat_of s) i i) (val2d (ch_act s ! gi) i i)"
    using ready gi ij by (simp add: ready_def)
  moreover have "val2d act i i = val2d (ch_act s ! gi) i i" using cell_setD(3) [OF cell(1) in_ij(2)] ij by simp
  ultimately have start: "items_are (gr_root ?g) (matches ws (span_nodes ?n s) (cat_of s) i i) (val2d act i i)" by simp
  have nil: "matches ws (span_nodes ?n s) (cat_of s) i i p0 a0 \<longleftrightarrow> p0 = [] \<and> a0 = []" for p0 a0
    using matches_le [OF span_nodes_ok(1) [OF ok], of ws "cat_of s" i i p0 a0] matches_nil by blast
  have vs: "?N i j = set ?vs" using ij by (simp add: span_nodes_def)
  have low: "0 \<le> v \<and> v < vsize (hg_nodes (ch_forest s2))" if "v \<in> set ?vs" for v
    using span_nodes_ok(2) [OF ok2, of v i j] that vs by blast
  have "ensures (ExtendActiveItems (ch_forest s2) (ch_chart s2) i i j act) (\<lambda>act'. \<exists>new. cell_set ?n i j act (val2d act i j @ new) act' \<and>
    items_are (gr_root ?g) (\<lambda>p a. \<exists>p0 a0 v. v \<in> set ?vs \<and> p = p0 @ [nd_cat (hg_nodes (ch_forest s2) ! nat v)] \<and> a = a0 @ [v] \<and>
      matches ws (span_nodes ?n s) (cat_of s) i i p0 a0) new)"
    by (rule ExtendActiveItems_run [OF cell_setD(1) [OF cell(1)] chart_okD(2) [OF ok2] in_ij(2,1) _ nodes_at_def [symmetric]
        chart_okD(5) [OF ok2 in_ij(1)] low start]) (use ij in auto)
  then show ?thesis
  proof (rule ensures_mono)
    fix act' assume "\<exists>new. cell_set ?n i j act (val2d act i j @ new) act' \<and>
      items_are (gr_root ?g) (\<lambda>p a. \<exists>p0 a0 v. v \<in> set ?vs \<and> p = p0 @ [nd_cat (hg_nodes (ch_forest s2) ! nat v)] \<and> a = a0 @ [v] \<and>
        matches ws (span_nodes ?n s) (cat_of s) i i p0 a0) new"
    then obtain new where new: "cell_set ?n i j act (val2d act i j @ new) act'"
      "items_are (gr_root ?g) (\<lambda>p a. \<exists>p0 a0 v. v \<in> set ?vs \<and> p = p0 @ [nd_cat (hg_nodes (ch_forest s2) ! nat v)] \<and> a = a0 @ [v] \<and>
        matches ws (span_nodes ?n s) (cat_of s) i i p0 a0) new" by blast
    have "items_are (gr_root ?g) (\<lambda>p a. \<exists>v \<in> ?N i j. p = [cat_of s2 v] \<and> a = [v]) new"
      using new(2) unfolding nil vs by (simp add: cat_of_def Bex_def)
    moreover have "\<not> (\<exists>v \<in> ?N i j. p = [cat_of s2 v] \<and> a = [v])" if old: "span_matches ws s i j p a" for p a
    proof
      assume "\<exists>v \<in> ?N i j. p = [cat_of s2 v] \<and> a = [v]"
      then obtain v where v: "v \<in> ?N i j" "a = [v]" by blast
      have "span_matches ws s2 i j p a" using old span_matches_moved [OF m ok] by simp
      then obtain k l where kl: "v \<in> inner i j ?N k l" using matches_nodes [of ws "inner i j ?N" "cat_of s2" i j p a v] v(2) by auto
      then have "v \<in> ?N k l" "(k, l) \<noteq> (i, j)" by (auto simp: inner_def split: if_splits)
      then show False using span_nodes_ok(3) [OF ok2 v(1)] by blast
    qed
    ultimately have "items_are (gr_root ?g) (\<lambda>p a. span_matches ws s i j p a \<or> (\<exists>v \<in> ?N i j. p = [cat_of s2 v] \<and> a = [v])) (val2d act i j @ new)"
      by (intro items_union [OF cell(2)])
    moreover have "span_matches ws s i j p a \<or> (\<exists>v \<in> ?N i j. p = [cat_of s2 v] \<and> a = [v]) \<longleftrightarrow> matches ws ?N (cat_of s2) i j p a" for p a
      unfolding matches_split [OF span_nodes_ok(1) [OF ok2] ij(2)] span_matches_moved [OF m ok] ..
    ultimately have items: "items_are (gr_root ?g) (matches ws ?N (cat_of s2) i j) (val2d act i j @ new)" by simp
    have "val2d act' i j = val2d act i j @ new" using cell_setD(2) [OF new(1) in_ij(1)] .
    moreover have "cell_set ?n i j (ch_act s ! gi) (val2d act i j @ new) act'" by (rule cell_set_trans [OF cell(1) new(1)])
    ultimately show "finished P ws i j s s2 gi act'" using items has by (simp add: finished_def)
  qed
qed

lemma finish_grammars_run:
  assumes P: "parser_ok P ws us" and ready: "ready P ws i j s" and ij: "0 \<le> i" "i < j" "j \<le> vsize ws"
    and m: "moved (vsize ws) (pa_kGOAL P) i j xs s s2" and len: "length (ch_act s2) = length (pa_grammars P)"
    and adv: "\<And>gi. gi < length (pa_grammars P) \<Longrightarrow> advanced P ws i j s gi (ch_act s2 ! gi)"
  shows "ensures (for_each (positions (pa_grammars P)) (\<lambda>gi s. do {
       g \<leftarrow> vat (pa_grammars P) gi;
       has \<leftarrow> test_span P g i j;
       if has then with_act gi (ExtendActiveItems (ch_forest s) (ch_chart s) i i j) s else Some s }) s2)
     (\<lambda>s3. \<exists>acts. s3 = s2\<lparr>ch_act := acts\<rparr> \<and> length acts = length (pa_grammars P) \<and> (\<forall>gi < length (pa_grammars P). finished P ws i j s s2 gi (acts ! gi)))"
proof -
  define I where "I m s3 \<longleftrightarrow> (\<exists>acts. s3 = s2\<lparr>ch_act := acts\<rparr> \<and> length acts = length (pa_grammars P) \<and>
    (\<forall>gi < length (pa_grammars P). if gi < m then finished P ws i j s s2 gi (acts ! gi) else acts ! gi = ch_act s2 ! gi))" for m s3
  show ?thesis
  proof (rule ensures_for_range [where I = "\<lambda>gi. I (nat gi)"])
    show "I (nat 0) s2" using len by (auto simp: I_def intro!: exI [of _ "ch_act s2"])
  next
    fix k s3 assume k: "0 \<le> k" "k < vsize (pa_grammars P)" and "I (nat k) s3"
    then obtain acts where s3: "s3 = s2\<lparr>ch_act := acts\<rparr>" "length acts = length (pa_grammars P)"
      and acts: "\<And>gi. gi < length (pa_grammars P) \<Longrightarrow> if gi < nat k then finished P ws i j s s2 gi (acts ! gi) else acts ! gi = ch_act s2 ! gi"
      unfolding I_def by blast
    let ?gi = "nat k"
    have gi: "?gi < length (pa_grammars P)" "nat (k + 1) = Suc ?gi" using k by (simp_all add: vsize_def nat_add_distrib)
    have act: "acts ! ?gi = ch_act s2 ! ?gi" using acts [OF gi(1)] by simp
    have next_I: "I (Suc ?gi) (s2\<lparr>ch_act := acts[?gi := act]\<rparr>)" if "finished P ws i j s s2 ?gi act" for act
    proof -
      have upd: "if gi < Suc ?gi then finished P ws i j s s2 gi (acts[?gi := act] ! gi) else acts[?gi := act] ! gi = ch_act s2 ! gi"
        if "gi < length (pa_grammars P)" for gi
        using acts [OF that] \<open>finished P ws i j s s2 ?gi act\<close> gi(1) s3(2) by (cases "gi = ?gi") (auto simp: less_Suc_eq)
      show ?thesis unfolding I_def by (intro exI [of _ "acts[?gi := act]"] conjI allI impI upd) (simp_all add: s3(2))
    qed
    have "ensures (if gr_has_rule (pa_grammars P ! ?gi) i j (j - i) then with_act k (ExtendActiveItems (ch_forest s3) (ch_chart s3) i i j) s3 else Some s3) (I (Suc ?gi))"
    proof (cases "gr_has_rule (pa_grammars P ! ?gi) i j (j - i)")
      case True
      have "ensures (ExtendActiveItems (ch_forest s3) (ch_chart s3) i i j (ch_act s3 ! ?gi)) (finished P ws i j s s2 ?gi)"
        using finish_run [OF P ready ij gi(1) True m adv [OF gi(1)]] act by (simp add: s3(1))
      then have "ensures (with_act k (ExtendActiveItems (ch_forest s3) (ch_chart s3) i i j) s3)
          (\<lambda>s'. \<exists>act. finished P ws i j s s2 ?gi act \<and> s' = s3\<lparr>ch_act := (ch_act s3)[?gi := act]\<rparr>)"
        by (intro with_act_run) (use k s3 in \<open>simp_all add: vsize_def\<close>)
      then show ?thesis using True by (simp only: if_True) (elim ensures_mono, use next_I in \<open>auto simp: s3(1)\<close>)
    next
      case False
      then have "finished P ws i j s s2 ?gi (acts ! ?gi)" using adv [OF gi(1)] act by (simp add: finished_def advanced_def)
      then show ?thesis using next_I [of "acts ! ?gi"] False s3(1) by (simp add: ensures_Some)
    qed
    then show "ensures (do {
       g \<leftarrow> vat (pa_grammars P) k;
       has \<leftarrow> test_span P g i j;
       if has then with_act k (ExtendActiveItems (ch_forest s3) (ch_chart s3) i i j) s3 else Some s3 }) (I (nat (k + 1)))"
      using k test_span_run [OF parser_okD(1) [OF P] ij] gi(2) by (simp add: vat_eq vsize_def)
  next
    fix s3 assume "I (nat (vsize (pa_grammars P))) s3"
    then show "\<exists>acts. s3 = s2\<lparr>ch_act := acts\<rparr> \<and> length acts = length (pa_grammars P) \<and> (\<forall>gi < length (pa_grammars P). finished P ws i j s s2 gi (acts ! gi))"
      unfolding I_def by (auto simp: vsize_def)
  qed (simp add: vsize_def)
qed

section \<open>The visit\<close>

definition lhs_of :: "('f, 'w, 'd, 'c) parser \<Rightarrow> 'f trule list \<Rightarrow> int set" where
  "lhs_of P us = tr_lhs ` (set us \<union> {r. \<exists>g \<in> set (pa_grammars P). \<exists>p. r \<in> set (rules_at (gr_root g) p)})"

definition visited :: "('f, 'w, 'd, 'c) parser \<Rightarrow> int list \<Rightarrow> 'f trule list \<Rightarrow> int \<Rightarrow> int \<Rightarrow> ('f, 'w, 'c) chart \<Rightarrow> ('f trule \<times> int list) list \<Rightarrow> ('f, 'w, 'c) chart \<Rightarrow> bool" where
  "visited P ws us i j s ys s' \<longleftrightarrow> moved (vsize ws) (pa_kGOAL P) i j ys s s' \<and>
     (\<forall>r a. (r, a) \<in> set ys \<longleftrightarrow> span_rule P ws i j s (length (pa_grammars P)) r a \<or>
        (r \<in> set us \<and> (\<exists>v \<in> span_nodes (vsize ws) s' i j. a = [v] \<and> tr_f r = [cat_of s' v]))) \<and>
     (rules_distinct (pa_grammars P) us \<longrightarrow> distinct ys) \<and> length (ch_act s') = length (pa_grammars P) \<and>
     (\<forall>gi < length (pa_grammars P). finished P ws i j s s' gi (ch_act s' ! gi))"

lemma room_for_act: "room_for n goal i j L (s\<lparr>ch_act := x\<rparr>) \<Longrightarrow> room_for n goal i j L s"
  unfolding room_for_def
proof (intro allI impI)
  fix s' xs
  assume r: "\<forall>s' xs. grown n goal i j xs (s\<lparr>ch_act := x\<rparr>) s' \<longrightarrow> (\<forall>x\<in>set xs. tr_lhs (fst x) \<in> L) \<longrightarrow> node_count s' \<le> ch_capacity (s\<lparr>ch_act := x\<rparr>)"
    and g: "grown n goal i j xs s s'" and xs: "\<forall>x\<in>set xs. tr_lhs (fst x) \<in> L"
  have "grown n goal i j xs (s\<lparr>ch_act := x\<rparr>) (s'\<lparr>ch_act := x\<rparr>)" using g by (simp add: grown_def)
  then show "node_count s' \<le> ch_capacity s" using r xs by fastforce
qed

lemma room_for_moved:
  assumes "room_for n goal i j L s" "moved n goal i j xs s s1" "\<And>x. x \<in> set xs \<Longrightarrow> tr_lhs (fst x) \<in> L"
  shows "room_for n goal i j L s1"
  by (rule room_for_act, rule room_for_grown(1) [OF assms(1) assms(2) [unfolded moved_def]]) (rule assms(3))

lemma room_for_mono: "room_for n goal i j L s \<Longrightarrow> L' \<subseteq> L \<Longrightarrow> room_for n goal i j L' s"
  unfolding room_for_def by blast

lemma unary_rules_in: "(r, a) \<in> set (concat (map (\<lambda>v. unary_rules us (K v) v) vs)) \<longleftrightarrow> r \<in> set us \<and> (\<exists>v \<in> set vs. a = [v] \<and> tr_f r = [K v])"
  by (auto simp: unary_rules_def)

lemma unary_rules_distinct:
  assumes "distinct us" "distinct vs"
  shows "distinct (concat (map (\<lambda>v. unary_rules us (K v) v) vs))"
  using assms(2)
proof (induction vs)
  case (Cons v vs)
  have "distinct (unary_rules us (K v) v)" using assms(1) by (simp add: unary_rules_def distinct_map inj_on_def)
  moreover have "set (unary_rules us (K v) v) \<inter> set (concat (map (\<lambda>v. unary_rules us (K v) v) vs)) = {}"
    using Cons.prems by (auto simp: unary_rules_def)
  ultimately show ?case using Cons by (simp del: set_concat)
qed simp

lemma visit_span_run:
  assumes P: "parser_ok P ws us" and ready: "ready P ws i j s" and ij: "0 \<le> i" "i < j" "j \<le> vsize ws" and us: "ch_unaries s = us"
    and room: "us \<noteq> [] \<Longrightarrow> room_for (vsize ws) (pa_kGOAL P) i j (lhs_of P us) s"
  shows "ensures (visit_span P i j s) (\<lambda>s'. \<exists>ys. visited P ws us i j s ys s')"
proof -
  let ?n = "vsize ws" and ?goal = "pa_kGOAL P" and ?gs = "pa_grammars P"
  have in_ij: "in_chart ?n i j" using ij by simp
  have ok: "chart_ok ?n ?goal s" using ready by (simp add: ready_def)
  obtain s1 where s1: "for_each (positions ?gs) (\<lambda>gi s. do {
       g \<leftarrow> vat ?gs gi;
       has \<leftarrow> test_span P g i j;
       if has then do {
         s \<leftarrow> with_act gi (AdvanceDotsForAllItemsInCell P (ch_forest s) (ch_chart s) i j) s;
         apply_items P gi i j s }
       else Some s }) s = Some s1" "\<exists>xs. grammars_applied P ws us i j s (length ?gs) xs s1"
    by (rule ensuresE [OF apply_grammars_run [OF P ready ij]])
  then obtain xs where A: "grammars_applied P ws us i j s (length ?gs) xs s1" by blast
  note a1 = A [unfolded grammars_applied_def] note a2 = a1 [THEN conjunct2] note a3 = a2 [THEN conjunct2] note a4 = a3 [THEN conjunct2]
  have m1: "moved ?n ?goal i j xs s s1" by (rule a1 [THEN conjunct1])
  have xs: "(r, a) \<in> set xs \<longleftrightarrow> span_rule P ws i j s (length ?gs) r a" for r a by (rule a2 [THEN conjunct1, rule_format])
  have rule: "\<exists>g \<in> set ?gs. \<exists>p. r \<in> set (rules_at (gr_root g) p)" if "(r, a) \<in> set xs" for r a
    using that unfolding xs span_rule_def by (meson nth_mem)
  note G1 = grownD [OF m1 [unfolded moved_def]]
  have ok1: "chart_ok ?n ?goal s1" using G1(1) by simp
  have us1: "ch_unaries s1 = us" using G1(9) us by simp
  have un: "tr_lhs r \<noteq> ?goal \<and> (\<exists>c. tr_f r = [c])" if "r \<in> set us" for r using parser_okD(5) [OF P that] by blast
  have lhs: "tr_lhs (fst x) \<in> lhs_of P us" if "x \<in> set xs" for x using rule [of "fst x" "snd x"] that by (auto simp: lhs_of_def)
  have room1: "room_for ?n ?goal i j (tr_lhs ` set us) s1" if "us \<noteq> []"
    by (rule room_for_mono [OF room_for_moved [OF room [OF that] m1 lhs]]) (auto simp: lhs_of_def)
  let ?zs = "\<lambda>s2. concat (map (\<lambda>v. unary_rules us (cat_of s2 v) v) (nodes_at s2 i j))"
  obtain s2 where s2: "ApplyUnaryRules P i j s1 = Some s2" "grown ?n ?goal i j (?zs s2) s1 s2"
    by (rule ensuresE [OF ApplyUnaryRules_run [OF ok1 ij us1 un room1]])
  have m2: "moved ?n ?goal i j (xs @ ?zs s2) s s2" by (rule moved_grown [OF m1 s2(2)])
  have act2: "ch_act s2 = ch_act s1" using grownD(8) [OF s2(2)] .
  have ok2: "chart_ok ?n ?goal s2" using grownD(1) [OF s2(2)] .
  have len: "length (ch_act s2) = length ?gs" using a4 [THEN conjunct1] act2 by simp
  have adv: "advanced P ws i j s gi (ch_act s2 ! gi)" if "gi < length ?gs" for gi using a4 [THEN conjunct2, rule_format, OF that] that act2 by simp
  obtain s3 where s3: "for_each (positions ?gs) (\<lambda>gi s. do {
       g \<leftarrow> vat ?gs gi;
       has \<leftarrow> test_span P g i j;
       if has then with_act gi (ExtendActiveItems (ch_forest s) (ch_chart s) i i j) s else Some s }) s2 = Some s3"
    "\<exists>acts. s3 = s2\<lparr>ch_act := acts\<rparr> \<and> length acts = length ?gs \<and> (\<forall>gi < length ?gs. finished P ws i j s s2 gi (acts ! gi))"
    by (rule ensuresE [OF finish_grammars_run [OF P ready ij m2 len adv]])
  then obtain acts where acts: "s3 = s2\<lparr>ch_act := acts\<rparr>" "length acts = length ?gs" "\<And>gi. gi < length ?gs \<Longrightarrow> finished P ws i j s s2 gi (acts ! gi)"
    by blast
  have nodes3: "span_nodes ?n s3 = span_nodes ?n s2" by (simp add: acts(1))
  have "visited P ws us i j s (xs @ ?zs s2) s3"
    unfolding visited_def
  proof (intro conjI allI impI)
    show "moved ?n ?goal i j (xs @ ?zs s2) s s3" using m2 by (simp add: acts(1) moved_act)
    show "(r, a) \<in> set (xs @ ?zs s2) \<longleftrightarrow> span_rule P ws i j s (length ?gs) r a \<or>
        (r \<in> set us \<and> (\<exists>v \<in> span_nodes ?n s3 i j. a = [v] \<and> tr_f r = [cat_of s3 v]))" for r a
    proof -
      have "span_nodes ?n s3 i j = set (nodes_at s2 i j)" using in_ij by (simp add: nodes3 span_nodes_def)
      moreover have "cat_of s3 = cat_of s2" by (simp add: acts(1))
      ultimately show ?thesis by (simp only: set_append Un_iff unary_rules_in xs)
    qed
    show "distinct (xs @ ?zs s2)" if d: "rules_distinct ?gs us"
    proof -
      have "distinct xs" using a3 [THEN conjunct1] d by simp
      moreover have "distinct (?zs s2)"
        by (rule unary_rules_distinct) (use d chart_okD(5) [OF ok2 in_ij] in \<open>simp_all add: rules_distinct_def\<close>)
      moreover have "\<not> ((r, a) \<in> set xs \<and> (r, a) \<in> set (?zs s2))" for r a
      proof
        assume ra: "(r, a) \<in> set xs \<and> (r, a) \<in> set (?zs s2)"
        obtain g p where "g \<in> set ?gs" "r \<in> set (rules_at (gr_root g) p)" using rule ra by blast
        moreover have "r \<in> set us" using ra unfolding unary_rules_in by blast
        ultimately show False using parser_okD(4) [OF P, of g r p] parser_okD(5) [OF P, of r] by blast
      qed
      ultimately show ?thesis unfolding distinct_append by auto
    qed
    show "length (ch_act s3) = length ?gs" using acts(1,2) by simp
    show "finished P ws i j s s3 gi (ch_act s3 ! gi)" if "gi < length ?gs" for gi
      using acts(3) [OF that] by (simp add: finished_def acts(1))
  qed
  moreover have "visit_span P i j s = Some s3" using s1(1) s2(1) s3(1) by (simp add: visit_span_def)
  ultimately show ?thesis by (auto simp: ensures_Some)
qed

end
