(* ===== verification/ChartFill.thy ===== *)
theory ChartFill
  imports ChartVisit
begin

text \<open>
  The charts while the spans are visited: the applications of rules are those that the grammars and the nodes of
  the visited spans allow.
\<close>

section \<open>The invariant\<close>

definition app_spec :: "('f, 'w, 'd, 'c) parser \<Rightarrow> int list \<Rightarrow> 'f trule list \<Rightarrow> ('f, 'w, 'c) chart \<Rightarrow> int \<Rightarrow> int \<Rightarrow> 'f trule \<Rightarrow> int list \<Rightarrow> bool" where
  "app_spec P ws us s i j r a \<longleftrightarrow> span_rule P ws i j s (length (pa_grammars P)) r a \<or>
     (r \<in> set us \<and> (\<exists>v \<in> span_nodes (vsize ws) s i j. a = [v] \<and> tr_f r = [cat_of s v]))"

definition cells_ok :: "('f, 'w, 'd, 'c) parser \<Rightarrow> int list \<Rightarrow> (int \<times> int) set \<Rightarrow> ('f, 'w, 'c) chart \<Rightarrow> nat \<Rightarrow> ('f, 'c) active_item list array2d \<Rightarrow> bool" where
  "cells_ok P ws D s gi act \<longleftrightarrow> array_ok (vsize ws + 1) (vsize ws + 1) act \<and> (\<forall>i j. in_chart (vsize ws) i j \<longrightarrow>
     (if (i = j \<or> (i, j) \<in> D) \<and> gr_has_rule (pa_grammars P ! gi) i j (j - i)
      then items_are (gr_root (pa_grammars P ! gi)) (matches ws (span_nodes (vsize ws) s) (cat_of s) i j) (val2d act i j)
      else val2d act i j = []))"

definition filled :: "('f, 'w, 'd, 'c) parser \<Rightarrow> int list \<Rightarrow> 'f trule list \<Rightarrow> (int \<times> int) set \<Rightarrow> ('f, 'w, 'c) chart \<Rightarrow> bool" where
  "filled P ws us D s \<longleftrightarrow> chart_ok (vsize ws) (pa_kGOAL P) s \<and> ch_unaries s = us \<and> ch_goal_idx s = -1 \<and> (us \<noteq> [] \<longrightarrow> 2 * vsize ws * vsize ws \<le> ch_capacity s) \<and>
     length (ch_act s) = length (pa_grammars P) \<and> (\<forall>gi < length (pa_grammars P). cells_ok P ws D s gi (ch_act s ! gi)) \<and>
     (\<forall>i j r a. (i, j, r, a) \<in> set (apps s) \<longleftrightarrow> (i, j) \<in> D \<and> app_spec P ws us s i j r a) \<and>
     (\<forall>i j c. in_chart (vsize ws) i j \<longrightarrow> node_of s i j c \<noteq> None \<longleftrightarrow> (\<exists>r a. (i, j, r, a) \<in> set (apps s) \<and> tr_lhs r = c)) \<and>
     (rules_distinct (pa_grammars P) us \<longrightarrow> distinct (apps s))"

lemma filledD:
  assumes "filled P ws us D s"
  shows "chart_ok (vsize ws) (pa_kGOAL P) s" "ch_unaries s = us" "ch_goal_idx s = -1" "us \<noteq> [] \<Longrightarrow> 2 * vsize ws * vsize ws \<le> ch_capacity s"
    "length (ch_act s) = length (pa_grammars P)" "gi < length (pa_grammars P) \<Longrightarrow> cells_ok P ws D s gi (ch_act s ! gi)"
    "(i, j, r, a) \<in> set (apps s) \<longleftrightarrow> (i, j) \<in> D \<and> app_spec P ws us s i j r a"
    "in_chart (vsize ws) i j \<Longrightarrow> node_of s i j c \<noteq> None \<longleftrightarrow> (\<exists>r a. (i, j, r, a) \<in> set (apps s) \<and> tr_lhs r = c)"
    "rules_distinct (pa_grammars P) us \<Longrightarrow> distinct (apps s)"
proof -
  note d1 = assms [unfolded filled_def] note d2 = d1 [THEN conjunct2] note d3 = d2 [THEN conjunct2] note d4 = d3 [THEN conjunct2]
  note d5 = d4 [THEN conjunct2] note d6 = d5 [THEN conjunct2] note d7 = d6 [THEN conjunct2] note d8 = d7 [THEN conjunct2]
  show "chart_ok (vsize ws) (pa_kGOAL P) s" "ch_unaries s = us" "ch_goal_idx s = -1" "length (ch_act s) = length (pa_grammars P)"
    by (rule d1 [THEN conjunct1] d2 [THEN conjunct1] d3 [THEN conjunct1] d5 [THEN conjunct1])+
  show "us \<noteq> [] \<Longrightarrow> 2 * vsize ws * vsize ws \<le> ch_capacity s" by (rule d4 [THEN conjunct1, rule_format])
  show "gi < length (pa_grammars P) \<Longrightarrow> cells_ok P ws D s gi (ch_act s ! gi)" by (rule d6 [THEN conjunct1, rule_format])
  show "(i, j, r, a) \<in> set (apps s) \<longleftrightarrow> (i, j) \<in> D \<and> app_spec P ws us s i j r a" by (rule d7 [THEN conjunct1, rule_format])
  show "in_chart (vsize ws) i j \<Longrightarrow> node_of s i j c \<noteq> None \<longleftrightarrow> (\<exists>r a. (i, j, r, a) \<in> set (apps s) \<and> tr_lhs r = c)"
    by (rule d8 [THEN conjunct1, rule_format])
  show "rules_distinct (pa_grammars P) us \<Longrightarrow> distinct (apps s)" by (rule d8 [THEN conjunct2, rule_format])
qed

lemma app_spec_lhs:
  assumes "parser_ok P ws us" "app_spec P ws us s i j r a"
  shows "tr_lhs r < 0" "tr_lhs r \<noteq> pa_kGOAL P" "tr_lhs r \<in> lhs_of P us"
proof -
  have "r \<in> set us \<or> (\<exists>g \<in> set (pa_grammars P). \<exists>p. r \<in> set (rules_at (gr_root g) p))"
    using assms(2) unfolding app_spec_def span_rule_def by (meson nth_mem)
  then show "tr_lhs r < 0" "tr_lhs r \<noteq> pa_kGOAL P" "tr_lhs r \<in> lhs_of P us"
    using parser_okD(4,5) [OF assms(1)] by (auto simp: lhs_of_def)
qed

lemma filled_cat:
  assumes P: "parser_ok P ws us" and F: "filled P ws us D s" and "in_chart (vsize ws) i j" "node_of s i j c \<noteq> None"
  shows "c < 0" "c \<noteq> pa_kGOAL P" "c \<in> lhs_of P us"
proof -
  obtain r a where ra: "(i, j, r, a) \<in> set (apps s)" "tr_lhs r = c" using filledD(8) [OF F assms(3), of c] assms(4) by blast
  then have "app_spec P ws us s i j r a" using filledD(7) [OF F] by blast
  then show "c < 0" "c \<noteq> pa_kGOAL P" "c \<in> lhs_of P us" using app_spec_lhs [OF P] ra(2) by blast+
qed

text \<open>Spans that do not contain a given one do not see what happens there.\<close>

lemma matches_elsewhere:
  assumes m: "moved (vsize ws) goal i j xs s s'" and ok: "chart_ok (vsize ws) goal s" and out: "\<not> (i' \<le> i \<and> j \<le> j')"
  shows "matches ws (span_nodes (vsize ws) s') (cat_of s') i' j' p a \<longleftrightarrow> matches ws (span_nodes (vsize ws) s) (cat_of s) i' j' p a"
    "span_matches ws s' i' j' p a \<longleftrightarrow> span_matches ws s i' j' p a"
proof -
  have ok': "chart_ok (vsize ws) goal s'" using grownD(1) [OF m [unfolded moved_def]] by simp
  have same: "span_nodes (vsize ws) s' k l = span_nodes (vsize ws) s k l \<and> (\<forall>v \<in> span_nodes (vsize ws) s k l. cat_of s' v = cat_of s v)"
    if "i' \<le> k" "l \<le> j'" for k l
    using span_nodes_moved(1,2) [OF m ok] that out by auto
  show "matches ws (span_nodes (vsize ws) s') (cat_of s') i' j' p a \<longleftrightarrow> matches ws (span_nodes (vsize ws) s) (cat_of s) i' j' p a"
    by (rule matches_cong [OF span_nodes_ok(1) [OF ok] span_nodes_ok(1) [OF ok'] same])
  show "span_matches ws s' i' j' p a \<longleftrightarrow> span_matches ws s i' j' p a"
    by (rule matches_cong [OF inner_ok [OF span_nodes_ok(1) [OF ok]] inner_ok [OF span_nodes_ok(1) [OF ok']]]) (use same in \<open>auto simp: inner_def\<close>)
qed

lemma app_spec_elsewhere:
  assumes m: "moved (vsize ws) (pa_kGOAL P) i j xs s s'" and ok: "chart_ok (vsize ws) (pa_kGOAL P) s" and out: "\<not> (i' \<le> i \<and> j \<le> j')"
  shows "app_spec P ws us s' i' j' r a \<longleftrightarrow> app_spec P ws us s i' j' r a"
proof -
  have "span_nodes (vsize ws) s' i' j' = span_nodes (vsize ws) s i' j'" using span_nodes_moved(1) [OF m ok] out by auto
  moreover have "cat_of s' v = cat_of s v" if "v \<in> span_nodes (vsize ws) s i' j'" for v by (rule span_nodes_moved(2) [OF m ok that])
  ultimately show ?thesis by (simp add: app_spec_def span_rule_def matches_elsewhere(2) [OF m ok out])
qed

section \<open>One more span\<close>

text \<open>Room for the nodes: with unary rules, the categories must be few for \<open>nodes_\<close> not to move.\<close>

definition few_cats :: "('f, 'w, 'd, 'c) parser \<Rightarrow> int list \<Rightarrow> 'f trule list \<Rightarrow> bool" where
  "few_cats P ws us \<longleftrightarrow> us = [] \<or> (\<exists>C. finite C \<and> lhs_of P us \<subseteq> C \<and> int (card C) * (vsize ws + 1) \<le> 4 * vsize ws)"

lemma filled_room:
  assumes P: "parser_ok P ws us" and F: "filled P ws us D s" and few: "few_cats P ws us" and us: "us \<noteq> []"
    and ij: "0 \<le> i" "i < j" "j \<le> vsize ws"
  shows "room_for (vsize ws) (pa_kGOAL P) i j (lhs_of P us) s"
  unfolding room_for_def
proof (intro allI impI)
  let ?n = "vsize ws"
  fix s' xs assume g: "grown ?n (pa_kGOAL P) i j xs s s'" and xs: "\<forall>x \<in> set xs. tr_lhs (fst x) \<in> lhs_of P us"
  obtain C where C: "finite C" "lhs_of P us \<subseteq> C" "int (card C) * (?n + 1) \<le> 4 * ?n" using few us unfolding few_cats_def by blast
  note G = grownD [OF g]
  have in_ij: "in_chart ?n i j" using ij by simp
  have old: "c \<in> lhs_of P us" if "in_chart ?n k l" "node_of s k l c \<noteq> None" for k l c by (rule filled_cat(3) [OF P F that])
  have "c \<in> C" if c: "in_chart ?n k l" "node_of s' k l c \<noteq> None" for k l c
  proof (cases "(k, l) = (i, j)")
    case True
    then have "node_of s i j c \<noteq> None \<or> c \<in> (\<lambda>x. tr_lhs (fst x)) ` set xs" using c(2) G(4) by simp
    then show ?thesis using old [OF in_ij] xs C(2) by blast
  next
    case False
    then have "node_of s k l c \<noteq> None" using G(3) [OF c(1) False] c(2) by simp
    then show ?thesis using old [OF c(1)] C(2) by blast
  qed
  then have "2 * node_count s' \<le> int (card C) * (?n * (?n + 1))" by (intro node_bound [OF G(1) _ C(1)]) (simp_all add: vsize_def)
  also have "\<dots> = (int (card C) * (?n + 1)) * ?n" by (simp add: mult.assoc mult.commute)
  also have "\<dots> \<le> (4 * ?n) * ?n" by (rule mult_right_mono [OF C(3)]) (simp add: vsize_def)
  finally show "node_count s' \<le> ch_capacity s" using filledD(4) [OF F us] by simp
qed

lemma filled_ready:
  assumes P: "parser_ok P ws us" and F: "filled P ws us D s" and ij: "0 \<le> i" "i < j" "j \<le> vsize ws" and fresh: "(i, j) \<notin> D"
    and D: "\<And>k. i < k \<Longrightarrow> k < j \<Longrightarrow> (i, k) \<in> D"
  shows "ready P ws i j s"
  unfolding ready_def
proof (intro conjI allI impI)
  let ?n = "vsize ws"
  note ok = filledD(1) [OF F]
  show "chart_ok ?n (pa_kGOAL P) s" by (rule ok)
  show "length (ch_act s) = length (pa_grammars P)" by (rule filledD(5) [OF F])
  show "cat_of s v < 0" if "v \<in> span_nodes ?n s k l" for k l v
    using span_nodes_ok(2) [OF ok that] filled_cat(1) [OF P F, of k l "cat_of s v"] by simp
  fix gi assume gi: "gi < length (pa_grammars P)"
  note cells = filledD(6) [OF F gi, unfolded cells_ok_def]
  show "array_ok (?n + 1) (?n + 1) (ch_act s ! gi)" by (rule cells [THEN conjunct1])
  show "val2d (ch_act s ! gi) i j = []" using cells [THEN conjunct2, rule_format, of i j] ij fresh by simp
  show "items_are (gr_root (pa_grammars P ! gi)) (matches ws (span_nodes ?n s) (cat_of s) i k) (val2d (ch_act s ! gi) i k)"
    if "i \<le> k" "k < j" "gr_has_rule (pa_grammars P ! gi) i k (k - i)" for k
    using cells [THEN conjunct2, rule_format, of i k] ij that D [of k] by (cases "i = k") auto
qed

lemma visit_filled:
  fixes P :: "('f, 'w, 'd, 'c) parser"
  assumes P: "parser_ok P ws us" and F: "filled P ws us D s" and few: "few_cats P ws us" and ij: "0 \<le> i" "i < j" "j \<le> vsize ws" and fresh: "(i, j) \<notin> D"
    and sub: "\<And>k. i < k \<Longrightarrow> k < j \<Longrightarrow> (i, k) \<in> D" and small: "\<And>k l. (k, l) \<in> D \<Longrightarrow> k < l \<and> l - k \<le> j - i"
  shows "ensures (visit_span P i j s) (filled P ws us (insert (i, j) D))"
proof -
  let ?n = "vsize ws" and ?goal = "pa_kGOAL P" and ?D = "insert (i, j) D"
  note ok = filledD(1) [OF F]
  have in_ij: "in_chart ?n i j" using ij by simp
  have ready: "ready P ws i j s" by (rule filled_ready [OF P F ij fresh sub])
  obtain s' where run: "visit_span P i j s = Some s'" "\<exists>ys. visited P ws us i j s ys s'"
    by (rule ensuresE [OF visit_span_run [OF P ready ij filledD(2) [OF F] filled_room [OF P F few _ ij]]])
  then obtain ys where V: "visited P ws us i j s ys s'" by blast
  note v1 = V [unfolded visited_def] note v2 = v1 [THEN conjunct2] note v3 = v2 [THEN conjunct2] note v4 = v3 [THEN conjunct2]
  have m: "moved ?n ?goal i j ys s s'" by (rule v1 [THEN conjunct1])
  note G = grownD [OF m [unfolded moved_def], simplified]
  have ys: "(r, a) \<in> set ys \<longleftrightarrow> app_spec P ws us s' i j r a" for r a
    using v2 [THEN conjunct1, rule_format, of r a] by (simp add: app_spec_def span_rule_def span_matches_moved [OF m ok])
  have lhs: "tr_lhs (fst x) \<in> lhs_of P us" "tr_lhs (fst x) \<noteq> ?goal" if x: "x \<in> set ys" for x
    using app_spec_lhs(2,3) [OF P, of s' i j "fst x" "snd x"] x by (simp_all add: ys [symmetric])
  have out: "\<not> (k \<le> i \<and> j \<le> l)" if "k = l \<or> (k, l) \<in> D" for k l
  proof
    assume kl: "k \<le> i \<and> j \<le> l"
    then have "(k, l) \<in> D" using that ij by auto
    then have "k = i \<and> l = j" using small [of k l] kl by simp
    then show False using \<open>(k, l) \<in> D\<close> fresh by simp
  qed
  have old: "(i, j, r, a) \<notin> set (apps s)" for r a using filledD(7) [OF F] fresh by simp
  have mem: "(k, l, r, a) \<in> set (apps s') \<longleftrightarrow> (k, l, r, a) \<in> set (apps s) \<or> ((k, l) = (i, j) \<and> (r, a) \<in> set ys)" for k l r a
    unfolding G(2) by auto
  have "filled P ws us ?D s'"
    unfolding filled_def
  proof (intro conjI allI impI)
    show "chart_ok ?n ?goal s'" by (rule G(1))
    show "ch_unaries s' = us" using G(9) filledD(2) [OF F] by simp
    show "ch_goal_idx s' = -1" using G(10) lhs(2) filledD(3) [OF F] by auto
    show "length (ch_act s') = length (pa_grammars P)" by (rule v4 [THEN conjunct1])
    show "2 * ?n * ?n \<le> ch_capacity s'" if us: "us \<noteq> []"
    proof -
      have "node_count s' \<le> ch_capacity s"
        by (rule room_forD [OF filled_room [OF P F few us ij] m [unfolded moved_def], simplified]) (use lhs(1) in auto)
      then have "ch_capacity s' = ch_capacity s" using G(11) by simp
      then show ?thesis using filledD(4) [OF F us] by simp
    qed
    show "(k, l, r, a) \<in> set (apps s') \<longleftrightarrow> (k, l) \<in> ?D \<and> app_spec P ws us s' k l r a" for k l r a
    proof (cases "(k, l) = (i, j)")
      case True
      then show ?thesis using mem [of k l r a] old ys by simp
    next
      case False
      then have "(k, l, r, a) \<in> set (apps s') \<longleftrightarrow> (k, l) \<in> D \<and> app_spec P ws us s k l r a"
        unfolding mem filledD(7) [OF F] by blast
      then show ?thesis using app_spec_elsewhere [OF m ok, of k l] out [of k l] False by (cases "(k, l) \<in> D") auto
    qed
    show "node_of s' k l c \<noteq> None \<longleftrightarrow> (\<exists>r a. (k, l, r, a) \<in> set (apps s') \<and> tr_lhs r = c)" if kl: "in_chart ?n k l" for k l c
    proof (cases "(k, l) = (i, j)")
      case True
      have "node_of s i j c = None" using filledD(8) [OF F in_ij, of c] old by blast
      then have "node_of s' i j c \<noteq> None \<longleftrightarrow> c \<in> (\<lambda>x. tr_lhs (fst x)) ` set ys" using G(4) [of c] by simp
      also have "\<dots> \<longleftrightarrow> (\<exists>r a. (r, a) \<in> set ys \<and> tr_lhs r = c)" by force
      finally show ?thesis using True old unfolding mem by auto
    next
      case False
      have "node_of s' k l c = node_of s k l c" using grownD(3) [OF m [unfolded moved_def] kl False] by simp
      then show ?thesis using filledD(8) [OF F kl, of c] False unfolding mem by auto
    qed
    show "distinct (apps s')" if d: "rules_distinct (pa_grammars P) us"
    proof -
      have "distinct (apps s)" by (rule filledD(9) [OF F d])
      moreover have "distinct (map (\<lambda>(r, a). (i, j, r, a)) ys)" using v3 [THEN conjunct1] d by (auto simp: distinct_map inj_on_def)
      ultimately show ?thesis unfolding G(2) distinct_append using old by auto
    qed
    show "cells_ok P ws ?D s' gi (ch_act s' ! gi)" if gi: "gi < length (pa_grammars P)" for gi
    proof -
      let ?has = "gr_has_rule (pa_grammars P ! gi) i j (j - i)" and ?root = "gr_root (pa_grammars P ! gi)"
      note cells = filledD(6) [OF F gi, unfolded cells_ok_def]
      have fin: "finished P ws i j s s' gi (ch_act s' ! gi)" by (rule v4 [THEN conjunct2, rule_format, OF gi])
      have arr: "array_ok (?n + 1) (?n + 1) (ch_act s' ! gi)"
        using fin cells [THEN conjunct1] by (auto simp: finished_def cell_set_def split: if_splits)
      have same: "val2d (ch_act s' ! gi) k l = val2d (ch_act s ! gi) k l" if "in_chart ?n k l" "(k, l) \<noteq> (i, j)" for k l
      proof (cases ?has)
        case True
        then have "cell_set ?n i j (ch_act s ! gi) (val2d (ch_act s' ! gi) i j) (ch_act s' ! gi)" using fin by (simp add: finished_def)
        then show ?thesis by (rule cell_setD(3)) (rule that)+
      next
        case False
        then have "ch_act s' ! gi = ch_act s ! gi" using fin by (simp add: finished_def)
        then show ?thesis by simp
      qed
      have "if (k = l \<or> (k, l) \<in> ?D) \<and> gr_has_rule (pa_grammars P ! gi) k l (l - k)
        then items_are ?root (matches ws (span_nodes ?n s') (cat_of s') k l) (val2d (ch_act s' ! gi) k l)
        else val2d (ch_act s' ! gi) k l = []" if kl: "in_chart ?n k l" for k l
      proof (cases "(k, l) = (i, j)")
        case True
        have "val2d (ch_act s ! gi) i j = []" using cells [THEN conjunct2, rule_format, OF in_ij] fresh ij by simp
        then show ?thesis using fin True by (simp add: finished_def)
      next
        case False
        have "items_are ?root (matches ws (span_nodes ?n s') (cat_of s') k l) cell \<longleftrightarrow> items_are ?root (matches ws (span_nodes ?n s) (cat_of s) k l) cell"
          if "k = l \<or> (k, l) \<in> D" for cell :: "('f, 'c) active_item list"
          by (rule items_cong) (rule matches_elsewhere(1) [OF m ok out [OF that]])
        moreover have "k = l \<or> (k, l) \<in> ?D \<longleftrightarrow> k = l \<or> (k, l) \<in> D" using False by auto
        ultimately show ?thesis using cells [THEN conjunct2, rule_format, OF kl] unfolding same [OF kl False] by (simp split: if_splits)
      qed
      then show ?thesis unfolding cells_ok_def using arr by blast
    qed
  qed
  then show ?thesis using run(1) by (simp add: ensures_Some)
qed

section \<open>Before the first span\<close>

lemma SeedActiveChart_run:
  assumes "0 \<le> n"
  shows "ensures (SeedActiveChart P g (Array2D (n + 1) (n + 1) [])) (\<lambda>act. array_ok (n + 1) (n + 1) act \<and> (\<forall>i j. in_chart n i j \<longrightarrow>
     val2d act i j = (if i = j \<and> gr_has_rule g i i 0 then [\<lparr>ai_gptr = gr_root g, ai_ant_nodes = [], ai_lattice_cost = pa_zero_cost P\<rparr>] else [])))"
proof -
  let ?item = "\<lparr>ai_gptr = gr_root g, ai_ant_nodes = [], ai_lattice_cost = pa_zero_cost P\<rparr>"
  define I where "I m act \<longleftrightarrow> array_ok (n + 1) (n + 1) act \<and> (\<forall>i j. in_chart n i j \<longrightarrow>
     val2d act i j = (if i = j \<and> i < m \<and> gr_has_rule g i i 0 then [?item] else []))" for m act
  have width: "ar_width (Array2D (n + 1) (n + 1) []) = n + 1" by (simp add: Array2D_def)
  have "ensures (SeedActiveChart P g (Array2D (n + 1) (n + 1) [])) (I (n + 1))"
    unfolding SeedActiveChart_def width
  proof (rule ensures_for_range [where I = I])
    show "I 0 (Array2D (n + 1) (n + 1) [])" using assms by (auto simp: I_def Array2D_ok Array2D_val)
  next
    fix k act assume k: "0 \<le> k" "k < n + 1" and I: "I k act"
    have arr: "array_ok (n + 1) (n + 1) act" using I by (simp add: I_def)
    have val: "val2d act i j = (if i = j \<and> i < k \<and> gr_has_rule g i i 0 then [?item] else [])" if "in_chart n i j" for i j
      using I that unfolding I_def by blast
    show "ensures (if gr_has_rule g k k 0 then do { cell \<leftarrow> at2d act k k; set2d act k k (cell @ [?item]) } else Some act) (I (k + 1))"
    proof (cases "gr_has_rule g k k 0")
      case True
      have "at2d act k k = Some []" using at2d_val [OF arr, of k k] val [of k k] k by simp
      moreover have "ensures (set2d act k k [?item]) (I (k + 1))"
      proof (rule ensures_mono [OF set2d_cell [OF arr]])
        fix act' assume c: "cell_set n k k act [?item] act'"
        show "I (k + 1) act'"
          unfolding I_def
        proof (intro conjI allI impI)
          show "array_ok (n + 1) (n + 1) act'" by (rule cell_setD(1) [OF c])
          show "val2d act' i j = (if i = j \<and> i < k + 1 \<and> gr_has_rule g i i 0 then [?item] else [])" if ij: "in_chart n i j" for i j
          proof (cases "(i, j) = (k, k)")
            case True
            then show ?thesis using cell_setD(2) [OF c] ij \<open>gr_has_rule g k k 0\<close> by simp
          next
            case False
            then show ?thesis using cell_setD(3) [OF c ij False] val [OF ij] by auto
          qed
        qed
      qed (use k in simp)
      ultimately show ?thesis using True by simp
    next
      case False
      then have "I (k + 1) act" using arr val by (auto simp: I_def)
      then show ?thesis using False by (simp add: ensures_Some)
    qed
  qed (use assms in auto)
  then show ?thesis by (rule ensures_mono) (auto simp: I_def)
qed

text \<open>The chart as \<open>PassiveChart\<close> makes it for an empty forest, with active charts.\<close>

definition new_chart :: "('f, 'w, 'd, 'c) parser \<Rightarrow> int \<Rightarrow> 'f trule list \<Rightarrow> int \<Rightarrow> ('f, 'c) active_item list array2d list \<Rightarrow> ('f, 'w, 'c) chart" where
  "new_chart P n us cap acts = \<lparr>ch_forest = empty_hypergraph, ch_chart = Array2D (n + 1) (n + 1) [], ch_nodemap = Array2D (n + 1) (n + 1) [],
     ch_act = acts, ch_goal_idx = -1, ch_unaries = us, ch_capacity = cap, ch_moves = 0\<rparr>"

lemma new_chart_filled:
  assumes cap: "us \<noteq> [] \<Longrightarrow> 2 * vsize ws * vsize ws \<le> cap" and acts: "length acts = length (pa_grammars P)"
    "\<And>gi. gi < length (pa_grammars P) \<Longrightarrow> array_ok (vsize ws + 1) (vsize ws + 1) (acts ! gi) \<and> (\<forall>i j. in_chart (vsize ws) i j \<longrightarrow>
       val2d (acts ! gi) i j = (if i = j \<and> gr_has_rule (pa_grammars P ! gi) i i 0
         then [\<lparr>ai_gptr = gr_root (pa_grammars P ! gi), ai_ant_nodes = [], ai_lattice_cost = pa_zero_cost P\<rparr>] else []))"
  shows "filled P ws us {} (new_chart P (vsize ws) us cap acts :: ('f, 'w, 'c) chart)"
proof -
  let ?n = "vsize ws" and ?s = "new_chart P (vsize ws) us cap acts :: ('f, 'w, 'c) chart"
  have n: "0 \<le> ?n" by (simp add: vsize_def)
  have nodes: "nodes_at ?s i j = []" "node_of ?s i j c = None" "val2d (ch_nodemap ?s) i j = []" if "in_chart ?n i j" for i j c
    using that n by (simp_all add: nodes_at_def node_of_def new_chart_def Array2D_val)
  have none: "hg_nodes (ch_forest ?s) = []" "hg_edges (ch_forest ?s) = []" by (simp_all add: new_chart_def empty_hypergraph_def)
  have ok: "chart_ok ?n (pa_kGOAL P) ?s"
    unfolding chart_ok_def
  proof (intro conjI)
    show "consistent_hg {} (ch_forest ?s)" by (simp add: new_chart_def consistent_empty)
    show "array_ok (?n + 1) (?n + 1) (ch_chart ?s)" "array_ok (?n + 1) (?n + 1) (ch_nodemap ?s)" using n by (simp_all add: new_chart_def Array2D_ok)
  qed (use nodes none in \<open>simp_all add: symbols.ordered_def vsize_def\<close>)
  have empty: "span_nodes ?n ?s i j = {}" for i j using nodes(1) [of i j] by (simp add: span_nodes_def)
  have "cells_ok P ws {} ?s gi (ch_act ?s ! gi)" if gi: "gi < length (pa_grammars P)" for gi
    unfolding cells_ok_def
  proof (intro conjI allI impI)
    have acts': "ch_act ?s ! gi = acts ! gi" by (simp add: new_chart_def)
    show "array_ok (?n + 1) (?n + 1) (ch_act ?s ! gi)" using acts(2) [OF gi] acts' by simp
    fix i j assume ij: "in_chart ?n i j"
    let ?root = "gr_root (pa_grammars P ! gi)"
    have nil: "matches ws (span_nodes ?n ?s) (cat_of ?s) i i p a \<longleftrightarrow> p = [] \<and> a = []" for p a
      using matches_le [OF span_nodes_ok(1) [OF ok], of ws "cat_of ?s" i i p a] matches_nil by blast
    have "items_are ?root (matches ws (span_nodes ?n ?s) (cat_of ?s) i i) [\<lparr>ai_gptr = ?root, ai_ant_nodes = [], ai_lattice_cost = pa_zero_cost P\<rparr>]"
      unfolding items_are_def nil by (rule exI [of _ "[([], [])]"]) (auto simp: item_of_def)
    then show "if (i = j \<or> (i, j) \<in> {}) \<and> gr_has_rule (pa_grammars P ! gi) i j (j - i)
        then items_are ?root (matches ws (span_nodes ?n ?s) (cat_of ?s) i j) (val2d (ch_act ?s ! gi) i j) else val2d (ch_act ?s ! gi) i j = []"
      using acts(2) [OF gi] ij acts' by auto
  qed
  then show ?thesis
    unfolding filled_def using ok cap acts(1) nodes(2) none by (simp add: new_chart_def apps_def)
qed

section \<open>The goal\<close>

text \<open>The last state, after the full span: the goal rule is applied to the node of the goal category.\<close>

definition with_goal :: "('f, 'w, 'd, 'c) parser \<Rightarrow> int \<Rightarrow> ('f, 'w, 'c) chart \<Rightarrow> ('f, 'w, 'c) chart \<Rightarrow> bool" where
  "with_goal P n s s' \<longleftrightarrow> (case node_of s 0 n (pa_goal_cat P) of None \<Rightarrow> s' = s
     | Some v \<Rightarrow> grown n (pa_kGOAL P) 0 n [(pa_goal_rule P, [v])] s s' \<and> ch_goal_idx s' = node_count s \<and> node_count s' = node_count s + 1 \<and>
         node_of s' 0 n (pa_kGOAL P) = Some (node_count s))"

lemma find_goal_run:
  assumes P: "parser_ok P ws us" and F: "filled P ws us D s" and n: "0 < vsize ws" and goal: "tr_lhs (pa_goal_rule P) = pa_kGOAL P"
  shows "ensures (find_goal P s) (with_goal P (vsize ws) s)"
proof -
  let ?n = "vsize ws" and ?goal = "pa_kGOAL P" and ?c = "pa_goal_cat P"
  note ok = filledD(1) [OF F] note D = chart_okD [OF ok]
  have in_n: "in_chart ?n 0 ?n" using n by simp
  have size: "lattice_size (pa_input P) = ?n" using parser_okD(1) [OF P] by (simp add: sentence_def)
  have node: "node_of s 0 ?n (cat_of s v) = Some v \<and> cat_of s v \<noteq> ?goal \<and> 0 \<le> v \<and> v < node_count s" if "v \<in> set (nodes_at s 0 ?n)" for v
    using D(7) [OF in_n, of v] D(6) [OF in_n, of "cat_of s v" v] that by simp
  have no_goal: "node_of s 0 ?n ?goal = None" using filled_cat(2) [OF P F in_n, of ?goal] by blast
  define I where "I vs t \<longleftrightarrow> (if \<exists>v \<in> set vs. node_of s 0 ?n ?c = Some v then with_goal P ?n s t else t = s)" for vs t
  let ?f = "\<lambda>v s. do {
       nd \<leftarrow> vat (hg_nodes (ch_forest s)) v;
       if nd_cat nd = ?c then ApplyRule P 0 ?n (pa_goal_rule P) [nd_id nd] (pa_zero_cost P) s else Some s }"
  have "ensures (for_each (nodes_at s 0 ?n) ?f s) (with_goal P ?n s)"
  proof (rule ensures_for_each [where I = I])
    show "I [] s" by (simp add: I_def)
  next
    fix ys v zs t assume split: "nodes_at s 0 ?n = ys @ v # zs" and I: "I ys t"
    have v: "node_of s 0 ?n (cat_of s v) = Some v" "0 \<le> v" "v < node_count s" using node [of v] split by simp_all
    have fresh: "v \<notin> set ys" using D(5) [OF in_n] split by simp
    have t: "vat (hg_nodes (ch_forest t)) v = Some (hg_nodes (ch_forest t) ! nat v)" "nd_cat (hg_nodes (ch_forest t) ! nat v) = cat_of s v"
    proof -
      consider "t = s" | u where "grown ?n ?goal 0 ?n [(pa_goal_rule P, [u])] s t"
        using I by (auto simp: I_def with_goal_def split: if_splits)
      then have "v < node_count t \<and> cat_of t v = cat_of s v"
      proof cases
        case 2
        then show ?thesis using grownD(6,7) [OF 2] v by simp
      qed (use v in simp)
      then show "vat (hg_nodes (ch_forest t)) v = Some (hg_nodes (ch_forest t) ! nat v)" "nd_cat (hg_nodes (ch_forest t) ! nat v) = cat_of s v"
        using v by (simp_all add: vat_eq vsize_def cat_of_def)
    qed
    show "ensures (?f v t) (I (ys @ [v]))"
    proof (cases "cat_of s v = ?c")
      case True
      have v_node: "node_of s 0 ?n ?c = Some v" using v(1) True by simp
      then have "t = s" using I fresh by (auto simp: I_def)
      have id: "nd_id (hg_nodes (ch_forest s) ! nat v) = v" using consistentD(1) [OF D(1), of "nat v"] v by (simp add: vsize_def)
      have "ensures (ApplyRule P 0 ?n (pa_goal_rule P) [v] (pa_zero_cost P) s) (with_goal P ?n s)"
        by (rule ensures_mono [OF ApplyRule_run [OF ok]]) (use n v goal no_goal v_node filledD(3) [OF F] in \<open>auto simp: with_goal_def\<close>)
      then have "ensures (ApplyRule P 0 ?n (pa_goal_rule P) [v] (pa_zero_cost P) s) (I (ys @ [v]))"
        by (rule ensures_mono) (use v_node in \<open>simp add: I_def\<close>)
      then show ?thesis using t True id \<open>t = s\<close> by simp
    next
      case False
      have "node_of s 0 ?n ?c \<noteq> Some v"
      proof
        assume "node_of s 0 ?n ?c = Some v"
        then show False using D(6) [OF in_n, of ?c v] False by simp
      qed
      then have "I (ys @ [v]) t" using I by (simp add: I_def)
      then show ?thesis using t False by (simp add: ensures_Some)
    qed
  next
    fix t assume I: "I (nodes_at s 0 ?n) t"
    show "with_goal P ?n s t"
    proof (cases "node_of s 0 ?n ?c")
      case None
      then show ?thesis using I by (simp add: I_def with_goal_def)
    next
      case (Some v)
      have "?c \<noteq> ?goal" using Some no_goal by auto
      then have "v \<in> set (nodes_at s 0 ?n)" using D(7) [OF in_n, of v] D(6) [OF in_n Some] Some by simp
      then show ?thesis using I Some by (auto simp: I_def)
    qed
  qed
  then show ?thesis using at2d_val [OF D(2), of 0 ?n] n size by (simp add: find_goal_def nodes_at_def Let_def)
qed

section \<open>All spans\<close>

definition spans_below :: "int \<Rightarrow> int \<Rightarrow> (int \<times> int) set" where
  "spans_below n l = {(i, j). 0 \<le> i \<and> i < j \<and> j \<le> n \<and> j - i < l}"

lemma visit_spans_run:
  assumes P: "parser_ok P ws us" and few: "few_cats P ws us" and l: "0 < l" "l \<le> vsize ws" and F: "filled P ws us (spans_below (vsize ws) l) s"
  shows "ensures (for_each (int_range 0 (vsize ws + 1 - l)) (\<lambda>i. visit_span P i (i + l)) s) (filled P ws us (spans_below (vsize ws) (l + 1)))"
proof (rule ensures_for_range [where I = "\<lambda>i. filled P ws us (spans_below (vsize ws) l \<union> {(k, m). 0 \<le> k \<and> k < i \<and> m = k + l})"])
  let ?D = "\<lambda>i. spans_below (vsize ws) l \<union> {(k, m). 0 \<le> k \<and> k < i \<and> m = k + l}"
  have D0: "?D 0 = spans_below (vsize ws) l" by auto
  show "filled P ws us (?D 0) s" unfolding D0 by (rule F)
  show "0 \<le> vsize ws + 1 - l" using l by simp
  fix i s assume i: "0 \<le> i" "i < vsize ws + 1 - l" and F: "filled P ws us (?D i) s"
  have "insert (i, i + l) (?D i) = ?D (i + 1)" using i(1) by auto
  moreover have "ensures (visit_span P i (i + l) s) (filled P ws us (insert (i, i + l) (?D i)))"
    by (rule visit_filled [OF P F few]) (use i l in \<open>auto simp: spans_below_def\<close>)
  ultimately show "ensures (visit_span P i (i + l) s) (filled P ws us (?D (i + 1)))" by simp
next
  fix t assume F: "filled P ws us (spans_below (vsize ws) l \<union> {(k, m). 0 \<le> k \<and> k < vsize ws + 1 - l \<and> m = k + l}) t"
  have "spans_below (vsize ws) l \<union> {(k, m). 0 \<le> k \<and> k < vsize ws + 1 - l \<and> m = k + l} = spans_below (vsize ws) (l + 1)"
    using l by (auto simp: spans_below_def)
  then show "filled P ws us (spans_below (vsize ws) (l + 1)) t" using F by simp
qed

text \<open>Before the full span is visited there is no node to apply the goal rule to.\<close>

lemma find_goal_early:
  assumes P: "parser_ok P ws us" and F: "filled P ws us D s" and n: "0 < vsize ws" and goal: "tr_lhs (pa_goal_rule P) = pa_kGOAL P" and D: "(0, vsize ws) \<notin> D"
  shows "find_goal P s = Some s"
proof -
  have "node_of s 0 (vsize ws) (pa_goal_cat P) = None"
    using filledD(8) [OF F, of 0 "vsize ws" "pa_goal_cat P"] filledD(7) [OF F, of 0 "vsize ws"] D n by auto
  then show ?thesis using find_goal_run [OF P F n goal] by (auto simp: ensures_def with_goal_def)
qed

definition parsed :: "('f, 'w, 'd, 'c) parser \<Rightarrow> int list \<Rightarrow> 'f trule list \<Rightarrow> ('f, 'w, 'c) chart \<Rightarrow> ('f, 'w, 'c) chart \<Rightarrow> bool" where
  "parsed P ws us s s' \<longleftrightarrow> filled P ws us (spans_below (vsize ws) (vsize ws + 1)) s \<and> with_goal P (vsize ws) s s'"

lemma fill_chart_run:
  assumes P: "parser_ok P ws us" and few: "few_cats P ws us" and goal: "tr_lhs (pa_goal_rule P) = pa_kGOAL P"
    and us: "TopoSortUnaries (pa_goal_cat P) (concat (map gr_unaries (pa_grammars P))) = Some us"
  shows "ensures (do { s \<leftarrow> PassiveChart P empty_hypergraph; fill_chart P s }) (\<lambda>s'. \<exists>s. parsed P ws us s s')"
proof -
  let ?n = "vsize ws" and ?gs = "pa_grammars P"
  have n: "0 \<le> ?n" by (simp add: vsize_def)
  have size: "lattice_size (pa_input P) = ?n" using parser_okD(1) [OF P] by (simp add: sentence_def)
  let ?cap = "max 0 (?n * ?n * 2)" and ?a0 = "Array2D (?n + 1) (?n + 1) []"
  have start: "PassiveChart P empty_hypergraph = Some (new_chart P ?n us 0 (map (\<lambda>_. ?a0) ?gs))"
    using us size by (simp add: PassiveChart_def new_chart_def empty_hypergraph_def vsize_def Let_def)
  define seeded where "seeded gi act \<longleftrightarrow> array_ok (?n + 1) (?n + 1) act \<and> (\<forall>i j. in_chart ?n i j \<longrightarrow>
       val2d act i j = (if i = j \<and> gr_has_rule (?gs ! gi) i i 0
         then [\<lparr>ai_gptr = gr_root (?gs ! gi), ai_ant_nodes = [], ai_lattice_cost = pa_zero_cost P\<rparr>] else []))" for gi act
  define S where "S m s \<longleftrightarrow> (\<exists>acts. s = new_chart P ?n us ?cap acts \<and> length acts = length ?gs \<and>
    (\<forall>gi < length ?gs. if gi < m then seeded gi (acts ! gi) else acts ! gi = ?a0))" for m s
  have seed: "ensures (for_each (positions ?gs) (\<lambda>gi s. do { g \<leftarrow> vat ?gs gi; with_act gi (SeedActiveChart P g) s }) (new_chart P ?n us ?cap (map (\<lambda>_. ?a0) ?gs)))
      (filled P ws us (spans_below ?n 1))"
  proof (rule ensures_for_range [where I = "\<lambda>gi. S (nat gi)"])
    show "S (nat 0) (new_chart P ?n us ?cap (map (\<lambda>_. ?a0) ?gs))" unfolding S_def by (intro exI [of _ "map (\<lambda>_. ?a0) ?gs"]) simp
  next
    fix k s assume k: "0 \<le> k" "k < vsize ?gs" and "S (nat k) s"
    then obtain acts where s: "s = new_chart P ?n us ?cap acts" "length acts = length ?gs"
      and acts: "\<And>gi. gi < length ?gs \<Longrightarrow> if gi < nat k then seeded gi (acts ! gi) else acts ! gi = ?a0"
      unfolding S_def by blast
    let ?gi = "nat k"
    have gi: "?gi < length ?gs" "nat (k + 1) = Suc ?gi" using k by (simp_all add: vsize_def nat_add_distrib)
    have "acts ! ?gi = ?a0" using acts [OF gi(1)] by simp
    then have "ensures (SeedActiveChart P (?gs ! ?gi) (ch_act s ! nat k)) (seeded ?gi)"
      using SeedActiveChart_run [OF n, of P "?gs ! ?gi"] by (simp add: s(1) new_chart_def seeded_def [abs_def])
    then have "ensures (with_act k (SeedActiveChart P (?gs ! ?gi)) s) (\<lambda>s'. \<exists>act. seeded ?gi act \<and> s' = s\<lparr>ch_act := (ch_act s)[nat k := act]\<rparr>)"
      by (intro with_act_run) (use k s in \<open>simp_all add: new_chart_def vsize_def\<close>)
    then have "ensures (with_act k (SeedActiveChart P (?gs ! ?gi)) s) (S (Suc ?gi))"
    proof (rule ensures_mono)
      fix s' assume "\<exists>act. seeded ?gi act \<and> s' = s\<lparr>ch_act := (ch_act s)[nat k := act]\<rparr>"
      then obtain act where act: "seeded ?gi act" "s' = s\<lparr>ch_act := (ch_act s)[nat k := act]\<rparr>" by blast
      have upd: "if gi < Suc ?gi then seeded gi (acts[?gi := act] ! gi) else acts[?gi := act] ! gi = ?a0" if "gi < length ?gs" for gi
      proof (cases "gi = ?gi")
        case True
        then show ?thesis using act(1) s(2) that by simp
      next
        case False
        then show ?thesis using acts [OF that] by (simp add: less_Suc_eq)
      qed
      show "S (Suc ?gi) s'" unfolding S_def
        by (intro exI [of _ "acts[?gi := act]"] conjI allI impI upd) (simp_all add: act(2) s new_chart_def)
    qed
    then show "ensures (do { g \<leftarrow> vat ?gs k; with_act k (SeedActiveChart P g) s }) (S (nat (k + 1)))"
      using k gi(2) by (simp add: vat_eq vsize_def)
  next
    fix s assume "S (nat (vsize ?gs)) s"
    then obtain acts where s: "s = new_chart P ?n us ?cap acts" "length acts = length ?gs"
      and acts: "\<And>gi. gi < length ?gs \<Longrightarrow> seeded gi (acts ! gi)" unfolding S_def by (auto simp: vsize_def)
    have "spans_below ?n 1 = {}" by (auto simp: spans_below_def)
    then show "filled P ws us (spans_below ?n 1) s" unfolding s(1) by (simp only:) (rule new_chart_filled [OF _ s(2) acts [unfolded seeded_def]], simp)
  qed (simp add: vsize_def)
  then obtain s1 where s1: "for_each (positions ?gs) (\<lambda>gi s. do { g \<leftarrow> vat ?gs gi; with_act gi (SeedActiveChart P g) s }) (new_chart P ?n us ?cap (map (\<lambda>_. ?a0) ?gs)) = Some s1"
    "filled P ws us (spans_below ?n 1) s1" by (rule ensuresE)
  let ?body = "\<lambda>l s. do { s \<leftarrow> for_each (int_range 0 (?n + 1 - l)) (\<lambda>i. visit_span P i (i + l)) s; find_goal P s }"
  define I where "I l t \<longleftrightarrow> (if l \<le> ?n \<or> ?n = 0 then filled P ws us (spans_below ?n l) t else \<exists>s. parsed P ws us s t)" for l t
  have "ensures (for_each (int_range 1 (?n + 1)) ?body s1) (\<lambda>s'. \<exists>s. parsed P ws us s s')"
  proof (rule ensures_for_range [where I = I])
    have "1 \<le> ?n \<or> ?n = 0" using n by linarith
    then show "I 1 s1" unfolding I_def by (simp only: if_True s1(2))
  next
    fix l s assume l: "1 \<le> l" "l < ?n + 1" and "I l s"
    then have F: "filled P ws us (spans_below ?n l) s" by (simp add: I_def)
    obtain s2 where s2: "for_each (int_range 0 (?n + 1 - l)) (\<lambda>i. visit_span P i (i + l)) s = Some s2" "filled P ws us (spans_below ?n (l + 1)) s2"
      by (rule ensuresE [OF visit_spans_run [OF P few _ _ F]]) (use l in auto)
    show "ensures (?body l s) (I (l + 1))"
    proof (cases "l = ?n")
      case True
      have "ensures (find_goal P s2) (with_goal P ?n s2)" by (rule find_goal_run [OF P s2(2) _ goal]) (use l in simp)
      then have "ensures (find_goal P s2) (I (l + 1))" by (rule ensures_mono) (use s2(2) True l in \<open>auto simp: I_def parsed_def\<close>)
      then show ?thesis using s2(1) by simp
    next
      case False
      have "find_goal P s2 = Some s2" by (rule find_goal_early [OF P s2(2) _ goal]) (use False l in \<open>auto simp: spans_below_def\<close>)
      then show ?thesis using s2 False l by (simp add: I_def ensures_Some)
    qed
  next
    fix t assume t: "I (?n + 1) t"
    show "\<exists>s. parsed P ws us s t"
    proof (cases "?n = 0")
      case True
      then have F: "filled P ws us (spans_below ?n (?n + 1)) t" using t by (simp add: I_def)
      have "node_of t 0 ?n (pa_goal_cat P) = None"
        using filledD(8) [OF F, of 0 ?n "pa_goal_cat P"] filledD(7) [OF F, of 0 ?n] True by (auto simp: spans_below_def)
      then show ?thesis using F by (auto simp: parsed_def with_goal_def)
    qed (use t in \<open>simp add: I_def\<close>)
  qed (use n in simp)
  then have "ensures (fill_chart P (new_chart P ?n us 0 (map (\<lambda>_. ?a0) ?gs))) (\<lambda>s'. \<exists>s. parsed P ws us s s')"
    using s1(1) size by (simp add: fill_chart_def new_chart_def Let_def)
  then show ?thesis using start by simp
qed

end
