(* ===== verification/UnarySort.thy ===== *)
theory UnarySort
  imports BottomUp "HOL-Library.Sublist" "HOL-Library.Multiset"
begin

text \<open>
  The order of the unary rules (\<open>TopoSortUnaries\<close>): the search returns, and without the rules that close a cycle every
  rule comes before those that rewrite what it makes.
\<close>

definition source_cat :: "'f trule \<Rightarrow> int" where
  "source_cat r = hd (tr_f r)"

definition edges_of :: "(int \<times> 'f trule list) list \<Rightarrow> int \<Rightarrow> 'f trule list" where
  "edges_of g n = (case om_get (<) n g of None \<Rightarrow> [] | Some es \<Rightarrow> es)"

text \<open>
  The nodes in the order they were finished, and the edges kept for each: they lead to nodes finished before. With
  \<open>full\<close> no edge was left out, except those of the goal.
\<close>

definition sorted_edges :: "bool \<Rightarrow> int \<Rightarrow> (int \<Rightarrow> 'f trule list) \<Rightarrow> int list \<Rightarrow> (int \<Rightarrow> 'f trule list) \<Rightarrow> bool" where
  "sorted_edges full goal E fin kept \<longleftrightarrow> distinct fin \<and> (\<forall>k < length fin. subseq (kept (fin ! k)) (E (fin ! k)) \<and>
     (\<forall>r \<in> set (kept (fin ! k)). tr_lhs r \<in> set (take k fin)) \<and> (full \<longrightarrow> fin ! k \<noteq> goal \<longrightarrow> kept (fin ! k) = E (fin ! k)))"

definition topo_ok :: "bool \<Rightarrow> int \<Rightarrow> (int \<Rightarrow> 'f trule list) \<Rightarrow> 'f trule list \<Rightarrow> (int \<Rightarrow> int) \<Rightarrow> int list \<Rightarrow> bool" where
  "topo_ok full goal E u mark fin \<longleftrightarrow> (\<forall>n. mark n = 0 \<or> mark n = 1 \<or> mark n = 2) \<and> (\<forall>n. mark n = 2 \<longleftrightarrow> n \<in> set fin) \<and> goal \<in> set fin \<and>
     (\<exists>kept. sorted_edges full goal E fin kept \<and> u = concat (map kept fin))"

text \<open>A node is finished when the nodes of the kept edges are.\<close>

lemma sorted_edges_snoc:
  assumes s: "sorted_edges full goal E fin kept" and n: "n \<notin> set fin" and es: "subseq es (E n)" "\<And>r. r \<in> set es \<Longrightarrow> tr_lhs r \<in> set fin" "full \<Longrightarrow> es = E n"
  shows "sorted_edges full goal E (fin @ [n]) (kept(n := es))" "concat (map (kept(n := es)) (fin @ [n])) = concat (map kept fin) @ es"
proof -
  show "concat (map (kept(n := es)) (fin @ [n])) = concat (map kept fin) @ es"
    using n by (simp add: map_fun_upd)
  show "sorted_edges full goal E (fin @ [n]) (kept(n := es))"
    unfolding sorted_edges_def
  proof (intro conjI allI impI ballI)
    show "distinct (fin @ [n])" using s n by (simp add: sorted_edges_def)
    fix k assume k: "k < length (fin @ [n])"
    have old: "fin ! k \<noteq> n" if "k < length fin" using n that by auto
    show "subseq ((kept(n := es)) ((fin @ [n]) ! k)) (E ((fin @ [n]) ! k))"
      using s es(1) k old by (cases "k < length fin") (simp_all add: sorted_edges_def nth_append)
    show "tr_lhs r \<in> set (take k (fin @ [n]))" if "r \<in> set ((kept(n := es)) ((fin @ [n]) ! k))" for r
      using s es(2) k old that by (cases "k < length fin") (simp_all add: sorted_edges_def nth_append)
    show "(kept(n := es)) ((fin @ [n]) ! k) = E ((fin @ [n]) ! k)" if "full" "(fin @ [n]) ! k \<noteq> goal"
      using s es(3) k old that by (cases "k < length fin") (simp_all add: sorted_edges_def nth_append)
  qed
qed

text \<open>What a visit does: it finishes more nodes, and fails only on a node that is being visited.\<close>

definition visited_to :: "bool \<Rightarrow> int \<Rightarrow> (int \<Rightarrow> 'f trule list) \<Rightarrow> (int \<Rightarrow> int) \<Rightarrow> int list \<Rightarrow> 'f trule list \<Rightarrow> (int \<Rightarrow> int) \<Rightarrow> int list \<Rightarrow> bool" where
  "visited_to full goal E mark fin u' mark' fin' \<longleftrightarrow> topo_ok full goal E u' mark' fin' \<and> set fin \<subseteq> set fin' \<and> (\<forall>n. mark' n = 1 \<longleftrightarrow> mark n = 1) \<and>
     (\<forall>n. mark n \<noteq> 0 \<longrightarrow> mark' n = mark n)"

lemma visited_to_refl: "topo_ok full goal E u mark fin \<Longrightarrow> visited_to full goal E mark fin u mark fin"
  by (simp add: visited_to_def)

lemma visited_to_trans:
  "visited_to full goal E mark fin u1 mark1 fin1 \<Longrightarrow> visited_to full goal E mark1 fin1 u2 mark2 fin2 \<Longrightarrow> visited_to full goal E mark fin u2 mark2 fin2"
  unfolding visited_to_def by auto

definition cat_graph :: "(int \<Rightarrow> 'f trule list) \<Rightarrow> (int \<times> int) set" where
  "cat_graph E = {(n, tr_lhs r) | n r. r \<in> set (E n)}"

lemma subseq_kept: "length oks = length es \<Longrightarrow> subseq (map snd (filter fst (zip oks es))) es"
  by (induction oks es rule: list_induct2) auto

lemma visit_run:
  assumes E: "E = edges_of g" and U: "finite U" "\<And>n r. r \<in> set (E n) \<Longrightarrow> tr_lhs r \<in> U" and full: "full \<Longrightarrow> acyclic (cat_graph E)"
  shows "topo_ok full goal E u mark fin \<Longrightarrow> node \<in> U \<Longrightarrow> card {x \<in> U. mark x = 0} < fuel \<Longrightarrow>
    (full \<Longrightarrow> \<forall>m. mark m = 1 \<longrightarrow> (m, node) \<in> (cat_graph E)\<^sup>+) \<Longrightarrow>
    ensures (TopoSortVisit g fuel node (u, mark)) (\<lambda>(ok, u', mark'). (ok \<longleftrightarrow> mark node \<noteq> 1) \<and>
      (\<exists>fin'. visited_to full goal E mark fin u' mark' fin' \<and> (ok \<longrightarrow> node \<in> set fin')))"
proof (induction fuel arbitrary: node u mark fin)
  case (Suc fuel)
  have marks: "mark n = 0 \<or> mark n = 1 \<or> mark n = 2" "mark n = 2 \<longleftrightarrow> n \<in> set fin" for n using Suc.prems(1) unfolding topo_ok_def by blast+
  consider "mark node = 1" | "mark node = 2" | "mark node = 0" using marks(1) by blast
  then show ?case
  proof cases
    case 3
    let ?mark = "mark(node := 1)" and ?es = "E node"
    have fresh: "node \<notin> set fin" using marks(2) [of node] 3 by simp
    have start: "topo_ok full goal E u ?mark fin" using Suc.prems(1) fresh by (auto simp: topo_ok_def)
    have few: "card {x \<in> U. m x = 0} < fuel" if m: "visited_to full goal E ?mark fin u' m fin'" for u' m fin'
    proof -
      have "m x = 0 \<Longrightarrow> mark x = 0 \<and> x \<noteq> node" for x
        using m 3 unfolding visited_to_def by (metis fun_upd_apply zero_neq_one)
      then have "{x \<in> U. m x = 0} \<subseteq> {x \<in> U. mark x = 0} - {node}" by blast
      then have "card {x \<in> U. m x = 0} \<le> card ({x \<in> U. mark x = 0} - {node})" using U(1) by (intro card_mono) auto
      also have "\<dots> < card {x \<in> U. mark x = 0}" using U(1) Suc.prems(2) 3 by (intro card_Diff1_less) auto
      finally show ?thesis using Suc.prems(3) by simp
    qed
    define I where "I ys st \<longleftrightarrow> (case st of (oks, u', m) \<Rightarrow> \<exists>fin'. visited_to full goal E ?mark fin u' m fin' \<and> length oks = length ys \<and>
      (\<forall>x \<in> set (zip oks ys). fst x \<longrightarrow> tr_lhs (snd x) \<in> set fin') \<and> (full \<longrightarrow> (\<forall>b \<in> set oks. b)))" for ys :: "'a trule list" and st :: "bool list \<times> 'a trule list \<times> (int \<Rightarrow> int)"
    have loop: "ensures (for_each ?es (visit_edge (TopoSortVisit g fuel)) ([], u, ?mark)) (I ?es)"
    proof (rule ensures_for_each [where I = I])
      show "I [] ([], u, ?mark)" using visited_to_refl [OF start] by (auto simp: I_def)
    next
      fix ys r zs st assume es: "?es = ys @ r # zs" and I: "I ys st"
      obtain oks u1 m where st: "st = (oks, u1, m)" by (cases st) auto
      obtain fin1 where v: "visited_to full goal E ?mark fin u1 m fin1" "length oks = length ys" "\<forall>x \<in> set (zip oks ys). fst x \<longrightarrow> tr_lhs (snd x) \<in> set fin1"
        "full \<longrightarrow> (\<forall>b \<in> set oks. b)" using I by (auto simp: I_def st)
      have r: "r \<in> set ?es" using es by simp
      have ones: "m x = 1 \<longleftrightarrow> x = node \<or> mark x = 1" for x using v(1) by (auto simp: visited_to_def)
      have edge: "(node, tr_lhs r) \<in> cat_graph E" using r by (auto simp: cat_graph_def)
      have stack: "(x, tr_lhs r) \<in> (cat_graph E)\<^sup>+" if "full" "m x = 1" for x
      proof (cases "x = node")
        case True
        then show ?thesis using edge by blast
      next
        case False
        then have "(x, node) \<in> (cat_graph E)\<^sup>+" using Suc.prems(4) [OF \<open>full\<close>] ones that(2) by blast
        then show ?thesis using edge by (rule trancl_into_trancl)
      qed
      have off: "m (tr_lhs r) \<noteq> 1" if "full" using stack [OF that, of "tr_lhs r"] full [OF that] by (auto simp: acyclic_def)
      have "ensures (TopoSortVisit g fuel (tr_lhs r) (u1, m)) (\<lambda>(ok, u', mark'). (ok \<longleftrightarrow> m (tr_lhs r) \<noteq> 1) \<and>
          (\<exists>fin'. visited_to full goal E m fin1 u' mark' fin' \<and> (ok \<longrightarrow> tr_lhs r \<in> set fin')))"
        by (rule Suc.IH) (use v(1) U(2) [OF r] few [OF v(1)] stack in \<open>auto simp: visited_to_def\<close>)
      then show "ensures (visit_edge (TopoSortVisit g fuel) r st) (I (ys @ [r]))"
        unfolding visit_edge_def st prod.sel ensures_bind
      proof (rule ensures_mono)
        fix res assume "case res of (ok, u', mark') \<Rightarrow> (ok \<longleftrightarrow> m (tr_lhs r) \<noteq> 1) \<and> (\<exists>fin'. visited_to full goal E m fin1 u' mark' fin' \<and> (ok \<longrightarrow> tr_lhs r \<in> set fin'))"
        then obtain ok u2 m2 fin2 where res: "res = (ok, u2, m2)" "ok \<longleftrightarrow> m (tr_lhs r) \<noteq> 1" "visited_to full goal E m fin1 u2 m2 fin2" "ok \<longrightarrow> tr_lhs r \<in> set fin2"
          by auto
        have "set fin1 \<subseteq> set fin2" using res(3) by (simp add: visited_to_def)
        then have "I (ys @ [r]) (oks @ [ok], u2, m2)"
          unfolding I_def using visited_to_trans [OF v(1) res(3)] v(2-4) res(2,4) off by (auto intro!: exI [of _ fin2])
        then show "ensures (case res of (ok, s) \<Rightarrow> Some (oks @ [ok], s)) (I (ys @ [r]))" by (simp add: res(1) ensures_Some)
      qed
    qed
    have "ensures (case om_get (<) node g of None \<Rightarrow> Some (u, ?mark)
       | Some edges \<Rightarrow> do { (okay, u, mark) \<leftarrow> for_each edges (visit_edge (TopoSortVisit g fuel)) ([], u, ?mark);
           Some (u @ map snd (filter fst (zip okay edges)), mark) })
      (\<lambda>(u', m). \<exists>fin' u1 es. visited_to full goal E ?mark fin u1 m fin' \<and> u' = u1 @ es \<and> subseq es ?es \<and> (\<forall>r \<in> set es. tr_lhs r \<in> set fin') \<and> (full \<longrightarrow> es = ?es))"
    proof (cases "om_get (<) node g")
      case None
      then have "?es = []" by (simp add: E edges_of_def)
      then show ?thesis using None visited_to_refl [OF start]
        by (simp add: ensures_Some) (rule exI [of _ fin], rule exI [of _ u], simp)
    next
      case (Some es)
      then have es: "?es = es" by (simp add: E edges_of_def)
      have "ensures (for_each es (visit_edge (TopoSortVisit g fuel)) ([], u, ?mark)) (\<lambda>(okay, u, mark). \<exists>fin' u1 es'. visited_to full goal E ?mark fin u1 mark fin' \<and>
          u @ map snd (filter fst (zip okay es)) = u1 @ es' \<and> subseq es' es \<and> (\<forall>r \<in> set es'. tr_lhs r \<in> set fin') \<and> (full \<longrightarrow> es' = es))"
      proof (rule ensures_mono [OF loop [unfolded es]])
        fix st assume I: "I es st"
        obtain oks u1 m where st: "st = (oks, u1, m)" by (cases st) auto
        obtain fin1 where v: "visited_to full goal E ?mark fin u1 m fin1" "length oks = length es" "\<forall>x \<in> set (zip oks es). fst x \<longrightarrow> tr_lhs (snd x) \<in> set fin1"
          "full \<longrightarrow> (\<forall>b \<in> set oks. b)" using I by (auto simp: I_def st)
        let ?k = "map snd (filter fst (zip oks es))"
        have "?k = es" if "full"
        proof -
          have "filter fst (zip oks es) = zip oks es" using v(4) that by (intro filter_True) (auto dest: set_zip_leftD)
          then show ?thesis using v(2) by simp
        qed
        moreover have "\<forall>r \<in> set ?k. tr_lhs r \<in> set fin1" using v(3) by auto
        ultimately show "case st of (okay, u, mark) \<Rightarrow> \<exists>fin' u1 es'. visited_to full goal E ?mark fin u1 mark fin' \<and>
          u @ map snd (filter fst (zip okay es)) = u1 @ es' \<and> subseq es' es \<and> (\<forall>r \<in> set es'. tr_lhs r \<in> set fin') \<and> (full \<longrightarrow> es' = es)"
          using v(1) subseq_kept [OF v(2)] unfolding st prod.case by (intro exI [of _ fin1] exI [of _ u1] exI [of _ "?k"] conjI refl) blast+
      qed
      then show ?thesis unfolding Some es option.case ensures_bind by (rule ensures_mono) (simp add: split_beta ensures_Some)
    qed
    then obtain u' m where run: "(case om_get (<) node g of None \<Rightarrow> Some (u, ?mark)
       | Some edges \<Rightarrow> do { (okay, u, mark) \<leftarrow> for_each edges (visit_edge (TopoSortVisit g fuel)) ([], u, ?mark);
           Some (u @ map snd (filter fst (zip okay edges)), mark) }) = Some (u', m)"
      and "\<exists>fin' u1 es. visited_to full goal E ?mark fin u1 m fin' \<and> u' = u1 @ es \<and> subseq es ?es \<and> (\<forall>r \<in> set es. tr_lhs r \<in> set fin') \<and> (full \<longrightarrow> es = ?es)"
      by - (erule ensuresE, erule case_prodE, hypsubst, rule that, assumption+)
    then obtain fin' u1 es where v: "visited_to full goal E ?mark fin u1 m fin'" and es: "u' = u1 @ es" "subseq es ?es" "\<forall>r \<in> set es. tr_lhs r \<in> set fin'" "full \<longrightarrow> es = ?es"
      by blast
    note v1 = v [unfolded visited_to_def] note v2 = v1 [THEN conjunct2] note v3 = v2 [THEN conjunct2] note t = v1 [THEN conjunct1, unfolded topo_ok_def]
    obtain kept where kept: "sorted_edges full goal E fin' kept" "u1 = concat (map kept fin')" using t by blast
    have m_node: "m node = 1" using v3 [THEN conjunct1] by simp
    then have "node \<notin> set fin'" using t [THEN conjunct2, THEN conjunct1, rule_format, of node] by auto
    have s: "sorted_edges full goal E (fin' @ [node]) (kept(node := es))" "concat (map (kept(node := es)) (fin' @ [node])) = u'"
      using sorted_edges_snoc [OF kept(1) \<open>node \<notin> set fin'\<close> es(2)] es(1,3,4) kept(2) by auto
    have "topo_ok full goal E u' (m(node := 2)) (fin' @ [node])"
      unfolding topo_ok_def using t s by (intro conjI allI exI [of _ "kept(node := es)"]) auto
    moreover have "(m(node := 2)) n = 1 \<longleftrightarrow> mark n = 1" "mark n \<noteq> 0 \<longrightarrow> (m(node := 2)) n = mark n" for n
      using v3 3 by auto
    ultimately have "visited_to full goal E mark fin u' (m(node := 2)) (fin' @ [node])" using v2 [THEN conjunct1] by (auto simp: visited_to_def)
    moreover have "TopoSortVisit g (Suc fuel) node (u, mark) = Some (True, u', m(node := 2))" using 3 run by (simp add: Let_def)
    ultimately show ?thesis using 3 by (auto simp: ensures_Some intro!: exI [of _ "fin' @ [node]"])
  qed (use visited_to_refl [OF Suc.prems(1)] marks in \<open>auto simp: ensures_Some\<close>)
qed simp

section \<open>The sorted rules\<close>

lemma group_run:
  assumes "\<forall>r \<in> set rs. tr_f r \<noteq> []"
  shows "ensures (for_each rs (\<lambda>r g. do {
       c \<leftarrow> vat (tr_f r) 0;
       Some (om_update (<) c (\<lambda>rs. (case rs of None \<Rightarrow> [] | Some rs \<Rightarrow> rs) @ [r]) g) }) [])
    (\<lambda>g. symbols.ordered g \<and> [] \<notin> snd ` set g \<and> (\<forall>n. edges_of g n = filter (\<lambda>r. source_cat r = n) rs))"
proof (rule ensures_for_each [where I = "\<lambda>ys g. symbols.ordered g \<and> [] \<notin> snd ` set g \<and> (\<forall>n. edges_of g n = filter (\<lambda>r. source_cat r = n) ys)"])
  fix ys r zs and g :: "(int \<times> 'a trule list) list"
  assume rs: "rs = ys @ r # zs" and I: "symbols.ordered g \<and> [] \<notin> snd ` set g \<and> (\<forall>n. edges_of g n = filter (\<lambda>r. source_cat r = n) ys)"
  obtain c cs where r: "tr_f r = c # cs" using assms rs by (cases "tr_f r") auto
  let ?g = "om_update (<) c (\<lambda>rs. (case rs of None \<Rightarrow> [] | Some rs \<Rightarrow> rs) @ [r]) g"
  have "edges_of ?g n = filter (\<lambda>r. source_cat r = n) (ys @ [r])" for n
    using I r by (auto simp: edges_of_def symbols.get_update source_cat_def split: option.splits)
  moreover have "[] \<notin> snd ` set ?g"
  proof
    assume "[] \<in> snd ` set ?g"
    then obtain k where "(k, []) \<in> set ?g" by auto
    from symbols.update_entries [OF this] show False using I by (auto simp: image_iff)
  qed
  ultimately have "symbols.ordered ?g \<and> [] \<notin> snd ` set ?g \<and> (\<forall>n. edges_of ?g n = filter (\<lambda>r. source_cat r = n) (ys @ [r]))"
    using I symbols.ordered_update by blast
  then show "ensures (do { c \<leftarrow> vat (tr_f r) 0; Some (om_update (<) c (\<lambda>rs. (case rs of None \<Rightarrow> [] | Some rs \<Rightarrow> rs) @ [r]) g) })
      (\<lambda>g. symbols.ordered g \<and> [] \<notin> snd ` set g \<and> (\<forall>n. edges_of g n = filter (\<lambda>r. source_cat r = n) (ys @ [r])))"
    by (simp add: r vat_Cons ensures_Some)
qed (simp_all add: symbols.ordered_Nil edges_of_def)

lemma sorted_concat:
  "(\<And>k l x y. k \<le> l \<Longrightarrow> l < length ns \<Longrightarrow> x \<in> set (f (ns ! k)) \<Longrightarrow> y \<in> set (f (ns ! l)) \<Longrightarrow> P x y) \<Longrightarrow> sorted_wrt P (concat (map f ns))"
proof (induction ns)
  case (Cons n ns)
  have "sorted_wrt P (concat (map f ns))"
    by (rule Cons.IH) (use Cons.prems [of "Suc _" "Suc _"] in auto)
  moreover have "sorted_wrt P (f n)" using Cons.prems [of 0 0] by (simp add: sorted_wrt_iff_nth_less)
  moreover have "P x y" if x: "x \<in> set (f n)" and m: "m \<in> set ns" and y: "y \<in> set (f m)" for x y m
  proof -
    obtain l where "l < length ns" "ns ! l = m" using m by (auto simp: in_set_conv_nth)
    then show ?thesis using Cons.prems [of 0 "Suc l" x y] x y by simp
  qed
  ultimately show ?case by (auto simp: sorted_wrt_append)
qed simp

lemma subseq_mset: "subseq xs ys \<Longrightarrow> mset xs \<subseteq># mset ys"
  by (induction rule: list_emb.induct) (auto intro: subset_mset.order_trans)

lemma kept_mset:
  assumes "distinct fin" "\<And>n. n \<in> set fin \<Longrightarrow> mset (kept n) \<subseteq># filter_mset (\<lambda>r. h r = n) M"
  shows "mset (concat (map kept fin)) \<subseteq># filter_mset (\<lambda>r. h r \<in> set fin) M"
  using assms
proof (induction fin)
  case (Cons n fin)
  have "filter_mset (\<lambda>r. h r \<in> set (n # fin)) M = filter_mset (\<lambda>r. h r = n) M + filter_mset (\<lambda>r. h r \<in> set fin) M"
    using Cons.prems(1) by (intro multiset_eqI) auto
  then show ?case using Cons by (simp add: subset_mset.add_mono)
qed simp

lemma kept_all_mset:
  assumes "distinct fin" "\<And>n. n \<in> set fin \<Longrightarrow> mset (kept n) = filter_mset (\<lambda>r. h r = n) M"
  shows "mset (concat (map kept fin)) = filter_mset (\<lambda>r. h r \<in> set fin) M"
  using assms
proof (induction fin)
  case (Cons n fin)
  have "filter_mset (\<lambda>r. h r \<in> set (n # fin)) M = filter_mset (\<lambda>r. h r = n) M + filter_mset (\<lambda>r. h r \<in> set fin) M"
    using Cons.prems(1) by (intro multiset_eqI) auto
  then show ?case using Cons by simp
qed simp

lemma sort_loop:
  assumes g: "symbols.ordered g" "[] \<notin> snd ` set g" "\<And>n. edges_of g n = filter (\<lambda>r. source_cat r = n) rs"
    and full: "full \<longrightarrow> acyclic (cat_graph (edges_of g))"
  shows "ensures (for_each g (\<lambda>(node, _) (u, mark).
       if 0 < mark node then Some (u, mark)
       else map_option snd (TopoSortVisit g (2 * length rs + 2) node (u, mark))) ([], (\<lambda>_. 0)(goal := 2)))
    (\<lambda>(u, mark). \<exists>fin. topo_ok full goal (edges_of g) u mark fin \<and> source_cat ` set rs \<subseteq> set fin)"
proof -
  let ?E = "edges_of g" and ?U = "source_cat ` set rs \<union> tr_lhs ` set rs"
  have U: "finite ?U" "tr_lhs r \<in> ?U" if "r \<in> set (?E n)" for n r using that g(3) by auto
  have fin: "finite ?U" by simp
  have "card ?U \<le> card (source_cat ` set rs) + card (tr_lhs ` set rs)" by (rule card_Un_le)
  also have "\<dots> \<le> card (set rs) + card (set rs)" by (intro add_mono card_image_le) simp_all
  also have "\<dots> \<le> 2 * length rs" using card_length [of rs] by simp
  finally have "card ?U \<le> 2 * length rs" .
  have few: "card {x \<in> ?U. mark x = 0} < 2 * length rs + 2" for mark :: "int \<Rightarrow> int"
  proof -
    have "card {x \<in> ?U. mark x = 0} \<le> card ?U" by (rule card_mono [OF fin]) blast
    then show ?thesis using \<open>card ?U \<le> 2 * length rs\<close> by linarith
  qed
  have key: "n \<in> source_cat ` set rs" if "(n, es) \<in> set g" for n es
  proof -
    have "?E n = es" using symbols.get_entry [OF g(1) that] by (simp add: edges_of_def)
    moreover have "es \<noteq> []" using g(2) that by force
    ultimately have "filter (\<lambda>r. source_cat r = n) rs \<noteq> []" using g(3) [of n] by simp
    then show ?thesis by (auto simp: filter_empty_conv)
  qed
  define J where "J ys st \<longleftrightarrow> (case st of (u, mark) \<Rightarrow> \<exists>fin. topo_ok full goal ?E u mark fin \<and> (\<forall>n. mark n \<noteq> 1) \<and> fst ` set ys \<subseteq> set fin)"
    for ys :: "(int \<times> 'a trule list) list" and st :: "'a trule list \<times> (int \<Rightarrow> int)"
  show ?thesis
  proof (rule ensures_for_each [where I = J])
    have "topo_ok full goal ?E [] ((\<lambda>_. 0)(goal := 2)) [goal]"
      unfolding topo_ok_def by (auto simp: sorted_edges_def intro!: exI [of _ "\<lambda>_. []"])
    then show "J [] ([], (\<lambda>_. 0)(goal := 2))" by (auto simp: J_def)
  next
    fix ys x zs and st :: "'a trule list \<times> (int \<Rightarrow> int)"
    assume gs: "g = ys @ x # zs" and J: "J ys st"
    obtain n es where x: "x = (n, es)" by (cases x)
    obtain u mark where st: "st = (u, mark)" by (cases st)
    obtain fin where t: "topo_ok full goal ?E u mark fin" "\<forall>n. mark n \<noteq> 1" "fst ` set ys \<subseteq> set fin"
      using J by (auto simp: J_def st)
    show "ensures ((\<lambda>(node, _) (u, mark). if 0 < mark node then Some (u, mark)
       else map_option snd (TopoSortVisit g (2 * length rs + 2) node (u, mark))) x st) (J (ys @ [x]))"
    proof (cases "0 < mark n")
      case True
      have "mark n = 0 \<or> mark n = 1 \<or> mark n = 2" "mark n = 2 \<longleftrightarrow> n \<in> set fin" using t(1) unfolding topo_ok_def by blast+
      then have "n \<in> set fin" using True t(2) by (metis less_irrefl)
      then have "J (ys @ [x]) (u, mark)" using t by (auto simp: J_def x)
      then show ?thesis using True by (simp add: x st ensures_Some)
    next
      case False
      have U_n: "n \<in> ?U" using key [of n es] gs x by simp
      have "ensures (TopoSortVisit g (2 * length rs + 2) n (u, mark)) (\<lambda>(ok, u', mark'). (ok \<longleftrightarrow> mark n \<noteq> 1) \<and>
          (\<exists>fin'. visited_to full goal ?E mark fin u' mark' fin' \<and> (ok \<longrightarrow> n \<in> set fin')))"
        by (rule visit_run [OF refl fin U(2) full [rule_format] t(1) U_n few]) (use t(2) in auto)
      then show ?thesis unfolding x st prod.case if_not_P [OF False] ensures_map
      proof (rule ensures_mono)
        fix res assume "case res of (ok, u', mark') \<Rightarrow> (ok \<longleftrightarrow> mark n \<noteq> 1) \<and> (\<exists>fin'. visited_to full goal ?E mark fin u' mark' fin' \<and> (ok \<longrightarrow> n \<in> set fin'))"
        then obtain u' mark' fin' where res: "snd res = (u', mark')" "visited_to full goal ?E mark fin u' mark' fin'" "n \<in> set fin'"
          using t(2) by (cases res) auto
        have "topo_ok full goal ?E u' mark' fin'" "set fin \<subseteq> set fin'" "\<forall>m. mark' m \<noteq> 1"
          using res(2) t(2) by (simp_all add: visited_to_def)
        then show "J (ys @ [(n, es)]) (snd res)" using res t(3) unfolding J_def res(1) prod.case by (intro exI [of _ fin']) auto
      qed
    qed
  next
    fix st assume "J g st"
    moreover have "source_cat ` set rs \<subseteq> fst ` set g"
    proof
      fix n assume "n \<in> source_cat ` set rs"
      then have "?E n \<noteq> []" using g(3) by (auto simp: filter_empty_conv)
      then obtain es where "om_get (<) n g = Some es" by (auto simp: edges_of_def split: option.splits)
      from symbols.entry_get [OF this] show "n \<in> fst ` set g" by force
    qed
    ultimately show "case st of (u, mark) \<Rightarrow> \<exists>fin. topo_ok full goal ?E u mark fin \<and> source_cat ` set rs \<subseteq> set fin"
      by (fastforce simp: J_def)
  qed
qed

lemma TopoSortUnaries_run:
  assumes "\<forall>r \<in> set rs. tr_f r \<noteq> []"
  shows "\<exists>us. TopoSortUnaries goal rs = Some us \<and> mset us \<subseteq># mset rs \<and>
    (\<forall>r \<in> set us. tr_lhs r \<noteq> source_cat r) \<and> sorted_wrt (\<lambda>r r'. tr_lhs r' \<noteq> source_cat r) us \<and>
    (acyclic {(source_cat r, tr_lhs r) | r. r \<in> set rs} \<and> goal \<notin> source_cat ` set rs \<longrightarrow> mset us = mset rs)"
proof -
  define full where "full \<longleftrightarrow> acyclic {(source_cat r, tr_lhs r) | r. r \<in> set rs}"
  from group_run [OF assms] obtain g where g: "for_each rs (\<lambda>r g. do {
       c \<leftarrow> vat (tr_f r) 0;
       Some (om_update (<) c (\<lambda>rs. (case rs of None \<Rightarrow> [] | Some rs \<Rightarrow> rs) @ [r]) g) }) [] = Some g"
    and og: "symbols.ordered g" "[] \<notin> snd ` set g" "\<And>n. edges_of g n = filter (\<lambda>r. source_cat r = n) rs"
    by (elim ensuresE) auto
  have "cat_graph (edges_of g) = {(source_cat r, tr_lhs r) | r. r \<in> set rs}" by (auto simp: cat_graph_def og(3))
  then have "full \<longrightarrow> acyclic (cat_graph (edges_of g))" by (simp add: full_def)
  from sort_loop [OF og this, where goal = goal] obtain u mark fin where
    loop: "for_each g (\<lambda>(node, _) (u, mark). if 0 < mark node then Some (u, mark)
       else map_option snd (TopoSortVisit g (2 * length rs + 2) node (u, mark))) ([], (\<lambda>_. 0)(goal := 2)) = Some (u, mark)"
    and t: "topo_ok full goal (edges_of g) u mark fin" and all: "source_cat ` set rs \<subseteq> set fin"
    by (elim ensuresE) auto
  obtain kept where s: "sorted_edges full goal (edges_of g) fin kept" and u: "u = concat (map kept fin)" using t by (auto simp: topo_ok_def)
  have d: "distinct fin" using s by (simp add: sorted_edges_def)
  have k: "subseq (kept (fin ! i)) (filter (\<lambda>r. source_cat r = fin ! i) rs)" "\<And>r. r \<in> set (kept (fin ! i)) \<Longrightarrow> tr_lhs r \<in> set (take i fin)"
    "full \<Longrightarrow> fin ! i \<noteq> goal \<Longrightarrow> kept (fin ! i) = filter (\<lambda>r. source_cat r = fin ! i) rs" if "i < length fin" for i
    using s that by (simp_all add: sorted_edges_def og(3))
  have sub: "subseq (kept n) (filter (\<lambda>r. source_cat r = n) rs)" if n: "n \<in> set fin" for n
    using n k(1) unfolding in_set_conv_nth by blast
  have order: "tr_lhs x \<noteq> source_cat y" if i: "i \<le> j" "j < length fin" and x: "x \<in> set (kept (fin ! i))" and y: "y \<in> set (kept (fin ! j))" for i j x y
  proof -
    have "tr_lhs x \<in> set (take i fin)" using k(2) [of i] i x by simp
    then obtain l where l: "l < i" "fin ! l = tr_lhs x" using i by (auto simp: in_set_conv_nth)
    have "y \<in> set (filter (\<lambda>r. source_cat r = fin ! j) rs)" using subseq_mset [OF k(1) [OF i(2)]] y by (metis set_mset_mset set_mset_mono subsetD)
    then have "source_cat y = fin ! j" by simp
    then show ?thesis using l i nth_eq_iff_index_eq [OF d, of l j] by simp
  qed
  have "sorted_wrt (\<lambda>r r'. tr_lhs r' \<noteq> source_cat r) (rev u)"
    unfolding u sorted_wrt_rev by (rule sorted_concat) (rule order)
  moreover have "tr_lhs r \<noteq> source_cat r" if "r \<in> set (rev u)" for r
  proof -
    have "r \<in> set u" using that by simp
    then obtain n where n: "n \<in> set fin" "r \<in> set (kept n)" unfolding u by auto
    then obtain i where "i < length fin" "fin ! i = n" by (auto simp: in_set_conv_nth)
    then show ?thesis using order [of i i r r] n(2) by simp
  qed
  moreover have "mset (rev u) \<subseteq># mset rs"
  proof -
    have "mset (kept n) \<subseteq># filter_mset (\<lambda>r. source_cat r = n) (mset rs)" if "n \<in> set fin" for n
      using subseq_mset [OF sub [OF that]] by simp
    from kept_mset [OF d this] have "mset u \<subseteq># filter_mset (\<lambda>r. source_cat r \<in> set fin) (mset rs)" using k u by simp
    from subset_mset.order_trans [OF this multiset_filter_subset] show ?thesis by simp
  qed
  moreover have "mset (rev u) = mset rs" if "full" "goal \<notin> source_cat ` set rs"
  proof -
    have "mset (kept n) = filter_mset (\<lambda>r. source_cat r = n) (mset rs)" if n: "n \<in> set fin" for n
    proof (cases "n = goal")
      case True
      then have "filter (\<lambda>r. source_cat r = n) rs = []" using \<open>goal \<notin> _\<close> by (auto simp: filter_empty_conv)
      then show ?thesis using sub [OF n] by (metis list_emb_Nil2 mset_filter)
    next
      case False
      obtain i where "i < length fin" "fin ! i = n" using n by (auto simp: in_set_conv_nth)
      then have "kept n = filter (\<lambda>r. source_cat r = n) rs" using k(3) [of i] \<open>full\<close> False by simp
      then show ?thesis by simp
    qed
    from kept_all_mset [OF d this] have "mset u = filter_mset (\<lambda>r. source_cat r \<in> set fin) (mset rs)" using k u by simp
    also have "\<dots> = mset rs" using all by (intro filter_mset_eq_conv [THEN iffD2]) auto
    finally show ?thesis by simp
  qed
  moreover have "TopoSortUnaries goal rs = Some (rev u)" using g loop by (simp add: TopoSortUnaries_def Let_def split_def)
  ultimately show ?thesis unfolding full_def by blast
qed

text \<open>
  C17. The sort of the unary rules returns, whatever cycles they make. Every rule is kept at most as often as it was there, and
  the rules kept are in topological order: no rule makes the category that it or an earlier rule rewrites. When the rules
  have no cycle and none rewrites the goal category, all are kept.
\<close>

theorem TopoSortUnaries_order:
  assumes "\<forall>r \<in> set rs. tr_f r \<noteq> []"
  shows "\<exists>us. TopoSortUnaries goal rs = Some us \<and> mset us \<subseteq># mset rs \<and>
    (\<forall>r \<in> set us. tr_lhs r \<noteq> source_cat r) \<and> sorted_wrt (\<lambda>r r'. tr_lhs r' \<noteq> source_cat r) us \<and>
    (acyclic {(source_cat r, tr_lhs r) | r. r \<in> set rs} \<and> goal \<notin> source_cat ` set rs \<longrightarrow> mset us = mset rs)"
  using TopoSortUnaries_run [OF assms] .

text \<open>Of two rules that rewrite each other's category one is left out.\<close>

lemma TopoSortUnaries_order_witness:
  "\<exists>us. TopoSortUnaries (-9) [TRule_sides () [-1] [0] (-2) 1 0 0, TRule_sides () [-2] [0] (-1) 1 0 0, TRule_sides () [-2] [0] (-3) 1 0 0] = Some us \<and>
    length us = 2 \<and> sorted_wrt (\<lambda>r r'. tr_lhs r' \<noteq> source_cat r) us"
proof -
  let ?rs = "[TRule_sides () [-1] [0] (-2) 1 0 0, TRule_sides () [-2] [0] (-1) 1 0 0, TRule_sides () [-2] [0] (-3) 1 0 0]"
  have "\<forall>r \<in> set ?rs. tr_f r \<noteq> []" by (simp add: TRule_sides_def)
  from TopoSortUnaries_order [OF this, of "-9"] obtain us where us: "TopoSortUnaries (-9) ?rs = Some us" "sorted_wrt (\<lambda>r r'. tr_lhs r' \<noteq> source_cat r) us" by blast
  moreover have "map_option length (TopoSortUnaries (-9) ?rs) = Some 2" by code_simp
  ultimately show ?thesis by auto
qed

text \<open>The goal category is marked before the search, so a rule that rewrites it is dropped.\<close>

lemma TopoSortUnaries_drops_goal: "TopoSortUnaries (-2) [TRule_sides () [-2] [0] (-3) 1 0 0] = Some []"
  by code_simp

end
