(* ===== verification/ParseTrees.thy ===== *)
theory ParseTrees
  imports ChartFill UnarySort
begin

text \<open>
  What the bottom-up parser promises: the derivations of the forest are the parse trees of the sentence.
\<close>

section \<open>Parse trees\<close>

datatype 'f ptree = PTree (pt_rule: "'f trule") (pt_i: int) (pt_j: int) (pt_subs: "'f ptree list")

text \<open>
  Trees of a category on a span, by rules of grammars that allow the span and by unary rules; and lists of trees
  for the categories of a sequence of symbols that covers a span.
\<close>

inductive parses :: "'f grammar list \<Rightarrow> 'f trule list \<Rightarrow> int list \<Rightarrow> int \<Rightarrow> int \<Rightarrow> int \<Rightarrow> 'f ptree \<Rightarrow> bool"
  and covers :: "'f grammar list \<Rightarrow> 'f trule list \<Rightarrow> int list \<Rightarrow> int \<Rightarrow> int \<Rightarrow> int list \<Rightarrow> 'f ptree list \<Rightarrow> bool" for gs us ws where
  parses_rule: "g \<in> set gs \<Longrightarrow> gr_has_rule g i j (j - i) \<Longrightarrow> r \<in> set (rules_at (gr_root g) p) \<Longrightarrow> 0 \<le> i \<Longrightarrow> i < j \<Longrightarrow> j \<le> vsize ws \<Longrightarrow>
    covers gs us ws i j p ts \<Longrightarrow> parses gs us ws (tr_lhs r) i j (PTree r i j ts)"
| parses_unary: "r \<in> set us \<Longrightarrow> tr_f r = [c] \<Longrightarrow> parses gs us ws c i j t \<Longrightarrow> parses gs us ws (tr_lhs r) i j (PTree r i j [t])"
| covers_nil: "covers gs us ws i i [] []"
| covers_word: "covers gs us ws i k p ts \<Longrightarrow> 0 \<le> k \<Longrightarrow> k < vsize ws \<Longrightarrow> covers gs us ws i (k + 1) (p @ [ws ! nat k]) ts"
| covers_node: "covers gs us ws i k p ts \<Longrightarrow> parses gs us ws c k j t \<Longrightarrow> covers gs us ws i j (p @ [c]) (ts @ [t])"

lemma parses_span: "parses gs us ws c i j t \<Longrightarrow> 0 \<le> i \<and> i < j \<and> j \<le> vsize ws"
  and "covers gs us ws i j p ts \<Longrightarrow> True"
  by (induction rule: parses_covers.inducts) auto

text \<open>The tree of a derivation.\<close>

primrec tree_of :: "('f, 'w) hypergraph \<Rightarrow> deriv \<Rightarrow> 'f ptree" where
  "tree_of hg (Deriv e ds) = (case app_of (hg_edges hg ! nat e) of (i, j, r, a) \<Rightarrow> PTree r i j (map (tree_of hg) ds))"

section \<open>Derivations are parse trees\<close>

text \<open>A node of the forest with its category and span.\<close>

definition node_at :: "int \<Rightarrow> ('f, 'w, 'c) chart \<Rightarrow> int \<Rightarrow> int \<Rightarrow> int \<Rightarrow> nat \<Rightarrow> bool" where
  "node_at n s c i j v \<longleftrightarrow> in_chart n i j \<and> node_of s i j c = Some (int v)"

lemma in_edges:
  assumes ok: "chart_ok n goal s" and v: "v < length (hg_nodes (ch_forest s))"
  shows "e \<in> set (nd_in (hg_nodes (ch_forest s) ! v)) \<longleftrightarrow> 0 \<le> e \<and> e < vsize (hg_edges (ch_forest s)) \<and>
    (\<exists>i j r a. app_of (hg_edges (ch_forest s) ! nat e) = (i, j, r, a) \<and> a = ed_tails (hg_edges (ch_forest s) ! nat e) \<and> node_at n s (tr_lhs r) i j v)"
proof -
  let ?E = "hg_edges (ch_forest s) ! nat e"
  note D = chart_okD [OF ok]
  have head: "ed_head ?E = int v \<longleftrightarrow> (\<exists>i j r a. app_of ?E = (i, j, r, a) \<and> a = ed_tails ?E \<and> node_at n s (tr_lhs r) i j v)" if e: "0 \<le> e" "e < vsize (hg_edges (ch_forest s))"
  proof -
    have "?E \<in> set (hg_edges (ch_forest s))" using e by (simp add: vsize_def)
    then obtain r where "ed_rule ?E = Some r" "in_chart n (ed_i ?E) (ed_j ?E)" "node_of s (ed_i ?E) (ed_j ?E) (tr_lhs r) = Some (ed_head ?E)"
      using D(10) [of ?E] by blast
    then show ?thesis by (auto simp: app_of_def node_at_def)
  qed
  have "e \<in> set (nd_in (hg_nodes (ch_forest s) ! v)) \<longleftrightarrow> 0 \<le> e \<and> e < vsize (hg_edges (ch_forest s)) \<and> ed_head ?E = int v"
    using consistentD(6) [OF D(1) v, of e] by simp
  then show ?thesis using head by blast
qed

lemma app_nth:
  assumes "0 \<le> e" "e < vsize (hg_edges (ch_forest s))"
  shows "app_of (hg_edges (ch_forest s) ! nat e) \<in> set (apps s)"
  using assms by (simp add: apps_def vsize_def)

lemma derives_app:
  assumes ok: "chart_ok n goal s"
  shows "derives (ch_forest s) v (Deriv e ds) \<longleftrightarrow> 0 \<le> e \<and> e < vsize (hg_edges (ch_forest s)) \<and>
    (\<exists>i j r a. app_of (hg_edges (ch_forest s) ! nat e) = (i, j, r, a) \<and> node_at n s (tr_lhs r) i j v \<and>
      list_all2 (\<lambda>t d. derives (ch_forest s) (nat t) d) a ds)"
proof (cases "v < length (hg_nodes (ch_forest s))")
  case True
  then show ?thesis unfolding derives_Deriv in_edges [OF ok True] by (auto simp: app_of_def)
next
  case False
  have "\<not> node_at n s c i j v" for c i j using chart_okD(6) [OF ok, of i j c "int v"] False by (auto simp: node_at_def vsize_def)
  then show ?thesis using False unfolding derives_Deriv by blast
qed

lemma node_at_unique:
  assumes ok: "chart_ok n goal s" and "node_at n s c i j v" "node_at n s c' i' j' v"
  shows "c = c' \<and> i = i' \<and> j = j'"
  using chart_okD(6) [OF ok, of i j c "int v"] chart_okD(6) [OF ok, of i' j' c' "int v"] chart_okD(9) [OF ok, of i j i' j' c "int v" c'] assms(2,3)
  by (simp add: node_at_def)

lemma span_node_at: "chart_ok n goal s \<Longrightarrow> v \<in> span_nodes n s i j \<Longrightarrow> node_at n s (cat_of s v) i j (nat v)"
  using span_nodes_ok(2) [of n goal s v i j] by (simp add: node_at_def)

lemma matches_covers:
  assumes "matches ws N K i j p a" "list_all2 (\<lambda>v d. \<forall>k l. v \<in> N k l \<longrightarrow> parses gs us ws (K v) k l (tree d)) a ds"
  shows "covers gs us ws i j p (map tree ds)"
  using assms
proof (induction arbitrary: ds rule: matches.induct)
  case (matches_nil i)
  then show ?case by (simp add: covers_nil)
next
  case (matches_word i k p a)
  then show ?case by (simp add: covers_word)
next
  case (matches_node i k p a v j)
  obtain ds' d where ds: "ds = ds' @ [d]" "list_all2 (\<lambda>v d. \<forall>k l. v \<in> N k l \<longrightarrow> parses gs us ws (K v) k l (tree d)) a ds'" "\<forall>k l. v \<in> N k l \<longrightarrow> parses gs us ws (K v) k l (tree d)"
    using matches_node.prems by (auto simp: list_all2_append1 list_all2_Cons1)
  have "covers gs us ws i k p (map tree ds')" by (rule matches_node.IH [OF ds(2)])
  then show ?case unfolding ds(1) using covers_node ds(3) matches_node.hyps(2) by fastforce
qed

lemma derivation_parses:
  assumes P: "parser_ok P ws us" and F: "filled P ws us D s" and D: "D \<subseteq> {(i, j). 0 \<le> i \<and> i < j \<and> j \<le> vsize ws}"
  shows "derives (ch_forest s) v d \<Longrightarrow> node_at (vsize ws) s c i j v \<Longrightarrow> parses (pa_grammars P) us ws c i j (tree_of (ch_forest s) d)"
proof (induction d arbitrary: v c i j)
  case (Deriv e ds)
  let ?n = "vsize ws" and ?hg = "ch_forest s" and ?N = "span_nodes (vsize ws) s"
  note ok = filledD(1) [OF F]
  obtain i' j' r a where e: "0 \<le> e" "e < vsize (hg_edges ?hg)" "app_of (hg_edges ?hg ! nat e) = (i', j', r, a)" "node_at ?n s (tr_lhs r) i' j' v"
    and ds: "list_all2 (\<lambda>t d. derives ?hg (nat t) d) a ds"
    using Deriv.prems(1) unfolding derives_app [OF ok] by blast
  have same: "c = tr_lhs r" "i = i'" "j = j'" using node_at_unique [OF ok Deriv.prems(2) e(4)] by simp_all
  have "(i, j, r, a) \<in> set (apps s)" using app_nth [OF e(1,2)] e(3) same by simp
  then have ij: "(i, j) \<in> D" and spec: "app_spec P ws us s i j r a" using filledD(7) [OF F] by blast+
  have span: "0 \<le> i" "i < j" "j \<le> ?n" using ij D by auto
  have tree: "tree_of ?hg (Deriv e ds) = PTree r i j (map (tree_of ?hg) ds)" using e(3) same by simp
  have sub: "list_all2 (\<lambda>t d. \<forall>k l. t \<in> ?N k l \<longrightarrow> parses (pa_grammars P) us ws (cat_of s t) k l (tree_of ?hg d)) a ds"
    by (rule list.rel_mono_strong [OF ds]) (use Deriv.IH span_node_at [OF ok] in blast)
  show ?case
  proof (cases "span_rule P ws i j s (length (pa_grammars P)) r a")
    case True
    then obtain gi p where g: "gi < length (pa_grammars P)" "gr_has_rule (pa_grammars P ! gi) i j (j - i)" "span_matches ws s i j p a"
      "r \<in> set (rules_at (gr_root (pa_grammars P ! gi)) p)" unfolding span_rule_def by blast
    have "list_all2 (\<lambda>t d. \<forall>k l. t \<in> inner i j ?N k l \<longrightarrow> parses (pa_grammars P) us ws (cat_of s t) k l (tree_of ?hg d)) a ds"
      by (rule list_all2_mono [OF sub]) (auto simp: inner_def split: if_splits)
    then have "covers (pa_grammars P) us ws i j p (map (tree_of ?hg) ds)" by (rule matches_covers [OF g(3)])
    then show ?thesis unfolding tree same(1) using g span by (intro parses_rule [OF nth_mem]) auto
  next
    case False
    then obtain u where u: "r \<in> set us" "u \<in> ?N i j" "a = [u]" "tr_f r = [cat_of s u]" using spec unfolding app_spec_def by blast
    obtain d where "ds = [d]" "parses (pa_grammars P) us ws (cat_of s u) i j (tree_of ?hg d)"
      using sub u(2,3) by (auto simp: list_all2_Cons1)
    then show ?thesis unfolding tree same(1) using parses_unary [OF u(1,4)] by simp
  qed
qed

section \<open>Parse trees are derivations\<close>

lemma app_derives:
  assumes ok: "chart_ok n goal s" and app: "(i, j, r, a) \<in> set (apps s)" and v: "node_at n s (tr_lhs r) i j v"
    and ds: "list_all2 (\<lambda>t d. derives (ch_forest s) (nat t) d) a ds"
  shows "\<exists>d. derives (ch_forest s) v d \<and> tree_of (ch_forest s) d = PTree r i j (map (tree_of (ch_forest s)) ds)"
proof -
  obtain e where e: "e < length (hg_edges (ch_forest s))" "app_of (hg_edges (ch_forest s) ! e) = (i, j, r, a)"
    using app by (auto simp: apps_def in_set_conv_nth)
  have "derives (ch_forest s) v (Deriv (int e) ds)"
    unfolding derives_app [OF ok] using e v ds by (auto simp: vsize_def)
  moreover have "tree_of (ch_forest s) (Deriv (int e) ds) = PTree r i j (map (tree_of (ch_forest s)) ds)" using e(2) by simp
  ultimately show ?thesis by blast
qed

text \<open>Every node has a derivation, as one of its edges was there before it.\<close>

lemma node_derives:
  assumes ok: "chart_ok n goal s"
  shows "v < length (hg_nodes (ch_forest s)) \<Longrightarrow> \<exists>d. derives (ch_forest s) v d"
proof (induction v rule: less_induct)
  case (less v)
  obtain e where e: "e < length (hg_edges (ch_forest s))" "ed_head (hg_edges (ch_forest s) ! e) = int v"
    "\<And>t. t \<in> set (ed_tails (hg_edges (ch_forest s) ! e)) \<Longrightarrow> 0 \<le> t \<and> t < int v"
    using chart_okD(11) [OF ok, of "int v"] less.prems by (auto simp: vsize_def in_set_conv_nth)
  let ?a = "ed_tails (hg_edges (ch_forest s) ! e)"
  have "\<exists>d. derives (ch_forest s) (nat t) d" if "t \<in> set ?a" for t
    using less.IH [of "nat t"] e(3) [OF that] less.prems by auto
  then obtain f where f: "t \<in> set ?a \<Longrightarrow> derives (ch_forest s) (nat t) (f t)" for t by metis
  have "int e \<in> set (nd_in (hg_nodes (ch_forest s) ! v))"
    using consistentD(6) [OF chart_okD(1) [OF ok] less.prems, of "int e"] e(1,2) by (simp add: vsize_def)
  moreover have "list_all2 (\<lambda>t d. derives (ch_forest s) (nat t) d) ?a (map f ?a)" using f by (simp add: list_all2_conv_all_nth)
  ultimately have "derives (ch_forest s) v (Deriv (int e) (map f ?a))" by (intro derives_edge [OF less.prems]) simp_all
  then show ?case ..
qed

lemma node_of_node_at: "chart_ok n goal s \<Longrightarrow> in_chart n i j \<Longrightarrow> node_of s i j c \<noteq> None \<Longrightarrow> \<exists>v. node_at n s c i j v"
  using chart_okD(6) [of n goal s i j c] by (force simp: node_at_def intro!: exI [of _ "nat (the (node_of s i j c))"])

lemma app_node_at:
  assumes F: "filled P ws us D s" and app: "(i, j, r, a) \<in> set (apps s)" and ij: "in_chart (vsize ws) i j"
  shows "\<exists>v. node_at (vsize ws) s (tr_lhs r) i j v"
  by (rule node_of_node_at [OF filledD(1) [OF F] ij]) (use filledD(8) [OF F ij, of "tr_lhs r"] app in blast)

lemma tree_derives:
  assumes P: "parser_ok P ws us" and F: "filled P ws us (spans_below (vsize ws) (vsize ws + 1)) s"
  shows "parses (pa_grammars P) us ws c i j t \<Longrightarrow>
      \<exists>v d. node_at (vsize ws) s c i j v \<and> derives (ch_forest s) v d \<and> tree_of (ch_forest s) d = t"
    and "covers (pa_grammars P) us ws i j p ts \<Longrightarrow>
      \<exists>a ds. matches ws (span_nodes (vsize ws) s) (cat_of s) i j p a \<and> list_all2 (\<lambda>t d. derives (ch_forest s) (nat t) d) a ds \<and> map (tree_of (ch_forest s)) ds = ts"
proof (induction rule: parses_covers.inducts)
  case (parses_rule g i j r p ts)
  let ?n = "vsize ws" and ?N = "span_nodes (vsize ws) s"
  note ok = filledD(1) [OF F]
  have g: "g \<in> set (pa_grammars P)" "gr_has_rule g i j (j - i)" "r \<in> set (rules_at (gr_root g) p)" "0 \<le> i" "i < j" "j \<le> ?n"
    using parses_rule by blast+
  obtain a ds where m: "matches ws ?N (cat_of s) i j p a" and ds: "list_all2 (\<lambda>t d. derives (ch_forest s) (nat t) d) a ds"
    and ts: "map (tree_of (ch_forest s)) ds = ts" using parses_rule.IH by blast
  have neg: "cat_of s v < 0" if "v \<in> ?N i j" for v
    using span_nodes_ok(2) [OF ok that] filled_cat(1) [OF P F, of i j "cat_of s v"] by simp
  have "\<not> (\<exists>v \<in> ?N i j. p = [cat_of s v] \<and> a = [v])"
    using parser_okD(4) [OF P g(1,3)] neg by blast
  then have inner: "span_matches ws s i j p a" using m unfolding matches_split [OF span_nodes_ok(1) [OF ok] g(5)] by blast
  obtain gi where "gi < length (pa_grammars P)" "g = pa_grammars P ! gi" using g(1) by (auto simp: in_set_conv_nth)
  then have "app_spec P ws us s i j r a" unfolding app_spec_def span_rule_def using g(2,3) inner by blast
  then have app: "(i, j, r, a) \<in> set (apps s)" using filledD(7) [OF F] g(4-6) by (simp add: spans_below_def)
  obtain v where v: "node_at ?n s (tr_lhs r) i j v" using app_node_at [OF F app] g(4-6) by auto
  show ?case using app_derives [OF ok app v ds] v unfolding ts by blast
next
  case (parses_unary r c i j t)
  let ?n = "vsize ws" and ?N = "span_nodes (vsize ws) s"
  note ok = filledD(1) [OF F]
  have r: "r \<in> set us" "tr_f r = [c]" "parses (pa_grammars P) us ws c i j t" using parses_unary by blast+
  obtain u d where u: "node_at ?n s c i j u" "derives (ch_forest s) u d" "tree_of (ch_forest s) d = t" using parses_unary.IH by blast
  have span: "0 \<le> i" "i < j" "j \<le> ?n" using parses_span [OF r(3)] by simp_all
  have ij: "in_chart ?n i j" using span by simp
  have node: "node_of s i j c = Some (int u)" using u(1) by (simp add: node_at_def)
  have cat: "cat_of s (int u) = c" using chart_okD(6) [OF ok ij node] by simp
  have "c \<noteq> pa_kGOAL P" by (rule filled_cat(2) [OF P F ij]) (simp add: node)
  then have "int u \<in> ?N i j" using chart_okD(7) [OF ok ij, of "int u"] node cat ij by (simp add: span_nodes_def)
  then have "app_spec P ws us s i j r [int u]" unfolding app_spec_def using r(1,2) cat by blast
  then have app: "(i, j, r, [int u]) \<in> set (apps s)" using filledD(7) [OF F] span by (simp add: spans_below_def)
  obtain v where v: "node_at ?n s (tr_lhs r) i j v" using app_node_at [OF F app ij] by blast
  have "list_all2 (\<lambda>t d. derives (ch_forest s) (nat t) d) [int u] [d]" using u(2) by simp
  then show ?case using app_derives [OF ok app v] v u(3) by fastforce
next
  case (covers_nil i)
  then show ?case using matches_nil by force
next
  case (covers_word i k p ts)
  then show ?case using matches_word by blast
next
  case (covers_node i k p ts c j t)
  let ?n = "vsize ws" and ?N = "span_nodes (vsize ws) s"
  note ok = filledD(1) [OF F]
  obtain a ds where m: "matches ws ?N (cat_of s) i k p a" and ds: "list_all2 (\<lambda>t d. derives (ch_forest s) (nat t) d) a ds"
    and ts: "map (tree_of (ch_forest s)) ds = ts" using covers_node by blast
  obtain u d where u: "node_at ?n s c k j u" "derives (ch_forest s) u d" "tree_of (ch_forest s) d = t" using covers_node by blast
  have kj: "in_chart ?n k j" and node: "node_of s k j c = Some (int u)" using u(1) by (simp_all add: node_at_def)
  have cat: "cat_of s (int u) = c" using chart_okD(6) [OF ok kj node] by simp
  have "c \<noteq> pa_kGOAL P" by (rule filled_cat(2) [OF P F kj]) (simp add: node)
  then have "int u \<in> ?N k j" using chart_okD(7) [OF ok kj, of "int u"] node cat kj by (simp add: span_nodes_def)
  then have "matches ws ?N (cat_of s) i j (p @ [c]) (a @ [int u])" using matches_node [OF m] cat by metis
  moreover have "list_all2 (\<lambda>t d. derives (ch_forest s) (nat t) d) (a @ [int u]) (ds @ [d])" using ds u(2) by (simp add: list_all2_appendI)
  moreover have "map (tree_of (ch_forest s)) (ds @ [d]) = ts @ [t]" using ts u(3) by simp
  ultimately show ?case by blast
qed

section \<open>Every tree once\<close>

lemma tree_of_inj:
  assumes ok: "chart_ok n goal s" and d: "distinct (apps s)"
  shows "derives (ch_forest s) v x \<Longrightarrow> derives (ch_forest s) w y \<Longrightarrow> tree_of (ch_forest s) x = tree_of (ch_forest s) y \<Longrightarrow> x = y \<and> v = w"
proof (induction x arbitrary: v w y)
  case (Deriv e ds)
  let ?hg = "ch_forest s"
  obtain f ds' where y: "y = Deriv f ds'" by (cases y)
  obtain i j r a where e: "0 \<le> e" "e < vsize (hg_edges ?hg)" "app_of (hg_edges ?hg ! nat e) = (i, j, r, a)" "node_at n s (tr_lhs r) i j v"
    "list_all2 (\<lambda>t d. derives ?hg (nat t) d) a ds" using Deriv.prems(1) unfolding derives_app [OF ok] by blast
  obtain i' j' r' b where f: "0 \<le> f" "f < vsize (hg_edges ?hg)" "app_of (hg_edges ?hg ! nat f) = (i', j', r', b)" "node_at n s (tr_lhs r') i' j' w"
    "list_all2 (\<lambda>t d. derives ?hg (nat t) d) b ds'" using Deriv.prems(2) unfolding y derives_app [OF ok] by blast
  have same: "r = r'" "i = i'" "j = j'" "map (tree_of ?hg) ds = map (tree_of ?hg) ds'" using Deriv.prems(3) e(3) f(3) by (simp_all add: y)
  have vw: "v = w" using e(4) f(4) same(1-3) by (simp add: node_at_def)
  have len: "length ds = length ds'" using map_eq_imp_length_eq [OF same(4)] .
  have la: "length a = length ds" "length b = length ds'" using list_all2_lengthD [OF e(5)] list_all2_lengthD [OF f(5)] by simp_all
  have sub: "ds ! k = ds' ! k \<and> nat (a ! k) = nat (b ! k)" if k: "k < length ds" for k
  proof (rule Deriv.IH)
    show "ds ! k \<in> set ds" using k by simp
    show "derives ?hg (nat (a ! k)) (ds ! k)" using list_all2_nthD2 [OF e(5)] k by simp
    show "derives ?hg (nat (b ! k)) (ds' ! k)" using list_all2_nthD2 [OF f(5)] k len by simp
    show "tree_of ?hg (ds ! k) = tree_of ?hg (ds' ! k)" using arg_cong [OF same(4), of "\<lambda>xs. xs ! k"] k len by simp
  qed
  have low: "0 \<le> t" if "t \<in> set a \<or> t \<in> set b" for t
    using consistentD(3) [OF chart_okD(1) [OF ok], of "nat e" t] consistentD(3) [OF chart_okD(1) [OF ok], of "nat f" t] that e(1-3) f(1-3)
    by (auto simp: app_of_def vsize_def)
  have ds: "ds = ds'" using sub len by (intro nth_equalityI) simp_all
  have "a = b"
  proof (rule nth_equalityI)
    show "length a = length b" using la len by simp
    show "a ! k = b ! k" if k: "k < length a" for k
    proof -
      have "0 \<le> a ! k" "0 \<le> b ! k" using low nth_mem k la len by metis+
      then show ?thesis using sub [of k] k la by (simp add: eq_nat_nat_iff)
    qed
  qed
  then have "apps s ! nat e = apps s ! nat f" using e(1-3) f(1-3) same by (simp add: apps_def vsize_def nat_less_iff)
  moreover have "nat e < length (apps s)" "nat f < length (apps s)" using e(1,2) f(1,2) by (simp_all add: apps_def vsize_def nat_less_iff)
  ultimately have "nat e = nat f" using nth_eq_iff_index_eq [OF d] by blast
  then show ?case using ds vw e(1) f(1) by (simp add: y eq_nat_nat_iff)
qed

section \<open>The goal\<close>

text \<open>The derivations of the other nodes do not change when the goal rule is applied.\<close>

lemma derives_before_goal:
  assumes ok: "chart_ok n goal s" and g: "grown n goal 0 n [(gr, [v])] s s'" and gr: "tr_lhs gr = goal" "node_of s' 0 n goal = Some (node_count s)"
    and lhs: "\<forall>(i, j, r, a) \<in> set (apps s). tr_lhs r \<noteq> goal"
  shows "u < length (hg_nodes (ch_forest s)) \<Longrightarrow> (derives (ch_forest s') u d \<longleftrightarrow> derives (ch_forest s) u d) \<and>
    (derives (ch_forest s) u d \<longrightarrow> tree_of (ch_forest s') d = tree_of (ch_forest s) d)"
proof (induction d arbitrary: u)
  case (Deriv e ds)
  let ?m = "int (length (apps s))"
  note G = grownD [OF g] note ok' = G(1)
  have size: "vsize (hg_edges (ch_forest s)) = ?m" "vsize (hg_edges (ch_forest s')) = ?m + 1"
    using arg_cong [OF G(2), of length] by (simp_all add: apps_def vsize_def)
  have nth: "app_of (hg_edges (ch_forest t) ! nat k) = apps t ! nat k" if "0 \<le> k" "k < vsize (hg_edges (ch_forest t))" for k and t :: "('a, 'b, 'c) chart"
    using that by (simp add: apps_def vsize_def nat_less_iff)
  have last: "\<not> derives (ch_forest s') u (Deriv e ds)" if "e = ?m"
  proof
    assume "derives (ch_forest s') u (Deriv e ds)"
    then obtain i j r a where "app_of (hg_edges (ch_forest s') ! nat e) = (i, j, r, a)" "node_at n s' (tr_lhs r) i j u"
      unfolding derives_app [OF ok'] by blast
    moreover have "app_of (hg_edges (ch_forest s') ! nat e) = (0, n, gr, [v])" using nth [of e s'] size that G(2) by simp
    ultimately have "int u = node_count s" using gr by (simp add: node_at_def)
    then show False using Deriv.prems by (simp add: vsize_def)
  qed
  have app: "app_of (hg_edges (ch_forest s') ! nat e) = app_of (hg_edges (ch_forest s) ! nat e)" if "0 \<le> e" "e < ?m"
    using nth [of e s'] nth [of e s] that size G(2) by (simp add: nth_append nat_less_iff)
  have node: "node_at n s' (tr_lhs r) i j u \<longleftrightarrow> node_at n s (tr_lhs r) i j u"
    if e: "0 \<le> e" "e < ?m" "app_of (hg_edges (ch_forest s) ! nat e) = (i, j, r, a)" for i j r a
  proof -
    have "hg_edges (ch_forest s) ! nat e \<in> set (hg_edges (ch_forest s))" using e size by (simp add: vsize_def nat_less_iff)
    then have ij: "in_chart n i j" and some: "node_of s i j (tr_lhs r) \<noteq> None"
      using chart_okD(10) [OF ok, of "hg_edges (ch_forest s) ! nat e"] e(3) by (auto simp: app_of_def)
    have "(i, j, r, a) \<in> set (apps s)" using app_nth [of e s] e size by simp
    then have "tr_lhs r \<noteq> goal" using lhs by auto
    obtain w where w: "node_of s i j (tr_lhs r) = Some w" using some by blast
    have wn: "0 \<le> w" "w < node_count s" "cat_of s w = tr_lhs r" using chart_okD(6) [OF ok ij w] by simp_all
    have "w \<in> set (nodes_at s i j)" using chart_okD(7) [OF ok ij, of w] w wn(3) \<open>tr_lhs r \<noteq> goal\<close> by simp
    then have "w \<in> set (nodes_at s' i j)" using G(3) [OF ij] G(5) by (cases "(i, j) = (0, n)") auto
    then have "node_of s' i j (tr_lhs r) = Some w" using chart_okD(7) [OF ok' ij, of w] G(7) [OF wn(1,2)] wn(3) by simp
    then show ?thesis using w by (simp add: node_at_def)
  qed
  have tails: "list_all2 (\<lambda>t d. derives (ch_forest s') (nat t) d) a ds \<longleftrightarrow> list_all2 (\<lambda>t d. derives (ch_forest s) (nat t) d) a ds"
    if e: "0 \<le> e" "e < ?m" "app_of (hg_edges (ch_forest s) ! nat e) = (i, j, r, a)" for i j r a
  proof -
    have "derives (ch_forest s') (nat t) d \<longleftrightarrow> derives (ch_forest s) (nat t) d" if "t \<in> set a" "d \<in> set ds" for t d
      using Deriv.IH [OF that(2), of "nat t"] consistentD(3) [OF chart_okD(1) [OF ok], of "nat e" t] e that(1) size
      by (auto simp: app_of_def vsize_def nat_less_iff)
    then show ?thesis by (intro iffI; elim list.rel_mono_strong) auto
  qed
  show ?case
  proof (cases "0 \<le> e \<and> e < ?m")
    case True
    then have e: "0 \<le> e" "e < ?m" by simp_all
    obtain i j r a where ap: "app_of (hg_edges (ch_forest s) ! nat e) = (i, j, r, a)" by (metis prod_cases4)
    have "derives (ch_forest s') u (Deriv e ds) \<longleftrightarrow> derives (ch_forest s) u (Deriv e ds)"
      unfolding derives_app [OF ok] derives_app [OF ok'] app [OF e] using e size ap node [OF e ap] tails [OF e ap] by auto
    moreover have "map (tree_of (ch_forest s')) ds = map (tree_of (ch_forest s)) ds" if "derives (ch_forest s) u (Deriv e ds)"
    proof (rule map_cong [OF refl])
      fix d assume d: "d \<in> set ds"
      have "list_all2 (\<lambda>t d. derives (ch_forest s) (nat t) d) a ds" using that ap unfolding derives_app [OF ok] by auto
      then obtain t where "t \<in> set a" "derives (ch_forest s) (nat t) d" using d by (metis list_all2_conv_all_nth in_set_conv_nth)
      moreover from this have "nat t < length (hg_nodes (ch_forest s))" unfolding derives.simps [of _ "nat t"] by blast
      ultimately show "tree_of (ch_forest s') d = tree_of (ch_forest s) d" using Deriv.IH [OF d] by blast
    qed
    ultimately show ?thesis using app [OF e] ap by simp
  next
    case False
    then have "\<not> derives (ch_forest s) u (Deriv e ds)" unfolding derives_app [OF ok] using size by auto
    moreover have "\<not> derives (ch_forest s') u (Deriv e ds)"
    proof
      assume d: "derives (ch_forest s') u (Deriv e ds)"
      then have "0 \<le> e \<and> e < ?m + 1" unfolding derives_app [OF ok'] using size by simp
      then show False using False last d by linarith
    qed
    ultimately show ?thesis by simp
  qed
qed

lemma goal_derives:
  assumes ok: "chart_ok n goal s" and g: "grown n goal 0 n [(gr, [v])] s s'" and gr: "tr_lhs gr = goal" "node_of s' 0 n goal = Some (node_count s)"
    and lhs: "\<forall>(i, j, r, a) \<in> set (apps s). tr_lhs r \<noteq> goal" and v: "node_at n s c 0 n (nat v)" "0 \<le> v"
  shows "derives (ch_forest s') (nat (node_count s)) x \<longleftrightarrow> (\<exists>d. derives (ch_forest s) (nat v) d \<and> x = Deriv (int (length (apps s))) [d])"
    "derives (ch_forest s) (nat v) d \<Longrightarrow> tree_of (ch_forest s') (Deriv (int (length (apps s))) [d]) = PTree gr 0 n [tree_of (ch_forest s) d]"
proof -
  let ?m = "int (length (apps s))" and ?g = "nat (node_count s)"
  note G = grownD [OF g] note ok' = G(1)
  have size: "vsize (hg_edges (ch_forest s')) = ?m + 1"
    using arg_cong [OF G(2), of length] by (simp add: apps_def vsize_def)
  have nth: "app_of (hg_edges (ch_forest s') ! nat k) = apps s' ! nat k" if "0 \<le> k" "k < ?m + 1" for k
    using that size by (simp add: apps_def vsize_def nat_less_iff)
  have in_v: "nat v < length (hg_nodes (ch_forest s))" and n: "0 \<le> n"
    using v chart_okD(6) [OF ok, of 0 n c "int (nat v)"] by (simp_all add: node_at_def vsize_def nat_less_iff)
  have last: "app_of (hg_edges (ch_forest s') ! nat ?m) = (0, n, gr, [v])" using nth [of ?m] G(2) by simp
  have goal: "node_at n s' goal 0 n ?g" using gr(2) n by (simp add: node_at_def vsize_def)
  have old: "derives (ch_forest s') (nat v) d \<longleftrightarrow> derives (ch_forest s) (nat v) d" for d
    using derives_before_goal [OF ok g gr lhs in_v] by blast
  show "derives (ch_forest s') ?g x \<longleftrightarrow> (\<exists>d. derives (ch_forest s) (nat v) d \<and> x = Deriv ?m [d])"
  proof (cases x)
    case (Deriv e ds)
    show ?thesis
    proof (cases "e = ?m")
      case True
      have "derives (ch_forest s') ?g x \<longleftrightarrow> list_all2 (\<lambda>t d. derives (ch_forest s') (nat t) d) [v] ds"
        unfolding Deriv derives_app [OF ok'] using True last size goal gr(1) by simp
      then show ?thesis using True by (auto simp: Deriv old list_all2_Cons1)
    next
      case False
      have "\<not> derives (ch_forest s') ?g x"
      proof
        assume "derives (ch_forest s') ?g x"
        then obtain i j r a where e: "0 \<le> e" "e < ?m" "app_of (hg_edges (ch_forest s') ! nat e) = (i, j, r, a)" "node_at n s' (tr_lhs r) i j ?g"
          unfolding Deriv derives_app [OF ok'] size using False by auto
        have "(i, j, r, a) \<in> set (apps s)" using nth [of e] e(1-3) G(2) by (simp add: nth_append nat_less_iff)
        then have "tr_lhs r \<noteq> goal" using lhs by auto
        then show False using node_at_unique [OF ok' e(4) goal] by blast
      qed
      then show ?thesis using False by (auto simp: Deriv)
    qed
  qed
  show "tree_of (ch_forest s') (Deriv ?m [d]) = PTree gr 0 n [tree_of (ch_forest s) d]" if "derives (ch_forest s) (nat v) d"
    using derives_before_goal [OF ok g gr lhs in_v, of d] that last by simp
qed

lemma parsed_trees:
  assumes P: "parser_ok P ws us" and goal: "tr_lhs (pa_goal_rule P) = pa_kGOAL P" and parsed: "parsed P ws us s s'"
  shows "GoalFound s' \<longleftrightarrow> (\<exists>t. parses (pa_grammars P) us ws (pa_goal_cat P) 0 (vsize ws) t)"
    "GoalFound s' \<Longrightarrow> tree_of (ch_forest s') ` {d. derives (ch_forest s') (nat (ch_goal_idx s')) d} =
       {PTree (pa_goal_rule P) 0 (vsize ws) [t] | t. parses (pa_grammars P) us ws (pa_goal_cat P) 0 (vsize ws) t}"
    "GoalFound s' \<Longrightarrow> rules_distinct (pa_grammars P) us \<Longrightarrow> inj_on (tree_of (ch_forest s')) {d. derives (ch_forest s') (nat (ch_goal_idx s')) d}"
proof -
  let ?n = "vsize ws" and ?c = "pa_goal_cat P" and ?gr = "pa_goal_rule P"
  let ?trees = "{t. parses (pa_grammars P) us ws ?c 0 ?n t}"
  have F: "filled P ws us (spans_below ?n (?n + 1)) s" and W: "with_goal P ?n s s'" using parsed by (simp_all add: parsed_def)
  note ok = filledD(1) [OF F]
  have below: "spans_below ?n (?n + 1) \<subseteq> {(i, j). 0 \<le> i \<and> i < j \<and> j \<le> ?n}" by (auto simp: spans_below_def)
  have lhs: "\<forall>(i, j, r, a) \<in> set (apps s). tr_lhs r \<noteq> pa_kGOAL P"
    using app_spec_lhs(2) [OF P] filledD(7) [OF F] by auto
  have trees: "tree_of (ch_forest s) ` {d. derives (ch_forest s) v d} = ?trees" if v: "node_at ?n s ?c 0 ?n v" for v
  proof (intro equalityI subsetI)
    fix t assume "t \<in> tree_of (ch_forest s) ` {d. derives (ch_forest s) v d}"
    then show "t \<in> ?trees" using derivation_parses [OF P F below _ v] by blast
  next
    fix t assume "t \<in> ?trees"
    then obtain w d where "node_at ?n s ?c 0 ?n w" "derives (ch_forest s) w d" "tree_of (ch_forest s) d = t"
      using tree_derives(1) [OF P F] by blast
    moreover have "w = v" using calculation(1) v by (simp add: node_at_def)
    ultimately show "t \<in> tree_of (ch_forest s) ` {d. derives (ch_forest s) v d}" by blast
  qed
  have n: "0 \<le> ?n" by (simp add: vsize_def)
  have none: "?trees = {} \<and> \<not> GoalFound s'" if "node_of s 0 ?n ?c = None"
    using tree_derives(1) [OF P F, of ?c 0 ?n] that W filledD(3) [OF F] by (auto simp: with_goal_def GoalFound_def node_at_def)
  have some: "GoalFound s' \<and> nat (ch_goal_idx s') = nat (node_count s) \<and>
      (\<forall>x. derives (ch_forest s') (nat (node_count s)) x \<longleftrightarrow> (\<exists>d. derives (ch_forest s) (nat v) d \<and> x = Deriv (int (length (apps s))) [d])) \<and>
      (\<forall>d. derives (ch_forest s) (nat v) d \<longrightarrow> tree_of (ch_forest s') (Deriv (int (length (apps s))) [d]) = PTree ?gr 0 ?n [tree_of (ch_forest s) d]) \<and>
      node_at ?n s ?c 0 ?n (nat v)"
    if v: "node_of s 0 ?n ?c = Some v" for v
  proof -
    have w: "grown ?n (pa_kGOAL P) 0 ?n [(?gr, [v])] s s'" "ch_goal_idx s' = node_count s" "node_of s' 0 ?n (pa_kGOAL P) = Some (node_count s)"
      using W v by (simp_all add: with_goal_def)
    have low: "0 \<le> v" using chart_okD(6) [OF ok _ v] n by simp
    then have node: "node_at ?n s ?c 0 ?n (nat v)" using v n by (simp add: node_at_def)
    note D = goal_derives [OF ok w(1) goal w(3) lhs node low]
    show ?thesis using D w(2) node by (simp add: GoalFound_def vsize_def)
  qed
  have ex: "?trees \<noteq> {}" if v: "node_of s 0 ?n ?c = Some v" for v
  proof -
    note node = some [OF v, THEN conjunct2, THEN conjunct2, THEN conjunct2, THEN conjunct2]
    have "nat v < length (hg_nodes (ch_forest s))" using chart_okD(6) [OF ok _ v] n by (simp add: vsize_def nat_less_iff)
    then obtain d where "derives (ch_forest s) (nat v) d" using node_derives [OF ok] by blast
    then have "tree_of (ch_forest s) d \<in> ?trees" unfolding trees [OF node, symmetric] by blast
    then show ?thesis by blast
  qed
  show "GoalFound s' \<longleftrightarrow> (\<exists>t. parses (pa_grammars P) us ws ?c 0 ?n t)"
    using none some ex by (cases "node_of s 0 ?n ?c") blast+
  assume found: "GoalFound s'"
  then obtain v where v: "node_of s 0 ?n ?c = Some v" using none by fastforce
  note S = some [OF v] note S2 = S [THEN conjunct2] note S3 = S2 [THEN conjunct2] note S4 = S3 [THEN conjunct2]
  let ?D = "{d. derives (ch_forest s) (nat v) d}" and ?up = "\<lambda>d. Deriv (int (length (apps s))) [d]"
  have all: "{d. derives (ch_forest s') (nat (ch_goal_idx s')) d} = ?up ` ?D"
    unfolding S2 [THEN conjunct1] using S3 [THEN conjunct1] by blast
  have up: "tree_of (ch_forest s') (?up d) = PTree ?gr 0 ?n [tree_of (ch_forest s) d]" if "d \<in> ?D" for d
    using S4 [THEN conjunct1, rule_format, of d] that by simp
  have "tree_of (ch_forest s') ` ?up ` ?D = (\<lambda>t. PTree ?gr 0 ?n [t]) ` tree_of (ch_forest s) ` ?D"
    unfolding image_image by (rule image_cong [OF refl up])
  then show "tree_of (ch_forest s') ` {d. derives (ch_forest s') (nat (ch_goal_idx s')) d} = {PTree ?gr 0 ?n [t] | t. parses (pa_grammars P) us ws ?c 0 ?n t}"
    unfolding all trees [OF S4 [THEN conjunct2]] by blast
  assume "rules_distinct (pa_grammars P) us"
  then have d: "distinct (apps s)" by (rule filledD(9) [OF F])
  show "inj_on (tree_of (ch_forest s')) {d. derives (ch_forest s') (nat (ch_goal_idx s')) d}"
    unfolding all
  proof (rule inj_onI, elim imageE)
    fix x y a b assume a: "x = ?up a" "a \<in> ?D" and b: "y = ?up b" "b \<in> ?D" and eq: "tree_of (ch_forest s') x = tree_of (ch_forest s') y"
    have "tree_of (ch_forest s) a = tree_of (ch_forest s) b" using eq up [OF a(2)] up [OF b(2)] unfolding a(1) b(1) by simp
    then have "a = b" using tree_of_inj [OF ok d, of "nat v" a "nat v" b] a(2) b(2) by simp
    then show "x = y" by (simp only: a(1) b(1))
  qed
qed

text \<open>The unary rules of all grammars; some of them are no more of a problem than all.\<close>

definition all_unaries :: "('f, 'w, 'd, 'c) parser \<Rightarrow> 'f trule list" where
  "all_unaries P = concat (map gr_unaries (pa_grammars P))"

lemma fewer_unaries:
  assumes "parser_ok P ws us" "few_cats P ws us" "set us' \<subseteq> set us"
  shows "parser_ok P ws us'" "few_cats P ws us'"
proof -
  show "parser_ok P ws us'" using assms(1,3) unfolding parser_ok_def by blast
  have "lhs_of P us' \<subseteq> lhs_of P us" unfolding lhs_of_def by (rule image_mono) (use assms(3) in blast)
  moreover have "us = [] \<Longrightarrow> us' = []" using assms(3) by simp
  ultimately show "few_cats P ws us'" using assms(2) unfolding few_cats_def by (meson subset_trans)
qed

text \<open>
  C16. The bottom-up parser on a sentence, a lattice with one arc of length one from each position to the next and words other
  than epsilon. The grammars, when they allow a span, allow its prefixes, their rules make categories other than the one above the
  goal, rules with a single category are kept apart, and there are not more categories than the vector of nodes has room for.
  Then the sort of the unary rules returns some of them, all when they have no cycle and none rewrites the goal category, and filling the chart returns. The goal is found exactly when the sentence has a
  parse tree with the goal category; the derivations of the forest's goal are then exactly these parse trees below the
  goal rule, and no two derivations are the same tree when no rule is twice in the grammars.
\<close>

theorem fill_chart_parses:
  assumes "parser_ok P ws (all_unaries P)" "few_cats P ws (all_unaries P)" "tr_lhs (pa_goal_rule P) = pa_kGOAL P"
  shows "\<exists>us s. TopoSortUnaries (pa_goal_cat P) (all_unaries P) = Some us \<and> mset us \<subseteq># mset (all_unaries P) \<and>
    (acyclic {(source_cat r, tr_lhs r) | r. r \<in> set (all_unaries P)} \<and> pa_goal_cat P \<notin> source_cat ` set (all_unaries P) \<longrightarrow> mset us = mset (all_unaries P)) \<and>
    do { s \<leftarrow> PassiveChart P empty_hypergraph; fill_chart P s } = Some s \<and>
    (GoalFound s \<longleftrightarrow> (\<exists>t. parses (pa_grammars P) us ws (pa_goal_cat P) 0 (vsize ws) t)) \<and>
    (GoalFound s \<longrightarrow> tree_of (ch_forest s) ` {d. derives (ch_forest s) (nat (ch_goal_idx s)) d} =
       {PTree (pa_goal_rule P) 0 (vsize ws) [t] | t. parses (pa_grammars P) us ws (pa_goal_cat P) 0 (vsize ws) t}) \<and>
    (GoalFound s \<longrightarrow> rules_distinct (pa_grammars P) us \<longrightarrow>
       inj_on (tree_of (ch_forest s)) {d. derives (ch_forest s) (nat (ch_goal_idx s)) d})"
proof -
  have "\<forall>r \<in> set (all_unaries P). tr_f r \<noteq> []" using assms(1) by (auto simp: parser_ok_def)
  from TopoSortUnaries_run [OF this, of "pa_goal_cat P"] obtain us where us: "TopoSortUnaries (pa_goal_cat P) (all_unaries P) = Some us"
    "mset us \<subseteq># mset (all_unaries P)"
    "acyclic {(source_cat r, tr_lhs r) | r. r \<in> set (all_unaries P)} \<and> pa_goal_cat P \<notin> source_cat ` set (all_unaries P) \<longrightarrow> mset us = mset (all_unaries P)"
    by (elim exE conjE) (rule that)
  note kept = fewer_unaries [OF assms(1,2) set_mset_mono [OF us(2), unfolded set_mset_mset]]
  obtain s s0 where run: "do { s \<leftarrow> PassiveChart P empty_hypergraph; fill_chart P s } = Some s" and s: "parsed P ws us s0 s"
    using fill_chart_run [OF kept assms(3) us(1) [unfolded all_unaries_def]] by (elim ensuresE exE)
  show ?thesis
    by (intro exI [of _ us] exI [of _ s] conjI [OF us(1)] conjI [OF us(2)] conjI [OF us(3)] conjI [OF run]) (intro conjI impI parsed_trees [OF kept(1) assms(3) s])
qed

text \<open>A sentence of two words, each an \<open>X\<close>, two \<open>X\<close> in a row an \<open>X\<close>, and \<open>S\<close> the goal: \<open>X\<close> is -1, \<open>S\<close> is -2, the category above it -3.\<close>

definition demo_rules :: "unit trule list" where
  "demo_rules = [TRule_sides () [5] [5] (-1) 0 0 0, TRule_sides () [-1, -1] [0, -1] (-1) 2 0 0, TRule_sides () [-1] [0] (-2) 1 0 0]"

definition demo_grammar :: "unit grammar" where
  "demo_grammar = (case AddRules demo_rules TextGrammar of Some g \<Rightarrow> g | None \<Rightarrow> TextGrammar)"

definition demo_parser :: "(unit, unit, unit, unit) parser" where
  "demo_parser = \<lparr>pa_grammars = [demo_grammar],
     pa_input = \<lparr>lt_arcs = [[\<lparr>la_label = 5, la_cost = (), la_dist2next = 1\<rparr>], [\<lparr>la_label = 5, la_cost = (), la_dist2next = 1\<rparr>]],
       lt_dist = Array2D_empty, lt_is_sentence = True\<rparr>,
     pa_goal_cat = -2, pa_goal_rule = TRule_sides () [-2] [0] (-3) 1 0 0, pa_kGOAL = -3, pa_kEPS = 1, pa_lc_fid = 0, pa_no_features = (),
     pa_no_weight = (), pa_zero_cost = (), pa_add_cost = (\<lambda>_ _. ()), pa_is_cost = (\<lambda>_. False), pa_set_value = (\<lambda>_ _ _. ()), pa_grow = (\<lambda>n. 2 * n)\<rparr>"

lemma demo_grammar_rules:
  "rules_at (gr_root demo_grammar) p = filter (\<lambda>r. \<not> IsUnary r \<and> tr_f r = p) demo_rules"
  "gr_unaries demo_grammar = [demo_rules ! 2]" "gr_has_rule demo_grammar = HasRuleForSpan 10"
proof -
  have step: "ensures (AddRules rs g) (\<lambda>g'. grammar_ok g' \<and> gr_has_rule g' = gr_has_rule g \<and>
      (\<forall>p. rules_at (gr_root g') p = rules_at (gr_root g) p @ filter (\<lambda>r. \<not> IsUnary r \<and> tr_f r = p) rs) \<and>
      gr_unaries g' = gr_unaries g @ filter IsUnary rs)" if "grammar_ok g" for rs and g :: "unit grammar"
    using that
  proof (induction rs arbitrary: g)
    case (Cons r rs)
    show ?case unfolding AddRules_def for_each.simps ensures_bind
      by (rule ensures_mono [OF AddRule_step [OF Cons.prems]], rule ensures_mono [OF Cons.IH [unfolded AddRules_def]]) auto
  qed (simp add: AddRules_def ensures_Some)
  have u: "filter IsUnary demo_rules = [demo_rules ! 2]" by code_simp
  from step [OF TextGrammar_ok(1), of demo_rules] obtain g where g: "AddRules demo_rules TextGrammar = Some g"
    "gr_has_rule g = gr_has_rule (TextGrammar :: unit grammar)" "\<forall>p. rules_at (gr_root g) p = filter (\<lambda>r. \<not> IsUnary r \<and> tr_f r = p) demo_rules"
    "gr_unaries g = [demo_rules ! 2]"
    by (elim ensuresE) (simp add: TextGrammar_ok u)
  then have "demo_grammar = g" by (simp add: demo_grammar_def)
  then show "rules_at (gr_root demo_grammar) p = filter (\<lambda>r. \<not> IsUnary r \<and> tr_f r = p) demo_rules"
    "gr_unaries demo_grammar = [demo_rules ! 2]" "gr_has_rule demo_grammar = HasRuleForSpan 10"
    using g by (simp_all add: TextGrammar_def)
qed

lemma demo_rules_sides:
  "tr_f (demo_rules ! 0) = [5]" "tr_f (demo_rules ! 1) = [-1, -1]" "tr_f (demo_rules ! 2) = [-1]"
  "tr_lhs (demo_rules ! 0) = -1" "tr_lhs (demo_rules ! 1) = -1" "tr_lhs (demo_rules ! 2) = -2"
  "set demo_rules = {demo_rules ! 0, demo_rules ! 1, demo_rules ! 2}" "IsUnary (demo_rules ! 2)"
  by code_simp+

lemma demo_trie_rules: "r \<in> set (rules_at (gr_root demo_grammar) p) \<Longrightarrow> tr_f r = p \<and> (r = demo_rules ! 0 \<or> r = demo_rules ! 1)"
  using demo_rules_sides(7,8) by (auto simp: demo_grammar_rules)

lemma demo_parser_ok: "parser_ok demo_parser [5, 5] [demo_rules ! 2]" "few_cats demo_parser [5, 5] [demo_rules ! 2]"
proof -
  have two: "i = 0 \<or> i = 1" if "0 \<le> i" "i < vsize [5, 5 :: int]" for i using that by (auto simp: vsize_def)
  have s: "sentence [5, 5] (pa_input demo_parser)"
    by (auto simp: sentence_def demo_parser_def lattice_size_def vsize_def Distance_def Array2D_empty_def dest!: two)
  have g: "pa_grammars demo_parser = [demo_grammar]" "pa_kGOAL demo_parser = -3" "pa_kEPS demo_parser = 1" by (simp_all add: demo_parser_def)
  have span: "\<forall>i k j. gr_has_rule demo_grammar i j (j - i) \<longrightarrow> i \<le> k \<longrightarrow> k \<le> j \<longrightarrow> gr_has_rule demo_grammar i k (k - i)"
    by (simp add: demo_grammar_rules HasRuleForSpan_def)
  have rules: "\<forall>p. \<forall>r \<in> set (rules_at (gr_root demo_grammar) p). tr_f r = p \<and> tr_lhs r < 0 \<and> tr_lhs r \<noteq> -3 \<and> \<not> (\<exists>c < 0. p = [c])"
    by (auto dest!: demo_trie_rules simp: demo_rules_sides demo_rules_sides [unfolded One_nat_def])
  show "parser_ok demo_parser [5, 5] [demo_rules ! 2]"
    unfolding parser_ok_def g using s span rules by (simp add: demo_rules_sides)
  have "lhs_of demo_parser [demo_rules ! 2] \<subseteq> {-1, -2}"
    using demo_trie_rules demo_rules_sides unfolding lhs_of_def g by auto
  then show "few_cats demo_parser [5, 5] [demo_rules ! 2]"
    unfolding few_cats_def by (intro disjI2 exI [of _ "{-1, -2}"]) (simp add: vsize_def)
qed

lemma demo_parse: "parses (pa_grammars demo_parser) [demo_rules ! 2] [5, 5] (-2) 0 2
    (PTree (demo_rules ! 2) 0 2 [PTree (demo_rules ! 1) 0 2 [PTree (demo_rules ! 0) 0 1 [], PTree (demo_rules ! 0) 1 2 []]])"
proof -
  let ?gs = "pa_grammars demo_parser" and ?us = "[demo_rules ! 2]"
  have gs: "demo_grammar \<in> set ?gs" by (simp add: demo_parser_def)
  have r: "demo_rules ! 0 \<in> set (rules_at (gr_root demo_grammar) [5])" "demo_rules ! 1 \<in> set (rules_at (gr_root demo_grammar) [-1, -1])"
    "tr_lhs (demo_rules ! 0) = -1" "tr_lhs (demo_rules ! 1) = -1" "tr_f (demo_rules ! 2) = [-1]" "tr_lhs (demo_rules ! 2) = -2"
    unfolding demo_grammar_rules by code_simp+
  have word: "covers ?gs ?us [5, 5] i (i + 1) ([] @ [[5, 5] ! nat i]) []" if "0 \<le> i" "i < 2" for i
    by (rule covers_word [OF covers_nil]) (use that in \<open>simp_all add: vsize_def\<close>)
  have X: "parses ?gs ?us [5, 5] (tr_lhs (demo_rules ! 0)) i (i + 1) (PTree (demo_rules ! 0) i (i + 1) [])" if "i = 0 \<or> i = 1" for i
    by (rule parses_rule [OF gs _ r(1)]) (use that word [of i] in \<open>auto simp: demo_grammar_rules HasRuleForSpan_def vsize_def\<close>)
  have "covers ?gs ?us [5, 5] 0 2 (([] @ [-1]) @ [-1]) (([] @ [PTree (demo_rules ! 0) 0 1 []]) @ [PTree (demo_rules ! 0) 1 2 []])"
    by (rule covers_node [OF covers_node [OF covers_nil]]) (use X [of 0] X [of 1] r(3) in simp_all)
  then have "parses ?gs ?us [5, 5] (tr_lhs (demo_rules ! 1)) 0 2 (PTree (demo_rules ! 1) 0 2 [PTree (demo_rules ! 0) 0 1 [], PTree (demo_rules ! 0) 1 2 []])"
    by (intro parses_rule [OF gs _ r(2)]) (auto simp: demo_grammar_rules HasRuleForSpan_def vsize_def)
  then have "parses ?gs ?us [5, 5] (tr_lhs (demo_rules ! 2)) 0 2
      (PTree (demo_rules ! 2) 0 2 [PTree (demo_rules ! 1) 0 2 [PTree (demo_rules ! 0) 0 1 [], PTree (demo_rules ! 0) 1 2 []]])"
    using r(4,5) by (intro parses_unary [of _ _ "-1"]) simp_all
  then show ?thesis by (simp only: r(6))
qed

theorem fill_chart_parses_witness:
  "\<exists>s. do { s \<leftarrow> PassiveChart demo_parser empty_hypergraph; fill_chart demo_parser s } = Some s \<and> GoalFound s \<and>
    (\<exists>d. derives (ch_forest s) (nat (ch_goal_idx s)) d \<and> tree_of (ch_forest s) d = PTree (pa_goal_rule demo_parser) 0 2
      [PTree (demo_rules ! 2) 0 2 [PTree (demo_rules ! 1) 0 2 [PTree (demo_rules ! 0) 0 1 [], PTree (demo_rules ! 0) 1 2 []]]])"
proof -
  have goal: "tr_lhs (pa_goal_rule demo_parser) = pa_kGOAL demo_parser" "pa_goal_cat demo_parser = -2" "vsize [5, 5 :: int] = 2"
    by (simp_all add: demo_parser_def TRule_sides_def vsize_def)
  have all: "all_unaries demo_parser = [demo_rules ! 2]" by (simp add: all_unaries_def demo_parser_def demo_grammar_rules)
  have sorted: "TopoSortUnaries (-2) [demo_rules ! 2] = Some [demo_rules ! 2]" by code_simp
  let ?t = "PTree (demo_rules ! 2) 0 2 [PTree (demo_rules ! 1) 0 2 [PTree (demo_rules ! 0) 0 1 [], PTree (demo_rules ! 0) 1 2 []]]"
  from fill_chart_parses [of demo_parser "[5, 5]", unfolded all goal(2,3), OF demo_parser_ok goal(1)] obtain us s where
    us: "TopoSortUnaries (-2) [demo_rules ! 2] = Some us"
    and run: "do { s \<leftarrow> PassiveChart demo_parser empty_hypergraph; fill_chart demo_parser s } = Some s"
    and found: "GoalFound s \<longleftrightarrow> (\<exists>t. parses (pa_grammars demo_parser) us [5, 5] (-2) 0 2 t)"
    and trees: "GoalFound s \<longrightarrow> tree_of (ch_forest s) ` {d. derives (ch_forest s) (nat (ch_goal_idx s)) d} =
       {PTree (pa_goal_rule demo_parser) 0 2 [t] | t. parses (pa_grammars demo_parser) us [5, 5] (-2) 0 2 t}"
    by (elim exE conjE) (rule that)
  have "us = [demo_rules ! 2]" using us sorted by simp
  note found = found [unfolded this] and trees = trees [unfolded this]
  have G: "GoalFound s" using found demo_parse by blast
  have "PTree (pa_goal_rule demo_parser) 0 2 [?t] \<in> tree_of (ch_forest s) ` {d. derives (ch_forest s) (nat (ch_goal_idx s)) d}"
    unfolding trees [rule_format, OF G] using demo_parse by blast
  then obtain d where "derives (ch_forest s) (nat (ch_goal_idx s)) d" "tree_of (ch_forest s) d = PTree (pa_goal_rule demo_parser) 0 2 [?t]"
    by (elim imageE) simp
  with run G show ?thesis by blast
qed

end
