(* ===== verification/EditDistance.thy ===== *)
theory EditDistance
  imports Doubles
begin

text \<open>
  The edit distance of \<open>mteval/levenshtein.h\<close>, computed in two rows of a table, and the metrics that
  use it, word error rate and character error rate (\<open>mteval/ns_wer.cc\<close>, \<open>ns_cer.cc\<close>).
  The specification is the least cost of an edit path. A \<open>float\<close> that holds a count is an integer
  (exact below \<open>2 ^ 24\<close>); the quotient is a parameter.
\<close>

section \<open>The code\<close>

definition edit_cell :: "'a list \<Rightarrow> 'a list \<Rightarrow> int \<Rightarrow> int \<Rightarrow> int list \<Rightarrow> int list option" where
  "edit_cell a b i j edit = (let m = vsize a in
     if i = 0 then vset edit j j
     else if j = 0 then vset edit ((i mod 2) * (m + 1)) i
     else do {
       x \<leftarrow> vat edit ((i mod 2) * (m + 1) + j - 1);
       y \<leftarrow> vat edit (((i - 1) mod 2) * (m + 1) + j);
       z \<leftarrow> vat edit (((i - 1) mod 2) * (m + 1) + (j - 1));
       p \<leftarrow> vat a (j - 1);
       q \<leftarrow> vat b (i - 1);
       vset edit ((i mod 2) * (m + 1) + j) (min (min (x + 1) (y + 1)) (z + (if p = q then 0 else 1))) })"

definition LevenshteinDistance :: "'a list \<Rightarrow> 'a list \<Rightarrow> int option" where
  "LevenshteinDistance a b = do {
     let m = vsize a;
     let n = vsize b;
     edit \<leftarrow> for_each (int_range 0 (n + 1)) (\<lambda>i edit. for_each (int_range 0 (m + 1)) (\<lambda>j edit. edit_cell a b i j edit) edit)
       (replicate (nat ((m + 1) * 2)) 0);
     vat edit ((n mod 2) * (m + 1) + m) }"

text \<open>The fields of a metric's statistics, resized; what a word error rate needs for the closest reference.\<close>

definition resize_fields :: "nat \<Rightarrow> int list \<Rightarrow> int list" where
  "resize_fields n flds = take n flds @ replicate (n - length flds) 0"

definition closest_reference :: "'a list \<Rightarrow> 'a list list \<Rightarrow> int list \<Rightarrow> int list option" where
  "closest_reference hyp refs flds = map_option fst (for_each refs (\<lambda>ref (flds, best_score). do {
     score \<leftarrow> LevenshteinDistance hyp ref;
     if score < best_score then do {
       flds \<leftarrow> vset flds 0 score;
       flds \<leftarrow> vset flds 1 (vsize ref);
       Some (flds, score) }
     else Some (flds, best_score) }) (resize_fields 2 flds, vsize hyp))"

definition WER_statistics :: "int list \<Rightarrow> int list list \<Rightarrow> int list \<Rightarrow> int list option" where
  "WER_statistics hyp refs flds = closest_reference hyp refs flds"

text \<open>\<open>GetString\<close> is the text of a sentence, its words with spaces between them.\<close>

definition CER_statistics :: "(int list \<Rightarrow> string) \<Rightarrow> int list \<Rightarrow> int list list \<Rightarrow> int list \<Rightarrow> int list option" where
  "CER_statistics GetString hyp refs flds = closest_reference (GetString hyp) (map GetString refs) flds"

definition WER_score :: "('d, 'z) floats_scheme \<Rightarrow> int list \<Rightarrow> 'd option" where
  "WER_score fl flds = do { d \<leftarrow> vat flds 0; c \<leftarrow> vat flds 1; Some (fl_div fl (fl_of_int fl d) (fl_of_int fl c)) }"

section \<open>Edit paths\<close>

datatype TransType = MATCH | SUBSTITUTION | INSERTION | DELETION

text \<open>
  A path from a hypothesis to a reference: a match or a substitution uses a word of each, an insertion
  one of the hypothesis, a deletion one of the reference.
\<close>

fun edit_path :: "TransType list \<Rightarrow> 'a list \<Rightarrow> 'a list \<Rightarrow> bool" where
  "edit_path [] xs ys = (xs = [] \<and> ys = [])"
| "edit_path (MATCH # p) xs ys = (\<exists>x xs' ys'. xs = x # xs' \<and> ys = x # ys' \<and> edit_path p xs' ys')"
| "edit_path (SUBSTITUTION # p) xs ys = (\<exists>x xs' y ys'. xs = x # xs' \<and> ys = y # ys' \<and> edit_path p xs' ys')"
| "edit_path (INSERTION # p) xs ys = (\<exists>x xs'. xs = x # xs' \<and> edit_path p xs' ys)"
| "edit_path (DELETION # p) xs ys = (\<exists>y ys'. ys = y # ys' \<and> edit_path p xs ys')"

definition path_cost :: "TransType list \<Rightarrow> nat" where
  "path_cost p = length (filter (\<lambda>t. t \<noteq> MATCH) p)"

definition edit_distance :: "'a list \<Rightarrow> 'a list \<Rightarrow> nat" where
  "edit_distance xs ys = (LEAST n. \<exists>p. edit_path p xs ys \<and> path_cost p = n)"

lemma path_cost_simps [simp]: "path_cost [] = 0" "path_cost (MATCH # p) = path_cost p" "t \<noteq> MATCH \<Longrightarrow> path_cost (t # p) = Suc (path_cost p)"
  "path_cost (p @ q) = path_cost p + path_cost q"
  by (simp_all add: path_cost_def)

lemma edit_path_append:
  "edit_path (p @ q) xs ys \<longleftrightarrow> (\<exists>xs1 xs2 ys1 ys2. xs = xs1 @ xs2 \<and> ys = ys1 @ ys2 \<and> edit_path p xs1 ys1 \<and> edit_path q xs2 ys2)"
proof (induction p arbitrary: xs ys)
  case (Cons t p)
  show ?case
  proof (cases t)
    case MATCH
    then show ?thesis by (auto simp: Cons.IH Cons_eq_append_conv) (metis append_Cons)+
  next
    case SUBSTITUTION
    then show ?thesis by (auto simp: Cons.IH Cons_eq_append_conv) (metis append_Cons)+
  next
    case INSERTION
    then show ?thesis by (auto simp: Cons.IH Cons_eq_append_conv) (metis append_Cons)+
  next
    case DELETION
    then show ?thesis by (auto simp: Cons.IH Cons_eq_append_conv) (metis append_Cons)+
  qed
qed simp

text \<open>The last step of a path.\<close>

lemma edit_path_snoc:
  "edit_path (p @ [t]) xs ys \<longleftrightarrow> (case t of
     MATCH \<Rightarrow> xs \<noteq> [] \<and> ys \<noteq> [] \<and> last xs = last ys \<and> edit_path p (butlast xs) (butlast ys)
   | SUBSTITUTION \<Rightarrow> xs \<noteq> [] \<and> ys \<noteq> [] \<and> edit_path p (butlast xs) (butlast ys)
   | INSERTION \<Rightarrow> xs \<noteq> [] \<and> edit_path p (butlast xs) ys
   | DELETION \<Rightarrow> ys \<noteq> [] \<and> edit_path p xs (butlast ys))"
proof
  show "edit_path (p @ [t]) xs ys \<Longrightarrow> (case t of
     MATCH \<Rightarrow> xs \<noteq> [] \<and> ys \<noteq> [] \<and> last xs = last ys \<and> edit_path p (butlast xs) (butlast ys)
   | SUBSTITUTION \<Rightarrow> xs \<noteq> [] \<and> ys \<noteq> [] \<and> edit_path p (butlast xs) (butlast ys)
   | INSERTION \<Rightarrow> xs \<noteq> [] \<and> edit_path p (butlast xs) ys
   | DELETION \<Rightarrow> ys \<noteq> [] \<and> edit_path p xs (butlast ys))"
    unfolding edit_path_append by (cases t) auto
next
  have append: "edit_path (p @ [t]) (xs1 @ xs2) (ys1 @ ys2)" if "edit_path p xs1 ys1" "edit_path [t] xs2 ys2" for xs1 xs2 ys1 ys2
    using that unfolding edit_path_append by blast
  note both = append [of "butlast xs" "butlast ys" "[last xs]" "[last ys]"]
    and hyp = append [of "butlast xs" ys "[last xs]" "[]"] and ref = append [of xs "butlast ys" "[]" "[last ys]"]
  assume "case t of
     MATCH \<Rightarrow> xs \<noteq> [] \<and> ys \<noteq> [] \<and> last xs = last ys \<and> edit_path p (butlast xs) (butlast ys)
   | SUBSTITUTION \<Rightarrow> xs \<noteq> [] \<and> ys \<noteq> [] \<and> edit_path p (butlast xs) (butlast ys)
   | INSERTION \<Rightarrow> xs \<noteq> [] \<and> edit_path p (butlast xs) ys
   | DELETION \<Rightarrow> ys \<noteq> [] \<and> edit_path p xs (butlast ys)"
  then show "edit_path (p @ [t]) xs ys" using both hyp ref by (cases t; cases xs rule: rev_cases; cases ys rule: rev_cases) simp_all
qed

text \<open>The recursion on prefixes.\<close>

fun edist :: "'a list \<Rightarrow> 'a list \<Rightarrow> nat \<Rightarrow> nat \<Rightarrow> nat" where
  "edist xs ys 0 j = j"
| "edist xs ys (Suc i) 0 = Suc i"
| "edist xs ys (Suc i) (Suc j) = min (min (Suc (edist xs ys (Suc i) j)) (Suc (edist xs ys i (Suc j))))
     (edist xs ys i j + (if xs ! i = ys ! j then 0 else 1))"

lemma take_Suc_last:
  "i < length xs \<Longrightarrow> butlast (take (Suc i) xs) = take i xs" "i < length xs \<Longrightarrow> last (take (Suc i) xs) = xs ! i"
  "i < length xs \<Longrightarrow> take (Suc i) xs \<noteq> []"
  by (auto simp: take_Suc_conv_app_nth)

lemma edist_reached:
  "i \<le> length xs \<Longrightarrow> j \<le> length ys \<Longrightarrow> \<exists>p. edit_path p (take i xs) (take j ys) \<and> path_cost p = edist xs ys i j"
proof (induction xs ys i j rule: edist.induct)
  case (1 xs ys j)
  have "edit_path (replicate n DELETION) [] zs \<longleftrightarrow> length zs = n" for n and zs :: "'a list"
    by (induction n arbitrary: zs) (auto simp: length_Suc_conv)
  moreover have "path_cost (replicate n DELETION) = n" for n by (induction n) simp_all
  ultimately show ?case using 1 by (intro exI [of _ "replicate j DELETION"]) simp
next
  case (2 xs ys i)
  have "edit_path (replicate n INSERTION) zs [] \<longleftrightarrow> length zs = n" for n and zs :: "'a list"
    by (induction n arbitrary: zs) (auto simp: length_Suc_conv)
  moreover have "path_cost (replicate n INSERTION) = n" for n by (induction n) simp_all
  ultimately show ?case using 2 by (intro exI [of _ "replicate (Suc i) INSERTION"]) (simp del: replicate_Suc edit_path.simps take_Suc)
next
  case (3 xs ys i j)
  obtain p q r where p: "edit_path p (take (Suc i) xs) (take j ys)" "path_cost p = edist xs ys (Suc i) j"
    and q: "edit_path q (take i xs) (take (Suc j) ys)" "path_cost q = edist xs ys i (Suc j)"
    and r: "edit_path r (take i xs) (take j ys)" "path_cost r = edist xs ys i j"
    using 3 by (auto simp del: take_Suc)
  let ?t = "if xs ! i = ys ! j then MATCH else SUBSTITUTION"
  have "edit_path (p @ [DELETION]) (take (Suc i) xs) (take (Suc j) ys)" "edit_path (q @ [INSERTION]) (take (Suc i) xs) (take (Suc j) ys)"
    "edit_path (r @ [?t]) (take (Suc i) xs) (take (Suc j) ys)"
    using p q r 3(4,5) by (auto simp: edit_path_snoc take_Suc_last)
  moreover have "path_cost (p @ [DELETION]) = Suc (edist xs ys (Suc i) j)" "path_cost (q @ [INSERTION]) = Suc (edist xs ys i (Suc j))"
    "path_cost (r @ [?t]) = edist xs ys i j + (if xs ! i = ys ! j then 0 else 1)"
    using p q r by simp_all
  ultimately show ?case unfolding edist.simps min_def by metis
qed

lemma edist_least:
  "i \<le> length xs \<Longrightarrow> j \<le> length ys \<Longrightarrow> edit_path p (take i xs) (take j ys) \<Longrightarrow> edist xs ys i j \<le> path_cost p"
proof (induction p arbitrary: i j rule: rev_induct)
  case Nil
  then show ?case by (cases i; cases j) auto
next
  case (snoc t p)
  show ?case
  proof (cases t)
    case MATCH
    then obtain i' j' where ij: "i = Suc i'" "j = Suc j'" using snoc.prems by (cases i; cases j) (auto simp: edit_path_snoc)
    then have "xs ! i' = ys ! j'" "edit_path p (take i' xs) (take j' ys)"
      using snoc.prems MATCH by (auto simp: edit_path_snoc take_Suc_last)
    then show ?thesis using snoc.IH [of i' j'] snoc.prems MATCH ij by simp
  next
    case SUBSTITUTION
    then obtain i' j' where ij: "i = Suc i'" "j = Suc j'" using snoc.prems by (cases i; cases j) (auto simp: edit_path_snoc)
    then have "edit_path p (take i' xs) (take j' ys)" using snoc.prems SUBSTITUTION by (auto simp: edit_path_snoc take_Suc_last)
    then show ?thesis using snoc.IH [of i' j'] snoc.prems SUBSTITUTION ij by auto
  next
    case INSERTION
    then obtain i' where i: "i = Suc i'" using snoc.prems by (cases i) (auto simp: edit_path_snoc)
    then have "edit_path p (take i' xs) (take j ys)" using snoc.prems INSERTION by (auto simp: edit_path_snoc take_Suc_last)
    then have "edist xs ys i' j \<le> path_cost p" using snoc.IH [of i' j] snoc.prems i by simp
    then show ?thesis using INSERTION i by (cases j) (auto, cases i', auto)
  next
    case DELETION
    then obtain j' where j: "j = Suc j'" using snoc.prems by (cases j) (auto simp: edit_path_snoc)
    then have "edit_path p (take i xs) (take j' ys)" using snoc.prems DELETION by (auto simp: edit_path_snoc take_Suc_last)
    then have "edist xs ys i j' \<le> path_cost p" using snoc.IH [of i j'] snoc.prems j by simp
    then show ?thesis using DELETION j by (cases i) auto
  qed
qed

lemma edist_edit_distance: "edist xs ys (length xs) (length ys) = edit_distance xs ys"
  unfolding edit_distance_def
  by (rule Least_equality [symmetric]) (use edist_reached [of "length xs" xs "length ys" ys] edist_least [of "length xs" xs "length ys" ys] in auto)

lemma edit_distance_attained: "\<exists>p. edit_path p xs ys \<and> path_cost p = edit_distance xs ys"
  using edist_reached [of "length xs" xs "length ys" ys] by (simp add: edist_edit_distance)

lemma edit_distance_le: "edit_path p xs ys \<Longrightarrow> edit_distance xs ys \<le> path_cost p"
  using edist_least [of "length xs" xs "length ys" ys p] by (simp add: edist_edit_distance)

section \<open>The table\<close>

text \<open>The cells of row \<open>i\<close> up to column \<open>j\<close>, and the row before it.\<close>

definition rows_ok :: "'a list \<Rightarrow> 'a list \<Rightarrow> nat \<Rightarrow> nat \<Rightarrow> int list \<Rightarrow> bool" where
  "rows_ok a b i j edit \<longleftrightarrow> length edit = (length a + 1) * 2 \<and>
     (\<forall>k < j. edit ! (i mod 2 * (length a + 1) + k) = int (edist a b k i)) \<and>
     (0 < i \<longrightarrow> (\<forall>k \<le> length a. edit ! ((i - 1) mod 2 * (length a + 1) + k) = int (edist a b k (i - 1))))"

lemma other_row: "0 < i \<Longrightarrow> (i - 1) mod 2 = 1 - i mod (2 :: nat)"
  by (cases i) (auto simp: mod_Suc split: if_splits)

lemma row_index:
  assumes "k \<le> m" "r < 2"
  shows "r * (m + 1) + k < (m + 1) * (2 :: nat)"
  using assms by (cases r) (auto simp: less_Suc_eq numeral_2_eq_2)

lemma edit_cell_ok:
  assumes i: "i \<le> length b" and j: "j \<le> length a" and rows: "rows_ok a b i j edit"
  shows "\<exists>edit'. edit_cell a b (int i) (int j) edit = Some edit' \<and> rows_ok a b i (Suc j) edit'"
proof -
  let ?m = "length a" and ?v = "int (edist a b j i)"
  let ?p = "i mod 2 * (?m + 1) + j"
  have len: "length edit = (?m + 1) * 2" using rows by (simp add: rows_ok_def)
  have p: "?p < length edit" using row_index [OF j, of "i mod 2"] len by simp
  have cur: "edit ! (i mod 2 * (?m + 1) + k) = int (edist a b k i)" if "k < j" for k using rows that by (simp add: rows_ok_def)
  have prev: "edit ! ((i - 1) mod 2 * (?m + 1) + k) = int (edist a b k (i - 1))" "(i - 1) mod 2 * (?m + 1) + k < length edit"
    if "0 < i" "k \<le> ?m" for k
    using rows that row_index [OF that(2), of "(i - 1) mod 2"] len by (simp_all add: rows_ok_def)
  have set: "rows_ok a b i (Suc j) (edit[?p := ?v])"
  proof -
    have "(i - 1) mod 2 * (?m + 1) + k \<noteq> ?p" if "0 < i" "k \<le> ?m" for k
    proof (cases "i mod 2")
      case 0
      then show ?thesis using other_row [OF that(1)] j by simp
    next
      case (Suc r)
      then have "i mod 2 = 1" by linarith
      then show ?thesis using other_row [OF that(1)] that(2) by simp
    qed
    moreover have "(edit[?p := ?v]) ! (i mod 2 * (?m + 1) + k) = int (edist a b k i)" if "k < Suc j" for k
      using that cur p by (cases "k = j") auto
    moreover from this have "(edit[?p := ?v]) ! ((i - 1) mod 2 * (?m + 1) + k) = int (edist a b k (i - 1))" if "0 < i" "k \<le> ?m" for k
      using calculation(1) [OF that] prev(1) [OF that] by (metis nth_list_update_neq)
    ultimately show ?thesis using len by (simp add: rows_ok_def)
  qed
  consider "i = 0" | "0 < i" "j = 0" | "0 < i" "0 < j" by linarith
  then have "edit_cell a b (int i) (int j) edit = Some (edit[?p := ?v])"
  proof cases
    case 1
    have "edist a b j 0 = j" by (cases j) simp_all
    then show ?thesis using 1 p by (simp add: edit_cell_def)
  next
    case 2
    have "vset edit (int (i mod 2 * (?m + 1))) (int i) = Some (edit[i mod 2 * (?m + 1) := int i])"
      using p 2 by (intro vset_nat) simp
    then show ?thesis using 2 by (simp add: edit_cell_def vsize_def zmod_int algebra_simps)
  next
    case 3
    let ?q = "i mod 2 * (?m + 1) + (j - 1)" and ?r = "(i - 1) mod 2 * (?m + 1) + j" and ?s = "(i - 1) mod 2 * (?m + 1) + (j - 1)"
    obtain i' j' where ij: "i = Suc i'" "j = Suc j'" using 3 by (cases i; cases j) auto
    have im: "int i mod 2 = int (i mod 2)" "(int i - 1) mod 2 = int ((i - 1) mod 2)" using 3 by (simp_all add: zmod_int of_nat_diff)
    have ix: "int i mod 2 * (vsize a + 1) + int j - 1 = int ?q" "(int i - 1) mod 2 * (vsize a + 1) + int j = int ?r"
      "(int i - 1) mod 2 * (vsize a + 1) + (int j - 1) = int ?s" "int i mod 2 * (vsize a + 1) + int j = int ?p"
      unfolding im using 3 by (simp_all add: vsize_def of_nat_diff algebra_simps)
    have reads: "vat edit (int i mod 2 * (vsize a + 1) + int j - 1) = Some (int (edist a b j' i))"
      "vat edit ((int i - 1) mod 2 * (vsize a + 1) + int j) = Some (int (edist a b j i'))"
      "vat edit ((int i - 1) mod 2 * (vsize a + 1) + (int j - 1)) = Some (int (edist a b j' i'))"
      "vset edit (int i mod 2 * (vsize a + 1) + int j) v = Some (edit[?p := v])" for v
      unfolding ix using vset_nat [OF p, of v] cur [of j'] prev [of j] prev [of j'] 3 ij j p vat_nat [of ?q edit] vat_nat [of ?r edit] vat_nat [of ?s edit] by simp_all
    have words: "vat a (int j - 1) = Some (a ! j')" "vat b (int i - 1) = Some (b ! i')"
      using vat_nat [of j' a] vat_nat [of i' b] i j ij by simp_all
    have "?v = min (min (int (edist a b j' i) + 1) (int (edist a b j i') + 1)) (int (edist a b j' i') + (if a ! j' = b ! i' then 0 else 1))"
      unfolding ij edist.simps by (auto simp: min_def)
    moreover have "int i \<noteq> 0" "int j \<noteq> 0" using 3 by simp_all
    ultimately show ?thesis
      by (simp only: edit_cell_def Let_def reads words bind.bind_lunit if_False)
  qed
  then show ?thesis using set by blast
qed

lemma LevenshteinDistance_eq: "LevenshteinDistance a b = Some (int (edit_distance a b))"
proof -
  let ?m = "length a" and ?n = "length b"
  let ?I = "\<lambda>(i :: int) edit. length edit = (?m + 1) * 2 \<and> (0 < i \<longrightarrow> rows_ok a b (nat i - 1) (?m + 1) edit)"
  have "\<exists>t. for_each (int_range 0 (int ?n + 1)) (\<lambda>i edit. for_each (int_range 0 (int ?m + 1)) (\<lambda>j edit. edit_cell a b i j edit) edit)
      (replicate (nat ((int ?m + 1) * 2)) 0) = Some t \<and> ?I (int ?n + 1) t"
  proof (rule for_range_total [where I = ?I])
    fix i :: int and edit
    assume i: "0 \<le> i" "i < int ?n + 1" and I: "?I i edit"
    let ?J = "\<lambda>(j :: int) edit. rows_ok a b (nat i) (nat j) edit"
    have "\<exists>t. for_each (int_range 0 (int ?m + 1)) (\<lambda>j edit. edit_cell a b i j edit) edit = Some t \<and> ?J (int ?m + 1) t"
    proof (rule for_range_total [where I = ?J])
      show "?J 0 edit"
        using I i(1) by (auto simp: rows_ok_def le_eq_less_or_eq)
    next
      fix j :: int and u
      assume "0 \<le> j" "j < int ?m + 1" "?J j u"
      then show "\<exists>s'. edit_cell a b i j u = Some s' \<and> ?J (j + 1) s'"
        using edit_cell_ok [of "nat i" b "nat j" a u] i by (simp add: nat_add_distrib)
    qed simp
    then obtain t where t: "for_each (int_range 0 (int ?m + 1)) (\<lambda>j edit. edit_cell a b i j edit) edit = Some t"
      and rows: "rows_ok a b (nat i) (nat (int ?m + 1)) t" by blast
    have "nat (int ?m + 1) = ?m + 1" "nat (i + 1) - 1 = nat i" using i by simp_all
    then have "?I (i + 1) t" using rows i by (simp add: rows_ok_def)
    then show "\<exists>s'. for_each (int_range 0 (int ?m + 1)) (\<lambda>j edit. edit_cell a b i j edit) edit = Some s' \<and> ?I (i + 1) s'"
      using t by blast
  qed (simp_all add: nat_mult_distrib nat_add_distrib)
  then obtain t where run: "for_each (int_range 0 (int ?n + 1)) (\<lambda>i edit. for_each (int_range 0 (int ?m + 1)) (\<lambda>j edit. edit_cell a b i j edit) edit)
      (replicate (nat ((int ?m + 1) * 2)) 0) = Some t" and rows: "rows_ok a b ?n (?m + 1) t" by (auto simp: nat_add_distrib)
  have p: "?n mod 2 * (?m + 1) + ?m < length t" using row_index [of ?m ?m "?n mod 2"] rows by (simp add: rows_ok_def)
  have "int ?n mod 2 * (int ?m + 1) + int ?m = int (?n mod 2 * (?m + 1) + ?m)" by (simp add: zmod_int algebra_simps)
  then have "vat t (int ?n mod 2 * (int ?m + 1) + int ?m) = Some (int (edist a b ?m ?n))"
    using vat_nat [OF p] rows by (simp add: rows_ok_def)
  then show ?thesis
    using run by (simp add: LevenshteinDistance_def vsize_def edist_edit_distance)
qed

section \<open>The metrics\<close>

text \<open>C30. \<open>LevenshteinDistance\<close> returns, for any two sequences, the least cost of an edit path between them:
  the two rows it keeps are the last two of the table.\<close>

theorem LevenshteinDistance_correct:
  "\<exists>d. LevenshteinDistance a b = Some (int d) \<and> (\<exists>p. edit_path p a b \<and> path_cost p = d) \<and> (\<forall>p. edit_path p a b \<longrightarrow> d \<le> path_cost p)"
  using LevenshteinDistance_eq [of a b] edit_distance_attained [of a b] edit_distance_le [of _ a b] by blast

lemma LevenshteinDistance_correct_witness:
  "LevenshteinDistance [1, 2, 3] [1, 3 :: int] = Some 1 \<and> (\<exists>p. edit_path p [1, 2, 3] [1, 3 :: int] \<and> path_cost p = 1)"
proof -
  have "LevenshteinDistance [1, 2, 3] [1, 3 :: int] = Some 1" by code_simp
  with LevenshteinDistance_correct [of "[1, 2, 3]" "[1, 3 :: int]"] show ?thesis by auto
qed

text \<open>
  What the metrics record: the least distance and the length of the first reference that has it,
  but only when the distance is less than the length of the hypothesis.
\<close>

fun closest :: "'a list \<Rightarrow> 'a list list \<Rightarrow> int \<times> int \<times> int \<Rightarrow> int \<times> int \<times> int" where
  "closest hyp [] s = s"
| "closest hyp (r # rs) (d, n, best) = closest hyp rs
     (if int (edit_distance hyp r) < best then (int (edit_distance hyp r), vsize r, int (edit_distance hyp r)) else (d, n, best))"

lemma closest_reference_eq:
  "closest_reference hyp refs [] = Some (case closest hyp refs (0, 0, vsize hyp) of (d, n, _) \<Rightarrow> [d, n])"
proof -
  have "for_each refs (\<lambda>ref (flds, best_score). do {
     score \<leftarrow> LevenshteinDistance hyp ref;
     if score < best_score then do {
       flds \<leftarrow> vset flds 0 score;
       flds \<leftarrow> vset flds 1 (vsize ref);
       Some (flds, score) }
     else Some (flds, best_score) }) ([d, n], best) = (case closest hyp refs (d, n, best) of (d, n, best) \<Rightarrow> Some ([d, n], best))" for d n best
    by (induction refs arbitrary: d n best) (auto simp: LevenshteinDistance_eq vset_def)
  then show ?thesis
    by (simp add: closest_reference_def resize_fields_def numeral_2_eq_2 split: prod.split)
qed

lemma closest_least:
  assumes "closest hyp refs (d, n, best) = (d', n', best')"
  shows "(\<forall>r \<in> set refs. best' \<le> int (edit_distance hyp r)) \<and> best' \<le> best \<and>
    ((d', n', best') = (d, n, best) \<or> (\<exists>r \<in> set refs. d' = int (edit_distance hyp r) \<and> n' = vsize r \<and> best' = d'))"
  using assms
proof (induction refs arbitrary: d n best)
  case (Cons r rs)
  then show ?case by (fastforce split: if_splits)
qed simp

text \<open>C0. If a reference is nearer to the hypothesis than the hypothesis is long, \<open>WER_statistics\<close>
  gives the least distance to a reference and the length of a reference at that distance.\<close>

theorem WER_closest_reference:
  assumes "r \<in> set refs" "edit_distance hyp r < length hyp"
  shows "\<exists>q \<in> set refs. WER_statistics hyp refs [] = Some [int (edit_distance hyp q), vsize q] \<and>
    (\<forall>q' \<in> set refs. edit_distance hyp q \<le> edit_distance hyp q')"
proof -
  obtain d n best where c: "closest hyp refs (0, 0, vsize hyp) = (d, n, best)" by (cases "closest hyp refs (0, 0, vsize hyp)") auto
  note l = closest_least [OF c]
  have "best < vsize hyp" using l assms by (force simp: vsize_def)
  then obtain q where "q \<in> set refs" "d = int (edit_distance hyp q)" "n = vsize q" "best = d" using l by auto
  then show ?thesis using l c by (auto simp: WER_statistics_def closest_reference_eq)
qed

lemma edit_distance_code: "edit_distance xs ys = edist xs ys (length xs) (length ys)"
  by (simp add: edist_edit_distance)

lemma WER_closest_reference_witness:
  "\<exists>q \<in> set [[1, 3], [4 :: int]]. WER_statistics [1, 2, 3] [[1, 3], [4]] [] = Some [int (edit_distance [1, 2, 3] q), vsize q]"
proof -
  have "edit_distance [1, 2, 3] [1, 3 :: int] < length [1, 2, 3 :: int]" unfolding edit_distance_code by code_simp
  with WER_closest_reference [of "[1, 3]" "[[1, 3], [4]]" "[1, 2, 3]"] show ?thesis by auto
qed

text \<open>A hypothesis that shares nothing with its reference: no errors are counted, and no words.\<close>

lemma WER_unrelated_hypothesis: "WER_statistics [1, 2] [[3, 4]] [] = Some [0, 0]"
  by code_simp

end
