(* ===== verification/Ter.thy ===== *)
theory Ter
  imports EditDistance "HOL-Library.Word"
begin

text \<open>
  The translation edit rate (\<open>mteval/ter.cc\<close>, and \<open>ns_ter.cc\<close>, which repeats it): the edit distance with a
  trace of the path, shifts of phrases towards their place in the reference, and the greedy search
  that applies shifts as long as they pay. All costs are \<open>1.0f\<close>; the \<open>float\<close>s hold whole numbers, which are
  exact below \<open>2 ^ 24\<close>, and are integers here.
\<close>

unbundle bit_operations_syntax

section \<open>A shift in 32 bits\<close>

type_synonym shift = "32 word"

definition shift_begin :: "shift \<Rightarrow> int" where
  "shift_begin d = uint (d AND 0x3ff)"

definition shift_end :: "shift \<Rightarrow> int" where
  "shift_end d = uint (drop_bit 10 d AND 0x3ff)"

definition shift_moveto :: "shift \<Rightarrow> int" where
  "shift_moveto d = (let m = uint (drop_bit 20 d AND 0x7ff) in if 1024 < m then - (m - 1024) else m)"

definition set_begin :: "int \<Rightarrow> shift \<Rightarrow> shift" where
  "set_begin b d = (d AND 0xfffffc00) OR (word_of_int b AND 0x3ff)"

definition set_end :: "int \<Rightarrow> shift \<Rightarrow> shift" where
  "set_end e d = (d AND 0xfff003ff) OR push_bit 10 (word_of_int e AND 0x3ff)"

definition set_moveto :: "int \<Rightarrow> shift \<Rightarrow> shift" where
  "set_moveto m d = (let m = (if m < 0 then - m + 1024 else m) in (d AND 0xfffff) OR push_bit 20 (word_of_int m AND 0x7ff))"

definition Shift :: "int \<Rightarrow> int \<Rightarrow> int \<Rightarrow> shift" where
  "Shift b e m = set_moveto m (set_end e (set_begin b 0))"

section \<open>The edit distance with its path\<close>

definition mat_get :: "'a list list \<Rightarrow> int \<Rightarrow> int \<Rightarrow> 'a option" where
  "mat_get M i j = do { row \<leftarrow> vat M i; vat row j }"

definition mat_set :: "'a list list \<Rightarrow> int \<Rightarrow> int \<Rightarrow> 'a \<Rightarrow> 'a list list option" where
  "mat_set M i j v = do { row \<leftarrow> vat M i; row \<leftarrow> vset row j v; vset M i row }"

definition med_cell :: "int list \<Rightarrow> int list \<Rightarrow> int \<Rightarrow> int \<Rightarrow> TransType list list \<times> int list list \<Rightarrow>
    (TransType list list \<times> int list list) option" where
  "med_cell hyp ref i j s = do {
     let (bmat, cmat) = s;
     hw \<leftarrow> vat hyp (i - 1);
     rw \<leftarrow> vat ref (j - 1);
     diag \<leftarrow> mat_get cmat (i - 1) (j - 1);
     let (cur_c, cur_b) = (if rw = hw then (diag, MATCH) else (diag + 1, SUBSTITUTION));
     cwoi \<leftarrow> mat_get cmat (i - 1) j;
     let (cur_c, cur_b) = (if cwoi + 1 < cur_c then (cwoi + 1, INSERTION) else (cur_c, cur_b));
     cwod \<leftarrow> mat_get cmat i (j - 1);
     let (cur_c, cur_b) = (if cwod + 1 < cur_c then (cwod + 1, DELETION) else (cur_c, cur_b));
     bmat \<leftarrow> mat_set bmat i j cur_b;
     cmat \<leftarrow> mat_set cmat i j cur_c;
     Some (bmat, cmat) }"

fun trace_back :: "TransType list list \<Rightarrow> nat \<Rightarrow> nat \<Rightarrow> TransType list \<Rightarrow> TransType list option" where
  "trace_back bmat i j path =
     (if i = 0 \<and> j = 0 then Some path
      else if j = 0 then trace_back bmat (i - 1) j (path @ [INSERTION])
      else if i = 0 then trace_back bmat i (j - 1) (path @ [DELETION])
      else do {
        t \<leftarrow> mat_get bmat (int i) (int j);
        case t of
          SUBSTITUTION \<Rightarrow> trace_back bmat (i - 1) (j - 1) (path @ [t])
        | MATCH \<Rightarrow> trace_back bmat (i - 1) (j - 1) (path @ [t])
        | INSERTION \<Rightarrow> trace_back bmat (i - 1) j (path @ [t])
        | DELETION \<Rightarrow> trace_back bmat i (j - 1) (path @ [t]) })"

declare trace_back.simps [simp del]

definition MinimumEditDistance :: "int list \<Rightarrow> int list \<Rightarrow> (int \<times> TransType list) option" where
  "MinimumEditDistance hyp ref = do {
     let bmat = replicate (length hyp + 1) (replicate (length ref + 1) MATCH);
     let cmat = replicate (length hyp + 1) (replicate (length ref + 1) 0);
     cmat \<leftarrow> for_each (int_range 0 (vsize hyp + 1)) (\<lambda>i cmat. mat_set cmat i 0 i) cmat;
     cmat \<leftarrow> for_each (int_range 0 (vsize ref + 1)) (\<lambda>j cmat. mat_set cmat 0 j j) cmat;
     (bmat, cmat) \<leftarrow> for_each (int_range 1 (vsize hyp + 1)) (\<lambda>i s. for_each (int_range 1 (vsize ref + 1)) (\<lambda>j s. med_cell hyp ref i j s) s) (bmat, cmat);
     path \<leftarrow> trace_back bmat (length hyp) (length ref) [];
     cost \<leftarrow> mat_get cmat (vsize hyp) (vsize ref);
     Some (cost, rev path) }"

section \<open>Shifts\<close>

text \<open>The positions in the reference of its n-grams of words that the hypothesis has too, in order.\<close>

type_synonym ngram_positions = "int list \<Rightarrow> int list option"

definition BuildWordMatches :: "int list \<Rightarrow> int list \<Rightarrow> ngram_positions option" where
  "BuildWordMatches ref hyp = (let exists_both = fold (\<lambda>w s. if w \<in> set ref then insert w s else s) hyp {} in
     for_each (positions ref) (\<lambda>start nmap. do {
       first \<leftarrow> vat ref start;
       if first \<notin> exists_both then Some nmap
       else map_option snd (for_break (int_range 0 (min 10 (vsize ref - start))) (\<lambda>len (cp, nmap). do {
         w \<leftarrow> vat ref (start + len);
         if len \<noteq> 0 \<and> w \<notin> exists_both then Some ((cp, nmap), False)
         else let cp = cp @ [w]
           in Some ((cp, nmap(cp \<mapsto> insort_insert start (case nmap cp of None \<Rightarrow> [] | Some s \<Rightarrow> s))), True) }) ([], nmap)) }) Map.empty)"

definition copy_words :: "int list \<Rightarrow> int \<Rightarrow> int \<Rightarrow> int list \<Rightarrow> int list option" where
  "copy_words in_words lo hi out = for_each (int_range lo hi) (\<lambda>i out. do { w \<leftarrow> vat in_words i; Some (out @ [w]) }) out"

definition PerformShift :: "int list \<Rightarrow> int \<Rightarrow> int \<Rightarrow> int \<Rightarrow> int list option" where
  "PerformShift in_words start fin moveto = do {
     let n = vsize in_words;
     out \<leftarrow>
       (if moveto = -1 then do {
          out \<leftarrow> copy_words in_words start (fin + 1) [];
          out \<leftarrow> copy_words in_words 0 start out;
          copy_words in_words (fin + 1) n out }
        else if moveto < start then do {
          out \<leftarrow> copy_words in_words 0 (moveto + 1) [];
          out \<leftarrow> copy_words in_words start (fin + 1) out;
          out \<leftarrow> copy_words in_words (moveto + 1) start out;
          copy_words in_words (fin + 1) n out }
        else if fin < moveto then do {
          out \<leftarrow> copy_words in_words 0 start [];
          out \<leftarrow> copy_words in_words (fin + 1) (moveto + 1) out;
          out \<leftarrow> copy_words in_words start (fin + 1) out;
          copy_words in_words (moveto + 1) n out }
        else do {
          out \<leftarrow> copy_words in_words 0 start [];
          out \<leftarrow> copy_words in_words (fin + 1) (min n (fin + (moveto - start) + 1)) out;
          out \<leftarrow> copy_words in_words start (fin + 1) out;
          copy_words in_words (fin + (moveto - start) + 1) n out });
     check (vsize out = n);
     Some out }"

text \<open>Whether a flag is set in a range, up to the first that is.\<close>

definition any_flag :: "bool list \<Rightarrow> int \<Rightarrow> int \<Rightarrow> bool option" where
  "any_flag flags lo hi = for_break (int_range lo hi) (\<lambda>i _. do { b \<leftarrow> vat flags i; Some (b, \<not> b) }) False"

definition push_shift :: "shift list list \<Rightarrow> int \<Rightarrow> shift \<Rightarrow> shift list list option" where
  "push_shift shifts k s = do { ss \<leftarrow> vat shifts k; vset shifts k (ss @ [s]) }"

definition shifts_to :: "int list \<Rightarrow> bool list \<Rightarrow> int \<Rightarrow> int \<Rightarrow> int \<Rightarrow> bool \<times> shift list list \<Rightarrow> (bool \<times> shift list list) option" where
  "shifts_to ralign rerr start fin moveto s = do {
     let (ok, shifts) = s;
     rm \<leftarrow> vat ralign moveto;
     if \<not> (rm \<noteq> start \<and> (rm < start \<or> fin < rm) \<and> rm - start \<le> 50 \<and> start - rm - 1 \<le> 50) then Some (ok, shifts)
     else do {
       any_rerr \<leftarrow> any_flag rerr moveto (moveto + (fin - start) + 1);
       if \<not> any_rerr then Some (True, shifts)
       else map_option (Pair True) (for_each (int_range 0 (fin - start + 1)) (\<lambda>roff shifts. do {
         rmr \<leftarrow> vat ralign (moveto + roff);
         if start \<noteq> rmr \<and> (roff = 0 \<or> rmr \<noteq> rm) then push_shift shifts (fin - start) (Shift start fin (moveto + roff))
         else Some shifts }) shifts) } }"

definition shifts_of :: "ngram_positions \<Rightarrow> int list \<Rightarrow> int list \<Rightarrow> bool list \<Rightarrow> bool list \<Rightarrow> int \<Rightarrow> int \<Rightarrow> int list \<times> shift list list \<Rightarrow>
    ((int list \<times> shift list list) \<times> bool) option" where
  "shifts_of nmap hyp ralign herr rerr start fin s = do {
     let (cp, shifts) = s;
     w \<leftarrow> vat hyp fin;
     let cp = cp @ [w];
     _ \<leftarrow> vat shifts (fin - start);
     case nmap cp of None \<Rightarrow> Some ((cp, shifts), False)
     | Some ms \<Rightarrow> do {
         any_herr \<leftarrow> any_flag herr start (fin + 1);
         if \<not> any_herr then Some ((cp, shifts), True)
         else do {
           (ok, shifts) \<leftarrow> for_each ms (shifts_to ralign rerr start fin) (False, shifts);
           Some ((cp, shifts), ok) } } }"

definition GetAllPossibleShifts :: "ngram_positions \<Rightarrow> int list \<Rightarrow> int list \<Rightarrow> bool list \<Rightarrow> bool list \<Rightarrow> int \<Rightarrow>
    shift list list \<Rightarrow> shift list list option" where
  "GetAllPossibleShifts nmap hyp ralign herr rerr min_size shifts = for_each (positions hyp) (\<lambda>start shifts. do {
     w \<leftarrow> vat hyp start;
     case nmap [w] of None \<Rightarrow> Some shifts
     | Some ms \<Rightarrow> do {
         ok \<leftarrow> for_break ms (\<lambda>moveto _. do {
           rm \<leftarrow> vat ralign moveto;
           let ok = (start \<noteq> rm \<and> rm - start < 50 \<and> start - rm - 1 < 50);
           Some (ok, \<not> ok) }) False;
         if \<not> ok then Some shifts
         else map_option snd (for_break (int_range (start + min_size - 1) (min (vsize hyp) (start + 10)))
           (shifts_of nmap hyp ralign herr rerr start) ([], shifts)) } }) shifts"

text \<open>Which words of either side are in error along a path, and the position in the hypothesis of the words of the reference.\<close>

fun path_arrays :: "TransType list \<Rightarrow> int \<Rightarrow> bool list \<times> bool list \<times> int list" where
  "path_arrays [] hpos = ([], [], [])"
| "path_arrays (t # p) hpos = (case t of
       MATCH \<Rightarrow> (let (herr, rerr, ralign) = path_arrays p (hpos + 1) in (False # herr, False # rerr, (hpos + 1) # ralign))
     | SUBSTITUTION \<Rightarrow> (let (herr, rerr, ralign) = path_arrays p (hpos + 1) in (True # herr, True # rerr, (hpos + 1) # ralign))
     | INSERTION \<Rightarrow> (let (herr, rerr, ralign) = path_arrays p (hpos + 1) in (True # herr, rerr, ralign))
     | DELETION \<Rightarrow> (let (herr, rerr, ralign) = path_arrays p hpos in (herr, True # rerr, hpos # ralign)))"

record best_shift =
  bs_newerr :: int
  bs_cost :: int
  bs_hyp :: "int list"
  bs_path :: "TransType list"
  bs_res :: bool

definition try_shift :: "int list \<Rightarrow> int list \<Rightarrow> int list \<Rightarrow> int \<Rightarrow> int \<Rightarrow> shift \<Rightarrow> best_shift \<Rightarrow> best_shift option" where
  "try_shift ref cur ralign curerr i s b = do {
     let curfix = curerr - (bs_cost b + bs_newerr b);
     let maxfix = 2 * (1 + i) - 1;
     if maxfix < curfix \<or> (bs_cost b = 0 \<and> curfix = maxfix) then Some b
     else do {
       moveto \<leftarrow> vat ralign (shift_moveto s);
       shifted \<leftarrow> PerformShift cur (shift_begin s) (shift_end s) moveto;
       (try_cost, try_path) \<leftarrow> MinimumEditDistance shifted ref;
       let gain = (bs_newerr b + bs_cost b) - (try_cost + 1);
       Some (if 0 < gain \<or> (bs_cost b = 0 \<and> gain = 0)
         then \<lparr>bs_newerr = try_cost, bs_cost = 1, bs_hyp = shifted, bs_path = try_path, bs_res = True\<rparr> else b) } }"

definition CalculateBestShift :: "int list \<Rightarrow> ngram_positions \<Rightarrow> int list \<Rightarrow> int \<Rightarrow> TransType list \<Rightarrow> best_shift option" where
  "CalculateBestShift ref nmap cur curerr path = do {
     let (herr, rerr, ralign) = path_arrays path (-1);
     shifts \<leftarrow> GetAllPossibleShifts nmap cur ralign herr rerr 1 (replicate 11 []);
     for_break (rev (positions shifts)) (\<lambda>i b. do {
       let curfix = curerr - (bs_cost b + bs_newerr b);
       let maxfix = 2 * (1 + i) - 1;
       if maxfix < curfix \<or> (bs_cost b = 0 \<and> curfix = maxfix) then Some (b, False)
       else do {
         ss \<leftarrow> vat shifts i;
         map_option (\<lambda>b. (b, True)) (for_each ss (try_shift ref cur ralign curerr i) b) } })
       \<lparr>bs_newerr = curerr, bs_cost = 0, bs_hyp = [], bs_path = [], bs_res = False\<rparr> }"

partial_function (option) shift_loop :: "int list \<Rightarrow> ngram_positions \<Rightarrow> int list \<Rightarrow> int \<Rightarrow> TransType list \<Rightarrow> int \<Rightarrow> int \<Rightarrow>
    (int \<times> TransType list \<times> int \<times> int) option" where
  "shift_loop ref nmap cur med_cost path edits shifts = do {
     b \<leftarrow> CalculateBestShift ref nmap cur med_cost path;
     if \<not> bs_res b then Some (med_cost, path, edits, shifts)
     else shift_loop ref nmap (bs_hyp b) (bs_newerr b) (bs_path b) (edits + 1) (shifts + 1) }"

declare shift_loop.simps [code]

fun GetPathStats :: "TransType list \<Rightarrow> int \<times> int \<times> int" where
  "GetPathStats [] = (0, 0, 0)"
| "GetPathStats (t # p) = (let (subs, ins, dels) = GetPathStats p in
     case t of SUBSTITUTION \<Rightarrow> (subs + 1, ins, dels) | MATCH \<Rightarrow> (subs, ins, dels) | INSERTION \<Rightarrow> (subs, ins + 1, dels) | DELETION \<Rightarrow> (subs, ins, dels + 1))"

text \<open>The score, substitutions, insertions, deletions and shifts.\<close>

definition CalculateAllShifts :: "int list \<Rightarrow> int list \<Rightarrow> (int \<times> int \<times> int \<times> int \<times> int) option" where
  "CalculateAllShifts ref hyp = do {
     nmap \<leftarrow> BuildWordMatches ref hyp;
     (med_cost, path) \<leftarrow> MinimumEditDistance hyp ref;
     (med_cost, path, edits, shifts) \<leftarrow> shift_loop ref nmap hyp med_cost path 0 0;
     let (subs, ins, dels) = GetPathStats path;
     Some (med_cost + edits, subs, ins, dels, shifts) }"

section \<open>Scores\<close>

text \<open>
  Insertions, deletions, substitutions, shifts and the number of words of the reference. \<open>None\<close> for the
  best score so far is the greatest \<open>float\<close>.
\<close>

definition TER_best :: "int \<Rightarrow> int list list \<Rightarrow> int list \<Rightarrow> int list \<Rightarrow> int list option" where
  "TER_best avg_len refs hyp stats = map_option fst (for_each refs (\<lambda>ref (stats, best_score). do {
     (score, subs, ins, dels, shifts) \<leftarrow> CalculateAllShifts ref hyp;
     Some (if (case best_score of None \<Rightarrow> True | Some b \<Rightarrow> score < b) then ([ins, dels, subs, shifts, avg_len], Some score)
       else (stats, best_score)) }) (stats, None))"

definition TER_ScoreCandidate :: "int list list \<Rightarrow> int list \<Rightarrow> int list option" where
  "TER_ScoreCandidate refs hyp = do {
     let avg_len = fold (\<lambda>r n. n + vsize r) refs 0;
     check (refs \<noteq> []);
     TER_best (avg_len div vsize refs) refs hyp (replicate 5 0) }"

definition TER_statistics :: "int list \<Rightarrow> int list list \<Rightarrow> int list \<Rightarrow> int list option" where
  "TER_statistics hyp refs flds = do {
     let flds = resize_fields 5 flds;
     let avg_len = fold (\<lambda>r n. n + vsize r) refs 0;
     check (refs \<noteq> []);
     TER_best (avg_len div vsize refs) refs hyp flds }"

definition TER_PlusEquals :: "int list \<Rightarrow> int list \<Rightarrow> int list" where
  "TER_PlusEquals stats delta = map2 (+) stats delta"

text \<open>The scaled sum ends in a \<open>throw\<close> on every path.\<close>

definition TER_PlusEquals_scaled :: "int list \<Rightarrow> int list \<Rightarrow> int \<Rightarrow> int list option" where
  "TER_PlusEquals_scaled stats delta scale = (let stats = (if scale = 1 then map2 (+) stats delta else stats);
     stats = (if scale = -1 then map2 (-) stats delta else stats) in None)"

definition TER_Subtract :: "int list \<Rightarrow> int list \<Rightarrow> int list" where
  "TER_Subtract stats rhs = map2 (-) stats rhs"

definition TER_ComputeScore :: "('d, 'z) floats_scheme \<Rightarrow> int list \<Rightarrow> 'd" where
  "TER_ComputeScore fl stats = fl_div fl (fl_of_int fl (stats ! 0 + stats ! 1 + stats ! 2 + stats ! 3)) (fl_of_int fl (stats ! 4))"

definition TER_IsAdditiveIdentity :: "int list \<Rightarrow> bool" where
  "TER_IsAdditiveIdentity stats = (\<forall>i < 5. stats ! i = 0)"

section \<open>The packed shift\<close>

lemma shift_masks: "0x3ff = (mask 10 :: shift)" "0x7ff = (mask 11 :: shift)" "0xfffff = (mask 20 :: shift)"
  "0xfffffc00 = NOT (mask 10 :: shift)" "0xfff003ff = NOT (push_bit 10 (mask 10 :: shift))"
  by (simp_all add: mask_eq_exp_minus_1)

lemma shift_bits:
  "((d AND 0xfffff) OR push_bit 20 x) AND 0x3ff = d AND (0x3ff :: shift)"
  "drop_bit 10 ((d AND 0xfffff) OR push_bit 20 x) AND 0x3ff = drop_bit 10 d AND (0x3ff :: shift)"
  "drop_bit 20 ((d AND 0xfffff) OR push_bit 20 (x AND 0x7ff)) AND 0x7ff = x AND (0x7ff :: shift)"
  "((d AND 0xfff003ff) OR push_bit 10 (x AND 0x3ff)) AND 0x3ff = d AND (0x3ff :: shift)"
  "drop_bit 10 ((d AND 0xfff003ff) OR push_bit 10 (x AND 0x3ff)) AND 0x3ff = x AND (0x3ff :: shift)"
  "((d AND 0xfffffc00) OR (x AND 0x3ff)) AND 0x3ff = x AND (0x3ff :: shift)"
  unfolding shift_masks by (rule bit_word_eqI, auto simp: bit_simps)+

lemma shift_field:
  "uint (word_of_int b AND (0x3ff :: shift)) = b mod 1024" "uint (word_of_int b AND (0x7ff :: shift)) = b mod 2048"
proof -
  have "uint (take_bit n (word_of_int b :: shift)) = b mod 2 ^ n" if "n \<le> 32" for n
    using that by (simp add: unsigned_take_bit_eq unsigned_of_int min_absorb1) (simp add: take_bit_eq_mod)
  from this [of 10] this [of 11] show "uint (word_of_int b AND (0x3ff :: shift)) = b mod 1024" "uint (word_of_int b AND (0x7ff :: shift)) = b mod 2048"
    unfolding shift_masks take_bit_eq_mask [symmetric] by simp_all
qed

lemma Shift_decode:
  assumes "0 \<le> b" "b < 1024" "0 \<le> e" "e < 1024" "-1024 < m" "m \<le> 1024"
  shows "shift_begin (Shift b e m) = b \<and> shift_end (Shift b e m) = e \<and> shift_moveto (Shift b e m) = m"
  unfolding Shift_def shift_begin_def shift_end_def shift_moveto_def set_begin_def set_end_def set_moveto_def Let_def shift_bits shift_field
  using assms by (simp add: mod_pos_pos_trivial)

section \<open>The table and the path\<close>

definition shape :: "'a list list \<Rightarrow> nat \<Rightarrow> nat \<Rightarrow> bool" where
  "shape M a b \<longleftrightarrow> length M = a \<and> (\<forall>i < a. length (M ! i) = b)"

lemma mat_get_eq: "shape M a b \<Longrightarrow> i < a \<Longrightarrow> j < b \<Longrightarrow> mat_get M (int i) (int j) = Some (M ! i ! j)"
  by (simp add: shape_def mat_get_def)

lemma mat_set_eq: "shape M a b \<Longrightarrow> i < a \<Longrightarrow> j < b \<Longrightarrow> mat_set M (int i) (int j) v = Some (M[i := (M ! i)[j := v]])"
  by (simp add: shape_def mat_set_def)

lemma shape_set: "shape M a b \<Longrightarrow> shape (M[i := (M ! i)[j := v]]) a b"
  by (cases "i < length M") (auto simp: shape_def nth_list_update)

lemma set_nth: "shape M a b \<Longrightarrow> i < a \<Longrightarrow> j < b \<Longrightarrow> M[i := (M ! i)[j := v]] ! i' ! j' = (if i' = i \<and> j' = j then v else M ! i' ! j')"
  by (auto simp: shape_def nth_list_update)

definition step_ok :: "int list \<Rightarrow> int list \<Rightarrow> nat \<Rightarrow> nat \<Rightarrow> TransType \<Rightarrow> bool" where
  "step_ok hyp ref i j t = (case t of
     MATCH \<Rightarrow> hyp ! (i - 1) = ref ! (j - 1) \<and> edist hyp ref i j = edist hyp ref (i - 1) (j - 1)
   | SUBSTITUTION \<Rightarrow> edist hyp ref i j = Suc (edist hyp ref (i - 1) (j - 1))
   | INSERTION \<Rightarrow> edist hyp ref i j = Suc (edist hyp ref (i - 1) j)
   | DELETION \<Rightarrow> edist hyp ref i j = Suc (edist hyp ref i (j - 1)))"

text \<open>The cells filled before cell \<open>(k, l)\<close>, and what they hold.\<close>

definition filled :: "nat \<Rightarrow> nat \<Rightarrow> nat \<Rightarrow> nat \<Rightarrow> bool" where
  "filled k l i j \<longleftrightarrow> i = 0 \<or> j = 0 \<or> i < k \<or> (i = k \<and> j < l)"

definition table :: "int list \<Rightarrow> int list \<Rightarrow> nat \<Rightarrow> nat \<Rightarrow> TransType list list \<Rightarrow> int list list \<Rightarrow> bool" where
  "table hyp ref k l bmat cmat \<longleftrightarrow> shape bmat (length hyp + 1) (length ref + 1) \<and> shape cmat (length hyp + 1) (length ref + 1) \<and>
     (\<forall>i \<le> length hyp. \<forall>j \<le> length ref. filled k l i j \<longrightarrow>
        cmat ! i ! j = int (edist hyp ref i j) \<and> (0 < i \<longrightarrow> 0 < j \<longrightarrow> step_ok hyp ref i j (bmat ! i ! j)))"

lemma edist_0: "edist xs ys i 0 = i" "edist xs ys 0 j = j"
  by (cases i, simp_all)

lemma med_cell_table:
  assumes t: "table hyp ref k l bmat cmat" and k: "0 < k" "k \<le> length hyp" and l: "0 < l" "l \<le> length ref"
  shows "\<exists>bmat' cmat'. med_cell hyp ref (int k) (int l) (bmat, cmat) = Some (bmat', cmat') \<and> table hyp ref k (Suc l) bmat' cmat'"
proof -
  obtain i j where ij: "k = Suc i" "l = Suc j" using k l by (cases k; cases l) auto
  have sh: "shape bmat (length hyp + 1) (length ref + 1)" "shape cmat (length hyp + 1) (length ref + 1)" using t by (simp_all add: table_def)
  have cell: "mat_get cmat (int i') (int j') = Some (int (edist hyp ref i' j'))" if "i' \<le> length hyp" "j' \<le> length ref" "filled k l i' j'" for i' j'
    using mat_get_eq [OF sh(2), of i' j'] that t by (simp add: table_def)
  have reads: "mat_get cmat (int i) (int j) = Some (int (edist hyp ref i j))" "mat_get cmat (int i) (int l) = Some (int (edist hyp ref i l))"
    "mat_get cmat (int k) (int j) = Some (int (edist hyp ref k j))"
    using cell [of i j] cell [of i l] cell [of k j] k l ij by (simp_all add: filled_def)
  have words: "vat hyp (int i) = Some (hyp ! i)" "vat ref (int j) = Some (ref ! j)" using k l ij by simp_all
  let ?c = "int (edist hyp ref k l)"
  have "\<exists>b. step_ok hyp ref k l b \<and> med_cell hyp ref (int k) (int l) (bmat, cmat) =
      do { bmat \<leftarrow> mat_set bmat (int k) (int l) b; cmat \<leftarrow> mat_set cmat (int k) (int l) ?c; Some (bmat, cmat) }"
  proof -
    have sub: "int k - 1 = int i" "int l - 1 = int j" using ij by simp_all
    let ?d = "edist hyp ref i j" and ?u = "edist hyp ref i l" and ?v = "edist hyp ref k j" and ?eq = "ref ! j = hyp ! i"
    let ?c0 = "if ?eq then ?d else Suc ?d"
    let ?c1 = "if Suc ?u < ?c0 then Suc ?u else ?c0"
    let ?c2 = "if Suc ?v < ?c1 then Suc ?v else ?c1"
    let ?b0 = "if ?eq then MATCH else SUBSTITUTION"
    let ?b1 = "if Suc ?u < ?c0 then INSERTION else ?b0"
    let ?b2 = "if Suc ?v < ?c1 then DELETION else ?b1"
    have c2: "edist hyp ref k l = ?c2" unfolding ij edist.simps by (auto simp: min_def)
    have run: "med_cell hyp ref (int k) (int l) (bmat, cmat) =
      do { bmat \<leftarrow> mat_set bmat (int k) (int l) ?b2; cmat \<leftarrow> mat_set cmat (int k) (int l) (int ?c2); Some (bmat, cmat) }"
      by (auto simp: med_cell_def sub reads words add.commute)
    have "step_ok hyp ref k l ?b2" unfolding step_ok_def c2 using ij by auto
    then show ?thesis using run c2 by auto
  qed
  then obtain b where b: "step_ok hyp ref k l b" and run: "med_cell hyp ref (int k) (int l) (bmat, cmat) =
      do { bmat \<leftarrow> mat_set bmat (int k) (int l) b; cmat \<leftarrow> mat_set cmat (int k) (int l) ?c; Some (bmat, cmat) }" by blast
  have kl: "k < length hyp + 1" "l < length ref + 1" using k l by simp_all
  have run2: "med_cell hyp ref (int k) (int l) (bmat, cmat) = Some (bmat[k := (bmat ! k)[l := b]], cmat[k := (cmat ! k)[l := ?c]])"
    unfolding run mat_set_eq [OF sh(1) kl] mat_set_eq [OF sh(2) kl] by simp
  have "table hyp ref k (Suc l) (bmat[k := (bmat ! k)[l := b]]) (cmat[k := (cmat ! k)[l := ?c]])"
    unfolding table_def set_nth [OF sh(1) kl] set_nth [OF sh(2) kl]
    using shape_set [OF sh(1)] shape_set [OF sh(2)] t b by (auto simp: table_def filled_def less_Suc_eq)
  then show ?thesis using run2 by blast
qed

lemma trace_back_eqs:
  "trace_back bmat 0 0 path = Some path"
  "0 < i \<Longrightarrow> trace_back bmat i 0 path = trace_back bmat (i - 1) 0 (path @ [INSERTION])"
  "0 < j \<Longrightarrow> trace_back bmat 0 j path = trace_back bmat 0 (j - 1) (path @ [DELETION])"
  "0 < i \<Longrightarrow> 0 < j \<Longrightarrow> mat_get bmat (int i) (int j) = Some t \<Longrightarrow> trace_back bmat i j path = (case t of
       SUBSTITUTION \<Rightarrow> trace_back bmat (i - 1) (j - 1) (path @ [t])
     | MATCH \<Rightarrow> trace_back bmat (i - 1) (j - 1) (path @ [t])
     | INSERTION \<Rightarrow> trace_back bmat (i - 1) j (path @ [t])
     | DELETION \<Rightarrow> trace_back bmat i (j - 1) (path @ [t]))"
  by (subst trace_back.simps, simp)+

lemma trace_back_path:
  assumes t: "table hyp ref k l bmat cmat"
  shows "i \<le> length hyp \<Longrightarrow> j \<le> length ref \<Longrightarrow> (\<And>i' j'. i' \<le> i \<Longrightarrow> j' \<le> j \<Longrightarrow> filled k l i' j') \<Longrightarrow>
    \<exists>q. trace_back bmat i j path = Some (path @ q) \<and> edit_path (rev q) (take i hyp) (take j ref) \<and> path_cost (rev q) = edist hyp ref i j"
proof (induction "i + j" arbitrary: i j path rule: less_induct)
  case less
  have sh: "shape bmat (length hyp + 1) (length ref + 1)" using t by (simp add: table_def)
  have step: "\<exists>q. trace_back bmat i j path = Some (path @ q) \<and> edit_path (rev q) (take i hyp) (take j ref) \<and> path_cost (rev q) = edist hyp ref i j"
    if run: "trace_back bmat i j path = trace_back bmat i' j' (path @ [u])" and le: "i' \<le> i" "j' \<le> j" "i' + j' < i + j"
      and path: "\<And>q. edit_path q (take i' hyp) (take j' ref) \<Longrightarrow> edit_path (q @ [u]) (take i hyp) (take j ref)"
      and cost: "edist hyp ref i j = edist hyp ref i' j' + (if u = MATCH then 0 else 1)" for i' j' u
  proof -
    have "i' \<le> length hyp" "j' \<le> length ref" using le less.prems(1,2) by linarith+
    moreover have "filled k l i'' j''" if "i'' \<le> i'" "j'' \<le> j'" for i'' j''
      by (rule less.prems(3)) (use that le in linarith)+
    ultimately obtain q where q: "trace_back bmat i' j' (path @ [u]) = Some ((path @ [u]) @ q)"
      "edit_path (rev q) (take i' hyp) (take j' ref)" "path_cost (rev q) = edist hyp ref i' j'"
      using less.hyps [OF le(3), of "path @ [u]"] by blast
    show ?thesis using run q path [OF q(2)] cost by (intro exI [of _ "u # q"]) simp
  qed
  consider "i = 0" "j = 0" | "0 < i" "j = 0" | "i = 0" "0 < j" | "0 < i" "0 < j" by linarith
  then show ?case
  proof cases
    case 1
    then show ?thesis by (simp add: trace_back_eqs edist_0)
  next
    case 2
    have "take i hyp \<noteq> []" "butlast (take i hyp) = take (i - 1) hyp" using 2 less.prems by (auto simp: butlast_take)
    then show ?thesis
      by (intro step [of "i - 1" j INSERTION]) (use 2 in \<open>simp_all add: trace_back_eqs edit_path_snoc edist_0\<close>)
  next
    case 3
    have "take j ref \<noteq> []" "butlast (take j ref) = take (j - 1) ref" using 3 less.prems by (auto simp: butlast_take)
    then show ?thesis
      by (intro step [of i "j - 1" DELETION]) (use 3 in \<open>simp_all add: trace_back_eqs edit_path_snoc edist_0\<close>)
  next
    case 4
    let ?t = "bmat ! i ! j"
    have run: "trace_back bmat i j path = (case ?t of
         SUBSTITUTION \<Rightarrow> trace_back bmat (i - 1) (j - 1) (path @ [?t])
       | MATCH \<Rightarrow> trace_back bmat (i - 1) (j - 1) (path @ [?t])
       | INSERTION \<Rightarrow> trace_back bmat (i - 1) j (path @ [?t])
       | DELETION \<Rightarrow> trace_back bmat i (j - 1) (path @ [?t]))"
      using trace_back_eqs(4) [OF 4] mat_get_eq [OF sh] less.prems by simp
    have ok: "step_ok hyp ref i j ?t" using t less.prems(1,2) less.prems(3) [of i j] 4 by (simp add: table_def)
    have nonempty: "take i hyp \<noteq> []" "take j ref \<noteq> []" and bl: "butlast (take i hyp) = take (i - 1) hyp" "butlast (take j ref) = take (j - 1) ref"
      and la: "last (take i hyp) = hyp ! (i - 1)" "last (take j ref) = ref ! (j - 1)"
      using 4 less.prems(1,2) take_Suc_last [of "i - 1" hyp] take_Suc_last [of "j - 1" ref] by auto
    show ?thesis
    proof (cases ?t)
      case MATCH
      show ?thesis by (rule step [of "i - 1" "j - 1" MATCH]) (use MATCH run ok 4 nonempty bl la in \<open>simp_all add: edit_path_snoc step_ok_def\<close>)
    next
      case SUBSTITUTION
      show ?thesis by (rule step [of "i - 1" "j - 1" SUBSTITUTION]) (use SUBSTITUTION run ok 4 nonempty bl la in \<open>simp_all add: edit_path_snoc step_ok_def\<close>)
    next
      case INSERTION
      show ?thesis by (rule step [of "i - 1" j INSERTION]) (use INSERTION run ok 4 nonempty bl la in \<open>simp_all add: edit_path_snoc step_ok_def\<close>)
    next
      case DELETION
      show ?thesis by (rule step [of i "j - 1" DELETION]) (use DELETION run ok 4 nonempty bl la in \<open>simp_all add: edit_path_snoc step_ok_def\<close>)
    qed
  qed
qed

lemma MinimumEditDistance_path:
  "\<exists>path. MinimumEditDistance hyp ref = Some (int (edit_distance hyp ref), path) \<and> edit_path path hyp ref \<and> path_cost path = edit_distance hyp ref"
proof -
  let ?m = "length hyp" and ?n = "length ref"
  let ?b0 = "replicate (?m + 1) (replicate (?n + 1) MATCH)" and ?c0 = "replicate (?m + 1) (replicate (?n + 1) (0 :: int))"
  have sh: "shape ?b0 (?m + 1) (?n + 1)" "shape ?c0 (?m + 1) (?n + 1)" by (simp_all add: shape_def nth_Cons split: nat.split)
  let ?I = "\<lambda>(i :: int) c. shape c (?m + 1) (?n + 1) \<and> (\<forall>k \<le> ?m. int k < i \<longrightarrow> c ! k ! 0 = int k)"
  have "\<exists>c. for_each (int_range 0 (int ?m + 1)) (\<lambda>i cmat. mat_set cmat i 0 i) ?c0 = Some c \<and> ?I (int ?m + 1) c"
  proof (rule for_range_total [where I = ?I])
    fix i c assume i: "0 \<le> i" "i < int ?m + 1" and I: "?I i c"
    obtain k where k: "i = int k" "k < ?m + 1" using i by (metis nonneg_int_cases of_nat_1 of_nat_add of_nat_less_iff)
    have "?I (i + 1) (c[k := (c ! k)[0 := i]])" using I k shape_set [of c "?m + 1" "?n + 1"] set_nth [of c "?m + 1" "?n + 1" k 0] by auto
    then show "\<exists>s'. mat_set c i 0 i = Some s' \<and> ?I (i + 1) s'"
      using mat_set_eq [of c "?m + 1" "?n + 1" k 0] I k by auto
  qed (use sh in auto)
  then obtain c1 where run1: "for_each (int_range 0 (int ?m + 1)) (\<lambda>i cmat. mat_set cmat i 0 i) ?c0 = Some c1"
    and c1: "shape c1 (?m + 1) (?n + 1)" "\<forall>k \<le> ?m. c1 ! k ! 0 = int k" by auto
  let ?J = "\<lambda>(j :: int) c. shape c (?m + 1) (?n + 1) \<and> (\<forall>k \<le> ?m. c ! k ! 0 = int k) \<and> (\<forall>k \<le> ?n. int k < j \<longrightarrow> c ! 0 ! k = int k)"
  have "\<exists>c. for_each (int_range 0 (int ?n + 1)) (\<lambda>j cmat. mat_set cmat 0 j j) c1 = Some c \<and> ?J (int ?n + 1) c"
  proof (rule for_range_total [where I = ?J])
    fix j c assume j: "0 \<le> j" "j < int ?n + 1" and J: "?J j c"
    obtain k where k: "j = int k" "k < ?n + 1" using j by (metis nonneg_int_cases of_nat_1 of_nat_add of_nat_less_iff)
    have "?J (j + 1) (c[0 := (c ! 0)[k := j]])"
      using J k shape_set [of c "?m + 1" "?n + 1"] set_nth [of c "?m + 1" "?n + 1" 0 k] by auto
    then show "\<exists>s'. mat_set c 0 j j = Some s' \<and> ?J (j + 1) s'"
      using mat_set_eq [of c "?m + 1" "?n + 1" 0 k] J k by auto
  qed (use c1 in auto)
  then obtain c2 where run2: "for_each (int_range 0 (int ?n + 1)) (\<lambda>j cmat. mat_set cmat 0 j j) c1 = Some c2"
    and c2: "shape c2 (?m + 1) (?n + 1)" "\<forall>k \<le> ?m. c2 ! k ! 0 = int k" "\<forall>k \<le> ?n. c2 ! 0 ! k = int k" by auto
  have t0: "table hyp ref 1 1 ?b0 c2" using sh c2 by (auto simp: table_def filled_def edist_0)
  have next_row: "table hyp ref (Suc k) 1 b c" if "table hyp ref k (?n + 1) b c" "0 < k" for k b c
  proof -
    have "filled k (?n + 1) i j" if "filled (Suc k) 1 i j" "j \<le> ?n" for i j using that by (auto simp: filled_def)
    then show ?thesis using that unfolding table_def by blast
  qed
  let ?row = "\<lambda>i s. for_each (int_range 1 (int ?n + 1)) (\<lambda>j s. med_cell hyp ref i j s) s"
  have row: "\<exists>b' c'. ?row (int k) (b, c) = Some (b', c') \<and> table hyp ref k (?n + 1) b' c'" if t: "table hyp ref k 1 b c" "0 < k" "k \<le> ?m" for k b c
  proof -
    let ?K = "\<lambda>(j :: int) (b, c). table hyp ref k (nat j) b c"
    have "\<exists>s. ?row (int k) (b, c) = Some s \<and> ?K (int ?n + 1) s"
    proof (rule for_range_total [where I = ?K])
      fix j :: int and s assume j: "1 \<le> j" "j < int ?n + 1" and K: "?K j s"
      obtain b c where s: "s = (b, c)" by (cases s)
      have "\<exists>b' c'. med_cell hyp ref (int k) (int (nat j)) (b, c) = Some (b', c') \<and> table hyp ref k (Suc (nat j)) b' c'"
        by (rule med_cell_table) (use K s t j in auto)
      moreover have "Suc (nat j) = nat (j + 1)" "int (nat j) = j" using j by simp_all
      ultimately show "\<exists>s'. med_cell hyp ref (int k) j s = Some s' \<and> ?K (j + 1) s'" unfolding s by force
    qed (use t in auto)
    then show ?thesis by (auto simp: nat_add_distrib)
  qed
  let ?L = "\<lambda>(i :: int) (b, c). table hyp ref (nat i) 1 b c"
  have "\<exists>s. for_each (int_range 1 (int ?m + 1)) ?row (?b0, c2) = Some s \<and> ?L (int ?m + 1) s"
  proof (rule for_range_total [where I = ?L])
    fix i :: int and s assume i: "1 \<le> i" "i < int ?m + 1" and L: "?L i s"
    obtain b c where s: "s = (b, c)" by (cases s)
    obtain b' c' where "?row (int (nat i)) (b, c) = Some (b', c')" "table hyp ref (nat i) (?n + 1) b' c'"
      using row [of "nat i" b c] L s i by (auto simp: nat_le_iff)
    moreover have "Suc (nat i) = nat (i + 1)" "int (nat i) = i" using i by simp_all
    ultimately show "\<exists>s'. ?row i s = Some s' \<and> ?L (i + 1) s'" using next_row [of "nat i" b' c'] i unfolding s by force
  qed (use t0 in auto)
  then obtain b c where run3: "for_each (int_range 1 (int ?m + 1)) ?row (?b0, c2) = Some (b, c)" and t: "table hyp ref (?m + 1) 1 b c"
    by (auto simp: nat_add_distrib)
  obtain q where q: "trace_back b ?m ?n [] = Some q" "edit_path (rev q) hyp ref" "path_cost (rev q) = edist hyp ref ?m ?n"
    using trace_back_path [OF t, of ?m ?n "[]"] by (auto simp: filled_def)
  have "mat_get c (int ?m) (int ?n) = Some (int (edist hyp ref ?m ?n))"
    using mat_get_eq [of c "?m + 1" "?n + 1" ?m ?n] t by (simp add: table_def filled_def)
  then show ?thesis
    using run1 run2 run3 q by (simp add: MinimumEditDistance_def vsize_def edist_edit_distance del: replicate_Suc)
qed

lemma GetPathStats_cost: "GetPathStats path = (s, i, d) \<Longrightarrow> s + i + d = int (path_cost path) \<and> 0 \<le> s \<and> 0 \<le> i \<and> 0 \<le> d"
proof (induction path arbitrary: s i d)
  case (Cons t p)
  obtain s' i' d' where p: "GetPathStats p = (s', i', d')" by (cases "GetPathStats p") auto
  show ?case using Cons.IH [OF p] Cons.prems p by (cases t) auto
qed simp

section \<open>Shifting is safe\<close>

lemma copy_words_eq:
  assumes "0 \<le> lo" "hi \<le> vsize xs"
  shows "copy_words xs lo hi out = Some (out @ map (\<lambda>i. xs ! nat i) (int_range lo hi))"
proof -
  have "for_each is (\<lambda>i out. do { w \<leftarrow> vat xs i; Some (out @ [w]) }) out = Some (out @ map (\<lambda>i. xs ! nat i) is)"
    if "\<And>i. i \<in> set is \<Longrightarrow> 0 \<le> i \<and> i < vsize xs" for "is" out
    using that by (induction "is" arbitrary: out) (auto simp: vat_eq vsize_def)
  from this [of "int_range lo hi"] assms show ?thesis by (auto simp: copy_words_def)
qed

lemma mset_int_range_split: "lo \<le> mid \<Longrightarrow> mid \<le> hi \<Longrightarrow> mset (int_range lo hi) = mset (int_range lo mid) + mset (int_range mid hi)"
  using int_range_append [of lo mid hi] by simp

lemma map_positions: "map (\<lambda>i. xs ! nat i) (positions xs) = xs"
  by (rule nth_equalityI) (simp_all add: vsize_def)

text \<open>A block move exchanges two neighbouring blocks of words; it rearranges the sentence.\<close>

definition block_move :: "int list \<Rightarrow> int list \<Rightarrow> bool" where
  "block_move xs ys \<longleftrightarrow> (\<exists>us vs ws zs. vs \<noteq> [] \<and> ws \<noteq> [] \<and> xs = us @ vs @ ws @ zs \<and> ys = us @ ws @ vs @ zs)"

lemma block_move_length: "block_move xs ys \<Longrightarrow> length ys = length xs"
  by (auto simp: block_move_def)

lemma block_moves_mset: "(block_move ^^ k) xs ys \<Longrightarrow> mset ys = mset xs"
proof (induction k arbitrary: ys)
  case (Suc k)
  then obtain zs where zs: "(block_move ^^ k) xs zs" "block_move zs ys" by auto
  have "mset ys = mset zs" using zs(2) by (auto simp: block_move_def ac_simps)
  then show ?case using Suc.IH [OF zs(1)] by simp
qed simp

lemma exchange_blocks: "out = us @ ws @ vs @ zs \<Longrightarrow> xs = us @ vs @ ws @ zs \<Longrightarrow> out = xs \<or> block_move xs out"
  unfolding block_move_def by (cases "vs = [] \<or> ws = []") auto

text \<open>A shift of a range of a sentence to any place is a block move, or leaves it as it is; the assertion on the size holds.\<close>

lemma PerformShift_block:
  assumes "0 \<le> b" "b \<le> e" "e < vsize xs" "-1 \<le> m" "m < vsize xs"
  shows "\<exists>out. PerformShift xs b e m = Some out \<and> (out = xs \<or> block_move xs out)"
proof -
  let ?r = "\<lambda>lo hi. map (\<lambda>i. xs ! nat i) (int_range lo hi)" and ?n = "vsize xs"
  have join: "?r lo mid @ ?r mid hi = ?r lo hi" if "lo \<le> mid" "mid \<le> hi" for lo mid hi
    using int_range_append [OF that] by (metis map_append)
  have whole: "?r 0 ?n = xs" by (rule map_positions)
  have safe: "\<exists>out. PerformShift xs b e m = Some out \<and> (out = xs \<or> block_move xs out)"
    if run: "PerformShift xs b e m = do { check (vsize (us @ ws @ vs @ zs) = ?n); Some (us @ ws @ vs @ zs) }" and xs: "xs = us @ vs @ ws @ zs" for us vs ws zs
  proof -
    have "vsize (us @ ws @ vs @ zs) = ?n" by (subst xs) (simp add: vsize_def)
    with run exchange_blocks [OF refl xs] show ?thesis by (simp del: append_assoc)
  qed
  consider "m = -1" | "0 \<le> m" "m < b" | "e < m" | "b \<le> m" "m \<le> e" using assms by linarith
  then show ?thesis
  proof cases
    case 1
    have w: "[] @ ?r 0 b @ ?r b (e + 1) @ ?r (e + 1) ?n = xs" using assms by (simp add: join whole)
    show ?thesis by (rule safe [OF _ w [symmetric]]) (use 1 assms in \<open>simp add: PerformShift_def copy_words_eq Let_def\<close>)
  next
    case 2
    have w: "?r 0 (m + 1) @ ?r (m + 1) b @ ?r b (e + 1) @ ?r (e + 1) ?n = xs" using assms 2 by (simp add: join whole)
    show ?thesis by (rule safe [OF _ w [symmetric]]) (use 2 assms in \<open>simp add: PerformShift_def copy_words_eq Let_def\<close>)
  next
    case 3
    have w: "?r 0 b @ ?r b (e + 1) @ ?r (e + 1) (m + 1) @ ?r (m + 1) ?n = xs" using assms 3 by (simp add: join whole)
    show ?thesis by (rule safe [OF _ w [symmetric]]) (use 3 assms in \<open>simp add: PerformShift_def copy_words_eq Let_def\<close>)
  next
    case 4
    let ?k = "e + (m - b) + 1"
    have w: "?r 0 b @ ?r b (e + 1) @ ?r (e + 1) (min ?n ?k) @ ?r ?k ?n = xs"
    proof (cases "?k \<le> ?n")
      case True
      then show ?thesis using assms 4 by (simp add: join whole min_absorb2)
    next
      case False
      then show ?thesis using assms 4 by (simp add: join whole min_absorb1)
    qed
    show ?thesis by (rule safe [OF _ w [symmetric]]) (use 4 assms in \<open>simp add: PerformShift_def copy_words_eq Let_def\<close>)
  qed
qed

section \<open>The candidate shifts\<close>

text \<open>Every position recorded for an n-gram leaves room for it in the reference.\<close>

definition positions_fit :: "int list \<Rightarrow> ngram_positions \<Rightarrow> bool" where
  "positions_fit ref nmap \<longleftrightarrow> (\<forall>cp ms m. nmap cp = Some ms \<longrightarrow> m \<in> set ms \<longrightarrow> 0 \<le> m \<and> m + vsize cp \<le> vsize ref)"

lemma BuildWordMatches_fit: "\<exists>nmap. BuildWordMatches ref hyp = Some nmap \<and> positions_fit ref nmap"
proof -
  let ?both = "fold (\<lambda>w s. if w \<in> set ref then insert w s else s) hyp {}"
  let ?ngrams = "\<lambda>start len (cp, nmap :: ngram_positions). do {
     w \<leftarrow> vat ref (start + len);
     if len \<noteq> 0 \<and> w \<notin> ?both then Some ((cp, nmap), False)
     else let cp = cp @ [w]
       in Some ((cp, nmap(cp \<mapsto> insort_insert start (case nmap cp of None \<Rightarrow> [] | Some s \<Rightarrow> s))), True) }"
  have "\<exists>nmap. for_each (positions ref) (\<lambda>start nmap. do {
       first \<leftarrow> vat ref start;
       if first \<notin> ?both then Some nmap
       else map_option snd (for_break (int_range 0 (min 10 (vsize ref - start))) (?ngrams start) ([], nmap)) }) Map.empty = Some nmap \<and>
     positions_fit ref nmap"
  proof (rule for_each_runs)
    show "positions_fit ref Map.empty" by (simp add: positions_fit_def)
  next
    fix start and nmap :: ngram_positions
    assume "start \<in> set (positions ref)" and fit: "positions_fit ref nmap"
    then have st: "0 \<le> start" "start < vsize ref" by auto
    have "ensures (for_break (int_range 0 (min 10 (vsize ref - start))) (?ngrams start) ([], nmap)) (\<lambda>(cp, nmap). positions_fit ref nmap)"
    proof (rule ensures_break_range [where I = "\<lambda>len (cp, nmap). vsize cp = len \<and> positions_fit ref nmap"])
      fix len :: int and s :: "int list \<times> ngram_positions"
      assume len: "0 \<le> len" "len < min 10 (vsize ref - start)" and I: "case s of (cp, nmap) \<Rightarrow> vsize cp = len \<and> positions_fit ref nmap"
      obtain cp nm where s: "s = (cp, nm)" by (cases s)
      have w: "vat ref (start + len) = Some (ref ! nat (start + len))" using len st by (simp add: vat_eq vsize_def)
      let ?cp = "cp @ [ref ! nat (start + len)]"
      have "positions_fit ref (nm(?cp \<mapsto> insort_insert start (case nm ?cp of None \<Rightarrow> [] | Some s \<Rightarrow> s)))"
      proof -
        have "0 \<le> m \<and> m + vsize ?cp \<le> vsize ref" if "m \<in> set (insort_insert start (case nm ?cp of None \<Rightarrow> [] | Some s \<Rightarrow> s))" for m
        proof (cases "nm ?cp")
          case None
          then show ?thesis using that I len st by (simp add: s set_insort_insert)
        next
          case (Some ms)
          then have "m = start \<or> m \<in> set ms" using that by (auto simp: set_insort_insert)
          moreover have "m \<in> set ms \<Longrightarrow> 0 \<le> m \<and> m + vsize ?cp \<le> vsize ref" using I Some unfolding positions_fit_def s by blast
          ultimately show ?thesis using I len st by (auto simp: s)
        qed
        then show ?thesis using I unfolding positions_fit_def s by (simp del: vsize_simps) 
      qed
      then show "ensures (?ngrams start len s) (\<lambda>(s', go). if go then (case s' of (cp, nmap) \<Rightarrow> vsize cp = len + 1 \<and> positions_fit ref nmap)
          else (case s' of (cp, nmap) \<Rightarrow> positions_fit ref nmap))"
        using I by (simp add: s w wp Let_def)
    qed (use fit st in auto)
    then show "\<exists>s'. do {
       first \<leftarrow> vat ref start;
       if first \<notin> ?both then Some nmap
       else map_option snd (for_break (int_range 0 (min 10 (vsize ref - start))) (?ngrams start) ([], nmap)) } = Some s' \<and> positions_fit ref s'"
      using fit st by (auto simp: vat_eq vsize_def ensures_def)
  qed
  then show ?thesis by (simp add: BuildWordMatches_def Let_def)
qed

lemma any_flag_total: "0 \<le> lo \<Longrightarrow> hi \<le> vsize flags \<Longrightarrow> \<exists>b. any_flag flags lo hi = Some b"
proof (cases "lo \<le> hi")
  case True
  assume "0 \<le> lo" "hi \<le> vsize flags"
  with True have "ensures (any_flag flags lo hi) (\<lambda>_. True)"
    unfolding any_flag_def by (intro ensures_break_range [where I = "\<lambda>_ _. True"]) (auto simp: wp)
  then show ?thesis by (auto simp: ensures_def)
qed (auto simp: any_flag_def)

text \<open>The shifts collected move a range of the hypothesis to a position of the reference.\<close>

definition shift_fits :: "nat \<Rightarrow> nat \<Rightarrow> shift \<Rightarrow> bool" where
  "shift_fits n m s \<longleftrightarrow> (\<exists>b e t. s = Shift b e t \<and> 0 \<le> b \<and> b \<le> e \<and> e < int n \<and> 0 \<le> t \<and> t < int m)"

definition shifts_fit :: "nat \<Rightarrow> nat \<Rightarrow> shift list list \<Rightarrow> bool" where
  "shifts_fit n m shifts \<longleftrightarrow> length shifts = 11 \<and> (\<forall>ss \<in> set shifts. \<forall>s \<in> set ss. shift_fits n m s)"

lemma push_shift_fits:
  assumes "shifts_fit n m shifts" "0 \<le> k" "k < 11" "shift_fits n m s"
  shows "\<exists>shifts'. push_shift shifts k s = Some shifts' \<and> shifts_fit n m shifts'"
proof -
  have k: "nat k < length shifts" using assms by (auto simp: shifts_fit_def nat_less_iff)
  then have "push_shift shifts k s = Some (shifts[nat k := shifts ! nat k @ [s]])"
    using assms by (simp add: push_shift_def shifts_fit_def vat_eq vset_eq)
  moreover have "shifts_fit n m (shifts[nat k := shifts ! nat k @ [s]])"
    using assms nth_mem [OF k] set_update_subset_insert [of shifts "nat k" "shifts ! nat k @ [s]"] by (fastforce simp: shifts_fit_def)
  ultimately show ?thesis by blast
qed

lemma shifts_to_total:
  assumes b: "0 \<le> b" "b \<le> e" "e < int n" "e - b < 10" and m: "0 \<le> t" "t + (e - b) + 1 \<le> vsize rerr"
    and len: "length rerr = length ralign" and fit: "shifts_fit n (length ralign) shifts"
  shows "\<exists>ok shifts'. shifts_to ralign rerr b e t (ok0, shifts) = Some (ok, shifts') \<and> shifts_fit n (length ralign) shifts'"
proof -
  have rm: "vat ralign t = Some (ralign ! nat t)" using m b len by (simp add: vat_eq vsize_def)
  obtain any where any: "any_flag rerr t (t + (e - b) + 1) = Some any" using any_flag_total [of t "t + (e - b) + 1" rerr] m by auto
  have "\<exists>shifts'. for_each (int_range 0 (e - b + 1)) (\<lambda>roff shifts. do {
         rmr \<leftarrow> vat ralign (t + roff);
         if b \<noteq> rmr \<and> (roff = 0 \<or> rmr \<noteq> ralign ! nat t) then push_shift shifts (e - b) (Shift b e (t + roff))
         else Some shifts }) shifts = Some shifts' \<and> shifts_fit n (length ralign) shifts'"
  proof (rule for_each_runs [where P = "shifts_fit n (length ralign)"])
    show "shifts_fit n (length ralign) shifts" by fact
  next
    fix roff shifts assume r: "roff \<in> set (int_range 0 (e - b + 1))" and fit: "shifts_fit n (length ralign) shifts"
    have v: "vat ralign (t + roff) = Some (ralign ! nat (t + roff))" "t + roff < int (length ralign)" using r m len by (auto simp: vat_eq vsize_def)
    have "shift_fits n (length ralign) (Shift b e (t + roff))" unfolding shift_fits_def
      using r b m v(2) by (intro exI [of _ b] exI [of _ e] exI [of _ "t + roff"]) auto
    then show "\<exists>s'. do {
         rmr \<leftarrow> vat ralign (t + roff);
         if b \<noteq> rmr \<and> (roff = 0 \<or> rmr \<noteq> ralign ! nat t) then push_shift shifts (e - b) (Shift b e (t + roff))
         else Some shifts } = Some s' \<and> shifts_fit n (length ralign) s'"
      using push_shift_fits [OF fit, of "e - b"] b fit v(1) by auto
  qed
  then show ?thesis using rm any fit by (auto simp: shifts_to_def)
qed

lemma shifts_of_total:
  assumes nmap: "positions_fit ref nmap" and fit: "shifts_fit (length hyp) (length ralign) shifts"
    and len: "length rerr = length ralign" "length ralign = length ref" "length herr = length hyp"
    and b: "0 \<le> b" "b \<le> e" "e < vsize hyp" "e - b < 10" and cp: "vsize cp = e - b"
  shows "ensures (shifts_of nmap hyp ralign herr rerr b e (cp, shifts))
    (\<lambda>((cp', shifts'), go). shifts_fit (length hyp) (length ralign) shifts' \<and> vsize cp' = e + 1 - b)"
proof -
  let ?w = "hyp ! nat e" and ?cp = "cp @ [hyp ! nat e]"
  have w: "vat hyp e = Some ?w" using b by (simp add: vat_eq vsize_def)
  have row: "b \<le> e" "e - b < vsize shifts" using fit b by (simp_all add: shifts_fit_def vsize_def)
  obtain any where any: "any_flag herr b (e + 1) = Some any" using any_flag_total [of b "e + 1" herr] b len by (auto simp: vsize_def)
  have loop: "\<exists>s. for_each ms (shifts_to ralign rerr b e) (False, shifts) = Some s \<and> (case s of (ok, shifts') \<Rightarrow> shifts_fit (length hyp) (length ralign) shifts')"
    if ms: "nmap ?cp = Some ms" for ms
  proof (rule for_each_runs [where P = "\<lambda>(ok, shifts'). shifts_fit (length hyp) (length ralign) shifts'"])
    show "case (False, shifts) of (ok, shifts') \<Rightarrow> shifts_fit (length hyp) (length ralign) shifts'" using fit by simp
  next
    fix t and s :: "bool \<times> shift list list"
    assume t: "t \<in> set ms" and s: "case s of (ok, shifts') \<Rightarrow> shifts_fit (length hyp) (length ralign) shifts'"
    have "0 \<le> t \<and> t + vsize ?cp \<le> vsize ref" using nmap ms t unfolding positions_fit_def by blast
    then have "0 \<le> t" "t + (e - b) + 1 \<le> vsize rerr" using cp len by (simp_all add: vsize_def)
    then show "\<exists>s'. shifts_to ralign rerr b e t s = Some s' \<and> (case s' of (ok, shifts') \<Rightarrow> shifts_fit (length hyp) (length ralign) shifts')"
      using shifts_to_total [of b e "length hyp" t rerr ralign "snd s" "fst s"] s b len by (cases s) (auto simp: vsize_def)
  qed
  show ?thesis
  proof (cases "nmap ?cp")
    case None
    then show ?thesis using w row fit cp by (auto simp: shifts_of_def wp)
  next
    case (Some ms)
    then obtain ok shifts' where "for_each ms (shifts_to ralign rerr b e) (False, shifts) = Some (ok, shifts')"
      "shifts_fit (length hyp) (length ralign) shifts'"
      using loop [OF Some] by auto
    then show ?thesis using Some w row any fit cp by (auto simp: shifts_of_def wp Let_def)
  qed
qed

lemma GetAllPossibleShifts_total:
  assumes nmap: "positions_fit ref nmap"
    and len: "length rerr = length ralign" "length ralign = length ref" "length herr = length hyp"
  shows "\<exists>shifts. GetAllPossibleShifts nmap hyp ralign herr rerr 1 (replicate 11 []) = Some shifts \<and> shifts_fit (length hyp) (length ref) shifts"
proof -
  let ?F = "shifts_fit (length hyp) (length ralign)"
  let ?body = "\<lambda>start shifts. do {
     w \<leftarrow> vat hyp start;
     case nmap [w] of None \<Rightarrow> Some shifts
     | Some ms \<Rightarrow> do {
         ok \<leftarrow> for_break ms (\<lambda>moveto _. do {
           rm \<leftarrow> vat ralign moveto;
           let ok = (start \<noteq> rm \<and> rm - start < 50 \<and> start - rm - 1 < 50);
           Some (ok, \<not> ok) }) False;
         if \<not> ok then Some shifts
         else map_option snd (for_break (int_range (start + 1 - 1) (min (vsize hyp) (start + 10)))
           (shifts_of nmap hyp ralign herr rerr start) ([], shifts)) } }"
  have "\<exists>t. for_each (positions hyp) ?body (replicate 11 []) = Some t \<and> ?F t"
  proof (rule for_each_runs)
    show "?F (replicate 11 [])" by (auto simp: shifts_fit_def)
  next
    fix start shifts assume st: "start \<in> set (positions hyp)" and fit: "?F shifts"
    have w: "vat hyp start = Some (hyp ! nat start)" using st by (simp add: vat_eq vsize_def)
    have scan: "\<exists>ok. for_break ms (\<lambda>moveto _. do {
           rm \<leftarrow> vat ralign moveto;
           let ok = (start \<noteq> rm \<and> rm - start < 50 \<and> start - rm - 1 < 50);
           Some (ok, \<not> ok) }) ok0 = Some ok" if "\<forall>m \<in> set ms. 0 \<le> m \<and> m < vsize ralign" for ms ok0
      using that by (induction ms arbitrary: ok0) (auto simp: vat_eq vsize_def Let_def)
    have inner: "ensures (for_break (int_range start (min (vsize hyp) (start + 10))) (shifts_of nmap hyp ralign herr rerr start) ([], shifts)) (\<lambda>(cp, s). ?F s)"
    proof (rule ensures_break_range [where I = "\<lambda>e (cp, s). ?F s \<and> vsize cp = e - start"])
      fix e and s :: "int list \<times> shift list list"
      assume e: "start \<le> e" "e < min (vsize hyp) (start + 10)" and I: "case s of (cp, s) \<Rightarrow> ?F s \<and> vsize cp = e - start"
      obtain cp ss where s: "s = (cp, ss)" by (cases s)
      have "ensures (shifts_of nmap hyp ralign herr rerr start e (cp, ss)) (\<lambda>((cp', shifts'), go). ?F shifts' \<and> vsize cp' = e + 1 - start)"
        by (rule shifts_of_total [OF nmap _ len]) (use I s e st in auto)
      then show "ensures (shifts_of nmap hyp ralign herr rerr start e s) (\<lambda>(s', go). if go then (case s' of (cp, s) \<Rightarrow> ?F s \<and> vsize cp = e + 1 - start) else (case s' of (cp, s) \<Rightarrow> ?F s))"
        unfolding s by (rule ensures_mono) auto
    qed (use fit st in auto)
    show "\<exists>s'. ?body start shifts = Some s' \<and> ?F s'"
    proof (cases "nmap [hyp ! nat start]")
      case None
      then show ?thesis using w fit by simp
    next
      case (Some ms)
      have "\<forall>m \<in> set ms. 0 \<le> m \<and> m < vsize ralign"
        using nmap Some len unfolding positions_fit_def by (fastforce simp: vsize_def)
      then obtain ok where "for_break ms (\<lambda>moveto _. do {
           rm \<leftarrow> vat ralign moveto;
           let ok = (start \<noteq> rm \<and> rm - start < 50 \<and> start - rm - 1 < 50);
           Some (ok, \<not> ok) }) False = Some ok" using scan by blast
      then show ?thesis using w Some fit inner by (auto simp: ensures_def)
    qed
  qed
  then show ?thesis by (simp add: GetAllPossibleShifts_def len)
qed

section \<open>The search for shifts\<close>

lemma path_arrays_lengths:
  "edit_path p xs ys \<Longrightarrow> path_arrays p h = (herr, rerr, ralign) \<Longrightarrow>
    length herr = length xs \<and> length rerr = length ys \<and> length ralign = length ys \<and> (\<forall>r \<in> set ralign. h \<le> r \<and> r \<le> h + vsize xs)"
proof (induction p arbitrary: xs ys h herr rerr ralign)
  case (Cons t p)
  obtain he re ra where p1: "path_arrays p (h + 1) = (he, re, ra)" by (cases "path_arrays p (h + 1)") auto
  obtain he' re' ra' where p0: "path_arrays p h = (he', re', ra')" by (cases "path_arrays p h") auto
  show ?case
  proof (cases t)
    case MATCH
    then obtain x xs' ys' where "xs = x # xs'" "ys = x # ys'" "edit_path p xs' ys'" using Cons.prems by auto
    then show ?thesis using Cons.IH [OF _ p1] Cons.prems MATCH p1 by (fastforce simp: vsize_def)
  next
    case SUBSTITUTION
    then obtain x xs' y ys' where "xs = x # xs'" "ys = y # ys'" "edit_path p xs' ys'" using Cons.prems by auto
    then show ?thesis using Cons.IH [OF _ p1] Cons.prems SUBSTITUTION p1 by (fastforce simp: vsize_def)
  next
    case INSERTION
    then obtain x xs' where "xs = x # xs'" "edit_path p xs' ys" using Cons.prems by auto
    then show ?thesis using Cons.IH [OF _ p1] Cons.prems INSERTION p1 by (fastforce simp: vsize_def)
  next
    case DELETION
    then obtain y ys' where "ys = y # ys'" "edit_path p xs ys'" using Cons.prems by auto
    then show ?thesis using Cons.IH [OF _ p0] Cons.prems DELETION p0 by (fastforce simp: vsize_def)
  qed
qed simp

lemma try_shift_keeps:
  fixes b :: best_shift
  assumes err: "curerr = int (edit_distance cur ref)" and fits: "shift_fits (length cur) (length ref) s" and small: "length cur < 1024" "length ref \<le> 1024"
    and ra: "length ralign = length ref" "\<forall>r \<in> set ralign. -1 \<le> r \<and> r < vsize cur"
    and inv: "bs_res b \<longleftrightarrow> bs_cost b = 1" "bs_cost b \<in> {0, 1}" "\<not> bs_res b \<longrightarrow> bs_newerr b = curerr"
      "bs_res b \<longrightarrow> bs_newerr b \<le> curerr - 1 \<and> bs_newerr b = int (edit_distance (bs_hyp b) ref) \<and> block_move cur (bs_hyp b) \<and>
        edit_path (bs_path b) (bs_hyp b) ref \<and> path_cost (bs_path b) = edit_distance (bs_hyp b) ref"
  shows "\<exists>b'. try_shift ref cur ralign curerr i s b = Some b' \<and> (bs_res b' \<longleftrightarrow> bs_cost b' = 1) \<and> bs_cost b' \<in> {0, 1} \<and> (\<not> bs_res b' \<longrightarrow> bs_newerr b' = curerr) \<and>
    (bs_res b' \<longrightarrow> bs_newerr b' \<le> curerr - 1 \<and> bs_newerr b' = int (edit_distance (bs_hyp b') ref) \<and> block_move cur (bs_hyp b') \<and>
      edit_path (bs_path b') (bs_hyp b') ref \<and> path_cost (bs_path b') = edit_distance (bs_hyp b') ref)"
proof -
  obtain x e t where s: "s = Shift x e t" and r: "0 \<le> x" "x \<le> e" "e < vsize cur" "0 \<le> t" "t < vsize ref"
    using fits by (auto simp: shift_fits_def vsize_def)
  have dec: "shift_begin s = x" "shift_end s = e" "shift_moveto s = t"
    using Shift_decode [of x e t] r small unfolding s by (auto simp: vsize_def)
  have t: "nat t < length ralign" using r ra by (auto simp: vsize_def nat_less_iff)
  have m: "vat ralign t = Some (ralign ! nat t)" "-1 \<le> ralign ! nat t" "ralign ! nat t < vsize cur"
    using r ra nth_mem [OF t] by (auto simp: vat_eq vsize_def)
  obtain out where out: "PerformShift cur x e (ralign ! nat t) = Some out" "out = cur \<or> block_move cur out"
    using PerformShift_block [OF r(1-3) m(2,3)] by blast
  then have moved: "int (edit_distance out ref) < curerr \<Longrightarrow> block_move cur out" using err by auto
  obtain path where path: "MinimumEditDistance out ref = Some (int (edit_distance out ref), path)" "edit_path path out ref"
    "path_cost path = edit_distance out ref" using MinimumEditDistance_path by blast
  show ?thesis
    using inv out(1) moved path by (auto simp: try_shift_def dec m(1) Let_def)
qed

lemma CalculateBestShift_total:
  assumes err: "curerr = int (edit_distance cur ref)" and nmap: "positions_fit ref nmap" and path: "edit_path path cur ref" and small: "length cur < 1024" "length ref \<le> 1024"
  shows "\<exists>b. CalculateBestShift ref nmap cur curerr path = Some b \<and>
    (bs_res b \<longrightarrow> bs_newerr b \<le> curerr - 1 \<and> bs_newerr b = int (edit_distance (bs_hyp b) ref) \<and> block_move cur (bs_hyp b) \<and>
      edit_path (bs_path b) (bs_hyp b) ref \<and> path_cost (bs_path b) = edit_distance (bs_hyp b) ref)"
proof -
  obtain herr rerr ralign where pa: "path_arrays path (-1) = (herr, rerr, ralign)" by (cases "path_arrays path (-1)") auto
  have len: "length herr = length cur" "length rerr = length ref" "length ralign = length ref" "\<forall>r \<in> set ralign. -1 \<le> r \<and> r < vsize cur"
    using path_arrays_lengths [OF path pa] by auto
  obtain shifts where sh: "GetAllPossibleShifts nmap cur ralign herr rerr 1 (replicate 11 []) = Some shifts" "shifts_fit (length cur) (length ref) shifts"
    using GetAllPossibleShifts_total [OF nmap, of rerr ralign herr cur] len by auto
  let ?I = "\<lambda>b :: best_shift. (bs_res b \<longleftrightarrow> bs_cost b = 1) \<and> bs_cost b \<in> {0, 1} \<and> (\<not> bs_res b \<longrightarrow> bs_newerr b = curerr) \<and>
    (bs_res b \<longrightarrow> bs_newerr b \<le> curerr - 1 \<and> bs_newerr b = int (edit_distance (bs_hyp b) ref) \<and> block_move cur (bs_hyp b) \<and>
      edit_path (bs_path b) (bs_hyp b) ref \<and> path_cost (bs_path b) = edit_distance (bs_hyp b) ref)"
  let ?body = "\<lambda>i b. do {
       let curfix = curerr - (bs_cost b + bs_newerr b);
       let maxfix = 2 * (1 + i) - 1;
       if maxfix < curfix \<or> (bs_cost b = 0 \<and> curfix = maxfix) then Some (b, False)
       else do {
         ss \<leftarrow> vat shifts i;
         map_option (\<lambda>b. (b, True)) (for_each ss (try_shift ref cur ralign curerr i) b) } }"
  have tries: "\<exists>b'. for_each ss (try_shift ref cur ralign curerr i) b = Some b' \<and> ?I b'" if "ss \<in> set shifts" "?I b" for ss i b
  proof (rule for_each_runs [where P = ?I])
    show "?I b" by (rule that(2))
  next
    fix s b assume "s \<in> set ss" "?I b"
    then show "\<exists>b'. try_shift ref cur ralign curerr i s b = Some b' \<and> ?I b'"
      using try_shift_keeps [OF err, of s ralign b i] that sh(2) small len by (auto simp: shifts_fit_def)
  qed
  have "\<exists>b. for_break is ?body b0 = Some b \<and> ?I b" if "\<And>i. i \<in> set is \<Longrightarrow> 0 \<le> i \<and> i < vsize shifts" "?I b0" for "is" b0
    using that
  proof (induction "is" arbitrary: b0)
    case Nil
    show ?case unfolding for_break.simps using Nil.prems(2) by blast
  next
    case (Cons i "is")
    have i: "vat shifts i = Some (shifts ! nat i)" "shifts ! nat i \<in> set shifts" using Cons.prems(1) [of i] by (auto simp: vat_eq vsize_def nat_less_iff)
    obtain b' where b': "for_each (shifts ! nat i) (try_shift ref cur ralign curerr i) b0 = Some b'" "?I b'" using tries [OF i(2) Cons.prems(2)] by blast
    obtain b where "for_break is ?body b' = Some b" "?I b" using Cons.IH [OF _ b'(2)] Cons.prems(1) by auto
    then show ?case using i(1) b'(1) Cons.prems(2) by (auto simp: Let_def)
  qed
  from this [of "rev (positions shifts)" "\<lparr>bs_newerr = curerr, bs_cost = 0, bs_hyp = [], bs_path = [], bs_res = False\<rparr>"]
  obtain b where "for_break (rev (positions shifts)) ?body \<lparr>bs_newerr = curerr, bs_cost = 0, bs_hyp = [], bs_path = [], bs_res = False\<rparr> = Some b" "?I b" by auto
  then show ?thesis using pa sh(1) by (auto simp: CalculateBestShift_def)
qed

text \<open>Every shift lowers the edit distance, so the search ends.\<close>

lemma shift_loop_total:
  assumes nmap: "positions_fit ref nmap" and small: "length ref \<le> 1024"
  shows "length cur < 1024 \<Longrightarrow> edit_path path cur ref \<Longrightarrow> path_cost path = edit_distance cur ref \<Longrightarrow>
    \<exists>path' hyp' k. shift_loop ref nmap cur (int (edit_distance cur ref)) path edits shifts =
      Some (int (edit_distance hyp' ref), path', edits + int k, shifts + int k) \<and> (block_move ^^ k) cur hyp' \<and>
      edit_path path' hyp' ref \<and> path_cost path' = edit_distance hyp' ref \<and> edit_distance hyp' ref + k \<le> edit_distance cur ref"
proof (induction "edit_distance cur ref" arbitrary: cur path edits shifts rule: less_induct)
  case less
  obtain b where b: "CalculateBestShift ref nmap cur (int (edit_distance cur ref)) path = Some b"
    and better: "bs_res b \<Longrightarrow> bs_newerr b \<le> int (edit_distance cur ref) - 1 \<and> bs_newerr b = int (edit_distance (bs_hyp b) ref) \<and> block_move cur (bs_hyp b) \<and>
      edit_path (bs_path b) (bs_hyp b) ref \<and> path_cost (bs_path b) = edit_distance (bs_hyp b) ref"
    using CalculateBestShift_total [OF refl nmap less.prems(2,1) small] by blast
  show ?case
  proof (cases "bs_res b")
    case False
    have "shift_loop ref nmap cur (int (edit_distance cur ref)) path edits shifts = Some (int (edit_distance cur ref), path, edits, shifts)"
      by (subst shift_loop.simps) (simp add: b False)
    then show ?thesis using less.prems by (intro exI [of _ path] exI [of _ cur] exI [of _ 0]) simp
  next
    case True
    note b2 = better [OF True]
    have lt: "edit_distance (bs_hyp b) ref < edit_distance cur ref" "length (bs_hyp b) < 1024"
      using b2 block_move_length [of cur "bs_hyp b"] less.prems(1) by auto
    obtain path' hyp' k where k: "shift_loop ref nmap (bs_hyp b) (int (edit_distance (bs_hyp b) ref)) (bs_path b) (edits + 1) (shifts + 1) =
        Some (int (edit_distance hyp' ref), path', edits + 1 + int k, shifts + 1 + int k)" "(block_move ^^ k) (bs_hyp b) hyp'" "edit_path path' hyp' ref"
        "path_cost path' = edit_distance hyp' ref" "edit_distance hyp' ref + k \<le> edit_distance (bs_hyp b) ref"
      using less.hyps [OF lt] b2 by blast
    have "shift_loop ref nmap cur (int (edit_distance cur ref)) path edits shifts =
        shift_loop ref nmap (bs_hyp b) (int (edit_distance (bs_hyp b) ref)) (bs_path b) (edits + 1) (shifts + 1)"
      by (subst shift_loop.simps) (simp add: b True b2)
    moreover have "(block_move ^^ Suc k) cur hyp'" using b2 k(2) by (blast intro: relpowp_Suc_I2)
    ultimately show ?thesis using k b2 lt by (intro exI [of _ path'] exI [of _ hyp'] exI [of _ "Suc k"]) (simp del: relpowp.simps)
  qed
qed

text \<open>C31. For a hypothesis of less than 1024 words and a reference of at most 1024 the search for shifts
  ends. The score is the number of substitutions, insertions, deletions and shifts. As many block moves
  as there are shifts make another sentence of the hypothesis, the first three add up to its edit distance
  from the reference, and the score is at most the edit distance of the hypothesis itself.\<close>

theorem CalculateAllShifts_score:
  assumes "length hyp < 1024" "length ref \<le> 1024"
  shows "\<exists>score subs ins dels shifts hyp'. CalculateAllShifts ref hyp = Some (score, subs, ins, dels, shifts) \<and>
    score = subs + ins + dels + shifts \<and> 0 \<le> subs \<and> 0 \<le> ins \<and> 0 \<le> dels \<and> 0 \<le> shifts \<and>
    (block_move ^^ nat shifts) hyp hyp' \<and> mset hyp' = mset hyp \<and> subs + ins + dels = int (edit_distance hyp' ref) \<and>
    score \<le> int (edit_distance hyp ref)"
proof -
  obtain nmap where nmap: "BuildWordMatches ref hyp = Some nmap" "positions_fit ref nmap" using BuildWordMatches_fit by blast
  obtain path where path: "MinimumEditDistance hyp ref = Some (int (edit_distance hyp ref), path)" "edit_path path hyp ref"
    "path_cost path = edit_distance hyp ref" using MinimumEditDistance_path by blast
  obtain path' hyp' k where k: "shift_loop ref nmap hyp (int (edit_distance hyp ref)) path 0 0 = Some (int (edit_distance hyp' ref), path', 0 + int k, 0 + int k)"
    "(block_move ^^ k) hyp hyp'" "path_cost path' = edit_distance hyp' ref" "edit_distance hyp' ref + k \<le> edit_distance hyp ref"
    using shift_loop_total [OF nmap(2) assms(2,1) path(2,3)] by blast
  obtain s i d where st: "GetPathStats path' = (s, i, d)" by (cases "GetPathStats path'") auto
  show ?thesis
    using nmap(1) path(1) k GetPathStats_cost [OF st] st block_moves_mset [OF k(2)]
    by (intro exI [of _ "int (edit_distance hyp' ref) + int k"] exI [of _ s] exI [of _ i] exI [of _ d] exI [of _ "int k"] exI [of _ hyp'])
      (simp add: CalculateAllShifts_def)
qed

lemma CalculateAllShifts_score_witness:
  "\<exists>subs ins dels hyp'. CalculateAllShifts [1, 2, 3] [2, 3, 1] = Some (1, subs, ins, dels, 1) \<and> subs + ins + dels = 0 \<and>
    block_move [2, 3, 1] hyp' \<and> edit_distance hyp' [1, 2, 3] = 0"
proof -
  have run: "CalculateAllShifts [1, 2, 3] [2, 3, 1] = Some (1, 0, 0, 0, 1)" by code_simp
  obtain hyp' where "(block_move ^^ nat 1) [2, 3, 1] hyp'" "(0 :: int) = int (edit_distance hyp' [1, 2, 3])"
    using CalculateAllShifts_score [of "[2, 3, 1]" "[1, 2, 3]"] unfolding run by auto
  then show ?thesis using run by auto
qed

text \<open>C37. What is packed into a \<open>Shift\<close> reads back: positions below 1024, and targets from -1023 to 1024.\<close>

theorem Shift_reads_back:
  assumes "0 \<le> b" "b < 1024" "0 \<le> e" "e < 1024" "-1024 < m" "m \<le> 1024"
  shows "shift_begin (Shift b e m) = b \<and> shift_end (Shift b e m) = e \<and> shift_moveto (Shift b e m) = m"
  by (rule Shift_decode [OF assms])

lemma Shift_reads_back_witness: "shift_begin (Shift 3 7 (-1)) = 3 \<and> shift_end (Shift 3 7 (-1)) = 7 \<and> shift_moveto (Shift 3 7 (-1)) = -1"
  by (rule Shift_reads_back) simp_all

text \<open>A position from 1024 on is cut to ten bits.\<close>

lemma Shift_truncates: "shift_begin (Shift 1024 1030 5) = 0"
  by code_simp

text \<open>Scaling the score to add always raises.\<close>

lemma TER_PlusEquals_scaled_raises: "TER_PlusEquals_scaled stats delta scale = None"
  by (simp add: TER_PlusEquals_scaled_def)

end
