(* ===== verification/Bleu.thy ===== *)
theory Bleu
  imports LogVal OrderedMap EditDistance
begin

text \<open>
  BLEU in its two versions, \<open>BleuSegmentEvaluator\<close> and \<open>BleuMetric\<close> of \<open>mteval/ns.cc\<close> and
  \<open>BLEUScorerBase\<close> and \<open>BLEUScore\<close> of \<open>mteval/scorer.cc\<close>, which count n-grams by the same code. A table
  holds for every n-gram the greatest number of times a reference has it and how often it has been matched
  in the hypothesis. A \<open>float\<close> that counts n-grams is an integer; the other arithmetic of \<open>float\<close> is a parameter.
\<close>

section \<open>Counting n-grams\<close>

type_synonym ngram_counts = "(int list \<times> int \<times> int) list"

fun NGramCompare :: "int list \<Rightarrow> int list \<Rightarrow> bool" where
  "NGramCompare [] bs = (bs \<noteq> [])"
| "NGramCompare (a # as) [] = False"
| "NGramCompare (a # as) (b # bs) = (let d = a - b in if d < 0 then True else if 0 < d then False else NGramCompare as bs)"

definition or_zeros :: "(int \<times> int) option \<Rightarrow> int \<times> int" where
  "or_zeros p = (case p of None \<Rightarrow> (0, 0) | Some p \<Rightarrow> p)"

definition bump_ref :: "(int \<times> int) option \<Rightarrow> int \<times> int" where
  "bump_ref p = (fst (or_zeros p) + 1, snd (or_zeros p))"

definition CountRef :: "int \<Rightarrow> ngram_counts \<Rightarrow> int list \<Rightarrow> ngram_counts option" where
  "CountRef N ngrams ref = do {
     let s = vsize ref;
     tc \<leftarrow> for_each (int_range 0 s) (\<lambda>j tc. do {
       let remaining = s - j;
       let k = (if N < remaining then N else remaining);
       map_option snd (for_each (int_range 1 (k + 1)) (\<lambda>i (ngram, tc). do {
         w \<leftarrow> vat ref (j + i - 1);
         let ngram = ngram @ [w];
         Some (ngram, om_update NGramCompare ngram bump_ref tc) }) ([], tc)) }) [];
     Some (fold (\<lambda>(g, c) ngrams. om_update NGramCompare g (\<lambda>p. if fst (or_zeros p) < fst c then c else or_zeros p) ngrams) tc ngrams) }"

text \<open>One step for an n-gram of \<open>i\<close> words; the loop over \<open>i\<close> ends when no reference has it.\<close>

definition count_ngram :: "bool \<Rightarrow> int list \<Rightarrow> int \<Rightarrow> int \<Rightarrow> int \<Rightarrow> int list \<times> ngram_counts \<times> int list \<times> int list \<Rightarrow>
    ((int list \<times> ngram_counts \<times> int list \<times> int list) \<times> bool) option" where
  "count_ngram clip_counts sent j k i st = do {
     let (ngram, ngrams, correct, hyp) = st;
     w \<leftarrow> vat sent (j + i - 1);
     let ngram = ngram @ [w];
     let p = or_zeros (om_get NGramCompare ngram ngrams);
     let hit = (if clip_counts then snd p < fst p else True);
     let ngrams = om_update NGramCompare ngram (\<lambda>p. if hit then (fst (or_zeros p), snd (or_zeros p) + 1) else or_zeros p) ngrams;
     correct \<leftarrow> (if hit then do { c \<leftarrow> vat correct (i - 1); vset correct (i - 1) (c + 1) } else Some correct);
     if fst p = 0 then do {
       hyp \<leftarrow> for_each (int_range i (k + 1)) (\<lambda>i hyp. do { h \<leftarrow> vat hyp (i - 1); vset hyp (i - 1) (h + 1) }) hyp;
       Some ((ngram, ngrams, correct, hyp), False) }
     else do {
       h \<leftarrow> vat hyp (i - 1);
       hyp \<leftarrow> vset hyp (i - 1) (h + 1);
       Some ((ngram, ngrams, correct, hyp), True) } }"

definition ComputeNgramStats :: "int \<Rightarrow> ngram_counts \<Rightarrow> int list \<Rightarrow> bool \<Rightarrow> (ngram_counts \<times> int list \<times> int list) option" where
  "ComputeNgramStats N ngrams sent clip_counts = do {
     let s = vsize sent;
     for_each (int_range 0 s) (\<lambda>j (ngrams, correct, hyp). do {
       let remaining = s - j;
       let k = (if N < remaining then N else remaining);
       map_option snd (for_break (int_range 1 (k + 1)) (count_ngram clip_counts sent j k) ([], ngrams, correct, hyp)) })
       (ngrams, replicate (nat N) 0, replicate (nat N) 0) }"

definition clear_matches :: "ngram_counts \<Rightarrow> ngram_counts" where
  "clear_matches ngrams = map (\<lambda>(g, p). (g, fst p, 0)) ngrams"

section \<open>The segment evaluator\<close>

datatype BleuType = IBM | Koehn | NIST | QCRI

record 'd bleu_evaluator =
  be_lengths :: "'d list"
  be_ngrams :: ngram_counts

definition BleuSegmentEvaluator :: "('d, 'z) floats_scheme \<Rightarrow> int \<Rightarrow> BleuType \<Rightarrow> int list list \<Rightarrow> 'd bleu_evaluator option" where
  "BleuSegmentEvaluator fl N brevity refs = do {
     check (refs \<noteq> []);
     (lengths, tot, smallest, ngrams) \<leftarrow> for_each refs (\<lambda>ci (lengths, tot, smallest, ngrams). do {
       let len = fl_of_int fl (vsize ci);
       ngrams \<leftarrow> CountRef N ngrams ci;
       Some (lengths @ [len], fl_add fl tot len, if fl_less fl len (fl_of_int fl smallest) then vsize ci else smallest, ngrams) })
       ([], fl_of_int fl 0, 9999999, []);
     lengths \<leftarrow> (if brevity = Koehn then vset lengths 0 (fl_div fl tot (fl_of_int fl (vsize refs))) else Some lengths);
     lengths \<leftarrow> (if brevity = NIST then vset lengths 0 (fl_of_int fl smallest) else Some lengths);
     Some \<lparr>be_lengths = lengths, be_ngrams = ngrams\<rparr> }"

text \<open>The reference length nearest to that of the hypothesis, the first of those.\<close>

definition closest_length :: "'d floats \<Rightarrow> 'd list \<Rightarrow> 'd \<Rightarrow> 'd" where
  "closest_length fl lengths hl = snd (fold (\<lambda>ci (bestd, bl).
     let d = fl_abs fl (fl_sub fl ci hl) in if fl_less fl d bestd then (d, ci) else (bestd, bl)) lengths (fl_of_int fl 2000000, fl_of_int fl (-1)))"

definition Evaluate :: "'d floats \<Rightarrow> int \<Rightarrow> BleuType \<Rightarrow> 'd bleu_evaluator \<Rightarrow> int list \<Rightarrow> ('d bleu_evaluator \<times> int list \<times> int list \<times> 'd \<times> 'd) option" where
  "Evaluate fl N brevity ev hyp = do {
     (ngrams, correct, hyp_counts) \<leftarrow> ComputeNgramStats N (clear_matches (be_ngrams ev)) hyp True;
     let hyp_len = fl_of_int fl (vsize hyp);
     ref_len \<leftarrow> vat (be_lengths ev) 0;
     let ref_len = (if 1 < vsize (be_lengths ev) \<and> (brevity = IBM \<or> brevity = QCRI) then closest_length fl (be_lengths ev) hyp_len else ref_len);
     Some (ev\<lparr>be_ngrams := ngrams\<rparr>, correct, hyp_counts, hyp_len, ref_len) }"

text \<open>
  The score from the fields: matched n-grams, n-grams, length of the hypothesis, of the reference. The
  smoothing constant \<open>0.01\<close> is the quotient of 1 and 100.
\<close>

definition ComputeBreakdown :: "('d, 'z) log_floats_scheme \<Rightarrow> int \<Rightarrow> BleuType \<Rightarrow> 'd list \<Rightarrow> ('d \<times> 'd \<times> 'd list) option" where
  "ComputeBreakdown fl N brevity flds = do {
     let zero = fl_of_int fl 0;
     let alpha = (if brevity = QCRI then fl_of_int fl 1 else fl_div fl (fl_of_int fl 1) (fl_of_int fl 100));
     (log_bleu, log_bleu_adj, count, out) \<leftarrow> for_each (int_range 0 N) (\<lambda>i (log_bleu, log_bleu_adj, count, out). do {
       h \<leftarrow> vat flds (i + N);
       if fl_less fl zero h then do {
         cor_count \<leftarrow> vat flds i;
         let cor_count = (if lf_eq fl cor_count zero then alpha else cor_count);
         let lprec = fl_sub fl (lf_log fl cor_count) (lf_log fl h);
         Some (fl_add fl log_bleu lprec,
           if brevity = QCRI then fl_add fl log_bleu_adj (fl_sub fl (lf_log fl alpha) (lf_log fl (fl_add fl h alpha))) else log_bleu_adj,
           count + 1, out @ [lf_exp fl lprec]) }
       else Some (log_bleu, log_bleu_adj, count, out) }) (zero, zero, 0, []);
     let log_bleu = fl_div fl log_bleu (fl_of_int fl count);
     let log_bleu_adj = fl_div fl log_bleu_adj (fl_of_int fl count);
     hyp_len \<leftarrow> vat flds (2 * N);
     ref_len \<leftarrow> vat flds (2 * N + 1);
     let lbp = (if fl_less fl hyp_len ref_len
       then (if brevity = QCRI then fl_div fl (fl_sub fl (fl_sub fl hyp_len ref_len) alpha) hyp_len else fl_div fl (fl_sub fl hyp_len ref_len) hyp_len)
       else zero);
     let log_bleu = fl_add fl log_bleu lbp;
     let bp = lf_exp fl lbp;
     if brevity = QCRI then Some (fl_sub fl (lf_exp fl log_bleu) (lf_exp fl (fl_add fl lbp log_bleu_adj)), bp, out)
     else Some (lf_exp fl log_bleu, bp, out) }"

section \<open>The scorer\<close>

record 'd bleu_score =
  bl_correct :: "'d list"
  bl_hyp :: "'d list"
  bl_ref_len :: 'd
  bl_hyp_len :: 'd

record bleu_scorer =
  bs_refs :: "int list list"
  bs_ngrams :: ngram_counts
  bs_n :: int

definition BLEUScorerBase :: "int list list \<Rightarrow> int \<Rightarrow> bleu_scorer option" where
  "BLEUScorerBase references n = do {
     ngrams \<leftarrow> for_each references (\<lambda>ci ngrams. CountRef n ngrams ci) [];
     Some \<lparr>bs_refs = references, bs_ngrams = ngrams, bs_n = n\<rparr> }"

definition IBM_ComputeRefLength :: "int list list \<Rightarrow> int list \<Rightarrow> int" where
  "IBM_ComputeRefLength references hyp = (let lengths = map vsize references in
     if length lengths = 1 then lengths ! 0
     else snd (fold (\<lambda>cl (bestd, bl). if \<bar>cl - vsize hyp\<bar> < bestd then (\<bar>cl - vsize hyp\<bar>, cl) else (bestd, bl)) lengths (2000000, -1)))"

definition NIST_ComputeRefLength :: "int list list \<Rightarrow> int option" where
  "NIST_ComputeRefLength references = do {
     first \<leftarrow> vfront references;
     Some (fold (\<lambda>r shortest. if vsize r < shortest then vsize r else shortest) (tl references) (vsize first)) }"

definition Koehn_ComputeRefLength :: "('d, 'z) floats_scheme \<Rightarrow> int list list \<Rightarrow> 'd" where
  "Koehn_ComputeRefLength fl references =
     fl_div fl (fold (\<lambda>r avg. fl_add fl avg (fl_of_int fl (vsize r))) references (fl_of_int fl 0)) (fl_of_int fl (vsize references))"

text \<open>\<open>ScoreCandidate\<close> clips the counts, \<open>ScoreCCandidate\<close> does not.\<close>

definition bleu_candidate :: "('d, 'z) floats_scheme \<Rightarrow> (int list \<Rightarrow> 'd) \<Rightarrow> bool \<Rightarrow> bleu_scorer \<Rightarrow> int list \<Rightarrow> (bleu_scorer \<times> 'd bleu_score) option" where
  "bleu_candidate fl ref_length clip sc hyp = do {
     (ngrams, correct, hyp_counts) \<leftarrow> ComputeNgramStats (bs_n sc) (clear_matches (bs_ngrams sc)) hyp clip;
     Some (sc\<lparr>bs_ngrams := ngrams\<rparr>, \<lparr>bl_correct = map (fl_of_int fl) correct, bl_hyp = map (fl_of_int fl) hyp_counts,
       bl_ref_len = ref_length hyp, bl_hyp_len = fl_of_int fl (vsize hyp)\<rparr>) }"

definition BLEU_ScoreCandidate :: "('d, 'z) floats_scheme \<Rightarrow> (int list \<Rightarrow> 'd) \<Rightarrow> bleu_scorer \<Rightarrow> int list \<Rightarrow> (bleu_scorer \<times> 'd bleu_score) option" where
  "BLEU_ScoreCandidate fl ref_length = bleu_candidate fl ref_length True"

definition BLEU_ScoreCCandidate :: "('d, 'z) floats_scheme \<Rightarrow> (int list \<Rightarrow> 'd) \<Rightarrow> bleu_scorer \<Rightarrow> int list \<Rightarrow> (bleu_scorer \<times> 'd bleu_score) option" where
  "BLEU_ScoreCCandidate fl ref_length = bleu_candidate fl ref_length False"

text \<open>The mean is taken over all \<open>N\<close> orders here, and over those the hypothesis has in \<open>ComputeBreakdown\<close>.\<close>

definition BLEU_ComputeScore :: "('d, 'z) log_floats_scheme \<Rightarrow> 'd bleu_score \<Rightarrow> ('d \<times> 'd \<times> 'd list) option" where
  "BLEU_ComputeScore fl b = do {
     let zero = fl_of_int fl 0;
     (log_bleu, total_precs, precs) \<leftarrow> for_each (positions (bl_hyp b)) (\<lambda>i (log_bleu, total_precs, precs). do {
       h \<leftarrow> vat (bl_hyp b) i;
       (log_bleu, precs) \<leftarrow> (if fl_less fl zero h then do {
           cor_count \<leftarrow> vat (bl_correct b) i;
           let cor_count = (if lf_eq fl cor_count zero then fl_div fl (fl_of_int fl 1) (fl_of_int fl 100) else cor_count);
           let lprec = fl_sub fl (lf_log fl cor_count) (lf_log fl h);
           Some (fl_add fl log_bleu lprec, precs @ [lf_exp fl lprec]) }
         else Some (log_bleu, precs));
       Some (log_bleu, total_precs @ [log_bleu], precs) }) (zero, [], []);
     let lbp = (if fl_less fl (bl_hyp_len b) (bl_ref_len b) then fl_div fl (fl_sub fl (bl_hyp_len b) (bl_ref_len b)) (bl_hyp_len b) else zero);
     let bleus = map (\<lambda>(i, t). lf_exp fl (fl_add fl (fl_div fl t (fl_of_int fl (int i + 1))) lbp)) (enumerate 0 total_precs);
     score \<leftarrow> vback bleus;
     Some (score, lf_exp fl lbp, precs) }"

definition BLEU_ComputePartialScore :: "('d, 'z) log_floats_scheme \<Rightarrow> 'd bleu_score \<Rightarrow> ('d \<times> 'd \<times> 'd list) option" where
  "BLEU_ComputePartialScore fl b = do {
     let zero = fl_of_int fl 0;
     (log_bleu, count, precs) \<leftarrow> for_each (positions (bl_hyp b)) (\<lambda>i (log_bleu, count, precs). do {
       h \<leftarrow> vat (bl_hyp b) i;
       if fl_less fl zero h then do {
         c \<leftarrow> vat (bl_correct b) i;
         let lprec = fl_sub fl (lf_log fl c) (lf_log fl h);
         Some (fl_add fl log_bleu lprec, count + 1, precs @ [lf_exp fl lprec]) }
       else Some (log_bleu, count, precs) }) (zero, 0, []);
     let log_bleu = fl_div fl log_bleu (fl_of_int fl count);
     let lbp = (if fl_less fl (bl_hyp_len b) (bl_ref_len b) then fl_div fl (fl_sub fl (bl_hyp_len b) (bl_ref_len b)) (bl_hyp_len b) else zero);
     Some (lf_exp fl (fl_add fl log_bleu lbp), lf_exp fl lbp, precs) }"

text \<open>
  Sums of scores of the same scorer, whose arrays have the same length. The term \<open>wb\<close> that
  \<open>ComputeScore\<close> adds up and does not return is left out.
\<close>

definition BLEU_PlusEquals :: "('d, 'z) floats_scheme \<Rightarrow> 'd bleu_score \<Rightarrow> 'd bleu_score \<Rightarrow> 'd bleu_score" where
  "BLEU_PlusEquals fl b d = \<lparr>bl_correct = map2 (fl_add fl) (bl_correct b) (bl_correct d), bl_hyp = map2 (fl_add fl) (bl_hyp b) (bl_hyp d),
     bl_ref_len = fl_add fl (bl_ref_len b) (bl_ref_len d), bl_hyp_len = fl_add fl (bl_hyp_len b) (bl_hyp_len d)\<rparr>"

definition BLEU_PlusEquals_scaled :: "('d, 'z) floats_scheme \<Rightarrow> 'd bleu_score \<Rightarrow> 'd bleu_score \<Rightarrow> 'd \<Rightarrow> 'd bleu_score" where
  "BLEU_PlusEquals_scaled fl b d scale = (let s = \<lambda>x. fl_mul fl x scale in
     \<lparr>bl_correct = map2 (\<lambda>x y. fl_add fl x (s y)) (bl_correct b) (bl_correct d), bl_hyp = map2 (\<lambda>x y. fl_add fl x (s y)) (bl_hyp b) (bl_hyp d),
      bl_ref_len = fl_add fl (bl_ref_len b) (s (bl_ref_len d)), bl_hyp_len = fl_add fl (bl_hyp_len b) (s (bl_hyp_len d))\<rparr>)"

definition BLEU_Subtract :: "('d, 'z) floats_scheme \<Rightarrow> 'd bleu_score \<Rightarrow> 'd bleu_score \<Rightarrow> 'd bleu_score" where
  "BLEU_Subtract fl b d = \<lparr>bl_correct = map2 (fl_sub fl) (bl_correct b) (bl_correct d), bl_hyp = map2 (fl_sub fl) (bl_hyp b) (bl_hyp d),
     bl_ref_len = fl_sub fl (bl_ref_len b) (bl_ref_len d), bl_hyp_len = fl_sub fl (bl_hyp_len b) (bl_hyp_len d)\<rparr>"

definition BLEU_TimesEquals :: "('d, 'z) floats_scheme \<Rightarrow> 'd bleu_score \<Rightarrow> 'd \<Rightarrow> 'd bleu_score" where
  "BLEU_TimesEquals fl b scale = (let s = \<lambda>x. fl_mul fl x scale in
     \<lparr>bl_correct = map s (bl_correct b), bl_hyp = map s (bl_hyp b), bl_ref_len = s (bl_ref_len b), bl_hyp_len = s (bl_hyp_len b)\<rparr>)"

definition BLEU_PlusPartialEquals :: "('d, 'z) floats_scheme \<Rightarrow> 'd bleu_score \<Rightarrow> 'd bleu_score \<Rightarrow> int \<Rightarrow> int \<Rightarrow> int \<Rightarrow> 'd bleu_score" where
  "BLEU_PlusPartialEquals fl b d oracle_e_cover oracle_f_cover src_len =
     \<lparr>bl_correct = map2 (fl_add fl) (bl_correct b) (bl_correct d), bl_hyp = map2 (fl_add fl) (bl_hyp b) (bl_hyp d),
      bl_ref_len = fl_add fl (fl_mul fl (bl_ref_len b) (fl_div fl (fl_of_int fl oracle_f_cover) (fl_of_int fl src_len))) (bl_ref_len d),
      bl_hyp_len = fl_add fl (fl_of_int fl oracle_e_cover) (bl_hyp_len d)\<rparr>"

definition BLEU_GetConst :: "('d, 'z) floats_scheme \<Rightarrow> nat \<Rightarrow> int \<Rightarrow> 'd bleu_score" where
  "BLEU_GetConst fl n k = \<lparr>bl_correct = replicate n (fl_of_int fl k), bl_hyp = replicate n (fl_of_int fl k), bl_ref_len = fl_of_int fl k, bl_hyp_len = fl_of_int fl k\<rparr>"

section \<open>N-grams\<close>

definition ngrams :: "nat \<Rightarrow> int list \<Rightarrow> int list list" where
  "ngrams i xs = map (\<lambda>j. take i (drop j xs)) [0..<Suc (length xs) - i]"

text \<open>Those of up to \<open>N\<close> words from a position, those from all positions before \<open>j\<close>, and all of them.\<close>

definition ngrams_at :: "nat \<Rightarrow> int list \<Rightarrow> nat \<Rightarrow> int list multiset" where
  "ngrams_at k xs j = mset (map (\<lambda>i. take i (drop j xs)) [1..<Suc k])"

primrec ngrams_before :: "nat \<Rightarrow> int list \<Rightarrow> nat \<Rightarrow> int list multiset" where
  "ngrams_before N xs 0 = {#}"
| "ngrams_before N xs (Suc j) = ngrams_before N xs j + ngrams_at (min N (length xs - j)) xs j"

definition all_ngrams :: "nat \<Rightarrow> int list \<Rightarrow> int list multiset" where
  "all_ngrams N xs = ngrams_before N xs (length xs)"

lemma ngrams_at_Suc: "ngrams_at (Suc k) xs j = add_mset (take (Suc k) (drop j xs)) (ngrams_at k xs j)" "ngrams_at 0 xs j = {#}"
  by (simp_all add: ngrams_at_def)

lemma ngrams_at_length:
  "k \<le> length xs - j \<Longrightarrow> filter_mset (\<lambda>g. length g = Suc i) (ngrams_at k xs j) = (if i < k then {#take (Suc i) (drop j xs)#} else {#})"
  by (induction k) (auto simp: ngrams_at_Suc less_Suc_eq)

lemma ngrams_before_length:
  "i < N \<Longrightarrow> j \<le> length xs \<Longrightarrow> filter_mset (\<lambda>g. length g = Suc i) (ngrams_before N xs j) =
    mset (map (\<lambda>j. take (Suc i) (drop j xs)) [0..<min j (length xs - i)])"
proof (induction j)
  case (Suc j)
  have "filter_mset (\<lambda>g. length g = Suc i) (ngrams_at (min N (length xs - j)) xs j) = (if i < length xs - j then {#take (Suc i) (drop j xs)#} else {#})"
    using Suc.prems by (simp add: ngrams_at_length)
  moreover have "i < length xs - j \<Longrightarrow> min (Suc j) (length xs - i) = Suc j \<and> min j (length xs - i) = j"
    "\<not> i < length xs - j \<Longrightarrow> min (Suc j) (length xs - i) = min j (length xs - i)" by auto
  ultimately show ?case using Suc by (cases "i < length xs - j") auto
qed simp

lemma all_ngrams_length: "i < N \<Longrightarrow> filter_mset (\<lambda>g. length g = Suc i) (all_ngrams N xs) = mset (ngrams (Suc i) xs)"
  unfolding all_ngrams_def by (subst ngrams_before_length) (auto simp: ngrams_def)

text \<open>The n-grams of a text are closed under prefixes.\<close>

definition prefix_closed :: "int list multiset \<Rightarrow> bool" where
  "prefix_closed R \<longleftrightarrow> (\<forall>g i. g \<in># R \<longrightarrow> 0 < i \<longrightarrow> take i g \<in># R)"

lemma prefix_closed_Un: "prefix_closed A \<Longrightarrow> prefix_closed B \<Longrightarrow> prefix_closed (A \<union># B)" "prefix_closed A \<Longrightarrow> prefix_closed B \<Longrightarrow> prefix_closed (A + B)"
  by (auto simp: prefix_closed_def)

lemma prefix_closed_at: "prefix_closed (ngrams_at k xs j)"
  unfolding prefix_closed_def
proof (intro allI impI)
  fix g i assume g: "g \<in># ngrams_at k xs j" and i: "0 < (i :: nat)"
  obtain l where l: "1 \<le> l" "l < Suc k" "g = take l (drop j xs)" using g by (auto simp: ngrams_at_def)
  then have "take i g = take (min i l) (drop j xs)" by (simp add: min.commute)
  moreover have "min i l \<in> set [1..<Suc k]" using i l by auto
  ultimately show "take i g \<in># ngrams_at k xs j" unfolding ngrams_at_def by auto
qed

lemma prefix_closed_all: "prefix_closed (all_ngrams N xs)"
proof -
  have "prefix_closed (ngrams_before N xs j)" for j
    by (induction j) (simp_all add: prefix_closed_Un prefix_closed_at, simp add: prefix_closed_def)
  then show ?thesis by (simp add: all_ngrams_def)
qed

section \<open>The table of n-grams\<close>

lemma NGramCompare_eq: "NGramCompare = vec_less"
proof (intro ext)
  fix xs ys show "NGramCompare xs ys = vec_less xs ys"
    by (induction xs ys rule: NGramCompare.induct) (auto simp: vec_less_Nil Let_def)
qed

lemma vec_same [simp]: "vec.same xs ys \<longleftrightarrow> xs = ys"
  using vec_less_total by (auto simp: vec.same_def)

text \<open>The table holds the counts of \<open>R\<close> and of \<open>S\<close>.\<close>

definition holds :: "ngram_counts \<Rightarrow> int list multiset \<Rightarrow> int list multiset \<Rightarrow> bool" where
  "holds m R S \<longleftrightarrow> vec.ordered m \<and> (\<forall>g. or_zeros (om_get NGramCompare g m) = (int (count R g), int (count S g)))"

lemma holds_Nil: "holds [] {#} {#}"
  by (simp add: holds_def vec.ordered_Nil or_zeros_def)

lemma holds_update:
  assumes "holds m R S" "f (om_get NGramCompare g m) = (int (count R' g), int (count S' g))"
    and "\<And>h. h \<noteq> g \<Longrightarrow> count R' h = count R h \<and> count S' h = count S h"
  shows "holds (om_update NGramCompare g f m) R' S'"
  using assms unfolding holds_def NGramCompare_eq
  by (auto simp: vec.ordered_update vec.get_update or_zeros_def)

lemma get_Cons:
  assumes "vec.ordered ((k, c) # m)"
  shows "om_get vec_less g ((k, c) # m) = (if g = k then Some c else om_get vec_less g m)" "om_get vec_less k m = None"
proof -
  have lt: "vec_less k h" if "(h, v) \<in> set m" for h v using assms that by (force simp: vec.ordered_def)
  have none: "om_get vec_less g m = None" if "g = k \<or> vec_less g k" for g
  proof (rule ccontr)
    assume "om_get vec_less g m \<noteq> None"
    then obtain v where "(g, v) \<in> set m" using vec.entry_get [of g m] by auto
    then show False using lt that vec_less_irrefl vec_less_trans by metis
  qed
  show "om_get vec_less k m = None" using none by blast
  show "om_get vec_less g ((k, c) # m) = (if g = k then Some c else om_get vec_less g m)"
    using none [of g] vec_less_total [of g k] by (auto simp: vec_less_irrefl)
qed

lemma merge_counts:
  assumes "vec.ordered tc" "vec.ordered m"
  shows "vec.ordered (fold (\<lambda>(g, c) m. om_update NGramCompare g (\<lambda>p. if fst (or_zeros p) < fst c then c else or_zeros p) m) tc m) \<and>
    or_zeros (om_get NGramCompare g (fold (\<lambda>(g, c) m. om_update NGramCompare g (\<lambda>p. if fst (or_zeros p) < fst c then c else or_zeros p) m) tc m)) =
      (case om_get NGramCompare g tc of None \<Rightarrow> or_zeros (om_get NGramCompare g m)
       | Some c \<Rightarrow> if fst (or_zeros (om_get NGramCompare g m)) < fst c then c else or_zeros (om_get NGramCompare g m))"
  using assms unfolding NGramCompare_eq
proof (induction tc arbitrary: m)
  case (Cons kc tc)
  obtain k c where kc: "kc = (k, c)" by (cases kc)
  let ?m = "om_update vec_less k (\<lambda>p. if fst (or_zeros p) < fst c then c else or_zeros p) m"
  have o: "vec.ordered tc" "vec.ordered ?m" using Cons.prems by (simp_all add: vec.ordered_def kc) (simp add: vec.ordered_update flip: vec.ordered_def)
  note g = get_Cons [OF Cons.prems(1) [unfolded kc]]
  show ?case
    using Cons.IH [OF o] Cons.prems(2) g by (auto simp: kc vec.get_update or_zeros_def simp del: om_get.simps split: option.split)
qed simp

lemma CountRef_holds:
  assumes m: "holds m R {#}" and N: "0 \<le> N"
  shows "\<exists>m'. CountRef N m ref = Some m' \<and> holds m' (R \<union># all_ngrams (nat N) ref) {#}"
proof -
  let ?A = "ngrams_before (nat N) ref" and ?s = "vsize ref"
  let ?step = "\<lambda>j i (ngram, tc). do {
         w \<leftarrow> vat ref (j + i - 1);
         let ngram = ngram @ [w];
         Some (ngram, om_update NGramCompare ngram bump_ref tc) }"
  let ?body = "\<lambda>j tc. do {
       let remaining = ?s - j;
       let k = (if N < remaining then N else remaining);
       map_option snd (for_each (int_range 1 (k + 1)) (?step j) ([], tc)) }"
  have "\<exists>tc. for_each (int_range 0 ?s) ?body [] = Some tc \<and> holds tc (?A (nat ?s)) {#}"
  proof (rule for_range_total [where I = "\<lambda>j tc. holds tc (?A (nat j)) {#}"])
    show "holds [] (?A (nat 0)) {#}" by (simp add: holds_Nil)
  next
    fix j tc assume j: "0 \<le> j" "j < ?s" and tc: "holds tc (?A (nat j)) {#}"
    let ?k = "if N < ?s - j then N else ?s - j" and ?ng = "\<lambda>i. take i (drop (nat j) ref)"
    let ?I = "\<lambda>i (g, tc). g = ?ng (nat i - 1) \<and> holds tc (?A (nat j) + ngrams_at (nat i - 1) ref (nat j)) {#}"
    have "\<exists>t. for_each (int_range 1 (?k + 1)) (?step j) ([], tc) = Some t \<and> ?I (?k + 1) t"
    proof (rule for_range_total [where I = ?I])
      show "?I 1 ([], tc)" using tc by (simp add: ngrams_at_Suc)
    next
      fix i and gt :: "int list \<times> ngram_counts" assume i: "1 \<le> i" "i < ?k + 1" and I: "?I i gt"
      obtain t where gt: "gt = (?ng (nat i - 1), t)" and t: "holds t (?A (nat j) + ngrams_at (nat i - 1) ref (nat j)) {#}" using I by (cases gt) auto
      have ix: "nat (j + i - 1) = nat j + (nat i - 1)" "nat (j + i - 1) < length ref" "nat i = Suc (nat i - 1)"
        using i j by (auto simp: vsize_def nat_add_distrib split: if_splits)
      have w: "vat ref (j + i - 1) = Some (ref ! nat (j + i - 1))" using i j ix by (simp add: vat_eq)
      have g: "?ng (nat i - 1) @ [ref ! nat (j + i - 1)] = ?ng (nat i)"
      proof -
        have "drop (nat j) ref ! (nat i - 1) = ref ! nat (j + i - 1)" using ix(2) unfolding ix(1) by simp
        moreover have "nat i - 1 < length (drop (nat j) ref)" using ix(2) unfolding ix(1) by simp
        ultimately show ?thesis using take_Suc_conv_app_nth [of "nat i - 1" "drop (nat j) ref"] by (simp only: ix(3) [symmetric])
      qed
      have "holds (om_update NGramCompare (?ng (nat i)) bump_ref t) (?A (nat j) + ngrams_at (nat i) ref (nat j)) {#}"
        by (rule holds_update [OF t]) (use t ix(3) ngrams_at_Suc(1) [of "nat i - 1" ref "nat j"] in \<open>auto simp: bump_ref_def holds_def\<close>)
      moreover have "nat (i + 1) - 1 = nat i" using i by simp
      ultimately show "\<exists>s'. ?step j i gt = Some s' \<and> ?I (i + 1) s'" using w g by (simp add: gt Let_def)
    qed (use N j in auto)
    then obtain g t where run: "for_each (int_range 1 (?k + 1)) (?step j) ([], tc) = Some (g, t)"
      and t: "holds t (?A (nat j) + ngrams_at (nat (?k + 1) - 1) ref (nat j)) {#}" by auto
    have "nat (?k + 1) - 1 = min (nat N) (length ref - nat j)" "nat (j + 1) = Suc (nat j)"
      using N j by (auto simp: vsize_def min_def nat_diff_distrib split: if_splits)
    then have "holds t (?A (nat (j + 1))) {#}" using t by simp
    then show "\<exists>s'. ?body j tc = Some s' \<and> holds s' (?A (nat (j + 1))) {#}" using run by (simp add: Let_def)
  qed simp
  then obtain tc where run: "for_each (int_range 0 ?s) ?body [] = Some tc" and tc: "holds tc (all_ngrams (nat N) ref) {#}"
    by (auto simp: all_ngrams_def vsize_def)
  let ?m = "fold (\<lambda>(g, c) m. om_update NGramCompare g (\<lambda>p. if fst (or_zeros p) < fst c then c else or_zeros p) m) tc m"
  have "holds ?m (R \<union># all_ngrams (nat N) ref) {#}"
    unfolding holds_def
  proof (intro conjI allI)
    have o: "vec.ordered tc" "vec.ordered m" using tc m by (simp_all add: holds_def)
    show "vec.ordered ?m" using merge_counts [OF o] by blast
    fix g
    have "or_zeros (om_get NGramCompare g tc) = (int (count (all_ngrams (nat N) ref) g), 0)"
      "or_zeros (om_get NGramCompare g m) = (int (count R g), 0)" using tc m by (simp_all add: holds_def)
    then show "or_zeros (om_get NGramCompare g ?m) = (int (count (R \<union># all_ngrams (nat N) ref) g), int (count {#} g))"
      unfolding merge_counts [OF o, THEN conjunct2]
      by (cases "om_get NGramCompare g tc") (auto simp: or_zeros_def max_def)
  qed
  then show ?thesis using run by (simp add: CountRef_def)
qed

lemma clear_matches_holds: "holds m R S \<Longrightarrow> holds (clear_matches m) R {#}"
proof -
  assume m: "holds m R S"
  have "vec.ordered (clear_matches m) \<longleftrightarrow> vec.ordered m"
    by (simp add: vec.ordered_def clear_matches_def sorted_wrt_map case_prod_beta)
  moreover have "om_get NGramCompare g (clear_matches m) = map_option (\<lambda>p. (fst p, 0)) (om_get NGramCompare g m)" for g
    by (induction m) (auto simp: clear_matches_def)
  moreover have "or_zeros (map_option (\<lambda>p. (fst p, 0)) p) = (fst (or_zeros p), 0)" for p
    by (simp add: or_zeros_def split: option.split)
  ultimately show ?thesis using m by (simp add: holds_def)
qed

section \<open>The counts\<close>

text \<open>After the n-grams \<open>A\<close> of the hypothesis, for the references' \<open>R\<close>.\<close>

definition counted :: "nat \<Rightarrow> int list multiset \<Rightarrow> int list multiset \<Rightarrow> ngram_counts \<Rightarrow> int list \<Rightarrow> int list \<Rightarrow> bool" where
  "counted N R A m correct hyp \<longleftrightarrow> holds m R (A \<inter># R) \<and> length correct = N \<and> length hyp = N \<and>
     (\<forall>i < N. correct ! i = int (size {#g \<in># A \<inter># R. length g = Suc i#}) \<and> hyp ! i = int (size {#g \<in># A. length g = Suc i#}))"

lemma inter_add:
  "add_mset g A \<inter># R = (if count A g < count R g then add_mset g (A \<inter># R) else A \<inter># R)"
  by (rule multiset_eqI) (auto simp: min_def)

lemma counted_add:
  assumes c: "counted N R A m correct hyp" and g: "length g = Suc l" "l < N"
  shows "counted N R (add_mset g A)
    (om_update NGramCompare g (\<lambda>p. if count A g < count R g then (fst (or_zeros p), snd (or_zeros p) + 1) else or_zeros p) m)
    (if count A g < count R g then correct[l := correct ! l + 1] else correct) (hyp[l := hyp ! l + 1])"
proof -
  have "holds (om_update NGramCompare g (\<lambda>p. if count A g < count R g then (fst (or_zeros p), snd (or_zeros p) + 1) else or_zeros p) m) R (add_mset g A \<inter># R)"
  proof (rule holds_update [of m R "A \<inter># R"])
    show "holds m R (A \<inter># R)" using c by (simp add: counted_def)
    then show "(if count A g < count R g then (fst (or_zeros (om_get NGramCompare g m)), snd (or_zeros (om_get NGramCompare g m)) + 1)
        else or_zeros (om_get NGramCompare g m)) = (int (count R g), int (count (add_mset g A \<inter># R) g))"
      by (auto simp: holds_def inter_add)
  qed (auto simp: inter_add)
  then show ?thesis using c g by (auto simp: counted_def inter_add nth_list_update)
qed

lemma counted_skip:
  assumes c: "counted N R A m correct hyp" and B: "\<And>g. g \<in># B \<Longrightarrow> g \<notin># R"
    and hyp': "length hyp' = N" "\<And>i. i < N \<Longrightarrow> hyp' ! i = hyp ! i + int (size {#g \<in># B. length g = Suc i#})"
  shows "counted N R (A + B) m correct hyp'"
proof -
  have "(A + B) \<inter># R = A \<inter># R"
  proof (rule multiset_eqI)
    fix g show "count ((A + B) \<inter># R) g = count (A \<inter># R) g"
      using B [of g] by (cases "g \<in># B") (simp_all add: not_in_iff)
  qed
  then show ?thesis using c hyp' by (simp add: counted_def)
qed

text \<open>The n-grams at a position from the \<open>i\<close>-th on.\<close>

lemma ngrams_at_split: "i \<le> k \<Longrightarrow> ngrams_at k xs j = ngrams_at i xs j + mset (map (\<lambda>i. take i (drop j xs)) [Suc i..<Suc k])"
proof (induction k)
  case (Suc k)
  then show ?case
  proof (cases "i = Suc k")
    case False
    then have "i \<le> k" "[Suc i..<Suc (Suc k)] = [Suc i..<Suc k] @ [Suc k]" using Suc.prems by simp_all
    then show ?thesis using Suc.IH by (simp only: ngrams_at_Suc map_append mset_append) simp
  qed simp
qed simp

lemma ComputeNgramStats_counted:
  assumes m: "holds m R {#}" and R: "prefix_closed R" and N: "0 \<le> N"
  shows "\<exists>m' correct hyp. ComputeNgramStats N m sent True = Some (m', correct, hyp) \<and> counted (nat N) R (all_ngrams (nat N) sent) m' correct hyp"
proof -
  let ?A = "ngrams_before (nat N) sent" and ?s = "vsize sent"
  let ?body = "\<lambda>j (ngrams, correct, hyp). do {
       let remaining = ?s - j;
       let k = (if N < remaining then N else remaining);
       map_option snd (for_break (int_range 1 (k + 1)) (count_ngram True sent j k) ([], ngrams, correct, hyp)) }"
  let ?C = "\<lambda>A (m, correct, hyp). counted (nat N) R A m correct hyp"
  have "\<exists>t. for_each (int_range 0 ?s) ?body (m, replicate (nat N) 0, replicate (nat N) 0) = Some t \<and> ?C (?A (nat ?s)) t"
  proof (rule for_range_total [where I = "\<lambda>j. ?C (?A (nat j))"])
    show "?C (?A (nat 0)) (m, replicate (nat N) 0, replicate (nat N) 0)" using m by (simp add: counted_def)
  next
    fix j and st :: "ngram_counts \<times> int list \<times> int list"
    assume j: "0 \<le> j" "j < ?s" and c: "?C (?A (nat j)) st"
    let ?k = "if N < ?s - j then N else ?s - j" and ?ng = "\<lambda>i. take i (drop (nat j) sent)"
    let ?B = "\<lambda>i. ?A (nat j) + ngrams_at i sent (nat j)"
    have k: "nat ?k \<le> nat N" "0 \<le> ?k" "nat j + nat ?k \<le> length sent" using N j by (auto simp: vsize_def)
    have "ensures (for_break (int_range 1 (?k + 1)) (count_ngram True sent j ?k) ([], st)) (\<lambda>(g, t). ?C (?B (nat ?k)) t)"
    proof (rule ensures_break_range [where I = "\<lambda>i (g, t). g = ?ng (nat i - 1) \<and> ?C (?B (nat i - 1)) t"])
      show "case ([], st) of (g, t) \<Rightarrow> g = ?ng (nat 1 - 1) \<and> ?C (?B (nat 1 - 1)) t" using c by (simp add: ngrams_at_Suc)
    next
      fix i and gt :: "int list \<times> ngram_counts \<times> int list \<times> int list"
      assume i: "1 \<le> i" "i < ?k + 1" and I: "case gt of (g, t) \<Rightarrow> g = ?ng (nat i - 1) \<and> ?C (?B (nat i - 1)) t"
      define l where "l = nat i - 1"
      have il: "i = int (Suc l)" using i by (simp add: l_def)
      obtain ngs correct hyp where gt: "gt = (?ng l, ngs, correct, hyp)" and cnt: "counted (nat N) R (?B l) ngs correct hyp"
        using I by (cases gt) (auto simp: l_def)
      have lk: "l < nat ?k" "l < nat N" "nat j + l < length sent" using il i(2) k by linarith+
      let ?g = "?ng (Suc l)"
      have w: "vat sent (j + i - 1) = Some (sent ! (nat j + l))"
        using vat_nat [of "nat j + l" sent] lk(3) j(1) by (simp add: il)
      have g: "?ng l @ [sent ! (nat j + l)] = ?g" "length ?g = Suc l" using lk(3) by (simp_all add: take_Suc_conv_app_nth)
      have p: "or_zeros (om_get NGramCompare ?g ngs) = (int (count R ?g), int (count (?B l \<inter># R) ?g))" using cnt by (simp add: counted_def holds_def)
      have len: "length correct = nat N" "length hyp = nat N" using cnt by (simp_all add: counted_def)
      have hit: "int (count (?B l \<inter># R) ?g) < int (count R ?g) \<longleftrightarrow> count (?B l) ?g < count R ?g" by (simp add: min_less_iff_disj)
      let ?m = "om_update NGramCompare ?g (\<lambda>p. if count (?B l) ?g < count R ?g then (fst (or_zeros p), snd (or_zeros p) + 1) else or_zeros p) ngs"
      let ?correct = "if count (?B l) ?g < count R ?g then correct[l := correct ! l + 1] else correct"
      have B: "?B (Suc l) = add_mset ?g (?B l)" by (simp add: ngrams_at_Suc)
      have next_counted: "counted (nat N) R (?B (Suc l)) ?m ?correct (hyp[l := hyp ! l + 1])"
        unfolding B by (rule counted_add [OF cnt g(2) lk(2)])
      have upd: "vat xs (i - 1) = Some (xs ! l)" "vset xs (i - 1) v = Some (xs[l := v])" if "length xs = nat N" for xs :: "int list" and v
        using that lk(2) il by simp_all
      have cset: "(if count (?B l) ?g < count R ?g then do { c \<leftarrow> vat correct (i - 1); vset correct (i - 1) (c + 1) } else Some correct) = Some ?correct"
        using upd len by simp
      have pre: "count_ngram True sent j ?k i gt =
        (if count R ?g = 0 then do {
           hyp \<leftarrow> for_each (int_range i (?k + 1)) (\<lambda>i hyp. do { h \<leftarrow> vat hyp (i - 1); vset hyp (i - 1) (h + 1) }) hyp;
           Some ((?g, ?m, ?correct, hyp), False) }
         else Some ((?g, ?m, ?correct, hyp[l := hyp ! l + 1]), True))"
        unfolding count_ngram_def gt Let_def prod.case w bind.bind_lunit g(1) p fst_conv snd_conv if_True hit cset of_nat_eq_0_iff
        by (simp only: upd [OF len(2)] bind.bind_lunit)
      show "ensures (count_ngram True sent j ?k i gt) (\<lambda>(s', go). if go then (case s' of (g, t) \<Rightarrow> g = ?ng (nat (i + 1) - 1) \<and> ?C (?B (nat (i + 1) - 1)) t)
          else (case s' of (g, t) \<Rightarrow> ?C (?B (nat ?k)) t))"
      proof (cases "count R ?g = 0")
        case False
        have "nat (i + 1) - 1 = Suc l" using il by simp
        moreover have "(count R ?g = 0) = False" using False by blast
        ultimately show ?thesis unfolding pre using next_counted by (simp only: if_False ensures_Some prod.case if_True simp_thms)
      next
        case True
        let ?rest = "mset (map ?ng [Suc l..<Suc (nat ?k)])"
        let ?J = "\<lambda>i' h. length h = nat N \<and> (\<forall>x < nat N. h ! x = hyp ! x + (if int l \<le> int x \<and> int x + 1 < i' then 1 else 0))"
        have "\<exists>h. for_each (int_range i (?k + 1)) (\<lambda>i hyp. do { h \<leftarrow> vat hyp (i - 1); vset hyp (i - 1) (h + 1) }) hyp = Some h \<and> ?J (?k + 1) h"
        proof (rule for_range_total [where I = ?J])
          show "?J i hyp" using len il by simp
        next
          fix i' h assume i': "i \<le> i'" "i' < ?k + 1" and J: "?J i' h"
          define x where "x = nat (i' - 1)"
          have x: "i' = int x + 1" "x < nat N" "l \<le> x" using i' il k unfolding x_def by linarith+
          have "?J (i' + 1) (h[x := h ! x + 1])" using J x by (auto simp: nth_list_update)
          moreover have "vat h (i' - 1) = Some (h ! x)" "vset h (i' - 1) (h ! x + 1) = Some (h[x := h ! x + 1])" using J x by simp_all
          ultimately show "\<exists>s'. do { h' \<leftarrow> vat h (i' - 1); vset h (i' - 1) (h' + 1) } = Some s' \<and> ?J (i' + 1) s'" by auto
        qed (use i in simp)
        then obtain h where h: "for_each (int_range i (?k + 1)) (\<lambda>i hyp. do { h \<leftarrow> vat hyp (i - 1); vset hyp (i - 1) (h + 1) }) hyp = Some h"
          and J: "?J (?k + 1) h" by blast
        have missing: "g \<notin># R" if "g \<in># ?rest" for g
        proof
          assume "g \<in># R"
          obtain i' where "Suc l \<le> i'" "g = ?ng i'" using \<open>g \<in># ?rest\<close> by auto
          then have "?g = take (Suc l) g" by (simp add: min_absorb1)
          then have "?g \<in># R" using R \<open>g \<in># R\<close> unfolding prefix_closed_def by auto
          then show False using True not_in_iff by metis
        qed
        have sizes: "size {#g \<in># ?rest. length g = Suc x#} = (if l \<le> x \<and> x < nat ?k then 1 else 0)" for x
        proof -
          have lens: "length (?ng i') = i'" if "i' \<in> set [Suc l..<Suc (nat ?k)]" for i' using that k(3) by auto
          have "filter (\<lambda>g. length g = Suc x) (map ?ng [Suc l..<Suc (nat ?k)]) = map ?ng (filter (\<lambda>i'. i' = Suc x) [Suc l..<Suc (nat ?k)])"
            unfolding filter_map by (rule arg_cong [where f = "map ?ng"], rule filter_cong) (use lens in auto)
          moreover have "length (filter (\<lambda>i'. i' = Suc x) [Suc l..<Suc (nat ?k)]) = (if l \<le> x \<and> x < nat ?k then 1 else 0)"
          proof -
            have "filter (\<lambda>i'. i' = a) [m..<n] = (if m \<le> a \<and> a < n then [a] else [])" for a m n :: nat by (induction n) auto
            then show ?thesis by simp
          qed
          ultimately show ?thesis by (simp only: mset_filter [symmetric] size_mset length_map)
        qed
        have "counted (nat N) R (?B l + ?rest) ?m ?correct h"
        proof -
          have ne: "\<not> count (?B l) ?g < count R ?g" using True by simp
          have before: "holds ngs R (?B l \<inter># R)" using cnt by (simp add: counted_def)
          have same: "holds (om_update NGramCompare ?g (\<lambda>p. or_zeros p) ngs) R (?B l \<inter># R)"
            by (rule holds_update [OF before]) (use before in \<open>auto simp: holds_def\<close>)
          have "holds ?m R (?B l \<inter># R)" using same by (simp only: ne if_False)
          then have "counted (nat N) R (?B l) ?m ?correct hyp" using cnt ne by (simp add: counted_def)
          then show ?thesis
          proof (rule counted_skip)
            show "length h = nat N" using J by simp
            show "h ! x = hyp ! x + int (size {#g \<in># ?rest. length g = Suc x#})" if "x < nat N" for x
              using J that k(2) unfolding sizes by auto
          qed (use missing in blast)
        qed
        moreover have "?B l + ?rest = ?B (nat ?k)" using ngrams_at_split [of l "nat ?k" sent "nat j"] lk by simp
        ultimately show ?thesis unfolding pre using True h by (simp only: if_True if_False bind.bind_lunit ensures_Some prod.case simp_thms)
      qed
    next
      fix t :: "int list \<times> ngram_counts \<times> int list \<times> int list"
      assume "case t of (g, t) \<Rightarrow> g = ?ng (nat (?k + 1) - 1) \<and> ?C (?B (nat (?k + 1) - 1)) t"
      moreover have "nat (?k + 1) - 1 = nat ?k" using k(2) by simp
      ultimately show "case t of (g, t) \<Rightarrow> ?C (?B (nat ?k)) t" by auto
    qed (use k in simp)
    then obtain g t where run: "for_break (int_range 1 (?k + 1)) (count_ngram True sent j ?k) ([], st) = Some (g, t)" and t: "?C (?B (nat ?k)) t"
      by (auto simp: ensures_def)
    have "nat ?k = min (nat N) (length sent - nat j)" "nat (j + 1) = Suc (nat j)"
      using N j by (auto simp: vsize_def min_def nat_diff_distrib split: if_splits)
    then have "?C (?A (nat (j + 1))) t" using t by simp
    then show "\<exists>s'. ?body j st = Some s' \<and> ?C (?A (nat (j + 1))) s'" using run by (cases st) (auto simp: Let_def)
  qed simp
  then show ?thesis by (auto simp: ComputeNgramStats_def all_ngrams_def vsize_def)
qed

section \<open>BLEU counts clipped matches\<close>

text \<open>The n-grams of the references: each as often as the reference that has it most often.\<close>

definition reference_ngrams :: "nat \<Rightarrow> int list list \<Rightarrow> int list multiset" where
  "reference_ngrams i refs = fold (\<lambda>r R. R \<union># mset (ngrams i r)) refs {#}"

definition reference_counts :: "nat \<Rightarrow> int list list \<Rightarrow> int list multiset" where
  "reference_counts N refs = fold (\<lambda>r R. R \<union># all_ngrams N r) refs {#}"

lemma filter_union_mset: "filter_mset P (A \<union># B) = filter_mset P A \<union># filter_mset P B"
  by (rule multiset_eqI) simp

lemma reference_counts_length:
  assumes "i < N" shows "filter_mset (\<lambda>g. length g = Suc i) (reference_counts N refs) = reference_ngrams (Suc i) refs"
proof -
  have "filter_mset (\<lambda>g. length g = Suc i) (fold (\<lambda>r R. R \<union># all_ngrams N r) refs R) =
      fold (\<lambda>r R. R \<union># mset (ngrams (Suc i) r)) refs (filter_mset (\<lambda>g. length g = Suc i) R)" for R
    using assms by (induction refs arbitrary: R) (simp_all add: filter_union_mset all_ngrams_length)
  then show ?thesis by (simp add: reference_counts_def reference_ngrams_def)
qed

lemma reference_counts_prefix_closed: "prefix_closed (reference_counts N refs)"
proof -
  have "prefix_closed R \<Longrightarrow> prefix_closed (fold (\<lambda>r R. R \<union># all_ngrams N r) refs R)" for R
    by (induction refs arbitrary: R) (simp_all add: prefix_closed_Un prefix_closed_all)
  then show ?thesis by (simp add: reference_counts_def prefix_closed_def)
qed

lemma count_refs:
  assumes "0 \<le> N" "holds m R {#}"
  shows "\<exists>m'. for_each refs (\<lambda>ci m. CountRef N m ci) m = Some m' \<and> holds m' (fold (\<lambda>r R. R \<union># all_ngrams (nat N) r) refs R) {#}"
  using assms(2)
proof (induction refs arbitrary: m R)
  case (Cons r refs)
  obtain m' where "CountRef N m r = Some m'" "holds m' (R \<union># all_ngrams (nat N) r) {#}" using CountRef_holds [OF Cons.prems assms(1)] by blast
  then show ?case using Cons.IH by auto
qed simp

lemma filter_inter_mset: "filter_mset P (A \<inter># B) = filter_mset P A \<inter># filter_mset P B"
  by (rule multiset_eqI) simp

lemma counted_lengths:
  assumes "counted N (reference_counts N refs) (all_ngrams N hyp) m correct h" "i < N"
  shows "correct ! i = int (size (mset (ngrams (Suc i) hyp) \<inter># reference_ngrams (Suc i) refs))" "h ! i = int (length (ngrams (Suc i) hyp))"
  using assms by (simp_all add: counted_def filter_inter_mset all_ngrams_length reference_counts_length)

text \<open>C32. An evaluator built from any references and then applied to any hypothesis counts for every order
  \<open>i\<close> up to \<open>N\<close> all n-grams of the hypothesis, and as matches the n-grams of the hypothesis that can be
  paired with those of the references, each n-gram at most as often as one reference has it.\<close>

theorem Evaluate_clipped_counts:
  assumes "refs \<noteq> []" "0 < N"
  shows "\<exists>ev ev' correct counts hyp_len ref_len. BleuSegmentEvaluator fl N brevity refs = Some ev \<and>
    Evaluate fl N brevity ev hyp = Some (ev', correct, counts, hyp_len, ref_len) \<and> length correct = nat N \<and> length counts = nat N \<and>
    (\<forall>i < nat N. correct ! i = int (size (mset (ngrams (Suc i) hyp) \<inter># reference_ngrams (Suc i) refs)) \<and>
      counts ! i = int (length (ngrams (Suc i) hyp)))"
proof -
  let ?step = "\<lambda>ci (lengths, tot, smallest, ngrams). do {
       let len = fl_of_int fl (vsize ci);
       ngrams \<leftarrow> CountRef N ngrams ci;
       Some (lengths @ [len], fl_add fl tot len, if fl_less fl len (fl_of_int fl smallest) then vsize ci else smallest, ngrams) }"
  have "\<exists>ls tot' sm' m'. for_each rs ?step (lengths, tot, sm, m) = Some (lengths @ ls, tot', sm', m') \<and> length ls = length rs \<and>
      holds m' (fold (\<lambda>r R. R \<union># all_ngrams (nat N) r) rs R) {#}" if "holds m R {#}" for rs lengths tot sm m R
    using that
  proof (induction rs arbitrary: lengths tot sm m R)
    case (Cons r rs)
    obtain m' where m': "CountRef N m r = Some m'" "holds m' (R \<union># all_ngrams (nat N) r) {#}" using CountRef_holds [OF Cons.prems, of N r] assms(2) by fastforce
    obtain ls tot' sm' m'' where "for_each rs ?step (lengths @ [fl_of_int fl (vsize r)], fl_add fl tot (fl_of_int fl (vsize r)),
        if fl_less fl (fl_of_int fl (vsize r)) (fl_of_int fl sm) then vsize r else sm, m') = Some ((lengths @ [fl_of_int fl (vsize r)]) @ ls, tot', sm', m'')"
      "length ls = length rs" "holds m'' (fold (\<lambda>r R. R \<union># all_ngrams (nat N) r) rs (R \<union># all_ngrams (nat N) r)) {#}"
      using Cons.IH [OF m'(2)] by blast
    then show ?case using m'(1) by (intro exI [of _ "fl_of_int fl (vsize r) # ls"] exI [of _ tot'] exI [of _ sm'] exI [of _ m'']) (simp add: Let_def)
  qed simp
  from this [OF holds_Nil, of refs "[]" "fl_of_int fl 0" 9999999]
  obtain ls tot sm m where run: "for_each refs ?step ([], fl_of_int fl 0, 9999999, []) = Some (ls, tot, sm, m)" and ls: "length ls = length refs"
    and m: "holds m (reference_counts (nat N) refs) {#}" by (auto simp: reference_counts_def)
  have pos: "0 < length ls" using ls assms(1) by simp
  obtain ev where ev: "BleuSegmentEvaluator fl N brevity refs = Some ev" "be_ngrams ev = m" "length (be_lengths ev) = length refs"
  proof -
    have v: "vset l 0 v = Some (l[0 := v])" if "0 < length l" for l :: "'a list" and v using that by (simp add: vset_def)
    show thesis using run assms(1) ls v [OF pos] v [of "ls[0 := _]"] that by (cases brevity) (auto simp: BleuSegmentEvaluator_def)
  qed
  have "vat (be_lengths ev) 0 = Some (be_lengths ev ! 0)" using ev(3) assms(1) by (simp add: vat_eq)
  moreover obtain m' correct counts where cs: "ComputeNgramStats N (clear_matches m) hyp True = Some (m', correct, counts)"
    and c: "counted (nat N) (reference_counts (nat N) refs) (all_ngrams (nat N) hyp) m' correct counts"
    using ComputeNgramStats_counted [OF clear_matches_holds [OF m] reference_counts_prefix_closed, of N hyp] assms(2) by auto
  ultimately show ?thesis
    using ev counted_lengths [OF c] c by (auto simp: Evaluate_def counted_def Let_def)
qed

lemma Evaluate_clipped_counts_witness:
  "\<exists>ev ev' correct counts hyp_len ref_len. BleuSegmentEvaluator (exact (\<lambda>_. 0)) 2 IBM [[1, 2, 1], [1, 1, 3]] = Some ev \<and>
    Evaluate (exact (\<lambda>_. 0)) 2 IBM ev [1, 1, 1, 2] = Some (ev', correct, counts, hyp_len, ref_len) \<and> correct ! 0 = 3 \<and> counts ! 0 = 4"
proof -
  have "mset (ngrams (Suc 0) [1, 1, 1, 2]) \<inter># reference_ngrams (Suc 0) [[1, 2, 1], [1, 1, 3]] = {#[1], [1], [2]#}"
    "length (ngrams (Suc 0) [1, 1, 1, 2 :: int]) = 4"
    by (code_simp, code_simp)
  then show ?thesis
    using Evaluate_clipped_counts [of "[[1, 2, 1], [1, 1, 3]]" 2 "exact (\<lambda>_. 0)" IBM "[1, 1, 1, 2]"] by force
qed

text \<open>The scorer of \<open>scorer.cc\<close> counts the same.\<close>

lemma ScoreCandidate_clipped_counts:
  assumes "0 < N"
  shows "\<exists>sc sc' b. BLEUScorerBase refs N = Some sc \<and> BLEU_ScoreCandidate fl ref_length sc hyp = Some (sc', b) \<and>
    (\<forall>i < nat N. bl_correct b ! i = fl_of_int fl (int (size (mset (ngrams (Suc i) hyp) \<inter># reference_ngrams (Suc i) refs))) \<and>
      bl_hyp b ! i = fl_of_int fl (int (length (ngrams (Suc i) hyp))))"
proof -
  obtain m where run: "for_each refs (\<lambda>ci m. CountRef N m ci) [] = Some m" and m: "holds m (reference_counts (nat N) refs) {#}"
    using count_refs [of N "[]" "{#}" refs] assms holds_Nil by (auto simp: reference_counts_def)
  obtain m' correct counts where cs: "ComputeNgramStats N (clear_matches m) hyp True = Some (m', correct, counts)"
    and c: "counted (nat N) (reference_counts (nat N) refs) (all_ngrams (nat N) hyp) m' correct counts"
    using ComputeNgramStats_counted [OF clear_matches_holds [OF m] reference_counts_prefix_closed, of N hyp] assms by auto
  have "length correct = nat N" "length counts = nat N" using c by (simp_all add: counted_def)
  then show ?thesis
    using run cs counted_lengths [OF c] by (simp add: BLEUScorerBase_def BLEU_ScoreCandidate_def bleu_candidate_def)
qed

end
