(* ===== verification/MertGeometry.thy ===== *)
theory MertGeometry
  imports Viterbi
begin

text \<open>
  The upper envelope semiring of minimum error rate training (\<open>training/dpmert/mert_geometry.h\<close>,
  \<open>mert_geometry.cc\<close>). Along a line of weight vectors the score of a translation is a linear function; a
  hull keeps those that are best somewhere. A point is a value here: the code keeps points behind shared
  pointers and sorts them in place, which the hulls made by the inside algorithm do not notice, as no two
  of them share points before they are sorted. \<open>std::sort\<close> is a parameter, as lines of equal slope may come
  in any order.
\<close>

section \<open>Points and hulls\<close>

datatype ('d, 'e) mert_point =
  MERTPoint (mp_x: 'd) (mp_m: 'd) (mp_b: 'd) (mp_p1: "('d, 'e) mert_point option") (mp_p2: "('d, 'e) mert_point option") (mp_edge: "'e option")

record ('d, 'e) convex_hull =
  ch_sorted :: bool
  ch_points :: "('d, 'e) mert_point list"

definition set_x :: "'d \<Rightarrow> ('d, 'e) mert_point \<Rightarrow> ('d, 'e) mert_point" where
  "set_x x p = MERTPoint x (mp_m p) (mp_b p) (mp_p1 p) (mp_p2 p) (mp_edge p)"

definition kMinusInfinity :: "('d, 'z) log_floats_scheme \<Rightarrow> 'd" where
  "kMinusInfinity fl = fl_neg fl (lf_infinity fl)"

definition IsMultiplicativeIdentity :: "('d, 'z) log_floats_scheme \<Rightarrow> ('d, 'e) convex_hull \<Rightarrow> bool" where
  "IsMultiplicativeIdentity fl h = (case ch_points h of
      [p] \<Rightarrow> lf_eq fl (mp_b p) (fl_of_int fl 0) \<and> lf_eq fl (mp_m p) (fl_of_int fl 0) \<and>
        mp_edge p = None \<and> mp_p1 p = None \<and> mp_p2 p = None
    | _ \<Rightarrow> False)"

definition IsEdgeEnvelope :: "('d, 'e) convex_hull \<Rightarrow> bool" where
  "IsEdgeEnvelope h = (case ch_points h of [p] \<Rightarrow> mp_edge p \<noteq> None | _ \<Rightarrow> False)"

text \<open>The constructor from a number leaves \<open>is_sorted\<close> uninitialised, the parameter \<open>garbage\<close>.\<close>

definition ConvexHull_zero :: "('d, 'e) convex_hull" where
  "ConvexHull_zero = \<lparr>ch_sorted = True, ch_points = []\<rparr>"

definition ConvexHull_int :: "('d, 'z) log_floats_scheme \<Rightarrow> bool \<Rightarrow> int \<Rightarrow> ('d, 'e) convex_hull option" where
  "ConvexHull_int fl garbage i = do {
     check (i = 0 \<or> i = 1);
     let h = \<lparr>ch_sorted = garbage, ch_points = (if i = 0 then [] else [MERTPoint (fl_of_int fl 0) (fl_of_int fl 0) (fl_of_int fl 0) None None None])\<rparr>;
     check (i = 1 \<longrightarrow> IsMultiplicativeIdentity fl h);
     Some h }"

definition ConvexHullWeightFunction :: "('d, 'z) log_floats_scheme \<Rightarrow> 'd hash_order \<Rightarrow> 'd svec \<Rightarrow> 'd svec \<Rightarrow>
    ('d svec, 'w) edge \<Rightarrow> ('d, ('d svec, 'w) edge) convex_hull" where
  "ConvexHullWeightFunction fl ord origin direction e =
     (let m = sv_dot (sv_double fl) ord direction (ed_features e); b = sv_dot (sv_double fl) ord origin (ed_features e) in
     \<lparr>ch_sorted = True, ch_points = [MERTPoint (kMinusInfinity fl) m b None None (Some e)]\<rparr>)"

section \<open>Sorting\<close>

definition SlopeCompare :: "('d, 'z) floats_scheme \<Rightarrow> ('d, 'e) mert_point \<Rightarrow> ('d, 'e) mert_point \<Rightarrow> bool" where
  "SlopeCompare fl a b = fl_less fl (mp_m a) (mp_m b)"

text \<open>The lines that the line \<open>l\<close> covers, from the last one back.\<close>

function pop_lines :: "('d, 'z) floats_scheme \<Rightarrow> ('d, 'e) mert_point list \<Rightarrow> ('d, 'e) mert_point \<Rightarrow> int \<Rightarrow> (('d, 'e) mert_point \<times> int) option" where
  "pop_lines fl points l j = (if 0 < j then do {
       q \<leftarrow> vat points (j - 1);
       let l = set_x (fl_div fl (fl_sub fl (mp_b l) (mp_b q)) (fl_sub fl (mp_m q) (mp_m l))) l;
       if fl_less fl (mp_x q) (mp_x l) then Some (l, j) else pop_lines fl points l (j - 1) }
     else Some (l, j))"
  by pat_completeness auto
termination
  by (relation "measure (\<lambda>(fl, points, l, j). nat j)") auto

declare pop_lines.simps [simp del]

definition sort_step :: "('d, 'z) log_floats_scheme \<Rightarrow> int \<Rightarrow> ('d, 'e) mert_point list \<times> int \<Rightarrow> (('d, 'e) mert_point list \<times> int) option" where
  "sort_step fl i s = do {
     let (points, j) = s;
     p \<leftarrow> vat points i;
     let l = set_x (kMinusInfinity fl) p;
     if 0 < j then do {
       q \<leftarrow> vat points (j - 1);
       if lf_eq fl (mp_m q) (mp_m l) \<and> (fl_less fl (mp_b l) (mp_b q) \<or> lf_eq fl (mp_b l) (mp_b q)) then Some (points, j)
       else do {
         (l, j) \<leftarrow> pop_lines fl points l (if lf_eq fl (mp_m q) (mp_m l) then j - 1 else j);
         let l = (if j = 0 then set_x (kMinusInfinity fl) l else l);
         points \<leftarrow> vset points j l;
         Some (points, j + 1) } }
     else do {
       points \<leftarrow> vset points j l;
       Some (points, j + 1) } }"

definition Sort :: "('d, 'z) log_floats_scheme \<Rightarrow> (('d, 'e) mert_point list \<Rightarrow> ('d, 'e) mert_point list) \<Rightarrow> ('d, 'e) convex_hull \<Rightarrow> ('d, 'e) convex_hull option" where
  "Sort fl srt h = do {
     let points = srt (ch_points h);
     (points, j) \<leftarrow> for_each (positions points) (sort_step fl) (points, 0);
     Some \<lparr>ch_sorted = True, ch_points = take (nat j) points\<rparr> }"

definition make_sorted :: "('d, 'z) log_floats_scheme \<Rightarrow> (('d, 'e) mert_point list \<Rightarrow> ('d, 'e) mert_point list) \<Rightarrow> ('d, 'e) convex_hull \<Rightarrow> ('d, 'e) convex_hull option" where
  "make_sorted fl srt h = (if ch_sorted h then Some h else Sort fl srt h)"

definition GetSortedSegs :: "('d, 'z) log_floats_scheme \<Rightarrow> (('d, 'e) mert_point list \<Rightarrow> ('d, 'e) mert_point list) \<Rightarrow> ('d, 'e) convex_hull \<Rightarrow> ('d, 'e) mert_point list option" where
  "GetSortedSegs fl srt h = map_option ch_points (make_sorted fl srt h)"

section \<open>Sum and product\<close>

text \<open>The operand is sorted in place, which is only a cache, and stays as it is in the model.\<close>

definition hull_plus :: "('d, 'z) log_floats_scheme \<Rightarrow> (('d, 'e) mert_point list \<Rightarrow> ('d, 'e) mert_point list) \<Rightarrow>
    ('d, 'e) convex_hull \<Rightarrow> ('d, 'e) convex_hull \<Rightarrow> ('d, 'e) convex_hull option" where
  "hull_plus fl srt h other = do {
     other \<leftarrow> make_sorted fl srt other;
     Some (if ch_points h = [] then h\<lparr>ch_points := ch_points other\<rparr>
       else \<lparr>ch_sorted = False, ch_points = ch_points h @ ch_points other\<rparr>) }"

definition next_val :: "('d, 'z) log_floats_scheme \<Rightarrow> ('d, 'e) mert_point list \<Rightarrow> int \<Rightarrow> 'd option" where
  "next_val fl points i = (if i + 1 < vsize points then map_option mp_x (vat points (i + 1)) else Some (lf_infinity fl))"

definition mul_point :: "('d, 'z) floats_scheme \<Rightarrow> 'd \<Rightarrow> ('d, 'e) mert_point \<Rightarrow> ('d, 'e) mert_point \<Rightarrow> ('d, 'e) mert_point" where
  "mul_point fl x p q = MERTPoint x (fl_add fl (mp_m p) (mp_m q)) (fl_add fl (mp_b p) (mp_b q)) (Some p) (Some q) None"

function merge_segments :: "('d, 'z) log_floats_scheme \<Rightarrow> ('d, 'e) mert_point list \<Rightarrow> ('d, 'e) mert_point list \<Rightarrow> int \<Rightarrow> int \<Rightarrow> 'd \<Rightarrow> 'd \<Rightarrow> 'd \<Rightarrow>
    ('d, 'e) mert_point list \<Rightarrow> ('d, 'e) mert_point list option" where
  "merge_segments fl points other this_i other_i cur_x this_next_val other_next_val new_points =
     (if this_i < vsize points \<and> other_i < vsize other then do {
        this_point \<leftarrow> vat points this_i;
        other_point \<leftarrow> vat other other_i;
        let new_points = new_points @ [mul_point fl cur_x this_point other_point];
        let comp = (if fl_less fl this_next_val other_next_val then -1 else if fl_less fl other_next_val this_next_val then 1 else 0 :: int);
        if comp = 0 then do {
          t \<leftarrow> next_val fl points (this_i + 1);
          u \<leftarrow> next_val fl other (other_i + 1);
          merge_segments fl points other (this_i + 1) (other_i + 1) this_next_val t u new_points }
        else if comp = -1 then do {
          t \<leftarrow> next_val fl points (this_i + 1);
          merge_segments fl points other (this_i + 1) other_i this_next_val t other_next_val new_points }
        else do {
          u \<leftarrow> next_val fl other (other_i + 1);
          merge_segments fl points other this_i (other_i + 1) other_next_val this_next_val u new_points } }
      else Some new_points)"
  by pat_completeness auto
termination
  by (relation "measure (\<lambda>(fl, points, other, i, j, _). nat (vsize points - i) + nat (vsize other - j))") auto

declare merge_segments.simps [simp del]

definition hull_times :: "('d, 'z) log_floats_scheme \<Rightarrow> (('d, 'e) mert_point list \<Rightarrow> ('d, 'e) mert_point list) \<Rightarrow>
    ('d, 'e) convex_hull \<Rightarrow> ('d, 'e) convex_hull \<Rightarrow> ('d, 'e) convex_hull option" where
  "hull_times fl srt h other =
     (if IsMultiplicativeIdentity fl other then Some h
      else if IsMultiplicativeIdentity fl h then Some other
      else do {
        h \<leftarrow> make_sorted fl srt h;
        other \<leftarrow> make_sorted fl srt other;
        if IsEdgeEnvelope h then do {
          edge_parent \<leftarrow> vat (ch_points h) 0;
          Some (h\<lparr>ch_points := map (\<lambda>p. MERTPoint (mp_x p) (fl_add fl (mp_m p) (mp_m edge_parent)) (fl_add fl (mp_b p) (mp_b edge_parent))
            (Some edge_parent) (Some p) None) (ch_points other)\<rparr>) }
        else do {
          t \<leftarrow> next_val fl (ch_points h) 0;
          u \<leftarrow> next_val fl (ch_points other) 0;
          new_points \<leftarrow> merge_segments fl (ch_points h) (ch_points other) 0 0 (kMinusInfinity fl) t u [];
          Some (h\<lparr>ch_points := new_points\<rparr>) } })"

definition ConvexHull_weights :: "('d, 'z) log_floats_scheme \<Rightarrow> bool \<Rightarrow> (('d, 'e) mert_point list \<Rightarrow> ('d, 'e) mert_point list) \<Rightarrow>
    ('d, 'e) convex_hull option weights" where
  "ConvexHull_weights fl garbage srt = \<lparr>w_zero = Some ConvexHull_zero, w_one = ConvexHull_int fl garbage 1,
     w_add = \<lambda>a b. do { a \<leftarrow> a; b \<leftarrow> b; hull_plus fl srt a b }, w_mul = \<lambda>a b. do { a \<leftarrow> a; b \<leftarrow> b; hull_times fl srt a b }\<rparr>"

section \<open>Reading a point\<close>

text \<open>
  From a point the first parents lead to the point of an edge; the second parents on the way, from the last
  tail to the first, are the points of the tails.
\<close>

definition substitute_edge :: "int list list \<times> ('f, 'w) edge \<Rightarrow> int list option" where
  "substitute_edge s = do {
     let (ant_trans, e) = s;
     check (length ant_trans = length (ed_tails e));
     rule \<leftarrow> ed_rule e;
     ESubstitute rule (rev ant_trans) }"

fun collect_translations :: "('d, ('f, 'w) edge) mert_point \<Rightarrow> (int list list \<times> ('f, 'w) edge) option" where
  "collect_translations (MERTPoint x m b p1 p2 (Some e)) = Some ([], e)"
| "collect_translations (MERTPoint x m b (Some p1) (Some p2) None) = do {
     s \<leftarrow> collect_translations p2;
     t \<leftarrow> substitute_edge s;
     (ant_trans, e) \<leftarrow> collect_translations p1;
     Some (t # ant_trans, e) }"
| "collect_translations (MERTPoint x m b p1 p2 None) = None"

definition ConstructTranslation :: "('d, ('f, 'w) edge) mert_point \<Rightarrow> int list option" where
  "ConstructTranslation p = do { s \<leftarrow> collect_translations p; substitute_edge s }"

fun CollectEdgesUsed :: "('d, ('f, 'w) edge) mert_point \<Rightarrow> bool list \<Rightarrow> bool list option" where
  "CollectEdgesUsed (MERTPoint x m b p1 p2 e) edges_used = do {
     edges_used \<leftarrow> (case e of Some e \<Rightarrow> vset edges_used (ed_id e) True | None \<Rightarrow> Some edges_used);
     edges_used \<leftarrow> (case p1 of Some p \<Rightarrow> CollectEdgesUsed p edges_used | None \<Rightarrow> Some edges_used);
     (case p2 of Some p \<Rightarrow> CollectEdgesUsed p edges_used | None \<Rightarrow> Some edges_used) }"

section \<open>Lines\<close>

text \<open>The numbers in the order of \<open>x_less\<close>, with the not-a-number last.\<close>

fun x_rank :: "xreal \<Rightarrow> nat" where
  "x_rank MInf = 0" | "x_rank (Fin a) = 1" | "x_rank PInf = 2" | "x_rank NaN = 3"

fun x_fin :: "xreal \<Rightarrow> real" where
  "x_fin (Fin a) = a"
| "x_fin x = 0"

instantiation xreal :: linorder
begin

definition less_eq_xreal :: "xreal \<Rightarrow> xreal \<Rightarrow> bool" where
  "less_eq_xreal x y \<longleftrightarrow> x_rank x < x_rank y \<or> (x_rank x = x_rank y \<and> x_fin x \<le> x_fin y)"

definition less_xreal :: "xreal \<Rightarrow> xreal \<Rightarrow> bool" where
  "less_xreal x y \<longleftrightarrow> x_rank x < x_rank y \<or> (x_rank x = x_rank y \<and> x_fin x < x_fin y)"

instance
proof
  fix x y :: xreal
  show "x \<le> y \<Longrightarrow> y \<le> x \<Longrightarrow> x = y" by (cases x; cases y) (auto simp: less_eq_xreal_def)
qed (auto simp: less_eq_xreal_def less_xreal_def)

end

lemma x_less_less: "x_less x y \<Longrightarrow> x < y"
  by (cases x; cases y) (auto simp: less_xreal_def)

definition slope :: "(xreal, 'e) mert_point \<Rightarrow> real" where
  "slope p = (case mp_m p of Fin a \<Rightarrow> a | _ \<Rightarrow> 0)"

definition icept :: "(xreal, 'e) mert_point \<Rightarrow> real" where
  "icept p = (case mp_b p of Fin a \<Rightarrow> a | _ \<Rightarrow> 0)"

definition line_at :: "(xreal, 'e) mert_point \<Rightarrow> real \<Rightarrow> real" where
  "line_at p t = slope p * t + icept p"

definition is_line :: "(xreal, 'e) mert_point \<Rightarrow> bool" where
  "is_line p \<longleftrightarrow> mp_m p = Fin (slope p) \<and> mp_b p = Fin (icept p)"

lemma set_x_simps [simp]: "mp_x (set_x x p) = x" "mp_m (set_x x p) = mp_m p" "mp_b (set_x x p) = mp_b p" "mp_p1 (set_x x p) = mp_p1 p"
  "mp_p2 (set_x x p) = mp_p2 p" "mp_edge (set_x x p) = mp_edge p" "slope (set_x x p) = slope p" "icept (set_x x p) = icept p"
  "line_at (set_x x p) = line_at p" "is_line (set_x x p) = is_line p" "set_x x (set_x y p) = set_x x p"
  by (simp_all add: set_x_def slope_def icept_def line_at_def is_line_def fun_eq_iff)

lemma kMinusInfinity_exact [simp]: "kMinusInfinity exact_reals = MInf"
  by (simp add: kMinusInfinity_def)

text \<open>Where the line of greater slope meets the other.\<close>

definition cross :: "(xreal, 'e) mert_point \<Rightarrow> (xreal, 'e) mert_point \<Rightarrow> real" where
  "cross q p = (icept p - icept q) / (slope q - slope p)"

lemma cross_le: "slope q < slope p \<Longrightarrow> cross q p \<le> t \<longleftrightarrow> line_at q t \<le> line_at p t"
  by (simp add: cross_def line_at_def neg_divide_le_eq algebra_simps)

lemma cross_ge: "slope q < slope p \<Longrightarrow> t \<le> cross q p \<longleftrightarrow> line_at p t \<le> line_at q t"
  by (simp add: cross_def line_at_def neg_le_divide_eq algebra_simps)

lemma cross_set_x [simp]: "cross (set_x x q) p = cross q p" "cross q (set_x x p) = cross q p"
  by (simp_all add: cross_def)

text \<open>A number against a bound of a segment.\<close>

definition below :: "xreal \<Rightarrow> real \<Rightarrow> bool" where
  "below x t \<longleftrightarrow> \<not> x_less (Fin t) x \<and> x \<noteq> NaN"

definition above :: "xreal \<Rightarrow> real \<Rightarrow> bool" where
  "above x t \<longleftrightarrow> \<not> x_less x (Fin t) \<and> x \<noteq> NaN"

lemma below_simps [simp]: "below MInf t" "below (Fin a) t \<longleftrightarrow> a \<le> t" "\<not> below PInf t" "\<not> below NaN t"
  and above_simps [simp]: "\<not> above MInf t" "above (Fin a) t \<longleftrightarrow> t \<le> a" "above PInf t" "\<not> above NaN t"
  by (auto simp: below_def above_def)

text \<open>The segment of \<open>ps ! k\<close> has \<open>t\<close>.\<close>

definition active :: "(xreal, 'e) mert_point list \<Rightarrow> nat \<Rightarrow> real \<Rightarrow> bool" where
  "active ps k t \<longleftrightarrow> k < length ps \<and> below (mp_x (ps ! k)) t \<and> (Suc k < length ps \<longrightarrow> above (mp_x (ps ! Suc k)) t)"

definition segments :: "(xreal, 'e) mert_point list \<Rightarrow> bool" where
  "segments ps \<longleftrightarrow> (ps \<noteq> [] \<longrightarrow> mp_x (ps ! 0) = MInf) \<and>
     (\<forall>k. Suc k < length ps \<longrightarrow> x_less (mp_x (ps ! k)) (mp_x (ps ! Suc k)) \<and> (\<exists>a. mp_x (ps ! Suc k) = Fin a))"

text \<open>The upper envelope of its own lines.\<close>

definition envelope :: "(xreal, 'e) mert_point list \<Rightarrow> bool" where
  "envelope ps \<longleftrightarrow> segments ps \<and> (\<forall>k t. active ps k t \<longrightarrow> (\<forall>p \<in> set ps. line_at p t \<le> line_at (ps ! k) t))"

lemma segments_mono:
  assumes "segments ps" "i \<le> k" "k < length ps" "below (mp_x (ps ! k)) t"
  shows "below (mp_x (ps ! i)) t"
  using assms(2,3,4)
proof (induction rule: inc_induct)
  case (step n)
  then have "below (mp_x (ps ! Suc n)) t" "Suc n < length ps" by auto
  moreover have "x_less (mp_x (ps ! n)) (mp_x (ps ! Suc n))" using assms(1) step by (auto simp: segments_def)
  ultimately show ?case by (cases "mp_x (ps ! n)"; cases "mp_x (ps ! Suc n)") auto
qed

lemma segments_mono_above:
  assumes "segments ps" "i \<le> k" "k < length ps" "above (mp_x (ps ! i)) t"
  shows "above (mp_x (ps ! k)) t"
  using assms(2,3)
proof (induction rule: dec_induct)
  case base
  then show ?case using assms(4) by simp
next
  case (step n)
  then have "above (mp_x (ps ! n)) t" by simp
  moreover have "x_less (mp_x (ps ! n)) (mp_x (ps ! Suc n))" using assms(1) step by (auto simp: segments_def)
  ultimately show ?case by (cases "mp_x (ps ! n)"; cases "mp_x (ps ! Suc n)") auto
qed

lemma active_exists:
  assumes "segments ps" "ps \<noteq> []"
  shows "\<exists>k. active ps k t"
proof -
  let ?K = "{k. k < length ps \<and> below (mp_x (ps ! k)) t}"
  have "0 \<in> ?K" using assms by (auto simp: segments_def)
  then have M: "Max ?K \<in> ?K" by (intro Max_in) auto
  have "above (mp_x (ps ! Suc (Max ?K))) t" if last: "Suc (Max ?K) < length ps"
  proof -
    have fin: "finite ?K" by simp
    have "Suc (Max ?K) \<notin> ?K"
    proof
      assume "Suc (Max ?K) \<in> ?K"
      with Max_ge [OF fin] have "Suc (Max ?K) \<le> Max ?K" by blast
      then show False by simp
    qed
    then have "\<not> below (mp_x (ps ! Suc (Max ?K))) t" using last by simp
    moreover obtain a where "mp_x (ps ! Suc (Max ?K)) = Fin a" using assms(1) last unfolding segments_def by blast
    ultimately show ?thesis by simp
  qed
  then show ?thesis using M unfolding active_def by blast
qed

section \<open>Sorting makes the envelope\<close>

text \<open>A stack of lines of increasing slope, each starting where it meets the one before.\<close>

definition stack :: "(xreal, 'e) mert_point list \<Rightarrow> bool" where
  "stack ps \<longleftrightarrow> (\<forall>p \<in> set ps. is_line p) \<and> (ps \<noteq> [] \<longrightarrow> mp_x (ps ! 0) = MInf) \<and>
     (\<forall>k. Suc k < length ps \<longrightarrow> slope (ps ! k) < slope (ps ! Suc k) \<and> mp_x (ps ! Suc k) = Fin (cross (ps ! k) (ps ! Suc k)) \<and>
        x_less (mp_x (ps ! k)) (mp_x (ps ! Suc k)))"

lemma stack_segments: "stack ps \<Longrightarrow> segments ps"
  by (auto simp: stack_def segments_def)

lemma stack_take: "stack ps \<Longrightarrow> stack (take k ps)"
  by (auto simp: stack_def dest: in_set_takeD)

lemma stack_envelope:
  assumes st: "stack ps" shows "envelope ps"
  unfolding envelope_def
proof (intro conjI allI impI ballI)
  show "segments ps" by (rule stack_segments [OF st])
  fix k t p
  assume act: "active ps k t" and "p \<in> set ps"
  then obtain i where i: "i < length ps" "p = ps ! i" by (auto simp: in_set_conv_nth)
  have down: "line_at (ps ! j) t \<le> line_at (ps ! Suc j) t" if "Suc j \<le> k" for j
  proof -
    have "Suc j < length ps" "k < length ps" "below (mp_x (ps ! k)) t" using that act by (auto simp: active_def)
    then have "below (mp_x (ps ! Suc j)) t" "slope (ps ! j) < slope (ps ! Suc j)" "mp_x (ps ! Suc j) = Fin (cross (ps ! j) (ps ! Suc j))"
      using st segments_mono [OF stack_segments [OF st] that] by (auto simp: stack_def)
    then show ?thesis by (simp add: cross_le)
  qed
  have up: "line_at (ps ! Suc j) t \<le> line_at (ps ! j) t" if "k \<le> j" "Suc j < length ps" for j
  proof -
    have "above (mp_x (ps ! Suc k)) t" using that act by (auto simp: active_def)
    then have "above (mp_x (ps ! Suc j)) t" "slope (ps ! j) < slope (ps ! Suc j)" "mp_x (ps ! Suc j) = Fin (cross (ps ! j) (ps ! Suc j))"
      using st segments_mono_above [OF stack_segments [OF st], of "Suc k" "Suc j"] that by (auto simp: stack_def)
    then show ?thesis by (simp add: cross_ge)
  qed
  show "line_at p t \<le> line_at (ps ! k) t"
  proof (cases "i \<le> k")
    case True
    then have "line_at (ps ! i) t \<le> line_at (ps ! k) t"
      by (induction rule: inc_induct) (use down in \<open>auto intro: order_trans simp: Suc_le_eq\<close>)
    then show ?thesis by (simp add: i)
  next
    case False
    then have "k \<le> i" by simp
    then have "line_at (ps ! i) t \<le> line_at (ps ! k) t" using i(1)
    proof (induction rule: dec_induct)
      case (step n)
      then show ?case using up [of n] by simp
    qed simp
    then show ?thesis by (simp add: i)
  qed
qed

lemma pop_lines_run:
  assumes "stack (take j points)" "j \<le> length points" "is_line l" "\<And>p. p \<in> set (take j points) \<Longrightarrow> slope p < slope l"
  shows "\<exists>x k. pop_lines exact_reals points l (int j) = Some (set_x x l, int k) \<and> k \<le> j \<and> (0 < j \<longrightarrow> 0 < k) \<and>
    (0 < k \<longrightarrow> x = Fin (cross (points ! (k - 1)) l) \<and> x_less (mp_x (points ! (k - 1))) x) \<and>
    (\<forall>t. \<forall>p \<in> set (take j points). \<exists>q \<in> insert l (set (take k points)). line_at p t \<le> line_at q t)"
  using assms
proof (induction j arbitrary: l)
  case 0
  then show ?case by (intro exI [of _ "mp_x l"] exI [of _ 0]) (simp add: pop_lines.simps set_x_def)
next
  case (Suc j)
  let ?q = "points ! j"
  have qin: "?q \<in> set (take (Suc j) points)" using Suc.prems(2) by (auto simp: take_Suc_conv_app_nth)
  have q: "vat points (int (Suc j) - 1) = Some ?q" using Suc.prems(2) by simp
  have ql: "is_line ?q" "slope ?q < slope l" using Suc.prems(1,4) qin by (auto simp: stack_def)
  have div: "fl_div exact_reals (fl_sub exact_reals (mp_b l) (mp_b ?q)) (fl_sub exact_reals (mp_m ?q) (mp_m l)) = Fin (cross ?q l)"
    using ql Suc.prems(3) by (simp add: is_line_def cross_def)
  let ?l = "set_x (Fin (cross ?q l)) l"
  have step: "pop_lines exact_reals points l (int (Suc j)) =
      (if x_less (mp_x ?q) (Fin (cross ?q l)) then Some (?l, int (Suc j)) else pop_lines exact_reals points ?l (int j))"
    by (subst pop_lines.simps) (simp only: q bind.bind_lunit div Let_def set_x_simps, simp)
  show ?case
  proof (cases "x_less (mp_x ?q) (Fin (cross ?q l))")
    case True
    then show ?thesis unfolding step
      by (intro exI [of _ "Fin (cross ?q l)"] exI [of _ "Suc j"]) auto
  next
    case False
    have sj: "stack (take j points)" using stack_take [OF Suc.prems(1), of j] by (simp add: min_def)
    have j0: "0 < j"
    proof (rule ccontr)
      assume "\<not> 0 < j"
      then have "mp_x ?q = MInf" using Suc.prems(1,2) by (auto simp: stack_def)
      then show False using False by simp
    qed
    have "Suc (j - 1) < length (take (Suc j) points)" using j0 Suc.prems(2) by simp
    then have st: "slope (take (Suc j) points ! (j - 1)) < slope (take (Suc j) points ! Suc (j - 1))"
        "mp_x (take (Suc j) points ! Suc (j - 1)) = Fin (cross (take (Suc j) points ! (j - 1)) (take (Suc j) points ! Suc (j - 1)))"
      using Suc.prems(1) unfolding stack_def by blast+
    let ?r = "points ! (j - 1)"
    have r: "slope ?r < slope ?q" "mp_x ?q = Fin (cross ?r ?q)" "?r \<in> set (take j points)"
      using st j0 Suc.prems(2) by (auto simp: in_set_conv_nth intro!: exI [of _ "j - 1"])
    obtain x k where k: "pop_lines exact_reals points ?l (int j) = Some (set_x x ?l, int k)" "k \<le> j" "0 < j \<longrightarrow> 0 < k"
        "0 < k \<longrightarrow> x = Fin (cross (points ! (k - 1)) ?l) \<and> x_less (mp_x (points ! (k - 1))) x"
        "\<forall>t. \<forall>p \<in> set (take j points). \<exists>q \<in> insert ?l (set (take k points)). line_at p t \<le> line_at q t"
      using Suc.IH [of ?l] sj Suc.prems(2,3,4) by (fastforce simp: take_Suc_conv_app_nth)
    have cover: "\<exists>q \<in> insert l (set (take k points)). line_at p t \<le> line_at q t" if "p \<in> set (take (Suc j) points)" for p t
    proof (cases "p \<in> set (take j points)")
      case True
      then show ?thesis using k(5) by fastforce
    next
      case False
      then have p: "p = ?q" using that Suc.prems(2) by (simp add: take_Suc_conv_app_nth)
      have "cross ?q l \<le> cross ?r ?q" using \<open>\<not> x_less (mp_x ?q) (Fin (cross ?q l))\<close> r(2) by simp
      then have "line_at ?q t \<le> line_at ?r t \<or> line_at ?q t \<le> line_at l t"
        using cross_ge [OF r(1), of t] cross_le [OF ql(2), of t] by linarith
      moreover obtain q where "q \<in> insert l (set (take k points))" "line_at ?r t \<le> line_at q t"
        using k(5) r(3) by fastforce
      ultimately show ?thesis unfolding p by (meson insertI1 order_trans)
    qed
    show ?thesis unfolding step if_not_P [OF False]
      by (intro exI [of _ x] exI [of _ k]) (use k cover j0 in auto)
  qed
qed

text \<open>What \<open>std::sort\<close> is known to do with lines that the comparison orders.\<close>

definition std_sort :: "('d, 'z) floats_scheme \<Rightarrow> (('d, 'e) mert_point list \<Rightarrow> ('d, 'e) mert_point list) \<Rightarrow> bool" where
  "std_sort fl srt \<longleftrightarrow> (\<forall>ps. (\<forall>p \<in> set ps. \<forall>q \<in> set ps. SlopeCompare fl p q \<or> SlopeCompare fl q p \<or> mp_m p = mp_m q) \<longrightarrow>
     mset (srt ps) = mset ps \<and> sorted_wrt (\<lambda>a b. \<not> SlopeCompare fl b a) (srt ps))"

definition covers :: "(xreal, 'e) mert_point set \<Rightarrow> (xreal, 'e) mert_point set \<Rightarrow> bool" where
  "covers Q P \<longleftrightarrow> (\<forall>t. \<forall>p \<in> P. \<exists>q \<in> Q. line_at p t \<le> line_at q t)"

lemma covers_trans: "covers R Q \<Longrightarrow> covers Q P \<Longrightarrow> covers R P"
  unfolding covers_def by (meson order_trans)

lemma covers_refl: "P \<subseteq> Q \<Longrightarrow> covers Q P"
  unfolding covers_def by blast

lemma covers_Un: "covers Q P \<Longrightarrow> covers Q P' \<Longrightarrow> covers Q (P \<union> P')"
  unfolding covers_def by blast

lemma covers_set_x: "covers (insert (set_x x l) Q) P \<longleftrightarrow> covers (insert l Q) P"
  by (simp add: covers_def)

definition sorting :: "(xreal, 'e) mert_point list \<Rightarrow> nat \<Rightarrow> (xreal, 'e) mert_point list \<Rightarrow> nat \<Rightarrow> bool" where
  "sorting xs i pts j \<longleftrightarrow> j \<le> i \<and> i \<le> length xs \<and> length pts = length xs \<and> drop i pts = drop i xs \<and> stack (take j pts) \<and>
     (\<forall>p \<in> set (take j pts). \<exists>q \<in> set (take i xs). \<exists>x. p = set_x x q) \<and> covers (set (take j pts)) (set (take i xs))"

lemma stack_snoc:
  assumes "stack (take k pts)" "k \<le> length pts" "is_line l" "0 < k \<longrightarrow> slope (pts ! (k - 1)) < slope l \<and> mp_x l = Fin (cross (pts ! (k - 1)) l) \<and> x_less (mp_x (pts ! (k - 1))) (mp_x l)"
    and "k = 0 \<longrightarrow> mp_x l = MInf"
  shows "stack (take k pts @ [l])"
  unfolding stack_def
proof (intro conjI allI impI)
  fix i
  assume i: "Suc i < length (take k pts @ [l])"
  show "slope ((take k pts @ [l]) ! i) < slope ((take k pts @ [l]) ! Suc i)"
    "mp_x ((take k pts @ [l]) ! Suc i) = Fin (cross ((take k pts @ [l]) ! i) ((take k pts @ [l]) ! Suc i))"
    "x_less (mp_x ((take k pts @ [l]) ! i)) (mp_x ((take k pts @ [l]) ! Suc i))"
    using i assms by (cases "Suc i = k"; auto simp: stack_def nth_append)+
qed (use assms in \<open>auto simp: stack_def nth_append\<close>)

lemma sort_step_run:
  assumes inv: "sorting xs i pts j" and i: "i < length xs" and srt: "sorted_wrt (\<lambda>a b. slope a \<le> slope b) xs"
    and lines: "\<forall>p \<in> set xs. is_line p"
  shows "\<exists>pts' j'. sort_step exact_reals (int i) (pts, int j) = Some (pts', int j') \<and> sorting xs (Suc i) pts' j'"
proof -
  note inv' = inv [unfolded sorting_def]
  let ?p = "xs ! i"
  let ?l = "set_x MInf ?p"
  have len: "j \<le> length pts" "i < length pts" using inv' i by auto
  have pi: "pts ! i = ?p" using inv' i by (metis Cons_nth_drop_Suc len(2) list.inject)
  have at: "vat pts (int i) = Some ?p" using len pi by simp
  have pl: "is_line ?p" using lines i by simp
  have take_xs: "set (take (Suc i) xs) = insert ?p (set (take i xs))" using i by (simp add: take_Suc_conv_app_nth)
  have slopes: "slope q \<le> slope ?p" if q: "q \<in> set (take i xs)" for q
  proof -
    obtain m where "m < i" "q = xs ! m" using q i by (auto simp: in_set_conv_nth)
    then show ?thesis using srt i by (simp add: sorted_wrt_iff_nth_less)
  qed
  have st: "stack (take j pts)" and from_xs: "\<forall>p \<in> set (take j pts). \<exists>q \<in> set (take i xs). \<exists>x. p = set_x x q"
    and cov: "covers (set (take j pts)) (set (take i xs))" using inv' by auto
  have stl: "slope q \<le> slope ?p" if "q \<in> set (take j pts)" for q using from_xs slopes that by fastforce
  \<comment> \<open>what follows once the line is put behind the first \<open>k\<close>\<close>
  have put: "sorting xs (Suc i) (pts[k := set_x x ?p]) (Suc k)"
    if k: "k \<le> j" "0 < k \<longrightarrow> slope (pts ! (k - 1)) < slope ?p \<and> x = Fin (cross (pts ! (k - 1)) ?p) \<and> x_less (mp_x (pts ! (k - 1))) x" "k = 0 \<longrightarrow> x = MInf"
      and c: "covers (insert ?p (set (take k pts))) (set (take j pts))" for k x
  proof -
    have kl: "k < length pts" using k(1) inv' len by auto
    have tk: "take (Suc k) (pts[k := set_x x ?p]) = take k pts @ [set_x x ?p]"
      using kl by (simp add: take_Suc_conv_app_nth)
    have "stack (take k pts)" using stack_take [OF st, of k] k(1) by (simp add: min_absorb1)
    then have "stack (take k pts @ [set_x x ?p])" by (rule stack_snoc) (use k kl pl in auto)
    moreover have "drop (Suc i) (pts[k := set_x x ?p]) = drop (Suc i) xs"
      using inv' k(1) i by (metis Cons_nth_drop_Suc drop_update_cancel len(2) le_imp_less_Suc le_trans list.inject)
    moreover have "\<forall>p \<in> set (take k pts @ [set_x x ?p]). \<exists>q \<in> set (take (Suc i) xs). \<exists>x. p = set_x x q"
      using from_xs set_take_subset_set_take [OF k(1), of pts] unfolding take_xs by auto
    moreover have "covers (insert ?p (set (take k pts))) (set (take (Suc i) xs))"
      unfolding take_xs insert_is_Un [of ?p "set (take i xs)"]
      by (rule covers_Un) (use covers_trans [OF c cov] in \<open>auto intro: covers_refl\<close>)
    ultimately show ?thesis using inv' k i kl unfolding sorting_def tk by (simp add: covers_set_x)
  qed
  show ?thesis
  proof (cases "0 < j")
    case False
    have "covers (insert ?p (set (take 0 pts))) (set (take j pts))" using False by (simp add: covers_def)
    then have "sorting xs (Suc i) (pts[0 := ?l]) (Suc 0)" using put [of 0 MInf] False by simp
    moreover have "sort_step exact_reals (int i) (pts, int j) = Some (pts[0 := ?l], int (Suc 0))"
      using False at vset_nat [of 0 pts ?l, OF le_less_trans [OF le0 len(2)]] by (simp add: sort_step_def)
    ultimately show ?thesis by blast
  next
    case True
    let ?q = "pts ! (j - 1)"
    have q: "vat pts (int j - 1) = Some ?q" using True len by (simp add: vat_eq nat_diff_distrib)
    have qin: "?q \<in> set (take j pts)" using True len by (auto simp: in_set_conv_nth intro!: exI [of _ "j - 1"])
    have ql: "is_line ?q" using st qin by (auto simp: stack_def)
    have eqm: "lf_eq exact_reals (mp_m ?q) (mp_m ?l) \<longleftrightarrow> slope ?q = slope ?p"
      and leb: "(fl_less exact_reals (mp_b ?l) (mp_b ?q) \<or> lf_eq exact_reals (mp_b ?l) (mp_b ?q)) \<longleftrightarrow> icept ?p \<le> icept ?q"
      using ql pl by (auto simp: is_line_def)
    have step: "sort_step exact_reals (int i) (pts, int j) = (if slope ?q = slope ?p \<and> icept ?p \<le> icept ?q then Some (pts, int j)
        else do {
          (l, j) \<leftarrow> pop_lines exact_reals pts ?l (if slope ?q = slope ?p then int j - 1 else int j);
          pts \<leftarrow> vset pts j (if j = 0 then set_x MInf l else l);
          Some (pts, j + 1) })"
      unfolding sort_step_def prod.case Let_def at q bind.bind_lunit kMinusInfinity_exact eqm leb using True by simp
    show ?thesis
    proof (cases "slope ?q = slope ?p \<and> icept ?p \<le> icept ?q")
      case cond: True
      then have "line_at ?p t \<le> line_at ?q t" for t by (simp add: line_at_def)
      then have "covers (set (take j pts)) {?p}" using qin by (auto simp: covers_def)
      then have "covers (set (take j pts)) (set (take (Suc i) xs))" using cov unfolding take_xs insert_is_Un [of ?p "set (take i xs)"] by (rule covers_Un)
      moreover have "drop (Suc i) pts = drop (Suc i) xs" using inv' i len by (metis Cons_nth_drop_Suc list.inject)
      ultimately have "sorting xs (Suc i) pts j" using inv' i unfolding sorting_def take_xs by auto
      then show ?thesis using cond unfolding step by auto
    next
      case cond: False
      define j0 where "j0 = (if slope ?q = slope ?p then j - 1 else j)"
      have j0: "int j0 = (if slope ?q = slope ?p then int j - 1 else int j)" "j0 \<le> j" using True by (auto simp: j0_def)
      have less: "slope p < slope ?p" if p: "p \<in> set (take j0 pts)" for p
      proof -
        obtain m where m: "m < j0" "p = pts ! m" using p len j0 by (auto simp: in_set_conv_nth)
        show ?thesis
        proof (cases "m = j - 1")
          case True
          then have "slope ?q \<noteq> slope ?p" using m by (auto simp: j0_def split: if_splits)
          then show ?thesis using stl [OF qin] m True by simp
        next
          case False
          then have "Suc m < j" using m j0 by auto
          then have "slope (pts ! m) < slope (pts ! Suc m)" "pts ! Suc m \<in> set (take j pts)"
            using st len by (auto simp: stack_def in_set_conv_nth intro!: exI [of _ "Suc m"])
          then show ?thesis using stl [of "pts ! Suc m"] m by simp
        qed
      qed
      have stj: "stack (take j0 pts)" using stack_take [OF st, of j0] j0 by (simp add: min_absorb1)
      obtain x k where k: "pop_lines exact_reals pts ?l (int j0) = Some (set_x x ?l, int k)" "k \<le> j0"
          "0 < k \<longrightarrow> x = Fin (cross (pts ! (k - 1)) ?l) \<and> x_less (mp_x (pts ! (k - 1))) x"
          "\<forall>t. \<forall>p \<in> set (take j0 pts). \<exists>q \<in> insert ?l (set (take k pts)). line_at p t \<le> line_at q t"
        using pop_lines_run [OF stj, of ?l] less pl len j0 by auto
      have "covers (insert ?p (set (take k pts))) (set (take j0 pts))" using k(4) covers_set_x [of MInf ?p] unfolding covers_def by blast
      moreover have "covers (insert ?p (set (take k pts))) (set (take j pts) - set (take j0 pts))"
      proof -
        have "line_at p t \<le> line_at ?p t" if "p \<in> set (take j pts) - set (take j0 pts)" for p t
        proof -
          have "j0 \<noteq> j" using that by auto
          then have "j0 = j - 1" "slope ?q = slope ?p" by (auto simp: j0_def split: if_splits)
          moreover have "take j pts = take (j - 1) pts @ [?q]"
            using True len take_Suc_conv_app_nth [of "j - 1" pts] by simp
          then have "set (take j pts) = insert ?q (set (take (j - 1) pts))" by simp
          ultimately have "p = ?q" "icept ?q \<le> icept ?p" using that cond by auto
          then show ?thesis using \<open>slope ?q = slope ?p\<close> by (simp add: line_at_def)
        qed
        then show ?thesis by (auto simp: covers_def)
      qed
      ultimately have "covers (insert ?p (set (take k pts))) (set (take j0 pts) \<union> (set (take j pts) - set (take j0 pts)))" by (rule covers_Un)
      moreover have "set (take j0 pts) \<union> (set (take j pts) - set (take j0 pts)) = set (take j pts)"
        using set_take_subset_set_take [OF j0(2), of pts] by blast
      ultimately have c: "covers (insert ?p (set (take k pts))) (set (take j pts))" by simp
      let ?x = "if k = 0 then MInf else x"
      have "pts ! (k - 1) \<in> set (take j0 pts)" if "0 < k" using that k(2) j0 len by (auto simp: in_set_conv_nth intro!: exI [of _ "k - 1"])
      then have "sorting xs (Suc i) (pts[k := set_x ?x ?p]) (Suc k)"
        using put [OF _ _ _ c, of ?x] k(2,3) j0(2) less by (auto split: if_splits)
      moreover have "sort_step exact_reals (int i) (pts, int j) = Some (pts[k := set_x ?x ?p], int (Suc k))"
        unfolding step if_not_P [OF cond] j0(1) [symmetric] k(1) using k(2) j0(2) len inv' by (auto simp: vset_eq)
      ultimately show ?thesis by blast
    qed
  qed
qed

lemma Sort_run:
  assumes "std_sort exact_reals srt" and lines: "\<forall>p \<in> set (ch_points h). is_line p"
  shows "\<exists>ps. Sort exact_reals srt h = Some \<lparr>ch_sorted = True, ch_points = ps\<rparr> \<and> envelope ps \<and>
    (\<forall>p \<in> set ps. \<exists>q \<in> set (ch_points h). \<exists>x. p = set_x x q) \<and> covers (set ps) (set (ch_points h))"
proof -
  define xs where "xs = srt (ch_points h)"
  have "SlopeCompare exact_reals p q \<or> SlopeCompare exact_reals q p \<or> mp_m p = mp_m q" if "p \<in> set (ch_points h)" "q \<in> set (ch_points h)" for p q
  proof -
    have "mp_m p = Fin (slope p)" "mp_m q = Fin (slope q)" using lines that by (auto simp: is_line_def)
    then show ?thesis by (auto simp: SlopeCompare_def)
  qed
  then have m: "mset xs = mset (ch_points h)" and "sorted_wrt (\<lambda>a b. \<not> SlopeCompare exact_reals b a) xs"
    using assms(1) unfolding std_sort_def xs_def by blast+
  then have set_xs: "set xs = set (ch_points h)" using mset_eq_setD by blast
  have srt: "sorted_wrt (\<lambda>a b. slope a \<le> slope b) xs"
    using \<open>sorted_wrt _ xs\<close>
  proof (rule sorted_wrt_mono_rel [rotated])
    show "slope a \<le> slope b" if "a \<in> set xs" "b \<in> set xs" "\<not> SlopeCompare exact_reals b a" for a b
      using that lines set_xs by (auto simp: SlopeCompare_def is_line_def)
  qed
  have "\<exists>t. for_each (int_range 0 (int (length xs))) (sort_step exact_reals) (xs, 0) = Some t \<and>
    (case t of (pts, j) \<Rightarrow> \<exists>j'. j = int j' \<and> sorting xs (nat (int (length xs))) pts j')"
  proof (rule for_range_total [where I = "\<lambda>i (pts, j). \<exists>j'. j = int j' \<and> sorting xs (nat i) pts j'"])
    show "case (xs, 0) of (pts, j) \<Rightarrow> \<exists>j'. j = int j' \<and> sorting xs (nat 0) pts j'"
      by (auto simp: sorting_def stack_def covers_def)
  next
    fix i s
    assume i: "0 \<le> i" "i < int (length xs)" and I: "case s of (pts, j) \<Rightarrow> \<exists>j'. j = int j' \<and> sorting xs (nat i) pts j'"
    obtain pts j where s: "s = (pts, int j)" "sorting xs (nat i) pts j" using I by (cases s) auto
    have "nat i < length xs" "int (nat i) = i" "nat (i + 1) = Suc (nat i)" using i by auto
    then show "\<exists>s'. sort_step exact_reals i s = Some s' \<and> (case s' of (pts, j) \<Rightarrow> \<exists>j'. j = int j' \<and> sorting xs (nat (i + 1)) pts j')"
      using sort_step_run [OF s(2) _ srt] lines set_xs s(1) by auto
  qed simp
  then obtain pts j where run: "for_each (int_range 0 (int (length xs))) (sort_step exact_reals) (xs, 0) = Some (pts, int j)"
    and inv: "sorting xs (length xs) pts j" by auto
  have "Sort exact_reals srt h = Some \<lparr>ch_sorted = True, ch_points = take j pts\<rparr>"
    using run by (simp add: Sort_def Let_def xs_def [symmetric] vsize_def)
  moreover have "envelope (take j pts)" using inv stack_envelope by (auto simp: sorting_def)
  moreover have "\<forall>p \<in> set (take j pts). \<exists>q \<in> set (ch_points h). \<exists>x. p = set_x x q" "covers (set (take j pts)) (set (ch_points h))"
    using inv set_xs by (auto simp: sorting_def)
  ultimately show ?thesis by blast
qed

section \<open>The product of envelopes\<close>

definition next_x :: "(xreal, 'e) mert_point list \<Rightarrow> nat \<Rightarrow> xreal" where
  "next_x ps i = (if Suc i < length ps then mp_x (ps ! Suc i) else PInf)"

lemma next_val_x: "next_val exact_reals ps (int i) = Some (next_x ps i)"
  by (auto simp: next_val_def next_x_def vsize_def vat_eq nat_add_distrib)

lemma x_less_irrefl [simp]: "\<not> x_less x x"
  by (cases x) auto

lemma x_less_below: "x_less x y \<Longrightarrow> below y t \<Longrightarrow> below x t"
  by (cases x; cases y) auto

lemma x_less_above: "x_less x y \<Longrightarrow> above x t \<Longrightarrow> above y t"
  by (cases x; cases y) auto

lemma next_x_segments:
  assumes "segments ps" "i < length ps"
  shows "x_less (mp_x (ps ! i)) (next_x ps i)" "next_x ps i \<noteq> PInf \<Longrightarrow> Suc i < length ps \<and> (\<exists>r. next_x ps i = Fin r)"
proof -
  have "mp_x (ps ! i) = MInf \<or> (\<exists>a. mp_x (ps ! i) = Fin a)" using assms by (cases i) (auto simp: segments_def)
  then show "x_less (mp_x (ps ! i)) (next_x ps i)" using assms by (auto simp: next_x_def segments_def)
qed (use assms in \<open>auto simp: next_x_def segments_def split: if_splits\<close>)

lemma active_next: "active ps k t \<longleftrightarrow> k < length ps \<and> below (mp_x (ps ! k)) t \<and> above (next_x ps k) t"
  by (auto simp: active_def next_x_def)

definition merged :: "(xreal, 'e) mert_point list \<Rightarrow> (xreal, 'e) mert_point list \<Rightarrow> xreal \<Rightarrow> (xreal, 'e) mert_point list \<Rightarrow> bool" where
  "merged a b cur R \<longleftrightarrow> R \<noteq> [] \<and> mp_x (R ! 0) = cur \<and>
     (\<forall>k. Suc k < length R \<longrightarrow> x_less (mp_x (R ! k)) (mp_x (R ! Suc k)) \<and> (\<exists>r. mp_x (R ! Suc k) = Fin r)) \<and>
     (\<forall>k < length R. \<exists>i j. i < length a \<and> j < length b \<and> R ! k = mul_point exact_reals (mp_x (R ! k)) (a ! i) (b ! j) \<and>
       (\<forall>t. active R k t \<longrightarrow> active a i t \<and> active b j t))"

lemma mul_point_x [simp]: "mp_x (mul_point fl x p q) = x"
  by (simp add: mul_point_def)

lemma merged_one:
  assumes "i < length a" "j < length b" "\<And>t. below cur t \<Longrightarrow> below (mp_x (a ! i)) t \<and> below (mp_x (b ! j)) t" "next_x a i = PInf" "next_x b j = PInf"
  shows "merged a b cur [mul_point exact_reals cur (a ! i) (b ! j)]"
proof -
  have "active a i t \<and> active b j t" if "active [mul_point exact_reals cur (a ! i) (b ! j)] 0 t" for t
    using that assms(1,2,4,5) assms(3) [of t] by (simp add: active_next)
  then show ?thesis using assms(1,2) by (auto simp: merged_def)
qed

lemma merged_Cons:
  assumes R: "merged a b cur' R" "x_less cur cur'" "cur' = Fin r" and i: "i < length a" "j < length b"
    and low: "\<And>t. below cur t \<Longrightarrow> below (mp_x (a ! i)) t \<and> below (mp_x (b ! j)) t"
    and high: "\<And>t. above cur' t \<Longrightarrow> above (next_x a i) t \<and> above (next_x b j) t"
  shows "merged a b cur (mul_point exact_reals cur (a ! i) (b ! j) # R)" (is "merged a b cur (?p # R)")
  unfolding merged_def
proof (intro conjI allI impI)
  fix k assume k: "Suc k < length (?p # R)"
  show "x_less (mp_x ((?p # R) ! k)) (mp_x ((?p # R) ! Suc k))" "\<exists>r. mp_x ((?p # R) ! Suc k) = Fin r"
    using R k by (cases k; auto simp: merged_def)+
next
  fix k assume k: "k < length (?p # R)"
  show "\<exists>i j. i < length a \<and> j < length b \<and> (?p # R) ! k = mul_point exact_reals (mp_x ((?p # R) ! k)) (a ! i) (b ! j) \<and>
       (\<forall>t. active (?p # R) k t \<longrightarrow> active a i t \<and> active b j t)"
  proof (cases k)
    case 0
    have "active a i t \<and> active b j t" if "active (?p # R) 0 t" for t
      using that R i low [of t] high [of t] by (auto simp: active_next next_x_def [of "?p # R"] merged_def)
    then show ?thesis using 0 i by auto
  next
    case (Suc n)
    have "active (?p # R) (Suc n) t = active R n t" for t by (simp add: active_def)
    then show ?thesis using R(1) k Suc by (auto simp: merged_def)
  qed
qed auto

lemma merge_segments_merged:
  assumes a: "segments a" and b: "segments b"
  shows "i < length a \<Longrightarrow> j < length b \<Longrightarrow> x_less cur (next_x a i) \<Longrightarrow> x_less cur (next_x b j) \<Longrightarrow>
    (\<And>t. below cur t \<Longrightarrow> below (mp_x (a ! i)) t \<and> below (mp_x (b ! j)) t) \<Longrightarrow>
    \<exists>R. merge_segments exact_reals a b (int i) (int j) cur (next_x a i) (next_x b j) acc = Some (acc @ R) \<and> merged a b cur R"
proof (induction "length a - i + (length b - j)" arbitrary: i j cur acc rule: less_induct)
  case less
  let ?p = "mul_point exact_reals cur (a ! i) (b ! j)"
  let ?t = "next_x a i" and ?u = "next_x b j"
  have int_Suc: "int i + 1 = int (Suc i)" "int j + 1 = int (Suc j)" by simp_all
  note prems = less.prems
  note na = next_x_segments [OF a prems(1)] and nb = next_x_segments [OF b prems(2)]
  have unfold: "merge_segments exact_reals a b (int i) (int j) cur ?t ?u acc =
      (if x_less ?t ?u then merge_segments exact_reals a b (int (Suc i)) (int j) ?t (next_x a (Suc i)) ?u (acc @ [?p])
       else if x_less ?u ?t then merge_segments exact_reals a b (int i) (int (Suc j)) ?u ?t (next_x b (Suc j)) (acc @ [?p])
       else merge_segments exact_reals a b (int (Suc i)) (int (Suc j)) ?t (next_x a (Suc i)) (next_x b (Suc j)) (acc @ [?p]))"
    using prems(1,2) unfolding int_Suc [symmetric]
    by (subst merge_segments.simps) (simp add: vsize_def next_val_x [of a "Suc i", folded int_Suc] next_val_x [of b "Suc j", folded int_Suc])
  consider "x_less ?t ?u" | "\<not> x_less ?t ?u" "x_less ?u ?t" | "?t = ?u"
  proof -
    have "?t = PInf \<or> (\<exists>r. ?t = Fin r)" "?u = PInf \<or> (\<exists>r. ?u = Fin r)" using na(2) nb(2) by blast+
    then have "x_less ?t ?u \<or> x_less ?u ?t \<or> ?t = ?u" by (auto simp: not_less_iff_gr_or_eq)
    then show thesis using that by blast
  qed
  then show ?case
  proof cases
    case 1
    then have "?t \<noteq> PInf" by (cases ?u) auto
    then obtain r where r: "Suc i < length a" "?t = Fin r" using na(2) by blast
    have x: "mp_x (a ! Suc i) = ?t" using r by (simp add: next_x_def)
    have "\<exists>R. merge_segments exact_reals a b (int (Suc i)) (int j) ?t (next_x a (Suc i)) ?u (acc @ [?p]) = Some ((acc @ [?p]) @ R) \<and> merged a b ?t R"
    proof (rule less.hyps)
      show "x_less ?t (next_x a (Suc i))" using next_x_segments(1) [OF a r(1)] x by simp
      show "below (mp_x (a ! Suc i)) t \<and> below (mp_x (b ! j)) t" if "below ?t t" for t
        using that x x_less_below [OF prems(3) that] prems(5) by auto
    qed (use r prems 1 in auto)
    then obtain R where R: "merge_segments exact_reals a b (int (Suc i)) (int j) ?t (next_x a (Suc i)) ?u (acc @ [?p]) = Some ((acc @ [?p]) @ R)" "merged a b ?t R"
      by blast
    have "merged a b cur (?p # R)"
      by (rule merged_Cons [OF R(2) prems(3) r(2) prems(1,2,5)]) (use x_less_above [OF 1] in auto)
    then show ?thesis unfolding unfold if_P [OF 1] R(1) by (intro exI [of _ "?p # R"]) simp
  next
    case 2
    then have "?u \<noteq> PInf" by (cases ?t) auto
    then obtain r where r: "Suc j < length b" "?u = Fin r" using nb(2) by blast
    have x: "mp_x (b ! Suc j) = ?u" using r by (simp add: next_x_def)
    have "\<exists>R. merge_segments exact_reals a b (int i) (int (Suc j)) ?u ?t (next_x b (Suc j)) (acc @ [?p]) = Some ((acc @ [?p]) @ R) \<and> merged a b ?u R"
    proof (rule less.hyps)
      show "x_less ?u (next_x b (Suc j))" using next_x_segments(1) [OF b r(1)] x by simp
      show "below (mp_x (a ! i)) t \<and> below (mp_x (b ! Suc j)) t" if "below ?u t" for t
        using that x x_less_below [OF prems(4) that] prems(5) by auto
    qed (use r prems 2 in auto)
    then obtain R where R: "merge_segments exact_reals a b (int i) (int (Suc j)) ?u ?t (next_x b (Suc j)) (acc @ [?p]) = Some ((acc @ [?p]) @ R)" "merged a b ?u R"
      by blast
    have "merged a b cur (?p # R)"
      by (rule merged_Cons [OF R(2) prems(4) r(2) prems(1,2,5)]) (use x_less_above [OF 2(2)] in auto)
    then show ?thesis unfolding unfold if_not_P [OF 2(1)] if_P [OF 2(2)] R(1) by (intro exI [of _ "?p # R"]) simp
  next
    case 3
    then have nl: "\<not> x_less ?t ?u" "\<not> x_less ?u ?t" by simp_all
    show ?thesis
    proof (cases "?t = PInf")
      case True
      then have "\<not> Suc i < length a"
        using a by (auto simp: next_x_def segments_def split: if_splits)
      then have "merge_segments exact_reals a b (int (Suc i)) (int (Suc j)) ?t (next_x a (Suc i)) (next_x b (Suc j)) (acc @ [?p]) = Some (acc @ [?p])"
        by (subst merge_segments.simps) (simp add: vsize_def)
      moreover have "merged a b cur [?p]" using merged_one [OF prems(1,2,5) True trans [OF 3 [symmetric] True]] .
      ultimately show ?thesis unfolding unfold if_not_P [OF nl(1)] if_not_P [OF nl(2)] by (intro exI [of _ "[?p]"]) simp
    next
      case False
      then obtain r where r: "Suc i < length a" "?t = Fin r" using na(2) by blast
      have ru: "Suc j < length b" using nb(2) 3 False by auto
      have x: "mp_x (a ! Suc i) = ?t" "mp_x (b ! Suc j) = ?t" using r ru 3 by (auto simp: next_x_def)
      have "\<exists>R. merge_segments exact_reals a b (int (Suc i)) (int (Suc j)) ?t (next_x a (Suc i)) (next_x b (Suc j)) (acc @ [?p]) = Some ((acc @ [?p]) @ R) \<and> merged a b ?t R"
      proof (rule less.hyps)
        show "x_less ?t (next_x a (Suc i))" "x_less ?t (next_x b (Suc j))"
          using next_x_segments(1) [OF a r(1)] next_x_segments(1) [OF b ru] x by simp_all
      qed (use r ru x in auto)
      then obtain R where R: "merge_segments exact_reals a b (int (Suc i)) (int (Suc j)) ?t (next_x a (Suc i)) (next_x b (Suc j)) (acc @ [?p]) = Some ((acc @ [?p]) @ R)" "merged a b ?t R"
        by blast
      have "merged a b cur (?p # R)"
        by (rule merged_Cons [OF R(2) prems(3) r(2) prems(1,2,5)]) (use 3 in auto)
      then show ?thesis unfolding unfold if_not_P [OF nl(1)] if_not_P [OF nl(2)] R(1) by (intro exI [of _ "?p # R"]) simp
    qed
  qed
qed

lemma mul_point_line:
  assumes "is_line p" "is_line q"
  shows "is_line (mul_point exact_reals x p q)" "line_at (mul_point exact_reals x p q) t = line_at p t + line_at q t"
  using assms by (auto simp: mul_point_def is_line_def slope_def icept_def line_at_def algebra_simps split: xreal.splits)

lemma merge_segments_run:
  assumes a: "envelope a" "\<forall>p \<in> set a. is_line p" and b: "envelope b" "\<forall>p \<in> set b. is_line p"
  shows "\<exists>R. merge_segments exact_reals a b 0 0 MInf (next_x a 0) (next_x b 0) [] = Some R \<and> envelope R \<and>
    (\<forall>r \<in> set R. \<exists>p \<in> set a. \<exists>q \<in> set b. \<exists>x. r = mul_point exact_reals x p q) \<and>
    (\<forall>t. \<forall>p \<in> set a. \<forall>q \<in> set b. \<exists>r \<in> set R. line_at p t + line_at q t \<le> line_at r t)"
proof (cases "a = [] \<or> b = []")
  case True
  then have "merge_segments exact_reals a b 0 0 MInf (next_x a 0) (next_x b 0) [] = Some []"
    by (subst merge_segments.simps) auto
  then show ?thesis using True by (auto simp: envelope_def segments_def active_def)
next
  case False
  then have ne: "0 < length a" "0 < length b" by auto
  have seg: "segments a" "segments b" using a b by (auto simp: envelope_def)
  have x0: "mp_x (a ! 0) = MInf" "mp_x (b ! 0) = MInf" using seg ne by (auto simp: segments_def)
  obtain R where run: "merge_segments exact_reals a b 0 0 MInf (next_x a 0) (next_x b 0) [] = Some R" and R: "merged a b MInf R"
    using merge_segments_merged [OF seg ne, of MInf "[]"] next_x_segments(1) [OF seg(1) ne(1)] next_x_segments(1) [OF seg(2) ne(2)] x0 by auto
  have segR: "segments R" using R by (auto simp: merged_def segments_def)
  have pair: "\<exists>i j. i < length a \<and> j < length b \<and> R ! k = mul_point exact_reals (mp_x (R ! k)) (a ! i) (b ! j) \<and>
       (\<forall>t. active R k t \<longrightarrow> active a i t \<and> active b j t)" if "k < length R" for k
    using R that by (auto simp: merged_def)
  have best: "line_at p t + line_at q t \<le> line_at (R ! k) t" if act: "active R k t" and pq: "p \<in> set a" "q \<in> set b" for p q k t
  proof -
    have "k < length R" using act by (simp add: active_def)
    then obtain i j where ij: "i < length a" "j < length b" "R ! k = mul_point exact_reals (mp_x (R ! k)) (a ! i) (b ! j)" "active a i t" "active b j t"
      using pair [of k] act by blast
    have "line_at (R ! k) t = line_at (a ! i) t + line_at (b ! j) t"
      using ij(1,2) a(2) b(2) by (subst ij(3)) (simp add: mul_point_line)
    moreover have "line_at p t \<le> line_at (a ! i) t" "line_at q t \<le> line_at (b ! j) t"
      using a(1) b(1) ij pq unfolding envelope_def by blast+
    ultimately show ?thesis by simp
  qed
  have parts: "\<forall>r \<in> set R. \<exists>p \<in> set a. \<exists>q \<in> set b. \<exists>x. r = mul_point exact_reals x p q"
  proof
    fix r assume "r \<in> set R"
    then obtain k where "k < length R" "r = R ! k" by (auto simp: in_set_conv_nth)
    then obtain i j where "i < length a" "j < length b" "r = mul_point exact_reals (mp_x (R ! k)) (a ! i) (b ! j)" using pair [of k] by blast
    then show "\<exists>p \<in> set a. \<exists>q \<in> set b. \<exists>x. r = mul_point exact_reals x p q" using nth_mem by blast
  qed
  have "envelope R"
    unfolding envelope_def
  proof (intro conjI allI impI ballI segR)
    fix k t r assume act: "active R k t" and "r \<in> set R"
    then obtain p q x where pq: "p \<in> set a" "q \<in> set b" "r = mul_point exact_reals x p q" using parts by blast
    then have "line_at r t = line_at p t + line_at q t" using a(2) b(2) by (simp add: mul_point_line)
    then show "line_at r t \<le> line_at (R ! k) t" using best [OF act pq(1,2)] by simp
  qed
  moreover have "\<exists>r \<in> set R. line_at p t + line_at q t \<le> line_at r t" if "p \<in> set a" "q \<in> set b" for p q t
  proof -
    have "R \<noteq> []" using R by (simp add: merged_def)
    then obtain k where "active R k t" using active_exists [OF segR] by blast
    then show ?thesis using best that by (metis active_def nth_mem)
  qed
  ultimately show ?thesis using run parts by blast
qed

section \<open>Hulls of derivations\<close>

fun deriv_sum :: "(int \<Rightarrow> real) \<Rightarrow> deriv \<Rightarrow> real" where
  "deriv_sum f (Deriv e ds) = f e + sum_list (map (deriv_sum f) ds)"

text \<open>A point stands for an edge with derivations of its first tails; \<open>M\<close> and \<open>B\<close> are slope and intercept of the edges.\<close>

inductive represents :: "('f, 'w) hypergraph \<Rightarrow> (int \<Rightarrow> real) \<Rightarrow> (int \<Rightarrow> real) \<Rightarrow> (xreal, ('f, 'w) edge) mert_point \<Rightarrow> deriv \<Rightarrow> bool" for hg M B where
  represents_edge: "vat (hg_edges hg) e = Some ed \<Longrightarrow>
    represents hg M B (MERTPoint x (Fin (M e)) (Fin (B e)) None None (Some ed)) (Deriv e [])"
| represents_mul: "represents hg M B p (Deriv e ds) \<Longrightarrow> represents hg M B q d \<Longrightarrow>
    represents hg M B (mul_point exact_reals x p q) (Deriv e (ds @ [d]))"

lemma represents_sums: "represents hg M B p d \<Longrightarrow> mp_m p = Fin (deriv_sum M d) \<and> mp_b p = Fin (deriv_sum B d)"
  by (induction rule: represents.induct) (auto simp: mul_point_def)

lemma represents_line:
  assumes "represents hg M B p d"
  shows "is_line p" "line_at p t = deriv_sum (\<lambda>e. M e * t + B e) d"
proof -
  have "deriv_sum (\<lambda>e. M e * t + B e) d = deriv_sum M d * t + deriv_sum B d"
  proof (induction d)
    case (Deriv e ds)
    have eq: "map (deriv_sum (\<lambda>e. M e * t + B e)) ds = map (\<lambda>d. deriv_sum M d * t + deriv_sum B d) ds"
      by (rule map_cong [OF refl]) (rule Deriv)
    show ?case unfolding deriv_sum.simps eq sum_list_addf sum_list_mult_const by (simp add: algebra_simps)
  qed
  then show "is_line p" "line_at p t = deriv_sum (\<lambda>e. M e * t + B e) d"
    using represents_sums [OF assms] by (simp_all add: is_line_def slope_def icept_def line_at_def)
qed

lemma represents_set_x:
  assumes "represents hg M B p d" shows "represents hg M B (set_x x p) d"
  using assms
proof cases
  case (represents_edge e ed y)
  then show ?thesis by (simp add: set_x_def represents.represents_edge)
next
  case (represents_mul p' e ds q d' y)
  then have "set_x x p = mul_point exact_reals x p' q" by (simp add: set_x_def mul_point_def)
  then show ?thesis using represents_mul by (simp add: represents.represents_mul)
qed

lemma represents_parent: "represents hg M B p d \<Longrightarrow> mp_edge p \<noteq> None \<or> mp_p1 p \<noteq> None"
  by (erule represents.cases) (auto simp: mul_point_def)

definition hull_of :: "('f, 'w) hypergraph \<Rightarrow> (int \<Rightarrow> real) \<Rightarrow> (int \<Rightarrow> real) \<Rightarrow> (xreal, ('f, 'w) edge) convex_hull \<Rightarrow> deriv set \<Rightarrow> bool" where
  "hull_of hg M B h D \<longleftrightarrow> (ch_sorted h \<longrightarrow> envelope (ch_points h)) \<and> (\<forall>p \<in> set (ch_points h). \<exists>d \<in> D. represents hg M B p d) \<and>
     (\<forall>t. \<forall>d \<in> D. \<exists>p \<in> set (ch_points h). deriv_sum (\<lambda>e. M e * t + B e) d \<le> line_at p t)"

lemma hull_of_lines: "hull_of hg M B h D \<Longrightarrow> \<forall>p \<in> set (ch_points h). is_line p"
  unfolding hull_of_def using represents_line(1) by blast

lemma hull_of_not_identity: "hull_of hg M B h D \<Longrightarrow> \<not> IsMultiplicativeIdentity fl h"
  by (auto simp: IsMultiplicativeIdentity_def hull_of_def split: list.splits dest!: represents_parent)

lemma make_sorted_of:
  assumes srt: "std_sort exact_reals srt" and h: "hull_of hg M B h D"
  shows "\<exists>h'. make_sorted exact_reals srt h = Some h' \<and> ch_sorted h' \<and> hull_of hg M B h' D"
proof (cases "ch_sorted h")
  case False
  obtain ps where ps: "Sort exact_reals srt h = Some \<lparr>ch_sorted = True, ch_points = ps\<rparr>" "envelope ps"
    "\<forall>p \<in> set ps. \<exists>q \<in> set (ch_points h). \<exists>x. p = set_x x q" "covers (set ps) (set (ch_points h))"
    using Sort_run [OF srt hull_of_lines [OF h]] by blast
  have "\<exists>d \<in> D. represents hg M B p d" if p: "p \<in> set ps" for p
  proof -
    obtain q x where q: "q \<in> set (ch_points h)" "p = set_x x q" using ps(3) p by blast
    then obtain d where "d \<in> D" "represents hg M B q d" using h unfolding hull_of_def by blast
    then show ?thesis unfolding q(2) using represents_set_x by blast
  qed
  moreover have "\<exists>p \<in> set ps. deriv_sum (\<lambda>e. M e * t + B e) d \<le> line_at p t" if "d \<in> D" for d t
    using ps(4) that h unfolding hull_of_def covers_def by (meson order_trans)
  ultimately show ?thesis using False ps by (auto simp: make_sorted_def hull_of_def)
qed (use h in \<open>auto simp: make_sorted_def\<close>)

lemma hull_plus_of:
  assumes srt: "std_sort exact_reals srt" and a: "hull_of hg M B a D" and b: "hull_of hg M B b E"
  shows "\<exists>c. hull_plus exact_reals srt a b = Some c \<and> hull_of hg M B c (D \<union> E)"
proof -
  obtain b' where b': "make_sorted exact_reals srt b = Some b'" "ch_sorted b'" "hull_of hg M B b' E"
    using make_sorted_of [OF srt b] by blast
  have "hull_of hg M B (if ch_points a = [] then a\<lparr>ch_points := ch_points b'\<rparr> else \<lparr>ch_sorted = False, ch_points = ch_points a @ ch_points b'\<rparr>) (D \<union> E)"
    using a b'(2,3) by (auto simp: hull_of_def) blast+
  then show ?thesis using b'(1) by (simp add: hull_plus_def)
qed

definition snoc_derivs :: "deriv set \<Rightarrow> deriv set \<Rightarrow> deriv set" where
  "snoc_derivs D E = {Deriv e (ds @ [d]) | e ds d. Deriv e ds \<in> D \<and> d \<in> E}"

lemma deriv_sum_snoc: "deriv_sum f (Deriv e (ds @ [d])) = deriv_sum f (Deriv e ds) + deriv_sum f d"
  by simp

lemma envelope_shift:
  assumes "envelope ps" "\<forall>p \<in> set ps. is_line p" "is_line q"
  shows "envelope (map (\<lambda>p. mul_point exact_reals (mp_x p) q p) ps)" (is "envelope ?qs")
proof -
  have "segments ?qs" using assms(1) by (auto simp: envelope_def segments_def)
  moreover have "active ?qs k t \<longleftrightarrow> active ps k t" for k t by (auto simp: active_def)
  ultimately show ?thesis using assms by (auto simp: envelope_def mul_point_line active_def)
qed

lemma hull_times_of:
  assumes srt: "std_sort exact_reals srt" and a: "hull_of hg M B a D" and b: "hull_of hg M B b E"
  shows "\<exists>c. hull_times exact_reals srt a b = Some c \<and> hull_of hg M B c (snoc_derivs D E)"
proof -
  obtain a' where a': "make_sorted exact_reals srt a = Some a'" "ch_sorted a'" "hull_of hg M B a' D"
    using make_sorted_of [OF srt a] by blast
  obtain b' where b': "make_sorted exact_reals srt b = Some b'" "ch_sorted b'" "hull_of hg M B b' E"
    using make_sorted_of [OF srt b] by blast
  note lines = hull_of_lines [OF a'(3)] hull_of_lines [OF b'(3)]
  have env: "envelope (ch_points a')" "envelope (ch_points b')" using a' b' by (auto simp: hull_of_def)
  have rep: "\<exists>d \<in> snoc_derivs D E. represents hg M B (mul_point exact_reals x p q) d"
    if pq: "p \<in> set (ch_points a')" "q \<in> set (ch_points b')" for x p q
  proof -
    obtain d e where "d \<in> D" "represents hg M B p d" "e \<in> E" "represents hg M B q e"
      using pq a'(3) b'(3) unfolding hull_of_def by blast
    then show ?thesis by (cases d) (auto simp: snoc_derivs_def intro: represents_mul)
  qed
  have best: "\<exists>p \<in> set (ch_points a'). \<exists>q \<in> set (ch_points b'). deriv_sum (\<lambda>e. M e * t + B e) d \<le> line_at p t + line_at q t"
    if d: "d \<in> snoc_derivs D E" for d t
  proof -
    obtain e ds d' where d': "d = Deriv e (ds @ [d'])" "Deriv e ds \<in> D" "d' \<in> E" using d by (auto simp: snoc_derivs_def)
    obtain p where p: "p \<in> set (ch_points a')" "deriv_sum (\<lambda>e. M e * t + B e) (Deriv e ds) \<le> line_at p t"
      using a'(3) d'(2) unfolding hull_of_def by blast
    obtain q where q: "q \<in> set (ch_points b')" "deriv_sum (\<lambda>e. M e * t + B e) d' \<le> line_at q t"
      using b'(3) d'(3) unfolding hull_of_def by blast
    have "deriv_sum (\<lambda>e. M e * t + B e) d \<le> line_at p t + line_at q t"
      using p q unfolding d'(1) deriv_sum_snoc by linarith
    then show ?thesis using p(1) q(1) by blast
  qed
  have times: "hull_times exact_reals srt a b = (if IsEdgeEnvelope a' then do {
          edge_parent \<leftarrow> vat (ch_points a') 0;
          Some (a'\<lparr>ch_points := map (\<lambda>p. MERTPoint (mp_x p) (x_add (mp_m p) (mp_m edge_parent)) (x_add (mp_b p) (mp_b edge_parent))
            (Some edge_parent) (Some p) None) (ch_points b')\<rparr>) }
        else do {
          new_points \<leftarrow> merge_segments exact_reals (ch_points a') (ch_points b') 0 0 MInf (next_x (ch_points a') 0) (next_x (ch_points b') 0) [];
          Some (a'\<lparr>ch_points := new_points\<rparr>) })"
    using next_val_x [of "ch_points a'" 0] next_val_x [of "ch_points b'" 0]
    by (simp add: hull_times_def hull_of_not_identity [OF a] hull_of_not_identity [OF b] a'(1) b'(1))
  show ?thesis
  proof (cases "IsEdgeEnvelope a'")
    case True
    then obtain p where p: "ch_points a' = [p]" by (auto simp: IsEdgeEnvelope_def split: list.splits)
    have pl: "is_line p" using lines(1) p by simp
    have "MERTPoint (mp_x q) (x_add (mp_m q) (mp_m p)) (x_add (mp_b q) (mp_b p)) (Some p) (Some q) None = mul_point exact_reals (mp_x q) p q"
      if "q \<in> set (ch_points b')" for q
      using that lines(2) pl unfolding mul_point_def is_line_def by (metis (no_types, lifting) add.commute exact_reals_simps(2) x_add.simps(1))
    then have eq: "map (\<lambda>q. MERTPoint (mp_x q) (x_add (mp_m q) (mp_m p)) (x_add (mp_b q) (mp_b p)) (Some p) (Some q) None) (ch_points b') =
        map (\<lambda>q. mul_point exact_reals (mp_x q) p q) (ch_points b')" by simp
    have "hull_times exact_reals srt a b = Some (a'\<lparr>ch_points := map (\<lambda>q. mul_point exact_reals (mp_x q) p q) (ch_points b')\<rparr>)"
      unfolding times using True p eq by simp
    moreover have "hull_of hg M B (a'\<lparr>ch_points := map (\<lambda>q. mul_point exact_reals (mp_x q) p q) (ch_points b')\<rparr>) (snoc_derivs D E)"
      using envelope_shift [OF env(2) lines(2) pl] rep best p lines(2) pl by (fastforce simp: hull_of_def mul_point_line)
    ultimately show ?thesis by blast
  next
    case False
    obtain R where R: "merge_segments exact_reals (ch_points a') (ch_points b') 0 0 MInf (next_x (ch_points a') 0) (next_x (ch_points b') 0) [] = Some R"
      "envelope R" "\<forall>r \<in> set R. \<exists>p \<in> set (ch_points a'). \<exists>q \<in> set (ch_points b'). \<exists>x. r = mul_point exact_reals x p q"
      "\<forall>t. \<forall>p \<in> set (ch_points a'). \<forall>q \<in> set (ch_points b'). \<exists>r \<in> set R. line_at p t + line_at q t \<le> line_at r t"
      using merge_segments_run [OF env(1) lines(1) env(2) lines(2)] by blast
    have "\<exists>d \<in> snoc_derivs D E. represents hg M B r d" if r: "r \<in> set R" for r
    proof -
      obtain p q x where "p \<in> set (ch_points a')" "q \<in> set (ch_points b')" and x: "r = mul_point exact_reals x p q" using R(3) r by blast
      then show ?thesis unfolding x by (intro rep)
    qed
    moreover have "\<exists>r \<in> set R. deriv_sum (\<lambda>e. M e * t + B e) d \<le> line_at r t" if "d \<in> snoc_derivs D E" for d t
      using best [OF that] R(4) by (meson order_trans)
    ultimately have "hull_of hg M B (a'\<lparr>ch_points := R\<rparr>) (snoc_derivs D E)" using R(2) by (simp add: hull_of_def)
    then show ?thesis unfolding times using False R(1) by simp
  qed
qed

section \<open>The inside algorithm over hulls\<close>

text \<open>What holds of the scores of nodes and edges when each operation of the algorithm keeps it.\<close>

lemma inside_edge_rule:
  assumes weight: "weight ed = Some s" and E0: "E 0 s"
    and mul: "\<And>k s. k < length (ed_tails ed) \<Longrightarrow> E k s \<Longrightarrow> 0 \<le> ed_tails ed ! k \<and> ed_tails ed ! k < vsize sc \<and> E (Suc k) (w_mul W s (sc ! nat (ed_tails ed ! k)))"
  shows "\<exists>s. inside_edge W weight sc ed = Some s \<and> E (length (ed_tails ed)) s"
proof -
  have "\<exists>s'. for_each (ed_tails ed) (\<lambda>t score. map_option (w_mul W score) (vat sc t)) s = Some s' \<and> E (length (ed_tails ed)) s'"
  proof (rule for_each_total [where I = "\<lambda>ys s. E (length ys) s"])
    fix ys x zs s assume split: "ed_tails ed = ys @ x # zs" and I: "E (length ys) s"
    have "length ys < length (ed_tails ed)" "ed_tails ed ! length ys = x" using split by auto
    then show "\<exists>s'. map_option (w_mul W s) (vat sc x) = Some s' \<and> E (length (ys @ [x])) s'"
      using mul [of "length ys" s] I by (auto simp: vat_eq vsize_def)
  qed (simp add: E0)
  then show ?thesis by (auto simp: inside_edge_def weight)
qed

lemma Inside_rule:
  assumes top: "topological hg"
    and zero: "\<And>n. n < length (hg_nodes hg) \<Longrightarrow> N n [] (w_zero W)"
    and edge: "\<And>n e. n < length (hg_nodes hg) \<Longrightarrow> e \<in> set (nd_in (hg_nodes hg ! n)) \<Longrightarrow> \<exists>s. weight (hg_edges hg ! nat e) = Some s \<and> E e 0 s"
    and mul: "\<And>n e k t s x. n < length (hg_nodes hg) \<Longrightarrow> e \<in> set (nd_in (hg_nodes hg ! n)) \<Longrightarrow> k < length (ed_tails (hg_edges hg ! nat e)) \<Longrightarrow>
      t = nat (ed_tails (hg_edges hg ! nat e) ! k) \<Longrightarrow> E e k s \<Longrightarrow> N t (nd_in (hg_nodes hg ! t)) x \<Longrightarrow> E e (Suc k) (w_mul W s x)"
    and add: "\<And>n es e a s. n < length (hg_nodes hg) \<Longrightarrow> e \<in> set (nd_in (hg_nodes hg ! n)) \<Longrightarrow> N n es a \<Longrightarrow>
      E e (length (ed_tails (hg_edges hg ! nat e))) s \<Longrightarrow> N n (es @ [e]) (w_add W a s)"
  shows "\<exists>sc. Inside W weight hg = Some (if hg_nodes hg = [] then w_zero W else last sc, sc) \<and> length sc = length (hg_nodes hg) \<and>
    (\<forall>n < length (hg_nodes hg). N n (nd_in (hg_nodes hg ! n)) (sc ! n))"
proof -
  let ?N = "length (hg_nodes hg)"
  let ?I = "\<lambda>(i :: int) sc. length sc = ?N \<and> (\<forall>n < ?N. if int n < i then N n (nd_in (hg_nodes hg ! n)) (sc ! n) else sc ! n = w_zero W)"
  have "\<exists>sc. for_each (int_range 0 (int ?N)) (inside_node W weight hg) (replicate ?N (w_zero W)) = Some sc \<and> ?I (int ?N) sc"
  proof (rule for_range_total)
    fix i sc
    assume i: "0 \<le> i" "i < int ?N" and I: "?I i sc"
    define n where "n = nat i"
    have n: "i = int n" "n < ?N" using i by (auto simp: n_def)
    let ?J = "\<lambda>es sc'. \<exists>a. sc' = sc[n := a] \<and> N n es a"
    let ?body = "\<lambda>eid sc. do {
         e \<leftarrow> vat (hg_edges hg) eid;
         score \<leftarrow> inside_edge W weight sc e;
         cur \<leftarrow> vat sc i;
         vset sc i (w_add W cur score) }"
    have "\<exists>sc'. for_each (nd_in (hg_nodes hg ! n)) ?body sc = Some sc' \<and> ?J (nd_in (hg_nodes hg ! n)) sc'"
    proof (rule for_each_total [where I = ?J])
      have "sc ! n = w_zero W" using I n by auto
      then show "?J [] sc" using zero [OF n(2)] by (metis list_update_id)
    next
      fix es e zs sc'
      assume split: "nd_in (hg_nodes hg ! n) = es @ e # zs" and "?J es sc'"
      then obtain a where a: "sc' = sc[n := a]" "N n es a" by blast
      have e: "e \<in> set (nd_in (hg_nodes hg ! n))" using split by simp
      have eb: "0 \<le> e" "e < vsize (hg_edges hg)" using topologicalD(1) [OF top n(2) e] by auto
      let ?ed = "hg_edges hg ! nat e"
      obtain s0 where s0: "weight ?ed = Some s0" "E e 0 s0" using edge [OF n(2) e] by blast
      have "\<exists>s. inside_edge W weight sc' ?ed = Some s \<and> E e (length (ed_tails ?ed)) s"
      proof (rule inside_edge_rule [where E = "E e" and weight = weight and ed = ?ed, OF s0])
        fix k s assume k: "k < length (ed_tails ?ed)" "E e k s"
        let ?t = "ed_tails ?ed ! k"
        have t: "0 \<le> ?t" "?t < int n" using topologicalD(2) [OF top n(2) e, of ?t] k by auto
        then have "nat ?t < ?N" "nat ?t \<noteq> n" "int (nat ?t) < i" using n by auto
        then have "N (nat ?t) (nd_in (hg_nodes hg ! nat ?t)) (sc' ! nat ?t)" using I a by auto
        then show "0 \<le> ?t \<and> ?t < vsize sc' \<and> E e (Suc k) (w_mul W s (sc' ! nat ?t))"
          using mul [OF n(2) e k(1) refl k(2)] t n I a by (auto simp: vsize_def)
      qed
      then obtain s where s: "inside_edge W weight sc' ?ed = Some s" "E e (length (ed_tails ?ed)) s" by blast
      have "?body e sc' = Some (sc[n := w_add W a s])"
        using eb s(1) a n I by (simp add: vat_eq vsize_def)
      then show "\<exists>s'. ?body e sc' = Some s' \<and> ?J (es @ [e]) s'" using add [OF n(2) e a(2) s(2)] by blast
    qed
    then obtain a where a: "for_each (nd_in (hg_nodes hg ! n)) ?body sc = Some (sc[n := a])" "N n (nd_in (hg_nodes hg ! n)) a" by blast
    then show "\<exists>s'. inside_node W weight hg i sc = Some s' \<and> ?I (i + 1) s'"
      using I n by (intro exI [of _ "sc[n := a]"]) (auto simp: inside_node_def nth_list_update)
  qed auto
  then obtain sc where sc: "for_each (int_range 0 (int ?N)) (inside_node W weight hg) (replicate ?N (w_zero W)) = Some sc" "?I (int ?N) sc" by blast
  have "length sc = ?N" using sc(2) by blast
  then have "Inside W weight hg = Some (if hg_nodes hg = [] then w_zero W else last sc, sc)"
    using sc(1) by (auto simp: Inside_def vsize_def)
  then show ?thesis using sc(2) by auto
qed

section \<open>Reading off the translation\<close>

fun full_arity :: "('f, 'w) hypergraph \<Rightarrow> deriv \<Rightarrow> bool" where
  "full_arity hg (Deriv e ds) \<longleftrightarrow> length ds = length (ed_tails (hg_edges hg ! nat e)) \<and> (\<forall>d \<in> set ds. full_arity hg d)"

lemma derives_full_arity: "derives hg n d \<Longrightarrow> full_arity hg d"
proof (induction d arbitrary: n)
  case (Deriv e ds)
  then have "list_all2 (\<lambda>t d. derives hg (nat t) d) (ed_tails (hg_edges hg ! nat e)) ds" by (simp add: derives_Deriv)
  then show ?case using Deriv.IH by (fastforce simp: list_all2_conv_all_nth in_set_conv_nth)
qed

lemma those_snoc: "those (xs @ [x]) = do { ys \<leftarrow> those xs; y \<leftarrow> x; Some (ys @ [y]) }"
proof (induction xs)
  case (Cons a xs)
  then show ?case by (cases a; cases "those xs"; cases x) auto
qed (cases x; simp)

lemma ESentenceTraversal_apply: "ESentenceTraversal e ants r = do { rule \<leftarrow> ed_rule e; ESubstitute rule ants }"
  by (simp add: ESentenceTraversal_def)

lemma collect_represents:
  "represents hg M B p d \<Longrightarrow> \<forall>d' \<in> set (dv_subs d). full_arity hg d' \<Longrightarrow> collect_translations p =
    do { ts \<leftarrow> those (map (deriv_result ESentenceTraversal [] hg) (dv_subs d)); ed \<leftarrow> vat (hg_edges hg) (dv_edge d); Some (rev ts, ed) }"
proof (induction rule: represents.induct)
  case (represents_mul p e ds q d x)
  let ?f = "deriv_result ESentenceTraversal [] hg"
  obtain e' ds' where d: "d = Deriv e' ds'" by (cases d)
  have full: "full_arity hg d" "\<forall>d' \<in> set ds. full_arity hg d'" using represents_mul.prems by auto
  have ants: "length ts = length (ed_tails ed)" if "those (map ?f ds') = Some ts" "vat (hg_edges hg) e' = Some ed" for ts ed
    using that full(1) by (auto simp: d those_Some_iff vat_Some_iff dest: list_all2_lengthD)
  have "do { s \<leftarrow> collect_translations q; substitute_edge s } = ?f d"
  proof (cases "those (map ?f ds')")
    case None
    then show ?thesis using represents_mul.IH(2) full(1) by (cases "vat (hg_edges hg) e'") (auto simp: d)
  next
    case (Some ts)
    show ?thesis
    proof (cases "vat (hg_edges hg) e'")
      case (Some ed)
      then show ?thesis using represents_mul.IH(2) full(1) \<open>those (map ?f ds') = Some ts\<close> ants [of ts ed]
        by (auto simp: d substitute_edge_def ESentenceTraversal_apply [of _ _ "[]"])
    qed (use represents_mul.IH(2) full(1) Some in \<open>auto simp: d\<close>)
  qed
  then have "collect_translations (mul_point exact_reals x p q) =
      do { t \<leftarrow> ?f d; (ant_trans, ed) \<leftarrow> collect_translations p; Some (t # ant_trans, ed) }"
    by (simp add: mul_point_def) (metis Option.bind_assoc)
  also have "\<dots> = do { ts \<leftarrow> those (map ?f (ds @ [d])); ed \<leftarrow> vat (hg_edges hg) e; Some (rev ts, ed) }"
    using represents_mul.IH(1) full(2) unfolding map_append list.map those_snoc
    by (cases "?f d"; cases "those (map ?f ds)"; cases "vat (hg_edges hg) e") auto
  finally show ?case by simp
qed simp

lemma ConstructTranslation_represents:
  assumes "represents hg M B p d" "full_arity hg d"
  shows "ConstructTranslation p = deriv_result ESentenceTraversal [] hg d"
proof -
  obtain e ds where d: "d = Deriv e ds" by (cases d)
  let ?f = "deriv_result ESentenceTraversal [] hg"
  have c: "collect_translations p = do { ts \<leftarrow> those (map ?f ds); ed \<leftarrow> vat (hg_edges hg) e; Some (rev ts, ed) }"
    using collect_represents [OF assms(1)] assms(2) by (simp add: d)
  have ants: "length ts = length (ed_tails ed)" if "those (map ?f ds) = Some ts" "vat (hg_edges hg) e = Some ed" for ts ed
    using that assms(2) by (auto simp: d those_Some_iff vat_Some_iff dest: list_all2_lengthD)
  show ?thesis
    unfolding ConstructTranslation_def c d using ants
    by (cases "those (map ?f ds)"; cases "vat (hg_edges hg) e") (auto simp: substitute_edge_def ESentenceTraversal_apply [of _ _ "[]"])
qed

section \<open>The envelope holds the best derivations\<close>

definition feature_dot :: "xreal hash_order \<Rightarrow> xreal svec \<Rightarrow> (xreal svec, 'w) edge \<Rightarrow> real" where
  "feature_dot ord v e = (case sv_dot (sv_double exact_reals) ord v (ed_features e) of Fin a \<Rightarrow> a | _ \<Rightarrow> 0)"

text \<open>The score of a derivation for the weights \<open>origin + t * direction\<close>.\<close>

definition line_score :: "xreal hash_order \<Rightarrow> xreal svec \<Rightarrow> xreal svec \<Rightarrow> (xreal svec, 'w) hypergraph \<Rightarrow> real \<Rightarrow> deriv \<Rightarrow> real" where
  "line_score ord origin direction hg t d = deriv_sum (\<lambda>e. feature_dot ord direction (hg_edges hg ! nat e) * t + feature_dot ord origin (hg_edges hg ! nat e)) d"

definition finite_dots :: "xreal hash_order \<Rightarrow> xreal svec \<Rightarrow> (xreal svec, 'w) hypergraph \<Rightarrow> bool" where
  "finite_dots ord v hg \<longleftrightarrow> (\<forall>e \<in> set (hg_edges hg). sv_dot (sv_double exact_reals) ord v (ed_features e) = Fin (feature_dot ord v e))"

definition edge_derivs :: "('f, 'w) hypergraph \<Rightarrow> int \<Rightarrow> nat \<Rightarrow> deriv set" where
  "edge_derivs hg e k = {Deriv e ds | ds. list_all2 (\<lambda>t d. derives hg (nat t) d) (take k (ed_tails (hg_edges hg ! nat e))) ds}"

lemma edge_derivs_Suc:
  assumes "k < length (ed_tails (hg_edges hg ! nat e))"
  shows "snoc_derivs (edge_derivs hg e k) {d. derives hg (nat (ed_tails (hg_edges hg ! nat e) ! k)) d} = edge_derivs hg e (Suc k)"
proof -
  have snoc: "list_all2 P (take (Suc k) ts) ds \<longleftrightarrow> (\<exists>ds' d. ds = ds' @ [d] \<and> list_all2 P (take k ts) ds' \<and> P (ts ! k) d)" if "k < length ts" for P ts ds
  proof
    show "\<exists>ds' d. ds = ds' @ [d] \<and> list_all2 P (take k ts) ds' \<and> P (ts ! k) d" if "list_all2 P (take (Suc k) ts) ds"
      using that \<open>k < length ts\<close> by (auto simp: take_Suc_conv_app_nth list_all2_append1 list_all2_Cons1)
    show "list_all2 P (take (Suc k) ts) ds" if "\<exists>ds' d. ds = ds' @ [d] \<and> list_all2 P (take k ts) ds' \<and> P (ts ! k) d"
      using that \<open>k < length ts\<close> by (auto simp: take_Suc_conv_app_nth intro: list_all2_appendI)
  qed
  show ?thesis unfolding snoc_derivs_def edge_derivs_def snoc [OF assms] by auto
qed

lemma hull_inside:
  assumes srt: "std_sort exact_reals srt" and top: "topological hg" and dots: "finite_dots ord origin hg" "finite_dots ord direction hg"
  defines "M \<equiv> \<lambda>e. feature_dot ord direction (hg_edges hg ! nat e)" and "B \<equiv> \<lambda>e. feature_dot ord origin (hg_edges hg ! nat e)"
  shows "\<exists>sc. Inside (ConvexHull_weights exact_reals garbage srt) (\<lambda>e. Some (Some (ConvexHullWeightFunction exact_reals ord origin direction e))) hg =
      Some (if hg_nodes hg = [] then Some ConvexHull_zero else last sc, sc) \<and> length sc = length (hg_nodes hg) \<and>
    (\<forall>n < length (hg_nodes hg). \<exists>H. sc ! n = Some H \<and> hull_of hg M B H {d. derives hg n d})"
proof -
  let ?W = "ConvexHull_weights exact_reals garbage srt"
  let ?weight = "\<lambda>e. Some (Some (ConvexHullWeightFunction exact_reals ord origin direction e))"
  let ?N = "\<lambda>n es X. \<exists>H. X = Some H \<and> hull_of hg M B H {d. derives hg n d \<and> dv_edge d \<in> set es}"
  let ?E = "\<lambda>e k X. \<exists>H. X = Some H \<and> hull_of hg M B H (edge_derivs hg e k)"
  have all: "{d. derives hg n d \<and> dv_edge d \<in> set (nd_in (hg_nodes hg ! n))} = {d. derives hg n d}" for n
    by (auto elim: derives.cases)
  have "\<exists>sc. Inside ?W ?weight hg = Some (if hg_nodes hg = [] then w_zero ?W else last sc, sc) \<and> length sc = length (hg_nodes hg) \<and>
      (\<forall>n < length (hg_nodes hg). ?N n (nd_in (hg_nodes hg ! n)) (sc ! n))"
  proof (rule Inside_rule [where N = ?N and E = ?E, OF top])
    show "?N n [] (w_zero ?W)" for n
      by (simp add: ConvexHull_weights_def ConvexHull_zero_def hull_of_def envelope_def segments_def active_def)
  next
    fix n e assume n: "n < length (hg_nodes hg)" and e: "e \<in> set (nd_in (hg_nodes hg ! n))"
    let ?ed = "hg_edges hg ! nat e"
    have eb: "0 \<le> e" "e < vsize (hg_edges hg)" using topologicalD(1) [OF top n e] by auto
    then have "?ed \<in> set (hg_edges hg)" by (simp add: vsize_def)
    then have cf: "ConvexHullWeightFunction exact_reals ord origin direction ?ed = \<lparr>ch_sorted = True, ch_points = [MERTPoint MInf (Fin (M e)) (Fin (B e)) None None (Some ?ed)]\<rparr>"
      using dots by (simp add: ConvexHullWeightFunction_def finite_dots_def M_def B_def)
    have "vat (hg_edges hg) e = Some ?ed" using eb by (simp add: vat_eq vsize_def)
    then have r: "represents hg M B (MERTPoint MInf (Fin (M e)) (Fin (B e)) None None (Some ?ed)) (Deriv e [])" by (rule represents_edge)
    have "edge_derivs hg e 0 = {Deriv e []}" by (auto simp: edge_derivs_def)
    then have "hull_of hg M B (ConvexHullWeightFunction exact_reals ord origin direction ?ed) (edge_derivs hg e 0)"
      using r represents_line(2) [OF r] unfolding cf by (auto simp: hull_of_def envelope_def segments_def active_def)
    then show "\<exists>s. ?weight ?ed = Some s \<and> ?E e 0 s" by blast
  next
    fix n e k t s x
    assume k: "k < length (ed_tails (hg_edges hg ! nat e))" "t = nat (ed_tails (hg_edges hg ! nat e) ! k)" and s: "?E e k s" and x: "?N t (nd_in (hg_nodes hg ! t)) x"
    obtain a b where "s = Some a" "hull_of hg M B a (edge_derivs hg e k)" "x = Some b" "hull_of hg M B b {d. derives hg t d}" using s x unfolding all by blast
    then show "?E e (Suc k) (w_mul ?W s x)"
      using hull_times_of [OF srt] edge_derivs_Suc [OF k(1)] by (fastforce simp: ConvexHull_weights_def k(2))
  next
    fix n es e a s
    assume n: "n < length (hg_nodes hg)" "e \<in> set (nd_in (hg_nodes hg ! n))" and a: "?N n es a" and s: "?E e (length (ed_tails (hg_edges hg ! nat e))) s"
    obtain h k where hk: "a = Some h" "hull_of hg M B h {d. derives hg n d \<and> dv_edge d \<in> set es}" "s = Some k"
      "hull_of hg M B k (edge_derivs hg e (length (ed_tails (hg_edges hg ! nat e))))" using a s by blast
    have "edge_derivs hg e (length (ed_tails (hg_edges hg ! nat e))) = {d. derives hg n d \<and> dv_edge d = e}"
    proof (rule set_eqI)
      show "d \<in> edge_derivs hg e (length (ed_tails (hg_edges hg ! nat e))) \<longleftrightarrow> d \<in> {d. derives hg n d \<and> dv_edge d = e}" for d
        using n by (cases d) (auto simp: edge_derivs_def derives_Deriv)
    qed
    then have "{d. derives hg n d \<and> dv_edge d \<in> set es} \<union> edge_derivs hg e (length (ed_tails (hg_edges hg ! nat e))) =
        {d. derives hg n d \<and> dv_edge d \<in> set (es @ [e])}" by auto
    then show "?N n (es @ [e]) (w_add ?W a s)"
      using hull_plus_of [OF srt hk(2,4)] hk(1,3) by (simp add: ConvexHull_weights_def)
  qed
  moreover have z: "w_zero ?W = Some ConvexHull_zero" by (simp add: ConvexHull_weights_def)
  ultimately show ?thesis unfolding all z by blast
qed

text \<open>C13. Minimum error rate training. The inside algorithm over hulls returns for the goal a hull whose sorted
  segments divide the line. On each segment its point has the score that a derivation of the goal has for the
  weights \<open>origin + t * direction\<close>, no derivation has a greater one, and the translation constructed from
  the point is that of such a best derivation.\<close>

theorem ConvexHull_best_translations:
  assumes "std_sort exact_reals srt" "topological hg" "hg_nodes hg \<noteq> []" "finite_dots ord origin hg" "finite_dots ord direction hg"
    and g: "g = length (hg_nodes hg) - 1"
  shows "\<exists>H sc segs. Inside (ConvexHull_weights exact_reals garbage srt) (\<lambda>e. Some (Some (ConvexHullWeightFunction exact_reals ord origin direction e))) hg = Some (Some H, sc) \<and>
    GetSortedSegs exact_reals srt H = Some segs \<and> segments segs \<and> (segs = [] \<longleftrightarrow> (\<forall>d. \<not> derives hg g d)) \<and>
    (\<forall>k t. active segs k t \<longrightarrow> (\<exists>d. derives hg g d \<and> ConstructTranslation (segs ! k) = deriv_result ESentenceTraversal [] hg d \<and>
       line_at (segs ! k) t = line_score ord origin direction hg t d \<and>
       (\<forall>d'. derives hg g d' \<longrightarrow> line_score ord origin direction hg t d' \<le> line_score ord origin direction hg t d)))"
proof -
  let ?M = "\<lambda>e. feature_dot ord direction (hg_edges hg ! nat e)" and ?B = "\<lambda>e. feature_dot ord origin (hg_edges hg ! nat e)"
  have gl: "g < length (hg_nodes hg)" using assms(3) g by simp
  obtain sc where sc: "Inside (ConvexHull_weights exact_reals garbage srt) (\<lambda>e. Some (Some (ConvexHullWeightFunction exact_reals ord origin direction e))) hg = Some (last sc, sc)"
    "length sc = length (hg_nodes hg)" "\<forall>n < length (hg_nodes hg). \<exists>H. sc ! n = Some H \<and> hull_of hg ?M ?B H {d. derives hg n d}"
    using hull_inside [OF assms(1,2,4,5), of garbage] assms(3) by auto
  obtain H where H: "sc ! g = Some H" "hull_of hg ?M ?B H {d. derives hg g d}" using sc(3) gl by blast
  have "last sc = Some H" using H(1) sc(2) assms(3) g by (metis last_conv_nth length_0_conv)
  obtain h where h: "make_sorted exact_reals srt H = Some h" "ch_sorted h" "hull_of hg ?M ?B h {d. derives hg g d}"
    using make_sorted_of [OF assms(1) H(2)] by blast
  define segs where "segs = ch_points h"
  have env: "envelope segs" and rep: "\<forall>p \<in> set segs. \<exists>d \<in> {d. derives hg g d}. represents hg ?M ?B p d"
    and best: "\<forall>t. \<forall>d \<in> {d. derives hg g d}. \<exists>p \<in> set segs. deriv_sum (\<lambda>e. ?M e * t + ?B e) d \<le> line_at p t"
    using h by (auto simp: hull_of_def segs_def)
  have "\<exists>d. derives hg g d \<and> ConstructTranslation (segs ! k) = deriv_result ESentenceTraversal [] hg d \<and>
       line_at (segs ! k) t = line_score ord origin direction hg t d \<and>
       (\<forall>d'. derives hg g d' \<longrightarrow> line_score ord origin direction hg t d' \<le> line_score ord origin direction hg t d)" if act: "active segs k t" for k t
  proof -
    have "segs ! k \<in> set segs" using act by (simp add: active_def)
    then obtain d where d: "derives hg g d" "represents hg ?M ?B (segs ! k) d" using rep by blast
    have line: "line_at (segs ! k) t = line_score ord origin direction hg t d"
      unfolding line_score_def by (rule represents_line(2) [OF d(2)])
    have "line_score ord origin direction hg t d' \<le> line_at (segs ! k) t" if d': "derives hg g d'" for d'
    proof -
      obtain p where "p \<in> set segs" "line_score ord origin direction hg t d' \<le> line_at p t" using best d' unfolding line_score_def by blast
      moreover have "line_at p t \<le> line_at (segs ! k) t" using env act \<open>p \<in> set segs\<close> unfolding envelope_def by blast
      ultimately show ?thesis by simp
    qed
    then show ?thesis using d line ConstructTranslation_represents [OF d(2) derives_full_arity [OF d(1)]] by (intro exI [of _ d]) auto
  qed
  moreover have "segs = [] \<longleftrightarrow> (\<forall>d. \<not> derives hg g d)" using rep best by (cases segs) fastforce+
  moreover have "segments segs" using env by (simp add: envelope_def)
  moreover have "GetSortedSegs exact_reals srt H = Some segs" using h(1) by (simp add: GetSortedSegs_def segs_def)
  ultimately show ?thesis using sc(1) \<open>last sc = Some H\<close> by auto
qed

text \<open>Two words compete: one with score \<open>1\<close> and one with score \<open>t\<close>.\<close>

definition two_words :: "(xreal svec, unit) hypergraph" where
  "two_words = (let ed = \<lambda>k w f. \<lparr>ed_head = 0, ed_tails = [], ed_rule = Some \<lparr>tr_e = [w], tr_f = [1], tr_lhs = -1, tr_scores = Local [], tr_arity = 0,
        tr_prev_i = 0, tr_prev_j = 0, tr_a = []\<rparr>, ed_features = Local [(f, Fin 1)], ed_prob = (), ed_id = k, ed_i = 0, ed_j = 0, ed_prev_i = 0, ed_prev_j = 0\<rparr>
     in \<lparr>hg_linear_chain = False, hg_nodes = [\<lparr>nd_hash = 0, nd_id = 0, nd_cat = -1, nd_in = [0, 1], nd_out = []\<rparr>], hg_edges = [ed 0 7 0, ed 1 8 1]\<rparr>)"

lemma two_words_ok: "topological two_words" "hg_nodes two_words \<noteq> []" "finite_dots ord (Local [(0, Fin 1)]) two_words" "finite_dots ord (Local [(1, Fin 1)]) two_words"
  by (simp_all add: two_words_def topological_def finite_dots_def feature_dot_def sv_dot_def sv_entries_def sv_value_def sv_double_def)

lemma two_words_derives: "derives two_words 0 d \<longleftrightarrow> d = Deriv 0 [] \<or> d = Deriv 1 []"
  by (cases d) (auto simp: derives_Deriv two_words_def)

lemma two_words_score: "line_score ord (Local [(0, Fin 1)]) (Local [(1, Fin 1)]) two_words t (Deriv 0 []) = 1"
  "line_score ord (Local [(0, Fin 1)]) (Local [(1, Fin 1)]) two_words t (Deriv 1 []) = t"
  by (simp_all add: two_words_def line_score_def feature_dot_def sv_dot_def sv_entries_def sv_value_def sv_double_def)

lemma std_sort_sort_key: "std_sort exact_reals (sort_key mp_m)"
  unfolding std_sort_def
proof (intro allI impI conjI)
  fix ps :: "(xreal, 'e) mert_point list"
  have "sorted_wrt (\<lambda>a b. mp_m a \<le> mp_m b) (sort_key mp_m ps)" using sorted_sort_key [of mp_m ps] by (simp add: sorted_map)
  then show "sorted_wrt (\<lambda>a b. \<not> SlopeCompare exact_reals b a) (sort_key mp_m ps)"
    by (rule sorted_wrt_mono_rel [rotated]) (auto simp: SlopeCompare_def dest: x_less_less)
qed simp

lemma ConvexHull_best_translations_witness:
  "\<exists>H sc segs. Inside (ConvexHull_weights exact_reals False (sort_key mp_m))
      (\<lambda>e. Some (Some (ConvexHullWeightFunction exact_reals (\<lambda>m. []) (Local [(0, Fin 1)]) (Local [(1, Fin 1)]) e))) two_words = Some (Some H, sc) \<and>
    GetSortedSegs exact_reals (sort_key mp_m) H = Some segs \<and>
    (\<exists>k. active segs k 3 \<and> ConstructTranslation (segs ! k) = Some [8]) \<and> (\<exists>k. active segs k (-1) \<and> ConstructTranslation (segs ! k) = Some [7])"
proof -
  let ?sc = "line_score (\<lambda>m. []) (Local [(0, Fin 1)]) (Local [(1, Fin 1)]) two_words"
  have g: "(0 :: nat) = length (hg_nodes two_words) - 1" by (simp add: two_words_def)
  obtain H sc segs where r: "Inside (ConvexHull_weights exact_reals False (sort_key mp_m))
      (\<lambda>e. Some (Some (ConvexHullWeightFunction exact_reals (\<lambda>m. []) (Local [(0, Fin 1)]) (Local [(1, Fin 1)]) e))) two_words = Some (Some H, sc)"
    "GetSortedSegs exact_reals (sort_key mp_m) H = Some segs" "segments segs" "segs = [] \<longleftrightarrow> (\<forall>d. \<not> derives two_words 0 d)"
    and best: "\<forall>k t. active segs k t \<longrightarrow> (\<exists>d. derives two_words 0 d \<and> ConstructTranslation (segs ! k) = deriv_result ESentenceTraversal [] two_words d \<and>
       line_at (segs ! k) t = ?sc t d \<and> (\<forall>d'. derives two_words 0 d' \<longrightarrow> ?sc t d' \<le> ?sc t d))"
    using ConvexHull_best_translations [where garbage = False and ord = "\<lambda>m. []", OF std_sort_sort_key two_words_ok g] by blast
  have "segs \<noteq> []" using r(4) two_words_derives by blast
  then obtain k l where k: "active segs k 3" and l: "active segs l (-1)" using active_exists [OF r(3)] by meson
  have tr: "deriv_result ESentenceTraversal [] two_words (Deriv 0 []) = Some [7]" "deriv_result ESentenceTraversal [] two_words (Deriv 1 []) = Some [8]"
    by (simp_all add: two_words_def ESentenceTraversal_def ESubstitute_def vat_def)
  obtain d where "derives two_words 0 d" "ConstructTranslation (segs ! k) = deriv_result ESentenceTraversal [] two_words d"
    "\<forall>d'. derives two_words 0 d' \<longrightarrow> ?sc 3 d' \<le> ?sc 3 d" using best k by blast
  then have "ConstructTranslation (segs ! k) = Some [8]" using tr by (auto simp: two_words_derives two_words_score)
  moreover obtain d where "derives two_words 0 d" "ConstructTranslation (segs ! l) = deriv_result ESentenceTraversal [] two_words d"
    "\<forall>d'. derives two_words 0 d' \<longrightarrow> ?sc (-1) d' \<le> ?sc (-1) d" using best l by blast
  then have "ConstructTranslation (segs ! l) = Some [7]" using tr by (auto simp: two_words_derives two_words_score)
  ultimately show ?thesis using r k l by blast
qed

end
