(* ===== verification/LineOptimizer.thy ===== *)
theory LineOptimizer
  imports MertGeometry
begin

text \<open>
  The search along a line of minimum error rate training: sufficient statistics (\<open>mteval/ns.h\<close>), error
  surfaces (\<open>training/dpmert/ces.cc\<close>, \<open>error_surface.h\<close>) and the line optimizer (\<open>line_optimizer.cc\<close>).
  The metric is a parameter, a function of the fields of the statistics, and so is \<open>std::sort\<close>; single and
  double precision are the same numbers. Serialization of surfaces is left out.
\<close>

section \<open>Sufficient statistics\<close>

record 'd sufficient_stats =
  ss_id :: string
  ss_fields :: "'d list"

definition empty_stats :: "'d sufficient_stats" where
  "empty_stats = \<lparr>ss_id = '''', ss_fields = []\<rparr>"

definition combine_fields :: "'d \<Rightarrow> ('d \<Rightarrow> 'd \<Rightarrow> 'd) \<Rightarrow> 'd list \<Rightarrow> 'd list \<Rightarrow> 'd list" where
  "combine_fields zero f fs delta = (let n = max (length fs) (length delta);
     fs = (if length fs \<noteq> length delta then fs @ replicate (n - length fs) zero else fs)
     in map (\<lambda>(i, x). if i < length delta then f x (delta ! i) else x) (enumerate 0 fs))"

definition stats_plus :: "('d, 'z) floats_scheme \<Rightarrow> 'd sufficient_stats \<Rightarrow> 'd sufficient_stats \<Rightarrow> 'd sufficient_stats" where
  "stats_plus fl s delta = \<lparr>ss_id = (if ss_id s = '''' \<and> ss_id delta \<noteq> '''' then ss_id delta else ss_id s),
     ss_fields = combine_fields (fl_of_int fl 0) (fl_add fl) (ss_fields s) (ss_fields delta)\<rparr>"

definition stats_minus :: "('d, 'z) floats_scheme \<Rightarrow> 'd sufficient_stats \<Rightarrow> 'd sufficient_stats \<Rightarrow> 'd sufficient_stats" where
  "stats_minus fl s delta = \<lparr>ss_id = (if ss_id s = '''' \<and> ss_id delta \<noteq> '''' then ss_id delta else ss_id s),
     ss_fields = combine_fields (fl_of_int fl 0) (fl_sub fl) (ss_fields s) (ss_fields delta)\<rparr>"

definition stats_times :: "('d, 'z) floats_scheme \<Rightarrow> 'd sufficient_stats \<Rightarrow> 'd \<Rightarrow> 'd sufficient_stats" where
  "stats_times fl s scalar = s\<lparr>ss_fields := map (\<lambda>x. fl_mul fl x scalar) (ss_fields s)\<rparr>"

definition stats_divide :: "('d, 'z) floats_scheme \<Rightarrow> 'd sufficient_stats \<Rightarrow> 'd \<Rightarrow> 'd sufficient_stats" where
  "stats_divide fl s scalar = s\<lparr>ss_fields := map (\<lambda>x. fl_div fl x scalar) (ss_fields s)\<rparr>"

definition IsAdditiveIdentity :: "('d, 'z) log_floats_scheme \<Rightarrow> 'd sufficient_stats \<Rightarrow> bool" where
  "IsAdditiveIdentity fl s = list_all (\<lambda>x. lf_eq fl x (fl_of_int fl 0)) (ss_fields s)"

definition stats_at :: "('d, 'z) floats_scheme \<Rightarrow> 'd sufficient_stats \<Rightarrow> nat \<Rightarrow> 'd" where
  "stats_at fl s i = (if i < length (ss_fields s) then ss_fields s ! i else fl_of_int fl 0)"

section \<open>Error surfaces\<close>

record 'd error_segment =
  es_x :: 'd
  es_delta :: "'d sufficient_stats"

text \<open>\<open>minimize_segments\<close> is true in the code: segments that do not change the statistics are left out.\<close>

definition surface_step :: "('d, 'z) log_floats_scheme \<Rightarrow> bool \<Rightarrow> (int list \<Rightarrow> 'd sufficient_stats) \<Rightarrow> ('d, ('f, 'w) edge) mert_point \<Rightarrow>
    'd error_segment list \<times> int list \<times> 'd sufficient_stats \<Rightarrow> ('d error_segment list \<times> int list \<times> 'd sufficient_stats) option" where
  "surface_step fl minimize_segments evaluate seg s = do {
     let (env, prev_trans, prev_score) = s;
     trans \<leftarrow> ConstructTranslation seg;
     if trans = prev_trans then
       Some (if \<not> minimize_segments then env @ [\<lparr>es_x = mp_x seg, es_delta = empty_stats\<rparr>] else env, prev_trans, prev_score)
     else let score = evaluate trans; delta = stats_minus fl score prev_score in
       Some (if \<not> minimize_segments \<or> \<not> IsAdditiveIdentity fl delta then env @ [\<lparr>es_x = mp_x seg, es_delta = delta\<rparr>] else env, trans, score) }"

definition ComputeErrorSurface :: "('d, 'z) log_floats_scheme \<Rightarrow> (('d, ('f, 'w) edge) mert_point list \<Rightarrow> ('d, ('f, 'w) edge) mert_point list) \<Rightarrow>
    (int list \<Rightarrow> 'd sufficient_stats) \<Rightarrow> ('d, ('f, 'w) edge) convex_hull \<Rightarrow> 'd error_segment list option" where
  "ComputeErrorSurface fl srt evaluate ve = do {
     ienv \<leftarrow> GetSortedSegs fl srt ve;
     (env, _, _) \<leftarrow> for_each ienv (surface_step fl True evaluate) ([], [], empty_stats);
     check (env \<noteq> []);
     Some env }"

section \<open>The line optimizer\<close>

datatype ScoreType = MAXIMIZE_SCORE | MINIMIZE_SCORE

definition better_score :: "('d, 'z) floats_scheme \<Rightarrow> ScoreType \<Rightarrow> 'd \<Rightarrow> 'd \<Rightarrow> bool" where
  "better_score fl type sco cur_best_score = ((type = MAXIMIZE_SCORE \<and> fl_less fl cur_best_score sco) \<or> (type = MINIMIZE_SCORE \<and> fl_less fl sco cur_best_score))"

text \<open>The state: the last boundary, the accumulated statistics, the best score, whether it is the first segment, the position.\<close>

definition optimize_step :: "('d, 'z) floats_scheme \<Rightarrow> ('d list \<Rightarrow> 'd) \<Rightarrow> ScoreType \<Rightarrow> 'd \<Rightarrow> 'd error_segment \<Rightarrow>
    'd \<times> 'd sufficient_stats \<times> 'd \<times> bool \<times> 'd \<Rightarrow> 'd \<times> 'd sufficient_stats \<times> 'd \<times> bool \<times> 'd" where
  "optimize_step fl metric type epsilon seg st = (let (last_boundary, acc, cur_best_score, left_edge, pos) = st;
     (last_boundary, cur_best_score, left_edge, pos) =
       (if fl_less fl epsilon (fl_sub fl (es_x seg) last_boundary) then
          let sco = metric (ss_fields acc);
            (cur_best_score, left_edge, pos) = (if better_score fl type sco cur_best_score then
               (sco, False, if left_edge then fl_sub fl (es_x seg) (fl_div fl (fl_of_int fl 1) (fl_of_int fl 10))
                  else fl_add fl last_boundary (fl_div fl (fl_sub fl (es_x seg) last_boundary) (fl_of_int fl 2)))
             else (cur_best_score, left_edge, pos))
          in (es_x seg, cur_best_score, left_edge, pos)
        else (last_boundary, cur_best_score, left_edge, pos))
     in (last_boundary, stats_plus fl acc (es_delta seg), cur_best_score, left_edge, pos))"

text \<open>The position and the best score.\<close>

definition LineOptimize :: "('d, 'z) floats_scheme \<Rightarrow> ('d error_segment list \<Rightarrow> 'd error_segment list) \<Rightarrow> 'd \<Rightarrow> 'd \<Rightarrow> ('d list \<Rightarrow> 'd) \<Rightarrow>
    'd error_segment list list \<Rightarrow> ScoreType \<Rightarrow> 'd \<Rightarrow> ('d \<times> 'd) option" where
  "LineOptimize fl srt float_max quiet_NaN metric surfaces type epsilon = do {
     let all_ints = srt (concat surfaces);
     first \<leftarrow> vfront all_ints;
     let (last_boundary, acc, cur_best_score, left_edge, pos) = fold (optimize_step fl metric type epsilon) all_ints
       (es_x first, empty_stats, if type = MAXIMIZE_SCORE then fl_neg fl float_max else float_max, True, quiet_NaN);
     let sco = metric (ss_fields acc);
     Some (if better_score fl type sco cur_best_score
       then (if left_edge then fl_of_int fl 0 else fl_add fl last_boundary (fl_of_int fl 1000), sco)
       else (pos, cur_best_score)) }"

text \<open>The normal draws of the generator are a parameter, numbered from \<open>n\<close>; so is the square root.\<close>

definition RandomUnitVector :: "'v sv_ops \<Rightarrow> 'v hash_order \<Rightarrow> ('v \<Rightarrow> 'v) \<Rightarrow> (nat \<Rightarrow> 'v) \<Rightarrow> nat \<Rightarrow> int list \<Rightarrow> 'v svec \<times> nat" where
  "RandomUnitVector W ord square_root next_normal n features_to_optimize =
     (let (axis, n) = fold (\<lambda>f (axis, n). (set_value 7 (so_zero W) f (next_normal n) axis, n + 1)) features_to_optimize (empty_svec, n)
      in (sv_div_eq W axis (square_root (l2norm_sq W ord axis)), n))"

definition CreateOptimizationDirections :: "'v sv_ops \<Rightarrow> 'v hash_order \<Rightarrow> ('v \<Rightarrow> 'v) \<Rightarrow> 'v \<Rightarrow> (nat \<Rightarrow> 'v) \<Rightarrow> nat \<Rightarrow> int list \<Rightarrow> int \<Rightarrow> bool \<Rightarrow>
    'v svec list \<times> nat" where
  "CreateOptimizationDirections W ord square_root one next_normal n features_to_optimize additional_random_directions include_orthogonal =
     (let out = (if include_orthogonal then map (\<lambda>f. set_value 7 (so_zero W) f one empty_svec) features_to_optimize else [])
      in fold (\<lambda>_ (out, n). let (d, n) = RandomUnitVector W ord square_root next_normal n features_to_optimize in (out @ [d], n))
        (int_range 0 additional_random_directions) (out, n))"

section \<open>Sums of statistics\<close>

definition field_at :: "xreal list \<Rightarrow> nat \<Rightarrow> xreal" where
  "field_at xs i = (if i < length xs then xs ! i else Fin 0)"

lemma combine_fields_length [simp]: "length (combine_fields z f xs ys) = max (length xs) (length ys)"
  by (simp add: combine_fields_def Let_def)

lemma x_add_zero [simp]: "x_add x (Fin 0) = x" "x_add (Fin 0) x = x"
  by (cases x; simp)+

lemma x_add_comm: "x_add x y = x_add y x"
  by (cases x; cases y) auto

lemma x_add_assoc: "x_add (x_add x y) z = x_add x (x_add y z)"
  by (cases x; cases y; cases z) auto

lemma combine_fields_at:
  assumes "\<And>x. f x (Fin 0) = x"
  shows "field_at (combine_fields (Fin 0) f xs ys) i = f (field_at xs i) (field_at ys i)"
  using assms by (auto simp: combine_fields_def field_at_def Let_def nth_enumerate_eq nth_append)

lemma fields_eqI: "length xs = length ys \<Longrightarrow> (\<And>i. field_at xs i = field_at ys i) \<Longrightarrow> xs = ys"
  by (rule nth_equalityI) (auto simp: field_at_def split: if_splits, metis)

abbreviation add_fields :: "xreal list \<Rightarrow> xreal list \<Rightarrow> xreal list" where
  "add_fields \<equiv> combine_fields (Fin 0) x_add"

lemma add_fields_Nil [simp]: "add_fields xs [] = xs" "add_fields [] xs = xs"
  by (rule fields_eqI; simp add: combine_fields_at; simp add: field_at_def)+

lemma add_fields_swap: "add_fields (add_fields xs ys) zs = add_fields (add_fields xs zs) ys"
  by (rule fields_eqI) (auto simp: combine_fields_at, metis x_add_assoc x_add_comm)

lemma stats_plus_fields [simp]: "ss_fields (stats_plus exact_reals s d) = add_fields (ss_fields s) (ss_fields d)"
  by (simp add: stats_plus_def)

definition sum_deltas :: "xreal error_segment list \<Rightarrow> xreal list" where
  "sum_deltas segs = fold (\<lambda>seg fs. add_fields fs (ss_fields (es_delta seg))) segs []"

lemma sum_deltas_simps [simp]: "sum_deltas [] = []" "sum_deltas (segs @ [s]) = add_fields (sum_deltas segs) (ss_fields (es_delta s))"
  by (simp_all add: sum_deltas_def)

lemma sum_deltas_mset: "mset xs = mset ys \<Longrightarrow> sum_deltas xs = sum_deltas ys"
  unfolding sum_deltas_def by (rule fun_cong [OF fold_multiset_equiv]) (auto simp: fun_eq_iff add_fields_swap)

text \<open>The statistics at a point of the line: those of all segments that start at or before it.\<close>

definition total_stats :: "xreal error_segment list list \<Rightarrow> real \<Rightarrow> xreal list" where
  "total_stats surfaces t = sum_deltas (filter (\<lambda>s. below (es_x s) t) (concat surfaces))"

section \<open>The optimizer finds a best point\<close>

text \<open>What \<open>std::sort\<close> is known to do with segments that \<open>IntervalComp\<close> orders.\<close>

definition interval_sort :: "(xreal error_segment list \<Rightarrow> xreal error_segment list) \<Rightarrow> bool" where
  "interval_sort srt \<longleftrightarrow> (\<forall>segs. (\<forall>s \<in> set segs. es_x s \<noteq> NaN) \<longrightarrow>
     mset (srt segs) = mset segs \<and> sorted_wrt (\<lambda>a b. \<not> x_less (es_x b) (es_x a)) (srt segs))"

definition starts_ok :: "real \<Rightarrow> xreal error_segment list \<Rightarrow> bool" where
  "starts_ok e segs \<longleftrightarrow> (\<forall>s \<in> set segs. es_x s = MInf \<or> (\<exists>a. es_x s = Fin a)) \<and> (\<exists>s \<in> set segs. es_x s = MInf) \<and>
     (\<forall>s \<in> set segs. \<forall>s' \<in> set segs. \<forall>a b. es_x s = Fin a \<longrightarrow> es_x s' = Fin b \<longrightarrow> a < b \<longrightarrow> e < b - a)"

definition at_best :: "ScoreType \<Rightarrow> real \<Rightarrow> real \<Rightarrow> bool" where
  "at_best type r q \<longleftrightarrow> (if type = MAXIMIZE_SCORE then q \<le> r else r \<le> q)"

lemma better_score_Fin: "better_score exact_reals type (Fin q) (Fin r) \<longleftrightarrow> \<not> at_best type r q"
  by (cases type) (auto simp: better_score_def at_best_def)

lemma at_best_trans: "\<not> at_best type r q \<Longrightarrow> at_best type r p \<Longrightarrow> at_best type q p" "at_best type q q"
  by (auto simp: at_best_def split: if_splits)

definition found :: "xreal error_segment list \<Rightarrow> (xreal list \<Rightarrow> xreal) \<Rightarrow> ScoreType \<Rightarrow> real \<Rightarrow> xreal error_segment list \<Rightarrow>
    xreal \<times> xreal sufficient_stats \<times> xreal \<times> bool \<times> xreal \<Rightarrow> bool" where
  "found xs metric type F ys st = (case st of (L, acc, best, left_edge, pos) \<Rightarrow>
     L = (if ys = [] then MInf else es_x (last ys)) \<and> ss_fields acc = sum_deltas ys \<and>
     (L = MInf \<and> best = Fin (if type = MAXIMIZE_SCORE then - F else F) \<and> left_edge \<or>
      (\<exists>l p r. L = Fin l \<and> \<not> left_edge \<and> pos = Fin p \<and> p < l \<and> best = Fin r \<and> metric (total_stats [xs] p) = Fin r \<and>
        (\<forall>t < l. \<forall>q. metric (total_stats [xs] t) = Fin q \<longrightarrow> at_best type r q))))"

lemma filter_prefix:
  assumes "\<forall>y \<in> set ys. P y" "\<forall>z \<in> set zs. \<not> P z" shows "filter P (ys @ zs) = ys"
  using assms by simp

lemma prefix_total:
  assumes srt: "sorted_wrt (\<lambda>a b. \<not> x_less (es_x b) (es_x a)) xs" and xs: "xs = ys @ zs" and ok: "starts_ok e xs"
    and low: "ys = [] \<or> below (es_x (last ys)) t" and high: "\<forall>z \<in> set zs. \<not> below (es_x z) t"
  shows "total_stats [xs] t = sum_deltas ys"
proof -
  have "below (es_x y) t" if y: "y \<in> set ys" for y
  proof -
    have fin: "es_x y = MInf \<or> (\<exists>a. es_x y = Fin a)" "below (es_x (last ys)) t"
      using ok low y unfolding starts_ok_def xs by auto
    have "y = last ys \<or> \<not> x_less (es_x (last ys)) (es_x y)"
    proof (cases "y = last ys")
      case False
      have split: "ys = butlast ys @ [last ys]" using y by (cases ys rule: rev_cases) auto
      then have "y \<in> set (butlast ys)" using y False by (metis Un_iff empty_iff insert_iff list.set set_append)
      moreover have "sorted_wrt (\<lambda>a b. \<not> x_less (es_x b) (es_x a)) ys" using srt unfolding xs by (simp add: sorted_wrt_append)
      ultimately show ?thesis using split by (metis list.set_intros(1) sorted_wrt_append)
    qed simp
    then show ?thesis using fin by (cases "es_x (last ys)") auto
  qed
  then show ?thesis using filter_prefix [of ys "\<lambda>s. below (es_x s) t" zs] high by (simp add: total_stats_def xs)
qed

lemma optimize_step_found:
  assumes srt: "sorted_wrt (\<lambda>a b. \<not> x_less (es_x b) (es_x a)) xs" and ok: "starts_ok e xs" and e: "0 \<le> e"
    and metric: "\<And>t. \<exists>r. metric (total_stats [xs] t) = Fin r \<and> \<bar>r\<bar> < F"
    and xs: "xs = ys @ z # zs" and inv: "found xs metric type F ys st"
  shows "found xs metric type F (ys @ [z]) (optimize_step exact_reals metric type (Fin e) z st)"
proof -
  obtain L acc best le pos where st: "st = (L, acc, best, le, pos)" by (cases st) auto
  have L: "L = (if ys = [] then MInf else es_x (last ys))" and acc: "ss_fields acc = sum_deltas ys"
    and cases: "L = MInf \<and> best = Fin (if type = MAXIMIZE_SCORE then - F else F) \<and> le \<or>
      (\<exists>l p r. L = Fin l \<and> \<not> le \<and> pos = Fin p \<and> p < l \<and> best = Fin r \<and> metric (total_stats [xs] p) = Fin r \<and>
        (\<forall>t < l. \<forall>q. metric (total_stats [xs] t) = Fin q \<longrightarrow> at_best type r q))"
    using inv unfolding found_def st prod.case by blast+
  have zx: "es_x z = MInf \<or> (\<exists>a. es_x z = Fin a)" using ok unfolding starts_ok_def xs by auto
  have acc': "ss_fields (stats_plus exact_reals acc (es_delta z)) = sum_deltas (ys @ [z])" by (simp add: acc)
  have inside: "metric (ss_fields acc) = metric (total_stats [xs] t)" if t: "below L t" "\<not> below (es_x z) t" for t
  proof -
    have "\<not> below (es_x y) t" if y: "y \<in> set (z # zs)" for y
    proof (cases "y = z")
      case False
      then have "\<not> x_less (es_x y) (es_x z)" "es_x y = MInf \<or> (\<exists>a. es_x y = Fin a)" using srt y ok unfolding xs starts_ok_def by (auto simp: sorted_wrt_append)
      then show ?thesis using t(2) zx by (cases "es_x y") auto
    qed (use t in simp)
    then have "total_stats [xs] t = sum_deltas ys" using prefix_total [OF srt xs ok] t(1) L by (auto split: if_splits)
    then show ?thesis by (simp add: acc)
  qed
  have order: "\<not> x_less (es_x z) L"
  proof (cases "ys = []")
    case False
    then have "last ys \<in> set ys" by simp
    then show ?thesis using srt L False unfolding xs by (auto simp: sorted_wrt_append)
  qed (use L zx in \<open>auto\<close>)
  show ?thesis
  proof (cases "es_x z = L")
    case True
    then have "\<not> x_less (Fin e) (x_add (es_x z) (x_neg L))" using zx e by auto
    then have "optimize_step exact_reals metric type (Fin e) z st = (L, stats_plus exact_reals acc (es_delta z), best, le, pos)"
      by (simp add: optimize_step_def st)
    then show ?thesis using cases acc' True unfolding found_def by simp
  next
    case False
    then obtain l' where l': "es_x z = Fin l'" using order zx cases by (cases L) auto
    have gap: "x_less (Fin e) (x_add (es_x z) (x_neg L))"
    proof (cases L)
      case (Fin l)
      then have "ys \<noteq> []" "es_x (last ys) = Fin l" "l < l'" using L l' False order by (auto split: if_splits)
      then have "e < l' - l" using ok l' unfolding starts_ok_def xs by (metis Un_iff last_in_set list.set_intros(1) set_append)
      then show ?thesis using Fin l' by simp
    qed (use l' cases in auto)
    let ?sco = "metric (ss_fields acc)"
    let ?pos = "if le then fl_sub exact_reals (es_x z) (fl_div exact_reals (fl_of_int exact_reals 1) (fl_of_int exact_reals 10))
       else fl_add exact_reals L (fl_div exact_reals (fl_sub exact_reals (es_x z) L) (fl_of_int exact_reals 2))"
    have step: "optimize_step exact_reals metric type (Fin e) z st =
        (if better_score exact_reals type ?sco best then (es_x z, stats_plus exact_reals acc (es_delta z), ?sco, False, ?pos)
         else (es_x z, stats_plus exact_reals acc (es_delta z), best, le, pos))"
      using gap by (simp add: optimize_step_def st)
    from cases show ?thesis
    proof (elim disjE exE conjE)
      assume L: "L = MInf" and best: "best = Fin (if type = MAXIMIZE_SCORE then - F else F)" and le: le
      have all: "?sco = metric (total_stats [xs] t)" if "t < l'" for t by (rule inside) (use that l' L in auto)
      obtain r where r: "metric (total_stats [xs] (l' - 1 / 10)) = Fin r" "\<bar>r\<bar> < F" using metric by blast
      have sco: "?sco = Fin r" using all [of "l' - 1 / 10"] r by simp
      have "better_score exact_reals type ?sco best" using r(2) unfolding sco best better_score_Fin by (auto simp: at_best_def)
      moreover have "at_best type r q" if "t < l'" "metric (total_stats [xs] t) = Fin q" for t q
        using all [of t] that sco at_best_trans(2) by simp
      ultimately show ?thesis unfolding step found_def using acc' l' le r(1) sco by simp
    next
      fix l p r
      assume L: "L = Fin l" and le: "\<not> le" and pos: "pos = Fin p" "p < l" and best: "best = Fin r" and r: "metric (total_stats [xs] p) = Fin r"
        and below: "\<forall>t < l. \<forall>q. metric (total_stats [xs] t) = Fin q \<longrightarrow> at_best type r q"
      have ll: "l < l'" using L l' False order by auto
      have all: "?sco = metric (total_stats [xs] t)" if "l \<le> t" "t < l'" for t by (rule inside) (use that l' L in auto)
      obtain q where q: "metric (total_stats [xs] (l + (l' - l) / 2)) = Fin q" using metric by blast
      have mid: "l \<le> l + (l' - l) / 2" "l + (l' - l) / 2 < l'" using ll by (simp_all add: field_simps)
      have sco: "?sco = Fin q" using all [OF mid] q by simp
      show ?thesis
      proof (cases "at_best type r q")
        case True
        then have "\<forall>t < l'. \<forall>q. metric (total_stats [xs] t) = Fin q \<longrightarrow> at_best type r q" using below all sco by (metis linorder_not_le xreal.inject)
        then show ?thesis unfolding step sco best better_score_Fin using True acc' l' le r pos ll best by (auto simp: found_def)
      next
        case False
        have "at_best type q q'" if t: "t < l'" "metric (total_stats [xs] t) = Fin q'" for t q'
        proof (cases "t < l")
          case True
          then show ?thesis using below t False at_best_trans(1) by blast
        next
          case False
          then show ?thesis using all [of t] t sco at_best_trans(2) by auto
        qed
        moreover have "(if le then x else fl_add exact_reals L (fl_div exact_reals (fl_sub exact_reals (es_x z) L) (fl_of_int exact_reals 2))) = Fin (l + (l' - l) / 2)" for x
          using le L l' by simp
        ultimately show ?thesis unfolding step sco best better_score_Fin using False acc' l' q mid(2) by (auto simp: found_def)
      qed
    qed
  qed
qed

text \<open>C14. The line optimizer returns, and its position is a best one: the metric of the statistics at the
  position is the score returned, and at no other point of the line is it better. The surfaces start at minus
  infinity, their other segments at finite points further apart than \<open>epsilon\<close>.\<close>

theorem LineOptimize_best:
  assumes srt: "interval_sort srt" and ok: "starts_ok e (concat surfaces)" and e: "0 \<le> e"
    and metric: "\<And>t. \<exists>r. metric (total_stats surfaces t) = Fin r \<and> \<bar>r\<bar> < F"
  shows "\<exists>p r. LineOptimize exact_reals srt (Fin F) NaN metric surfaces type (Fin e) = Some (Fin p, Fin r) \<and>
    metric (total_stats surfaces p) = Fin r \<and> (\<forall>t q. metric (total_stats surfaces t) = Fin q \<longrightarrow> at_best type r q)"
proof -
  define xs where "xs = srt (concat surfaces)"
  have "\<forall>s \<in> set (concat surfaces). es_x s \<noteq> NaN" using ok unfolding starts_ok_def by fastforce
  then have m: "mset xs = mset (concat surfaces)" and sorted: "sorted_wrt (\<lambda>a b. \<not> x_less (es_x b) (es_x a)) xs"
    using srt unfolding interval_sort_def xs_def by blast+
  have set_xs: "set xs = set (concat surfaces)" using m by (rule mset_eq_setD)
  have total: "total_stats surfaces = total_stats [xs]"
    unfolding total_stats_def fun_eq_iff by (intro allI sum_deltas_mset) (simp add: m mset_filter)
  have okx: "starts_ok e xs" using ok unfolding starts_ok_def set_xs .
  note metric' = metric [unfolded total]
  obtain s0 where s0: "s0 \<in> set xs" "es_x s0 = MInf" using okx by (auto simp: starts_ok_def)
  then obtain z zs where front: "xs = z # zs" by (cases xs) auto
  have z: "es_x z = MInf"
  proof (rule ccontr)
    assume ne: "es_x z \<noteq> MInf"
    then have "s0 \<in> set zs" using s0 front by auto
    then have "\<not> x_less MInf (es_x z)" using sorted s0(2) front by auto
    then show False using ne okx unfolding starts_ok_def front by (cases "es_x z") auto
  qed
  let ?st0 = "(es_x z, empty_stats, if type = MAXIMIZE_SCORE then fl_neg exact_reals (Fin F) else Fin F, True, NaN)"
  have "found xs metric type F ys (fold (optimize_step exact_reals metric type (Fin e)) ys ?st0)" if "xs = ys @ zs" for ys zs
    using that
  proof (induction ys arbitrary: zs rule: rev_induct)
    case Nil
    then show ?case using z by (auto simp: found_def empty_stats_def)
  next
    case (snoc y ys)
    then show ?case using optimize_step_found [where metric = metric and F = F, OF sorted okx e metric', of ys y zs] by simp
  qed
  then have inv: "found xs metric type F xs (fold (optimize_step exact_reals metric type (Fin e)) xs ?st0)" by (metis append_Nil2)
  obtain L acc best le pos where st: "fold (optimize_step exact_reals metric type (Fin e)) xs ?st0 = (L, acc, best, le, pos)"
    by (cases "fold (optimize_step exact_reals metric type (Fin e)) xs ?st0") auto
  have run: "LineOptimize exact_reals srt (Fin F) NaN metric surfaces type (Fin e) = Some (if better_score exact_reals type (metric (ss_fields acc)) best
       then (if le then Fin 0 else x_add L (Fin 1000), metric (ss_fields acc)) else (pos, best))"
    using st front by (simp add: LineOptimize_def xs_def [symmetric] vfront_def)
  have L: "L = es_x (last xs)" and acc: "ss_fields acc = sum_deltas xs"
    and cases: "L = MInf \<and> best = Fin (if type = MAXIMIZE_SCORE then - F else F) \<and> le \<or>
      (\<exists>l p r. L = Fin l \<and> \<not> le \<and> pos = Fin p \<and> p < l \<and> best = Fin r \<and> metric (total_stats [xs] p) = Fin r \<and>
        (\<forall>t < l. \<forall>q. metric (total_stats [xs] t) = Fin q \<longrightarrow> at_best type r q))"
    using inv front unfolding found_def st prod.case by auto
  have all: "metric (ss_fields acc) = metric (total_stats [xs] t)" if "below L t" for t
    using prefix_total [OF sorted _ okx, of xs "[]" t] that L acc by simp
  show ?thesis
    using cases
  proof (elim disjE exE conjE)
    assume L: "L = MInf" and best: "best = Fin (if type = MAXIMIZE_SCORE then - F else F)" and le: le
    obtain r where r: "metric (total_stats [xs] 0) = Fin r" "\<bar>r\<bar> < F" using metric' by blast
    then have sco: "metric (ss_fields acc) = Fin r" using all L by simp
    have "better_score exact_reals type (Fin r) best" using r(2) unfolding best better_score_Fin by (auto simp: at_best_def)
    moreover have "at_best type r q" if "metric (total_stats [xs] t) = Fin q" for t q
      using that all [of t] sco L at_best_trans(2) by simp
    ultimately show ?thesis unfolding run sco total using le r(1) by auto
  next
    fix l p r
    assume L: "L = Fin l" and le: "\<not> le" and pos: "pos = Fin p" "p < l" and best: "best = Fin r" and r: "metric (total_stats [xs] p) = Fin r"
      and below: "\<forall>t < l. \<forall>q. metric (total_stats [xs] t) = Fin q \<longrightarrow> at_best type r q"
    obtain q where q: "metric (total_stats [xs] (l + 1000)) = Fin q" using metric' by blast
    then have sco: "metric (ss_fields acc) = Fin q" using all [of "l + 1000"] L by simp
    have above: "q' = q" if "l \<le> t" "metric (total_stats [xs] t) = Fin q'" for t q' using all [of t] that sco L by simp
    show ?thesis
    proof (cases "at_best type r q")
      case True
      then have "at_best type r q'" if "metric (total_stats [xs] t) = Fin q'" for t q'
        using that below above by (metis linorder_not_le)
      then show ?thesis unfolding run sco best better_score_Fin total using True pos r by auto
    next
      case False
      then have "at_best type q q'" if "metric (total_stats [xs] t) = Fin q'" for t q'
        using that below above at_best_trans by (metis linorder_not_le)
      then show ?thesis unfolding run sco best better_score_Fin total using False L le q by auto
    qed
  qed
qed

lemma interval_sort_sort_key: "interval_sort (sort_key es_x)"
  unfolding interval_sort_def
proof (intro allI impI conjI)
  fix segs :: "xreal error_segment list"
  have "sorted_wrt (\<lambda>a b. es_x a \<le> es_x b) (sort_key es_x segs)" using sorted_sort_key [of es_x segs] by (simp add: sorted_map)
  then show "sorted_wrt (\<lambda>a b. \<not> x_less (es_x b) (es_x a)) (sort_key es_x segs)"
    by (rule sorted_wrt_mono_rel [rotated]) (auto dest: x_less_less)
qed simp

definition demo_surfaces :: "xreal error_segment list list" where
  "demo_surfaces = [[\<lparr>es_x = MInf, es_delta = \<lparr>ss_id = ''X'', ss_fields = [Fin 1]\<rparr>\<rparr>, \<lparr>es_x = Fin 2, es_delta = \<lparr>ss_id = ''X'', ss_fields = [Fin 3]\<rparr>\<rparr>]]"

lemma demo_surfaces_at: "field_at (total_stats demo_surfaces t) 0 = Fin (if 2 \<le> t then 4 else 1)"
  by (simp add: demo_surfaces_def total_stats_def sum_deltas_def combine_fields_at) (simp add: field_at_def)

lemma LineOptimize_best_witness:
  "\<exists>p. LineOptimize exact_reals (sort_key es_x) (Fin 9) NaN (\<lambda>fs. field_at fs 0) demo_surfaces MAXIMIZE_SCORE (Fin 1) = Some (Fin p, Fin 4) \<and> 2 \<le> p"
proof -
  have ok: "starts_ok 1 (concat demo_surfaces)" by (auto simp: demo_surfaces_def starts_ok_def)
  have "\<exists>r. field_at (total_stats demo_surfaces t) 0 = Fin r \<and> \<bar>r\<bar> < 9" for t by (simp add: demo_surfaces_at)
  then obtain p r where p: "LineOptimize exact_reals (sort_key es_x) (Fin 9) NaN (\<lambda>fs. field_at fs 0) demo_surfaces MAXIMIZE_SCORE (Fin 1) = Some (Fin p, Fin r)"
    "field_at (total_stats demo_surfaces p) 0 = Fin r" "\<forall>t q. field_at (total_stats demo_surfaces t) 0 = Fin q \<longrightarrow> at_best MAXIMIZE_SCORE r q"
    using LineOptimize_best [OF interval_sort_sort_key ok, of "\<lambda>fs. field_at fs 0" 9 MAXIMIZE_SCORE] by auto
  have "at_best MAXIMIZE_SCORE r 4" using p(3) demo_surfaces_at [of 2] by simp
  then have "r = 4" "2 \<le> p" using p(2) demo_surfaces_at [of p] by (auto simp: at_best_def split: if_splits)
  then show ?thesis using p(1) by auto
qed

section \<open>The statistics of the best translations\<close>

lemma stats_minus_fields: "field_at (ss_fields (stats_minus exact_reals s d)) i = x_add (field_at (ss_fields s) i) (x_neg (field_at (ss_fields d) i))"
  by (simp add: stats_minus_def combine_fields_at)

lemma field_at_finite: "\<forall>x \<in> set xs. \<exists>r. x = Fin r \<Longrightarrow> \<exists>r. field_at xs i = Fin r"
  by (simp add: field_at_def)

lemma additive_identity_fields: "IsAdditiveIdentity exact_reals s \<longleftrightarrow> (\<forall>i. field_at (ss_fields s) i = Fin 0)"
  by (auto simp: IsAdditiveIdentity_def list_all_length field_at_def)

text \<open>After the segments before the \<open>k\<close>-th, the deltas add up to the last statistics.\<close>

definition surface_upto :: "('d, 'e) mert_point list \<Rightarrow> (nat \<Rightarrow> int list) \<Rightarrow> (int list \<Rightarrow> 'd sufficient_stats) \<Rightarrow> nat \<Rightarrow>
    'd error_segment list \<times> int list \<times> 'd sufficient_stats \<Rightarrow> bool" where
  "surface_upto segs tr evaluate k st = (case st of (env, prev_trans, prev_score) \<Rightarrow>
     (if k = 0 then st = ([], [], empty_stats) else prev_trans = tr (k - 1) \<and> prev_score = evaluate (tr (k - 1))) \<and>
     (\<forall>s \<in> set env. \<exists>j < k. es_x s = mp_x (segs ! j)))"

definition sums_to :: "xreal error_segment list \<times> int list \<times> xreal sufficient_stats \<Rightarrow> bool" where
  "sums_to st = (case st of (env, prev_trans, prev_score) \<Rightarrow> \<forall>i. field_at (sum_deltas env) i = field_at (ss_fields prev_score) i)"

lemma surface_step_run:
  assumes k: "k < length segs" and tr: "ConstructTranslation (segs ! k) = Some (tr k)" "tr 0 \<noteq> []"
    and fin: "\<And>j. j \<le> k \<Longrightarrow> \<forall>x \<in> set (ss_fields (evaluate (tr j))). \<exists>r. x = Fin r"
    and inv: "surface_upto segs tr evaluate k st" "sums_to st"
  shows "\<exists>st' rest. surface_step exact_reals True evaluate (segs ! k) st = Some st' \<and> surface_upto segs tr evaluate (Suc k) st' \<and> sums_to st' \<and>
    fst st' = fst st @ rest \<and> (\<forall>s \<in> set rest. es_x s = mp_x (segs ! k))"
proof -
  obtain env prev score where st: "st = (env, prev, score)" by (cases st) auto
  have sum: "field_at (sum_deltas env) i = field_at (ss_fields score) i" for i using inv(2) by (simp add: sums_to_def st)
  have xs: "\<forall>s \<in> set env. \<exists>j < k. es_x s = mp_x (segs ! j)" using inv(1) by (simp add: surface_upto_def st)
  show ?thesis
  proof (cases "tr k = prev")
    case True
    have "k \<noteq> 0"
    proof
      assume "k = 0"
      then have "prev = []" using inv(1) by (simp add: surface_upto_def st)
      then show False using True tr(2) \<open>k = 0\<close> by simp
    qed
    then have "prev = tr (k - 1)" "score = evaluate (tr (k - 1))" using inv(1) by (auto simp: surface_upto_def st)
    then have "surface_upto segs tr evaluate (Suc k) st" using True xs by (auto simp: surface_upto_def st intro: less_SucI)
    moreover have "surface_step exact_reals True evaluate (segs ! k) st = Some st" using True tr(1) by (simp add: surface_step_def st)
    ultimately show ?thesis using inv(2) by (intro exI [of _ st] exI [of _ "[]"]) auto
  next
    case False
    let ?new = "evaluate (tr k)"
    let ?delta = "stats_minus exact_reals ?new score"
    let ?rest = "if IsAdditiveIdentity exact_reals ?delta then [] else [\<lparr>es_x = mp_x (segs ! k), es_delta = ?delta\<rparr>]"
    have old: "\<exists>r. field_at (ss_fields score) i = Fin r" for i
    proof (cases "k = 0")
      case True
      then show ?thesis using inv(1) by (simp add: surface_upto_def st empty_stats_def field_at_def)
    next
      case False
      then have "score = evaluate (tr (k - 1))" using inv(1) by (auto simp: surface_upto_def st)
      then show ?thesis using fin [of "k - 1"] field_at_finite by auto
    qed
    have new: "\<exists>r. field_at (ss_fields ?new) i = Fin r" for i using fin [of k] field_at_finite by auto
    have add: "x_add (field_at (ss_fields score) i) (field_at (ss_fields ?delta) i) = field_at (ss_fields ?new) i" for i
      using old [of i] new [of i] unfolding stats_minus_fields by auto
    have "surface_step exact_reals True evaluate (segs ! k) st = Some (env @ ?rest, tr k, ?new)"
      using False tr(1) by (simp add: surface_step_def st Let_def)
    moreover have "sums_to (env @ ?rest, tr k, ?new)"
      using add unfolding sums_to_def prod.case
      by (auto simp: combine_fields_at sum additive_identity_fields)
    moreover have "surface_upto segs tr evaluate (Suc k) (env @ ?rest, tr k, ?new)" using xs by (auto simp: surface_upto_def intro: less_SucI)
    ultimately show ?thesis by (intro exI [of _ "(env @ ?rest, tr k, ?new)"] exI [of _ ?rest]) (simp add: st)
  qed
qed

lemma surface_run:
  assumes tr: "\<And>k. k < length segs \<Longrightarrow> ConstructTranslation (segs ! k) = Some (tr k)" "tr 0 \<noteq> []"
    and fin: "\<And>k. k < length segs \<Longrightarrow> \<forall>x \<in> set (ss_fields (evaluate (tr k))). \<exists>r. x = Fin r"
  shows "n \<le> length segs \<Longrightarrow> \<exists>st. for_each (take n segs) (surface_step exact_reals True evaluate) ([], [], empty_stats) = Some st \<and>
    surface_upto segs tr evaluate n st \<and> sums_to st \<and> (\<forall>k \<le> n. \<exists>st' rest. surface_upto segs tr evaluate k st' \<and> sums_to st' \<and>
      fst st = fst st' @ rest \<and> (\<forall>s \<in> set rest. \<exists>j. k \<le> j \<and> j < n \<and> es_x s = mp_x (segs ! j)))"
proof (induction n)
  case 0
  then show ?case by (intro exI [of _ "([], [], empty_stats)"]) (auto simp: surface_upto_def sums_to_def empty_stats_def)
next
  case (Suc n)
  then obtain st where st: "for_each (take n segs) (surface_step exact_reals True evaluate) ([], [], empty_stats) = Some st" "surface_upto segs tr evaluate n st"
    "sums_to st" and pre: "\<And>k. k \<le> n \<Longrightarrow> \<exists>st' rest. surface_upto segs tr evaluate k st' \<and> sums_to st' \<and>
      fst st = fst st' @ rest \<and> (\<forall>s \<in> set rest. \<exists>j. k \<le> j \<and> j < n \<and> es_x s = mp_x (segs ! j))" by auto
  have n: "n < length segs" using Suc.prems by simp
  have "\<forall>x \<in> set (ss_fields (evaluate (tr j))). \<exists>r. x = Fin r" if "j \<le> n" for j by (rule fin) (use that n in simp)
  then obtain st2 rest2 where st2: "surface_step exact_reals True evaluate (segs ! n) st = Some st2" "surface_upto segs tr evaluate (Suc n) st2" "sums_to st2"
    "fst st2 = fst st @ rest2" "\<forall>s \<in> set rest2. es_x s = mp_x (segs ! n)"
    using surface_step_run [OF n tr(1) [OF n] tr(2) _ st(2,3)] by blast
  have "\<exists>st' rest. surface_upto segs tr evaluate k st' \<and> sums_to st' \<and> fst st2 = fst st' @ rest \<and>
      (\<forall>s \<in> set rest. \<exists>j. k \<le> j \<and> j < Suc n \<and> es_x s = mp_x (segs ! j))" if k: "k \<le> Suc n" for k
  proof (cases "k = Suc n")
    case True
    then show ?thesis using st2 by (intro exI [of _ st2] exI [of _ "[]"]) simp
  next
    case False
    then obtain st' rest where "surface_upto segs tr evaluate k st'" "sums_to st'" "fst st = fst st' @ rest" "\<forall>s \<in> set rest. \<exists>j. k \<le> j \<and> j < n \<and> es_x s = mp_x (segs ! j)"
      using pre [of k] k by auto
    then show ?thesis using st2(4,5) False k by (intro exI [of _ st'] exI [of _ "rest @ rest2"]) (simp, metis Suc_leI Un_iff le_neq_implies_less less_Suc_eq less_Suc_eq_le set_append)
  qed
  then show ?case using st(1) st2 n by (intro exI [of _ st2]) (simp add: take_Suc_conv_app_nth for_each_append)
qed

text \<open>C26. The error surface of a hull returns the statistics of its translations: at every point of a segment the
  deltas of the segments up to it add up to the statistics of the translation of that segment. The first
  translation must not be empty, and some statistics not zero.\<close>

theorem ComputeErrorSurface_statistics:
  assumes segs: "GetSortedSegs exact_reals srt H = Some segs" "segments segs"
    and tr: "\<And>k. k < length segs \<Longrightarrow> ConstructTranslation (segs ! k) = Some (tr k)" "tr 0 \<noteq> []"
    and fin: "\<And>k. k < length segs \<Longrightarrow> \<forall>x \<in> set (ss_fields (evaluate (tr k))). \<exists>r. x = Fin r"
    and some: "m < length segs" "field_at (ss_fields (evaluate (tr m))) l \<noteq> Fin 0"
  shows "\<exists>env. ComputeErrorSurface exact_reals srt evaluate H = Some env \<and>
    (\<forall>k t i. active segs k t \<longrightarrow> (\<forall>a. next_x segs k = Fin a \<longrightarrow> t < a) \<longrightarrow> field_at (total_stats [env] t) i = field_at (ss_fields (evaluate (tr k))) i)"
proof -
  obtain st where run: "for_each segs (surface_step exact_reals True evaluate) ([], [], empty_stats) = Some st"
    and pre: "\<And>k. k \<le> length segs \<Longrightarrow> \<exists>st' rest. surface_upto segs tr evaluate k st' \<and> sums_to st' \<and>
      fst st = fst st' @ rest \<and> (\<forall>s \<in> set rest. \<exists>j. k \<le> j \<and> j < length segs \<and> es_x s = mp_x (segs ! j))"
    using surface_run [where evaluate = evaluate and segs = segs and tr = tr, OF tr fin, of "length segs"] by auto
  have at: "field_at (total_stats [fst st] t) i = field_at (ss_fields (evaluate (tr k))) i"
    if k: "active segs k t" and t: "\<forall>a. next_x segs k = Fin a \<longrightarrow> t < a" for k t i
  proof -
    have kl: "k < length segs" "below (mp_x (segs ! k)) t" using k by (auto simp: active_def)
    obtain env' prev score rest where st': "surface_upto segs tr evaluate (Suc k) (env', prev, score)" "sums_to (env', prev, score)"
      "fst st = env' @ rest" "\<forall>s \<in> set rest. \<exists>j. Suc k \<le> j \<and> j < length segs \<and> es_x s = mp_x (segs ! j)"
      using pre [of "Suc k"] kl by auto
    have "below (es_x s) t" if "s \<in> set env'" for s
      using st'(1) that segments_mono [OF segs(2) _ kl] by (fastforce simp: surface_upto_def)
    moreover have "\<not> below (es_x s) t" if s: "s \<in> set rest" for s
    proof
      assume "below (es_x s) t"
      then obtain j where j: "Suc k \<le> j" "j < length segs" "below (mp_x (segs ! j)) t" using st'(4) s by metis
      then have "below (mp_x (segs ! Suc k)) t" using segments_mono [OF segs(2) j(1,2)] by blast
      moreover have "Suc k < length segs" using j by simp
      then obtain a where "mp_x (segs ! Suc k) = Fin a" using segs(2) unfolding segments_def by blast
      ultimately show False using t j by (auto simp: next_x_def)
    qed
    ultimately have "filter (\<lambda>s. below (es_x s) t) (fst st) = env'" unfolding st'(3) by (intro filter_prefix) auto
    then show ?thesis using st'(1,2) by (simp add: total_stats_def sums_to_def surface_upto_def)
  qed
  have "fst st \<noteq> []"
  proof
    assume empty: "fst st = []"
    obtain env' prev score where st': "surface_upto segs tr evaluate (Suc m) (env', prev, score)" "sums_to (env', prev, score)" "env' = []"
      using pre [of "Suc m"] some(1) empty by auto
    then show False using some(2) by (auto simp: sums_to_def surface_upto_def field_at_def [of "[]"])
  qed
  then have "ComputeErrorSurface exact_reals srt evaluate H = Some (fst st)"
    using segs(1) run by (cases st) (simp add: ComputeErrorSurface_def)
  then show ?thesis using at by blast
qed

text \<open>The envelope of the two words: the word 7 up to 1, the word 8 from there, with their numbers as statistics.\<close>

lemma ComputeErrorSurface_statistics_witness:
  "\<exists>env. ComputeErrorSurface exact_reals (sort_key mp_m) (\<lambda>tr. \<lparr>ss_id = ''X'', ss_fields = [Fin (of_int (sum_list tr))]\<rparr>)
      \<lparr>ch_sorted = True, ch_points = [MERTPoint MInf (Fin 0) (Fin 1) None None (Some (hg_edges two_words ! 0)),
         MERTPoint (Fin 1) (Fin 1) (Fin 0) None None (Some (hg_edges two_words ! 1))]\<rparr> = Some env \<and>
    field_at (total_stats [env] 0) 0 = Fin 7 \<and> field_at (total_stats [env] 5) 0 = Fin 8"
proof -
  let ?p = "MERTPoint MInf (Fin 0) (Fin 1) None None (Some (hg_edges two_words ! 0))"
    and ?q = "MERTPoint (Fin 1) (Fin 1) (Fin 0) None None (Some (hg_edges two_words ! 1))"
  let ?H = "\<lparr>ch_sorted = True, ch_points = [?p, ?q]\<rparr>"
  let ?e = "\<lambda>tr :: int list. \<lparr>ss_id = ''X'', ss_fields = [Fin (of_int (sum_list tr))]\<rparr>" and ?tr = "\<lambda>k :: nat. if k = 0 then [7 :: int] else [8]"
  have segs: "GetSortedSegs exact_reals (sort_key mp_m) ?H = Some [?p, ?q]" "segments [?p, ?q]"
    by (simp_all add: GetSortedSegs_def make_sorted_def segments_def)
  have tr: "ConstructTranslation ([?p, ?q] ! k) = Some (?tr k)" if "k < length [?p, ?q]" for k
    using that by (cases k) (simp_all add: ConstructTranslation_def substitute_edge_def two_words_def ESubstitute_def)
  have "\<exists>env. ComputeErrorSurface exact_reals (sort_key mp_m) ?e ?H = Some env \<and>
    (\<forall>k t i. active [?p, ?q] k t \<longrightarrow> (\<forall>a. next_x [?p, ?q] k = Fin a \<longrightarrow> t < a) \<longrightarrow> field_at (total_stats [env] t) i = field_at (ss_fields (?e (?tr k))) i)"
    by (rule ComputeErrorSurface_statistics [where tr = ?tr and m = 0 and l = 0, OF segs tr]) (auto simp: field_at_def)
  then obtain env where env: "ComputeErrorSurface exact_reals (sort_key mp_m) ?e ?H = Some env"
    and at: "\<And>k t. active [?p, ?q] k t \<Longrightarrow> (\<forall>a. next_x [?p, ?q] k = Fin a \<longrightarrow> t < a) \<Longrightarrow>
      field_at (total_stats [env] t) 0 = field_at (ss_fields (?e (?tr k))) 0" by blast
  have act: "active [?p, ?q] 0 0" "active [?p, ?q] 1 5" "next_x [?p, ?q] 0 = Fin 1" "next_x [?p, ?q] 1 = PInf"
    by (simp_all add: active_def next_x_def)
  have "field_at (total_stats [env] 0) 0 = Fin 7" using at [OF act(1)] act(3) by (simp add: field_at_def)
  moreover have "field_at (total_stats [env] 5) 0 = Fin 8" using at [OF act(2)] act(4) by (simp add: field_at_def)
  ultimately show ?thesis using env by blast
qed

text \<open>An empty first translation is taken for one already scored; if it is the only one, the assertion fails.\<close>

lemma ComputeErrorSurface_empty_translation:
  assumes "GetSortedSegs exact_reals srt H = Some [p]" "ConstructTranslation p = Some []"
  shows "ComputeErrorSurface exact_reals srt evaluate H = None"
  using assms by (simp add: ComputeErrorSurface_def surface_step_def)

end
