(* ===== verification/Spec2Isabelle.thy ===== *)
theory Spec2Isabelle
  imports SuffixLookup SuffixLcp TrieLinks Compile Subsets KBest ParseTrees Ter Bleu LineOptimizer
begin

text \<open>
  A verification library for cdec. The parts modelled are the grammar extractor
  (\<open>extractor/\<close>), which from a word-aligned parallel corpus and a list of sentences extracts the
  synchronous context-free rules that match each sentence, the hypergraphs of the decoder
  (\<open>decoder/\<close>), in which it packs the translations of a sentence and sums over them, the metrics
  (\<open>mteval/\<close>) that compare a translation with references, and the minimum error rate training
  (\<open>training/dpmert/\<close>) that chooses weights by them.

  How the extractor runs. \<open>run_extractor\<close> numbers the words of the corpus (\<open>DataArray\<close>), sorts its
  suffixes (\<open>SuffixArray\<close>), indexes the collocations of frequent patterns (\<open>Precomputation\<close>),
  counts linked words (\<open>TranslationTable\<close>) and then, for each sentence, searches all source
  phrases in breadth-first order (\<open>HieroCachingRuleFactory\<close>): a phrase's occurrences come from
  the suffix array (\<open>MatchingsFinder\<close>) or from those of its prefix and suffix
  (\<open>FastIntersector\<close>), a sample of them (\<open>Sampler\<close>) is projected through the word links
  (\<open>RuleExtractor\<close>, \<open>RuleExtractorHelper\<close>, \<open>TargetPhraseExtractor\<close>) and scored (\<open>Scorer\<close>).
  \<open>sacompile\<close> and \<open>extract\<close> do the same in two steps, with archives in between.

  Theories, in the order of the code:
  \<^item> \<open>Prelude\<close>: vectors with checked accesses, counted loops and their rules, strings.
  \<^item> \<open>Corpus\<close>: \<open>vocabulary\<close>, \<open>data_array\<close>, \<open>alignment\<close>; the numbering is a bijection and the corpus
    reads back.
  \<^item> \<open>Phrases\<close>: \<open>phrase\<close>, \<open>phrase_builder\<close>, \<open>phrase_location\<close>.
  \<^item> \<open>SuffixArrays\<close>: \<open>suffix_array\<close>, \<open>matchings_finder\<close>; \<open>SuffixSort\<close>, \<open>SuffixBuild\<close>: the ternary
    quicksort, the prefix doubling and the bucket sort end and sort, whatever \<open>rand()\<close> returns;
    \<open>SuffixLookup\<close>: the lookups find exactly the occurrences; \<open>SuffixLcp\<close>: the array of common
    prefixes.
  \<^item> \<open>Precomputed\<close>: \<open>precomputation\<close>; \<open>Intersect\<close>: \<open>fast_intersector\<close>.
  \<^item> \<open>Spans\<close>: \<open>rule_extractor_helper\<close>; \<open>TargetPhrases\<close>: \<open>target_phrase_extractor\<close>,
    one phrase for every choice of chunk limits, with the symbols and links it determines.
  \<^item> \<open>Doubles\<close>: the operations on \<open>double\<close>, a parameter; \<open>OrderedMap\<close>: \<open>std::map\<close>.
  \<^item> \<open>TransTable\<close>: \<open>translation_table\<close>; \<open>Features\<close>: \<open>features/\<close>, \<open>scorer\<close>, \<open>rule\<close>, \<open>grammar\<close>.
  \<^item> \<open>RuleExtraction\<close>: \<open>rule_extractor\<close>; \<open>Samplers\<close>: the samplers.
  \<^item> \<open>RuleFactory\<close>: \<open>matchings_trie\<close>, \<open>rule_factory\<close>, \<open>grammar_extractor\<close>; \<open>TrieLinks\<close>: the suffix links
    of the trie lead to the suffixes.
  \<^item> \<open>RunExtractor\<close>, \<open>Compile\<close>: the three programs, and that the two ways agree.

  How the decoder keeps translations. A hypergraph has a node per partial translation and an edge
  per application of a rule (\<open>TRule\<close>) to nodes, its tails; a derivation of a node picks an in-edge and
  a derivation of each tail. Weights of edges are numbers kept as logarithms (\<open>LogVal\<close>).
  \<^item> \<open>Rules\<close>: \<open>trule\<close>; \<open>Hypergraphs\<close>: nodes, edges and the building operations of \<open>hg.h\<close>, with the
    invariant that in-edges, out-edges, heads and tails agree.
  \<^item> \<open>LogVal\<close>: \<open>utils/logval.h\<close>, and what its operations compute over exact reals.
  \<^item> \<open>Inside\<close>: the inside algorithm of \<open>inside_outside.h\<close>; the locale \<open>semiring_on\<close> states the laws of
    the weights, and is interpreted for the four weight types of the decoder.
  \<^item> \<open>SparseVectors\<close>: \<open>utils/fast_sparse_vector.h\<close>, which refines functions from indices to numbers.
  \<^item> \<open>Outside\<close>: the outside algorithm and what \<open>hg.cc\<close> computes with both scores; it is proved by
    solving the linear system of the outside scores with the expected counts of the edges.
    \<open>Posteriors\<close>: the scores of edges are expected counts; \<open>Pushing\<close>: pushing weights to the goal makes
    them conditional probabilities.
  \<^item> \<open>Viterbi\<close>: the best derivation (\<open>viterbi.h\<close>, \<open>viterbi.cc\<close>) and what the traversals compute along it.
  \<^item> \<open>SubGraphs\<close>: the specification of the next three, the subgraph on an order of nodes and a list of
    edges, and its derivations; \<open>TopoSort\<close>: \<open>TopologicallySortNodesAndEdges\<close>, a search with its own stack,
    and that it ends on graphs without cycles; \<open>Pruning\<close>: \<open>PruneEdges\<close> and the masks of the pruning
    functions; \<open>Subsets\<close>: \<open>indices_after.h\<close>, the subsets by masks and \<open>CreateViterbiHypergraph\<close>.
  \<^item> \<open>KBest\<close>: the lazy enumeration of the best derivations (\<open>kbest.h\<close>). A derivation is looked up by its key, an
    edge and numbers of derivations of the tails; the candidates of a node bound all keys not yet found, so
    the keys come in order. The number of nodes is enough fuel, as calls go to tails; the loops end by a measure.

  How the decoder parses. The default translator fills a chart of spans with the rules of some grammars that match
  the words of the input and the nodes of smaller spans; every application is an edge of the hypergraph.
  \<^item> \<open>InputLattice\<close>: \<open>array2d.h\<close>, \<open>lattice\<close>; \<open>Grammars\<close>: \<open>grammar\<close> and the two grammars of
    \<open>scfg_translator.cc\<close>; the trie of rules refines a function from source sides to rules.
  \<^item> \<open>BottomUp\<close>: \<open>bottom_up_parser.cc\<close>, except for the hashes of nodes. The capacity of the vector of nodes is part of
    the state, as references into it are kept while it grows. The search of \<open>TopoSortUnaries\<close> has as fuel
    twice the number of rules and two more, enough as its calls go to categories not yet marked; \<open>UnarySort\<close>: it returns, and
    what it keeps is in topological order.
  \<^item> \<open>ChartParsing\<close>: the invariant of the passive chart, and that applying a rule keeps it; \<open>ChartMatches\<close>: the
    nodes and words that match the source side of a rule; \<open>ChartItems\<close>, \<open>ChartSpans\<close>: the active items are the
    matches of the paths of the trie, through the extension of items, the application of their rules and of the unary
    rules; \<open>ChartVisit\<close>: the visit of a span; \<open>ChartFill\<close>: all spans, with the rules applied on each, once.
  \<^item> \<open>ParseTrees\<close>: the parse trees of a sentence, defined without the chart, are the derivations of the goal.
    Inputs are sentences and not general lattices there, and the categories few enough for the vector of nodes
    (\<open>few_cats\<close>), as otherwise \<open>ApplyUnaryRules\<close> reads a reference into memory that was freed.

  How translations are scored. A metric computes from a hypothesis and its references numbers that add up over
  a corpus, and a score from the sums.
  \<^item> \<open>EditDistance\<close>: \<open>levenshtein.h\<close> against the least cost of an edit script, and the word and character error
    rates (\<open>ns_wer.cc\<close>, \<open>ns_cer.cc\<close>).
  \<^item> \<open>Ter\<close>: the translation edit rate (\<open>ter.cc\<close>, \<open>ns_ter.cc\<close>): the packed shifts, the table with its trace back,
    and that the greedy search for shifts ends, each shift being a move of a block of words.
  \<^item> \<open>Bleu\<close>: BLEU (\<open>ns.cc\<close>, \<open>scorer.cc\<close>): the counts of n-grams are those of multisets.

  How weights are trained. Minimum error rate training moves the weights along a line; the best translations
  of a sentence are then the upper envelope of lines, one for each derivation.
  \<^item> \<open>MertGeometry\<close>: \<open>mert_geometry.cc\<close>, the envelopes as weights of the inside algorithm. Sorting, sum and product
    are those of envelopes of sets of derivations, which is all the inside algorithm needs (\<open>Inside_rule\<close>), as
    envelopes are not equal but only equivalent under the laws of a semiring.
  \<^item> \<open>LineOptimizer\<close>: the statistics along the line (\<open>ces.cc\<close>) and the point where the metric is best
    (\<open>line_optimizer.cc\<close>).

  Conventions. Functions and members keep the names of the source. A run is a value of type
  \<open>option\<close>: \<open>None\<close> is an access out of range, a null pointer, an exception or an assertion that
  fails. An \<open>int\<close> is an integer: the corpus is taken to have less than \<open>2 ^ 31\<close> words, which
  bounds every position, length and count of the model; the conversions of a negative \<open>int\<close> to
  \<open>size_t\<close> that the code relies on are written out (\<open>to_size_t\<close>). A vector is a list, a hash map a
  map, a \<open>std::map\<close> a sorted association list. Output parameters are returned; the vocabulary,
  which all parts share, is threaded through. The nodes of the trie live in a store and pointers
  are addresses. Recursion follows the loops of the code: it ends by a measure, except the sort
  and the backward search of the sampler, which are partial functions with the proof that they
  return (\<open>BuildSuffixArray_sorted\<close>, \<open>Sample_range\<close>).

  Parameters: \<open>rand()\<close> as a function of the number of the draw, the arithmetic of \<open>double\<close> (the
  record \<open>floats\<close>; \<open>exact\<close> is the rational instance), \<open>boost::split\<close>, the operators of
  \<open>boost::filesystem\<close>, the order in which a hash map is written to an archive.

  Where the model differs in a corner: \<open>load_data_array\<close> starts from an empty word map, where the code keeps the
  two entries of the default constructor, which every array made from a file has; \<open>RuleFactory\<close> compares the limit on symbols
  as an integer, where the code converts a negative one; the hash map of \<open>FastSparseVector\<close> has no key
  reserved for deleted entries.

  Not modelled: the parsing of command lines, clocks and messages, the threads of the extraction
  loop (the model takes the sentences in order), the config file of \<open>sacompile\<close>; and the rest of
  the repository: the other parsers and the models of the decoder, the language models, the other trainers, the aligner, the other metrics, and
  the bindings.
\<close>

end
